(* ===== verification/Prelude.thy ===== *)
theory Prelude
  imports Main "HOL-Library.Word" "HOL-Library.AList" "HOL-Library.Char_ord"
    "HOL-Library.List_Lexorder"
begin

text \<open>
  Shared base of the development: Go's clock values and 64-bit durations, pointers to
  optional values, the small string functions of Go's standard library that several
  components call, and generic facts on lists and runs of state machines.

  Conventions used by every theory.
  \<^item> A \<open>time.Duration\<close> is an \<open>int\<close> counting nanoseconds. Where the code's arithmetic can
    overflow and the code reacts to that (the backoff curve), the wrap-around is written
    out with \<open>wrap64\<close>.
  \<^item> A \<open>time.Time\<close> is an \<open>int\<close> counting nanoseconds since the zero \<open>Time\<close>, so
    \<open>t.IsZero()\<close> is \<open>t = 0\<close>; \<open>t.Sub(u)\<close> saturates at the range of a duration.
  \<^item> A pointer used as an optional value is an \<open>option\<close>; \<open>nil\<close> is \<open>None\<close>.
  \<^item> Strings are character lists; the string functions below look at ASCII only.
  \<^item> An error return is the left side of a sum.
\<close>

section \<open>Collections of facts\<close>

named_theorems model_defs \<open>definitions to unfold when a proof computes with the model\<close>
named_theorems time_defs \<open>durations and clock arithmetic\<close>

section \<open>Durations and clock values\<close>

type_synonym duration = int
type_synonym instant = int

definition min_int64 :: int where [time_defs]: "min_int64 = - (2 ^ 63)"
definition max_int64 :: int where [time_defs]: "max_int64 = 2 ^ 63 - 1"

text \<open>Two's complement wrap-around of a 64-bit signed integer.\<close>

definition wrap64 :: "int \<Rightarrow> int" where
  "wrap64 x = (x + 2 ^ 63) mod 2 ^ 64 - 2 ^ 63"

lemma wrap64_bounds: "min_int64 \<le> wrap64 x \<and> wrap64 x \<le> max_int64"
  by (auto simp: wrap64_def time_defs)

lemma wrap64_id [simp]: "min_int64 \<le> x \<Longrightarrow> x \<le> max_int64 \<Longrightarrow> wrap64 x = x"
  by (simp add: wrap64_def time_defs)

lemma wrap64_word: "wrap64 x = sint (word_of_int x :: 64 word)"
proof -
  have "sint (word_of_int x :: 64 word) = signed_take_bit 63 x"
    by (simp add: sint_sbintrunc')
  also have "\<dots> = (x + 2 ^ 63) mod 2 ^ 64 - 2 ^ 63"
    by (simp add: signed_take_bit_eq_take_bit_shift take_bit_eq_mod)
  finally show ?thesis by (simp add: wrap64_def)
qed

text \<open>\<open>time.Time.Sub\<close>: the difference of two instants, saturated.\<close>

definition time_sub :: "instant \<Rightarrow> instant \<Rightarrow> duration" where
  "time_sub t u = max min_int64 (min max_int64 (t - u))"

lemma time_sub_id: "min_int64 \<le> t - u \<Longrightarrow> t - u \<le> max_int64 \<Longrightarrow> time_sub t u = t - u"
  by (simp add: time_sub_def)

lemma time_sub_mono: "t \<le> t' \<Longrightarrow> time_sub t u \<le> time_sub t' u"
  by (auto simp: time_sub_def)

definition nanosecond :: duration where [time_defs]: "nanosecond = 1"
definition second :: duration where [time_defs]: "second = 1000000000"
definition minute :: duration where [time_defs]: "minute = 60 * second"
definition hour :: duration where [time_defs]: "hour = 60 * minute"

section \<open>Optional values\<close>

text \<open>\<open>model.OrDefault\<close>: the value behind a pointer, or a fallback for \<open>nil\<close>.\<close>

definition OrDefault :: "'a option \<Rightarrow> 'a \<Rightarrow> 'a" where
  "OrDefault p fallback = (case p of None \<Rightarrow> fallback | Some v \<Rightarrow> v)"

lemma OrDefault_simps [simp]:
  "OrDefault None d = d"
  "OrDefault (Some v) d = v"
  by (simp_all add: OrDefault_def)

section \<open>Strings\<close>

definition is_space :: "char \<Rightarrow> bool" where
  "is_space c \<longleftrightarrow> c \<in> {CHR 0x20, CHR 0x09, CHR 0x0A, CHR 0x0B, CHR 0x0C, CHR 0x0D}"

definition is_digit :: "char \<Rightarrow> bool" where
  "is_digit c \<longleftrightarrow> CHR ''0'' \<le> c \<and> c \<le> CHR ''9''"

definition TrimSpace :: "string \<Rightarrow> string" where
  "TrimSpace s = rev (dropWhile is_space (rev (dropWhile is_space s)))"

text \<open>\<open>strings.Cut\<close> at a single-character separator: before, after, found.\<close>

fun Cut :: "char \<Rightarrow> string \<Rightarrow> string \<times> string \<times> bool" where
  "Cut c [] = ([], [], False)"
| "Cut c (x # xs) = (if x = c then ([], xs, True)
     else (case Cut c xs of (b, a, f) \<Rightarrow> (x # b, a, f)))"

lemma Cut_found: "Cut c s = (b, a, True) \<Longrightarrow> s = b @ c # a \<and> c \<notin> set b"
  by (induction s arbitrary: b) (auto split: if_splits prod.splits)

lemma Cut_not_found: "Cut c s = (b, a, False) \<Longrightarrow> s = b \<and> a = [] \<and> c \<notin> set b"
  by (induction s arbitrary: b) (auto split: if_splits prod.splits)

text \<open>\<open>strings.CutPrefix\<close>.\<close>

fun CutPrefix :: "string \<Rightarrow> string \<Rightarrow> string option" where
  "CutPrefix [] s = Some s"
| "CutPrefix (p # ps) [] = None"
| "CutPrefix (p # ps) (c # cs) = (if p = c then CutPrefix ps cs else None)"

lemma CutPrefix_Some: "CutPrefix p s = Some r \<longleftrightarrow> s = p @ r"
  by (induction p s rule: CutPrefix.induct) auto

text \<open>\<open>strings.Split\<close> at a single-character separator, and \<open>strings.Fields\<close>.\<close>

fun Split :: "char \<Rightarrow> string \<Rightarrow> string list" where
  "Split c [] = [[]]"
| "Split c (x # xs) = (if x = c then [] # Split c xs
     else (case Split c xs of [] \<Rightarrow> [[x]] | w # ws \<Rightarrow> (x # w) # ws))"

lemma Split_nonempty [simp]: "Split c s \<noteq> []"
  by (cases s) (auto split: list.splits)

fun Join :: "string \<Rightarrow> string list \<Rightarrow> string" where
  "Join sep [] = []"
| "Join sep [w] = w"
| "Join sep (w # ws) = w @ sep @ Join sep ws"

lemma Join_Cons: "ws \<noteq> [] \<Longrightarrow> Join sep (w # ws) = w @ sep @ Join sep ws"
  by (cases ws) auto

lemma Join_Split: "Join [c] (Split c s) = s"
proof (induction s)
  case (Cons x xs)
  obtain w ws where s: "Split c xs = w # ws"
    by (cases "Split c xs") auto
  with Cons.IH show ?case
    by (cases ws) auto
qed simp

lemma Split_single: "c \<notin> set w \<Longrightarrow> Split c w = [w]"
  by (induction w) auto

lemma Split_append: "c \<notin> set w \<Longrightarrow> Split c (w @ c # s) = w # Split c s"
  by (induction w) auto

lemma Split_Join:
  "ws \<noteq> [] \<Longrightarrow> \<forall>w\<in>set ws. c \<notin> set w \<Longrightarrow> Split c (Join [c] ws) = ws"
proof (induction ws)
  case (Cons w ws)
  then show ?case
    by (cases "ws = []") (auto simp: Split_single Join_Cons Split_append)
qed simp

fun fields_acc :: "string \<Rightarrow> string \<Rightarrow> string list" where
  "fields_acc w [] = (if w = [] then [] else [rev w])"
| "fields_acc w (x # xs) = (if is_space x
     then (if w = [] then fields_acc [] xs else rev w # fields_acc [] xs)
     else fields_acc (x # w) xs)"

definition Fields :: "string \<Rightarrow> string list" where
  "Fields s = fields_acc [] s"

text \<open>\<open>strconv.Itoa\<close> on non-negative numbers and \<open>strconv.Atoi\<close> on all of its syntax: an
  optional sign and at least one digit, with the range of a 64-bit \<open>int\<close>.\<close>

definition digit_char :: "nat \<Rightarrow> char" where
  "digit_char d = char_of (48 + d)"

definition digit_val :: "char \<Rightarrow> nat" where
  "digit_val c = of_char c - 48"

fun Itoa :: "nat \<Rightarrow> string" where
  "Itoa n = (if n < 10 then [digit_char n] else Itoa (n div 10) @ [digit_char (n mod 10)])"

declare Itoa.simps [simp del]

definition digits_val :: "string \<Rightarrow> nat" where
  "digits_val s = foldl (\<lambda>a c. 10 * a + digit_val c) 0 s"

definition parse_digits :: "string \<Rightarrow> nat option" where
  "parse_digits s = (if s \<noteq> [] \<and> list_all is_digit s then Some (digits_val s) else None)"

definition Atoi :: "string \<Rightarrow> int option" where
  "Atoi s =
     (let (neg, body) = (case s of
         [] \<Rightarrow> (False, [])
       | c # cs \<Rightarrow> if c = CHR ''-'' then (True, cs)
                    else if c = CHR ''+'' then (False, cs) else (False, s))
      in case parse_digits body of
           None \<Rightarrow> None
         | Some n \<Rightarrow>
             (let v = (if neg then - int n else int n)
              in if min_int64 \<le> v \<and> v \<le> max_int64 then Some v else None))"

lemma digit_char_inverse: "d < 10 \<Longrightarrow> digit_val (digit_char d) = d"
  by (simp add: digit_val_def digit_char_def)

lemma is_digit_of_char: "is_digit c \<longleftrightarrow> 48 \<le> (of_char c :: nat) \<and> (of_char c :: nat) \<le> 57"
  by (simp add: is_digit_def less_eq_char_def)

lemma digit_char_is_digit: "d < 10 \<Longrightarrow> is_digit (digit_char d)"
  by (simp add: is_digit_of_char digit_char_def)

lemma Itoa_nonempty [simp]: "Itoa n \<noteq> []"
  by (subst Itoa.simps) simp

lemma Itoa_digits: "list_all is_digit (Itoa n)"
proof (induction n rule: Itoa.induct)
  case (1 n)
  then show ?case
    by (subst Itoa.simps) (auto simp: digit_char_is_digit)
qed

lemma digits_val_append: "digits_val (s @ [c]) = 10 * digits_val s + digit_val c"
  by (simp add: digits_val_def)

lemma digits_val_Itoa: "digits_val (Itoa n) = n"
proof (induction n rule: Itoa.induct)
  case (1 n)
  show ?case
  proof (cases "n < 10")
    case True
    then show ?thesis
      by (subst Itoa.simps) (simp add: digits_val_def digit_char_inverse)
  next
    case False
    with 1 show ?thesis
      by (subst Itoa.simps) (simp add: digits_val_append digit_char_inverse)
  qed
qed

lemma parse_digits_Itoa [simp]: "parse_digits (Itoa n) = Some n"
  by (simp add: parse_digits_def Itoa_digits digits_val_Itoa)

lemma Itoa_hd_digit: "is_digit (hd (Itoa n))"
  using Itoa_digits [of n] by (cases "Itoa n") auto

lemma Atoi_Itoa: "int n \<le> max_int64 \<Longrightarrow> Atoi (Itoa n) = Some (int n)"
proof -
  assume le: "int n \<le> max_int64"
  obtain c cs where s: "Itoa n = c # cs"
    by (cases "Itoa n") auto
  have "is_digit c" using Itoa_hd_digit [of n] s by simp
  then have "c \<noteq> CHR ''-''" "c \<noteq> CHR ''+''"
    by (auto simp: is_digit_of_char)
  moreover have "parse_digits (c # cs) = Some n"
    using parse_digits_Itoa [of n] s by simp
  ultimately show ?thesis
    using le by (simp add: Atoi_def s min_int64_def)
qed

text \<open>The verb \<open>%d\<close>.\<close>

definition fmt_int :: "int \<Rightarrow> string" where
  "fmt_int i = (if i < 0 then CHR ''-'' # Itoa (nat (- i)) else Itoa (nat i))"

section \<open>Lists\<close>

lemma filter_length_Cons: "length (filter P (x # xs)) = (if P x then 1 else 0) + length (filter P xs)"
  by simp

text \<open>Deleting the first element that satisfies a predicate, as the code's loops with
  \<open>break\<close> do.\<close>

fun remove_first :: "('a \<Rightarrow> bool) \<Rightarrow> 'a list \<Rightarrow> 'a list" where
  "remove_first P [] = []"
| "remove_first P (x # xs) = (if P x then xs else x # remove_first P xs)"

lemma set_remove_first: "set (remove_first P xs) \<subseteq> set xs"
  by (induction xs) auto

lemma length_remove_first:
  "length (remove_first P xs) = (if \<exists>x\<in>set xs. P x then length xs - 1 else length xs)"
proof (induction xs)
  case (Cons x xs)
  then show ?case
    by (cases xs) auto
qed simp

lemma length_remove_first_le: "length (remove_first P xs) \<le> length xs"
  by (induction xs) auto

lemma remove_first_none: "\<not> (\<exists>x\<in>set xs. P x) \<Longrightarrow> remove_first P xs = xs"
  by (induction xs) auto

lemma distinct_map_remove_first: "distinct (map f xs) \<Longrightarrow> distinct (map f (remove_first P xs))"
  by (induction xs) (use set_remove_first in fastforce)+

lemma set_remove_first_key:
  "distinct (map f xs) \<Longrightarrow> set (remove_first (\<lambda>x. f x = k) xs) = {x \<in> set xs. f x \<noteq> k}"
  by (induction xs) (auto simp: rev_image_eqI)

section \<open>Runs of a deterministic machine\<close>

text \<open>
  Components whose operations run one at a time under a mutex are step functions over an
  event type. An invariant that every step keeps holds after every sequence of events.
\<close>

locale step_machine =
  fixes step :: "'ev \<Rightarrow> 's \<Rightarrow> 's"
    and ok :: "'ev \<Rightarrow> 's \<Rightarrow> bool"
    and inv :: "'s \<Rightarrow> bool"
  assumes step_inv: "inv s \<Longrightarrow> ok e s \<Longrightarrow> inv (step e s)"
begin

fun admissible :: "'ev list \<Rightarrow> 's \<Rightarrow> bool" where
  "admissible [] s = True"
| "admissible (e # es) s = (ok e s \<and> admissible es (step e s))"

lemma fold_inv: "inv s \<Longrightarrow> admissible es s \<Longrightarrow> inv (fold step es s)"
  by (induction es arbitrary: s) (auto simp: step_inv)

lemma fold_inv_always:
  "inv s \<Longrightarrow> (\<And>e s. e \<in> set es \<Longrightarrow> ok e s) \<Longrightarrow> inv (fold step es s)"
  by (induction es arbitrary: s) (auto simp: step_inv)

end

end
