(* ===== verification/Task_Model.thy ===== *)
theory Task_Model
  imports Prelude
begin

text \<open>
  The data of \<open>internal/model\<close>: runs (\<open>run.go\<close>), tasks and the predicates on them
  (\<open>model.go\<close>), the built-in failure set of \<open>failure.go\<close>, and the small pure helpers of
  \<open>signal.go\<close>, \<open>label.go\<close> and \<open>run_selector.go\<close>. A Go string enum is a datatype with one
  constructor per declared constant. Fields of \<open>Task\<close> that no modelled operation reads
  (display metadata, hook tokens, compose provenance) are left out.
\<close>

section \<open>Runs\<close>

datatype RunPhase = PhasePending | PhaseRunning | PhaseEnded

definition IsTerminal :: "RunPhase \<Rightarrow> bool" where
  "IsTerminal p \<longleftrightarrow> p = PhaseEnded"

datatype EndReason =
    ReasonSuccess | ReasonFailed | ReasonStopped | ReasonTimeout | ReasonCrashed
  | ReasonSkipped | ReasonLogOverflow | ReasonQueueFull | ReasonDSTSkipped
  | ReasonDaemonStopped | ReasonMissed | ReasonStartFailed | ReasonUnhealthy

fun reason_name :: "EndReason \<Rightarrow> string" where
  "reason_name ReasonSuccess = ''succeeded''"
| "reason_name ReasonFailed = ''failed''"
| "reason_name ReasonStopped = ''stopped''"
| "reason_name ReasonTimeout = ''timeout''"
| "reason_name ReasonCrashed = ''crashed''"
| "reason_name ReasonSkipped = ''skipped''"
| "reason_name ReasonLogOverflow = ''log_overflow''"
| "reason_name ReasonQueueFull = ''queue_full''"
| "reason_name ReasonDSTSkipped = ''dst_skipped''"
| "reason_name ReasonDaemonStopped = ''daemon_stopped''"
| "reason_name ReasonMissed = ''missed''"
| "reason_name ReasonStartFailed = ''start_failed''"
| "reason_name ReasonUnhealthy = ''unhealthy''"

definition AllEndReasons :: "EndReason list" where
  "AllEndReasons = [ReasonSuccess, ReasonFailed, ReasonStopped, ReasonTimeout, ReasonCrashed,
     ReasonSkipped, ReasonLogOverflow, ReasonQueueFull, ReasonDSTSkipped, ReasonDaemonStopped,
     ReasonMissed, ReasonStartFailed, ReasonUnhealthy]"

text \<open>Reading an end reason back from its string: \<open>slices.Contains(AllEndReasons, EndReason(tok))\<close>.\<close>

definition parse_reason :: "string \<Rightarrow> EndReason option" where
  "parse_reason tok = find (\<lambda>r. reason_name r = tok) AllEndReasons"

lemma AllEndReasons_complete: "r \<in> set AllEndReasons"
  by (cases r) (simp_all add: AllEndReasons_def)

lemma parse_reason_name [simp]: "parse_reason (reason_name r) = Some r"
  by (cases r) (simp_all add: parse_reason_def AllEndReasons_def)

lemma parse_reason_Some: "parse_reason tok = Some r \<Longrightarrow> tok = reason_name r"
  by (auto simp: parse_reason_def find_Some_iff)

datatype TriggeredBy = TriggeredByCron | TriggeredByAPI | TriggeredByUI | TriggeredByCLI
  | TriggeredByStation | TriggeredByService | TriggeredByStartup | TriggeredByHook

record Run =
  ID :: string
  ExecutionID :: "string option"
  TaskName :: string
  Status :: RunPhase
  EndReason :: "EndReason option"
  IsFailure :: bool
  ExitCode :: int
  StartedAt :: "instant option"
  EndedAt :: "instant option"
  Triggered :: TriggeredBy
  CreatedAt :: instant
  RetryAttempt :: int
  RetryOfRunID :: "string option"
  InstanceIndex :: int
  Params :: "(string \<times> string) list option"
  PeakMemoryBytes :: "int option"
  CPUTimeMs :: "int option"
  StdoutLines :: "int option"
  StderrLines :: "int option"
  OutputMatched :: bool

definition Duration :: "Run \<Rightarrow> duration option" where
  "Duration r = (case (StartedAt r, EndedAt r) of
     (Some s, Some e) \<Rightarrow> Some (time_sub e s) | _ \<Rightarrow> None)"

definition OutputLines :: "Run \<Rightarrow> int option" where
  "OutputLines r =
     (if Status r \<noteq> PhaseEnded then None
      else (case (StdoutLines r, StderrLines r) of
              (Some a, Some b) \<Rightarrow> Some (wrap64 (a + b)) | _ \<Rightarrow> None))"

definition IsRetryable :: "Run \<Rightarrow> bool" where
  "IsRetryable r =
     (if Status r \<noteq> PhaseEnded then False
      else (case EndReason r of
              None \<Rightarrow> False
            | Some e \<Rightarrow> e \<notin> {ReasonSuccess, ReasonSkipped, ReasonMissed, ReasonQueueFull}))"

fun phase_name :: "RunPhase \<Rightarrow> string" where
  "phase_name PhasePending = ''pending''"
| "phase_name PhaseRunning = ''running''"
| "phase_name PhaseEnded = ''ended''"

definition DisplayStatus :: "Run \<Rightarrow> string" where
  "DisplayStatus r =
     (if Status r = PhaseEnded
      then (case EndReason r of Some e \<Rightarrow> reason_name e | None \<Rightarrow> reason_name ReasonStopped)
      else phase_name (Status r))"

section \<open>Failure classification\<close>

definition FailedExecutionReasons :: "EndReason list" where
  "FailedExecutionReasons =
     [ReasonFailed, ReasonTimeout, ReasonCrashed, ReasonLogOverflow, ReasonStartFailed,
      ReasonUnhealthy]"

definition DefaultFailureTokens :: "string list" where
  "DefaultFailureTokens = map reason_name FailedExecutionReasons @ [reason_name ReasonMissed]"

text \<open>\<open>defaultFailureReasons\<close> is computed in the code by parsing \<open>DefaultFailureTokens\<close>; the
  theory \<open>Failures\<close> proves that the parse gives exactly this set.\<close>

definition defaultFailureReasons :: "EndReason set" where
  "defaultFailureReasons = set FailedExecutionReasons \<union> {ReasonMissed}"

text \<open>A resolved \<open>failures\<close> list. \<open>Reasons = None\<close> is the nil map of a task built outside
  the config loader.\<close>

record FailureMatcher =
  Reasons :: "EndReason set option"
  ExitRanges :: "(int \<times> int) list"
  OutputPatterns :: "string list"

definition DefaultFailures :: FailureMatcher where
  "DefaultFailures =
     \<lparr>Reasons = Some defaultFailureReasons, ExitRanges = [], OutputPatterns = []\<rparr>"

section \<open>Tasks\<close>

datatype ConcurrencyPolicy = PolicyUnset | PolicyQueue | PolicySkip | PolicyKill
datatype RestartPolicy = RestartUnset | RestartNever | RestartAlways | RestartOnFailure
datatype BackoffCurve = BackoffUnset | BackoffConstant | BackoffLinear | BackoffExponential
datatype TaskKind = KindTask | KindService
datatype TaskSource = SourceNative | SourceStaged | SourceCron
datatype HoldReason = HeldByNothing | HeldByCron
datatype EnvBase = EnvBaseUnset | EnvBaseInherit | EnvBaseClean
datatype ParamKind = ParamEnv | ParamArg | ParamOption | ParamFlag

definition ParamTypeString :: string where "ParamTypeString = ''string''"
definition ParamTypeNumber :: string where "ParamTypeNumber = ''number''"

record TaskParam =
  Kind :: ParamKind
  Key :: string
  Type :: string
  Default :: "string option"
  Required :: bool
  Choices :: "string list"
  AllowCustom :: bool

text \<open>The execution definitions (\<open>execution.go\<close>): a struct is a record, the sealed interface over
  them a datatype.\<close>

record KeyValue =
  kv_Key :: string
  kv_Value :: string

record ShellExecution =
  sh_Script :: string
  sh_Shell :: string
  sh_WorkingDir :: string
  sh_Umask :: string
  sh_EnvBase :: EnvBase

record DockerfileBlock =
  db_Label :: string
  db_Dockerfile :: string
  db_Enabled :: bool

record VolumeMount =
  vm_Host :: string
  vm_Container :: string
  vm_ReadOnly :: bool

record PortMapping =
  pm_Host :: int
  pm_Container :: int
  pm_Protocol :: string

record ContainerExecution =
  ce_Script :: string
  BaseImage :: string
  Blocks :: "DockerfileBlock list"
  ce_Env :: "KeyValue list"
  Volumes :: "VolumeMount list"
  Ports :: "PortMapping list"
  Dockerfile :: string

record HTTPBody =
  hb_Kind :: string
  hb_JSON :: string
  hb_Fields :: "KeyValue list"

record HTTPExecution =
  he_Method :: string
  URL :: string
  Headers :: "KeyValue list"
  Body :: "HTTPBody option"

record ComposeExecution =
  co_File :: string
  ProjectName :: string
  co_Service :: string
  co_Mode :: string
  Profiles :: "string list"
  co_EnvFile :: "string list"
  co_WorkingDir :: string
  WithDeps :: bool
  Pull :: string
  ServicePorts :: bool
  co_Command :: string

datatype ExecutionDef =
    ShellDef ShellExecution
  | ContainerDef ContainerExecution
  | HTTPDef HTTPExecution
  | ConfigDef string
  | SDKDef
  | ComposeDef ComposeExecution

fun ExecType :: "ExecutionDef \<Rightarrow> string" where
  "ExecType (ShellDef _) = ''shell''"
| "ExecType (ContainerDef _) = ''container''"
| "ExecType (HTTPDef _) = ''http''"
| "ExecType (ConfigDef _) = ''config''"
| "ExecType SDKDef = ''sdk''"
| "ExecType (ComposeDef _) = ''compose''"

definition newline :: string where "newline = [CHR 0x0A]"

definition block_text :: "DockerfileBlock \<Rightarrow> string" where
  "block_text b =
     (if \<not> db_Enabled b \<or> db_Dockerfile b = [] then []
      else newline @ ''# '' @ db_Label b @ newline @ db_Dockerfile b @ newline)"

definition BuildDockerfile :: "ContainerExecution \<Rightarrow> string" where
  "BuildDockerfile e =
     (if Dockerfile e \<noteq> [] then Dockerfile e
      else ''FROM '' @ BaseImage e @ newline @ concat (map block_text (Blocks e))
        @ newline @ ''COPY script.sh /runwisp-script.sh'' @ newline
        @ ''RUN chmod +x /runwisp-script.sh'' @ newline
        @ ''ENTRYPOINT ['' @ [CHR 0x22] @ ''/bin/sh'' @ [CHR 0x22] @ '', '' @ [CHR 0x22] @ ''-e'' @ [CHR 0x22]
        @ '', '' @ [CHR 0x22] @ ''/runwisp-script.sh'' @ [CHR 0x22] @ '']'' @ newline)"

datatype RunOnStartMode = RunOnStartUnset | RunOnStartDaemon | RunOnStartBoot

text \<open>What the executor runs and in which surroundings, the fields of \<open>Task\<close> that nothing but
  the executor and the diff of two configurations reads, grouped in a record of their own.\<close>

record TaskExec =
  RunScript :: string
  ExecDef :: "ExecutionDef option"
  WorkingDir :: string
  Shell :: string
  Umask :: string
  EnvBaseOf :: EnvBase
  RunUser :: string
  StopSignal :: string
  EnvFile :: string
  SecretsFile :: string
  LogMaxSize :: int
  LogOnFull :: string

text \<open>\<open>HasHealthCheck\<close> is \<open>HealthCheck != nil\<close>: the manager asks nothing else of the probe.
  Labels for people, hook tokens and the provenance of compose tasks are left out.\<close>

record Task =
  Name :: string
  TKind :: TaskKind
  Cron :: string
  Timezone :: string
  Jitter :: "duration option"
  ManualTrigger :: bool
  CatchUp :: "int option"
  RunOnStart :: bool
  RunOnStartModeOf :: RunOnStartMode
  Timeout :: "duration option"
  WarnAfter :: "duration option"
  GracefulStop :: "duration option"
  Restart :: RestartPolicy
  MaxConcurrent :: int
  MaxQueued :: "int option"
  OnOverlap :: ConcurrencyPolicy
  Instances :: int
  RestartDelay :: "duration option"
  RestartBackoff :: BackoffCurve
  HealthyAfter :: "duration option"
  RestartAttempts :: "int option"
  Priority :: int
  Autostart :: bool
  DependsOn :: "string list"
  HasHealthCheck :: bool
  RetryAttempts :: int
  RetryDelay :: "duration option"
  RetryBackoff :: BackoffCurve
  KeepRuns :: "int option"
  KeepFor :: duration
  Env :: "(string \<times> string) list"
  Secrets :: "(string \<times> string) list"
  Parameters :: "TaskParam list"
  Exec :: TaskExec
  Source :: TaskSource
  SourceFile :: string
  HeldBy :: HoldReason
  Failures :: FailureMatcher
  Ephemeral :: bool

definition IsService :: "TaskKind \<Rightarrow> bool" where
  "IsService k \<longleftrightarrow> k = KindService"

definition Held :: "Task \<Rightarrow> bool" where
  "Held t \<longleftrightarrow> HeldBy t \<noteq> HeldByNothing"

text \<open>\<open>ResolvedExecutionDef\<close>: the explicit definition, or a shell run of the script.\<close>

definition ResolvedExecutionDef :: "Task \<Rightarrow> ExecutionDef option" where
  "ResolvedExecutionDef t =
     (case ExecDef (Exec t) of
        Some d \<Rightarrow> Some d
      | None \<Rightarrow>
          if TrimSpace (RunScript (Exec t)) = [] then None
          else Some (ShellDef \<lparr>sh_Script = RunScript (Exec t), sh_Shell = Shell (Exec t),
                 sh_WorkingDir = WorkingDir (Exec t), sh_Umask = Umask (Exec t),
                 sh_EnvBase = EnvBaseOf (Exec t)\<rparr>))"

definition GracefulStopValue :: "Task \<Rightarrow> duration" where
  "GracefulStopValue t = OrDefault (GracefulStop t) 0"
definition TimeoutValue :: "Task \<Rightarrow> duration" where
  "TimeoutValue t = OrDefault (Timeout t) 0"
definition WarnAfterValue :: "Task \<Rightarrow> duration" where
  "WarnAfterValue t = OrDefault (WarnAfter t) 0"
definition JitterValue :: "Task \<Rightarrow> duration" where
  "JitterValue t = OrDefault (Jitter t) 0"

definition DefaultCatchUp :: int where "DefaultCatchUp = 1"
definition DefaultMaxConcurrent :: int where "DefaultMaxConcurrent = 1"
definition DefaultMaxQueued :: int where "DefaultMaxQueued = 100"

definition CatchUpValue :: "Task \<Rightarrow> int" where
  "CatchUpValue t = OrDefault (CatchUp t) DefaultCatchUp"

definition MaxConcurrentValue :: "Task \<Rightarrow> int" where
  "MaxConcurrentValue t = (if MaxConcurrent t = 0 then DefaultMaxConcurrent else MaxConcurrent t)"

definition MaxQueuedValue :: "Task \<Rightarrow> int" where
  "MaxQueuedValue t = OrDefault (MaxQueued t) DefaultMaxQueued"

definition RetryDelayValue :: "Task \<Rightarrow> duration" where
  "RetryDelayValue t = OrDefault (RetryDelay t) 0"

definition Schedulable :: "Task \<Rightarrow> bool" where
  "Schedulable t \<longleftrightarrow> Cron t \<noteq> [] \<and> \<not> Held t"

definition Triggerable :: "Task \<Rightarrow> bool" where
  "Triggerable t \<longleftrightarrow> \<not> IsService (TKind t) \<and> ManualTrigger t"

definition ManuallyControllable :: "Task \<Rightarrow> bool" where
  "ManuallyControllable t \<longleftrightarrow> ManualTrigger t"

definition Pausable :: "Task \<Rightarrow> bool" where
  "Pausable t \<longleftrightarrow> \<not> IsService (TKind t) \<and> Cron t \<noteq> [] \<and> ManualTrigger t"

definition StartsPaused :: "Task \<Rightarrow> bool" where
  "StartsPaused t \<longleftrightarrow> \<not> Autostart t \<and> Pausable t"

datatype TriggerBlockReason = TriggerAllowed | TriggerBlockedService | TriggerBlockedManualDisabled

definition CheckTrigger :: "Task \<Rightarrow> TriggerBlockReason" where
  "CheckTrigger t =
     (if IsService (TKind t) then TriggerBlockedService
      else if \<not> ManualTrigger t then TriggerBlockedManualDisabled
      else TriggerAllowed)"

definition EnvBase_Valid :: "EnvBase \<Rightarrow> bool" where
  "EnvBase_Valid b \<longleftrightarrow> b = EnvBaseInherit \<or> b = EnvBaseClean"

definition Promotable :: "TaskSource \<Rightarrow> bool" where
  "Promotable s \<longleftrightarrow> s = SourceStaged \<or> s = SourceCron"

text \<open>\<open>Task.IsFailureReason\<close>: reason, exit code, whether an output pattern matched.\<close>

definition IsFailureReason :: "Task \<Rightarrow> EndReason \<Rightarrow> int \<Rightarrow> bool \<Rightarrow> bool" where
  "IsFailureReason t reason exitCode outputMatched =
     (if reason = ReasonSuccess then False
      else
        let reasons = (case Reasons (Failures t) of None \<Rightarrow> defaultFailureReasons | Some rs \<Rightarrow> rs)
        in if reason \<in> reasons then True
           else if reason = ReasonFailed
             then outputMatched \<or>
               list_ex (\<lambda>(lo, hi). lo \<le> exitCode \<and> exitCode \<le> hi) (ExitRanges (Failures t))
             else False)"

text \<open>\<open>Run.End\<close>: the only way a run becomes terminal; it classifies in the same step.\<close>

definition End :: "Task option \<Rightarrow> EndReason \<Rightarrow> int \<Rightarrow> instant \<Rightarrow> Run \<Rightarrow> Run" where
  "End task reason exitCode endedAt r =
     (let r' = r\<lparr>Status := PhaseEnded, EndReason := Some reason, ExitCode := exitCode,
                 EndedAt := Some endedAt\<rparr>
      in (case task of
            None \<Rightarrow> r'
          | Some t \<Rightarrow> r'\<lparr>IsFailure := IsFailureReason t reason exitCode (OutputMatched r)\<rparr>))"

lemma End_simps [simp]:
  "Status (End t e c at r) = PhaseEnded"
  "EndReason (End t e c at r) = Some e"
  "ExitCode (End t e c at r) = c"
  "EndedAt (End t e c at r) = Some at"
  "ID (End t e c at r) = ID r"
  "TaskName (End t e c at r) = TaskName r"
  "InstanceIndex (End t e c at r) = InstanceIndex r"
  "OutputMatched (End t e c at r) = OutputMatched r"
  "CreatedAt (End t e c at r) = CreatedAt r"
  "RetryAttempt (End t e c at r) = RetryAttempt r"
  "Triggered (End t e c at r) = Triggered r"
  by (simp_all add: End_def Let_def split: option.split)

lemma End_IsFailure [simp]:
  "IsFailure (End (Some t) e c at r) = IsFailureReason t e c (OutputMatched r)"
  "IsFailure (End None e c at r) = IsFailure r"
  by (simp_all add: End_def)

lemma IsFailureReason_success [simp]: "\<not> IsFailureReason t ReasonSuccess c m"
  by (simp add: IsFailureReason_def)

section \<open>Stop signals, labels and run selectors\<close>

definition StopSignals :: "string list" where
  "StopSignals = [''SIGTERM'', ''SIGINT'', ''SIGQUIT'', ''SIGHUP'', ''SIGKILL'', ''SIGUSR1'',
     ''SIGUSR2'']"

definition upper_char :: "char \<Rightarrow> char" where
  "upper_char c =
     (let n = (of_char c :: nat) in if 97 \<le> n \<and> n \<le> 122 then char_of (n - 32) else c)"

definition lower_char :: "char \<Rightarrow> char" where
  "lower_char c =
     (let n = (of_char c :: nat) in if 65 \<le> n \<and> n \<le> 90 then char_of (n + 32) else c)"

definition NormalizeSignalName :: "string \<Rightarrow> string \<times> bool" where
  "NormalizeSignalName name =
     (let trimmed = TrimSpace name
      in if trimmed = [] then ([], False)
         else let up = map upper_char trimmed;
                  up' = (if CutPrefix ''SIG'' up = None then ''SIG'' @ up else up)
              in (up', up' \<in> set StopSignals))"

definition InstanceLabel :: "string \<Rightarrow> nat \<Rightarrow> int \<Rightarrow> string" where
  "InstanceLabel taskName instanceIndex instanceCount =
     (if instanceCount > 1 then taskName @ ''#'' @ Itoa (instanceIndex + 1) else taskName)"

record RunSelector =
  MatchAll :: bool
  IDs :: "string list"
  ExceptIDs :: "string list"

datatype SelectorError = IdsMustBeEmpty | IdsMustBeNonEmpty | ExceptIdsMustBeEmpty

definition Validate :: "RunSelector \<Rightarrow> SelectorError option" where
  "Validate s =
     (if MatchAll s
      then (if IDs s \<noteq> [] then Some IdsMustBeEmpty else None)
      else if IDs s = [] then Some IdsMustBeNonEmpty
      else if ExceptIDs s \<noteq> [] then Some ExceptIdsMustBeEmpty
      else None)"

section \<open>Task names\<close>

definition name_char :: "char \<Rightarrow> bool" where
  "name_char c \<longleftrightarrow>
     (let n = (of_char c :: nat)
      in (97 \<le> n \<and> n \<le> 122) \<or> (65 \<le> n \<and> n \<le> 90) \<or> is_digit c
         \<or> c \<in> {CHR ''.'', CHR ''_'', CHR '':'', CHR ''-''})"

definition safe_char :: "char \<Rightarrow> bool" where
  "safe_char c \<longleftrightarrow>
     (let n = (of_char c :: nat)
      in (97 \<le> n \<and> n \<le> 122) \<or> (65 \<le> n \<and> n \<le> 90) \<or> is_digit c
         \<or> c \<in> {CHR ''_'', CHR ''-''})"

definition SanitizeTaskName :: "string \<Rightarrow> string" where
  "SanitizeTaskName name = map (\<lambda>c. if safe_char c then c else CHR ''_'') name"

definition TaskNameMaxLength :: nat where "TaskNameMaxLength = 100"

datatype NameError = NameRequired | NameTooLong string | NameInvalid string

definition ValidateTaskName :: "string \<Rightarrow> NameError option" where
  "ValidateTaskName name =
     (let trimmed = TrimSpace name
      in if trimmed = [] then Some NameRequired
         else if length trimmed > TaskNameMaxLength then Some (NameTooLong trimmed)
         else if \<not> list_all name_char trimmed then Some (NameInvalid trimmed)
         else None)"

lemma safe_char_name_char: "safe_char c \<Longrightarrow> name_char c"
  by (auto simp: safe_char_def name_char_def Let_def)

section \<open>Sample values\<close>

text \<open>A task and a run at which theorems with hypotheses are instantiated.\<close>

definition example_params :: "TaskParam list" where
  "example_params =
     [\<lparr>Kind = ParamEnv, Key = ''MODE'', Type = [], Default = Some ''full'', Required = False,
       Choices = [''full'', ''quick''], AllowCustom = False\<rparr>,
      \<lparr>Kind = ParamFlag, Key = ''--force'', Type = [], Default = None, Required = False,
       Choices = [], AllowCustom = False\<rparr>]"

definition example_exec :: TaskExec where
  "example_exec = \<lparr>RunScript = ''pg_dump'', ExecDef = None, WorkingDir = [], Shell = [],
     Umask = [], EnvBaseOf = EnvBaseInherit, RunUser = [], StopSignal = [], EnvFile = [],
     SecretsFile = [], LogMaxSize = 0, LogOnFull = ''drop_old''\<rparr>"

definition example_task :: Task where
  "example_task = \<lparr>Name = ''backup'', TKind = KindTask, Cron = [], Timezone = [], Jitter = None,
     ManualTrigger = True, CatchUp = None, RunOnStart = False,
     RunOnStartModeOf = RunOnStartUnset, Timeout = None, WarnAfter = None,
     GracefulStop = None, Restart = RestartNever, MaxConcurrent = 1, MaxQueued = Some 2,
     OnOverlap = PolicyQueue, Instances = 0, RestartDelay = None,
     RestartBackoff = BackoffConstant, HealthyAfter = None, RestartAttempts = None,
     Priority = 0, Autostart = True, DependsOn = [], HasHealthCheck = False, RetryAttempts = 3, RetryDelay = None,
     RetryBackoff = BackoffExponential, KeepRuns = None, KeepFor = 0, Env = [(''A'', ''1'')],
     Secrets = [(''B'', ''2'')], Parameters = example_params, Exec = example_exec,
     Source = SourceNative, SourceFile = [], HeldBy = HeldByNothing,
     Failures = DefaultFailures, Ephemeral = False\<rparr>"

definition example_run :: Run where
  "example_run = \<lparr>ID = ''r1'', ExecutionID = None, TaskName = ''backup'', Status = PhaseEnded,
     EndReason = Some ReasonFailed, IsFailure = True, ExitCode = 2, StartedAt = Some 1000,
     EndedAt = Some 5000, Triggered = TriggeredByCron, CreatedAt = 1000, RetryAttempt = 0,
     RetryOfRunID = None, InstanceIndex = 0, Params = None, PeakMemoryBytes = None,
     CPUTimeMs = None, StdoutLines = Some 3, StderrLines = Some 1, OutputMatched = False\<rparr>"

lemmas example_defs = example_task_def example_run_def example_params_def

end
