(* ===== verification/Failures.thy ===== *)
theory Failures
  imports Task_Model
begin

text \<open>
  The \<open>failures\<close> grammar of \<open>internal/model/failure.go\<close>: parsing a token list into a
  \<open>FailureSpec\<close> and resolving the spec against an inherited matcher. Whether a pattern
  compiles under RE2 is the parameter \<open>re_ok\<close>: \<open>regexp.Compile\<close> is called for its verdict
  only.
\<close>

definition outputTokenPrefix :: string where
  "outputTokenPrefix = ''output:''"

record FailureSpec =
  Delta :: bool
  AddReasons :: "EndReason set"
  AddRanges :: "(int \<times> int) list"
  AddPatterns :: "string list"
  DropReasons :: "EndReason set"
  DropRanges :: "(int \<times> int) list"
  DropPatterns :: "string list"

datatype FailureError =
    NotAToken string | NeedsPattern string | BadPattern string
  | BadExitRange string | BadExitCode string | ExitOutOfRange string
  | SuccessNotAFailure string | UnknownToken string | MixedTokens

definition empty_spec :: FailureSpec where
  "empty_spec = \<lparr>Delta = False, AddReasons = {}, AddRanges = [], AddPatterns = [],
     DropReasons = {}, DropRanges = [], DropPatterns = []\<rparr>"

section \<open>Parsing\<close>

text \<open>The caller has checked that the token is not empty, as the code's \<open>tok[0]\<close> needs.\<close>

fun stripFailurePrefix :: "string \<Rightarrow> string \<times> bool \<times> bool" where
  "stripFailurePrefix [] = ([], False, False)"
| "stripFailurePrefix (c # cs) =
     (if c = CHR ''+'' then (TrimSpace cs, False, True)
      else if c = CHR ''-'' then (TrimSpace cs, True, True)
      else (c # cs, False, False))"

text \<open>\<open>Inr None\<close>: not an exit token, so the caller goes on to the reason names.\<close>

fun parseExitToken :: "string \<Rightarrow> FailureError + (int \<times> int) option" where
  "parseExitToken [] = Inr None"
| "parseExitToken (c # cs) =
     (let tok = c # cs
      in if \<not> is_digit c then Inr None
         else
           let parsed = (case Cut (CHR ''-'') tok of (before, after, found) \<Rightarrow>
               if found
               then (case (Atoi before, Atoi after) of
                       (Some lo, Some hi) \<Rightarrow> Inr (lo, hi) | _ \<Rightarrow> Inl (BadExitRange tok))
               else (case Atoi tok of Some lo \<Rightarrow> Inr (lo, lo) | None \<Rightarrow> Inl (BadExitCode tok)))
           in (case parsed of
                 Inl e \<Rightarrow> Inl e
               | Inr (lo, hi) \<Rightarrow>
                   if lo < 1 \<or> hi > 255 \<or> lo > hi then Inl (ExitOutOfRange tok)
                   else Inr (Some (lo, hi))))"

definition addPattern ::
  "(string \<Rightarrow> bool) \<Rightarrow> FailureSpec \<Rightarrow> string \<Rightarrow> string \<Rightarrow> bool \<Rightarrow> FailureError + FailureSpec" where
  "addPattern re_ok s pattern raw isDrop =
     (if pattern = [] then Inl (NeedsPattern raw)
      else if \<not> re_ok pattern then Inl (BadPattern raw)
      else Inr (if isDrop then s\<lparr>DropPatterns := DropPatterns s @ [pattern]\<rparr>
                else s\<lparr>AddPatterns := AddPatterns s @ [pattern]\<rparr>))"

definition addToken ::
  "(string \<Rightarrow> bool) \<Rightarrow> FailureSpec \<Rightarrow> string \<Rightarrow> string \<Rightarrow> bool \<Rightarrow> FailureError + FailureSpec" where
  "addToken re_ok s tok raw isDrop =
     (if tok = [] then Inl (NotAToken raw)
      else (case CutPrefix outputTokenPrefix tok of
        Some pattern \<Rightarrow> addPattern re_ok s pattern raw isDrop
      | None \<Rightarrow> (case parseExitToken tok of
          Inl e \<Rightarrow> Inl e
        | Inr (Some r) \<Rightarrow>
            Inr (if isDrop then s\<lparr>DropRanges := DropRanges s @ [r]\<rparr>
                 else s\<lparr>AddRanges := AddRanges s @ [r]\<rparr>)
        | Inr None \<Rightarrow> (case parse_reason tok of
            None \<Rightarrow> Inl (UnknownToken tok)
          | Some r \<Rightarrow>
              if r = ReasonSuccess then Inl (SuccessNotAFailure tok)
              else Inr (if isDrop then s\<lparr>DropReasons := insert r (DropReasons s)\<rparr>
                        else s\<lparr>AddReasons := insert r (AddReasons s)\<rparr>)))))"

text \<open>The loop of \<open>ParseFailures\<close>, with \<open>sawDelta\<close> and \<open>sawBare\<close> threaded through.\<close>

fun parse_loop ::
  "(string \<Rightarrow> bool) \<Rightarrow> string list \<Rightarrow> FailureSpec \<Rightarrow> bool \<Rightarrow> bool
     \<Rightarrow> FailureError + (FailureSpec \<times> bool \<times> bool)" where
  "parse_loop re_ok [] s sawDelta sawBare = Inr (s, sawDelta, sawBare)"
| "parse_loop re_ok (raw # raws) s sawDelta sawBare =
     (let tok = TrimSpace raw
      in if tok = [] then parse_loop re_ok raws s sawDelta sawBare
         else (case stripFailurePrefix tok of (tok', isDrop, delta) \<Rightarrow>
           (case addToken re_ok s tok' raw isDrop of
              Inl e \<Rightarrow> Inl e
            | Inr s' \<Rightarrow> parse_loop re_ok raws s' (sawDelta \<or> delta) (sawBare \<or> \<not> delta))))"

definition ParseFailures :: "(string \<Rightarrow> bool) \<Rightarrow> string list \<Rightarrow> FailureError + FailureSpec" where
  "ParseFailures re_ok tokens =
     (case parse_loop re_ok tokens empty_spec False False of
        Inl e \<Rightarrow> Inl e
      | Inr (s, sawDelta, sawBare) \<Rightarrow>
          if sawDelta \<and> sawBare then Inl MixedTokens else Inr (s\<lparr>Delta := sawDelta\<rparr>))"

section \<open>Resolving\<close>

definition applyDelta :: "'a list \<Rightarrow> 'a list \<Rightarrow> 'a list \<Rightarrow> 'a list" where
  "applyDelta base add drops = filter (\<lambda>v. v \<notin> set drops) (base @ add)"

definition Resolve :: "FailureSpec \<Rightarrow> FailureMatcher \<Rightarrow> FailureMatcher" where
  "Resolve s base =
     (if \<not> Delta s
      then \<lparr>Reasons = Some (AddReasons s), ExitRanges = AddRanges s,
            OutputPatterns = AddPatterns s\<rparr>
      else \<lparr>Reasons = Some (OrDefault (Reasons base) {} \<union> AddReasons s - DropReasons s),
            ExitRanges = applyDelta (ExitRanges base) (AddRanges s) (DropRanges s),
            OutputPatterns = applyDelta (OutputPatterns base) (AddPatterns s) (DropPatterns s)\<rparr>)"

section \<open>What an accepted spec looks like\<close>

definition exit_range_ok :: "int \<times> int \<Rightarrow> bool" where
  "exit_range_ok r \<longleftrightarrow> 1 \<le> fst r \<and> fst r \<le> snd r \<and> snd r \<le> 255"

definition spec_ok :: "(string \<Rightarrow> bool) \<Rightarrow> FailureSpec \<Rightarrow> bool" where
  "spec_ok re_ok s \<longleftrightarrow>
     ReasonSuccess \<notin> AddReasons s \<union> DropReasons s \<and>
     (\<forall>r\<in>set (AddRanges s) \<union> set (DropRanges s). exit_range_ok r) \<and>
     (\<forall>p\<in>set (AddPatterns s) \<union> set (DropPatterns s). p \<noteq> [] \<and> re_ok p)"

lemma parseExitToken_ok: "parseExitToken tok = Inr (Some r) \<Longrightarrow> exit_range_ok r"
  by (cases tok)
    (auto simp: Let_def exit_range_ok_def split: if_splits sum.splits prod.splits option.splits)

lemma addPattern_ok:
  "spec_ok re_ok s \<Longrightarrow> addPattern re_ok s p raw d = Inr s' \<Longrightarrow> spec_ok re_ok s'"
  by (auto simp: addPattern_def spec_ok_def split: if_splits)

lemma addToken_ok:
  assumes "spec_ok re_ok s" and "addToken re_ok s tok raw d = Inr s'"
  shows "spec_ok re_ok s'"
proof (cases "CutPrefix outputTokenPrefix tok")
  case (Some p)
  with assms show ?thesis
    by (auto simp: addToken_def split: if_splits intro: addPattern_ok)
next
  case None
  show ?thesis
  proof (cases "parseExitToken tok")
    case (Inl e)
    with None assms show ?thesis by (simp add: addToken_def split: if_splits)
  next
    case (Inr res)
    with None assms show ?thesis
      by (cases res)
        (auto simp: addToken_def spec_ok_def dest: parseExitToken_ok
          split: if_splits option.splits)
  qed
qed

lemma parse_loop_ok:
  "spec_ok re_ok s \<Longrightarrow> parse_loop re_ok raws s d b = Inr (s', d', b') \<Longrightarrow> spec_ok re_ok s'"
  by (induction re_ok raws s d b rule: parse_loop.induct)
    (auto simp: Let_def dest: addToken_ok split: if_splits sum.splits prod.splits)

lemma empty_spec_ok [simp]: "spec_ok re_ok empty_spec"
  by (simp add: spec_ok_def empty_spec_def)

lemma ParseFailures_ok: "ParseFailures re_ok tokens = Inr s \<Longrightarrow> spec_ok re_ok s"
  by (auto simp: ParseFailures_def spec_ok_def split: sum.splits if_splits prod.splits
      dest!: parse_loop_ok [OF empty_spec_ok])

text \<open>Bare tokens never reach a drop set: a token is dropped only under a \<open>-\<close> prefix.\<close>

definition no_drops :: "FailureSpec \<Rightarrow> bool" where
  "no_drops s \<longleftrightarrow> DropReasons s = {} \<and> DropRanges s = [] \<and> DropPatterns s = []"

lemma addToken_add_no_drops:
  "no_drops s \<Longrightarrow> addToken re_ok s tok raw False = Inr s' \<Longrightarrow> no_drops s'"
  by (auto simp: addToken_def addPattern_def no_drops_def
      split: if_splits option.splits sum.splits)

lemma stripFailurePrefix_drop: "stripFailurePrefix tok = (t, True, d) \<Longrightarrow> d"
  by (cases tok) (auto split: if_splits)

lemma parse_loop_delta_mono: "parse_loop re_ok raws s d b = Inr (s', d', b') \<Longrightarrow> d \<Longrightarrow> d'"
  by (induction re_ok raws s d b rule: parse_loop.induct)
    (auto simp: Let_def split: if_splits sum.splits prod.splits)

lemma parse_loop_no_drops:
  "no_drops s \<Longrightarrow> parse_loop re_ok raws s d b = Inr (s', False, b') \<Longrightarrow> no_drops s'"
proof (induction re_ok raws s d b rule: parse_loop.induct)
  case (2 re_ok raw raws s sawDelta sawBare)
  show ?case
  proof (cases "TrimSpace raw = []")
    case True
    with 2 show ?thesis by simp
  next
    case False
    obtain t isDrop delta where st: "stripFailurePrefix (TrimSpace raw) = (t, isDrop, delta)"
      by (metis prod_cases3)
    with False "2.prems"(2) obtain s1 where s1: "addToken re_ok s t raw isDrop = Inr s1"
      and rest: "parse_loop re_ok raws s1 (sawDelta \<or> delta) (sawBare \<or> \<not> delta)
                   = Inr (s', False, b')"
      by (auto simp: Let_def split: sum.splits)
    from rest have "\<not> delta" by (auto dest: parse_loop_delta_mono)
    with st have "\<not> isDrop" by (auto dest: stripFailurePrefix_drop)
    with s1 "2.prems"(1) have "no_drops s1" by (auto intro: addToken_add_no_drops)
    with "2.IH"(2) False st s1 rest show ?thesis by simp
  qed
qed simp

section \<open>Resolved matchers\<close>

lemma applyDelta_set: "set (applyDelta base add drops) = (set base \<union> set add) - set drops"
  by (auto simp: applyDelta_def)

definition matcher_ok :: "FailureMatcher \<Rightarrow> bool" where
  "matcher_ok m \<longleftrightarrow> ReasonSuccess \<notin> OrDefault (Reasons m) {} \<and>
     (\<forall>r\<in>set (ExitRanges m). exit_range_ok r)"

lemma Resolve_ok: "spec_ok re_ok s \<Longrightarrow> matcher_ok base \<Longrightarrow> matcher_ok (Resolve s base)"
  by (auto simp: spec_ok_def matcher_ok_def Resolve_def applyDelta_set)

lemma DefaultFailures_ok: "matcher_ok DefaultFailures"
  by (simp add: matcher_ok_def DefaultFailures_def defaultFailureReasons_def
      FailedExecutionReasons_def)

text \<open>The code computes \<open>defaultFailureReasons\<close> by parsing \<open>DefaultFailureTokens\<close> and
  resolving them against the empty matcher, and panics if that fails.\<close>

lemma TrimSpace_reason [simp]: "TrimSpace (reason_name r) = reason_name r"
  by (cases r) (simp_all add: TrimSpace_def is_space_def)

lemma strip_reason [simp]: "stripFailurePrefix (reason_name r) = (reason_name r, False, False)"
  by (cases r) simp_all

lemma reason_name_nonempty [simp]: "reason_name r \<noteq> []"
  by (cases r) simp_all

lemma addToken_reason:
  "r \<noteq> ReasonSuccess \<Longrightarrow>
     addToken re_ok s (reason_name r) raw False = Inr (s\<lparr>AddReasons := insert r (AddReasons s)\<rparr>)"
proof -
  assume r: "r \<noteq> ReasonSuccess"
  have "CutPrefix outputTokenPrefix (reason_name r) = None"
    by (cases r) (simp_all add: outputTokenPrefix_def)
  moreover have "parseExitToken (reason_name r) = Inr None"
    by (cases r) (simp_all add: is_digit_of_char)
  ultimately show ?thesis
    using r by (simp add: addToken_def)
qed

lemma parse_loop_reasons:
  "ReasonSuccess \<notin> set rs \<Longrightarrow>
     parse_loop re_ok (map reason_name rs) s d b =
       Inr (s\<lparr>AddReasons := AddReasons s \<union> set rs\<rparr>, d, b \<or> rs \<noteq> [])"
  by (induction rs arbitrary: s b) (auto simp: addToken_reason)

section \<open>Printing tokens\<close>

text \<open>The canonical spelling of a token, for the round trip with \<open>ParseFailures\<close>.\<close>

datatype FailureToken = TReason EndReason | TExit nat | TRange nat nat

fun print_token :: "FailureToken \<Rightarrow> string" where
  "print_token (TReason r) = reason_name r"
| "print_token (TExit n) = Itoa n"
| "print_token (TRange lo hi) = Itoa lo @ CHR ''-'' # Itoa hi"

fun token_ok :: "FailureToken \<Rightarrow> bool" where
  "token_ok (TReason r) \<longleftrightarrow> r \<noteq> ReasonSuccess"
| "token_ok (TExit n) \<longleftrightarrow> 1 \<le> n \<and> n \<le> 255"
| "token_ok (TRange lo hi) \<longleftrightarrow> 1 \<le> lo \<and> lo \<le> hi \<and> hi \<le> 255"

fun token_add :: "FailureToken \<Rightarrow> FailureSpec \<Rightarrow> FailureSpec" where
  "token_add (TReason r) s = s\<lparr>AddReasons := insert r (AddReasons s)\<rparr>"
| "token_add (TExit n) s = s\<lparr>AddRanges := AddRanges s @ [(int n, int n)]\<rparr>"
| "token_add (TRange lo hi) s = s\<lparr>AddRanges := AddRanges s @ [(int lo, int hi)]\<rparr>"

lemma digit_not_space: "is_digit c \<Longrightarrow> \<not> is_space c"
  by (auto simp: is_digit_of_char is_space_def)

lemma TrimSpace_id: "s \<noteq> [] \<Longrightarrow> \<not> is_space (hd s) \<Longrightarrow> \<not> is_space (last s) \<Longrightarrow> TrimSpace s = s"
  by (simp add: TrimSpace_def dropWhile_eq_self_iff [THEN iffD2] hd_rev)

lemma Itoa_last_digit: "is_digit (last (Itoa n))"
  using Itoa_digits [of n] by (simp add: list_all_iff)

lemma Itoa_no_dash: "CHR ''-'' \<notin> set (Itoa n)"
  using Itoa_digits [of n] by (auto simp: list_all_iff is_digit_of_char)

lemma Cut_absent: "c \<notin> set s \<Longrightarrow> Cut c s = (s, [], False)"
  by (induction s) auto

lemma Cut_append: "c \<notin> set s \<Longrightarrow> Cut c (s @ c # r) = (s, r, True)"
  by (induction s) auto

lemma digit_start:
  assumes "s \<noteq> []" "is_digit (hd s)"
  shows "stripFailurePrefix s = (s, False, False)" "CutPrefix outputTokenPrefix s = None"
  using assms by (cases s; auto simp: is_digit_of_char outputTokenPrefix_def)+

lemma parseExitToken_Itoa:
  "1 \<le> n \<Longrightarrow> n \<le> 255 \<Longrightarrow> parseExitToken (Itoa n) = Inr (Some (int n, int n))"
proof -
  assume n: "1 \<le> n" "n \<le> 255"
  then have "Atoi (Itoa n) = Some (int n)" by (intro Atoi_Itoa) (simp add: max_int64_def)
  moreover obtain c cs where s: "Itoa n = c # cs" by (cases "Itoa n") auto
  moreover have "Cut (CHR ''-'') (Itoa n) = (Itoa n, [], False)"
    by (rule Cut_absent) (rule Itoa_no_dash)
  ultimately show ?thesis
    using n Itoa_hd_digit [of n] by (simp add: Let_def)
qed

lemma parseExitToken_range:
  "1 \<le> lo \<Longrightarrow> lo \<le> hi \<Longrightarrow> hi \<le> 255 \<Longrightarrow>
     parseExitToken (Itoa lo @ CHR ''-'' # Itoa hi) = Inr (Some (int lo, int hi))"
proof -
  assume n: "1 \<le> lo" "lo \<le> hi" "hi \<le> 255"
  then have a: "Atoi (Itoa lo) = Some (int lo)" "Atoi (Itoa hi) = Some (int hi)"
    by (auto intro!: Atoi_Itoa simp: max_int64_def)
  obtain c cs where s: "Itoa lo = c # cs" by (cases "Itoa lo") auto
  have "Cut (CHR ''-'') (Itoa lo @ CHR ''-'' # Itoa hi) = (Itoa lo, Itoa hi, True)"
    by (rule Cut_append) (rule Itoa_no_dash)
  then show ?thesis
    using n a s Itoa_hd_digit [of lo] by (simp add: Let_def)
qed

lemma token_text:
  "token_ok t \<Longrightarrow> TrimSpace (print_token t) = print_token t \<and> print_token t \<noteq> []"
  by (cases t)
    (auto intro!: TrimSpace_id simp: Itoa_hd_digit Itoa_last_digit digit_not_space hd_append)

lemma addToken_print:
  "token_ok t \<Longrightarrow> addToken re_ok s (print_token t) raw False = Inr (token_add t s)"
proof (cases t)
  case (TReason r)
  assume "token_ok t"
  with TReason show ?thesis by (simp add: addToken_reason)
next
  case (TExit n)
  assume "token_ok t"
  with TExit show ?thesis
    by (simp add: addToken_def digit_start Itoa_hd_digit parseExitToken_Itoa)
next
  case (TRange lo hi)
  assume "token_ok t"
  with TRange show ?thesis
    by (simp add: addToken_def digit_start Itoa_hd_digit hd_append parseExitToken_range)
qed

lemma strip_print: "token_ok t \<Longrightarrow> stripFailurePrefix (print_token t) = (print_token t, False, False)"
  by (cases t) (simp_all add: digit_start Itoa_hd_digit hd_append)

lemma parse_loop_print:
  "list_all token_ok ts \<Longrightarrow>
     parse_loop re_ok (map print_token ts) s d b =
       Inr (fold token_add ts s, d, b \<or> ts \<noteq> [])"
  by (induction ts arbitrary: s b) (auto simp: token_text strip_print addToken_print)

lemma fold_token_add_delta: "Delta (fold token_add ts s) = Delta s"
proof (induction ts arbitrary: s)
  case (Cons t ts)
  then show ?case by (cases t) auto
qed simp

section \<open>Properties\<close>

text \<open>C39. Soundness of the grammar: whatever token list is accepted, resolving it against
  any well-formed inherited matcher never makes success a failure, keeps every exit range
  within 1-255, and honours each drop; a list of bare tokens replaces the inherited
  matcher whatever it was.\<close>

theorem failures_resolve_sound:
  assumes parsed: "ParseFailures re_ok tokens = Inr s" and base: "matcher_ok base"
  shows "matcher_ok (Resolve s base)
    \<and> OrDefault (Reasons (Resolve s base)) {} \<inter> DropReasons s = {}
    \<and> set (ExitRanges (Resolve s base)) \<inter> set (DropRanges s) = {}
    \<and> set (OutputPatterns (Resolve s base)) \<inter> set (DropPatterns s) = {}
    \<and> (\<not> Delta s \<longrightarrow> (\<forall>base'. Resolve s base' = Resolve s base))"
proof -
  have ok: "spec_ok re_ok s" using parsed by (rule ParseFailures_ok)
  have drops: "\<not> Delta s \<Longrightarrow> no_drops s"
    using parsed parse_loop_no_drops [of empty_spec re_ok tokens False False]
    by (fastforce simp: ParseFailures_def no_drops_def empty_spec_def
        split: sum.splits prod.splits if_splits)
  show ?thesis
  proof (cases "Delta s")
    case True
    with Resolve_ok [OF ok base] show ?thesis
      by (auto simp: Resolve_def applyDelta_set)
  next
    case False
    with Resolve_ok [OF ok base] drops show ?thesis
      by (simp add: Resolve_def no_drops_def)
  qed
qed

theorem failures_resolve_sound_witness:
  "ParseFailures (\<lambda>_. True) [''+stopped'', ''-missed''] =
     Inr (empty_spec\<lparr>Delta := True, AddReasons := {ReasonStopped}, DropReasons := {ReasonMissed}\<rparr>)
   \<and> ReasonMissed \<notin> OrDefault (Reasons (Resolve
        (empty_spec\<lparr>Delta := True, AddReasons := {ReasonStopped}, DropReasons := {ReasonMissed}\<rparr>)
        DefaultFailures)) {}"
proof -
  have p: "ParseFailures (\<lambda>_. True) [''+stopped'', ''-missed''] =
     Inr (empty_spec\<lparr>Delta := True, AddReasons := {ReasonStopped}, DropReasons := {ReasonMissed}\<rparr>)"
    by (simp add: ParseFailures_def empty_spec_def TrimSpace_def is_space_def addToken_def
        outputTokenPrefix_def is_digit_of_char parse_reason_def AllEndReasons_def)
  from failures_resolve_sound [OF p DefaultFailures_ok] p show ?thesis by auto
qed

text \<open>The built-in failure set: the tokens \<open>DefaultFailureTokens\<close> parse, whatever
  \<open>regexp\<close> accepts, and resolve to exactly the executed-and-failed reasons plus a missed
  run, so the initialiser of \<open>defaultFailureReasons\<close> never panics and yields the set the
  rest of the code assumes.\<close>

lemma default_tokens_resolve:
  "\<exists>s. ParseFailures re_ok DefaultFailureTokens = Inr s \<and> \<not> Delta s \<and>
       Resolve s base = DefaultFailures"
proof -
  let ?rs = "FailedExecutionReasons @ [ReasonMissed]"
  have tokens: "DefaultFailureTokens = map reason_name ?rs"
    by (simp add: DefaultFailureTokens_def)
  have "ReasonSuccess \<notin> set ?rs"
    by (simp add: FailedExecutionReasons_def)
  then have "parse_loop re_ok DefaultFailureTokens empty_spec False False =
      Inr (empty_spec\<lparr>AddReasons := set ?rs\<rparr>, False, True)"
    using parse_loop_reasons [of ?rs re_ok empty_spec False False]
    by (simp add: tokens empty_spec_def)
  then have "ParseFailures re_ok DefaultFailureTokens =
      Inr (empty_spec\<lparr>AddReasons := set ?rs\<rparr>)"
    by (simp add: ParseFailures_def empty_spec_def)
  then show ?thesis
    by (auto simp: Resolve_def DefaultFailures_def defaultFailureReasons_def empty_spec_def)
qed

text \<open>C40. Round trip of the grammar: printing any list of well-formed tokens (reasons,
  exit codes, exit ranges) and parsing it back accepts it as an absolute spec that holds
  exactly those tokens, in order.\<close>

theorem failures_roundtrip:
  assumes "list_all token_ok ts"
  shows "ParseFailures re_ok (map print_token ts) = Inr (fold token_add ts empty_spec)"
  using parse_loop_print [OF assms, of re_ok empty_spec False False]
    fold_token_add_delta [of ts empty_spec]
  by (simp add: ParseFailures_def empty_spec_def)

theorem failures_roundtrip_witness:
  "list_all token_ok [TExit 42, TRange 1 23, TReason ReasonMissed] \<and>
   ParseFailures (\<lambda>_. False) (map print_token [TExit 42, TRange 1 23, TReason ReasonMissed]) =
     Inr (empty_spec\<lparr>AddRanges := [(42, 42), (1, 23)], AddReasons := {ReasonMissed}\<rparr>)"
proof -
  have ok: "list_all token_ok [TExit 42, TRange 1 23, TReason ReasonMissed]" by simp
  show ?thesis
    using failures_roundtrip [OF ok, of "\<lambda>_. False"] by (simp add: empty_spec_def)
qed

end
