(* ===== verification/Params.thy ===== *)
theory Params
  imports Task_Model
begin

text \<open>
  Per-execution parameters: the declarations' validation (\<open>config/validate.go\<close>,
  \<open>validateTaskParams\<close> and what it calls), their resolution for one run and the re-supply of
  a finished run's values for a retry (\<open>model/param.go\<close>), and the environment and argument
  layers built from them. Go maps with string keys are association lists read with
  \<open>map_of\<close>; a nil map is the empty list where the code only ranges over it and \<open>None\<close> where
  the code compares it with nil. Whether a string parses as a float is the parameter
  \<open>float_ok\<close>: \<open>strconv.ParseFloat\<close> is called for its verdict only.
\<close>

section \<open>Resolving values\<close>

datatype ParamError =
    UnknownParameter string | ParamRequired string | ExpectsBoolean string string
  | HasNUL string | TooLong string nat | NotAChoice string string | ExpectsNumber string string

definition EnvMaxValueLen :: nat where "EnvMaxValueLen = 32 * 1024"

definition ParseBool :: "string \<Rightarrow> bool option" where
  "ParseBool s =
     (if s \<in> {''1'', ''t'', ''T'', ''TRUE'', ''true'', ''True''} then Some True
      else if s \<in> {''0'', ''f'', ''F'', ''FALSE'', ''false'', ''False''} then Some False
      else None)"

definition FormatBool :: "bool \<Rightarrow> string" where
  "FormatBool b = (if b then ''true'' else ''false'')"

lemma ParseBool_FormatBool [simp]: "ParseBool (FormatBool b) = Some b"
  by (cases b) (simp_all add: ParseBool_def FormatBool_def)

definition validateParamValue ::
  "(string \<Rightarrow> bool) \<Rightarrow> TaskParam \<Rightarrow> string \<Rightarrow> ParamError option" where
  "validateParamValue float_ok p v =
     (if CHR 0x00 \<in> set v then Some (HasNUL (Key p))
      else if length v > EnvMaxValueLen then Some (TooLong (Key p) (length v))
      else if Choices p \<noteq> [] \<and> \<not> AllowCustom p
        then (if v \<in> set (Choices p) then None else Some (NotAChoice (Key p) v))
      else if Type p = ParamTypeNumber \<and> \<not> float_ok v then Some (ExpectsNumber (Key p) v)
      else None)"

definition resolveFlagValue :: "TaskParam \<Rightarrow> string option \<Rightarrow> ParamError + string" where
  "resolveFlagValue p raw =
     (case raw of
        None \<Rightarrow> Inr (OrDefault (Default p) ''false'')
      | Some s \<Rightarrow> (case ParseBool s of
          None \<Rightarrow> Inl (ExpectsBoolean (Key p) s)
        | Some b \<Rightarrow> Inr (FormatBool b)))"

text \<open>\<open>supplied p.Key\<close> has three states: absent (\<open>None\<close>), explicitly omitted
  (\<open>Some None\<close>) and given (\<open>Some (Some v)\<close>); the result is the value, or \<open>None\<close> when the
  parameter contributes no key.\<close>

definition resolveParam ::
  "(string \<Rightarrow> bool) \<Rightarrow> TaskParam \<Rightarrow> string option option \<Rightarrow> ParamError + string option" where
  "resolveParam float_ok p spl =
     (if Kind p = ParamFlag
      then (case resolveFlagValue p (OrDefault spl None) of
              Inl e \<Rightarrow> Inl e | Inr v \<Rightarrow> Inr (Some v))
      else (case spl of
          Some None \<Rightarrow> if Required p then Inl (ParamRequired (Key p)) else Inr None
        | None \<Rightarrow> (case Default p of
              Some d \<Rightarrow> Inr (Some d)
            | None \<Rightarrow> if Required p then Inl (ParamRequired (Key p)) else Inr None)
        | Some (Some raw) \<Rightarrow> (case validateParamValue float_ok p raw of
              Some e \<Rightarrow> Inl e | None \<Rightarrow> Inr (Some raw))))"

type_synonym supplied = "(string \<times> string option) list"
type_synonym resolved = "(string \<times> string) list"

fun resolve_loop ::
  "(string \<Rightarrow> bool) \<Rightarrow> TaskParam list \<Rightarrow> supplied \<Rightarrow> resolved \<Rightarrow> ParamError + resolved" where
  "resolve_loop float_ok [] spl acc = Inr acc"
| "resolve_loop float_ok (p # ps) spl acc =
     (case resolveParam float_ok p (map_of spl (Key p)) of
        Inl e \<Rightarrow> Inl e
      | Inr None \<Rightarrow> resolve_loop float_ok ps spl acc
      | Inr (Some v) \<Rightarrow> resolve_loop float_ok ps spl (AList.update (Key p) v acc))"

definition ResolveParamValues ::
  "(string \<Rightarrow> bool) \<Rightarrow> TaskParam list \<Rightarrow> supplied \<Rightarrow> ParamError + resolved" where
  "ResolveParamValues float_ok params spl =
     (case find (\<lambda>k. k \<notin> set (map Key params)) (map fst spl) of
        Some k \<Rightarrow> Inl (UnknownParameter k)
      | None \<Rightarrow> resolve_loop float_ok params spl [])"

definition SuppliedFromResolved :: "TaskParam list \<Rightarrow> resolved option \<Rightarrow> supplied" where
  "SuppliedFromResolved params res =
     (case res of
        None \<Rightarrow> []
      | Some m \<Rightarrow> fold (\<lambda>p out. AList.update (Key p) (map_of m (Key p)) out) params [])"

definition PointerValues :: "resolved \<Rightarrow> supplied" where
  "PointerValues m = map (\<lambda>(k, v). (k, Some v)) m"

section \<open>Environment and argument layers\<close>

text \<open>\<open>maps.Copy(dst, src)\<close>.\<close>

definition map_copy :: "('k \<times> 'v) list \<Rightarrow> ('k \<times> 'v) list \<Rightarrow> ('k \<times> 'v) list" where
  "map_copy dst src = fold (\<lambda>(k, v). AList.update k v) src dst"

definition ParamEnvLayer :: "TaskParam list \<Rightarrow> resolved \<Rightarrow> (string \<times> string) list" where
  "ParamEnvLayer params res =
     fold (\<lambda>p out. if Kind p \<noteq> ParamEnv then out
        else (case map_of res (Key p) of None \<Rightarrow> out | Some v \<Rightarrow> AList.update (Key p) v out))
       params []"

definition EnvOverlay :: "Task \<Rightarrow> resolved \<Rightarrow> (string \<times> string) list" where
  "EnvOverlay t params =
     map_copy (map_copy (map_copy [] (Env t)) (Secrets t)) (ParamEnvLayer (Parameters t) params)"

definition optionTokens :: "string \<Rightarrow> string \<Rightarrow> string list" where
  "optionTokens key v =
     (if key \<noteq> [] \<and> last key = CHR ''='' then [key @ v] else [key, v])"

fun ParamArgTokens :: "TaskParam list \<Rightarrow> resolved \<Rightarrow> string list" where
  "ParamArgTokens [] res = []"
| "ParamArgTokens (p # ps) res =
     (case Kind p of
        ParamArg \<Rightarrow> (case map_of res (Key p) of Some v \<Rightarrow> [v] | None \<Rightarrow> [])
      | ParamOption \<Rightarrow> (case map_of res (Key p) of Some v \<Rightarrow> optionTokens (Key p) v | None \<Rightarrow> [])
      | ParamFlag \<Rightarrow> (if map_of res (Key p) = Some ''true'' then [Key p] else [])
      | ParamEnv \<Rightarrow> []) @ ParamArgTokens ps res"

section \<open>Validation of the declarations\<close>

datatype DeclError =
    DuplicateKey string | BadName string | NoDash string | BadToken string | BadType string
  | FlagModifier string | CustomWithoutChoices string | BadChoice string | BadDefault string
  | EnvCollision string | RequiredAfterOptional string | RequiredNeedsDefault string

definition env_start :: "char \<Rightarrow> bool" where
  "env_start c \<longleftrightarrow> (let n = (of_char c :: nat)
     in (65 \<le> n \<and> n \<le> 90) \<or> (97 \<le> n \<and> n \<le> 122) \<or> c = CHR ''_'')"

definition envKeyPattern :: "string \<Rightarrow> bool" where
  "envKeyPattern s = (case s of [] \<Rightarrow> False
     | c # cs \<Rightarrow> env_start c \<and> list_all (\<lambda>d. env_start d \<or> is_digit d) cs)"

definition validateParamIdentity :: "TaskParam \<Rightarrow> DeclError option" where
  "validateParamIdentity p =
     (if Kind p \<in> {ParamEnv, ParamArg}
      then (if envKeyPattern (Key p) then None else Some (BadName (Key p)))
      else if CutPrefix ''-'' (Key p) = None then Some (NoDash (Key p))
      else if list_ex (\<lambda>c. c \<in> {CHR '' '', CHR 0x09, CHR 0x0A, CHR 0x00}) (Key p)
        then Some (BadToken (Key p))
      else None)"

definition validateFlagModifiers :: "TaskParam \<Rightarrow> DeclError option" where
  "validateFlagModifiers p =
     (if Type p \<noteq> [] \<or> Choices p \<noteq> [] \<or> AllowCustom p \<or> Required p
      then Some (FlagModifier (Key p)) else None)"

definition validateChoiceValues :: "(string \<Rightarrow> bool) \<Rightarrow> TaskParam \<Rightarrow> DeclError option" where
  "validateChoiceValues float_ok p =
     (case find (\<lambda>c. CHR 0x00 \<in> set c \<or> (Type p = ParamTypeNumber \<and> \<not> float_ok c)) (Choices p)
      of Some c \<Rightarrow> Some (BadChoice c) | None \<Rightarrow> None)"

definition validateParamModifiers :: "(string \<Rightarrow> bool) \<Rightarrow> TaskParam \<Rightarrow> DeclError option" where
  "validateParamModifiers float_ok p =
     (if Type p \<notin> {[], ParamTypeString, ParamTypeNumber} then Some (BadType (Type p))
      else if Kind p = ParamFlag then validateFlagModifiers p
      else if Choices p = [] \<and> AllowCustom p then Some (CustomWithoutChoices (Key p))
      else validateChoiceValues float_ok p)"

definition validateParamDefault :: "(string \<Rightarrow> bool) \<Rightarrow> TaskParam \<Rightarrow> DeclError option" where
  "validateParamDefault float_ok p =
     (case Default p of
        None \<Rightarrow> None
      | Some def \<Rightarrow>
          if CHR 0x00 \<in> set def \<or> length def > EnvMaxValueLen then Some (BadDefault def)
          else if Kind p = ParamFlag
            then (if ParseBool def = None then Some (BadDefault def) else None)
          else if Choices p \<noteq> [] \<and> \<not> AllowCustom p
            then (if def \<in> set (Choices p) then None else Some (BadDefault def))
          else if Type p = ParamTypeNumber
            then (if float_ok def then None else Some (BadDefault def))
          else None)"

definition validateParamEnvCollision :: "TaskParam \<Rightarrow> Task \<Rightarrow> DeclError option" where
  "validateParamEnvCollision p t =
     (if Kind p \<noteq> ParamEnv then None
      else if map_of (Env t) (Key p) \<noteq> None \<or> map_of (Secrets t) (Key p) \<noteq> None
        then Some (EnvCollision (Key p))
      else None)"

text \<open>The checks of one declaration, in the code's order; the first error wins.\<close>

fun first_error :: "'e option list \<Rightarrow> 'e option" where
  "first_error [] = None"
| "first_error (None # es) = first_error es"
| "first_error (Some e # es) = Some e"

lemma first_error_None: "first_error es = None \<longleftrightarrow> (\<forall>e\<in>set es. e = None)"
  by (induction es rule: first_error.induct) auto

definition validateParamEntry ::
  "(string \<Rightarrow> bool) \<Rightarrow> TaskParam \<Rightarrow> Task \<Rightarrow> bool \<Rightarrow> bool \<Rightarrow> DeclError option" where
  "validateParamEntry float_ok p t autoScheduled optionalPositionalSeen =
     first_error
       [validateParamIdentity p,
        validateParamModifiers float_ok p,
        validateParamDefault float_ok p,
        validateParamEnvCollision p t,
        (if Kind p = ParamArg \<and> Required p \<and> optionalPositionalSeen
         then Some (RequiredAfterOptional (Key p)) else None),
        (if Required p \<and> Default p = None \<and> autoScheduled
         then Some (RequiredNeedsDefault (Key p)) else None)]"

fun validate_params_loop ::
  "(string \<Rightarrow> bool) \<Rightarrow> Task \<Rightarrow> bool \<Rightarrow> TaskParam list \<Rightarrow> string set \<Rightarrow> bool \<Rightarrow> DeclError option"
where
  "validate_params_loop float_ok t auto [] seen opt = None"
| "validate_params_loop float_ok t auto (p # ps) seen opt =
     (if Key p \<in> seen then Some (DuplicateKey (Key p))
      else (case validateParamEntry float_ok p t auto opt of
          Some e \<Rightarrow> Some e
        | None \<Rightarrow> validate_params_loop float_ok t auto ps (insert (Key p) seen)
            (opt \<or> (Kind p = ParamArg \<and> \<not> Required p))))"

definition validateTaskParams :: "(string \<Rightarrow> bool) \<Rightarrow> Task \<Rightarrow> DeclError option" where
  "validateTaskParams float_ok t =
     validate_params_loop float_ok t (Cron t \<noteq> [] \<or> RunOnStart t) (Parameters t) {} False"

text \<open>\<open>toTaskParams\<close> stores a flag's default as exactly \<open>"true"\<close> or \<open>"false"\<close>.\<close>

definition canon_flag_default :: "ParamKind \<Rightarrow> string option \<Rightarrow> string option option" where
  "canon_flag_default kind def =
     (if kind = ParamFlag
      then (case def of None \<Rightarrow> Some None
            | Some d \<Rightarrow> (case ParseBool d of None \<Rightarrow> None | Some b \<Rightarrow> Some (Some (FormatBool b))))
      else Some def)"

definition flag_default_canonical :: "TaskParam \<Rightarrow> bool" where
  "flag_default_canonical p \<longleftrightarrow>
     Kind p = ParamFlag \<longrightarrow> Default p \<in> {None, Some ''true'', Some ''false''}"

lemma canon_flag_default_canonical:
  "canon_flag_default (Kind p) d = Some d' \<Longrightarrow> flag_default_canonical (p\<lparr>Default := d'\<rparr>)"
  by (auto simp: canon_flag_default_def flag_default_canonical_def FormatBool_def
      split: if_splits option.splits)

section \<open>Facts about accepted declarations\<close>

lemma validate_loop_entries:
  "validate_params_loop float_ok t auto ps seen opt = None \<Longrightarrow>
     distinct (map Key ps) \<and> seen \<inter> set (map Key ps) = {} \<and>
     (\<forall>p\<in>set ps. \<exists>o'. validateParamEntry float_ok p t auto o' = None)"
proof (induction ps arbitrary: seen opt)
  case (Cons p ps)
  from Cons.prems have entry: "validateParamEntry float_ok p t auto opt = None"
    and "Key p \<notin> seen"
    and rest: "validate_params_loop float_ok t auto ps (insert (Key p) seen)
                 (opt \<or> (Kind p = ParamArg \<and> \<not> Required p)) = None"
    by (auto split: if_splits option.splits)
  with Cons.IH [OF rest] show ?case by auto
qed simp

definition decls_ok :: "(string \<Rightarrow> bool) \<Rightarrow> TaskParam list \<Rightarrow> bool" where
  "decls_ok float_ok ps \<longleftrightarrow> distinct (map Key ps) \<and>
     (\<forall>p\<in>set ps. validateParamDefault float_ok p = None \<and> flag_default_canonical p)"

lemma validated_decls_ok:
  assumes "validateTaskParams float_ok t = None"
    and "\<forall>p\<in>set (Parameters t). flag_default_canonical p"
  shows "decls_ok float_ok (Parameters t)"
  using validate_loop_entries [OF assms(1) [unfolded validateTaskParams_def]] assms(2)
  by (auto simp: decls_ok_def validateParamEntry_def first_error_None)

text \<open>A default accepted by the loader passes the check made on a supplied value.\<close>

lemma default_validates:
  assumes "validateParamDefault float_ok p = None" "Default p = Some d" "Kind p \<noteq> ParamFlag"
  shows "validateParamValue float_ok p d = None"
  using assms by (auto simp: validateParamDefault_def validateParamValue_def split: if_splits)

text \<open>What one parameter resolves to is accepted again, and gives itself.\<close>

lemma resolveParam_again:
  assumes ok: "validateParamDefault float_ok p = None" "flag_default_canonical p"
    and res: "resolveParam float_ok p spl = Inr v"
  shows "resolveParam float_ok p (Some v) = Inr v"
proof (cases "Kind p = ParamFlag")
  case True
  with res obtain w where w: "v = Some w" "resolveFlagValue p (OrDefault spl None) = Inr w"
    by (auto simp: resolveParam_def split: sum.splits)
  have "w = ''true'' \<or> w = ''false''"
    using w(2) ok(2) True
    by (auto simp: resolveFlagValue_def FormatBool_def flag_default_canonical_def OrDefault_def
        split: option.splits if_splits)
  then have "resolveFlagValue p (Some w) = Inr w"
    by (elim disjE) (simp_all add: resolveFlagValue_def ParseBool_def FormatBool_def)
  with w(1) True show ?thesis
    by (simp add: resolveParam_def)
next
  case False
  show ?thesis
  proof (cases v)
    case None
    with res False show ?thesis
      by (auto simp: resolveParam_def split: option.splits if_splits)
  next
    case (Some w)
    have "validateParamValue float_ok p w = None"
      using res False Some default_validates [OF ok(1)]
      by (auto simp: resolveParam_def split: option.splits if_splits)
    with False Some show ?thesis by (simp add: resolveParam_def)
  qed
qed

section \<open>The resolved map\<close>

lemma map_of_update [simp]: "map_of (AList.update k v al) = (map_of al)(k \<mapsto> v)"
  by (rule update_conv')

lemma resolve_loop_spec:
  "distinct (map Key ps) \<Longrightarrow> resolve_loop float_ok ps spl acc = Inr m \<Longrightarrow>
     (\<forall>p\<in>set ps. \<exists>r. resolveParam float_ok p (map_of spl (Key p)) = Inr r \<and>
        map_of m (Key p) = (case r of None \<Rightarrow> map_of acc (Key p) | Some v \<Rightarrow> Some v)) \<and>
     (\<forall>k. k \<notin> Key ` set ps \<longrightarrow> map_of m k = map_of acc k)"
proof (induction ps arbitrary: acc)
  case (Cons p ps)
  obtain r where r: "resolveParam float_ok p (map_of spl (Key p)) = Inr r"
    using Cons.prems(2) by (auto split: sum.splits)
  define acc' where "acc' = (case r of None \<Rightarrow> acc | Some v \<Rightarrow> AList.update (Key p) v acc)"
  have rest: "resolve_loop float_ok ps spl acc' = Inr m"
    using Cons.prems(2) r by (auto simp: acc'_def split: option.splits)
  have acc': "map_of acc' k = (if k = Key p then (case r of None \<Rightarrow> map_of acc k | Some v \<Rightarrow> Some v)
      else map_of acc k)" for k
    by (auto simp: acc'_def split: option.splits)
  have dist: "distinct (map Key ps)" and new: "Key p \<notin> Key ` set ps"
    using Cons.prems(1) by auto
  note IH = Cons.IH [OF dist rest]
  have head: "map_of m (Key p) = (case r of None \<Rightarrow> map_of acc (Key p) | Some v \<Rightarrow> Some v)"
    using IH new by (simp add: acc')
  have tail: "\<exists>r. resolveParam float_ok q (map_of spl (Key q)) = Inr r \<and>
      map_of m (Key q) = (case r of None \<Rightarrow> map_of acc (Key q) | Some v \<Rightarrow> Some v)"
    if q: "q \<in> set ps" for q
  proof -
    have "Key q \<noteq> Key p" using q new by (metis image_eqI)
    then have "map_of acc' (Key q) = map_of acc (Key q)" by (simp add: acc')
    with IH q show ?thesis by metis
  qed
  have "\<forall>k. k \<notin> Key ` set (p # ps) \<longrightarrow> map_of m k = map_of acc k"
    using IH by (simp add: acc')
  with r head tail show ?case by auto
qed auto

lemma resolve_loop_update:
  assumes "\<And>p. p \<in> set ps \<Longrightarrow> resolveParam float_ok p (map_of spl (Key p)) = Inr (f p)"
  shows "resolve_loop float_ok ps spl acc =
    Inr (fold (\<lambda>p out. case f p of None \<Rightarrow> out | Some v \<Rightarrow> AList.update (Key p) v out) ps acc)"
  using assms
proof (induction ps arbitrary: acc)
  case (Cons p ps)
  from Cons.prems [of p] have "resolveParam float_ok p (map_of spl (Key p)) = Inr (f p)" by simp
  with Cons.IH Cons.prems show ?case by (auto split: option.splits)
qed simp

lemma supplied_lookup:
  "map_of (fold (\<lambda>p out. AList.update (Key p) (g (Key p)) out) ps acc) k =
     (if k \<in> Key ` set ps then Some (g k) else map_of acc k)"
  by (induction ps arbitrary: acc) auto

lemma supplied_keys:
  "fst ` set (fold (\<lambda>p out. AList.update (Key p) (g (Key p)) out) ps acc) =
     fst ` set acc \<union> Key ` set ps"
  by (induction ps arbitrary: acc) (auto simp: dom_update)

lemma find_unknown_None:
  "fst ` set spl \<subseteq> Key ` set params \<Longrightarrow>
     find (\<lambda>k. k \<notin> Key ` set params) (map fst spl) = None"
  by (auto simp: find_None_iff)

section \<open>Overlay lookups\<close>

lemma map_copy_lookup:
  "distinct (map fst src) \<Longrightarrow>
     map_of (map_copy dst src) k = (case map_of src k of Some v \<Rightarrow> Some v | None \<Rightarrow> map_of dst k)"
proof (induction src arbitrary: dst)
  case (Cons kv src)
  obtain j v where kv: "kv = (j, v)" by (cases kv)
  have "map_of src j = None"
    using Cons.prems by (simp add: kv map_of_eq_None_iff)
  then show ?case
    using Cons.IH [of "AList.update j v dst"] Cons.prems
    by (simp add: kv map_copy_def split: option.split)
qed (simp add: map_copy_def)

lemma ParamEnvLayer_distinct: "distinct (map fst (ParamEnvLayer ps res))"
proof -
  have "distinct (map fst acc) \<Longrightarrow> distinct (map fst (fold (\<lambda>p out. if Kind p \<noteq> ParamEnv then out
        else (case map_of res (Key p) of None \<Rightarrow> out | Some v \<Rightarrow> AList.update (Key p) v out))
       ps acc))" for acc
    by (induction ps arbitrary: acc) (auto simp: distinct_update split: option.splits)
  then show ?thesis by (simp add: ParamEnvLayer_def)
qed

lemma ParamEnvLayer_lookup:
  "map_of (ParamEnvLayer ps res) k =
     (if \<exists>p\<in>set ps. Kind p = ParamEnv \<and> Key p = k then map_of res k else None)"
proof -
  have "map_of (fold (\<lambda>p out. if Kind p \<noteq> ParamEnv then out
        else (case map_of res (Key p) of None \<Rightarrow> out | Some v \<Rightarrow> AList.update (Key p) v out))
       ps acc) k =
     (if \<exists>p\<in>set ps. Kind p = ParamEnv \<and> Key p = k
      then (case map_of res k of None \<Rightarrow> map_of acc k | Some v \<Rightarrow> Some v) else map_of acc k)" for acc
    by (induction ps arbitrary: acc) (auto split: option.splits)
  from this [of "[]"] show ?thesis by (auto simp: ParamEnvLayer_def split: option.splits)
qed

section \<open>Properties\<close>

text \<open>For declarations the loader accepted, re-supplying the resolved parameters of a run through
  \<open>SuppliedFromResolved\<close> resolves to the same map, every omitted parameter still omitted.\<close>

lemma resupply:
  assumes valid: "validateTaskParams float_ok t = None"
    and canon: "\<forall>p\<in>set (Parameters t). flag_default_canonical p"
    and first: "ResolveParamValues float_ok (Parameters t) spl = Inr m"
  shows "ResolveParamValues float_ok (Parameters t) (SuppliedFromResolved (Parameters t) (Some m))
    = Inr m"
proof -
  let ?ps = "Parameters t"
  have ok: "decls_ok float_ok ?ps" using valid canon by (rule validated_decls_ok)
  then have dist: "distinct (map Key ?ps)" by (simp add: decls_ok_def)
  have loop: "resolve_loop float_ok ?ps spl [] = Inr m"
    using first by (auto simp: ResolveParamValues_def split: option.splits)
  have each: "resolveParam float_ok p (map_of spl (Key p)) = Inr (map_of m (Key p))"
    if "p \<in> set ?ps" for p
    using resolve_loop_spec [OF dist loop] that by (fastforce split: option.splits)
  have again: "resolveParam float_ok p (Some (map_of m (Key p))) = Inr (map_of m (Key p))"
    if p: "p \<in> set ?ps" for p
    using ok p resolveParam_again [OF _ _ each [OF p]] by (auto simp: decls_ok_def)
  let ?spl = "SuppliedFromResolved ?ps (Some m)"
  have look: "map_of ?spl (Key p) = Some (map_of m (Key p))" if "p \<in> set ?ps" for p
    using that by (simp add: SuppliedFromResolved_def supplied_lookup)
  have "resolve_loop float_ok ?ps ?spl [] = resolve_loop float_ok ?ps spl []"
    using resolve_loop_update [of ?ps float_ok spl "\<lambda>p. map_of m (Key p)" "[]"]
      resolve_loop_update [of ?ps float_ok ?spl "\<lambda>p. map_of m (Key p)" "[]"]
    by (simp add: each again look)
  moreover have "fst ` set ?spl \<subseteq> Key ` set ?ps"
    by (simp add: SuppliedFromResolved_def supplied_keys)
  ultimately show ?thesis
    using loop by (simp add: ResolveParamValues_def find_unknown_None)
qed

lemma example_valid:
  "validateTaskParams float_ok example_task = None"
  "\<forall>p\<in>set (Parameters example_task). flag_default_canonical p"
  by (simp_all add: validateTaskParams_def example_task_def example_params_def
      validateParamEntry_def validateParamIdentity_def validateParamModifiers_def
      validateFlagModifiers_def validateChoiceValues_def validateParamDefault_def
      validateParamEnvCollision_def envKeyPattern_def env_start_def EnvMaxValueLen_def
      ParamTypeNumber_def flag_default_canonical_def)

lemma example_resolve:
  "ResolveParamValues float_ok (Parameters example_task) [(''MODE'', None)] =
     Inr [(''--force'', ''false'')]"
  by (simp add: ResolveParamValues_def example_task_def example_params_def resolveParam_def
      resolveFlagValue_def)

text \<open>What a trigger accepts: when the resolution succeeds, every supplied key is
  declared, every declared flag is present as true or false, every required parameter is
  present, and a supplied value of a parameter with closed choices is one of them.\<close>

lemma resolved_values_valid:
  assumes canon: "\<forall>p\<in>set ps. flag_default_canonical p" and dist: "distinct (map Key ps)"
    and res: "ResolveParamValues float_ok ps spl = Inr m"
  shows "fst ` set spl \<subseteq> Key ` set ps \<and>
    (\<forall>p\<in>set ps. (Kind p = ParamFlag \<longrightarrow> map_of m (Key p) \<in> {Some ''true'', Some ''false''}) \<and>
       (Kind p \<noteq> ParamFlag \<and> Required p \<longrightarrow> map_of m (Key p) \<noteq> None) \<and>
       (\<forall>v. Kind p \<noteq> ParamFlag \<and> map_of spl (Key p) = Some (Some v) \<and> Choices p \<noteq> [] \<and>
            \<not> AllowCustom p \<longrightarrow> v \<in> set (Choices p) \<and> map_of m (Key p) = Some v))"
proof (intro conjI ballI)
  have none: "find (\<lambda>k. k \<notin> set (map Key ps)) (map fst spl) = None"
    and loop: "resolve_loop float_ok ps spl [] = Inr m"
    using res by (auto simp: ResolveParamValues_def split: option.splits)
  show "fst ` set spl \<subseteq> Key ` set ps"
    using none by (auto simp: find_None_iff)
  fix p assume p: "p \<in> set ps"
  then have each: "resolveParam float_ok p (map_of spl (Key p)) = Inr (map_of m (Key p))"
    using resolve_loop_spec [OF dist loop] by (fastforce split: option.splits)
  show "Kind p = ParamFlag \<longrightarrow> map_of m (Key p) \<in> {Some ''true'', Some ''false''}"
    using each canon p
    by (fastforce simp: resolveParam_def resolveFlagValue_def flag_default_canonical_def
        FormatBool_def OrDefault_def split: sum.splits option.splits if_splits)
  show "Kind p \<noteq> ParamFlag \<and> Required p \<longrightarrow> map_of m (Key p) \<noteq> None"
    using each
    by (cases "map_of m (Key p)") (auto simp: resolveParam_def split: option.splits if_splits)
  show "\<forall>v. Kind p \<noteq> ParamFlag \<and> map_of spl (Key p) = Some (Some v) \<and> Choices p \<noteq> [] \<and>
      \<not> AllowCustom p \<longrightarrow> v \<in> set (Choices p) \<and> map_of m (Key p) = Some v"
    using each
    by (auto simp: resolveParam_def validateParamValue_def split: option.splits if_splits)
qed

text \<open>The environment of a run: for declarations the loader accepted, a name takes its
  parameter's resolved value when one is declared, otherwise the secret, otherwise the
  plain variable; and no declared parameter ever hides a secret or a plain variable.\<close>

lemma env_overlay_precedence:
  assumes valid: "validateTaskParams float_ok t = None"
    and keys: "distinct (map fst (Env t))" "distinct (map fst (Secrets t))"
  shows "map_of (EnvOverlay t m) k =
      (case map_of (ParamEnvLayer (Parameters t) m) k of Some v \<Rightarrow> Some v
       | None \<Rightarrow> (case map_of (Secrets t) k of Some v \<Rightarrow> Some v | None \<Rightarrow> map_of (Env t) k))
    \<and> (map_of (ParamEnvLayer (Parameters t) m) k \<noteq> None \<longrightarrow>
         map_of (Secrets t) k = None \<and> map_of (Env t) k = None)"
proof
  show "map_of (EnvOverlay t m) k =
      (case map_of (ParamEnvLayer (Parameters t) m) k of Some v \<Rightarrow> Some v
       | None \<Rightarrow> (case map_of (Secrets t) k of Some v \<Rightarrow> Some v | None \<Rightarrow> map_of (Env t) k))"
    by (auto simp: EnvOverlay_def map_copy_lookup keys ParamEnvLayer_distinct split: option.split)
  have "\<forall>p\<in>set (Parameters t). validateParamEnvCollision p t = None"
    using validate_loop_entries [OF valid [unfolded validateTaskParams_def]]
    by (auto simp: validateParamEntry_def first_error_None)
  then show "map_of (ParamEnvLayer (Parameters t) m) k \<noteq> None \<longrightarrow>
      map_of (Secrets t) k = None \<and> map_of (Env t) k = None"
    by (auto simp: ParamEnvLayer_lookup validateParamEnvCollision_def split: if_splits)
qed

end
