(* ===== verification/Retry.thy ===== *)
theory Retry
  imports Task_Model
begin

text \<open>
  The policy functions of \<open>runtime/retry/policy.go\<close>: which ended run is re-run, and after
  which delay. The backoff arithmetic is 64-bit: products wrap (\<open>wrap64\<close>), and a shift by a
  negative count panics (\<open>None\<close>).
\<close>

definition RestartBackoffCap :: duration where "RestartBackoffCap = 60 * second"
definition retryDelayCap :: duration where "retryDelayCap = 5 * minute"
definition DefaultRetryDelay :: duration where "DefaultRetryDelay = 5 * second"
definition DefaultRestartDelay :: duration where "DefaultRestartDelay = second"

lemmas retry_consts [time_defs] =
  RestartBackoffCap_def retryDelayCap_def DefaultRetryDelay_def DefaultRestartDelay_def

section \<open>Eligibility\<close>

definition IsFailedExecution :: "EndReason \<Rightarrow> bool" where
  "IsFailedExecution reason \<longleftrightarrow> reason \<in> set FailedExecutionReasons"

definition shouldReRun :: "Task \<Rightarrow> Run \<Rightarrow> bool" where
  "shouldReRun task run =
     (case EndReason run of
        None \<Rightarrow> False
      | Some e \<Rightarrow> IsFailedExecution e \<and> IsFailureReason task e (ExitCode run) (OutputMatched run))"

definition ShouldRestart :: "Task \<Rightarrow> Run \<Rightarrow> bool" where
  "ShouldRestart task run =
     (if IsService (TKind task) \<and> EndReason run = Some ReasonStopped then True
      else (case Restart task of
          RestartAlways \<Rightarrow> True
        | RestartOnFailure \<Rightarrow> shouldReRun task run
        | _ \<Rightarrow> False))"

definition ShouldRetry :: "Task \<Rightarrow> Run \<Rightarrow> bool" where
  "ShouldRetry task run =
     (if RetryAttempts task \<le> 0 \<or> \<not> shouldReRun task run then False
      else RetryAttempt run < RetryAttempts task)"

section \<open>Delays\<close>

definition computeBackoff ::
  "BackoffCurve \<Rightarrow> duration \<Rightarrow> int \<Rightarrow> duration \<Rightarrow> duration option" where
  "computeBackoff strategy base attempt capDuration =
     (let clamp = (\<lambda>delay. if delay > capDuration \<or> delay < 0 then capDuration else delay)
      in (case strategy of
            BackoffExponential \<Rightarrow>
              if attempt < 0 then None
              else Some (clamp (wrap64 (base * 2 ^ nat (min attempt 30))))
          | BackoffLinear \<Rightarrow> Some (clamp (wrap64 (base * wrap64 (attempt + 1))))
          | _ \<Rightarrow> Some base))"

definition ComputeRetryDelay :: "Task \<Rightarrow> int \<Rightarrow> duration option" where
  "ComputeRetryDelay task attempt =
     computeBackoff (RetryBackoff task) (OrDefault (RetryDelay task) DefaultRetryDelay)
       attempt retryDelayCap"

definition computeRestartDelay :: "Task \<Rightarrow> int \<Rightarrow> duration option" where
  "computeRestartDelay task attempt =
     (let base = OrDefault (RestartDelay task) DefaultRestartDelay
      in if attempt \<le> 0 then Some base
         else computeBackoff (RestartBackoff task) base attempt RestartBackoffCap)"

definition restart_delay :: "Task \<Rightarrow> int \<Rightarrow> EndReason option \<Rightarrow> duration option" where
  "restart_delay task attempt reason =
     (if reason = Some ReasonStopped then Some 0 else computeRestartDelay task attempt)"

section \<open>Facts on the curve\<close>

text \<open>Where the product fits in 64 bits, the delay is the true product cut at the cap.\<close>

definition true_delay :: "BackoffCurve \<Rightarrow> duration \<Rightarrow> int \<Rightarrow> duration \<Rightarrow> duration" where
  "true_delay strategy base attempt capDuration =
     (case strategy of
        BackoffExponential \<Rightarrow> min capDuration (base * 2 ^ nat (min attempt 30))
      | BackoffLinear \<Rightarrow> min capDuration (base * (attempt + 1))
      | _ \<Rightarrow> base)"

definition fits :: "BackoffCurve \<Rightarrow> duration \<Rightarrow> int \<Rightarrow> bool" where
  "fits strategy base attempt \<longleftrightarrow>
     0 \<le> base \<and> 0 \<le> attempt \<and> attempt < max_int64 \<and>
     (case strategy of
        BackoffExponential \<Rightarrow> base * 2 ^ nat (min attempt 30) \<le> max_int64
      | BackoffLinear \<Rightarrow> base * (attempt + 1) \<le> max_int64
      | _ \<Rightarrow> True)"

lemma computeBackoff_fits:
  assumes "fits strategy base attempt" and "0 \<le> cap"
  shows "computeBackoff strategy base attempt cap = Some (true_delay strategy base attempt cap)"
proof (cases strategy)
  case BackoffExponential
  let ?p = "base * 2 ^ nat (min attempt 30)"
  have "0 \<le> ?p" "?p \<le> max_int64" and "0 \<le> attempt"
    using assms BackoffExponential by (auto simp: fits_def)
  moreover from this have "wrap64 ?p = ?p" by (intro wrap64_id) (auto simp: min_int64_def)
  ultimately show ?thesis
    using assms BackoffExponential by (simp add: computeBackoff_def true_delay_def Let_def)
next
  case BackoffLinear
  let ?p = "base * (attempt + 1)"
  have "0 \<le> ?p" "?p \<le> max_int64" and "0 \<le> attempt" "attempt < max_int64"
    using assms BackoffLinear by (auto simp: fits_def)
  moreover from this have "wrap64 ?p = ?p" by (intro wrap64_id) (auto simp: min_int64_def)
  moreover have "wrap64 (attempt + 1) = attempt + 1"
    using \<open>0 \<le> attempt\<close> \<open>attempt < max_int64\<close> by (intro wrap64_id) (auto simp: min_int64_def)
  ultimately show ?thesis
    using assms BackoffLinear by (simp add: computeBackoff_def true_delay_def Let_def)
qed (simp_all add: computeBackoff_def true_delay_def Let_def)

lemma pow_mono_min: "a \<le> (b::int) \<Longrightarrow> (2::int) ^ nat (min a 30) \<le> 2 ^ nat (min b 30)"
  by (rule power_increasing) auto

lemma true_delay_mono:
  assumes "0 \<le> base" "a \<le> b"
  shows "true_delay strategy base a cap \<le> true_delay strategy base b cap"
proof (cases strategy)
  case BackoffExponential
  have "base * 2 ^ nat (min a 30) \<le> base * 2 ^ nat (min b 30)"
    using assms pow_mono_min [of a b] by (intro mult_left_mono) auto
  with BackoffExponential show ?thesis by (simp add: true_delay_def min_le_iff_disj)
next
  case BackoffLinear
  have "base * (a + 1) \<le> base * (b + 1)"
    using assms by (intro mult_left_mono) auto
  with BackoffLinear show ?thesis by (simp add: true_delay_def min_le_iff_disj)
qed (simp_all add: true_delay_def)

text \<open>A delay is never negative and, on a growing curve, never above the cap: overflow or
  not.\<close>

lemma computeBackoff_range:
  assumes "0 \<le> base" "0 \<le> attempt" "0 \<le> cap"
  shows "\<exists>d. computeBackoff strategy base attempt cap = Some d \<and> 0 \<le> d \<and>
    (strategy \<in> {BackoffExponential, BackoffLinear} \<longrightarrow> d \<le> cap) \<and>
    (strategy \<notin> {BackoffExponential, BackoffLinear} \<longrightarrow> d = base)"
  using assms by (cases strategy) (auto simp: computeBackoff_def Let_def)

section \<open>The interface a retry loop relies on\<close>

text \<open>
  A loop that re-runs something (task retries, service restarts, a health check's retry
  chain) asks a curve for the delay before attempt \<open>n\<close>. It relies on getting one, and on
  its not being negative, for every attempt it can reach.
\<close>

locale delay_curve =
  fixes delay :: "'t \<Rightarrow> int \<Rightarrow> duration option"
    and usable :: "'t \<Rightarrow> bool"
  assumes delay_some: "usable t \<Longrightarrow> 0 \<le> a \<Longrightarrow> \<exists>d\<ge>0. delay t a = Some d"
begin

lemma chain_delays:
  "usable t \<Longrightarrow> \<exists>ds. map (\<lambda>a. delay t (int a)) [0..<n] = map Some ds \<and> (\<forall>d\<in>set ds. 0 \<le> d)"
proof (induction n)
  case (Suc n)
  then obtain ds where ds: "map (\<lambda>a. delay t (int a)) [0..<n] = map Some ds" "\<forall>d\<in>set ds. 0 \<le> d"
    by blast
  from delay_some [OF Suc.prems, of "int n"] obtain d where "0 \<le> d" "delay t (int n) = Some d"
    by auto
  with ds show ?case by (intro exI [of _ "ds @ [d]"]) auto
qed simp

end

definition retry_usable :: "Task \<Rightarrow> bool" where
  "retry_usable t \<longleftrightarrow> 0 \<le> OrDefault (RetryDelay t) DefaultRetryDelay"

definition restart_usable :: "Task \<Rightarrow> bool" where
  "restart_usable t \<longleftrightarrow> 0 \<le> OrDefault (RestartDelay t) DefaultRestartDelay"

interpretation retry: delay_curve ComputeRetryDelay retry_usable
proof unfold_locales
  fix t a assume "retry_usable t" "(0::int) \<le> a"
  then show "\<exists>d\<ge>0. ComputeRetryDelay t a = Some d"
    using computeBackoff_range [of "OrDefault (RetryDelay t) DefaultRetryDelay" a retryDelayCap
        "RetryBackoff t"]
    by (auto simp: retry_usable_def ComputeRetryDelay_def retryDelayCap_def minute_def second_def)
qed

interpretation restart: delay_curve computeRestartDelay restart_usable
proof unfold_locales
  fix t a assume "restart_usable t" "(0::int) \<le> a"
  then show "\<exists>d\<ge>0. computeRestartDelay t a = Some d"
    using computeBackoff_range [of "OrDefault (RestartDelay t) DefaultRestartDelay" a
        RestartBackoffCap "RestartBackoff t"]
    by (auto simp: restart_usable_def computeRestartDelay_def RestartBackoffCap_def second_def
        Let_def)
qed

section \<open>Properties\<close>

text \<open>Which runs are retried: a retried run executed and failed (never a stopped,
  skipped, missed, queue-full or successful one, whatever the task's failures list says), the
  list classifies it as a failure, and it is within the retry budget; and an operator may
  re-run by hand every run the daemon retries by itself.\<close>

lemma retry_only_failed_executions:
  assumes "ShouldRetry task run"
  shows "\<exists>e. EndReason run = Some e \<and> e \<in> set FailedExecutionReasons
    \<and> e \<notin> {ReasonSuccess, ReasonStopped, ReasonSkipped, ReasonMissed, ReasonQueueFull,
         ReasonDSTSkipped, ReasonDaemonStopped}
    \<and> IsFailureReason task e (ExitCode run) (OutputMatched run)
    \<and> RetryAttempt run < RetryAttempts task
    \<and> (Status run = PhaseEnded \<longrightarrow> IsRetryable run)"
  using assms
  by (auto simp: ShouldRetry_def shouldReRun_def IsFailedExecution_def FailedExecutionReasons_def
      IsRetryable_def split: if_splits option.splits)

text \<open>The retry delay grows and is capped: as long as the product fits in 64 bits the
  delay is the curve's true value cut at five minutes, so it is never negative, never above
  the cap on a growing curve, and never shrinks from one attempt to the next.\<close>

lemma retry_delay_curve:
  assumes fits: "fits (RetryBackoff task) (OrDefault (RetryDelay task) DefaultRetryDelay) a"
    and fits': "fits (RetryBackoff task) (OrDefault (RetryDelay task) DefaultRetryDelay) b"
    and le: "a \<le> b"
  shows "\<exists>d e. ComputeRetryDelay task a = Some d \<and> ComputeRetryDelay task b = Some e \<and>
    0 \<le> d \<and> d \<le> e \<and>
    (RetryBackoff task \<in> {BackoffExponential, BackoffLinear} \<longrightarrow> e \<le> retryDelayCap) \<and>
    (RetryBackoff task = BackoffExponential \<longrightarrow>
       d = min retryDelayCap (OrDefault (RetryDelay task) DefaultRetryDelay * 2 ^ nat (min a 30)))"
proof -
  let ?base = "OrDefault (RetryDelay task) DefaultRetryDelay"
  have cap: "0 \<le> retryDelayCap" by (simp add: time_defs)
  have base: "0 \<le> ?base" "0 \<le> a" using fits by (auto simp: fits_def)
  have d: "ComputeRetryDelay task a = Some (true_delay (RetryBackoff task) ?base a retryDelayCap)"
    using computeBackoff_fits [OF fits cap] by (simp add: ComputeRetryDelay_def)
  have e: "ComputeRetryDelay task b = Some (true_delay (RetryBackoff task) ?base b retryDelayCap)"
    using computeBackoff_fits [OF fits' cap] by (simp add: ComputeRetryDelay_def)
  have "0 \<le> true_delay (RetryBackoff task) ?base a retryDelayCap"
    using base cap by (auto simp: true_delay_def split: BackoffCurve.split)
  moreover have "RetryBackoff task \<in> {BackoffExponential, BackoffLinear} \<Longrightarrow>
      true_delay (RetryBackoff task) ?base b retryDelayCap \<le> retryDelayCap"
    by (auto simp: true_delay_def)
  ultimately show ?thesis
    using d e true_delay_mono [OF base(1) le, of "RetryBackoff task" retryDelayCap]
    by (auto simp: true_delay_def)
qed

definition overflow_task :: "Task \<Rightarrow> Task" where
  "overflow_task t = t\<lparr>RetryDelay := Some (2 ^ 34), RetryBackoff := BackoffExponential\<rparr>"

text \<open>The overflow guard of \<open>computeBackoff\<close> catches only products that wrap to a
  negative number or above the cap. A base delay of 2^34 nanoseconds (about 17.2 s) on the
  exponential curve wraps to exactly zero at attempt 30, so the retry fires at once where the
  cap of five minutes is due.\<close>

lemma retry_delay_overflow_to_zero:
  "ComputeRetryDelay (overflow_task t) 29 = Some retryDelayCap \<and>
   ComputeRetryDelay (overflow_task t) 30 = Some 0"
  by (simp add: ComputeRetryDelay_def overflow_task_def computeBackoff_def Let_def wrap64_def
      time_defs)

text \<open>The five-minute cap does not bound a constant curve: its delay is the configured
  base however large, although the constant's comment says the cap applies regardless of the
  curve.\<close>

lemma constant_retry_delay_uncapped:
  assumes "RetryBackoff task \<notin> {BackoffExponential, BackoffLinear}"
  shows "ComputeRetryDelay task a = Some (OrDefault (RetryDelay task) DefaultRetryDelay)"
  using assms by (cases "RetryBackoff task") (auto simp: ComputeRetryDelay_def computeBackoff_def)

text \<open>A service instance's restart: an operator's stop refills the slot at once and under
  every restart policy, a crash loop waits at most a minute on a growing curve from its second
  restart on, and the policies \<open>never\<close> and \<open>on_failure\<close> leave a cleanly exited instance
  down.\<close>

lemma service_restart_policy:
  assumes svc: "IsService (TKind task)" and usable: "restart_usable task"
  shows "(EndReason run = Some ReasonStopped \<longrightarrow>
       ShouldRestart task run \<and> restart_delay task a (EndReason run) = Some 0)
    \<and> (Restart task \<in> {RestartNever, RestartOnFailure} \<and> EndReason run = Some ReasonSuccess \<longrightarrow>
       \<not> ShouldRestart task run)
    \<and> (1 \<le> a \<and> RestartBackoff task \<in> {BackoffExponential, BackoffLinear} \<longrightarrow>
       (\<exists>d. restart_delay task a (EndReason run) = Some d \<and> 0 \<le> d \<and> d \<le> RestartBackoffCap))"
proof (intro conjI impI)
  assume "EndReason run = Some ReasonStopped"
  with svc show "ShouldRestart task run" "restart_delay task a (EndReason run) = Some 0"
    by (simp_all add: ShouldRestart_def restart_delay_def)
next
  assume "Restart task \<in> {RestartNever, RestartOnFailure} \<and> EndReason run = Some ReasonSuccess"
  then show "\<not> ShouldRestart task run"
    by (auto simp: ShouldRestart_def shouldReRun_def)
next
  assume a: "1 \<le> a \<and> RestartBackoff task \<in> {BackoffExponential, BackoffLinear}"
  have "0 \<le> RestartBackoffCap" by (simp add: time_defs)
  with computeBackoff_range [of "OrDefault (RestartDelay task) DefaultRestartDelay" a
      RestartBackoffCap "RestartBackoff task"] usable a
  show "\<exists>d. restart_delay task a (EndReason run) = Some d \<and> 0 \<le> d \<and> d \<le> RestartBackoffCap"
    by (auto simp: restart_usable_def restart_delay_def computeRestartDelay_def Let_def)
qed

end
