(* ===== verification/Supervisor.thy ===== *)
theory Supervisor
  imports Task_Model
begin

text \<open>
  The service supervisor of \<open>runtime/services/supervisor.go\<close>: which instance slots of one
  service are occupied, how healthy their runs are, how many restarts and fast failures each
  has accumulated, and which have been given up on. The map from slot index to slot state is
  an association list (an entry is created on first touch); the clock is the argument \<open>now\<close>
  of the operations that read it. Counters are unbounded integers: they count exits of one
  process.
\<close>

definition DefaultHealthyAfter :: duration where [time_defs]: "DefaultHealthyAfter = 60 * second"

record slotState =
  live :: bool
  attempts :: int
  liveSince :: instant
  gated :: bool
  healthy :: bool
  startFails :: int
  fatal :: bool
  exited :: bool
  exitFailed :: bool
  lastExit :: "int option"

definition zero_slot :: slotState where
  "zero_slot = \<lparr>live = False, attempts = 0, liveSince = 0, gated = False, healthy = False,
     startFails = 0, fatal = False, exited = False, exitFailed = False, lastExit = None\<rparr>"

definition wasHealthy :: "slotState \<Rightarrow> duration \<Rightarrow> duration \<Rightarrow> bool" where
  "wasHealthy st uptime healthyAfter = (if gated st then healthy st else uptime \<ge> healthyAfter)"

record Supervisor =
  s_taskName :: string
  s_instances :: int
  slots :: "(int \<times> slotState) list"
  s_healthyAfter :: duration
  s_stopped :: bool

definition NewSupervisor :: "string \<Rightarrow> int \<Rightarrow> duration \<Rightarrow> bool \<Rightarrow> Supervisor" where
  "NewSupervisor taskName instances healthyAfter startStopped =
     \<lparr>s_taskName = taskName, s_instances = max instances 1, slots = [],
      s_healthyAfter = (if healthyAfter \<le> 0 then DefaultHealthyAfter else healthyAfter),
      s_stopped = startStopped\<rparr>"

definition slot :: "Supervisor \<Rightarrow> int \<Rightarrow> slotState" where
  "slot s idx = OrDefault (map_of (slots s) idx) zero_slot"

definition mutateSlot :: "int \<Rightarrow> (slotState \<Rightarrow> slotState) \<Rightarrow> Supervisor \<Rightarrow> Supervisor" where
  "mutateSlot idx f s = s\<lparr>slots := AList.update idx (f (slot s idx)) (slots s)\<rparr>"

definition SetInstances :: "int \<Rightarrow> Supervisor \<Rightarrow> Supervisor" where
  "SetInstances instances s = s\<lparr>s_instances := max instances 1\<rparr>"

definition SetHealthyAfter :: "duration \<Rightarrow> Supervisor \<Rightarrow> Supervisor" where
  "SetHealthyAfter d s = s\<lparr>s_healthyAfter := (if d \<le> 0 then DefaultHealthyAfter else d)\<rparr>"

definition occupy :: "int \<Rightarrow> Supervisor \<Rightarrow> Supervisor" where
  "occupy idx = mutateSlot idx (\<lambda>st. st\<lparr>live := True, exited := False, exitFailed := False\<rparr>)"

text \<open>The indexes \<open>0 \<le> i < instances\<close>, ascending, as the code's loops visit them.\<close>

definition indexes :: "Supervisor \<Rightarrow> int list" where
  "indexes s = [0..s_instances s - 1]"

datatype ReserveError = IndexOutOfRange int int | AlreadyLive int | NoFreeSlot int

definition Reserve :: "int option \<Rightarrow> Supervisor \<Rightarrow> ReserveError + (int \<times> Supervisor)" where
  "Reserve requested s =
     (case requested of
        Some idx \<Rightarrow>
          if idx < 0 \<or> idx \<ge> s_instances s then Inl (IndexOutOfRange idx (s_instances s))
          else if live (slot s idx) then Inl (AlreadyLive idx)
          else Inr (idx, occupy idx s)
      | None \<Rightarrow> (case find (\<lambda>i. \<not> live (slot s i)) (indexes s) of
            Some i \<Rightarrow> Inr (i, occupy i s)
          | None \<Rightarrow> Inl (NoFreeSlot (s_instances s))))"

definition MarkExited :: "int \<Rightarrow> bool \<Rightarrow> Supervisor \<Rightarrow> Supervisor" where
  "MarkExited idx failed = mutateSlot idx (\<lambda>st. st\<lparr>exited := True, exitFailed := failed\<rparr>)"

definition IsAnyExited :: "Supervisor \<Rightarrow> bool" where
  "IsAnyExited s = list_ex (\<lambda>i. exited (slot s i)) (indexes s)"

definition LiveCount :: "Supervisor \<Rightarrow> nat" where
  "LiveCount s = length (filter (\<lambda>(_, st). live st) (slots s))"

definition IsDown :: "Supervisor \<Rightarrow> bool" where
  "IsDown s =
     (if LiveCount s > 0 then False
      else list_all (\<lambda>i. fatal (slot s i) \<or> exited (slot s i)) (indexes s))"

definition exit_slot ::
  "duration \<Rightarrow> duration \<Rightarrow> int \<Rightarrow> bool \<Rightarrow> slotState \<Rightarrow> slotState \<times> int \<times> bool" where
  "exit_slot healthyAfter runDuration startRetries wasFailure st =
     (let h = wasHealthy st runDuration healthyAfter;
          st1 = st\<lparr>live := False, liveSince := 0, gated := False, healthy := False\<rparr>;
          nextAttempt = (if h then 0 else attempts st1);
          st2 = st1\<lparr>attempts := nextAttempt + 1\<rparr>
      in if \<not> wasFailure \<or> h
         then (st2\<lparr>startFails := 0, fatal := False\<rparr>, nextAttempt, False)
         else let st3 = st2\<lparr>startFails := startFails st2 + 1\<rparr>
              in if startFails st3 > startRetries
                 then (st3\<lparr>fatal := True\<rparr>, nextAttempt, True)
                 else (st3, nextAttempt, False))"

definition RecordExit ::
  "int \<Rightarrow> duration \<Rightarrow> int \<Rightarrow> bool \<Rightarrow> Supervisor \<Rightarrow> Supervisor \<times> int \<times> bool" where
  "RecordExit idx runDuration startRetries wasFailure s =
     (case exit_slot (s_healthyAfter s) runDuration startRetries wasFailure (slot s idx) of
        (st', nextAttempt, fatalNow) \<Rightarrow> (mutateSlot idx (\<lambda>_. st') s, nextAttempt, fatalNow))"

definition MarkLive :: "instant \<Rightarrow> int \<Rightarrow> bool \<Rightarrow> Supervisor \<Rightarrow> Supervisor" where
  "MarkLive now idx gate =
     mutateSlot idx (\<lambda>st. st\<lparr>liveSince := now, gated := gate, healthy := False\<rparr>)"

definition MarkHealthy :: "int \<Rightarrow> Supervisor \<Rightarrow> Supervisor" where
  "MarkHealthy idx = mutateSlot idx (\<lambda>st. st\<lparr>healthy := True\<rparr>)"

definition IsHealthy :: "instant \<Rightarrow> Supervisor \<Rightarrow> bool" where
  "IsHealthy now s =
     (if s_stopped s then False
      else list_ex (\<lambda>(_, st). \<not> (liveSince st = 0 \<or> fatal st) \<and>
             wasHealthy st (time_sub now (liveSince st)) (s_healthyAfter s)) (slots s))"

definition MissingSlots :: "Supervisor \<Rightarrow> int list" where
  "MissingSlots s = filter (\<lambda>i. \<not> live (slot s i) \<and> \<not> fatal (slot s i)) (indexes s)"

definition ClearFatal :: "Supervisor \<Rightarrow> Supervisor" where
  "ClearFatal s =
     s\<lparr>slots := map (\<lambda>(i, st). (i, if fatal st then st\<lparr>fatal := False, startFails := 0\<rparr> else st))
        (slots s)\<rparr>"

definition MarkStopped :: "Supervisor \<Rightarrow> Supervisor" where
  "MarkStopped s = s\<lparr>s_stopped := True\<rparr>"

definition MarkRunning :: "Supervisor \<Rightarrow> Supervisor" where
  "MarkRunning s = ClearFatal (s\<lparr>s_stopped := False\<rparr>)"

definition SetLastExitCode :: "int \<Rightarrow> int \<Rightarrow> Supervisor \<Rightarrow> Supervisor" where
  "SetLastExitCode idx code = mutateSlot idx (\<lambda>st. st\<lparr>lastExit := Some code\<rparr>)"

definition IsAnyFatal :: "Supervisor \<Rightarrow> bool" where
  "IsAnyFatal s = list_ex (\<lambda>(_, st). fatal st) (slots s)"

section \<open>Reading slots back\<close>

lemma map_of_AList_update: "map_of (AList.update k v al) = (map_of al)(k \<mapsto> v)"
  by (rule update_conv')

lemma slot_mutateSlot [simp]:
  "slot (mutateSlot idx f s) i = (if i = idx then f (slot s idx) else slot s i)"
  by (simp add: mutateSlot_def slot_def map_of_AList_update)

lemma mutateSlot_frame [simp]:
  "s_instances (mutateSlot idx f s) = s_instances s"
  "s_healthyAfter (mutateSlot idx f s) = s_healthyAfter s"
  "s_stopped (mutateSlot idx f s) = s_stopped s"
  "indexes (mutateSlot idx f s) = indexes s"
  by (simp_all add: mutateSlot_def indexes_def)

lemma indexes_set [simp]: "i \<in> set (indexes s) \<longleftrightarrow> 0 \<le> i \<and> i < s_instances s"
  by (auto simp: indexes_def)

lemma slot_ClearFatal [simp]:
  "slot (ClearFatal s) i =
     (if fatal (slot s i) then (slot s i)\<lparr>fatal := False, startFails := 0\<rparr> else slot s i)"
proof -
  have "map_of (map (\<lambda>(i, st). (i, g st)) al) i = map_option g (map_of al i)" for g :: "slotState \<Rightarrow> slotState" and al
    by (induction al) auto
  from this [of "\<lambda>st. if fatal st then st\<lparr>fatal := False, startFails := 0\<rparr> else st" "slots s"]
  show ?thesis
    by (cases "map_of (slots s) i") (simp_all add: ClearFatal_def slot_def zero_slot_def)
qed

lemma zero_slot_simps [simp]:
  "live zero_slot = False" "fatal zero_slot = False" "exited zero_slot = False"
  "liveSince zero_slot = 0" "attempts zero_slot = 0" "startFails zero_slot = 0"
  "gated zero_slot = False" "healthy zero_slot = False"
  by (simp_all add: zero_slot_def)

lemma slot_simps_frame [simp]:
  "slot (SetInstances n s) = slot s" "slot (SetHealthyAfter d s) = slot s"
  "slot (MarkStopped s) = slot s"
  by (auto simp: slot_def SetInstances_def SetHealthyAfter_def MarkStopped_def)

lemma slot_MarkRunning [simp]: "slot (MarkRunning s) = slot (ClearFatal s)"
  by (rule ext) (simp add: MarkRunning_def ClearFatal_def slot_def)

lemma ClearFatal_frame [simp]:
  "s_instances (ClearFatal s) = s_instances s" "s_healthyAfter (ClearFatal s) = s_healthyAfter s"
  by (simp_all add: ClearFatal_def)

lemma exit_slot_live:
  "exit_slot h d n f st = (st', a, ft) \<Longrightarrow>
     \<not> live st' \<and> liveSince st' = 0 \<and> \<not> gated st' \<and> \<not> healthy st' \<and>
     exited st' = exited st \<and> lastExit st' = lastExit st"
  by (auto simp: exit_slot_def Let_def split: if_splits)

lemma RecordExit_slot:
  "slot (fst (RecordExit idx d n f s)) i =
     (if i = idx then fst (exit_slot (s_healthyAfter s) d n f (slot s idx)) else slot s i)"
  by (simp add: RecordExit_def split: prod.split)

lemma RecordExit_result:
  "snd (RecordExit idx d n f s) = snd (exit_slot (s_healthyAfter s) d n f (slot s idx))"
  by (simp add: RecordExit_def split: prod.split)

lemma RecordExit_frame [simp]:
  "s_instances (fst (RecordExit idx d n f s)) = s_instances s"
  "s_healthyAfter (fst (RecordExit idx d n f s)) = s_healthyAfter s"
  "s_stopped (fst (RecordExit idx d n f s)) = s_stopped s"
  by (simp_all add: RecordExit_def split: prod.split)

section \<open>The slot pool the manager relies on\<close>

text \<open>
  The manager reserves a slot before it starts a service run and releases it when the run
  retires. It relies on a reserved slot being free before and in range, and on neither
  operation touching other slots. Then the active runs and the live slots stay in step.
\<close>

locale slot_pool =
  fixes reserve :: "int option \<Rightarrow> 's \<Rightarrow> 'e + (int \<times> 's)"
    and release :: "'x \<Rightarrow> int \<Rightarrow> 's \<Rightarrow> 's"
    and occupied :: "'s \<Rightarrow> int \<Rightarrow> bool"
    and capacity :: "'s \<Rightarrow> int"
  assumes reserve_free: "reserve r s = Inr (i, s') \<Longrightarrow> \<not> occupied s i"
    and reserve_range: "reserve r s = Inr (i, s') \<Longrightarrow> 0 \<le> i \<and> i < capacity s"
    and reserve_occupies: "reserve r s = Inr (i, s') \<Longrightarrow> occupied s' = (occupied s)(i := True)"
    and reserve_capacity: "reserve r s = Inr (i, s') \<Longrightarrow> capacity s' = capacity s"
    and release_frees: "occupied (release x i s) = (occupied s)(i := False)"
    and release_capacity: "capacity (release x i s) = capacity s"
begin

definition in_step :: "int list \<Rightarrow> 's \<Rightarrow> bool" where
  "in_step act s \<longleftrightarrow> distinct act \<and> set act = {i. occupied s i}"

lemma in_step_reserve: "in_step act s \<Longrightarrow> reserve r s = Inr (i, s') \<Longrightarrow> in_step (act @ [i]) s'"
  by (frule reserve_free) (auto simp: in_step_def reserve_occupies)

lemma in_step_release: "in_step act s \<Longrightarrow> in_step (remove1 i act) (release x i s)"
  by (auto simp: in_step_def release_frees)

definition within :: "int list \<Rightarrow> 's \<Rightarrow> bool" where
  "within act s \<longleftrightarrow> in_step act s \<and> (\<forall>i\<in>set act. 0 \<le> i \<and> i < capacity s)"

lemma within_reserve: "within act s \<Longrightarrow> reserve r s = Inr (i, s') \<Longrightarrow> within (act @ [i]) s'"
  by (auto simp: within_def in_step_reserve reserve_capacity dest: reserve_range)

lemma within_release: "within act s \<Longrightarrow> within (remove1 i act) (release x i s)"
  using set_remove1_subset [of i act]
  by (auto simp: within_def in_step_release release_capacity)

lemma within_bound: "within act s \<Longrightarrow> length act \<le> nat (capacity s)"
proof -
  assume w: "within act s"
  then have "set act \<subseteq> {0..<capacity s}" by (auto simp: within_def)
  then have "card (set act) \<le> card {0..<capacity s}" by (rule card_mono [rotated]) simp
  moreover have "card (set act) = length act"
    using w distinct_card [of act] by (auto simp only: within_def in_step_def)
  ultimately show ?thesis by simp
qed

end

lemma Reserve_Inr:
  "Reserve r s = Inr (i, s') \<longleftrightarrow>
     s' = occupy i s \<and> 0 \<le> i \<and> i < s_instances s \<and> \<not> live (slot s i) \<and>
     (case r of Some idx \<Rightarrow> i = idx | None \<Rightarrow> \<forall>j. 0 \<le> j \<and> j < i \<longrightarrow> live (slot s j))"
proof (cases r)
  case None
  have "find (\<lambda>i. \<not> live (slot s i)) (indexes s) = Some i \<longleftrightarrow>
      0 \<le> i \<and> i < s_instances s \<and> \<not> live (slot s i) \<and> (\<forall>j. 0 \<le> j \<and> j < i \<longrightarrow> live (slot s j))"
    (is "?l \<longleftrightarrow> ?r")
  proof
    assume ?l
    then obtain n where n: "n < length (indexes s)" "i = indexes s ! n" "\<not> live (slot s i)"
      "\<forall>j<n. live (slot s (indexes s ! j))"
      by (auto simp: find_Some_iff)
    then have i: "i = int n" "int n < s_instances s" by (auto simp: indexes_def nth_upto)
    have "live (slot s j)" if "0 \<le> j" "j < i" for j
      using n(4) [rule_format, of "nat j"] that i by (simp add: indexes_def nth_upto)
    with n i show ?r by auto
  next
    assume r: ?r
    then have len: "nat i < length (indexes s)" by (simp add: indexes_def)
    have nth: "k < length (indexes s) \<Longrightarrow> indexes s ! k = int k" for k
      by (simp add: indexes_def nth_upto)
    show ?l
      unfolding find_Some_iff
      by (rule exI [of _ "nat i"]) (use r len nth in auto)
  qed
  with None show ?thesis by (auto simp: Reserve_def split: option.splits)
qed (auto simp: Reserve_def)

lemma live_occupy: "live (slot (occupy i s) j) = (j = i \<or> live (slot s j))"
  by (simp add: occupy_def)

definition release_slot :: "duration \<times> int \<times> bool \<Rightarrow> int \<Rightarrow> Supervisor \<Rightarrow> Supervisor" where
  "release_slot x idx s = (case x of (d, n, f) \<Rightarrow> fst (RecordExit idx d n f s))"

lemma live_RecordExit: "live (slot (fst (RecordExit idx d n f s)) j) = (j \<noteq> idx \<and> live (slot s j))"
  using exit_slot_live by (auto simp: RecordExit_slot prod_eq_iff)

interpretation pool: slot_pool Reserve release_slot "\<lambda>s i. live (slot s i)" s_instances
  by unfold_locales
    (auto simp: Reserve_Inr live_occupy release_slot_def live_RecordExit occupy_def fun_eq_iff
      split: prod.splits)

section \<open>The invariant of a supervisor\<close>

definition slot_inv :: "slotState \<Rightarrow> bool" where
  "slot_inv st \<longleftrightarrow> (exited st \<longrightarrow> \<not> live st) \<and> (liveSince st \<noteq> 0 \<longrightarrow> live st)
     \<and> (gated st \<or> healthy st \<longrightarrow> live st) \<and> 0 \<le> attempts st \<and> 0 \<le> startFails st
     \<and> (fatal st \<longrightarrow> 0 < startFails st)"

definition sup_inv :: "Supervisor \<Rightarrow> bool" where
  "sup_inv s \<longleftrightarrow> distinct (map fst (slots s)) \<and> 1 \<le> s_instances s \<and> 0 < s_healthyAfter s
     \<and> (\<forall>i. slot_inv (slot s i))"

datatype sup_event =
    EReserve "int option"
  | EExit int duration int bool
  | EMarkExited int bool
  | EMarkLive instant int bool
  | EMarkHealthy int
  | ESetInstances int
  | ESetHealthyAfter duration
  | EMarkStopped
  | EMarkRunning
  | ESetLastExitCode int int

fun sup_step :: "sup_event \<Rightarrow> Supervisor \<Rightarrow> Supervisor" where
  "sup_step (EReserve r) s = (case Reserve r s of Inl _ \<Rightarrow> s | Inr (_, s') \<Rightarrow> s')"
| "sup_step (EExit i d n f) s = fst (RecordExit i d n f s)"
| "sup_step (EMarkExited i f) s = MarkExited i f s"
| "sup_step (EMarkLive now i g) s = MarkLive now i g s"
| "sup_step (EMarkHealthy i) s = MarkHealthy i s"
| "sup_step (ESetInstances n) s = SetInstances n s"
| "sup_step (ESetHealthyAfter d) s = SetHealthyAfter d s"
| "sup_step EMarkStopped s = MarkStopped s"
| "sup_step EMarkRunning s = MarkRunning s"
| "sup_step (ESetLastExitCode i c) s = SetLastExitCode i c s"

text \<open>How the manager calls the supervisor: a slot is marked live or healthy only while its
  run holds it, and marked exited only after \<open>RecordExit\<close> freed it.\<close>

fun sup_ok :: "sup_event \<Rightarrow> Supervisor \<Rightarrow> bool" where
  "sup_ok (EMarkExited i f) s = (\<not> live (slot s i))"
| "sup_ok (EMarkLive now i g) s = live (slot s i)"
| "sup_ok (EMarkHealthy i) s = live (slot s i)"
| "sup_ok _ s = True"

lemma slot_inv_zero [simp]: "slot_inv zero_slot"
  by (simp add: slot_inv_def)

lemma exit_slot_inv: "slot_inv st \<Longrightarrow> slot_inv (fst (exit_slot h d n f st))"
  by (auto simp: exit_slot_def slot_inv_def Let_def)

lemma sup_inv_mutate:
  "sup_inv s \<Longrightarrow> slot_inv (f (slot s idx)) \<Longrightarrow> sup_inv (mutateSlot idx f s)"
  by (auto simp: sup_inv_def) (simp add: mutateSlot_def distinct_update)

lemma sup_inv_new: "sup_inv (NewSupervisor name n d st)"
  by (simp add: sup_inv_def NewSupervisor_def slot_def DefaultHealthyAfter_def second_def)

lemma sup_inv_slot: "sup_inv s \<Longrightarrow> slot_inv (slot s i)"
  by (simp add: sup_inv_def)

lemma ClearFatal_inv: "sup_inv s \<Longrightarrow> sup_inv (ClearFatal s)"
proof -
  assume inv: "sup_inv s"
  have "map fst (slots (ClearFatal s)) = map fst (slots s)"
    by (simp add: ClearFatal_def case_prod_unfold)
  moreover have "slot_inv (slot (ClearFatal s) i)" for i
    using sup_inv_slot [OF inv, of i] by (auto simp: slot_inv_def)
  ultimately show ?thesis using inv by (simp add: sup_inv_def)
qed

lemma sup_step_inv: "sup_inv s \<Longrightarrow> sup_ok e s \<Longrightarrow> sup_inv (sup_step e s)"
proof (cases e)
  case (EReserve r)
  assume inv: "sup_inv s"
  show ?thesis
  proof (cases "Reserve r s")
    case (Inr p)
    obtain i s' where p: "p = (i, s')" by (cases p)
    with Inr have "s' = occupy i s" by (simp add: Reserve_Inr)
    with inv p Inr EReserve show ?thesis
      by (auto simp: occupy_def intro!: sup_inv_mutate
          dest: sup_inv_slot [of _ i] simp: slot_inv_def)
  qed (use inv EReserve in simp)
next
  case (EExit i d n f)
  assume "sup_inv s"
  then have "sup_inv (mutateSlot i (\<lambda>_. fst (exit_slot (s_healthyAfter s) d n f (slot s i))) s)"
    by (intro sup_inv_mutate) (auto intro: exit_slot_inv sup_inv_slot)
  with EExit show ?thesis by (auto simp: RecordExit_def split: prod.split)
next
  case EMarkRunning
  assume "sup_inv s"
  then have "sup_inv (s\<lparr>s_stopped := False\<rparr>)" by (simp add: sup_inv_def slot_def)
  with EMarkRunning show ?thesis by (simp add: MarkRunning_def ClearFatal_inv)
next
  case (ESetInstances n)
  assume "sup_inv s"
  with ESetInstances show ?thesis by (simp add: sup_inv_def) (simp add: SetInstances_def)
next
  case (ESetHealthyAfter d)
  assume "sup_inv s"
  with ESetHealthyAfter show ?thesis
    by (simp add: sup_inv_def) (simp add: SetHealthyAfter_def DefaultHealthyAfter_def second_def)
next
  case EMarkStopped
  assume "sup_inv s"
  with EMarkStopped show ?thesis by (simp add: sup_inv_def) (simp add: MarkStopped_def)
next
  case (EMarkExited i f)
  assume inv: "sup_inv s" and "sup_ok e s"
  with EMarkExited sup_inv_slot [OF inv, of i] show ?thesis
    by (simp add: MarkExited_def) (rule sup_inv_mutate, auto simp: slot_inv_def)
next
  case (EMarkLive now i g)
  assume inv: "sup_inv s" and "sup_ok e s"
  with EMarkLive sup_inv_slot [OF inv, of i] show ?thesis
    by (simp add: MarkLive_def) (rule sup_inv_mutate, auto simp: slot_inv_def)
next
  case (EMarkHealthy i)
  assume inv: "sup_inv s" and "sup_ok e s"
  with EMarkHealthy sup_inv_slot [OF inv, of i] show ?thesis
    by (simp add: MarkHealthy_def) (rule sup_inv_mutate, auto simp: slot_inv_def)
next
  case (ESetLastExitCode i c)
  assume inv: "sup_inv s"
  with ESetLastExitCode sup_inv_slot [OF inv, of i] show ?thesis
    by (simp add: SetLastExitCode_def) (rule sup_inv_mutate, auto simp: slot_inv_def)
qed

interpretation supervisor: step_machine sup_step sup_ok sup_inv
  by unfold_locales (rule sup_step_inv)

text \<open>In an invariant supervisor the entries of the map are what \<open>slot\<close> reads.\<close>

lemma entries_slots: "sup_inv s \<Longrightarrow> (i, st) \<in> set (slots s) \<Longrightarrow> slot s i = st"
  by (auto simp: sup_inv_def slot_def)

lemma LiveCount_zero: "sup_inv s \<Longrightarrow> LiveCount s = 0 \<longleftrightarrow> (\<forall>i. \<not> live (slot s i))"
proof
  assume "LiveCount s = 0"
  then have "\<forall>(i, st)\<in>set (slots s). \<not> live st"
    by (auto simp: LiveCount_def filter_empty_conv)
  then show "\<forall>i. \<not> live (slot s i)"
    by (auto simp: slot_def OrDefault_def dest: map_of_SomeD split: option.splits)
next
  assume "sup_inv s" "\<forall>i. \<not> live (slot s i)"
  then show "LiveCount s = 0"
    by (auto simp: LiveCount_def filter_empty_conv dest: entries_slots)
qed

section \<open>Properties\<close>

text \<open>Reserving a slot: it succeeds exactly when the pinned slot is free and in range or,
  with none pinned, some slot below the instance count is free; it then hands out the pinned
  or the lowest free one, marks it live and no longer exited, and leaves every other slot as
  it was.\<close>

lemma reserve_outcome:
  "(\<forall>i s'. Reserve r s = Inr (i, s') \<longrightarrow>
      0 \<le> i \<and> i < s_instances s \<and> \<not> live (slot s i) \<and> live (slot s' i) \<and>
      \<not> exited (slot s' i) \<and> (\<forall>j. j \<noteq> i \<longrightarrow> slot s' j = slot s j) \<and>
      (r = None \<longrightarrow> (\<forall>j. 0 \<le> j \<and> j < i \<longrightarrow> live (slot s j))) \<and> (\<forall>k. r = Some k \<longrightarrow> i = k))
   \<and> ((\<exists>i s'. Reserve None s = Inr (i, s')) \<longleftrightarrow> (\<exists>i. 0 \<le> i \<and> i < s_instances s \<and> \<not> live (slot s i)))
   \<and> ((\<exists>i s'. Reserve (Some k) s = Inr (i, s')) \<longleftrightarrow> 0 \<le> k \<and> k < s_instances s \<and> \<not> live (slot s k))"
proof (intro conjI)
  show "(\<exists>i s'. Reserve None s = Inr (i, s')) \<longleftrightarrow>
      (\<exists>i. 0 \<le> i \<and> i < s_instances s \<and> \<not> live (slot s i))"
  proof
    assume "\<exists>i. 0 \<le> i \<and> i < s_instances s \<and> \<not> live (slot s i)"
    then have "find (\<lambda>i. \<not> live (slot s i)) (indexes s) \<noteq> None"
      by (auto simp: find_None_iff)
    then show "\<exists>i s'. Reserve None s = Inr (i, s')"
      by (auto simp: Reserve_def)
  qed (auto simp: Reserve_Inr)
qed (auto simp: Reserve_Inr occupy_def split: option.splits)

text \<open>The supervisor's invariant: after any sequence of operations the manager may issue,
  starting from a new supervisor, no slot that exited for good is live, the readiness clock
  and the health flags are set only on live slots, a FATAL slot has a failure streak behind
  it, and the desired instance count is at least one.\<close>

lemma supervisor_invariant:
  assumes "supervisor.admissible es (NewSupervisor name n d stopped)"
    and "s = fold sup_step es (NewSupervisor name n d stopped)"
  shows "1 \<le> s_instances s \<and> distinct (map fst (slots s)) \<and>
    (exited (slot s i) \<longrightarrow> \<not> live (slot s i)) \<and>
    (liveSince (slot s i) \<noteq> 0 \<or> gated (slot s i) \<or> healthy (slot s i) \<longrightarrow> live (slot s i)) \<and>
    (fatal (slot s i) \<longrightarrow> 0 < startFails (slot s i))"
proof -
  have "sup_inv s"
    using supervisor.fold_inv [OF sup_inv_new assms(1)] assms(2) by simp
  then show ?thesis
    using sup_inv_slot [of s i] by (auto simp: sup_inv_def slot_inv_def)
qed

definition fail_cycle :: "int \<Rightarrow> instant \<Rightarrow> bool \<Rightarrow> duration \<Rightarrow> int \<Rightarrow> Supervisor \<Rightarrow> Supervisor" where
  "fail_cycle i now g d retries s =
     fst (RecordExit i d retries True (MarkLive now i g (occupy i s)))"

lemma fail_cycle_slot:
  assumes "g \<or> d < s_healthyAfter s"
  shows "startFails (slot (fail_cycle i now g d retries s) i) = startFails (slot s i) + 1"
    and "s_healthyAfter (fail_cycle i now g d retries s) = s_healthyAfter s"
    and "snd (snd (RecordExit i d retries True (MarkLive now i g (occupy i s)))) =
      (startFails (slot s i) + 1 > retries)"
  using assms
  by (auto simp: fail_cycle_def RecordExit_slot RecordExit_result MarkLive_def occupy_def
      exit_slot_def wasHealthy_def Let_def)

lemma fail_cycles:
  "g \<or> d < s_healthyAfter s \<Longrightarrow>
     startFails (slot ((fail_cycle i now g d retries ^^ n) s) i) = startFails (slot s i) + int n \<and>
     s_healthyAfter ((fail_cycle i now g d retries ^^ n) s) = s_healthyAfter s"
  by (induction n) (auto simp: fail_cycle_slot)

text \<open>The start-retry budget: with \<open>n\<close> fast failures in a row already counted, the next
  one (the run ended before it was healthy) gives the slot up exactly when it exceeds the
  budget, however many reserve, run and exit cycles led there; and a run that was healthy, or
  an exit that is not a failure, clears the streak and the FATAL flag.\<close>

lemma start_retry_budget:
  assumes fast: "g \<or> d < s_healthyAfter s" and fresh: "startFails (slot s i) = 0"
  shows "(snd (snd (RecordExit i d retries True
      (MarkLive now i g (occupy i ((fail_cycle i now g d retries ^^ n) s))))) \<longleftrightarrow>
        retries < int n + 1)
    \<and> \<not> snd (snd (RecordExit i d' retries False s'))
    \<and> \<not> fatal (slot (fst (RecordExit i d' retries False s')) i)
    \<and> startFails (slot (fst (RecordExit i d' retries False s')) i) = 0"
proof -
  have "g \<or> d < s_healthyAfter ((fail_cycle i now g d retries ^^ n) s)"
    using fail_cycles [OF fast] fast by simp
  from fail_cycle_slot(3) [OF this] fail_cycles [OF fast] fresh
  have "snd (snd (RecordExit i d retries True
      (MarkLive now i g (occupy i ((fail_cycle i now g d retries ^^ n) s))))) \<longleftrightarrow>
        retries < int n + 1"
    by auto
  then show ?thesis by (simp add: RecordExit_slot RecordExit_result exit_slot_def Let_def)
qed

text \<open>The restart counter: a run that proved healthy starts a new backoff cycle (the next
  restart is attempt 0), any other run advances it by one, and the counter fed to the delay is
  never negative.\<close>

lemma restart_counter:
  assumes inv: "sup_inv s"
  shows "fst (snd (RecordExit i d retries f s)) =
      (if wasHealthy (slot s i) d (s_healthyAfter s) then 0 else attempts (slot s i))
    \<and> attempts (slot (fst (RecordExit i d retries f s)) i) =
        fst (snd (RecordExit i d retries f s)) + 1
    \<and> 0 \<le> fst (snd (RecordExit i d retries f s))"
  using sup_inv_slot [OF inv, of i]
  by (auto simp: RecordExit_slot RecordExit_result exit_slot_def slot_inv_def Let_def)

text \<open>\<open>IsDown\<close> and the readiness signal agree: a service that is down is not healthy at any
  instant, has no live slot, and every slot a start would still fill is one that exited for
  good; so a waiter told that the service is unrecoverable would never have been told
  healthy.\<close>

lemma down_not_healthy:
  assumes inv: "sup_inv s" and down: "IsDown s"
  shows "\<not> IsHealthy now s \<and> (\<forall>i. \<not> live (slot s i))
    \<and> (\<forall>i\<in>set (MissingSlots s). exited (slot s i))"
proof -
  have dead: "\<forall>i. \<not> live (slot s i)"
    using inv down by (auto simp: IsDown_def LiveCount_zero split: if_splits)
  have "liveSince st = 0" if "(i, st) \<in> set (slots s)" for i st
    using sup_inv_slot [OF inv, of i] dead entries_slots [OF inv that]
    by (auto simp: slot_inv_def)
  then have "\<not> IsHealthy now s"
    by (auto simp: IsHealthy_def list_ex_iff)
  moreover have "\<forall>i\<in>set (MissingSlots s). exited (slot s i)"
    using down by (auto simp: MissingSlots_def IsDown_def list_all_iff split: if_splits)
  ultimately show ?thesis using dead by blast
qed

end
