(* ===== verification/Jitter_Place.thy ===== *)
theory Jitter_Place
  imports Prelude "HOL-Library.Product_Lexorder" "HOL-Library.Multiset"
begin

text \<open>
  Start-slot placement of \<open>runtime/jitter/place.go\<close>: windows are sorted, split into clusters of
  overlapping ranges, and each cluster is spread by a binary search for the largest gap a
  left-packed placement can keep. Durations are unbounded integers: the inputs are a time of
  day below 24 hours and a configured window, and no intermediate value exceeds twice their
  sum. An index into a nil slice panics; \<open>spread\<close> and \<open>Place\<close> return \<open>None\<close> then.
\<close>

record Window =
  WName :: string
  Phase :: duration
  Length :: duration

definition window_end :: "Window \<Rightarrow> duration" where
  "window_end w = Phase w + Length w"

definition window_key :: "Window \<Rightarrow> duration \<times> duration \<times> string" where
  "window_key w = (Phase w, Length w, WName w)"

section \<open>Greedy placement\<close>

fun greedy_from :: "duration option \<Rightarrow> duration \<Rightarrow> Window list \<Rightarrow> duration list option" where
  "greedy_from prev gap [] = Some []"
| "greedy_from prev gap (w # ws) =
     (let t = (case prev of
                 Some p \<Rightarrow> if p + gap > Phase w then p + gap else Phase w
               | None \<Rightarrow> Phase w)
      in if t > Phase w + Length w then None
         else (case greedy_from (Some t) gap ws of
                 None \<Rightarrow> None | Some starts \<Rightarrow> Some (t # starts)))"

definition greedy :: "Window list \<Rightarrow> duration \<Rightarrow> duration list option" where
  "greedy ws gap = greedy_from None gap ws"

section \<open>Clusters\<close>

fun clusters_from :: "Window list \<Rightarrow> duration \<Rightarrow> Window list \<Rightarrow> Window list list" where
  "clusters_from cur e [] = [cur]"
| "clusters_from cur e (w # ws) =
     (if Phase w > e then cur # clusters_from [w] (Phase w + Length w) ws
      else clusters_from (cur @ [w])
             (if Phase w + Length w > e then Phase w + Length w else e) ws)"

text \<open>The code is only called on a non-empty list (\<open>ws[0]\<close>).\<close>

fun clusters :: "Window list \<Rightarrow> Window list list" where
  "clusters [] = []"
| "clusters (w # ws) = clusters_from [w] (Phase w + Length w) ws"

section \<open>Binary search for the gap\<close>

function gap_search :: "(duration \<Rightarrow> bool) \<Rightarrow> duration \<Rightarrow> duration \<Rightarrow> duration" where
  "gap_search ok lo hi =
     (if lo < hi
      then (let mid = lo + (hi - lo + 1) div 2
            in if ok mid then gap_search ok mid hi else gap_search ok lo (mid - 1))
      else lo)"
  by pat_completeness auto
termination
  by (relation "measure (\<lambda>(ok, lo, hi). nat (hi - lo))") auto

declare gap_search.simps [simp del]

text \<open>
  What the search relies on: a gap smaller than a feasible one is feasible. Then the result is
  the largest feasible gap of the range.
\<close>

locale downward_closed =
  fixes feasible :: "'c \<Rightarrow> int \<Rightarrow> bool"
  assumes smaller: "feasible c g \<Longrightarrow> g' \<le> g \<Longrightarrow> feasible c g'"
begin

lemma search_max:
  "feasible c lo \<Longrightarrow> lo \<le> hi \<Longrightarrow>
     lo \<le> gap_search (feasible c) lo hi \<and> gap_search (feasible c) lo hi \<le> hi \<and>
     feasible c (gap_search (feasible c) lo hi) \<and>
     (\<forall>g. gap_search (feasible c) lo hi < g \<and> g \<le> hi \<longrightarrow> \<not> feasible c g)"
proof (induction "feasible c" lo hi rule: gap_search.induct)
  case (1 lo hi)
  show ?case
  proof (cases "lo < hi")
    case False
    with "1.prems" show ?thesis by (subst (1 2 3 4) gap_search.simps) auto
  next
    case True
    define mid where "mid = lo + (hi - lo + 1) div 2"
    have mid: "lo < mid" "mid \<le> hi" using True by (auto simp: mid_def)
    show ?thesis
    proof (cases "feasible c mid")
      case ok: True
      have eq: "gap_search (feasible c) lo hi = gap_search (feasible c) mid hi"
        using True ok by (subst gap_search.simps) (simp add: mid_def Let_def)
      from "1.hyps"(1) [OF True mid_def ok ok] mid show ?thesis by (auto simp: eq)
    next
      case no: False
      have eq: "gap_search (feasible c) lo hi = gap_search (feasible c) lo (mid - 1)"
        using True no by (subst gap_search.simps) (simp add: mid_def Let_def)
      have above: "\<not> feasible c g" if "mid - 1 < g" for g
        using no smaller [of c g mid] that by auto
      note IH = "1.hyps"(2) [OF True mid_def no "1.prems"(1)]
      have "\<not> feasible c g" if "gap_search (feasible c) lo (mid - 1) < g" for g
        using IH above [of g] that mid by (cases "g \<le> mid - 1") auto
      with IH mid show ?thesis by (auto simp: eq)
    qed
  qed
qed

end

lemma greedy_from_smaller:
  "greedy_from prev g ws \<noteq> None \<Longrightarrow> g' \<le> g \<Longrightarrow>
     (case (prev', prev) of (Some p', Some p) \<Rightarrow> p' \<le> p | (None, None) \<Rightarrow> True | _ \<Rightarrow> False) \<Longrightarrow>
     greedy_from prev' g' ws \<noteq> None"
proof (induction ws arbitrary: prev prev')
  case (Cons w ws)
  define t where "t = (case prev of Some p \<Rightarrow> if p + g > Phase w then p + g else Phase w
    | None \<Rightarrow> Phase w)"
  define t' where "t' = (case prev' of Some p \<Rightarrow> if p + g' > Phase w then p + g' else Phase w
    | None \<Rightarrow> Phase w)"
  have "t' \<le> t" using Cons.prems by (auto simp: t_def t'_def split: option.splits)
  moreover have "t \<le> Phase w + Length w" "greedy_from (Some t) g ws \<noteq> None"
    using Cons.prems(1) by (auto simp: t_def Let_def split: option.splits if_splits)
  moreover from this(2) \<open>t' \<le> t\<close> Cons.IH [of "Some t" "Some t'"] Cons.prems(2)
  have "greedy_from (Some t') g' ws \<noteq> None" by simp
  ultimately show ?case by (auto simp: t'_def [symmetric] Let_def)
qed simp

interpretation gap: downward_closed "\<lambda>ws g. greedy ws g \<noteq> None"
proof unfold_locales
  fix ws :: "Window list" and g g' assume "greedy ws g \<noteq> None" "g' \<le> g"
  then show "greedy ws g' \<noteq> None"
    using greedy_from_smaller [of None g ws g' None] by (simp add: greedy_def)
qed

section \<open>Spreading a cluster, placing a list\<close>

definition max_end :: "Window list \<Rightarrow> duration" where
  "max_end ws = foldl (\<lambda>m w. if Phase w + Length w > m then Phase w + Length w else m) 0 ws"

definition assign :: "Window list \<Rightarrow> duration list \<Rightarrow> (string \<times> duration) list
    \<Rightarrow> (string \<times> duration) list" where
  "assign ws starts out =
     foldl (\<lambda>m (w, s). AList.update (WName w) (s - Phase w) m) out (zip ws starts)"

definition cluster_gap :: "Window list \<Rightarrow> duration" where
  "cluster_gap ws =
     gap_search (\<lambda>g. greedy ws g \<noteq> None) 0 (max_end ws - Phase (hd ws))"

definition spread :: "Window list \<Rightarrow> (string \<times> duration) list \<Rightarrow> (string \<times> duration) list option"
where
  "spread ws out =
     (case ws of
        [] \<Rightarrow> None
      | [w] \<Rightarrow> Some (AList.update (WName w) 0 out)
      | _ \<Rightarrow> (case greedy ws (cluster_gap ws) of
          None \<Rightarrow> None
        | Some starts \<Rightarrow> Some (assign ws starts out)))"

fun spread_all :: "Window list list \<Rightarrow> (string \<times> duration) list \<Rightarrow> (string \<times> duration) list option"
where
  "spread_all [] out = Some out"
| "spread_all (c # cs) out =
     (case spread c out of None \<Rightarrow> None | Some out' \<Rightarrow> spread_all cs out')"

definition Place :: "Window list \<Rightarrow> (string \<times> duration) list option" where
  "Place windows =
     (if windows = [] then Some [] else spread_all (clusters (sort_key window_key windows)) [])"

section \<open>Placements\<close>

text \<open>An order-preserving placement that keeps a gap: every start inside its window, and
  consecutive starts at least \<open>g\<close> apart.\<close>

fun placement :: "duration option \<Rightarrow> duration \<Rightarrow> Window list \<Rightarrow> duration list \<Rightarrow> bool" where
  "placement prev g [] [] = True"
| "placement prev g (w # ws) (s # ss) =
     (Phase w \<le> s \<and> s \<le> Phase w + Length w \<and>
      (case prev of None \<Rightarrow> True | Some p \<Rightarrow> p + g \<le> s) \<and> placement (Some s) g ws ss)"
| "placement prev g _ _ = False"

lemma greedy_from_placement:
  "greedy_from prev g ws = Some ss \<Longrightarrow> placement prev g ws ss"
  by (induction ws arbitrary: prev ss)
    (auto simp: Let_def split: if_splits option.splits)

text \<open>Left-packing is complete: if some placement keeps the gap, the greedy one does.\<close>

lemma placement_greedy:
  "placement prev g ws ss \<Longrightarrow>
     (case (prev', prev) of (Some p', Some p) \<Rightarrow> p' \<le> p | (None, None) \<Rightarrow> True | _ \<Rightarrow> False) \<Longrightarrow>
     greedy_from prev' g ws \<noteq> None"
proof (induction prev g ws ss arbitrary: prev' rule: placement.induct)
  case (2 prev g w ws s ss)
  define t where "t = (case prev' of Some p \<Rightarrow> if p + g > Phase w then p + g else Phase w
    | None \<Rightarrow> Phase w)"
  have "t \<le> s" using "2.prems" by (auto simp: t_def split: option.splits)
  with "2.prems" "2.IH" [of "Some t"] have "greedy_from (Some t) g ws \<noteq> None"
    and "t \<le> Phase w + Length w" by auto
  then show ?case by (auto simp: t_def [symmetric] Let_def)
qed auto

lemma greedy_iff_placement: "greedy ws g \<noteq> None \<longleftrightarrow> (\<exists>ss. placement None g ws ss)"
proof
  assume "greedy ws g \<noteq> None"
  then show "\<exists>ss. placement None g ws ss"
    by (auto simp: greedy_def dest: greedy_from_placement)
next
  assume "\<exists>ss. placement None g ws ss"
  then show "greedy ws g \<noteq> None"
    using placement_greedy [of None g ws _ None] by (auto simp: greedy_def)
qed

lemma placement_length: "placement prev g ws ss \<Longrightarrow> length ss = length ws"
  by (induction prev g ws ss rule: placement.induct) auto

lemma placement_nth:
  "placement prev g ws ss \<Longrightarrow> i < length ws \<Longrightarrow>
     Phase (ws ! i) \<le> ss ! i \<and> ss ! i \<le> Phase (ws ! i) + Length (ws ! i)"
proof (induction prev g ws ss arbitrary: i rule: placement.induct)
  case (2 prev g w ws s ss)
  then show ?case by (cases i) auto
qed auto

lemma placement_gap:
  "placement prev g ws ss \<Longrightarrow> Suc i < length ws \<Longrightarrow> ss ! i + g \<le> ss ! Suc i"
proof (induction prev g ws ss arbitrary: i rule: placement.induct)
  case (2 prev g w ws s ss)
  show ?case
  proof (cases i)
    case 0
    with 2 show ?thesis by (cases ws; cases ss) auto
  next
    case (Suc j)
    with 2 show ?thesis by auto
  qed
qed auto

section \<open>The zero gap is always feasible\<close>

abbreviation phase_sorted :: "Window list \<Rightarrow> bool" where
  "phase_sorted ws \<equiv> sorted (map Phase ws)"

abbreviation lengths_ok :: "Window list \<Rightarrow> bool" where
  "lengths_ok ws \<equiv> \<forall>w\<in>set ws. 0 \<le> Length w"

lemma zero_placement:
  "phase_sorted ws \<Longrightarrow> lengths_ok ws \<Longrightarrow>
     (case prev of None \<Rightarrow> True | Some p \<Rightarrow> \<forall>w\<in>set ws. p \<le> Phase w) \<Longrightarrow>
     placement prev 0 ws (map Phase ws)"
  by (induction ws arbitrary: prev) (auto split: option.splits)

lemma zero_feasible: "phase_sorted ws \<Longrightarrow> lengths_ok ws \<Longrightarrow> greedy ws 0 \<noteq> None"
  unfolding greedy_iff_placement using zero_placement [of ws None] by auto

lemma max_end_fold:
  "foldl (\<lambda>m w. if Phase w + Length w > m then Phase w + Length w else m) m0 ws =
     foldl (\<lambda>m w. max m (Phase w + Length w)) m0 ws"
  by (induction ws arbitrary: m0) (auto simp: max_def)

lemma foldl_max_ge: "m0 \<le> foldl (\<lambda>m w. max m (f w)) m0 ws \<and>
    (\<forall>w\<in>set ws. f w \<le> foldl (\<lambda>m w. max m (f w)) m0 ws)" for f :: "'a \<Rightarrow> int"
proof (induction ws arbitrary: m0)
  case (Cons w ws)
  from Cons.IH [of "max m0 (f w)"] show ?case by auto
qed simp

lemma max_end_ge: "w \<in> set ws \<Longrightarrow> Phase w + Length w \<le> max_end ws"
  using foldl_max_ge [of 0 "\<lambda>w. Phase w + Length w" ws] by (simp add: max_end_def max_end_fold)

lemma cluster_gap_max:
  assumes "phase_sorted ws" "lengths_ok ws" "ws \<noteq> []"
  shows "0 \<le> cluster_gap ws" "greedy ws (cluster_gap ws) \<noteq> None"
    and "2 \<le> length ws \<Longrightarrow> cluster_gap ws < g \<Longrightarrow> greedy ws g = None"
proof -
  have hd: "Phase (hd ws) \<le> max_end ws"
    using max_end_ge [of "hd ws" ws] assms by (cases ws) auto
  note max = gap.search_max [OF zero_feasible [OF assms(1,2)], of "max_end ws - Phase (hd ws)"]
  from max hd show "0 \<le> cluster_gap ws" "greedy ws (cluster_gap ws) \<noteq> None"
    by (auto simp: cluster_gap_def)
  assume len: "2 \<le> length ws" and g: "cluster_gap ws < g"
  show "greedy ws g = None"
  proof (rule ccontr)
    assume "greedy ws g \<noteq> None"
    then obtain ss where p: "placement None g ws ss"
      unfolding greedy_iff_placement by blast
    have "ss ! 0 + g \<le> ss ! 1" using placement_gap [OF p, of 0] len by simp
    moreover have "Phase (hd ws) \<le> ss ! 0"
      using placement_nth [OF p, of 0] len by (cases ws) auto
    moreover have "ss ! 1 \<le> max_end ws"
      using placement_nth [OF p, of 1] len max_end_ge [of "ws ! 1" ws] by auto
    ultimately have "g \<le> max_end ws - Phase (hd ws)" by simp
    with max hd g \<open>greedy ws g \<noteq> None\<close> show False by (auto simp: cluster_gap_def)
  qed
qed

section \<open>Clusters partition the sorted list\<close>

lemma clusters_from_concat: "concat (clusters_from cur e ws) = cur @ ws"
  by (induction ws arbitrary: cur e) auto

lemma clusters_concat: "concat (clusters ws) = ws"
  by (cases ws) (simp_all add: clusters_from_concat)

lemma clusters_from_nonempty: "cur \<noteq> [] \<Longrightarrow> [] \<notin> set (clusters_from cur e ws)"
  by (induction ws arbitrary: cur e) auto

lemma clusters_nonempty: "[] \<notin> set (clusters ws)"
  by (cases ws) (simp_all add: clusters_from_nonempty)

lemma sorted_concat_part: "sorted (map f (concat css)) \<Longrightarrow> cs \<in> set css \<Longrightarrow> sorted (map f cs)"
  by (induction css) (auto simp: sorted_append)

section \<open>The offsets written\<close>

lemma assign_Nil [simp]: "assign [] ss out = out" "assign ws [] out = out"
  by (simp_all add: assign_def)

lemma assign_Cons [simp]:
  "assign (w # ws) (s # ss) out = assign ws ss (AList.update (WName w) (s - Phase w) out)"
  by (simp add: assign_def)

lemma assign_other: "k \<notin> WName ` set ws \<Longrightarrow> map_of (assign ws ss out) k = map_of out k"
proof (induction ws arbitrary: ss out)
  case (Cons w ws)
  then show ?case by (cases ss) (auto simp: update_conv')
qed simp

lemma assign_nth:
  "distinct (map WName ws) \<Longrightarrow> length ss = length ws \<Longrightarrow> i < length ws \<Longrightarrow>
     map_of (assign ws ss out) (WName (ws ! i)) = Some (ss ! i - Phase (ws ! i))"
proof (induction ws arbitrary: ss out i)
  case (Cons w ws)
  then obtain s ss' where ss: "ss = s # ss'" by (cases ss) auto
  with Cons show ?case by (cases i) (auto simp: assign_other update_conv')
qed simp

lemma assign_keys: "length ss = length ws \<Longrightarrow>
    fst ` set (assign ws ss out) = fst ` set out \<union> WName ` set ws"
proof (induction ws arbitrary: ss out)
  case (Cons w ws)
  then obtain s ss' where ss: "ss = s # ss'" by (cases ss) auto
  with Cons show ?case by (auto simp: dom_update)
qed simp

lemma spread_starts:
  assumes "phase_sorted ws" "lengths_ok ws" "ws \<noteq> []"
  obtains ss where "placement None (if length ws = 1 then 0 else cluster_gap ws) ws ss"
    and "spread ws out = Some (assign ws ss out)"
proof (cases "length ws = 1")
  case True
  then obtain w where ws: "ws = [w]" by (cases ws) auto
  show ?thesis
    by (rule that [of "[Phase w]"]) (use ws assms in \<open>auto simp: spread_def\<close>)
next
  case False
  with assms(3) obtain w v vs where ws: "ws = w # v # vs" by (metis length_Cons list.exhaust list.size(3) One_nat_def)
  from cluster_gap_max(2) [OF assms] obtain ss where ss: "greedy ws (cluster_gap ws) = Some ss" by auto
  show ?thesis
    by (rule that [of ss]) (use False ss ws greedy_from_placement [of None "cluster_gap ws" ws ss]
        in \<open>simp_all add: spread_def greedy_def del: greedy_from.simps placement.simps\<close>)
qed

lemma spread_all_ok:
  assumes "\<forall>cs\<in>set css. phase_sorted cs \<and> lengths_ok cs \<and> cs \<noteq> []"
    and "distinct (map WName (concat css))"
  shows "\<exists>m. spread_all css out = Some m
    \<and> (\<forall>w\<in>set (concat css). \<exists>off. map_of m (WName w) = Some off \<and> 0 \<le> off \<and> off \<le> Length w)
    \<and> (\<forall>k. k \<notin> WName ` set (concat css) \<longrightarrow> map_of m k = map_of out k)"
  using assms
proof (induction css arbitrary: out)
  case (Cons cs css)
  obtain ss where p: "placement None (if length cs = 1 then 0 else cluster_gap cs) cs ss"
    and out: "spread cs out = Some (assign cs ss out)"
    using spread_starts [of cs out] Cons.prems(1) by auto
  let ?out = "assign cs ss out"
  from Cons.IH [of ?out] Cons.prems obtain m where m: "spread_all css ?out = Some m"
    "\<forall>w\<in>set (concat css). \<exists>off. map_of m (WName w) = Some off \<and> 0 \<le> off \<and> off \<le> Length w"
    "\<forall>k. k \<notin> WName ` set (concat css) \<longrightarrow> map_of m k = map_of ?out k"
    by auto
  have "\<exists>off. map_of m (WName w) = Some off \<and> 0 \<le> off \<and> off \<le> Length w" if w: "w \<in> set cs" for w
  proof -
    obtain i where i: "i < length cs" "w = cs ! i" using w by (auto simp: in_set_conv_nth)
    have "WName w \<notin> WName ` set (concat css)" using Cons.prems(2) w by auto
    then have "map_of m (WName w) = Some (ss ! i - Phase w)"
      using m(3) assign_nth [OF _ placement_length [OF p] i(1), of out] Cons.prems(2) i by simp
    with placement_nth [OF p i(1)] i show ?thesis by simp
  qed
  moreover have "map_of m k = map_of out k" if "k \<notin> WName ` set (concat (cs # css))" for k
  proof -
    have "k \<notin> WName ` set cs" "k \<notin> WName ` set (concat css)" using that by auto
    with m(3) show ?thesis by (simp add: assign_other)
  qed
  ultimately show ?case using m out by auto
qed simp

lemma sorted_window_phase: "phase_sorted (sort_key window_key ws)"
proof -
  have "sorted (map window_key (sort_key window_key ws))" by simp
  then show ?thesis
    by (auto simp: sorted_wrt_map window_key_def less_eq_prod_def elim!: sorted_wrt_mono_rel [rotated])
qed

lemma Place_fits:
  assumes names: "distinct (map WName ws)" and len: "\<forall>w\<in>set ws. 0 \<le> Length w"
  shows "\<exists>m. Place ws = Some m \<and>
    (\<forall>w\<in>set ws. \<exists>off. map_of m (WName w) = Some off \<and> 0 \<le> off \<and> off \<le> Length w) \<and>
    (\<forall>k. k \<notin> WName ` set ws \<longrightarrow> map_of m k = None)"
proof (cases "ws = []")
  case False
  let ?sorted = "sort_key window_key ws"
  have parts: "\<forall>cs\<in>set (clusters ?sorted). phase_sorted cs \<and> lengths_ok cs \<and> cs \<noteq> []"
  proof
    fix cs assume cs: "cs \<in> set (clusters ?sorted)"
    have "phase_sorted cs"
      using sorted_concat_part [of Phase "clusters ?sorted" cs] cs sorted_window_phase [of ws]
      by (simp only: clusters_concat)
    moreover have "set cs \<subseteq> set (concat (clusters ?sorted))" using cs by auto
    then have "lengths_ok cs" using len by (auto simp: clusters_concat)
    moreover have "cs \<noteq> []" using cs clusters_nonempty by metis
    ultimately show "phase_sorted cs \<and> lengths_ok cs \<and> cs \<noteq> []" by blast
  qed
  have "distinct (map WName (concat (clusters ?sorted)))"
    using names by (simp only: clusters_concat distinct_map distinct_sort set_sort)
  from spread_all_ok [OF parts this, of "[]"] False show ?thesis
    by (simp add: Place_def clusters_concat)
qed (simp add: Place_def)

lemma distinct_assign: "distinct (map fst out) \<Longrightarrow> distinct (map fst (assign ws ss out))"
  unfolding assign_def
  by (induction ws ss arbitrary: out rule: list_induct2')
    (auto simp del: AList.update.simps intro: distinct_update)

lemma distinct_spread: "spread ws out = Some m \<Longrightarrow> distinct (map fst out) \<Longrightarrow> distinct (map fst m)"
  by (auto simp: spread_def distinct_assign simp del: AList.update.simps
      split: list.splits option.splits intro: distinct_update)

lemma distinct_spread_all:
  "spread_all css out = Some m \<Longrightarrow> distinct (map fst out) \<Longrightarrow> distinct (map fst m)"
  by (induction css arbitrary: out) (auto split: option.splits dest: distinct_spread)

lemma Place_distinct: "Place ws = Some m \<Longrightarrow> distinct (map fst m)"
  by (auto simp: Place_def split: if_splits intro: distinct_spread_all)

section \<open>Properties\<close>

text \<open>Placement is total and inside the windows: for uniquely named windows of non-negative
  length, \<open>Place\<close> returns without panicking an offset for each window, between zero and the
  window's length, and for no other name.\<close>

lemma place_in_window:
  assumes names: "distinct (map WName ws)" and len: "\<forall>w\<in>set ws. 0 \<le> Length w"
  shows "\<exists>m. Place ws = Some m \<and>
    (\<forall>w\<in>set ws. \<exists>off. map_of m (WName w) = Some off \<and> 0 \<le> off \<and> off \<le> Length w) \<and>
    (\<forall>k. k \<notin> WName ` set ws \<longrightarrow> map_of m k = None)"
  by (rule Place_fits [OF assms])

definition nightly :: "Window list" where
  "nightly = [\<lparr>WName = ''c'', Phase = 2, Length = 4\<rparr>, \<lparr>WName = ''a'', Phase = 0, Length = 10\<rparr>,
     \<lparr>WName = ''b'', Phase = 30, Length = 5\<rparr>]"

text \<open>Input order does not matter: any permutation of the windows gets the same offsets.\<close>

lemma place_order_irrelevant:
  assumes "mset ws = mset ws'"
  shows "Place ws = Place ws'"
proof -
  have inj: "inj_on window_key (set ws)" by (auto simp: inj_on_def window_key_def)
  have "sort_key window_key ws = sort_key window_key ws'"
    by (rule sort_key_inj_key_eq) (use assms inj in simp_all)
  moreover have "ws = [] \<longleftrightarrow> ws' = []" using assms by auto
  ultimately show ?thesis by (simp add: Place_def)
qed

text \<open>Starts for a list of windows, each inside its window and each at least \<open>g\<close> after the one before.\<close>

definition spaced :: "duration \<Rightarrow> Window list \<Rightarrow> duration list \<Rightarrow> bool" where
  "spaced g ws ss \<longleftrightarrow> length ss = length ws
     \<and> (\<forall>i<length ws. Phase (ws ! i) \<le> ss ! i \<and> ss ! i \<le> Phase (ws ! i) + Length (ws ! i))
     \<and> (\<forall>i. Suc i < length ws \<longrightarrow> ss ! i + g \<le> ss ! Suc i)"

lemma spaced_Cons:
  "spaced g (w # ws) ss \<longleftrightarrow> (\<exists>s ss'. ss = s # ss' \<and> Phase w \<le> s \<and> s \<le> Phase w + Length w
     \<and> (ss' = [] \<or> s + g \<le> hd ss') \<and> spaced g ws ss')"
proof (cases ss)
  case (Cons s ss')
  have "(\<forall>i. Suc i < length (w # ws) \<longrightarrow> ss ! i + g \<le> ss ! Suc i) \<longleftrightarrow>
      (ws = [] \<or> s + g \<le> ss' ! 0) \<and> (\<forall>i. Suc i < length ws \<longrightarrow> ss' ! i + g \<le> ss' ! Suc i)"
    using Cons by (auto simp: nth_Cons split: nat.splits)
  then show ?thesis
    using Cons unfolding spaced_def by (cases ss'; cases ws) (auto simp: All_less_Suc2)
qed (simp add: spaced_def)

lemma placement_spaced:
  "placement prev g ws ss \<longleftrightarrow> spaced g ws ss
     \<and> (case prev of None \<Rightarrow> True | Some p \<Rightarrow> ss = [] \<or> p + g \<le> hd ss)"
proof (induction prev g ws ss rule: placement.induct)
  case (2 prev g w ws s ss)
  then show ?case by (auto simp: spaced_Cons split: option.splits)
qed (auto simp: spaced_def split: option.splits)

text \<open>C38. Optimality inside a cluster: the starts given to a phase-sorted cluster of two or more
  windows lie each inside its own window, keep the order of the windows and are at least
  \<open>cluster_gap\<close> apart; they are what is recorded, as offsets from the windows' phases, if the names
  differ; and no starts inside the windows in this order keep a larger gap, so the smallest spacing
  is the best possible.\<close>

theorem spread_optimal:
  assumes sorted: "phase_sorted ws" and len: "lengths_ok ws" and two: "2 \<le> length ws"
  shows "(\<exists>ss m. spread ws out = Some m \<and> spaced (cluster_gap ws) ws ss
      \<and> (distinct (map WName ws) \<longrightarrow>
          (\<forall>i<length ws. map_of m (WName (ws ! i)) = Some (ss ! i - Phase (ws ! i)))))
    \<and> 0 \<le> cluster_gap ws \<and> (\<forall>g ss. spaced g ws ss \<longrightarrow> g \<le> cluster_gap ws)"
proof -
  have ne: "ws \<noteq> []" using two by auto
  obtain ss where p: "placement None (cluster_gap ws) ws ss"
    and out: "spread ws out = Some (assign ws ss out)"
    using spread_starts [OF sorted len ne, of out] two by auto
  have "g \<le> cluster_gap ws" if "placement None g ws ss'" for g ss'
  proof (rule ccontr)
    assume "\<not> g \<le> cluster_gap ws"
    then have "greedy ws g = None" using cluster_gap_max(3) [OF sorted len ne two] by simp
    with that greedy_iff_placement [of ws g] show False by auto
  qed
  then have "g \<le> cluster_gap ws" if "spaced g ws ss'" for g ss' using that placement_spaced [of None] by simp
  moreover have "spaced (cluster_gap ws) ws ss" using p placement_spaced [of None] by simp
  moreover have "map_of (assign ws ss out) (WName (ws ! i)) = Some (ss ! i - Phase (ws ! i))"
    if "distinct (map WName ws)" "i < length ws" for i
    using assign_nth [OF that(1) placement_length [OF p] that(2)] .
  ultimately show ?thesis using out cluster_gap_max(1) [OF sorted len ne] by blast
qed

theorem spread_optimal_witness:
  "(\<forall>ss. \<not> spaced 9 (take 2 (sort_key window_key nightly)) ss) \<and>
   cluster_gap (take 2 (sort_key window_key nightly)) = 6"
proof -
  have ws: "take 2 (sort_key window_key nightly) =
      [\<lparr>WName = ''a'', Phase = 0, Length = 10\<rparr>, \<lparr>WName = ''c'', Phase = 2, Length = 4\<rparr>]"
    by (simp add: nightly_def window_key_def)
  let ?ws = "take 2 (sort_key window_key nightly)"
  have pre: "phase_sorted ?ws" "lengths_ok ?ws" "2 \<le> length ?ws" unfolding ws by simp_all
  have "max_end ?ws = 10" by (simp add: ws max_end_def)
  then have "cluster_gap ?ws = 6"
    by (simp add: cluster_gap_def ws) (simp add: gap_search.simps greedy_def Let_def)
  with spread_optimal [OF pre, of "[]"] show ?thesis by fastforce
qed

end
