(* ===== verification/Jitter_Gate.thy ===== *)
theory Jitter_Gate
  imports Jitter_Place
begin

text \<open>
  The work-conserving jitter gate of \<open>runtime/jitter_gate.go\<close>. A handler runs to completion
  under the gate's mutex, so it is a function on the gate; the clock is read once per handler
  (\<open>now\<close>). The run-start hook \<open>trigger\<close> is a parameter that threads the manager's state and
  says which run, if any, it started. A breach timer is the instant it is armed for; the
  environment decides when it fires, which is the event that calls \<open>breach\<close>. The in-flight
  map is an association list keyed by run id.
\<close>

record heldRun =
  h_task :: string
  h_tick :: instant
  h_slot :: instant
  h_horizon :: duration
  h_timer :: "instant option"

record gateRun =
  g_start :: instant
  g_slot :: instant

record jitterGate =
  pending :: "heldRun list"
  inflight :: "(string \<times> gateRun) list"
  closed :: bool

type_synonym 'm trigger = "string \<Rightarrow> instant \<Rightarrow> 'm \<Rightarrow> string option \<times> 'm"

definition newJitterGate :: jitterGate where
  "newJitterGate = \<lparr>pending = [], inflight = [], closed = False\<rparr>"

definition minTime :: "instant \<Rightarrow> instant \<Rightarrow> instant" where
  "minTime a b = (if b < a then b else a)"

definition held_key :: "heldRun \<Rightarrow> instant \<times> string" where
  "held_key h = (h_slot h, h_task h)"

text \<open>\<open>insert\<close>: the position \<open>slices.BinarySearchFunc\<close> finds in a sorted slice is the first
  entry that is not before \<open>h\<close>.\<close>

definition insert_held :: "heldRun \<Rightarrow> heldRun list \<Rightarrow> heldRun list" where
  "insert_held h hs =
     takeWhile (\<lambda>x. held_key x < held_key h) hs @ h # dropWhile (\<lambda>x. held_key x < held_key h) hs"

definition freeFor :: "instant \<Rightarrow> duration \<Rightarrow> (string \<times> gateRun) list \<Rightarrow> bool" where
  "freeFor now horizon infl = list_all (\<lambda>(_, r). \<not> time_sub now (g_start r) < horizon) infl"

definition swap_candidate :: "instant \<Rightarrow> gateRun \<Rightarrow> bool" where
  "swap_candidate s r \<longleftrightarrow> g_start r < g_slot r \<and> g_slot r > s"

text \<open>The loop of \<open>swapSlot\<close>: among the candidates, the one with the latest slot.\<close>

fun latest_candidate ::
  "instant \<Rightarrow> (string \<times> gateRun) list \<Rightarrow> (string \<times> gateRun) option \<Rightarrow> (string \<times> gateRun) option"
where
  "latest_candidate s [] best = best"
| "latest_candidate s ((rid, r) # rs) best =
     latest_candidate s rs
       (if swap_candidate s r \<and>
           (case best of None \<Rightarrow> True | Some (_, b) \<Rightarrow> g_slot r > g_slot b)
        then Some (rid, r) else best)"

definition swapSlot ::
  "heldRun \<Rightarrow> (string \<times> gateRun) list \<Rightarrow> heldRun \<times> (string \<times> gateRun) list" where
  "swapSlot h infl =
     (case latest_candidate (h_slot h) infl None of
        None \<Rightarrow> (h, infl)
      | Some (rid, r) \<Rightarrow>
          (h\<lparr>h_slot := minTime (g_slot r) (h_tick h + h_horizon h)\<rparr>,
           AList.update rid (r\<lparr>g_slot := h_slot h\<rparr>) infl))"

definition fire ::
  "'m trigger \<Rightarrow> instant \<Rightarrow> heldRun \<Rightarrow> (string \<times> gateRun) list \<times> 'm
     \<Rightarrow> (string \<times> gateRun) list \<times> 'm" where
  "fire trigger now h s =
     (case s of (infl, m) \<Rightarrow>
       (case trigger (h_task h) (h_tick h) m of
          (None, m') \<Rightarrow> (infl, m')
        | (Some rid, m') \<Rightarrow>
            (AList.update rid \<lparr>g_start = now, g_slot = h_slot h\<rparr> infl, m')))"

fun advance_loop ::
  "'m trigger \<Rightarrow> instant \<Rightarrow> heldRun list \<Rightarrow> (string \<times> gateRun) list \<times> 'm
     \<Rightarrow> heldRun list \<times> (string \<times> gateRun) list \<times> 'm" where
  "advance_loop trigger now [] s = ([], s)"
| "advance_loop trigger now (h # hs) s =
     (if \<not> freeFor now (h_horizon h) (fst s) then (h # hs, s)
      else advance_loop trigger now hs (fire trigger now h s))"

definition advance :: "'m trigger \<Rightarrow> instant \<Rightarrow> jitterGate \<times> 'm \<Rightarrow> jitterGate \<times> 'm" where
  "advance trigger now s =
     (case s of (g, m) \<Rightarrow>
       (case advance_loop trigger now (pending g) (inflight g, m) of (ps, infl, m') \<Rightarrow>
          (g\<lparr>pending := ps, inflight := infl\<rparr>, m')))"

definition submit ::
  "'m trigger \<Rightarrow> instant \<Rightarrow> string \<Rightarrow> instant \<Rightarrow> instant \<Rightarrow> duration
     \<Rightarrow> jitterGate \<times> 'm \<Rightarrow> jitterGate \<times> 'm" where
  "submit trigger now taskName tick sl window s =
     (case s of (g, m) \<Rightarrow>
       if closed g then (g, m)
       else
         let h0 = \<lparr>h_task = taskName, h_tick = tick, h_slot = sl, h_horizon = window,
                   h_timer = None\<rparr>;
             (h1, infl) = (if \<not> freeFor now window (inflight g) then swapSlot h0 (inflight g)
                           else (h0, inflight g));
             h = h1\<lparr>h_timer := Some (now + max (time_sub (h_slot h1) now) 0)\<rparr>
         in advance trigger now (g\<lparr>pending := insert_held h (pending g), inflight := infl\<rparr>, m))"

text \<open>\<open>remove\<close>: the first pending entry of the task.\<close>

fun remove_held :: "string \<Rightarrow> heldRun list \<Rightarrow> (heldRun \<times> heldRun list) option" where
  "remove_held t [] = None"
| "remove_held t (h # hs) =
     (if h_task h = t then Some (h, hs)
      else map_option (\<lambda>(x, xs). (x, h # xs)) (remove_held t hs))"

definition breach ::
  "'m trigger \<Rightarrow> instant \<Rightarrow> string \<Rightarrow> jitterGate \<times> 'm \<Rightarrow> jitterGate \<times> 'm" where
  "breach trigger now taskName s =
     (case s of (g, m) \<Rightarrow>
       if closed g then (g, m)
       else (case remove_held taskName (pending g) of
           None \<Rightarrow> (g, m)
         | Some (h, ps) \<Rightarrow>
             (case fire trigger now h (inflight g, m) of (infl, m') \<Rightarrow>
                (g\<lparr>pending := ps, inflight := infl\<rparr>, m'))))"

definition onComplete ::
  "'m trigger \<Rightarrow> instant \<Rightarrow> string \<Rightarrow> jitterGate \<times> 'm \<Rightarrow> jitterGate \<times> 'm" where
  "onComplete trigger now runID s =
     (case s of (g, m) \<Rightarrow>
       if map_of (inflight g) runID = None then (g, m)
       else let infl = AList.delete runID (inflight g);
                g' = g\<lparr>inflight := infl\<rparr>
            in if infl = [] then advance trigger now (g', m) else (g', m))"

definition gate_shutdown :: "jitterGate \<Rightarrow> jitterGate" where
  "gate_shutdown g = g\<lparr>closed := True, pending := []\<rparr>"

section \<open>The gate as a machine\<close>

datatype gate_event =
    GSubmit instant string instant instant duration
  | GBreach instant string
  | GComplete instant string
  | GShutdown

fun gate_step :: "'m trigger \<Rightarrow> gate_event \<Rightarrow> jitterGate \<times> 'm \<Rightarrow> jitterGate \<times> 'm" where
  "gate_step trigger (GSubmit now t tick sl window) s = submit trigger now t tick sl window s"
| "gate_step trigger (GBreach now t) s = breach trigger now t s"
| "gate_step trigger (GComplete now rid) s = onComplete trigger now rid s"
| "gate_step trigger GShutdown s = (gate_shutdown (fst s), snd s)"

abbreviation held_sorted :: "heldRun list \<Rightarrow> bool" where
  "held_sorted hs \<equiv> sorted (map held_key hs)"

text \<open>
  The gate's invariant: pending fires are in deadline order, each may still start within its
  own window, a closed gate holds none, and none is held while nothing is in flight (the gate
  is work-conserving).
\<close>

definition gate_inv :: "jitterGate \<Rightarrow> bool" where
  "gate_inv g \<longleftrightarrow> held_sorted (pending g) \<and>
     (\<forall>h\<in>set (pending g). h_slot h \<le> h_tick h + h_horizon h) \<and>
     (closed g \<longrightarrow> pending g = []) \<and> (inflight g = [] \<longrightarrow> pending g = []) \<and>
     distinct (map fst (inflight g))"

fun gate_ok :: "gate_event \<Rightarrow> bool" where
  "gate_ok (GSubmit now t tick sl window) \<longleftrightarrow> sl \<le> tick + window"
| "gate_ok _ \<longleftrightarrow> True"

lemma set_insert_held [simp]: "set (insert_held h hs) = insert h (set hs)"
proof -
  have "set (takeWhile P hs) \<union> set (dropWhile P hs) = set hs" for P
    by (metis set_append takeWhile_dropWhile_id)
  then show ?thesis by (auto simp: insert_held_def)
qed

lemma mset_insert_held [simp]: "mset (insert_held h hs) = add_mset h (mset hs)"
proof -
  have "mset (takeWhile P hs) + mset (dropWhile P hs) = mset hs" for P
    by (metis mset_append takeWhile_dropWhile_id)
  then show ?thesis by (simp add: insert_held_def)
qed

lemma insert_held_Cons:
  "insert_held h (x # xs) =
     (if held_key x < held_key h then x # insert_held h xs else h # x # xs)"
  by (simp add: insert_held_def)

lemma sorted_insert_held: "held_sorted hs \<Longrightarrow> held_sorted (insert_held h hs)"
proof (induction hs)
  case Nil
  show ?case by (simp add: insert_held_def)
next
  case (Cons x xs)
  then show ?case
    by (auto simp: insert_held_Cons not_less intro: order.trans less_imp_le)
qed

lemma advance_loop_suffix:
  "advance_loop trigger now hs s = (ps, s') \<Longrightarrow> \<exists>xs. hs = xs @ ps"
proof (induction hs arbitrary: s)
  case (Cons h hs)
  show ?case
  proof (cases "freeFor now (h_horizon h) (fst s)")
    case True
    with Cons.prems have "advance_loop trigger now hs (fire trigger now h s) = (ps, s')" by simp
    from Cons.IH [OF this] obtain xs where "hs = xs @ ps" by blast
    then show ?thesis by (intro exI [of _ "h # xs"]) simp
  qed (use Cons in auto)
qed auto

lemma update_not_Nil [simp]: "AList.update k v al \<noteq> []"
  by (cases al) auto

lemma fire_inflight_mono: "fst (fire trigger now h s) = [] \<Longrightarrow> fst s = []"
  by (cases s) (auto simp: fire_def split: prod.splits option.splits)

lemma fire_distinct:
  "distinct (map fst (fst s)) \<Longrightarrow> distinct (map fst (fst (fire trigger now h s)))"
  by (cases s) (auto simp: fire_def distinct_update split: prod.splits option.splits)

lemma advance_loop_distinct:
  "distinct (map fst (fst s)) \<Longrightarrow>
     distinct (map fst (fst (snd (advance_loop trigger now hs s))))"
  by (induction trigger now hs s rule: advance_loop.induct) (auto simp: fire_distinct)

lemma freeFor_Nil [simp]: "freeFor now d []"
  by (simp add: freeFor_def)

lemma advance_loop_drains:
  "advance_loop trigger now hs s = (ps, infl, m) \<Longrightarrow> infl = [] \<Longrightarrow> ps = []"
proof (induction hs arbitrary: s)
  case (Cons h hs)
  show ?case
  proof (cases "freeFor now (h_horizon h) (fst s)")
    case True
    with Cons show ?thesis by auto
  next
    case False
    with Cons.prems have "fst s = infl" by auto
    with False Cons.prems show ?thesis by simp
  qed
qed auto

lemma held_sorted_append: "held_sorted (xs @ ys) \<Longrightarrow> held_sorted ys"
  by (simp add: sorted_append)

definition held_ok :: "heldRun \<Rightarrow> bool" where
  "held_ok h \<longleftrightarrow> h_slot h \<le> h_tick h + h_horizon h"

lemma advance_inv:
  assumes "held_sorted (pending g)" "\<forall>h\<in>set (pending g). held_ok h" "closed g \<longrightarrow> pending g = []"
    "distinct (map fst (inflight g))"
  shows "gate_inv (fst (advance trigger now (g, m)))"
proof -
  obtain ps infl m' where al: "advance_loop trigger now (pending g) (inflight g, m) = (ps, infl, m')"
    by (metis prod_cases3)
  obtain xs where "pending g = xs @ ps" using advance_loop_suffix [OF al] by auto
  with assms have "held_sorted ps" "\<forall>h\<in>set ps. held_ok h" "closed g \<longrightarrow> ps = []"
    by (auto simp: sorted_append)
  moreover have "distinct (map fst infl)"
    using advance_loop_distinct [of "(inflight g, m)" trigger now "pending g"] al assms(4) by simp
  moreover have "infl = [] \<longrightarrow> ps = []" using advance_loop_drains [OF al] by simp
  ultimately show ?thesis by (simp add: advance_def al gate_inv_def held_ok_def)
qed

lemma latest_candidate_Some:
  "latest_candidate s rs best = Some (rid, r) \<Longrightarrow>
     (case best of None \<Rightarrow> True | Some (_, b) \<Rightarrow> swap_candidate s b) \<Longrightarrow> swap_candidate s r"
proof (induction s rs best rule: latest_candidate.induct)
  case (2 s i x rs best)
  from "2.prems"(2) have "case (if swap_candidate s x \<and>
        (case best of None \<Rightarrow> True | Some (_, b) \<Rightarrow> g_slot x > g_slot b)
      then Some (i, x) else best) of None \<Rightarrow> True | Some (_, b) \<Rightarrow> swap_candidate s b"
    by auto
  with 2 show ?case by simp
qed auto

text \<open>A swap only ever postpones the arriving fire, and not past its own window.\<close>

lemma swapSlot_held:
  assumes "swapSlot h infl = (h', infl')" "held_ok h"
  shows "held_ok h' \<and> h_slot h \<le> h_slot h' \<and> h_task h' = h_task h \<and> h_tick h' = h_tick h \<and>
    h_horizon h' = h_horizon h"
proof (cases "latest_candidate (h_slot h) infl None")
  case None
  with assms show ?thesis by (simp add: swapSlot_def)
next
  case (Some p)
  obtain rid r where p: "p = (rid, r)" by (cases p)
  with Some have "swap_candidate (h_slot h) r" by (auto dest: latest_candidate_Some)
  with assms Some p show ?thesis
    by (auto simp: swapSlot_def held_ok_def swap_candidate_def minTime_def)
qed

lemma swapSlot_distinct:
  "swapSlot h infl = (h', infl') \<Longrightarrow> distinct (map fst infl) \<Longrightarrow> distinct (map fst infl')"
  by (auto simp: swapSlot_def distinct_update split: option.splits)

lemma submit_inv:
  assumes inv: "gate_inv (fst s)" and sl: "sl \<le> tick + window"
  shows "gate_inv (fst (submit trigger now t tick sl window s))"
proof (cases "closed (fst s)")
  case True
  with inv show ?thesis by (cases s) (simp add: submit_def)
next
  case False
  obtain g m where s: "s = (g, m)" by (cases s)
  let ?h0 = "\<lparr>h_task = t, h_tick = tick, h_slot = sl, h_horizon = window, h_timer = None\<rparr>"
  obtain h1 infl where h1: "(if \<not> freeFor now window (inflight g) then swapSlot ?h0 (inflight g)
      else (?h0, inflight g)) = (h1, infl)" by fastforce
  have "held_ok ?h0" using sl by (simp add: held_ok_def)
  with h1 have "held_ok h1" using swapSlot_held by (auto split: if_splits)
  then have ok: "held_ok (h1\<lparr>h_timer := Some (now + max (time_sub (h_slot h1) now) 0)\<rparr>)"
    by (simp add: held_ok_def)
  have dist: "distinct (map fst infl)"
    using h1 inv s by (auto simp: gate_inv_def split: if_splits dest: swapSlot_distinct)
  show ?thesis
    using False h1 s
    by (simp add: submit_def Let_def)
      (rule advance_inv, use inv ok s dist in \<open>auto simp: gate_inv_def held_ok_def sorted_insert_held\<close>)
qed

lemma remove_held_Some:
  "remove_held t hs = Some (h, ps) \<Longrightarrow>
     \<exists>xs ys. hs = xs @ h # ys \<and> ps = xs @ ys \<and> h_task h = t"
proof (induction hs arbitrary: ps)
  case (Cons x xs)
  show ?case
  proof (cases "h_task x = t")
    case True
    with Cons.prems show ?thesis by (intro exI [of _ "[]"] exI [of _ xs]) auto
  next
    case False
    with Cons.prems obtain qs where "remove_held t xs = Some (h, qs)" "ps = x # qs" by auto
    with Cons.IH obtain as bs where "xs = as @ h # bs" "qs = as @ bs" "h_task h = t" by blast
    with \<open>ps = x # qs\<close> show ?thesis by (intro exI [of _ "x # as"] exI [of _ bs]) auto
  qed
qed simp

lemma breach_inv: "gate_inv (fst s) \<Longrightarrow> gate_inv (fst (breach trigger now t s))"
proof -
  assume inv: "gate_inv (fst s)"
  obtain g m where s: "s = (g, m)" by (cases s)
  show ?thesis
  proof (cases "closed g \<or> remove_held t (pending g) = None")
    case True
    with inv s show ?thesis by (auto simp: breach_def)
  next
    case False
    then obtain h ps where r: "remove_held t (pending g) = Some (h, ps)" by auto
    then obtain xs ys where x: "pending g = xs @ h # ys" "ps = xs @ ys"
      using remove_held_Some by blast
    obtain infl m' where f: "fire trigger now h (inflight g, m) = (infl, m')"
      by (cases "fire trigger now h (inflight g, m)")
    have d: "distinct (map fst infl)"
      using fire_distinct [of "(inflight g, m)" trigger now h] f inv s by (simp add: gate_inv_def)
    have "infl = [] \<longrightarrow> inflight g = []"
      using fire_inflight_mono [of trigger now h "(inflight g, m)"] f by simp
    with False r x f inv s d show ?thesis
      by (auto simp: breach_def gate_inv_def sorted_append)
  qed
qed

lemma onComplete_inv: "gate_inv (fst s) \<Longrightarrow> gate_inv (fst (onComplete trigger now rid s))"
proof -
  assume inv: "gate_inv (fst s)"
  obtain g m where s: "s = (g, m)" by (cases s)
  have "gate_inv (fst (advance trigger now (g\<lparr>inflight := []\<rparr>, m)))"
    by (rule advance_inv) (use inv s in \<open>auto simp: gate_inv_def held_ok_def\<close>)
  with inv s show ?thesis
    by (auto simp: onComplete_def Let_def gate_inv_def distinct_delete)
qed

lemma gate_step_inv: "gate_inv (fst s) \<Longrightarrow> gate_ok e \<Longrightarrow> gate_inv (fst (gate_step trigger e s))"
  by (cases e) (auto simp: submit_inv breach_inv onComplete_inv, simp add: gate_shutdown_def gate_inv_def)

interpretation gate: step_machine "gate_step trigger" "\<lambda>e s. gate_ok e" "\<lambda>s. gate_inv (fst s)"
  for trigger :: "'m trigger"
  by unfold_locales (rule gate_step_inv)

section \<open>No fire is lost or doubled\<close>

text \<open>A trigger that logs what it is asked to start, and starts whatever \<open>decide\<close> says.\<close>

definition logging ::
  "(string \<Rightarrow> instant \<Rightarrow> (string \<times> instant) list \<Rightarrow> string option)
     \<Rightarrow> (string \<times> instant) list trigger" where
  "logging decide t tick log = (decide t tick log, log @ [(t, tick)])"

definition fire_id :: "heldRun \<Rightarrow> string \<times> instant" where
  "fire_id h = (h_task h, h_tick h)"

definition accounted :: "jitterGate \<times> (string \<times> instant) list \<Rightarrow> (string \<times> instant) multiset" where
  "accounted s = mset (snd s) + mset (map fire_id (pending (fst s)))"

lemma fire_log:
  "snd (fire (logging decide) now h s) = snd s @ [fire_id h]"
  by (cases s) (auto simp: fire_def logging_def fire_id_def split: option.splits)

lemma advance_loop_log:
  "advance_loop (logging decide) now hs s = (ps, s') \<Longrightarrow>
     mset (snd s') + mset (map fire_id ps) = mset (snd s) + mset (map fire_id hs)"
proof (induction hs arbitrary: s)
  case (Cons h hs)
  then show ?case
    by (cases "freeFor now (h_horizon h) (fst s)") (auto simp: fire_log)
qed auto

lemma advance_accounted: "accounted (advance (logging decide) now s) = accounted s"
proof -
  obtain g m where s: "s = (g, m)" by (cases s)
  obtain ps infl m' where al:
    "advance_loop (logging decide) now (pending g) (inflight g, m) = (ps, infl, m')"
    by (metis prod_cases3)
  from advance_loop_log [OF al] show ?thesis by (simp add: s advance_def al accounted_def)
qed

lemma swapSlot_id: "fire_id (fst (swapSlot h infl)) = fire_id h"
  by (simp add: swapSlot_def fire_id_def split: option.split prod.split)

lemma submit_accounted:
  "\<not> closed (fst s) \<Longrightarrow>
     accounted (submit (logging decide) now t tick sl window s) = add_mset (t, tick) (accounted s)"
proof -
  assume opened: "\<not> closed (fst s)"
  obtain g m where s: "s = (g, m)" by (cases s)
  let ?h0 = "\<lparr>h_task = t, h_tick = tick, h_slot = sl, h_horizon = window, h_timer = None\<rparr>"
  obtain h1 infl where h1: "(if \<not> freeFor now window (inflight g) then swapSlot ?h0 (inflight g)
      else (?h0, inflight g)) = (h1, infl)" by fastforce
  then have "fire_id h1 = (t, tick)"
    using swapSlot_id [of ?h0 "inflight g"]
    by (cases "freeFor now window (inflight g)") (auto simp: fire_id_def)
  then have "fire_id (h1\<lparr>h_timer := x\<rparr>) = (t, tick)" for x by (simp add: fire_id_def)
  with opened s h1 show ?thesis
    by (simp add: submit_def Let_def advance_accounted) (simp add: accounted_def)
qed

lemma breach_accounted: "accounted (breach (logging decide) now t s) = accounted s"
proof -
  obtain g m where s: "s = (g, m)" by (cases s)
  show ?thesis
  proof (cases "closed g \<or> remove_held t (pending g) = None")
    case True
    with s show ?thesis by (auto simp: breach_def)
  next
    case False
    then obtain h ps where r: "remove_held t (pending g) = Some (h, ps)" by auto
    then obtain xs ys where "pending g = xs @ h # ys" "ps = xs @ ys"
      using remove_held_Some by blast
    moreover obtain infl m' where f: "fire (logging decide) now h (inflight g, m) = (infl, m')"
      by (cases "fire (logging decide) now h (inflight g, m)")
    moreover have "m' = m @ [fire_id h]"
      using fire_log [of decide now h "(inflight g, m)"] f by simp
    ultimately show ?thesis using False r s by (simp add: breach_def accounted_def)
  qed
qed

lemma onComplete_accounted: "accounted (onComplete (logging decide) now rid s) = accounted s"
proof (cases s)
  case (Pair g m)
  have "accounted (g\<lparr>inflight := infl\<rparr>, m) = accounted s" for infl
    by (simp add: accounted_def Pair)
  then show ?thesis by (auto simp: onComplete_def Pair Let_def advance_accounted)
qed

lemma advance_closed: "closed (fst (advance trigger now s)) = closed (fst s)"
  by (cases s) (simp add: advance_def split: prod.split)

lemma step_closed: "e \<noteq> GShutdown \<Longrightarrow> closed (fst (gate_step trigger e s)) = closed (fst s)"
  by (cases e; cases s)
    (auto simp: submit_def breach_def onComplete_def Let_def advance_closed
      split: prod.splits option.splits)

fun submitted :: "gate_event list \<Rightarrow> (string \<times> instant) multiset" where
  "submitted [] = {#}"
| "submitted (GSubmit now t tick sl window # es) = add_mset (t, tick) (submitted es)"
| "submitted (_ # es) = submitted es"

text \<open>A hook that starts every run, under a fresh id; the sample hook of the witnesses.\<close>

definition always_start :: "string \<Rightarrow> instant \<Rightarrow> (string \<times> instant) list \<Rightarrow> string option" where
  "always_start t tick log = Some (t @ Itoa (length log))"

section \<open>The contract of the run-start hook\<close>

text \<open>
  What the gate relies on: the hook keeps the manager's invariant, a run it reports as accepted
  is alive (started or queued), and starting one run retires none. Then every run the gate waits
  for is alive, so its completion will come. \<open>extra\<close> is the set of runs that have just retired
  and whose completion is about to be reported.
\<close>

locale run_hook =
  fixes trigger :: "string \<Rightarrow> instant \<Rightarrow> 'm \<Rightarrow> string option \<times> 'm"
    and good :: "'m \<Rightarrow> bool"
    and alive :: "'m \<Rightarrow> string set"
  assumes good_trigger: "good m \<Longrightarrow> good (snd (trigger t k m))"
    and alive_mono: "good m \<Longrightarrow> alive m \<subseteq> alive (snd (trigger t k m))"
    and alive_new: "good m \<Longrightarrow> trigger t k m = (Some rid, m') \<Longrightarrow> rid \<in> alive m'"
begin

definition tracked :: "string set \<Rightarrow> (string \<times> gateRun) list \<times> 'm \<Rightarrow> bool" where
  "tracked extra s \<longleftrightarrow> good (snd s) \<and> fst ` set (fst s) \<subseteq> alive (snd s) \<union> extra"

lemma keys_AList_update: "fst ` set (AList.update k v al) = insert k (fst ` set al)"
  by (induction al) auto

lemma tracked_fire: "tracked X s \<Longrightarrow> tracked X (fire trigger now h s)"
proof -
  assume t: "tracked X s"
  obtain infl m where s: "s = (infl, m)" by (cases s)
  obtain r m' where tr: "trigger (h_task h) (h_tick h) m = (r, m')" by (metis prod.exhaust)
  have g: "good m" using t s by (simp add: tracked_def)
  then have "good m'" "alive m \<subseteq> alive m'" using good_trigger alive_mono tr by (metis snd_conv)+
  with t s tr g show ?thesis
    by (cases r) (auto simp: fire_def tracked_def keys_AList_update alive_new)
qed

lemma tracked_advance_loop:
  "tracked X s \<Longrightarrow> tracked X (snd (advance_loop trigger now hs s))"
  by (induction hs arbitrary: s) (auto simp: tracked_fire simp del: split_paired_All)

definition gate_tracked :: "string set \<Rightarrow> jitterGate \<times> 'm \<Rightarrow> bool" where
  "gate_tracked X d \<longleftrightarrow> tracked X (inflight (fst d), snd d)"

lemma tracked_advance: "gate_tracked X d \<Longrightarrow> gate_tracked X (advance trigger now d)"
proof -
  assume t: "gate_tracked X d"
  obtain g m where d: "d = (g, m)" by (cases d)
  obtain ps infl m' where al: "advance_loop trigger now (pending g) (inflight g, m) = (ps, infl, m')"
    by (metis prod_cases3)
  have "tracked X (infl, m')"
    using tracked_advance_loop [of X "(inflight g, m)" now "pending g"] t d al
    by (simp add: gate_tracked_def)
  then show ?thesis by (simp add: d advance_def al gate_tracked_def)
qed

lemma swap_keys: "fst ` set (snd (swapSlot h infl)) = fst ` set infl"
proof (cases "latest_candidate (h_slot h) infl None")
  case None
  then show ?thesis by (simp add: swapSlot_def)
next
  case (Some p)
  obtain rid r where p: "p = (rid, r)" by (cases p)
  have mem: "latest_candidate s rs best = Some q \<Longrightarrow> q \<in> set rs \<or> best = Some q" for s rs best q
    by (induction s rs best rule: latest_candidate.induct) (auto split: if_splits)
  from mem [OF Some] p have "(rid, r) \<in> set infl" by simp
  then have "rid \<in> fst ` set infl" by force
  with Some p show ?thesis by (auto simp: swapSlot_def keys_AList_update)
qed

lemma tracked_submit:
  "gate_tracked X d \<Longrightarrow> gate_tracked X (submit trigger now t tick sl window d)"
proof -
  assume t: "gate_tracked X d"
  obtain g m where d: "d = (g, m)" by (cases d)
  let ?h0 = "\<lparr>h_task = t, h_tick = tick, h_slot = sl, h_horizon = window, h_timer = None\<rparr>"
  obtain h1 infl where h1: "(if \<not> freeFor now window (inflight g) then swapSlot ?h0 (inflight g)
      else (?h0, inflight g)) = (h1, infl)" by fastforce
  have "fst ` set infl = fst ` set (inflight g)"
    using h1 swap_keys [of ?h0 "inflight g"] by (auto split: if_splits)
  with t d have "gate_tracked X (g\<lparr>pending := ps, inflight := infl\<rparr>, m)" for ps
    by (simp add: gate_tracked_def tracked_def)
  with t d h1 show ?thesis by (simp add: submit_def Let_def tracked_advance)
qed

lemma tracked_breach: "gate_tracked X d \<Longrightarrow> gate_tracked X (breach trigger now t d)"
proof -
  assume t: "gate_tracked X d"
  obtain g m where d: "d = (g, m)" by (cases d)
  have "tracked X (fire trigger now h (inflight g, m))" for h
    using t d by (simp add: gate_tracked_def tracked_fire)
  with t d show ?thesis
    by (auto simp: breach_def gate_tracked_def split: option.split prod.split) (metis)+
qed

lemma tracked_complete:
  "gate_tracked (insert rid X) d \<Longrightarrow> gate_tracked X (onComplete trigger now rid d)"
proof -
  assume t: "gate_tracked (insert rid X) d"
  obtain g m where d: "d = (g, m)" by (cases d)
  have del: "fst ` set (AList.delete rid al) = fst ` set al - {rid}" for al :: "(string \<times> gateRun) list"
    by (auto simp: AList.delete_eq image_iff)
  show ?thesis
  proof (cases "map_of (inflight g) rid = None")
    case True
    then have "rid \<notin> fst ` set (inflight g)" by (simp add: map_of_eq_None_iff)
    with True t d show ?thesis by (auto simp: onComplete_def gate_tracked_def tracked_def)
  next
    case False
    have "gate_tracked X (g\<lparr>inflight := AList.delete rid (inflight g)\<rparr>, m)"
      using t d del by (auto simp: gate_tracked_def tracked_def)
    with False d show ?thesis by (auto simp: onComplete_def Let_def tracked_advance)
  qed
qed

end

section \<open>Properties\<close>

text \<open>The gate's invariant holds in every reachable state, whatever the run-start hook
  does: after any sequence of submissions (each slot within its window), breach timers,
  completions and a shutdown, the held fires are in deadline order, each deadline is still
  inside its own window, a closed gate holds none, and nothing is held while no gate run is in
  flight.\<close>

lemma gate_invariant:
  assumes ok: "\<And>e. e \<in> set es \<Longrightarrow> gate_ok e"
    and g: "g = fst (fold (gate_step trigger) es (newJitterGate, m))"
  shows "held_sorted (pending g)
    \<and> (\<forall>h\<in>set (pending g). h_slot h \<le> h_tick h + h_horizon h)
    \<and> (closed g \<longrightarrow> pending g = []) \<and> (inflight g = [] \<longrightarrow> pending g = [])
    \<and> distinct (map fst (inflight g))"
proof -
  have "gate_inv (fst (newJitterGate, m))" by (simp add: gate_inv_def newJitterGate_def)
  from gate.fold_inv_always [of "(newJitterGate, m)" es trigger, OF this ok] show ?thesis
    by (simp add: gate_inv_def g)
qed

text \<open>C12. Every jittered fire is triggered exactly once or still held: until the gate shuts
  down, the fires handed to the run-start hook together with the pending ones are exactly the
  submitted ones, whatever the hook answers and however submissions, timers and completions
  interleave.\<close>

theorem gate_no_fire_lost:
  assumes "GShutdown \<notin> set es"
  shows "mset (snd (fold (gate_step (logging decide)) es (newJitterGate, []))) +
     mset (map fire_id (pending (fst (fold (gate_step (logging decide)) es (newJitterGate, [])))))
     = submitted es"
proof -
  have "\<not> closed (fst s) \<Longrightarrow> GShutdown \<notin> set es \<Longrightarrow>
      accounted (fold (gate_step (logging decide)) es s) = accounted s + submitted es" for s es
  proof (induction es arbitrary: s)
    case (Cons e es)
    from Cons.prems have "\<not> closed (fst (gate_step (logging decide) e s))"
      by (subst step_closed) auto
    with Cons.IH [of "gate_step (logging decide) e s"] Cons.prems show ?case
      by (cases e) (auto simp: submit_accounted breach_accounted onComplete_accounted)
  qed simp
  from this [of "(newJitterGate, [])" es] assms show ?thesis
    by (simp add: accounted_def newJitterGate_def)
qed

theorem gate_no_fire_lost_witness:
  "mset (snd (fold (gate_step (logging always_start)) [GSubmit 100 ''a'' 100 130 60, GBreach 130 ''a'']
      (newJitterGate, []))) \<subseteq># {#(''a'', 100)#}"
proof -
  have "GShutdown \<notin> set [GSubmit 100 ''a'' 100 130 60, GBreach 130 ''a'']" by simp
  note eq = gate_no_fire_lost [OF this, of always_start]
  show ?thesis
    by (rule subset_mset.trans [OF mset_subset_eq_add_left], subst eq) simp
qed

text \<open>After shutdown nothing starts: no later event calls the run-start hook, and the gate
  stays closed and empty.\<close>

lemma gate_closed_is_final:
  assumes "closed (fst s)" and "pending (fst s) = []"
  shows "snd (fold (gate_step trigger) es s) = snd s
    \<and> closed (fst (fold (gate_step trigger) es s))
    \<and> pending (fst (fold (gate_step trigger) es s)) = []"
  using assms
proof (induction es arbitrary: s)
  case (Cons e es)
  have "snd (gate_step trigger e s) = snd s \<and> closed (fst (gate_step trigger e s)) \<and>
      pending (fst (gate_step trigger e s)) = []"
    using Cons.prems
    by (cases e; cases s)
      (auto simp: submit_def breach_def onComplete_def advance_def gate_shutdown_def Let_def)
  with Cons.IH [of "gate_step trigger e s"] show ?case by simp
qed simp

text \<open>An idle box never waits and a busy one holds: a fire submitted while the gate is free
  for its window and holds nothing is handed to the run-start hook at once; one submitted while
  a gate run younger than its window is in flight, with nothing pending, is not started but
  held, with a deadline no earlier than its slot and inside its window, and its timer armed for
  that deadline.\<close>

lemma submit_pulls_forward_or_holds:
  assumes opened: "\<not> closed g" and dist: "distinct (map fst (inflight g))"
    and empty: "pending g = []" and sl: "sl \<le> tick + window"
  shows "(freeFor now window (inflight g) \<longrightarrow>
      snd (submit trigger now t tick sl window (g, m)) = snd (trigger t tick m) \<and>
      pending (fst (submit trigger now t tick sl window (g, m))) = [])
    \<and> (\<not> freeFor now window (inflight g) \<longrightarrow>
      (let s' = submit trigger now t tick sl window (g, m) in
       snd s' = m \<and> (\<exists>h. pending (fst s') = [h] \<and> h_task h = t \<and> h_tick h = tick \<and>
         sl \<le> h_slot h \<and> h_slot h \<le> tick + window \<and>
         h_timer h = Some (now + max (time_sub (h_slot h) now) 0))))"
proof (intro conjI impI)
  assume "freeFor now window (inflight g)"
  with opened empty show "snd (submit trigger now t tick sl window (g, m)) = snd (trigger t tick m)"
    and "pending (fst (submit trigger now t tick sl window (g, m))) = []"
    by (simp_all add: submit_def Let_def advance_def insert_held_def fire_def
        split: prod.splits option.splits)
next
  assume busy: "\<not> freeFor now window (inflight g)"
  let ?h0 = "\<lparr>h_task = t, h_tick = tick, h_slot = sl, h_horizon = window, h_timer = None\<rparr>"
  obtain h1 infl where h1: "swapSlot ?h0 (inflight g) = (h1, infl)" by fastforce
  have "held_ok ?h0" using sl by (simp add: held_ok_def)
  from swapSlot_held [OF h1 this] have h1p: "h_task h1 = t" "h_tick h1 = tick"
    "h_horizon h1 = window" "sl \<le> h_slot h1" "h_slot h1 \<le> tick + window"
    by (auto simp: held_ok_def)
  have "\<not> freeFor now window infl"
  proof (cases "latest_candidate sl (inflight g) None")
    case None
    with h1 busy show ?thesis by (simp add: swapSlot_def)
  next
    case (Some p)
    obtain rid r where p: "p = (rid, r)" by (cases p)
    have mem: "latest_candidate s rs best = Some q \<Longrightarrow> q \<in> set rs \<or> best = Some q" for s rs best q
      by (induction s rs best rule: latest_candidate.induct) (auto split: if_splits)
    from mem [OF Some] p have r: "(rid, r) \<in> set (inflight g)" by simp
    have infl: "infl = AList.update rid (r\<lparr>g_slot := sl\<rparr>) (inflight g)"
      using h1 Some p by (simp add: swapSlot_def)
    have keep: "x \<in> set al \<Longrightarrow> fst x \<noteq> k \<Longrightarrow> x \<in> set (AList.update k v al)" for x k and v :: gateRun and al
      by (induction al) auto
    have new: "(k, v) \<in> set (AList.update k v al)" for k and v :: gateRun and al
      by (induction al) auto
    obtain i q where q: "(i, q) \<in> set (inflight g)" "time_sub now (g_start q) < window"
      using busy by (auto simp: freeFor_def list_all_iff)
    show ?thesis
    proof (cases "i = rid")
      case False
      with keep [OF q(1), of rid] q(2) show ?thesis
        unfolding infl freeFor_def list_all_iff by fastforce
    next
      case True
      with dist q(1) r have "q = r" by (metis eq_key_imp_eq_value)
      with new [of rid "r\<lparr>g_slot := sl\<rparr>"] q(2) show ?thesis
        unfolding infl freeFor_def list_all_iff by fastforce
    qed
  qed
  with h1 h1p opened empty busy show "let s' = submit trigger now t tick sl window (g, m) in
       snd s' = m \<and> (\<exists>h. pending (fst s') = [h] \<and> h_task h = t \<and> h_tick h = tick \<and>
         sl \<le> h_slot h \<and> h_slot h \<le> tick + window \<and>
         h_timer h = Some (now + max (time_sub (h_slot h) now) 0))"
    by (simp add: submit_def Let_def advance_def insert_held_def)
qed

definition busy_gate :: jitterGate where
  "busy_gate = newJitterGate\<lparr>inflight := [(''a0'', \<lparr>g_start = 100, g_slot = 130\<rparr>)]\<rparr>"

end
