(* ===== verification/Manager.thy ===== *)
theory Manager
  imports Failures Params Retry Supervisor Jitter_Gate
begin

text \<open>
  The task manager of \<open>runtime/\<close> (\<open>manager.go\<close>, \<open>taskstate.go\<close>, \<open>manager_run.go\<close>, \<open>retry.go\<close>,
  \<open>manager_service.go\<close>, \<open>manager_recovery.go\<close>, \<open>manager_shutdown.go\<close>, \<open>service_health.go\<close>,
  \<open>persistence.go\<close>'s call sites and \<open>executor.go\<close>'s result mapping).

  Every method takes the manager's mutex, so it is a function on the state record; what it
  publishes and persists is appended to \<open>effects\<close> in program order. A goroutine is a value in
  the state: a run's \<open>execute\<close> goroutine is the entry of the run in \<open>active\<close> (pending until its
  prologue ran, running while the executor holds it), a queue's drain goroutine is the field
  \<open>drain\<close>, a retry or restart goroutine is an entry of \<open>followups\<close>. The environment decides when
  each of them takes its next step. A pointer that is dereferenced while nil sets \<open>panicked\<close>.
\<close>

section \<open>State\<close>

text \<open>\<open>ar_task\<close> is the task the run's goroutine captured; \<open>ar_ctxDone\<close> says that \<open>Cancel\<close> was
  called, \<open>ar_cancelled\<close> is the latch of the kill policy.\<close>

record ActiveRun =
  ar_run :: Run
  ar_task :: Task
  ar_startedAt :: instant
  ar_cancelled :: bool
  ar_ctxDone :: bool
  ar_forceKill :: bool
  ar_killed :: bool

text \<open>The queue's drain goroutine: not running, waiting for the lock, or parked on the condition
  variable. \<open>queueDraining\<close> is \<open>drain \<noteq> DrainGone\<close>.\<close>

datatype drainState = DrainGone | DrainReady | DrainParked

record taskState =
  ts_task :: Task
  active :: "ActiveRun list"
  queue :: "Run list"
  cond :: bool
  supervisor :: "Supervisor option"
  removed :: bool
  drain :: drainState
  bookkeepingStop :: bool

datatype runEvent = EventRunCreated | EventRunStarted | EventRunCompleted | EventRunFailed

datatype effect =
    PersistNew Run
  | PersistExisting Run
  | Flush
  | Publish runEvent Run string
  | PublishServiceFatal string int int int
  | PublishTasksChanged

datatype followup =
    FollowRetry Task Run
  | FollowRestart Task Run int
  | WaitRetry Task Run instant
  | WaitRestart Task Run instant

text \<open>What a goroutine has still to do for a run it has taken out of the manager's state, after it
  released the lock: each action is a step of its own, and anything else may happen before it.\<close>

datatype tailAction =
    TailPersist Run
  | TailPublish runEvent Run
  | TailFatal string int int int
  | TailComplete string
  | TailFollow Task Run int

text \<open>\<open>ulid\<close> is the supply of run ids (\<open>ulid.Make\<close>, a third-party package) and \<open>minted\<close> the
  number drawn; \<open>float_ok\<close> is \<open>strconv.ParseFloat\<close>'s acceptance.\<close>

record manager =
  tasks :: "(string \<times> taskState) list"
  removedTasks :: "(string \<times> taskState) list"
  effects :: "effect list"
  clock :: instant
  isShutdown :: bool
  deadlineExceeded :: bool
  shutdownCtx :: bool
  schedulePaused :: "(string \<Rightarrow> bool) option"
  followups :: "followup list"
  ulid :: "nat \<Rightarrow> string"
  minted :: nat
  float_ok :: "string \<Rightarrow> bool"
  panicked :: bool
  tails :: "tailAction list list"

datatype mgrError =
    ShuttingDown
  | TaskNotFound string
  | TaskNotService string
  | TaskIsService string
  | ParamRejected ParamError
  | ReserveFailed ReserveError
  | AlreadyRunningSkip
  | QueueFull int string
  | RunNotFound string
  | NilDereference

record TriggerRunOptions =
  o_TriggeredBy :: "TriggeredBy option"
  o_ExecutionID :: string
  o_RetryAttempt :: int
  o_RetryOfRunID :: "string option"
  o_InstanceIndex :: "int option"
  o_Params :: supplied
  o_ScheduledAt :: instant

definition no_options :: TriggerRunOptions where
  "no_options = \<lparr>o_TriggeredBy = None, o_ExecutionID = [], o_RetryAttempt = 0,
     o_RetryOfRunID = None, o_InstanceIndex = None, o_Params = [], o_ScheduledAt = 0\<rparr>"

definition NewTaskManager :: "(nat \<Rightarrow> string) \<Rightarrow> (string \<Rightarrow> bool) \<Rightarrow> instant \<Rightarrow> manager" where
  "NewTaskManager ids floats now =
     \<lparr>tasks = [], removedTasks = [], effects = [], clock = now, isShutdown = False,
      deadlineExceeded = False, shutdownCtx = False, schedulePaused = None, followups = [],
      ulid = ids, minted = 0, float_ok = floats, panicked = False, tails = []\<rparr>"

definition emit :: "effect list \<Rightarrow> manager \<Rightarrow> manager" where
  "emit es m = m\<lparr>effects := effects m @ es\<rparr>"

definition spawn_tail :: "tailAction list \<Rightarrow> manager \<Rightarrow> manager" where
  "spawn_tail as m = (if as = [] then m else m\<lparr>tails := tails m @ [as]\<rparr>)"

definition panic :: "manager \<Rightarrow> manager" where
  "panic m = m\<lparr>panicked := True\<rparr>"

definition SetSchedulePaused :: "(string \<Rightarrow> bool) \<Rightarrow> manager \<Rightarrow> manager" where
  "SetSchedulePaused f m = m\<lparr>schedulePaused := Some f\<rparr>"

section \<open>Lookup\<close>

definition allTaskStates :: "manager \<Rightarrow> (string \<times> taskState) list" where
  "allTaskStates m = tasks m @ removedTasks m"

definition taskStateFor :: "manager \<Rightarrow> string \<Rightarrow> taskState option" where
  "taskStateFor m name =
     (case map_of (tasks m) name of Some ts \<Rightarrow> Some ts | None \<Rightarrow> map_of (removedTasks m) name)"

text \<open>Writing a task state back through the pointer a lookup returned.\<close>

definition put_task :: "string \<Rightarrow> taskState \<Rightarrow> manager \<Rightarrow> manager" where
  "put_task name ts m = m\<lparr>tasks := AList.update name ts (tasks m)\<rparr>"

definition put_state :: "string \<Rightarrow> taskState \<Rightarrow> manager \<Rightarrow> manager" where
  "put_state name ts m =
     (if map_of (tasks m) name \<noteq> None then put_task name ts m
      else m\<lparr>removedTasks := AList.update name ts (removedTasks m)\<rparr>)"

definition GetTask :: "manager \<Rightarrow> string \<Rightarrow> Task option" where
  "GetTask m name = map_option ts_task (map_of (tasks m) name)"

definition ListServiceTasks :: "manager \<Rightarrow> Task list" where
  "ListServiceTasks m = filter (\<lambda>t. IsService (TKind t)) (map (ts_task \<circ> snd) (tasks m))"

definition GetActiveRuns :: "manager \<Rightarrow> string \<Rightarrow> ActiveRun list" where
  "GetActiveRuns m name = (case map_of (tasks m) name of None \<Rightarrow> [] | Some ts \<Rightarrow> active ts)"

definition GetActiveRunCount :: "manager \<Rightarrow> string \<Rightarrow> nat" where
  "GetActiveRunCount m name = (case map_of (tasks m) name of None \<Rightarrow> 0 | Some ts \<Rightarrow> length (active ts))"

text \<open>The loops that act on the first matching active run of any task and stop.\<close>

fun update_first :: "('a \<Rightarrow> bool) \<Rightarrow> ('a \<Rightarrow> 'a) \<Rightarrow> 'a list \<Rightarrow> 'a list option" where
  "update_first P f [] = None"
| "update_first P f (x # xs) =
     (if P x then Some (f x # xs) else map_option ((#) x) (update_first P f xs))"

fun update_active_first ::
  "(ActiveRun \<Rightarrow> bool) \<Rightarrow> (ActiveRun \<Rightarrow> ActiveRun) \<Rightarrow> (string \<times> taskState) list
     \<Rightarrow> (string \<times> taskState) list option"
where
  "update_active_first P f [] = None"
| "update_active_first P f ((k, ts) # r) =
     (case update_first P f (active ts) of
        Some ars \<Rightarrow> Some ((k, ts\<lparr>active := ars\<rparr>) # r)
      | None \<Rightarrow> map_option ((#) (k, ts)) (update_active_first P f r))"

definition update_any_active ::
  "(ActiveRun \<Rightarrow> bool) \<Rightarrow> (ActiveRun \<Rightarrow> ActiveRun) \<Rightarrow> manager \<Rightarrow> manager option" where
  "update_any_active P f m =
     (case update_active_first P f (tasks m) of
        Some t \<Rightarrow> Some (m\<lparr>tasks := t\<rparr>)
      | None \<Rightarrow> map_option (\<lambda>t. m\<lparr>removedTasks := t\<rparr>) (update_active_first P f (removedTasks m)))"

text \<open>Applying a function to every active run of every task state.\<close>

definition on_active :: "(ActiveRun \<Rightarrow> ActiveRun) \<Rightarrow> taskState \<Rightarrow> taskState" where
  "on_active f ts = ts\<lparr>active := map f (active ts)\<rparr>"

definition Cancel :: "ActiveRun \<Rightarrow> ActiveRun" where
  "Cancel ar = ar\<lparr>ar_ctxDone := True\<rparr>"

definition registerForceKill :: "string \<Rightarrow> manager \<Rightarrow> manager" where
  "registerForceKill runID m =
     OrDefault (update_any_active (\<lambda>ar. ID (ar_run ar) = runID) (\<lambda>ar. ar\<lparr>ar_forceKill := True\<rparr>) m) m"

definition cancelActiveRun ::
  "(ActiveRun \<Rightarrow> bool) \<Rightarrow> string \<Rightarrow> manager \<Rightarrow> mgrError option \<times> manager" where
  "cancelActiveRun matches notFound m =
     (case update_any_active matches Cancel m of
        Some m' \<Rightarrow> (None, m') | None \<Rightarrow> (Some (RunNotFound notFound), m))"

definition TerminateRun :: "string \<Rightarrow> manager \<Rightarrow> mgrError option \<times> manager" where
  "TerminateRun runID = cancelActiveRun (\<lambda>ar. ID (ar_run ar) = runID) runID"

definition TerminateRunByExecutionID :: "string \<Rightarrow> manager \<Rightarrow> mgrError option \<times> manager" where
  "TerminateRunByExecutionID executionID =
     cancelActiveRun (\<lambda>ar. ExecutionID (ar_run ar) = Some executionID) executionID"

section \<open>Concurrency policy\<close>

datatype concurrencyAction = actionStart | actionQueued | actionRejected | actionQueueFull

text \<open>\<open>cond.Signal\<close> and \<open>cond.Broadcast\<close>: at most one goroutine waits on a task's condition
  variable.\<close>

definition signal :: "taskState \<Rightarrow> taskState" where
  "signal ts = (if drain ts = DrainParked then ts\<lparr>drain := DrainReady\<rparr> else ts)"

fun cancel_oldest :: "int \<Rightarrow> ActiveRun list \<Rightarrow> ActiveRun list" where
  "cancel_oldest needed [] = []"
| "cancel_oldest needed (ar # ars) =
     (if needed \<le> 0 then ar # ars
      else if ar_cancelled ar then ar # cancel_oldest needed ars
      else Cancel (ar\<lparr>ar_cancelled := True\<rparr>) # cancel_oldest (needed - 1) ars)"

definition live_runs :: "ActiveRun list \<Rightarrow> nat" where
  "live_runs ars = length (filter (\<lambda>ar. \<not> ar_cancelled ar) ars)"

definition cancelExcessRuns :: "taskState \<Rightarrow> int \<Rightarrow> taskState" where
  "cancelExcessRuns ts concurrencyLimit =
     ts\<lparr>active := cancel_oldest (int (live_runs (active ts)) - concurrencyLimit + 1) (active ts)\<rparr>"

text \<open>\<open>None\<close> in the second place is a nil error; a nil condition variable panics.\<close>

definition evaluateConcurrency ::
  "taskState \<Rightarrow> Run \<Rightarrow> int \<Rightarrow> (concurrencyAction \<times> mgrError option \<times> taskState) option" where
  "evaluateConcurrency ts run concurrencyLimit =
     (let queuePending = (OnOverlap (ts_task ts) = PolicyQueue \<and> queue ts \<noteq> [])
      in if int (length (active ts)) < concurrencyLimit \<and> \<not> queuePending
         then Some (actionStart, None, ts)
         else (case OnOverlap (ts_task ts) of
             PolicySkip \<Rightarrow> Some (actionRejected, Some AlreadyRunningSkip, ts)
           | PolicyQueue \<Rightarrow>
               (let maxQueued = MaxQueuedValue (ts_task ts)
                in if int (length (queue ts)) \<ge> maxQueued
                   then Some (actionQueueFull, Some (QueueFull maxQueued (Name (ts_task ts))), ts)
                   else if cond ts
                   then Some (actionQueued, None, signal (ts\<lparr>queue := queue ts @ [run]\<rparr>))
                   else None)
           | PolicyKill \<Rightarrow> Some (actionStart, None, cancelExcessRuns ts concurrencyLimit)
           | PolicyUnset \<Rightarrow> Some (actionStart, None, ts)))"

definition startRun :: "Task \<Rightarrow> Run \<Rightarrow> manager \<Rightarrow> manager" where
  "startRun task run m =
     (case map_of (tasks m) (Name task) of
        None \<Rightarrow> panic m
      | Some ts \<Rightarrow>
          put_task (Name task)
            (ts\<lparr>active := active ts @ [\<lparr>ar_run = run, ar_task = task, ar_startedAt = clock m,
               ar_cancelled = False, ar_ctxDone = False, ar_forceKill = False,
               ar_killed = False\<rparr>]\<rparr>) m)"

text \<open>\<open>queueProcessLoop\<close> from the moment it holds the lock until it waits or returns. Its first
  argument is the state's queue: the loop runs while it is non-empty and a slot is free.\<close>

definition drain_stops :: "manager \<Rightarrow> taskState \<Rightarrow> bool" where
  "drain_stops m ts \<longleftrightarrow> isShutdown m \<or> removed ts \<or> OnOverlap (ts_task ts) \<noteq> PolicyQueue"

definition drain_wait :: "string \<Rightarrow> taskState \<Rightarrow> manager \<Rightarrow> manager" where
  "drain_wait name ts m =
     put_state name (ts\<lparr>drain := (if drain_stops m ts then DrainGone else DrainParked)\<rparr>) m"

fun drain_loop :: "Run list \<Rightarrow> string \<Rightarrow> manager \<Rightarrow> manager" where
  "drain_loop [] name m =
     (case taskStateFor m name of None \<Rightarrow> m | Some ts \<Rightarrow> drain_wait name ts m)"
| "drain_loop (queued # rest) name m =
     (case taskStateFor m name of
        None \<Rightarrow> m
      | Some ts \<Rightarrow>
          if int (length (active ts)) \<ge> MaxConcurrentValue (ts_task ts) then drain_wait name ts m
          else if drain_stops m ts then put_state name (ts\<lparr>drain := DrainGone\<rparr>) m
          else drain_loop rest name
                 (startRun (ts_task ts) queued (put_state name (ts\<lparr>queue := rest\<rparr>) m)))"

definition queueProcessLoop :: "string \<Rightarrow> manager \<Rightarrow> manager" where
  "queueProcessLoop name m =
     (case taskStateFor m name of
        None \<Rightarrow> m
      | Some ts \<Rightarrow> if drain ts = DrainReady then drain_loop (queue ts) name m else m)"

section \<open>Registering and removing tasks\<close>

definition endOrphanedPending :: "instant \<Rightarrow> Run \<Rightarrow> Run" where
  "endOrphanedPending now r = End None ReasonSkipped (-1) now r"

definition finalizeOrphanedQueue ::
  "instant \<Rightarrow> taskState \<Rightarrow> Run list \<times> effect list \<times> taskState" where
  "finalizeOrphanedQueue now ts =
     (let runs = map (endOrphanedPending now) (queue ts)
      in (runs, map PersistExisting runs, ts\<lparr>queue := []\<rparr>))"

definition upsertSupervisor :: "Task \<Rightarrow> taskState \<Rightarrow> taskState" where
  "upsertSupervisor task ts =
     (let healthyAfter = OrDefault (HealthyAfter task) DefaultHealthyAfter
      in (case supervisor ts of
            None \<Rightarrow> ts\<lparr>supervisor := Some (NewSupervisor (Name task) (Instances task) healthyAfter
                        (\<not> Autostart task))\<rparr>
          | Some s \<Rightarrow>
              (let s1 = SetHealthyAfter healthyAfter (SetInstances (Instances task) s)
               in if bookkeepingStop ts
                  then ts\<lparr>supervisor := Some (if Autostart task then MarkRunning s1 else s1),
                          bookkeepingStop := False\<rparr>
                  else ts\<lparr>supervisor := Some s1\<rparr>)))"

definition new_state :: "Task \<Rightarrow> taskState" where
  "new_state task = \<lparr>ts_task = task, active = [], queue = [], cond = False, supervisor = None,
     removed = False, drain = DrainGone, bookkeepingStop = False\<rparr>"

text \<open>The first part of \<open>upsertTaskLocked\<close>: the state the name now resolves to.\<close>

definition attach_state :: "Task \<Rightarrow> manager \<Rightarrow> taskState \<times> manager" where
  "attach_state task m =
     (case map_of (tasks m) (Name task) of
        Some ts \<Rightarrow> (ts, m)
      | None \<Rightarrow> (case map_of (removedTasks m) (Name task) of
          Some draining \<Rightarrow>
            (draining\<lparr>removed := False\<rparr>,
             m\<lparr>removedTasks := AList.delete (Name task) (removedTasks m)\<rparr>)
        | None \<Rightarrow> (new_state task, m)))"

definition install_supervisor :: "Task \<Rightarrow> taskState \<Rightarrow> taskState" where
  "install_supervisor task ts =
     (if IsService (TKind task) then upsertSupervisor task ts
      else (case supervisor ts of
              None \<Rightarrow> ts
            | Some s \<Rightarrow> ts\<lparr>supervisor := Some (MarkStopped s), bookkeepingStop := True\<rparr>))"

text \<open>The last part: the drain goroutine of a queue task, or the orphans of one that is not.\<close>

definition install_queue ::
  "instant \<Rightarrow> Task \<Rightarrow> taskState \<Rightarrow> Run list \<times> effect list \<times> taskState" where
  "install_queue now task ts =
     (if OnOverlap task = PolicyQueue
      then ([], [], signal (ts\<lparr>cond := True,
             drain := (if drain ts = DrainGone then DrainReady else drain ts)\<rparr>))
      else if cond ts
      then (case finalizeOrphanedQueue now ts of (runs, es, ts') \<Rightarrow> (runs, es, signal ts'))
      else ([], [], ts))"

definition upsertTaskLocked :: "Task \<Rightarrow> manager \<Rightarrow> Run list \<times> manager" where
  "upsertTaskLocked task m =
     (case attach_state task m of (ts, m1) \<Rightarrow>
       (case install_queue (clock m) task (install_supervisor task (ts\<lparr>ts_task := task\<rparr>)) of
          (runs, es, ts') \<Rightarrow> (runs, emit es (put_task (Name task) ts' m1))))"

text \<open>\<open>RemoveTask\<close> up to the release of the lock.\<close>

definition stop_removed_service :: "taskState \<Rightarrow> taskState" where
  "stop_removed_service ts =
     (case supervisor ts of
        Some s \<Rightarrow>
          if IsService (TKind (ts_task ts))
          then on_active Cancel (ts\<lparr>supervisor := Some (MarkStopped s), bookkeepingStop := True\<rparr>)
          else ts
      | None \<Rightarrow> ts)"

definition removeTaskLocked :: "string \<Rightarrow> manager \<Rightarrow> Run list \<times> manager" where
  "removeTaskLocked taskName m =
     (case map_of (tasks m) taskName of
        None \<Rightarrow> ([], m)
      | Some ts0 \<Rightarrow>
          (let ts1 = ts0\<lparr>removed := True\<rparr>;
               (runs, es, ts2) = (if cond ts1
                  then (case finalizeOrphanedQueue (clock m) ts1 of (rs, es, t) \<Rightarrow> (rs, es, signal t))
                  else ([], [], ts1));
               ts3 = stop_removed_service ts2;
               m1 = emit es (m\<lparr>tasks := AList.delete taskName (tasks m)\<rparr>)
           in (runs, if active ts3 \<noteq> []
                     then m1\<lparr>removedTasks := AList.update taskName ts3 (removedTasks m1)\<rparr>
                     else m1)))"

end
