(* ===== verification/Manager_Ops.thy ===== *)
theory Manager_Ops
  imports Manager
begin

text \<open>
  The manager's operations: triggering runs, the lifecycle of a run, retries and restarts,
  service control, recovery of pending runs, and shutdown. An operation that also touches the
  jitter gate works on a \<open>daemon\<close>, the gate together with the manager. What a goroutine does after it
  took runs out of the state and released the lock is a \<open>tail\<close>, whose actions run one by one
  (\<open>run_tail\<close>) with anything in between. Two simplifications stay: the flush and the publication of an
  event are one action, and \<open>execute\<close> reads the clock and the deadline flag in the step that
  retires its run.
\<close>

section \<open>Triggering a run\<close>

definition publishTerminal :: "runEvent \<Rightarrow> Run \<Rightarrow> string \<Rightarrow> manager \<Rightarrow> manager" where
  "publishTerminal ev run msg = emit [Flush, Publish ev run msg]"

definition mint :: "manager \<Rightarrow> string \<times> manager" where
  "mint m = (ulid m (minted m), m\<lparr>minted := Suc (minted m)\<rparr>)"

definition new_run ::
  "string \<Rightarrow> string \<Rightarrow> TriggeredBy \<Rightarrow> instant \<Rightarrow> Run" where
  "new_run rid taskName triggeredBy createdAt =
     \<lparr>ID = rid, ExecutionID = None, TaskName = taskName, Status = PhasePending, EndReason = None,
      IsFailure = False, ExitCode = 0, StartedAt = None, EndedAt = None, Triggered = triggeredBy,
      CreatedAt = createdAt, RetryAttempt = 0, RetryOfRunID = None, InstanceIndex = 0,
      Params = None, PeakMemoryBytes = None, CPUTimeMs = None, StdoutLines = None,
      StderrLines = None, OutputMatched = False\<rparr>"

text \<open>\<open>Left\<close> results are the early returns; \<open>NilDereference\<close> stands for the panic.\<close>

definition reserve_instance ::
  "taskState \<Rightarrow> int option \<Rightarrow> mgrError + (int \<times> taskState)" where
  "reserve_instance ts requested =
     (if \<not> IsService (TKind (ts_task ts)) then Inr (0, ts)
      else (case supervisor ts of
          None \<Rightarrow> Inl NilDereference
        | Some s \<Rightarrow> (case Reserve requested s of
            Inl e \<Rightarrow> Inl (ReserveFailed e)
          | Inr (i, s') \<Rightarrow> Inr (i, ts\<lparr>supervisor := Some s'\<rparr>))))"

definition resolve_params :: "manager \<Rightarrow> taskState \<Rightarrow> supplied \<Rightarrow> ParamError + resolved option" where
  "resolve_params m ts spl =
     (case ResolveParamValues (float_ok m) (Parameters (ts_task ts)) spl of
        Inl e \<Rightarrow> Inl e
      | Inr res \<Rightarrow> Inr (if res = [] then None else Some res))"

definition build_run ::
  "string \<Rightarrow> TriggerRunOptions \<Rightarrow> bool \<Rightarrow> int \<Rightarrow> resolved option \<Rightarrow> string \<Rightarrow> instant \<Rightarrow> Run" where
  "build_run taskName options isService idx params rid now =
     (new_run rid taskName (OrDefault (o_TriggeredBy options) TriggeredByService)
        (if \<not> isService \<and> o_ScheduledAt options \<noteq> 0 then o_ScheduledAt options else now))
       \<lparr>ExecutionID := (if o_ExecutionID options \<noteq> [] then Some (o_ExecutionID options) else None),
        RetryAttempt := o_RetryAttempt options, RetryOfRunID := o_RetryOfRunID options,
        InstanceIndex := idx, Params := params\<rparr>"

text \<open>A run that never executes: ended, persisted, and announced once the lock is released.\<close>

definition end_unexecuted :: "Task \<Rightarrow> EndReason \<Rightarrow> Run \<Rightarrow> manager \<Rightarrow> Run \<times> manager" where
  "end_unexecuted task reason run m =
     (let run' = End (Some task) reason (-1) (clock m) run
      in (run', publishTerminal EventRunFailed run' [] (emit [PersistExisting run'] m)))"

text \<open>The part of \<open>TriggerRunWithOptions\<close> after the run row exists.\<close>

definition admit ::
  "taskState \<Rightarrow> Run \<Rightarrow> manager \<Rightarrow> (Run option \<times> mgrError option) \<times> manager" where
  "admit ts run m =
     (let task = ts_task ts
      in if IsService (TKind task) then ((Some run, None), startRun task run m)
         else (case evaluateConcurrency ts run (MaxConcurrentValue task) of
             None \<Rightarrow> ((None, Some NilDereference), panic m)
           | Some (action, err, ts') \<Rightarrow>
               (let m' = put_task (Name task) ts' m
                in (case action of
                      actionRejected \<Rightarrow>
                        (case end_unexecuted task ReasonSkipped run m' of (r, m2) \<Rightarrow> ((Some r, err), m2))
                    | actionQueueFull \<Rightarrow>
                        (case end_unexecuted task ReasonQueueFull run m' of (r, m2) \<Rightarrow> ((Some r, err), m2))
                    | actionQueued \<Rightarrow> ((Some run, None), m')
                    | actionStart \<Rightarrow> ((Some run, None), startRun task run m')))))"

definition TriggerRunWithOptions ::
  "string \<Rightarrow> TriggerRunOptions \<Rightarrow> manager \<Rightarrow> (Run option \<times> mgrError option) \<times> manager" where
  "TriggerRunWithOptions taskName options m =
     (if isShutdown m then ((None, Some ShuttingDown), m)
      else (case map_of (tasks m) taskName of
          None \<Rightarrow> ((None, Some (TaskNotFound taskName)), m)
        | Some ts \<Rightarrow> (case resolve_params m ts (o_Params options) of
            Inl e \<Rightarrow> ((None, Some (ParamRejected e)), m)
          | Inr params \<Rightarrow> (case reserve_instance ts (o_InstanceIndex options) of
              Inl NilDereference \<Rightarrow> ((None, Some NilDereference), panic m)
            | Inl e \<Rightarrow> ((None, Some e), m)
            | Inr (idx, ts') \<Rightarrow>
                (case mint (put_task taskName ts' m) of (rid, m1) \<Rightarrow>
                   (let run = build_run taskName options (IsService (TKind (ts_task ts))) idx
                                params rid (clock m)
                    in admit ts' run
                         (emit [PersistNew run, Publish EventRunCreated run []] m1)))))))"

text \<open>The gate's run-start hook.\<close>

definition triggerJittered :: "string \<Rightarrow> instant \<Rightarrow> manager \<Rightarrow> string option \<times> manager" where
  "triggerJittered taskName tick m =
     (let stale = (case map_of (tasks m) taskName of None \<Rightarrow> True | Some ts \<Rightarrow> Held (ts_task ts));
          paused = (case schedulePaused m of None \<Rightarrow> False | Some f \<Rightarrow> f taskName)
      in if stale \<or> paused then (None, m)
         else (case TriggerRunWithOptions taskName
                     (no_options\<lparr>o_TriggeredBy := Some TriggeredByCron, o_ScheduledAt := tick\<rparr>) m of
             ((Some run, None), m') \<Rightarrow> (Some (ID run), m')
           | (_, m') \<Rightarrow> (None, m')))"

definition recordPhantomRun ::
  "string \<Rightarrow> instant \<Rightarrow> EndReason \<Rightarrow> TriggeredBy \<Rightarrow> string \<Rightarrow> manager
     \<Rightarrow> mgrError option \<times> manager" where
  "recordPhantomRun taskName at reason triggeredBy errText m =
     (case map_of (tasks m) taskName of
        None \<Rightarrow> (Some (TaskNotFound taskName), m)
      | Some ts \<Rightarrow> (case mint m of (rid, m1) \<Rightarrow>
          (let run = new_run rid taskName triggeredBy at;
               run' = End (Some (ts_task ts)) reason (-1) at run
           in (None, publishTerminal EventRunFailed run' errText
                 (emit [PersistNew run, Publish EventRunCreated run [], PersistExisting run'] m1)))))"

definition RecordSkippedFiring ::
  "string \<Rightarrow> EndReason \<Rightarrow> TriggeredBy \<Rightarrow> manager \<Rightarrow> mgrError option \<times> manager" where
  "RecordSkippedFiring taskName reason triggeredBy m =
     recordPhantomRun taskName (clock m) reason triggeredBy [] m"

definition RecordMissedRun ::
  "string \<Rightarrow> instant \<Rightarrow> string \<Rightarrow> manager \<Rightarrow> mgrError option \<times> manager" where
  "RecordMissedRun taskName scheduledAt reason m =
     recordPhantomRun taskName scheduledAt ReasonMissed TriggeredByCron reason m"

section \<open>The gate and the manager together\<close>

type_synonym daemon = "jitterGate \<times> manager"

definition gate_complete :: "string \<Rightarrow> daemon \<Rightarrow> daemon" where
  "gate_complete runID d = onComplete triggerJittered (clock (snd d)) runID d"

definition ScheduleJitteredRun ::
  "string \<Rightarrow> instant \<Rightarrow> instant \<Rightarrow> duration \<Rightarrow> daemon \<Rightarrow> daemon" where
  "ScheduleJitteredRun taskName tick sl window d =
     submit triggerJittered (clock (snd d)) taskName tick sl window d"

definition breach_timer :: "string \<Rightarrow> daemon \<Rightarrow> daemon" where
  "breach_timer taskName d = breach triggerJittered (clock (snd d)) taskName d"

definition on_manager :: "(manager \<Rightarrow> manager) \<Rightarrow> daemon \<Rightarrow> daemon" where
  "on_manager f d = (fst d, f (snd d))"

text \<open>\<open>retireOrphaned\<close> runs after the unlock: in one go when nothing comes between, or as a tail whose
  actions interleave with everything else.\<close>

definition orphan_tail :: "Run list \<Rightarrow> tailAction list" where
  "orphan_tail runs = concat (map (\<lambda>r. [TailComplete (ID r), TailPublish EventRunFailed r]) runs)"

definition leaveOrphaned :: "Run list \<Rightarrow> daemon \<Rightarrow> daemon" where
  "leaveOrphaned runs = on_manager (spawn_tail (orphan_tail runs))"

definition retireOrphaned :: "Run list \<Rightarrow> daemon \<Rightarrow> daemon" where
  "retireOrphaned runs d =
     fold (\<lambda>r d. on_manager (publishTerminal EventRunFailed r []) (gate_complete (ID r) d)) runs d"

definition UpsertTask_begin :: "Task \<Rightarrow> daemon \<Rightarrow> daemon" where
  "UpsertTask_begin task d =
     (case upsertTaskLocked task (snd d) of (orphans, m) \<Rightarrow> leaveOrphaned orphans (fst d, m))"

definition UpsertTask :: "Task \<Rightarrow> daemon \<Rightarrow> daemon" where
  "UpsertTask task d =
     (case upsertTaskLocked task (snd d) of (orphans, m) \<Rightarrow> retireOrphaned orphans (fst d, m))"

text \<open>\<open>MutateTask\<close>: the error of \<open>mutate\<close> is passed on; the boolean says the task was found.\<close>

definition MutateTask ::
  "string \<Rightarrow> (Task \<Rightarrow> 'e + Task) \<Rightarrow> daemon \<Rightarrow> (bool \<times> 'e option) \<times> daemon" where
  "MutateTask taskName mutate d =
     (case map_of (tasks (snd d)) taskName of
        None \<Rightarrow> ((False, None), d)
      | Some ts \<Rightarrow> (case mutate (ts_task ts) of
          Inl e \<Rightarrow> ((True, Some e), d)
        | Inr task \<Rightarrow> ((True, None), UpsertTask_begin task d)))"

definition RemoveTask_begin :: "string \<Rightarrow> daemon \<Rightarrow> daemon" where
  "RemoveTask_begin taskName d =
     (case removeTaskLocked taskName (snd d) of (orphans, m) \<Rightarrow> leaveOrphaned orphans (fst d, m))"

definition RemoveTask :: "string \<Rightarrow> daemon \<Rightarrow> daemon" where
  "RemoveTask taskName d =
     (case removeTaskLocked taskName (snd d) of (orphans, m) \<Rightarrow> retireOrphaned orphans (fst d, m))"

text \<open>\<open>StopTask\<close> discards the queue of a task that has one; the cron schedule stays. This is its part
  under the lock.\<close>

definition StopTask :: "string \<Rightarrow> daemon \<Rightarrow> mgrError option \<times> daemon" where
  "StopTask taskName d =
     (let m = snd d in (case map_of (tasks m) taskName of
        None \<Rightarrow> (Some (TaskNotFound taskName), d)
      | Some ts \<Rightarrow>
          if IsService (TKind (ts_task ts)) then (Some (TaskIsService taskName), d)
          else
            let ts1 = on_active Cancel ts;
                (orphans, es, ts2) = (if cond ts1
                  then (case finalizeOrphanedQueue (clock m) ts1 of (rs, es, t) \<Rightarrow> (rs, es, signal t))
                  else ([], [], ts1))
            in (None, leaveOrphaned orphans (fst d, emit es (put_task taskName ts2 m)))))"

section \<open>The lifecycle of a run\<close>

record ExecuteResult =
  er_ExitCode :: int
  er_TimedOut :: bool
  er_Stopped :: bool
  er_KillReason :: "EndReason option"
  er_OutputMatched :: bool
  er_PeakMemoryBytes :: "int option"
  er_CPUTimeMs :: "int option"
  er_StdoutLines :: int
  er_StderrLines :: int

definition result_EndReason :: "ExecuteResult \<Rightarrow> EndReason" where
  "result_EndReason r =
     (if er_TimedOut r then ReasonTimeout
      else (case er_KillReason r of
          Some k \<Rightarrow> k
        | None \<Rightarrow>
            if er_Stopped r then ReasonStopped
            else if er_ExitCode r = 0 \<and> \<not> er_OutputMatched r then ReasonSuccess
            else ReasonFailed))"

definition find_active :: "string \<Rightarrow> string \<Rightarrow> manager \<Rightarrow> ActiveRun option" where
  "find_active name rid m =
     (case taskStateFor m name of
        None \<Rightarrow> None | Some ts \<Rightarrow> find (\<lambda>ar. ID (ar_run ar) = rid) (active ts))"

text \<open>The prologue of \<open>execute\<close>, up to the call of the executor.\<close>

definition mark_live :: "Task \<Rightarrow> Run \<Rightarrow> manager \<Rightarrow> manager" where
  "mark_live task run m =
     (case map_of (tasks m) (Name task) of
        None \<Rightarrow> m
      | Some ts \<Rightarrow> (case supervisor ts of
          None \<Rightarrow> m
        | Some s \<Rightarrow> put_task (Name task)
            (ts\<lparr>supervisor := Some (MarkLive (clock m) (InstanceIndex run) (HasHealthCheck task) s)\<rparr>) m))"

definition execute_begin :: "string \<Rightarrow> string \<Rightarrow> manager \<Rightarrow> manager" where
  "execute_begin name rid m =
     (case (taskStateFor m name, find_active name rid m) of
        (Some ts, Some ar) \<Rightarrow>
          if Status (ar_run ar) \<noteq> PhasePending then m
          else
            let run = (ar_run ar)\<lparr>Status := PhaseRunning, StartedAt := Some (ar_startedAt ar)\<rparr>;
                m1 = put_state name
                  (ts\<lparr>active := OrDefault (update_first (\<lambda>a. ID (ar_run a) = rid)
                     (\<lambda>a. a\<lparr>ar_run := run\<rparr>) (active ts)) (active ts)\<rparr>) m;
                m2 = (if IsService (TKind (ar_task ar)) then mark_live (ar_task ar) run m1 else m1)
            in emit [PersistExisting run, Flush, Publish EventRunStarted run []] m2
      | _ \<Rightarrow> m)"

definition markExitedIfDone ::
  "Task \<Rightarrow> Run \<Rightarrow> EndReason \<Rightarrow> int \<Rightarrow> Supervisor \<Rightarrow> Supervisor" where
  "markExitedIfDone task run endReason exitCode sv =
     (let ended = End (Some task) endReason exitCode 0 run
      in if \<not> ShouldRestart task ended then MarkExited (InstanceIndex run) (IsFailure ended) sv
         else sv)"

definition DefaultStartRetries :: int where "DefaultStartRetries = 10"

text \<open>The supervisor bookkeeping of \<open>retireRun\<close>.\<close>

definition retire_instance ::
  "Task \<Rightarrow> Run \<Rightarrow> duration \<Rightarrow> EndReason \<Rightarrow> int \<Rightarrow> Supervisor
     \<Rightarrow> (int \<times> bool \<times> int) \<times> Supervisor" where
  "retire_instance task run runDuration endReason exitCode s =
     (let failedStart = (IsFailedExecution endReason \<or> endReason = ReasonSuccess);
          startRetries = OrDefault (RestartAttempts task) DefaultStartRetries;
          idx = InstanceIndex run
      in (case RecordExit idx runDuration startRetries failedStart s of (s1, next, fatalNow) \<Rightarrow>
           (let s2 = SetLastExitCode idx exitCode s1
            in if fatalNow then ((next, True, startFails (slot s2 idx)), s2)
               else ((next, False, 0), markExitedIfDone task run endReason exitCode s2))))"

definition reapRetiredTaskState :: "Task \<Rightarrow> taskState \<Rightarrow> manager \<Rightarrow> manager" where
  "reapRetiredTaskState task ts m =
     (if removed ts \<and> active ts = []
      then m\<lparr>removedTasks := AList.delete (Name task) (removedTasks m)\<rparr>
      else if Ephemeral (ts_task ts) \<and> active ts = [] \<and> queue ts = []
      then m\<lparr>tasks := AList.delete (Name task) (tasks m)\<rparr>
      else m)"

definition retireRun ::
  "Task \<Rightarrow> Run \<Rightarrow> duration \<Rightarrow> EndReason \<Rightarrow> int \<Rightarrow> manager \<Rightarrow> (int \<times> bool \<times> int) \<times> manager" where
  "retireRun task run runDuration endReason exitCode m =
     (case taskStateFor m (Name task) of
        None \<Rightarrow> ((0, False, 0), panic m)
      | Some ts \<Rightarrow>
          let ts1 = ts\<lparr>active := remove_first (\<lambda>ar. ID (ar_run ar) = ID run) (active ts)\<rparr>
          in (case (IsService (TKind task), supervisor ts1) of
                (True, None) \<Rightarrow> ((0, False, 0), panic m)
              | (isService, sv) \<Rightarrow>
                  let (res, sv') = (case (isService, sv) of
                        (True, Some s) \<Rightarrow>
                          (case retire_instance task run runDuration endReason exitCode s of
                             (r, s') \<Rightarrow> (r, Some s'))
                      | _ \<Rightarrow> ((0, False, 0), sv));
                      ts2 = ts1\<lparr>supervisor := sv'\<rparr>;
                      ts3 = (if cond ts2 then signal ts2 else ts2)
                  in (res, reapRetiredTaskState task ts3 (put_state (Name task) ts3 m))))"

text \<open>\<open>recordRunOutcome\<close>: classify, retire, end; what it persists and announces after \<open>retireRun\<close>
  released the lock is the last component of its result.\<close>

definition recordRunOutcome ::
  "Task \<Rightarrow> Run \<Rightarrow> instant \<Rightarrow> ExecuteResult \<Rightarrow> manager
     \<Rightarrow> (int \<times> bool \<times> Run \<times> tailAction list) \<times> manager" where
  "recordRunOutcome task run startedAt res m =
     (let endTime = clock m;
          reason0 = (if deadlineExceeded m then ReasonDaemonStopped else result_EndReason res);
          run1 = run\<lparr>OutputMatched := er_OutputMatched res\<rparr>
      in (case retireRun task run1 (time_sub endTime startedAt) reason0 (er_ExitCode res) m of
            ((next, fatalNow, fails), m1) \<Rightarrow>
              (let reason = (if fatalNow then ReasonStartFailed else reason0);
                   event = (if reason = ReasonSuccess then EventRunCompleted else EventRunFailed);
                   run2 = End (Some task) reason (er_ExitCode res) endTime
                     (run1\<lparr>PeakMemoryBytes := er_PeakMemoryBytes res, CPUTimeMs := er_CPUTimeMs res,
                           StdoutLines := Some (er_StdoutLines res),
                           StderrLines := Some (er_StderrLines res)\<rparr>);
                   announce = [TailPersist run2, TailPublish event run2] @
                     (if fatalNow
                      then [TailFatal (Name task) (InstanceIndex run2) fails (er_ExitCode res)] else [])
               in ((next, fatalNow, run2, announce), m1))))"

definition scheduleFollowup :: "Task \<Rightarrow> Run \<Rightarrow> int \<Rightarrow> manager \<Rightarrow> manager" where
  "scheduleFollowup task run nextRestartAttempt m =
     (if Triggered run = TriggeredByStation \<and> \<not> IsService (TKind task) then m
      else if ShouldRestart task run
      then m\<lparr>followups := followups m @ [FollowRestart task run nextRestartAttempt]\<rparr>
      else if ShouldRetry task run
      then m\<lparr>followups := followups m @ [FollowRetry task run]\<rparr>
      else m)"

text \<open>\<open>execute\<close> from the executor's return: the run is retired under the lock, the rest is a tail.\<close>

definition execute_end :: "string \<Rightarrow> string \<Rightarrow> ExecuteResult \<Rightarrow> daemon \<Rightarrow> daemon" where
  "execute_end name rid res d =
     (case find_active name rid (snd d) of
        None \<Rightarrow> d
      | Some ar \<Rightarrow>
          if Status (ar_run ar) \<noteq> PhaseRunning then d
          else (case recordRunOutcome (ar_task ar) (ar_run ar) (ar_startedAt ar) res (snd d) of
              ((next, giveUp, run, announce), m1) \<Rightarrow>
                (fst d, spawn_tail (announce @ [TailComplete (ID run)] @
                   (if giveUp then [] else [TailFollow (ar_task ar) run next])) m1)))"

fun tail_action :: "tailAction \<Rightarrow> daemon \<Rightarrow> daemon" where
  "tail_action (TailPersist run) d = on_manager (emit [PersistExisting run]) d"
| "tail_action (TailPublish ev run) d = on_manager (publishTerminal ev run []) d"
| "tail_action (TailFatal name i fails code) d = on_manager (emit [PublishServiceFatal name i fails code]) d"
| "tail_action (TailComplete rid) d = gate_complete rid d"
| "tail_action (TailFollow task run next) d = on_manager (scheduleFollowup task run next) d"

text \<open>With nothing in between, the tail of orphaned runs is \<open>retireOrphaned\<close>.\<close>

lemma orphan_tail_uninterrupted: "fold tail_action (orphan_tail runs) d = retireOrphaned runs d"
  by (induction runs arbitrary: d) (simp_all add: orphan_tail_def retireOrphaned_def)

text \<open>The next action of the \<open>i\<close>-th tail.\<close>

definition rest_tails :: "nat \<Rightarrow> tailAction list list \<Rightarrow> tailAction list list" where
  "rest_tails i ts = (if tl (ts ! i) = [] then take i ts @ drop (Suc i) ts else ts[i := tl (ts ! i)])"

definition run_tail :: "nat \<Rightarrow> daemon \<Rightarrow> daemon" where
  "run_tail i d =
     (if i < length (tails (snd d)) \<and> tails (snd d) ! i \<noteq> []
      then tail_action (hd (tails (snd d) ! i)) (on_manager (\<lambda>m. m\<lparr>tails := rest_tails i (tails m)\<rparr>) d)
      else d)"

section \<open>Retries and restarts\<close>

text \<open>The goroutine runs to its wait, then again when the wait ends: by its timer, or because
  shutdown cancelled the context (then \<open>waitForDelay\<close> reports false).\<close>

definition isServiceStopped :: "manager \<Rightarrow> string \<Rightarrow> bool" where
  "isServiceStopped m name =
     (case map_of (tasks m) name of
        None \<Rightarrow> False
      | Some ts \<Rightarrow> (case supervisor ts of None \<Rightarrow> False | Some s \<Rightarrow> s_stopped s))"

definition retry_options :: "Task \<Rightarrow> Run \<Rightarrow> TriggerRunOptions" where
  "retry_options task failedRun =
     no_options\<lparr>o_TriggeredBy := Some (Triggered failedRun),
       o_RetryAttempt := RetryAttempt failedRun + 1, o_RetryOfRunID := Some (ID failedRun),
       o_Params := SuppliedFromResolved (Parameters task) (Params failedRun)\<rparr>"

definition restart_options :: "Task \<Rightarrow> Run \<Rightarrow> TriggerRunOptions" where
  "restart_options task previousRun =
     (let options = no_options\<lparr>o_TriggeredBy := Some (Triggered previousRun),
            o_Params := SuppliedFromResolved (Parameters task) (Params previousRun)\<rparr>
      in if IsService (TKind task)
         then options\<lparr>o_TriggeredBy := Some TriggeredByService,
                o_InstanceIndex := Some (InstanceIndex previousRun)\<rparr>
         else options)"

definition retry_now :: "Task \<Rightarrow> Run \<Rightarrow> manager \<Rightarrow> manager" where
  "retry_now task run m =
     (if isShutdown m then m
      else snd (TriggerRunWithOptions (Name task) (retry_options task run) m))"

definition restart_now :: "Task \<Rightarrow> Run \<Rightarrow> manager \<Rightarrow> manager" where
  "restart_now task run m =
     (if isShutdown m then m
      else if IsService (TKind task) \<and> isServiceStopped m (Name task) then m
      else snd (TriggerRunWithOptions (Name task) (restart_options task run) m))"

definition spawn_wait :: "followup \<Rightarrow> manager \<Rightarrow> manager" where
  "spawn_wait f m = m\<lparr>followups := followups m @ [f]\<rparr>"

fun follow :: "followup \<Rightarrow> manager \<Rightarrow> manager" where
  "follow (FollowRetry task run) m =
     (if isShutdown m then m
      else (case ComputeRetryDelay task (RetryAttempt run) of
          None \<Rightarrow> panic m
        | Some delay \<Rightarrow> spawn_wait (WaitRetry task run (clock m + delay)) m))"
| "follow (FollowRestart task run attempt) m =
     (if isShutdown m then m
      else (case restart_delay task attempt (EndReason run) of
          None \<Rightarrow> panic m
        | Some delay \<Rightarrow>
            if delay > 0 then spawn_wait (WaitRestart task run (clock m + delay)) m
            else restart_now task run m))"
| "follow (WaitRetry task run due) m = (if shutdownCtx m then m else retry_now task run m)"
| "follow (WaitRestart task run due) m = (if shutdownCtx m then m else restart_now task run m)"

text \<open>A waiting goroutine may only go on when its timer fired or the context is cancelled.\<close>

fun follow_ready :: "manager \<Rightarrow> followup \<Rightarrow> bool" where
  "follow_ready m (WaitRetry task run due) \<longleftrightarrow> due \<le> clock m \<or> shutdownCtx m"
| "follow_ready m (WaitRestart task run due) \<longleftrightarrow> due \<le> clock m \<or> shutdownCtx m"
| "follow_ready m _ \<longleftrightarrow> True"

definition run_followup :: "nat \<Rightarrow> manager \<Rightarrow> manager" where
  "run_followup i m =
     (if i < length (followups m) \<and> follow_ready m (followups m ! i)
      then follow (followups m ! i)
             (m\<lparr>followups := take i (followups m) @ drop (Suc i) (followups m)\<rparr>)
      else m)"

section \<open>Services\<close>

definition serviceLocked :: "manager \<Rightarrow> string \<Rightarrow> mgrError + taskState" where
  "serviceLocked m taskName =
     (case map_of (tasks m) taskName of
        None \<Rightarrow> Inl (TaskNotFound taskName)
      | Some ts \<Rightarrow> if IsService (TKind (ts_task ts)) then Inr ts else Inl (TaskNotService taskName))"

definition instance_options :: "TriggeredBy \<Rightarrow> int \<Rightarrow> TriggerRunOptions" where
  "instance_options triggeredBy i =
     no_options\<lparr>o_TriggeredBy := Some triggeredBy, o_InstanceIndex := Some i\<rparr>"

definition StartServiceInstances ::
  "string \<Rightarrow> TriggeredBy \<Rightarrow> manager \<Rightarrow> mgrError option \<times> manager" where
  "StartServiceInstances taskName triggeredBy m =
     (case serviceLocked m taskName of
        Inl e \<Rightarrow> (Some e, m)
      | Inr ts \<Rightarrow> (case supervisor ts of
          None \<Rightarrow> (Some NilDereference, panic m)
        | Some s \<Rightarrow>
            if s_stopped s then (None, m)
            else (None, fold (\<lambda>i m. snd (TriggerRunWithOptions taskName (instance_options triggeredBy i) m))
                          (MissingSlots s) m)))"

text \<open>The common shape of the service controls: look the service up under the lock, change its
  state, release the lock, announce a change of its stopped flag, go on.\<close>

definition with_supervisor ::
  "(taskState \<Rightarrow> Supervisor \<Rightarrow> manager \<Rightarrow> mgrError option \<times> manager) \<Rightarrow> string \<Rightarrow> manager
     \<Rightarrow> mgrError option \<times> manager" where
  "with_supervisor f taskName m =
     (case serviceLocked m taskName of
        Inl e \<Rightarrow> (Some e, m)
      | Inr ts \<Rightarrow> (case supervisor ts of
          None \<Rightarrow> (Some NilDereference, panic m) | Some s \<Rightarrow> f ts s m))"

definition StartService :: "string \<Rightarrow> manager \<Rightarrow> mgrError option \<times> manager" where
  "StartService taskName = with_supervisor (\<lambda>ts s m.
     let m1 = put_task taskName (ts\<lparr>supervisor := Some (MarkRunning s), bookkeepingStop := False\<rparr>) m;
         m2 = (if s_stopped s then emit [PublishTasksChanged] m1 else m1)
     in StartServiceInstances taskName TriggeredByAPI m2) taskName"

definition RestartServiceInstances :: "string \<Rightarrow> manager \<Rightarrow> mgrError option \<times> manager" where
  "RestartServiceInstances taskName = with_supervisor (\<lambda>ts s m.
     let hasDeadSlots = (IsAnyFatal s \<or> IsAnyExited s);
         m1 = put_task taskName
           (on_active Cancel (ts\<lparr>supervisor := Some (MarkRunning s), bookkeepingStop := False\<rparr>)) m;
         m2 = (if s_stopped s then emit [PublishTasksChanged] m1 else m1)
     in if s_stopped s \<or> hasDeadSlots then StartServiceInstances taskName TriggeredByAPI m2
        else (None, m2)) taskName"

definition RecycleServiceInstances :: "string \<Rightarrow> manager \<Rightarrow> mgrError option \<times> manager" where
  "RecycleServiceInstances taskName = with_supervisor (\<lambda>ts s m.
     if s_stopped s then (None, m)
     else StartServiceInstances taskName TriggeredByService
            (put_task taskName (on_active Cancel ts) m)) taskName"

definition StopService :: "string \<Rightarrow> manager \<Rightarrow> mgrError option \<times> manager" where
  "StopService taskName = with_supervisor (\<lambda>ts s m.
     let m1 = put_task taskName
           (on_active Cancel (ts\<lparr>supervisor := Some (MarkStopped s), bookkeepingStop := False\<rparr>)) m
     in (None, if \<not> s_stopped s then emit [PublishTasksChanged] m1 else m1)) taskName"

definition ServiceHealthy :: "manager \<Rightarrow> string \<Rightarrow> bool" where
  "ServiceHealthy m taskName =
     (case map_of (tasks m) taskName of
        None \<Rightarrow> False
      | Some ts \<Rightarrow> (case supervisor ts of None \<Rightarrow> False | Some s \<Rightarrow> IsHealthy (clock m) s))"

datatype unrecoverable =
    Recoverable | UnknownTask string | NoSupervisor string | ServiceIsStopped string
  | ServiceIsDown string

definition serviceUnrecoverable :: "manager \<Rightarrow> string \<Rightarrow> unrecoverable" where
  "serviceUnrecoverable m taskName =
     (case map_of (tasks m) taskName of
        None \<Rightarrow> UnknownTask taskName
      | Some ts \<Rightarrow> (case supervisor ts of
          None \<Rightarrow> NoSupervisor taskName
        | Some s \<Rightarrow>
            if s_stopped s then ServiceIsStopped taskName
            else if IsDown s then ServiceIsDown taskName
            else Recoverable))"

text \<open>One turn of the poll loop of \<open>WaitServiceHealthy\<close>: done with or without error, or poll
  again.\<close>

definition wait_healthy_turn :: "manager \<Rightarrow> string \<Rightarrow> unrecoverable option option" where
  "wait_healthy_turn m taskName =
     (if ServiceHealthy m taskName then Some None
      else (case serviceUnrecoverable m taskName of Recoverable \<Rightarrow> None | e \<Rightarrow> Some (Some e)))"

text \<open>\<open>markServiceHealthy\<close>, called by the run's watcher while the run is in flight.\<close>

definition markServiceHealthy :: "string \<Rightarrow> Run \<Rightarrow> manager \<Rightarrow> manager" where
  "markServiceHealthy taskName run m =
     (case taskStateFor m taskName of
        None \<Rightarrow> m
      | Some ts \<Rightarrow> (case supervisor ts of
          None \<Rightarrow> m
        | Some s \<Rightarrow> put_state taskName (ts\<lparr>supervisor := Some (MarkHealthy (InstanceIndex run) s)\<rparr>) m))"

section \<open>The service snapshot\<close>

datatype InstanceState = InstanceRunning | InstanceStopped | InstanceFatal | InstanceRestarting
datatype ServiceState = SvcRunning | SvcStopped | SvcFatal | SvcDegraded

record slotCounts =
  c_running :: int
  c_fatal :: int
  c_exited :: int
  c_failedExits :: int

record InstanceStatus =
  i_Index :: int
  i_State :: InstanceState
  i_StartedAt :: "instant option"
  i_RestartCount :: int
  i_StartFails :: int
  i_LastExitCode :: "int option"

record ServiceSnapshotRec =
  sn_TaskName :: string
  sn_State :: ServiceState
  sn_Desired :: int
  sn_Running :: int
  sn_Instances :: "InstanceStatus list"

definition serviceRollupState :: "bool \<Rightarrow> slotCounts \<Rightarrow> int \<Rightarrow> ServiceState" where
  "serviceRollupState stopped c desired =
     (if stopped then SvcStopped
      else if c_running c \<ge> desired then SvcRunning
      else if c_fatal c + c_exited c \<ge> desired \<and> c_fatal c + c_failedExits c > 0 then SvcFatal
      else if c_exited c \<ge> desired then SvcStopped
      else SvcDegraded)"

definition instance_state :: "bool \<Rightarrow> slotState \<Rightarrow> InstanceState" where
  "instance_state stopped st =
     (if live st then InstanceRunning
      else if stopped \<or> exited st then InstanceStopped
      else if fatal st then InstanceFatal
      else InstanceRestarting)"

definition count_slot :: "bool \<Rightarrow> slotState \<Rightarrow> slotCounts \<Rightarrow> slotCounts" where
  "count_slot stopped st c =
     (case instance_state stopped st of
        InstanceRunning \<Rightarrow> c\<lparr>c_running := c_running c + 1\<rparr>
      | InstanceStopped \<Rightarrow>
          c\<lparr>c_exited := c_exited c + 1,
            c_failedExits := c_failedExits c + (if exitFailed st then 1 else 0)\<rparr>
      | InstanceFatal \<Rightarrow> c\<lparr>c_fatal := c_fatal c + 1\<rparr>
      | InstanceRestarting \<Rightarrow> c)"

definition zero_counts :: slotCounts where
  "zero_counts = \<lparr>c_running = 0, c_fatal = 0, c_exited = 0, c_failedExits = 0\<rparr>"

text \<open>A later active run of the same index overwrites an earlier one in \<open>liveByIdx\<close>.\<close>

definition live_start :: "ActiveRun list \<Rightarrow> int \<Rightarrow> instant option" where
  "live_start ars i =
     map_option ar_startedAt (find (\<lambda>ar. InstanceIndex (ar_run ar) = i) (rev ars))"

definition ServiceSnapshot :: "manager \<Rightarrow> string \<Rightarrow> ServiceSnapshotRec option" where
  "ServiceSnapshot m taskName =
     (case serviceLocked m taskName of
        Inl _ \<Rightarrow> None
      | Inr ts \<Rightarrow> (case supervisor ts of
          None \<Rightarrow> None
        | Some s \<Rightarrow>
            (let stopped = s_stopped s;
                 counts = fold (\<lambda>i. count_slot stopped (slot s i)) (indexes s) zero_counts
             in Some \<lparr>sn_TaskName = taskName,
                  sn_State = serviceRollupState stopped counts (s_instances s),
                  sn_Desired = s_instances s, sn_Running = c_running counts,
                  sn_Instances = map (\<lambda>i.
                    \<lparr>i_Index = i, i_State = instance_state stopped (slot s i),
                     i_StartedAt = (if live (slot s i) then live_start (active ts) i else None),
                     i_RestartCount = attempts (slot s i), i_StartFails = startFails (slot s i),
                     i_LastExitCode = lastExit (slot s i)\<rparr>) (indexes s)\<rparr>)))"

section \<open>Recovery at boot\<close>

record PendingRunsResult =
  Resumed :: int
  Queued :: int
  Skipped :: int
  Failed :: int

definition requeuePendingRun ::
  "string \<Rightarrow> taskState \<Rightarrow> Run \<Rightarrow> manager \<times> PendingRunsResult
     \<Rightarrow> Run option \<times> manager \<times> PendingRunsResult" where
  "requeuePendingRun name ts r mr =
     (case mr of (m, res) \<Rightarrow>
       if int (length (queue ts)) \<ge> MaxQueuedValue (ts_task ts)
       then (let r' = End (Some (ts_task ts)) ReasonQueueFull (-1) (clock m) r
             in (Some r', emit [PersistExisting r'] m, res\<lparr>Failed := Failed res + 1\<rparr>))
       else if cond ts
       then (None, put_task name (signal (ts\<lparr>queue := queue ts @ [r]\<rparr>)) m,
             res\<lparr>Queued := Queued res + 1\<rparr>)
       else (None, panic m, res))"

definition restartOrFailPendingRun ::
  "taskState \<Rightarrow> Run \<Rightarrow> manager \<times> PendingRunsResult
     \<Rightarrow> Run option \<times> manager \<times> PendingRunsResult" where
  "restartOrFailPendingRun ts r mr =
     (case mr of (m, res) \<Rightarrow>
       if int (length (active ts)) < MaxConcurrentValue (ts_task ts)
       then (None, startRun (ts_task ts) r m, res\<lparr>Resumed := Resumed res + 1\<rparr>)
       else (let r' = End (Some (ts_task ts)) ReasonFailed (-1) (clock m) r
             in (Some r', emit [PersistExisting r'] m, res\<lparr>Failed := Failed res + 1\<rparr>)))"

definition resumePendingRun ::
  "string \<Rightarrow> taskState \<Rightarrow> Run \<Rightarrow> manager \<times> PendingRunsResult
     \<Rightarrow> Run option \<times> manager \<times> PendingRunsResult" where
  "resumePendingRun name ts r mr =
     (case mr of (m, res) \<Rightarrow>
       if IsService (TKind (ts_task ts))
       then (let r' = End (Some (ts_task ts)) ReasonFailed (-1) (clock m) r
             in (Some r', emit [PersistExisting r'] m, res\<lparr>Skipped := Skipped res + 1\<rparr>))
       else if OnOverlap (ts_task ts) = PolicyQueue then requeuePendingRun name ts r mr
       else restartOrFailPendingRun ts r mr)"

definition load_one ::
  "Run \<Rightarrow> Run list \<times> manager \<times> PendingRunsResult \<Rightarrow> Run list \<times> manager \<times> PendingRunsResult" where
  "load_one r s =
     (case s of (ended, m, res) \<Rightarrow>
       (case map_of (tasks m) (TaskName r) of
          None \<Rightarrow>
            (let r' = endOrphanedPending (clock m) r
             in (ended @ [r'], emit [PersistExisting r'] m, res\<lparr>Skipped := Skipped res + 1\<rparr>))
        | Some ts \<Rightarrow> (case resumePendingRun (TaskName r) ts r (m, res) of
            (Some r', m', res') \<Rightarrow> (ended @ [r'], m', res')
          | (None, m', res') \<Rightarrow> (ended, m', res'))))"

definition LoadPendingRuns :: "Run list \<Rightarrow> manager \<Rightarrow> PendingRunsResult \<times> manager" where
  "LoadPendingRuns runs m =
     (case fold load_one runs ([], m, \<lparr>Resumed = 0, Queued = 0, Skipped = 0, Failed = 0\<rparr>) of
        (ended, m', res) \<Rightarrow>
          (res, fold (\<lambda>r. publishTerminal EventRunFailed r []) ended m'))"

section \<open>Shutdown\<close>

definition BeginShutdown :: "daemon \<Rightarrow> daemon" where
  "BeginShutdown d = (gate_shutdown (fst d), (snd d)\<lparr>isShutdown := True, shutdownCtx := True\<rparr>)"

definition on_states :: "(taskState \<Rightarrow> taskState) \<Rightarrow> manager \<Rightarrow> manager" where
  "on_states f m = m\<lparr>tasks := map (\<lambda>(k, ts). (k, f ts)) (tasks m),
     removedTasks := map (\<lambda>(k, ts). (k, f ts)) (removedTasks m)\<rparr>"

text \<open>\<open>ShutdownWithDeadline\<close> up to its wait: refuse, cancel every run, wake every queue.\<close>

definition shutdown_cancel :: "daemon \<Rightarrow> daemon" where
  "shutdown_cancel d =
     on_manager (on_states (\<lambda>ts.
       let ts' = on_active Cancel ts in if cond ts' then signal ts' else ts')) (BeginShutdown d)"

definition forceKillSurvivors :: "manager \<Rightarrow> manager" where
  "forceKillSurvivors =
     on_states (on_active (\<lambda>ar. if ar_forceKill ar then ar\<lparr>ar_killed := True\<rparr> else ar))"

text \<open>The deadline passes while goroutines are still running.\<close>

definition deadline_passed :: "manager \<Rightarrow> manager" where
  "deadline_passed m = forceKillSurvivors (m\<lparr>deadlineExceeded := True\<rparr>)"

text \<open>What \<open>wg.Wait()\<close> waits for: no run, drain or follow-up goroutine is left. (A tail of orphaned
  runs, its caller's own, is counted too.)\<close>

definition drained :: "manager \<Rightarrow> bool" where
  "drained m \<longleftrightarrow> followups m = [] \<and> tails m = [] \<and>
     list_all (\<lambda>(k, ts). active ts = [] \<and> drain ts = DrainGone) (allTaskStates m)"

end
