(* ===== verification/Manager_Inv.thy ===== *)
theory Manager_Inv
  imports Manager_Ops
begin

text \<open>
  The invariant of the task manager and its preservation by every operation: what holds of one
  task state (\<open>state_ok\<close>), of the whole manager (\<open>mgr_inv\<close>), and of the gate and the manager
  together (\<open>daemon_inv\<close>), with the events the environment can cause (\<open>daemon_step\<close>).
\<close>

section \<open>One task state\<close>

definition svc_runs :: "ActiveRun list \<Rightarrow> int list" where
  "svc_runs ars =
     map (InstanceIndex \<circ> ar_run) (filter (\<lambda>ar. IsService (TKind (ar_task ar))) ars)"

definition run_ok :: "string \<Rightarrow> Run \<Rightarrow> bool" where
  "run_ok k r \<longleftrightarrow> TaskName r = k \<and> Status r \<noteq> PhaseEnded \<and> 0 \<le> RetryAttempt r"

text \<open>A service state has a supervisor whose live slots are exactly the slots of its active
  service runs.\<close>

fun sup_match :: "bool \<Rightarrow> int list \<Rightarrow> Supervisor option \<Rightarrow> bool" where
  "sup_match service held None \<longleftrightarrow> \<not> service \<and> held = []"
| "sup_match service held (Some s) \<longleftrightarrow> sup_inv s \<and> pool.in_step held s"

definition sup_ok_state :: "taskState \<Rightarrow> bool" where
  "sup_ok_state ts \<longleftrightarrow>
     sup_match (IsService (TKind (ts_task ts))) (svc_runs (active ts)) (supervisor ts)"

definition full :: "taskState \<Rightarrow> bool" where
  "full ts \<longleftrightarrow> int (length (active ts)) \<ge> MaxConcurrentValue (ts_task ts)"

text \<open>What the config loader guarantees (\<open>applyServiceDefaults\<close>): a service never queues.\<close>

definition task_ok :: "Task \<Rightarrow> bool" where
  "task_ok task \<longleftrightarrow> IsService (TKind task) \<longrightarrow> OnOverlap task \<noteq> PolicyQueue"

text \<open>No wake-up is lost: a parked drain goroutine has nothing to do, and waiting runs have a
  drain goroutine (until shutdown, which leaves them to the next boot).\<close>

definition queue_ok :: "bool \<Rightarrow> taskState \<Rightarrow> bool" where
  "queue_ok sd ts \<longleftrightarrow>
     (OnOverlap (ts_task ts) = PolicyQueue \<longrightarrow> cond ts)
     \<and> (queue ts \<noteq> [] \<longrightarrow> OnOverlap (ts_task ts) = PolicyQueue \<and> \<not> removed ts)
     \<and> (OnOverlap (ts_task ts) = PolicyQueue \<and> \<not> removed ts \<and> \<not> sd \<longrightarrow> drain ts \<noteq> DrainGone)
     \<and> (drain ts = DrainParked \<longrightarrow>
          \<not> removed ts \<and> OnOverlap (ts_task ts) = PolicyQueue \<and> (queue ts = [] \<or> full ts))
     \<and> (drain ts \<noteq> DrainGone \<longrightarrow> cond ts)"

definition state_ok :: "bool \<Rightarrow> string \<Rightarrow> taskState \<Rightarrow> bool" where
  "state_ok sd k ts \<longleftrightarrow>
     Name (ts_task ts) = k \<and> task_ok (ts_task ts)
     \<and> (\<forall>ar\<in>set (active ts). Name (ar_task ar) = k \<and> run_ok k (ar_run ar))
     \<and> (\<forall>r\<in>set (queue ts). run_ok k r)
     \<and> sup_ok_state ts \<and> queue_ok sd ts"

lemma signal_simps [simp]:
  "ts_task (signal ts) = ts_task ts" "active (signal ts) = active ts"
  "queue (signal ts) = queue ts" "cond (signal ts) = cond ts"
  "supervisor (signal ts) = supervisor ts" "removed (signal ts) = removed ts"
  "drain (signal ts) \<noteq> DrainParked" "drain (signal ts) = DrainGone \<longleftrightarrow> drain ts = DrainGone"
  by (auto simp: signal_def)

lemma sup_ok_cong:
  "supervisor ts' = supervisor ts \<Longrightarrow> svc_runs (active ts') = svc_runs (active ts) \<Longrightarrow>
   TKind (ts_task ts') = TKind (ts_task ts) \<Longrightarrow> sup_ok_state ts' = sup_ok_state ts"
  by (simp add: sup_ok_state_def)

lemma svc_runs_simps [simp]:
  "svc_runs [] = []"
  "svc_runs (as @ bs) = svc_runs as @ svc_runs bs"
  "svc_runs (ar # ars) =
     (if IsService (TKind (ar_task ar)) then [InstanceIndex (ar_run ar)] else []) @ svc_runs ars"
  by (simp_all add: svc_runs_def)

text \<open>Functions on active runs that keep the task, the index and the shape of the run.\<close>

definition keeps :: "(ActiveRun \<Rightarrow> ActiveRun) \<Rightarrow> bool" where
  "keeps f \<longleftrightarrow> (\<forall>ar. ar_task (f ar) = ar_task ar \<and> ar_run (f ar) = ar_run ar)"

lemma svc_runs_map: "keeps f \<Longrightarrow> svc_runs (map f ars) = svc_runs ars"
  by (induction ars) (auto simp: keeps_def)

lemma keeps_Cancel [simp]: "keeps Cancel"
  by (simp add: keeps_def Cancel_def)

lemma keeps_kill [simp]:
  "keeps (\<lambda>ar. if ar_forceKill ar then ar\<lparr>ar_killed := True\<rparr> else ar)"
  "keeps (\<lambda>ar. ar\<lparr>ar_forceKill := True\<rparr>)"
  by (simp_all add: keeps_def)

lemma on_active_simps [simp]:
  "ts_task (on_active f ts) = ts_task ts" "queue (on_active f ts) = queue ts"
  "cond (on_active f ts) = cond ts" "supervisor (on_active f ts) = supervisor ts"
  "removed (on_active f ts) = removed ts" "drain (on_active f ts) = drain ts"
  "active (on_active f ts) = map f (active ts)"
  by (simp_all add: on_active_def)

lemma state_ok_on_active: "keeps f \<Longrightarrow> state_ok sd k ts \<Longrightarrow> state_ok sd k (on_active f ts)"
  by (auto simp: state_ok_def queue_ok_def full_def sup_ok_state_def svc_runs_map keeps_def)

lemma state_ok_signal: "state_ok sd k ts \<Longrightarrow> state_ok sd k (signal ts)"
  by (auto simp: state_ok_def queue_ok_def full_def sup_ok_state_def)

lemma state_ok_shutdown: "state_ok sd k ts \<Longrightarrow> state_ok True k ts"
  by (auto simp: state_ok_def queue_ok_def)

lemma cancel_oldest_keeps:
  "map ar_run (cancel_oldest n ars) = map ar_run ars \<and>
   map ar_task (cancel_oldest n ars) = map ar_task ars"
  by (induction n ars rule: cancel_oldest.induct) (auto simp: Cancel_def)

lemma svc_runs_cong:
  "map ar_run as = map ar_run bs \<Longrightarrow> map ar_task as = map ar_task bs \<Longrightarrow> svc_runs as = svc_runs bs"
proof (induction as arbitrary: bs)
  case (Cons a as)
  then obtain b bs' where b: "bs = b # bs'" by (cases bs) auto
  with Cons.prems have "svc_runs as = svc_runs bs'" by (intro Cons.IH) simp_all
  with b Cons.prems show ?case by simp
qed simp

lemma active_cong:
  fixes as bs :: "ActiveRun list"
  assumes "map ar_run as = map ar_run bs" "map ar_task as = map ar_task bs"
  shows "(\<forall>ar\<in>set as. P (ar_task ar) \<and> Q (ar_run ar)) \<longleftrightarrow> (\<forall>ar\<in>set bs. P (ar_task ar) \<and> Q (ar_run ar))"
proof -
  have "(\<forall>ar\<in>set xs. P (ar_task ar) \<and> Q (ar_run ar)) \<longleftrightarrow>
      list_all P (map ar_task xs) \<and> list_all Q (map ar_run xs)" for xs :: "ActiveRun list"
    by (auto simp: list_all_iff)
  then show ?thesis by (simp only: assms)
qed

lemma cancelExcessRuns_simps [simp]:
  "ts_task (cancelExcessRuns ts n) = ts_task ts" "queue (cancelExcessRuns ts n) = queue ts"
  "cond (cancelExcessRuns ts n) = cond ts" "supervisor (cancelExcessRuns ts n) = supervisor ts"
  "removed (cancelExcessRuns ts n) = removed ts" "drain (cancelExcessRuns ts n) = drain ts"
  by (simp_all add: cancelExcessRuns_def)

lemma state_ok_cancelExcess: "state_ok sd k ts \<Longrightarrow> state_ok sd k (cancelExcessRuns ts n)"
proof -
  assume ok: "state_ok sd k ts"
  let ?as = "active (cancelExcessRuns ts n)"
  have m: "map ar_run ?as = map ar_run (active ts)" "map ar_task ?as = map ar_task (active ts)"
    by (simp_all add: cancelExcessRuns_def cancel_oldest_keeps)
  then have "length ?as = length (active ts)" by (metis length_map)
  with ok svc_runs_cong [OF m] active_cong [OF m, of "\<lambda>t. Name t = k" "run_ok k"]
  sup_ok_cong [of "cancelExcessRuns ts n" ts]
  show ?thesis by (simp add: state_ok_def queue_ok_def full_def)
qed

lemma state_ok_evaluate:
  assumes "state_ok sd k ts" "run_ok k run" "\<not> removed ts" "\<not> sd"
  shows "\<exists>a e ts'. evaluateConcurrency ts run n = Some (a, e, ts') \<and> state_ok sd k ts' \<and>
    \<not> removed ts' \<and> ts_task ts' = ts_task ts"
proof (cases "int (length (active ts)) < n \<and> \<not> (OnOverlap (ts_task ts) = PolicyQueue \<and> queue ts \<noteq> [])")
  case True
  then show ?thesis using assms by (simp add: evaluateConcurrency_def)
next
  case False
  show ?thesis
  proof (cases "OnOverlap (ts_task ts)")
    case PolicyQueue
    have "state_ok sd k (signal (ts\<lparr>queue := queue ts @ [run]\<rparr>))"
      using assms PolicyQueue by (auto simp: state_ok_def queue_ok_def full_def sup_ok_state_def)
    moreover have "cond ts" using assms PolicyQueue by (simp add: state_ok_def queue_ok_def)
    ultimately show ?thesis
      using False PolicyQueue assms by (auto simp: evaluateConcurrency_def Let_def)
  next
    case PolicySkip
    then show ?thesis using False assms by (auto simp: evaluateConcurrency_def Let_def)
  next
    case PolicyKill
    then show ?thesis using False assms state_ok_cancelExcess
      by (auto simp: evaluateConcurrency_def Let_def)
  next
    case PolicyUnset
    then show ?thesis using False assms by (auto simp: evaluateConcurrency_def Let_def)
  qed
qed

text \<open>Adding an active run: a plain run anywhere, a service run on the slot just reserved.\<close>

definition fresh_active :: "manager \<Rightarrow> Task \<Rightarrow> Run \<Rightarrow> ActiveRun" where
  "fresh_active m task run = \<lparr>ar_run = run, ar_task = task, ar_startedAt = clock m,
     ar_cancelled = False, ar_ctxDone = False, ar_forceKill = False, ar_killed = False\<rparr>"

lemma fresh_active_simps [simp]:
  "ar_run (fresh_active m t r) = r" "ar_task (fresh_active m t r) = t"
  by (simp_all add: fresh_active_def)

lemma startRun_alt:
  "startRun task run m =
     (case map_of (tasks m) (Name task) of
        None \<Rightarrow> panic m
      | Some ts \<Rightarrow> put_task (Name task) (ts\<lparr>active := active ts @ [fresh_active m task run]\<rparr>) m)"
  by (simp add: startRun_def fresh_active_def split: option.split)

lemma state_ok_start_plain:
  "state_ok sd k ts \<Longrightarrow> run_ok k run \<Longrightarrow> Name task = k \<Longrightarrow> \<not> IsService (TKind task) \<Longrightarrow>
     state_ok sd k (ts\<lparr>active := active ts @ [fresh_active m task run]\<rparr>)"
  by (auto simp: state_ok_def queue_ok_def full_def sup_ok_state_def)

lemma sup_step_Reserve: "sup_inv s \<Longrightarrow> Reserve r s = Inr (i, s') \<Longrightarrow> sup_inv s'"
  using sup_step_inv [of s "EReserve r"] by simp

lemma state_ok_start_service:
  assumes "state_ok sd k ts" "run_ok k run" "supervisor ts = Some s"
    "Reserve req s = Inr (InstanceIndex run, s')" "IsService (TKind (ts_task ts))"
  shows "state_ok sd k (ts\<lparr>supervisor := Some s',
           active := active ts @ [fresh_active m (ts_task ts) run]\<rparr>)"
proof -
  have "pool.in_step (svc_runs (active ts)) s" "sup_inv s"
    using assms by (simp_all add: state_ok_def sup_ok_state_def)
  with assms(4) have "pool.in_step (svc_runs (active ts) @ [InstanceIndex run]) s'" "sup_inv s'"
    by (auto intro: pool.in_step_reserve sup_step_Reserve)
  with assms show ?thesis
    by (auto simp: state_ok_def queue_ok_def full_def sup_ok_state_def)
qed

text \<open>Taking an active run out.\<close>

lemma find_split:
  "find P xs = Some a \<Longrightarrow> \<exists>as bs. xs = as @ a # bs \<and> P a \<and> (\<forall>x\<in>set as. \<not> P x)"
proof (induction xs)
  case (Cons x xs)
  show ?case
  proof (cases "P x")
    case True
    with Cons.prems show ?thesis by (intro exI [of _ "[]"] exI [of _ xs]) simp
  next
    case False
    with Cons.prems Cons.IH obtain as bs where "xs = as @ a # bs \<and> P a \<and> (\<forall>x\<in>set as. \<not> P x)"
      by auto
    with False show ?thesis by (intro exI [of _ "x # as"] exI [of _ bs]) simp
  qed
qed simp

lemma remove_first_split:
  "\<forall>x\<in>set as. \<not> P x \<Longrightarrow> P a \<Longrightarrow> remove_first P (as @ a # bs) = as @ bs"
  by (induction as) auto

lemma update_first_split:
  "\<forall>x\<in>set as. \<not> P x \<Longrightarrow> P a \<Longrightarrow> update_first P f (as @ a # bs) = Some (as @ f a # bs)"
  by (induction as) auto

lemma update_first_Some:
  "update_first P f xs = Some ys \<Longrightarrow> \<exists>as a bs. xs = as @ a # bs \<and> ys = as @ f a # bs \<and> P a"
proof (induction xs arbitrary: ys)
  case (Cons x xs)
  show ?case
  proof (cases "P x")
    case True
    with Cons.prems show ?thesis by (intro exI [of _ "[]"] exI [of _ x] exI [of _ xs]) simp
  next
    case False
    with Cons.prems obtain zs where z: "update_first P f xs = Some zs" "ys = x # zs" by auto
    with Cons.IH obtain as a bs where "xs = as @ a # bs" "zs = as @ f a # bs" "P a" by blast
    with z show ?thesis by (intro exI [of _ "x # as"] exI [of _ a] exI [of _ bs]) simp
  qed
qed simp

section \<open>Operations on one state\<close>

lemma sup_events:
  "sup_inv s \<Longrightarrow> sup_inv (fst (RecordExit i d n f s))"
  "sup_inv s \<Longrightarrow> sup_inv (SetLastExitCode i c s)"
  "sup_inv s \<Longrightarrow> \<not> live (slot s i) \<Longrightarrow> sup_inv (MarkExited i f s)"
  "sup_inv s \<Longrightarrow> live (slot s i) \<Longrightarrow> sup_inv (MarkLive now i g s)"
  "sup_inv s \<Longrightarrow> live (slot s i) \<Longrightarrow> sup_inv (MarkHealthy i s)"
  "sup_inv s \<Longrightarrow> sup_inv (SetInstances k s)"
  "sup_inv s \<Longrightarrow> sup_inv (SetHealthyAfter d s)"
  "sup_inv s \<Longrightarrow> sup_inv (MarkStopped s)"
  "sup_inv s \<Longrightarrow> sup_inv (MarkRunning s)"
  using sup_step_inv [of s "EExit i d n f"] sup_step_inv [of s "ESetLastExitCode i c"]
    sup_step_inv [of s "EMarkExited i f"] sup_step_inv [of s "EMarkLive now i g"]
    sup_step_inv [of s "EMarkHealthy i"] sup_step_inv [of s "ESetInstances k"]
    sup_step_inv [of s "ESetHealthyAfter d"] sup_step_inv [of s EMarkStopped]
    sup_step_inv [of s EMarkRunning]
  by simp_all

lemma live_frame [simp]:
  "live (slot (SetLastExitCode i c s) j) = live (slot s j)"
  "live (slot (MarkExited i f s) j) = live (slot s j)"
  "live (slot (MarkLive now i g s) j) = live (slot s j)"
  "live (slot (MarkHealthy i s) j) = live (slot s j)"
  "live (slot (MarkRunning s) j) = live (slot s j)"
  by (simp_all add: SetLastExitCode_def MarkExited_def MarkLive_def MarkHealthy_def)

lemma in_step_live_cong:
  "(\<And>i. live (slot s' i) = live (slot s i)) \<Longrightarrow> pool.in_step act s' = pool.in_step act s"
  by (simp add: pool.in_step_def)

lemma retire_instance_ok:
  assumes inv: "sup_inv s" and step: "pool.in_step act s"
  shows "sup_inv (snd (retire_instance task run d reason code s)) \<and>
    pool.in_step (remove1 (InstanceIndex run) act) (snd (retire_instance task run d reason code s))"
proof -
  define fs where "fs = (IsFailedExecution reason \<or> reason = ReasonSuccess)"
  define n where "n = OrDefault (RestartAttempts task) DefaultStartRetries"
  define i where "i = InstanceIndex run"
  obtain s1 nx fn where re: "RecordExit i d n fs s = (s1, nx, fn)" by (metis prod_cases3)
  have s1: "s1 = fst (RecordExit i d n fs s)" using re by simp
  have inv1: "sup_inv s1" unfolding s1 by (rule sup_events(1) [OF inv])
  have step1: "pool.in_step (remove1 i act) s1"
    using pool.in_step_release [OF step, of i "(d, n, fs)"] s1 by (simp add: release_slot_def)
  have nl: "\<not> live (slot s1 i)" unfolding s1 by (simp add: live_RecordExit)
  let ?s2 = "SetLastExitCode i code s1"
  have inv2: "sup_inv ?s2" and nl2: "\<not> live (slot ?s2 i)" using sup_events(2) inv1 nl by simp_all
  have r: "snd (retire_instance task run d reason code s) =
      (if fn then ?s2 else markExitedIfDone task run reason code ?s2)"
    using re by (simp add: retire_instance_def Let_def fs_def n_def i_def)
  have inv3: "sup_inv (markExitedIfDone task run reason code ?s2)"
    using inv2 nl2 by (auto simp: markExitedIfDone_def Let_def i_def intro: sup_events(3))
  have "live (slot (markExitedIfDone task run reason code ?s2) j) = live (slot s1 j)" for j
    by (simp add: markExitedIfDone_def Let_def)
  with step1 have "pool.in_step (remove1 i act) (markExitedIfDone task run reason code ?s2)"
    "pool.in_step (remove1 i act) ?s2"
    by (simp_all add: pool.in_step_def)
  with r inv2 inv3 show ?thesis by (simp add: i_def)
qed

lemma remove1_map_split: "distinct (A @ x # B) \<Longrightarrow> remove1 x (A @ x # B) = A @ B"
  by (induction A) auto

text \<open>What \<open>retireRun\<close> makes of the state of the run's task.\<close>

definition retired_state ::
  "ActiveRun \<Rightarrow> Run \<Rightarrow> duration \<Rightarrow> EndReason \<Rightarrow> int \<Rightarrow> taskState \<Rightarrow> taskState" where
  "retired_state ar run d reason code ts =
     (let ts1 = ts\<lparr>active := remove_first (\<lambda>a. ID (ar_run a) = ID run) (active ts)\<rparr>;
          ts2 = ts1\<lparr>supervisor := (if IsService (TKind (ar_task ar))
             then map_option (\<lambda>s. snd (retire_instance (ar_task ar) run d reason code s)) (supervisor ts1)
             else supervisor ts1)\<rparr>
      in if cond ts2 then signal ts2 else ts2)"

lemma state_ok_retired:
  assumes ok: "state_ok sd k ts"
    and ar: "find (\<lambda>a. ID (ar_run a) = ID run) (active ts) = Some ar"
    and idx: "InstanceIndex run = InstanceIndex (ar_run ar)"
  shows "state_ok sd k (retired_state ar run d reason code ts)"
proof -
  obtain as bs where sp: "active ts = as @ ar # bs" "\<forall>a\<in>set as. ID (ar_run a) \<noteq> ID run"
    "ID (ar_run ar) = ID run"
    using find_split [OF ar] by auto
  then have act: "remove_first (\<lambda>a. ID (ar_run a) = ID run) (active ts) = as @ bs"
    by (simp add: remove_first_split)
  have sup: "sup_match (IsService (TKind (ts_task ts))) (svc_runs as @ svc_runs bs)
      (if IsService (TKind (ar_task ar))
       then map_option (\<lambda>s. snd (retire_instance (ar_task ar) run d reason code s)) (supervisor ts)
       else supervisor ts)"
  proof (cases "IsService (TKind (ar_task ar))")
    case False
    then show ?thesis using ok sp by (simp add: state_ok_def sup_ok_state_def)
  next
    case True
    with ok sp obtain s where s: "supervisor ts = Some s" "sup_inv s"
      "pool.in_step (svc_runs as @ InstanceIndex run # svc_runs bs) s"
      by (cases "supervisor ts") (auto simp: state_ok_def sup_ok_state_def idx)
    from retire_instance_ok [OF s(2,3), of "ar_task ar" run d reason code]
      remove1_map_split [of "svc_runs as" "InstanceIndex run" "svc_runs bs"] s(3)
    show ?thesis using True s(1) by (simp add: pool.in_step_def del: set_remove1_eq)
  qed
  let ?t = "retired_state ar run d reason code ts"
  have t: "ts_task ?t = ts_task ts" "queue ?t = queue ts" "cond ?t = cond ts"
    "removed ?t = removed ts" "active ?t = as @ bs"
    "supervisor ?t = (if IsService (TKind (ar_task ar))
       then map_option (\<lambda>s. snd (retire_instance (ar_task ar) run d reason code s)) (supervisor ts)
       else supervisor ts)"
    "drain ?t = DrainGone \<longleftrightarrow> drain ts = DrainGone"
    "cond ts \<Longrightarrow> drain ?t \<noteq> DrainParked" "\<not> cond ts \<Longrightarrow> drain ?t = drain ts"
    by (simp_all add: retired_state_def Let_def act)
  have q: "queue_ok sd ts" using ok by (simp add: state_ok_def)
  then have "queue_ok sd ?t"
    using t(7-9) by (cases "cond ts") (simp_all add: queue_ok_def t(1-5))
  moreover have "sup_ok_state ?t" using sup by (simp add: sup_ok_state_def t(1,5,6))
  ultimately show ?thesis using ok sp(1) by (simp add: state_ok_def t(1,2,5))
qed

lemma finalize_simps:
  "finalizeOrphanedQueue now ts =
     (map (endOrphanedPending now) (queue ts), map PersistExisting (map (endOrphanedPending now) (queue ts)),
      ts\<lparr>queue := []\<rparr>)"
  by (simp add: finalizeOrphanedQueue_def Let_def)

lemma install_supervisor_simps [simp]:
  "ts_task (install_supervisor t ts) = ts_task ts" "active (install_supervisor t ts) = active ts"
  "queue (install_supervisor t ts) = queue ts" "cond (install_supervisor t ts) = cond ts"
  "removed (install_supervisor t ts) = removed ts" "drain (install_supervisor t ts) = drain ts"
  by (auto simp: install_supervisor_def upsertSupervisor_def Let_def split: option.splits)

lemma install_supervisor_ok:
  assumes "sup_match b held (supervisor ts)"
  shows "sup_match (IsService (TKind task)) held (supervisor (install_supervisor task ts))"
proof (cases "supervisor ts")
  case None
  with assms have "held = []" by simp
  moreover have "pool.in_step [] (NewSupervisor n i h st)" for n i h st
    by (simp add: pool.in_step_def) (simp add: NewSupervisor_def slot_def)
  ultimately show ?thesis using None
    by (auto simp: install_supervisor_def upsertSupervisor_def Let_def sup_inv_new)
next
  case (Some s)
  with assms have s: "sup_inv s" "pool.in_step held s" by auto
  have h: "pool.in_step held (MarkStopped s)"
    "pool.in_step held (SetHealthyAfter h (SetInstances n s))"
    "pool.in_step held (MarkRunning (SetHealthyAfter h (SetInstances n s)))" for h n
    using s by (simp_all add: in_step_live_cong [of "MarkStopped s" s] pool.in_step_def)
  have i: "sup_inv (MarkStopped s)" "sup_inv (SetHealthyAfter h (SetInstances n s))"
    "sup_inv (MarkRunning (SetHealthyAfter h (SetInstances n s)))" for h n
    by (intro sup_events s(1))+
  show ?thesis using Some h i
    by (auto simp: install_supervisor_def upsertSupervisor_def Let_def)
qed

text \<open>What the definition is installed over: an existing, a revived or a new state.\<close>

definition install_ready :: "string \<Rightarrow> taskState \<Rightarrow> bool" where
  "install_ready k ts \<longleftrightarrow> \<not> removed ts
     \<and> (\<forall>ar\<in>set (active ts). Name (ar_task ar) = k \<and> run_ok k (ar_run ar))
     \<and> (\<forall>r\<in>set (queue ts). run_ok k r)
     \<and> (\<exists>b. sup_match b (svc_runs (active ts)) (supervisor ts))
     \<and> (queue ts \<noteq> [] \<longrightarrow> cond ts) \<and> (drain ts \<noteq> DrainGone \<longrightarrow> cond ts)"

lemma install_ready_cases:
  "state_ok sd k ts \<Longrightarrow> \<not> removed ts \<Longrightarrow> install_ready k ts"
  "state_ok sd k ts \<Longrightarrow> install_ready k (ts\<lparr>removed := False\<rparr>)"
  "install_ready k (new_state task)"
  by (auto simp: install_ready_def state_ok_def sup_ok_state_def queue_ok_def new_state_def)

lemma state_ok_install:
  assumes ok: "install_ready (Name task) ts" and tok: "task_ok task"
    and r: "install_queue now task (install_supervisor task (ts\<lparr>ts_task := task\<rparr>)) = (runs, es, ts')"
  shows "state_ok sd (Name task) ts' \<and> \<not> removed ts'"
proof -
  let ?t = "install_supervisor task (ts\<lparr>ts_task := task\<rparr>)"
  have nr: "\<not> removed ts" using ok by (simp add: install_ready_def)
  obtain b where "sup_match b (svc_runs (active ts)) (supervisor ts)"
    using ok by (auto simp: install_ready_def)
  then have "sup_match (IsService (TKind task)) (svc_runs (active ts)) (supervisor ?t)"
    by (intro install_supervisor_ok [of b]) simp
  then have sup: "sup_ok_state ts'" if "ts_task ts' = task" "active ts' = active ts"
    "supervisor ts' = supervisor ?t"
    by (simp add: sup_ok_state_def that)
  have c: "queue ts \<noteq> [] \<Longrightarrow> cond ts" "drain ts \<noteq> DrainGone \<Longrightarrow> cond ts"
    using ok by (simp_all add: install_ready_def)
  consider "OnOverlap task = PolicyQueue" | "OnOverlap task \<noteq> PolicyQueue" "cond ts"
    | "OnOverlap task \<noteq> PolicyQueue" "\<not> cond ts" by blast
  then have all: "(ts_task ts' = task \<and> active ts' = active ts \<and> supervisor ts' = supervisor ?t \<and>
      removed ts' = removed ts) \<and> queue_ok sd ts' \<and> set (queue ts') \<subseteq> set (queue ts)"
  proof cases
    case 1
    then have ts': "ts' = signal (?t\<lparr>cond := True,
        drain := (if drain ?t = DrainGone then DrainReady else drain ?t)\<rparr>)"
      using r by (simp add: install_queue_def)
    show ?thesis
      using nr 1 unfolding ts' by (simp add: queue_ok_def)
  next
    case 2
    then have ts': "ts' = signal (?t\<lparr>queue := []\<rparr>)"
      using r by (simp add: install_queue_def finalize_simps)
    show ?thesis
      using 2 unfolding ts' by (simp add: queue_ok_def)
  next
    case 3
    then have ts': "ts' = ?t" using r by (simp add: install_queue_def)
    show ?thesis
      using 3 c unfolding ts' by (auto simp: queue_ok_def)
  qed
  then have t: "ts_task ts' = task" "active ts' = active ts" "supervisor ts' = supervisor ?t"
    "removed ts' = removed ts" by simp_all
  from all ok sup [OF t(1-3)] nr t tok show ?thesis by (auto simp: state_ok_def install_ready_def)
qed

section \<open>The manager\<close>

fun follow_ok :: "followup \<Rightarrow> bool" where
  "follow_ok (FollowRetry task run) \<longleftrightarrow> 0 \<le> RetryAttempt run"
| "follow_ok (WaitRetry task run due) \<longleftrightarrow> 0 \<le> RetryAttempt run"
| "follow_ok _ \<longleftrightarrow> True"

definition keys_of :: "(string \<times> 'a) list \<Rightarrow> string set" where
  "keys_of al = fst ` set al"

definition mgr_inv :: "manager \<Rightarrow> bool" where
  "mgr_inv m \<longleftrightarrow>
     \<not> panicked m
     \<and> distinct (map fst (tasks m)) \<and> distinct (map fst (removedTasks m))
     \<and> keys_of (tasks m) \<inter> keys_of (removedTasks m) = {}
     \<and> (\<forall>(k, ts)\<in>set (tasks m). state_ok (isShutdown m) k ts \<and> \<not> removed ts)
     \<and> (\<forall>(k, ts)\<in>set (removedTasks m). state_ok (isShutdown m) k ts \<and> removed ts \<and> active ts \<noteq> [])
     \<and> (\<forall>f\<in>set (followups m). follow_ok f)"

lemma set_AList_update: "set (AList.update k v al) \<subseteq> insert (k, v) (set al)"
  by (induction al) auto

lemma AList_update_twice [simp]: "AList.update k v (AList.update k w al) = AList.update k v al"
  by (induction al) auto

lemma keys_update [simp]: "keys_of (AList.update k v al) = insert k (keys_of al)"
  unfolding keys_of_def by (induction al) auto

lemma keys_delete [simp]: "keys_of (AList.delete k al) = keys_of al - {k}"
  by (auto simp: keys_of_def AList.delete_eq image_iff)

lemma set_AList_delete: "set (AList.delete k al) = {x \<in> set al. fst x \<noteq> k}"
  by (auto simp: AList.delete_eq)

lemma map_of_None_keys: "map_of al k = None \<longleftrightarrow> k \<notin> keys_of al"
  by (simp add: keys_of_def map_of_eq_None_iff)

lemma mgr_inv_emit [simp]: "mgr_inv (emit es m) = mgr_inv m"
  by (simp add: mgr_inv_def emit_def)

lemma emit_frame [simp]:
  "tasks (emit es m) = tasks m" "removedTasks (emit es m) = removedTasks m"
  "clock (emit es m) = clock m" "isShutdown (emit es m) = isShutdown m"
  "followups (emit es m) = followups m" "deadlineExceeded (emit es m) = deadlineExceeded m"
  "schedulePaused (emit es m) = schedulePaused m" "taskStateFor (emit es m) = taskStateFor m"
  "shutdownCtx (emit es m) = shutdownCtx m" "minted (emit es m) = minted m"
  "ulid (emit es m) = ulid m" "panicked (emit es m) = panicked m" "float_ok (emit es m) = float_ok m"
  by (auto simp: emit_def taskStateFor_def fun_eq_iff split: option.splits)

lemma put_task_frame [simp]:
  "removedTasks (put_task k ts m) = removedTasks m" "clock (put_task k ts m) = clock m"
  "isShutdown (put_task k ts m) = isShutdown m" "followups (put_task k ts m) = followups m"
  "map_of (tasks (put_task k ts m)) = (map_of (tasks m))(k \<mapsto> ts)"
  "shutdownCtx (put_task k ts m) = shutdownCtx m" "panicked (put_task k ts m) = panicked m"
  "effects (put_task k ts m) = effects m" "minted (put_task k ts m) = minted m"
  "ulid (put_task k ts m) = ulid m" "deadlineExceeded (put_task k ts m) = deadlineExceeded m"
  by (simp_all add: put_task_def map_of_AList_update)

lemma mint_frame [simp]:
  "tasks (snd (mint m)) = tasks m" "removedTasks (snd (mint m)) = removedTasks m"
  "clock (snd (mint m)) = clock m" "isShutdown (snd (mint m)) = isShutdown m"
  "followups (snd (mint m)) = followups m" "mgr_inv (snd (mint m)) = mgr_inv m"
  by (simp_all add: mint_def mgr_inv_def)

lemma inv_lookup:
  assumes "mgr_inv m" "map_of (tasks m) k = Some ts"
  shows "state_ok (isShutdown m) k ts" "\<not> removed ts" "Name (ts_task ts) = k"
  using assms map_of_SomeD [OF assms(2)] by (auto simp: mgr_inv_def state_ok_def)

lemma inv_lookup_removed:
  assumes "mgr_inv m" "map_of (removedTasks m) k = Some ts"
  shows "state_ok (isShutdown m) k ts" "removed ts" "active ts \<noteq> []" "Name (ts_task ts) = k"
  using assms map_of_SomeD [OF assms(2)] by (auto simp: mgr_inv_def state_ok_def)

lemma inv_state_for:
  assumes "mgr_inv m" "taskStateFor m k = Some ts"
  shows "state_ok (isShutdown m) k ts" "Name (ts_task ts) = k"
  using assms inv_lookup inv_lookup_removed
  by (auto simp: taskStateFor_def split: option.splits)

lemma inv_put_fresh:
  assumes "mgr_inv m" "k \<notin> keys_of (removedTasks m)" "state_ok (isShutdown m) k ts" "\<not> removed ts"
  shows "mgr_inv (put_task k ts m)"
  using assms set_AList_update [of k ts "tasks m"]
  by (auto simp: mgr_inv_def put_task_def distinct_update)

lemma inv_put_task:
  assumes "mgr_inv m" "map_of (tasks m) k \<noteq> None" "state_ok (isShutdown m) k ts" "\<not> removed ts"
  shows "mgr_inv (put_task k ts m)"
proof (rule inv_put_fresh)
  show "k \<notin> keys_of (removedTasks m)"
    using assms(1,2) by (auto simp: mgr_inv_def map_of_None_keys)
qed (use assms in auto)

lemma inv_put_removed:
  assumes "mgr_inv m" "k \<notin> keys_of (tasks m)" "state_ok (isShutdown m) k ts" "removed ts"
    "active ts \<noteq> []"
  shows "mgr_inv (m\<lparr>removedTasks := AList.update k ts (removedTasks m)\<rparr>)"
  using assms set_AList_update [of k ts "removedTasks m"]
  by (auto simp: mgr_inv_def distinct_update)

lemma inv_put_state:
  assumes "mgr_inv m" "taskStateFor m k = Some ts0" "state_ok (isShutdown m) k ts"
    "removed ts = removed ts0" "removed ts \<Longrightarrow> active ts \<noteq> []"
  shows "mgr_inv (put_state k ts m)"
proof (cases "map_of (tasks m) k")
  case None
  then have "map_of (removedTasks m) k = Some ts0" using assms(2) by (simp add: taskStateFor_def)
  then have "removed ts" using assms inv_lookup_removed by simp
  with None assms show ?thesis
    by (simp add: put_state_def inv_put_removed map_of_None_keys)
next
  case (Some t)
  then have "\<not> removed ts" using assms inv_lookup by (simp add: taskStateFor_def)
  with Some assms show ?thesis by (simp add: put_state_def inv_put_task)
qed

lemma inv_delete_task: "mgr_inv m \<Longrightarrow> mgr_inv (m\<lparr>tasks := AList.delete k (tasks m)\<rparr>)"
  by (auto simp: mgr_inv_def distinct_delete set_AList_delete)

lemma inv_delete_removed:
  "mgr_inv m \<Longrightarrow> mgr_inv (m\<lparr>removedTasks := AList.delete k (removedTasks m)\<rparr>)"
  by (auto simp: mgr_inv_def distinct_delete set_AList_delete)

section \<open>Triggering\<close>

lemma inv_start_plain:
  assumes "mgr_inv m" "map_of (tasks m) (Name task) = Some ts" "run_ok (Name task) run"
    "\<not> IsService (TKind task)"
  shows "mgr_inv (startRun task run m)"
  using assms inv_lookup [OF assms(1,2)]
  by (auto simp: startRun_alt intro!: inv_put_task state_ok_start_plain)

lemma build_run_simps [simp]:
  "TaskName (build_run n opts b i ps rid now) = n"
  "Status (build_run n opts b i ps rid now) = PhasePending"
  "RetryAttempt (build_run n opts b i ps rid now) = o_RetryAttempt opts"
  "InstanceIndex (build_run n opts b i ps rid now) = i"
  "ID (build_run n opts b i ps rid now) = rid"
  "Params (build_run n opts b i ps rid now) = ps"
  "RetryOfRunID (build_run n opts b i ps rid now) = o_RetryOfRunID opts"
  by (simp_all add: build_run_def new_run_def)

lemma mgr_inv_end_unexecuted: "mgr_inv (snd (end_unexecuted t e r m)) = mgr_inv m"
  by (simp add: end_unexecuted_def publishTerminal_def Let_def)

lemma inv_admit_plain:
  assumes inv: "mgr_inv m" and ts: "map_of (tasks m) k = Some ts" and run: "run_ok k run"
    and plain: "\<not> IsService (TKind (ts_task ts))" and sd: "\<not> isShutdown m"
  shows "mgr_inv (snd (admit ts run m))"
proof -
  note lk = inv_lookup [OF inv ts]
  obtain a e ts' where ev: "evaluateConcurrency ts run (MaxConcurrentValue (ts_task ts)) = Some (a, e, ts')"
    and ts': "state_ok (isShutdown m) k ts'" "\<not> removed ts'" "ts_task ts' = ts_task ts"
    using state_ok_evaluate [OF lk(1) run lk(2)] sd by fastforce
  have p: "mgr_inv (put_task k ts' m)" by (rule inv_put_task) (use inv ts ts' in auto)
  have "mgr_inv (startRun (ts_task ts) run (put_task k ts' m))"
    by (rule inv_start_plain [OF p]) (use lk run plain in auto)
  with p lk plain ev show ?thesis
    by (auto simp: admit_def Let_def mgr_inv_end_unexecuted split: concurrencyAction.split prod.split)
      (metis mgr_inv_end_unexecuted snd_conv)+
qed

lemma inv_Trigger:
  assumes inv: "mgr_inv m" and ra: "0 \<le> o_RetryAttempt opts"
  shows "mgr_inv (snd (TriggerRunWithOptions name opts m))"
proof (cases "isShutdown m \<or> map_of (tasks m) name = None")
  case True
  with inv show ?thesis by (auto simp: TriggerRunWithOptions_def)
next
  case False
  then obtain ts where ts: "map_of (tasks m) name = Some ts" and sd: "\<not> isShutdown m" by auto
  note lk = inv_lookup [OF inv ts]
  show ?thesis
  proof (cases "resolve_params m ts (o_Params opts)")
    case (Inl e)
    with inv ts sd show ?thesis by (simp add: TriggerRunWithOptions_def)
  next
    case (Inr params)
    let ?svc = "IsService (TKind (ts_task ts))"
    define run where "run i = build_run name opts ?svc i params (ulid m (minted m)) (clock m)" for i
    have ro: "run_ok name (run i)" for i using ra by (simp add: run_def run_ok_def)
    show ?thesis
    proof (cases ?svc)
      case False
      define m1 where "m1 = emit [PersistNew (run 0), Publish EventRunCreated (run 0) []]
        (snd (mint (put_task name ts m)))"
      have i1: "mgr_inv m1" unfolding m1_def
        by simp (rule inv_put_task, use inv ts lk in auto)
      have "map_of (tasks m1) name = Some ts" "\<not> isShutdown m1" using sd by (simp_all add: m1_def)
      from inv_admit_plain [OF i1 this(1) ro False this(2)] show ?thesis
        using False sd ts Inr
        by (simp add: TriggerRunWithOptions_def reserve_instance_def mint_def m1_def run_def put_task_def
              Let_def)
    next
      case True
      then obtain s where s: "supervisor ts = Some s"
        using lk(1) by (cases "supervisor ts") (auto simp: state_ok_def sup_ok_state_def)
      show ?thesis
      proof (cases "Reserve (o_InstanceIndex opts) s")
        case (Inl e)
        with inv ts sd Inr True s show ?thesis
          by (simp add: TriggerRunWithOptions_def reserve_instance_def)
      next
        case r: (Inr p)
        obtain i s' where p: "p = (i, s')" by (cases p)
        define m1 where "m1 = emit [PersistNew (run i), Publish EventRunCreated (run i) []]
          (snd (mint m))"
        have "state_ok (isShutdown m) name (ts\<lparr>supervisor := Some s',
            active := active ts @ [fresh_active m1 (ts_task ts) (run i)]\<rparr>)"
          by (rule state_ok_start_service [OF lk(1) ro s])
            (use r p True in \<open>auto simp: run_def\<close>)
        then have "mgr_inv (put_task name (ts\<lparr>supervisor := Some s',
            active := active ts @ [fresh_active m1 (ts_task ts) (run i)]\<rparr>) m1)"
          by (intro inv_put_task) (use inv ts lk in \<open>auto simp: m1_def\<close>)
        moreover have "snd (TriggerRunWithOptions name opts m) =
          put_task name (ts\<lparr>supervisor := Some s',
            active := active ts @ [fresh_active m1 (ts_task ts) (run i)]\<rparr>) m1"
          using sd ts Inr True s r p lk(3)
          by (simp add: TriggerRunWithOptions_def reserve_instance_def mint_def m1_def run_def
              admit_def startRun_alt put_task_def emit_def fresh_active_def map_of_AList_update Let_def)
        ultimately show ?thesis by simp
      qed
    qed
  qed
qed

section \<open>Registering and removing\<close>

lemma attach_state_ok:
  assumes inv: "mgr_inv m" and at: "attach_state task m = (ts, m1)"
  shows "install_ready (Name task) ts \<and> mgr_inv m1 \<and> Name task \<notin> keys_of (removedTasks m1) \<and>
    clock m1 = clock m"
proof -
  let ?k = "Name task"
  consider t where "map_of (tasks m) ?k = Some t"
    | t where "map_of (tasks m) ?k = None" "map_of (removedTasks m) ?k = Some t"
    | "map_of (tasks m) ?k = None" "map_of (removedTasks m) ?k = None"
    by (cases "map_of (tasks m) ?k"; cases "map_of (removedTasks m) ?k") auto
  then show ?thesis
  proof cases
    case 1
    then have "?k \<in> keys_of (tasks m)" using map_of_None_keys [of "tasks m" ?k] by auto
    with inv have "?k \<notin> keys_of (removedTasks m)" by (auto simp: mgr_inv_def)
    with 1 at inv inv_lookup [OF inv 1] show ?thesis
      by (auto simp: attach_state_def intro: install_ready_cases)
  next
    case 2
    with at inv inv_lookup_removed [OF inv 2(2)] show ?thesis
      by (auto simp: attach_state_def inv_delete_removed intro: install_ready_cases)
  next
    case 3
    with at inv show ?thesis
      by (auto simp: attach_state_def map_of_None_keys install_ready_cases)
  qed
qed

lemma inv_upsert: "mgr_inv m \<Longrightarrow> task_ok task \<Longrightarrow> mgr_inv (snd (upsertTaskLocked task m))"
proof -
  assume inv: "mgr_inv m" and tok: "task_ok task"
  obtain ts m1 where at: "attach_state task m = (ts, m1)" by (cases "attach_state task m")
  obtain runs es ts' where iq: "install_queue (clock m) task
      (install_supervisor task (ts\<lparr>ts_task := task\<rparr>)) = (runs, es, ts')" by (metis prod_cases3)
  from attach_state_ok [OF inv at] state_ok_install [OF _ tok iq] show ?thesis
    by (auto simp: upsertTaskLocked_def at iq intro!: inv_put_fresh)
qed

lemma stop_removed_simps [simp]:
  "ts_task (stop_removed_service ts) = ts_task ts" "queue (stop_removed_service ts) = queue ts"
  "cond (stop_removed_service ts) = cond ts" "removed (stop_removed_service ts) = removed ts"
  "drain (stop_removed_service ts) = drain ts"
  "map ar_run (active (stop_removed_service ts)) = map ar_run (active ts)"
  by (auto simp: stop_removed_service_def Cancel_def split: option.splits)

lemma stop_removed_service_ok:
  "sup_match b held (supervisor ts) \<Longrightarrow> sup_match b held (supervisor (stop_removed_service ts))"
  by (auto simp: stop_removed_service_def in_step_live_cong [of "MarkStopped _"]
      intro: sup_events split: option.splits)

lemma state_ok_stop_removed: "state_ok sd k ts \<Longrightarrow> state_ok sd k (stop_removed_service ts)"
proof -
  assume ok: "state_ok sd k ts"
  have "state_ok sd k (ts\<lparr>supervisor := Some (MarkStopped s), bookkeepingStop := True\<rparr>)"
    if "supervisor ts = Some s" for s
    using ok that
    by (auto simp: state_ok_def queue_ok_def full_def sup_ok_state_def
        in_step_live_cong [of "MarkStopped _"] intro: sup_events)
  with ok show ?thesis
    by (auto simp: stop_removed_service_def intro!: state_ok_on_active split: option.split)
qed

definition removed_state :: "instant \<Rightarrow> taskState \<Rightarrow> taskState" where
  "removed_state now ts =
     (let ts1 = ts\<lparr>removed := True\<rparr>
      in stop_removed_service (if cond ts then signal (ts1\<lparr>queue := []\<rparr>) else ts1))"

lemma state_ok_removed: "state_ok sd k ts \<Longrightarrow> state_ok sd k (removed_state now ts)"
proof -
  assume ok: "state_ok sd k ts"
  let ?t = "if cond ts then signal (ts\<lparr>removed := True, queue := []\<rparr>) else ts\<lparr>removed := True\<rparr>"
  have "state_ok sd k ?t"
    using ok by (auto simp: state_ok_def queue_ok_def sup_ok_state_def)
  then show ?thesis by (simp add: removed_state_def Let_def state_ok_stop_removed)
qed

lemma removeTaskLocked_alt:
  "map_of (tasks m) k = Some ts \<Longrightarrow>
     removeTaskLocked k m =
       (let runs = (if cond ts then map (endOrphanedPending (clock m)) (queue ts) else []);
            m1 = emit (map PersistExisting runs) (m\<lparr>tasks := AList.delete k (tasks m)\<rparr>)
        in (runs, if active ts \<noteq> []
              then m1\<lparr>removedTasks := AList.update k (removed_state (clock m) ts) (removedTasks m1)\<rparr>
              else m1))"
proof -
  assume ts: "map_of (tasks m) k = Some ts"
  have "active (stop_removed_service t) \<noteq> [] \<longleftrightarrow> active t \<noteq> []" for t
    using stop_removed_simps(6) [of t] by (metis map_is_Nil_conv)
  then show ?thesis
    using ts by (auto simp: removeTaskLocked_def finalize_simps removed_state_def Let_def emit_def)
qed

lemma removed_state_simps [simp]:
  "removed (removed_state now ts)" "active (removed_state now ts) = [] \<longleftrightarrow> active ts = []"
proof -
  show "removed (removed_state now ts)" by (simp add: removed_state_def Let_def)
  have "map ar_run (active (removed_state now ts)) = map ar_run (active ts)"
    by (simp add: removed_state_def Let_def)
  then show "active (removed_state now ts) = [] \<longleftrightarrow> active ts = []" by (metis map_is_Nil_conv)
qed

lemma inv_remove: "mgr_inv m \<Longrightarrow> mgr_inv (snd (removeTaskLocked k m))"
proof (cases "map_of (tasks m) k")
  case None
  assume "mgr_inv m"
  with None show ?thesis by (simp add: removeTaskLocked_def)
next
  case (Some ts)
  assume inv: "mgr_inv m"
  let ?m1 = "m\<lparr>tasks := AList.delete k (tasks m)\<rparr>"
  have i1: "mgr_inv (emit es ?m1)" for es by (simp add: inv_delete_task inv)
  have "mgr_inv (emit es ?m1\<lparr>removedTasks :=
      AList.update k (removed_state (clock m) ts) (removedTasks (emit es ?m1))\<rparr>)"
    if "active ts \<noteq> []" for es
    by (rule inv_put_removed [OF i1])
      (use that inv_lookup [OF inv Some] in \<open>auto simp: state_ok_removed\<close>)
  with i1 show ?thesis by (simp add: removeTaskLocked_alt [OF Some] Let_def)
qed

text \<open>The locked part of \<open>StopTask\<close>.\<close>

definition stopped_state :: "taskState \<Rightarrow> taskState" where
  "stopped_state ts =
     (let ts1 = on_active Cancel ts in if cond ts then signal (ts1\<lparr>queue := []\<rparr>) else ts1)"

lemma state_ok_stopped: "state_ok sd k ts \<Longrightarrow> state_ok sd k (stopped_state ts)"
proof -
  assume "state_ok sd k ts"
  then have "state_ok sd k (on_active Cancel ts)" by (simp add: state_ok_on_active)
  then show ?thesis
    by (auto simp: stopped_state_def Let_def state_ok_def queue_ok_def sup_ok_state_def)
qed

lemma stopped_state_removed [simp]: "removed (stopped_state ts) = removed ts"
  by (simp add: stopped_state_def Let_def)

section \<open>Draining a queue\<close>

lemma taskStateFor_put_state [simp]:
  "taskStateFor (put_state k ts m) k = Some ts"
  by (cases "map_of (tasks m) k")
    (auto simp: put_state_def taskStateFor_def put_task_def map_of_AList_update)

lemma put_state_frame [simp]:
  "isShutdown (put_state k ts m) = isShutdown m" "clock (put_state k ts m) = clock m"
  "followups (put_state k ts m) = followups m" "panicked (put_state k ts m) = panicked m"
  "keys_of (tasks (put_state k ts m)) = keys_of (tasks m)"
  by (auto simp: put_state_def put_task_def map_of_None_keys)

lemma drain_wait_state:
  assumes "state_ok sd k ts" "queue ts = [] \<or> full ts" "sd = isShutdown m"
  shows "state_ok sd k (ts\<lparr>drain := (if drain_stops m ts then DrainGone else DrainParked)\<rparr>)"
  using assms
  by (auto simp: state_ok_def queue_ok_def full_def sup_ok_state_def drain_stops_def)

lemma inv_drain_wait:
  assumes inv: "mgr_inv m" and ts: "taskStateFor m k = Some ts" and w: "queue ts = [] \<or> full ts"
  shows "mgr_inv (drain_wait k ts m)"
  unfolding drain_wait_def
proof (rule inv_put_state [OF inv ts])
  show "state_ok (isShutdown m) k
      (ts\<lparr>drain := (if drain_stops m ts then DrainGone else DrainParked)\<rparr>)"
    by (rule drain_wait_state [OF _ w]) (use inv_state_for [OF inv ts] in auto)
  assume "removed (ts\<lparr>drain := (if drain_stops m ts then DrainGone else DrainParked)\<rparr>)"
  then show "active (ts\<lparr>drain := (if drain_stops m ts then DrainGone else DrainParked)\<rparr>) \<noteq> []"
    using inv ts inv_lookup inv_lookup_removed by (auto simp: taskStateFor_def split: option.splits)
qed simp

lemma inv_state_removed:
  assumes "mgr_inv m" "taskStateFor m k = Some ts" "removed ts"
  shows "active ts \<noteq> []" "map_of (tasks m) k = None"
  using assms inv_lookup inv_lookup_removed by (auto simp: taskStateFor_def split: option.splits)

lemma drain_one:
  assumes inv: "mgr_inv m" and ts: "taskStateFor m k = Some ts" and q: "queue ts = r # rest"
    and go: "\<not> drain_stops m ts" and plain: "\<not> IsService (TKind (ts_task ts))"
  shows "mgr_inv (startRun (ts_task ts) r (put_state k (ts\<lparr>queue := rest\<rparr>) m)) \<and>
    taskStateFor (startRun (ts_task ts) r (put_state k (ts\<lparr>queue := rest\<rparr>) m)) k =
      Some (ts\<lparr>queue := rest, active := active ts @ [fresh_active m (ts_task ts) r]\<rparr>)"
proof -
  have nr: "\<not> removed ts" using go by (simp add: drain_stops_def)
  note lk = inv_state_for [OF inv ts]
  have t: "map_of (tasks m) k = Some ts"
    using nr inv ts inv_lookup_removed by (auto simp: taskStateFor_def split: option.splits)
  have ok': "state_ok (isShutdown m) k (ts\<lparr>queue := rest\<rparr>)" and ro: "run_ok k r"
    using lk q by (auto simp: state_ok_def queue_ok_def full_def sup_ok_state_def)
  let ?m = "put_state k (ts\<lparr>queue := rest\<rparr>) m"
  have pm: "?m = put_task k (ts\<lparr>queue := rest\<rparr>) m" using t by (simp add: put_state_def)
  have "mgr_inv ?m"
    by (rule inv_put_state [OF inv ts ok']) (use nr in auto)
  then have "mgr_inv (startRun (ts_task ts) r ?m)"
    by (rule inv_start_plain) (use lk plain ro pm in auto)
  moreover have "taskStateFor (startRun (ts_task ts) r ?m) k =
      Some (ts\<lparr>queue := rest, active := active ts @ [fresh_active m (ts_task ts) r]\<rparr>)"
    using lk(2) by (simp add: startRun_alt pm taskStateFor_def fresh_active_def)
  ultimately show ?thesis by simp
qed

lemma drain_plain: "state_ok sd k ts \<Longrightarrow> queue ts \<noteq> [] \<Longrightarrow> \<not> IsService (TKind (ts_task ts))"
  by (auto simp: state_ok_def queue_ok_def task_ok_def)

text \<open>The drain starts a prefix of the queue, in order, as far as slots are free, and leaves the
  goroutine parked or gone.\<close>

lemma drain_loop_spec:
  "mgr_inv m \<Longrightarrow> taskStateFor m k = Some ts \<Longrightarrow> queue ts = q \<Longrightarrow>
     mgr_inv (drain_loop q k m) \<and>
     (\<exists>n dr ars. n \<le> length q \<and> map ar_run ars = take n q \<and>
        (\<forall>ar\<in>set ars. ar_task ar = ts_task ts \<and> \<not> ar_cancelled ar) \<and>
        (n > 0 \<longrightarrow> int (length (active ts) + n) \<le> MaxConcurrentValue (ts_task ts)) \<and>
        (drain_stops m ts \<longrightarrow> n = 0 \<and> dr = DrainGone) \<and>
        (\<not> drain_stops m ts \<longrightarrow> dr = DrainParked \<and>
           (n = length q \<or> MaxConcurrentValue (ts_task ts) \<le> int (length (active ts) + n))) \<and>
        taskStateFor (drain_loop q k m) k =
          Some (ts\<lparr>queue := drop n q, active := active ts @ ars, drain := dr\<rparr>))"
proof (induction q arbitrary: m ts)
  case Nil
  from Nil.prems have "mgr_inv (drain_wait k ts m)" by (intro inv_drain_wait) auto
  with Nil.prems show ?case
    by (auto simp: drain_wait_def intro!: exI [of _ "[]"])
next
  case (Cons r rest)
  note inv = Cons.prems(1) and ts = Cons.prems(2) and q = Cons.prems(3)
  note lk = inv_state_for [OF inv ts]
  consider (full) "MaxConcurrentValue (ts_task ts) \<le> int (length (active ts))"
    | (stop) "\<not> MaxConcurrentValue (ts_task ts) \<le> int (length (active ts))" "drain_stops m ts"
    | (go) "\<not> MaxConcurrentValue (ts_task ts) \<le> int (length (active ts))" "\<not> drain_stops m ts"
    by blast
  then show ?case
  proof cases
    case full
    then have "mgr_inv (drain_wait k ts m)"
      by (intro inv_drain_wait inv ts) (simp add: full_def)
    with full ts q show ?thesis
      by (auto simp: drain_wait_def intro!: exI [of _ 0] exI [of _ "[]"])
  next
    case stop
    have "state_ok (isShutdown m) k (ts\<lparr>drain := DrainGone\<rparr>)"
      using lk stop(2) by (auto simp: state_ok_def queue_ok_def full_def sup_ok_state_def drain_stops_def)
    then have "mgr_inv (put_state k (ts\<lparr>drain := DrainGone\<rparr>) m)"
      by (rule inv_put_state [OF inv ts]) (use inv_state_removed [OF inv ts] in auto)
    with stop ts q show ?thesis
      by (auto intro!: exI [of _ 0] exI [of _ "[]"])
  next
    case go
    let ?m = "startRun (ts_task ts) r (put_state k (ts\<lparr>queue := rest\<rparr>) m)"
    let ?ar = "fresh_active m (ts_task ts) r"
    let ?ts = "ts\<lparr>queue := rest, active := active ts @ [?ar]\<rparr>"
    from q lk have plain: "\<not> IsService (TKind (ts_task ts))" by (intro drain_plain) auto
    note one = drain_one [OF inv ts q go(2) plain]
    have sd: "isShutdown ?m = isShutdown m" by (auto simp: startRun_alt panic_def split: option.split)
    have st: "drain_stops ?m ?ts = drain_stops m ts" by (simp add: drain_stops_def sd)
    from Cons.IH [of ?m ?ts] one obtain n dr ars where IH: "mgr_inv (drain_loop rest k ?m)"
      "n \<le> length rest" "map ar_run ars = take n rest"
      "\<forall>ar\<in>set ars. ar_task ar = ts_task ts \<and> \<not> ar_cancelled ar"
      "n > 0 \<longrightarrow> int (length (active ts) + 1 + n) \<le> MaxConcurrentValue (ts_task ts)"
      "dr = DrainParked" "n = length rest \<or>
         MaxConcurrentValue (ts_task ts) \<le> int (length (active ts) + 1 + n)"
      "taskStateFor (drain_loop rest k ?m) k = Some (?ts\<lparr>queue := drop n rest,
         active := active ?ts @ ars, drain := dr\<rparr>)"
      using go(2) by (auto simp: st)
    have e: "drain_loop (r # rest) k m = drain_loop rest k ?m" using go ts by simp
    show ?thesis
      unfolding e
      by (rule conjI [OF IH(1)], rule exI [of _ "Suc n"], rule exI [of _ dr],
          rule exI [of _ "?ar # ars"]) (use IH go in \<open>auto simp: fresh_active_def\<close>)
  qed
qed

lemma inv_queueProcessLoop: "mgr_inv m \<Longrightarrow> mgr_inv (queueProcessLoop k m)"
  using drain_loop_spec by (auto simp: queueProcessLoop_def split: option.split)

section \<open>The lifecycle of a run\<close>

lemma find_active_Some:
  "find_active k rid m = Some ar \<longleftrightarrow>
     (\<exists>ts. taskStateFor m k = Some ts \<and> find (\<lambda>a. ID (ar_run a) = rid) (active ts) = Some ar)"
  by (simp add: find_active_def split: option.split)

text \<open>Replacing an active run by one with the same task, index, name and attempt.\<close>

lemma state_ok_replace:
  assumes ok: "state_ok sd k ts" and sp: "active ts = as @ ar # bs"
    and ar': "ar_task ar' = ar_task ar" "InstanceIndex (ar_run ar') = InstanceIndex (ar_run ar)"
      "run_ok k (ar_run ar')"
  shows "state_ok sd k (ts\<lparr>active := as @ ar' # bs\<rparr>)"
  using assms by (auto simp: state_ok_def queue_ok_def full_def sup_ok_state_def)

lemma state_ok_set_sup:
  assumes "state_ok sd k ts" "supervisor ts = Some s" "sup_inv s'"
    "\<And>i. live (slot s' i) = live (slot s i)"
  shows "state_ok sd k (ts\<lparr>supervisor := Some s'\<rparr>)"
  using assms in_step_live_cong [of s' s]
  by (auto simp: state_ok_def queue_ok_def full_def sup_ok_state_def)

lemma active_slot_live:
  assumes "state_ok sd k ts" "ar \<in> set (active ts)" "IsService (TKind (ar_task ar))"
    "supervisor ts = Some s"
  shows "live (slot s (InstanceIndex (ar_run ar)))"
proof -
  have "InstanceIndex (ar_run ar) \<in> set (svc_runs (active ts))"
    using assms(2,3) by (auto simp: svc_runs_def)
  with assms show ?thesis by (auto simp: state_ok_def sup_ok_state_def pool.in_step_def)
qed

lemma inv_execute_begin: "mgr_inv m \<Longrightarrow> mgr_inv (execute_begin k rid m)"
proof -
  assume inv: "mgr_inv m"
  show ?thesis
  proof (cases "find_active k rid m")
    case None
    with inv show ?thesis by (auto simp: execute_begin_def split: option.split)
  next
    case (Some ar)
    then obtain ts where ts: "taskStateFor m k = Some ts"
      and f: "find (\<lambda>a. ID (ar_run a) = rid) (active ts) = Some ar"
      by (auto simp: find_active_Some)
    show ?thesis
    proof (cases "Status (ar_run ar) = PhasePending")
      case False
      with inv ts Some show ?thesis by (simp add: execute_begin_def)
    next
      case True
      obtain as bs where sp: "active ts = as @ ar # bs" "ID (ar_run ar) = rid"
        "\<forall>a\<in>set as. ID (ar_run a) \<noteq> rid" using find_split [OF f] by auto
      note lk = inv_state_for [OF inv ts]
      let ?run = "(ar_run ar)\<lparr>Status := PhaseRunning, StartedAt := Some (ar_startedAt ar)\<rparr>"
      let ?ar = "ar\<lparr>ar_run := ?run\<rparr>"
      let ?ts = "ts\<lparr>active := as @ ?ar # bs\<rparr>"
      have u: "update_first (\<lambda>a. ID (ar_run a) = rid) (\<lambda>a. a\<lparr>ar_run := ?run\<rparr>) (active ts) =
          Some (as @ ?ar # bs)"
        using sp by (simp add: update_first_split)
      have "run_ok k ?run" using lk sp by (auto simp: state_ok_def run_ok_def)
      then have ok: "state_ok (isShutdown m) k ?ts"
        by (intro state_ok_replace [OF lk(1) sp(1)]) auto
      let ?m1 = "put_state k ?ts m"
      have i1: "mgr_inv ?m1" by (rule inv_put_state [OF inv ts ok]) auto
      have name: "Name (ar_task ar) = k" using lk sp by (auto simp: state_ok_def)
      have "mgr_inv (mark_live (ar_task ar) ?run ?m1)" if svc: "IsService (TKind (ar_task ar))"
      proof (cases "map_of (tasks ?m1) k")
        case None
        with i1 name show ?thesis by (simp add: mark_live_def)
      next
        case (Some t)
        then have t: "t = ?ts"
          using taskStateFor_put_state [of k ?ts m] by (simp add: taskStateFor_def)
        note lk1 = inv_lookup [OF i1 Some]
        show ?thesis
        proof (cases "supervisor t")
          case None
          with Some i1 name show ?thesis by (simp add: mark_live_def)
        next
          case s: (Some s)
          have "live (slot s (InstanceIndex ?run))"
            using active_slot_live [OF lk1(1), of ?ar s] s svc t by simp
          then have "sup_inv (MarkLive (clock ?m1) (InstanceIndex ?run) (HasHealthCheck (ar_task ar)) s)"
            using lk1 s by (auto simp: state_ok_def sup_ok_state_def intro: sup_events)
          then have "state_ok (isShutdown ?m1) k (t\<lparr>supervisor :=
              Some (MarkLive (clock ?m1) (InstanceIndex ?run) (HasHealthCheck (ar_task ar)) s)\<rparr>)"
            by (rule state_ok_set_sup [OF lk1(1) s]) simp
          with i1 Some lk1 s name show ?thesis
            by (auto simp: mark_live_def intro!: inv_put_task)
        qed
      qed
      with i1 u ts Some True show ?thesis by (simp add: execute_begin_def Let_def)
    qed
  qed
qed

lemma inv_reap:
  "mgr_inv m \<Longrightarrow> mgr_inv (reapRetiredTaskState task ts m)"
  by (simp add: reapRetiredTaskState_def inv_delete_task inv_delete_removed)

lemma supervisor_same: "supervisor ts = v \<Longrightarrow> ts\<lparr>active := X, supervisor := v\<rparr> = ts\<lparr>active := X\<rparr>"
  by (cases ts) simp

lemma retireRun_alt:
  assumes inv: "mgr_inv m" and ts: "taskStateFor m (Name (ar_task ar)) = Some ts"
    and ar: "find (\<lambda>a. ID (ar_run a) = ID run) (active ts) = Some ar"
  shows "snd (retireRun (ar_task ar) run d reason code m) =
    (let ts' = retired_state ar run d reason code ts
     in reapRetiredTaskState (ar_task ar) ts' (put_state (Name (ar_task ar)) ts' m))"
proof -
  obtain as bs where "active ts = as @ ar # bs" using find_split [OF ar] by auto
  with inv_state_for [OF inv ts] have "\<not> (IsService (TKind (ar_task ar)) \<and> supervisor ts = None)"
    by (cases "supervisor ts") (simp_all add: state_ok_def sup_ok_state_def split: if_splits)
  then show ?thesis
    using ts by (cases "IsService (TKind (ar_task ar))"; cases "supervisor ts")
      (auto simp: retireRun_def retired_state_def Let_def supervisor_same split: prod.splits)
qed

text \<open>Between \<open>put_state\<close> and the reaping a removed state may be empty, so the two are one step
  for the invariant.\<close>

lemma delete_update [simp]: "AList.delete k (AList.update k v al) = AList.delete k al"
  by (induction al) auto

lemma inv_put_reap:
  assumes inv: "mgr_inv m" and ts: "taskStateFor m k = Some ts0"
    and ok: "state_ok (isShutdown m) k ts" and rem: "removed ts = removed ts0" and n: "Name task = k"
  shows "mgr_inv (reapRetiredTaskState task ts (put_state k ts m))"
proof (cases "removed ts \<and> active ts = []")
  case False
  then have "mgr_inv (put_state k ts m)"
    using inv_put_state [OF inv ts ok rem] by simp
  then show ?thesis by (rule inv_reap)
next
  case True
  then have "map_of (tasks m) k = None" using inv_state_removed [OF inv ts] rem by simp
  with True n inv show ?thesis
    by (simp add: reapRetiredTaskState_def put_state_def inv_delete_removed)
qed

lemma retired_state_removed [simp]: "removed (retired_state ar run d e c ts) = removed ts"
  by (simp add: retired_state_def Let_def)

lemma inv_retireRun:
  assumes inv: "mgr_inv m" and ts: "taskStateFor m (Name (ar_task ar)) = Some ts"
    and ar: "find (\<lambda>a. ID (ar_run a) = ID run) (active ts) = Some ar"
    and idx: "InstanceIndex run = InstanceIndex (ar_run ar)"
  shows "mgr_inv (snd (retireRun (ar_task ar) run d reason code m))"
  unfolding retireRun_alt [OF inv ts ar] Let_def
  by (rule inv_put_reap [OF inv ts]) (use state_ok_retired [OF _ ar idx] inv_state_for [OF inv ts] in auto)

lemma inv_recordRunOutcome:
  assumes inv: "mgr_inv m" and ts: "taskStateFor m (Name (ar_task ar)) = Some ts"
    and ar: "find (\<lambda>a. ID (ar_run a) = ID (ar_run ar)) (active ts) = Some ar"
  shows "mgr_inv (snd (recordRunOutcome (ar_task ar) (ar_run ar) st res m))"
proof -
  have "mgr_inv (snd (retireRun (ar_task ar) ((ar_run ar)\<lparr>OutputMatched := er_OutputMatched res\<rparr>) d e c m))"
    for d e c by (rule inv_retireRun [OF inv ts]) (use ar in auto)
  then have "retireRun (ar_task ar) ((ar_run ar)\<lparr>OutputMatched := er_OutputMatched res\<rparr>) d e c m =
      (x, m1) \<Longrightarrow> mgr_inv m1" for d e c x m1 by (metis snd_conv)
  then show ?thesis
    by (simp add: recordRunOutcome_def Let_def split: prod.split)
qed

lemma inv_followups: "mgr_inv m \<Longrightarrow> \<forall>f\<in>set fs. follow_ok f \<Longrightarrow> mgr_inv (m\<lparr>followups := fs\<rparr>)"
  by (simp add: mgr_inv_def)

lemma inv_scheduleFollowup:
  "mgr_inv m \<Longrightarrow> 0 \<le> RetryAttempt run \<Longrightarrow> mgr_inv (scheduleFollowup task run a m)"
  by (auto simp: scheduleFollowup_def intro!: inv_followups) (auto simp: mgr_inv_def)

lemma inv_retry_now: "mgr_inv m \<Longrightarrow> 0 \<le> RetryAttempt run \<Longrightarrow> mgr_inv (retry_now task run m)"
  by (simp add: retry_now_def retry_options_def no_options_def inv_Trigger)

lemma inv_restart_now: "mgr_inv m \<Longrightarrow> mgr_inv (restart_now task run m)"
  by (simp add: restart_now_def restart_options_def no_options_def inv_Trigger Let_def)

lemma retry_delay_defined: "0 \<le> a \<Longrightarrow> \<exists>d. ComputeRetryDelay task a = Some d"
  by (auto simp: ComputeRetryDelay_def computeBackoff_def Let_def split: BackoffCurve.split)

lemma restart_delay_defined: "\<exists>d. restart_delay task a r = Some d"
  by (auto simp: restart_delay_def computeRestartDelay_def computeBackoff_def Let_def
      split: BackoffCurve.split)

lemma inv_follow: "mgr_inv m \<Longrightarrow> follow_ok f \<Longrightarrow> mgr_inv (follow f m)"
proof (cases f)
  case (FollowRetry task run)
  assume "mgr_inv m" "follow_ok f"
  with FollowRetry retry_delay_defined [of "RetryAttempt run" task] show ?thesis
    by (auto simp: spawn_wait_def intro!: inv_followups) (auto simp: mgr_inv_def)
next
  case (FollowRestart task run a)
  assume "mgr_inv m"
  with FollowRestart restart_delay_defined [of task a "EndReason run"] inv_restart_now [of m task run]
  show ?thesis
    by (auto simp: spawn_wait_def intro!: inv_followups) (auto simp: mgr_inv_def)
qed (auto simp: inv_retry_now inv_restart_now)

lemma inv_run_followup: "mgr_inv m \<Longrightarrow> mgr_inv (run_followup i m)"
proof (cases "i < length (followups m)")
  case True
  assume inv: "mgr_inv m"
  have "set (take i (followups m) @ drop (Suc i) (followups m)) \<subseteq> set (followups m)"
    using set_take_subset set_drop_subset by fastforce
  with inv have "mgr_inv (m\<lparr>followups := take i (followups m) @ drop (Suc i) (followups m)\<rparr>)"
    by (intro inv_followups) (auto simp: mgr_inv_def)
  moreover have "follow_ok (followups m ! i)" using inv True by (auto simp: mgr_inv_def)
  ultimately show ?thesis using inv by (simp add: run_followup_def inv_follow)
qed (simp add: run_followup_def)

section \<open>Phantom runs, cancellation, shutdown\<close>

lemma inv_phantom: "mgr_inv m \<Longrightarrow> mgr_inv (snd (recordPhantomRun k at e b msg m))"
  by (auto simp: recordPhantomRun_def publishTerminal_def Let_def mint_def mgr_inv_def emit_def
      split: option.split)

lemma update_active_first_ok:
  "update_active_first P f al = Some al' \<Longrightarrow> keeps f \<Longrightarrow> \<forall>(k, ts)\<in>set al. state_ok sd k ts \<and> Q ts \<Longrightarrow>
   (\<And>ts ars. Q ts \<Longrightarrow> ars \<noteq> [] \<Longrightarrow> Q (ts\<lparr>active := ars\<rparr>)) \<Longrightarrow>
     map fst al' = map fst al \<and> (\<forall>(k, ts)\<in>set al'. state_ok sd k ts \<and> Q ts)"
proof (induction al arbitrary: al')
  case (Cons p al)
  obtain k ts where p: "p = (k, ts)" by (cases p)
  show ?case
  proof (cases "update_first P f (active ts)")
    case None
    with Cons.prems(1) p obtain r where r: "update_active_first P f al = Some r" "al' = (k, ts) # r"
      by auto
    from Cons.IH [OF r(1) Cons.prems(2) _ Cons.prems(4)] Cons.prems(3) r(2) p show ?thesis by auto
  next
    case (Some ars)
    then obtain as a bs where u: "active ts = as @ a # bs" "ars = as @ f a # bs"
      using update_first_Some by blast
    have "state_ok sd k (ts\<lparr>active := as @ f a # bs\<rparr>)"
      by (rule state_ok_replace [OF _ u(1)])
        (use Cons.prems(2,3) p u in \<open>auto simp: keeps_def state_ok_def\<close>)
    with Some Cons.prems p u show ?thesis by auto
  qed
qed simp

lemma inv_update_any:
  assumes inv: "mgr_inv m" and k: "keeps f" and u: "update_any_active P f m = Some m'"
  shows "mgr_inv m'"
proof (cases "update_active_first P f (tasks m)")
  case (Some t)
  have "map fst t = map fst (tasks m) \<and>
      (\<forall>(k, ts)\<in>set t. state_ok (isShutdown m) k ts \<and> \<not> removed ts)"
    by (rule update_active_first_ok [OF Some k]) (use inv in \<open>auto simp: mgr_inv_def\<close>)
  moreover from this have "keys_of t = keys_of (tasks m)"
    unfolding keys_of_def by (metis set_map)
  ultimately show ?thesis using inv u Some by (auto simp: update_any_active_def mgr_inv_def)
next
  case None
  with u obtain t where t: "update_active_first P f (removedTasks m) = Some t"
    "m' = m\<lparr>removedTasks := t\<rparr>" by (auto simp: update_any_active_def)
  have "map fst t = map fst (removedTasks m) \<and>
      (\<forall>(k, ts)\<in>set t. state_ok (isShutdown m) k ts \<and> (removed ts \<and> active ts \<noteq> []))"
    by (rule update_active_first_ok [OF t(1) k]) (use inv in \<open>auto simp: mgr_inv_def\<close>)
  moreover from this have "keys_of t = keys_of (removedTasks m)"
    unfolding keys_of_def by (metis set_map)
  ultimately show ?thesis using inv t(2) by (auto simp: mgr_inv_def)
qed

lemma inv_registerForceKill: "mgr_inv m \<Longrightarrow> mgr_inv (registerForceKill rid m)"
  by (cases "update_any_active (\<lambda>ar. ID (ar_run ar) = rid) (\<lambda>ar. ar\<lparr>ar_forceKill := True\<rparr>) m")
    (auto simp: registerForceKill_def
      intro: inv_update_any [of m "\<lambda>ar. ar\<lparr>ar_forceKill := True\<rparr>"])

lemma inv_cancelActiveRun: "mgr_inv m \<Longrightarrow> mgr_inv (snd (cancelActiveRun P n m))"
  by (auto simp: cancelActiveRun_def intro: inv_update_any [of m Cancel] split: option.split)

lemma inv_on_states:
  assumes inv: "mgr_inv m" and f: "\<And>k ts. state_ok (isShutdown m) k ts \<Longrightarrow> state_ok (isShutdown m) k (f ts)"
    "\<And>ts. removed (f ts) = removed ts" "\<And>ts. active (f ts) = [] \<longleftrightarrow> active ts = []"
  shows "mgr_inv (on_states f m)"
proof -
  have m: "map fst (map (\<lambda>(k, ts). (k, f ts)) al) = map fst al"
    for al :: "(string \<times> taskState) list"
    by (simp add: case_prod_unfold)
  moreover from this have "keys_of (map (\<lambda>(k, ts). (k, f ts)) al) = keys_of al"
    for al :: "(string \<times> taskState) list"
    unfolding keys_of_def by (metis set_map)
  ultimately show ?thesis using inv f
    by (simp add: mgr_inv_def on_states_def del: map_map) (auto split: prod.splits)
qed

lemma inv_shutdown_flag: "mgr_inv m \<Longrightarrow> mgr_inv (m\<lparr>isShutdown := True, shutdownCtx := True\<rparr>)"
  by (auto simp: mgr_inv_def intro: state_ok_shutdown)

lemma inv_shutdown_cancel: "mgr_inv (snd d) \<Longrightarrow> mgr_inv (snd (shutdown_cancel d))"
  unfolding shutdown_cancel_def on_manager_def BeginShutdown_def Let_def
  by (simp, rule inv_on_states [OF inv_shutdown_flag])
    (auto intro!: state_ok_signal state_ok_on_active)

lemma inv_deadline: "mgr_inv m \<Longrightarrow> mgr_inv (deadline_passed m)"
proof -
  assume "mgr_inv m"
  then have "mgr_inv (m\<lparr>deadlineExceeded := True\<rparr>)" by (simp add: mgr_inv_def)
  then show ?thesis unfolding deadline_passed_def forceKillSurvivors_def
    by (rule inv_on_states) (auto intro: state_ok_on_active)
qed

section \<open>Services and recovery\<close>

lemma inv_StartServiceInstances: "mgr_inv m \<Longrightarrow> mgr_inv (snd (StartServiceInstances k b m))"
proof -
  assume inv: "mgr_inv m"
  have loop: "mgr_inv m \<Longrightarrow> mgr_inv (fold (\<lambda>i m. snd (TriggerRunWithOptions k (instance_options b i) m)) js m)"
    for m js
  proof (induction js arbitrary: m)
    case (Cons i js)
    have "mgr_inv (snd (TriggerRunWithOptions k (instance_options b i) m))"
      by (rule inv_Trigger [OF Cons.prems]) (simp add: instance_options_def no_options_def)
    with Cons.IH show ?case by simp
  qed simp
  show ?thesis
  proof (cases "serviceLocked m k")
    case (Inl e)
    with inv show ?thesis by (simp add: StartServiceInstances_def)
  next
    case (Inr ts)
    then have ts: "map_of (tasks m) k = Some ts" "IsService (TKind (ts_task ts))"
      by (auto simp: serviceLocked_def split: option.splits if_splits)
    then obtain s where "supervisor ts = Some s"
      using inv_lookup [OF inv ts(1)] by (cases "supervisor ts") (auto simp: state_ok_def sup_ok_state_def)
    with Inr inv loop show ?thesis by (simp add: StartServiceInstances_def)
  qed
qed

text \<open>Every service control acts on a state of the invariant with a supervisor.\<close>

lemma inv_with_supervisor:
  assumes inv: "mgr_inv m"
    and f: "\<And>ts s. map_of (tasks m) k = Some ts \<Longrightarrow> supervisor ts = Some s \<Longrightarrow> mgr_inv (snd (f ts s m))"
  shows "mgr_inv (snd (with_supervisor f k m))"
proof (cases "serviceLocked m k")
  case (Inl e)
  with inv show ?thesis by (simp add: with_supervisor_def)
next
  case (Inr ts)
  then have ts: "map_of (tasks m) k = Some ts" "IsService (TKind (ts_task ts))"
    by (auto simp: serviceLocked_def split: option.splits if_splits)
  then obtain s where "supervisor ts = Some s"
    using inv_lookup [OF inv ts(1)] by (cases "supervisor ts") (auto simp: state_ok_def sup_ok_state_def)
  with Inr ts f show ?thesis by (simp add: with_supervisor_def)
qed

lemma inv_set_sup:
  assumes inv: "mgr_inv m" and ts: "map_of (tasks m) k = Some ts" and s: "supervisor ts = Some s"
    and s': "s' = MarkRunning s \<or> s' = MarkStopped s"
  shows "mgr_inv (put_task k (ts\<lparr>supervisor := Some s', bookkeepingStop := False\<rparr>) m)"
    and "mgr_inv (put_task k (on_active Cancel (ts\<lparr>supervisor := Some s', bookkeepingStop := False\<rparr>)) m)"
proof -
  note lk = inv_lookup [OF inv ts]
  have "sup_inv s'" using s' s lk by (auto simp: state_ok_def sup_ok_state_def intro: sup_events)
  then have "state_ok (isShutdown m) k (ts\<lparr>supervisor := Some s'\<rparr>)"
    by (rule state_ok_set_sup [OF lk(1) s]) (use s' live_frame(5) in \<open>auto simp del: slot_MarkRunning\<close>)
  then have ok: "state_ok (isShutdown m) k (ts\<lparr>supervisor := Some s', bookkeepingStop := False\<rparr>)"
    by (simp add: state_ok_def queue_ok_def full_def sup_ok_state_def)
  show "mgr_inv (put_task k (ts\<lparr>supervisor := Some s', bookkeepingStop := False\<rparr>) m)"
    by (rule inv_put_task [OF inv]) (use ok lk ts in auto)
  show "mgr_inv (put_task k (on_active Cancel (ts\<lparr>supervisor := Some s', bookkeepingStop := False\<rparr>)) m)"
    by (rule inv_put_task [OF inv]) (use ok lk ts in \<open>auto intro: state_ok_on_active\<close>)
qed

lemma inv_cancel_state:
  "mgr_inv m \<Longrightarrow> map_of (tasks m) k = Some ts \<Longrightarrow> mgr_inv (put_task k (on_active Cancel ts) m)"
  by (rule inv_put_task) (auto simp: state_ok_on_active inv_lookup)

lemma inv_service_controls:
  assumes inv: "mgr_inv m"
  shows "mgr_inv (snd (StartService k m))" "mgr_inv (snd (RestartServiceInstances k m))"
    "mgr_inv (snd (RecycleServiceInstances k m))" "mgr_inv (snd (StopService k m))"
proof -
  show "mgr_inv (snd (StartService k m))"
    unfolding StartService_def Let_def
    by (rule inv_with_supervisor [OF inv])
      (auto intro!: inv_StartServiceInstances inv_set_sup(1) [OF inv])
  show "mgr_inv (snd (RestartServiceInstances k m))"
    unfolding RestartServiceInstances_def Let_def
    by (rule inv_with_supervisor [OF inv])
      (auto intro!: inv_StartServiceInstances inv_set_sup(2) [OF inv])
  show "mgr_inv (snd (RecycleServiceInstances k m))"
    unfolding RecycleServiceInstances_def Let_def
    by (rule inv_with_supervisor [OF inv])
      (auto intro!: inv_StartServiceInstances inv_cancel_state simp: inv)
  show "mgr_inv (snd (StopService k m))"
    unfolding StopService_def Let_def
    by (rule inv_with_supervisor [OF inv]) (auto intro!: inv_set_sup(2) [OF inv])
qed

lemma inv_markServiceHealthy:
  assumes inv: "mgr_inv m" and ts: "taskStateFor m k = Some ts"
    and ar: "ar \<in> set (active ts)" "IsService (TKind (ar_task ar))" "ar_run ar = run"
  shows "mgr_inv (markServiceHealthy k run m)"
proof (cases "supervisor ts")
  case None
  with inv ts show ?thesis by (simp add: markServiceHealthy_def)
next
  case (Some s)
  note lk = inv_state_for [OF inv ts]
  have "sup_inv (MarkHealthy (InstanceIndex run) s)"
    using active_slot_live [OF lk(1) ar(1,2) Some] lk(1) ar(3) Some
    by (auto simp: state_ok_def sup_ok_state_def intro: sup_events)
  then have "state_ok (isShutdown m) k (ts\<lparr>supervisor := Some (MarkHealthy (InstanceIndex run) s)\<rparr>)"
    by (rule state_ok_set_sup [OF lk(1) Some]) simp
  then have "mgr_inv (put_state k (ts\<lparr>supervisor := Some (MarkHealthy (InstanceIndex run) s)\<rparr>) m)"
    by (rule inv_put_state [OF inv ts]) (use ar(1) in auto)
  with ts Some show ?thesis by (simp add: markServiceHealthy_def)
qed

text \<open>A pending row read at boot: not ended, with a non-negative attempt.\<close>

definition pending_row :: "Run \<Rightarrow> bool" where
  "pending_row r \<longleftrightarrow> Status r = PhasePending \<and> 0 \<le> RetryAttempt r"

lemma inv_load_one:
  assumes inv: "mgr_inv m" and sd: "\<not> isShutdown m" and r: "pending_row r"
    and l: "load_one r (ended, m, res) = (ended', m', res')"
  shows "mgr_inv m' \<and> isShutdown m' = isShutdown m"
proof (cases "map_of (tasks m) (TaskName r)")
  case None
  with l inv show ?thesis by (auto simp: load_one_def Let_def)
next
  case (Some ts)
  note lk = inv_lookup [OF inv Some]
  have ro: "run_ok (TaskName r) r" using r by (simp add: pending_row_def run_ok_def)
  consider (svc) "IsService (TKind (ts_task ts))"
    | (q) "\<not> IsService (TKind (ts_task ts))" "OnOverlap (ts_task ts) = PolicyQueue"
    | (p) "\<not> IsService (TKind (ts_task ts))" "OnOverlap (ts_task ts) \<noteq> PolicyQueue" by blast
  then show ?thesis
  proof cases
    case svc
    with Some l inv show ?thesis by (auto simp: load_one_def resumePendingRun_def Let_def)
  next
    case q
    then have c: "cond ts" using lk by (simp add: state_ok_def queue_ok_def)
    have "state_ok (isShutdown m) (TaskName r) (signal (ts\<lparr>queue := queue ts @ [r]\<rparr>))"
      using lk q ro c sd by (auto simp: state_ok_def queue_ok_def sup_ok_state_def)
    then have "mgr_inv (put_task (TaskName r) (signal (ts\<lparr>queue := queue ts @ [r]\<rparr>)) m)"
      by (intro inv_put_task [OF inv]) (use Some lk in auto)
    with Some q c l inv show ?thesis
      by (auto simp: load_one_def resumePendingRun_def requeuePendingRun_def Let_def split: if_splits)
  next
    case p
    have "mgr_inv (startRun (ts_task ts) r m)"
      by (rule inv_start_plain [OF inv]) (use Some p lk ro in auto)
    moreover have "isShutdown (startRun (ts_task ts) r m) = isShutdown m"
      by (auto simp: startRun_alt panic_def split: option.split)
    ultimately show ?thesis using Some p l inv
      by (auto simp: load_one_def resumePendingRun_def restartOrFailPendingRun_def Let_def
          split: if_splits)
  qed
qed

lemma inv_LoadPendingRuns:
  assumes inv: "mgr_inv m" and sd: "\<not> isShutdown m" and rs: "\<forall>r\<in>set runs. pending_row r"
  shows "mgr_inv (snd (LoadPendingRuns runs m))"
proof -
  have pub: "mgr_inv (fold (\<lambda>r. publishTerminal EventRunFailed r []) rs m) = mgr_inv m" for rs m
    by (induction rs arbitrary: m) (auto simp: publishTerminal_def)
  have "mgr_inv m \<Longrightarrow> \<not> isShutdown m \<Longrightarrow> \<forall>r\<in>set runs. pending_row r \<Longrightarrow>
      fold load_one runs (e, m, res) = (e', m', res') \<Longrightarrow> mgr_inv m'" for runs e m res e' m' res'
  proof (induction runs arbitrary: e m res)
    case (Cons r rs)
    obtain e1 m1 res1 where l: "load_one r (e, m, res) = (e1, m1, res1)" by (metis prod_cases3)
    from inv_load_one [OF Cons.prems(1,2) _ l] Cons.prems(2,3) have "mgr_inv m1" "\<not> isShutdown m1"
      by auto
    with Cons.IH [of m1 e1 res1] Cons.prems l show ?case by auto
  qed auto
  from this [OF inv sd rs] show ?thesis
    by (auto simp: LoadPendingRuns_def pub split: prod.split)
qed

end
