(* ===== verification/Daemon.thy ===== *)
theory Daemon
  imports Manager_Inv
begin

text \<open>
  The gate and the manager as one machine: the runs that are alive, those whose goroutine has still
  to report them to the gate, the manager as the provider of the gate's run-start hook, the events
  the environment can cause, the invariant of every reachable state.
\<close>

section \<open>Live runs\<close>

definition live_of :: "taskState \<Rightarrow> string set" where
  "live_of ts = ID ` (ar_run ` set (active ts) \<union> set (queue ts))"

definition live_ids :: "manager \<Rightarrow> string set" where
  "live_ids m = (\<Union>p\<in>set (allTaskStates m). live_of (snd p))"

lemma live_ids_cong:
  "tasks m' = tasks m \<Longrightarrow> removedTasks m' = removedTasks m \<Longrightarrow> live_ids m' = live_ids m"
  by (simp add: live_ids_def allTaskStates_def)

lemma live_ids_emit [simp]: "live_ids (emit es m) = live_ids m"
  by (rule live_ids_cong) simp_all

lemma live_ids_mint [simp]: "live_ids (snd (mint m)) = live_ids m"
  by (rule live_ids_cong) simp_all

lemma live_ids_followups [simp]: "live_ids (m\<lparr>followups := fs\<rparr>) = live_ids m"
  by (rule live_ids_cong) simp_all

lemma AList_update_keeps: "p \<in> set al \<Longrightarrow> fst p \<noteq> k \<Longrightarrow> p \<in> set (AList.update k v al)"
  by (induction al) auto

lemma AList_update_new: "(k, v) \<in> set (AList.update k v al)"
  by (induction al) auto

lemma map_of_distinct_unique:
  "distinct (map fst al) \<Longrightarrow> map_of al k = Some v \<Longrightarrow> (k, w) \<in> set al \<Longrightarrow> w = v"
  by (metis map_of_is_SomeI option.inject)

lemma live_ids_iff:
  "x \<in> live_ids m \<longleftrightarrow>
     (\<exists>k ts. ((k, ts) \<in> set (tasks m) \<or> (k, ts) \<in> set (removedTasks m)) \<and> x \<in> live_of ts)"
  by (force simp: live_ids_def allTaskStates_def)

text \<open>Writing a state back loses at most what the new state no longer holds.\<close>

lemma live_put_task:
  assumes inv: "mgr_inv m"
  shows "live_of ts' \<subseteq> live_ids (put_task k ts' m)"
    and "live_ids m \<subseteq> live_ids (put_task k ts' m) \<union>
      (case map_of (tasks m) k of None \<Rightarrow> {} | Some ts \<Rightarrow> live_of ts)"
proof -
  show "live_of ts' \<subseteq> live_ids (put_task k ts' m)"
    using AList_update_new [of k ts' "tasks m"]
    by (force simp: live_ids_def allTaskStates_def put_task_def)
  show "live_ids m \<subseteq> live_ids (put_task k ts' m) \<union>
      (case map_of (tasks m) k of None \<Rightarrow> {} | Some ts \<Rightarrow> live_of ts)"
  proof
    fix x assume "x \<in> live_ids m"
    then obtain p where p: "p \<in> set (tasks m) \<union> set (removedTasks m)" "x \<in> live_of (snd p)"
      by (auto simp: live_ids_def allTaskStates_def)
    show "x \<in> live_ids (put_task k ts' m) \<union>
        (case map_of (tasks m) k of None \<Rightarrow> {} | Some ts \<Rightarrow> live_of ts)"
    proof (cases "p \<in> set (tasks m) \<and> fst p = k")
      case True
      then obtain ts where ts: "map_of (tasks m) k = Some ts"
        by (metis map_of_eq_None_iff image_eqI not_None_eq)
      with True inv have "snd p = ts"
        by (metis map_of_distinct_unique mgr_inv_def prod.collapse)
      with p ts show ?thesis by simp
    next
      case False
      with p(1) have "p \<in> set (AList.update k ts' (tasks m)) \<union> set (removedTasks m)"
        using AList_update_keeps [of p "tasks m" k ts'] by auto
      with p(2) show ?thesis by (auto simp: live_ids_def allTaskStates_def put_task_def)
    qed
  qed
qed

lemma live_put_task_mono:
  "mgr_inv m \<Longrightarrow> map_of (tasks m) k = Some ts \<Longrightarrow> live_of ts \<subseteq> live_of ts' \<union> X \<Longrightarrow>
     live_ids m \<subseteq> live_ids (put_task k ts' m) \<union> X"
  using live_put_task(1) [of m ts' k] live_put_task(2) [of m k ts'] by fastforce

lemma live_put_state:
  assumes inv: "mgr_inv m" and ts: "taskStateFor m k = Some ts" and le: "live_of ts \<subseteq> live_of ts' \<union> X"
  shows "live_ids m \<subseteq> live_ids (put_state k ts' m) \<union> X"
proof (cases "map_of (tasks m) k")
  case (Some t)
  with ts have "t = ts" by (simp add: taskStateFor_def)
  with Some inv le show ?thesis by (simp add: put_state_def live_put_task_mono)
next
  case None
  then have r: "map_of (removedTasks m) k = Some ts" using ts by (simp add: taskStateFor_def)
  have ps: "put_state k ts' m = m\<lparr>removedTasks := AList.update k ts' (removedTasks m)\<rparr>"
    using None by (simp add: put_state_def)
  show ?thesis
  proof
    fix x assume "x \<in> live_ids m"
    then obtain p where p: "p \<in> set (tasks m) \<union> set (removedTasks m)" "x \<in> live_of (snd p)"
      by (auto simp: live_ids_def allTaskStates_def)
    show "x \<in> live_ids (put_state k ts' m) \<union> X"
    proof (cases "p \<in> set (removedTasks m) \<and> fst p = k")
      case True
      with inv r have "snd p = ts"
        by (metis map_of_distinct_unique mgr_inv_def prod.collapse)
      with p le have "x \<in> live_of ts' \<union> X" by auto
      with AList_update_new [of k ts' "removedTasks m"] show ?thesis
        unfolding ps by (force simp: live_ids_def allTaskStates_def)
    next
      case False
      with p(1) have "p \<in> set (tasks m) \<union> set (AList.update k ts' (removedTasks m))"
        using AList_update_keeps [of p "removedTasks m" k ts'] by auto
      with p(2) show ?thesis unfolding ps by (auto simp: live_ids_def allTaskStates_def)
    qed
  qed
qed

lemma live_of_simps [simp]:
  "live_of (signal ts) = live_of ts"
  "live_of (ts\<lparr>supervisor := s\<rparr>) = live_of ts"
  "live_of (ts\<lparr>drain := d\<rparr>) = live_of ts"
  "live_of (ts\<lparr>removed := r\<rparr>) = live_of ts"
  "live_of (ts\<lparr>cond := c\<rparr>) = live_of ts"
  "live_of (ts\<lparr>bookkeepingStop := b\<rparr>) = live_of ts"
  "live_of (ts\<lparr>ts_task := t\<rparr>) = live_of ts"
  by (simp_all add: live_of_def)

lemma live_of_on_active [simp]: "keeps f \<Longrightarrow> live_of (on_active f ts) = live_of ts"
  by (simp add: live_of_def keeps_def image_image)

section \<open>Triggering keeps runs alive\<close>

lemma live_startRun:
  assumes inv: "mgr_inv m" and ts: "map_of (tasks m) (Name task) = Some ts"
  shows "live_ids m \<subseteq> live_ids (startRun task run m)" "ID run \<in> live_ids (startRun task run m)"
proof -
  let ?ts = "ts\<lparr>active := active ts @ [fresh_active m task run]\<rparr>"
  have e: "startRun task run m = put_task (Name task) ?ts m" using ts by (simp add: startRun_alt)
  have "live_of ts \<subseteq> live_of ?ts" "ID run \<in> live_of ?ts"
    by (auto simp: live_of_def fresh_active_def)
  then show "live_ids m \<subseteq> live_ids (startRun task run m)" "ID run \<in> live_ids (startRun task run m)"
    unfolding e using live_put_task_mono [OF inv ts, of ?ts "{}"] live_put_task(1) [OF inv, of ?ts "Name task"]
    by auto
qed

lemma live_evaluate:
  assumes "evaluateConcurrency ts run n = Some (a, e, ts')"
  shows "live_of ts \<subseteq> live_of ts'" "a = actionQueued \<Longrightarrow> ID run \<in> live_of ts'"
proof -
  have c: "live_of (cancelExcessRuns ts n) = live_of ts"
    using cancel_oldest_keeps [of "int (live_runs (active ts)) - n + 1" "active ts"]
    unfolding live_of_def cancelExcessRuns_def
    by (simp, metis (no_types, lifting) list.set_map)
  show "live_of ts \<subseteq> live_of ts'" "a = actionQueued \<Longrightarrow> ID run \<in> live_of ts'"
    using assms c
    by (auto simp: evaluateConcurrency_def Let_def live_of_def
        split: if_splits ConcurrencyPolicy.splits)
qed

lemma live_admit_plain:
  assumes inv: "mgr_inv m" and ts: "map_of (tasks m) k = Some ts" and run: "run_ok k run"
    and plain: "\<not> IsService (TKind (ts_task ts))" and sd: "\<not> isShutdown m"
    and ad: "admit ts run m = ((ro, err), m')"
  shows "live_ids m \<subseteq> live_ids m'"
    "ro = Some r \<Longrightarrow> err = None \<Longrightarrow> r = run \<and> ID run \<in> live_ids m'"
proof -
  note lk = inv_lookup [OF inv ts]
  obtain a e ts' where ev: "evaluateConcurrency ts run (MaxConcurrentValue (ts_task ts)) = Some (a, e, ts')"
    and ts': "state_ok (isShutdown m) k ts'" "\<not> removed ts'" "ts_task ts' = ts_task ts"
    using state_ok_evaluate [OF lk(1) run lk(2)] sd by fastforce
  have p: "mgr_inv (put_task k ts' m)" by (rule inv_put_task) (use inv ts ts' in auto)
  note le = live_evaluate [OF ev]
  have l1: "live_ids m \<subseteq> live_ids (put_task k ts' m)"
    using live_put_task_mono [OF inv ts, of ts' "{}"] le by simp
  have l2: "live_of ts' \<subseteq> live_ids (put_task k ts' m)" by (rule live_put_task [OF inv])
  have st: "live_ids (put_task k ts' m) \<subseteq> live_ids (startRun (ts_task ts) run (put_task k ts' m))"
    "ID run \<in> live_ids (startRun (ts_task ts) run (put_task k ts' m))"
    by (rule live_startRun [OF p, of "ts_task ts" ts' run]; use lk in simp)+
  have er: "a = actionRejected \<or> a = actionQueueFull \<Longrightarrow> e \<noteq> None"
    using ev by (auto simp: evaluateConcurrency_def Let_def split: if_splits ConcurrencyPolicy.splits)
  show "live_ids m \<subseteq> live_ids m'"
    using ad ev plain l1 st lk
    by (cases a) (auto simp: admit_def Let_def end_unexecuted_def publishTerminal_def)
  show "ro = Some r \<Longrightarrow> err = None \<Longrightarrow> r = run \<and> ID run \<in> live_ids m'"
    using ad ev plain l2 le(2) st er lk
    by (cases a) (auto simp: admit_def Let_def end_unexecuted_def publishTerminal_def)
qed

lemma live_Trigger:
  assumes inv: "mgr_inv m" and ra: "0 \<le> o_RetryAttempt opts"
    and tr: "TriggerRunWithOptions name opts m = ((ro, err), m')"
  shows "live_ids m \<subseteq> live_ids m' \<and> (\<forall>r. ro = Some r \<and> err = None \<longrightarrow> ID r \<in> live_ids m')"
proof (cases "isShutdown m \<or> map_of (tasks m) name = None")
  case True
  then have "\<exists>e. TriggerRunWithOptions name opts m = ((None, Some e), m)"
    by (auto simp add: TriggerRunWithOptions_def)
  with tr show ?thesis by auto
next
  case False
  then obtain ts where ts: "map_of (tasks m) name = Some ts" and sd: "\<not> isShutdown m" by auto
  note lk = inv_lookup [OF inv ts]
  show ?thesis
  proof (cases "resolve_params m ts (o_Params opts)")
    case (Inl e)
    with tr ts sd show ?thesis by (auto simp: TriggerRunWithOptions_def)
  next
    case (Inr params)
    let ?svc = "IsService (TKind (ts_task ts))"
    define run where "run i = build_run name opts ?svc i params (ulid m (minted m)) (clock m)" for i
    have ro: "run_ok name (run i)" for i using ra by (simp add: run_def run_ok_def)
    show ?thesis
    proof (cases ?svc)
      case False
      define m1 where "m1 = emit [PersistNew (run 0), Publish EventRunCreated (run 0) []]
        (snd (mint (put_task name ts m)))"
      have i1: "mgr_inv m1" unfolding m1_def
        by simp (rule inv_put_task, use inv ts lk in auto)
      have t1: "map_of (tasks m1) name = Some ts" "\<not> isShutdown m1" using sd by (simp_all add: m1_def)
      have l1: "live_ids m \<subseteq> live_ids m1"
        using live_put_task_mono [OF inv ts, of ts "{}"] by (simp add: m1_def)
      have ad: "admit ts (run 0) m1 = ((ro, err), m')"
        using tr False sd ts Inr
        by (simp add: TriggerRunWithOptions_def reserve_instance_def mint_def m1_def run_def put_task_def
              Let_def)
      from live_admit_plain [OF i1 t1(1) ro False t1(2) ad] l1 show ?thesis
        by (metis subset_trans)
    next
      case True
      then obtain s where s: "supervisor ts = Some s"
        using lk(1) by (cases "supervisor ts") (auto simp: state_ok_def sup_ok_state_def)
      show ?thesis
      proof (cases "Reserve (o_InstanceIndex opts) s")
        case (Inl e)
        with tr ts sd Inr True s show ?thesis
          by (auto simp: TriggerRunWithOptions_def reserve_instance_def)
      next
        case r: (Inr p)
        obtain i s' where p: "p = (i, s')" by (cases p)
        define m1 where "m1 = emit [PersistNew (run i), Publish EventRunCreated (run i) []]
          (snd (mint m))"
        let ?ts = "ts\<lparr>supervisor := Some s',
            active := active ts @ [fresh_active m1 (ts_task ts) (run i)]\<rparr>"
        have e: "TriggerRunWithOptions name opts m = ((Some (run i), None), put_task name ?ts m1)"
          using sd ts Inr True s r p lk(3)
          by (simp add: TriggerRunWithOptions_def reserve_instance_def mint_def m1_def run_def
              admit_def startRun_alt put_task_def emit_def fresh_active_def map_of_AList_update Let_def)
        have i1: "mgr_inv m1" and t1: "map_of (tasks m1) name = Some ts"
          using inv ts by (simp_all add: m1_def)
        have "live_of ts \<subseteq> live_of ?ts \<union> {}" "ID (run i) \<in> live_of ?ts"
          by (auto simp: live_of_def)
        with live_put_task_mono [OF i1 t1 this(1)] live_put_task(1) [OF i1, of ?ts name] e tr
        show ?thesis by (auto simp: m1_def)
      qed
    qed
  qed
qed

lemma triggerJittered_snd:
  "snd (triggerJittered t k m) = m \<or> snd (triggerJittered t k m) =
     snd (TriggerRunWithOptions t (no_options\<lparr>o_TriggeredBy := Some TriggeredByCron, o_ScheduledAt := k\<rparr>) m)"
  by (auto simp: triggerJittered_def Let_def split: prod.split option.split)

lemma triggerJittered_Some:
  "triggerJittered t k m = (Some rid, m') \<Longrightarrow>
     \<exists>r. TriggerRunWithOptions t (no_options\<lparr>o_TriggeredBy := Some TriggeredByCron, o_ScheduledAt := k\<rparr>) m =
       ((Some r, None), m') \<and> rid = ID r"
  by (auto simp: triggerJittered_def Let_def split: prod.splits option.splits if_splits)

lemma no_options_attempt [simp]: "o_RetryAttempt (no_options\<lparr>o_TriggeredBy := b, o_ScheduledAt := k\<rparr>) = 0"
  by (simp add: no_options_def)

section \<open>What the tails hold\<close>

text \<open>No operation of the manager touches the tails: only the end of a run and the orphans of a
  registration add one, and only its own goroutine shortens it.\<close>

lemma tails_frames [simp]:
  "tails (emit es m) = tails m"
  "tails (panic m) = tails m"
  "tails (put_task k ts m) = tails m"
  "tails (put_state k ts m) = tails m"
  "tails (snd (mint m)) = tails m"
  "tails (publishTerminal ev r msg m) = tails m"
  "tails (startRun task run m) = tails m"
  "tails (scheduleFollowup task run a m) = tails m"
  "tails (drain_wait k ts m) = tails m"
  "tails (mark_live task run m) = tails m"
  "tails (markServiceHealthy k run m) = tails m"
  "tails (on_states f m) = tails m"
  "tails (SetSchedulePaused p m) = tails m"
  "tails (reapRetiredTaskState task ts m) = tails m"
  by (simp_all add: emit_def panic_def put_task_def put_state_def mint_def publishTerminal_def
      startRun_def scheduleFollowup_def drain_wait_def mark_live_def markServiceHealthy_def
      on_states_def SetSchedulePaused_def reapRetiredTaskState_def split: option.split)

lemma tails_admit [simp]: "tails (snd (admit ts run m)) = tails m"
  by (auto simp: admit_def Let_def end_unexecuted_def split: option.split concurrencyAction.split)

lemma tails_Trigger [simp]: "tails (snd (TriggerRunWithOptions k opts m)) = tails m"
proof -
  have "mint m = (rid, m') \<Longrightarrow> tails m' = tails m" for rid m m' by (metis snd_conv tails_frames(5))
  then show ?thesis
    by (auto simp: TriggerRunWithOptions_def Let_def
        split: option.split sum.split prod.split mgrError.split)
qed

lemma tails_triggerJittered [simp]: "tails (snd (triggerJittered t k m)) = tails m"
  by (metis tails_Trigger triggerJittered_snd)

lemma tails_drain_loop [simp]: "tails (drain_loop q k m) = tails m"
  by (induction q k m rule: drain_loop.induct) (auto split: option.split)

lemma tails_queueProcessLoop [simp]: "tails (queueProcessLoop k m) = tails m"
  by (simp add: queueProcessLoop_def split: option.split)

lemma tails_execute_begin [simp]: "tails (execute_begin k rid m) = tails m"
  by (auto simp: execute_begin_def Let_def split: option.split)

lemma tails_retireRun [simp]: "tails (snd (retireRun task run d reason code m)) = tails m"
  by (auto simp: retireRun_def Let_def split: option.split prod.split bool.split)

lemma tails_phantom [simp]: "tails (snd (recordPhantomRun k at e b msg m)) = tails m"
  by (auto simp: recordPhantomRun_def mint_def Let_def split: option.split)

lemma tails_update_any: "update_any_active P f m = Some m' \<Longrightarrow> tails m' = tails m"
  by (auto simp: update_any_active_def split: option.splits)

lemma tails_cancel [simp]: "tails (snd (cancelActiveRun P n m)) = tails m"
  by (auto simp: cancelActiveRun_def tails_update_any split: option.split)

lemma tails_registerForceKill [simp]: "tails (registerForceKill rid m) = tails m"
  by (cases "update_any_active (\<lambda>ar. ID (ar_run ar) = rid) (\<lambda>ar. ar\<lparr>ar_forceKill := True\<rparr>) m")
    (auto simp: registerForceKill_def dest: tails_update_any)

lemma tails_follow [simp]: "tails (follow f m) = tails m"
  by (cases f) (auto simp: spawn_wait_def retry_now_def restart_now_def Let_def split: option.split)

lemma tails_run_followup [simp]: "tails (run_followup i m) = tails m"
  by (simp add: run_followup_def)

lemma tails_StartServiceInstances [simp]: "tails (snd (StartServiceInstances k b m)) = tails m"
proof -
  have "tails (fold (\<lambda>i m. snd (TriggerRunWithOptions k (instance_options b i) m)) js m) = tails m" for js m
    by (induction js arbitrary: m) simp_all
  then show ?thesis by (simp add: StartServiceInstances_def split: sum.split option.split)
qed

lemma tails_service_controls [simp]:
  "tails (snd (StartService k m)) = tails m"
  "tails (snd (RestartServiceInstances k m)) = tails m"
  "tails (snd (RecycleServiceInstances k m)) = tails m"
  "tails (snd (StopService k m)) = tails m"
  by (simp_all add: StartService_def RestartServiceInstances_def RecycleServiceInstances_def
      StopService_def with_supervisor_def Let_def split: sum.split option.split)

lemma tails_load_one: "tails (fst (snd (load_one r s))) = tails (fst (snd s))"
  by (cases s) (auto simp: load_one_def resumePendingRun_def requeuePendingRun_def
      restartOrFailPendingRun_def Let_def split: option.split)

lemma tails_LoadPendingRuns [simp]: "tails (snd (LoadPendingRuns runs m)) = tails m"
proof -
  have "tails (fold (\<lambda>r. publishTerminal EventRunFailed r []) rs m) = tails m" for rs m
    by (induction rs arbitrary: m) simp_all
  moreover have "tails (fst (snd (fold load_one runs s))) = tails (fst (snd s))" for s
    by (induction runs arbitrary: s) (simp_all add: tails_load_one)
  from this [of "([], m, \<lparr>Resumed = 0, Queued = 0, Skipped = 0, Failed = 0\<rparr>)"]
  have "fold load_one runs ([], m, \<lparr>Resumed = 0, Queued = 0, Skipped = 0, Failed = 0\<rparr>) = (e, m', r)
      \<Longrightarrow> tails m' = tails m" for e m' r by simp
  ultimately show ?thesis by (simp add: LoadPendingRuns_def split: prod.split)
qed

lemma tails_upsert: "upsertTaskLocked task m = (runs, m') \<Longrightarrow> tails m' = tails m"
  by (auto simp: upsertTaskLocked_def attach_state_def split: prod.splits option.splits)

lemma tails_remove: "removeTaskLocked k m = (runs, m') \<Longrightarrow> tails m' = tails m"
  by (auto simp: removeTaskLocked_def Let_def split: prod.splits option.splits if_splits)

text \<open>The runs whose goroutine still has to tell the gate that they ended.\<close>

definition reporting :: "manager \<Rightarrow> string set" where
  "reporting m = {rid. \<exists>t\<in>set (tails m). TailComplete rid \<in> set t}"

text \<open>A follow-up is decided on a run with a sound attempt number.\<close>

fun action_ok :: "tailAction \<Rightarrow> bool" where
  "action_ok (TailFollow task run n) \<longleftrightarrow> 0 \<le> RetryAttempt run"
| "action_ok _ \<longleftrightarrow> True"

definition tails_ok :: "manager \<Rightarrow> bool" where
  "tails_ok m \<longleftrightarrow> (\<forall>t\<in>set (tails m). \<forall>a\<in>set t. action_ok a)"

lemma tails_cong:
  "tails m' = tails m \<Longrightarrow> reporting m' = reporting m"
  "tails m' = tails m \<Longrightarrow> tails_ok m' = tails_ok m"
  by (simp_all add: reporting_def tails_ok_def)

lemma spawn_tail_simps [simp]:
  "reporting (spawn_tail as m) = reporting m \<union> {rid. TailComplete rid \<in> set as}"
  "tails_ok (spawn_tail as m) \<longleftrightarrow> tails_ok m \<and> (\<forall>a\<in>set as. action_ok a)"
  "live_ids (spawn_tail as m) = live_ids m"
  "mgr_inv (spawn_tail as m) = mgr_inv m"
  by (auto simp: spawn_tail_def reporting_def tails_ok_def live_ids_def allTaskStates_def mgr_inv_def)

lemma orphan_tail_simps [simp]:
  "{rid. TailComplete rid \<in> set (orphan_tail runs)} = ID ` set runs"
  "\<forall>a\<in>set (orphan_tail runs). action_ok a"
  by (auto simp: orphan_tail_def)

lemma set_rest_tails:
  "i < length ts \<Longrightarrow> ts ! i = a # as \<Longrightarrow>
     set ts \<subseteq> insert (a # as) (set (rest_tails i ts)) \<and> set (rest_tails i ts) \<subseteq> insert as (set ts)
     \<and> (as \<noteq> [] \<longrightarrow> as \<in> set (rest_tails i ts))"
proof -
  assume i: "i < length ts" "ts ! i = a # as"
  have "ts = take i ts @ (a # as) # drop (Suc i) ts" using i by (metis id_take_nth_drop)
  moreover have "ts[i := as] = take i ts @ as # drop (Suc i) ts" using i(1) by (rule upd_conv_take_nth_drop)
  ultimately have "set ts = insert (a # as) (set (take i ts) \<union> set (drop (Suc i) ts))"
    "set (ts[i := as]) = insert as (set (take i ts) \<union> set (drop (Suc i) ts))"
    by (metis list.simps(15) set_append Un_insert_right)+
  then show ?thesis using i by (auto simp: rest_tails_def)
qed

interpretation tails_kept: run_hook triggerJittered "\<lambda>m. tails m = T" "\<lambda>_. UNIV" for T
  by unfold_locales simp_all

lemma tails_gate [simp]:
  "tails (snd (gate_complete rid d)) = tails (snd d)"
  "tails (snd (ScheduleJitteredRun k tick sl window d)) = tails (snd d)"
  "tails (snd (breach_timer k d)) = tails (snd d)"
proof -
  have d: "tails_kept.gate_tracked (tails (snd d)) UNIV d"
    by (simp add: tails_kept.gate_tracked_def tails_kept.tracked_def)
  then have d': "tails_kept.gate_tracked (tails (snd d)) (insert rid UNIV) d" by simp
  show "tails (snd (gate_complete rid d)) = tails (snd d)"
    using tails_kept.tracked_complete [OF d']
    by (simp add: gate_complete_def tails_kept.gate_tracked_def tails_kept.tracked_def)
  show "tails (snd (ScheduleJitteredRun k tick sl window d)) = tails (snd d)"
    using tails_kept.tracked_submit [OF d]
    by (simp add: ScheduleJitteredRun_def tails_kept.gate_tracked_def tails_kept.tracked_def)
  show "tails (snd (breach_timer k d)) = tails (snd d)"
    using tails_kept.tracked_breach [OF d]
    by (simp add: breach_timer_def tails_kept.gate_tracked_def tails_kept.tracked_def)
qed

interpretation hook: run_hook triggerJittered mgr_inv live_ids
proof unfold_locales
  fix m t k
  let ?o = "no_options\<lparr>o_TriggeredBy := Some TriggeredByCron, o_ScheduledAt := k\<rparr>"
  assume inv: "mgr_inv m"
  show "mgr_inv (snd (triggerJittered t k m))"
    using triggerJittered_snd [of t k m] inv inv_Trigger [OF inv, of ?o t] by auto
  obtain ro err m' where tr: "TriggerRunWithOptions t ?o m = ((ro, err), m')" by (metis prod.exhaust)
  show "live_ids m \<subseteq> live_ids (snd (triggerJittered t k m))"
    using triggerJittered_snd [of t k m] live_Trigger [OF inv _ tr] tr by auto
next
  fix m t k rid m'
  assume inv: "mgr_inv m" and tr: "triggerJittered t k m = (Some rid, m')"
  from triggerJittered_Some [OF tr] live_Trigger [OF inv] show "rid \<in> live_ids m'"
    by (metis no_options_attempt order_refl)
qed

section \<open>Events\<close>

datatype mgr_event =
    EvTick duration
  | EvUpsert Task
  | EvMutate string "Task \<Rightarrow> unit + Task"
  | EvRemove string
  | EvTrigger string TriggerRunOptions
  | EvJittered string instant instant duration
  | EvBreach string
  | EvPhantom string instant EndReason TriggeredBy string
  | EvBegin string string
  | EvEnd string string ExecuteResult
  | EvTail nat
  | EvProcessStarted string
  | EvHealthy string string
  | EvDrain string
  | EvFollow nat
  | EvStopTask string
  | EvTerminate string
  | EvTerminateExec string
  | EvStartInstances string TriggeredBy
  | EvStartService string
  | EvRestartService string
  | EvRecycleService string
  | EvStopService string
  | EvLoadPending "Run list"
  | EvSetPaused "string \<Rightarrow> bool"
  | EvBeginShutdown
  | EvShutdownCancel
  | EvDeadline

fun daemon_step :: "mgr_event \<Rightarrow> daemon \<Rightarrow> daemon" where
  "daemon_step (EvTick t) d = on_manager (\<lambda>m. m\<lparr>clock := clock m + t\<rparr>) d"
| "daemon_step (EvUpsert task) d = UpsertTask_begin task d"
| "daemon_step (EvMutate k f) d = snd (MutateTask k f d)"
| "daemon_step (EvRemove k) d = RemoveTask_begin k d"
| "daemon_step (EvTrigger k opts) d = on_manager (\<lambda>m. snd (TriggerRunWithOptions k opts m)) d"
| "daemon_step (EvJittered k tick sl window) d = ScheduleJitteredRun k tick sl window d"
| "daemon_step (EvBreach k) d = breach_timer k d"
| "daemon_step (EvPhantom k at e b msg) d = on_manager (\<lambda>m. snd (recordPhantomRun k at e b msg m)) d"
| "daemon_step (EvBegin k rid) d = on_manager (execute_begin k rid) d"
| "daemon_step (EvEnd k rid res) d = execute_end k rid res d"
| "daemon_step (EvTail i) d = run_tail i d"
| "daemon_step (EvProcessStarted rid) d = on_manager (registerForceKill rid) d"
| "daemon_step (EvHealthy k rid) d = on_manager (\<lambda>m.
     case find_active k rid m of
       None \<Rightarrow> m
     | Some ar \<Rightarrow> if IsService (TKind (ar_task ar)) then markServiceHealthy k (ar_run ar) m else m) d"
| "daemon_step (EvDrain k) d = on_manager (queueProcessLoop k) d"
| "daemon_step (EvFollow i) d = on_manager (run_followup i) d"
| "daemon_step (EvStopTask k) d = snd (StopTask k d)"
| "daemon_step (EvTerminate rid) d = on_manager (\<lambda>m. snd (TerminateRun rid m)) d"
| "daemon_step (EvTerminateExec eid) d = on_manager (\<lambda>m. snd (TerminateRunByExecutionID eid m)) d"
| "daemon_step (EvStartInstances k b) d = on_manager (\<lambda>m. snd (StartServiceInstances k b m)) d"
| "daemon_step (EvStartService k) d = on_manager (\<lambda>m. snd (StartService k m)) d"
| "daemon_step (EvRestartService k) d = on_manager (\<lambda>m. snd (RestartServiceInstances k m)) d"
| "daemon_step (EvRecycleService k) d = on_manager (\<lambda>m. snd (RecycleServiceInstances k m)) d"
| "daemon_step (EvStopService k) d = on_manager (\<lambda>m. snd (StopService k m)) d"
| "daemon_step (EvLoadPending rs) d = on_manager (\<lambda>m. snd (LoadPendingRuns rs m)) d"
| "daemon_step (EvSetPaused f) d = on_manager (SetSchedulePaused f) d"
| "daemon_step EvBeginShutdown d = BeginShutdown d"
| "daemon_step EvShutdownCancel d = shutdown_cancel d"
| "daemon_step EvDeadline d = on_manager deadline_passed d"

text \<open>What the callers guarantee: validated definitions, non-negative attempts, a slot inside its
  window, pending rows of the database and no recovery once shutdown began.\<close>

fun daemon_ok :: "mgr_event \<Rightarrow> daemon \<Rightarrow> bool" where
  "daemon_ok (EvTick t) d \<longleftrightarrow> 0 \<le> t"
| "daemon_ok (EvUpsert task) d \<longleftrightarrow> task_ok task"
| "daemon_ok (EvMutate k f) d \<longleftrightarrow>
     (case map_of (tasks (snd d)) k of
        None \<Rightarrow> True
      | Some ts \<Rightarrow> (case f (ts_task ts) of Inl _ \<Rightarrow> True | Inr task \<Rightarrow> task_ok task))"
| "daemon_ok (EvTrigger k opts) d \<longleftrightarrow> 0 \<le> o_RetryAttempt opts"
| "daemon_ok (EvJittered k tick sl window) d \<longleftrightarrow> sl \<le> tick + window"
| "daemon_ok (EvLoadPending rs) d \<longleftrightarrow> \<not> isShutdown (snd d) \<and> list_all pending_row rs"
| "daemon_ok _ d \<longleftrightarrow> True"

definition daemon_inv :: "daemon \<Rightarrow> bool" where
  "daemon_inv d \<longleftrightarrow> gate_inv (fst d) \<and> mgr_inv (snd d) \<and> tails_ok (snd d)
     \<and> fst ` set (inflight (fst d)) \<subseteq> live_ids (snd d) \<union> reporting (snd d)"

lemma daemon_inv_tracked:
  "daemon_inv d \<longleftrightarrow>
     gate_inv (fst d) \<and> tails_ok (snd d) \<and> hook.gate_tracked (reporting (snd d)) d"
  by (auto simp: daemon_inv_def hook.gate_tracked_def hook.tracked_def)

lemma inv_on_manager:
  assumes d: "daemon_inv d" and f: "mgr_inv (f (snd d))" "live_ids (snd d) \<subseteq> live_ids (f (snd d))"
    "tails (f (snd d)) = tails (snd d)"
  shows "daemon_inv (on_manager f d)"
  using d f(1,2) tails_cong [OF f(3)] by (auto simp: daemon_inv_def on_manager_def)

text \<open>What a locked section leaves to its caller's tail.\<close>

lemma inv_spawn:
  assumes d: "daemon_inv d" and m: "mgr_inv m" "live_ids (snd d) \<subseteq> live_ids m \<union> X"
    and t: "tails m = tails (snd d)"
    and as: "\<forall>a\<in>set as. action_ok a" "X \<subseteq> {rid. TailComplete rid \<in> set as}"
  shows "daemon_inv (fst d, spawn_tail as m)"
proof -
  have "fst ` set (inflight (fst d)) \<subseteq> live_ids (snd d) \<union> reporting (snd d)"
    using d by (simp add: daemon_inv_def)
  then have "fst ` set (inflight (fst d)) \<subseteq> live_ids m \<union> (reporting m \<union> {rid. TailComplete rid \<in> set as})"
    using m(2) as(2) tails_cong(1) [OF t] by blast
  then show ?thesis using d m(1) as(1) tails_cong(2) [OF t] by (simp add: daemon_inv_def)
qed

lemma gate_complete_inv:
  "gate_inv (fst d) \<Longrightarrow> hook.gate_tracked (insert rid X) d \<Longrightarrow>
     gate_inv (fst (gate_complete rid d)) \<and> hook.gate_tracked X (gate_complete rid d)"
  by (simp add: gate_complete_def onComplete_inv hook.tracked_complete)

lemma retireOrphaned_inv:
  "gate_inv (fst d) \<Longrightarrow> tails_ok (snd d) \<Longrightarrow>
     hook.gate_tracked (ID ` set runs \<union> reporting (snd d)) d \<Longrightarrow> daemon_inv (retireOrphaned runs d)"
proof (induction runs arbitrary: d)
  case Nil
  then show ?case by (simp add: retireOrphaned_def daemon_inv_tracked)
next
  case (Cons r rs)
  let ?g = "gate_complete (ID r) d"
  let ?d = "on_manager (publishTerminal EventRunFailed r []) ?g"
  have t: "tails (snd ?d) = tails (snd d)" by (simp add: on_manager_def)
  have "gate_inv (fst ?g) \<and> hook.gate_tracked (ID ` set rs \<union> reporting (snd d)) ?g"
    by (rule gate_complete_inv) (use Cons.prems in auto)
  then have "gate_inv (fst ?d)" "hook.gate_tracked (ID ` set rs \<union> reporting (snd d)) ?d"
    by (simp_all add: on_manager_def publishTerminal_def hook.gate_tracked_def hook.tracked_def)
  with Cons.IH [of ?d] Cons.prems(2) tails_cong [OF t] show ?case by (simp add: retireOrphaned_def)
qed

lemma live_scheduleFollowup [simp]: "live_ids (scheduleFollowup task run a m) = live_ids m"
  by (simp add: scheduleFollowup_def)

text \<open>A step of a tail: the gate hears of the run the action names, nothing else changes its account.\<close>

lemma tail_action_inv:
  assumes g: "gate_inv (fst d)" "mgr_inv (snd d)" "tails_ok (snd d)" and a: "action_ok a"
    and sub: "fst ` set (inflight (fst d)) \<subseteq>
      live_ids (snd d) \<union> reporting (snd d) \<union> {rid. a = TailComplete rid}"
  shows "daemon_inv (tail_action a d)"
proof (cases a)
  case (TailComplete rid)
  let ?d = "gate_complete rid d"
  have "gate_inv (fst ?d) \<and> hook.gate_tracked (reporting (snd d)) ?d"
    by (rule gate_complete_inv)
      (use g sub TailComplete in \<open>auto simp: hook.gate_tracked_def hook.tracked_def\<close>)
  with TailComplete g(3) tails_cong [of "snd ?d" "snd d"] show ?thesis by (simp add: daemon_inv_tracked)
next
  case (TailFollow task run n)
  with g sub a have "daemon_inv d" by (simp add: daemon_inv_def)
  then show ?thesis unfolding TailFollow tail_action.simps
    by (rule inv_on_manager) (use g a TailFollow in \<open>simp_all add: inv_scheduleFollowup\<close>)
qed (use g sub in \<open>auto simp: daemon_inv_def on_manager_def publishTerminal_def tails_cong [of "emit _ _"]\<close>)

lemma run_tail_inv: "daemon_inv d \<Longrightarrow> daemon_inv (run_tail i d)"
proof (cases "i < length (tails (snd d)) \<and> tails (snd d) ! i \<noteq> []")
  case True
  assume d: "daemon_inv d"
  let ?r = "rest_tails i (tails (snd d))"
  let ?d = "on_manager (\<lambda>m. m\<lparr>tails := rest_tails i (tails m)\<rparr>) d"
  obtain a as where t: "tails (snd d) ! i = a # as" using True by (auto simp: neq_Nil_conv)
  have ok: "tails_ok (snd d)" using d by (simp add: daemon_inv_def)
  have in_tails: "a # as \<in> set (tails (snd d))" using True t by (metis nth_mem)
  note rest = set_rest_tails [OF conjunct1 [OF True] t]
  have live: "live_ids (snd ?d) = live_ids (snd d)"
    by (rule live_ids_cong) (simp_all add: on_manager_def)
  have inv: "gate_inv (fst ?d)" "mgr_inv (snd ?d)" "fst ?d = fst d"
    using d by (simp_all add: daemon_inv_def on_manager_def mgr_inv_def)
  have tok: "tails_ok (snd ?d)" using ok rest in_tails by (auto simp: tails_ok_def on_manager_def)
  have "reporting (snd d) \<subseteq> reporting (snd ?d) \<union> {rid. a = TailComplete rid}"
    using rest by (force simp: reporting_def on_manager_def)
  with d live inv(3) have "fst ` set (inflight (fst ?d)) \<subseteq>
      live_ids (snd ?d) \<union> reporting (snd ?d) \<union> {rid. a = TailComplete rid}"
    by (auto simp: daemon_inv_def)
  moreover have "action_ok a" using ok in_tails by (auto simp: tails_ok_def)
  ultimately have "daemon_inv (tail_action a ?d)" by (intro tail_action_inv inv tok) auto
  with True t show ?thesis by (simp add: run_tail_def)
qed (auto simp: run_tail_def)

section \<open>Every step keeps the invariant\<close>

lemma live_of_map_run: "live_of ts = set (map (ID \<circ> ar_run) (active ts)) \<union> ID ` set (queue ts)"
  by (auto simp: live_of_def)

lemma orphan_ids [simp]: "ID ` endOrphanedPending now ` X = ID ` X"
  by (simp add: endOrphanedPending_def image_image)

lemma live_install:
  "install_queue now task ts = (runs, es, ts') \<Longrightarrow> live_of ts \<subseteq> live_of ts' \<union> ID ` set runs"
  by (auto simp: install_queue_def finalize_simps live_of_def image_Un split: if_splits)

lemma live_install_supervisor [simp]: "live_of (install_supervisor task ts) = live_of ts"
  by (simp add: live_of_def)

lemma live_attach:
  assumes inv: "mgr_inv m" and at: "attach_state task m = (ts, m1)"
  shows "live_ids m \<subseteq> live_ids m1 \<union> live_of ts"
    "case map_of (tasks m1) (Name task) of None \<Rightarrow> True | Some t \<Rightarrow> t = ts"
proof -
  let ?k = "Name task"
  have "live_ids m \<subseteq> live_ids (m\<lparr>removedTasks := AList.delete ?k (removedTasks m)\<rparr>) \<union> live_of t"
    if t: "map_of (removedTasks m) ?k = Some t" for t
  proof
    fix x assume "x \<in> live_ids m"
    then obtain j ts where p: "(j, ts) \<in> set (tasks m) \<or> (j, ts) \<in> set (removedTasks m)"
      "x \<in> live_of ts" by (auto simp: live_ids_iff)
    show "x \<in> live_ids (m\<lparr>removedTasks := AList.delete ?k (removedTasks m)\<rparr>) \<union> live_of t"
    proof (cases "(j, ts) \<in> set (removedTasks m) \<and> j = ?k")
      case True
      with inv t have "ts = t" by (metis map_of_distinct_unique mgr_inv_def)
      with p show ?thesis by simp
    next
      case False
      with p show ?thesis by (fastforce simp: live_ids_iff set_AList_delete)
    qed
  qed
  then show "live_ids m \<subseteq> live_ids m1 \<union> live_of ts"
    "case map_of (tasks m1) (Name task) of None \<Rightarrow> True | Some t \<Rightarrow> t = ts"
    using at by (auto simp: attach_state_def split: option.splits)
qed

lemma live_upsert:
  assumes inv: "mgr_inv m" and u: "upsertTaskLocked task m = (runs, m')"
  shows "live_ids m \<subseteq> live_ids m' \<union> ID ` set runs"
proof -
  obtain ts m1 where at: "attach_state task m = (ts, m1)" by (cases "attach_state task m")
  obtain rs es ts' where iq: "install_queue (clock m) task
      (install_supervisor task (ts\<lparr>ts_task := task\<rparr>)) = (rs, es, ts')" by (metis prod_cases3)
  have m1: "mgr_inv m1" using attach_state_ok [OF inv at] by simp
  have m': "runs = rs" "m' = emit es (put_task (Name task) ts' m1)"
    using u by (simp_all add: upsertTaskLocked_def at iq)
  have le: "live_of ts \<subseteq> live_of ts' \<union> ID ` set rs" using live_install [OF iq] by simp
  note p = live_put_task [OF m1]
  have "live_ids m1 \<subseteq> live_ids (put_task (Name task) ts' m1) \<union> live_of ts"
    using p(2) [of "Name task" ts'] live_attach(2) [OF inv at] by (auto split: option.splits)
  with live_attach(1) [OF inv at] le p(1) [of ts' "Name task"] m' show ?thesis by auto
qed

lemma removed_state_live:
  "live_of (removed_state now ts) \<union> (if cond ts then ID ` set (queue ts) else {}) = live_of ts"
proof -
  have "map (ID \<circ> ar_run) (active (removed_state now ts)) = map (ID \<circ> ar_run) (active ts)"
    using stop_removed_simps(6)
    by (simp add: removed_state_def Let_def map_map [symmetric] del: map_map)
  then have "ID ` ar_run ` set (active (removed_state now ts)) = ID ` ar_run ` set (active ts)"
    by (metis (no_types, lifting) image_comp list.set_map)
  moreover have "queue (removed_state now ts) = (if cond ts then [] else queue ts)"
    by (simp add: removed_state_def Let_def)
  ultimately show ?thesis by (auto simp: live_of_def image_Un)
qed

lemma live_delete_task:
  assumes inv: "mgr_inv m" and ts: "map_of (tasks m) k = Some ts"
  shows "live_ids m \<subseteq> live_ids (m\<lparr>tasks := AList.delete k (tasks m)\<rparr>) \<union> live_of ts"
proof
  fix x assume "x \<in> live_ids m"
  then obtain j t where p: "(j, t) \<in> set (tasks m) \<or> (j, t) \<in> set (removedTasks m)"
    "x \<in> live_of t" by (auto simp: live_ids_iff)
  show "x \<in> live_ids (m\<lparr>tasks := AList.delete k (tasks m)\<rparr>) \<union> live_of ts"
  proof (cases "(j, t) \<in> set (tasks m) \<and> j = k")
    case True
    with inv ts have "t = ts" by (metis map_of_distinct_unique mgr_inv_def)
    with p show ?thesis by simp
  next
    case False
    with p show ?thesis by (fastforce simp: live_ids_iff set_AList_delete)
  qed
qed

lemma live_remove:
  assumes inv: "mgr_inv m" and r: "removeTaskLocked k m = (runs, m')"
  shows "live_ids m \<subseteq> live_ids m' \<union> ID ` set runs"
proof (cases "map_of (tasks m) k")
  case None
  with r show ?thesis by (simp add: removeTaskLocked_def)
next
  case (Some ts)
  note lk = inv_lookup [OF inv Some]
  let ?m1 = "m\<lparr>tasks := AList.delete k (tasks m)\<rparr>"
  have runs: "ID ` set runs = (if cond ts then ID ` set (queue ts) else {})"
    using r by (auto simp: removeTaskLocked_alt [OF Some] Let_def endOrphanedPending_def image_image
        split: if_splits)
  have del: "live_ids m \<subseteq> live_ids ?m1 \<union> live_of ts" by (rule live_delete_task [OF inv Some])
  have "live_of ts = live_of (removed_state (clock m) ts) \<union> ID ` set runs"
    by (simp only: runs removed_state_live)
  moreover have "live_ids ?m1 \<subseteq> live_ids m' \<and> live_of (removed_state (clock m) ts) \<subseteq> live_ids m' \<union> ID ` set runs"
  proof (cases "active ts = []")
    case True
    then have m': "live_ids m' = live_ids ?m1"
      using r by (auto simp: removeTaskLocked_alt [OF Some] Let_def)
    have "queue ts \<noteq> [] \<Longrightarrow> cond ts" using lk by (auto simp: state_ok_def queue_ok_def)
    with True have "live_of ts \<subseteq> ID ` set runs" unfolding runs by (auto simp: live_of_def)
    with m' removed_state_live [of "clock m" ts] show ?thesis by auto
  next
    case False
    let ?r = "AList.update k (removed_state (clock m) ts) (removedTasks m)"
    have "tasks m' = AList.delete k (tasks m)" "removedTasks m' = ?r"
      using False r by (auto simp: removeTaskLocked_alt [OF Some] Let_def)
    moreover have "k \<notin> keys_of (removedTasks m)"
    proof -
      have "k \<in> keys_of (tasks m)" using Some map_of_None_keys [of "tasks m" k] by auto
      with inv show ?thesis by (auto simp: mgr_inv_def)
    qed
    then have "p \<in> set (removedTasks m) \<Longrightarrow> p \<in> set ?r" for p
      using AList_update_keeps [of p "removedTasks m" k] by (auto simp: keys_of_def)
    ultimately show ?thesis
      using AList_update_new [of k "removed_state (clock m) ts" "removedTasks m"]
      by (force simp: live_ids_def allTaskStates_def)
  qed
  ultimately show ?thesis using del by auto
qed

lemma live_drain_loop:
  "mgr_inv m \<Longrightarrow> taskStateFor m k = Some ts \<Longrightarrow> queue ts = q \<Longrightarrow> live_ids m \<subseteq> live_ids (drain_loop q k m)"
proof (induction q arbitrary: m ts)
  case Nil
  then show ?case
    using live_put_state [OF Nil.prems(1,2), of "ts\<lparr>drain := d\<rparr>" "{}" for d]
    by (simp add: drain_wait_def)
next
  case (Cons r rest)
  note inv = Cons.prems(1) and ts = Cons.prems(2) and q = Cons.prems(3)
  have w: "live_ids m \<subseteq> live_ids (put_state k (ts\<lparr>drain := d\<rparr>) m)" for d
    using live_put_state [OF inv ts, of "ts\<lparr>drain := d\<rparr>" "{}"] by simp
  show ?case
  proof (cases "MaxConcurrentValue (ts_task ts) \<le> int (length (active ts)) \<or> drain_stops m ts")
    case True
    with ts w show ?thesis by (auto simp: drain_wait_def)
  next
    case False
    let ?m = "startRun (ts_task ts) r (put_state k (ts\<lparr>queue := rest\<rparr>) m)"
    let ?ts = "ts\<lparr>queue := rest, active := active ts @ [fresh_active m (ts_task ts) r]\<rparr>"
    have plain: "\<not> IsService (TKind (ts_task ts))"
      using q inv_state_for [OF inv ts] by (intro drain_plain) auto
    note one = drain_one [OF inv ts q _ plain]
    have nr: "\<not> removed ts" using False by (simp add: drain_stops_def)
    have t: "map_of (tasks m) k = Some ts"
      using nr inv ts inv_lookup_removed by (auto simp: taskStateFor_def split: option.splits)
    have "?m = put_task k ?ts m"
      using t inv_lookup(3) [OF inv t]
      by (simp add: put_state_def startRun_alt fresh_active_def put_task_def map_of_AList_update)
    moreover have "live_of ts \<subseteq> live_of ?ts \<union> {}" using q by (auto simp: live_of_def)
    ultimately have le: "live_ids m \<subseteq> live_ids ?m"
      using live_put_task_mono [OF inv t, of ?ts "{}"] by (simp only: Un_empty_right)
    have "mgr_inv ?m" "taskStateFor ?m k = Some ?ts" using one False by simp_all
    then have "live_ids ?m \<subseteq> live_ids (drain_loop rest k ?m)" by (rule Cons.IH) simp
    moreover have "drain_loop (r # rest) k m = drain_loop rest k ?m" using False ts by simp
    ultimately show ?thesis using le by (simp only: subset_trans)
  qed
qed

lemma live_queueProcessLoop:
  assumes inv: "mgr_inv m"
  shows "live_ids m \<subseteq> live_ids (queueProcessLoop k m)"
proof (cases "taskStateFor m k")
  case None
  then show ?thesis by (simp add: queueProcessLoop_def)
next
  case (Some ts)
  have "live_ids m \<subseteq> live_ids (drain_loop (queue ts) k m)"
    by (rule live_drain_loop [OF inv Some refl])
  then show ?thesis by (cases "drain ts = DrainReady") (simp_all add: queueProcessLoop_def Some)
qed

text \<open>A retiring run leaves, every other stays.\<close>

lemma live_retired:
  assumes ok: "find (\<lambda>a. ID (ar_run a) = ID run) (active ts) = Some ar"
  shows "live_of ts \<subseteq> live_of (retired_state ar run d reason code ts) \<union> {ID run}"
proof -
  obtain as bs where sp: "active ts = as @ ar # bs" "\<forall>a\<in>set as. ID (ar_run a) \<noteq> ID run"
    "ID (ar_run ar) = ID run"
    using find_split [OF ok] by auto
  then have "remove_first (\<lambda>a. ID (ar_run a) = ID run) (active ts) = as @ bs"
    by (simp add: remove_first_split)
  then have "active (retired_state ar run d reason code ts) = as @ bs"
    "queue (retired_state ar run d reason code ts) = queue ts"
    by (simp_all add: retired_state_def Let_def)
  with sp show ?thesis by (auto simp: live_of_def)
qed

lemma live_reap:
  assumes inv: "mgr_inv m" and ts: "taskStateFor m k = Some ts0" and rem: "removed ts = removed ts0"
    and ok: "state_ok (isShutdown m) k ts" and n: "Name task = k"
    and le: "live_of ts0 \<subseteq> live_of ts \<union> X"
  shows "live_ids m \<subseteq> live_ids (reapRetiredTaskState task ts (put_state k ts m)) \<union> X"
proof (cases "active ts = [] \<and> queue ts = []")
  case False
  then have "removed ts \<Longrightarrow> active ts \<noteq> []" using ok by (auto simp: state_ok_def queue_ok_def)
  with False have "reapRetiredTaskState task ts (put_state k ts m) = put_state k ts m"
    by (auto simp: reapRetiredTaskState_def)
  then show ?thesis using live_put_state [OF inv ts le] by simp
next
  case True
  then have "live_of ts = {}" by (simp add: live_of_def)
  with le have le': "live_of ts0 \<subseteq> X" by simp
  show ?thesis
  proof (cases "map_of (tasks m) k")
    case (Some t)
    then have t: "t = ts0" using ts by (simp add: taskStateFor_def)
    with Some inv rem inv_lookup have nr: "\<not> removed ts" by simp
    have "live_ids m \<subseteq> live_ids (m\<lparr>tasks := AList.delete k (tasks m)\<rparr>) \<union> X"
      using live_delete_task [OF inv Some] t le' by auto
    moreover have "reapRetiredTaskState task ts (put_state k ts m) =
        (if Ephemeral (ts_task ts) then m\<lparr>tasks := AList.delete k (tasks m)\<rparr> else put_state k ts m)"
      using True nr n Some by (simp add: reapRetiredTaskState_def put_state_def put_task_def)
    ultimately show ?thesis using live_put_state [OF inv ts le] by simp
  next
    case None
    then have r: "map_of (removedTasks m) k = Some ts0" using ts by (simp add: taskStateFor_def)
    then have "removed ts" using inv_lookup_removed [OF inv r] rem by simp
    then have e: "reapRetiredTaskState task ts (put_state k ts m) =
        m\<lparr>removedTasks := AList.delete k (removedTasks m)\<rparr>"
      using True n None by (simp add: reapRetiredTaskState_def put_state_def)
    show ?thesis
    proof
      fix x assume "x \<in> live_ids m"
      then obtain j t where p: "(j, t) \<in> set (tasks m) \<or> (j, t) \<in> set (removedTasks m)"
        "x \<in> live_of t" by (auto simp: live_ids_iff)
      show "x \<in> live_ids (reapRetiredTaskState task ts (put_state k ts m)) \<union> X"
      proof (cases "(j, t) \<in> set (removedTasks m) \<and> j = k")
        case True
        with inv r have "t = ts0" by (metis map_of_distinct_unique mgr_inv_def)
        with p le' show ?thesis by auto
      next
        case False
        with p show ?thesis unfolding e by (fastforce simp: live_ids_iff set_AList_delete)
      qed
    qed
  qed
qed

lemma live_recordRunOutcome:
  assumes inv: "mgr_inv m" and ts: "taskStateFor m (Name (ar_task ar)) = Some ts"
    and ar: "find (\<lambda>a. ID (ar_run a) = ID (ar_run ar)) (active ts) = Some ar"
    and r: "recordRunOutcome (ar_task ar) (ar_run ar) st res m = ((nx, gu, run, as), m')"
  shows "live_ids m \<subseteq> live_ids m' \<union> {ID run}" "ID run = ID (ar_run ar)"
    "RetryAttempt run = RetryAttempt (ar_run ar)" "tails m' = tails m" "\<forall>a\<in>set as. action_ok a"
proof -
  let ?run = "(ar_run ar)\<lparr>OutputMatched := er_OutputMatched res\<rparr>"
  define reason where "reason = (if deadlineExceeded m then ReasonDaemonStopped else result_EndReason res)"
  obtain n f a m1 where rr: "retireRun (ar_task ar) ?run (time_sub (clock m) st) reason (er_ExitCode res) m =
      ((n, f, a), m1)" by (metis prod.exhaust)
  have f': "find (\<lambda>a. ID (ar_run a) = ID ?run) (active ts) = Some ar" using ar by simp
  note lk = inv_state_for [OF inv ts]
  have "state_ok (isShutdown m) (Name (ar_task ar))
      (retired_state ar ?run (time_sub (clock m) st) reason (er_ExitCode res) ts)"
    by (rule state_ok_retired [OF lk(1) f']) simp
  then have "live_ids m \<subseteq> live_ids (snd (retireRun (ar_task ar) ?run (time_sub (clock m) st) reason
      (er_ExitCode res) m)) \<union> {ID (ar_run ar)}"
    unfolding retireRun_alt [OF inv ts f'] Let_def
    by (intro live_reap [OF inv ts]) (use live_retired [OF f'] in auto)
  then have "live_ids m \<subseteq> live_ids m1 \<union> {ID (ar_run ar)}" by (simp add: rr)
  with r rr show "live_ids m \<subseteq> live_ids m' \<union> {ID run}" "ID run = ID (ar_run ar)"
    "RetryAttempt run = RetryAttempt (ar_run ar)"
    by (auto simp: recordRunOutcome_def Let_def reason_def split: if_splits)
  have "tails m1 = tails m"
    using tails_retireRun [of "ar_task ar" ?run "time_sub (clock m) st" reason "er_ExitCode res" m]
    by (simp add: rr)
  with r rr show "tails m' = tails m" "\<forall>a\<in>set as. action_ok a"
    by (auto simp: recordRunOutcome_def Let_def reason_def split: if_splits)
qed

lemma execute_end_inv:
  assumes d: "daemon_inv d"
  shows "daemon_inv (execute_end k rid res d)"
proof (cases "find_active k rid (snd d)")
  case None
  with d show ?thesis by (simp add: execute_end_def)
next
  case (Some ar)
  obtain g m where gm: "d = (g, m)" by (cases d)
  have inv: "mgr_inv m" using d gm by (simp add: daemon_inv_def)
  from Some gm obtain ts where ts: "taskStateFor m k = Some ts"
    and f: "find (\<lambda>a. ID (ar_run a) = rid) (active ts) = Some ar"
    by (auto simp: find_active_Some)
  obtain as bs where sp: "active ts = as @ ar # bs" "ID (ar_run ar) = rid" using find_split [OF f] by auto
  have name: "Name (ar_task ar) = k" "run_ok k (ar_run ar)"
    using inv_state_for [OF inv ts] sp by (auto simp: state_ok_def)
  show ?thesis
  proof (cases "Status (ar_run ar) = PhaseRunning")
    case False
    with d Some gm show ?thesis by (simp add: execute_end_def)
  next
    case True
    obtain nx gu run as' m1 where r: "recordRunOutcome (ar_task ar) (ar_run ar) (ar_startedAt ar) res m =
        ((nx, gu, run, as'), m1)" by (metis prod.exhaust)
    have ts': "taskStateFor m (Name (ar_task ar)) = Some ts" using ts name by simp
    have f': "find (\<lambda>a. ID (ar_run a) = ID (ar_run ar)) (active ts) = Some ar" using f sp by simp
    note lr = live_recordRunOutcome [OF inv ts' f' r]
    have m1: "mgr_inv m1" using inv_recordRunOutcome [OF inv ts' f', of "ar_startedAt ar" res] r by simp
    have ra: "0 \<le> RetryAttempt run" using name lr(3) by (simp add: run_ok_def)
    have "daemon_inv (fst d, spawn_tail (as' @ [TailComplete (ID run)] @
        (if gu then [] else [TailFollow (ar_task ar) run nx])) m1)"
      by (rule inv_spawn [OF d m1, of "{ID run}"]) (use lr ra gm in auto)
    with True Some gm r show ?thesis by (simp add: execute_end_def)
  qed
qed

lemma UpsertTask_inv: "daemon_inv d \<Longrightarrow> task_ok task \<Longrightarrow> daemon_inv (UpsertTask task d)"
proof -
  assume d: "daemon_inv d" and t: "task_ok task"
  obtain runs m where u: "upsertTaskLocked task (snd d) = (runs, m)"
    by (cases "upsertTaskLocked task (snd d)")
  have "mgr_inv (snd d)" using d by (simp add: daemon_inv_def)
  from inv_upsert [OF this t] live_upsert [OF this u] tails_cong [OF tails_upsert [OF u]] u d show ?thesis
    by (simp add: UpsertTask_def)
      (rule retireOrphaned_inv, auto simp: daemon_inv_def hook.gate_tracked_def hook.tracked_def)
qed

lemma UpsertTask_begin_inv: "daemon_inv d \<Longrightarrow> task_ok task \<Longrightarrow> daemon_inv (UpsertTask_begin task d)"
proof -
  assume d: "daemon_inv d" and t: "task_ok task"
  obtain runs m where u: "upsertTaskLocked task (snd d) = (runs, m)"
    by (cases "upsertTaskLocked task (snd d)")
  have inv: "mgr_inv (snd d)" using d by (simp add: daemon_inv_def)
  have "daemon_inv (fst d, spawn_tail (orphan_tail runs) m)"
    by (rule inv_spawn [OF d, of _ "ID ` set runs"])
      (use inv_upsert [OF inv t] live_upsert [OF inv u] tails_upsert [OF u] u in auto)
  with u show ?thesis by (simp add: UpsertTask_begin_def leaveOrphaned_def on_manager_def)
qed

lemma RemoveTask_inv: "daemon_inv d \<Longrightarrow> daemon_inv (RemoveTask k d)"
proof -
  assume d: "daemon_inv d"
  obtain runs m where u: "removeTaskLocked k (snd d) = (runs, m)"
    by (cases "removeTaskLocked k (snd d)")
  have "mgr_inv (snd d)" using d by (simp add: daemon_inv_def)
  from inv_remove [OF this, of k] live_remove [OF this u] tails_cong [OF tails_remove [OF u]] u d
  show ?thesis
    by (simp add: RemoveTask_def)
      (rule retireOrphaned_inv, auto simp: daemon_inv_def hook.gate_tracked_def hook.tracked_def)
qed

lemma RemoveTask_begin_inv: "daemon_inv d \<Longrightarrow> daemon_inv (RemoveTask_begin k d)"
proof -
  assume d: "daemon_inv d"
  obtain runs m where u: "removeTaskLocked k (snd d) = (runs, m)"
    by (cases "removeTaskLocked k (snd d)")
  have inv: "mgr_inv (snd d)" using d by (simp add: daemon_inv_def)
  have "daemon_inv (fst d, spawn_tail (orphan_tail runs) m)"
    by (rule inv_spawn [OF d, of _ "ID ` set runs"])
      (use inv_remove [OF inv, of k] live_remove [OF inv u] tails_remove [OF u] u in auto)
  with u show ?thesis by (simp add: RemoveTask_begin_def leaveOrphaned_def on_manager_def)
qed

lemma StopTask_alt:
  "map_of (tasks (snd d)) k = Some ts \<Longrightarrow> \<not> IsService (TKind (ts_task ts)) \<Longrightarrow>
     StopTask k d =
       (let runs = (if cond ts then map (endOrphanedPending (clock (snd d))) (queue ts) else [])
        in (None, leaveOrphaned runs
             (fst d, emit (map PersistExisting runs) (put_task k (stopped_state ts) (snd d)))))"
  by (auto simp: StopTask_def finalize_simps stopped_state_def Let_def)

lemma StopTask_inv: "daemon_inv d \<Longrightarrow> daemon_inv (snd (StopTask k d))"
proof (cases "map_of (tasks (snd d)) k")
  case None
  assume "daemon_inv d"
  with None show ?thesis by (simp add: StopTask_def Let_def)
next
  case (Some ts)
  assume d: "daemon_inv d"
  then have inv: "mgr_inv (snd d)" by (simp add: daemon_inv_def)
  note lk = inv_lookup [OF inv Some]
  show ?thesis
  proof (cases "IsService (TKind (ts_task ts))")
    case True
    with d Some show ?thesis by (simp add: StopTask_def Let_def)
  next
    case False
    let ?runs = "if cond ts then map (endOrphanedPending (clock (snd d))) (queue ts) else []"
    let ?m = "put_task k (stopped_state ts) (snd d)"
    have m: "mgr_inv ?m"
      by (rule inv_put_task [OF inv]) (use Some lk in \<open>auto simp: state_ok_stopped\<close>)
    have "live_of ts \<subseteq> live_of (stopped_state ts) \<union> ID ` set ?runs"
      by (auto simp: stopped_state_def Let_def live_of_def image_Un Cancel_def image_image
          endOrphanedPending_def)
    then have "live_ids (snd d) \<subseteq> live_ids ?m \<union> ID ` set ?runs"
      by (rule live_put_task_mono [OF inv Some])
    then have "daemon_inv (fst d, spawn_tail (orphan_tail ?runs) (emit (map PersistExisting ?runs) ?m))"
      by (intro inv_spawn [OF d, of _ "ID ` set ?runs"]) (use m in auto)
    with Some False show ?thesis
      by (simp only: StopTask_alt [OF Some False] Let_def snd_conv leaveOrphaned_def on_manager_def fst_conv)
  qed
qed

lemma live_set_active:
  "map (ID \<circ> ar_run) ars = map (ID \<circ> ar_run) (active ts) \<Longrightarrow> live_of (ts\<lparr>active := ars\<rparr>) = live_of ts"
  by (simp add: live_of_map_run)

lemma live_execute_begin: "mgr_inv m \<Longrightarrow> live_ids m \<subseteq> live_ids (execute_begin k rid m)"
proof -
  assume inv: "mgr_inv m"
  show ?thesis
  proof (cases "find_active k rid m")
    case None
    then show ?thesis by (auto simp: execute_begin_def split: option.split)
  next
    case (Some ar)
    then obtain ts where ts: "taskStateFor m k = Some ts"
      and f: "find (\<lambda>a. ID (ar_run a) = rid) (active ts) = Some ar"
      by (auto simp: find_active_Some)
    obtain as bs where sp: "active ts = as @ ar # bs" "ID (ar_run ar) = rid"
      "\<forall>a\<in>set as. ID (ar_run a) \<noteq> rid" using find_split [OF f] by auto
    let ?run = "(ar_run ar)\<lparr>Status := PhaseRunning, StartedAt := Some (ar_startedAt ar)\<rparr>"
    let ?ts = "ts\<lparr>active := as @ ar\<lparr>ar_run := ?run\<rparr> # bs\<rparr>"
    have u: "update_first (\<lambda>a. ID (ar_run a) = rid) (\<lambda>a. a\<lparr>ar_run := ?run\<rparr>) (active ts) =
        Some (active ?ts)"
      using sp by (simp add: update_first_split)
    have "state_ok (isShutdown m) k ?ts"
      by (rule state_ok_replace [OF _ sp(1)])
        (use inv_state_for [OF inv ts] sp in \<open>auto simp: state_ok_def run_ok_def\<close>)
    then have i1: "mgr_inv (put_state k ?ts m)" by (rule inv_put_state [OF inv ts]) auto
    have "live_of ?ts = live_of ts" by (rule live_set_active) (simp add: sp(1))
    then have l1: "live_ids m \<subseteq> live_ids (put_state k ?ts m)"
      using live_put_state [OF inv ts, of ?ts "{}"] by simp
    have "live_ids (put_state k ?ts m) \<subseteq> live_ids (mark_live (ar_task ar) ?run (put_state k ?ts m))"
    proof (cases "map_of (tasks (put_state k ?ts m)) (Name (ar_task ar))")
      case None
      then show ?thesis by (simp add: mark_live_def)
    next
      case (Some t)
      then show ?thesis
        using live_put_task_mono [OF i1 Some, of "t\<lparr>supervisor := s\<rparr>" "{}" for s]
        by (auto simp: mark_live_def split: option.split)
    qed
    with l1 u ts Some show ?thesis by (auto simp: execute_begin_def Let_def)
  qed
qed

lemma update_active_first_live:
  "update_active_first P f al = Some al' \<Longrightarrow> keeps f \<Longrightarrow>
     (\<Union>p\<in>set al'. live_of (snd p)) = (\<Union>p\<in>set al. live_of (snd p))"
proof (induction al arbitrary: al')
  case (Cons p al)
  obtain k ts where p: "p = (k, ts)" by (cases p)
  show ?case
  proof (cases "update_first P f (active ts)")
    case None
    with Cons.prems p obtain z where z: "update_active_first P f al = Some z" "al' = (k, ts) # z"
      by auto
    from Cons.IH [OF z(1) Cons.prems(2)] z(2) p show ?thesis by (simp only: list.set UN_insert)
  next
    case (Some ars)
    then obtain as a bs where u: "active ts = as @ a # bs" "ars = as @ f a # bs"
      using update_first_Some by blast
    have "live_of (ts\<lparr>active := ars\<rparr>) = live_of ts"
      by (rule live_set_active) (use Cons.prems(2) u in \<open>simp add: keeps_def\<close>)
    moreover have "al' = (k, ts\<lparr>active := ars\<rparr>) # al" using Some Cons.prems(1) p by simp
    ultimately show ?thesis using p by (simp only: list.set UN_insert snd_conv)
  qed
qed simp

lemma live_update_any:
  assumes u: "update_any_active P f m = Some m'" and k: "keeps f"
  shows "live_ids m' = live_ids m"
proof (cases "update_active_first P f (tasks m)")
  case (Some t)
  with u have "m' = m\<lparr>tasks := t\<rparr>" by (simp add: update_any_active_def)
  with update_active_first_live [OF Some k] show ?thesis
    by (simp only: live_ids_def allTaskStates_def set_append UN_Un) simp
next
  case None
  with u obtain t where t: "update_active_first P f (removedTasks m) = Some t"
    "m' = m\<lparr>removedTasks := t\<rparr>" by (auto simp: update_any_active_def)
  from update_active_first_live [OF t(1) k] t(2) show ?thesis
    by (simp only: live_ids_def allTaskStates_def set_append UN_Un) simp
qed

lemma live_cancel [simp]: "live_ids (snd (cancelActiveRun P n m)) = live_ids m"
  by (auto simp: cancelActiveRun_def split: option.split dest: live_update_any)

lemma live_registerForceKill [simp]: "live_ids (registerForceKill rid m) = live_ids m"
  by (cases "update_any_active (\<lambda>ar. ID (ar_run ar) = rid) (\<lambda>ar. ar\<lparr>ar_forceKill := True\<rparr>) m")
    (auto simp: registerForceKill_def dest: live_update_any)

lemma live_on_states:
  "(\<And>ts. live_of (f ts) = live_of ts) \<Longrightarrow> live_ids (on_states f m) = live_ids m"
  by (force simp: live_ids_def allTaskStates_def on_states_def)

lemma live_mark:
  "mgr_inv m \<Longrightarrow> live_ids m \<subseteq> live_ids (markServiceHealthy k run m)"
  using live_put_state [of m k _ "_\<lparr>supervisor := _\<rparr>" "{}"]
  by (fastforce simp: markServiceHealthy_def split: option.split)

lemma live_phantom [simp]: "live_ids (snd (recordPhantomRun k at e b msg m)) = live_ids m"
  by (auto simp: recordPhantomRun_def publishTerminal_def mint_def Let_def intro!: live_ids_cong
      split: option.split)

lemma live_Trigger_snd:
  "mgr_inv m \<Longrightarrow> 0 \<le> o_RetryAttempt opts \<Longrightarrow>
     live_ids m \<subseteq> live_ids (snd (TriggerRunWithOptions k opts m))"
  using live_Trigger by (metis prod.collapse)

lemma live_retry_now:
  "mgr_inv m \<Longrightarrow> 0 \<le> RetryAttempt run \<Longrightarrow> live_ids m \<subseteq> live_ids (retry_now task run m)"
  by (simp add: retry_now_def live_Trigger_snd retry_options_def no_options_def)

lemma live_restart_now: "mgr_inv m \<Longrightarrow> live_ids m \<subseteq> live_ids (restart_now task run m)"
  by (simp add: restart_now_def live_Trigger_snd restart_options_def no_options_def Let_def)

lemma live_follow: "mgr_inv m \<Longrightarrow> follow_ok f \<Longrightarrow> live_ids m \<subseteq> live_ids (follow f m)"
proof (cases f)
  case (FollowRetry task run)
  assume "mgr_inv m" "follow_ok f"
  with FollowRetry retry_delay_defined [of "RetryAttempt run" task] show ?thesis
    by (auto simp: spawn_wait_def)
next
  case (FollowRestart task run a)
  assume "mgr_inv m"
  with FollowRestart restart_delay_defined [of task a "EndReason run"] live_restart_now [of m task run]
  show ?thesis by (auto simp: spawn_wait_def)
qed (use live_retry_now live_restart_now in auto)

lemma live_run_followup: "mgr_inv m \<Longrightarrow> live_ids m \<subseteq> live_ids (run_followup i m)"
proof (cases "i < length (followups m) \<and> follow_ready m (followups m ! i)")
  case True
  assume inv: "mgr_inv m"
  let ?m = "m\<lparr>followups := take i (followups m) @ drop (Suc i) (followups m)\<rparr>"
  have "set (take i (followups m) @ drop (Suc i) (followups m)) \<subseteq> set (followups m)"
    using set_take_subset set_drop_subset by fastforce
  with inv have "mgr_inv ?m" by (intro inv_followups) (auto simp: mgr_inv_def)
  moreover have "follow_ok (followups m ! i)" using inv True by (auto simp: mgr_inv_def)
  ultimately have "live_ids ?m \<subseteq> live_ids (follow (followups m ! i) ?m)" by (rule live_follow)
  with True show ?thesis by (simp add: run_followup_def)
qed (auto simp: run_followup_def)

lemma live_StartServiceInstances:
  assumes "mgr_inv m"
  shows "live_ids m \<subseteq> live_ids (snd (StartServiceInstances k b m))"
proof -
  have "mgr_inv m \<Longrightarrow> live_ids m \<subseteq>
      live_ids (fold (\<lambda>i m. snd (TriggerRunWithOptions k (instance_options b i) m)) js m)" for m js
  proof (induction js arbitrary: m)
    case (Cons i js)
    let ?m = "snd (TriggerRunWithOptions k (instance_options b i) m)"
    have "0 \<le> o_RetryAttempt (instance_options b i)" by (simp add: instance_options_def no_options_def)
    then have "mgr_inv ?m" "live_ids m \<subseteq> live_ids ?m"
      using inv_Trigger live_Trigger_snd Cons.prems by blast+
    with Cons.IH [of ?m] show ?case by simp
  qed simp
  from this [OF assms] show ?thesis
    by (auto simp: StartServiceInstances_def panic_def live_ids_def allTaskStates_def
        split: sum.split option.split)
qed

lemma live_with_supervisor:
  "(\<And>ts s. map_of (tasks m) k = Some ts \<Longrightarrow> supervisor ts = Some s \<Longrightarrow>
       live_ids m \<subseteq> live_ids (snd (f ts s m))) \<Longrightarrow>
     live_ids m \<subseteq> live_ids (snd (with_supervisor f k m))"
  by (auto simp: with_supervisor_def serviceLocked_def panic_def live_ids_def allTaskStates_def
      split: sum.splits option.splits if_splits)

lemma live_service_controls:
  assumes inv: "mgr_inv m"
  shows "live_ids m \<subseteq> live_ids (snd (StartService k m))"
    "live_ids m \<subseteq> live_ids (snd (RestartServiceInstances k m))"
    "live_ids m \<subseteq> live_ids (snd (RecycleServiceInstances k m))"
    "live_ids m \<subseteq> live_ids (snd (StopService k m))"
proof -
  have p: "live_ids m \<subseteq> live_ids (put_task k ts' m)"
    if "map_of (tasks m) k = Some ts" "live_of ts' = live_of ts" for ts ts'
    using live_put_task_mono [OF inv that(1), of ts' "{}"] that(2) by simp
  have s: "live_ids m \<subseteq> live_ids (snd (StartServiceInstances k b m'))"
    if "mgr_inv m'" "live_ids m \<subseteq> live_ids m'" for m' b
    using live_StartServiceInstances [OF that(1)] that(2) by blast
  have e: "live_ids (if c then emit es m' else m') = live_ids m'"
    "mgr_inv (if c then emit es m' else m') = mgr_inv m'" for c es m' by simp_all
  note ctl = StartService_def RestartServiceInstances_def RecycleServiceInstances_def
    StopService_def Let_def
  have r: "live_ids m \<subseteq> live_ids (put_task k (ts\<lparr>supervisor := s', bookkeepingStop := b\<rparr>) m)"
    "live_ids m \<subseteq> live_ids (put_task k (on_active Cancel (ts\<lparr>supervisor := s', bookkeepingStop := b\<rparr>)) m)"
    "live_ids m \<subseteq> live_ids (put_task k (on_active Cancel ts) m)"
    if "map_of (tasks m) k = Some ts" for ts s' b
    by (rule p [OF that], simp)+
  show "live_ids m \<subseteq> live_ids (snd (StartService k m))"
    unfolding ctl
    by (rule live_with_supervisor, rule s) (simp_all add: e inv_set_sup(1) [OF inv] r)
  show "live_ids m \<subseteq> live_ids (snd (RestartServiceInstances k m))"
    unfolding ctl
    by (rule live_with_supervisor) (simp add: e inv_set_sup(2) [OF inv] r s)
  show "live_ids m \<subseteq> live_ids (snd (RecycleServiceInstances k m))"
    unfolding ctl
    by (rule live_with_supervisor) (simp add: s inv_cancel_state inv r)
  show "live_ids m \<subseteq> live_ids (snd (StopService k m))"
    unfolding ctl
    by (rule live_with_supervisor) (simp add: e r)
qed

lemma live_startRun_any: "mgr_inv m \<Longrightarrow> live_ids m \<subseteq> live_ids (startRun task run m)"
proof (cases "map_of (tasks m) (Name task)")
  case None
  then show ?thesis by (simp add: startRun_def panic_def live_ids_def allTaskStates_def)
next
  case (Some ts)
  assume "mgr_inv m"
  then show ?thesis using live_startRun [OF _ Some] by simp
qed

lemma live_load_one:
  assumes inv: "mgr_inv m" and l: "load_one r (ended, m, res) = (ended', m', res')"
  shows "live_ids m \<subseteq> live_ids m'"
proof (cases "map_of (tasks m) (TaskName r)")
  case None
  with l show ?thesis by (auto simp: load_one_def Let_def)
next
  case (Some ts)
  have "live_ids m \<subseteq> live_ids (put_task (TaskName r) (signal (ts\<lparr>queue := queue ts @ [r]\<rparr>)) m)"
    using live_put_task_mono [OF inv Some, of "signal (ts\<lparr>queue := queue ts @ [r]\<rparr>)" "{}"]
    by (auto simp: live_of_def image_Un)
  moreover have "live_ids m \<subseteq> live_ids (panic m)" by (simp add: panic_def live_ids_def allTaskStates_def)
  moreover note live_startRun_any [OF inv, of "ts_task ts" r]
  ultimately show ?thesis using Some l
    by (auto simp: load_one_def resumePendingRun_def requeuePendingRun_def
        restartOrFailPendingRun_def Let_def split: if_splits)
qed

lemma live_LoadPendingRuns:
  assumes inv: "mgr_inv m" and sd: "\<not> isShutdown m" and rs: "\<forall>r\<in>set runs. pending_row r"
  shows "live_ids m \<subseteq> live_ids (snd (LoadPendingRuns runs m))"
proof -
  have pub: "live_ids (fold (\<lambda>r. publishTerminal EventRunFailed r []) rs m) = live_ids m" for rs m
    by (induction rs arbitrary: m) (auto simp: publishTerminal_def)
  have "mgr_inv m \<Longrightarrow> \<not> isShutdown m \<Longrightarrow> \<forall>r\<in>set runs. pending_row r \<Longrightarrow>
      fold load_one runs (e, m, res) = (e', m', res') \<Longrightarrow> live_ids m \<subseteq> live_ids m'"
    for runs e m res e' m' res'
  proof (induction runs arbitrary: e m res)
    case (Cons r rs)
    obtain e1 m1 res1 where l: "load_one r (e, m, res) = (e1, m1, res1)" by (metis prod_cases3)
    have m1: "mgr_inv m1" "\<not> isShutdown m1"
      using inv_load_one [OF Cons.prems(1,2) _ l] Cons.prems(2,3) by auto
    have "live_ids m \<subseteq> live_ids m1" by (rule live_load_one [OF Cons.prems(1) l])
    moreover have "live_ids m1 \<subseteq> live_ids m'"
      by (rule Cons.IH [OF m1]) (use Cons.prems l in auto)
    ultimately show ?case by simp
  qed simp
  from this [OF inv sd rs] show ?thesis
    by (auto simp: LoadPendingRuns_def pub split: prod.split)
qed

lemma gate_op_inv:
  assumes "daemon_inv d"
  shows "sl \<le> tick + window \<Longrightarrow> daemon_inv (ScheduleJitteredRun k tick sl window d)"
    "daemon_inv (breach_timer k d)"
  using assms
  using tails_cong [OF tails_gate(2) [of k tick sl window d]] tails_cong [OF tails_gate(3) [of k d]]
  by (simp_all add: daemon_inv_tracked ScheduleJitteredRun_def breach_timer_def submit_inv
      breach_inv hook.tracked_submit hook.tracked_breach)

lemma BeginShutdown_inv: "daemon_inv d \<Longrightarrow> daemon_inv (BeginShutdown d)"
proof -
  assume d: "daemon_inv d"
  have "live_ids ((snd d)\<lparr>isShutdown := True, shutdownCtx := True\<rparr>) = live_ids (snd d)"
    by (rule live_ids_cong) simp_all
  with d show ?thesis
    by (simp add: daemon_inv_def BeginShutdown_def inv_shutdown_flag gate_shutdown_def gate_inv_def
        reporting_def tails_ok_def)
qed

lemma daemon_step_inv: "daemon_inv d \<Longrightarrow> daemon_ok e d \<Longrightarrow> daemon_inv (daemon_step e d)"
proof -
  assume d: "daemon_inv d" and ok: "daemon_ok e d"
  have inv: "mgr_inv (snd d)" using d by (simp add: daemon_inv_def)
  note om = inv_on_manager [OF d]
  show ?thesis
  proof (cases e)
    case (EvTick t)
    have "mgr_inv ((snd d)\<lparr>clock := clock (snd d) + t\<rparr>)" using inv by (simp add: mgr_inv_def)
    moreover have "live_ids ((snd d)\<lparr>clock := clock (snd d) + t\<rparr>) = live_ids (snd d)"
      by (rule live_ids_cong) simp_all
    ultimately show ?thesis using EvTick om by simp
  next
    case (EvUpsert task)
    with d ok show ?thesis by (simp add: UpsertTask_begin_inv)
  next
    case (EvMutate k f)
    with d ok show ?thesis
      by (auto simp: MutateTask_def UpsertTask_begin_inv split: option.splits sum.splits)
  next
    case (EvRemove k)
    with d show ?thesis by (simp add: RemoveTask_begin_inv)
  next
    case (EvTrigger k opts)
    with ok inv show ?thesis by (simp add: om inv_Trigger live_Trigger_snd)
  next
    case (EvJittered k tick sl window)
    with d ok show ?thesis by (simp add: gate_op_inv)
  next
    case (EvBreach k)
    with d show ?thesis by (simp add: gate_op_inv)
  next
    case (EvPhantom k at r b msg)
    with inv show ?thesis by (simp add: om inv_phantom)
  next
    case (EvBegin k rid)
    with inv show ?thesis by (simp add: om inv_execute_begin live_execute_begin)
  next
    case (EvEnd k rid res)
    with d show ?thesis by (simp add: execute_end_inv)
  next
    case (EvTail i)
    with d show ?thesis by (simp add: run_tail_inv)
  next
    case (EvProcessStarted rid)
    with inv show ?thesis by (simp add: om inv_registerForceKill)
  next
    case (EvHealthy k rid)
    show ?thesis
    proof (cases "find_active k rid (snd d)")
      case None
      with EvHealthy inv show ?thesis by (simp add: om)
    next
      case (Some ar)
      then obtain ts where ts: "taskStateFor (snd d) k = Some ts"
        and f: "find (\<lambda>a. ID (ar_run a) = rid) (active ts) = Some ar"
        by (auto simp: find_active_Some)
      have "ar \<in> set (active ts)" using find_split [OF f] by auto
      with Some EvHealthy inv ts show ?thesis
        using inv_markServiceHealthy [OF inv ts, of ar "ar_run ar"] live_mark [OF inv, of k "ar_run ar"]
        by (simp add: om)
    qed
  next
    case (EvDrain k)
    with inv show ?thesis by (simp add: om inv_queueProcessLoop live_queueProcessLoop)
  next
    case (EvFollow i)
    with inv show ?thesis by (simp add: om inv_run_followup live_run_followup)
  next
    case (EvStopTask k)
    with d show ?thesis by (simp add: StopTask_inv)
  next
    case (EvTerminate rid)
    with inv show ?thesis by (simp add: om TerminateRun_def inv_cancelActiveRun)
  next
    case (EvTerminateExec eid)
    with inv show ?thesis by (simp add: om TerminateRunByExecutionID_def inv_cancelActiveRun)
  next
    case (EvStartInstances k b)
    with inv show ?thesis by (simp add: om inv_StartServiceInstances live_StartServiceInstances)
  next
    case (EvStartService k)
    with inv show ?thesis by (simp add: om inv_service_controls live_service_controls)
  next
    case (EvRestartService k)
    with inv show ?thesis by (simp add: om inv_service_controls live_service_controls)
  next
    case (EvRecycleService k)
    with inv show ?thesis by (simp add: om inv_service_controls live_service_controls)
  next
    case (EvStopService k)
    with inv show ?thesis by (simp add: om inv_service_controls live_service_controls)
  next
    case (EvLoadPending rs)
    with inv ok show ?thesis
      by (simp add: om inv_LoadPendingRuns live_LoadPendingRuns list_all_iff)
  next
    case (EvSetPaused f)
    have "mgr_inv (SetSchedulePaused f (snd d))" using inv by (simp add: mgr_inv_def SetSchedulePaused_def)
    moreover have "live_ids (SetSchedulePaused f (snd d)) = live_ids (snd d)"
      by (rule live_ids_cong) (simp_all add: SetSchedulePaused_def)
    ultimately show ?thesis using EvSetPaused om by simp
  next
    case EvBeginShutdown
    with d show ?thesis by (simp add: BeginShutdown_inv)
  next
    case EvShutdownCancel
    let ?f = "\<lambda>ts. let ts' = on_active Cancel ts in if cond ts' then signal ts' else ts'"
    have "live_of (?f ts) = live_of ts" for ts by (simp add: Let_def)
    then have "live_ids (on_states ?f (snd (BeginShutdown d))) = live_ids (snd (BeginShutdown d))"
      by (rule live_on_states)
    with inv_shutdown_cancel [OF inv] BeginShutdown_inv [OF d] EvShutdownCancel show ?thesis
      by (simp add: shutdown_cancel_def on_manager_def daemon_inv_def tails_cong [OF tails_frames(12)])
  next
    case EvDeadline
    let ?f = "on_active (\<lambda>ar. if ar_forceKill ar then ar\<lparr>ar_killed := True\<rparr> else ar)"
    have "live_of (?f ts) = live_of ts" for ts by (rule live_of_on_active) simp
    then have "live_ids (on_states ?f m) = live_ids m" for m by (rule live_on_states)
    moreover have "live_ids ((snd d)\<lparr>deadlineExceeded := True\<rparr>) = live_ids (snd d)"
      by (rule live_ids_cong) simp_all
    ultimately show ?thesis using inv_deadline [OF inv] EvDeadline om
      by (simp add: deadline_passed_def forceKillSurvivors_def)
  qed
qed

interpretation machine: step_machine daemon_step daemon_ok daemon_inv
  by unfold_locales (rule daemon_step_inv)

text \<open>The daemon as it starts, with an id supply and a float parser.\<close>

definition boot :: "(nat \<Rightarrow> string) \<Rightarrow> (string \<Rightarrow> bool) \<Rightarrow> instant \<Rightarrow> daemon" where
  "boot ids floats now = (newJitterGate, NewTaskManager ids floats now)"

lemma boot_inv: "daemon_inv (boot ids floats now)"
  by (simp add: boot_def daemon_inv_def newJitterGate_def gate_inv_def NewTaskManager_def
      mgr_inv_def keys_of_def tails_ok_def)

end
