(* ===== verification/Manager_Props.thy ===== *)
theory Manager_Props
  imports Daemon
begin

text \<open>
  The properties of the task manager: what holds in every reachable state of the daemon, and what
  its operations promise.
\<close>

section \<open>Every reachable state\<close>

lemma reachable_inv:
  "machine.admissible es (boot ids floats now) \<Longrightarrow>
     daemon_inv (fold daemon_step es (boot ids floats now))"
  by (rule machine.fold_inv [OF boot_inv])

text \<open>A short run of the daemon at which the theorems on reachable states are instantiated: a
  queue task is registered, triggered twice, its drain goroutine runs, the first run starts.\<close>

definition sample_events :: "mgr_event list" where
  "sample_events =
     [EvUpsert example_task, EvTrigger ''backup'' no_options, EvTrigger ''backup'' no_options,
      EvDrain ''backup'', EvBegin ''backup'' (Itoa 0)]"

lemma sample_admissible: "machine.admissible sample_events (boot Itoa (\<lambda>_. True) 1000)"
  by (simp add: sample_events_def task_ok_def example_task_def IsService_def no_options_def)

text \<open>C36. No reachable state has dereferenced a missing task state, supervisor or condition
  variable, and the two registries stay well formed: every name resolves to the definition of that
  name, no name is both registered and draining, a removed task is kept exactly as long as a run
  of it is in flight and nothing is queued for it.\<close>

theorem registry_well_formed:
  assumes adm: "machine.admissible es (boot ids floats now)"
    and m: "m = snd (fold daemon_step es (boot ids floats now))"
  shows "\<not> panicked m \<and> distinct (map fst (allTaskStates m))
    \<and> (\<forall>(k, ts)\<in>set (tasks m). Name (ts_task ts) = k \<and> \<not> removed ts)
    \<and> (\<forall>(k, ts)\<in>set (removedTasks m).
         Name (ts_task ts) = k \<and> removed ts \<and> active ts \<noteq> [] \<and> queue ts = [])"
proof -
  have inv: "mgr_inv m" using reachable_inv [OF adm] m by (simp add: daemon_inv_def)
  then have "distinct (map fst (allTaskStates m))"
    by (simp add: allTaskStates_def mgr_inv_def keys_of_def)
  with inv show ?thesis by (auto simp: mgr_inv_def state_ok_def queue_ok_def)
qed

theorem registry_well_formed_witness:
  "\<not> panicked (snd (fold daemon_step sample_events (boot Itoa (\<lambda>_. True) 1000)))"
  using registry_well_formed [OF sample_admissible refl] by simp

text \<open>C35. Slots and processes never drift apart: in every reachable state the live slots of a
  service's supervisor are exactly the slots of its service runs in flight, no two of which share
  a slot, also across reloads, removals, revivals and changes between task and service.\<close>

theorem service_slots_in_step:
  assumes adm: "machine.admissible es (boot ids floats now)"
    and m: "m = snd (fold daemon_step es (boot ids floats now))"
    and ts: "(k, ts) \<in> set (allTaskStates m)"
  shows "(IsService (TKind (ts_task ts)) \<longrightarrow> supervisor ts \<noteq> None)
    \<and> distinct (svc_runs (active ts))
    \<and> (\<forall>s. supervisor ts = Some s \<longrightarrow> set (svc_runs (active ts)) = {i. live (slot s i)})"
proof -
  have "mgr_inv m" using reachable_inv [OF adm] m by (simp add: daemon_inv_def)
  then have "sup_ok_state ts" using ts by (auto simp: mgr_inv_def allTaskStates_def state_ok_def)
  then show ?thesis
    by (cases "supervisor ts") (auto simp: sup_ok_state_def pool.in_step_def)
qed

definition service_events :: "mgr_event list" where
  "service_events =
     [EvUpsert (example_task\<lparr>TKind := KindService, OnOverlap := PolicySkip, Instances := 2\<rparr>),
      EvStartService ''backup'']"

lemma service_admissible: "machine.admissible service_events (boot Itoa (\<lambda>_. True) 1000)"
  by (simp add: service_events_def task_ok_def)

lemma service_events_state:
  "map (\<lambda>(k, ts). (k, svc_runs (active ts)))
     (allTaskStates (snd (fold daemon_step service_events (boot Itoa (\<lambda>_. True) 1000)))) =
     [(''backup'', [0, 1])]"
  by code_simp

theorem service_slots_in_step_witness:
  "\<exists>ts :: taskState. svc_runs (active ts) = [0, 1] \<and>
     (\<forall>s. supervisor ts = Some s \<longrightarrow> {i. live (slot s i)} = {0, 1})"
proof -
  let ?m = "snd (fold daemon_step service_events (boot Itoa (\<lambda>_. True) 1000))"
  from service_events_state obtain ts where ts: "(''backup'', ts) \<in> set (allTaskStates ?m)"
    and r: "svc_runs (active ts) = [0, 1]"
    by (cases "allTaskStates ?m") auto
  from service_slots_in_step [OF service_admissible refl ts] r show ?thesis
    by (intro exI [of _ ts]) auto
qed

text \<open>C7. No wake-up is lost: in every reachable state before shutdown, a task with queued runs
  and a free slot has a drain goroutine that is awake, and a drain goroutine is parked only for a
  registered queue task with nothing to start. After shutdown began, a parked one still belongs
  to a registered queue task.\<close>

theorem no_lost_wakeup:
  assumes adm: "machine.admissible es (boot ids floats now)"
    and m: "m = snd (fold daemon_step es (boot ids floats now))"
    and ts: "(k, ts) \<in> set (allTaskStates m)"
  shows "(queue ts \<noteq> [] \<and> \<not> full ts \<and> \<not> isShutdown m \<longrightarrow> drain ts = DrainReady)
    \<and> (drain ts = DrainParked \<longrightarrow> \<not> removed ts \<and> OnOverlap (ts_task ts) = PolicyQueue
         \<and> (queue ts = [] \<or> full ts))
    \<and> (queue ts \<noteq> [] \<longrightarrow> OnOverlap (ts_task ts) = PolicyQueue \<and> \<not> removed ts)"
proof -
  have "mgr_inv m" using reachable_inv [OF adm] m by (simp add: daemon_inv_def)
  then have "queue_ok (isShutdown m) ts"
    using ts by (auto simp: mgr_inv_def allTaskStates_def state_ok_def)
  then show ?thesis by (cases "drain ts") (auto simp: queue_ok_def)
qed

text \<open>The second trigger of the sample run is queued once the first run holds the only slot.\<close>

lemma sample_state:
  "map (\<lambda>(k, ts). (k, length (active ts), length (queue ts), drain ts))
     (allTaskStates (snd (fold daemon_step sample_events (boot Itoa (\<lambda>_. True) 1000)))) =
     [(''backup'', 1, 1, DrainParked)]"
  by code_simp

theorem no_lost_wakeup_witness:
  "\<exists>ts. drain ts = DrainParked \<and> length (queue ts) = 1 \<and> full ts"
proof -
  let ?m = "snd (fold daemon_step sample_events (boot Itoa (\<lambda>_. True) 1000))"
  from sample_state obtain ts where ts: "(''backup'', ts) \<in> set (allTaskStates ?m)"
    and r: "length (queue ts) = 1" "drain ts = DrainParked"
    by (cases "allTaskStates ?m") auto
  from no_lost_wakeup [OF sample_admissible refl ts] r show ?thesis
    by (intro exI [of _ ts]) auto
qed

text \<open>C37. The jitter gate never waits for a run nobody will report: in every reachable state each run
  the gate counts as in flight is active or queued in the manager, or it has been retired and the
  goroutine that retired it still has the call of the gate's \<open>onComplete\<close> for it ahead; and
  whenever a fire is held, such a run exists. What a goroutine does after it released the manager's lock (the
  persisted row, the event, the completion at the gate, the follow-up) are steps of their own here, between which
  anything else may happen.\<close>

theorem gate_tracks_live_runs:
  assumes adm: "machine.admissible es (boot ids floats now)"
    and d: "d = fold daemon_step es (boot ids floats now)"
  shows "fst ` set (inflight (fst d)) \<subseteq> live_ids (snd d) \<union> reporting (snd d)
    \<and> (pending (fst d) \<noteq> [] \<longrightarrow>
        (\<exists>rid \<in> fst ` set (inflight (fst d)). rid \<in> live_ids (snd d) \<union> reporting (snd d)))"
proof -
  have inv: "daemon_inv d" using reachable_inv [OF adm] d by simp
  then have "pending (fst d) \<noteq> [] \<longrightarrow> inflight (fst d) \<noteq> []"
    by (auto simp: daemon_inv_def gate_inv_def)
  with inv show ?thesis by (cases "inflight (fst d)") (auto simp: daemon_inv_def)
qed

definition jitter_events :: "mgr_event list" where
  "jitter_events =
     [EvUpsert example_task, EvUpsert (example_task\<lparr>Name := ''report''\<rparr>),
      EvJittered ''backup'' 1000 1030 60, EvJittered ''report'' 1000 1010 60,
      EvBegin ''backup'' (Itoa 0),
      EvEnd ''backup'' (Itoa 0) \<lparr>er_ExitCode = 0, er_TimedOut = False, er_Stopped = False,
        er_KillReason = None, er_OutputMatched = False, er_PeakMemoryBytes = None, er_CPUTimeMs = None,
        er_StdoutLines = 0, er_StderrLines = 0\<rparr>]"

lemma jitter_admissible: "machine.admissible jitter_events (boot Itoa (\<lambda>_. True) 1000)"
  by (simp add: jitter_events_def task_ok_def example_task_def IsService_def)

lemma jitter_state:
  "map h_task (pending (fst (fold daemon_step jitter_events (boot Itoa (\<lambda>_. True) 1000)))) =
     [''report'']"
  "list_all (\<lambda>(k, ts). active ts = [] \<and> queue ts = [])
     (allTaskStates (snd (fold daemon_step jitter_events (boot Itoa (\<lambda>_. True) 1000))))"
  by code_simp+

text \<open>A fire is held although no run is active or queued: the one it waits for is retired and about to
  be reported.\<close>

theorem gate_tracks_live_runs_witness:
  "\<exists>rid. rid \<in> reporting (snd (fold daemon_step jitter_events (boot Itoa (\<lambda>_. True) 1000)))"
proof -
  let ?m = "snd (fold daemon_step jitter_events (boot Itoa (\<lambda>_. True) 1000))"
  have "live_ids ?m = {}"
    using jitter_state(2) by (auto simp: live_ids_def live_of_def list_all_iff split_beta)
  moreover have "pending (fst (fold daemon_step jitter_events (boot Itoa (\<lambda>_. True) 1000))) \<noteq> []"
    using jitter_state(1) by auto
  ultimately show ?thesis using gate_tracks_live_runs [OF jitter_admissible refl] by blast
qed

section \<open>Concurrency policies\<close>

lemma state_for_registered:
  assumes inv: "mgr_inv m" and ts: "taskStateFor m k = Some ts" and nr: "\<not> removed ts"
  shows "map_of (tasks m) k = Some ts"
proof (cases "map_of (tasks m) k")
  case None
  with ts have "map_of (removedTasks m) k = Some ts" by (simp add: taskStateFor_def)
  with inv_lookup_removed [OF inv this] nr show ?thesis by simp
qed (use ts in \<open>simp add: taskStateFor_def\<close>)

lemma evaluate_defined:
  assumes "OnOverlap (ts_task ts) = PolicyQueue \<Longrightarrow> cond ts"
  shows "\<exists>a e ts'. evaluateConcurrency ts run n = Some (a, e, ts') \<and> ts_task ts' = ts_task ts"
  using assms
  by (cases "OnOverlap (ts_task ts)"; cases "int (length (active ts)) < n";
      cases "int (length (queue ts)) \<ge> MaxQueuedValue (ts_task ts)"; cases "queue ts")
    (auto simp: evaluateConcurrency_def Let_def)

lemma evaluate_policy:
  assumes "evaluateConcurrency ts run n = Some (a, e, ts')" "OnOverlap (ts_task ts) \<in> {PolicySkip, PolicyQueue}"
  shows "active ts' = active ts" "a = actionStart \<Longrightarrow> int (length (active ts)) < n"
  using assms by (auto simp: evaluateConcurrency_def Let_def split: if_splits)

text \<open>What a trigger of a plain task does once its parameters resolve.\<close>

lemma Trigger_plain:
  assumes inv: "mgr_inv m" and sd: "\<not> isShutdown m" and ts: "map_of (tasks m) k = Some ts"
    and plain: "\<not> IsService (TKind (ts_task ts))" and ps: "resolve_params m ts (o_Params opts) = Inr ps"
  defines "run \<equiv> build_run k opts False 0 ps (ulid m (minted m)) (clock m)"
  shows "TriggerRunWithOptions k opts m =
    admit ts run (emit [PersistNew run, Publish EventRunCreated run []] (snd (mint (put_task k ts m))))"
  using assms by (simp add: TriggerRunWithOptions_def reserve_instance_def mint_def put_task_def Let_def)

lemma Trigger_refused:
  assumes "isShutdown m \<or> map_of (tasks m) k = None \<or>
    (\<exists>ts e. map_of (tasks m) k = Some ts \<and> resolve_params m ts (o_Params opts) = Inl e)"
  shows "\<exists>e. TriggerRunWithOptions k opts m = ((None, Some e), m)"
  using assms by (auto simp: TriggerRunWithOptions_def)

lemma admit_active:
  assumes k: "Name (ts_task ts) = k" and plain: "\<not> IsService (TKind (ts_task ts))"
    and ev: "evaluateConcurrency ts run (MaxConcurrentValue (ts_task ts)) = Some (a, e, ts')"
    and t': "ts_task ts' = ts_task ts"
  shows "map_of (tasks (snd (admit ts run m))) k =
      Some (if a = actionStart then ts'\<lparr>active := active ts' @ [fresh_active m (ts_task ts) run]\<rparr> else ts')"
  using assms
  by (cases a) (simp_all add: admit_def Let_def end_unexecuted_def publishTerminal_def startRun_alt
      fresh_active_def)

text \<open>C2. The limit of a skip or queue task is never exceeded: whatever a trigger does, and however
  many queued runs its drain goroutine starts, the runs in flight afterwards are at most the limit,
  or as many as before when a reload lowered the limit below them.\<close>

theorem concurrency_bound:
  assumes inv: "mgr_inv m" and ts: "map_of (tasks m) k = Some ts"
    and plain: "\<not> IsService (TKind (ts_task ts))"
    and pol: "OnOverlap (ts_task ts) \<in> {PolicySkip, PolicyQueue}"
    and m': "m' = snd (TriggerRunWithOptions k opts m) \<or> m' = queueProcessLoop k m"
  shows "\<exists>ts'. map_of (tasks m') k = Some ts' \<and> ts_task ts' = ts_task ts \<and>
    int (length (active ts')) \<le>
      max (int (length (active ts))) (MaxConcurrentValue (ts_task ts))"
  using m'
proof
  note lk = inv_lookup [OF inv ts]
  assume m': "m' = snd (TriggerRunWithOptions k opts m)"
  show ?thesis
  proof (cases "isShutdown m \<or> (\<exists>e. resolve_params m ts (o_Params opts) = Inl e)")
    case True
    then have "m' = m" using Trigger_refused [of m k opts] ts m' by auto
    with ts show ?thesis by simp
  next
    case False
    then obtain ps where ps: "resolve_params m ts (o_Params opts) = Inr ps" and sd: "\<not> isShutdown m"
      by (cases "resolve_params m ts (o_Params opts)") auto
    let ?run = "build_run k opts False 0 ps (ulid m (minted m)) (clock m)"
    have "OnOverlap (ts_task ts) = PolicyQueue \<Longrightarrow> cond ts"
      using lk by (simp add: state_ok_def queue_ok_def)
    from evaluate_defined [OF this] obtain a e ts' where ev: "evaluateConcurrency ts ?run (MaxConcurrentValue (ts_task ts)) = Some (a, e, ts')"
      and t': "ts_task ts' = ts_task ts" by blast
    from admit_active [OF lk(3) plain ev t'] evaluate_policy [OF ev pol]
    show ?thesis
      unfolding m' Trigger_plain [OF inv sd ts plain ps]
      by (auto simp: t')
  qed
next
  assume m': "m' = queueProcessLoop k m"
  have for_k: "taskStateFor m k = Some ts" using ts by (simp add: taskStateFor_def)
  from drain_loop_spec [OF inv for_k refl] obtain n dr ars where
    d: "map ar_run ars = take n (queue ts)" "n \<le> length (queue ts)"
      "n > 0 \<longrightarrow> int (length (active ts) + n) \<le> MaxConcurrentValue (ts_task ts)"
      "taskStateFor (drain_loop (queue ts) k m) k =
        Some (ts\<lparr>queue := drop n (queue ts), active := active ts @ ars, drain := dr\<rparr>)"
    and i: "mgr_inv (drain_loop (queue ts) k m)" by blast
  have len: "length ars = n" using d(1,2) by (metis length_map length_take min.absorb2)
  have "map_of (tasks (drain_loop (queue ts) k m)) k =
      Some (ts\<lparr>queue := drop n (queue ts), active := active ts @ ars, drain := dr\<rparr>)"
    by (rule state_for_registered [OF i d(4)]) (simp add: inv_lookup [OF inv ts])
  moreover have "m' = drain_loop (queue ts) k m \<or> m' = m" using for_k m' by (simp add: queueProcessLoop_def)
  moreover have "int (length (active ts @ ars)) \<le>
      max (int (length (active ts))) (MaxConcurrentValue (ts_task ts))"
    using d(3) len by (cases n) auto
  ultimately show ?thesis using ts by auto
qed

text \<open>A manager with one registered task, at which the theorems on single operations are
  instantiated.\<close>

definition registered :: "Task \<Rightarrow> manager" where
  "registered task = snd (upsertTaskLocked task (NewTaskManager Itoa (\<lambda>_. True) 1000))"

lemma registered_inv: "task_ok task \<Longrightarrow> mgr_inv (registered task)"
  unfolding registered_def
  by (rule inv_upsert) (simp_all add: NewTaskManager_def mgr_inv_def keys_of_def)

lemma registered_state:
  "\<exists>ts. map_of (tasks (registered task)) (Name task) = Some ts \<and> ts_task ts = task \<and>
     active ts = [] \<and> queue ts = []"
  "\<not> isShutdown (registered task)" "float_ok (registered task) = (\<lambda>_. True)"
proof -
  obtain rs es ts' where iq: "install_queue 1000 task
      (install_supervisor task (new_state task)) = (rs, es, ts')" by (metis prod_cases3)
  have n: "new_state task\<lparr>ts_task := task\<rparr> = new_state task" by (simp add: new_state_def)
  have "ts_task ts' = task \<and> active ts' = [] \<and> queue ts' = []"
    using iq by (auto simp: install_queue_def finalize_simps new_state_def split: if_splits)
  then show "\<exists>ts. map_of (tasks (registered task)) (Name task) = Some ts \<and> ts_task ts = task \<and>
     active ts = [] \<and> queue ts = []"
    by (auto simp: registered_def upsertTaskLocked_def attach_state_def NewTaskManager_def iq n)
  show "\<not> isShutdown (registered task)" "float_ok (registered task) = (\<lambda>_. True)"
    by (simp_all add: registered_def upsertTaskLocked_def attach_state_def NewTaskManager_def iq n
        put_task_def emit_def)
qed

lemma example_ok: "task_ok example_task" "\<not> IsService (TKind example_task)"
  "OnOverlap example_task = PolicyQueue" "Name example_task = ''backup''"
  by (simp_all add: task_ok_def example_task_def IsService_def)

theorem concurrency_bound_witness:
  "\<exists>ts'. map_of (tasks (snd (TriggerRunWithOptions ''backup'' no_options (registered example_task))))
     ''backup'' = Some ts' \<and> length (active ts') \<le> 1"
proof -
  obtain ts where ts: "map_of (tasks (registered example_task)) ''backup'' = Some ts"
    "ts_task ts = example_task" "active ts = []"
    using registered_state(1) [of example_task] by (auto simp: example_ok)
  have "\<not> IsService (TKind (ts_task ts))" "OnOverlap (ts_task ts) \<in> {PolicySkip, PolicyQueue}"
    using ts(2) example_ok by simp_all
  from concurrency_bound [OF registered_inv [OF example_ok(1)] ts(1) this, of _ no_options] ts(2,3)
  show ?thesis by (auto simp: MaxConcurrentValue_def example_task_def)
qed

lemma cancel_oldest_live:
  "0 \<le> n \<Longrightarrow> int (live_runs (cancel_oldest n ars)) = max 0 (int (live_runs ars) - n)"
proof (induction n ars rule: cancel_oldest.induct)
  case (2 n ar ars)
  then show ?case by (cases "n \<le> 0"; cases "ar_cancelled ar") (auto simp: live_runs_def Cancel_def)
qed (simp add: live_runs_def)

text \<open>The victims are the oldest: the cancellation touches a prefix of the runs and nothing after
  it, and every run it newly latches has its context cancelled.\<close>

lemma cancel_oldest_prefix:
  "\<exists>j. cancel_oldest n ars =
     map (\<lambda>ar. if ar_cancelled ar then ar else Cancel (ar\<lparr>ar_cancelled := True\<rparr>)) (take j ars) @ drop j ars"
proof (induction n ars rule: cancel_oldest.induct)
  case (1 n)
  show ?case by simp
next
  case (2 n ar ars)
  show ?case
  proof (cases "n \<le> 0")
    case True
    then show ?thesis by (intro exI [of _ 0]) simp
  next
    case False
    with 2 obtain j where "cancel_oldest (if ar_cancelled ar then n else n - 1) ars =
        map (\<lambda>ar. if ar_cancelled ar then ar else Cancel (ar\<lparr>ar_cancelled := True\<rparr>)) (take j ars) @ drop j ars"
      by (cases "ar_cancelled ar") auto
    with False show ?thesis by (intro exI [of _ "Suc j"]) (auto split: if_splits)
  qed
qed

text \<open>The kill policy bounds the live set without over-killing: a trigger of a kill task always
  starts its run; the runs not asked to stop are afterwards one more than before, but never more
  than the limit; the victims are the oldest runs, each run already asked to stop is left alone,
  and a run that is not in the cancelled prefix is untouched.\<close>

lemma kill_policy:
  assumes inv: "mgr_inv m" and sd: "\<not> isShutdown m" and ts: "map_of (tasks m) k = Some ts"
    and plain: "\<not> IsService (TKind (ts_task ts))" and pol: "OnOverlap (ts_task ts) = PolicyKill"
    and ps: "resolve_params m ts (o_Params opts) = Inr ps"
    and limit: "1 \<le> MaxConcurrentValue (ts_task ts)"
  shows "\<exists>ts' j ar. map_of (tasks (snd (TriggerRunWithOptions k opts m))) k = Some ts'
    \<and> active ts' = map (\<lambda>a. if ar_cancelled a then a else Cancel (a\<lparr>ar_cancelled := True\<rparr>))
         (take j (active ts)) @ drop j (active ts) @ [ar]
    \<and> \<not> ar_cancelled ar \<and> ID (ar_run ar) = ulid m (minted m)
    \<and> int (live_runs (active ts')) =
        min (int (live_runs (active ts)) + 1) (MaxConcurrentValue (ts_task ts))"
proof -
  note lk = inv_lookup [OF inv ts]
  let ?n = "MaxConcurrentValue (ts_task ts)"
  let ?run = "build_run k opts False 0 ps (ulid m (minted m)) (clock m)"
  let ?m1 = "emit [PersistNew ?run, Publish EventRunCreated ?run []] (snd (mint (put_task k ts m)))"
  let ?ts = "if int (length (active ts)) < ?n then ts else cancelExcessRuns ts ?n"
  let ?ar = "fresh_active ?m1 (ts_task ts) ?run"
  have ev: "evaluateConcurrency ts ?run ?n = Some (actionStart, None, ?ts)"
    using pol by (simp add: evaluateConcurrency_def Let_def)
  have "map_of (tasks (snd (admit ts ?run ?m1))) k = Some (?ts\<lparr>active := active ?ts @ [?ar]\<rparr>)"
    using admit_active [OF lk(3) plain ev] by (simp del: emit_frame)
  then have t': "map_of (tasks (snd (TriggerRunWithOptions k opts m))) k = Some (?ts\<lparr>active := active ?ts @ [?ar]\<rparr>)"
    using Trigger_plain [OF inv sd ts plain ps] by simp
  obtain j where j: "active ?ts = map (\<lambda>a. if ar_cancelled a then a
      else Cancel (a\<lparr>ar_cancelled := True\<rparr>)) (take j (active ts)) @ drop j (active ts)"
  proof (cases "int (length (active ts)) < ?n")
    case True
    then show ?thesis using that [of 0] by simp
  next
    case False
    with cancel_oldest_prefix [of "int (live_runs (active ts)) - ?n + 1" "active ts"] that show ?thesis
      by (auto simp: cancelExcessRuns_def)
  qed
  have le: "live_runs (active ts) \<le> length (active ts)" by (simp add: live_runs_def)
  have z: "cancel_oldest x ars = ars" if "x \<le> 0" for x ars using that by (cases ars) auto
  have "int (live_runs (active ?ts)) + 1 = min (int (live_runs (active ts)) + 1) ?n"
  proof (cases "int (live_runs (active ts)) - ?n + 1 \<le> 0")
    case True
    with z le show ?thesis by (simp add: cancelExcessRuns_def)
  next
    case False
    with limit le show ?thesis by (simp add: cancelExcessRuns_def cancel_oldest_live)
  qed
  moreover have "live_runs (as @ [?ar]) = live_runs as + 1" for as
    by (simp add: live_runs_def fresh_active_def)
  ultimately have "int (live_runs (active ?ts @ [?ar])) = min (int (live_runs (active ts)) + 1) ?n" by simp
  then show ?thesis
    using t' j by (intro exI [of _ "?ts\<lparr>active := active ?ts @ [?ar]\<rparr>"] exI [of _ j] exI [of _ ?ar])
      (simp add: fresh_active_def del: emit_frame)
qed

definition kill_task :: Task where
  "kill_task = example_task\<lparr>OnOverlap := PolicyKill, Parameters := []\<rparr>"

section \<open>Queues\<close>

text \<open>Queues are first in, first out: what a drain goroutine starts is a prefix of the queue, in
  order, and the rest keeps its order; it starts as many as there are free slots and runs waiting,
  and none after shutdown, removal or a change of policy, where the goroutine ends.\<close>

lemma queue_fifo:
  assumes inv: "mgr_inv m" and ts: "taskStateFor m k = Some ts" and awake: "drain ts = DrainReady"
  shows "\<exists>n ts'. taskStateFor (queueProcessLoop k m) k = Some ts'
    \<and> map ar_run (active ts') = map ar_run (active ts) @ take n (queue ts)
    \<and> queue ts' = drop n (queue ts) \<and> n \<le> length (queue ts)
    \<and> (drain_stops m ts \<longrightarrow> n = 0 \<and> drain ts' = DrainGone)
    \<and> (\<not> drain_stops m ts \<longrightarrow> drain ts' = DrainParked \<and>
         (n = length (queue ts) \<or> int (length (active ts')) \<ge> MaxConcurrentValue (ts_task ts)))"
proof -
  from drain_loop_spec [OF inv ts refl] obtain n dr ars where
    d: "map ar_run ars = take n (queue ts)" "n \<le> length (queue ts)"
      "drain_stops m ts \<longrightarrow> n = 0 \<and> dr = DrainGone"
      "\<not> drain_stops m ts \<longrightarrow> dr = DrainParked \<and>
        (n = length (queue ts) \<or> MaxConcurrentValue (ts_task ts) \<le> int (length (active ts) + n))"
      "taskStateFor (drain_loop (queue ts) k m) k =
        Some (ts\<lparr>queue := drop n (queue ts), active := active ts @ ars, drain := dr\<rparr>)" by blast
  have "length ars = n" using d(1,2) by (metis length_map length_take min.absorb2)
  with d ts awake show ?thesis
    by (intro exI [of _ n] exI [of _ "ts\<lparr>queue := drop n (queue ts), active := active ts @ ars, drain := dr\<rparr>"])
      (auto simp: queueProcessLoop_def)
qed

definition queued_mgr :: manager where
  "queued_mgr = snd (fold daemon_step (take 3 sample_events) (boot Itoa (\<lambda>_. True) 1000))"

lemma queued_mgr_inv: "mgr_inv queued_mgr"
proof -
  have "machine.admissible (take 3 sample_events) (boot Itoa (\<lambda>_. True) 1000)"
    by (simp add: sample_events_def task_ok_def example_task_def IsService_def no_options_def)
  from reachable_inv [OF this] show ?thesis by (simp add: queued_mgr_def daemon_inv_def)
qed

lemma queued_mgr_state:
  "map_option (\<lambda>ts. (map (ID \<circ> ar_run) (active ts), map ID (queue ts), drain ts, cond ts))
     (taskStateFor queued_mgr ''backup'') = Some ([''0''], [''1''], DrainReady, True)"
  by code_simp

section \<open>Discarded runs are ended, never lost\<close>

lemma effects_startRun [simp]: "effects (startRun t r m) = effects m"
  by (simp add: startRun_alt panic_def split: option.split)

lemma effects_admit: "set (effects m) \<subseteq> set (effects (snd (admit ts run m)))"
  by (auto simp: admit_def Let_def end_unexecuted_def publishTerminal_def emit_def panic_def
      split: option.split prod.split concurrencyAction.split)

lemma effects_Trigger: "set (effects m) \<subseteq> set (effects (snd (TriggerRunWithOptions k opts m)))"
proof -
  have "set (effects m) \<subseteq> set (effects (snd (admit ts' run (emit es (snd (mint (put_task k ts' m)))))))"
    for ts' run es
    using effects_admit [of "emit es (snd (mint (put_task k ts' m)))" ts' run]
    by (auto simp: emit_def mint_def put_task_def)
  then show ?thesis
    by (auto simp: TriggerRunWithOptions_def mint_def panic_def Let_def
        split: option.split sum.split mgrError.split prod.split)
qed

lemma keys_admit:
  assumes "Name (ts_task ts) \<in> keys_of (tasks m)"
    "OnOverlap (ts_task ts) = PolicyQueue \<Longrightarrow> cond ts"
  shows "keys_of (tasks (snd (admit ts run m))) = keys_of (tasks m)"
proof -
  obtain a e ts' where "evaluateConcurrency ts run (MaxConcurrentValue (ts_task ts)) = Some (a, e, ts')"
    using evaluate_defined [OF assms(2)] by blast
  with assms(1) show ?thesis
    by (cases a) (auto simp: admit_def Let_def end_unexecuted_def publishTerminal_def startRun_alt
        put_task_def panic_def split: option.split)
qed

lemma keys_Trigger:
  assumes inv: "mgr_inv m"
  shows "keys_of (tasks (snd (TriggerRunWithOptions k opts m))) = keys_of (tasks m)"
proof (cases "\<exists>e. TriggerRunWithOptions k opts m = ((None, Some e), m) \<or>
    TriggerRunWithOptions k opts m = ((None, Some e), panic m)")
  case True
  then show ?thesis by (auto simp: panic_def)
next
  case False
  then obtain ts where ts: "map_of (tasks m) k = Some ts"
    by (cases "map_of (tasks m) k"; cases "isShutdown m") (auto simp: TriggerRunWithOptions_def)
  note lk = inv_lookup [OF inv ts]
  have k: "k \<in> keys_of (tasks m)" using ts map_of_None_keys [of "tasks m" k] by auto
  have q: "OnOverlap (ts_task ts) = PolicyQueue \<Longrightarrow> cond ts"
    using lk by (simp add: state_ok_def queue_ok_def)
  from False ts obtain ts' run where e: "TriggerRunWithOptions k opts m =
      admit ts' run (emit [PersistNew run, Publish EventRunCreated run []] (snd (mint (put_task k ts' m))))"
    and t': "ts_task ts' = ts_task ts" "cond ts' = cond ts"
    by (auto simp: TriggerRunWithOptions_def reserve_instance_def mint_def Let_def
        split: option.splits sum.splits if_splits prod.splits mgrError.splits)
  have "keys_of (tasks (snd (TriggerRunWithOptions k opts m))) =
      keys_of (tasks (emit [PersistNew run, Publish EventRunCreated run []] (snd (mint (put_task k ts' m)))))"
    unfolding e by (rule keys_admit) (use lk q t' k in \<open>auto simp: put_task_def\<close>)
  then show ?thesis using k by (simp add: put_task_def insert_absorb)
qed

interpretation logged: run_hook triggerJittered "\<lambda>m. x \<in> set (effects m)" "\<lambda>_. UNIV" for x
proof unfold_locales
  fix m :: manager and t k
  assume "x \<in> set (effects m)"
  then show "x \<in> set (effects (snd (triggerJittered t k m)))"
    using triggerJittered_snd [of t k m] effects_Trigger by fastforce
qed simp_all

interpretation unregistered: run_hook triggerJittered
    "\<lambda>m. mgr_inv m \<and> map_of (tasks m) k = None" "\<lambda>_. UNIV" for k
proof unfold_locales
  fix m t j
  assume "mgr_inv m \<and> map_of (tasks m) k = None"
  then show "mgr_inv (snd (triggerJittered t j m)) \<and> map_of (tasks (snd (triggerJittered t j m))) k = None"
    using triggerJittered_snd [of t j m] keys_Trigger hook.good_trigger
    by (auto simp: map_of_None_keys)
qed simp_all

lemma retireOrphaned_effects:
  "x \<in> set (effects (snd d)) \<Longrightarrow> x \<in> set (effects (snd (retireOrphaned runs d)))"
proof (induction runs arbitrary: d)
  case (Cons r rs)
  have "x \<in> set (effects (snd (gate_complete (ID r) d)))"
    using logged.tracked_complete [of x "ID r" UNIV d] Cons.prems
    by (simp add: logged.gate_tracked_def logged.tracked_def gate_complete_def)
  with Cons.IH show ?case by (simp add: retireOrphaned_def on_manager_def publishTerminal_def emit_def)
qed (simp add: retireOrphaned_def)

lemma retireOrphaned_publishes:
  "r \<in> set runs \<Longrightarrow> Publish EventRunFailed r [] \<in> set (effects (snd (retireOrphaned runs d)))"
proof (induction runs arbitrary: d)
  case (Cons a rs)
  let ?d = "on_manager (publishTerminal EventRunFailed a []) (gate_complete (ID a) d)"
  have e: "retireOrphaned (a # rs) d = retireOrphaned rs ?d" by (simp add: retireOrphaned_def)
  show ?case
  proof (cases "r = a")
    case True
    have "Publish EventRunFailed a [] \<in> set (effects (snd ?d))"
      by (simp add: on_manager_def publishTerminal_def emit_def)
    with True show ?thesis unfolding e by (auto intro: retireOrphaned_effects)
  next
    case False
    with Cons show ?thesis unfolding e by simp
  qed
qed simp

lemma retireOrphaned_unregistered:
  "mgr_inv (snd d) \<Longrightarrow> map_of (tasks (snd d)) k = None \<Longrightarrow>
     map_of (tasks (snd (retireOrphaned runs d))) k = None"
proof (induction runs arbitrary: d)
  case (Cons r rs)
  let ?d = "gate_complete (ID r) d"
  have "mgr_inv (snd ?d) \<and> map_of (tasks (snd ?d)) k = None"
    using unregistered.tracked_complete [of k "ID r" UNIV d] Cons.prems
    by (simp add: unregistered.gate_tracked_def unregistered.tracked_def gate_complete_def)
  with Cons.IH [of "on_manager (publishTerminal EventRunFailed r []) ?d"] show ?case
    by (simp add: retireOrphaned_def on_manager_def publishTerminal_def)
qed (simp add: retireOrphaned_def)

text \<open>Removing a task leaves nothing behind: its name stops resolving at once, and every run
  that was still queued for it is ended as skipped, persisted and announced, so no row stays
  pending for ever.\<close>

lemma remove_finalises_queue:
  assumes inv: "mgr_inv (snd d)" and ts: "map_of (tasks (snd d)) k = Some ts"
  shows "map_of (tasks (snd (RemoveTask k d))) k = None
    \<and> (\<forall>r\<in>set (queue ts). \<exists>r'. ID r' = ID r \<and> Status r' = PhaseEnded
         \<and> EndReason r' = Some ReasonSkipped \<and> EndedAt r' = Some (clock (snd d))
         \<and> PersistExisting r' \<in> set (effects (snd (RemoveTask k d)))
         \<and> Publish EventRunFailed r' [] \<in> set (effects (snd (RemoveTask k d))))"
proof -
  note lk = inv_lookup [OF inv ts]
  obtain runs m1 where r: "removeTaskLocked k (snd d) = (runs, m1)"
    by (cases "removeTaskLocked k (snd d)")
  have rm: "RemoveTask k d = retireOrphaned runs (fst d, m1)" by (simp add: RemoveTask_def r)
  have m1: "mgr_inv m1" using inv_remove [OF inv, of k] r by simp
  have none: "map_of (tasks m1) k = None"
    using r by (auto simp: removeTaskLocked_alt [OF ts] Let_def emit_def delete_conv' split: if_splits)
  have runs: "runs = map (endOrphanedPending (clock (snd d))) (queue ts)"
    using r lk by (auto simp: removeTaskLocked_alt [OF ts] Let_def state_ok_def queue_ok_def split: if_splits)
  have pe: "PersistExisting r' \<in> set (effects m1)" if "r' \<in> set runs" for r'
    using r that by (auto simp: removeTaskLocked_alt [OF ts] Let_def emit_def split: if_splits)
  show ?thesis
  proof (intro conjI ballI)
    show "map_of (tasks (snd (RemoveTask k d))) k = None"
      unfolding rm by (rule retireOrphaned_unregistered) (simp_all add: m1 none)
    fix q assume "q \<in> set (queue ts)"
    then have mem: "endOrphanedPending (clock (snd d)) q \<in> set runs" by (simp add: runs)
    then show "\<exists>r'. ID r' = ID q \<and> Status r' = PhaseEnded
         \<and> EndReason r' = Some ReasonSkipped \<and> EndedAt r' = Some (clock (snd d))
         \<and> PersistExisting r' \<in> set (effects (snd (RemoveTask k d)))
         \<and> Publish EventRunFailed r' [] \<in> set (effects (snd (RemoveTask k d)))"
      unfolding rm
      by (intro exI [of _ "endOrphanedPending (clock (snd d)) q"] conjI)
        (simp_all add: retireOrphaned_publishes retireOrphaned_effects pe,
         simp_all add: endOrphanedPending_def)
  qed
qed

section \<open>Shutdown\<close>

lemma refused_trigger: "isShutdown m \<Longrightarrow> TriggerRunWithOptions k opts m = ((None, Some ShuttingDown), m)"
  by (simp add: TriggerRunWithOptions_def)

lemma refused_jittered: "isShutdown m \<Longrightarrow> triggerJittered t k m = (None, m)"
  by (simp add: triggerJittered_def refused_trigger Let_def)

lemma closed_submit: "closed (fst d) \<Longrightarrow> submit tr now t tick sl w d = d"
  by (cases d) (simp add: submit_def)

lemma closed_breach: "closed (fst d) \<Longrightarrow> breach tr now t d = d"
  by (cases d) (simp add: breach_def)

text \<open>Nothing starts once shutdown began: triggers of every kind are refused without touching
  the manager, held jittered fires are dropped, a drain goroutine ends and leaves its queue for
  the next boot, and retries and restarts, waiting or not, give up.\<close>

lemma shutdown_refuses:
  assumes inv: "mgr_inv (snd d)" and d': "d' = BeginShutdown d" and ts: "taskStateFor (snd d') k = Some ts"
    and awake: "drain ts = DrainReady"
  shows "TriggerRunWithOptions k opts (snd d') = ((None, Some ShuttingDown), snd d')
    \<and> ScheduleJitteredRun k tick sl window d' = d' \<and> breach_timer k d' = d' \<and> pending (fst d') = []
    \<and> follow f (snd d') = snd d'
    \<and> (\<exists>ts'. taskStateFor (queueProcessLoop k (snd d')) k = Some ts' \<and> drain ts' = DrainGone
         \<and> map ar_run (active ts') = map ar_run (active ts) \<and> queue ts' = queue ts)"
proof -
  have sd: "isShutdown (snd d')" "shutdownCtx (snd d')" "closed (fst d')" "pending (fst d') = []"
    by (simp_all add: d' BeginShutdown_def gate_shutdown_def)
  have inv': "mgr_inv (snd d')" using inv by (simp add: d' BeginShutdown_def inv_shutdown_flag)
  have "drain_stops (snd d') ts" using sd by (simp add: drain_stops_def)
  with drain_loop_spec [OF inv' ts refl] ts awake
  have "\<exists>ts'. taskStateFor (queueProcessLoop k (snd d')) k = Some ts' \<and> drain ts' = DrainGone
         \<and> map ar_run (active ts') = map ar_run (active ts) \<and> queue ts' = queue ts"
    by (auto simp: queueProcessLoop_def)
  moreover have "follow f (snd d') = snd d'" using sd by (cases f) simp_all
  ultimately show ?thesis
    using sd by (simp add: refused_trigger ScheduleJitteredRun_def breach_timer_def closed_submit closed_breach)
qed

lemma taskStateFor_BeginShutdown [simp]: "taskStateFor (snd (BeginShutdown d)) = taskStateFor (snd d)"
  by (auto simp: BeginShutdown_def taskStateFor_def fun_eq_iff split: option.split)

section \<open>Recovery of pending rows\<close>

definition total :: "PendingRunsResult \<Rightarrow> int" where
  "total res = Resumed res + Queued res + Skipped res + Failed res"

text \<open>What became of one row: alive, or ended and persisted.\<close>

definition settled :: "Run \<Rightarrow> Run list \<Rightarrow> manager \<Rightarrow> bool" where
  "settled r ended m \<longleftrightarrow> ID r \<in> live_ids m \<or>
     (\<exists>r'\<in>set ended. ID r' = ID r \<and> Status r' = PhaseEnded \<and> PersistExisting r' \<in> set (effects m))"

lemma load_one_settles:
  assumes inv: "mgr_inv m" and sd: "\<not> isShutdown m" and l: "load_one r (ended, m, res) = (ended', m', res')"
  shows "total res' = total res + 1 \<and> set ended \<subseteq> set ended' \<and> set (effects m) \<subseteq> set (effects m')
    \<and> settled r ended' m'"
proof (cases "map_of (tasks m) (TaskName r)")
  case None
  with l show ?thesis
    by (auto simp: load_one_def Let_def total_def settled_def emit_def endOrphanedPending_def)
next
  case (Some ts)
  note lk = inv_lookup [OF inv Some]
  have ended: "total res' = total res + 1 \<and> set ended \<subseteq> set ended' \<and>
      set (effects m) \<subseteq> set (effects m') \<and> settled r ended' m'"
    if "ended' = ended @ [End (Some t) e (-1) (clock m) r]"
      "m' = emit [PersistExisting (End (Some t) e (-1) (clock m) r)] m" "total res' = total res + 1" for t e
    using that by (auto simp: settled_def emit_def)
  consider (svc) "IsService (TKind (ts_task ts))"
    | (q) "\<not> IsService (TKind (ts_task ts))" "OnOverlap (ts_task ts) = PolicyQueue"
    | (p) "\<not> IsService (TKind (ts_task ts))" "OnOverlap (ts_task ts) \<noteq> PolicyQueue" by blast
  then show ?thesis
  proof cases
    case svc
    with Some l show ?thesis
      by (intro ended) (auto simp: load_one_def resumePendingRun_def Let_def total_def)
  next
    case q
    then have c: "cond ts" using lk by (simp add: state_ok_def queue_ok_def)
    let ?ts = "signal (ts\<lparr>queue := queue ts @ [r]\<rparr>)"
    show ?thesis
    proof (cases "int (length (queue ts)) \<ge> MaxQueuedValue (ts_task ts)")
      case True
      with Some l q show ?thesis
        by (intro ended)
          (auto simp: load_one_def resumePendingRun_def requeuePendingRun_def Let_def total_def)
    next
      case False
      have "ID r \<in> live_of ?ts" by (simp add: live_of_def)
      with live_put_task(1) [OF inv, of ?ts "TaskName r"] False Some l q c show ?thesis
        by (auto simp: load_one_def resumePendingRun_def requeuePendingRun_def Let_def total_def
            settled_def)
    qed
  next
    case p
    show ?thesis
    proof (cases "int (length (active ts)) < MaxConcurrentValue (ts_task ts)")
      case False
      with Some l p show ?thesis
        by (intro ended)
          (auto simp: load_one_def resumePendingRun_def restartOrFailPendingRun_def Let_def total_def)
    next
      case True
      have "ID r \<in> live_ids (startRun (ts_task ts) r m)"
        by (rule live_startRun(2) [OF inv]) (use Some lk in simp)
      with True Some l p show ?thesis
        by (auto simp: load_one_def resumePendingRun_def restartOrFailPendingRun_def Let_def
            total_def settled_def)
    qed
  qed
qed

lemma settled_mono:
  "settled r ended m \<Longrightarrow> set ended \<subseteq> set ended' \<Longrightarrow> set (effects m) \<subseteq> set (effects m') \<Longrightarrow>
     live_ids m \<subseteq> live_ids m' \<Longrightarrow> settled r ended' m'"
  by (auto simp: settled_def)

lemma load_all_settles:
  "mgr_inv m \<Longrightarrow> \<not> isShutdown m \<Longrightarrow> \<forall>r\<in>set runs. pending_row r \<Longrightarrow>
     fold load_one runs (ended, m, res) = (ended', m', res') \<Longrightarrow>
     total res' = total res + int (length runs) \<and> set ended \<subseteq> set ended' \<and>
     set (effects m) \<subseteq> set (effects m') \<and> live_ids m \<subseteq> live_ids m' \<and>
     (\<forall>r\<in>set runs. settled r ended' m')"
proof (induction runs arbitrary: ended m res)
  case (Cons r rs)
  obtain e1 m1 res1 where l: "load_one r (ended, m, res) = (e1, m1, res1)" by (metis prod_cases3)
  have m1: "mgr_inv m1" "\<not> isShutdown m1"
    using inv_load_one [OF Cons.prems(1,2) _ l] Cons.prems(2,3) by auto
  have f: "fold load_one rs (e1, m1, res1) = (ended', m', res')" using Cons.prems(4) l by simp
  note IH = Cons.IH [OF m1 _ f]
  have rs: "\<forall>r\<in>set rs. pending_row r" using Cons.prems(3) by simp
  note one = load_one_settles [OF Cons.prems(1,2) l]
  have "settled r ended' m'"
    by (rule settled_mono [of r e1 m1]) (use one IH [OF rs] in auto)
  with one IH [OF rs] live_load_one [OF Cons.prems(1) l] show ?case by auto
qed auto

lemma fold_publish:
  "tasks (fold (\<lambda>r. publishTerminal EventRunFailed r []) rs m) = tasks m
   \<and> removedTasks (fold (\<lambda>r. publishTerminal EventRunFailed r []) rs m) = removedTasks m
   \<and> set (effects m) \<union> (\<lambda>r. Publish EventRunFailed r []) ` set rs
     \<subseteq> set (effects (fold (\<lambda>r. publishTerminal EventRunFailed r []) rs m))"
proof (induction rs arbitrary: m)
  case (Cons r rs)
  from Cons.IH [of "publishTerminal EventRunFailed r [] m"] show ?case
    by (auto simp: publishTerminal_def emit_def)
qed simp

text \<open>C9. Recovery at boot settles every pending row: the four counters add up to the number of
  rows, and each row is afterwards started or queued again, or it is ended, persisted and
  announced, so none stays pending without an owner.\<close>

theorem recovery_settles_every_row:
  assumes inv: "mgr_inv m" and sd: "\<not> isShutdown m" and rows: "\<forall>r\<in>set runs. pending_row r"
    and l: "LoadPendingRuns runs m = (res, m')"
  shows "Resumed res + Queued res + Skipped res + Failed res = int (length runs)
    \<and> (\<forall>r\<in>set runs. ID r \<in> live_ids m' \<or>
         (\<exists>r'. ID r' = ID r \<and> Status r' = PhaseEnded \<and> PersistExisting r' \<in> set (effects m')
           \<and> Publish EventRunFailed r' [] \<in> set (effects m')))"
proof -
  obtain ended m1 res1 where f: "fold load_one runs
      ([], m, \<lparr>Resumed = 0, Queued = 0, Skipped = 0, Failed = 0\<rparr>) = (ended, m1, res1)"
    by (metis prod_cases3)
  with l have res: "res1 = res" and m': "m' = fold (\<lambda>r. publishTerminal EventRunFailed r []) ended m1"
    by (simp_all add: LoadPendingRuns_def)
  note s = load_all_settles [OF inv sd rows f]
  note p = fold_publish [of ended m1, folded m']
  have "live_ids m' = live_ids m1" by (rule live_ids_cong) (use p in auto)
  with s p show ?thesis by (auto simp: total_def res settled_def) blast
qed

theorem recovery_settles_every_row_witness:
  "ID (new_run ''r9'' ''backup'' TriggeredByCron 5) \<in> live_ids (snd (LoadPendingRuns
      [new_run ''r9'' ''backup'' TriggeredByCron 5] (registered example_task))) \<or>
   (\<exists>r'. ID r' = ID (new_run ''r9'' ''backup'' TriggeredByCron 5) \<and> Status r' = PhaseEnded \<and>
      Publish EventRunFailed r' [] \<in> set (effects (snd (LoadPendingRuns
        [new_run ''r9'' ''backup'' TriggeredByCron 5] (registered example_task)))))"
proof -
  let ?r = "new_run ''r9'' ''backup'' TriggeredByCron 5"
  have "\<forall>r\<in>set [?r]. pending_row r" by (simp add: pending_row_def new_run_def)
  from recovery_settles_every_row [OF registered_inv [OF example_ok(1)] registered_state(2) this
      surjective_pairing]
  show ?thesis by (simp only: list.set) blast
qed

section \<open>Retries carry their parameters\<close>

lemma End_Params [simp]:
  "Params (End t e c at r) = Params r" "RetryOfRunID (End t e c at r) = RetryOfRunID r"
  by (simp_all add: End_def Let_def split: option.split)

lemma admit_run:
  assumes "evaluateConcurrency ts run (MaxConcurrentValue (ts_task ts)) = Some (a, e, ts')"
    and "\<not> IsService (TKind (ts_task ts))"
  shows "\<exists>r. fst (fst (admit ts run m)) = Some r \<and> (r = run \<or> (\<exists>t e at. r = End t e (-1) at run))"
  using assms by (cases a) (auto simp: admit_def Let_def end_unexecuted_def)

text \<open>A retry re-runs the same job: when a run whose parameters resolved to a non-empty map is
  retried under the same declarations, the new run carries exactly that map, with the parameters
  the operator omitted still omitted; it is the next attempt of the chain, names the run it
  retries, and keeps the original trigger.\<close>

lemma retry_reproduces_run:
  assumes inv: "mgr_inv m" and sd: "\<not> isShutdown m" and ts: "map_of (tasks m) (Name task) = Some ts"
    and same: "Parameters (ts_task ts) = Parameters task" and plain: "\<not> IsService (TKind (ts_task ts))"
    and valid: "validateTaskParams (float_ok m) task = None"
    and canon: "\<forall>p\<in>set (Parameters task). flag_default_canonical p"
    and first: "ResolveParamValues (float_ok m) (Parameters task) spl = Inr res" "res \<noteq> []"
    and run: "Params failedRun = Some res"
  shows "\<exists>r. fst (fst (TriggerRunWithOptions (Name task) (retry_options task failedRun) m)) = Some r
    \<and> Params r = Some res \<and> RetryAttempt r = RetryAttempt failedRun + 1
    \<and> RetryOfRunID r = Some (ID failedRun) \<and> Triggered r = Triggered failedRun"
proof -
  note lk = inv_lookup [OF inv ts]
  let ?o = "retry_options task failedRun"
  have ps: "resolve_params m ts (o_Params ?o) = Inr (Some res)"
    using resupply [OF valid canon first(1)] first(2) run same
    by (simp add: resolve_params_def retry_options_def no_options_def)
  let ?run = "build_run (Name task) ?o False 0 (Some res) (ulid m (minted m)) (clock m)"
  have "OnOverlap (ts_task ts) = PolicyQueue \<Longrightarrow> cond ts" using lk by (simp add: state_ok_def queue_ok_def)
  from evaluate_defined [OF this] obtain a e ts' where
    "evaluateConcurrency ts ?run (MaxConcurrentValue (ts_task ts)) = Some (a, e, ts')" by blast
  from admit_run [OF this plain] obtain r where
    "fst (fst (TriggerRunWithOptions (Name task) ?o m)) = Some r"
    "r = ?run \<or> (\<exists>t e at. r = End t e (-1) at ?run)"
    unfolding Trigger_plain [OF inv sd ts plain ps] by blast
  moreover have "Triggered ?run = Triggered failedRun"
    by (simp add: build_run_def new_run_def retry_options_def no_options_def)
  ultimately show ?thesis
    by (intro exI [of _ r]) (auto simp: retry_options_def no_options_def)
qed

text \<open>A task whose only parameter has a default.\<close>

definition mode_task :: Task where
  "mode_task = example_task\<lparr>Parameters := take 1 example_params\<rparr>"

text \<open>A retry forgets an omission that left no parameter at all: a task whose only parameter has
  a default, triggered with that parameter explicitly omitted, runs without it, but its retry runs
  with the default, because the empty map was stored as nil.\<close>

lemma retry_reapplies_default:
  "case fst (fst (TriggerRunWithOptions ''backup''
          (no_options\<lparr>o_Params := [(''MODE'', None)]\<rparr>) (registered mode_task))) of
     None \<Rightarrow> False
   | Some r1 \<Rightarrow> Params r1 = None \<and>
       map_option Params (fst (fst (TriggerRunWithOptions ''backup'' (retry_options mode_task r1)
         (registered mode_task)))) = Some (Some [(''MODE'', ''full'')])"
  by code_simp

section \<open>Services\<close>

text \<open>A stopped service stays down: stopping a service asks every instance in flight to end and,
  until a start, a restart or a new definition clears the flag, neither a pending restart of any of
  its instances nor a recycle nor a start of its instances spawns a run.\<close>

lemma stopped_service_stays_down:
  assumes inv: "mgr_inv m" and ts: "map_of (tasks m) k = Some ts" and svc: "IsService (TKind (ts_task ts))"
    and m': "m' = snd (StopService k m)"
  shows "isServiceStopped m' k
    \<and> (\<exists>ts'. map_of (tasks m') k = Some ts' \<and> length (active ts') = length (active ts)
         \<and> (\<forall>ar\<in>set (active ts'). ar_ctxDone ar))
    \<and> StartServiceInstances k b m' = (None, m') \<and> RecycleServiceInstances k m' = (None, m')
    \<and> (\<forall>task run. Name task = k \<and> IsService (TKind task) \<longrightarrow> restart_now task run m' = m')"
proof -
  from inv_lookup(1) [OF inv ts] svc obtain s where s: "supervisor ts = Some s"
    by (cases "supervisor ts") (auto simp: state_ok_def sup_ok_state_def)
  let ?ts = "on_active Cancel (ts\<lparr>supervisor := Some (MarkStopped s), bookkeepingStop := False\<rparr>)"
  have lk: "map_of (tasks m') k = Some ?ts"
    using ts svc s by (simp add: m' StopService_def with_supervisor_def serviceLocked_def Let_def)
  have st: "isServiceStopped m' k" "serviceLocked m' k = Inr ?ts"
    using lk svc by (simp_all add: isServiceStopped_def serviceLocked_def MarkStopped_def)
  have "\<forall>ar\<in>set (active ?ts). ar_ctxDone ar" by (simp add: Cancel_def)
  with lk st show ?thesis
    by (auto simp: StartServiceInstances_def RecycleServiceInstances_def with_supervisor_def
        MarkStopped_def restart_now_def)
qed

definition web_task :: Task where
  "web_task = example_task\<lparr>Name := ''web'', TKind := KindService, OnOverlap := PolicySkip,
     Instances := 2, Restart := RestartAlways, Parameters := []\<rparr>"

lemma web_ok: "task_ok web_task" "IsService (TKind web_task)" "Name web_task = ''web''"
  by (simp_all add: web_task_def task_ok_def IsService_def)

text \<open>The tallies of the snapshot's loop.\<close>

definition tally :: "(int \<Rightarrow> bool) \<Rightarrow> int list \<Rightarrow> int" where
  "tally P is = int (length (filter P is))"

lemma tally_simps [simp]:
  "tally P [] = 0"
  "tally P (is @ js) = tally P is + tally P js"
  "tally P (i # js) = (if P i then 1 else 0) + tally P js"
  "0 \<le> tally P js"
  by (simp_all add: tally_def)

lemma count_slot_fields [simp]:
  "c_running (count_slot st sl c) = c_running c + (if instance_state st sl = InstanceRunning then 1 else 0)"
  "c_fatal (count_slot st sl c) = c_fatal c + (if instance_state st sl = InstanceFatal then 1 else 0)"
  "c_exited (count_slot st sl c) = c_exited c + (if instance_state st sl = InstanceStopped then 1 else 0)"
  "c_failedExits (count_slot st sl c) = c_failedExits c +
     (if instance_state st sl = InstanceStopped \<and> exitFailed sl then 1 else 0)"
  by (simp_all add: count_slot_def split: InstanceState.split)

lemma counts_tally:
  "fold (\<lambda>i. count_slot st (slot s i)) js c =
     \<lparr>c_running = c_running c + tally (\<lambda>i. instance_state st (slot s i) = InstanceRunning) js,
      c_fatal = c_fatal c + tally (\<lambda>i. instance_state st (slot s i) = InstanceFatal) js,
      c_exited = c_exited c + tally (\<lambda>i. instance_state st (slot s i) = InstanceStopped) js,
      c_failedExits = c_failedExits c + tally (\<lambda>i. instance_state st (slot s i) = InstanceStopped
        \<and> exitFailed (slot s i)) js\<rparr>"
proof (induction js arbitrary: c)
  case (Cons i js)
  show ?case by (simp add: Cons.IH)
qed simp

lemma tally_all: "tally P js \<ge> int (length js) \<longleftrightarrow> (\<forall>i\<in>set js. P i)"
proof -
  have "length (filter P js) = length js \<longleftrightarrow> (\<forall>i\<in>set js. P i)"
    by (metis filter_id_conv filter_True length_filter_less nat_less_le)
  moreover have "length (filter P js) \<le> length js" by simp
  ultimately show ?thesis by (auto simp: tally_def le_antisym)
qed

lemma tally_or:
  "(\<And>i. \<not> (P i \<and> Q i)) \<Longrightarrow> tally P js + tally Q js = tally (\<lambda>i. P i \<or> Q i) js"
  by (induction js) auto

text \<open>The reported roll-up is what the slots say: a service that is not stopped is reported
  running exactly when every configured instance is live; it is reported down, as failed or as
  cleanly stopped, exactly when no instance is live and each has gone fatal or exited for good, and
  as failed exactly when one of them failed; every other combination is degraded. The number of
  running instances counts the live slots.\<close>

lemma service_rollup:
  assumes sup: "supervisor ts = Some s" and ts: "map_of (tasks m) k = Some ts"
    and svc: "IsService (TKind (ts_task ts))" and inv: "sup_inv s" and run: "\<not> s_stopped s"
    and sn: "ServiceSnapshot m k = Some sn"
  shows "sn_Running sn = int (length (filter (\<lambda>i. live (slot s i)) (indexes s)))
    \<and> (sn_State sn = SvcRunning \<longleftrightarrow> (\<forall>i\<in>set (indexes s). live (slot s i)))
    \<and> (sn_State sn \<in> {SvcFatal, SvcStopped} \<longleftrightarrow>
         (\<forall>i\<in>set (indexes s). \<not> live (slot s i) \<and> (fatal (slot s i) \<or> exited (slot s i))))
    \<and> (sn_State sn = SvcFatal \<longrightarrow>
         (\<exists>i\<in>set (indexes s). (fatal (slot s i) \<and> \<not> exited (slot s i))
            \<or> (exited (slot s i) \<and> exitFailed (slot s i))))"
proof -
  let ?js = "indexes s"
  let ?is = "\<lambda>i. instance_state False (slot s i)"
  have len: "int (length ?js) = s_instances s" and pos: "1 \<le> s_instances s"
    using inv by (simp_all add: indexes_def sup_inv_def)
  define r where "r = tally (\<lambda>i. ?is i = InstanceRunning) ?js"
  define f where "f = tally (\<lambda>i. ?is i = InstanceFatal) ?js"
  define x where "x = tally (\<lambda>i. ?is i = InstanceStopped) ?js"
  define y where "y = tally (\<lambda>i. ?is i = InstanceStopped \<and> exitFailed (slot s i)) ?js"
  have live_iff: "?is i = InstanceRunning \<longleftrightarrow> live (slot s i)" for i by (simp add: instance_state_def)
  have down_iff: "?is i = InstanceFatal \<or> ?is i = InstanceStopped \<longleftrightarrow>
      \<not> live (slot s i) \<and> (fatal (slot s i) \<or> exited (slot s i))" for i
    by (auto simp: instance_state_def)
  have sn': "sn_Running sn = r" "sn_State sn = serviceRollupState False
      \<lparr>c_running = r, c_fatal = f, c_exited = x, c_failedExits = y\<rparr> (s_instances s)"
    using sn sup ts svc run
    by (auto simp: ServiceSnapshot_def serviceLocked_def Let_def counts_tally zero_counts_def
        r_def f_def x_def y_def)
  have all_run: "r \<ge> s_instances s \<longleftrightarrow> (\<forall>i\<in>set ?js. live (slot s i))"
    unfolding r_def len [symmetric] tally_all by (simp add: live_iff)
  have fx: "f + x = tally (\<lambda>i. ?is i = InstanceFatal \<or> ?is i = InstanceStopped) ?js"
    unfolding f_def x_def by (rule tally_or) simp
  have all_down: "f + x \<ge> s_instances s \<longleftrightarrow>
      (\<forall>i\<in>set ?js. \<not> live (slot s i) \<and> (fatal (slot s i) \<or> exited (slot s i)))"
    unfolding fx len [symmetric] tally_all down_iff ..
  have ne: "\<exists>i. i \<in> set ?js" using pos by (intro exI [of _ 0]) simp
  have excl: "\<not> (r \<ge> s_instances s \<and> f + x \<ge> s_instances s)" using ne all_run all_down by blast
  have nn: "0 \<le> f" "0 \<le> y" "0 \<le> x" by (simp_all add: f_def y_def x_def)
  have fy: "f + y > 0 \<Longrightarrow> \<exists>i\<in>set ?js. (fatal (slot s i) \<and> \<not> exited (slot s i))
      \<or> (exited (slot s i) \<and> exitFailed (slot s i))"
  proof -
    assume "f + y > 0"
    then have pos: "f > 0 \<or> y > 0" by linarith
    have some: "tally P ?js > 0 \<Longrightarrow> \<exists>i\<in>set ?js. P i" for P
    proof (rule ccontr)
      assume "tally P ?js > 0" "\<not> (\<exists>i\<in>set ?js. P i)"
      then show False by (simp add: tally_def filter_False)
    qed
    have "(\<exists>i\<in>set ?js. ?is i = InstanceFatal) \<or>
        (\<exists>i\<in>set ?js. ?is i = InstanceStopped \<and> exitFailed (slot s i))"
      using pos
    proof
      assume "f > 0"
      then show ?thesis unfolding f_def by (intro disjI1 some)
    next
      assume "y > 0"
      then show ?thesis unfolding y_def by (intro disjI2 some)
    qed
    then show ?thesis by (auto simp: instance_state_def split: if_splits)
  qed
  have running: "sn_Running sn = int (length (filter (\<lambda>i. live (slot s i)) ?js))"
    using sn'(1) by (simp add: r_def tally_def live_iff)
  let ?down = "f + x \<ge> s_instances s" and ?run = "r \<ge> s_instances s"
  have state: "sn_State sn = (if ?run then SvcRunning
      else if ?down \<and> f + y > 0 then SvcFatal
      else if x \<ge> s_instances s then SvcStopped else SvcDegraded)"
    by (simp add: sn'(2) serviceRollupState_def)
  have "sn_State sn = SvcRunning \<longleftrightarrow> ?run" by (simp add: state)
  moreover have "sn_State sn \<in> {SvcFatal, SvcStopped} \<longleftrightarrow> ?down"
    using excl nn by (auto simp: state split: if_splits)
  moreover have "sn_State sn = SvcFatal \<longrightarrow> f + y > 0" by (simp add: state)
  ultimately show ?thesis using running fy by (simp only: all_run all_down) blast
qed

end
