(* ===== verification/Cronspec.thy ===== *)
theory Cronspec
  imports Task_Model
begin

text \<open>
  The cron grammar of \<open>cronspec/cronspec.go\<close> and \<open>cronspec/explain.go\<close> as far as it is RunWisp's
  own: the rejections and rewrites around go-cron's parser, the recovery of ticks that a
  spring-forward gap hides, and the effective spec and zone of a task. go-cron's parser and its
  field-matching \<open>Next\<close>, the time zone database and \<open>time.ParseDuration\<close> are parameters, the
  fields of \<open>cronLib\<close> and of the schedules.
\<close>

section \<open>Zones and schedules\<close>

text \<open>A \<open>*time.Location\<close>: UTC, the host's zone, a zone of the database, or a fixed offset.\<close>

datatype zone = UTC | Local | Named string | FixedZone int

text \<open>go-cron's day-of-month constraints, with the kinds the code tells apart.\<close>

datatype DomConstraint = DomLast | DomLastOffset nat | DomLastWeekday | DomNearestWeekday nat

text \<open>The part of go-cron's \<open>SpecSchedule\<close> the code reads. \<open>matchNext\<close> is its \<open>Next\<close> evaluated in a
  zone; its result is zero when nothing matches any more.\<close>

record SpecSchedule =
  Dom :: "64 word"
  Month :: "64 word"
  Dow :: "64 word"
  DomConstraints :: "DomConstraint list"
  Location :: zone
  matchNext :: "zone \<Rightarrow> instant \<Rightarrow> instant"

datatype cronSchedule =
    SpecSched SpecSchedule
  | ConstantDelay "instant \<Rightarrow> instant"
  | TriggeredSched
  | OtherSched "zone \<Rightarrow> instant \<Rightarrow> instant"

record wallSecond =
  w_year :: int
  w_month :: int
  w_day :: int
  w_hour :: int
  w_minute :: int
  w_second :: int

text \<open>\<open>zoneOffset\<close> and \<open>zoneBounds\<close> are \<open>t.Zone()\<close>'s offset in seconds and the end that
  \<open>t.ZoneBounds()\<close> reports; \<open>wallClock\<close> reads the calendar and clock fields of an instant.\<close>

record cronLib =
  goParse :: "string \<Rightarrow> cronSchedule option"
  parseDuration :: "string \<Rightarrow> duration option"
  loadsZone :: "string \<Rightarrow> bool"
  zoneOffset :: "zone \<Rightarrow> instant \<Rightarrow> int"
  zoneBounds :: "zone \<Rightarrow> instant \<Rightarrow> instant"
  wallClock :: "zone \<Rightarrow> instant \<Rightarrow> wallSecond"

section \<open>Rewrites and rejections\<close>

definition has_prefix :: "string \<Rightarrow> string \<Rightarrow> bool" where
  "has_prefix p s \<longleftrightarrow> CutPrefix p s \<noteq> None"

definition fieldsAfterTZ :: "string \<Rightarrow> string list" where
  "fieldsAfterTZ spec =
     (case Fields spec of
        [] \<Rightarrow> []
      | f # fs \<Rightarrow> if has_prefix ''TZ='' f \<or> has_prefix ''CRON_TZ='' f then fs else f # fs)"

definition fractionalEvery :: "cronLib \<Rightarrow> string \<Rightarrow> bool" where
  "fractionalEvery lib spec =
     (case fieldsAfterTZ spec of
        [kw, iv] \<Rightarrow> kw = ''@every'' \<and>
          (case parseDuration lib iv of Some d \<Rightarrow> d mod second \<noteq> 0 | None \<Rightarrow> False)
      | _ \<Rightarrow> False)"

definition dowNames :: "(string \<times> int) list" where
  "dowNames = [(''sun'', 0), (''mon'', 1), (''tue'', 2), (''wed'', 3), (''thu'', 4), (''fri'', 5),
     (''sat'', 6)]"

definition dowValue :: "string \<Rightarrow> int option" where
  "dowValue s =
     (case Atoi s of
        Some n \<Rightarrow> if 0 \<le> n \<and> n \<le> 7 then Some n else None
      | None \<Rightarrow> map_of dowNames (map lower_char s))"

text \<open>The loop \<open>for d := lo; d <= hi; d += step\<close>, for a positive step.\<close>

function stepped :: "int \<Rightarrow> int \<Rightarrow> int \<Rightarrow> int list" where
  "stepped lo hi step = (if lo \<le> hi \<and> 0 < step then lo # stepped (lo + step) hi step else [])"
  by pat_completeness auto
termination by (relation "measure (\<lambda>(lo, hi, _). nat (hi - lo + 1))") auto

declare stepped.simps [simp del]

text \<open>The days of a range whose first day is after its last, going round the week once.\<close>

definition wrapped_days :: "int \<Rightarrow> int \<Rightarrow> int \<Rightarrow> int list" where
  "wrapped_days lo hi step =
     (let l = lo mod 7; h = (if hi < l then hi + 7 else hi)
      in map (\<lambda>d. d mod 7) (stepped l h step))"

definition wrappedDowTerm :: "string \<Rightarrow> string" where
  "wrappedDowTerm term =
     (case Cut (CHR ''/'') term of (base, stepText, hasStep) \<Rightarrow>
      (case Cut (CHR ''-'') base of (loText, hiText, isRange) \<Rightarrow>
       (case (dowValue loText, dowValue hiText) of
          (Some lo, Some hi) \<Rightarrow>
            if \<not> isRange \<or> lo \<le> hi then term
            else (case (if hasStep then Atoi stepText else Some 1) of
                None \<Rightarrow> term
              | Some step \<Rightarrow>
                  if step < 1 then term
                  else Join '','' (map (\<lambda>d. Itoa (nat d)) (wrapped_days lo hi step)))
        | _ \<Rightarrow> term)))"

definition wrappedDowRanges :: "string \<Rightarrow> string" where
  "wrappedDowRanges spec =
     (let body = fieldsAfterTZ spec in
      if length body \<noteq> 5 \<and> length body \<noteq> 6 then spec
      else let fields = Fields spec;
               terms = map wrappedDowTerm (Split (CHR '','') (last fields))
           in Join '' '' (butlast fields @ [Join '','' terms]))"

definition daysIn :: "nat list" where
  "daysIn = [0, 31, 29, 31, 30, 31, 30, 31, 31, 30, 31, 30, 31]"

text \<open>\<open>starBit\<close> is bit 63.\<close>

definition starBit :: nat where "starBit = 63"

fun constraintFits :: "DomConstraint \<Rightarrow> nat \<Rightarrow> bool" where
  "constraintFits (DomLastOffset n) monthDays \<longleftrightarrow> n < monthDays"
| "constraintFits (DomNearestWeekday n) monthDays \<longleftrightarrow> n \<le> monthDays"
| "constraintFits _ monthDays \<longleftrightarrow> True"

definition neverFires :: "SpecSchedule \<Rightarrow> bool" where
  "neverFires s =
     (if DomConstraints s = [] \<or> bit (Dom s) starBit \<or> \<not> bit (Dow s) starBit then False
      else list_all (\<lambda>m. \<not> bit (Month s) m
             \<or> (list_all (\<lambda>d. \<not> bit (Dom s) d) [1 ..< Suc (daysIn ! m)]
                \<and> list_all (\<lambda>c. \<not> constraintFits c (daysIn ! m)) (DomConstraints s)))
           [1 ..< 13])"

datatype specError = GoCronRejects | NeverFiresOnItsOwn | DayNeverOccurs | FractionalSeconds

definition Parse :: "cronLib \<Rightarrow> string \<Rightarrow> specError + cronSchedule" where
  "Parse lib spec =
     (case goParse lib (wrappedDowRanges spec) of
        None \<Rightarrow> Inl GoCronRejects
      | Some TriggeredSched \<Rightarrow> Inl NeverFiresOnItsOwn
      | Some (SpecSched s) \<Rightarrow> if neverFires s then Inl DayNeverOccurs else Inr (SpecSched s)
      | Some (ConstantDelay f) \<Rightarrow>
          if fractionalEvery lib spec then Inl FractionalSeconds else Inr (ConstantDelay f)
      | Some (OtherSched f) \<Rightarrow>
          if fractionalEvery lib spec then Inl FractionalSeconds else Inr (OtherSched f))"

definition cron_tz :: "string \<Rightarrow> string \<Rightarrow> string" where
  "cron_tz tz spec = ''CRON_TZ='' @ tz @ '' '' @ spec"

definition Validate_spec :: "cronLib \<Rightarrow> string \<Rightarrow> string \<Rightarrow> specError option" where
  "Validate_spec lib spec timezone =
     (case Parse lib (if timezone \<noteq> [] then cron_tz timezone spec else spec) of
        Inl e \<Rightarrow> Some e | Inr _ \<Rightarrow> None)"

definition Resolve_spec :: "cronLib \<Rightarrow> string \<Rightarrow> string \<Rightarrow> zone option \<Rightarrow> string \<times> zone" where
  "Resolve_spec lib cronExpr taskTZ defaultLoc =
     (let loc = OrDefault defaultLoc Local
      in if taskTZ = [] then (cronExpr, loc)
         else (cron_tz taskTZ cronExpr, if loadsZone lib taskTZ then Named taskTZ else loc))"

definition IsFixedInterval :: "cronSchedule \<Rightarrow> bool" where
  "IsFixedInterval sched \<longleftrightarrow> (case sched of ConstantDelay _ \<Rightarrow> True | _ \<Rightarrow> False)"

section \<open>Ticks inside a spring-forward gap\<close>

text \<open>The walk over the zone's transitions from \<open>t\<close>. It ends because each transition is later than
  the one before (\<open>gap_walk_correct\<close>).\<close>

partial_function (option) gap_walk ::
  "cronLib \<Rightarrow> SpecSchedule \<Rightarrow> zone \<Rightarrow> instant \<Rightarrow> instant \<Rightarrow> (instant \<times> bool) option" where
  "gap_walk lib s loc naive t =
     (let offBefore = zoneOffset lib loc t; transition = zoneBounds lib loc t
      in if transition = 0 \<or> transition > naive then Some (naive, False)
         else let after = zoneOffset lib loc transition in
              if after \<le> offBefore then gap_walk lib s loc naive transition
              else let recovered = matchNext s (FixedZone offBefore) (transition - second) in
                   if recovered \<noteq> 0 \<and> recovered < transition + (after - offBefore) * second
                      \<and> recovered \<le> naive
                   then Some (recovered, True)
                   else gap_walk lib s loc naive transition)"

declare gap_walk.simps [code]

text \<open>The zone a schedule is evaluated in: its own when pinned, else that of the time handed in.\<close>

definition spec_zone :: "SpecSchedule \<Rightarrow> zone \<Rightarrow> zone" where
  "spec_zone s z = (if Location s = Local then z else Location s)"

definition gap_next ::
  "cronLib \<Rightarrow> SpecSchedule \<Rightarrow> zone \<Rightarrow> instant \<Rightarrow> (instant \<times> bool) option" where
  "gap_next lib s z from =
     (let loc = spec_zone s z; naive = matchNext s loc from
      in if naive = 0 then Some (naive, False) else gap_walk lib s loc naive from)"

text \<open>A schedule as its callers see it: \<open>Next\<close> evaluated at a time in a zone, and whether it is a
  fixed interval.\<close>

record schedule =
  sched_next :: "zone \<Rightarrow> instant \<Rightarrow> instant"
  sched_fixed :: bool

definition schedule_of :: "cronLib \<Rightarrow> cronSchedule \<Rightarrow> schedule" where
  "schedule_of lib c =
     \<lparr>sched_next = (\<lambda>z t. case c of
         SpecSched s \<Rightarrow> fst (OrDefault (gap_next lib s z t) (0, False))
       | ConstantDelay f \<Rightarrow> f t
       | OtherSched f \<Rightarrow> f z t
       | TriggeredSched \<Rightarrow> 0),
      sched_fixed = IsFixedInterval c\<rparr>"

definition parse_schedule :: "cronLib \<Rightarrow> string \<Rightarrow> schedule option" where
  "parse_schedule lib spec =
     (case Parse lib spec of Inl _ \<Rightarrow> None | Inr c \<Rightarrow> Some (schedule_of lib c))"

section \<open>Lemmas\<close>

lemma stepped_set: "0 < step \<Longrightarrow> d \<in> set (stepped lo hi step) \<longleftrightarrow>
    lo \<le> d \<and> d \<le> hi \<and> (d - lo) mod step = 0"
proof (induction lo hi step rule: stepped.induct)
  case (1 lo hi step)
  show ?case
  proof (cases "lo \<le> hi")
    case True
    with 1 have IH: "d \<in> set (stepped (lo + step) hi step) \<longleftrightarrow>
        lo + step \<le> d \<and> d \<le> hi \<and> (d - (lo + step)) mod step = 0" by simp
    have mod: "(d - (lo + step)) mod step = (d - lo) mod step"
      by (metis diff_diff_eq minus_mod_self2)
    have "lo \<le> d \<Longrightarrow> (d - lo) mod step = 0 \<Longrightarrow> d \<noteq> lo \<Longrightarrow> lo + step \<le> d"
      using 1 by (metis diff_ge_0_iff_ge dvd_imp_mod_0 eq_diff_eq add.commute mod_0_imp_dvd
          zdvd_imp_le le_diff_eq linorder_neqE_linordered_idom not_less diff_gt_0_iff_gt)
    with IH mod True 1 show ?thesis
      by (subst stepped.simps) auto
  next
    case False
    then show ?thesis by (subst stepped.simps) auto
  qed
qed

lemma wrapped_days_range: "d \<in> set (wrapped_days lo hi step) \<Longrightarrow> 0 \<le> d \<and> d < 7"
  by (auto simp: wrapped_days_def Let_def)

text \<open>The tick hidden in the gap that ends the zone period containing \<open>u\<close>, if any.\<close>

definition gap_tick ::
  "cronLib \<Rightarrow> SpecSchedule \<Rightarrow> zone \<Rightarrow> instant \<Rightarrow> instant \<Rightarrow> instant option" where
  "gap_tick lib s loc naive u =
     (let tr = zoneBounds lib loc u; offBefore = zoneOffset lib loc u; after = zoneOffset lib loc tr;
          r = matchNext s (FixedZone offBefore) (tr - second)
      in if tr \<noteq> 0 \<and> tr \<le> naive \<and> offBefore < after \<and> r \<noteq> 0
            \<and> r < tr + (after - offBefore) * second \<and> r \<le> naive
         then Some r else None)"

lemma gap_walk_step:
  "gap_walk lib s loc naive t =
     (if zoneBounds lib loc t = 0 \<or> zoneBounds lib loc t > naive then Some (naive, False)
      else (case gap_tick lib s loc naive t of
          Some r \<Rightarrow> Some (r, True)
        | None \<Rightarrow> gap_walk lib s loc naive (zoneBounds lib loc t)))"
  by (subst gap_walk.simps) (auto simp: gap_tick_def Let_def)

text \<open>The start of each zone period from \<open>t\<close> on.\<close>

inductive periods :: "cronLib \<Rightarrow> zone \<Rightarrow> instant \<Rightarrow> instant \<Rightarrow> bool" for lib loc where
  here: "periods lib loc t t"
| next_period: "zoneBounds lib loc t \<noteq> 0 \<Longrightarrow> periods lib loc (zoneBounds lib loc t) u \<Longrightarrow> periods lib loc t u"

inductive_cases periodsE: "periods lib loc t u"

definition zone_ok :: "cronLib \<Rightarrow> zone \<Rightarrow> bool" where
  "zone_ok lib loc \<longleftrightarrow> (\<forall>t. zoneBounds lib loc t = 0 \<or> t < zoneBounds lib loc t)"

lemma periods_le: "periods lib loc t u \<Longrightarrow> zone_ok lib loc \<Longrightarrow> t \<le> u"
proof (induction rule: periods.induct)
  case (next_period t u)
  then have "t < zoneBounds lib loc t" unfolding zone_ok_def by metis
  with next_period show ?case by simp
qed simp

text \<open>The walk returns, and what it returns is the first hidden tick, or the naive one.\<close>

lemma gap_walk_correct:
  assumes zone: "zone_ok lib loc"
  shows "\<exists>r fl. gap_walk lib s loc naive t = Some (r, fl) \<and>
    (fl \<longrightarrow> (\<exists>u. periods lib loc t u \<and> gap_tick lib s loc naive u = Some r \<and>
       (\<forall>v. periods lib loc t v \<longrightarrow> v < u \<longrightarrow> gap_tick lib s loc naive v = None))) \<and>
    (\<not> fl \<longrightarrow> r = naive \<and> (\<forall>u. periods lib loc t u \<longrightarrow> gap_tick lib s loc naive u = None))"
proof (induction "nat (naive - t)" arbitrary: t rule: less_induct)
  case less
  let ?tr = "zoneBounds lib loc t"
  have later: "?tr = 0 \<or> t < ?tr" using zone unfolding zone_ok_def by blast
  show ?case
  proof (cases "?tr = 0 \<or> ?tr > naive")
    case True
    have none: "gap_tick lib s loc naive u = None" if "periods lib loc t u" for u
    proof (cases rule: periodsE [OF that])
      case 1
      then show ?thesis using True by (auto simp: gap_tick_def Let_def)
    next
      case 2
      then have "naive < u" using True periods_le [OF 2(2) zone] by auto
      moreover have "zoneBounds lib loc u = 0 \<or> u < zoneBounds lib loc u"
        using zone unfolding zone_ok_def by blast
      ultimately show ?thesis by (auto simp: gap_tick_def Let_def)
    qed
    with True show ?thesis by (subst gap_walk_step) auto
  next
    case False
    show ?thesis
    proof (cases "gap_tick lib s loc naive t")
      case (Some r)
      have "periods lib loc t t" by (rule periods.here)
      moreover have "\<not> v < t" if "periods lib loc t v" for v
        using periods_le [OF that zone] by simp
      ultimately show ?thesis using False Some
        by (subst gap_walk_step) auto
    next
      case None
      have "nat (naive - ?tr) < nat (naive - t)" using False later by auto
      from less [OF this] obtain r fl where IH: "gap_walk lib s loc naive ?tr = Some (r, fl)"
        "fl \<Longrightarrow> \<exists>u. periods lib loc ?tr u \<and> gap_tick lib s loc naive u = Some r \<and>
           (\<forall>v. periods lib loc ?tr v \<longrightarrow> v < u \<longrightarrow> gap_tick lib s loc naive v = None)"
        "\<not> fl \<Longrightarrow> r = naive \<and> (\<forall>u. periods lib loc ?tr u \<longrightarrow> gap_tick lib s loc naive u = None)"
        by blast
      have eq: "gap_walk lib s loc naive t = Some (r, fl)"
        using False None IH(1) by (subst gap_walk_step) simp
      have split: "v = t \<or> periods lib loc ?tr v" if "periods lib loc t v" for v
        using that by (rule periodsE) auto
      show ?thesis
      proof (cases fl)
        case True
        from IH(2) [OF this] obtain u where u: "periods lib loc ?tr u"
          "gap_tick lib s loc naive u = Some r"
          "\<forall>v. periods lib loc ?tr v \<longrightarrow> v < u \<longrightarrow> gap_tick lib s loc naive v = None" by blast
        have "periods lib loc t u" using False u(1) by (auto intro: periods.next_period)
        moreover have "gap_tick lib s loc naive v = None" if "periods lib loc t v" "v < u" for v
          using split [OF that(1)] u(3) that(2) None by auto
        ultimately show ?thesis using eq u(2) True by blast
      next
        case fl: False
        from IH(3) [OF this] have "r = naive"
          "\<And>u. periods lib loc ?tr u \<Longrightarrow> gap_tick lib s loc naive u = None" by auto
        moreover from this split None have "gap_tick lib s loc naive u = None"
          if "periods lib loc t u" for u using that by blast
        ultimately show ?thesis using eq fl by blast
      qed
    qed
  qed
qed

text \<open>C24. Looking for the next tick of a wall-clock schedule always returns, however the zone changes
  its offset, provided each transition lies after the instant asked about. It reports a shifted
  tick exactly when a spring-forward gap before the ordinary next tick hides one, and then the one
  of the first such gap; else it reports the ordinary next tick.\<close>
theorem gap_next_returns:
  assumes "zone_ok lib (spec_zone s z)"
  shows "\<exists>r shifted. gap_next lib s z from = Some (r, shifted) \<and>
    (shifted \<longrightarrow> (\<exists>u. periods lib (spec_zone s z) from u \<and>
       gap_tick lib s (spec_zone s z) (matchNext s (spec_zone s z) from) u = Some r \<and>
       (\<forall>v. periods lib (spec_zone s z) from v \<longrightarrow> v < u \<longrightarrow>
          gap_tick lib s (spec_zone s z) (matchNext s (spec_zone s z) from) v = None))) \<and>
    (\<not> shifted \<longrightarrow> r = matchNext s (spec_zone s z) from \<and>
       (r \<noteq> 0 \<longrightarrow> (\<forall>u. periods lib (spec_zone s z) from u \<longrightarrow>
          gap_tick lib s (spec_zone s z) r u = None)))"
proof (cases "matchNext s (spec_zone s z) from = 0")
  case False
  from gap_walk_correct [OF assms, of s "matchNext s (spec_zone s z) from" "from"] show ?thesis
    by (auto simp: gap_next_def Let_def False)
qed (intro exI [of _ 0] exI [of _ False], simp add: gap_next_def Let_def)

section \<open>A small library instance\<close>

text \<open>A zone whose clock goes forward at hour 100 and back at hour 200, and two schedules, for
  evaluating the definitions on concrete times.\<close>

definition example_offset :: "zone \<Rightarrow> instant \<Rightarrow> int" where
  "example_offset z t =
     (case z of
        Local \<Rightarrow> if 100 * hour \<le> t \<and> t < 200 * hour then 3600 else 0
      | FixedZone o' \<Rightarrow> o'
      | _ \<Rightarrow> 0)"

definition example_bounds :: "zone \<Rightarrow> instant \<Rightarrow> instant" where
  "example_bounds z t =
     (if z \<noteq> Local then 0 else if t < 100 * hour then 100 * hour
      else if t < 200 * hour then 200 * hour else 0)"

definition example_wall :: "zone \<Rightarrow> instant \<Rightarrow> wallSecond" where
  "example_wall z t =
     (let l = t + example_offset z t * second
      in \<lparr>w_year = 1, w_month = 1, w_day = 1 + l div (24 * hour), w_hour = l div hour mod 24,
          w_minute = l div minute mod 60, w_second = l div second mod 60\<rparr>)"

text \<open>The first of \<open>n\<close> half hours from \<open>t\<close> on with a property, zero when there is none.\<close>

fun half_hour_from :: "nat \<Rightarrow> (instant \<Rightarrow> bool) \<Rightarrow> instant \<Rightarrow> instant" where
  "half_hour_from 0 P t = 0"
| "half_hour_from (Suc n) P t = (if P t then t else half_hour_from n P (t + 30 * minute))"

definition example_spec :: "int option \<Rightarrow> SpecSchedule" where
  "example_spec h =
     \<lparr>Dom = 0, Month = 0, Dow = 0, DomConstraints = [], Location = Local,
      matchNext = (\<lambda>z t. half_hour_from 60 (\<lambda>u. w_minute (example_wall z u) = 30 \<and>
         (case h of None \<Rightarrow> True | Some h \<Rightarrow> w_hour (example_wall z u) = h))
         ((t div (30 * minute) + 1) * (30 * minute)))\<rparr>"

definition example_lib :: cronLib where
  "example_lib =
     \<lparr>goParse = (\<lambda>s. if s = ''30 * * * *'' then Some (SpecSched (example_spec None))
                    else if s = ''30 4 * * *'' then Some (SpecSched (example_spec (Some 4)))
                    else if s = ''@hourly-ish'' then Some (ConstantDelay (\<lambda>t. t + hour)) else None),
      parseDuration = (\<lambda>_. None), loadsZone = (\<lambda>_. True), zoneOffset = example_offset,
      zoneBounds = example_bounds, wallClock = example_wall\<rparr>"

lemma example_zone_ok: "zone_ok example_lib z"
  by (auto simp: zone_ok_def example_lib_def example_bounds_def)

text \<open>04:30 does not exist on the day the clock goes forward at 04:00; the tick is recovered.\<close>
lemma gap_next_returns_witness:
  "\<exists>r shifted. gap_next example_lib (example_spec (Some 4)) Local (90 * hour) = Some (r, shifted)"
  using gap_next_returns [OF example_zone_ok, of "example_spec (Some 4)" Local "90 * hour"] by blast

end
