(* ===== verification/Ticks.thy ===== *)
theory Ticks
  imports Cronspec
begin

text \<open>
  The ticks of a schedule on the wall clock: the set of wall-clock seconds fired in the current
  wall hour (\<open>firedHour\<close> of \<open>runtime/scheduler.go\<close>), which suppresses the repeats of a DST
  fall-back, the walk that counts missed ticks (\<open>countMissedTicks\<close> of \<open>runtime/catchup.go\<close>), the
  preview of coming firings (\<open>NextFirings\<close>) and the one of \<open>validate --explain\<close> (\<open>Firings\<close> of
  \<open>cronspec/explain.go\<close>). All four are related to one list of ticks and one specification of what
  a repeat is.
\<close>

section \<open>Wall hours and repeats\<close>

record wallHour =
  h_year :: int
  h_month :: int
  h_day :: int
  h_hour :: int

definition inHour :: "wallSecond \<Rightarrow> wallHour" where
  "inHour w = \<lparr>h_year = w_year w, h_month = w_month w, h_day = w_day w, h_hour = w_hour w\<rparr>"

text \<open>A nil map of ticks is \<open>None\<close>.\<close>

record firedHour =
  fh_hour :: wallHour
  fh_ticks :: "wallSecond list option"

definition no_fired :: firedHour where
  "no_fired = \<lparr>fh_hour = \<lparr>h_year = 0, h_month = 0, h_day = 0, h_hour = 0\<rparr>, fh_ticks = None\<rparr>"

definition repeat :: "wallSecond \<Rightarrow> firedHour \<Rightarrow> bool \<times> firedHour" where
  "repeat w f =
     (let f1 = (if fh_ticks f = None \<or> fh_hour f \<noteq> inHour w
                then \<lparr>fh_hour = inHour w, fh_ticks = Some []\<rparr> else f);
          ticks = OrDefault (fh_ticks f1) []
      in if w \<in> set ticks then (True, f1) else (False, f1\<lparr>fh_ticks := Some (w # ticks)\<rparr>))"

text \<open>\<open>repeat\<close> along a list of wall-clock readings: which of them are repeats.\<close>

fun repeats :: "firedHour \<Rightarrow> wallSecond list \<Rightarrow> bool list" where
  "repeats f [] = []"
| "repeats f (w # ws) = (case repeat w f of (dup, f') \<Rightarrow> dup # repeats f' ws)"

section \<open>Missed ticks\<close>

definition tick_check :: "bool \<Rightarrow> wallSecond \<Rightarrow> firedHour \<Rightarrow> bool \<times> firedHour" where
  "tick_check fixedInterval w f = (if fixedInterval then (False, f) else repeat w f)"

function count_loop ::
  "(instant \<Rightarrow> instant) \<Rightarrow> (instant \<Rightarrow> wallSecond) \<Rightarrow> bool \<Rightarrow> instant \<Rightarrow> int
     \<Rightarrow> instant \<Rightarrow> instant \<Rightarrow> firedHour \<Rightarrow> int \<Rightarrow> instant \<Rightarrow> int \<times> instant \<times> bool"
where
  "count_loop nxt wall fixedInterval now maxCount prev next fired count lastTick =
     (if next > prev \<and> \<not> next > now
      then (case tick_check fixedInterval (wall next) fired of (dup, fired') \<Rightarrow>
        if dup then count_loop nxt wall fixedInterval now maxCount next (nxt next) fired' count lastTick
        else if count + 1 \<ge> maxCount then (count + 1, next, True)
        else count_loop nxt wall fixedInterval now maxCount next (nxt next) fired' (count + 1) next)
      else (count, lastTick, False))"
  by pat_completeness auto
termination
  by (relation "measure (\<lambda>(nxt, wall, fx, now, mx, prev, next, f, c, l). nat (now - prev))") auto

declare count_loop.simps [simp del]

definition countMissedTicks ::
  "(instant \<Rightarrow> instant) \<Rightarrow> (instant \<Rightarrow> wallSecond) \<Rightarrow> bool \<Rightarrow> instant \<Rightarrow> instant \<Rightarrow> int
     \<Rightarrow> int \<times> instant \<times> bool" where
  "countMissedTicks nxt wall fixedInterval lastRunTime now maxCount =
     count_loop nxt wall fixedInterval now maxCount lastRunTime (nxt lastRunTime) no_fired 0 0"

section \<open>Previews\<close>

definition maxDSTRewind :: duration where "maxDSTRewind = 2 * hour"

text \<open>The loop of \<open>NextFirings\<close>. It need not end: a schedule may go on for ever without a tick
  that is new.\<close>

partial_function (option) next_loop ::
  "(instant \<Rightarrow> instant) \<Rightarrow> (instant \<Rightarrow> wallSecond) \<Rightarrow> bool \<Rightarrow> instant \<Rightarrow> nat \<Rightarrow> instant
     \<Rightarrow> firedHour \<Rightarrow> instant list \<Rightarrow> instant list option"
where
  "next_loop nxt wall fixedInterval from n next fired out =
     (if \<not> length out < n \<or> next = 0 then Some out
      else (case tick_check fixedInterval (wall next) fired of (dup, fired') \<Rightarrow>
        next_loop nxt wall fixedInterval from n (nxt next) fired'
          (if \<not> dup \<and> next > from then out @ [next] else out)))"

declare next_loop.simps [code]

definition NextFirings ::
  "cronLib \<Rightarrow> Task \<Rightarrow> zone option \<Rightarrow> instant \<Rightarrow> nat \<Rightarrow> instant list option option" where
  "NextFirings lib task defaultLoc from n =
     (case Resolve_spec lib (Cron task) (Timezone task) defaultLoc of (spec, loc) \<Rightarrow>
       (case parse_schedule lib spec of
          None \<Rightarrow> None
        | Some sched \<Rightarrow>
            let start = (if sched_fixed sched then from else from - maxDSTRewind)
            in Some (next_loop (sched_next sched loc) (wallClock lib loc) (sched_fixed sched) from n
                       (sched_next sched loc start) no_fired [])))"

text \<open>The first \<open>n\<close> elements of the iterator \<open>Firings\<close>, whose consumers stop it.\<close>

record Firing =
  f_At :: instant
  f_Shifted :: bool
  f_Skipped :: bool

definition firing_next :: "cronLib \<Rightarrow> cronSchedule \<Rightarrow> zone \<Rightarrow> instant \<Rightarrow> (instant \<times> bool) option" where
  "firing_next lib sched loc t =
     (case sched of
        SpecSched s \<Rightarrow> gap_next lib s loc t
      | ConstantDelay f \<Rightarrow> Some (f t, False)
      | OtherSched f \<Rightarrow> Some (f loc t, False)
      | TriggeredSched \<Rightarrow> Some (0, False))"

fun firings ::
  "cronLib \<Rightarrow> cronSchedule \<Rightarrow> zone \<Rightarrow> nat \<Rightarrow> instant \<Rightarrow> wallHour \<Rightarrow> wallSecond list \<Rightarrow> Firing list option"
where
  "firings lib sched loc 0 t seenHour seen = Some []"
| "firings lib sched loc (Suc n) t seenHour seen =
     (case firing_next lib sched loc t of
        None \<Rightarrow> None
      | Some (next, shifted) \<Rightarrow>
          if next = 0 then Some []
          else let w = wallClock lib loc next;
                   seen1 = (if inHour w \<noteq> seenHour then [] else seen);
                   skipped = (w \<in> set seen1)
               in map_option ((#) \<lparr>f_At = next, f_Shifted = shifted,
                                   f_Skipped = skipped \<and> \<not> IsFixedInterval sched\<rparr>)
                    (firings lib sched loc n next (inHour w) (w # seen1)))"

definition Firings :: "cronLib \<Rightarrow> cronSchedule \<Rightarrow> zone \<Rightarrow> instant \<Rightarrow> nat \<Rightarrow> Firing list option" where
  "Firings lib sched loc from n = firings lib sched loc n from (fh_hour no_fired) []"

section \<open>Specification\<close>

text \<open>The ticks after \<open>prev\<close> up to \<open>now\<close>, as the walk visits them.\<close>

function ticks_until :: "(instant \<Rightarrow> instant) \<Rightarrow> instant \<Rightarrow> instant \<Rightarrow> instant list" where
  "ticks_until nxt now prev =
     (if nxt prev > prev \<and> \<not> nxt prev > now then nxt prev # ticks_until nxt now (nxt prev) else [])"
  by pat_completeness auto
termination by (relation "measure (\<lambda>(nxt, now, prev). nat (now - prev))") auto

declare ticks_until.simps [simp del]

text \<open>A reading repeats when it was seen before in the same visit of its wall hour: since the wall
  hour last changed.\<close>

definition is_repeat :: "wallSecond list \<Rightarrow> wallSecond \<Rightarrow> bool" where
  "is_repeat earlier w \<longleftrightarrow> w \<in> set (takeWhile (\<lambda>v. inHour v = inHour w) (rev earlier))"

text \<open>What \<open>firedHour\<close> remembers after the readings \<open>ws\<close>.\<close>

definition remembers :: "firedHour \<Rightarrow> wallSecond list \<Rightarrow> bool" where
  "remembers f ws \<longleftrightarrow>
     (if ws = [] then fh_ticks f = None
      else fh_hour f = inHour (last ws) \<and> fh_ticks f \<noteq> None \<and>
        set (the (fh_ticks f)) = set (takeWhile (\<lambda>v. inHour v = inHour (last ws)) (rev ws)))"

lemma remembers_Nil [simp]: "remembers no_fired []"
  by (simp add: remembers_def no_fired_def)

lemma repeat_correct:
  assumes "remembers f ws"
  shows "fst (repeat w f) = is_repeat ws w \<and> remembers (snd (repeat w f)) (ws @ [w])"
proof (cases "ws \<noteq> [] \<and> inHour (last ws) = inHour w")
  case True
  with assms obtain ts where f: "fh_hour f = inHour w" "fh_ticks f = Some ts"
    "set ts = set (takeWhile (\<lambda>v. inHour v = inHour w) (rev ws))"
    by (auto simp: remembers_def)
  then show ?thesis
    by (simp add: repeat_def is_repeat_def remembers_def Let_def insert_absorb)
next
  case False
  then have fresh: "fh_ticks f = None \<or> fh_hour f \<noteq> inHour w"
    and none: "takeWhile (\<lambda>v. inHour v = inHour w) (rev ws) = []"
    using assms by (auto simp: remembers_def split: if_splits) (cases ws rule: rev_cases; simp)
  then show ?thesis
    by (simp add: repeat_def is_repeat_def remembers_def Let_def)
qed

lemma repeats_correct:
  "remembers f pre \<Longrightarrow> i < length ws \<Longrightarrow> repeats f ws ! i = is_repeat (pre @ take i ws) (ws ! i)"
proof (induction ws arbitrary: f pre i)
  case (Cons w ws)
  obtain d f' where r: "repeat w f = (d, f')" by fastforce
  with repeat_correct [OF Cons.prems(1), of w]
  have d: "d = is_repeat pre w" and f': "remembers f' (pre @ [w])" by simp_all
  show ?case
  proof (cases i)
    case 0
    then show ?thesis by (simp add: r d)
  next
    case (Suc k)
    with Cons.IH [OF f', of k] Cons.prems(2) show ?thesis by (simp add: r)
  qed
qed simp

lemma length_repeats [simp]: "length (repeats f ws) = length ws"
  by (induction ws arbitrary: f) (auto split: prod.splits)

text \<open>The ticks that are no repeats, the ones that fire.\<close>

definition live_ticks :: "bool \<Rightarrow> (instant \<Rightarrow> wallSecond) \<Rightarrow> firedHour \<Rightarrow> instant list \<Rightarrow> instant list" where
  "live_ticks fixedInterval wall f ts =
     (if fixedInterval then ts
      else map fst (filter (\<lambda>(_, dup). \<not> dup) (zip ts (repeats f (map wall ts)))))"

lemma live_ticks_Nil [simp]: "live_ticks fx wall f [] = []"
  by (simp add: live_ticks_def)

lemma live_ticks_Cons:
  "live_ticks fx wall f (t # ts) =
     (case tick_check fx (wall t) f of (dup, f') \<Rightarrow>
        if dup then live_ticks fx wall f' ts else t # live_ticks fx wall f' ts)"
  by (auto simp: live_ticks_def tick_check_def split: prod.splits)

text \<open>The walk counts the ticks that fire.\<close>

lemma count_loop_correct:
  assumes "0 \<le> count" "count < maxCount"
  shows "count_loop nxt wall fx now maxCount prev (nxt prev) f count lastTick =
    (let ls = live_ticks fx wall f (ticks_until nxt now prev);
         room = nat (maxCount - count)
     in if room \<le> length ls then (maxCount, ls ! (room - 1), True)
        else (count + int (length ls), if ls = [] then lastTick else last ls, False))"
  using assms
proof (induction nxt now prev arbitrary: f count lastTick rule: ticks_until.induct)
  case (1 nxt now prev)
  note IH = "1.IH"
  show ?case
  proof (cases "nxt prev > prev \<and> \<not> nxt prev > now")
    case go: True
    obtain dup f' where c: "tick_check fx (wall (nxt prev)) f = (dup, f')" by fastforce
    have ts: "ticks_until nxt now prev = nxt prev # ticks_until nxt now (nxt prev)"
      using go by (subst ticks_until.simps) simp
    show ?thesis
    proof (cases dup)
      case True
      with go c have "count_loop nxt wall fx now maxCount prev (nxt prev) f count lastTick =
          count_loop nxt wall fx now maxCount (nxt prev) (nxt (nxt prev)) f' count lastTick"
        by (subst count_loop.simps) simp
      also note IH [OF go "1.prems", of f' lastTick]
      finally show ?thesis using True c by (simp add: ts live_ticks_Cons)
    next
      case False
      show ?thesis
      proof (cases "count + 1 \<ge> maxCount")
        case True
        with False go c have "count_loop nxt wall fx now maxCount prev (nxt prev) f count lastTick =
            (count + 1, nxt prev, True)"
          by (subst count_loop.simps) simp
        moreover have "count + 1 = maxCount" using True "1.prems" by simp
        ultimately show ?thesis using False c by (auto simp: ts live_ticks_Cons Let_def)
      next
        case more: False
        with False go c have eq: "count_loop nxt wall fx now maxCount prev (nxt prev) f count lastTick =
            count_loop nxt wall fx now maxCount (nxt prev) (nxt (nxt prev)) f' (count + 1) (nxt prev)"
          by (subst count_loop.simps) simp
        from more "1.prems" have "0 \<le> count + 1" "count + 1 < maxCount" by simp_all
        note step = IH [OF go this, of f' "nxt prev"]
        have n: "nat (maxCount - count) = Suc (nat (maxCount - (count + 1)))"
          "0 < nat (maxCount - (count + 1))"
          using more "1.prems" by simp_all
        from n(2) obtain k where k: "nat (maxCount - (count + 1)) = Suc k" by (cases "nat (maxCount - (count + 1))") simp_all
        show ?thesis
          using False c by (simp add: eq step ts live_ticks_Cons Let_def n(1) k)
      qed
    qed
  next
    case stop: False
    then have "ticks_until nxt now prev = []" by (subst ticks_until.simps) auto
    with stop "1.prems" show ?thesis by (subst count_loop.simps) (auto simp: Let_def)
  qed
qed

lemma countMissedTicks_eq:
  assumes "0 < maxCount"
  shows "countMissedTicks nxt wall fx anchor now maxCount =
    (let ls = live_ticks fx wall no_fired (ticks_until nxt now anchor)
     in if nat maxCount \<le> length ls then (maxCount, ls ! (nat maxCount - 1), True)
        else (int (length ls), if ls = [] then 0 else last ls, False))"
  using count_loop_correct [of 0 maxCount] assms by (simp add: countMissedTicks_def Let_def)

text \<open>A chain of ticks: each is the schedule's next after the one before.\<close>

fun chain :: "(instant \<Rightarrow> instant) \<Rightarrow> instant \<Rightarrow> instant list \<Rightarrow> bool" where
  "chain nxt t [] \<longleftrightarrow> True"
| "chain nxt t (u # us) \<longleftrightarrow> u = nxt t \<and> u \<noteq> 0 \<and> chain nxt u us"

text \<open>The preview returns the first \<open>n\<close> ticks that fire, when the ticks \<open>ts\<close> hold that many or the
  schedule ends after them.\<close>

lemma next_loop_correct:
  assumes "chain nxt t ts" "length out \<le> n"
    and "n \<le> length out + length (filter ((<) from) (live_ticks fx wall f ts))
      \<or> nxt (last (t # ts)) = 0"
  shows "next_loop nxt wall fx from n (nxt t) f out =
    Some (take n (out @ filter ((<) from) (live_ticks fx wall f ts)))"
  using assms
proof (induction ts arbitrary: t f out)
  case Nil
  then show ?case by (subst next_loop.simps) auto
next
  case (Cons u us)
  then have u: "nxt t = u" "u \<noteq> 0" "chain nxt u us" by auto
  obtain dup f' where c: "tick_check fx (wall u) f = (dup, f')" by fastforce
  show ?case
  proof (cases "length out < n")
    case False
    with Cons.prems(2) show ?thesis by (subst next_loop.simps) simp
  next
    case True
    let ?out = "if \<not> dup \<and> u > from then out @ [u] else out"
    have "next_loop nxt wall fx from n (nxt t) f out =
        next_loop nxt wall fx from n (nxt u) f' ?out"
      using True u c by (subst next_loop.simps) simp
    also have "\<dots> = Some (take n (?out @ filter ((<) from) (live_ticks fx wall f' us)))"
      using True Cons.prems(3) u c
      by (intro Cons.IH) (auto simp: live_ticks_Cons split: if_splits)
    also have "?out @ filter ((<) from) (live_ticks fx wall f' us) =
        out @ filter ((<) from) (live_ticks fx wall f (u # us))"
      by (simp add: live_ticks_Cons c)
    finally show ?thesis .
  qed
qed

text \<open>What the iterator remembers.\<close>

definition firing_state :: "wallHour \<Rightarrow> wallSecond list \<Rightarrow> wallSecond list \<Rightarrow> bool" where
  "firing_state hr seen ws \<longleftrightarrow>
     (if ws = [] then seen = []
      else hr = inHour (last ws) \<and>
        set seen = set (takeWhile (\<lambda>v. inHour v = inHour (last ws)) (rev ws)))"

lemma firing_state_step:
  assumes st: "firing_state hr seen ws" and seen1: "seen1 = (if inHour w \<noteq> hr then [] else seen)"
  shows "(w \<in> set seen1) = is_repeat ws w" and "firing_state (inHour w) (w # seen1) (ws @ [w])"
proof -
  have "set seen1 = set (takeWhile (\<lambda>v. inHour v = inHour w) (rev ws))"
  proof (cases ws rule: rev_cases)
    case (snoc vs v)
    with st seen1 show ?thesis by (auto simp: firing_state_def)
  qed (use st seen1 in \<open>simp add: firing_state_def\<close>)
  then show "(w \<in> set seen1) = is_repeat ws w" and "firing_state (inHour w) (w # seen1) (ws @ [w])"
    by (simp_all add: is_repeat_def firing_state_def)
qed

lemma firings_correct:
  assumes "firings lib sched loc n t hr seen = Some fs" "firing_state hr seen ws"
  shows "chain (\<lambda>u. fst (OrDefault (firing_next lib sched loc u) (0, False))) t (map f_At fs)
    \<and> (\<forall>i < length fs. f_Skipped (fs ! i) \<longleftrightarrow> \<not> IsFixedInterval sched \<and>
        is_repeat (ws @ map (\<lambda>a. wallClock lib loc (f_At a)) (take i fs)) (wallClock lib loc (f_At (fs ! i))))"
  using assms
proof (induction lib sched loc n t hr seen arbitrary: fs ws rule: firings.induct)
  case (2 lib sched loc n t hr seen)
  obtain nx sh where nx: "firing_next lib sched loc t = Some (nx, sh)"
    using "2.prems" by (auto split: option.splits)
  show ?case
  proof (cases "nx = 0")
    case True
    with "2.prems" nx show ?thesis by simp
  next
    case False
    let ?w = "wallClock lib loc nx"
    let ?seen = "if inHour ?w \<noteq> hr then [] else seen"
    from "2.prems"(1) nx False obtain fs' where
      rest: "firings lib sched loc n nx (inHour ?w) (?w # ?seen) = Some fs'"
      and fs: "fs = \<lparr>f_At = nx, f_Shifted = sh,
         f_Skipped = ?w \<in> set ?seen \<and> \<not> IsFixedInterval sched\<rparr> # fs'"
      by (auto simp: Let_def)
    note st = firing_state_step [OF "2.prems"(2) refl, of ?w]
    from "2.IH" [OF nx _ False refl refl refl, of "sh" fs' "ws @ [?w]"] rest st(2)
    have IH: "chain (\<lambda>u. fst (OrDefault (firing_next lib sched loc u) (0, False))) nx (map f_At fs')"
      "\<forall>i < length fs'. f_Skipped (fs' ! i) \<longleftrightarrow> \<not> IsFixedInterval sched \<and>
        is_repeat ((ws @ [?w]) @ map (\<lambda>a. wallClock lib loc (f_At a)) (take i fs')) (wallClock lib loc (f_At (fs' ! i)))"
      by simp_all
    have "f_Skipped (fs ! i) \<longleftrightarrow> \<not> IsFixedInterval sched \<and>
        is_repeat (ws @ map (\<lambda>a. wallClock lib loc (f_At a)) (take i fs)) (wallClock lib loc (f_At (fs ! i)))"
      if "i < length fs" for i
    proof (cases i)
      case 0
      then show ?thesis using st(1) by (auto simp: fs)
    next
      case (Suc k)
      with IH(2) that show ?thesis by (simp add: fs)
    qed
    with IH(1) nx False show ?thesis by (simp add: fs)
  qed
qed simp

text \<open>Counting again from the last tick that counted finds exactly the ticks after it, which were
  all repeats.\<close>

lemma ticks_until_sorted: "t \<in> set (ticks_until nxt now prev) \<Longrightarrow> prev < t \<and> t \<le> now"
proof (induction nxt now prev rule: ticks_until.induct)
  case (1 nxt now prev)
  then show ?case
    by (subst (asm) (2) ticks_until.simps) (auto split: if_splits)
qed

lemma live_ticks_subset: "set (live_ticks fx wall f ts) \<subseteq> set ts"
  by (induction ts arbitrary: f) (auto simp: live_ticks_Cons split: prod.splits)

lemma live_ticks_first: "ts \<noteq> [] \<Longrightarrow> live_ticks fx wall no_fired ts \<noteq> []"
  by (cases ts) (auto simp: live_ticks_Cons tick_check_def repeat_def no_fired_def Let_def
      split: prod.splits)

end
