(* ===== verification/Registrations.thy ===== *)
theory Registrations
  imports Task_Model
begin

text \<open>
  The per-task records of the database (\<open>storage/database.go\<close>, over the queries of
  \<open>task_registrations.sql\<close> and \<open>task_boot_ids.sql\<close>): when a task was first seen, last ran, was paused
  and resumed, and in which boot a boot task last fired. A query that fails changes nothing; which
  queries fail is the argument \<open>down\<close> of each operation, so every error path is a branch.
\<close>

record TaskRegistration =
  FirstSeenAt :: instant
  PausedAt :: "instant option"
  ResumedAt :: "instant option"
  LastRunAt :: "instant option"

record store =
  registrations :: "(string \<times> TaskRegistration) list"
  boot_ids :: "(string \<times> string) list"

datatype query =
    QEnsure string
  | QGet string
  | QForget
  | QPause string
  | QResume string
  | QListPaused
  | QGetBoot string
  | QSetBoot string

type_synonym faults = "query \<Rightarrow> bool"

definition new_registration :: "instant \<Rightarrow> instant option \<Rightarrow> TaskRegistration" where
  "new_registration firstSeen paused =
     \<lparr>FirstSeenAt = firstSeen, PausedAt = paused, ResumedAt = None, LastRunAt = None\<rparr>"

text \<open>\<open>None\<close> is an error, \<open>Some inserted\<close> the number of rows affected.\<close>

definition EnsureTaskRegistered ::
  "faults \<Rightarrow> string \<Rightarrow> instant \<Rightarrow> bool \<Rightarrow> store \<Rightarrow> bool option \<times> store" where
  "EnsureTaskRegistered down taskName firstSeen paused st =
     (if down (QEnsure taskName) then (None, st)
      else if map_of (registrations st) taskName \<noteq> None then (Some False, st)
      else (Some True, st\<lparr>registrations := registrations st @
             [(taskName, new_registration firstSeen (if paused then Some firstSeen else None))]\<rparr>))"

definition GetTaskRegistration ::
  "faults \<Rightarrow> string \<Rightarrow> store \<Rightarrow> TaskRegistration option option" where
  "GetTaskRegistration down taskName st =
     (if down (QGet taskName) then None else Some (map_of (registrations st) taskName))"

definition ForgetTaskRegistrationsExcept ::
  "faults \<Rightarrow> string list \<Rightarrow> store \<Rightarrow> bool \<times> store" where
  "ForgetTaskRegistrationsExcept down keep st =
     (if down QForget then (False, st)
      else (True, st\<lparr>registrations :=
             filter (\<lambda>(k, _). k \<in> set ([] # keep)) (registrations st)\<rparr>))"

text \<open>\<open>exceptIDsForSlice\<close> puts the empty string in front of the kept names.\<close>

definition PauseTaskSchedule :: "faults \<Rightarrow> string \<Rightarrow> instant \<Rightarrow> store \<Rightarrow> bool \<times> store" where
  "PauseTaskSchedule down taskName at st =
     (if down (QPause taskName) then (False, st)
      else (True, st\<lparr>registrations :=
        (case map_of (registrations st) taskName of
           None \<Rightarrow> registrations st @ [(taskName, new_registration at (Some at))]
         | Some r \<Rightarrow> AList.update taskName (r\<lparr>PausedAt := Some (OrDefault (PausedAt r) at)\<rparr>)
                      (registrations st))\<rparr>))"

definition ResumeTaskSchedule :: "faults \<Rightarrow> string \<Rightarrow> instant \<Rightarrow> store \<Rightarrow> bool \<times> store" where
  "ResumeTaskSchedule down taskName at st =
     (if down (QResume taskName) then (False, st)
      else (True, (case map_of (registrations st) taskName of
           None \<Rightarrow> st
         | Some r \<Rightarrow>
             if PausedAt r = None then st
             else st\<lparr>registrations := AList.update taskName
                    (r\<lparr>PausedAt := None, ResumedAt := Some at\<rparr>) (registrations st)\<rparr>)))"

definition ListPausedTaskSchedules :: "faults \<Rightarrow> store \<Rightarrow> (string \<times> instant) list option" where
  "ListPausedTaskSchedules down st =
     (if down QListPaused then None
      else Some (List.map_filter (\<lambda>(k, r). map_option (Pair k) (PausedAt r)) (registrations st)))"

text \<open>\<open>BumpTaskLastRun\<close>, in the transaction of \<open>CreateRun\<close>: the last run only moves forward.\<close>

definition BumpTaskLastRun :: "string \<Rightarrow> instant \<Rightarrow> store \<Rightarrow> store" where
  "BumpTaskLastRun taskName createdAt st =
     (case map_of (registrations st) taskName of
        None \<Rightarrow> st
      | Some r \<Rightarrow>
          if (case LastRunAt r of None \<Rightarrow> True | Some t \<Rightarrow> t < createdAt)
          then st\<lparr>registrations := AList.update taskName (r\<lparr>LastRunAt := Some createdAt\<rparr>)
                 (registrations st)\<rparr>
          else st)"

definition GetTaskBootID :: "faults \<Rightarrow> string \<Rightarrow> store \<Rightarrow> string option" where
  "GetTaskBootID down taskName st =
     (if down (QGetBoot taskName) then None else Some (OrDefault (map_of (boot_ids st) taskName) []))"

definition SetTaskBootID :: "faults \<Rightarrow> string \<Rightarrow> string \<Rightarrow> store \<Rightarrow> bool \<times> store" where
  "SetTaskBootID down taskName bootID st =
     (if down (QSetBoot taskName) then (False, st)
      else (True, st\<lparr>boot_ids := AList.update taskName bootID (boot_ids st)\<rparr>))"

section \<open>What an operation changes\<close>

definition registration :: "store \<Rightarrow> string \<Rightarrow> TaskRegistration option" where
  "registration st = map_of (registrations st)"

definition paused_in :: "store \<Rightarrow> string \<Rightarrow> instant option" where
  "paused_in st k = Option.bind (registration st k) PausedAt"

lemma map_of_snoc: "map_of (xs @ [(k, v)]) = (\<lambda>j. case map_of xs j of None \<Rightarrow> if j = k then Some v else None | s \<Rightarrow> s)"
  by (rule ext) (simp add: map_add_def split: option.split)

lemma registration_Ensure:
  "registration (snd (EnsureTaskRegistered down k t p st)) j =
     (if \<not> down (QEnsure k) \<and> registration st k = None \<and> j = k
      then Some (new_registration t (if p then Some t else None)) else registration st j)"
  by (auto simp: EnsureTaskRegistered_def registration_def map_of_snoc simp del: map_of_append
      split: option.split)

lemma registration_Forget:
  "registration (snd (ForgetTaskRegistrationsExcept down keep st)) j =
     (if down QForget \<or> j = [] \<or> j \<in> set keep then registration st j else None)"
proof -
  have "map_of (filter (\<lambda>(k, _). k \<in> A) xs) j = (if j \<in> A then map_of xs j else None)"
    for A and xs :: "(string \<times> TaskRegistration) list"
    by (induction xs) auto
  from this [of "set ([] # keep)"] show ?thesis
    by (cases "j = []") (simp_all add: ForgetTaskRegistrationsExcept_def registration_def)
qed

lemma paused_in_Pause:
  "paused_in (snd (PauseTaskSchedule down k t st)) j =
     (if \<not> down (QPause k) \<and> j = k then Some (OrDefault (paused_in st k) t) else paused_in st j)"
  by (auto simp: PauseTaskSchedule_def paused_in_def registration_def map_of_snoc update_conv'
      new_registration_def simp del: map_of_append split: option.splits)

lemma paused_in_Resume:
  "paused_in (snd (ResumeTaskSchedule down k t st)) j =
     (if \<not> down (QResume k) \<and> j = k then None else paused_in st j)"
  by (auto simp: ResumeTaskSchedule_def paused_in_def registration_def update_conv'
      split: option.splits)

lemma paused_in_Ensure:
  "paused_in (snd (EnsureTaskRegistered down k t p st)) j =
     (if \<not> down (QEnsure k) \<and> registration st k = None \<and> j = k then (if p then Some t else None)
      else paused_in st j)"
  by (auto simp: paused_in_def registration_Ensure new_registration_def)

lemma paused_in_Forget:
  "paused_in (snd (ForgetTaskRegistrationsExcept down keep st)) j =
     (if down QForget \<or> j = [] \<or> j \<in> set keep then paused_in st j else None)"
  by (simp add: paused_in_def registration_Forget)

lemma paused_in_Bump [simp]: "paused_in (BumpTaskLastRun k t st) = paused_in st"
  by (rule ext) (auto simp: BumpTaskLastRun_def paused_in_def registration_def update_conv'
      split: option.splits)

lemma map_of_map_filter_opt:
  "distinct (map fst xs) \<Longrightarrow>
     map_of (List.map_filter (\<lambda>(k, r). map_option (Pair k) (f r)) xs) j = Option.bind (map_of xs j) f"
proof (induction xs)
  case (Cons x xs)
  obtain k r where x: "x = (k, r)" by fastforce
  have none: "j \<notin> fst ` set xs \<Longrightarrow> map_of xs j = None"
    by (simp add: map_of_eq_None_iff)
  with Cons x show ?case by (auto simp: map_filter_simps split: option.split)
qed (simp add: map_filter_simps)

lemma ListPaused_correct:
  assumes "distinct (map fst (registrations st))" "\<not> down QListPaused"
  shows "\<exists>ps. ListPausedTaskSchedules down st = Some ps \<and> map_of ps = paused_in st"
  using assms map_of_map_filter_opt [of "registrations st" PausedAt]
  by (auto simp: ListPausedTaskSchedules_def paused_in_def registration_def)

end
