(* ===== verification/Scheduler.thy ===== *)
theory Scheduler
  imports Manager_Ops Jitter_Place Ticks Registrations
begin

text \<open>
  The cron scheduler of \<open>runtime/scheduler.go\<close> and the interface \<open>RunTrigger\<close> of
  \<open>runtime/interfaces.go\<close> through which it drives the task manager. go-cron is modelled by what the
  code relies on: a table of entries, each with a fresh id, that calls an entry's job at its ticks.
  Every method holds the scheduler's mutex, so it is a function on the record; the tick callback
  decides under the lock and calls the manager after releasing it.
\<close>

section \<open>The interface to the manager\<close>

text \<open>An interface value is a record of functions on the state behind it. \<open>None\<close> is a nil error.\<close>

record 'd RunTrigger =
  rt_TriggerRunWithOptions :: "string \<Rightarrow> TriggerRunOptions \<Rightarrow> 'd \<Rightarrow> mgrError option \<times> 'd"
  rt_ScheduleJitteredRun :: "string \<Rightarrow> instant \<Rightarrow> instant \<Rightarrow> duration \<Rightarrow> 'd \<Rightarrow> 'd"
  rt_RecordSkippedFiring :: "string \<Rightarrow> EndReason \<Rightarrow> TriggeredBy \<Rightarrow> 'd \<Rightarrow> mgrError option \<times> 'd"
  rt_RecordMissedRun :: "string \<Rightarrow> instant \<Rightarrow> string \<Rightarrow> 'd \<Rightarrow> mgrError option \<times> 'd"

definition manager_trigger :: "daemon RunTrigger" where
  "manager_trigger =
     \<lparr>rt_TriggerRunWithOptions = (\<lambda>name options d.
        case TriggerRunWithOptions name options (snd d) of ((_, err), m) \<Rightarrow> (err, (fst d, m))),
      rt_ScheduleJitteredRun = ScheduleJitteredRun,
      rt_RecordSkippedFiring = (\<lambda>name reason by d.
        case RecordSkippedFiring name reason by (snd d) of (err, m) \<Rightarrow> (err, (fst d, m))),
      rt_RecordMissedRun = (\<lambda>name at reason d.
        case RecordMissedRun name at reason (snd d) of (err, m) \<Rightarrow> (err, (fst d, m)))\<rparr>"

section \<open>State\<close>

record jitterPlan =
  jp_offset :: duration
  jp_window :: duration
  jp_schedule :: schedule

text \<open>An entry of the cron engine: the zoned schedule, and the task its job fires.\<close>

record cronEntry =
  e_task :: string
  e_schedule :: schedule
  e_loc :: zone

record Scheduler =
  engine :: "(nat \<times> cronEntry) list"
  nextID :: nat
  location :: zone
  sc_tasks :: "(string \<times> Task) list"
  entryIDs :: "(string \<times> nat) list"
  firedTicks :: "(string \<times> firedHour) list"
  jitterPlans :: "(string \<times> jitterPlan) list"
  paused :: "(string \<times> instant) list"
  hasStore :: bool
  started :: bool

definition NewScheduler :: "(string \<times> Task) list \<Rightarrow> zone option \<Rightarrow> Scheduler" where
  "NewScheduler ts loc =
     \<lparr>engine = [], nextID = 1, location = OrDefault loc UTC, sc_tasks = ts, entryIDs = [],
      firedTicks = [], jitterPlans = [], paused = [], hasStore = False, started = False\<rparr>"

section \<open>Entries\<close>

definition effectiveSpec :: "cronLib \<Rightarrow> Scheduler \<Rightarrow> Task \<Rightarrow> string \<times> zone" where
  "effectiveSpec lib s task = Resolve_spec lib (Cron task) (Timezone task) (Some (location s))"

definition addTask :: "cronLib \<Rightarrow> Task \<Rightarrow> Scheduler \<Rightarrow> bool \<times> Scheduler" where
  "addTask lib task s =
     (case effectiveSpec lib s task of (spec, loc) \<Rightarrow>
       (case parse_schedule lib spec of
          None \<Rightarrow> (False, s)
        | Some sched \<Rightarrow>
            (True, s\<lparr>engine := engine s @ [(nextID s,
                        \<lparr>e_task = Name task, e_schedule = sched, e_loc = loc\<rparr>)],
                     nextID := Suc (nextID s),
                     entryIDs := AList.update (Name task) (nextID s) (entryIDs s)\<rparr>)))"

definition remove_entry :: "nat \<Rightarrow> Scheduler \<Rightarrow> Scheduler" where
  "remove_entry i s = s\<lparr>engine := filter (\<lambda>(j, _). j \<noteq> i) (engine s)\<rparr>"

definition Sched_AddTask :: "cronLib \<Rightarrow> Task \<Rightarrow> Scheduler \<Rightarrow> bool \<times> Scheduler" where
  "Sched_AddTask lib task s = (if \<not> Schedulable task then (True, s) else addTask lib task s)"

definition drop_entry :: "string \<Rightarrow> Scheduler \<Rightarrow> Scheduler" where
  "drop_entry name s =
     (case map_of (entryIDs s) name of
        None \<Rightarrow> s
      | Some i \<Rightarrow> (remove_entry i s)\<lparr>entryIDs := AList.delete name (entryIDs s)\<rparr>)"

definition Sched_RemoveTask :: "string \<Rightarrow> Scheduler \<Rightarrow> Scheduler" where
  "Sched_RemoveTask name s =
     (drop_entry name s)\<lparr>firedTicks := AList.delete name (firedTicks s),
        jitterPlans := AList.delete name (jitterPlans s)\<rparr>"

section \<open>Jitter plans\<close>

text \<open>Nanoseconds since 1970 as a 64-bit integer, and Go's remainder, which has the dividend's sign.\<close>

definition unixEpoch :: instant where "unixEpoch = 62135596800 * second"

definition unixNano :: "instant \<Rightarrow> int" where
  "unixNano t = wrap64 (t - unixEpoch)"

definition go_rem :: "int \<Rightarrow> int \<Rightarrow> int" where
  "go_rem a b = (if a \<ge> 0 then a mod b else - ((- a) mod b))"

definition jitter_window :: "cronLib \<Rightarrow> Scheduler \<Rightarrow> instant \<Rightarrow> Task \<Rightarrow> (Window \<times> schedule) option" where
  "jitter_window lib s now task =
     (if JitterValue task \<le> 0 \<or> \<not> Schedulable task then None
      else (case parse_schedule lib (fst (effectiveSpec lib s task)) of
          None \<Rightarrow> None
        | Some sched \<Rightarrow>
            (let base = sched_next sched (location s) now;
                 gap = time_sub (sched_next sched (location s) base) base;
                 len = min (JitterValue task) (gap - second)
             in if len \<le> 0 then None
                else Some (\<lparr>WName = Name task, Phase = go_rem (unixNano base) (24 * hour),
                             Length = len\<rparr>, sched))))"

definition jitter_windows :: "cronLib \<Rightarrow> Scheduler \<Rightarrow> instant \<Rightarrow> (Window \<times> schedule) list" where
  "jitter_windows lib s now = List.map_filter (jitter_window lib s now \<circ> snd) (sc_tasks s)"

text \<open>\<open>lengths[name]\<close> and \<open>schedules[name]\<close>: the window of that name.\<close>

definition plan_of :: "(Window \<times> schedule) list \<Rightarrow> string \<times> duration \<Rightarrow> (string \<times> jitterPlan) option" where
  "plan_of ws p =
     (case find (\<lambda>(w, _). WName w = fst p) ws of
        None \<Rightarrow> None
      | Some (w, sched) \<Rightarrow>
          Some (fst p, \<lparr>jp_offset = snd p, jp_window = Length w, jp_schedule = sched\<rparr>))"

definition computeJitterPlans :: "cronLib \<Rightarrow> instant \<Rightarrow> Scheduler \<Rightarrow> Scheduler" where
  "computeJitterPlans lib now s =
     (let ws = jitter_windows lib s now
      in if ws = [] then s
         else (case Place (map fst ws) of
             None \<Rightarrow> s
           | Some offs \<Rightarrow> s\<lparr>jitterPlans :=
               fold (\<lambda>(k, p). AList.update k p) (List.map_filter (plan_of ws) offs) (jitterPlans s)\<rparr>))"

definition RecomputeJitter :: "cronLib \<Rightarrow> instant \<Rightarrow> (string \<times> Task) list \<Rightarrow> Scheduler \<Rightarrow> Scheduler" where
  "RecomputeJitter lib now ts s =
     computeJitterPlans lib now (s\<lparr>sc_tasks := ts, jitterPlans := []\<rparr>)"

section \<open>Starting, stopping, moving to another zone\<close>

record ScheduleResult =
  Scheduled :: nat
  HeldCount :: nat
  Unscheduled :: "string list"

definition start_one :: "cronLib \<Rightarrow> Task \<Rightarrow> ScheduleResult \<times> Scheduler \<Rightarrow> ScheduleResult \<times> Scheduler" where
  "start_one lib task rs =
     (case rs of (res, s) \<Rightarrow>
       if \<not> Schedulable task
       then (if Held task then res\<lparr>HeldCount := Suc (HeldCount res)\<rparr> else res, s)
       else (case addTask lib task s of
           (False, s') \<Rightarrow> (res\<lparr>Unscheduled := Unscheduled res @ [Name task]\<rparr>, s')
         | (True, s') \<Rightarrow> (res\<lparr>Scheduled := Suc (Scheduled res)\<rparr>, s')))"

definition empty_result :: ScheduleResult where
  "empty_result = \<lparr>Scheduled = 0, HeldCount = 0, Unscheduled = []\<rparr>"

definition Start :: "cronLib \<Rightarrow> instant \<Rightarrow> Scheduler \<Rightarrow> ScheduleResult \<times> Scheduler" where
  "Start lib now s =
     (if started s then (empty_result, s)
      else (case fold (start_one lib) (map snd (sc_tasks s)) (empty_result, s) of
          (res, s1) \<Rightarrow> (res, (computeJitterPlans lib now s1)\<lparr>started := True\<rparr>)))"

definition Stop :: "Scheduler \<Rightarrow> Scheduler" where
  "Stop s = (if started s then s\<lparr>started := False\<rparr> else s)"

definition rebase_one ::
  "cronLib \<Rightarrow> (nat \<times> cronEntry) list \<Rightarrow> (string \<times> Task) list \<Rightarrow> string
     \<Rightarrow> string list \<times> Scheduler \<Rightarrow> string list \<times> Scheduler" where
  "rebase_one lib schedules ts name ws =
     (case ws of (warnings, s) \<Rightarrow>
       (case (map_of ts name, Option.bind (map_of (entryIDs s) name) (map_of schedules)) of
          (Some task, Some e) \<Rightarrow>
            if Timezone task \<noteq> [] \<or> sched_fixed (e_schedule e) then (warnings, s)
            else let s1 = (drop_entry name s)\<lparr>firedTicks := AList.delete name (firedTicks s)\<rparr>
                 in (case addTask lib task s1 of
                       (False, s2) \<Rightarrow> (warnings @ [name], s2)
                     | (True, s2) \<Rightarrow> (warnings, s2))
        | _ \<Rightarrow> (warnings, s)))"

definition SetLocation ::
  "cronLib \<Rightarrow> instant \<Rightarrow> zone \<Rightarrow> (string \<times> Task) list \<Rightarrow> Scheduler \<Rightarrow> string list \<times> Scheduler" where
  "SetLocation lib now loc ts s =
     (let s0 = s\<lparr>location := loc, sc_tasks := ts\<rparr>
      in (case fold (rebase_one lib (engine s) ts) (sort (map fst (entryIDs s))) ([], s0) of
            (warnings, s1) \<Rightarrow>
              (warnings, computeJitterPlans lib now (s1\<lparr>jitterPlans := []\<rparr>))))"

section \<open>A tick\<close>

text \<open>What the callback decides while it holds the lock.\<close>

datatype fireDecision =
    FirePaused
  | FireDuplicate
  | FireJitter instant duration
  | FireNow

definition decideFire ::
  "cronLib \<Rightarrow> instant \<Rightarrow> string \<Rightarrow> zone \<Rightarrow> bool \<Rightarrow> Scheduler \<Rightarrow> fireDecision \<times> Scheduler" where
  "decideFire lib now taskName loc fixedInterval s =
     (if map_of (paused s) taskName \<noteq> None then (FirePaused, s)
      else
        (let (duplicate, s1) =
              (if fixedInterval then (False, s)
               else (case repeat (wallClock lib loc now)
                            (OrDefault (map_of (firedTicks s) taskName) no_fired) of
                   (dup, f') \<Rightarrow> (dup, s\<lparr>firedTicks := AList.update taskName f' (firedTicks s)\<rparr>)))
         in if duplicate then (FireDuplicate, s1)
            else (case map_of (jitterPlans s1) taskName of
                Some plan \<Rightarrow>
                  (let gapLive = time_sub (sched_next (jp_schedule plan) loc now) now;
                       limit = max (gapLive - second) 0;
                       offset = min (jp_offset plan) limit;
                       window = min (jp_window plan) limit
                   in (FireJitter (now + offset) window, s1))
              | None \<Rightarrow> (FireNow, s1))))"

definition performFire ::
  "'d RunTrigger \<Rightarrow> instant \<Rightarrow> string \<Rightarrow> fireDecision \<Rightarrow> 'd \<Rightarrow> 'd" where
  "performFire rt now taskName dec d =
     (case dec of
        FirePaused \<Rightarrow> d
      | FireDuplicate \<Rightarrow> snd (rt_RecordSkippedFiring rt taskName ReasonDSTSkipped TriggeredByCron d)
      | FireJitter sl window \<Rightarrow> rt_ScheduleJitteredRun rt taskName now sl window d
      | FireNow \<Rightarrow> snd (rt_TriggerRunWithOptions rt taskName
                    (no_options\<lparr>o_TriggeredBy := Some TriggeredByCron\<rparr>) d))"

definition fireOnce ::
  "cronLib \<Rightarrow> 'd RunTrigger \<Rightarrow> instant \<Rightarrow> string \<Rightarrow> zone \<Rightarrow> bool \<Rightarrow> Scheduler \<times> 'd \<Rightarrow> Scheduler \<times> 'd" where
  "fireOnce lib rt now taskName loc fixedInterval sd =
     (case decideFire lib now taskName loc fixedInterval (fst sd) of
        (dec, s') \<Rightarrow> (s', performFire rt now taskName dec (snd sd)))"

text \<open>\<open>nextOf\<close> is the next tick go-cron reports for an entry, zero when it has none yet.\<close>

definition GetNextRun :: "(nat \<Rightarrow> instant) \<Rightarrow> Scheduler \<Rightarrow> string \<Rightarrow> instant option" where
  "GetNextRun nextOf s taskName =
     (case map_of (entryIDs s) taskName of
        None \<Rightarrow> None
      | Some i \<Rightarrow>
          if map_of (paused s) taskName \<noteq> None then None
          else if nextOf i = 0 then None else Some (nextOf i))"

section \<open>Pauses\<close>

datatype pauseClear = NotInToml | ItIsAService | NoCronSchedule | ManualTriggerFalse

definition pauseClearReason :: "Task option \<Rightarrow> pauseClear option" where
  "pauseClearReason t =
     (case t of
        None \<Rightarrow> Some NotInToml
      | Some task \<Rightarrow>
          if IsService (TKind task) then Some ItIsAService
          else if Cron task = [] then Some NoCronSchedule
          else if \<not> ManualTrigger task then Some ManualTriggerFalse
          else None)"

datatype pauseError = NotPausable pauseClear | CronStillOwnsIt | PersistFailed

definition Pause ::
  "faults \<Rightarrow> instant \<Rightarrow> string \<Rightarrow> Scheduler \<times> store \<Rightarrow> pauseError option \<times> Scheduler \<times> store" where
  "Pause down now name sst =
     (case sst of (s, st) \<Rightarrow>
       (case (pauseClearReason (map_of (sc_tasks s) name), map_of (sc_tasks s) name) of
          (Some reason, _) \<Rightarrow> (Some (NotPausable reason), s, st)
        | (None, None) \<Rightarrow> (None, s, st)
        | (None, Some task) \<Rightarrow>
            if Held task then (Some CronStillOwnsIt, s, st)
            else if map_of (paused s) name \<noteq> None then (None, s, st)
            else (case (if hasStore s then PauseTaskSchedule down name now st else (True, st)) of
                (False, st') \<Rightarrow> (Some PersistFailed, s, st')
              | (True, st') \<Rightarrow> (None, s\<lparr>paused := AList.update name now (paused s)\<rparr>, st'))))"

definition adoptPause :: "string \<Rightarrow> instant \<Rightarrow> Scheduler \<Rightarrow> Scheduler" where
  "adoptPause name at s = s\<lparr>paused := AList.update name at (paused s)\<rparr>"

definition Resume ::
  "faults \<Rightarrow> instant \<Rightarrow> string \<Rightarrow> Scheduler \<times> store \<Rightarrow> pauseError option \<times> Scheduler \<times> store" where
  "Resume down now name sst =
     (case sst of (s, st) \<Rightarrow>
       if map_of (paused s) name = None then (None, s, st)
       else (case (if hasStore s then ResumeTaskSchedule down name now st else (True, st)) of
           (False, st') \<Rightarrow> (Some PersistFailed, s, st')
         | (True, st') \<Rightarrow> (None, s\<lparr>paused := AList.delete name (paused s)\<rparr>, st')))"

definition PausedAtOf :: "Scheduler \<Rightarrow> string \<Rightarrow> instant option" where
  "PausedAtOf s name = map_of (paused s) name"

definition IsPaused :: "Scheduler \<Rightarrow> string \<Rightarrow> bool" where
  "IsPaused s name \<longleftrightarrow> map_of (paused s) name \<noteq> None"

definition prune_one ::
  "faults \<Rightarrow> instant \<Rightarrow> (string \<times> Task) list \<Rightarrow> string
     \<Rightarrow> (string \<times> pauseClear) list \<times> Scheduler \<times> store
     \<Rightarrow> (string \<times> pauseClear) list \<times> Scheduler \<times> store" where
  "prune_one down now ts name acc =
     (case acc of (cleared, s, st) \<Rightarrow>
       (case pauseClearReason (map_of ts name) of
          None \<Rightarrow> (cleared, s, st)
        | Some reason \<Rightarrow>
            (cleared @ [(name, reason)], s\<lparr>paused := AList.delete name (paused s)\<rparr>,
             if hasStore s then snd (ResumeTaskSchedule down name now st) else st)))"

definition PrunePauses ::
  "faults \<Rightarrow> instant \<Rightarrow> (string \<times> Task) list \<Rightarrow> Scheduler \<times> store
     \<Rightarrow> (string \<times> pauseClear) list \<times> Scheduler \<times> store" where
  "PrunePauses down now ts sst =
     fold (prune_one down now ts) (sort (map fst (paused (fst sst)))) ([], sst)"

definition RestorePauses ::
  "faults \<Rightarrow> instant \<Rightarrow> Scheduler \<times> store
     \<Rightarrow> (string \<times> pauseClear) list option \<times> Scheduler \<times> store" where
  "RestorePauses down now sst =
     (case sst of (s, st) \<Rightarrow>
       (case ListPausedTaskSchedules down st of
          None \<Rightarrow> (None, s\<lparr>hasStore := True\<rparr>, st)
        | Some ps \<Rightarrow>
            (case PrunePauses down now (sc_tasks s)
                    (s\<lparr>hasStore := True, paused := ps\<rparr>, st) of
               (cleared, s', st') \<Rightarrow> (Some cleared, s', st'))))"

end
