(* ===== verification/Scheduler_Inv.thy ===== *)
theory Scheduler_Inv
  imports Scheduler
begin

text \<open>
  What the scheduler keeps: its id table and go-cron's entries together implement one partial map
  from task names to zoned schedules, with no entry left behind; every jitter plan stays inside
  its window; pauses sit on tasks that may be paused.
\<close>

section \<open>The entries as a map\<close>

definition entry_of :: "Scheduler \<Rightarrow> string \<Rightarrow> cronEntry option" where
  "entry_of s k = Option.bind (map_of (entryIDs s) k) (map_of (engine s))"

definition entries_ok :: "Scheduler \<Rightarrow> bool" where
  "entries_ok s \<longleftrightarrow> distinct (map fst (engine s)) \<and> (\<forall>(i, e)\<in>set (engine s). i < nextID s)
    \<and> distinct (map fst (entryIDs s))
    \<and> (\<forall>(i, e)\<in>set (engine s). map_of (entryIDs s) (e_task e) = Some i)
    \<and> (\<forall>(k, i)\<in>set (entryIDs s). \<exists>e. (i, e) \<in> set (engine s) \<and> e_task e = k)"

lemma entries_okI:
  assumes "distinct (map fst (engine s))" "distinct (map fst (entryIDs s))"
    and "\<And>i e. (i, e) \<in> set (engine s) \<Longrightarrow> i < nextID s"
    and "\<And>i e. (i, e) \<in> set (engine s) \<Longrightarrow> map_of (entryIDs s) (e_task e) = Some i"
    and "\<And>k i. map_of (entryIDs s) k = Some i \<Longrightarrow> \<exists>e. (i, e) \<in> set (engine s) \<and> e_task e = k"
  shows "entries_ok s"
proof -
  have "(k, i) \<in> set (entryIDs s) \<Longrightarrow> map_of (entryIDs s) k = Some i" for k i
    by (rule map_of_is_SomeI [OF assms(2)])
  with assms show ?thesis unfolding entries_ok_def by blast
qed

lemma entries_okD:
  assumes "entries_ok s"
  shows "(i, e) \<in> set (engine s) \<Longrightarrow> map_of (entryIDs s) (e_task e) = Some i"
    and "map_of (entryIDs s) k = Some i \<Longrightarrow> \<exists>e. (i, e) \<in> set (engine s) \<and> e_task e = k"
    and "(i, e) \<in> set (engine s) \<Longrightarrow> i < nextID s"
    and "(i, e) \<in> set (engine s) \<longleftrightarrow> map_of (engine s) i = Some e"
proof -
  show "(i, e) \<in> set (engine s) \<Longrightarrow> map_of (entryIDs s) (e_task e) = Some i"
    and "(i, e) \<in> set (engine s) \<Longrightarrow> i < nextID s"
    using assms by (auto simp: entries_ok_def)
  show "map_of (entryIDs s) k = Some i \<Longrightarrow> \<exists>e. (i, e) \<in> set (engine s) \<and> e_task e = k"
    using assms by (auto simp: entries_ok_def dest!: map_of_SomeD)
  show "(i, e) \<in> set (engine s) \<longleftrightarrow> map_of (engine s) i = Some e"
    using assms by (simp add: entries_ok_def)
qed

lemma entry_of_Some:
  assumes "entries_ok s"
  shows "entry_of s k = Some e \<longleftrightarrow> (\<exists>i. (i, e) \<in> set (engine s)) \<and> e_task e = k"
proof
  assume "entry_of s k = Some e"
  then obtain i where i: "map_of (entryIDs s) k = Some i" "map_of (engine s) i = Some e"
    by (auto simp: entry_of_def bind_eq_Some_conv)
  from entries_okD(2) [OF assms i(1)] obtain e' where "(i, e') \<in> set (engine s)" "e_task e' = k" by blast
  with i(2) entries_okD(4) [OF assms, of i e'] show "(\<exists>i. (i, e) \<in> set (engine s)) \<and> e_task e = k"
    by (auto dest: map_of_SomeD)
next
  assume "(\<exists>i. (i, e) \<in> set (engine s)) \<and> e_task e = k"
  then obtain i where "(i, e) \<in> set (engine s)" "e_task e = k" by blast
  with entries_okD(1,4) [OF assms, of i e] show "entry_of s k = Some e"
    by (auto simp: entry_of_def)
qed

lemma entry_of_None:
  assumes "entries_ok s"
  shows "entry_of s k = None \<longleftrightarrow> map_of (entryIDs s) k = None"
proof (cases "map_of (entryIDs s) k")
  case (Some i)
  with entries_okD(2,4) [OF assms] show ?thesis by (force simp: entry_of_def)
qed (simp add: entry_of_def)

lemma entries_cong:
  assumes "engine s' = engine s" "entryIDs s' = entryIDs s" "nextID s' = nextID s"
  shows "entries_ok s' = entries_ok s" and "entry_of s' = entry_of s"
  using assms by (simp_all add: entries_ok_def entry_of_def fun_eq_iff)

text \<open>Adding an entry for a name that has none is a map update.\<close>

definition want :: "cronLib \<Rightarrow> zone \<Rightarrow> Task \<Rightarrow> cronEntry option" where
  "want lib loc task =
     (case Resolve_spec lib (Cron task) (Timezone task) (Some loc) of (spec, z) \<Rightarrow>
       map_option (\<lambda>sched. \<lparr>e_task = Name task, e_schedule = sched, e_loc = z\<rparr>)
         (parse_schedule lib spec))"

lemma e_task_want: "want lib loc task = Some e \<Longrightarrow> e_task e = Name task"
  by (auto simp: want_def split: prod.splits)

lemma fst_addTask: "fst (addTask lib task s) \<longleftrightarrow> want lib (location s) task \<noteq> None"
  by (simp add: addTask_def want_def effectiveSpec_def split: prod.split option.split)

lemma addTask_entries:
  assumes ok: "entries_ok s" and free: "map_of (entryIDs s) (Name task) = None"
  shows "entries_ok (snd (addTask lib task s))"
    and "entry_of (snd (addTask lib task s)) =
      (case want lib (location s) task of None \<Rightarrow> entry_of s | Some e \<Rightarrow> (entry_of s)(Name task \<mapsto> e))"
proof -
  let ?s = "snd (addTask lib task s)"
  show "entries_ok ?s"
  proof (cases "want lib (location s) task")
    case None
    then have "?s = s" by (simp add: addTask_def want_def effectiveSpec_def split: prod.splits option.splits)
    with ok show ?thesis by simp
  next
    case (Some e)
    then have eng: "engine ?s = engine s @ [(nextID s, e)]" "nextID ?s = Suc (nextID s)"
      "entryIDs ?s = AList.update (Name task) (nextID s) (entryIDs s)" "e_task e = Name task"
      by (auto simp: addTask_def want_def effectiveSpec_def split: prod.splits option.splits)
    have fresh: "nextID s \<notin> fst ` set (engine s)"
      using entries_okD(3) [OF ok] by (metis fst_conv imageE less_irrefl surj_pair)
    have dist: "distinct (map fst (engine s))" "distinct (map fst (entryIDs s))"
      using ok by (auto simp: entries_ok_def)
    have "e_task e' \<noteq> Name task" if "(i, e') \<in> set (engine s)" for i e'
      using entries_okD(1) [OF ok that] free by auto
    with entries_okD(1) [OF ok] have new: "map_of (entryIDs ?s) (e_task e') = Some i"
      if "(i, e') \<in> set (engine ?s)" for i e'
      using that eng by (auto simp: update_conv')
    have bwd: "\<exists>e'. (i, e') \<in> set (engine ?s) \<and> e_task e' = k"
      if "map_of (entryIDs ?s) k = Some i" for k i
      using that eng entries_okD(2) [OF ok, of k i] by (auto simp: update_conv' split: if_splits)
    show ?thesis
    proof (rule entries_okI)
      show "distinct (map fst (engine ?s))" using dist fresh by (simp add: eng)
      show "distinct (map fst (entryIDs ?s))" unfolding eng(3) by (rule distinct_update [OF dist(2)])
      show "i < nextID ?s" if "(i, e') \<in> set (engine ?s)" for i e'
        using that entries_okD(3) [OF ok, of i e'] by (auto simp: eng)
    qed (fact new, fact bwd)
  qed
  show "entry_of ?s = (case want lib (location s) task of None \<Rightarrow> entry_of s
      | Some e \<Rightarrow> (entry_of s)(Name task \<mapsto> e))"
  proof (cases "want lib (location s) task")
    case None
    then have "?s = s" by (simp add: addTask_def want_def effectiveSpec_def split: prod.splits option.splits)
    with None show ?thesis by simp
  next
    case (Some e)
    then have eng: "engine ?s = engine s @ [(nextID s, e)]"
      "entryIDs ?s = AList.update (Name task) (nextID s) (entryIDs s)"
      by (auto simp: addTask_def want_def effectiveSpec_def split: prod.splits option.splits)
    have fresh: "map_of (engine s) (nextID s) = None"
      using entries_okD(3,4) [OF ok] by (metis less_irrefl not_None_eq)
    show ?thesis
    proof
      fix k show "entry_of ?s k = (case want lib (location s) task of None \<Rightarrow> entry_of s
          | Some e \<Rightarrow> (entry_of s)(Name task \<mapsto> e)) k"
      proof (cases "map_of (entryIDs s) k")
        case None
        with fresh show ?thesis
          by (auto simp: entry_of_def eng Some update_conv' map_add_def)
      next
        case i: (Some i)
        with free have "k \<noteq> Name task" by auto
        moreover from entries_okD(2,4) [OF ok] i obtain e' where "map_of (engine s) i = Some e'" by blast
        ultimately show ?thesis using i
          by (auto simp: entry_of_def eng Some update_conv' map_add_def)
      qed
    qed
  qed
qed

lemma drop_entry_entries:
  assumes ok: "entries_ok s"
  shows "entries_ok (drop_entry k s)" and "entry_of (drop_entry k s) = (entry_of s)(k := None)"
    and "map_of (entryIDs (drop_entry k s)) j = (if j = k then None else map_of (entryIDs s) j)"
proof -
  show ids: "map_of (entryIDs (drop_entry k s)) j = (if j = k then None else map_of (entryIDs s) j)" for j
    by (auto simp: drop_entry_def delete_conv' split: option.split)
  show okd: "entries_ok (drop_entry k s)"
  proof (cases "map_of (entryIDs s) k")
    case None
    with ok show ?thesis by (simp add: drop_entry_def)
  next
    case (Some i)
    then have eng: "engine (drop_entry k s) = filter (\<lambda>(j, _). j \<noteq> i) (engine s)"
      "nextID (drop_entry k s) = nextID s"
      "entryIDs (drop_entry k s) = AList.delete k (entryIDs s)"
      by (simp_all add: drop_entry_def remove_entry_def)
    have k: "e_task e = k \<longleftrightarrow> j = i" if "(j, e) \<in> set (engine s)" for j e
      using entries_okD(1) [OF ok that] Some entries_okD(2) [OF ok Some] ok that
      by (auto simp: entries_ok_def dest: eq_key_imp_eq_value)
    show ?thesis
    proof (rule entries_okI)
      show "distinct (map fst (engine (drop_entry k s)))"
        using ok by (auto simp: entries_ok_def eng distinct_map_filter)
      show "distinct (map fst (entryIDs (drop_entry k s)))"
        using ok by (simp add: entries_ok_def eng distinct_delete)
      show "j < nextID (drop_entry k s)" if "(j, e) \<in> set (engine (drop_entry k s))" for j e
        using that entries_okD(3) [OF ok, of j e] by (auto simp: eng)
      show "map_of (entryIDs (drop_entry k s)) (e_task e) = Some j"
        if "(j, e) \<in> set (engine (drop_entry k s))" for j e
        using that entries_okD(1) [OF ok, of j e] k [of j e] by (auto simp: eng delete_conv')
      show "\<exists>e. (j, e) \<in> set (engine (drop_entry k s)) \<and> e_task e = k'"
        if "map_of (entryIDs (drop_entry k s)) k' = Some j" for k' j
      proof -
        have "map_of (entryIDs s) k' = Some j" "k' \<noteq> k"
          using that by (auto simp: eng delete_conv' split: if_splits)
        with entries_okD(2) [OF ok] obtain e where "(j, e) \<in> set (engine s)" "e_task e = k'" by blast
        with k [of j e] \<open>k' \<noteq> k\<close> show ?thesis by (auto simp: eng)
      qed
    qed
  qed
  show "entry_of (drop_entry k s) = (entry_of s)(k := None)"
  proof
    fix j show "entry_of (drop_entry k s) j = ((entry_of s)(k := None)) j"
    proof (cases "j = k")
      case True
      with ids show ?thesis by (simp add: entry_of_def)
    next
      case False
      have "entry_of (drop_entry k s) j = Some e \<longleftrightarrow> entry_of s j = Some e" for e
      proof (cases "map_of (entryIDs s) k")
        case None
        then show ?thesis by (simp add: drop_entry_def)
      next
        case (Some i)
        have "e_task e = j \<Longrightarrow> (i, e) \<notin> set (engine s)"
          using entries_okD(1) [OF ok, of i e] entries_okD(2) [OF ok Some] ok False Some
          by (auto simp: entries_ok_def dest: eq_key_imp_eq_value)
        with entry_of_Some [OF okd] entry_of_Some [OF ok] Some show ?thesis
          by (auto simp: drop_entry_def remove_entry_def)
      qed
      with False show ?thesis by (metis fun_upd_other not_None_eq)
    qed
  qed
qed

lemma addTask_frame [simp]:
  "location (snd (addTask lib task s)) = location s"
  "sc_tasks (snd (addTask lib task s)) = sc_tasks s"
  "firedTicks (snd (addTask lib task s)) = firedTicks s"
  "jitterPlans (snd (addTask lib task s)) = jitterPlans s"
  "paused (snd (addTask lib task s)) = paused s"
  "hasStore (snd (addTask lib task s)) = hasStore s"
  "started (snd (addTask lib task s)) = started s"
  by (simp_all add: addTask_def split: prod.split option.split)

lemma addTask_ids:
  "k \<noteq> Name task \<Longrightarrow> map_of (entryIDs (snd (addTask lib task s))) k = map_of (entryIDs s) k"
  by (simp add: addTask_def update_conv' split: prod.split option.split)

lemma drop_entry_frame [simp]:
  "location (drop_entry k s) = location s"
  "sc_tasks (drop_entry k s) = sc_tasks s"
  "firedTicks (drop_entry k s) = firedTicks s"
  "jitterPlans (drop_entry k s) = jitterPlans s"
  "paused (drop_entry k s) = paused s"
  "hasStore (drop_entry k s) = hasStore s"
  "started (drop_entry k s) = started s"
  by (simp_all add: drop_entry_def remove_entry_def split: option.split)

section \<open>Starting\<close>

text \<open>The entries a task set wants in a zone.\<close>

definition tasks_named :: "(string \<times> Task) list \<Rightarrow> bool" where
  "tasks_named ts \<longleftrightarrow> distinct (map fst ts) \<and> (\<forall>(k, t)\<in>set ts. Name t = k)"

lemma tasks_namedD: "tasks_named ts \<Longrightarrow> map_of ts k = Some t \<Longrightarrow> Name t = k"
  by (auto simp: tasks_named_def dest: map_of_SomeD)

definition wanted :: "cronLib \<Rightarrow> zone \<Rightarrow> (string \<times> Task) list \<Rightarrow> string \<Rightarrow> cronEntry option" where
  "wanted lib loc ts k =
     (case map_of ts k of
        None \<Rightarrow> None | Some t \<Rightarrow> if Schedulable t then want lib loc t else None)"

lemma start_one_eq:
  "snd (start_one lib t rs) = (if Schedulable t then snd (addTask lib t (snd rs)) else snd rs)"
  by (auto simp: start_one_def split: prod.splits bool.splits)

lemma start_one_frame:
  "location (snd (start_one lib t rs)) = location (snd rs)"
  "sc_tasks (snd (start_one lib t rs)) = sc_tasks (snd rs)"
  "jitterPlans (snd (start_one lib t rs)) = jitterPlans (snd rs)"
  "paused (snd (start_one lib t rs)) = paused (snd rs)"
  "hasStore (snd (start_one lib t rs)) = hasStore (snd rs)"
  by (simp_all add: start_one_eq)

lemma start_fold:
  assumes "tasks_named ts" "entries_ok (snd rs)"
    and "\<And>k. k \<in> fst ` set ts \<Longrightarrow> map_of (entryIDs (snd rs)) k = None"
  shows "entries_ok (snd (fold (start_one lib) (map snd ts) rs)) \<and>
    entry_of (snd (fold (start_one lib) (map snd ts) rs)) =
      (\<lambda>k. if k \<in> fst ` set ts then wanted lib (location (snd rs)) ts k else entry_of (snd rs) k)"
  using assms
proof (induction ts arbitrary: rs)
  case (Cons p ts)
  obtain k t where p: "p = (k, t)" by fastforce
  have t: "Name t = k" "tasks_named ts" "k \<notin> fst ` set ts"
    using Cons.prems(1) by (auto simp: tasks_named_def p)
  let ?rs = "start_one lib t rs"
  have free: "map_of (entryIDs (snd rs)) (Name t) = None" using Cons.prems(3) t(1) by (simp add: p)
  have s: "snd ?rs = (if Schedulable t then snd (addTask lib t (snd rs)) else snd rs)"
    by (rule start_one_eq)
  have ok: "entries_ok (snd ?rs)"
    using s addTask_entries(1) [OF Cons.prems(2) free] Cons.prems(2) by simp
  have fr: "map_of (entryIDs (snd ?rs)) j = None" if "j \<in> fst ` set ts" for j
  proof -
    have "j \<noteq> Name t" using that t by metis
    with that s Cons.prems(3) addTask_ids [of j t lib "snd rs"] show ?thesis by (auto simp: p)
  qed
  have e: "entry_of (snd ?rs) = (if Schedulable t then
      (case want lib (location (snd rs)) t of None \<Rightarrow> entry_of (snd rs)
        | Some e \<Rightarrow> (entry_of (snd rs))(k \<mapsto> e)) else entry_of (snd rs))"
    using s addTask_entries(2) [OF Cons.prems(2) free] t(1)
    by (cases "want lib (location (snd rs)) t") simp_all
  have none: "entry_of (snd rs) k = None"
    using Cons.prems(3) by (simp add: p entry_of_def)
  have loc: "location (snd ?rs) = location (snd rs)" by (simp add: s)
  from Cons.IH [OF t(2) ok fr] t(3) e none show ?case
    by (auto simp: p loc wanted_def fun_eq_iff split: option.splits if_splits)
qed simp

lemma drop_entry_no_entry: "map_of (entryIDs s) k = None \<Longrightarrow> drop_entry k s = s"
  by (simp add: drop_entry_def)

section \<open>Moving to another zone\<close>

text \<open>A schedule is re-based when it is on the wall clock and the task pins no zone.\<close>

definition follows_daemon :: "cronEntry option \<Rightarrow> Task option \<Rightarrow> bool" where
  "follows_daemon e t \<longleftrightarrow>
     (case (e, t) of (Some e, Some t) \<Rightarrow> Timezone t = [] \<and> \<not> sched_fixed (e_schedule e) | _ \<Rightarrow> False)"

lemma rebase_one_eq:
  assumes "Option.bind (map_of (entryIDs (snd ws)) k) (map_of schedules) = e"
  shows "snd (rebase_one lib schedules ts k ws) =
    (if follows_daemon e (map_of ts k)
     then snd (addTask lib (the (map_of ts k))
       ((drop_entry k (snd ws))\<lparr>firedTicks := AList.delete k (firedTicks (snd ws))\<rparr>))
     else snd ws)"
  using assms by (cases ws)
    (auto simp: rebase_one_def follows_daemon_def Let_def split: option.splits prod.splits bool.splits)

lemma rebase_fold:
  assumes "tasks_named ts" "distinct ks" "entries_ok (snd ws)"
    and "\<And>k. k \<in> set ks \<Longrightarrow> Option.bind (map_of (entryIDs (snd ws)) k) (map_of schedules) = e k"
  shows "entries_ok (snd (fold (rebase_one lib schedules ts) ks ws)) \<and>
    (\<forall>k. entry_of (snd (fold (rebase_one lib schedules ts) ks ws)) k =
      (if k \<in> set ks \<and> follows_daemon (e k) (map_of ts k)
       then want lib (location (snd ws)) (the (map_of ts k)) else entry_of (snd ws) k))"
  using assms
proof (induction ks arbitrary: ws)
  case (Cons k ks)
  let ?ws = "rebase_one lib schedules ts k ws"
  note eq = rebase_one_eq [OF Cons.prems(4) [of k], where lib = lib and ts = ts]
  show ?case
  proof (cases "follows_daemon (e k) (map_of ts k)")
    case False
    with eq have same: "snd ?ws = snd ws" by simp
    have "entries_ok (snd (fold (rebase_one lib schedules ts) ks ?ws)) \<and>
      (\<forall>j. entry_of (snd (fold (rebase_one lib schedules ts) ks ?ws)) j =
        (if j \<in> set ks \<and> follows_daemon (e j) (map_of ts j)
         then want lib (location (snd ?ws)) (the (map_of ts j)) else entry_of (snd ?ws) j))"
      by (rule Cons.IH) (use Cons.prems same in auto)
    with False same show ?thesis by auto
  next
    case True
    then obtain t where t: "map_of ts k = Some t"
      by (auto simp: follows_daemon_def split: option.splits)
    have n: "Name t = k" by (rule tasks_namedD [OF Cons.prems(1) t])
    let ?s = "(drop_entry k (snd ws))\<lparr>firedTicks := AList.delete k (firedTicks (snd ws))\<rparr>"
    have s: "snd ?ws = snd (addTask lib t ?s)" using eq True t by simp
    have cong: "entries_ok ?s = entries_ok (drop_entry k (snd ws))"
      "entry_of ?s = entry_of (drop_entry k (snd ws))" by (rule entries_cong; simp)+
    have free: "map_of (entryIDs ?s) (Name t) = None"
      using drop_entry_entries(3) [OF Cons.prems(3), of k k] n by simp
    have oks: "entries_ok ?s" using cong(1) drop_entry_entries(1) [OF Cons.prems(3)] by simp
    note added = addTask_entries [OF oks free, of lib]
    have ids: "map_of (entryIDs (snd ?ws)) j = map_of (entryIDs (snd ws)) j" if "j \<noteq> k" for j
      using that n addTask_ids [of j t lib ?s] drop_entry_entries(3) [OF Cons.prems(3), of k j]
      by (simp add: s)
    have IH: "entries_ok (snd (fold (rebase_one lib schedules ts) ks ?ws)) \<and>
      (\<forall>j. entry_of (snd (fold (rebase_one lib schedules ts) ks ?ws)) j =
        (if j \<in> set ks \<and> follows_daemon (e j) (map_of ts j)
         then want lib (location (snd ?ws)) (the (map_of ts j)) else entry_of (snd ?ws) j))"
    proof (rule Cons.IH)
      show "Option.bind (map_of (entryIDs (snd ?ws)) j) (map_of schedules) = e j" if "j \<in> set ks" for j
      proof -
        have "j \<noteq> k" using that Cons.prems(2) by auto
        with ids [of j] Cons.prems(4) [of j] that show ?thesis by simp
      qed
    qed (use Cons.prems added s in auto)
    have loc: "location (snd ?ws) = location (snd ws)" by (simp add: s)
    have ent: "entry_of (snd ?ws) = (entry_of (snd ws))(k := want lib (location (snd ws)) t)"
      using added(2) cong(2) drop_entry_entries(2) [OF Cons.prems(3)] n
      by (auto simp: s fun_eq_iff split: option.split)
    have nk: "k \<notin> set ks" using Cons.prems(2) by simp
    from IH loc ent nk t True show ?thesis by auto
  qed
qed simp

lemma rebase_frame:
  "location (snd (fold (rebase_one lib schedules ts) ks ws)) = location (snd ws)"
  "sc_tasks (snd (fold (rebase_one lib schedules ts) ks ws)) = sc_tasks (snd ws)"
  "paused (snd (fold (rebase_one lib schedules ts) ks ws)) = paused (snd ws)"
  "hasStore (snd (fold (rebase_one lib schedules ts) ks ws)) = hasStore (snd ws)"
  by (induction ks arbitrary: ws) (simp_all add: rebase_one_eq [OF refl])

end
