(* ===== verification/Scheduler_Props.thy ===== *)
theory Scheduler_Props
  imports Scheduler_Inv Daemon
begin

text \<open>
  Properties of the scheduler: where a jittered tick may land, that the live scheduler, catch-up
  and the previews agree on which ticks fire, and that a pause survives what can go wrong.
\<close>

section \<open>Jitter plans\<close>

definition plans_ok :: "Scheduler \<Rightarrow> bool" where
  "plans_ok s \<longleftrightarrow>
     (\<forall>(k, p)\<in>set (jitterPlans s). 0 \<le> jp_offset p \<and> jp_offset p \<le> jp_window p
       \<and> (\<exists>t. map_of (sc_tasks s) k = Some t \<and> Schedulable t \<and> jp_window p \<le> JitterValue t))"

lemma plans_okD:
  "plans_ok s \<Longrightarrow> map_of (jitterPlans s) k = Some p \<Longrightarrow> 0 \<le> jp_offset p \<and> jp_offset p \<le> jp_window p
     \<and> (\<exists>t. map_of (sc_tasks s) k = Some t \<and> Schedulable t \<and> jp_window p \<le> JitterValue t)"
  by (force simp: plans_ok_def dest: map_of_SomeD)

lemma set_update_subset: "set (AList.update k v al) \<subseteq> insert (k, v) (set al)"
  by (induction al) auto

lemma set_fold_update:
  "set (fold (\<lambda>(k, p). AList.update k p) ps al) \<subseteq> set ps \<union> set al"
proof (induction ps arbitrary: al)
  case (Cons a ps)
  obtain k p where a: "a = (k, p)" by fastforce
  from Cons.IH [of "AList.update k p al"] set_update_subset [of k p al] show ?case
    by (auto simp: a)
qed simp

lemma jitter_windows_named:
  assumes "tasks_named (sc_tasks s)"
  shows "distinct (map (WName \<circ> fst) (jitter_windows lib s now))"
    and "\<forall>w\<in>set (jitter_windows lib s now). 0 < Length (fst w)"
    and "\<forall>w\<in>set (jitter_windows lib s now). \<exists>t. map_of (sc_tasks s) (WName (fst w)) = Some t
      \<and> Schedulable t \<and> Length (fst w) \<le> JitterValue t"
proof -
  have name: "jitter_window lib s now t = Some w \<Longrightarrow> WName (fst w) = Name t \<and> 0 < Length (fst w)" for t w
    by (auto simp: jitter_window_def Let_def split: if_splits option.splits)
  have sub: "set (List.map_filter (jitter_window lib s now \<circ> snd) ts) \<subseteq>
      {w. \<exists>p\<in>set ts. jitter_window lib s now (snd p) = Some w}" for ts
    by (force simp: List.map_filter_def)
  have "distinct (map (WName \<circ> fst) (List.map_filter (jitter_window lib s now \<circ> snd) ts))"
    if "tasks_named ts" for ts
    using that
  proof (induction ts)
    case (Cons p ts)
    obtain k t where p: "p = (k, t)" by fastforce
    have k: "Name t = k" "k \<notin> fst ` set ts" "tasks_named ts"
      using Cons.prems by (auto simp: tasks_named_def p)
    have "WName (fst w) \<in> fst ` set ts"
      if "w \<in> set (List.map_filter (jitter_window lib s now \<circ> snd) ts)" for w
    proof -
      from that sub obtain q where q: "q \<in> set ts" "jitter_window lib s now (snd q) = Some w" by blast
      with k(3) have "Name (snd q) = fst q" by (auto simp: tasks_named_def)
      with name [OF q(2)] q(1) show ?thesis by auto
    qed
    then have "k \<notin> (WName \<circ> fst) ` set (List.map_filter (jitter_window lib s now \<circ> snd) ts)"
      using k(2) by auto
    with Cons.IH [OF k(3)] k(1) name [of t] show ?case
      by (auto simp: p map_filter_simps o_def split: option.split)
  qed (simp add: map_filter_simps)
  from this [OF assms] show "distinct (map (WName \<circ> fst) (jitter_windows lib s now))"
    by (simp add: jitter_windows_def)
  show "\<forall>w\<in>set (jitter_windows lib s now). 0 < Length (fst w)"
    using sub name by (fastforce simp: jitter_windows_def)
  show "\<forall>w\<in>set (jitter_windows lib s now). \<exists>t. map_of (sc_tasks s) (WName (fst w)) = Some t
      \<and> Schedulable t \<and> Length (fst w) \<le> JitterValue t"
  proof
    fix w assume "w \<in> set (jitter_windows lib s now)"
    with sub obtain k t where t: "(k, t) \<in> set (sc_tasks s)" "jitter_window lib s now t = Some w"
      by (force simp: jitter_windows_def)
    have "Schedulable t \<and> Length (fst w) \<le> JitterValue t"
      using t(2) by (auto simp: jitter_window_def Let_def split: if_splits option.splits)
    moreover have "map_of (sc_tasks s) k = Some t" "Name t = k"
      using assms t(1) by (auto simp: tasks_named_def)
    ultimately show "\<exists>t. map_of (sc_tasks s) (WName (fst w)) = Some t \<and> Schedulable t
        \<and> Length (fst w) \<le> JitterValue t"
      using name [OF t(2)] by auto
  qed
qed

lemma computeJitterPlans_ok:
  assumes named: "tasks_named (sc_tasks s)" and ok: "plans_ok s"
  shows "plans_ok (computeJitterPlans lib now s)"
proof -
  let ?ws = "jitter_windows lib s now"
  have dist: "distinct (map WName (map fst ?ws))"
    using jitter_windows_named(1) [OF named] by simp
  have "\<forall>w\<in>set (map fst ?ws). 0 \<le> Length w"
    using jitter_windows_named(2) [OF named, of lib now] by auto
  from Place_fits [OF dist this] obtain offs where offs: "Place (map fst ?ws) = Some offs"
    "\<forall>w\<in>set (map fst ?ws). \<exists>off. map_of offs (WName w) = Some off \<and> 0 \<le> off \<and> off \<le> Length w"
    by blast
  have "0 \<le> jp_offset p \<and> jp_offset p \<le> jp_window p
      \<and> (\<exists>t. map_of (sc_tasks s) k = Some t \<and> Schedulable t \<and> jp_window p \<le> JitterValue t)"
    if "(k, p) \<in> set (List.map_filter (plan_of ?ws) offs)" for k p
  proof -
    from that obtain j off where j: "(j, off) \<in> set offs" "plan_of ?ws (j, off) = Some (k, p)"
      by (auto simp: List.map_filter_def)
    then obtain w sched where w: "find (\<lambda>(w, _). WName w = j) ?ws = Some (w, sched)"
      "p = \<lparr>jp_offset = off, jp_window = Length w, jp_schedule = sched\<rparr>" "k = j"
      by (auto simp: plan_of_def split: option.splits)
    then have "(w, sched) \<in> set ?ws" "WName w = j"
      by (force simp: find_Some_iff in_set_conv_nth)+
    moreover have "map_of offs j = Some off"
      using Place_distinct [OF offs(1)] j(1) by (rule map_of_is_SomeI)
    moreover have "\<exists>o'. map_of offs (WName w) = Some o' \<and> 0 \<le> o' \<and> o' \<le> Length w"
      using offs(2) \<open>(w, sched) \<in> set ?ws\<close> by force
    moreover have "\<exists>t. map_of (sc_tasks s) (WName w) = Some t \<and> Schedulable t \<and> Length w \<le> JitterValue t"
      using jitter_windows_named(3) [OF named, of lib now] \<open>(w, sched) \<in> set ?ws\<close> by force
    ultimately show ?thesis by (simp add: w(2,3))
  qed
  note new = this
  have tasks: "sc_tasks (computeJitterPlans lib now s) = sc_tasks s"
    by (simp add: computeJitterPlans_def Let_def split: option.split)
  have "set (jitterPlans (computeJitterPlans lib now s)) \<subseteq>
      set (List.map_filter (plan_of ?ws) offs) \<union> set (jitterPlans s)"
    using offs(1) set_fold_update [of "List.map_filter (plan_of ?ws) offs" "jitterPlans s"]
    by (auto simp: computeJitterPlans_def Let_def)
  with ok new show ?thesis
    unfolding plans_ok_def tasks by fast
qed

lemma computeJitterPlans_frame [simp]:
  "engine (computeJitterPlans lib now s) = engine s"
  "entryIDs (computeJitterPlans lib now s) = entryIDs s"
  "nextID (computeJitterPlans lib now s) = nextID s"
  "location (computeJitterPlans lib now s) = location s"
  "sc_tasks (computeJitterPlans lib now s) = sc_tasks s"
  "firedTicks (computeJitterPlans lib now s) = firedTicks s"
  "paused (computeJitterPlans lib now s) = paused s"
  "hasStore (computeJitterPlans lib now s) = hasStore s"
  by (simp_all add: computeJitterPlans_def Let_def split: option.split)

lemma computeJitterPlans_entries [simp]:
  "entries_ok (computeJitterPlans lib now s) = entries_ok s"
  "entry_of (computeJitterPlans lib now s) = entry_of s"
  by (rule entries_cong; simp)+

section \<open>What a tick decides\<close>

definition remembered :: "Scheduler \<Rightarrow> string \<Rightarrow> firedHour" where
  "remembered s k = OrDefault (map_of (firedTicks s) k) no_fired"

lemma decideFire_cases:
  "decideFire lib now k loc fx s =
     (if map_of (paused s) k \<noteq> None then (FirePaused, s)
      else (case tick_check fx (wallClock lib loc now) (remembered s k) of (dup, f') \<Rightarrow>
        let s1 = (if fx then s else s\<lparr>firedTicks := AList.update k f' (firedTicks s)\<rparr>)
        in if dup then (FireDuplicate, s1)
           else (case map_of (jitterPlans s) k of
               None \<Rightarrow> (FireNow, s1)
             | Some plan \<Rightarrow>
                 (let limit = max (time_sub (sched_next (jp_schedule plan) loc now) now - second) 0
                  in (FireJitter (now + min (jp_offset plan) limit) (min (jp_window plan) limit), s1)))))"
  by (auto simp: decideFire_def tick_check_def remembered_def Let_def split: prod.splits option.splits)

lemma decideFire_frame:
  "paused (snd (decideFire lib now k loc fx s)) = paused s"
  "jitterPlans (snd (decideFire lib now k loc fx s)) = jitterPlans s"
  "j \<noteq> k \<Longrightarrow> remembered (snd (decideFire lib now k loc fx s)) j = remembered s j"
  by (auto simp: decideFire_cases Let_def remembered_def update_conv' split: prod.split option.split)

lemma decideFire_remembered:
  "map_of (paused s) k = None \<Longrightarrow> remembered (snd (decideFire lib now k loc fx s)) k =
     (if fx then remembered s k else snd (tick_check fx (wallClock lib loc now) (remembered s k)))"
  by (auto simp: decideFire_cases Let_def remembered_def update_conv' split: prod.split option.split)

lemma decideFire_dup:
  "map_of (paused s) k = None \<Longrightarrow>
     fst (decideFire lib now k loc fx s) = FireDuplicate
       \<longleftrightarrow> fst (tick_check fx (wallClock lib loc now) (remembered s k))"
  by (auto simp: decideFire_cases Let_def split: prod.split option.split)

text \<open>The decisions at a list of ticks.\<close>

fun decide_all ::
  "cronLib \<Rightarrow> string \<Rightarrow> zone \<Rightarrow> bool \<Rightarrow> instant list \<Rightarrow> Scheduler \<Rightarrow> fireDecision list" where
  "decide_all lib k loc fx [] s = []"
| "decide_all lib k loc fx (t # ts) s =
     (case decideFire lib t k loc fx s of (d, s') \<Rightarrow> d # decide_all lib k loc fx ts s')"

text \<open>The ticks of a list at which the live scheduler starts a run, or hands one to the gate.\<close>

definition started_ticks ::
  "cronLib \<Rightarrow> string \<Rightarrow> zone \<Rightarrow> bool \<Rightarrow> instant list \<Rightarrow> Scheduler \<Rightarrow> instant list" where
  "started_ticks lib k loc fx ts s =
     map fst (filter (\<lambda>(_, d). d \<noteq> FireDuplicate \<and> d \<noteq> FirePaused)
       (zip ts (decide_all lib k loc fx ts s)))"

lemma started_ticks_live:
  "map_of (paused s) k = None \<Longrightarrow>
     started_ticks lib k loc fx ts s = live_ticks fx (wallClock lib loc) (remembered s k) ts"
proof (induction ts arbitrary: s)
  case (Cons t ts)
  obtain d s' where d: "decideFire lib t k loc fx s = (d, s')" by fastforce
  obtain dup f' where c: "tick_check fx (wallClock lib loc t) (remembered s k) = (dup, f')" by fastforce
  have np: "d \<noteq> FirePaused" "(d = FireDuplicate) = dup"
    using decideFire_dup [OF Cons.prems, of lib t loc fx] Cons.prems d c
    by (auto simp: decideFire_cases Let_def split: prod.splits option.splits if_splits)
  have s': "map_of (paused s') k = None" "remembered s' k = f'"
    using decideFire_frame(1) [of lib t k loc fx s] decideFire_remembered [OF Cons.prems, of lib t loc fx]
      Cons.prems d c by (auto simp: tick_check_def split: if_splits)
  from Cons.IH [OF s'(1)] np s'(2) show ?case
    by (simp add: started_ticks_def d live_ticks_Cons c)
qed (simp add: started_ticks_def)

lemma decide_all_paused:
  "map_of (paused s) k \<noteq> None \<Longrightarrow> decide_all lib k loc fx ts s = replicate (length ts) FirePaused"
  by (induction ts) (auto simp: decideFire_cases)

section \<open>The contract of \<open>RunTrigger\<close>\<close>

text \<open>What a client of the interface may rely on: every call keeps the provider's invariant, a
  jittered one provided its slot lies inside its window.\<close>

locale run_trigger =
  fixes rt :: "'d RunTrigger" and inv :: "'d \<Rightarrow> bool"
  assumes trigger_inv: "inv d \<Longrightarrow> 0 \<le> o_RetryAttempt opts \<Longrightarrow>
      inv (snd (rt_TriggerRunWithOptions rt k opts d))"
    and jittered_inv: "inv d \<Longrightarrow> sl \<le> tick + window \<Longrightarrow>
      inv (rt_ScheduleJitteredRun rt k tick sl window d)"
    and skipped_inv: "inv d \<Longrightarrow> inv (snd (rt_RecordSkippedFiring rt k reason by d))"
    and missed_inv: "inv d \<Longrightarrow> inv (snd (rt_RecordMissedRun rt k at msg d))"
begin

lemma performFire_inv:
  assumes "inv d" and "\<And>sl w. dec = FireJitter sl w \<Longrightarrow> sl \<le> now + w"
  shows "inv (performFire rt now k dec d)"
  using assms by (cases dec) (simp_all add: performFire_def trigger_inv jittered_inv skipped_inv no_options_def)

end

lemma manager_trigger_steps:
  "snd (rt_TriggerRunWithOptions manager_trigger k opts d) = daemon_step (EvTrigger k opts) d"
  "rt_ScheduleJitteredRun manager_trigger k tick sl window d = daemon_step (EvJittered k tick sl window) d"
  "snd (rt_RecordSkippedFiring manager_trigger k reason b d)
     = daemon_step (EvPhantom k (clock (snd d)) reason b []) d"
  "snd (rt_RecordMissedRun manager_trigger k a msg d)
     = daemon_step (EvPhantom k a ReasonMissed TriggeredByCron msg) d"
  by (simp_all add: manager_trigger_def on_manager_def RecordSkippedFiring_def RecordMissedRun_def split_beta)

interpretation daemon_trigger: run_trigger manager_trigger daemon_inv
proof unfold_locales
  fix d :: daemon assume d: "daemon_inv d"
  show "0 \<le> o_RetryAttempt opts \<Longrightarrow> daemon_inv (snd (rt_TriggerRunWithOptions manager_trigger k opts d))"
    for k opts using daemon_step_inv [OF d, of "EvTrigger k opts"] by (simp add: manager_trigger_steps(1))
  show "sl \<le> tick + window \<Longrightarrow> daemon_inv (rt_ScheduleJitteredRun manager_trigger k tick sl window d)"
    for k tick sl window
    using daemon_step_inv [OF d, of "EvJittered k tick sl window"] by (simp add: manager_trigger_steps(2))
  show "daemon_inv (snd (rt_RecordSkippedFiring manager_trigger k reason b d))" for k reason b
    unfolding manager_trigger_steps(3) by (rule daemon_step_inv [OF d]) simp
  show "daemon_inv (snd (rt_RecordMissedRun manager_trigger k a msg d))" for k a msg
    unfolding manager_trigger_steps(4) by (rule daemon_step_inv [OF d]) simp
qed

section \<open>The scheduler as a machine\<close>

datatype sched_event =
    SvStart instant
  | SvStop
  | SvAdd Task
  | SvRemove string
  | SvRecompute instant "(string \<times> Task) list"
  | SvSetLocation instant zone "(string \<times> Task) list"
  | SvFire instant string zone bool
  | SvPause faults instant string
  | SvResume faults instant string
  | SvAdopt string instant
  | SvPrune faults instant "(string \<times> Task) list"
  | SvRestore faults instant

fun sched_step :: "cronLib \<Rightarrow> sched_event \<Rightarrow> Scheduler \<times> store \<Rightarrow> Scheduler \<times> store" where
  "sched_step lib (SvStart now) (s, st) = (snd (Start lib now s), st)"
| "sched_step lib SvStop (s, st) = (Stop s, st)"
| "sched_step lib (SvAdd t) (s, st) = (snd (Sched_AddTask lib t s), st)"
| "sched_step lib (SvRemove k) (s, st) = (Sched_RemoveTask k s, st)"
| "sched_step lib (SvRecompute now ts) (s, st) = (RecomputeJitter lib now ts s, st)"
| "sched_step lib (SvSetLocation now z ts) (s, st) = (snd (SetLocation lib now z ts s), st)"
| "sched_step lib (SvFire now k z fx) (s, st) = (snd (decideFire lib now k z fx s), st)"
| "sched_step lib (SvPause down now k) sst = snd (Pause down now k sst)"
| "sched_step lib (SvResume down now k) sst = snd (Resume down now k sst)"
| "sched_step lib (SvAdopt k t) (s, st) = (adoptPause k t s, st)"
| "sched_step lib (SvPrune down now ts) sst = snd (PrunePauses down now ts sst)"
| "sched_step lib (SvRestore down now) sst = snd (RestorePauses down now sst)"

text \<open>What the callers guarantee: the scheduler is started once, before any entry exists; a task is
  added when it has no entry; a task set names its tasks.\<close>

fun sched_ok :: "sched_event \<Rightarrow> Scheduler \<times> store \<Rightarrow> bool" where
  "sched_ok (SvStart now) (s, st) \<longleftrightarrow> started s \<or> entryIDs s = []"
| "sched_ok (SvAdd t) (s, st) \<longleftrightarrow> map_of (entryIDs s) (Name t) = None"
| "sched_ok (SvRecompute now ts) sst \<longleftrightarrow> tasks_named ts"
| "sched_ok (SvSetLocation now z ts) sst \<longleftrightarrow> tasks_named ts"
| "sched_ok _ sst \<longleftrightarrow> True"

definition sched_inv :: "Scheduler \<times> store \<Rightarrow> bool" where
  "sched_inv sst \<longleftrightarrow>
     entries_ok (fst sst) \<and> plans_ok (fst sst) \<and> tasks_named (sc_tasks (fst sst))"

lemma sched_inv_cong:
  assumes "sched_inv (s, st)" "engine s' = engine s" "entryIDs s' = entryIDs s" "nextID s' = nextID s"
    "jitterPlans s' = jitterPlans s" "sc_tasks s' = sc_tasks s"
  shows "sched_inv (s', st')"
  using assms entries_cong(1) [of s' s] by (simp add: sched_inv_def plans_ok_def)

definition same_table :: "Scheduler \<Rightarrow> Scheduler \<Rightarrow> bool" where
  "same_table s s' \<longleftrightarrow> engine s' = engine s \<and> entryIDs s' = entryIDs s \<and> nextID s' = nextID s
     \<and> jitterPlans s' = jitterPlans s \<and> sc_tasks s' = sc_tasks s \<and> location s' = location s
     \<and> started s' = started s \<and> hasStore s' = hasStore s \<and> firedTicks s' = firedTicks s"

lemma same_table_refl [simp]: "same_table s s"
  by (simp add: same_table_def)

lemma same_table_trans: "same_table s s' \<Longrightarrow> same_table s' s'' \<Longrightarrow> same_table s s''"
  by (simp add: same_table_def)

lemma sched_inv_same: "sched_inv (s, st) \<Longrightarrow> same_table s s' \<Longrightarrow> sched_inv (s', st')"
  by (rule sched_inv_cong) (simp_all add: same_table_def)

lemma Pause_frame:
  "same_table s (fst (snd (Pause down now k (s, st))))"
  "same_table s (fst (snd (Resume down now k (s, st))))"
  by (auto simp: Pause_def Resume_def same_table_def split: option.splits if_splits prod.splits bool.splits)

lemma prune_fold_frame:
  "same_table s (fst (snd (fold (prune_one down now ts) ks (c, s, st))))"
proof (induction ks arbitrary: c s st)
  case (Cons k ks)
  obtain c1 s1 st1 where p: "prune_one down now ts k (c, s, st) = (c1, s1, st1)" by (metis prod_cases3)
  then have "same_table s s1" by (auto simp: prune_one_def same_table_def split: option.splits)
  from same_table_trans [OF this Cons.IH [of s1 c1 st1]] show ?case by (simp add: p)
qed simp

lemma set_delete_subset: "set (AList.delete k al) \<subseteq> set al"
  by (induction al) auto

lemma sched_step_inv:
  assumes inv: "sched_inv (s, st)" and ok: "sched_ok e (s, st)"
  shows "sched_inv (sched_step lib e (s, st))"
proof -
  have e: "entries_ok s" and p: "plans_ok s" and t: "tasks_named (sc_tasks s)"
    using inv by (simp_all add: sched_inv_def)
  show ?thesis
  proof (cases e)
    case (SvStart now)
    show ?thesis
    proof (cases "started s")
      case False
      with ok SvStart have none: "entryIDs s = []" by simp
      let ?f = "fold (start_one lib) (map snd (sc_tasks s)) (empty_result, s)"
      from start_fold [OF t, of "(empty_result, s)" lib] e none
      have ok1: "entries_ok (snd ?f)" by simp
      have fr: "jitterPlans (snd ?f) = jitterPlans s \<and> sc_tasks (snd ?f) = sc_tasks s"
      proof -
        have "jitterPlans (snd (fold (start_one lib) us rs)) = jitterPlans (snd rs) \<and>
          sc_tasks (snd (fold (start_one lib) us rs)) = sc_tasks (snd rs)" for us rs
          by (induction us arbitrary: rs) (simp_all add: start_one_frame)
        then show ?thesis by simp
      qed
      have "plans_ok (snd ?f)" using p fr by (simp add: plans_ok_def)
      from computeJitterPlans_ok [OF _ this, of lib now] t fr
      have "plans_ok (computeJitterPlans lib now (snd ?f))" by simp
      with False ok1 fr t show ?thesis
        by (simp add: SvStart Start_def sched_inv_def plans_ok_def split_beta
            entries_cong(1) [of "computeJitterPlans lib now (snd ?f)\<lparr>started := True\<rparr>"
              "computeJitterPlans lib now (snd ?f)"])
    qed (use inv in \<open>simp add: SvStart Start_def\<close>)
  next
    case SvStop
    have "engine (Stop s) = engine s" "entryIDs (Stop s) = entryIDs s" "nextID (Stop s) = nextID s"
      "jitterPlans (Stop s) = jitterPlans s" "sc_tasks (Stop s) = sc_tasks s"
      by (simp_all add: Stop_def)
    from sched_inv_cong [OF inv this] show ?thesis by (simp add: SvStop)
  next
    case (SvAdd task)
    with ok addTask_entries(1) [OF e, of task lib] e p t show ?thesis
      by (auto simp: Sched_AddTask_def sched_inv_def plans_ok_def)
  next
    case (SvRemove k)
    let ?s = "Sched_RemoveTask k s"
    have "entries_ok ?s"
      using drop_entry_entries(1) [OF e, of k] entries_cong(1) [of ?s "drop_entry k s"]
      by (simp add: Sched_RemoveTask_def)
    moreover have "plans_ok ?s"
      using p set_delete_subset [of k "jitterPlans s"] by (fastforce simp: plans_ok_def Sched_RemoveTask_def)
    ultimately show ?thesis using t by (simp add: SvRemove sched_inv_def Sched_RemoveTask_def)
  next
    case (SvRecompute now ts)
    let ?s = "s\<lparr>sc_tasks := ts, jitterPlans := []\<rparr>"
    have "entries_ok ?s" using e entries_cong(1) [of ?s s] by simp
    moreover have "plans_ok ?s" by (simp add: plans_ok_def)
    from computeJitterPlans_ok [OF _ this, of lib now] ok SvRecompute
    have "plans_ok (computeJitterPlans lib now ?s)" by simp
    ultimately show ?thesis using ok SvRecompute by (simp add: RecomputeJitter_def sched_inv_def)
  next
    case (SvSetLocation now z ts)
    with ok have named: "tasks_named ts" by simp
    let ?s0 = "s\<lparr>location := z, sc_tasks := ts\<rparr>"
    let ?ks = "sort (map fst (entryIDs s))"
    let ?f = "fold (rebase_one lib (engine s) ts) ?ks ([], ?s0)"
    have e0: "entries_ok ?s0" using e entries_cong(1) [of ?s0 s] by simp
    have "distinct ?ks" using e by (simp add: entries_ok_def)
    from rebase_fold [OF named this, of "([], ?s0)" "engine s" "entry_of s" lib] e0
    have ok1: "entries_ok (snd ?f)" by (simp add: entry_of_def)
    let ?s1 = "(snd ?f)\<lparr>jitterPlans := []\<rparr>"
    have "entries_ok ?s1" using ok1 entries_cong(1) [of ?s1 "snd ?f"] by simp
    moreover have "plans_ok ?s1" by (simp add: plans_ok_def)
    from computeJitterPlans_ok [OF _ this, of lib now] named
    have "plans_ok (computeJitterPlans lib now ?s1)" by (simp add: rebase_frame)
    ultimately show ?thesis using named
      by (simp add: SvSetLocation SetLocation_def sched_inv_def split_beta Let_def rebase_frame)
  next
    case (SvFire now k z fx)
    have "engine (snd (decideFire lib now k z fx s)) = engine s"
      "entryIDs (snd (decideFire lib now k z fx s)) = entryIDs s"
      "nextID (snd (decideFire lib now k z fx s)) = nextID s"
      "jitterPlans (snd (decideFire lib now k z fx s)) = jitterPlans s"
      "sc_tasks (snd (decideFire lib now k z fx s)) = sc_tasks s"
      by (auto simp: decideFire_cases Let_def split: prod.split option.split)
    from sched_inv_cong [OF inv this] show ?thesis by (simp add: SvFire)
  next
    case (SvPause down now k)
    from sched_inv_same [OF inv Pause_frame(1)] show ?thesis by (simp add: SvPause) (metis prod.collapse)
  next
    case (SvResume down now k)
    from sched_inv_same [OF inv Pause_frame(2)] show ?thesis by (simp add: SvResume) (metis prod.collapse)
  next
    case (SvAdopt k t')
    show ?thesis by (simp add: SvAdopt) (rule sched_inv_cong [OF inv], simp_all add: adoptPause_def)
  next
    case (SvPrune down now ts)
    from sched_inv_same [OF inv prune_fold_frame] show ?thesis
      by (simp add: SvPrune PrunePauses_def) (metis prod.collapse)
  next
    case (SvRestore down now)
    show ?thesis
    proof (cases "ListPausedTaskSchedules down st")
      case None
      show ?thesis by (simp add: SvRestore RestorePauses_def None) (rule sched_inv_cong [OF inv], simp_all)
    next
      case (Some ps)
      let ?s = "s\<lparr>hasStore := True, paused := ps\<rparr>"
      have "sched_inv (?s, st)" by (rule sched_inv_cong [OF inv]) simp_all
      from sched_inv_same [OF this prune_fold_frame] show ?thesis
        by (simp add: SvRestore RestorePauses_def Some PrunePauses_def split_beta) (metis prod.collapse)
    qed
  qed
qed

lemma NewScheduler_inv: "tasks_named ts \<Longrightarrow> sched_inv (NewScheduler ts loc, st)"
  by (simp add: sched_inv_def NewScheduler_def entries_ok_def plans_ok_def)

interpretation sched: step_machine "sched_step lib" sched_ok sched_inv for lib
proof unfold_locales
  fix s :: "Scheduler \<times> store" and e
  assume "sched_inv s" "sched_ok e s"
  then show "sched_inv (sched_step lib e s)" by (cases s) (simp add: sched_step_inv)
qed

section \<open>Where a jittered tick may land\<close>

lemma time_sub_le: "a \<le> b \<Longrightarrow> time_sub b a \<le> b - a"
  by (simp add: time_sub_def min_int64_def)

lemma decideFire_jitter:
  assumes "plans_ok s" and d: "decideFire lib now k z fx s = (FireJitter sl w, s')"
  shows "\<exists>t p. map_of (sc_tasks s) k = Some t \<and> map_of (jitterPlans s) k = Some p
    \<and> now \<le> sl \<and> sl \<le> now + w \<and> w \<le> JitterValue t
    \<and> (now + second \<le> sched_next (jp_schedule p) z now \<longrightarrow>
         now + w + second \<le> sched_next (jp_schedule p) z now)"
proof -
  from d obtain p where p: "map_of (jitterPlans s) k = Some p"
    and w: "w = min (jp_window p) (max (time_sub (sched_next (jp_schedule p) z now) now - second) 0)"
    and sl: "sl = now + min (jp_offset p) (max (time_sub (sched_next (jp_schedule p) z now) now - second) 0)"
    by (auto simp: decideFire_cases Let_def split: prod.splits option.splits if_splits)
  from plans_okD [OF assms(1) p] obtain t where t: "map_of (sc_tasks s) k = Some t"
    "0 \<le> jp_offset p" "jp_offset p \<le> jp_window p" "jp_window p \<le> JitterValue t" by blast
  have "0 < second" by (simp add: second_def)
  with time_sub_le [of now "sched_next (jp_schedule p) z now"] t p show ?thesis
    by (auto simp: w sl)
qed

section \<open>The table the scheduler implements\<close>

text \<open>What a client sees of the entries: which task fires by which schedule in which zone.\<close>

record cronTable =
  t_entries :: "string \<Rightarrow> cronEntry option"
  t_loc :: zone
  t_tasks :: "(string \<times> Task) list"
  t_started :: bool

definition table_of :: "Scheduler \<Rightarrow> cronTable" where
  "table_of s = \<lparr>t_entries = entry_of s, t_loc = location s, t_tasks = sc_tasks s, t_started = started s\<rparr>"

fun table_step :: "cronLib \<Rightarrow> sched_event \<Rightarrow> cronTable \<Rightarrow> cronTable" where
  "table_step lib (SvStart now) t =
     (if t_started t then t
      else t\<lparr>t_entries := (\<lambda>k. if k \<in> fst ` set (t_tasks t) then wanted lib (t_loc t) (t_tasks t) k
                            else t_entries t k), t_started := True\<rparr>)"
| "table_step lib SvStop t = t\<lparr>t_started := False\<rparr>"
| "table_step lib (SvAdd task) t =
     (case (if Schedulable task then want lib (t_loc t) task else None) of
        None \<Rightarrow> t
      | Some e \<Rightarrow> t\<lparr>t_entries := (t_entries t)(Name task \<mapsto> e)\<rparr>)"
| "table_step lib (SvRemove k) t = t\<lparr>t_entries := (t_entries t)(k := None)\<rparr>"
| "table_step lib (SvRecompute now ts) t = t\<lparr>t_tasks := ts\<rparr>"
| "table_step lib (SvSetLocation now z ts) t =
     t\<lparr>t_entries := (\<lambda>k. if follows_daemon (t_entries t k) (map_of ts k)
         then want lib z (the (map_of ts k)) else t_entries t k),
       t_loc := z, t_tasks := ts\<rparr>"
| "table_step lib _ t = t"

lemma table_of_same: "same_table s s' \<Longrightarrow> table_of s' = table_of s"
  by (simp add: same_table_def table_of_def entry_of_def fun_eq_iff)

lemma decideFire_same:
  "table_of (snd (decideFire lib now k z fx s)) = table_of s"
  by (auto simp: decideFire_cases Let_def table_of_def entry_of_def split: prod.split option.split)

lemma entry_of_ids: "entry_of s k \<noteq> None \<Longrightarrow> k \<in> fst ` set (entryIDs s)"
  by (auto simp: entry_of_def bind_eq_None_conv domIff map_of_eq_None_iff dest!: map_of_SomeD
      intro: rev_image_eqI split: option.splits bind_splits)

lemma started_frames [simp]:
  "started (snd (start_one lib t rs)) = started (snd rs)"
  "started (computeJitterPlans lib now s) = started s"
  by (simp_all add: start_one_eq computeJitterPlans_def Let_def split: option.split)

lemma sched_step_refines:
  assumes inv: "sched_inv (s, st)" and ok: "sched_ok e (s, st)"
  shows "table_of (fst (sched_step lib e (s, st))) = table_step lib e (table_of s)"
proof -
  have e: "entries_ok s" and t: "tasks_named (sc_tasks s)"
    using inv by (simp_all add: sched_inv_def)
  show ?thesis
  proof (cases e)
    case (SvStart now)
    show ?thesis
    proof (cases "started s")
      case False
      with ok SvStart have none: "entryIDs s = []" by simp
      let ?f = "fold (start_one lib) (map snd (sc_tasks s)) (empty_result, s)"
      from start_fold [OF t, of "(empty_result, s)" lib] e none
      have "entry_of (snd ?f) = (\<lambda>k. if k \<in> fst ` set (sc_tasks s)
          then wanted lib (location s) (sc_tasks s) k else entry_of s k)" by (simp cong: if_cong)
      moreover have "location (snd ?f) = location s" "sc_tasks (snd ?f) = sc_tasks s"
      proof -
        have "location (snd (fold (start_one lib) us rs)) = location (snd rs) \<and>
          sc_tasks (snd (fold (start_one lib) us rs)) = sc_tasks (snd rs)" for us rs
          by (induction us arbitrary: rs) (simp_all add: start_one_frame)
        then show "location (snd ?f) = location s" "sc_tasks (snd ?f) = sc_tasks s" by simp_all
      qed
      moreover have "entry_of (computeJitterPlans lib now (snd ?f)\<lparr>started := True\<rparr>) = entry_of (snd ?f)"
        by (rule ext) (simp add: entry_of_def)
      ultimately show ?thesis using False
        by (simp add: SvStart Start_def table_of_def split_beta cong: if_cong)
    qed (simp add: SvStart Start_def table_of_def)
  next
    case SvStop
    then show ?thesis by (simp add: Stop_def table_of_def entry_of_def fun_eq_iff)
  next
    case (SvAdd task)
    with ok addTask_entries(2) [OF e, of task lib] show ?thesis
      by (auto simp: Sched_AddTask_def table_of_def addTask_def split: option.split prod.split)
  next
    case (SvRemove k)
    have "entry_of (Sched_RemoveTask k s) = entry_of (drop_entry k s)"
      by (rule ext) (simp add: entry_of_def Sched_RemoveTask_def)
    with drop_entry_entries(2) [OF e, of k] show ?thesis
      by (simp add: SvRemove table_of_def Sched_RemoveTask_def)
  next
    case (SvRecompute now ts)
    have "entry_of (s\<lparr>sc_tasks := ts, jitterPlans := []\<rparr>) = entry_of s"
      by (rule ext) (simp add: entry_of_def)
    then show ?thesis by (simp add: SvRecompute RecomputeJitter_def table_of_def)
  next
    case (SvSetLocation now z ts)
    with ok have named: "tasks_named ts" by simp
    let ?s0 = "s\<lparr>location := z, sc_tasks := ts\<rparr>"
    let ?ks = "sort (map fst (entryIDs s))"
    let ?f = "fold (rebase_one lib (engine s) ts) ?ks ([], ?s0)"
    have e0: "entries_ok ?s0" "entry_of ?s0 = entry_of s" using e entries_cong [of ?s0 s] by simp_all
    have "distinct ?ks" using e by (simp add: entries_ok_def)
    from rebase_fold [OF named this, of "([], ?s0)" "engine s" "entry_of s" lib] e0
    have "entry_of (snd ?f) k = (if k \<in> set ?ks \<and> follows_daemon (entry_of s k) (map_of ts k)
       then want lib z (the (map_of ts k)) else entry_of s k)" for k by (simp add: entry_of_def)
    moreover have "k \<in> set ?ks" if "follows_daemon (entry_of s k) (map_of ts k)" for k
    proof -
      have "entry_of s k \<noteq> None" using that by (auto simp: follows_daemon_def split: option.splits)
      from entry_of_ids [OF this] show ?thesis by simp
    qed
    ultimately have f: "entry_of (snd ?f) = (\<lambda>k. if follows_daemon (entry_of s k) (map_of ts k)
       then want lib z (the (map_of ts k)) else entry_of s k)" by (auto simp: fun_eq_iff)
    have "entry_of ((snd ?f)\<lparr>jitterPlans := []\<rparr>) = entry_of (snd ?f)"
      by (rule ext) (simp add: entry_of_def)
    moreover have "started (snd ?f) = started s"
    proof -
      have "started (snd (fold (rebase_one lib (engine s) ts) ks ws)) = started (snd ws)" for ks ws
        by (induction ks arbitrary: ws) (simp_all add: rebase_one_eq [OF refl])
      then show ?thesis by simp
    qed
    ultimately show ?thesis
      by (simp add: SvSetLocation SetLocation_def table_of_def split_beta Let_def rebase_frame f cong: if_cong)
  next
    case (SvFire now k z fx)
    then show ?thesis by (simp add: decideFire_same)
  next
    case (SvPause down now k)
    then show ?thesis using table_of_same [OF Pause_frame(1)] by simp
  next
    case (SvResume down now k)
    then show ?thesis using table_of_same [OF Pause_frame(2)] by simp
  next
    case (SvAdopt k t')
    then show ?thesis by (simp add: adoptPause_def table_of_def entry_of_def fun_eq_iff)
  next
    case (SvPrune down now ts)
    then show ?thesis using table_of_same [OF prune_fold_frame] by (simp add: PrunePauses_def)
  next
    case (SvRestore down now)
    have "table_of (s\<lparr>hasStore := True, paused := ps\<rparr>) = table_of s"
      "table_of (s\<lparr>hasStore := True\<rparr>) = table_of s" for ps
      by (simp_all add: table_of_def entry_of_def fun_eq_iff)
    with table_of_same [OF prune_fold_frame] show ?thesis
      by (simp add: SvRestore RestorePauses_def PrunePauses_def split_beta split: option.split)
  qed
qed

lemma option_eqI: "(\<And>e. a = Some e \<longleftrightarrow> b = Some e) \<Longrightarrow> a = b"
  by (cases a; cases b) auto

lemma engine_table:
  assumes ok: "entries_ok s"
  shows "map_of (map (\<lambda>(i, e). (e_task e, e)) (engine s)) = entry_of s"
    and "distinct (map (e_task \<circ> snd) (engine s))"
proof -
  have "i = j" if "(i, e) \<in> set (engine s)" "(j, f) \<in> set (engine s)" "e_task e = e_task f" for i j e f
    using entries_okD(1) [OF ok that(1)] entries_okD(1) [OF ok that(2)] that(3) by simp
  moreover have "e = f" if "(i, e) \<in> set (engine s)" "(i, f) \<in> set (engine s)" for i e f
    using entries_okD(4) [OF ok, of i e] entries_okD(4) [OF ok, of i f] that by simp
  ultimately have "inj_on (e_task \<circ> snd) (set (engine s))"
    unfolding inj_on_def o_apply by (metis prod.collapse)
  moreover have d: "distinct (engine s)" using ok by (auto simp: entries_ok_def distinct_map)
  ultimately show dist: "distinct (map (e_task \<circ> snd) (engine s))" by (simp add: distinct_map)
  show "map_of (map (\<lambda>(i, e). (e_task e, e)) (engine s)) = entry_of s"
  proof
    fix k
    have dist': "distinct (map fst (map (\<lambda>(i, e). (e_task e, e)) (engine s)))"
      using dist by (simp add: o_def split_beta)
    have "map_of (map (\<lambda>(i, e). (e_task e, e)) (engine s)) k = Some e \<longleftrightarrow> entry_of s k = Some e" for e
    proof -
      have "(k, e) \<in> set (map (\<lambda>(i, e). (e_task e, e)) (engine s))
          \<longleftrightarrow> (\<exists>i. (i, e) \<in> set (engine s)) \<and> e_task e = k"
        by (force simp: image_iff)
      with entry_of_Some [OF ok, of k e] map_of_eq_Some_iff [OF dist', of k e] show ?thesis by simp
    qed
    from option_eqI [OF this]
    show "map_of (map (\<lambda>(i, e). (e_task e, e)) (engine s)) k = entry_of s k" .
  qed
qed

section \<open>Pauses in memory and in the database\<close>

definition pauses_agree :: "Scheduler \<times> store \<Rightarrow> bool" where
  "pauses_agree sst \<longleftrightarrow> hasStore (fst sst) \<and> distinct (map fst (registrations (snd sst)))
     \<and> map_of (paused (fst sst)) = paused_in (snd sst)"

text \<open>The steps that keep both sides in agreement, whatever queries fail but for one: the clearing
  of pauses the configuration no longer allows is best effort, it drops the pause from memory even
  if the database refuses. The adoption of a pause that the first registration of a task put into
  the database is the other half of that registration, so it is no such step by itself.\<close>

fun keeps_pauses :: "sched_event \<Rightarrow> bool" where
  "keeps_pauses (SvAdopt k t) \<longleftrightarrow> False"
| "keeps_pauses (SvPrune down now ts) \<longleftrightarrow> (\<forall>k. \<not> down (QResume k))"
| "keeps_pauses (SvRestore down now) \<longleftrightarrow> (\<forall>k. \<not> down (QResume k))"
| "keeps_pauses _ \<longleftrightarrow> True"

lemma distinct_Pause:
  "distinct (map fst (registrations st)) \<Longrightarrow>
     distinct (map fst (registrations (snd (PauseTaskSchedule down k t st))))"
  "distinct (map fst (registrations st)) \<Longrightarrow>
     distinct (map fst (registrations (snd (ResumeTaskSchedule down k t st))))"
  by (auto simp: PauseTaskSchedule_def ResumeTaskSchedule_def distinct_update map_of_eq_None_iff
      split: option.splits)

lemma Pause_agree:
  assumes "pauses_agree (s, st)"
  shows "pauses_agree (snd (Pause down now k (s, st)))" "pauses_agree (snd (Resume down now k (s, st)))"
proof -
  have k: "map_of (paused s) k = paused_in st k" and h: "hasStore s"
    and d: "distinct (map fst (registrations st))" and eq: "map_of (paused s) = paused_in st"
    using assms by (simp_all add: pauses_agree_def)
  have p: "pauses_agree (s\<lparr>paused := AList.update k now (paused s)\<rparr>, st')"
    if "PauseTaskSchedule down k now st = (True, st')" "map_of (paused s) k = None" for st'
  proof -
    have "\<not> down (QPause k)" using that by (auto simp: PauseTaskSchedule_def)
    with that h d k eq distinct_Pause(1) [OF d, of down k now] paused_in_Pause [of down k now st]
    show ?thesis by (simp add: pauses_agree_def fun_eq_iff update_conv')
  qed
  have r: "pauses_agree (s\<lparr>paused := AList.delete k (paused s)\<rparr>, st')"
    if "ResumeTaskSchedule down k now st = (True, st')" for st'
  proof -
    have "\<not> down (QResume k)" using that by (auto simp: ResumeTaskSchedule_def)
    with that h d eq distinct_Pause(2) [OF d, of down k now] paused_in_Resume [of down k now st]
    show ?thesis by (simp add: pauses_agree_def fun_eq_iff delete_conv')
  qed
  have f: "PauseTaskSchedule down k now st = (False, st') \<Longrightarrow> st' = st"
    "ResumeTaskSchedule down k now st = (False, st') \<Longrightarrow> st' = st" for st'
    by (auto simp: PauseTaskSchedule_def ResumeTaskSchedule_def split: if_splits)
  show "pauses_agree (snd (Pause down now k (s, st)))"
    using assms p f(1) h
    by (auto simp: Pause_def split: option.split prod.split bool.split)
  show "pauses_agree (snd (Resume down now k (s, st)))"
    using assms r f(2) h
    by (auto simp: Resume_def split: prod.split bool.split)
qed

lemma prune_agree:
  assumes "\<forall>k. \<not> down (QResume k)" "pauses_agree (s, st)"
  shows "pauses_agree (snd (PrunePauses down now ts (s, st)))"
proof -
  have one: "pauses_agree (snd (prune_one down now ts k acc))" if "pauses_agree (snd acc)" for k acc
  proof -
    obtain c s1 st1 where acc: "acc = (c, s1, st1)" by (metis prod_cases3)
    with that have d: "distinct (map fst (registrations st1))" by (simp add: pauses_agree_def)
    show ?thesis
      using that assms(1) distinct_Pause(2) [OF d, of down k now] paused_in_Resume [of down k now st1]
      by (auto simp: acc prune_one_def pauses_agree_def fun_eq_iff delete_conv' split: option.split)
  qed
  have "pauses_agree (snd (fold (prune_one down now ts) ks acc))" if "pauses_agree (snd acc)" for ks acc
    using that by (induction ks arbitrary: acc) (simp_all add: one)
  then show ?thesis using assms(2) by (simp add: PrunePauses_def)
qed

lemma restore_agree:
  assumes "\<forall>k. \<not> down (QResume k)" "pauses_agree (s, st)"
  shows "pauses_agree (snd (RestorePauses down now (s, st)))"
proof (cases "down QListPaused")
  case True
  with assms(2) show ?thesis by (simp add: RestorePauses_def ListPausedTaskSchedules_def pauses_agree_def)
next
  case False
  from assms(2) have d: "distinct (map fst (registrations st))" by (simp add: pauses_agree_def)
  from ListPaused_correct [where down = down, OF d False] obtain ps where
    ps: "ListPausedTaskSchedules down st = Some ps" "map_of ps = paused_in st" by blast
  with d have "pauses_agree (s\<lparr>hasStore := True, paused := ps\<rparr>, st)" by (simp add: pauses_agree_def)
  from prune_agree [OF assms(1) this, of now "sc_tasks s"] ps(1) show ?thesis
    by (auto simp: RestorePauses_def split: prod.split)
qed

lemma pauses_agree_cong:
  "paused s' = paused s \<Longrightarrow> hasStore s' = hasStore s \<Longrightarrow> pauses_agree (s', st) = pauses_agree (s, st)"
  by (simp add: pauses_agree_def)

lemma fold_frame:
  "(\<And>x acc. P (f x acc) = P acc) \<Longrightarrow> P (fold f xs acc) = P acc"
  by (induction xs arbitrary: acc) simp_all

lemma sched_step_agree:
  assumes "pauses_agree (s, st)" "keeps_pauses e"
  shows "pauses_agree (sched_step lib e (s, st))"
proof -
  have start: "paused (snd (Start lib now s)) = paused s \<and> hasStore (snd (Start lib now s)) = hasStore s" for now
    using fold_frame [of "\<lambda>rs. paused (snd rs)" "start_one lib" "map snd (sc_tasks s)" "(empty_result, s)"]
      fold_frame [of "\<lambda>rs. hasStore (snd rs)" "start_one lib" "map snd (sc_tasks s)" "(empty_result, s)"]
    by (simp add: Start_def split_beta start_one_frame)
  have "paused (snd (decideFire lib now k z fx s)) = paused s
      \<and> hasStore (snd (decideFire lib now k z fx s)) = hasStore s" for now k z fx
    by (auto simp: decideFire_cases Let_def split: prod.split option.split)
  with assms start show ?thesis
  proof (cases e)
    case (SvSetLocation now z ts)
    have "paused (snd (SetLocation lib now z ts s)) = paused s
      \<and> hasStore (snd (SetLocation lib now z ts s)) = hasStore s"
      by (simp add: SetLocation_def Let_def split_beta rebase_frame)
    with assms SvSetLocation show ?thesis by (simp add: pauses_agree_def)
  next
    case (SvPrune down now ts)
    with assms show ?thesis by (simp add: prune_agree)
  next
    case (SvRestore down now)
    with assms show ?thesis by (simp add: restore_agree)
  qed (simp_all add: pauses_agree_def Pause_agree [unfolded pauses_agree_def] Stop_def
      Sched_AddTask_def Sched_RemoveTask_def RecomputeJitter_def)
qed

lemma fold_agree:
  "pauses_agree sst \<Longrightarrow> list_all keeps_pauses es \<Longrightarrow> pauses_agree (fold (sched_step lib) es sst)"
proof (induction es arbitrary: sst)
  case (Cons e es)
  obtain s st where "sst = (s, st)" by fastforce
  with Cons show ?case using sched_step_agree [of s st e lib] by simp
qed simp

lemma prune_fold_paused:
  "map_of (paused (fst (snd (fold (prune_one down now ts) ks (c, s, st))))) k =
     (if k \<in> set ks \<and> pauseClearReason (map_of ts k) \<noteq> None then None else map_of (paused s) k)"
proof (induction ks arbitrary: c s st)
  case (Cons j ks)
  obtain c1 s1 st1 where p: "prune_one down now ts j (c, s, st) = (c1, s1, st1)" by (metis prod_cases3)
  then have "map_of (paused s1) k =
      (if k = j \<and> pauseClearReason (map_of ts j) \<noteq> None then None else map_of (paused s) k)"
    by (auto simp: prune_one_def delete_conv' split: option.splits)
  with Cons.IH [of c1 s1 st1] show ?case by (auto simp: p)
qed simp

lemma PrunePauses_paused:
  "map_of (paused (fst (snd (PrunePauses down now ts (s, st))))) k =
     (if pauseClearReason (map_of ts k) = None then map_of (paused s) k else None)"
proof -
  have "k \<notin> fst ` set (paused s) \<Longrightarrow> map_of (paused s) k = None" by (simp add: map_of_eq_None_iff)
  then show ?thesis by (auto simp: PrunePauses_def prune_fold_paused)
qed

section \<open>Theorems\<close>

text \<open>A scheduler that was started on two jittered tasks, for the witnesses.\<close>

definition cron_task :: "string \<Rightarrow> Task" where
  "cron_task n = example_task\<lparr>Name := n, Cron := ''30 * * * *'', ManualTrigger := True,
     Jitter := Some (10 * minute)\<rparr>"

definition cron_tasks :: "(string \<times> Task) list" where
  "cron_tasks = [(''a'', cron_task ''a''), (''b'', cron_task ''b'')]"

lemma cron_tasks_named: "tasks_named cron_tasks"
  by (simp add: tasks_named_def cron_tasks_def cron_task_def)

definition empty_store :: store where
  "empty_store = \<lparr>registrations = [], boot_ids = []\<rparr>"

definition cron_boot :: "Scheduler \<times> store" where
  "cron_boot = fold (sched_step example_lib) [SvStart 0] (NewScheduler cron_tasks None, empty_store)"

lemma cron_boot_admissible:
  "sched.admissible example_lib [SvStart 0] (NewScheduler cron_tasks None, empty_store)"
  by (simp add: NewScheduler_def)

lemma cron_boot_fires:
  "fst (decideFire example_lib (30 * minute) ''b'' UTC False (fst cron_boot))
     = FireJitter (40 * minute) (10 * minute)"
  by code_simp

text \<open>A jittered tick stays where the operator can expect it: whatever happened to the scheduler
  before, a tick of a task handed to the jitter gate carries a slot that is not before the tick and
  not after the end of its window, the window is no longer than the task's jitter, and window and
  slot end at least a second before the following tick when that is at least a second away.\<close>
lemma jittered_tick_bounds:
  assumes "tasks_named ts"
    and "sched.admissible lib es (NewScheduler ts loc, st)"
    and "decideFire lib now k z fx (fst (fold (sched_step lib) es (NewScheduler ts loc, st)))
      = (FireJitter sl w, s')"
  shows "\<exists>t p. map_of (sc_tasks (fst (fold (sched_step lib) es (NewScheduler ts loc, st)))) k = Some t
    \<and> map_of (jitterPlans (fst (fold (sched_step lib) es (NewScheduler ts loc, st)))) k = Some p
    \<and> now \<le> sl \<and> sl \<le> now + w \<and> w \<le> JitterValue t
    \<and> (now + second \<le> sched_next (jp_schedule p) z now \<longrightarrow>
         now + w + second \<le> sched_next (jp_schedule p) z now)"
proof -
  from sched.fold_inv [OF NewScheduler_inv [OF assms(1)] assms(2)]
  have "plans_ok (fst (fold (sched_step lib) es (NewScheduler ts loc, st)))"
    by (simp add: sched_inv_def)
  from decideFire_jitter [OF this assms(3)] show ?thesis .
qed

lemma jittered_tick_bounds_witness:
  "fst (decideFire example_lib (30 * minute) ''b'' UTC False (fst cron_boot))
     = FireJitter (40 * minute) (10 * minute)
   \<and> (\<exists>t. map_of (sc_tasks (fst cron_boot)) ''b'' = Some t \<and> 10 * minute \<le> JitterValue t)"
proof -
  obtain s' where "decideFire example_lib (30 * minute) ''b'' UTC False (fst cron_boot)
      = (FireJitter (40 * minute) (10 * minute), s')"
    using cron_boot_fires by (metis prod.collapse)
  from jittered_tick_bounds [OF cron_tasks_named cron_boot_admissible this [unfolded cron_boot_def]]
  show ?thesis using cron_boot_fires unfolding cron_boot_def by blast
qed

text \<open>C4. The scheduler is a table. Its id map, the entries it registered with go-cron and the
  bookkeeping between them amount to one map from task names to zoned schedules: after any
  admissible sequence of operations, the jobs go-cron holds are exactly that map, with one job per
  task and none left behind, and the map is what the same operations give on a plain table, where
  starting and adding enter what the task wants, removing deletes, and a zone change re-bases the
  wall-clock tasks that pin no zone.\<close>
theorem scheduler_refines_table:
  assumes "tasks_named ts"
    and "sched.admissible lib es (NewScheduler ts loc, st)"
  shows "table_of (fst (fold (sched_step lib) es (NewScheduler ts loc, st))) =
      fold (table_step lib) es (table_of (NewScheduler ts loc))
    \<and> map_of (map (\<lambda>(i, e). (e_task e, e)) (engine (fst (fold (sched_step lib) es (NewScheduler ts loc, st)))))
      = t_entries (fold (table_step lib) es (table_of (NewScheduler ts loc)))
    \<and> distinct (map (e_task \<circ> snd) (engine (fst (fold (sched_step lib) es (NewScheduler ts loc, st)))))"
proof -
  have sim: "table_of (fst (fold (sched_step lib) es sst)) = fold (table_step lib) es (table_of (fst sst))"
    if "sched_inv sst" "sched.admissible lib es sst" for es sst
    using that
  proof (induction es arbitrary: sst)
    case (Cons e es)
    obtain s st where "sst = (s, st)" by fastforce
    with Cons sched.step_inv [of sst e lib] sched_step_refines [of s st e lib] show ?case by simp
  qed simp
  let ?s = "fst (fold (sched_step lib) es (NewScheduler ts loc, st))"
  note init = NewScheduler_inv [OF assms(1), of loc st]
  from sched.fold_inv [OF init assms(2)] have ok: "entries_ok ?s" by (simp add: sched_inv_def)
  from sim [OF init assms(2)] have t: "table_of ?s = fold (table_step lib) es (table_of (NewScheduler ts loc))"
    by simp
  then have "entry_of ?s = t_entries (fold (table_step lib) es (table_of (NewScheduler ts loc)))"
    by (metis cronTable.select_convs(1) table_of_def)
  with t engine_table [OF ok] show ?thesis by simp
qed

lemma scheduler_refines_table_witness:
  "t_entries (fold (table_step example_lib) [SvStart 0] (table_of (NewScheduler cron_tasks None)))
     = map_of (map (\<lambda>(i, e). (e_task e, e)) (engine (fst cron_boot)))
   \<and> map (e_task \<circ> snd) (engine (fst cron_boot)) = [''a'', ''b'']"
proof
  show "t_entries (fold (table_step example_lib) [SvStart 0] (table_of (NewScheduler cron_tasks None)))
     = map_of (map (\<lambda>(i, e). (e_task e, e)) (engine (fst cron_boot)))"
    using scheduler_refines_table [OF cron_tasks_named cron_boot_admissible] unfolding cron_boot_def by simp
  show "map (e_task \<circ> snd) (engine (fst cron_boot)) = [''a'', ''b'']"
    by code_simp
qed

text \<open>C13. A pause survives: when memory and database agree on who is paused, they still agree after
  any sequence of pauses, resumes, ticks, starts, task and zone changes, whichever queries failed
  on the way, and of prunings and restores whose clearing writes succeed (a failed one leaves the
  pause in the database until the next boot; the adoption of a pause at a first registration is not
  among these steps); and a new scheduler that restores from the database then has paused exactly the tasks
  that were paused and that its configuration still lets be paused, since the same instants, even
  if its own clearing writes fail.\<close>
theorem pauses_survive_restart:
  assumes "pauses_agree (s, st)" and "list_all keeps_pauses es"
    and "fold (sched_step lib) es (s, st) = (s', st')" and "\<not> down QListPaused"
  shows "map_of (paused s') = paused_in st'
    \<and> map_of (paused (fst (snd (RestorePauses down now (NewScheduler ts loc, st'))))) =
      (\<lambda>k. if pauseClearReason (map_of ts k) = None then map_of (paused s') k else None)"
proof -
  from fold_agree [OF assms(1,2), of lib] assms(3) have a: "pauses_agree (s', st')" by simp
  then have eq: "map_of (paused s') = paused_in st'" "distinct (map fst (registrations st'))"
    by (simp_all add: pauses_agree_def)
  from ListPaused_correct [where down = down, OF eq(2)] assms(4) obtain ps where
    ps: "ListPausedTaskSchedules down st' = Some ps" "map_of ps = paused_in st'" by blast
  let ?s = "NewScheduler ts loc\<lparr>hasStore := True, paused := ps\<rparr>"
  have "fst (snd (RestorePauses down now (NewScheduler ts loc, st'))) =
      fst (snd (PrunePauses down now ts (?s, st')))"
    using ps(1) by (simp add: RestorePauses_def NewScheduler_def split_beta)
  with PrunePauses_paused [of down now ts ?s st'] ps(2) eq(1) show ?thesis
    by (simp add: fun_eq_iff)
qed

text \<open>Two tasks are paused, one write fails, and the next configuration drops one of the paused tasks.\<close>

definition pause_events :: "sched_event list" where
  "pause_events = [SvPause (\<lambda>_. False) 5 ''a'', SvPause (\<lambda>_. False) 6 ''b'', SvResume (\<lambda>_. True) 7 ''b'',
     SvPrune (\<lambda>_. False) 8 cron_tasks]"

lemma pauses_survive_restart_witness:
  "map_of (paused (fst (snd (RestorePauses (\<lambda>_. False) 9 (NewScheduler [(''a'', cron_task ''a'')] None,
     snd (fold (sched_step example_lib) pause_events
       (NewScheduler cron_tasks None\<lparr>hasStore := True\<rparr>, empty_store))))))) = [''a'' \<mapsto> 5]"
proof -
  let ?r = "fold (sched_step example_lib) pause_events
       (NewScheduler cron_tasks None\<lparr>hasStore := True\<rparr>, empty_store)"
  have a: "pauses_agree (NewScheduler cron_tasks None\<lparr>hasStore := True\<rparr>, empty_store)"
    by (simp add: pauses_agree_def NewScheduler_def empty_store_def paused_in_def registration_def fun_eq_iff)
  have ok: "list_all keeps_pauses pause_events" by (simp add: pause_events_def)
  have p: "paused (fst ?r) = [(''a'', 5), (''b'', 6)]" by code_simp
  have c: "pauseClearReason (Some (cron_task ''a'')) = None" by code_simp
  from pauses_survive_restart [OF a ok, of example_lib "fst ?r" "snd ?r" "\<lambda>_. False" 9
      "[(''a'', cron_task ''a'')]" None] p c
  show ?thesis by (simp add: fun_eq_iff pauseClearReason_def)
qed

end
