(* ===== verification/Catchup.thy ===== *)
theory Catchup
  imports Scheduler_Props
begin

text \<open>
  Missed ticks at startup (\<open>runtime/catchup.go\<close>): the anchor each task counts from, taken before
  anything runs, and the pass that counts the ticks since, records one missed run per gap and
  re-fires the newest of them through \<open>RunTrigger\<close>. The counting loop is in \<open>Ticks\<close>. A Go map of
  tasks is visited in some order; here it is the order of the list.
\<close>

section \<open>Anchors\<close>

record CatchUpResult =
  cu_Triggered :: nat
  cu_Skipped :: nat
  cu_Errors :: nat

definition later_of :: "instant option \<Rightarrow> instant \<Rightarrow> instant" where
  "later_of floor anchor = (case floor of None \<Rightarrow> anchor | Some f \<Rightarrow> if f > anchor then f else anchor)"

definition resolveCatchupAnchor :: "faults \<Rightarrow> Task \<Rightarrow> store \<Rightarrow> instant \<times> bool \<times> nat" where
  "resolveCatchupAnchor down task st =
     (case GetTaskRegistration down (Name task) st of
        None \<Rightarrow> (0, False, 1)
      | Some None \<Rightarrow> (0, False, 0)
      | Some (Some reg) \<Rightarrow>
          if PausedAt reg \<noteq> None then (0, False, 0)
          else (fold later_of [LastRunAt reg, ResumedAt reg] (FirstSeenAt reg), True, 0))"

definition snapshot_one ::
  "faults \<Rightarrow> instant \<Rightarrow> Task \<Rightarrow> (string \<times> instant) list \<times> nat \<times> store
     \<Rightarrow> (string \<times> instant) list \<times> nat \<times> store" where
  "snapshot_one down now task acc =
     (case acc of (anchors, errs, st) \<Rightarrow>
       if \<not> Schedulable task then (anchors, errs, st)
       else (case EnsureTaskRegistered down (Name task) now (StartsPaused task) st of
           (None, st') \<Rightarrow> (anchors, Suc errs, st')
         | (Some _, st') \<Rightarrow>
             (case resolveCatchupAnchor down task st' of
                (at, ok, errCount) \<Rightarrow>
                  (if ok then AList.update (Name task) at anchors else anchors, errs + errCount, st'))))"

definition SnapshotCatchupAnchors ::
  "faults \<Rightarrow> (string \<times> Task) list \<Rightarrow> instant \<Rightarrow> store \<Rightarrow> (string \<times> instant) list \<times> nat \<times> store" where
  "SnapshotCatchupAnchors down ts now st =
     (case ForgetTaskRegistrationsExcept down (map fst ts) st of (ok, st') \<Rightarrow>
       fold (snapshot_one down now) (map snd ts) ([], if ok then 0 else 1, st'))"

section \<open>The pass\<close>

definition catchupSchedule :: "cronLib \<Rightarrow> Task \<Rightarrow> zone option \<Rightarrow> (schedule \<times> zone) option" where
  "catchupSchedule lib task defaultLoc =
     (case Resolve_spec lib (Cron task) (Timezone task) defaultLoc of (spec, loc) \<Rightarrow>
       map_option (\<lambda>sched. (sched, loc)) (parse_schedule lib spec))"

definition computeCatchupTriggers :: "Task \<Rightarrow> int \<Rightarrow> int \<times> bool" where
  "computeCatchupTriggers task missedCount =
     (let catchUpCap = CatchUpValue task
      in if missedCount > catchUpCap then (catchUpCap, catchUpCap > 0) else (missedCount, False))"

definition catchupCountDisplayFloor :: int where "catchupCountDisplayFloor = 1000"

text \<open>The layout \<open>2006-01-02 15:04\<close>.\<close>

definition zero_pad :: "nat \<Rightarrow> int \<Rightarrow> string" where
  "zero_pad n i = (let s = Itoa (nat i) in replicate (n - length s) (CHR ''0'') @ s)"

definition format_minute :: "wallSecond \<Rightarrow> string" where
  "format_minute w = zero_pad 4 (w_year w) @ ''-'' @ zero_pad 2 (w_month w) @ ''-'' @ zero_pad 2 (w_day w)
     @ '' '' @ zero_pad 2 (w_hour w) @ '':'' @ zero_pad 2 (w_minute w)"

definition Pluralize :: "int \<Rightarrow> string \<Rightarrow> string \<Rightarrow> string" where
  "Pluralize n singular plural = (if n = 1 then singular else plural)"

definition missedRunReason :: "int \<Rightarrow> wallSecond \<Rightarrow> bool \<Rightarrow> int \<Rightarrow> bool \<Rightarrow> string" where
  "missedRunReason missedCount since capped triggered truncated =
     (if truncated then ''at least '' else []) @ Itoa (nat missedCount) @ (if truncated then ''+'' else [])
       @ '' scheduled run'' @ Pluralize missedCount [] ''s'' @ '' missed since '' @ format_minute since
       @ '' (daemon was down)''
       @ (if capped then ''; re-ran the most recent '' @ Itoa (nat triggered)
            @ '', older ticks dropped per catch_up'' else [])"

fun trigger_loop :: "'d RunTrigger \<Rightarrow> string \<Rightarrow> nat \<Rightarrow> nat \<Rightarrow> nat \<Rightarrow> 'd \<Rightarrow> (nat \<times> nat) \<times> 'd" where
  "trigger_loop rt name 0 triggered errors d = ((triggered, errors), d)"
| "trigger_loop rt name (Suc n) triggered errors d =
     (case rt_TriggerRunWithOptions rt name (no_options\<lparr>o_TriggeredBy := Some TriggeredByCron\<rparr>) d of
        (Some _, d') \<Rightarrow> trigger_loop rt name n triggered (Suc errors) d'
      | (None, d') \<Rightarrow> trigger_loop rt name n (Suc triggered) errors d')"

definition catchupOneTask ::
  "cronLib \<Rightarrow> 'd RunTrigger \<Rightarrow> Task \<Rightarrow> instant \<Rightarrow> zone option \<Rightarrow> instant \<Rightarrow> 'd \<Rightarrow> (nat \<times> nat) \<times> 'd" where
  "catchupOneTask lib rt task now defaultLoc anchor d =
     (case catchupSchedule lib task defaultLoc of
        None \<Rightarrow> ((0, 1), d)
      | Some (schedule, loc) \<Rightarrow>
          let countCap = max (CatchUpValue task) catchupCountDisplayFloor + 1 in
          (case countMissedTicks (sched_next schedule loc) (wallClock lib loc) (sched_fixed schedule)
                  anchor now countCap of
             (missedCount, lastTick, truncated) \<Rightarrow>
               if missedCount = 0 then ((0, 0), d)
               else (case computeCatchupTriggers task missedCount of
                   (triggerCount, capped) \<Rightarrow>
                     let firstTick = sched_next schedule loc anchor;
                         anchorTick = (if truncated then now else lastTick);
                         reason = missedRunReason missedCount (wallClock lib loc firstTick) capped
                                    triggerCount truncated
                     in (case rt_RecordMissedRun rt (Name task) anchorTick reason d of
                           (err, d') \<Rightarrow>
                             trigger_loop rt (Name task) (nat triggerCount) 0
                               (if err = None then 0 else 1) d'))))"

definition catchup_step ::
  "cronLib \<Rightarrow> 'd RunTrigger \<Rightarrow> instant \<Rightarrow> zone option \<Rightarrow> (string \<times> instant) list \<Rightarrow> Task
     \<Rightarrow> CatchUpResult \<times> 'd \<Rightarrow> CatchUpResult \<times> 'd" where
  "catchup_step lib rt now defaultLoc anchors task acc =
     (case acc of (result, d) \<Rightarrow>
       if \<not> Schedulable task then (result, d)
       else (case map_of anchors (Name task) of
           None \<Rightarrow> (result, d)
         | Some anchor \<Rightarrow>
             (case catchupOneTask lib rt task now defaultLoc anchor d of
                ((triggered, errors), d') \<Rightarrow>
                  (result\<lparr>cu_Triggered := cu_Triggered result + triggered,
                          cu_Errors := cu_Errors result + errors\<rparr>, d'))))"

definition RunMissedTickCatchUp ::
  "cronLib \<Rightarrow> (string \<times> Task) list \<Rightarrow> 'd RunTrigger \<Rightarrow> instant \<Rightarrow> zone option \<Rightarrow> (string \<times> instant) list
     \<Rightarrow> nat \<Rightarrow> 'd \<Rightarrow> CatchUpResult \<times> 'd" where
  "RunMissedTickCatchUp lib ts rt now defaultLoc anchors snapshotErrors d =
     fold (catchup_step lib rt now defaultLoc anchors) (map snd ts)
       (\<lparr>cu_Triggered = 0, cu_Skipped = 0, cu_Errors = snapshotErrors\<rparr>, d)"

section \<open>What the pass keeps\<close>

context run_trigger begin

lemma trigger_loop_inv: "inv d \<Longrightarrow> inv (snd (trigger_loop rt k n tr er d))"
proof (induction n arbitrary: tr er d)
  case (Suc n)
  let ?o = "no_options\<lparr>o_TriggeredBy := Some TriggeredByCron\<rparr>"
  have "inv (snd (rt_TriggerRunWithOptions rt k ?o d))"
    using Suc.prems by (simp add: trigger_inv no_options_def)
  with Suc.IH show ?case
    by (cases "rt_TriggerRunWithOptions rt k ?o d") (auto split: option.split)
qed simp

lemma catchupOneTask_inv: "inv d \<Longrightarrow> inv (snd (catchupOneTask lib rt task now dl anchor d))"
  by (auto simp: catchupOneTask_def Let_def split: option.split prod.split intro!: trigger_loop_inv)
    (metis missed_inv snd_conv)+

lemma catchup_step_inv: "inv (snd acc) \<Longrightarrow> inv (snd (catchup_step lib rt now dl anchors task acc))"
  using catchupOneTask_inv
  by (auto simp: catchup_step_def split: prod.split option.split) (metis snd_conv)

lemma RunMissedTickCatchUp_inv:
  "inv d \<Longrightarrow> inv (snd (RunMissedTickCatchUp lib ts rt now dl anchors er d))"
proof -
  have "inv (snd acc) \<Longrightarrow> inv (snd (fold (catchup_step lib rt now dl anchors) us acc))" for us acc
    by (induction us arbitrary: acc) (simp_all add: catchup_step_inv)
  then show "inv d \<Longrightarrow> ?thesis" by (simp add: RunMissedTickCatchUp_def)
qed

end

lemma catch_up_keeps_daemon_inv:
  "daemon_inv d \<Longrightarrow> daemon_inv (snd (RunMissedTickCatchUp lib ts manager_trigger now dl anchors er d))"
  by (rule daemon_trigger.RunMissedTickCatchUp_inv)

section \<open>What the pass does\<close>

text \<open>One trigger as the pass makes it.\<close>

definition cron_trigger :: "'d RunTrigger \<Rightarrow> string \<Rightarrow> 'd \<Rightarrow> 'd" where
  "cron_trigger rt k d =
     snd (rt_TriggerRunWithOptions rt k (no_options\<lparr>o_TriggeredBy := Some TriggeredByCron\<rparr>) d)"

lemma trigger_loop_effect: "snd (trigger_loop rt k n tr er d) = (cron_trigger rt k ^^ n) d"
proof (induction n arbitrary: tr er d)
  case (Suc n)
  obtain e d' where r: "rt_TriggerRunWithOptions rt k (no_options\<lparr>o_TriggeredBy := Some TriggeredByCron\<rparr>) d = (e, d')"
    by fastforce
  then have d': "cron_trigger rt k d = d'" by (simp add: cron_trigger_def)
  show ?case using r d' by (cases e) (simp_all add: funpow_swap1 Suc.IH)
qed simp

lemma trigger_loop_total:
  "fst (fst (trigger_loop rt k n tr er d)) + snd (fst (trigger_loop rt k n tr er d)) = tr + er + n"
  by (induction n arbitrary: tr er d) (simp_all split: prod.split option.split)

lemma catchupSchedule_want:
  "want lib loc task = Some e \<Longrightarrow> catchupSchedule lib task (Some loc) = Some (e_schedule e, e_loc e)"
  by (auto simp: want_def catchupSchedule_def split: prod.splits)

lemma computeCatchupTriggers_min:
  assumes "0 \<le> CatchUpValue task" "0 \<le> n"
  shows "nat (fst (computeCatchupTriggers task n)) = min (nat (CatchUpValue task)) (nat n)"
  using assms by (auto simp: computeCatchupTriggers_def Let_def)

text \<open>The pass over one task, in terms of the ticks \<open>ls\<close> that count.\<close>

lemma catchupOneTask_effect:
  assumes sched: "catchupSchedule lib task dl = Some (s, loc)" and cap: "0 \<le> CatchUpValue task"
    and ls: "ls = live_ticks (sched_fixed s) (wallClock lib loc) no_fired (ticks_until (sched_next s loc) now anchor)"
  shows "\<exists>reason. snd (catchupOneTask lib rt task now dl anchor d) =
    (if ls = [] then d
     else (cron_trigger rt (Name task) ^^ min (nat (CatchUpValue task)) (length ls))
          (snd (rt_RecordMissedRun rt (Name task)
             (if int (length ls) > max (CatchUpValue task) catchupCountDisplayFloor then now else last ls) reason d)))"
proof -
  let ?cap = "max (CatchUpValue task) catchupCountDisplayFloor + 1"
  have "0 < ?cap" by (simp add: catchupCountDisplayFloor_def)
  note count = countMissedTicks_eq [OF this, of "sched_next s loc" "wallClock lib loc" "sched_fixed s" anchor now,
      folded ls, unfolded Let_def]
  obtain n l tr where c: "countMissedTicks (sched_next s loc) (wallClock lib loc) (sched_fixed s) anchor now ?cap
      = (n, l, tr)" by (metis prod_cases3)
  have n: "n = min (int (length ls)) ?cap" "tr \<longleftrightarrow> ?cap \<le> int (length ls)" "\<not> tr \<Longrightarrow> ls \<noteq> [] \<Longrightarrow> l = last ls"
    using count c by (auto simp: nat_le_iff min_def split: if_splits)
  show ?thesis
  proof (cases "ls = []")
    case True
    then have "n = 0" using n(1) by (simp add: catchupCountDisplayFloor_def)
    with True sched c show ?thesis by (simp add: catchupOneTask_def Let_def)
  next
    case False
    then have n0: "n \<noteq> 0" "0 \<le> n" using n(1) by (auto simp: catchupCountDisplayFloor_def min_def)
    have t: "nat (fst (computeCatchupTriggers task n)) = min (nat (CatchUpValue task)) (length ls)"
      unfolding computeCatchupTriggers_min [OF cap n0(2)]
      unfolding n(1) by (auto simp: min_def max_def)
    obtain tc capped where tc: "computeCatchupTriggers task n = (tc, capped)" by fastforce
    have at: "(if tr then now else l) =
        (if int (length ls) > max (CatchUpValue task) catchupCountDisplayFloor then now else last ls)"
      using n(2,3) False by auto
    let ?reason = "missedRunReason n (wallClock lib loc (sched_next s loc anchor)) capped tc tr"
    have "snd (catchupOneTask lib rt task now dl anchor d) = (cron_trigger rt (Name task) ^^ nat tc)
        (snd (rt_RecordMissedRun rt (Name task) (if tr then now else l) ?reason d))"
      using sched c n0(1) tc
      by (simp add: catchupOneTask_def Let_def split_beta trigger_loop_effect cong: if_cong split del: if_split)
    with t tc show ?thesis unfolding at using False
      by (intro exI [of _ ?reason]) (simp split del: if_split)
  qed
qed

section \<open>Counting again\<close>

text \<open>From a tick of the walk on, the walk goes on with the ticks after it.\<close>

lemma ticks_until_resume:
  "t \<in> set (ticks_until nxt now prev) \<Longrightarrow>
     ticks_until nxt now t = filter ((<) t) (ticks_until nxt now prev)"
proof (induction nxt now prev rule: ticks_until.induct)
  case (1 nxt now prev)
  have go: "nxt prev > prev \<and> \<not> nxt prev > now"
    using "1.prems" by (subst (asm) ticks_until.simps) (auto split: if_splits)
  then have ts: "ticks_until nxt now prev = nxt prev # ticks_until nxt now (nxt prev)"
    by (subst ticks_until.simps) simp
  show ?case
  proof (cases "t = nxt prev")
    case True
    then have "filter ((<) t) (ticks_until nxt now (nxt prev)) = ticks_until nxt now (nxt prev)"
      by (auto simp: filter_id_conv dest: ticks_until_sorted)
    with True show ?thesis by (simp add: ts)
  next
    case False
    with "1.prems" ts have t: "t \<in> set (ticks_until nxt now (nxt prev))" by simp
    then have "nxt prev < t" by (auto dest: ticks_until_sorted)
    with "1.IH" [OF go t] show ?thesis by (simp add: ts)
  qed
qed

section \<open>What the snapshot holds\<close>

text \<open>The anchor of a task, given what its own queries answer.\<close>

definition anchor_spec :: "faults \<Rightarrow> instant \<Rightarrow> Task \<Rightarrow> store \<Rightarrow> instant option" where
  "anchor_spec down now task st =
     (if down (QEnsure (Name task)) \<or> down (QGet (Name task)) then None
      else (case registration st (Name task) of
          None \<Rightarrow> if StartsPaused task then None else Some now
        | Some r \<Rightarrow>
            if PausedAt r \<noteq> None then None
            else Some (max (FirstSeenAt r) (max (OrDefault (LastRunAt r) (FirstSeenAt r))
                   (OrDefault (ResumedAt r) (FirstSeenAt r))))))"

lemma later_of_max: "later_of g (later_of f a) = max a (max (OrDefault f a) (OrDefault g a))"
  by (auto simp: later_of_def max_def split: option.split)

lemma snapshot_one_anchor:
  assumes "snapshot_one down now task (anchors, errs, st) = (anchors', errs', st')"
  shows "map_of anchors' k =
      (if k = Name task \<and> Schedulable task \<and> anchor_spec down now task st \<noteq> None
       then anchor_spec down now task st else map_of anchors k)"
    and "k \<noteq> Name task \<Longrightarrow> registration st' k = registration st k"
    and "errs \<le> errs'"
proof -
  have reg: "registration (snd (EnsureTaskRegistered down (Name task) now (StartsPaused task) st)) k =
      (if \<not> down (QEnsure (Name task)) \<and> registration st (Name task) = None \<and> k = Name task
       then Some (new_registration now (if StartsPaused task then Some now else None))
       else registration st k)" for k by (rule registration_Ensure)
  have none: "fst (EnsureTaskRegistered down (Name task) now (StartsPaused task) st) = None
      \<longleftrightarrow> down (QEnsure (Name task))" by (auto simp: EnsureTaskRegistered_def)
  show "k \<noteq> Name task \<Longrightarrow> registration st' k = registration st k"
    using assms reg [of k] by (auto simp: snapshot_one_def split: if_splits prod.splits option.splits)
  show "errs \<le> errs'"
    using assms by (auto simp: snapshot_one_def split: if_splits prod.splits option.splits)
  obtain e st1 where en: "EnsureTaskRegistered down (Name task) now (StartsPaused task) st = (e, st1)" by fastforce
  have fold: "(if StartsPaused task then None else Some now) =
      (case new_registration now (if StartsPaused task then Some now else None) of r \<Rightarrow>
        if PausedAt r \<noteq> None then None else Some (max (FirstSeenAt r)
          (max (OrDefault (LastRunAt r) (FirstSeenAt r)) (OrDefault (ResumedAt r) (FirstSeenAt r)))))"
    by (simp add: new_registration_def)
  show "map_of anchors' k =
      (if k = Name task \<and> Schedulable task \<and> anchor_spec down now task st \<noteq> None
       then anchor_spec down now task st else map_of anchors k)"
  proof (cases "Schedulable task \<and> \<not> down (QEnsure (Name task)) \<and> \<not> down (QGet (Name task))")
    case False
    with assms en none show ?thesis
      by (auto simp: snapshot_one_def anchor_spec_def resolveCatchupAnchor_def GetTaskRegistration_def
          split: if_splits option.splits)
  next
    case True
    with none en obtain b where e: "e = Some b" by auto
    have "map_of (registrations st1) (Name task) = (case registration st (Name task) of
        None \<Rightarrow> Some (new_registration now (if StartsPaused task then Some now else None)) | Some r \<Rightarrow> Some r)"
      using reg [of "Name task"] True en by (auto simp: registration_def split: option.split)
    with assms en e True show ?thesis
      by (auto simp: snapshot_one_def anchor_spec_def resolveCatchupAnchor_def GetTaskRegistration_def
          later_of_max update_conv' new_registration_def
          split: if_splits option.splits)
  qed
qed

lemma anchor_spec_cong:
  "registration st (Name t) = registration st' (Name t) \<Longrightarrow> anchor_spec down now t st = anchor_spec down now t st'"
  by (simp add: anchor_spec_def)

lemma snapshot_fold:
  assumes "tasks_named ts" and "fold (snapshot_one down now) (map snd ts) (anchors, errs, st) = (anchors', errs', st')"
    and "\<And>k. k \<in> fst ` set ts \<Longrightarrow> map_of anchors k = None"
  shows "map_of anchors' k =
      (case map_of ts k of
         Some t \<Rightarrow> if Schedulable t then anchor_spec down now t st else None
       | None \<Rightarrow> map_of anchors k) \<and> errs \<le> errs'"
  using assms
proof (induction ts arbitrary: anchors errs st)
  case (Cons p ts)
  obtain j t where p: "p = (j, t)" by fastforce
  have t: "Name t = j" "tasks_named ts" "j \<notin> fst ` set ts"
    using Cons.prems(1) by (auto simp: tasks_named_def p)
  obtain a1 e1 st1 where one: "snapshot_one down now t (anchors, errs, st) = (a1, e1, st1)" by (metis prod_cases3)
  note step = snapshot_one_anchor [OF one]
  have rest: "fold (snapshot_one down now) (map snd ts) (a1, e1, st1) = (anchors', errs', st')"
    using Cons.prems(2) one by (simp add: p)
  have free: "map_of a1 i = None" if "i \<in> fst ` set ts" for i
  proof -
    have "i \<noteq> Name t" using that t(1,3) by metis
    with step(1) [of i] Cons.prems(3) [of i] that show ?thesis by (simp add: p)
  qed
  from Cons.IH [OF t(2) rest free]
  have IH: "map_of anchors' k = (case map_of ts k of
      Some t \<Rightarrow> if Schedulable t then anchor_spec down now t st1 else None | None \<Rightarrow> map_of a1 k) \<and> e1 \<le> errs'" .
  have same: "anchor_spec down now u st1 = anchor_spec down now u st" if "map_of ts k = Some u" for u
  proof (rule anchor_spec_cong)
    have "Name u = k" "k \<in> fst ` set ts" using tasks_namedD [OF t(2) that] that
      by (auto dest: map_of_SomeD intro: rev_image_eqI)
    with t(1,3) have "Name u \<noteq> Name t" by metis
    with step(2) \<open>Name u = k\<close> show "registration st1 (Name u) = registration st (Name u)" by simp
  qed
  show ?case
  proof (cases "k = j")
    case True
    with t(3) have "map_of ts k = None" by (simp add: map_of_eq_None_iff)
    moreover have "map_of anchors k = None" using Cons.prems(3) [of j] True by (simp add: p)
    ultimately show ?thesis using IH step(1) [of k] step(3) True t(1) by (auto simp: p)
  next
    case False
    with IH same step(1) [of k] step(3) t(1) show ?thesis by (auto simp: p split: option.split)
  qed
qed simp

section \<open>Theorems\<close>

text \<open>C5. Catch-up agrees with a scheduler that starts afresh. Take an unpaused task with an entry in
  a scheduler that remembers no earlier fire of it, as after a boot, which is when catch-up runs, and
  the ticks this scheduler would start runs at between the anchor and now: DST repeats excluded, in
  the entry's own schedule and zone. If there are none, catch-up does nothing. Otherwise it records
  exactly one missed run, at the last of these ticks, or at now when there are more of them than
  both \<open>catch_up\<close> and the display floor, and then re-fires as many of them as \<open>catch_up\<close> allows. The
  hypothesis on \<open>firedTicks\<close> matters: a scheduler that remembers a fire before the anchor also
  suppresses that fire's DST repeat, which catch-up counts (lemma \<open>recount_after_record\<close>).\<close>
theorem catchup_agrees_with_scheduler:
  assumes "want lib (location s) task = Some e" and "0 \<le> CatchUpValue task"
    and "map_of (paused s) (Name task) = None" and "map_of (firedTicks s) (Name task) = None"
    and "ls = started_ticks lib (Name task) (e_loc e) (sched_fixed (e_schedule e))
      (ticks_until (sched_next (e_schedule e) (e_loc e)) now anchor) s"
  shows "\<exists>reason. snd (catchupOneTask lib rt task now (Some (location s)) anchor d) =
    (if ls = [] then d
     else (cron_trigger rt (Name task) ^^ min (nat (CatchUpValue task)) (length ls))
       (snd (rt_RecordMissedRun rt (Name task)
          (if int (length ls) > max (CatchUpValue task) catchupCountDisplayFloor then now else last ls)
          reason d)))"
proof -
  have "remembered s (Name task) = no_fired" using assms(4) by (simp add: remembered_def)
  with started_ticks_live [OF assms(3)] assms(5)
  have ls: "ls = live_ticks (sched_fixed (e_schedule e)) (wallClock lib (e_loc e)) no_fired
      (ticks_until (sched_next (e_schedule e) (e_loc e)) now anchor)" by simp
  from catchupOneTask_effect [OF catchupSchedule_want [OF assms(1)] assms(2) ls] show ?thesis .
qed

text \<open>A provider that logs what it is asked, for the witness.\<close>

definition call_log :: "(string \<times> instant option) list RunTrigger" where
  "call_log =
     \<lparr>rt_TriggerRunWithOptions = (\<lambda>k opts d. (None, d @ [(k, None)])),
      rt_ScheduleJitteredRun = (\<lambda>k tick sl w d. d),
      rt_RecordSkippedFiring = (\<lambda>k reason b d. (None, d)),
      rt_RecordMissedRun = (\<lambda>k at msg d. (None, d @ [(k, Some at)]))\<rparr>"

lemma example_parse:
  "parse_schedule example_lib ''30 * * * *'' = Some (schedule_of example_lib (SpecSched (example_spec None)))"
proof -
  have "wrappedDowRanges ''30 * * * *'' = ''30 * * * *''" by code_simp
  then show ?thesis by (simp add: parse_schedule_def Parse_def example_lib_def neverFires_def example_spec_def)
qed

lemma catchup_agrees_with_scheduler_witness:
  "snd (catchupOneTask example_lib call_log (cron_task ''a''\<lparr>CatchUp := Some 2\<rparr>) (5 * hour)
      (Some (location (fst cron_boot))) (2 * hour) [])
    = [(''a'', Some (270 * minute)), (''a'', None), (''a'', None)]"
proof -
  let ?t = "cron_task ''a''\<lparr>CatchUp := Some 2\<rparr>"
  let ?sched = "schedule_of example_lib (SpecSched (example_spec None))"
  have loc: "location (fst cron_boot) = UTC" by code_simp
  have w: "want example_lib (location (fst cron_boot)) ?t
      = Some \<lparr>e_task = ''a'', e_schedule = ?sched, e_loc = UTC\<rparr>"
    by (simp add: want_def loc Resolve_spec_def cron_task_def example_task_def example_parse)
  have c: "0 \<le> CatchUpValue ?t" "CatchUpValue ?t = 2" by (simp_all add: CatchUpValue_def)
  have p: "map_of (paused (fst cron_boot)) (Name ?t) = None"
    "map_of (firedTicks (fst cron_boot)) (Name ?t) = None" by code_simp+
  have ls: "started_ticks example_lib ''a'' UTC False
      (ticks_until (sched_next ?sched UTC) (5 * hour) (2 * hour)) (fst cron_boot)
      = [150 * minute, 210 * minute, 270 * minute]" by code_simp
  have fx: "sched_fixed ?sched = False" by (simp add: schedule_of_def IsFixedInterval_def)
  have n: "Name ?t = ''a''" by (simp add: cron_task_def)
  have log: "cron_trigger call_log k d = d @ [(k, None)]"
    "snd (rt_RecordMissedRun call_log k at r d) = d @ [(k, Some at)]" for k at r d
    by (simp_all add: cron_trigger_def call_log_def)
  from catchup_agrees_with_scheduler [where now = "5 * hour" and anchor = "2 * hour" and rt = call_log
      and d = "[]", OF w c(1) p refl]
  show ?thesis
    by (auto simp: n fx ls c(2) log numeral_2_eq_2 catchupCountDisplayFloor_def)
qed

text \<open>Counting once more from the recorded tick. When a gap was counted completely and its last
  tick recorded as the next anchor, counting again up to the same instant finds nothing if and only
  if the walk had no tick after it. A tick that the first count passed over as a DST repeat is
  therefore counted, and alerted on, as missed the second time.\<close>
lemma recount_after_record:
  assumes "0 < maxCount" and "0 < maxCount'"
    and "countMissedTicks nxt wall fx anchor now maxCount = (n, lastTick, False)" and "n \<noteq> 0"
  shows "fst (countMissedTicks nxt wall fx lastTick now maxCount') = 0 \<longleftrightarrow>
    (\<forall>t\<in>set (ticks_until nxt now anchor). t \<le> lastTick)"
proof -
  let ?ts = "ticks_until nxt now anchor"
  have ne: "live_ticks fx wall no_fired ?ts \<noteq> []"
    and l: "lastTick = last (live_ticks fx wall no_fired ?ts)"
    using countMissedTicks_eq [OF assms(1), of nxt wall fx anchor now] assms(3,4)
    by (auto simp: Let_def split: if_splits)
  then have "lastTick \<in> set ?ts" using live_ticks_subset [of fx wall no_fired ?ts] by auto
  note resume = ticks_until_resume [OF this]
  have "fst (countMissedTicks nxt wall fx lastTick now maxCount') = 0
      \<longleftrightarrow> live_ticks fx wall no_fired (ticks_until nxt now lastTick) = []"
    using countMissedTicks_eq [OF assms(2), of nxt wall fx lastTick now] assms(2) by (auto simp: Let_def)
  also have "\<dots> \<longleftrightarrow> ticks_until nxt now lastTick = []"
    using live_ticks_first by fastforce
  also have "\<dots> \<longleftrightarrow> (\<forall>t\<in>set ?ts. t \<le> lastTick)"
    by (auto simp: resume filter_empty_conv)
  finally show ?thesis .
qed

text \<open>The hour the example zone repeats: three ticks are missed, the repeat of the last is passed over,
  and a second count from the recorded tick finds the repeat.\<close>
lemma recount_after_record_witness:
  "\<exists>nxt wall. countMissedTicks nxt wall False (197 * hour) (200 * hour + 40 * minute) 1001
      = (3, 199 * hour + 30 * minute, False)
    \<and> fst (countMissedTicks nxt wall False (199 * hour + 30 * minute) (200 * hour + 40 * minute) 1001) \<noteq> 0"
proof (intro exI conjI)
  let ?nxt = "sched_next (schedule_of example_lib (SpecSched (example_spec None))) Local"
  let ?wall = "wallClock example_lib Local"
  have pos: "(0::int) < 1001" by simp
  show c: "countMissedTicks ?nxt ?wall False (197 * hour) (200 * hour + 40 * minute) 1001
      = (3, 199 * hour + 30 * minute, False)" by code_simp
  have "200 * hour + 30 * minute \<in> set (ticks_until ?nxt (200 * hour + 40 * minute) (197 * hour))"
    by code_simp
  moreover have "\<not> 200 * hour + 30 * minute \<le> 199 * hour + 30 * minute"
    by (simp add: time_defs)
  ultimately show "fst (countMissedTicks ?nxt ?wall False (199 * hour + 30 * minute)
      (200 * hour + 40 * minute) 1001) \<noteq> 0"
    using recount_after_record [OF pos pos c] by auto
qed

text \<open>The snapshot of anchors isolates failures. Whatever queries fail, the anchor of a task
  depends on its own registration and its own queries only: a schedulable task whose queries
  succeed anchors at the latest of its first sighting, its last run and its last resume, a task
  seen for the first time at now, a paused one not at all, and no other task gets one.\<close>
lemma snapshot_anchors:
  assumes "tasks_named ts"
  shows "map_of (fst (SnapshotCatchupAnchors down ts now st)) k =
    (case map_of ts k of
       None \<Rightarrow> None
     | Some t \<Rightarrow> if Schedulable t then anchor_spec down now t st else None)"
proof -
  obtain ok st1 where f: "ForgetTaskRegistrationsExcept down (map fst ts) st = (ok, st1)" by fastforce
  obtain a er st2 where r: "fold (snapshot_one down now) (map snd ts) ([], if ok then 0 else 1, st1) = (a, er, st2)"
    by (metis prod_cases3)
  have "anchor_spec down now t st1 = anchor_spec down now t st" if "map_of ts k = Some t" for t
  proof (rule anchor_spec_cong)
    have "Name t \<in> set (map fst ts)"
      using that tasks_namedD [OF assms that] by (auto dest: map_of_SomeD intro: rev_image_eqI)
    with registration_Forget [of down "map fst ts" st "Name t"] f
    show "registration st1 (Name t) = registration st (Name t)" by simp
  qed
  with snapshot_fold [OF assms r, of k] f r show ?thesis
    by (auto simp: SnapshotCatchupAnchors_def split: option.split)
qed

text \<open>One task's query fails, the other's first sighting is its anchor.\<close>
lemma snapshot_anchors_witness:
  "map_of (fst (SnapshotCatchupAnchors (\<lambda>q. q = QGet ''a'') cron_tasks 7 empty_store)) ''b'' = Some 7
   \<and> map_of (fst (SnapshotCatchupAnchors (\<lambda>q. q = QGet ''a'') cron_tasks 7 empty_store)) ''a'' = None"
  unfolding snapshot_anchors [OF cron_tasks_named] by code_simp

end
