(* ===== verification/Startup.thy ===== *)
theory Startup
  imports Catchup
begin

text \<open>
  The run-on-start firings at daemon boot (\<open>runtime/runonstart.go\<close>), in name order, and the record
  of the machine boot that keeps a \<open>boot\<close> task to one run per boot.
\<close>

record RunOnStartResult =
  ro_Triggered :: nat
  ro_Errors :: nat

definition alreadyRanThisBoot :: "faults \<Rightarrow> string \<Rightarrow> string \<Rightarrow> store \<Rightarrow> bool" where
  "alreadyRanThisBoot down name bootID st =
     (case GetTaskBootID down name st of None \<Rightarrow> False | Some lst \<Rightarrow> lst = bootID)"

definition skipStartupRun ::
  "faults \<Rightarrow> string \<Rightarrow> string \<Rightarrow> bool \<Rightarrow> (string \<Rightarrow> bool) option \<Rightarrow> store \<Rightarrow> bool" where
  "skipStartupRun down name bootID perBoot paused_fn st =
     (if (case paused_fn of None \<Rightarrow> False | Some f \<Rightarrow> f name) then True
      else perBoot \<and> alreadyRanThisBoot down name bootID st)"

definition recordBoot :: "faults \<Rightarrow> string \<Rightarrow> string \<Rightarrow> store \<Rightarrow> store" where
  "recordBoot down name bootID st = snd (SetTaskBootID down name bootID st)"

definition startup_options :: TriggerRunOptions where
  "startup_options = no_options\<lparr>o_TriggeredBy := Some TriggeredByStartup\<rparr>"

definition perBoot_task :: "string \<Rightarrow> Task \<Rightarrow> bool" where
  "perBoot_task bootID task \<longleftrightarrow> RunOnStartModeOf task = RunOnStartBoot \<and> bootID \<noteq> []"

definition startup_one ::
  "(string \<times> Task) list \<Rightarrow> 'd RunTrigger \<Rightarrow> faults \<Rightarrow> string \<Rightarrow> (string \<Rightarrow> bool) option \<Rightarrow> string
     \<Rightarrow> RunOnStartResult \<times> 'd \<times> store \<Rightarrow> RunOnStartResult \<times> 'd \<times> store" where
  "startup_one ts rt down bootID paused_fn name acc =
     (case acc of (result, d, st) \<Rightarrow>
       (case map_of ts name of
          None \<Rightarrow> acc
        | Some task \<Rightarrow>
            if \<not> RunOnStart task \<or> IsService (TKind task) \<or> Held task then acc
            else let perBoot = perBoot_task bootID task in
              if skipStartupRun down name bootID perBoot paused_fn st then acc
              else (case rt_TriggerRunWithOptions rt name startup_options d of
                  (Some _, d') \<Rightarrow> (result\<lparr>ro_Errors := Suc (ro_Errors result)\<rparr>, d', st)
                | (None, d') \<Rightarrow> (result\<lparr>ro_Triggered := Suc (ro_Triggered result)\<rparr>, d',
                    if perBoot then recordBoot down name bootID st else st))))"

definition RunStartupTasks ::
  "(string \<times> Task) list \<Rightarrow> 'd RunTrigger \<Rightarrow> faults \<Rightarrow> string \<Rightarrow> (string \<Rightarrow> bool) option
     \<Rightarrow> 'd \<times> store \<Rightarrow> RunOnStartResult \<times> 'd \<times> store" where
  "RunStartupTasks ts rt down bootID paused_fn dst =
     fold (startup_one ts rt down bootID paused_fn) (sort (map fst ts))
       (\<lparr>ro_Triggered = 0, ro_Errors = 0\<rparr>, dst)"

section \<open>Which tasks fire\<close>

definition startup_due ::
  "(string \<times> Task) list \<Rightarrow> faults \<Rightarrow> string \<Rightarrow> (string \<Rightarrow> bool) option \<Rightarrow> store \<Rightarrow> string \<Rightarrow> bool" where
  "startup_due ts down bootID paused_fn st k \<longleftrightarrow>
     (case map_of ts k of
        None \<Rightarrow> False
      | Some task \<Rightarrow> RunOnStart task \<and> \<not> IsService (TKind task) \<and> \<not> Held task
          \<and> \<not> skipStartupRun down k bootID (perBoot_task bootID task) paused_fn st)"

definition startup_trigger :: "'d RunTrigger \<Rightarrow> string \<Rightarrow> 'd \<Rightarrow> 'd" where
  "startup_trigger rt k d = snd (rt_TriggerRunWithOptions rt k startup_options d)"

context run_trigger begin

lemma startup_one_inv:
  "inv (fst (snd acc)) \<Longrightarrow> inv (fst (snd (startup_one ts rt down bootID pf k acc)))"
proof -
  assume a: "inv (fst (snd acc))"
  obtain r d st where acc: "acc = (r, d, st)" by (metis prod_cases3)
  have "inv (snd (rt_TriggerRunWithOptions rt k startup_options d))"
    using a by (simp add: acc trigger_inv startup_options_def no_options_def)
  with a show ?thesis
    by (cases "rt_TriggerRunWithOptions rt k startup_options d")
      (auto simp: acc startup_one_def Let_def split: option.split)
qed

lemma RunStartupTasks_inv:
  "inv d \<Longrightarrow> inv (fst (snd (RunStartupTasks ts rt down bootID pf (d, st))))"
proof -
  have "inv (fst (snd acc)) \<Longrightarrow> inv (fst (snd (fold (startup_one ts rt down bootID pf) ks acc)))" for ks acc
    by (induction ks arbitrary: acc) (simp_all add: startup_one_inv)
  then show "inv d \<Longrightarrow> ?thesis" by (simp add: RunStartupTasks_def)
qed

end

lemma startup_keeps_daemon_inv:
  "daemon_inv d \<Longrightarrow> daemon_inv (fst (snd (RunStartupTasks ts manager_trigger down bootID pf (d, st))))"
  by (rule daemon_trigger.RunStartupTasks_inv)

text \<open>The boot a task is recorded with matters to that task only.\<close>

definition boot_of :: "store \<Rightarrow> string \<Rightarrow> string" where
  "boot_of st k = OrDefault (map_of (boot_ids st) k) []"

lemma startup_due_cong:
  "boot_of st k = boot_of st' k \<Longrightarrow> startup_due ts down b pf st k = startup_due ts down b pf st' k"
  by (simp add: startup_due_def skipStartupRun_def alreadyRanThisBoot_def GetTaskBootID_def boot_of_def
      cong: option.case_cong)

lemma startup_one_eq:
  assumes "startup_one ts rt down b pf k (r, d, st) = (r', d', st')"
  shows "d' = (if startup_due ts down b pf st k then startup_trigger rt k d else d)"
    and "j \<noteq> k \<Longrightarrow> boot_of st' j = boot_of st j"
    and "startup_due ts down b pf st k \<Longrightarrow> fst (rt_TriggerRunWithOptions rt k startup_options d) = None \<Longrightarrow>
      map_of ts k = Some task \<Longrightarrow> perBoot_task b task \<Longrightarrow> \<not> down (QSetBoot k) \<Longrightarrow> boot_of st' k = b"
  using assms
  by (auto simp: startup_one_def startup_due_def startup_trigger_def boot_of_def recordBoot_def
      SetTaskBootID_def update_conv' Let_def split: option.splits if_splits prod.splits)

lemma startup_fold:
  assumes "distinct ks" "fold (startup_one ts rt down b pf) ks (r, d, st) = (r', d', st')"
  shows "d' = fold (startup_trigger rt) (filter (startup_due ts down b pf st) ks) d"
    and "j \<notin> set ks \<Longrightarrow> boot_of st' j = boot_of st j"
    and "k \<in> set ks \<Longrightarrow> startup_due ts down b pf st k \<Longrightarrow>
      (\<And>d. fst (rt_TriggerRunWithOptions rt k startup_options d) = None) \<Longrightarrow>
      map_of ts k = Some task \<Longrightarrow> perBoot_task b task \<Longrightarrow> \<not> down (QSetBoot k) \<Longrightarrow> boot_of st' k = b"
proof -
  have "d' = fold (startup_trigger rt) (filter (startup_due ts down b pf st) ks) d \<and>
    (\<forall>j. j \<notin> set ks \<longrightarrow> boot_of st' j = boot_of st j) \<and>
    (k \<in> set ks \<longrightarrow> startup_due ts down b pf st k \<longrightarrow>
      (\<forall>d. fst (rt_TriggerRunWithOptions rt k startup_options d) = None) \<longrightarrow>
      map_of ts k = Some task \<longrightarrow> perBoot_task b task \<longrightarrow> \<not> down (QSetBoot k) \<longrightarrow> boot_of st' k = b)"
    using assms
  proof (induction ks arbitrary: r d st)
    case (Cons i ks)
    obtain r1 d1 st1 where one: "startup_one ts rt down b pf i (r, d, st) = (r1, d1, st1)" by (metis prod_cases3)
    note step = startup_one_eq [OF one]
    have i: "i \<notin> set ks" "distinct ks" using Cons.prems(1) by simp_all
    have rest: "fold (startup_one ts rt down b pf) ks (r1, d1, st1) = (r', d', st')"
      using Cons.prems(2) one by simp
    have due: "startup_due ts down b pf st1 j = startup_due ts down b pf st j" if "j \<in> set ks" for j
      using step(2) [of j] that i(1) by (intro startup_due_cong) auto
    then have f: "filter (startup_due ts down b pf st1) ks = filter (startup_due ts down b pf st) ks"
      by (rule filter_cong [OF refl])
    note IH = Cons.IH [OF i(2) rest]
    have "boot_of st' k = b" if "k \<in> set (i # ks)" "startup_due ts down b pf st k"
      "\<forall>d. fst (rt_TriggerRunWithOptions rt k startup_options d) = None"
      "map_of ts k = Some task" "perBoot_task b task" "\<not> down (QSetBoot k)"
    proof (cases "k = i")
      case True
      with step(3) that IH i(1) show ?thesis by auto
    next
      case False
      with that due IH show ?thesis by auto
    qed
    moreover have "boot_of st' j = boot_of st j" if "j \<notin> set (i # ks)" for j
      using IH step(2) [of j] that by auto
    ultimately show ?case using IH step(1) f by auto
  qed simp
  then show "d' = fold (startup_trigger rt) (filter (startup_due ts down b pf st) ks) d"
    "j \<notin> set ks \<Longrightarrow> boot_of st' j = boot_of st j"
    "k \<in> set ks \<Longrightarrow> startup_due ts down b pf st k \<Longrightarrow>
      (\<And>d. fst (rt_TriggerRunWithOptions rt k startup_options d) = None) \<Longrightarrow>
      map_of ts k = Some task \<Longrightarrow> perBoot_task b task \<Longrightarrow> \<not> down (QSetBoot k) \<Longrightarrow> boot_of st' k = b"
    by auto
qed

text \<open>A boot task runs once per boot of the machine. A daemon start triggers exactly the due
  tasks, in name order. When a task with \<open>run_on_start = "boot"\<close> was due and its trigger and its
  record went through, it is not due at any later start in the same boot while the record can be
  read, and it is due again at a start in another boot unless its schedule is paused by then.\<close>
lemma boot_task_once_per_boot:
  assumes "distinct (map fst ts)" and "map_of ts k = Some task"
    and "RunOnStartModeOf task = RunOnStartBoot" and "b \<noteq> []"
    and "startup_due ts down b pf st k"
    and "\<And>d. fst (rt_TriggerRunWithOptions rt k startup_options d) = None" and "\<not> down (QSetBoot k)"
    and "RunStartupTasks ts rt down b pf (d, st) = (r, d', st')"
  shows "d' = fold (startup_trigger rt) (filter (startup_due ts down b pf st) (sort (map fst ts))) d
    \<and> (\<not> down' (QGetBoot k) \<longrightarrow> \<not> startup_due ts down' b pf' st' k)
    \<and> (b' \<noteq> b \<longrightarrow> \<not> (case pf' of None \<Rightarrow> False | Some f \<Rightarrow> f k) \<longrightarrow> startup_due ts down' b' pf' st' k)"
proof -
  have dist: "distinct (sort (map fst ts))" using assms(1) by simp
  note fold = startup_fold [OF dist assms(8) [unfolded RunStartupTasks_def]]
  have "k \<in> set (sort (map fst ts))" using assms(2) by (auto dest: map_of_SomeD intro: rev_image_eqI)
  from fold(3) [OF this assms(5,6,2) _ assms(7)] assms(3,4)
  have b: "boot_of st' k = b" by (simp add: perBoot_task_def)
  have e: "RunOnStart task" "\<not> IsService (TKind task)" "\<not> Held task"
    using assms(2,5) by (simp_all add: startup_due_def)
  have "\<not> startup_due ts down' b pf' st' k" if "\<not> down' (QGetBoot k)"
    using that b assms(2-4)
    by (simp add: startup_due_def skipStartupRun_def alreadyRanThisBoot_def GetTaskBootID_def
        boot_of_def perBoot_task_def)
  moreover have "startup_due ts down' b' pf' st' k" if "b' \<noteq> b" "\<not> (case pf' of None \<Rightarrow> False | Some f \<Rightarrow> f k)"
    using that b assms(2) e
    by (auto simp: startup_due_def skipStartupRun_def alreadyRanThisBoot_def GetTaskBootID_def boot_of_def)
  ultimately show ?thesis using fold(1) by blast
qed

definition boot_tasks :: "(string \<times> Task) list" where
  "boot_tasks = [(''r'', example_task\<lparr>Name := ''r'', RunOnStart := True, RunOnStartModeOf := RunOnStartBoot\<rparr>)]"

lemma boot_task_once_per_boot_witness:
  "\<exists>st'. RunStartupTasks boot_tasks call_log (\<lambda>_. False) ''boot1'' None ([], empty_store)
      = (\<lparr>ro_Triggered = 1, ro_Errors = 0\<rparr>, [(''r'', None)], st')
    \<and> \<not> startup_due boot_tasks (\<lambda>_. False) ''boot1'' None st' ''r''
    \<and> startup_due boot_tasks (\<lambda>_. False) ''boot2'' None st' ''r''"
proof -
  let ?r = "RunStartupTasks boot_tasks call_log (\<lambda>_. False) ''boot1'' None ([], empty_store)"
  have r: "?r = (\<lparr>ro_Triggered = 1, ro_Errors = 0\<rparr>, [(''r'', None)], snd (snd ?r))" by code_simp
  have due: "startup_due boot_tasks (\<lambda>_. False) ''boot1'' None empty_store ''r''" by code_simp
  have t: "distinct (map fst boot_tasks)" "RunOnStartModeOf (snd (hd boot_tasks)) = RunOnStartBoot"
    "map_of boot_tasks ''r'' = Some (snd (hd boot_tasks))" by (simp_all add: boot_tasks_def)
  have ok: "fst (rt_TriggerRunWithOptions call_log ''r'' startup_options d) = None" for d
    by (simp add: call_log_def)
  have ne: "''boot1'' \<noteq> ([]::string)" by simp
  have s: "\<not> (\<lambda>_::query. False) (QSetBoot ''r'')" by simp
  note once = boot_task_once_per_boot [OF t(1,3,2) ne due ok s r, where pf' = None and down' = "\<lambda>_. False"
      and b' = "''boot2''"]
  show ?thesis
    by (intro exI [of _ "snd (snd ?r)"] conjI r) (use once in simp_all)
qed

end
