(* ===== verification/Cron_Holds.thy ===== *)
theory Cron_Holds
  imports Startup
begin

text \<open>
  Which crontab jobs RunWisp stands down for: the probe for a live system cron
  (\<open>cronprobe/cronprobe.go\<close>), the paths cron and anacron read (\<open>importer/cronpaths.go\<close>,
  \<open>importer/anacron.go\<close>), the marking of held tasks (\<open>config/include.go\<close>) and the watcher that
  re-asks every minute (\<open>runtime/cronhold.go\<close>). What systemctl and the pid files answer are
  parameters of the probe.
\<close>

section \<open>Paths\<close>

text \<open>\<open>filepath.Clean\<close> and \<open>filepath.Dir\<close> on Unix.\<close>

definition clean_part :: "bool \<Rightarrow> string \<Rightarrow> string list \<Rightarrow> string list" where
  "clean_part rooted part out =
     (if part = [] \<or> part = ''.'' then out
      else if part = ''..''
      then (if out \<noteq> [] \<and> hd out \<noteq> ''..'' then tl out
            else if rooted then out else ''..'' # out)
      else part # out)"

definition Clean :: "string \<Rightarrow> string" where
  "Clean path =
     (let rooted = (path \<noteq> [] \<and> hd path = CHR ''/'');
          out = rev (fold (clean_part rooted) (Split (CHR ''/'') path) [])
      in if rooted then CHR ''/'' # Join ''/'' out
         else if out = [] then ''.'' else Join ''/'' out)"

definition Dir :: "string \<Rightarrow> string" where
  "Dir path = Clean (rev (dropWhile (\<lambda>c. c \<noteq> CHR ''/'') (rev path)))"

definition SystemCrontabPath :: string where "SystemCrontabPath = ''/etc/crontab''"
definition AnacrontabPath :: string where "AnacrontabPath = ''/etc/anacrontab''"

definition UserSpoolDirs :: "string list" where
  "UserSpoolDirs =
     [''/var/spool/cron/crontabs'', ''/var/spool/cron'', ''/var/spool/cron/tabs'',
      ''/usr/lib/cron/tabs'', ''/var/at/tabs'']"

definition IsSystemCrontabPath :: "string \<Rightarrow> bool" where
  "IsSystemCrontabPath path =
     (if path = [] \<or> path = ''-'' then False
      else Clean path = SystemCrontabPath \<or> ''cron.d'' \<in> set (Split (CHR ''/'') (Clean path)))"

definition IsSpoolCrontabDir :: "string \<Rightarrow> bool" where
  "IsSpoolCrontabDir dir \<longleftrightarrow> Clean dir \<in> set UserSpoolDirs"

definition CronOwnsPath :: "string \<Rightarrow> bool" where
  "CronOwnsPath path =
     (if path = [] \<or> path = ''-'' then False
      else IsSystemCrontabPath (Clean path) \<or> IsSpoolCrontabDir (Dir (Clean path)))"

definition AnacronOwnsPath :: "string \<Rightarrow> bool" where
  "AnacronOwnsPath path \<longleftrightarrow> path \<noteq> [] \<and> Clean path = AnacrontabPath"

section \<open>The probe\<close>

record cronState =
  Live :: bool
  StateText :: string
  AnacronLive :: bool
  AnacronState :: string

definition no_cron :: cronState where
  "no_cron = \<lparr>Live = False, StateText = [], AnacronLive = False, AnacronState = []\<rparr>"

definition CronUnits :: "string list" where
  "CronUnits = [''cron.service'', ''crond.service'', ''cronie.service'']"

definition AnacronUnits :: "string list" where
  "AnacronUnits = [''anacron.timer'', ''anacron.service'']"

text \<open>\<open>ServiceProbe\<close> answers active and enabled, \<open>None\<close> when it could not run.\<close>

definition serviceState :: "(string list \<Rightarrow> (bool \<times> bool) option) \<Rightarrow> string list \<Rightarrow> cronState option" where
  "serviceState probe units =
     (case probe units of
        None \<Rightarrow> None
      | Some (act, enabled) \<Rightarrow>
          if act then Some (no_cron\<lparr>Live := True, StateText := ''is running''\<rparr>)
          else if enabled
          then Some (no_cron\<lparr>Live := True, StateText := ''is enabled and will start on the next boot''\<rparr>)
          else Some no_cron)"

definition Probe :: "(string list \<Rightarrow> (bool \<times> bool) option) \<Rightarrow> bool \<Rightarrow> cronState" where
  "Probe probe pidRunning =
     (case serviceState probe CronUnits of
        None \<Rightarrow>
          let cron = (if pidRunning
                then no_cron\<lparr>Live := True,
                       StateText := ''looks like it's running (a live pidfile was found)''\<rparr>
                else no_cron)
          in cron\<lparr>AnacronLive := Live cron, AnacronState := StateText cron\<rparr>
      | Some cron \<Rightarrow>
          (case serviceState probe AnacronUnits of
             None \<Rightarrow> cron
           | Some anacron \<Rightarrow>
               if Live anacron
               then cron\<lparr>AnacronLive := True, AnacronState := ''(anacron) '' @ StateText anacron\<rparr>
               else cron))"

section \<open>The configuration and its holds\<close>

text \<open>The parts of a loaded configuration that a reload and the hold watcher read. The daemon block
  is split into the keys only a restart applies and the ones a reload applies live.\<close>

record restartKeys =
  AllowStationDispatch :: bool
  MetricsEnabled :: bool
  MetricsListen :: string
  TLS :: string
  TLSCert :: string
  TLSKey :: string

record DaemonConfig =
  d_Name :: string
  ShutdownTimeout :: duration
  ExternalURL :: string
  CheckUpdates :: bool
  HeartbeatURL :: string
  LogOutput :: bool
  TrustedProxies :: "string list"
  APITokens :: "string list"
  ViewerAPITokens :: "string list"
  d_restart :: restartKeys

datatype TimezoneSource = TimezoneSourceConfig | TimezoneSourceSystem

record Config =
  cf_Tasks :: "Task list"
  cf_Daemon :: DaemonConfig
  cf_Timezone :: string
  cf_Source :: TimezoneSource
  cf_cronFiles :: "string list"
  cf_cronDaemon :: cronState

definition heldByLiveCron :: "cronState \<Rightarrow> string \<Rightarrow> bool" where
  "heldByLiveCron state file \<longleftrightarrow>
     Live state \<and> CronOwnsPath file \<or> AnacronLive state \<and> AnacronOwnsPath file"

definition wantedHold :: "cronState \<Rightarrow> Task \<Rightarrow> HoldReason" where
  "wantedHold state task =
     (if Source task = SourceCron \<and> heldByLiveCron state (SourceFile task) then HeldByCron
      else HeldByNothing)"

definition mark_task :: "cronState \<Rightarrow> Task \<Rightarrow> Task" where
  "mark_task state task =
     (if HeldBy task \<noteq> wantedHold state task then task\<lparr>HeldBy := wantedHold state task\<rparr> else task)"

definition markCronHold :: "Config \<Rightarrow> Config \<times> string list" where
  "markCronHold cfg =
     (cfg\<lparr>cf_Tasks := map (mark_task (cf_cronDaemon cfg)) (cf_Tasks cfg)\<rparr>,
      map Name (filter (\<lambda>t. HeldBy t \<noteq> wantedHold (cf_cronDaemon cfg) t) (cf_Tasks cfg)))"

definition WithCronHold :: "Config \<Rightarrow> cronState \<Rightarrow> Config \<times> string list" where
  "WithCronHold cfg state =
     (case markCronHold (cfg\<lparr>cf_cronDaemon := state\<rparr>) of (updated, changed) \<Rightarrow>
        if changed = [] then (cfg, []) else (updated, changed))"

definition CronHold :: "Config \<Rightarrow> cronState \<times> bool" where
  "CronHold cfg = (cf_cronDaemon cfg, cf_cronFiles cfg \<noteq> [])"

record HeldSummary =
  hs_Tasks :: "string list"
  hs_CronState :: string

definition Held_summary :: "Config \<Rightarrow> HeldSummary" where
  "Held_summary cfg =
     (let names = map Name (filter (\<lambda>t. HeldBy t = HeldByCron) (cf_Tasks cfg));
          st = cf_cronDaemon cfg
      in if \<not> Live st \<and> \<not> AnacronLive st \<or> names = [] then \<lparr>hs_Tasks = [], hs_CronState = []\<rparr>
         else \<lparr>hs_Tasks = names, hs_CronState = (if Live st then StateText st else AnacronState st)\<rparr>)"

section \<open>The watcher\<close>

text \<open>One tick: the answer \<open>state\<close> of the probe, the last answer, and the refresh to run on \<open>x\<close>.\<close>

definition watcher_tick ::
  "(cronState \<Rightarrow> 'x \<Rightarrow> 'x) \<Rightarrow> cronState \<Rightarrow> cronState \<times> 'x \<Rightarrow> cronState \<times> 'x" where
  "watcher_tick refresh state wx =
     (case wx of (lst, x) \<Rightarrow> if Live state = Live lst then (lst, x) else (state, refresh state x))"

section \<open>Properties\<close>

text \<open>The holds are right for an answer of the probe when every task has the hold that answer
  wants.\<close>

definition holds_right :: "cronState \<Rightarrow> Config \<Rightarrow> bool" where
  "holds_right state cfg \<longleftrightarrow> (\<forall>t\<in>set (cf_Tasks cfg). HeldBy t = wantedHold state t)"

lemma mark_task_simps [simp]:
  "Name (mark_task st t) = Name t" "Source (mark_task st t) = Source t"
  "SourceFile (mark_task st t) = SourceFile t" "HeldBy (mark_task st t) = wantedHold st t"
  "TKind (mark_task st t) = TKind t" "Cron (mark_task st t) = Cron t" "Timezone (mark_task st t) = Timezone t"
  by (simp_all add: mark_task_def)

lemma wantedHold_mark [simp]: "wantedHold st' (mark_task st t) = wantedHold st' t"
  by (simp add: wantedHold_def)

lemma mark_task_same [simp]: "HeldBy t = wantedHold st t \<Longrightarrow> mark_task st t = t"
  by (simp add: mark_task_def)

lemma WithCronHold_cases:
  "WithCronHold cfg st =
     (if holds_right st cfg then (cfg, [])
      else (cfg\<lparr>cf_cronDaemon := st, cf_Tasks := map (mark_task st) (cf_Tasks cfg)\<rparr>,
        map Name (filter (\<lambda>t. HeldBy t \<noteq> wantedHold st t) (cf_Tasks cfg))))"
  by (auto simp: WithCronHold_def markCronHold_def holds_right_def filter_empty_conv)

lemma WithCronHold_right: "holds_right st (fst (WithCronHold cfg st))"
  by (auto simp: WithCronHold_cases holds_right_def)

lemma heldBy_marks_only_crontabs:
  "holds_right st cfg \<Longrightarrow> t \<in> set (cf_Tasks cfg) \<Longrightarrow> Held t \<longleftrightarrow>
     Source t = SourceCron \<and> (Live st \<and> CronOwnsPath (SourceFile t) \<or> AnacronLive st \<and> AnacronOwnsPath (SourceFile t))"
  by (auto simp: holds_right_def Held_def wantedHold_def heldByLiveCron_def)

text \<open>The wanted holds of two answers differ only in what the answers say is live.\<close>

lemma wantedHold_live:
  "Live st = Live st' \<Longrightarrow> AnacronLive st = AnacronLive st' \<Longrightarrow> wantedHold st t = wantedHold st' t"
  by (simp add: wantedHold_def heldByLiveCron_def)

lemma paths_disjoint: "AnacronOwnsPath f \<Longrightarrow> \<not> CronOwnsPath f"
proof -
  assume f: "AnacronOwnsPath f"
  then have c: "Clean f = ''/etc/anacrontab''" by (simp add: AnacronOwnsPath_def AnacrontabPath_def)
  have "\<not> IsSystemCrontabPath ''/etc/anacrontab''" "\<not> IsSpoolCrontabDir (Dir ''/etc/anacrontab'')"
    by code_simp+
  with c show ?thesis by (simp add: CronOwnsPath_def)
qed

text \<open>C23. The hold watcher and anacron. When the holds were right for the watcher's last answer, then
  after a tick they are right for the new answer if cron itself appeared or went away. If only
  anacron did, the tick changes nothing, and the holds are wrong exactly when the configuration
  reads a job from anacron's own table: such a job is left held by nobody when anacron is gone, or
  fires twice when anacron is back.\<close>
theorem watcher_tracks_cron_not_anacron:
  assumes "holds_right lst cfg"
  shows "(Live state \<noteq> Live lst \<longrightarrow>
      holds_right state (snd (watcher_tick (\<lambda>s c. fst (WithCronHold c s)) state (lst, cfg))))
    \<and> (Live state = Live lst \<longrightarrow>
      watcher_tick (\<lambda>s c. fst (WithCronHold c s)) state (lst, cfg) = (lst, cfg)
      \<and> (holds_right state cfg \<longleftrightarrow> AnacronLive state = AnacronLive lst
          \<or> (\<forall>t\<in>set (cf_Tasks cfg). Source t = SourceCron \<longrightarrow> \<not> AnacronOwnsPath (SourceFile t))))"
proof -
  have "holds_right state cfg \<longleftrightarrow> AnacronLive state = AnacronLive lst
      \<or> (\<forall>t\<in>set (cf_Tasks cfg). Source t = SourceCron \<longrightarrow> \<not> AnacronOwnsPath (SourceFile t))"
    if live: "Live state = Live lst"
  proof -
    have "wantedHold state t = wantedHold lst t \<longleftrightarrow> AnacronLive state = AnacronLive lst
        \<or> (Source t = SourceCron \<longrightarrow> \<not> AnacronOwnsPath (SourceFile t))" for t
      using live paths_disjoint [of "SourceFile t"] by (auto simp: wantedHold_def heldByLiveCron_def)
    with assms show ?thesis unfolding holds_right_def by (metis (no_types, lifting))
  qed
  then show ?thesis by (simp add: watcher_tick_def WithCronHold_right)
qed

definition anacron_task :: Task where
  "anacron_task = (cron_task ''daily'')\<lparr>Source := SourceCron, SourceFile := ''/etc/anacrontab'', HeldBy := HeldByCron\<rparr>"

definition plain_daemon :: DaemonConfig where
  "plain_daemon = \<lparr>d_Name = [], ShutdownTimeout = 10 * second, ExternalURL = [], CheckUpdates = True,
     HeartbeatURL = [], LogOutput = False, TrustedProxies = [], APITokens = [], ViewerAPITokens = [],
     d_restart = \<lparr>AllowStationDispatch = False, MetricsEnabled = False, MetricsListen = [], TLS = ''off'',
       TLSCert = [], TLSKey = []\<rparr>\<rparr>"

definition anacron_config :: Config where
  "anacron_config = \<lparr>cf_Tasks = [anacron_task], cf_Daemon = plain_daemon, cf_Timezone = ''UTC'',
     cf_Source = TimezoneSourceConfig, cf_cronFiles = [''/etc/anacrontab''],
     cf_cronDaemon = no_cron\<lparr>AnacronLive := True\<rparr>\<rparr>"

text \<open>Anacron is disabled on a machine without cron: the job stays held.\<close>
lemma watcher_tracks_cron_not_anacron_witness:
  "watcher_tick (\<lambda>s c. fst (WithCronHold c s)) no_cron (no_cron\<lparr>AnacronLive := True\<rparr>, anacron_config)
     = (no_cron\<lparr>AnacronLive := True\<rparr>, anacron_config)
   \<and> \<not> holds_right no_cron anacron_config"
proof -
  let ?lst = "no_cron\<lparr>AnacronLive := True\<rparr>"
  have own: "AnacronOwnsPath ''/etc/anacrontab''" by code_simp
  have right: "holds_right ?lst anacron_config"
    using own by (simp add: holds_right_def anacron_config_def anacron_task_def wantedHold_def heldByLiveCron_def)
  have "Live no_cron = Live ?lst" "AnacronLive no_cron \<noteq> AnacronLive ?lst" by (simp_all add: no_cron_def)
  moreover have "\<exists>t\<in>set (cf_Tasks anacron_config). Source t = SourceCron \<and> AnacronOwnsPath (SourceFile t)"
    using own by (simp add: anacron_config_def anacron_task_def)
  ultimately show ?thesis using watcher_tracks_cron_not_anacron [OF right, of no_cron] by blast
qed

end
