(* ===== verification/Reconcile.thy ===== *)
theory Reconcile
  imports Cron_Holds
begin

text \<open>
  Reloading a configuration into the running daemon: the diff of two task sets
  (\<open>config/diff.go\<close>), the registry (\<open>runtime/registry.go\<close>) and the reconciler
  (\<open>runtime/reconcile.go\<close>) that drives the registry, the manager, the scheduler and the database
  from one to the other, and the refresh of the cron holds. What the daemon-wide settings are is
  the type \<open>'g\<close>; loading a file and preparing the settings are arguments.
\<close>

section \<open>The diff of two task sets\<close>

datatype ChangeReason = ReasonSchedule | ReasonKind | ReasonCommand | ReasonEnv | ReasonSettings

record TaskChange =
  tc_Name :: string
  tc_Reasons :: "ChangeReason list"

record Diff =
  Added :: "string list"
  Removed :: "string list"
  Changed :: "TaskChange list"
  Restamped :: "string list"

text \<open>Maps of a task are kept in key order, so equal maps are equal lists.\<close>

definition sameDefinition :: "Task \<Rightarrow> Task \<Rightarrow> bool" where
  "sameDefinition oldTask newTask \<longleftrightarrow>
     oldTask\<lparr>Source := SourceNative, SourceFile := []\<rparr> = newTask\<lparr>Source := SourceNative, SourceFile := []\<rparr>"

definition commandChanged :: "Task \<Rightarrow> Task \<Rightarrow> bool" where
  "commandChanged oldTask newTask \<longleftrightarrow>
     (let a = Exec oldTask; b = Exec newTask
      in RunScript a \<noteq> RunScript b \<or> Shell a \<noteq> Shell b \<or> WorkingDir a \<noteq> WorkingDir b
         \<or> Umask a \<noteq> Umask b \<or> RunUser a \<noteq> RunUser b \<or> ExecDef a \<noteq> ExecDef b
         \<or> Parameters oldTask \<noteq> Parameters newTask)"

definition envChanged :: "Task \<Rightarrow> Task \<Rightarrow> bool" where
  "envChanged oldTask newTask \<longleftrightarrow>
     (let a = Exec oldTask; b = Exec newTask
      in EnvBaseOf a \<noteq> EnvBaseOf b \<or> EnvFile a \<noteq> EnvFile b \<or> SecretsFile a \<noteq> SecretsFile b
         \<or> Env oldTask \<noteq> Env newTask \<or> Secrets oldTask \<noteq> Secrets newTask)"

definition changeReasons :: "Task \<Rightarrow> Task \<Rightarrow> ChangeReason list" where
  "changeReasons oldTask newTask =
     (if sameDefinition oldTask newTask then []
      else (let reasons =
          (if Cron oldTask \<noteq> Cron newTask \<or> Timezone oldTask \<noteq> Timezone newTask
              \<or> HeldBy oldTask \<noteq> HeldBy newTask then [ReasonSchedule] else [])
          @ (if TKind oldTask \<noteq> TKind newTask then [ReasonKind] else [])
          @ (if commandChanged oldTask newTask then [ReasonCommand] else [])
          @ (if envChanged oldTask newTask then [ReasonEnv] else [])
        in if reasons = [] then [ReasonSettings] else reasons))"

definition diff_one :: "(string \<times> Task) list \<Rightarrow> string \<times> Task \<Rightarrow> Diff \<Rightarrow> Diff" where
  "diff_one old p d =
     (case p of (name, newTask) \<Rightarrow>
       (case map_of old name of
          None \<Rightarrow> d\<lparr>Added := Added d @ [name]\<rparr>
        | Some oldTask \<Rightarrow>
            if changeReasons oldTask newTask \<noteq> []
            then d\<lparr>Changed := Changed d @ [\<lparr>tc_Name = name, tc_Reasons = changeReasons oldTask newTask\<rparr>]\<rparr>
            else if Source oldTask \<noteq> Source newTask \<or> SourceFile oldTask \<noteq> SourceFile newTask
            then d\<lparr>Restamped := Restamped d @ [name]\<rparr>
            else d))"

definition no_diff :: Diff where
  "no_diff = \<lparr>Added = [], Removed = [], Changed = [], Restamped = []\<rparr>"

definition DiffTasks :: "(string \<times> Task) list \<Rightarrow> (string \<times> Task) list \<Rightarrow> Diff" where
  "DiffTasks old updated =
     (let d = fold (diff_one old) updated no_diff;
          gone = filter (\<lambda>k. map_of updated k = None) (map fst old)
      in \<lparr>Added = sort (Added d), Removed = sort gone, Changed = sort_key tc_Name (Changed d),
          Restamped = sort (Restamped d)\<rparr>)"

definition tasksByName :: "Config \<Rightarrow> (string \<times> Task) list" where
  "tasksByName cfg = fold (\<lambda>t. AList.update (Name t) t) (cf_Tasks cfg) []"

section \<open>Settings only a restart applies\<close>

definition restartOnly :: "DaemonConfig \<Rightarrow> DaemonConfig" where
  "restartOnly d =
     d\<lparr>ShutdownTimeout := 0, d_Name := [], ExternalURL := [], CheckUpdates := False, HeartbeatURL := [],
       LogOutput := False, TrustedProxies := [], APITokens := [], ViewerAPITokens := []\<rparr>"

definition CheckNonReloadable :: "Config \<Rightarrow> Config \<Rightarrow> string option" where
  "CheckNonReloadable old updated =
     (let o' = d_restart (restartOnly (cf_Daemon old)); n = d_restart (restartOnly (cf_Daemon updated))
      in if TLS o' \<noteq> TLS n \<or> TLSCert o' \<noteq> TLSCert n \<or> TLSKey o' \<noteq> TLSKey n then Some ''[daemon] tls''
         else if MetricsEnabled o' \<noteq> MetricsEnabled n \<or> MetricsListen o' \<noteq> MetricsListen n
         then Some ''[daemon] metrics''
         else if AllowStationDispatch o' \<noteq> AllowStationDispatch n
         then Some ''[daemon] allow_station_dispatch''
         else if restartOnly (cf_Daemon old) \<noteq> restartOnly (cf_Daemon updated) then Some ''[daemon]''
         else None)"

text \<open>\<open>ResolveTimezone\<close>: an error is \<open>None\<close>, the empty name is the nil zone.\<close>

definition ResolveTimezone :: "cronLib \<Rightarrow> string \<Rightarrow> zone option option" where
  "ResolveTimezone lib name =
     (if name = [] then Some None
      else if name = ''UTC'' then Some (Some UTC)
      else if name = ''Local'' then Some (Some Local)
      else if loadsZone lib name then Some (Some (Named name)) else None)"

section \<open>The reconciler\<close>

text \<open>What the reconciler reads and writes. \<open>w_sched = None\<close> is station mode; \<open>w_zone\<close> is the zone
  of the manager's health checks, \<open>w_pinned\<close> the pinned snapshot and \<open>w_watcher\<close> the last answer
  of the running hold watcher.\<close>

record 'g world =
  w_registry :: "(string \<times> Task) list"
  w_sched :: "Scheduler option"
  w_daemon :: daemon
  w_zone :: "zone option"
  w_store :: store
  w_baseline :: Config
  w_pinned :: Config
  w_probe :: bool
  w_watcher :: "cronState option"
  w_global :: 'g

datatype reloadWarning =
    AutostartButNotPaused string
  | AutostartButStopped string
  | PauseCleared string pauseClear
  | NotRebased string

definition publishTask :: "Task \<Rightarrow> 'g world \<Rightarrow> 'g world" where
  "publishTask task w =
     w\<lparr>w_registry := AList.update (Name task) task (w_registry w),
       w_daemon := UpsertTask task (w_daemon w)\<rparr>"

definition register :: "faults \<Rightarrow> instant \<Rightarrow> Task \<Rightarrow> 'g world \<Rightarrow> 'g world" where
  "register down now task w =
     (case EnsureTaskRegistered down (Name task) now (StartsPaused task) (w_store w) of
        (None, st) \<Rightarrow> w\<lparr>w_store := st\<rparr>
      | (Some inserted, st) \<Rightarrow>
          (if inserted \<and> StartsPaused task
           then w\<lparr>w_store := st, w_sched := map_option (adoptPause (Name task) now) (w_sched w)\<rparr>
           else w\<lparr>w_store := st\<rparr>))"

definition anchorNewlySchedulable :: "faults \<Rightarrow> instant \<Rightarrow> Task \<Rightarrow> Task \<Rightarrow> 'g world \<Rightarrow> 'g world" where
  "anchorNewlySchedulable down now oldTask newTask w =
     (if Schedulable oldTask \<or> \<not> Schedulable newTask then w else register down now newTask w)"

definition rescheduleChanged :: "cronLib \<Rightarrow> Task \<Rightarrow> Scheduler \<Rightarrow> Scheduler" where
  "rescheduleChanged lib newTask s =
     (let s1 = Sched_RemoveTask (Name newTask) s
      in if Schedulable newTask then snd (Sched_AddTask lib newTask s1) else s1)"

definition applyRemoved :: "string \<Rightarrow> 'g world \<Rightarrow> 'g world" where
  "applyRemoved name w =
     w\<lparr>w_sched := map_option (Sched_RemoveTask name) (w_sched w),
       w_daemon := RemoveTask name (w_daemon w),
       w_registry := AList.delete name (w_registry w)\<rparr>"

definition startInstances :: "Task \<Rightarrow> 'g world \<Rightarrow> 'g world" where
  "startInstances task w =
     w\<lparr>w_daemon := on_manager (\<lambda>m. snd (StartServiceInstances (Name task) TriggeredByService m)) (w_daemon w)\<rparr>"

definition applyAdded :: "cronLib \<Rightarrow> faults \<Rightarrow> instant \<Rightarrow> Task \<Rightarrow> 'g world \<Rightarrow> 'g world" where
  "applyAdded lib down now task w =
     (let w1 = (if Schedulable task then register down now task w else w);
          w2 = publishTask task w1
      in if IsService (TKind task) then startInstances task w2
         else if Schedulable task
         then w2\<lparr>w_sched := map_option (\<lambda>s. snd (Sched_AddTask lib task s)) (w_sched w2)\<rparr>
         else w2)"

definition autostartFlipWarning :: "Task \<Rightarrow> Task \<Rightarrow> 'g world \<Rightarrow> reloadWarning list" where
  "autostartFlipWarning oldTask newTask w =
     (if \<not> IsService (TKind newTask)
      then (case w_sched w of
          None \<Rightarrow> []
        | Some s \<Rightarrow>
            if StartsPaused oldTask \<or> \<not> StartsPaused newTask \<or> IsPaused s (Name newTask) then []
            else [AutostartButNotPaused (Name newTask)])
      else if Autostart oldTask \<or> \<not> Autostart newTask then []
      else (case ServiceSnapshot (snd (w_daemon w)) (Name newTask) of
          None \<Rightarrow> []
        | Some snap \<Rightarrow>
            if sn_State snap \<noteq> SvcStopped then [] else [AutostartButStopped (Name newTask)]))"

definition applyChanged ::
  "cronLib \<Rightarrow> faults \<Rightarrow> instant \<Rightarrow> TaskChange \<Rightarrow> Task \<Rightarrow> Task \<Rightarrow> 'g world \<Rightarrow> reloadWarning list \<times> 'g world" where
  "applyChanged lib down now change oldTask newTask w =
     (let w1 = (if IsService (TKind oldTask) \<and> \<not> IsService (TKind newTask)
            then w\<lparr>w_daemon := on_manager (\<lambda>m. snd (StopService (Name oldTask) m)) (w_daemon w)\<rparr> else w);
          w2 = anchorNewlySchedulable down now oldTask newTask (publishTask newTask w1);
          w3 = (if ReasonSchedule \<in> set (tc_Reasons change) \<or> ReasonKind \<in> set (tc_Reasons change)
            then w2\<lparr>w_sched := map_option (rescheduleChanged lib newTask) (w_sched w2)\<rparr> else w2)
      in if \<not> IsService (TKind newTask) then (autostartFlipWarning oldTask newTask w3, w3)
         else if IsService (TKind oldTask)
         then let w4 = w3\<lparr>w_daemon := on_manager (\<lambda>m. snd (RecycleServiceInstances (Name newTask) m)) (w_daemon w3)\<rparr>
              in (autostartFlipWarning oldTask newTask w4, w4)
         else ([], startInstances newTask w3))"

definition apply_added_one ::
  "cronLib \<Rightarrow> faults \<Rightarrow> instant \<Rightarrow> (string \<times> Task) list \<Rightarrow> string \<Rightarrow> 'g world \<Rightarrow> 'g world" where
  "apply_added_one lib down now newTasks name w =
     (case map_of newTasks name of None \<Rightarrow> w | Some t \<Rightarrow> applyAdded lib down now t w)"

definition apply_changed_one ::
  "cronLib \<Rightarrow> faults \<Rightarrow> instant \<Rightarrow> (string \<times> Task) list \<Rightarrow> (string \<times> Task) list \<Rightarrow> TaskChange
     \<Rightarrow> reloadWarning list \<times> 'g world \<Rightarrow> reloadWarning list \<times> 'g world" where
  "apply_changed_one lib down now oldTasks newTasks change ww =
     (case (map_of oldTasks (tc_Name change), map_of newTasks (tc_Name change)) of
        (Some oldTask, Some newTask) \<Rightarrow>
          (case applyChanged lib down now change oldTask newTask (snd ww) of
             (ws, w) \<Rightarrow> (fst ww @ ws, w))
      | _ \<Rightarrow> ww)"

definition apply_restamped_one :: "(string \<times> Task) list \<Rightarrow> string \<Rightarrow> 'g world \<Rightarrow> 'g world" where
  "apply_restamped_one newTasks name w =
     (case map_of newTasks name of None \<Rightarrow> w | Some t \<Rightarrow> publishTask t w)"

definition apply_diff ::
  "cronLib \<Rightarrow> faults \<Rightarrow> instant \<Rightarrow> Diff \<Rightarrow> (string \<times> Task) list \<Rightarrow> (string \<times> Task) list
     \<Rightarrow> 'g world \<Rightarrow> reloadWarning list \<times> 'g world" where
  "apply_diff lib down now diff oldTasks newTasks w =
     (let w1 = fold applyRemoved (Removed diff) w;
          w2 = (if Removed diff \<noteq> []
            then w1\<lparr>w_store := snd (ForgetTaskRegistrationsExcept down (map fst newTasks) (w_store w1))\<rparr> else w1);
          w3 = fold (apply_added_one lib down now newTasks) (Added diff) w2;
          (warnings, w4) = fold (apply_changed_one lib down now oldTasks newTasks) (Changed diff) ([], w3);
          w5 = fold (apply_restamped_one newTasks) (Restamped diff) w4
      in (case w_sched w5 of
            None \<Rightarrow> (warnings, w5)
          | Some s \<Rightarrow>
              let s1 = (if Added diff \<noteq> [] \<or> Removed diff \<noteq> [] \<or> Changed diff \<noteq> []
                    then RecomputeJitter lib now newTasks s else s)
              in (case PrunePauses down now newTasks (s1, w_store w5) of
                    (cleared, s2, st) \<Rightarrow>
                      (warnings @ map (\<lambda>(k, r). PauseCleared k r) cleared,
                       w5\<lparr>w_sched := Some s2, w_store := st\<rparr>))))"

definition syncCronWatcher :: "'g world \<Rightarrow> 'g world" where
  "syncCronWatcher w =
     (case CronHold (w_baseline w) of (state, readsCron) \<Rightarrow>
       w\<lparr>w_watcher := (if readsCron \<and> w_probe w then Some state else None)\<rparr>)"

datatype reloadError = LoadFailed | RestartRequired string | BadTimezone | SettingsRejected

record ReloadResult =
  rr_diff :: Diff
  rr_Settings :: "string list"
  rr_Warnings :: "reloadWarning list"

text \<open>The hook returns the changed keys and the commit, or \<open>None\<close> for an error.\<close>

type_synonym 'g settingsHook = "Config \<Rightarrow> Config \<Rightarrow> (string list \<times> ('g \<Rightarrow> 'g)) option"

definition keep_system_zone :: "Config \<Rightarrow> Config \<Rightarrow> Config" where
  "keep_system_zone baseline newCfg =
     (if cf_Source newCfg = TimezoneSourceSystem \<and> cf_Source baseline = TimezoneSourceSystem
      then newCfg\<lparr>cf_Timezone := cf_Timezone baseline\<rparr> else newCfg)"

definition Reconcile ::
  "cronLib \<Rightarrow> 'g settingsHook option \<Rightarrow> faults \<Rightarrow> instant \<Rightarrow> Config option \<Rightarrow> 'g world
     \<Rightarrow> (reloadError + ReloadResult) \<times> 'g world" where
  "Reconcile lib hook down now loaded w =
     (case loaded of
        None \<Rightarrow> (Inl LoadFailed, w)
      | Some loadedCfg \<Rightarrow>
          (case CheckNonReloadable (w_baseline w) loadedCfg of
             Some key \<Rightarrow> (Inl (RestartRequired key), w)
           | None \<Rightarrow>
               let newCfg = keep_system_zone (w_baseline w) loadedCfg;
                   moved = (cf_Timezone newCfg \<noteq> cf_Timezone (w_baseline w))
               in (case (if moved then ResolveTimezone lib (cf_Timezone newCfg) else Some None) of
                     None \<Rightarrow> (Inl BadTimezone, w)
                   | Some newLoc \<Rightarrow>
                       (case (case hook of None \<Rightarrow> Some ([], id) | Some h \<Rightarrow> h (w_baseline w) newCfg) of
                          None \<Rightarrow> (Inl SettingsRejected, w)
                        | Some (keys, commit) \<Rightarrow>
                            let oldTasks = w_registry w;
                                newTasks = tasksByName newCfg;
                                diff = DiffTasks oldTasks newTasks;
                                w1 = w\<lparr>w_global := commit (w_global w)\<rparr>;
                                w2 = (case newLoc of None \<Rightarrow> w1 | Some z \<Rightarrow> w1\<lparr>w_zone := Some z\<rparr>);
                                (warnings, w3) = apply_diff lib down now diff oldTasks newTasks w2;
                                (warnings', w4) =
                                  (case (newLoc, w_sched w3) of
                                     (Some z, Some s) \<Rightarrow>
                                       (case SetLocation lib now z newTasks s of
                                          (bad, s') \<Rightarrow> (warnings @ map NotRebased bad, w3\<lparr>w_sched := Some s'\<rparr>))
                                   | _ \<Rightarrow> (warnings, w3))
                            in (Inr \<lparr>rr_diff = diff,
                                     rr_Settings = (if moved then [''daemon.timezone''] else []) @ keys,
                                     rr_Warnings = warnings'\<rparr>,
                                syncCronWatcher (w4\<lparr>w_baseline := newCfg, w_pinned := newCfg\<rparr>))))))"

section \<open>Refreshing the holds\<close>

record CronHoldChange =
  Released :: "string list"
  HeldNames :: "string list"

definition refresh_one ::
  "cronLib \<Rightarrow> faults \<Rightarrow> instant \<Rightarrow> (string \<times> Task) list \<Rightarrow> string
     \<Rightarrow> CronHoldChange \<times> 'g world \<Rightarrow> CronHoldChange \<times> 'g world" where
  "refresh_one lib down now newTasks name acc =
     (case acc of (out, w) \<Rightarrow>
       (case (map_of newTasks name, map_of (w_registry w) name) of
          (Some newTask, Some oldTask) \<Rightarrow>
            (let w1 = anchorNewlySchedulable down now oldTask newTask (publishTask newTask w);
                 w2 = w1\<lparr>w_sched := map_option (rescheduleChanged lib newTask) (w_sched w1)\<rparr>
             in (if Held newTask then out\<lparr>HeldNames := HeldNames out @ [name]\<rparr>
                 else out\<lparr>Released := Released out @ [name]\<rparr>, w2))
        | _ \<Rightarrow> acc))"

definition RefreshCronHolds ::
  "cronLib \<Rightarrow> faults \<Rightarrow> instant \<Rightarrow> cronState \<Rightarrow> 'g world \<Rightarrow> CronHoldChange \<times> 'g world" where
  "RefreshCronHolds lib down now state w =
     (case WithCronHold (w_baseline w) state of (updated, changed) \<Rightarrow>
        if changed = [] then (\<lparr>Released = [], HeldNames = []\<rparr>, w)
        else let newTasks = tasksByName updated;
                 (out, w1) = fold (refresh_one lib down now newTasks) changed
                     (\<lparr>Released = [], HeldNames = []\<rparr>, w);
                 w2 = (if HeldNames out @ Released out \<noteq> []
                   then w1\<lparr>w_sched := map_option (RecomputeJitter lib now newTasks) (w_sched w1)\<rparr> else w1)
             in (out, w2\<lparr>w_baseline := updated\<rparr>))"

text \<open>A tick of the running watcher.\<close>

definition watch_holds ::
  "cronLib \<Rightarrow> faults \<Rightarrow> instant \<Rightarrow> cronState \<Rightarrow> 'g world \<Rightarrow> 'g world" where
  "watch_holds lib down now state w =
     (case w_watcher w of
        None \<Rightarrow> w
      | Some lst \<Rightarrow>
          (case watcher_tick (\<lambda>s w. snd (RefreshCronHolds lib down now s w)) state (lst, w) of
             (lst', w') \<Rightarrow> w'\<lparr>w_watcher := Some lst'\<rparr>))"

end
