(* ===== verification/Reload_Manager.thy ===== *)
theory Reload_Manager
  imports Manager_Props
begin

text \<open>
  What the operations a reload uses do to the task definitions of the manager: registering a task
  replaces its definition, removing one drops it, and triggers, gate completions and service
  controls leave every definition as it is.
\<close>

lemma GetTask_put: "GetTask (put_task k ts m) = (GetTask m)(k \<mapsto> ts_task ts)"
  by (rule ext) (simp add: GetTask_def put_task_def map_of_AList_update)

lemma GetTask_cong: "tasks m' = tasks m \<Longrightarrow> GetTask m' = GetTask m"
  by (rule ext) (simp add: GetTask_def)

lemma GetTask_frames [simp]:
  "GetTask (emit es m) = GetTask m" "GetTask (panic m) = GetTask m"
  "GetTask (snd (mint m)) = GetTask m" "GetTask (publishTerminal e r msg m) = GetTask m"
  by (rule GetTask_cong; simp add: emit_def panic_def mint_def publishTerminal_def)+

lemma GetTask_put_same:
  "map_of (tasks m) k = Some ts \<Longrightarrow> ts_task ts' = ts_task ts \<Longrightarrow> GetTask (put_task k ts' m) = GetTask m"
  by (rule ext) (simp add: GetTask_put, simp add: GetTask_def)

lemma GetTask_Some: "map_of (tasks m) k = Some ts \<Longrightarrow> GetTask m k = Some (ts_task ts)"
  by (simp add: GetTask_def)

lemma evaluate_task:
  "evaluateConcurrency ts run n = Some (a, e, ts') \<Longrightarrow> ts_task ts' = ts_task ts"
  by (auto simp: evaluateConcurrency_def Let_def split: if_splits ConcurrencyPolicy.splits)

lemma GetTask_startRun: "GetTask (startRun task run m) = GetTask m"
  by (auto simp: startRun_alt GetTask_put_same split: option.split)

lemma GetTask_admit:
  assumes "GetTask m (Name (ts_task ts)) = Some (ts_task ts)"
  shows "GetTask (snd (admit ts run m)) = GetTask m"
proof -
  have "GetTask (put_task (Name (ts_task ts)) ts' m) = GetTask m"
    if "evaluateConcurrency ts run n = Some (a, e, ts')" for n a e ts'
    using assms evaluate_task [OF that] by (auto simp: GetTask_put)
  then show ?thesis
    by (auto simp: admit_def Let_def GetTask_startRun end_unexecuted_def
        split: option.split concurrencyAction.split)
qed

lemma GetTask_Trigger:
  assumes inv: "mgr_inv m"
  shows "GetTask (snd (TriggerRunWithOptions k opts m)) = GetTask m"
proof (cases "\<exists>e. TriggerRunWithOptions k opts m = ((None, Some e), m) \<or>
    TriggerRunWithOptions k opts m = ((None, Some e), panic m)")
  case True
  then show ?thesis by auto
next
  case False
  then obtain ts where ts: "map_of (tasks m) k = Some ts"
    by (cases "map_of (tasks m) k"; cases "isShutdown m") (auto simp: TriggerRunWithOptions_def)
  have n: "Name (ts_task ts) = k" using inv_lookup [OF inv ts] by simp
  from False ts obtain ts' run where e: "TriggerRunWithOptions k opts m =
      admit ts' run (emit [PersistNew run, Publish EventRunCreated run []] (snd (mint (put_task k ts' m))))"
    and t': "ts_task ts' = ts_task ts"
    by (auto simp: TriggerRunWithOptions_def reserve_instance_def mint_def Let_def
        split: option.splits sum.splits if_splits prod.splits mgrError.splits)
  have "GetTask (snd (TriggerRunWithOptions k opts m)) =
      GetTask (emit [PersistNew run, Publish EventRunCreated run []] (snd (mint (put_task k ts' m))))"
    unfolding e by (rule GetTask_admit) (simp add: GetTask_put n t')
  then show ?thesis by (simp add: GetTask_put_same [OF ts t'])
qed

text \<open>The gate's hook keeps the definitions, so completions at the gate do.\<close>

interpretation definitions: run_hook triggerJittered "\<lambda>m. mgr_inv m \<and> GetTask m = F" "\<lambda>_. UNIV" for F
proof unfold_locales
  fix m t k
  assume "mgr_inv m \<and> GetTask m = F"
  then show "mgr_inv (snd (triggerJittered t k m)) \<and> GetTask (snd (triggerJittered t k m)) = F"
    using triggerJittered_snd [of t k m] GetTask_Trigger hook.good_trigger by metis
qed simp_all

lemma GetTask_retireOrphaned:
  "mgr_inv (snd d) \<Longrightarrow> GetTask (snd (retireOrphaned runs d)) = GetTask (snd d)"
proof (induction runs arbitrary: d)
  case (Cons r rs)
  let ?d = "gate_complete (ID r) d"
  have g: "mgr_inv (snd ?d) \<and> GetTask (snd ?d) = GetTask (snd d)"
    using definitions.tracked_complete [of "GetTask (snd d)" "ID r" UNIV d] Cons.prems
    by (simp add: definitions.gate_tracked_def definitions.tracked_def gate_complete_def)
  with Cons.IH [of "on_manager (publishTerminal EventRunFailed r []) ?d"] show ?case
    by (simp add: retireOrphaned_def on_manager_def publishTerminal_def)
qed (simp add: retireOrphaned_def)

lemma install_task:
  "install_queue now task (install_supervisor task (ts\<lparr>ts_task := task\<rparr>)) = (runs, es, ts') \<Longrightarrow> ts_task ts' = task"
  by (auto simp: install_queue_def finalizeOrphanedQueue_def install_supervisor_def upsertSupervisor_def
      Let_def split: if_splits option.splits prod.splits)

lemma GetTask_Upsert:
  assumes inv: "mgr_inv (snd d)" and ok: "task_ok task"
  shows "GetTask (snd (UpsertTask task d)) = (GetTask (snd d))(Name task \<mapsto> task)"
proof -
  obtain ts m1 where at: "attach_state task (snd d) = (ts, m1)" by fastforce
  obtain runs es ts' where iq: "install_queue (clock (snd d)) task
      (install_supervisor task (ts\<lparr>ts_task := task\<rparr>)) = (runs, es, ts')" by (metis prod_cases3)
  have u: "upsertTaskLocked task (snd d) = (runs, emit es (put_task (Name task) ts' m1))"
    by (simp add: upsertTaskLocked_def at iq)
  have "tasks m1 = tasks (snd d)" using at by (auto simp: attach_state_def split: option.splits)
  from GetTask_cong [OF this] have "GetTask (emit es (put_task (Name task) ts' m1)) = (GetTask (snd d))(Name task \<mapsto> task)"
    using install_task [OF iq] by (simp add: GetTask_put)
  moreover have "mgr_inv (emit es (put_task (Name task) ts' m1))"
    using inv_upsert [OF inv ok] u by simp
  ultimately show ?thesis
    by (simp add: UpsertTask_def u GetTask_retireOrphaned)
qed

lemma GetTask_Remove:
  assumes inv: "mgr_inv (snd d)"
  shows "GetTask (snd (RemoveTask k d)) = (GetTask (snd d))(k := None)"
proof -
  obtain runs m1 where r: "removeTaskLocked k (snd d) = (runs, m1)" by fastforce
  have "GetTask m1 = (GetTask (snd d))(k := None)"
  proof (cases "map_of (tasks (snd d)) k")
    case None
    with r show ?thesis by (auto simp: removeTaskLocked_def GetTask_def)
  next
    case (Some ts)
    with r have "tasks m1 = AList.delete k (tasks (snd d))"
      by (auto simp: removeTaskLocked_alt [OF Some] Let_def emit_def split: if_splits)
    then show ?thesis by (auto simp: GetTask_def delete_conv')
  qed
  moreover have "mgr_inv m1" using inv_remove [OF inv, of k] r by simp
  ultimately show ?thesis by (simp add: RemoveTask_def r GetTask_retireOrphaned)
qed

lemma GetTask_StartServiceInstances:
  assumes inv: "mgr_inv m"
  shows "GetTask (snd (StartServiceInstances k b m)) = GetTask m"
proof -
  have "mgr_inv (fold (\<lambda>i m. snd (TriggerRunWithOptions k (instance_options b i) m)) is m) \<and>
      GetTask (fold (\<lambda>i m. snd (TriggerRunWithOptions k (instance_options b i) m)) is m) = GetTask m"
    if "mgr_inv m" for "is" m
    using that
  proof (induction "is" arbitrary: m)
    case (Cons i "is")
    have "mgr_inv (snd (TriggerRunWithOptions k (instance_options b i) m))"
      by (rule inv_Trigger [OF Cons.prems]) (simp add: instance_options_def no_options_def)
    with Cons.IH [OF this] GetTask_Trigger [OF Cons.prems] show ?case by simp
  qed simp
  with inv show ?thesis
    by (auto simp: StartServiceInstances_def split: sum.split option.split)
qed

lemma GetTask_StopService: "GetTask (snd (StopService k m)) = GetTask m"
  by (auto simp: StopService_def with_supervisor_def serviceLocked_def Let_def GetTask_put_same
      split: sum.splits option.splits if_splits)

lemma GetTask_Recycle:
  assumes inv: "mgr_inv m"
  shows "GetTask (snd (RecycleServiceInstances k m)) = GetTask m"
proof -
  have "GetTask (snd (StartServiceInstances k TriggeredByService (put_task k (on_active Cancel ts) m))) = GetTask m"
    if ts: "map_of (tasks m) k = Some ts" for ts
  proof -
    have "mgr_inv (put_task k (on_active Cancel ts) m)"
      using inv_lookup [OF inv ts] ts inv
      by (intro inv_put_task) (auto intro: state_ok_on_active)
    from GetTask_StartServiceInstances [OF this] show ?thesis by (simp add: GetTask_put_same [OF ts])
  qed
  then show ?thesis
    by (auto simp: RecycleServiceInstances_def with_supervisor_def serviceLocked_def
        split: sum.splits option.splits if_splits)
qed

end
