(* ===== verification/Reload_Props.thy ===== *)
theory Reload_Props
  imports Reconcile Reload_Manager
begin

text \<open>
  What a reload achieves: the registry, the definitions of the manager and the entries of the
  scheduler, in step with the configuration before, are in step with the new one after, and every
  invariant of the parts is kept.
\<close>

section \<open>What is in step\<close>

definition has_sched :: "'g world \<Rightarrow> bool" where
  "has_sched w \<longleftrightarrow> w_sched w \<noteq> None"

definition zone_of :: "'g world \<Rightarrow> zone" where
  "zone_of w = (case w_sched w of None \<Rightarrow> UTC | Some s \<Rightarrow> location s)"

definition entry_in :: "'g world \<Rightarrow> string \<Rightarrow> cronEntry option" where
  "entry_in w k = Option.bind (w_sched w) (\<lambda>s. entry_of s k)"

text \<open>What the three owners hold under a name.\<close>

definition view :: "'g world \<Rightarrow> string \<Rightarrow> Task option \<times> cronEntry option \<times> Task option" where
  "view w k = (map_of (w_registry w) k, entry_in w k, GetTask (snd (w_daemon w)) k)"

text \<open>Two entries fire alike: a fixed interval does not depend on a zone.\<close>

definition same_firing :: "cronEntry option \<Rightarrow> cronEntry option \<Rightarrow> bool" where
  "same_firing a b \<longleftrightarrow>
     (case (a, b) of
        (None, None) \<Rightarrow> True
      | (Some e, Some f) \<Rightarrow> e_task e = e_task f \<and> e_schedule e = e_schedule f
          \<and> (e_loc e = e_loc f \<or> sched_fixed (e_schedule e))
      | _ \<Rightarrow> False)"

lemma same_firing_refl [simp]: "same_firing a a"
  by (auto simp: same_firing_def split: option.split)

lemma same_firing_None [simp]: "same_firing a None \<longleftrightarrow> a = None"
  by (auto simp: same_firing_def split: option.split)

definition settled ::
  "cronLib \<Rightarrow> bool \<Rightarrow> zone \<Rightarrow> (string \<times> Task) list \<Rightarrow> string
     \<Rightarrow> Task option \<times> cronEntry option \<times> Task option \<Rightarrow> bool" where
  "settled lib has z ts k v \<longleftrightarrow>
     (case v of (r, e, g) \<Rightarrow> r = map_of ts k \<and> g = map_of ts k
        \<and> (if has then same_firing e (wanted lib z ts k) else e = None))"

text \<open>What every operation keeps.\<close>

definition parts_ok :: "'g world \<Rightarrow> bool" where
  "parts_ok w \<longleftrightarrow> daemon_inv (w_daemon w) \<and> tasks_named (w_registry w)
     \<and> (case w_sched w of None \<Rightarrow> True | Some s \<Rightarrow> sched_inv (s, w_store w))"

text \<open>What the loader guarantees of a configuration.\<close>

definition valid_task :: "cronLib \<Rightarrow> Task \<Rightarrow> bool" where
  "valid_task lib t \<longleftrightarrow> task_ok t \<and> \<not> Ephemeral t \<and> (IsService (TKind t) \<longrightarrow> Cron t = [])
     \<and> (Timezone t \<noteq> [] \<longrightarrow> loadsZone lib (Timezone t))"

definition valid_config :: "cronLib \<Rightarrow> Config \<Rightarrow> bool" where
  "valid_config lib cfg \<longleftrightarrow> list_all (valid_task lib) (cf_Tasks cfg) \<and> distinct (map Name (cf_Tasks cfg))
     \<and> cf_Timezone cfg \<noteq> [] \<and> ResolveTimezone lib (cf_Timezone cfg) \<noteq> None"

definition in_step :: "cronLib \<Rightarrow> 'g world \<Rightarrow> bool" where
  "in_step lib w \<longleftrightarrow> parts_ok w \<and> valid_config lib (w_baseline w)
     \<and> (has_sched w \<longrightarrow> ResolveTimezone lib (cf_Timezone (w_baseline w)) = Some (Some (zone_of w)))
     \<and> (\<forall>k. settled lib (has_sched w) (zone_of w) (tasksByName (w_baseline w)) k (view w k))"

text \<open>An operation that concerns one name.\<close>

definition touches :: "string \<Rightarrow> 'g world \<Rightarrow> 'g world \<Rightarrow> bool" where
  "touches k w w' \<longleftrightarrow> parts_ok w' \<and> has_sched w' = has_sched w \<and> zone_of w' = zone_of w
     \<and> (\<forall>j. j \<noteq> k \<longrightarrow> view w' j = view w j)"

lemma touches_trans: "touches k w w' \<Longrightarrow> touches k w' w'' \<Longrightarrow> touches k w w''"
  by (simp add: touches_def)

lemma touches_refl: "parts_ok w \<Longrightarrow> touches k w w"
  by (simp add: touches_def)

text \<open>A list of such operations on different names settles all of them.\<close>

lemma fold_touches:
  assumes "parts_ok (pr a)" "distinct (map nm xs)"
    and "\<And>x b. x \<in> set xs \<Longrightarrow> parts_ok (pr b) \<Longrightarrow> has_sched (pr b) = has_sched (pr a) \<Longrightarrow>
      zone_of (pr b) = zone_of (pr a) \<Longrightarrow> view (pr b) (nm x) = view (pr a) (nm x) \<Longrightarrow>
      touches (nm x) (pr b) (pr (f x b)) \<and> Q (nm x) (view (pr (f x b)) (nm x))"
  shows "parts_ok (pr (fold f xs a)) \<and> has_sched (pr (fold f xs a)) = has_sched (pr a)
    \<and> zone_of (pr (fold f xs a)) = zone_of (pr a)
    \<and> (\<forall>k. if k \<in> nm ` set xs then Q k (view (pr (fold f xs a)) k)
           else view (pr (fold f xs a)) k = view (pr a) k)"
  using assms
proof (induction xs arbitrary: a)
  case (Cons x xs)
  have x: "touches (nm x) (pr a) (pr (f x a)) \<and> Q (nm x) (view (pr (f x a)) (nm x))"
    by (rule Cons.prems(3)) (use Cons.prems(1) in simp_all)
  have nx: "nm x \<notin> nm ` set xs" "distinct (map nm xs)" using Cons.prems(2) by simp_all
  have IH: "parts_ok (pr (fold f xs (f x a))) \<and> has_sched (pr (fold f xs (f x a))) = has_sched (pr (f x a))
    \<and> zone_of (pr (fold f xs (f x a))) = zone_of (pr (f x a))
    \<and> (\<forall>k. if k \<in> nm ` set xs then Q k (view (pr (fold f xs (f x a))) k)
           else view (pr (fold f xs (f x a))) k = view (pr (f x a)) k)"
  proof (rule Cons.IH)
    fix y b
    assume y: "y \<in> set xs" and b: "parts_ok (pr b)" "has_sched (pr b) = has_sched (pr (f x a))"
      "zone_of (pr b) = zone_of (pr (f x a))" "view (pr b) (nm y) = view (pr (f x a)) (nm y)"
    have "nm y \<noteq> nm x" using y nx(1) by (metis imageI)
    with x b y show "touches (nm y) (pr b) (pr (f y b)) \<and> Q (nm y) (view (pr (f y b)) (nm y))"
      by (intro Cons.prems(3)) (simp_all add: touches_def)
  qed (use x nx in \<open>simp_all add: touches_def\<close>)
  show ?case
  proof (intro conjI allI)
    fix k
    show "if k \<in> nm ` set (x # xs) then Q k (view (pr (fold f (x # xs) a)) k)
        else view (pr (fold f (x # xs) a)) k = view (pr a) k"
      using IH x nx(1) by (cases "k = nm x"; cases "k \<in> nm ` set xs") (auto simp: touches_def)
  qed (use IH x in \<open>simp_all add: touches_def\<close>)
qed simp

section \<open>The single operations\<close>

lemma view_frames [simp]:
  "view (w\<lparr>w_store := st\<rparr>) = view w" "view (w\<lparr>w_zone := z\<rparr>) = view w"
  "view (w\<lparr>w_global := g\<rparr>) = view w" "view (w\<lparr>w_baseline := b\<rparr>) = view w"
  "view (w\<lparr>w_pinned := b\<rparr>) = view w" "view (w\<lparr>w_watcher := x\<rparr>) = view w"
  by (simp_all add: view_def entry_in_def fun_eq_iff)

lemma has_frames [simp]:
  "has_sched (w\<lparr>w_store := st\<rparr>) = has_sched w" "has_sched (w\<lparr>w_zone := z\<rparr>) = has_sched w"
  "has_sched (w\<lparr>w_global := g\<rparr>) = has_sched w" "has_sched (w\<lparr>w_baseline := b\<rparr>) = has_sched w"
  "has_sched (w\<lparr>w_pinned := b\<rparr>) = has_sched w" "has_sched (w\<lparr>w_watcher := x\<rparr>) = has_sched w"
  "has_sched (w\<lparr>w_daemon := d\<rparr>) = has_sched w" "has_sched (w\<lparr>w_registry := r\<rparr>) = has_sched w"
  "has_sched (w\<lparr>w_sched := map_option f (w_sched w)\<rparr>) = has_sched w"
  by (simp_all add: has_sched_def)

lemma zone_frames [simp]:
  "zone_of (w\<lparr>w_store := st\<rparr>) = zone_of w" "zone_of (w\<lparr>w_zone := z\<rparr>) = zone_of w"
  "zone_of (w\<lparr>w_global := g\<rparr>) = zone_of w" "zone_of (w\<lparr>w_baseline := b\<rparr>) = zone_of w"
  "zone_of (w\<lparr>w_pinned := b\<rparr>) = zone_of w" "zone_of (w\<lparr>w_watcher := x\<rparr>) = zone_of w"
  "zone_of (w\<lparr>w_daemon := d\<rparr>) = zone_of w" "zone_of (w\<lparr>w_registry := r\<rparr>) = zone_of w"
  by (simp_all add: zone_of_def)

lemma sched_inv_store: "sched_inv (s, st) = sched_inv (s, st')"
  by (simp add: sched_inv_def)

lemma parts_frames [simp]:
  "parts_ok (w\<lparr>w_store := st\<rparr>) = parts_ok w" "parts_ok (w\<lparr>w_zone := z\<rparr>) = parts_ok w"
  "parts_ok (w\<lparr>w_global := g\<rparr>) = parts_ok w" "parts_ok (w\<lparr>w_baseline := b\<rparr>) = parts_ok w"
  "parts_ok (w\<lparr>w_pinned := b\<rparr>) = parts_ok w" "parts_ok (w\<lparr>w_watcher := x\<rparr>) = parts_ok w"
  using sched_inv_store by (auto simp: parts_ok_def split: option.split)

text \<open>Changes of the manager that keep its definitions.\<close>

lemma manager_step:
  assumes ok: "parts_ok w" and "daemon_inv d" "GetTask (snd d) = GetTask (snd (w_daemon w))"
  shows "parts_ok (w\<lparr>w_daemon := d\<rparr>)" "view (w\<lparr>w_daemon := d\<rparr>) = view w"
  using assms by (simp_all add: parts_ok_def view_def entry_in_def fun_eq_iff cong: option.case_cong)

lemma parts_daemon: "parts_ok w \<Longrightarrow> daemon_inv (w_daemon w) \<and> mgr_inv (snd (w_daemon w))"
  by (simp add: parts_ok_def daemon_inv_def)

lemma service_steps:
  assumes ok: "parts_ok w"
  shows "parts_ok (startInstances t w) \<and> view (startInstances t w) = view w"
    and "parts_ok (w\<lparr>w_daemon := on_manager (\<lambda>m. snd (StopService k m)) (w_daemon w)\<rparr>) \<and>
      view (w\<lparr>w_daemon := on_manager (\<lambda>m. snd (StopService k m)) (w_daemon w)\<rparr>) = view w"
    and "parts_ok (w\<lparr>w_daemon := on_manager (\<lambda>m. snd (RecycleServiceInstances k m)) (w_daemon w)\<rparr>) \<and>
      view (w\<lparr>w_daemon := on_manager (\<lambda>m. snd (RecycleServiceInstances k m)) (w_daemon w)\<rparr>) = view w"
proof -
  note d = parts_daemon [OF ok]
  have "daemon_inv (daemon_step e (w_daemon w))" if "daemon_ok e (w_daemon w)" for e
    using daemon_step_inv d that by blast
  from this [of "EvStartInstances (Name t) TriggeredByService"] this [of "EvStopService k"]
    this [of "EvRecycleService k"]
  show "parts_ok (startInstances t w) \<and> view (startInstances t w) = view w"
    and "parts_ok (w\<lparr>w_daemon := on_manager (\<lambda>m. snd (StopService k m)) (w_daemon w)\<rparr>) \<and>
      view (w\<lparr>w_daemon := on_manager (\<lambda>m. snd (StopService k m)) (w_daemon w)\<rparr>) = view w"
    and "parts_ok (w\<lparr>w_daemon := on_manager (\<lambda>m. snd (RecycleServiceInstances k m)) (w_daemon w)\<rparr>) \<and>
      view (w\<lparr>w_daemon := on_manager (\<lambda>m. snd (RecycleServiceInstances k m)) (w_daemon w)\<rparr>) = view w"
    unfolding startInstances_def
    using manager_step [OF ok] d
    by (simp_all add: on_manager_def GetTask_StartServiceInstances GetTask_StopService GetTask_Recycle)
qed

lemma publish_step:
  assumes ok: "parts_ok w" and t: "task_ok t"
  shows "touches (Name t) w (publishTask t w)"
    and "view (publishTask t w) (Name t) = (Some t, entry_in w (Name t), Some t)"
    and "w_sched (publishTask t w) = w_sched w"
proof -
  note d = parts_daemon [OF ok]
  have inv: "daemon_inv (UpsertTask t (w_daemon w))"
    using UpsertTask_inv [of "w_daemon w" t] d t by simp
  have named: "tasks_named (AList.update (Name t) t (w_registry w))"
    using ok set_update_subset [of "Name t" t "w_registry w"]
    by (auto simp: parts_ok_def tasks_named_def distinct_update)
  have v: "view (publishTask t w) = (\<lambda>j. (if j = Name t then Some t else map_of (w_registry w) j,
      entry_in w j, if j = Name t then Some t else GetTask (snd (w_daemon w)) j))"
    using d t by (auto simp: view_def publishTask_def entry_in_def GetTask_Upsert update_conv')
  have "view (publishTask t w) j = view w j" if "j \<noteq> Name t" for j
    using that by (simp add: v) (simp add: view_def)
  moreover have "parts_ok (publishTask t w)"
    using inv named ok by (auto simp: publishTask_def parts_ok_def cong: option.case_cong)
  ultimately show "touches (Name t) w (publishTask t w)"
    by (simp add: touches_def) (simp add: publishTask_def)
  show "view (publishTask t w) (Name t) = (Some t, entry_in w (Name t), Some t)" by (simp add: v)
  show "w_sched (publishTask t w) = w_sched w" by (simp add: publishTask_def)
qed

lemma register_step:
  assumes ok: "parts_ok w"
  shows "parts_ok (register down now t w)" "view (register down now t w) = view w"
    "has_sched (register down now t w) = has_sched w" "zone_of (register down now t w) = zone_of w"
proof -
  have a: "sched_inv (adoptPause k at s, st)" if "sched_inv (s, st')" for k at s st st'
    by (rule sched_inv_cong [OF that]) (simp_all add: adoptPause_def)
  have e: "entry_of (adoptPause k at s) = entry_of s" "location (adoptPause k at s) = location s" for k at s
    by (simp_all add: adoptPause_def entry_of_def fun_eq_iff)
  show "parts_ok (register down now t w)"
    using ok a sched_inv_store by (auto simp: register_def parts_ok_def split: prod.split option.split) blast+
  show "view (register down now t w) = view w"
    using e by (cases "w_sched w")
      (auto simp: register_def view_def entry_in_def fun_eq_iff split: prod.split option.split)
  show "has_sched (register down now t w) = has_sched w"
    by (auto simp: register_def has_sched_def split: prod.split option.split)
  show "zone_of (register down now t w) = zone_of w"
    using e by (auto simp: register_def zone_of_def split: prod.split option.split)
qed

lemma anchor_step:
  assumes ok: "parts_ok w"
  shows "parts_ok (anchorNewlySchedulable down now a b w)" "view (anchorNewlySchedulable down now a b w) = view w"
    "has_sched (anchorNewlySchedulable down now a b w) = has_sched w"
    "zone_of (anchorNewlySchedulable down now a b w) = zone_of w"
  using register_step [OF ok] by (simp_all add: anchorNewlySchedulable_def ok)

text \<open>Changes of the scheduler only.\<close>

lemma sched_change:
  assumes ok: "parts_ok w"
    and f: "\<And>s. w_sched w = Some s \<Longrightarrow> sched_inv (f s, w_store w) \<and> location (f s) = location s
      \<and> (\<forall>j. j \<noteq> k \<longrightarrow> entry_of (f s) j = entry_of s j) \<and> entry_of (f s) k = e"
  shows "touches k w (w\<lparr>w_sched := map_option f (w_sched w)\<rparr>)"
    and "view (w\<lparr>w_sched := map_option f (w_sched w)\<rparr>) k =
      (map_of (w_registry w) k, if has_sched w then e else None, GetTask (snd (w_daemon w)) k)"
  using ok f by (auto simp: touches_def parts_ok_def view_def entry_in_def zone_of_def has_sched_def
      split: option.split)

lemma remove_step:
  assumes inv: "sched_inv (s, st)"
  shows "sched_inv (Sched_RemoveTask k s, st) \<and> location (Sched_RemoveTask k s) = location s
    \<and> entry_of (Sched_RemoveTask k s) = (entry_of s)(k := None)"
  using sched_step_inv [OF inv, of "SvRemove k" undefined]
    sched_step_refines [OF inv, of "SvRemove k" undefined]
  by (simp add: table_of_def)

lemma add_step:
  assumes inv: "sched_inv (s, st)" and free: "entry_of s (Name t) = None"
  shows "sched_inv (snd (Sched_AddTask lib t s), st) \<and> location (snd (Sched_AddTask lib t s)) = location s
    \<and> (\<forall>j. j \<noteq> Name t \<longrightarrow> entry_of (snd (Sched_AddTask lib t s)) j = entry_of s j)
    \<and> entry_of (snd (Sched_AddTask lib t s)) (Name t) = (if Schedulable t then want lib (location s) t else None)"
proof -
  have "map_of (entryIDs s) (Name t) = None"
    using entry_of_None [of s "Name t"] inv free by (simp add: sched_inv_def)
  with sched_step_inv [OF inv, of "SvAdd t" lib] sched_step_refines [OF inv, of "SvAdd t" lib] free
  show ?thesis by (auto simp: table_of_def split: option.splits if_splits)
qed

lemma reschedule_step:
  assumes inv: "sched_inv (s, st)"
  shows "sched_inv (rescheduleChanged lib t s, st) \<and> location (rescheduleChanged lib t s) = location s
    \<and> (\<forall>j. j \<noteq> Name t \<longrightarrow> entry_of (rescheduleChanged lib t s) j = entry_of s j)
    \<and> entry_of (rescheduleChanged lib t s) (Name t) = (if Schedulable t then want lib (location s) t else None)"
proof -
  note r = remove_step [OF inv, of "Name t"]
  have "entry_of (Sched_RemoveTask (Name t) s) (Name t) = None" using r by simp
  with add_step [of "Sched_RemoveTask (Name t) s" st t lib] r show ?thesis
    by (simp add: rescheduleChanged_def Let_def)
qed

section \<open>The steps of a reload\<close>

lemma wantedD:
  "tasks_named ts \<Longrightarrow> map_of ts (Name t) = Some t \<Longrightarrow>
     wanted lib z ts (Name t) = (if Schedulable t then want lib z t else None)"
  by (simp add: wanted_def)

lemma applyRemoved_step:
  assumes ok: "parts_ok w"
  shows "touches k w (applyRemoved k w)" "view (applyRemoved k w) k = (None, None, None)"
proof -
  note d = parts_daemon [OF ok]
  have inv: "daemon_inv (RemoveTask k (w_daemon w))"
    using RemoveTask_inv [of "w_daemon w" k] d by simp
  have named: "tasks_named (AList.delete k (w_registry w))"
    using ok set_delete_subset [of k "w_registry w"]
    by (auto simp: parts_ok_def tasks_named_def distinct_delete)
  have s: "sched_inv (Sched_RemoveTask k s, st) \<and> location (Sched_RemoveTask k s) = location s
    \<and> entry_of (Sched_RemoveTask k s) = (entry_of s)(k := None)" if "w_sched w = Some s" for s st
    using ok that sched_inv_store by (intro remove_step) (auto simp: parts_ok_def)
  have v: "view (applyRemoved k w) = (\<lambda>j. if j = k then (None, None, None) else view w j)"
    using d s by (cases "w_sched w")
      (auto simp: view_def applyRemoved_def entry_in_def GetTask_Remove delete_conv' fun_eq_iff)
  then show "view (applyRemoved k w) k = (None, None, None)" by simp
  have "parts_ok (applyRemoved k w)"
    using inv named s by (auto simp: applyRemoved_def parts_ok_def split: option.split)
  moreover have "zone_of (applyRemoved k w) = zone_of w" "has_sched (applyRemoved k w) = has_sched w"
    using s by (auto simp: zone_of_def has_sched_def applyRemoved_def split: option.split)
  ultimately show "touches k w (applyRemoved k w)" using v by (simp add: touches_def)
qed

lemma applyAdded_step:
  assumes ok: "parts_ok w" and t: "valid_task lib t"
    and free: "view w (Name t) = (None, None, None)"
  shows "touches (Name t) w (applyAdded lib down now t w)"
    "view (applyAdded lib down now t w) (Name t) =
      (Some t, if has_sched w \<and> Schedulable t then want lib (zone_of w) t else None, Some t)"
proof -
  let ?k = "Name t"
  let ?w1 = "if Schedulable t then register down now t w else w"
  have w1: "parts_ok ?w1" "view ?w1 = view w" "has_sched ?w1 = has_sched w" "zone_of ?w1 = zone_of w"
    using register_step [OF ok] ok by simp_all
  have tok: "task_ok t" using t by (simp add: valid_task_def)
  let ?w2 = "publishTask t ?w1"
  note p = publish_step [OF w1(1) tok]
  have ok2: "parts_ok ?w2" using p(1) by (simp add: touches_def)
  have e1: "entry_in ?w1 ?k = None" using w1(2) free by (simp add: view_def fun_eq_iff)
  have t2: "touches ?k w ?w2" using p(1) w1 by (simp add: touches_def)
  have v2: "view ?w2 ?k = (Some t, None, Some t)" using p(2) e1 by simp
  show "touches ?k w (applyAdded lib down now t w)"
    "view (applyAdded lib down now t w) ?k =
      (Some t, if has_sched w \<and> Schedulable t then want lib (zone_of w) t else None, Some t)"
  proof -
    consider "IsService (TKind t)" | "\<not> IsService (TKind t)" "Schedulable t" | "\<not> IsService (TKind t)" "\<not> Schedulable t"
      by blast
    then have "touches ?k w (applyAdded lib down now t w) \<and>
      view (applyAdded lib down now t w) ?k =
        (Some t, if has_sched w \<and> Schedulable t then want lib (zone_of w) t else None, Some t)"
    proof cases
      case 1
      then have "\<not> Schedulable t" using t by (simp add: valid_task_def Schedulable_def)
      moreover have "has_sched (startInstances t ?w2) = has_sched ?w2" "zone_of (startInstances t ?w2) = zone_of ?w2"
        by (simp_all add: startInstances_def)
      ultimately show ?thesis using 1 service_steps(1) [OF ok2, of t] t2 v2
        by (simp add: applyAdded_def Let_def touches_def)
    next
      case 2
      let ?w3 = "?w2\<lparr>w_sched := map_option (\<lambda>s. snd (Sched_AddTask lib t s)) (w_sched ?w2)\<rparr>"
      have s: "sched_inv (snd (Sched_AddTask lib t s), w_store ?w2) \<and>
          location (snd (Sched_AddTask lib t s)) = location s \<and>
          (\<forall>j. j \<noteq> ?k \<longrightarrow> entry_of (snd (Sched_AddTask lib t s)) j = entry_of s j) \<and>
          entry_of (snd (Sched_AddTask lib t s)) ?k = want lib (zone_of w) t"
        if s: "w_sched ?w2 = Some s" for s
      proof -
        have "sched_inv (s, w_store ?w2)" using ok2 s by (simp add: parts_ok_def)
        moreover have "entry_of s ?k = None" using v2 s by (simp add: view_def entry_in_def)
        moreover have "location s = zone_of w" using t2 s by (simp add: touches_def zone_of_def)
        ultimately show ?thesis using add_step [of s "w_store ?w2" t lib] 2(2) by simp
      qed
      note c = sched_change [OF ok2, of "\<lambda>s. snd (Sched_AddTask lib t s)" ?k "want lib (zone_of w) t", OF s]
      have "has_sched ?w2 = has_sched w" using t2 by (simp add: touches_def)
      with c v2 2 touches_trans [OF t2 c(1)] show ?thesis
        by (simp add: applyAdded_def Let_def) (simp add: view_def)
    next
      case 3
      with t2 v2 show ?thesis by (simp add: applyAdded_def Let_def)
    qed
    then show "touches ?k w (applyAdded lib down now t w)"
      "view (applyAdded lib down now t w) ?k =
        (Some t, if has_sched w \<and> Schedulable t then want lib (zone_of w) t else None, Some t)"
      by blast+
  qed
qed

lemma want_cong:
  "Name a = Name b \<Longrightarrow> Cron a = Cron b \<Longrightarrow> Timezone a = Timezone b \<Longrightarrow> want lib z a = want lib z b"
  by (simp add: want_def)

lemma changeReasons_schedule:
  assumes "ReasonSchedule \<notin> set (changeReasons a b)"
  shows "Cron a = Cron b \<and> Timezone a = Timezone b \<and> HeldBy a = HeldBy b"
proof (cases "sameDefinition a b")
  case True
  then have "Cron (a\<lparr>Source := SourceNative, SourceFile := []\<rparr>) = Cron (b\<lparr>Source := SourceNative, SourceFile := []\<rparr>)"
    "Timezone (a\<lparr>Source := SourceNative, SourceFile := []\<rparr>) = Timezone (b\<lparr>Source := SourceNative, SourceFile := []\<rparr>)"
    "HeldBy (a\<lparr>Source := SourceNative, SourceFile := []\<rparr>) = HeldBy (b\<lparr>Source := SourceNative, SourceFile := []\<rparr>)"
    by (simp_all only: sameDefinition_def)
  then show ?thesis by simp
next
  case False
  with assms show ?thesis by (auto simp: changeReasons_def Let_def split: if_splits)
qed

lemma changeReasons_Nil: "changeReasons a b = [] \<longleftrightarrow> sameDefinition a b"
  by (simp add: changeReasons_def Let_def)

lemma sameDefinition_eq:
  assumes "sameDefinition a b" "Source a = Source b" "SourceFile a = SourceFile b"
  shows "a = b"
proof -
  have "a = a\<lparr>Source := SourceNative, SourceFile := []\<rparr>\<lparr>Source := Source a, SourceFile := SourceFile a\<rparr>"
    by simp
  also have "\<dots> = b\<lparr>Source := SourceNative, SourceFile := []\<rparr>\<lparr>Source := Source b, SourceFile := SourceFile b\<rparr>"
    using assms by (simp only: sameDefinition_def)
  also have "\<dots> = b" by simp
  finally show ?thesis .
qed

lemma applyChanged_step:
  assumes ok: "parts_ok w" and t: "valid_task lib new" and n: "Name old = Name new"
    and reasons: "tc_Reasons c = changeReasons old new"
    and e: "if has_sched w then same_firing (entry_in w (Name new)) (if Schedulable old then want lib (zone_of w) old else None)
      else entry_in w (Name new) = None"
  shows "touches (Name new) w (snd (applyChanged lib down now c old new w))
    \<and> (\<exists>x. view (snd (applyChanged lib down now c old new w)) (Name new) = (Some new, x, Some new)
      \<and> (if has_sched w then same_firing x (if Schedulable new then want lib (zone_of w) new else None) else x = None))"
proof -
  let ?k = "Name new"
  let ?w1 = "if IsService (TKind old) \<and> \<not> IsService (TKind new)
    then w\<lparr>w_daemon := on_manager (\<lambda>m. snd (StopService (Name old) m)) (w_daemon w)\<rparr> else w"
  let ?w2 = "anchorNewlySchedulable down now old new (publishTask new ?w1)"
  let ?re = "ReasonSchedule \<in> set (tc_Reasons c) \<or> ReasonKind \<in> set (tc_Reasons c)"
  let ?w3 = "if ?re then ?w2\<lparr>w_sched := map_option (rescheduleChanged lib new) (w_sched ?w2)\<rparr> else ?w2"
  let ?good = "\<lambda>x. if has_sched w then same_firing x (if Schedulable new then want lib (zone_of w) new else None) else x = None"
  have w1: "parts_ok ?w1" "view ?w1 = view w" "has_sched ?w1 = has_sched w" "zone_of ?w1 = zone_of w" "w_sched ?w1 = w_sched w"
    using service_steps(2) [OF ok, of "Name old"] ok by simp_all
  have tok: "task_ok new" using t by (simp add: valid_task_def)
  note p = publish_step [OF w1(1) tok]
  have pok: "parts_ok (publishTask new ?w1)" using p(1) by (simp add: touches_def)
  note a = anchor_step [OF pok, of down now old new]
  have t2: "touches ?k w ?w2" using p(1) w1 a by (simp add: touches_def)
  have ok2: "parts_ok ?w2" using t2 by (simp add: touches_def)
  have "entry_in ?w1 = entry_in w" using w1(5) by (simp add: entry_in_def fun_eq_iff)
  then have v2: "view ?w2 ?k = (Some new, entry_in w ?k, Some new)" using p(2) a(2) by simp
  define w3 where "w3 = ?w3"
  have "touches ?k w w3 \<and> (\<exists>x. view w3 ?k = (Some new, x, Some new) \<and> ?good x)"
  proof (cases ?re)
    case True
    have s: "sched_inv (rescheduleChanged lib new s, w_store ?w2) \<and>
        location (rescheduleChanged lib new s) = location s \<and>
        (\<forall>j. j \<noteq> ?k \<longrightarrow> entry_of (rescheduleChanged lib new s) j = entry_of s j) \<and>
        entry_of (rescheduleChanged lib new s) ?k = (if Schedulable new then want lib (zone_of w) new else None)"
      if s: "w_sched ?w2 = Some s" for s
    proof -
      have "sched_inv (s, w_store ?w2)" using ok2 s by (simp add: parts_ok_def)
      moreover have "location s = zone_of w" using t2 s by (simp add: touches_def zone_of_def)
      ultimately show ?thesis using reschedule_step [of s "w_store ?w2" lib new] by simp
    qed
    note c = sched_change [OF ok2, of "rescheduleChanged lib new" ?k, OF s]
    have "has_sched ?w2 = has_sched w" using t2 by (simp add: touches_def)
    moreover have "map_of (w_registry ?w2) ?k = Some new" "GetTask (snd (w_daemon ?w2)) ?k = Some new"
      using v2 by (simp_all add: view_def)
    moreover have "w3 = ?w2\<lparr>w_sched := map_option (rescheduleChanged lib new) (w_sched ?w2)\<rparr>"
      using True by (simp add: w3_def)
    ultimately show ?thesis using touches_trans [OF t2 c(1)] c(2) by simp
  next
    case False
    then have w3: "w3 = ?w2" by (simp add: w3_def)
    have "ReasonSchedule \<notin> set (changeReasons old new)" using False reasons by simp
    note same = changeReasons_schedule [OF this]
    then have "Schedulable old = Schedulable new" by (simp add: Schedulable_def Held_def)
    moreover have "want lib z old = want lib z new" for z using same n by (intro want_cong) simp_all
    ultimately have "?good (entry_in w ?k)" using e by (simp split: if_splits)
    with t2 v2 show ?thesis unfolding w3 by (intro conjI exI [of _ "entry_in w ?k"])
  qed
  then obtain x where w3: "touches ?k w w3" "view w3 ?k = (Some new, x, Some new)" "?good x"
    by (elim conjE exE)
  have ok3: "parts_ok w3" using w3(1) by (simp add: touches_def)
  note svc = service_steps(1) [OF ok3, of new] service_steps(3) [OF ok3, of ?k]
  have st: "has_sched (startInstances new w3) = has_sched w3" "zone_of (startInstances new w3) = zone_of w3"
    by (simp_all add: startInstances_def)
  have r: "snd (applyChanged lib down now c old new w) =
      (if \<not> IsService (TKind new) then w3
       else if IsService (TKind old)
       then w3\<lparr>w_daemon := on_manager (\<lambda>m. snd (RecycleServiceInstances ?k m)) (w_daemon w3)\<rparr>
       else startInstances new w3)"
    unfolding applyChanged_def Let_def w3_def [symmetric] by simp
  have "touches ?k w w4 \<and> view w4 ?k = (Some new, x, Some new)"
    if "parts_ok w4" "view w4 = view w3" "has_sched w4 = has_sched w3" "zone_of w4 = zone_of w3" for w4
    using w3(1,2) that by (simp add: touches_def)
  from this [OF ok3] this [of "startInstances new w3"]
    this [of "w3\<lparr>w_daemon := on_manager (\<lambda>m. snd (RecycleServiceInstances ?k m)) (w_daemon w3)\<rparr>"]
  have "touches ?k w (snd (applyChanged lib down now c old new w))
      \<and> view (snd (applyChanged lib down now c old new w)) ?k = (Some new, x, Some new)"
    unfolding r using svc st by simp
  with w3(3) show ?thesis by blast
qed

lemma sameDefinition_want:
  assumes "sameDefinition a b"
  shows "Cron a = Cron b \<and> Timezone a = Timezone b \<and> HeldBy a = HeldBy b"
  using changeReasons_schedule [of a b] assms changeReasons_Nil [of a b] by simp

section \<open>What the diff says\<close>

definition change_of :: "(string \<times> Task) list \<Rightarrow> string \<times> Task \<Rightarrow> TaskChange option" where
  "change_of old p =
     (case map_of old (fst p) of
        None \<Rightarrow> None
      | Some o' \<Rightarrow> if sameDefinition o' (snd p) then None
          else Some \<lparr>tc_Name = fst p, tc_Reasons = changeReasons o' (snd p)\<rparr>)"

definition restamp_of :: "(string \<times> Task) list \<Rightarrow> string \<times> Task \<Rightarrow> bool" where
  "restamp_of old p \<longleftrightarrow>
     (case map_of old (fst p) of
        None \<Rightarrow> False
      | Some o' \<Rightarrow> sameDefinition o' (snd p)
          \<and> (Source o' \<noteq> Source (snd p) \<or> SourceFile o' \<noteq> SourceFile (snd p)))"

lemma diff_fold:
  "fold (diff_one old) ts d =
     \<lparr>Added = Added d @ map fst (filter (\<lambda>p. map_of old (fst p) = None) ts), Removed = Removed d,
      Changed = Changed d @ List.map_filter (change_of old) ts,
      Restamped = Restamped d @ map fst (filter (restamp_of old) ts)\<rparr>"
proof (induction ts arbitrary: d)
  case (Cons p ts)
  obtain k n where p: "p = (k, n)" by fastforce
  show ?case
    unfolding fold_simps(2) Cons.IH
    by (cases "map_of old k")
      (simp_all add: p diff_one_def change_of_def [of old "(k, n)"] restamp_of_def [of old "(k, n)"]
        map_filter_simps changeReasons_Nil)
qed (simp add: map_filter_simps)

lemma change_names:
  "map tc_Name (List.map_filter (change_of old) ts) = map fst (filter (\<lambda>p. change_of old p \<noteq> None) ts)"
proof (induction ts)
  case (Cons p ts)
  show ?case
    by (cases "map_of old (fst p)")
      (use Cons in \<open>simp_all add: change_of_def map_filter_simps\<close>)
qed (simp add: map_filter_simps)

lemma set_map_filter: "x \<in> set (List.map_filter f xs) \<longleftrightarrow> (\<exists>y\<in>set xs. f y = Some x)"
  by (force simp: List.map_filter_def)

lemma distinct_fst_filter: "distinct (map fst ts) \<Longrightarrow> distinct (map fst (filter P ts))"
  by (rule distinct_map_filter)

lemma DiffTasks_correct:
  assumes old: "distinct (map fst old)" and new: "distinct (map fst new)"
  shows "distinct (Removed (DiffTasks old new))" "distinct (Added (DiffTasks old new))"
    "distinct (map tc_Name (Changed (DiffTasks old new)))" "distinct (Restamped (DiffTasks old new))"
    and "k \<in> set (Removed (DiffTasks old new)) \<longleftrightarrow> map_of old k \<noteq> None \<and> map_of new k = None"
    and "k \<in> set (Added (DiffTasks old new)) \<longleftrightarrow> map_of old k = None \<and> map_of new k \<noteq> None"
    and "c \<in> set (Changed (DiffTasks old new)) \<longleftrightarrow> (\<exists>a b. map_of old (tc_Name c) = Some a
      \<and> map_of new (tc_Name c) = Some b \<and> \<not> sameDefinition a b \<and> tc_Reasons c = changeReasons a b)"
    and "k \<in> set (Restamped (DiffTasks old new)) \<longleftrightarrow> (\<exists>a b. map_of old k = Some a \<and> map_of new k = Some b
      \<and> sameDefinition a b \<and> (Source a \<noteq> Source b \<or> SourceFile a \<noteq> SourceFile b))"
proof -
  note new' = map_of_eq_Some_iff [OF new]
  have D: "DiffTasks old new =
      \<lparr>Added = sort (map fst (filter (\<lambda>p. map_of old (fst p) = None) new)),
       Removed = sort (filter (\<lambda>k. map_of new k = None) (map fst old)),
       Changed = sort_key tc_Name (List.map_filter (change_of old) new),
       Restamped = sort (map fst (filter (restamp_of old) new))\<rparr>"
    by (simp add: DiffTasks_def diff_fold no_diff_def)
  show "distinct (Removed (DiffTasks old new))" "distinct (Added (DiffTasks old new))"
    "distinct (Restamped (DiffTasks old new))"
    using old new by (simp_all add: D distinct_fst_filter)
  have "distinct (map tc_Name (List.map_filter (change_of old) new))"
    unfolding change_names by (rule distinct_fst_filter [OF new])
  then show "distinct (map tc_Name (Changed (DiffTasks old new)))"
    by (simp add: D distinct_map)
  show "k \<in> set (Removed (DiffTasks old new)) \<longleftrightarrow> map_of old k \<noteq> None \<and> map_of new k = None"
    by (auto simp: D map_of_eq_None_iff)
  have mem: "(\<exists>p\<in>set new. fst p = k \<and> P (snd p)) \<longleftrightarrow> (\<exists>b. map_of new k = Some b \<and> P b)" for k P
    by (force simp: new')
  show "k \<in> set (Added (DiffTasks old new)) \<longleftrightarrow> map_of old k = None \<and> map_of new k \<noteq> None"
    using mem [of k "\<lambda>_. True"] by (auto simp: D)
  show "k \<in> set (Restamped (DiffTasks old new)) \<longleftrightarrow> (\<exists>a b. map_of old k = Some a \<and> map_of new k = Some b
      \<and> sameDefinition a b \<and> (Source a \<noteq> Source b \<or> SourceFile a \<noteq> SourceFile b))"
  proof -
    have "k \<in> set (Restamped (DiffTasks old new)) \<longleftrightarrow> (\<exists>p\<in>set new. fst p = k \<and> restamp_of old (k, snd p))"
      by (force simp: D image_iff)
    also have "\<dots> \<longleftrightarrow> (\<exists>b. map_of new k = Some b \<and> restamp_of old (k, b))"
      by (rule mem)
    finally show ?thesis by (auto simp: restamp_of_def split: option.splits)
  qed
  show "c \<in> set (Changed (DiffTasks old new)) \<longleftrightarrow> (\<exists>a b. map_of old (tc_Name c) = Some a
      \<and> map_of new (tc_Name c) = Some b \<and> \<not> sameDefinition a b \<and> tc_Reasons c = changeReasons a b)"
  proof -
    have "c \<in> set (Changed (DiffTasks old new)) \<longleftrightarrow> (\<exists>p\<in>set new. change_of old p = Some c)"
      by (simp add: D set_map_filter)
    also have "\<dots> \<longleftrightarrow> (\<exists>p\<in>set new. fst p = tc_Name c \<and> change_of old (tc_Name c, snd p) = Some c)"
    proof -
      have nm: "change_of old p = Some c \<Longrightarrow> fst p = tc_Name c" for p
        by (auto simp: change_of_def split: option.splits if_splits)
      have "change_of old p = Some c \<longleftrightarrow> fst p = tc_Name c \<and> change_of old (tc_Name c, snd p) = Some c" for p
      proof (cases p)
        case (Pair k n)
        then show ?thesis using nm [of "(k, n)"] by (cases "k = tc_Name c") auto
      qed
      then show ?thesis by (rule bex_cong [OF refl])
    qed
    also have "\<dots> \<longleftrightarrow> (\<exists>b. map_of new (tc_Name c) = Some b \<and> change_of old (tc_Name c, b) = Some c)"
      by (rule mem)
    also have "\<dots> \<longleftrightarrow> (\<exists>a b. map_of old (tc_Name c) = Some a \<and> map_of new (tc_Name c) = Some b
        \<and> \<not> sameDefinition a b \<and> tc_Reasons c = changeReasons a b)"
    proof -
      have "change_of old (tc_Name c, b) = Some c \<longleftrightarrow> (\<exists>a. map_of old (tc_Name c) = Some a
          \<and> \<not> sameDefinition a b \<and> tc_Reasons c = changeReasons a b)" for b
        by (cases c) (auto simp: change_of_def split: option.split)
      then show ?thesis by (simp only:) metis
    qed
    finally show ?thesis .
  qed
qed

lemma tasksByName_named: "tasks_named (tasksByName cfg)"
proof -
  have "tasks_named (fold (\<lambda>t. AList.update (Name t) t) us al)" if "tasks_named al" for us al
    using that
  proof (induction us arbitrary: al)
    case (Cons t us)
    have "tasks_named (AList.update (Name t) t al)"
      using Cons.prems set_update_subset [of "Name t" t al] by (auto simp: tasks_named_def distinct_update)
    from Cons.IH [OF this] show ?case by simp
  qed simp
  from this [of "[]" "cf_Tasks cfg"] show ?thesis by (simp add: tasksByName_def tasks_named_def)
qed

lemma set_tasksByName: "(k, t) \<in> set (tasksByName cfg) \<Longrightarrow> t \<in> set (cf_Tasks cfg)"
proof -
  have "snd ` set (fold (\<lambda>t. AList.update (Name t) t) us al) \<subseteq> set us \<union> snd ` set al" for us and al :: "(string \<times> Task) list"
  proof (induction us arbitrary: al)
    case (Cons t us)
    have "snd ` set (AList.update (Name t) t al) \<subseteq> insert t (snd ` set al)"
      using set_update_subset [of "Name t" t al] by auto
    with Cons.IH [of "AList.update (Name t) t al"] show ?case by (simp only: fold_simps list.set) blast
  qed simp
  from this [of "cf_Tasks cfg" "[]"] show "(k, t) \<in> set (tasksByName cfg) \<Longrightarrow> ?thesis"
    by (force simp: tasksByName_def)
qed

lemma valid_configD:
  assumes "valid_config lib cfg" "map_of (tasksByName cfg) k = Some t"
  shows "valid_task lib t" "Name t = k"
  using assms set_tasksByName [of k t cfg] tasks_namedD [OF tasksByName_named assms(2)]
  by (auto simp: valid_config_def list_all_iff dest: map_of_SomeD)

section \<open>Applying a diff\<close>

lemma settledD:
  assumes "settled lib has z ts k (r, e, g)"
  shows "r = map_of ts k" "g = map_of ts k" "has \<Longrightarrow> same_firing e (wanted lib z ts k)" "\<not> has \<Longrightarrow> e = None"
  using assms by (simp_all add: settled_def)

lemma wanted_Some: "map_of ts k = Some t \<Longrightarrow> wanted lib z ts k = (if Schedulable t then want lib z t else None)"
  by (simp add: wanted_def)

lemma wanted_None: "map_of ts k = None \<Longrightarrow> wanted lib z ts k = None"
  by (simp add: wanted_def)

definition valid_tasks :: "cronLib \<Rightarrow> (string \<times> Task) list \<Rightarrow> bool" where
  "valid_tasks lib ts \<longleftrightarrow> tasks_named ts \<and> list_all (valid_task lib \<circ> snd) ts"

lemma valid_tasksD:
  "valid_tasks lib ts \<Longrightarrow> map_of ts k = Some t \<Longrightarrow> valid_task lib t \<and> Name t = k"
  using map_of_SomeD [of ts k t] tasks_namedD [of ts k t]
  by (fastforce simp: valid_tasks_def list_all_iff)

lemma valid_tasksByName: "valid_config lib cfg \<Longrightarrow> valid_tasks lib (tasksByName cfg)"
  using set_tasksByName [of _ _ cfg] tasksByName_named [of cfg]
  by (auto simp: valid_tasks_def valid_config_def list_all_iff)

lemma added_settles:
  assumes new: "valid_tasks lib new" and ok: "parts_ok w" "has_sched w = has" "zone_of w = z"
    and st: "settled lib has z old k (view w k)" and k: "map_of old k = None" "map_of new k = Some t"
  shows "touches k w (apply_added_one lib down now new k w)
    \<and> settled lib has z new k (view (apply_added_one lib down now new k w) k)"
proof -
  have n: "Name t = k" "valid_task lib t" using valid_tasksD [OF new k(2)] by simp_all
  obtain r e g where v: "view w k = (r, e, g)" by (metis prod_cases3)
  from settledD [OF st [unfolded v]] k(1) have "view w (Name t) = (None, None, None)"
    by (cases has) (simp_all add: v n wanted_None)
  from applyAdded_step [OF ok(1) n(2) this, of down now] n ok(2,3) show ?thesis
    by (simp add: apply_added_one_def k(2) settled_def wanted_Some [OF k(2)])
qed

lemma restamped_settles:
  assumes old: "tasks_named old" and new: "valid_tasks lib new" and ok: "parts_ok w" "has_sched w = has" "zone_of w = z"
    and st: "settled lib has z old k (view w k)"
    and k: "map_of old k = Some a" "map_of new k = Some b" "sameDefinition a b"
  shows "touches k w (apply_restamped_one new k w)
    \<and> settled lib has z new k (view (apply_restamped_one new k w) k)"
proof -
  have n: "Name b = k" "Name a = k"
    using valid_tasksD [OF new k(2)] tasks_namedD [OF old k(1)] by simp_all
  have "task_ok b" using valid_tasksD [OF new k(2)] by (simp add: valid_task_def)
  note p = publish_step [OF ok(1) this]
  note same = sameDefinition_want [OF k(3)]
  have "wanted lib z new k = wanted lib z old k"
    using same n want_cong [of b a lib z]
    by (simp add: wanted_Some [OF k(1)] wanted_Some [OF k(2)] Schedulable_def Held_def)
  moreover obtain r e g where v: "view w k = (r, e, g)" by (metis prod_cases3)
  moreover have "e = entry_in w k" using v by (simp add: view_def)
  ultimately show ?thesis using p n settledD [OF st [unfolded v]]
    by (simp add: apply_restamped_one_def k(2) settled_def)
qed

lemma changed_settles:
  assumes old: "tasks_named old" and new: "valid_tasks lib new" and ok: "parts_ok (snd ww)" "has_sched (snd ww) = has" "zone_of (snd ww) = z"
    and st: "settled lib has z old (tc_Name c) (view (snd ww) (tc_Name c))"
    and k: "map_of old (tc_Name c) = Some a" "map_of new (tc_Name c) = Some b" "tc_Reasons c = changeReasons a b"
  shows "touches (tc_Name c) (snd ww) (snd (apply_changed_one lib down now old new c ww))
    \<and> settled lib has z new (tc_Name c) (view (snd (apply_changed_one lib down now old new c ww)) (tc_Name c))"
proof -
  let ?w = "snd ww"
  have n: "Name a = Name b" "Name b = tc_Name c" "valid_task lib b"
    using valid_tasksD [OF new k(2)] tasks_namedD [OF old k(1)] by simp_all
  obtain r e g where v: "view ?w (tc_Name c) = (r, e, g)" by (metis prod_cases3)
  have e: "e = entry_in ?w (tc_Name c)" using v by (simp add: view_def)
  have e: "if has_sched ?w then same_firing (entry_in ?w (Name b)) (if Schedulable a then want lib (zone_of ?w) a else None)
      else entry_in ?w (Name b) = None"
    using settledD [OF st [unfolded v]] e ok n(2) wanted_Some [OF k(1), of lib z] by (auto split: if_splits)
  have one: "snd (apply_changed_one lib down now old new c ww) = snd (applyChanged lib down now c a b ?w)"
    by (simp add: apply_changed_one_def k(1,2) split_beta)
  from applyChanged_step [OF ok(1) n(3,1) k(3) e, of down now]
  show ?thesis unfolding one n(2) using wanted_Some [OF k(2), of lib z] ok(2,3) k(2)
    by (auto simp: settled_def)
qed

lemma settled_cong: "map_of ts k = map_of us k \<Longrightarrow> settled lib has z ts k v = settled lib has z us k v"
proof -
  assume eq: "map_of ts k = map_of us k"
  then have "wanted lib z ts k = wanted lib z us k" by (simp add: wanted_def)
  with eq show ?thesis by (simp only: settled_def)
qed

text \<open>New windows and pruned pauses leave the entries alone.\<close>

lemma finish_step:
  assumes ok: "parts_ok w" and ts: "tasks_named ts"
    and w'_def: "w' = (case w_sched w of None \<Rightarrow> w | Some s \<Rightarrow>
      case PrunePauses down now ts (if b then RecomputeJitter lib now ts s else s, w_store w) of
        (cleared, s2, st) \<Rightarrow> w\<lparr>w_sched := Some s2, w_store := st\<rparr>)"
  shows "parts_ok w' \<and> has_sched w' = has_sched w \<and> zone_of w' = zone_of w \<and> view w' = view w"
proof (cases "w_sched w")
  case None
  then show ?thesis using ok by (simp add: w'_def)
next
  case (Some s)
  let ?s = "if b then RecomputeJitter lib now ts s else s"
  obtain c s2 st where p: "PrunePauses down now ts (?s, w_store w) = (c, s2, st)" by (metis prod_cases3)
  have inv: "sched_inv (s, w_store w)" using ok Some by (simp add: parts_ok_def)
  have "sched_inv (?s, w_store w)"
    using sched_step_inv [OF inv, of "SvRecompute now ts" lib] inv ts by simp
  moreover have t: "table_of s2 = table_of ?s"
    using sched_step_refines [OF calculation, of "SvPrune down now ts" lib] p by simp
  ultimately have "sched_inv (s2, st)"
    using sched_step_inv [of ?s "w_store w" "SvPrune down now ts" lib] p by simp
  moreover have "entry_of ?s = entry_of s \<and> location ?s = location s"
    using sched_step_refines [OF inv, of "SvRecompute now ts" lib] ts by (simp add: table_of_def)
  ultimately show ?thesis using ok t Some p
    by (simp add: w'_def parts_ok_def has_sched_def zone_of_def view_def entry_in_def table_of_def fun_eq_iff)
qed

lemma apply_diff_settles:
  assumes old: "tasks_named old" and new: "valid_tasks lib new" and ok: "parts_ok w"
    and st: "\<And>k. settled lib (has_sched w) (zone_of w) old k (view w k)"
    and w': "apply_diff lib down now (DiffTasks old new) old new w = (ws, w')"
  shows "parts_ok w' \<and> has_sched w' = has_sched w \<and> zone_of w' = zone_of w
    \<and> (\<forall>k. settled lib (has_sched w) (zone_of w) new k (view w' k))"
proof -
  define d where "d = DiffTasks old new"
  define goal where "goal = settled lib (has_sched w) (zone_of w) new"
  have dist: "distinct (map fst old)" "distinct (map fst new)"
    using old new by (simp_all add: tasks_named_def valid_tasks_def)
  note D = DiffTasks_correct [OF dist, folded d_def]
  define w1 where "w1 = fold applyRemoved (Removed d) w"
  define w2 where "w2 = (if Removed d \<noteq> [] then
    w1\<lparr>w_store := snd (ForgetTaskRegistrationsExcept down (map fst new) (w_store w1))\<rparr> else w1)"
  define w3 where "w3 = fold (apply_added_one lib down now new) (Added d) w2"
  obtain ws4 w4 where r4: "fold (apply_changed_one lib down now old new) (Changed d) ([], w3) = (ws4, w4)" by fastforce
  define w5 where "w5 = fold (apply_restamped_one new) (Restamped d) w4"
  have p1: "parts_ok w1 \<and> has_sched w1 = has_sched w \<and> zone_of w1 = zone_of w
    \<and> (\<forall>k. if k \<in> (\<lambda>k. k) ` set (Removed d) then view w1 k = (None, None, None) else view w1 k = view w k)"
    unfolding w1_def
  proof (rule fold_touches [where pr = "\<lambda>w. w" and Q = "\<lambda>k v. v = (None, None, None)"])
    show "distinct (map (\<lambda>k. k) (Removed d))" using D(1) by simp
  qed (use ok applyRemoved_step in auto)
  have p2: "parts_ok w2" "has_sched w2 = has_sched w" "zone_of w2 = zone_of w" "view w2 = view w1"
    using p1 by (simp_all add: w2_def)
  have same2: "view w2 k = view w k" if "map_of new k \<noteq> None" for k
    using p1 p2(4) D(5) [of k] that by simp
  have p3: "parts_ok w3 \<and> has_sched w3 = has_sched w2 \<and> zone_of w3 = zone_of w2
    \<and> (\<forall>k. if k \<in> (\<lambda>k. k) ` set (Added d) then goal k (view w3 k) else view w3 k = view w2 k)"
    unfolding w3_def
  proof (rule fold_touches [where pr = "\<lambda>w. w"])
    show "distinct (map (\<lambda>k. k) (Added d))" using D(2) by simp
    fix k b
    assume k: "k \<in> set (Added d)" and b: "parts_ok b" "has_sched b = has_sched w2" "zone_of b = zone_of w2"
      "view b k = view w2 k"
    from k D(6) [of k] obtain t where t: "map_of old k = None" "map_of new k = Some t" by auto
    have "settled lib (has_sched w) (zone_of w) old k (view b k)" using b(4) same2 [of k] t(2) st [of k] by simp
    from added_settles [OF new b(1) _ _ this t] b p2
    show "touches k b (apply_added_one lib down now new k b) \<and> goal k (view (apply_added_one lib down now new k b) k)"
      by (simp add: goal_def)
  qed (use p2 in simp)
  have p4: "parts_ok w4 \<and> has_sched w4 = has_sched w3 \<and> zone_of w4 = zone_of w3
    \<and> (\<forall>k. if k \<in> tc_Name ` set (Changed d) then goal k (view w4 k) else view w4 k = view w3 k)"
  proof -
    have "parts_ok (snd (fold (apply_changed_one lib down now old new) (Changed d) ([], w3))) \<and>
      has_sched (snd (fold (apply_changed_one lib down now old new) (Changed d) ([], w3))) = has_sched (snd ([]::reloadWarning list, w3)) \<and>
      zone_of (snd (fold (apply_changed_one lib down now old new) (Changed d) ([], w3))) = zone_of (snd ([]::reloadWarning list, w3)) \<and>
      (\<forall>k. if k \<in> tc_Name ` set (Changed d)
         then goal k (view (snd (fold (apply_changed_one lib down now old new) (Changed d) ([], w3))) k)
         else view (snd (fold (apply_changed_one lib down now old new) (Changed d) ([], w3))) k = view (snd ([]::reloadWarning list, w3)) k)"
    proof (rule fold_touches [where pr = snd])
      show "distinct (map tc_Name (Changed d))" by (rule D(3))
      fix c and b :: "reloadWarning list \<times> 'a world"
      assume c: "c \<in> set (Changed d)" and b: "parts_ok (snd b)" "has_sched (snd b) = has_sched (snd ([]::reloadWarning list, w3))"
        "zone_of (snd b) = zone_of (snd ([]::reloadWarning list, w3))"
        "view (snd b) (tc_Name c) = view (snd ([]::reloadWarning list, w3)) (tc_Name c)"
      from c D(7) [of c] obtain x y where k: "map_of old (tc_Name c) = Some x" "map_of new (tc_Name c) = Some y"
        "tc_Reasons c = changeReasons x y" by auto
      have "tc_Name c \<notin> (\<lambda>k. k) ` set (Added d)" using D(6) [of "tc_Name c"] k(1) by auto
      then have "view w3 (tc_Name c) = view w2 (tc_Name c)" using p3 by presburger
      then have "settled lib (has_sched w) (zone_of w) old (tc_Name c) (view (snd b) (tc_Name c))"
        using b(4) same2 [of "tc_Name c"] k(2) st [of "tc_Name c"] by simp
      from changed_settles [OF old new b(1) _ _ this k] b p2 p3
      show "touches (tc_Name c) (snd b) (snd (apply_changed_one lib down now old new c b)) \<and>
          goal (tc_Name c) (view (snd (apply_changed_one lib down now old new c b)) (tc_Name c))"
        by (simp add: goal_def)
    qed (use p3 in simp)
    then show ?thesis unfolding r4 snd_conv .
  qed
  have p5: "parts_ok w5 \<and> has_sched w5 = has_sched w4 \<and> zone_of w5 = zone_of w4
    \<and> (\<forall>k. if k \<in> (\<lambda>k. k) ` set (Restamped d) then goal k (view w5 k) else view w5 k = view w4 k)"
    unfolding w5_def
  proof (rule fold_touches [where pr = "\<lambda>w. w"])
    show "distinct (map (\<lambda>k. k) (Restamped d))" using D(4) by simp
    fix k b
    assume k: "k \<in> set (Restamped d)" and b: "parts_ok b" "has_sched b = has_sched w4" "zone_of b = zone_of w4"
      "view b k = view w4 k"
    from k D(8) [of k] obtain x y where t: "map_of old k = Some x" "map_of new k = Some y" "sameDefinition x y" by auto
    have "k \<notin> tc_Name ` set (Changed d)"
    proof
      assume "k \<in> tc_Name ` set (Changed d)"
      then obtain c where "c \<in> set (Changed d)" "k = tc_Name c" by blast
      with D(7) [of c] t show False by auto
    qed
    moreover have "k \<notin> (\<lambda>k. k) ` set (Added d)" using D(6) [of k] t(1) by auto
    ultimately have "view w4 k = view w2 k" using p3 p4 by presburger
    then have "settled lib (has_sched w) (zone_of w) old k (view b k)" using b(4) same2 [of k] t(2) st [of k] by simp
    from restamped_settles [OF old new b(1) _ _ this t] b p2 p3 p4
    show "touches k b (apply_restamped_one new k b) \<and> goal k (view (apply_restamped_one new k b) k)"
      by (simp add: goal_def)
  qed (use p4 in simp)
  have rest: "goal k (view w5 k)" if "map_of old k = Some x" "map_of new k = Some y" "sameDefinition x y"
    "k \<notin> set (Restamped d)" for k x y
  proof -
    from that(1,2,3) that(4) D(8) [of k] have "Source x = Source y" "SourceFile x = SourceFile y" by auto
    from sameDefinition_eq [OF that(3) this] have eq: "map_of new k = map_of old k" using that by simp
    have "k \<notin> tc_Name ` set (Changed d)"
    proof
      assume "k \<in> tc_Name ` set (Changed d)"
      then obtain c where "c \<in> set (Changed d)" "k = tc_Name c" by blast
      with D(7) [of c] that show False by auto
    qed
    moreover have "k \<notin> (\<lambda>k. k) ` set (Added d)" using D(6) [of k] that(1) by auto
    ultimately have "view w5 k = view w2 k" using that(4) p3 p4 p5 by (metis image_ident)
    then show ?thesis using same2 [of k] that(2) st [of k] settled_cong [OF eq] by (simp add: goal_def)
  qed
  have g5: "goal k (view w5 k)" for k
  proof (cases "map_of new k")
    case None
    then have out: "k \<notin> (\<lambda>k. k) ` set (Added d)" "k \<notin> (\<lambda>k. k) ` set (Restamped d)" using D(6,8) [of k] by auto
    have "k \<notin> tc_Name ` set (Changed d)"
    proof
      assume "k \<in> tc_Name ` set (Changed d)"
      then obtain c where "c \<in> set (Changed d)" "k = tc_Name c" by blast
      with D(7) [of c] None show False by auto
    qed
    with out have v: "view w5 k = view w1 k" using p3 p4 p5 p2(4) by presburger
    show ?thesis
    proof (cases "map_of old k")
      case None
      then have "k \<notin> (\<lambda>k. k) ` set (Removed d)" using D(5) [of k] by auto
      then have "view w1 k = view w k" using p1 by presburger
      then show ?thesis using v st [of k] settled_cong [of new k old] None \<open>map_of new k = None\<close>
        by (simp add: goal_def)
    next
      case (Some x)
      then have "k \<in> (\<lambda>k. k) ` set (Removed d)" using D(5) [of k] \<open>map_of new k = None\<close> by auto
      then have "view w1 k = (None, None, None)" using p1 by presburger
      then show ?thesis using v \<open>map_of new k = None\<close> by (simp add: goal_def settled_def wanted_None)
    qed
  next
    case new: (Some y)
    show ?thesis
    proof (cases "k \<in> (\<lambda>k. k) ` set (Restamped d)")
      case True
      then show ?thesis using p5 by presburger
    next
      case nr: False
      show ?thesis
      proof (cases "k \<in> tc_Name ` set (Changed d)")
        case True
        then have "goal k (view w4 k)" using p4 by presburger
        then show ?thesis using nr p5 by presburger
      next
        case nc: False
        show ?thesis
        proof (cases "map_of old k")
          case None
          then have "k \<in> (\<lambda>k. k) ` set (Added d)" using new D(6) [of k] by auto
          then have "goal k (view w3 k)" using p3 by presburger
          then show ?thesis using nr nc p4 p5 by presburger
        next
          case (Some x)
          have "sameDefinition x y"
          proof (rule ccontr)
            assume "\<not> sameDefinition x y"
            with Some new D(7) [of "\<lparr>tc_Name = k, tc_Reasons = changeReasons x y\<rparr>"]
            have "\<lparr>tc_Name = k, tc_Reasons = changeReasons x y\<rparr> \<in> set (Changed d)" by simp
            with nc show False by force
          qed
          then show ?thesis using rest [OF Some new] nr by simp
        qed
      qed
    qed
  qed
  have r: "w' = (case w_sched w5 of None \<Rightarrow> w5 | Some s \<Rightarrow>
      case PrunePauses down now new (if Added d \<noteq> [] \<or> Removed d \<noteq> [] \<or> Changed d \<noteq> []
          then RecomputeJitter lib now new s else s, w_store w5) of
        (cleared, s2, st) \<Rightarrow> w5\<lparr>w_sched := Some s2, w_store := st\<rparr>)"
  proof -
    have "snd (apply_diff lib down now d old new w) = (case w_sched w5 of None \<Rightarrow> w5 | Some s \<Rightarrow>
      case PrunePauses down now new (if Added d \<noteq> [] \<or> Removed d \<noteq> [] \<or> Changed d \<noteq> []
          then RecomputeJitter lib now new s else s, w_store w5) of
        (cleared, s2, st) \<Rightarrow> w5\<lparr>w_sched := Some s2, w_store := st\<rparr>)"
      unfolding apply_diff_def w1_def [symmetric] Let_def w2_def [symmetric] w3_def [symmetric] r4 prod.case
        w5_def [symmetric]
      by (cases "w_sched w5") (simp_all add: split_beta cong: if_cong)
    with w' show ?thesis by (simp add: d_def)
  qed
  have ok5: "parts_ok w5" "has_sched w5 = has_sched w" "zone_of w5 = zone_of w"
    using p2 p3 p4 p5 by simp_all
  have "tasks_named new" using new by (simp add: valid_tasks_def)
  from finish_step [OF ok5(1) this, OF r]
  show ?thesis using g5 ok5(2,3) by (simp add: goal_def)
qed

section \<open>Another zone\<close>

lemma want_zone:
  assumes "valid_task lib t" "want lib z t = Some e"
  shows "\<exists>e'. want lib z' t = Some e' \<and> e_task e' = e_task e \<and> e_schedule e' = e_schedule e
    \<and> (Timezone t \<noteq> [] \<longrightarrow> e' = e)"
  using assms by (cases "Timezone t = []")
    (auto simp: want_def Resolve_spec_def valid_task_def Let_def)

lemma want_zone_None: "want lib z t = None \<Longrightarrow> want lib z' t = None"
  by (cases "Timezone t = []") (auto simp: want_def Resolve_spec_def Let_def)

lemma rebased_settles:
  assumes ts: "valid_tasks lib ts" and st: "settled lib True z ts k (r, e, g)"
  shows "settled lib True z' ts k
    (r, if follows_daemon e (map_of ts k) then want lib z' (the (map_of ts k)) else e, g)"
proof -
  note st = settledD [OF st]
  show ?thesis
  proof (cases "wanted lib z ts k")
    case None
    then have "e = None" using st(3) by simp
    moreover have "wanted lib z' ts k = None"
      using None want_zone_None by (auto simp: wanted_def split: option.splits if_splits)
    ultimately show ?thesis using st by (simp add: settled_def follows_daemon_def)
  next
    case (Some f)
    then obtain t where t: "map_of ts k = Some t" "Schedulable t" "want lib z t = Some f"
      by (auto simp: wanted_def split: option.splits if_splits)
    then have w': "wanted lib z' ts k = want lib z' t" by (simp add: wanted_def)
    from want_zone [OF _ t(3), of z'] valid_tasksD [OF ts t(1)] obtain f' where
      f': "want lib z' t = Some f'" "e_task f' = e_task f" "e_schedule f' = e_schedule f" "Timezone t \<noteq> [] \<longrightarrow> f' = f"
      by blast
    from st(3) Some obtain e0 where e: "e = Some e0" "e_task e0 = e_task f" "e_schedule e0 = e_schedule f"
      "e_loc e0 = e_loc f \<or> sched_fixed (e_schedule e0)"
      by (auto simp: same_firing_def split: option.splits)
    have "same_firing (if follows_daemon e (map_of ts k) then want lib z' t else e) (want lib z' t)"
      using e f' by (auto simp: follows_daemon_def t(1) same_firing_def)
    with st t(1) w' show ?thesis by (simp add: settled_def cong: if_cong)
  qed
qed

lemma zone_step:
  assumes ok: "parts_ok w" and ts: "valid_tasks lib ts" and s: "w_sched w = Some s"
    and st: "\<forall>k. settled lib True (location s) ts k (view w k)"
    and w': "w' = w\<lparr>w_sched := Some (snd (SetLocation lib now z ts s))\<rparr>"
  shows "parts_ok w' \<and> has_sched w' \<and> zone_of w' = z \<and> (\<forall>k. settled lib True z ts k (view w' k))"
proof -
  have inv: "sched_inv (s, w_store w)" using ok s by (simp add: parts_ok_def)
  have named: "tasks_named ts" using ts by (simp add: valid_tasks_def)
  let ?s = "snd (SetLocation lib now z ts s)"
  have inv': "sched_inv (?s, w_store w)"
    using sched_step_inv [OF inv, of "SvSetLocation now z ts" lib] named by simp
  have t: "location ?s = z" "entry_of ?s = (\<lambda>k. if follows_daemon (entry_of s k) (map_of ts k)
      then want lib z (the (map_of ts k)) else entry_of s k)"
    using sched_step_refines [OF inv, of "SvSetLocation now z ts" lib] named by (simp_all add: table_of_def cong: if_cong)
  have "settled lib True z ts k (view w' k)" for k
    using rebased_settles [OF ts st [rule_format, of k, unfolded view_def], of z]
    by (simp add: w' view_def entry_in_def s t(2) cong: if_cong)
  with ok inv' t(1) show ?thesis by (simp add: w' parts_ok_def s has_sched_def zone_of_def)
qed

section \<open>A reload\<close>

lemma keep_system_valid:
  assumes "valid_config lib b" "valid_config lib cfg"
  shows "valid_config lib (keep_system_zone b cfg)"
  using assms by (simp add: valid_config_def keep_system_zone_def)

lemma syncCronWatcher_frame [simp]:
  "in_step lib (syncCronWatcher w) = in_step lib w" "w_baseline (syncCronWatcher w) = w_baseline w"
  "w_pinned (syncCronWatcher w) = w_pinned w"
  by (simp_all add: syncCronWatcher_def in_step_def split_beta)

lemma in_stepD:
  assumes "in_step lib w"
  shows "parts_ok w" "valid_config lib (w_baseline w)"
    "has_sched w \<Longrightarrow> ResolveTimezone lib (cf_Timezone (w_baseline w)) = Some (Some (zone_of w))"
    "settled lib (has_sched w) (zone_of w) (w_registry w) k (view w k)"
    "map_of (w_registry w) = map_of (tasksByName (w_baseline w))"
proof -
  show "parts_ok w" "valid_config lib (w_baseline w)"
    "has_sched w \<Longrightarrow> ResolveTimezone lib (cf_Timezone (w_baseline w)) = Some (Some (zone_of w))"
    using assms by (simp_all add: in_step_def)
  have st: "settled lib (has_sched w) (zone_of w) (tasksByName (w_baseline w)) k (view w k)" for k
    using assms by (simp add: in_step_def)
  have "map_of (w_registry w) k = map_of (tasksByName (w_baseline w)) k" for k
    using st [of k] by (simp add: settled_def view_def)
  then show eq: "map_of (w_registry w) = map_of (tasksByName (w_baseline w))" by (rule ext)
  show "settled lib (has_sched w) (zone_of w) (w_registry w) k (view w k)"
    using st settled_cong [of "w_registry w" k "tasksByName (w_baseline w)"] eq by simp
qed

text \<open>The end of a reload whose configuration is \<open>new\<close> and whose new zone, if it has one, is \<open>loc\<close>.\<close>

lemma reload_settles:
  assumes old: "in_step lib w" and new: "valid_config lib new"
    and loc: "case loc of None \<Rightarrow> cf_Timezone new = cf_Timezone (w_baseline w)
      | Some z \<Rightarrow> ResolveTimezone lib (cf_Timezone new) = Some (Some z)"
    and w2: "w2 = w\<lparr>w_global := g\<rparr> \<or> w2 = w\<lparr>w_global := g, w_zone := z'\<rparr>"
    and w3: "apply_diff lib down now (DiffTasks (w_registry w) (tasksByName new)) (w_registry w) (tasksByName new) w2 = (ws, w3)"
    and w4: "w4 = (case (loc, w_sched w3) of
      (Some z, Some s) \<Rightarrow> w3\<lparr>w_sched := Some (snd (SetLocation lib now z (tasksByName new) s))\<rparr> | _ \<Rightarrow> w3)"
  shows "in_step lib (w4\<lparr>w_baseline := new, w_pinned := p\<rparr>)"
proof -
  note old = in_stepD [OF old]
  have same: "parts_ok w2" "view w2 = view w" "has_sched w2 = has_sched w" "zone_of w2 = zone_of w"
    using old(1) w2 by auto
  have reg: "tasks_named (w_registry w)" using old(1) by (simp add: parts_ok_def)
  note ts = valid_tasksByName [OF new]
  from apply_diff_settles [OF reg ts same(1) _ w3] old(4) same
  have p3: "parts_ok w3" "has_sched w3 = has_sched w" "zone_of w3 = zone_of w"
    "\<forall>k. settled lib (has_sched w) (zone_of w) (tasksByName new) k (view w3 k)" by simp_all
  have "parts_ok w4 \<and> (has_sched w4 \<longrightarrow> ResolveTimezone lib (cf_Timezone new) = Some (Some (zone_of w4)))
    \<and> (\<forall>k. settled lib (has_sched w4) (zone_of w4) (tasksByName new) k (view w4 k))"
  proof (cases "\<exists>z s. loc = Some z \<and> w_sched w3 = Some s")
    case True
    then obtain z s where zs: "loc = Some z" "w_sched w3 = Some s" by blast
    then have "has_sched w" "location s = zone_of w" using p3(2,3) by (simp_all add: has_sched_def zone_of_def)
    with zone_step [OF p3(1) ts zs(2) _ refl, of now z] p3(4) w4 zs loc show ?thesis by simp
  next
    case False
    then have w4: "w4 = w3" using w4 by (auto split: option.splits)
    have "ResolveTimezone lib (cf_Timezone new) = Some (Some (zone_of w))" if "has_sched w"
    proof -
      have "w_sched w3 \<noteq> None" using that p3(2) by (simp add: has_sched_def)
      with False loc have "cf_Timezone new = cf_Timezone (w_baseline w)" by (auto split: option.splits)
      with old(3) [OF that] show ?thesis by simp
    qed
    with p3 show ?thesis by (simp add: w4)
  qed
  with new show ?thesis by (simp add: in_step_def)
qed

section \<open>A refresh of the holds\<close>

lemma map_of_tasksByName:
  assumes "distinct (map Name ts)"
  shows "map_of (fold (\<lambda>t. AList.update (Name t) t) ts al) k =
    (case find (\<lambda>t. Name t = k) ts of None \<Rightarrow> map_of al k | Some t \<Rightarrow> Some t)"
  using assms
proof (induction ts arbitrary: al)
  case (Cons t ts)
  have "find (\<lambda>u. Name u = Name t) ts = None" using Cons.prems by (simp add: find_None_iff) (metis image_eqI)
  with Cons show ?case by (auto simp: update_conv' split: option.split)
qed simp

lemma lookup_task:
  assumes "distinct (map Name (cf_Tasks cfg))"
  shows "map_of (tasksByName cfg) k = find (\<lambda>t. Name t = k) (cf_Tasks cfg)"
  using map_of_tasksByName [OF assms, of "[]" k] by (simp add: tasksByName_def split: option.splits)

lemma find_named: "distinct (map Name ts) \<Longrightarrow> t \<in> set ts \<Longrightarrow> find (\<lambda>u. Name u = Name t) ts = Some t"
proof (induction ts)
  case (Cons u ts)
  have "Name t \<noteq> Name u" if "t \<in> set ts" using Cons.prems(1) that by (auto simp: image_iff)
  with Cons show ?case by auto
qed simp

lemma find_map_mark: "find (\<lambda>t. Name t = k) (map (mark_task st) ts) = map_option (mark_task st) (find (\<lambda>t. Name t = k) ts)"
  by (induction ts) simp_all

lemma mark_valid: "valid_task lib t \<Longrightarrow> valid_task lib (mark_task st t)"
  by (simp add: valid_task_def mark_task_def task_ok_def)

lemma mark_valid_config:
  assumes "valid_config lib cfg"
  shows "valid_config lib (cfg\<lparr>cf_cronDaemon := st, cf_Tasks := map (mark_task st) (cf_Tasks cfg)\<rparr>)"
  using assms mark_valid by (auto simp: valid_config_def list_all_iff o_def)

lemma recompute_step:
  assumes ok: "parts_ok w" and ts: "tasks_named ts"
  shows "parts_ok (w\<lparr>w_sched := map_option (RecomputeJitter lib now ts) (w_sched w)\<rparr>)
    \<and> has_sched (w\<lparr>w_sched := map_option (RecomputeJitter lib now ts) (w_sched w)\<rparr>) = has_sched w
    \<and> zone_of (w\<lparr>w_sched := map_option (RecomputeJitter lib now ts) (w_sched w)\<rparr>) = zone_of w
    \<and> view (w\<lparr>w_sched := map_option (RecomputeJitter lib now ts) (w_sched w)\<rparr>) = view w"
proof (cases "w_sched w")
  case (Some s)
  have inv: "sched_inv (s, w_store w)" using ok Some by (simp add: parts_ok_def)
  have "sched_inv (RecomputeJitter lib now ts s, w_store w)"
    using sched_step_inv [OF inv, of "SvRecompute now ts" lib] ts by simp
  moreover have "entry_of (RecomputeJitter lib now ts s) = entry_of s" "location (RecomputeJitter lib now ts s) = location s"
    using sched_step_refines [OF inv, of "SvRecompute now ts" lib] ts by (simp_all add: table_of_def)
  ultimately show ?thesis using ok Some
    by (simp add: parts_ok_def zone_of_def has_sched_def view_def entry_in_def fun_eq_iff)
qed (use ok in \<open>simp add: has_sched_def view_def entry_in_def fun_eq_iff parts_ok_def zone_of_def\<close>)

text \<open>What the list of flipped names reports, while the registry knows them.\<close>

lemma refresh_reports:
  assumes "\<And>k. k \<in> set ks \<Longrightarrow> map_of new k \<noteq> None" "\<And>k. k \<in> set ks \<Longrightarrow> map_of (w_registry (snd a)) k \<noteq> None"
  shows "fst (fold (refresh_one lib down now new) ks a) =
    \<lparr>Released = Released (fst a) @ filter (\<lambda>k. \<not> Held (the (map_of new k))) ks,
     HeldNames = HeldNames (fst a) @ filter (\<lambda>k. Held (the (map_of new k))) ks\<rparr>"
  using assms
proof (induction ks arbitrary: a)
  case (Cons k ks)
  obtain t o' where k: "map_of new k = Some t" "map_of (w_registry (snd a)) k = Some o'" using Cons.prems by force
  have reg: "w_registry (snd (refresh_one lib down now new k a)) = AList.update (Name t) t (w_registry (snd a))"
    by (simp add: refresh_one_def split_beta k Let_def publishTask_def anchorNewlySchedulable_def register_def
        split: option.split)
  have "map_of (w_registry (snd (refresh_one lib down now new k a))) j \<noteq> None" if "j \<in> set ks" for j
    using that Cons.prems(2) by (simp add: reg update_conv')
  moreover have "fst (refresh_one lib down now new k a) =
      (if Held t then (fst a)\<lparr>HeldNames := HeldNames (fst a) @ [k]\<rparr>
       else (fst a)\<lparr>Released := Released (fst a) @ [k]\<rparr>)"
    by (simp add: refresh_one_def split_beta k Let_def)
  ultimately show ?case using Cons.IH [of "refresh_one lib down now new k a"] Cons.prems(1) k
    by (simp only: fold_simps) simp
qed simp

lemma refresh_one_step:
  assumes new: "valid_tasks lib new" and ok: "parts_ok (snd a)"
    and k: "map_of new k = Some t" "map_of (w_registry (snd a)) k = Some oldTask" and n: "Name oldTask = k"
  shows "touches k (snd a) (snd (refresh_one lib down now new k a))
    \<and> settled lib (has_sched (snd a)) (zone_of (snd a)) new k (view (snd (refresh_one lib down now new k a)) k)
    \<and> fst (refresh_one lib down now new k a) =
      (if Held t then (fst a)\<lparr>HeldNames := HeldNames (fst a) @ [k]\<rparr>
       else (fst a)\<lparr>Released := Released (fst a) @ [k]\<rparr>)"
proof -
  let ?w = "snd a"
  let ?w1 = "anchorNewlySchedulable down now oldTask t (publishTask t ?w)"
  let ?w2 = "?w1\<lparr>w_sched := map_option (rescheduleChanged lib t) (w_sched ?w1)\<rparr>"
  have t: "Name t = k" "task_ok t" using valid_tasksD [OF new k(1)] by (simp_all add: valid_task_def)
  note p = publish_step [OF ok t(2)]
  have pok: "parts_ok (publishTask t ?w)" using p(1) by (simp add: touches_def)
  note an = anchor_step [OF pok, of down now oldTask t]
  have t1: "touches k ?w ?w1" using p(1) an t(1) by (simp add: touches_def)
  have ok1: "parts_ok ?w1" "has_sched ?w1 = has_sched ?w" "zone_of ?w1 = zone_of ?w"
    using t1 by (simp_all add: touches_def)
  have v1: "view ?w1 k = (Some t, entry_in ?w k, Some t)" using p(2) an(2) t(1) by simp
  have s: "sched_inv (rescheduleChanged lib t s, w_store ?w1) \<and>
      location (rescheduleChanged lib t s) = location s \<and>
      (\<forall>j. j \<noteq> k \<longrightarrow> entry_of (rescheduleChanged lib t s) j = entry_of s j) \<and>
      entry_of (rescheduleChanged lib t s) k = (if Schedulable t then want lib (zone_of ?w) t else None)"
    if s: "w_sched ?w1 = Some s" for s
  proof -
    have "sched_inv (s, w_store ?w1)" using ok1(1) s by (simp add: parts_ok_def)
    moreover have "location s = zone_of ?w" using ok1(3) s by (simp add: zone_of_def)
    ultimately show ?thesis using reschedule_step [of s "w_store ?w1" lib t] t(1) by simp
  qed
  note c = sched_change [OF ok1(1), of "rescheduleChanged lib t" k, OF s]
  have g: "map_of (w_registry ?w1) k = Some t" "GetTask (snd (w_daemon ?w1)) k = Some t"
    using v1 by (simp_all add: view_def)
  have r: "refresh_one lib down now new k a = (if Held t then (fst a)\<lparr>HeldNames := HeldNames (fst a) @ [k]\<rparr>
       else (fst a)\<lparr>Released := Released (fst a) @ [k]\<rparr>, ?w2)"
    by (simp add: refresh_one_def split_beta k Let_def)
  have "touches k ?w ?w2" using touches_trans [OF t1 c(1)] .
  moreover have "settled lib (has_sched ?w) (zone_of ?w) new k (view ?w2 k)"
    using c(2) g ok1(2) wanted_Some [OF k(1), of lib "zone_of ?w"] k(1) by (simp add: settled_def)
  ultimately show ?thesis by (simp add: r)
qed

section \<open>The operations of the reconciler\<close>

lemma Reconcile_keeps:
  assumes "in_step lib w" and "valid_config lib cfg"
    and "Reconcile lib hook down now (Some cfg) w = (res, w')"
  shows "case res of
      Inl err \<Rightarrow> w' = w
    | Inr r \<Rightarrow> in_step lib w' \<and> w_baseline w' = keep_system_zone (w_baseline w) cfg
        \<and> w_pinned w' = w_baseline w'
        \<and> rr_diff r = DiffTasks (w_registry w) (tasksByName (w_baseline w'))"
proof (cases "\<exists>r. res = Inr r")
  case False
  then have "w' = w" using assms(3)
    by (auto simp: Reconcile_def Let_def split_beta split: option.splits if_splits)
  with False show ?thesis by (auto split: sum.split)
next
  case True
  let ?new = "keep_system_zone (w_baseline w) cfg"
  let ?moved = "cf_Timezone ?new \<noteq> cf_Timezone (w_baseline w)"
  have new: "valid_config lib ?new"
    using keep_system_valid [OF _ assms(2)] assms(1) by (simp add: in_step_def)
  from True assms(3) obtain loc keys commit where
    loc: "(if ?moved then ResolveTimezone lib (cf_Timezone ?new) else Some None) = Some loc"
    and "(case hook of None \<Rightarrow> Some ([], id) | Some h \<Rightarrow> h (w_baseline w) ?new) = Some (keys, commit)"
    and nr: "CheckNonReloadable (w_baseline w) cfg = None"
    by (auto simp: Reconcile_def Let_def split: option.splits if_splits)
  note hook = this(2)
  define w2 where "w2 = (case loc of None \<Rightarrow> w\<lparr>w_global := commit (w_global w)\<rparr>
    | Some z \<Rightarrow> w\<lparr>w_global := commit (w_global w), w_zone := Some z\<rparr>)"
  obtain ws w3 where w3: "apply_diff lib down now (DiffTasks (w_registry w) (tasksByName ?new)) (w_registry w)
    (tasksByName ?new) w2 = (ws, w3)" by fastforce
  define w4 where "w4 = (case (loc, w_sched w3) of
      (Some z, Some s) \<Rightarrow> w3\<lparr>w_sched := Some (snd (SetLocation lib now z (tasksByName ?new) s))\<rparr> | _ \<Rightarrow> w3)"
  have "w2 = w\<lparr>w_global := commit (w_global w)\<rparr> \<or> w2 = w\<lparr>w_global := commit (w_global w), w_zone := loc\<rparr>"
    by (simp add: w2_def split: option.split)
  moreover have "case loc of None \<Rightarrow> cf_Timezone ?new = cf_Timezone (w_baseline w)
      | Some z \<Rightarrow> ResolveTimezone lib (cf_Timezone ?new) = Some (Some z)"
    using loc new by (auto simp: valid_config_def ResolveTimezone_def split: if_splits option.splits)
  ultimately have step: "in_step lib (w4\<lparr>w_baseline := ?new, w_pinned := ?new\<rparr>)"
    using reload_settles [OF assms(1) new _ _ w3 w4_def] by blast
  have "w' = syncCronWatcher (w4\<lparr>w_baseline := ?new, w_pinned := ?new\<rparr>)
    \<and> (\<exists>ws' ks. res = Inr \<lparr>rr_diff = DiffTasks (w_registry w) (tasksByName ?new), rr_Settings = ks, rr_Warnings = ws'\<rparr>)"
  proof (cases loc)
    case None
    with assms(3) nr loc hook w3 show ?thesis
      by (auto simp: Reconcile_def Let_def w2_def w4_def)
  next
    case (Some z)
    with assms(3) nr loc hook w3 show ?thesis
      by (cases "w_sched w3") (auto simp: Reconcile_def Let_def w2_def w4_def split: prod.splits)
  qed
  with step show ?thesis by auto
qed

lemma RefreshCronHolds_keeps:
  assumes "in_step lib w"
    and "RefreshCronHolds lib down now state w = (out, w')"
  shows "in_step lib w' \<and> holds_right state (w_baseline w')
    \<and> HeldNames out = map Name (filter (\<lambda>t. HeldBy t \<noteq> wantedHold state t \<and> wantedHold state t = HeldByCron)
        (cf_Tasks (w_baseline w)))
    \<and> Released out = map Name (filter (\<lambda>t. HeldBy t \<noteq> wantedHold state t \<and> wantedHold state t = HeldByNothing)
        (cf_Tasks (w_baseline w)))"
proof (cases "holds_right state (w_baseline w)")
  case True
  then have "w' = w" "out = \<lparr>Released = [], HeldNames = []\<rparr>" using assms(2)
    by (simp_all add: RefreshCronHolds_def WithCronHold_cases)
  moreover have "filter (\<lambda>t. HeldBy t \<noteq> wantedHold state t \<and> P t) (cf_Tasks (w_baseline w)) = []" for P
    using True by (simp add: holds_right_def filter_empty_conv)
  ultimately show ?thesis using assms(1) True by simp
next
  case False
  let ?b = "w_baseline w"
  let ?new = "?b\<lparr>cf_cronDaemon := state, cf_Tasks := map (mark_task state) (cf_Tasks ?b)\<rparr>"
  let ?ts = "tasksByName ?new"
  define flips where "flips = filter (\<lambda>t. HeldBy t \<noteq> wantedHold state t) (cf_Tasks ?b)"
  let ?f = "refresh_one lib down now ?ts"
  note old = in_stepD [OF assms(1)]
  have new: "valid_config lib ?new" by (rule mark_valid_config [OF old(2)])
  note ts = valid_tasksByName [OF new]
  have dist: "distinct (map Name (cf_Tasks ?b))" "distinct (map Name (cf_Tasks ?new))"
    using old(2) new by (simp_all add: valid_config_def)
  note look = lookup_task [OF dist(1)] lookup_task [OF dist(2)]
  have lk: "map_of ?ts k = map_option (mark_task state) (map_of (tasksByName ?b) k)" for k
    using look [of k] by (simp add: find_map_mark)
  have changed: "flips \<noteq> []" using False by (auto simp: flips_def holds_right_def filter_empty_conv)
  have dn: "distinct (map Name flips)" using dist(1) by (simp add: flips_def distinct_map_filter)
  have mem: "map_of (tasksByName ?b) (Name t) = Some t" if "t \<in> set flips" for t
  proof -
    have "t \<in> set (cf_Tasks ?b)" using that by (simp add: flips_def)
    with find_named [OF dist(1) this] look(1) show ?thesis by simp
  qed
  obtain out1 w1 where r: "fold ?f (map Name flips) (\<lparr>Released = [], HeldNames = []\<rparr>, w) = (out1, w1)" by fastforce
  have one: "touches k (snd a) (snd (?f k a))
      \<and> settled lib (has_sched (snd a)) (zone_of (snd a)) ?ts k (view (snd (?f k a)) k)"
    if k: "k \<in> set (map Name flips)" and a: "parts_ok (snd a)" "view (snd a) k = view w k" for k a
  proof -
    from k obtain t where t: "t \<in> set flips" "k = Name t" by auto
    have "map_of (w_registry (snd a)) k = Some t"
      using a(2) mem [OF t(1)] old(5) t(2) by (simp add: view_def)
    moreover have "map_of ?ts k = Some (mark_task state t)" using lk mem [OF t(1)] t(2) by simp
    ultimately show ?thesis using refresh_one_step [OF ts a(1)] t(2) by blast
  qed
  have "parts_ok w1 \<and> has_sched w1 = has_sched w \<and> zone_of w1 = zone_of w
    \<and> (\<forall>k. if k \<in> Name ` set flips then settled lib (has_sched w) (zone_of w) ?ts k (view w1 k)
         else view w1 k = view w k)"
  proof -
    let ?a = "(\<lparr>Released = [], HeldNames = []\<rparr>, w)" and ?ks = "map Name flips"
    let ?z = "snd (fold ?f ?ks ?a)"
    have "parts_ok ?z \<and> has_sched ?z = has_sched (snd ?a) \<and> zone_of ?z = zone_of (snd ?a)
      \<and> (\<forall>k. if k \<in> (\<lambda>k. k) ` set ?ks then settled lib (has_sched w) (zone_of w) ?ts k (view ?z k)
           else view ?z k = view (snd ?a) k)"
    proof (rule fold_touches)
      show "distinct (map (\<lambda>k. k) ?ks)" using dn by simp
      fix k and b :: "CronHoldChange \<times> 'a world"
      assume k: "k \<in> set ?ks" and b: "parts_ok (snd b)" "has_sched (snd b) = has_sched (snd ?a)"
        "zone_of (snd b) = zone_of (snd ?a)" "view (snd b) k = view (snd ?a) k"
      show "touches k (snd b) (snd (?f k b)) \<and> settled lib (has_sched w) (zone_of w) ?ts k (view (snd (?f k b)) k)"
        using one [OF k b(1)] b(2-4) by simp
    qed (use old(1) in simp)
    then show ?thesis unfolding r by (simp cong: if_cong)
  qed
  moreover have "settled lib (has_sched w) (zone_of w) ?ts k (view w k)" if "k \<notin> Name ` set flips" for k
  proof -
    have "mark_task state t = t" if "map_of (tasksByName ?b) k = Some t" for t
    proof -
      from that look(1) have "t \<in> set (cf_Tasks ?b)" "Name t = k" by (auto simp: find_Some_iff)
      with \<open>k \<notin> Name ` set flips\<close> show ?thesis by (auto simp: flips_def)
    qed
    then have "map_of ?ts k = map_of (w_registry w) k"
      using lk [of k] old(5) by (cases "map_of (tasksByName ?b) k") auto
    from settled_cong [OF this] old(4) show ?thesis by simp
  qed
  ultimately have p1: "parts_ok w1" "has_sched w1 = has_sched w" "zone_of w1 = zone_of w"
    "\<forall>k. settled lib (has_sched w) (zone_of w) ?ts k (view w1 k)"
    by (simp_all split: if_splits) metis
  have lookup: "map_of ?ts (Name t) = Some (mark_task state t)" "map_of (w_registry w) (Name t) = Some t"
    if "t \<in> set flips" for t
    using mem [OF that] lk old(5) by simp_all
  have "fst (fold ?f (map Name flips) (\<lparr>Released = [], HeldNames = []\<rparr>, w)) =
    \<lparr>Released = filter (\<lambda>k. \<not> Held (the (map_of ?ts k))) (map Name flips),
     HeldNames = filter (\<lambda>k. Held (the (map_of ?ts k))) (map Name flips)\<rparr>"
    by (subst refresh_reports) (use lookup in force)+
  moreover have "filter (\<lambda>k. Held (the (map_of ?ts k))) (map Name flips) =
      map Name (filter (\<lambda>t. wantedHold state t = HeldByCron) flips)"
    "filter (\<lambda>k. \<not> Held (the (map_of ?ts k))) (map Name flips) =
      map Name (filter (\<lambda>t. wantedHold state t = HeldByNothing) flips)"
    unfolding filter_map o_def using lookup(1)
    by (auto intro!: arg_cong [of _ _ "map Name"] filter_cong simp: Held_def wantedHold_def split: if_splits)
  ultimately have outs: "out1 = \<lparr>Released = map Name (filter (\<lambda>t. wantedHold state t = HeldByNothing) flips),
      HeldNames = map Name (filter (\<lambda>t. wantedHold state t = HeldByCron) flips)\<rparr>"
    using r by simp
  have some: "HeldNames out1 @ Released out1 \<noteq> []"
    using changed by (cases flips) (auto simp: outs wantedHold_def)
  let ?w2 = "w1\<lparr>w_sched := map_option (RecomputeJitter lib now ?ts) (w_sched w1)\<rparr>"
  have named: "tasks_named ?ts" by (rule tasksByName_named)
  have "parts_ok ?w2 \<and> has_sched ?w2 = has_sched w1 \<and> zone_of ?w2 = zone_of w1 \<and> view ?w2 = view w1"
    using recompute_step [OF p1(1) named] by simp
  moreover have "out = out1 \<and> w' = ?w2\<lparr>w_baseline := ?new\<rparr>"
  proof -
    from False have "WithCronHold ?b state = (?new, map Name flips)" by (simp add: WithCronHold_cases flips_def)
    with assms(2) show ?thesis
      unfolding RefreshCronHolds_def Let_def prod.case if_P [OF some] by (simp add: r changed some [simplified])
  qed
  ultimately have "in_step lib w'"
    using p1 new old(3) by (simp add: in_step_def)
  moreover have "holds_right state ?new" by (auto simp: holds_right_def)
  ultimately show ?thesis using \<open>out = out1 \<and> _\<close> by (simp add: outs flips_def conj_commute)
qed

end
