(* ===== verification/Definitions_Kept.thy ===== *)
theory Definitions_Kept
  imports Reload_Manager
begin

text \<open>
  Which operations change a definition: only registering, mutating and removing a task do. No run,
  service control, timer, recovery or shutdown step does, as long as no ephemeral task is
  registered.
\<close>

lemma GetTask_put_state:
  "taskStateFor m k = Some ts \<Longrightarrow> ts_task ts' = ts_task ts \<Longrightarrow> GetTask (put_state k ts' m) = GetTask m"
proof -
  assume ts: "taskStateFor m k = Some ts" "ts_task ts' = ts_task ts"
  show ?thesis
  proof (cases "map_of (tasks m) k")
    case None
    have "GetTask (m\<lparr>removedTasks := AList.update k ts' (removedTasks m)\<rparr>) = GetTask m"
      by (rule GetTask_cong) simp
    with None show ?thesis by (simp add: put_state_def)
  next
    case (Some t)
    with ts have "t = ts" by (simp add: taskStateFor_def)
    with Some ts GetTask_put_same [of m k ts ts'] show ?thesis by (simp add: put_state_def)
  qed
qed

lemma GetTask_drain_loop: "GetTask (drain_loop q k m) = GetTask m"
proof (induction q k m rule: drain_loop.induct)
  case (1 k m)
  then show ?case by (auto simp: drain_wait_def GetTask_put_state split: option.split)
next
  case (2 r rest k m)
  then show ?case
    by (auto simp: drain_wait_def GetTask_put_state GetTask_startRun split: option.split)
qed

lemma GetTask_queueProcessLoop: "GetTask (queueProcessLoop k m) = GetTask m"
  by (auto simp: queueProcessLoop_def GetTask_drain_loop split: option.split)

lemma GetTask_mark_live: "GetTask (mark_live task run m) = GetTask m"
  by (auto simp: mark_live_def GetTask_put_same split: option.split)

lemma GetTask_execute_begin: "GetTask (execute_begin k rid m) = GetTask m"
  by (auto simp: execute_begin_def Let_def GetTask_mark_live GetTask_put_state split: option.split)

lemma GetTask_markServiceHealthy: "GetTask (markServiceHealthy k run m) = GetTask m"
  by (auto simp: markServiceHealthy_def GetTask_put_state split: option.split)

lemma GetTask_phantom: "GetTask (snd (recordPhantomRun k at e b msg m)) = GetTask m"
  by (auto simp: recordPhantomRun_def Let_def split: option.split prod.split)
    (metis GetTask_frames(3) snd_conv)

lemma GetTask_scheduleFollowup: "GetTask (scheduleFollowup task run a m) = GetTask m"
  by (rule GetTask_cong) (simp add: scheduleFollowup_def)

lemma GetTask_follow: "mgr_inv m \<Longrightarrow> GetTask (follow f m) = GetTask m"
proof -
  have "GetTask (spawn_wait g m) = GetTask m" for g by (rule GetTask_cong) (simp add: spawn_wait_def)
  then show "mgr_inv m \<Longrightarrow> GetTask (follow f m) = GetTask m"
    by (cases f) (auto simp: retry_now_def restart_now_def GetTask_Trigger Let_def split: option.split)
qed

lemma GetTask_run_followup: "mgr_inv m \<Longrightarrow> GetTask (run_followup i m) = GetTask m"
proof -
  assume inv: "mgr_inv m"
  let ?m = "m\<lparr>followups := take i (followups m) @ drop (Suc i) (followups m)\<rparr>"
  have "set (take i (followups m) @ drop (Suc i) (followups m)) \<subseteq> set (followups m)"
    using set_take_subset set_drop_subset by fastforce
  with inv have "mgr_inv ?m" by (intro inv_followups) (auto simp: mgr_inv_def)
  from GetTask_follow [OF this] GetTask_cong [of ?m m] show ?thesis by (simp add: run_followup_def)
qed

lemma GetTask_update_first:
  "update_active_first P f al = Some al' \<Longrightarrow> map_option ts_task (map_of al' k) = map_option ts_task (map_of al k)"
proof (induction al arbitrary: al')
  case (Cons p al)
  then show ?case by (cases p) (auto split: option.splits)
qed simp

lemma GetTask_update_any: "update_any_active P f m = Some m' \<Longrightarrow> GetTask m' = GetTask m"
  by (rule ext) (auto simp: update_any_active_def GetTask_def GetTask_update_first split: option.splits)

lemma GetTask_cancel: "GetTask (snd (cancelActiveRun P n m)) = GetTask m"
  by (auto simp: cancelActiveRun_def GetTask_update_any split: option.split)

lemma GetTask_registerForceKill: "GetTask (registerForceKill rid m) = GetTask m"
proof (cases "update_any_active (\<lambda>ar. ID (ar_run ar) = rid) (\<lambda>ar. ar\<lparr>ar_forceKill := True\<rparr>) m")
  case (Some m')
  from GetTask_update_any [OF Some] show ?thesis by (simp add: registerForceKill_def Some)
qed (simp add: registerForceKill_def)

lemma GetTask_on_states: "(\<And>ts. ts_task (f ts) = ts_task ts) \<Longrightarrow> GetTask (on_states f m) = GetTask m"
proof (rule ext)
  fix k :: string
  assume f: "\<And>ts. ts_task (f ts) = ts_task ts"
  have "map_of (map (\<lambda>(k, ts). (k, f ts)) al) k = map_option f (map_of al k)" for al
    by (induction al) auto
  then show "GetTask (on_states f m) k = GetTask m k"
    by (simp add: GetTask_def on_states_def option.map_comp o_def f)
qed

lemma GetTask_with_supervisor:
  "(\<And>ts s. map_of (tasks m) k = Some ts \<Longrightarrow> supervisor ts = Some s \<Longrightarrow> GetTask (snd (f ts s m)) = GetTask m) \<Longrightarrow>
     GetTask (snd (with_supervisor f k m)) = GetTask m"
  by (auto simp: with_supervisor_def serviceLocked_def split: sum.splits option.splits if_splits)

lemma GetTask_service_controls:
  assumes inv: "mgr_inv m"
  shows "GetTask (snd (StartService k m)) = GetTask m"
    "GetTask (snd (RestartServiceInstances k m)) = GetTask m"
proof -
  have e: "GetTask (if c then emit es m' else m') = GetTask m'"
    "mgr_inv (if c then emit es m' else m') = mgr_inv m'" for c es m' by simp_all
  show "GetTask (snd (StartService k m)) = GetTask m"
    unfolding StartService_def Let_def
    by (rule GetTask_with_supervisor)
      (simp add: GetTask_StartServiceInstances e inv_set_sup(1) [OF inv] GetTask_put_same)
  show "GetTask (snd (RestartServiceInstances k m)) = GetTask m"
    unfolding RestartServiceInstances_def Let_def
    by (rule GetTask_with_supervisor)
      (simp add: GetTask_StartServiceInstances e inv_set_sup(2) [OF inv] GetTask_put_same)
qed

lemma GetTask_LoadPendingRuns: "GetTask (snd (LoadPendingRuns runs m)) = GetTask m"
proof -
  have pub: "GetTask (fold (\<lambda>r. publishTerminal EventRunFailed r []) rs m) = GetTask m" for rs m
    by (induction rs arbitrary: m) simp_all
  have one: "GetTask (fst (snd (load_one r s))) = GetTask (fst (snd s))" for r s
    by (cases s) (auto simp: load_one_def resumePendingRun_def requeuePendingRun_def
        restartOrFailPendingRun_def Let_def GetTask_put_same GetTask_startRun split: option.split)
  have "GetTask (fst (snd (fold load_one runs s))) = GetTask (fst (snd s))" for s
    by (induction runs arbitrary: s) (simp_all add: one)
  from this [of "([], m, \<lparr>Resumed = 0, Queued = 0, Skipped = 0, Failed = 0\<rparr>)"] show ?thesis
    by (simp add: LoadPendingRuns_def pub split_beta)
qed

lemma GetTask_spawn_tail: "GetTask (spawn_tail as m) = GetTask m"
  by (rule GetTask_cong) (simp add: spawn_tail_def)

lemma GetTask_StopTask:
  assumes inv: "mgr_inv (snd d)"
  shows "GetTask (snd (snd (StopTask k d))) = GetTask (snd d)"
proof (cases "\<exists>ts. map_of (tasks (snd d)) k = Some ts \<and> \<not> IsService (TKind (ts_task ts))")
  case True
  then obtain ts where ts: "map_of (tasks (snd d)) k = Some ts" "\<not> IsService (TKind (ts_task ts))" by blast
  let ?m = "put_task k (stopped_state ts) (snd d)"
  have m: "mgr_inv ?m"
    by (rule inv_put_task [OF inv]) (use ts inv_lookup [OF inv ts(1)] in \<open>auto simp: state_ok_stopped\<close>)
  have "ts_task (stopped_state ts) = ts_task ts" by (simp add: stopped_state_def Let_def)
  from GetTask_put_same [OF ts(1) this] m show ?thesis
    by (simp add: StopTask_alt [OF ts] Let_def leaveOrphaned_def on_manager_def GetTask_spawn_tail)
next
  case False
  then show ?thesis by (auto simp: StopTask_def Let_def split: option.split)
qed

section \<open>The end of a run\<close>

definition no_ephemeral :: "manager \<Rightarrow> bool" where
  "no_ephemeral m \<longleftrightarrow> (\<forall>k t. GetTask m k = Some t \<longrightarrow> \<not> Ephemeral t)"

lemma GetTask_reap:
  assumes inv: "mgr_inv m" and plain: "no_ephemeral m" and ts: "taskStateFor m k = Some ts0"
    and same: "ts_task ts = ts_task ts0" and n: "Name task = k"
  shows "GetTask (reapRetiredTaskState task ts (put_state k ts m)) = GetTask m"
proof -
  have put: "GetTask (put_state k ts m) = GetTask m" by (rule GetTask_put_state [OF ts same])
  have "GetTask ((put_state k ts m)\<lparr>tasks := AList.delete k (tasks (put_state k ts m))\<rparr>) = GetTask m"
    if "Ephemeral (ts_task ts)"
  proof -
    have "map_of (tasks m) k = None"
    proof (cases "map_of (tasks m) k")
      case (Some t)
      with ts have "t = ts0" by (simp add: taskStateFor_def)
      with Some plain same that show ?thesis by (auto simp: no_ephemeral_def GetTask_def)
    qed simp
    then show ?thesis by (auto simp: GetTask_def put_state_def delete_conv')
  qed
  moreover have "GetTask ((put_state k ts m)\<lparr>removedTasks := r\<rparr>) = GetTask m" for r
    using put GetTask_cong [of "(put_state k ts m)\<lparr>removedTasks := r\<rparr>" "put_state k ts m"] by simp
  ultimately show ?thesis using put n by (simp add: reapRetiredTaskState_def)
qed

lemma GetTask_recordRunOutcome:
  assumes inv: "mgr_inv m" and plain: "no_ephemeral m"
    and ts: "taskStateFor m (Name (ar_task ar)) = Some ts"
    and ar: "find (\<lambda>a. ID (ar_run a) = ID (ar_run ar)) (active ts) = Some ar"
  shows "GetTask (snd (recordRunOutcome (ar_task ar) (ar_run ar) st res m)) = GetTask m"
proof -
  have "GetTask (snd (retireRun (ar_task ar) ((ar_run ar)\<lparr>OutputMatched := er_OutputMatched res\<rparr>) d reason code m)) = GetTask m"
    for d reason code
  proof -
    have f: "find (\<lambda>a. ID (ar_run a) = ID ((ar_run ar)\<lparr>OutputMatched := er_OutputMatched res\<rparr>)) (active ts) = Some ar"
      using ar by simp
    show ?thesis unfolding retireRun_alt [OF inv ts f] Let_def
      by (rule GetTask_reap [OF inv plain ts]) (simp_all add: retired_state_def Let_def)
  qed
  then have "retireRun (ar_task ar) ((ar_run ar)\<lparr>OutputMatched := er_OutputMatched res\<rparr>) d reason code m = (x, m1)
      \<Longrightarrow> GetTask m1 = GetTask m" for d reason code x m1 by (metis snd_conv)
  then show ?thesis by (auto simp: recordRunOutcome_def Let_def split: prod.split)
qed

lemma GetTask_gate:
  assumes "mgr_inv (snd d)"
  shows "GetTask (snd (gate_complete rid d)) = GetTask (snd d)"
    "GetTask (snd (ScheduleJitteredRun k tick sl window d)) = GetTask (snd d)"
    "GetTask (snd (breach_timer k d)) = GetTask (snd d)"
proof -
  have d: "definitions.gate_tracked (GetTask (snd d)) UNIV d"
    using assms by (simp add: definitions.gate_tracked_def definitions.tracked_def)
  then have d': "definitions.gate_tracked (GetTask (snd d)) (insert rid UNIV) d" by simp
  show "GetTask (snd (gate_complete rid d)) = GetTask (snd d)"
    using definitions.tracked_complete [OF d']
    by (simp add: gate_complete_def definitions.gate_tracked_def definitions.tracked_def)
  show "GetTask (snd (ScheduleJitteredRun k tick sl window d)) = GetTask (snd d)"
    using definitions.tracked_submit [OF d]
    by (simp add: ScheduleJitteredRun_def definitions.gate_tracked_def definitions.tracked_def)
  show "GetTask (snd (breach_timer k d)) = GetTask (snd d)"
    using definitions.tracked_breach [OF d]
    by (simp add: breach_timer_def definitions.gate_tracked_def definitions.tracked_def)
qed

lemma GetTask_execute_end:
  assumes inv: "mgr_inv (snd d)" and plain: "no_ephemeral (snd d)"
  shows "GetTask (snd (execute_end k rid res d)) = GetTask (snd d)"
proof (cases "\<exists>ar. find_active k rid (snd d) = Some ar \<and> Status (ar_run ar) = PhaseRunning")
  case False
  then show ?thesis by (auto simp: execute_end_def split: option.split)
next
  case True
  then obtain ar ts where ar: "find_active k rid (snd d) = Some ar" "Status (ar_run ar) = PhaseRunning"
    and ts: "taskStateFor (snd d) k = Some ts"
    and f: "find (\<lambda>a. ID (ar_run a) = rid) (active ts) = Some ar"
    by (auto simp: find_active_Some)
  obtain as bs where sp: "active ts = as @ ar # bs" "ID (ar_run ar) = rid" using find_split [OF f] by auto
  have name: "Name (ar_task ar) = k" using inv_state_for [OF inv ts] sp by (auto simp: state_ok_def)
  have ts': "taskStateFor (snd d) (Name (ar_task ar)) = Some ts" using ts name by simp
  have f': "find (\<lambda>a. ID (ar_run a) = ID (ar_run ar)) (active ts) = Some ar" using f sp by simp
  obtain nx gu run as' m1 where r: "recordRunOutcome (ar_task ar) (ar_run ar) (ar_startedAt ar) res (snd d) =
        ((nx, gu, run, as'), m1)" by (metis prod.exhaust)
  have "GetTask m1 = GetTask (snd d)"
    using GetTask_recordRunOutcome [OF inv plain ts' f', of "ar_startedAt ar" res] r by simp
  then show ?thesis using ar r by (simp add: execute_end_def GetTask_spawn_tail)
qed

lemma GetTask_run_tail:
  assumes inv: "mgr_inv (snd d)"
  shows "GetTask (snd (run_tail i d)) = GetTask (snd d)"
proof -
  let ?d = "on_manager (\<lambda>m. m\<lparr>tails := rest_tails i (tails m)\<rparr>) d"
  have "GetTask (snd ?d) = GetTask (snd d)" by (rule GetTask_cong) (simp add: on_manager_def)
  moreover have "mgr_inv (snd ?d)" using inv by (simp add: on_manager_def mgr_inv_def)
  then have "GetTask (snd (tail_action a ?d)) = GetTask (snd ?d)" for a
    by (cases a) (simp_all add: on_manager_def publishTerminal_def GetTask_scheduleFollowup GetTask_gate)
  ultimately show ?thesis by (simp add: run_tail_def)
qed

section \<open>Every step\<close>

text \<open>The steps that are not about definitions.\<close>

fun keeps_definitions :: "mgr_event \<Rightarrow> bool" where
  "keeps_definitions (EvUpsert task) \<longleftrightarrow> False"
| "keeps_definitions (EvMutate k f) \<longleftrightarrow> False"
| "keeps_definitions (EvRemove k) \<longleftrightarrow> False"
| "keeps_definitions _ \<longleftrightarrow> True"

lemma GetTask_daemon_step:
  assumes d: "daemon_inv d" and plain: "no_ephemeral (snd d)" and e: "keeps_definitions e"
  shows "GetTask (snd (daemon_step e d)) = GetTask (snd d)"
proof -
  have inv: "mgr_inv (snd d)" using d by (simp add: daemon_inv_def)
  have cong: "GetTask (m\<lparr>clock := c\<rparr>) = GetTask m" "GetTask (m\<lparr>schedulePaused := p\<rparr>) = GetTask m"
    "GetTask (m\<lparr>isShutdown := b, shutdownCtx := b'\<rparr>) = GetTask m"
    "GetTask (m\<lparr>deadlineExceeded := b\<rparr>) = GetTask m" for m c p b b'
    by (rule GetTask_cong, simp)+
  have st: "GetTask (on_states (\<lambda>ts. let ts' = on_active Cancel ts in if c ts then signal ts' else ts') m) = GetTask m"
    "GetTask (on_states (on_active g) m) = GetTask m" for m g c
    by (rule GetTask_on_states, simp add: Let_def on_active_def signal_def)+
  from e show ?thesis
    by (cases e)
      (simp_all add: on_manager_def cong st GetTask_gate [OF inv] GetTask_Trigger [OF inv]
        GetTask_phantom GetTask_execute_begin GetTask_execute_end [OF inv plain] GetTask_run_tail [OF inv]
        GetTask_registerForceKill GetTask_markServiceHealthy GetTask_queueProcessLoop
        GetTask_run_followup [OF inv] GetTask_StopTask [OF inv] TerminateRun_def
        TerminateRunByExecutionID_def GetTask_cancel GetTask_StartServiceInstances [OF inv]
        GetTask_service_controls [OF inv] GetTask_Recycle [OF inv] GetTask_StopService
        GetTask_LoadPendingRuns SetSchedulePaused_def BeginShutdown_def shutdown_cancel_def
        deadline_passed_def forceKillSurvivors_def split: option.split)
qed

end
