(* ===== verification/World.thy ===== *)
theory World
  imports Reload_Props Definitions_Kept Startup
begin

text \<open>
  The whole daemon: how it boots (\<open>daemon_services.go\<close>), and every event that can befall it
  afterwards - runs, timers, ticks, service controls, pauses, reloads, refreshes of the cron holds -
  as one machine whose invariant is that registry, manager and scheduler stay in step with the
  configuration.
\<close>

section \<open>Boot\<close>

definition initTaskManager :: "Config \<Rightarrow> daemon \<Rightarrow> daemon \<times> (string \<times> Task) list" where
  "initTaskManager cfg d = (fold UpsertTask (cf_Tasks cfg) d, tasksByName cfg)"

text \<open>The manager reads the scheduler's pauses through the function it was given.\<close>

definition share_pauses :: "Scheduler \<Rightarrow> daemon \<Rightarrow> daemon" where
  "share_pauses s d = on_manager (SetSchedulePaused (IsPaused s)) d"

record standaloneBoot =
  sb_scheduler :: Scheduler
  sb_cleared :: "(string \<times> pauseClear) list option"
  sb_schedResult :: ScheduleResult
  sb_runOnStart :: RunOnStartResult
  sb_anchors :: "(string \<times> instant) list"
  sb_snapshotErrors :: nat

text \<open>\<open>asked\<close> is the instant of the snapshot, \<open>now\<close> that of the start.\<close>

definition startStandaloneScheduling ::
  "cronLib \<Rightarrow> faults \<Rightarrow> string \<Rightarrow> instant \<Rightarrow> instant \<Rightarrow> (string \<times> Task) list \<Rightarrow> zone option
     \<Rightarrow> daemon \<times> store \<Rightarrow> standaloneBoot \<times> daemon \<times> store" where
  "startStandaloneScheduling lib down bootID asked now ts schedLoc dst =
     (case SnapshotCatchupAnchors down ts asked (snd dst) of (anchors, errs, st1) \<Rightarrow>
       (case RestorePauses down now (NewScheduler ts schedLoc, st1) of (cleared, s1, st2) \<Rightarrow>
         (case Start lib now s1 of (result, s2) \<Rightarrow>
           (case RunStartupTasks ts manager_trigger down bootID (Some (IsPaused s2))
               (share_pauses s2 (fst dst), st2) of (ros, d', st') \<Rightarrow>
             (\<lparr>sb_scheduler = s2, sb_cleared = cleared, sb_schedResult = result, sb_runOnStart = ros,
               sb_anchors = anchors, sb_snapshotErrors = errs\<rparr>, d', st')))))"

definition resumePendingRuns :: "Run list option \<Rightarrow> daemon \<Rightarrow> daemon" where
  "resumePendingRuns pendingRuns d =
     (case pendingRuns of
        None \<Rightarrow> d
      | Some rs \<Rightarrow> if rs = [] then d else on_manager (\<lambda>m. snd (LoadPendingRuns rs m)) d)"

definition launch_service :: "Task \<Rightarrow> daemon \<Rightarrow> daemon" where
  "launch_service task d = on_manager (\<lambda>m. snd (StartServiceInstances (Name task) TriggeredByService m)) d"

text \<open>\<open>pending\<close> are the rows the database holds, if it answers; \<open>launched\<close> are the services whose
  goroutines got to start their instances before the catch-up pass. \<open>None\<close> is the boot that ends
  with an error.\<close>

definition initDaemonServices ::
  "cronLib \<Rightarrow> faults \<Rightarrow> string \<Rightarrow> instant \<Rightarrow> instant \<Rightarrow> Config \<Rightarrow> bool \<Rightarrow> Run list option \<Rightarrow> Task list
     \<Rightarrow> daemon \<Rightarrow> store \<Rightarrow> 'g \<Rightarrow> 'g world option" where
  "initDaemonServices lib down bootID asked now cfg standalone pendingRuns launched d st g =
     (case initTaskManager cfg d of (d1, ts) \<Rightarrow>
       (case ResolveTimezone lib (cf_Timezone cfg) of
          None \<Rightarrow> None
        | Some schedLoc \<Rightarrow>
            (let d2 = resumePendingRuns pendingRuns d1;
                 base = \<lparr>w_registry = ts, w_sched = None, w_daemon = d2, w_zone = schedLoc, w_store = st,
                   w_baseline = cfg, w_pinned = cfg, w_probe = False, w_watcher = None, w_global = g\<rparr>
             in Some (if standalone
               then (case startStandaloneScheduling lib down bootID asked now ts schedLoc (d2, st) of
                   (b, d3, st') \<Rightarrow>
                     base\<lparr>w_sched := Some (sb_scheduler b), w_store := st',
                       w_daemon := snd (RunMissedTickCatchUp lib ts manager_trigger asked schedLoc
                         (sb_anchors b) (sb_snapshotErrors b) (fold launch_service launched d3))\<rparr>)
               else base\<lparr>w_daemon := fold launch_service launched d2\<rparr>))))"

section \<open>The daemon after boot\<close>

definition WatchCronHolds :: "'g world \<Rightarrow> 'g world" where
  "WatchCronHolds w = syncCronWatcher (w\<lparr>w_probe := True\<rparr>)"

text \<open>A step of the scheduler, which the manager sees through the shared pauses.\<close>

definition on_sched :: "(Scheduler \<times> store \<Rightarrow> Scheduler \<times> store) \<Rightarrow> 'g world \<Rightarrow> 'g world" where
  "on_sched f w =
     (case w_sched w of
        None \<Rightarrow> w
      | Some s \<Rightarrow> (case f (s, w_store w) of (s', st') \<Rightarrow>
          w\<lparr>w_sched := Some s', w_store := st', w_daemon := share_pauses s' (w_daemon w)\<rparr>))"

definition on_tick :: "cronLib \<Rightarrow> instant \<Rightarrow> string \<Rightarrow> zone \<Rightarrow> bool \<Rightarrow> 'g world \<Rightarrow> 'g world" where
  "on_tick lib now k loc fx w =
     (case w_sched w of
        None \<Rightarrow> w
      | Some s \<Rightarrow> (case fireOnce lib manager_trigger now k loc fx (s, w_daemon w) of
          (s', d') \<Rightarrow> w\<lparr>w_sched := Some s', w_daemon := d'\<rparr>))"

datatype 'g world_event =
    WManager mgr_event
  | WTick instant string zone bool
  | WPause faults instant string
  | WResume faults instant string
  | WReload "'g settingsHook option" faults instant "Config option"
  | WWatch
  | WProbe faults instant cronState

fun world_step :: "cronLib \<Rightarrow> 'g world_event \<Rightarrow> 'g world \<Rightarrow> 'g world" where
  "world_step lib (WManager e) w = w\<lparr>w_daemon := daemon_step e (w_daemon w)\<rparr>"
| "world_step lib (WTick now k loc fx) w = on_tick lib now k loc fx w"
| "world_step lib (WPause down now k) w = on_sched (\<lambda>s. snd (Pause down now k s)) w"
| "world_step lib (WResume down now k) w = on_sched (\<lambda>s. snd (Resume down now k s)) w"
| "world_step lib (WReload hook down now loaded) w =
     (let w' = snd (Reconcile lib hook down now loaded w)
      in (case w_sched w' of None \<Rightarrow> w' | Some s \<Rightarrow> w'\<lparr>w_daemon := share_pauses s (w_daemon w')\<rparr>))"
| "world_step lib WWatch w = WatchCronHolds w"
| "world_step lib (WProbe down now state) w =
     (let w' = watch_holds lib down now state w
      in (case w_sched w' of None \<Rightarrow> w' | Some s \<Rightarrow> w'\<lparr>w_daemon := share_pauses s (w_daemon w')\<rparr>))"

text \<open>What the outside guarantees: what the manager's callers do, and that a file that loads passed
  validation.\<close>

fun world_ok :: "cronLib \<Rightarrow> 'g world_event \<Rightarrow> 'g world \<Rightarrow> bool" where
  "world_ok lib (WManager e) w \<longleftrightarrow> keeps_definitions e \<and> daemon_ok e (w_daemon w)"
| "world_ok lib (WReload hook down now loaded) w \<longleftrightarrow>
     (case loaded of None \<Rightarrow> True | Some cfg \<Rightarrow> valid_config lib cfg)"
| "world_ok lib _ w \<longleftrightarrow> True"

section \<open>Boot ends in step\<close>

interpretation kept_trigger: run_trigger manager_trigger "\<lambda>d. daemon_inv d \<and> GetTask (snd d) = F" for F
proof unfold_locales
  fix d :: daemon assume d: "daemon_inv d \<and> GetTask (snd d) = F"
  then have inv: "mgr_inv (snd d)" by (simp add: daemon_inv_def)
  show "0 \<le> o_RetryAttempt opts \<Longrightarrow> daemon_inv (snd (rt_TriggerRunWithOptions manager_trigger k opts d)) \<and>
      GetTask (snd (snd (rt_TriggerRunWithOptions manager_trigger k opts d))) = F" for k opts
    using daemon_trigger.trigger_inv d GetTask_Trigger [OF inv]
    by (simp add: manager_trigger_steps(1) on_manager_def)
  show "sl \<le> tick + window \<Longrightarrow> daemon_inv (rt_ScheduleJitteredRun manager_trigger k tick sl window d) \<and>
      GetTask (snd (rt_ScheduleJitteredRun manager_trigger k tick sl window d)) = F" for k tick sl window
    using daemon_trigger.jittered_inv d GetTask_gate(2) [OF inv] by (simp add: manager_trigger_steps(2))
  show "daemon_inv (snd (rt_RecordSkippedFiring manager_trigger k reason b d)) \<and>
      GetTask (snd (snd (rt_RecordSkippedFiring manager_trigger k reason b d))) = F" for k reason b
    using daemon_trigger.skipped_inv d GetTask_phantom
    by (simp add: manager_trigger_steps(3) on_manager_def)
  show "daemon_inv (snd (rt_RecordMissedRun manager_trigger k a msg d)) \<and>
      GetTask (snd (snd (rt_RecordMissedRun manager_trigger k a msg d))) = F" for k a msg
    using daemon_trigger.missed_inv d GetTask_phantom
    by (simp add: manager_trigger_steps(4) on_manager_def)
qed

lemma share_pauses_kept:
  "daemon_inv d \<Longrightarrow> daemon_inv (share_pauses s d) \<and> GetTask (snd (share_pauses s d)) = GetTask (snd d)"
  using daemon_step_inv [of d "EvSetPaused (IsPaused s)"] GetTask_cong [of "SetSchedulePaused (IsPaused s) (snd d)" "snd d"]
  by (simp add: share_pauses_def on_manager_def SetSchedulePaused_def)

lemma launch_kept:
  "daemon_inv d \<Longrightarrow> daemon_inv (fold launch_service us d) \<and> GetTask (snd (fold launch_service us d)) = GetTask (snd d)"
proof (induction us arbitrary: d)
  case (Cons t us)
  have "daemon_inv (launch_service t d)"
    using daemon_step_inv [OF Cons.prems, of "EvStartInstances (Name t) TriggeredByService"]
    by (simp add: launch_service_def)
  moreover have "GetTask (snd (launch_service t d)) = GetTask (snd d)"
    using Cons.prems by (simp add: launch_service_def on_manager_def daemon_inv_def GetTask_StartServiceInstances)
  ultimately show ?case using Cons.IH [of "launch_service t d"] by simp
qed simp

lemma resume_kept:
  assumes "daemon_inv d" "\<not> isShutdown (snd d)" "case p of None \<Rightarrow> True | Some rs \<Rightarrow> list_all pending_row rs"
  shows "daemon_inv (resumePendingRuns p d) \<and> GetTask (snd (resumePendingRuns p d)) = GetTask (snd d)"
  using assms daemon_step_inv [of d "EvLoadPending (the p)"] GetTask_LoadPendingRuns
  by (auto simp: resumePendingRuns_def on_manager_def split: option.split)

text \<open>Registering does not end the accepting of runs.\<close>

lemma isShutdown_admit: "isShutdown (snd (admit ts run m)) = isShutdown m"
  by (auto simp: admit_def Let_def startRun_def panic_def end_unexecuted_def publishTerminal_def
      split: option.split concurrencyAction.split)

lemma isShutdown_Trigger: "isShutdown (snd (TriggerRunWithOptions k opts m)) = isShutdown m"
  by (auto simp: TriggerRunWithOptions_def mint_def panic_def Let_def isShutdown_admit
      split: option.split sum.split mgrError.split prod.split)

interpretation accepting: run_hook triggerJittered "\<lambda>m. mgr_inv m \<and> isShutdown m = b" "\<lambda>_. UNIV" for b
proof unfold_locales
  fix m t k
  assume "mgr_inv m \<and> isShutdown m = b"
  then show "mgr_inv (snd (triggerJittered t k m)) \<and> isShutdown (snd (triggerJittered t k m)) = b"
    using triggerJittered_snd [of t k m] isShutdown_Trigger hook.good_trigger by metis
qed simp_all

lemma isShutdown_retireOrphaned:
  "mgr_inv (snd d) \<Longrightarrow> isShutdown (snd (retireOrphaned runs d)) = isShutdown (snd d)"
proof (induction runs arbitrary: d)
  case (Cons r rs)
  let ?d = "gate_complete (ID r) d"
  have g: "mgr_inv (snd ?d) \<and> isShutdown (snd ?d) = isShutdown (snd d)"
    using accepting.tracked_complete [of "isShutdown (snd d)" "ID r" UNIV d] Cons.prems
    by (simp add: accepting.gate_tracked_def accepting.tracked_def gate_complete_def)
  with Cons.IH [of "on_manager (publishTerminal EventRunFailed r []) ?d"] show ?case
    by (simp add: retireOrphaned_def on_manager_def publishTerminal_def)
qed (simp add: retireOrphaned_def)

lemma isShutdown_Upsert:
  assumes "mgr_inv (snd d)" "task_ok t"
  shows "isShutdown (snd (UpsertTask t d)) = isShutdown (snd d)"
proof -
  obtain runs m where u: "upsertTaskLocked t (snd d) = (runs, m)" by fastforce
  have "isShutdown m = isShutdown (snd d)" using u
    by (auto simp: upsertTaskLocked_def attach_state_def split: prod.splits option.splits)
  with isShutdown_retireOrphaned [of "(fst d, m)" runs] inv_upsert [OF assms] u show ?thesis
    by (simp add: UpsertTask_def)
qed

lemma initTaskManager_kept:
  assumes "daemon_inv d" "\<forall>t\<in>set us. task_ok t" "\<forall>k. GetTask (snd d) k = map_of al k"
  shows "daemon_inv (fold UpsertTask us d) \<and> isShutdown (snd (fold UpsertTask us d)) = isShutdown (snd d)
    \<and> (\<forall>k. GetTask (snd (fold UpsertTask us d)) k = map_of (fold (\<lambda>t. AList.update (Name t) t) us al) k)"
  using assms
proof (induction us arbitrary: d al)
  case (Cons t us)
  have inv: "mgr_inv (snd d)" using Cons.prems by (simp add: daemon_inv_def)
  have "daemon_inv (UpsertTask t d)" using UpsertTask_inv Cons.prems by simp
  moreover have "GetTask (snd (UpsertTask t d)) k = map_of (AList.update (Name t) t al) k" for k
    using GetTask_Upsert [OF inv, of t] Cons.prems by (simp add: update_conv')
  moreover have "isShutdown (snd (UpsertTask t d)) = isShutdown (snd d)"
    using isShutdown_Upsert [OF inv] Cons.prems by simp
  ultimately show ?case using Cons.IH [of "UpsertTask t d" "AList.update (Name t) t al"] Cons.prems(2)
    by simp
qed simp

lemma started_scheduler:
  assumes ts: "tasks_named ts"
    and r: "RestorePauses down now (NewScheduler ts (Some z), st1) = (cleared, s1, st2)"
    and s: "Start lib now s1 = (result, s2)"
  shows "sched_inv (s2, st) \<and> location s2 = z \<and> entry_of s2 = wanted lib z ts"
proof -
  let ?s = "NewScheduler ts (Some z)"
  note i0 = NewScheduler_inv [OF ts, of "Some z" st1]
  have r': "sched_step lib (SvRestore down now) (?s, st1) = (s1, st2)" using r by simp
  have i1: "sched_inv (s1, st2)" using sched_step_inv [OF i0, of "SvRestore down now" lib] r' by simp
  have t1: "table_of s1 = table_of ?s" using sched_step_refines [OF i0, of "SvRestore down now" lib] r' by simp
  then have e1: "entry_of s1 = (\<lambda>_. None)" "location s1 = z" "sc_tasks s1 = ts" "\<not> started s1"
    by (simp_all add: table_of_def NewScheduler_def entry_of_def fun_eq_iff)
  have "entryIDs s1 = []"
  proof (cases "ListPausedTaskSchedules down st1")
    case None
    with r show ?thesis by (auto simp: RestorePauses_def NewScheduler_def)
  next
    case (Some ps)
    with r have "PrunePauses down now (sc_tasks ?s) (?s\<lparr>hasStore := True, paused := ps\<rparr>, st1) = (the cleared, s1, st2)"
      by (auto simp: RestorePauses_def split: prod.splits)
    then have "s1 = fst (snd (fold (prune_one down now (sc_tasks ?s)) (sort (map fst ps)) ([], ?s\<lparr>hasStore := True, paused := ps\<rparr>, st1)))"
      by (simp add: PrunePauses_def)
    with prune_fold_frame have "same_table (?s\<lparr>hasStore := True, paused := ps\<rparr>) s1" by (simp only:)
    then show ?thesis by (simp add: same_table_def NewScheduler_def)
  qed
  then have ok: "sched_ok (SvStart now) (s1, st2)" by simp
  have "sched_inv (s2, st2)" using sched_step_inv [OF i1 ok, of lib] s by simp
  moreover have t2: "entry_of s2 = (\<lambda>k. if k \<in> fst ` set ts then wanted lib z ts k else None)" "location s2 = z"
    using sched_step_refines [OF i1 ok, of lib] s e1 by (simp_all add: table_of_def cong: if_cong)
  moreover have "wanted lib z ts k = None" if "k \<notin> fst ` set ts" for k
    using that by (simp add: wanted_def map_of_eq_None_iff split: option.split) (metis map_of_eq_None_iff option.distinct(1))
  ultimately show ?thesis using sched_inv_store [of s2 st2 st] by (auto simp: fun_eq_iff)
qed

lemma in_step_daemon:
  assumes "in_step lib w" "daemon_inv d" "GetTask (snd d) = GetTask (snd (w_daemon w))"
  shows "in_step lib (w\<lparr>w_daemon := d\<rparr>)"
proof -
  have "parts_ok w" using assms(1) by (simp add: in_step_def)
  from manager_step [OF this assms(2,3)] assms(1) show ?thesis by (simp add: in_step_def)
qed

lemma in_step_sched:
  assumes w: "in_step lib w" and s: "w_sched w = Some s" and inv: "sched_inv (s', st')"
    and t: "table_of s' = table_of s"
  shows "in_step lib (w\<lparr>w_sched := Some s', w_store := st'\<rparr>)"
proof -
  have e: "entry_of s' = entry_of s" "location s' = location s" using t by (simp_all add: table_of_def)
  have "view (w\<lparr>w_sched := Some s', w_store := st'\<rparr>) = view w"
    using e s by (simp add: view_def entry_in_def fun_eq_iff)
  with w inv e s show ?thesis
    by (simp add: in_step_def parts_ok_def has_sched_def zone_of_def)
qed

lemma in_step_share: "in_step lib w \<Longrightarrow> in_step lib (w\<lparr>w_daemon := share_pauses s (w_daemon w)\<rparr>)"
proof -
  assume w: "in_step lib w"
  then have "daemon_inv (w_daemon w)" by (simp add: in_step_def parts_ok_def)
  from share_pauses_kept [OF this] in_step_daemon [OF w] show ?thesis by simp
qed

lemma startScheduling_kept:
  assumes "startStandaloneScheduling lib down bootID asked now ts (Some z) (d, st) = (b, d', st')"
    and "tasks_named ts" "daemon_inv d"
  shows "sched_inv (sb_scheduler b, st') \<and> location (sb_scheduler b) = z \<and> entry_of (sb_scheduler b) = wanted lib z ts
    \<and> daemon_inv d' \<and> GetTask (snd d') = GetTask (snd d)"
proof -
  from assms(1) obtain an er st1 cl s1 st2 res s2 ros where
    r: "RestorePauses down now (NewScheduler ts (Some z), st1) = (cl, s1, st2)" "Start lib now s1 = (res, s2)"
      "RunStartupTasks ts manager_trigger down bootID (Some (IsPaused s2)) (share_pauses s2 d, st2) = (ros, d', st')"
      "sb_scheduler b = s2"
    by (auto simp: startStandaloneScheduling_def split: prod.splits)
  have "daemon_inv (share_pauses s2 d) \<and> GetTask (snd (share_pauses s2 d)) = GetTask (snd d)"
    by (rule share_pauses_kept [OF assms(3)])
  from kept_trigger.RunStartupTasks_inv [OF this, of ts down bootID "Some (IsPaused s2)" st2] r(3)
  have "daemon_inv d' \<and> GetTask (snd d') = GetTask (snd d)" by simp
  with started_scheduler [OF assms(2) r(1,2), of st'] r(4) show ?thesis by simp
qed

lemma boot_in_step:
  assumes cfg: "valid_config lib cfg"
    and pend: "case pendingRuns of None \<Rightarrow> True | Some rs \<Rightarrow> list_all pending_row rs"
    and w: "initDaemonServices lib down bootID asked now cfg standalone pendingRuns launched (boot ids floats t0) st g = Some w"
  shows "in_step lib w \<and> w_baseline w = cfg"
proof -
  let ?ts = "tasksByName cfg"
  define d1 where "d1 = fold UpsertTask (cf_Tasks cfg) (boot ids floats t0)"
  define d2 where "d2 = resumePendingRuns pendingRuns d1"
  have "\<forall>t\<in>set (cf_Tasks cfg). task_ok t" using cfg by (simp add: valid_config_def valid_task_def list_all_iff)
  moreover have "\<forall>k. GetTask (snd (boot ids floats t0)) k = map_of [] k"
    by (simp add: boot_def NewTaskManager_def GetTask_def)
  ultimately have "daemon_inv d1 \<and> isShutdown (snd d1) = isShutdown (snd (boot ids floats t0))
      \<and> (\<forall>k. GetTask (snd d1) k = map_of ?ts k)"
    unfolding d1_def tasksByName_def by (rule initTaskManager_kept [OF boot_inv])
  moreover have "\<not> isShutdown (snd (boot ids floats t0))" by (simp add: boot_def NewTaskManager_def)
  ultimately have d2: "daemon_inv d2" "GetTask (snd d2) = map_of ?ts"
    using resume_kept [of d1 pendingRuns] pend by (auto simp: d2_def)
  obtain z where z: "ResolveTimezone lib (cf_Timezone cfg) = Some (Some z)"
    using cfg by (auto simp: valid_config_def ResolveTimezone_def split: if_splits)
  note named = tasksByName_named [of cfg]
  show ?thesis
  proof (cases standalone)
    case False
    with w z have w': "w = \<lparr>w_registry = ?ts, w_sched = None, w_daemon = fold launch_service launched d2, w_zone = Some z,
        w_store = st, w_baseline = cfg, w_pinned = cfg, w_probe = False, w_watcher = None, w_global = g\<rparr>"
      by (simp add: initDaemonServices_def initTaskManager_def d1_def [symmetric] d2_def [symmetric] Let_def)
    show ?thesis using launch_kept [OF d2(1), of launched] d2 named cfg
      by (simp add: w' in_step_def parts_ok_def has_sched_def zone_of_def view_def entry_in_def settled_def)
  next
    case True
    obtain b d3 st' where b: "startStandaloneScheduling lib down bootID asked now ?ts (Some z) (d2, st) = (b, d3, st')"
      by (metis prod_cases3)
    note k = startScheduling_kept [OF b named d2(1)]
    define d5 where "d5 = snd (RunMissedTickCatchUp lib ?ts manager_trigger asked (Some z)
        (sb_anchors b) (sb_snapshotErrors b) (fold launch_service launched d3))"
    have "daemon_inv (fold launch_service launched d3) \<and> GetTask (snd (fold launch_service launched d3)) = map_of ?ts"
      using launch_kept [of d3 launched] k d2 by simp
    from kept_trigger.RunMissedTickCatchUp_inv [OF this] have d5: "daemon_inv d5" "GetTask (snd d5) = map_of ?ts"
      by (simp_all add: d5_def)
    from w z True have w': "w = \<lparr>w_registry = ?ts, w_sched = Some (sb_scheduler b), w_daemon = d5, w_zone = Some z,
        w_store = st', w_baseline = cfg, w_pinned = cfg, w_probe = False, w_watcher = None, w_global = g\<rparr>"
      by (simp add: initDaemonServices_def initTaskManager_def d1_def [symmetric] d2_def [symmetric] Let_def b d5_def)
    show ?thesis using k d5 named cfg z
      by (simp add: w' in_step_def parts_ok_def has_sched_def zone_of_def view_def entry_in_def settled_def)
  qed
qed

section \<open>Every event keeps the daemon in step\<close>

lemma in_step_plain: "in_step lib w \<Longrightarrow> no_ephemeral (snd (w_daemon w))"
proof -
  assume w: "in_step lib w"
  have "GetTask (snd (w_daemon w)) k = map_of (tasksByName (w_baseline w)) k" for k
    using w by (simp add: in_step_def settled_def view_def)
  with w show ?thesis using valid_configD(1) by (fastforce simp: no_ephemeral_def in_step_def valid_task_def)
qed

lemma on_sched_step:
  assumes w: "in_step lib w"
    and f: "\<And>s. w_sched w = Some s \<Longrightarrow> sched_inv (f (s, w_store w)) \<and> table_of (fst (f (s, w_store w))) = table_of s"
  shows "in_step lib (on_sched f w)"
proof (cases "w_sched w")
  case None
  with w show ?thesis by (simp add: on_sched_def)
next
  case (Some s)
  obtain s' st' where e: "f (s, w_store w) = (s', st')" by fastforce
  from in_step_sched [OF w Some, of s' st'] f [OF Some] e
  have "in_step lib (w\<lparr>w_sched := Some s', w_store := st'\<rparr>)" by simp
  from in_step_share [OF this, of s'] show ?thesis by (simp add: on_sched_def Some e)
qed

lemma on_tick_step:
  assumes w: "in_step lib w"
  shows "in_step lib (on_tick lib now k loc fx w)"
proof (cases "w_sched w")
  case None
  with w show ?thesis by (simp add: on_tick_def)
next
  case (Some s)
  have inv: "sched_inv (s, w_store w)" and d: "daemon_inv (w_daemon w)"
    using w Some by (simp_all add: in_step_def parts_ok_def)
  obtain dec s' where e: "decideFire lib now k loc fx s = (dec, s')" by fastforce
  have i: "sched_inv (s', w_store w)" using sched_step_inv [OF inv, of "SvFire now k loc fx" lib] e by simp
  have t: "table_of s' = table_of s" using decideFire_same [of lib now k loc fx s] e by simp
  have "sl \<le> now + win" if "dec = FireJitter sl win" for sl win
    using decideFire_jitter [of s lib now k loc fx sl win s'] inv e that by (auto simp: sched_inv_def)
  from kept_trigger.performFire_inv [OF _ this, of "w_daemon w" "GetTask (snd (w_daemon w))"] d
  have p: "daemon_inv (performFire manager_trigger now k dec (w_daemon w))"
    "GetTask (snd (performFire manager_trigger now k dec (w_daemon w))) = GetTask (snd (w_daemon w))" by simp_all
  from in_step_sched [OF w Some i t] have "in_step lib (w\<lparr>w_sched := Some s'\<rparr>)" by simp
  from in_step_daemon [OF this p(1)] p(2) show ?thesis by (simp add: on_tick_def Some fireOnce_def e)
qed

lemma reshare:
  "in_step lib w \<Longrightarrow> in_step lib (case w_sched w of None \<Rightarrow> w | Some s \<Rightarrow> w\<lparr>w_daemon := share_pauses s (w_daemon w)\<rparr>)"
  by (cases "w_sched w") (simp_all add: in_step_share)

lemma in_step_probe: "in_step lib (w\<lparr>w_probe := b\<rparr>) = in_step lib w"
proof -
  have "view (w\<lparr>w_probe := b\<rparr>) = view w" by (simp add: view_def entry_in_def fun_eq_iff)
  then show ?thesis by (simp add: in_step_def parts_ok_def has_sched_def zone_of_def cong: option.case_cong)
qed

lemma world_step_keeps:
  assumes w: "in_step lib w" and ok: "world_ok lib e w"
  shows "in_step lib (world_step lib e w)"
proof -
  have inv: "sched_inv (s, w_store w)" if "w_sched w = Some s" for s
    using w that by (simp add: in_step_def parts_ok_def)
  show ?thesis
  proof (cases e)
    case (WManager ev)
    have "daemon_inv (w_daemon w)" using w by (simp add: in_step_def parts_ok_def)
    with ok WManager GetTask_daemon_step [OF _ in_step_plain [OF w], of ev] show ?thesis
      by (simp add: in_step_daemon [OF w] daemon_step_inv)
  next
    case (WTick now k loc fx)
    with on_tick_step [OF w] show ?thesis by simp
  next
    case (WPause down now k)
    have "sched_inv (snd (Pause down now k (s, w_store w))) \<and> table_of (fst (snd (Pause down now k (s, w_store w)))) = table_of s"
      if "w_sched w = Some s" for s
      using sched_step_inv [OF inv [OF that], of "SvPause down now k" lib] table_of_same [OF Pause_frame(1)] by simp
    from on_sched_step [OF w, of "\<lambda>s. snd (Pause down now k s)", OF this] WPause show ?thesis by simp
  next
    case (WResume down now k)
    have "sched_inv (snd (Resume down now k (s, w_store w))) \<and> table_of (fst (snd (Resume down now k (s, w_store w)))) = table_of s"
      if "w_sched w = Some s" for s
      using sched_step_inv [OF inv [OF that], of "SvResume down now k" lib] table_of_same [OF Pause_frame(2)] by simp
    from on_sched_step [OF w, of "\<lambda>s. snd (Resume down now k s)", OF this] WResume show ?thesis by simp
  next
    case (WReload hook down now loaded)
    obtain res w' where r: "Reconcile lib hook down now loaded w = (res, w')" by fastforce
    have "in_step lib w'"
    proof (cases loaded)
      case None
      with r w show ?thesis by (simp add: Reconcile_def)
    next
      case (Some cfg)
      with ok WReload have "valid_config lib cfg" by simp
      from Reconcile_keeps [OF w this r [unfolded Some]] w show ?thesis by (simp split: sum.splits)
    qed
    from reshare [OF this] r WReload show ?thesis by (simp add: Let_def)
  next
    case WWatch
    with w show ?thesis by (simp add: WatchCronHolds_def in_step_probe)
  next
    case (WProbe down now state)
    have "in_step lib (snd (RefreshCronHolds lib down now state w))"
      using RefreshCronHolds_keeps [OF w prod.collapse [symmetric]] by simp
    then have "in_step lib (watch_holds lib down now state w)"
      using w by (simp add: watch_holds_def watcher_tick_def in_step_def split: option.split)
    from reshare [OF this] WProbe show ?thesis by (simp add: Let_def)
  qed
qed

interpretation world: step_machine "world_step lib" "world_ok lib" "in_step lib" for lib
  by unfold_locales (rule world_step_keeps)

text \<open>What being in step means for what go-cron holds and for what the manager answers.\<close>

lemma in_step_jobs:
  assumes w: "in_step lib w" and s: "w_sched w = Some s"
  shows "distinct (map (e_task \<circ> snd) (engine s))"
    "same_firing (map_of (map (\<lambda>(i, e). (e_task e, e)) (engine s)) k)
       (wanted lib (location s) (tasksByName (w_baseline w)) k)"
proof -
  have ok: "entries_ok s" using w s by (simp add: in_step_def parts_ok_def sched_inv_def)
  show "distinct (map (e_task \<circ> snd) (engine s))" by (rule engine_table(2) [OF ok])
  have "settled lib True (location s) (tasksByName (w_baseline w)) k (view w k)"
    using w s by (simp add: in_step_def has_sched_def zone_of_def)
  then show "same_firing (map_of (map (\<lambda>(i, e). (e_task e, e)) (engine s)) k)
       (wanted lib (location s) (tasksByName (w_baseline w)) k)"
    by (simp add: settled_def view_def entry_in_def s engine_table(1) [OF ok])
qed

lemma in_step_definitions:
  "in_step lib w \<Longrightarrow> map_of (w_registry w) = map_of (tasksByName (w_baseline w))
    \<and> GetTask (snd (w_daemon w)) = map_of (tasksByName (w_baseline w)) \<and> \<not> panicked (snd (w_daemon w))"
  by (auto simp: in_step_def settled_def view_def fun_eq_iff parts_ok_def daemon_inv_def mgr_inv_def)

section \<open>A daemon for the witnesses\<close>

definition example_config :: "Task list \<Rightarrow> Config" where
  "example_config ts = \<lparr>cf_Tasks = ts, cf_Daemon = plain_daemon, cf_Timezone = ''UTC'',
     cf_Source = TimezoneSourceConfig, cf_cronFiles = [''/etc/cron.d/jobs''], cf_cronDaemon = no_cron\<rparr>"

text \<open>The same crontab job, first its own and then held by cron.\<close>

definition crontab_task :: Task where
  "crontab_task = (cron_task ''d'')\<lparr>Source := SourceCron, SourceFile := ''/etc/cron.d/jobs''\<rparr>"

definition boot_config :: Config where
  "boot_config = example_config [cron_task ''a'', cron_task ''b'', crontab_task]"

definition booted :: "unit world" where
  "booted = the (initDaemonServices example_lib (\<lambda>_. False) ''boot1'' 0 0 boot_config
     True None [] (boot Itoa (\<lambda>_. True) 0) empty_store ())"

definition next_config :: Config where
  "next_config = example_config [cron_task ''b'', (cron_task ''c'')\<lparr>Cron := ''30 4 * * *''\<rparr>]"

definition world_events :: "unit world_event list" where
  "world_events = [WTick (30 * minute) ''b'' UTC False, WPause (\<lambda>_. False) (31 * minute) ''b'',
     WReload None (\<lambda>_. False) (60 * minute) (Some next_config)]"

lemma valid_configs: "valid_config example_lib boot_config" "valid_config example_lib next_config"
  by (simp_all add: boot_config_def next_config_def example_config_def valid_config_def valid_task_def task_ok_def
      cron_task_def crontab_task_def example_task_def IsService_def ResolveTimezone_def)

lemma booted: "initDaemonServices example_lib (\<lambda>_. False) ''boot1'' 0 0 boot_config True None []
    (boot Itoa (\<lambda>_. True) 0) empty_store () = Some booted"
proof -
  have "ResolveTimezone example_lib (cf_Timezone boot_config) = Some (Some UTC)"
    by (simp add: boot_config_def example_config_def ResolveTimezone_def)
  then show ?thesis by (simp add: booted_def initDaemonServices_def initTaskManager_def Let_def)
qed

lemma booted_in_step: "in_step example_lib booted"
  using boot_in_step [OF valid_configs(1) _ booted] by simp

lemma world_end:
  "(let w = fold (world_step example_lib) world_events booted
    in (map fst (w_registry w), map (e_task \<circ> snd) (engine (the (w_sched w))), w_sched w = None))
     = ([''b'', ''c''], [''b'', ''c''], False)"
  by code_simp

section \<open>Theorems\<close>

text \<open>C1. The daemon stays in step with its configuration. Boot it with a valid configuration, in
  either mode, with whatever rows and pauses the database holds and whatever queries fail. After any
  sequence of run events, timers, ticks, service controls, pauses, reloads (accepted or refused) and
  answers of the cron probe, registry and manager know exactly the tasks of the configuration the
  daemon last accepted, nothing has dereferenced a missing state, and go-cron holds one job for each
  schedulable task, firing by its schedule in its zone, and no other job.\<close>
theorem daemon_stays_in_step:
  assumes "valid_config lib cfg"
    and "case pendingRuns of None \<Rightarrow> True | Some rs \<Rightarrow> list_all pending_row rs"
    and "initDaemonServices lib down bootID asked now cfg standalone pendingRuns launched (boot ids floats t0) st g = Some w0"
    and "world.admissible lib es w0" and w: "w = fold (world_step lib) es w0"
  shows "map_of (w_registry w) = map_of (tasksByName (w_baseline w))
    \<and> GetTask (snd (w_daemon w)) = map_of (tasksByName (w_baseline w)) \<and> \<not> panicked (snd (w_daemon w))
    \<and> (case w_sched w of None \<Rightarrow> True | Some s \<Rightarrow> distinct (map (e_task \<circ> snd) (engine s))
        \<and> (\<forall>k. same_firing (map_of (map (\<lambda>(i, e). (e_task e, e)) (engine s)) k)
              (wanted lib (location s) (tasksByName (w_baseline w)) k)))"
proof -
  from boot_in_step [OF assms(1-3)] have "in_step lib w0" by simp
  from world.fold_inv [OF this assms(4)] have "in_step lib w" by (simp add: w)
  from in_step_definitions [OF this] in_step_jobs [OF this] show ?thesis
    by (simp split: option.split)
qed

lemma daemon_stays_in_step_witness:
  "\<exists>w s. w = fold (world_step example_lib) world_events booted \<and> w_sched w = Some s
    \<and> GetTask (snd (w_daemon w)) ''a'' = None
    \<and> same_firing (map_of (map (\<lambda>(i, e). (e_task e, e)) (engine s)) ''c'')
        (wanted example_lib (location s) (tasksByName (w_baseline w)) ''c'')"
proof -
  define w where "w = fold (world_step example_lib) world_events booted"
  have adm: "world.admissible example_lib world_events booted"
    by (simp add: world_events_def valid_configs)
  have e: "map fst (w_registry w) = [''b'', ''c'']" "w_sched w \<noteq> None"
    using world_end by (simp_all add: Let_def w_def [symmetric])
  then obtain s where s: "w_sched w = Some s" by blast
  have p: "case None of None \<Rightarrow> True | Some rs \<Rightarrow> list_all pending_row rs" by simp
  note t = daemon_stays_in_step [OF valid_configs(1) p booted adm w_def, unfolded s option.case]
  have "''a'' \<notin> set (map fst (w_registry w))" by (simp add: e(1))
  then have "map_of (w_registry w) ''a'' = None" by (simp only: map_of_eq_None_iff list.set_map not_False_eq_True)
  then have "GetTask (snd (w_daemon w)) ''a'' = None" using t by metis
  with t s show ?thesis unfolding w_def [symmetric] by blast
qed

text \<open>C3. A reload converges. From a daemon in step with its configuration - registry, manager and
  scheduler as the configuration has them, every invariant kept - a reload of a valid configuration
  either is refused and changes nothing at all, or ends in step with the new configuration, whatever
  queries fail, services start, stop or recycle, and whether the daemon's zone moves.\<close>
theorem reload_converges:
  assumes "in_step lib w" and "valid_config lib cfg"
    and "Reconcile lib hook down now (Some cfg) w = (res, w')"
  shows "case res of
      Inl err \<Rightarrow> w' = w
    | Inr r \<Rightarrow> in_step lib w' \<and> w_baseline w' = keep_system_zone (w_baseline w) cfg
        \<and> w_pinned w' = w_baseline w'
        \<and> rr_diff r = DiffTasks (w_registry w) (tasksByName (w_baseline w'))"
  by (rule Reconcile_keeps [OF assms])

lemma reload_result:
  "fst (Reconcile example_lib None (\<lambda>_. False) hour (Some next_config) booted) =
     Inr \<lparr>rr_diff = \<lparr>Added = [''c''], Removed = [''a'', ''d''], Changed = [], Restamped = []\<rparr>,
       rr_Settings = [], rr_Warnings = []\<rparr>"
  by code_simp

lemma reload_converges_witness:
  "in_step example_lib (snd (Reconcile example_lib None (\<lambda>_. False) hour (Some next_config) booted))
   \<and> DiffTasks (w_registry booted) (tasksByName (keep_system_zone (w_baseline booted) next_config)) =
     \<lparr>Added = [''c''], Removed = [''a'', ''d''], Changed = [], Restamped = []\<rparr>"
  using reload_converges [OF booted_in_step valid_configs(2), of None "\<lambda>_. False" hour,
      OF prod.collapse [symmetric]] reload_result by simp

text \<open>A refresh of the holds does what a reload would. When the watcher finds that cron appeared or
  went away, the tasks whose hold the new answer changes, and only those, are republished and
  rescheduled; the daemon is in step with the re-marked configuration afterwards, which has the
  holds the answer wants, and the lists it reports are the names now held and now released.\<close>
lemma refresh_keeps_step:
  assumes "in_step lib w"
    and "RefreshCronHolds lib down now state w = (out, w')"
  shows "in_step lib w' \<and> holds_right state (w_baseline w')
    \<and> HeldNames out = map Name (filter (\<lambda>t. HeldBy t \<noteq> wantedHold state t \<and> wantedHold state t = HeldByCron)
        (cf_Tasks (w_baseline w)))
    \<and> Released out = map Name (filter (\<lambda>t. HeldBy t \<noteq> wantedHold state t \<and> wantedHold state t = HeldByNothing)
        (cf_Tasks (w_baseline w)))"
  by (rule RefreshCronHolds_keeps [OF assms])

lemma refresh_keeps_step_witness:
  "HeldNames (fst (RefreshCronHolds example_lib (\<lambda>_. False) hour (no_cron\<lparr>Live := True\<rparr>) booted)) = [''d'']
   \<and> in_step example_lib (snd (RefreshCronHolds example_lib (\<lambda>_. False) hour (no_cron\<lparr>Live := True\<rparr>) booted))"
proof -
  have "map Name (filter (\<lambda>t. HeldBy t \<noteq> wantedHold (no_cron\<lparr>Live := True\<rparr>) t
      \<and> wantedHold (no_cron\<lparr>Live := True\<rparr>) t = HeldByCron) (cf_Tasks (w_baseline booted))) = [''d'']"
    by code_simp
  with refresh_keeps_step [OF booted_in_step prod.collapse [symmetric], of "\<lambda>_. False" hour "no_cron\<lparr>Live := True\<rparr>"]
  show ?thesis by simp
qed

end
