(* ===== verification/Service_Order.thy ===== *)
theory Service_Order
  imports Daemon "HOL-Library.List_Lexorder" "HOL-Library.Product_Lexorder"
begin

text \<open>
  The order in which services start and stop (\<open>cmd/runwisp/daemon_services.go\<close>), and the check of
  the configuration that makes that order possible (\<open>validateServiceDependencies\<close> of
  \<open>config/validate.go\<close>). Both are depth-first searches over \<open>depends_on\<close>: the first collects the
  services in post-order, the second colours the nodes and keeps the path it is on.
\<close>

section \<open>The dependency graph\<close>

text \<open>A Go map filled in a loop: the last task of a name is the one the map holds.\<close>

definition by_name :: "Task list \<Rightarrow> (string \<times> Task) list" where
  "by_name ts = rev (map (\<lambda>t. (Name t, t)) ts)"

definition dependsOn :: "(string \<times> Task) list \<Rightarrow> string \<Rightarrow> string list" where
  "dependsOn byName n =
     (case map_of byName n of
        None \<Rightarrow> []
      | Some t \<Rightarrow> if IsService (TKind t) then DependsOn t else [])"

definition dep_edges :: "(string \<times> Task) list \<Rightarrow> (string \<times> string) set" where
  "dep_edges byName = {(a, b). b \<in> set (dependsOn byName a)}"

section \<open>The check of the configuration\<close>

datatype depState = DepUnseen | DepVisiting | DepDone

datatype depError =
    DependsOnItself string
  | DependsOnUnknown string string
  | DependsOnTask string string
  | DependencyCycle "string list"

record depCycleWalk =
  dw_state :: "string \<Rightarrow> depState"
  dw_stack :: "string list"

definition cycleFrom :: "string list \<Rightarrow> string \<Rightarrow> string list" where
  "cycleFrom stack start = (if start \<in> set stack then dropWhile (\<lambda>n. n \<noteq> start) stack else stack)"

definition dw_enter :: "string \<Rightarrow> depCycleWalk \<Rightarrow> depCycleWalk" where
  "dw_enter n w = w\<lparr>dw_state := (dw_state w)(n := DepVisiting), dw_stack := dw_stack w @ [n]\<rparr>"

definition dw_leave :: "string \<Rightarrow> depCycleWalk \<Rightarrow> depCycleWalk" where
  "dw_leave n w = w\<lparr>dw_stack := butlast (dw_stack w), dw_state := (dw_state w)(n := DepDone)\<rparr>"

text \<open>\<open>dw_deps\<close> is the loop of \<open>visit\<close> over a node's dependencies. An unseen dependency is visited:
  entered, its own dependencies looped over, and left.\<close>

function dw_deps :: "(string \<times> Task) list \<Rightarrow> string list \<Rightarrow> depCycleWalk \<Rightarrow> depError + depCycleWalk" where
  "dw_deps byName [] w = Inr w"
| "dw_deps byName (dep # deps) w =
     (case dw_state w dep of
        DepVisiting \<Rightarrow> Inl (DependencyCycle (cycleFrom (dw_stack w) dep @ [dep]))
      | DepDone \<Rightarrow> dw_deps byName deps w
      | DepUnseen \<Rightarrow>
          (case dw_deps byName (dependsOn byName dep) (dw_enter dep w) of
             Inl e \<Rightarrow> Inl e
           | Inr w' \<Rightarrow> dw_deps byName deps (dw_leave dep w')))"
  by pat_completeness auto

definition dw_unseen :: "(string \<times> Task) list \<Rightarrow> depCycleWalk \<Rightarrow> string set" where
  "dw_unseen byName w = {n \<in> fst ` set byName. dw_state w n = DepUnseen}"

lemma dw_unseen_finite [simp]: "finite (dw_unseen byName w)"
  by (simp add: dw_unseen_def)

lemma dw_deps_shrinks:
  "dw_deps_dom (byName, deps, w) \<Longrightarrow> dw_deps byName deps w = Inr w' \<Longrightarrow> dw_unseen byName w' \<subseteq> dw_unseen byName w"
proof (induction byName deps w arbitrary: w' rule: dw_deps.pinduct)
  case (2 byName dep deps w)
  from 2(5) show ?case
  proof (cases "dw_state w dep")
    case DepUnseen
    then obtain v where v: "dw_deps byName (dependsOn byName dep) (dw_enter dep w) = Inr v"
        and w': "dw_deps byName deps (dw_leave dep v) = Inr w'"
      using 2(1,5) by (auto simp: dw_deps.psimps split: sum.splits)
    have "dw_unseen byName w' \<subseteq> dw_unseen byName (dw_leave dep v)" using 2(3) DepUnseen v w' by blast
    also have "\<dots> \<subseteq> dw_unseen byName v" by (auto simp: dw_unseen_def dw_leave_def split: if_splits)
    also have "\<dots> \<subseteq> dw_unseen byName (dw_enter dep w)" using 2(2) DepUnseen v by blast
    also have "\<dots> \<subseteq> dw_unseen byName w" by (auto simp: dw_unseen_def dw_enter_def split: if_splits)
    finally show ?thesis .
  qed (use 2 in \<open>auto simp: dw_deps.psimps\<close>)
qed (auto simp: dw_deps.psimps)

lemma dependsOn_unknown: "n \<notin> fst ` set byName \<Longrightarrow> dependsOn byName n = []"
  by (simp add: dependsOn_def map_of_eq_None_iff [THEN iffD2])

lemma dw_unseen_enter:
  assumes "dw_state w dep = DepUnseen"
  shows "card (dw_unseen byName (dw_enter dep w)) < card (dw_unseen byName w)
     \<or> card (dw_unseen byName (dw_enter dep w)) = card (dw_unseen byName w) \<and> dependsOn byName dep = []"
proof (cases "dep \<in> fst ` set byName")
  case True
  then have "dw_unseen byName (dw_enter dep w) \<subset> dw_unseen byName w"
    using assms by (auto simp: dw_unseen_def dw_enter_def)
  then show ?thesis by (simp add: psubset_card_mono)
next
  case False
  then have "dw_unseen byName (dw_enter dep w) = dw_unseen byName w"
    by (auto simp: dw_unseen_def dw_enter_def)
  then show ?thesis using False by (simp add: dependsOn_unknown)
qed

termination dw_deps
proof (relation "measures [\<lambda>(G, deps, w). card (dw_unseen G w), \<lambda>(G, deps, w). length deps]", goal_cases)
  case (2 byName dep deps w)
  then show ?case using dw_unseen_enter [of w dep byName] by auto
next
  case (3 byName dep deps w w')
  have "dw_unseen byName (dw_leave dep w') \<subseteq> dw_unseen byName w'"
    by (auto simp: dw_unseen_def dw_leave_def split: if_splits)
  also have "\<dots> \<subseteq> dw_unseen byName (dw_enter dep w)"
    using 3 dw_deps_shrinks by metis
  also have "\<dots> \<subseteq> dw_unseen byName w" by (auto simp: dw_unseen_def dw_enter_def split: if_splits)
  finally have "card (dw_unseen byName (dw_leave dep w')) \<le> card (dw_unseen byName w)"
    by (simp add: card_mono)
  then show ?case by auto
qed auto

definition dw_visit :: "(string \<times> Task) list \<Rightarrow> string \<Rightarrow> depCycleWalk \<Rightarrow> depError + depCycleWalk" where
  "dw_visit byName n w =
     (case dw_deps byName (dependsOn byName n) (dw_enter n w) of
        Inl e \<Rightarrow> Inl e
      | Inr w' \<Rightarrow> Inr (dw_leave n w'))"

fun dw_roots :: "(string \<times> Task) list \<Rightarrow> string list \<Rightarrow> depCycleWalk \<Rightarrow> depError + depCycleWalk" where
  "dw_roots byName [] w = Inr w"
| "dw_roots byName (n # ns) w =
     (if dw_state w n = DepUnseen
      then (case dw_visit byName n w of Inl e \<Rightarrow> Inl e | Inr w' \<Rightarrow> dw_roots byName ns w')
      else dw_roots byName ns w)"

definition new_walk :: depCycleWalk where
  "new_walk = \<lparr>dw_state = (\<lambda>_. DepUnseen), dw_stack = []\<rparr>"

definition detectDependencyCycle :: "(string \<times> Task) list \<Rightarrow> depError + unit" where
  "detectDependencyCycle byName =
     (case dw_roots byName (sort (remdups (map fst byName))) new_walk of
        Inl e \<Rightarrow> Inl e
      | Inr _ \<Rightarrow> Inr ())"

fun check_refs :: "(string \<times> Task) list \<Rightarrow> string \<Rightarrow> string list \<Rightarrow> depError + unit" where
  "check_refs byName n [] = Inr ()"
| "check_refs byName n (dep # deps) =
     (if dep = n then Inl (DependsOnItself n)
      else case map_of byName dep of
          None \<Rightarrow> Inl (DependsOnUnknown n dep)
        | Some target \<Rightarrow>
            if \<not> IsService (TKind target) then Inl (DependsOnTask n dep) else check_refs byName n deps)"

fun check_tasks :: "(string \<times> Task) list \<Rightarrow> Task list \<Rightarrow> depError + unit" where
  "check_tasks byName [] = Inr ()"
| "check_tasks byName (t # ts) =
     (if \<not> IsService (TKind t) then check_tasks byName ts
      else case check_refs byName (Name t) (DependsOn t) of
          Inl e \<Rightarrow> Inl e
        | Inr _ \<Rightarrow> check_tasks byName ts)"

definition validateServiceDependencies :: "Task list \<Rightarrow> depError + unit" where
  "validateServiceDependencies ts =
     (case check_tasks (by_name ts) ts of
        Inl e \<Rightarrow> Inl e
      | Inr _ \<Rightarrow> detectDependencyCycle (by_name ts))"

section \<open>The order of starting and stopping\<close>

definition start_key :: "Task \<Rightarrow> int \<times> string" where
  "start_key t = (Priority t, Name t)"

text \<open>The daemon's map of tasks in some order of iteration.\<close>

definition orderServicesForStart :: "(string \<times> Task) list \<Rightarrow> Task list" where
  "orderServicesForStart tasksMap =
     sort_key start_key (filter (\<lambda>t. IsService (TKind t)) (map snd tasksMap))"

text \<open>\<open>topo_visit\<close> visits the named services one after the other.\<close>

function topo_visit :: "(string \<times> Task) list \<Rightarrow> string list \<Rightarrow> string list \<times> Task list \<Rightarrow> string list \<times> Task list" where
  "topo_visit byName [] st = st"
| "topo_visit byName (n # ns) (visited, ordered) =
     (case map_of byName n of
        None \<Rightarrow> topo_visit byName ns (visited, ordered)
      | Some s \<Rightarrow>
          if n \<in> set visited then topo_visit byName ns (visited, ordered)
          else (case topo_visit byName (DependsOn s) (n # visited, ordered) of
            (visited', ordered') \<Rightarrow> topo_visit byName ns (visited', ordered' @ [s])))"
  by pat_completeness auto

definition topo_left :: "(string \<times> Task) list \<Rightarrow> string list \<times> Task list \<Rightarrow> string set" where
  "topo_left byName st = fst ` set byName - set (fst st)"

lemma topo_visit_grows:
  "topo_visit_dom (byName, ns, st) \<Longrightarrow> set (fst st) \<subseteq> set (fst (topo_visit byName ns st))"
proof (induction byName ns st rule: topo_visit.pinduct)
  case (2 byName n ns visited ordered)
  show ?case
  proof (cases "map_of byName n")
    case (Some s)
    obtain v q where vq: "topo_visit byName (DependsOn s) (n # visited, ordered) = (v, q)" by fastforce
    show ?thesis
    proof (cases "n \<in> set visited")
      case False
      have "set visited \<subseteq> set v" using 2(4) [OF Some False] vq by simp
      also have "\<dots> \<subseteq> set (fst (topo_visit byName ns (v, q @ [s])))"
        using 2(5) [OF Some False vq [symmetric]] by simp
      finally show ?thesis using Some False vq by (simp add: topo_visit.psimps(2) [OF 2(1)])
    qed (use 2 Some in \<open>simp add: topo_visit.psimps\<close>)
  qed (use 2 in \<open>simp add: topo_visit.psimps\<close>)
qed (simp add: topo_visit.psimps)

termination topo_visit
proof (relation "measures [\<lambda>(G, ns, st). card (topo_left G st), \<lambda>(G, ns, st). length ns]", goal_cases)
  case (4 byName n ns visited ordered s)
  then have "n \<in> fst ` set byName" by (metis domI dom_map_of_conv_image_fst)
  then have "topo_left byName (n # visited, ordered) \<subset> topo_left byName (visited, ordered)"
    using 4 by (auto simp: topo_left_def)
  then have "card (topo_left byName (n # visited, ordered)) < card (topo_left byName (visited, ordered))"
    by (rule psubset_card_mono [rotated]) (simp add: topo_left_def)
  then show ?case by simp
next
  case (5 byName n ns visited ordered s v q)
  then have "set (n # visited) \<subseteq> set v" using topo_visit_grows [of byName "DependsOn s" "(n # visited, ordered)"] by (metis fst_conv)
  then have "topo_left byName (v, q @ [s]) \<subseteq> topo_left byName (visited, ordered)"
    by (auto simp: topo_left_def)
  then have "card (topo_left byName (v, q @ [s])) \<le> card (topo_left byName (visited, ordered))"
    by (simp add: topo_left_def card_mono)
  then show ?case by auto
qed auto

definition topoStartOrder :: "(string \<times> Task) list \<Rightarrow> Task list" where
  "topoStartOrder tasksMap =
     (let roots = orderServicesForStart tasksMap
      in snd (topo_visit (by_name roots) (map Name roots) ([], [])))"

definition orderServicesForStop :: "(string \<times> Task) list \<Rightarrow> Task list" where
  "orderServicesForStop tasksMap = rev (topoStartOrder tasksMap)"

section \<open>Launching and stopping in that order\<close>

definition graceWindow :: duration where "graceWindow = 5 * second"

definition dep_window :: "(string \<times> Task) list \<Rightarrow> string \<Rightarrow> duration" where
  "dep_window tasksMap dep =
     (case map_of tasksMap dep of
        None \<Rightarrow> graceWindow
      | Some d \<Rightarrow> graceWindow + OrDefault (HealthyAfter d) DefaultHealthyAfter)"

text \<open>\<open>WaitServiceHealthy\<close> over the states it finds the manager in at its polls, before its context is
  done.\<close>

datatype waitEnd = BecameHealthy | GaveUp unrecoverable | DeadlineExceeded

fun WaitServiceHealthy :: "manager list \<Rightarrow> string \<Rightarrow> waitEnd" where
  "WaitServiceHealthy [] dep = DeadlineExceeded"
| "WaitServiceHealthy (m # ms) dep =
     (case wait_healthy_turn m dep of
        None \<Rightarrow> WaitServiceHealthy ms dep
      | Some None \<Rightarrow> BecameHealthy
      | Some (Some e) \<Rightarrow> GaveUp e)"

text \<open>\<open>polls window dep\<close> are the states at the polls within the window given to a dependency, and
  whether the daemon began to shut down during that wait. The result is what is logged, or
  \<open>None\<close> for the launcher that bails out.\<close>

fun await_dependencies ::
  "(duration \<Rightarrow> string \<Rightarrow> manager list \<times> bool) \<Rightarrow> (string \<times> Task) list \<Rightarrow> string list \<Rightarrow> (string \<times> waitEnd) list option" where
  "await_dependencies polls tasksMap [] = Some []"
| "await_dependencies polls tasksMap (dep # deps) =
     (case polls (dep_window tasksMap dep) dep of
        (ms, shuttingDown) \<Rightarrow>
          if shuttingDown then None
          else (case await_dependencies polls tasksMap deps of
              None \<Rightarrow> None
            | Some warned \<Rightarrow>
                Some ((case WaitServiceHealthy ms dep of
                    BecameHealthy \<Rightarrow> [] | e \<Rightarrow> [(dep, e)]) @ warned)))"

definition launchServiceWhenReady ::
  "(duration \<Rightarrow> string \<Rightarrow> manager list \<times> bool) \<Rightarrow> (string \<times> Task) list \<Rightarrow> Task \<Rightarrow> daemon
     \<Rightarrow> (string \<times> waitEnd) list \<times> daemon" where
  "launchServiceWhenReady polls tasksMap task d =
     (case await_dependencies polls tasksMap (DependsOn task) of
        None \<Rightarrow> ([], d)
      | Some warned \<Rightarrow>
          (warned, on_manager (\<lambda>m. snd (StartServiceInstances (Name task) TriggeredByService m)) d))"

text \<open>The pass of a shutdown over the services: \<open>ctxErr\<close> is its deadline, \<open>idle\<close> what else happens to
  the daemon while it waits for a service to drain.\<close>

definition stop_turn :: "(string \<Rightarrow> daemon \<Rightarrow> daemon) \<Rightarrow> Task \<Rightarrow> daemon \<Rightarrow> daemon" where
  "stop_turn idle task d =
     (case StopService (Name task) (snd d) of
        (Some e, m) \<Rightarrow> (fst d, m)
      | (None, m) \<Rightarrow> idle (Name task) (fst d, m))"

fun pre_stop :: "(daemon \<Rightarrow> bool) \<Rightarrow> (string \<Rightarrow> daemon \<Rightarrow> daemon) \<Rightarrow> Task list \<Rightarrow> daemon \<Rightarrow> daemon" where
  "pre_stop ctxErr idle [] d = d"
| "pre_stop ctxErr idle (task # ts) d =
     (if ctxErr d then d else pre_stop ctxErr idle ts (stop_turn idle task d))"

definition preStopServices ::
  "(daemon \<Rightarrow> bool) \<Rightarrow> (string \<Rightarrow> daemon \<Rightarrow> daemon) \<Rightarrow> (string \<times> Task) list \<Rightarrow> daemon \<Rightarrow> daemon" where
  "preStopServices ctxErr idle snapshot = pre_stop ctxErr idle (orderServicesForStop snapshot)"

section \<open>The walk finds exactly the cycles\<close>

abbreviation dep_edge :: "(string \<times> Task) list \<Rightarrow> string \<Rightarrow> string \<Rightarrow> bool" where
  "dep_edge byName a b \<equiv> b \<in> set (dependsOn byName a)"

definition is_cycle :: "(string \<times> Task) list \<Rightarrow> string list \<Rightarrow> bool" where
  "is_cycle byName p \<longleftrightarrow> 2 \<le> length p \<and> hd p = last p \<and> successively (dep_edge byName) p"

lemma successively_trancl:
  "successively (dep_edge byName) p \<Longrightarrow> 2 \<le> length p \<Longrightarrow> (hd p, last p) \<in> (dep_edges byName)\<^sup>+"
proof (induction p rule: induct_list012)
  case (3 a b p)
  then have "(a, b) \<in> dep_edges byName" by (simp add: dep_edges_def)
  then show ?case using 3 by (cases p) (auto intro: trancl_into_trancl2)
qed auto

lemma is_cycle_not_acyclic: "is_cycle byName p \<Longrightarrow> \<not> acyclic (dep_edges byName)"
  using successively_trancl by (fastforce simp: is_cycle_def acyclic_def)

text \<open>The nodes a walk is done with are closed under the dependencies and lie on no cycle.\<close>

definition done_set :: "depCycleWalk \<Rightarrow> string set" where
  "done_set w = {n. dw_state w n = DepDone}"

definition walk_inv :: "(string \<times> Task) list \<Rightarrow> depCycleWalk \<Rightarrow> bool" where
  "walk_inv byName w \<longleftrightarrow>
     set (dw_stack w) = {n. dw_state w n = DepVisiting} \<and> distinct (dw_stack w)
     \<and> successively (dep_edge byName) (dw_stack w)
     \<and> (\<forall>n\<in>done_set w. set (dependsOn byName n) \<subseteq> done_set w \<and> (n, n) \<notin> (dep_edges byName)\<^sup>+)"

lemma closed_trancl:
  assumes "(a, b) \<in> (dep_edges byName)\<^sup>+" "set (dependsOn byName a) \<subseteq> S"
    "\<And>n. n \<in> S \<Longrightarrow> set (dependsOn byName n) \<subseteq> S"
  shows "b \<in> S"
  using assms by (induction rule: trancl_induct) (auto simp: dep_edges_def)

lemma walk_enter:
  assumes "walk_inv byName w" "dw_state w n = DepUnseen"
    "dw_stack w = [] \<or> dep_edge byName (last (dw_stack w)) n"
  shows "walk_inv byName (dw_enter n w)"
  using assms unfolding walk_inv_def done_set_def dw_enter_def
  by (auto simp: successively_append_iff subset_iff)

text \<open>Leaving a node whose dependencies are all done: nothing it reaches is it.\<close>

lemma walk_leave:
  assumes inv: "walk_inv byName w" and st: "dw_stack w = st @ [n]"
    and deps: "set (dependsOn byName n) \<subseteq> done_set w"
  shows "walk_inv byName (dw_leave n w)" "done_set (dw_leave n w) = insert n (done_set w)"
    "dw_stack (dw_leave n w) = st"
proof -
  show d: "done_set (dw_leave n w) = insert n (done_set w)" by (auto simp: done_set_def dw_leave_def)
  show "dw_stack (dw_leave n w) = st" using st by (simp add: dw_leave_def)
  have vis: "dw_state w n = DepVisiting" using inv st by (auto simp: walk_inv_def)
  have "(n, n) \<notin> (dep_edges byName)\<^sup>+"
  proof
    assume "(n, n) \<in> (dep_edges byName)\<^sup>+"
    then have "n \<in> done_set w" by (rule closed_trancl [OF _ deps]) (use inv in \<open>auto simp: walk_inv_def\<close>)
    then show False using vis by (simp add: done_set_def)
  qed
  then show "walk_inv byName (dw_leave n w)"
    using inv deps st unfolding walk_inv_def d
    by (auto simp: dw_leave_def successively_append_iff subset_iff)
qed

lemma cycleFrom_cycle:
  assumes "walk_inv byName w" "dw_state w dep = DepVisiting" "dep_edge byName (last (dw_stack w)) dep"
  shows "is_cycle byName (cycleFrom (dw_stack w) dep @ [dep])"
proof -
  have mem: "dep \<in> set (dw_stack w)" using assms by (simp add: walk_inv_def)
  then obtain xs ys where s: "dw_stack w = xs @ dep # ys" "dep \<notin> set xs" by (meson split_list_first)
  have "dropWhile (\<lambda>n. n \<noteq> dep) (xs @ dep # ys) = dep # ys" using s(2) by (induction xs) auto
  then have c: "cycleFrom (dw_stack w) dep = dep # ys" using mem s(1) by (simp add: cycleFrom_def)
  have "successively (dep_edge byName) (dep # ys)"
    using assms s by (auto simp: walk_inv_def successively_append_iff)
  then show ?thesis
    using assms(3) s(1) successively_append_iff [of _ "dep # ys" "[dep]"] unfolding is_cycle_def c by auto
qed

text \<open>The loop over the dependencies of the node on top of the stack.\<close>

lemma dw_deps_ok:
  assumes "walk_inv byName w" "dw_stack w \<noteq> []"
    "set deps \<subseteq> set (dependsOn byName (last (dw_stack w)))"
  shows "case dw_deps byName deps w of
      Inl e \<Rightarrow> \<exists>p. e = DependencyCycle p \<and> is_cycle byName p
    | Inr w' \<Rightarrow> walk_inv byName w' \<and> dw_stack w' = dw_stack w
        \<and> done_set w \<union> set deps \<subseteq> done_set w'"
  using assms
proof (induction byName deps w rule: dw_deps.induct)
  case (2 byName dep deps w)
  show ?case
  proof (cases "dw_state w dep")
    case DepVisiting
    then show ?thesis using cycleFrom_cycle 2 by auto
  next
    case DepDone
    then show ?thesis using 2 by (auto simp: done_set_def split: sum.splits)
  next
    case DepUnseen
    note enter = walk_enter [OF 2(4) DepUnseen]
    have top: "dw_stack (dw_enter dep w) = dw_stack w @ [dep]"
      "done_set (dw_enter dep w) = done_set w"
      using DepUnseen by (auto simp: dw_enter_def done_set_def)
    have nested: "case dw_deps byName (dependsOn byName dep) (dw_enter dep w) of
        Inl e \<Rightarrow> \<exists>p. e = DependencyCycle p \<and> is_cycle byName p
      | Inr w' \<Rightarrow> walk_inv byName w' \<and> dw_stack w' = dw_stack w @ [dep]
          \<and> done_set w \<union> set (dependsOn byName dep) \<subseteq> done_set w'"
      using 2(1) [OF DepUnseen enter] 2(6) top by (simp split: sum.splits)
    show ?thesis
    proof (cases "dw_deps byName (dependsOn byName dep) (dw_enter dep w)")
      case (Inl e)
      then show ?thesis using nested DepUnseen by simp
    next
      case (Inr w')
      then have w': "walk_inv byName w'" "dw_stack w' = dw_stack w @ [dep]"
          "done_set w \<union> set (dependsOn byName dep) \<subseteq> done_set w'" using nested by auto
      have leave: "walk_inv byName (dw_leave dep w')" "done_set (dw_leave dep w') = insert dep (done_set w')"
          "dw_stack (dw_leave dep w') = dw_stack w" using walk_leave [OF w'(1,2)] w'(3) by auto
      show ?thesis using 2(2) [OF DepUnseen Inr leave(1)] 2(5,6) leave(2,3) w'(3) DepUnseen Inr
        by (auto split: sum.splits)
    qed
  qed
qed auto

lemma dw_visit_ok:
  assumes "walk_inv byName w" "dw_stack w = []" "dw_state w n = DepUnseen"
  shows "case dw_visit byName n w of
      Inl e \<Rightarrow> \<exists>p. e = DependencyCycle p \<and> is_cycle byName p
    | Inr w' \<Rightarrow> walk_inv byName w' \<and> dw_stack w' = [] \<and> insert n (done_set w) \<subseteq> done_set w'"
proof -
  have e: "walk_inv byName (dw_enter n w)" "dw_stack (dw_enter n w) = [n]"
      "done_set (dw_enter n w) = done_set w"
    using walk_enter [OF assms(1,3)] assms by (auto simp: dw_enter_def done_set_def)
  show ?thesis
  proof (cases "dw_deps byName (dependsOn byName n) (dw_enter n w)")
    case (Inl e')
    then show ?thesis using dw_deps_ok [OF e(1), of "dependsOn byName n"] e by (simp add: dw_visit_def)
  next
    case (Inr w')
    then have w': "walk_inv byName w'" "dw_stack w' = [] @ [n]"
        "done_set w \<union> set (dependsOn byName n) \<subseteq> done_set w'"
      using dw_deps_ok [OF e(1), of "dependsOn byName n"] e by auto
    show ?thesis using walk_leave [OF w'(1,2)] w'(3) Inr by (auto simp: dw_visit_def)
  qed
qed

lemma dw_roots_ok:
  "walk_inv byName w \<Longrightarrow> dw_stack w = [] \<Longrightarrow>
   case dw_roots byName ns w of
      Inl e \<Rightarrow> \<exists>p. e = DependencyCycle p \<and> is_cycle byName p
    | Inr w' \<Rightarrow> walk_inv byName w' \<and> done_set w \<union> set ns \<subseteq> done_set w'"
proof (induction byName ns w rule: dw_roots.induct)
  case (2 byName n ns w)
  show ?case
  proof (cases "dw_state w n = DepUnseen")
    case True
    then show ?thesis using 2(1) dw_visit_ok [OF 2(3,4) True] by (auto split: sum.splits)
  next
    case False
    then have "n \<in> done_set w" using 2(3,4)
      by (cases "dw_state w n") (auto simp: walk_inv_def done_set_def)
    then show ?thesis using 2(2) [OF False 2(3,4)] False by (auto split: sum.splits)
  qed
qed auto

lemma new_walk_inv: "walk_inv byName new_walk" "dw_stack new_walk = []" "done_set new_walk = {}"
  by (auto simp: walk_inv_def new_walk_def done_set_def)

lemma detect_ok:
  "case detectDependencyCycle byName of
      Inl e \<Rightarrow> \<exists>p. e = DependencyCycle p \<and> is_cycle byName p
    | Inr _ \<Rightarrow> acyclic (dep_edges byName)"
proof (cases "dw_roots byName (sort (remdups (map fst byName))) new_walk")
  case (Inl e)
  then show ?thesis
    using dw_roots_ok [OF new_walk_inv(1,2), of byName "sort (remdups (map fst byName))"]
    by (simp add: detectDependencyCycle_def)
next
  case (Inr w)
  then have w: "walk_inv byName w" "fst ` set byName \<subseteq> done_set w"
    using dw_roots_ok [OF new_walk_inv(1,2), of byName "sort (remdups (map fst byName))"] by auto
  have "(a, a) \<notin> (dep_edges byName)\<^sup>+" for a
  proof
    assume a: "(a, a) \<in> (dep_edges byName)\<^sup>+"
    then have "dependsOn byName a \<noteq> []" by (metis dep_edges_def converse_tranclE mem_Collect_eq case_prodD empty_iff list.set(1))
    then have "a \<in> fst ` set byName" using dependsOn_unknown by blast
    then show False using w a by (auto simp: walk_inv_def)
  qed
  then show ?thesis using Inr by (simp add: detectDependencyCycle_def acyclic_def)
qed

text \<open>What the references of a service are checked for.\<close>

definition refs_ok :: "(string \<times> Task) list \<Rightarrow> Task \<Rightarrow> bool" where
  "refs_ok byName t \<longleftrightarrow>
     (IsService (TKind t) \<longrightarrow>
       list_all (\<lambda>d. d \<noteq> Name t
         \<and> (case map_of byName d of None \<Rightarrow> False | Some u \<Rightarrow> IsService (TKind u))) (DependsOn t))"

text \<open>What each complaint of the check says is so.\<close>

fun complaint_holds :: "(string \<times> Task) list \<Rightarrow> Task list \<Rightarrow> depError \<Rightarrow> bool" where
  "complaint_holds byName ts (DependsOnItself n) =
     list_ex (\<lambda>t. IsService (TKind t) \<and> Name t = n \<and> n \<in> set (DependsOn t)) ts"
| "complaint_holds byName ts (DependsOnUnknown n d) =
     (map_of byName d = None \<and> list_ex (\<lambda>t. IsService (TKind t) \<and> Name t = n \<and> d \<in> set (DependsOn t)) ts)"
| "complaint_holds byName ts (DependsOnTask n d) =
     ((case map_of byName d of None \<Rightarrow> False | Some u \<Rightarrow> \<not> IsService (TKind u))
        \<and> list_ex (\<lambda>t. IsService (TKind t) \<and> Name t = n \<and> d \<in> set (DependsOn t)) ts)"
| "complaint_holds byName ts (DependencyCycle p) = is_cycle byName p"

lemma check_refs_ok:
  assumes "IsService (TKind t)"
  shows "set deps \<subseteq> set (DependsOn t) \<Longrightarrow>
    case check_refs byName (Name t) deps of
      Inl e \<Rightarrow> complaint_holds byName [t] e
    | Inr _ \<Rightarrow> list_all (\<lambda>d. d \<noteq> Name t
         \<and> (case map_of byName d of None \<Rightarrow> False | Some u \<Rightarrow> IsService (TKind u))) deps"
  using assms by (induction deps) (auto split: option.splits sum.splits)

lemma complaint_mono: "complaint_holds byName [t] e \<Longrightarrow> t \<in> set ts \<Longrightarrow> complaint_holds byName ts e"
  by (cases e) (auto simp: list_ex_iff split: option.splits)

lemma check_tasks_ok:
  "set us \<subseteq> set ts \<Longrightarrow>
    case check_tasks byName us of
      Inl e \<Rightarrow> complaint_holds byName ts e
    | Inr _ \<Rightarrow> list_all (refs_ok byName) us"
proof (induction us)
  case (Cons u us)
  show ?case
  proof (cases "IsService (TKind u)")
    case True
    show ?thesis using Cons check_refs_ok [OF True subset_refl, of byName] True
      by (auto simp: refs_ok_def [of _ u] intro: complaint_mono split: sum.splits)
  qed (use Cons in \<open>auto simp: refs_ok_def [of _ u] split: sum.splits\<close>)
qed simp

lemma validate_ok:
  "case validateServiceDependencies ts of
      Inl e \<Rightarrow> complaint_holds (by_name ts) ts e
    | Inr _ \<Rightarrow> list_all (refs_ok (by_name ts)) ts \<and> acyclic (dep_edges (by_name ts))"
  using check_tasks_ok [OF subset_refl, of "by_name ts" ts] detect_ok [of "by_name ts"]
  by (auto simp: validateServiceDependencies_def split: sum.splits)

section \<open>The order of the services\<close>

definition deps_first :: "(string \<times> Task) list \<Rightarrow> Task list \<Rightarrow> bool" where
  "deps_first byName ts \<longleftrightarrow>
     (\<forall>xs s ys. ts = xs @ s # ys \<longrightarrow>
        (\<forall>d\<in>set (DependsOn s). map_of byName d \<noteq> None \<longrightarrow> d \<in> Name ` set xs))"

lemma deps_first_Nil [simp]: "deps_first byName []"
  by (simp add: deps_first_def)

lemma deps_first_snoc:
  assumes "deps_first byName q" "\<forall>d\<in>set (DependsOn s). map_of byName d \<noteq> None \<longrightarrow> d \<in> Name ` set q"
  shows "deps_first byName (q @ [s])"
  unfolding deps_first_def
proof (intro allI impI)
  fix xs x ys assume eq: "q @ [s] = xs @ x # ys"
  show "\<forall>d\<in>set (DependsOn x). map_of byName d \<noteq> None \<longrightarrow> d \<in> Name ` set xs"
  proof (cases ys rule: rev_cases)
    case Nil
    then show ?thesis using eq assms(2) by simp
  next
    case (snoc zs z)
    then have "q = xs @ x # zs" using eq by simp
    then show ?thesis using assms(1) unfolding deps_first_def by blast
  qed
qed

definition services_only :: "(string \<times> Task) list \<Rightarrow> bool" where
  "services_only byName \<longleftrightarrow> (\<forall>n t. map_of byName n = Some t \<longrightarrow> Name t = n \<and> IsService (TKind t))"

text \<open>The visit, whatever the graph: it appends each of the services it reaches once.\<close>

lemma topo_visit_appends:
  assumes "services_only byName"
  shows "topo_visit byName ns (v, q) = (v', q') \<Longrightarrow>
    \<exists>r. q' = q @ r \<and> set v' = set v \<union> Name ` set r \<and> distinct (map Name r) \<and> Name ` set r \<inter> set v = {}
      \<and> (\<forall>t\<in>set r. map_of byName (Name t) = Some t)
      \<and> (\<forall>n\<in>set ns. map_of byName n \<noteq> None \<longrightarrow> n \<in> set v')"
  using assms
proof (induction byName ns "(v, q)" arbitrary: v q v' q' rule: topo_visit.induct)
  case (2 byName n ns v q)
  note IH2 = 2(2) and prem = 2(5,6)
  consider "map_of byName n = None" | s where "map_of byName n = Some s" "n \<in> set v"
    | s where "map_of byName n = Some s" "n \<notin> set v" by blast
  then show ?case
  proof cases
    case 3
    obtain v1 q1 where st: "topo_visit byName (DependsOn s) (n # v, q) = (v1, q1)" by fastforce
    obtain r1 where r1: "q1 = q @ r1" "set v1 = insert n (set v) \<union> Name ` set r1" "distinct (map Name r1)"
        "Name ` set r1 \<inter> insert n (set v) = {}" "\<forall>t\<in>set r1. map_of byName (Name t) = Some t"
      using 2(3) [OF 3 st 2(6)] by auto
    have "topo_visit byName ns (v1, q1 @ [s]) = (v', q')" using 2(5) 3 st by simp
    then obtain r2 where r2: "q' = (q1 @ [s]) @ r2" "set v' = set v1 \<union> Name ` set r2" "distinct (map Name r2)"
        "Name ` set r2 \<inter> set v1 = {}" "\<forall>t\<in>set r2. map_of byName (Name t) = Some t"
        "\<forall>n\<in>set ns. map_of byName n \<noteq> None \<longrightarrow> n \<in> set v'"
      using 2(4) [OF 3 st [symmetric] _ 2(6)] by blast
    have "Name s = n" using 2(6) 3 by (simp add: services_only_def)
    then show ?thesis using r1 r2 3
      by (intro exI [of _ "r1 @ s # r2"]) (auto simp: image_Un)
  next
    case 2
    with prem(1) have "topo_visit byName ns (v, q) = (v', q')" by simp
    from IH2 [OF 2 this prem(2)]
    obtain r where "q' = q @ r" "set v' = set v \<union> Name ` set r" "distinct (map Name r)" "Name ` set r \<inter> set v = {}"
        "\<forall>t\<in>set r. map_of byName (Name t) = Some t" "\<forall>n\<in>set ns. map_of byName n \<noteq> None \<longrightarrow> n \<in> set v'" by blast
    then show ?thesis using 2(2) by (intro exI [of _ r]) auto
  qed (use 2 in simp)
qed simp

lemma topo_visit_deps_first:
  assumes "services_only byName" "acyclic (dep_edges byName)"
  shows "topo_visit byName ns (v, q) = (v', q') \<Longrightarrow> deps_first byName q \<Longrightarrow>
    \<forall>g\<in>set v - Name ` set q. \<forall>n\<in>set ns. (g, n) \<in> (dep_edges byName)\<^sup>+ \<Longrightarrow> deps_first byName q'"
  using assms
proof (induction byName ns "(v, q)" arbitrary: v q v' q' rule: topo_visit.induct)
  case (2 byName n ns v q)
  consider "map_of byName n = None" | "map_of byName n \<noteq> None" "n \<in> set v"
    | s where "map_of byName n = Some s" "n \<notin> set v" by blast
  then show ?case
  proof cases
    case 3
    obtain v1 q1 where st: "topo_visit byName (DependsOn s) (n # v, q) = (v1, q1)" by fastforce
    obtain r where r: "q1 = q @ r" "set v1 = insert n (set v) \<union> Name ` set r"
        "\<forall>d\<in>set (DependsOn s). map_of byName d \<noteq> None \<longrightarrow> d \<in> set v1"
      using topo_visit_appends [OF 2(8) st] by auto
    have s: "Name s = n" "IsService (TKind s)" using 2(8) 3 by (simp_all add: services_only_def)
    have edge: "d \<in> set (DependsOn s) \<Longrightarrow> (n, d) \<in> dep_edges byName" for d
      using 3 s by (simp add: dep_edges_def dependsOn_def)
    have gray: "\<forall>g\<in>set (n # v) - Name ` set q. \<forall>d\<in>set (DependsOn s). (g, d) \<in> (dep_edges byName)\<^sup>+"
      using 2(7) edge by (auto intro: trancl_into_trancl)
    have "deps_first byName q1" by (rule 2(3) [OF 3 st 2(6) gray 2(8,9)])
    moreover have "d \<in> Name ` set q1" if d: "d \<in> set (DependsOn s)" "map_of byName d \<noteq> None" for d
    proof (rule ccontr)
      assume "d \<notin> Name ` set q1"
      then have "d \<in> set (n # v) - Name ` set q" using r d by auto
      then have "(d, d) \<in> (dep_edges byName)\<^sup>+" using gray d by blast
      then show False using 2(9) by (simp add: acyclic_def)
    qed
    ultimately have q1: "deps_first byName (q1 @ [s])" by (intro deps_first_snoc) blast+
    have "topo_visit byName ns (v1, q1 @ [s]) = (v', q')" using 2(5) 3 st by simp
    moreover have "\<forall>g\<in>set v1 - Name ` set (q1 @ [s]). \<forall>m\<in>set ns. (g, m) \<in> (dep_edges byName)\<^sup>+"
      using 2(7) r s by auto
    ultimately show ?thesis using 2(4) [OF 3 st [symmetric] _ q1 _ 2(8,9)] by blast
  qed (use 2 in auto)
qed simp

text \<open>From the daemon's map, whatever order it iterates in.\<close>

lemma by_name_lookup: "map_of (by_name ts) n = Some t \<Longrightarrow> t \<in> set ts \<and> Name t = n"
  unfolding by_name_def by (drule map_of_SomeD) auto

lemma by_name_known: "map_of (by_name ts) n = None \<longleftrightarrow> n \<notin> Name ` set ts"
  by (force simp: by_name_def map_of_eq_None_iff)

lemma by_name_distinct: "distinct (map Name ts) \<Longrightarrow> t \<in> set ts \<Longrightarrow> map_of (by_name ts) (Name t) = Some t"
  using map_of_is_SomeI [of "by_name ts" "Name t" t]
  by (auto simp: by_name_def rev_map [symmetric] comp_def)

lemma services_of_start: "set (orderServicesForStart tm) = {t \<in> snd ` set tm. IsService (TKind t)}"
  by (auto simp: orderServicesForStart_def)

lemma start_services_only: "services_only (by_name (orderServicesForStart tm))"
  by (auto simp: services_only_def services_of_start dest!: by_name_lookup)

text \<open>The names are those of one configuration, so the services have different keys and sorting them
  has one result.\<close>

lemma mset_filter_cong: "mset xs = mset ys \<Longrightarrow> mset (filter P xs) = mset (filter P ys)"
  by (simp add: mset_filter)

lemma start_order_unique:
  assumes "mset tm = mset tm'" "distinct (map (Name \<circ> snd) tm)"
  shows "orderServicesForStart tm = orderServicesForStart tm'"
  unfolding orderServicesForStart_def
proof (rule sort_key_inj_key_eq)
  let ?s = "\<lambda>tm. filter (\<lambda>t. IsService (TKind t)) (map snd tm)"
  show "mset (?s tm) = mset (sort_key start_key (?s tm'))"
    using mset_filter_cong [of "map snd tm" "map snd tm'"] assms(1) by simp
  show "inj_on start_key (set (?s tm))"
    using assms(2) by (auto simp: inj_on_def start_key_def distinct_map)
qed simp

lemma topoStartOrder_ok:
  assumes named: "distinct (map (Name \<circ> snd) tm)"
  shows "mset (topoStartOrder tm) = mset (filter (\<lambda>t. IsService (TKind t)) (map snd tm))"
    and "acyclic (dep_edges (by_name (orderServicesForStart tm)))
      \<Longrightarrow> deps_first (by_name (orderServicesForStart tm)) (topoStartOrder tm)"
proof -
  let ?roots = "orderServicesForStart tm"
  obtain v q where st: "topo_visit (by_name ?roots) (map Name ?roots) ([], []) = (v, q)" by fastforce
  have q: "topoStartOrder tm = q" using st by (simp add: topoStartOrder_def Let_def)
  have dist: "distinct (map Name (filter (\<lambda>t. IsService (TKind t)) (map snd tm)))"
    using named by (intro distinct_map_filter) simp
  have ms: "mset ?roots = mset (filter (\<lambda>t. IsService (TKind t)) (map snd tm))"
    by (simp add: orderServicesForStart_def)
  then have dr: "distinct (map Name ?roots)" using dist
    by (metis mset_map mset_eq_imp_distinct_iff)
  obtain r where r: "q = r" "set v = Name ` set r" "distinct (map Name r)"
      "\<forall>t\<in>set r. map_of (by_name ?roots) (Name t) = Some t"
      "\<forall>n\<in>set (map Name ?roots). map_of (by_name ?roots) n \<noteq> None \<longrightarrow> n \<in> set v"
    using topo_visit_appends [OF start_services_only st] by auto
  have "set r = set ?roots"
  proof
    show "set r \<subseteq> set ?roots" using r(4) by_name_lookup by blast
    show "set ?roots \<subseteq> set r"
    proof
      fix t assume t: "t \<in> set ?roots"
      then have "Name t \<in> Name ` set r" using r(2,5) by (auto simp: by_name_distinct [OF dr])
      then obtain u where "u \<in> set r" "Name u = Name t" by auto
      then show "t \<in> set r" using r(4) t by_name_distinct [OF dr t] by force
    qed
  qed
  then have "mset r = mset ?roots"
    using r(3) dr by (metis distinct_map set_eq_iff_mset_eq_distinct)
  then show "mset (topoStartOrder tm) = mset (filter (\<lambda>t. IsService (TKind t)) (map snd tm))"
    using ms r(1) q by simp
  show "deps_first (by_name ?roots) (topoStartOrder tm)" if "acyclic (dep_edges (by_name ?roots))"
    unfolding q by (rule topo_visit_deps_first [OF start_services_only that st]) auto
qed

text \<open>The graph of the services is that of the configuration.\<close>

lemma dep_edges_roots:
  assumes "mset tm = mset (map (\<lambda>t. (Name t, t)) ts)" "distinct (map Name ts)"
  shows "dep_edges (by_name (orderServicesForStart tm)) \<subseteq> dep_edges (by_name ts)"
proof -
  have "set tm = set (map (\<lambda>t. (Name t, t)) ts)" by (rule mset_eq_setD [OF assms(1)])
  then have "snd ` set tm = set ts" by (simp add: image_image)
  then have "t \<in> set (orderServicesForStart tm) \<Longrightarrow> map_of (by_name ts) (Name t) = Some t" for t
    by (auto simp: services_of_start by_name_distinct [OF assms(2)])
  then have "map_of (by_name (orderServicesForStart tm)) a = Some t \<Longrightarrow> map_of (by_name ts) a = Some t" for a t
    using by_name_lookup by blast
  then have "set (dependsOn (by_name (orderServicesForStart tm)) a) \<subseteq> set (dependsOn (by_name ts) a)" for a
    by (cases "map_of (by_name (orderServicesForStart tm)) a") (auto simp: dependsOn_def)
  then show ?thesis by (auto simp: dep_edges_def)
qed

section \<open>Properties\<close>

definition chain_task :: "string \<Rightarrow> string list \<Rightarrow> Task" where
  "chain_task n deps = example_task\<lparr>Name := n, TKind := KindService, DependsOn := deps\<rparr>"

text \<open>C21. The check of the service dependencies is exact. Whatever it complains of is so - a service
  naming itself, an unknown name, a task, or a path of dependencies that returns to its first
  service - and a configuration it accepts has only references to other services and no cycle,
  so that no cyclic configuration is accepted.\<close>

theorem dependency_check_exact:
  "case validateServiceDependencies ts of
      Inl e \<Rightarrow> complaint_holds (by_name ts) ts e
    | Inr _ \<Rightarrow> list_all (refs_ok (by_name ts)) ts \<and> acyclic (dep_edges (by_name ts))"
  by (rule validate_ok)

text \<open>The pass gives a turn to a prefix of its list, and stops short only at the deadline.\<close>

lemma pre_stop_prefix:
  "\<exists>k \<le> length ts. pre_stop ctxErr idle ts d = fold (stop_turn idle) (take k ts) d
    \<and> (\<forall>j < k. \<not> ctxErr (fold (stop_turn idle) (take j ts) d))
    \<and> (k < length ts \<longrightarrow> ctxErr (pre_stop ctxErr idle ts d))"
proof (induction ts arbitrary: d)
  case (Cons t ts)
  show ?case
  proof (cases "ctxErr d")
    case False
    from Cons.IH [of "stop_turn idle t d"] obtain k where k: "k \<le> length ts"
      "pre_stop ctxErr idle ts (stop_turn idle t d) = fold (stop_turn idle) (take k ts) (stop_turn idle t d)"
      "\<forall>j < k. \<not> ctxErr (fold (stop_turn idle) (take j ts) (stop_turn idle t d))"
      "k < length ts \<longrightarrow> ctxErr (pre_stop ctxErr idle ts (stop_turn idle t d))" by blast
    have "\<not> ctxErr (fold (stop_turn idle) (take j (t # ts)) d)" if "j < Suc k" for j
      using that k(3) False by (cases j) auto
    with k False show ?thesis by (intro exI [of _ "Suc k"]) auto
  qed (auto intro: exI [of _ 0])
qed simp

text \<open>C10. The shutdown's pass over the services of an accepted configuration respects their
  dependencies. The list it walks has each service exactly once and every service before all the
  services it depends on, whatever order the daemon's map of tasks is iterated in, and that order
  does not change it. The pass gives the services of a prefix of that list one turn each, in its
  order - a turn asks the service to stop and waits for it to drain, or passes over a service whose
  stop is refused - and leaves the rest, to the bulk drain that follows, only if its deadline has
  passed; a service with a turn has it before the deadline and before any service it depends on.\<close>

theorem stop_order_respects_dependencies:
  assumes "validateServiceDependencies ts = Inr ()" "distinct (map Name ts)"
    and "mset tm = mset (map (\<lambda>t. (Name t, t)) ts)"
  shows "mset (orderServicesForStop tm) = mset (filter (\<lambda>t. IsService (TKind t)) ts)
    \<and> (orderServicesForStop tm = xs @ s # ys \<longrightarrow> set (DependsOn s) \<subseteq> Name ` set ys)
    \<and> orderServicesForStop tm = orderServicesForStop (map (\<lambda>t. (Name t, t)) ts)
    \<and> (\<exists>k \<le> length (orderServicesForStop tm).
         preStopServices ctxErr idle tm d = fold (stop_turn idle) (take k (orderServicesForStop tm)) d
         \<and> (\<forall>j < k. \<not> ctxErr (fold (stop_turn idle) (take j (orderServicesForStop tm)) d))
         \<and> (k < length (orderServicesForStop tm) \<longrightarrow> ctxErr (preStopServices ctxErr idle tm d)))"
proof -
  have "mset (map (Name \<circ> snd) tm) = mset (map Name ts)"
    using arg_cong [OF assms(3), of "image_mset (Name \<circ> snd)"] by (simp add: comp_def multiset.map_comp)
  then have named: "distinct (map (Name \<circ> snd) tm)" using assms(2) mset_eq_imp_distinct_iff by blast
  have snds: "mset (map snd tm) = mset ts"
    using arg_cong [OF assms(3), of "image_mset snd"] by (simp add: comp_def multiset.map_comp)
  have valid: "list_all (refs_ok (by_name ts)) ts" "acyclic (dep_edges (by_name ts))"
    using validate_ok [of ts] assms(1) by simp_all
  have first: "deps_first (by_name (orderServicesForStart tm)) (topoStartOrder tm)"
    using topoStartOrder_ok(2) [OF named] acyclic_subset [OF valid(2) dep_edges_roots [OF assms(3,2)]] .
  have mem: "set (map snd tm) = set ts" using snds by (metis set_mset_mset)
  have perm: "mset (topoStartOrder tm) = mset (filter (\<lambda>t. IsService (TKind t)) ts)"
    using topoStartOrder_ok(1) [OF named] mset_filter_cong [OF snds] by simp
  have "set (DependsOn s) \<subseteq> Name ` set ys" if "orderServicesForStop tm = xs @ s # ys"
  proof
    fix d assume d: "d \<in> set (DependsOn s)"
    have split: "topoStartOrder tm = rev ys @ s # rev xs"
      using arg_cong [OF that, of rev] by (simp add: orderServicesForStop_def)
    then have "s \<in> set ts" "IsService (TKind s)"
      using mset_eq_setD [OF perm] by auto
    then obtain u where "map_of (by_name ts) d = Some u" "IsService (TKind u)"
      using valid(1) d by (force simp: list_all_iff refs_ok_def split: option.splits)
    then have "d \<in> Name ` set (orderServicesForStart tm)"
      using by_name_lookup [of ts d u] mem by (force simp: services_of_start)
    then have "map_of (by_name (orderServicesForStart tm)) d \<noteq> None" by (simp add: by_name_known)
    then show "d \<in> Name ` set ys" using first split d by (fastforce simp: deps_first_def)
  qed
  moreover have "orderServicesForStop tm = orderServicesForStop (map (\<lambda>t. (Name t, t)) ts)"
    unfolding orderServicesForStop_def topoStartOrder_def by (simp only: start_order_unique [OF assms(3) named])
  moreover note pre_stop_prefix [of "orderServicesForStop tm" ctxErr idle d, folded preStopServices_def]
  ultimately show ?thesis using perm by (simp add: orderServicesForStop_def)
qed

theorem stop_order_respects_dependencies_witness:
  "set (DependsOn (chain_task ''web'' [''api''])) \<subseteq> Name ` set [chain_task ''api'' [''db''], chain_task ''db'' []]"
  using conjunct1 [OF conjunct2 [OF stop_order_respects_dependencies [of
      "[chain_task ''web'' [''api''], chain_task ''api'' [''db''], chain_task ''db'' []]"
      "[(''db'', chain_task ''db'' []), (''web'', chain_task ''web'' [''api'']), (''api'', chain_task ''api'' [''db''])]"
      "[]" "chain_task ''web'' [''api'']" "[chain_task ''api'' [''db''], chain_task ''db'' []]"]]]
  by code_simp

text \<open>A service whose launch was not cut short by the shutdown is started once its waits are
  over, however its dependencies fared, and it is started with nothing logged only after each of
  its dependencies was seen healthy at one of the polls within that dependency's window.\<close>

lemma launch_waits_for_dependencies:
  assumes "await_dependencies polls tasksMap (DependsOn task) \<noteq> None"
  shows "snd (launchServiceWhenReady polls tasksMap task d)
      = on_manager (\<lambda>m. snd (StartServiceInstances (Name task) TriggeredByService m)) d
    \<and> (dep \<in> set (DependsOn task) \<and> dep \<notin> fst ` set (fst (launchServiceWhenReady polls tasksMap task d))
        \<longrightarrow> list_ex (\<lambda>m. ServiceHealthy m dep) (fst (polls (dep_window tasksMap dep) dep)))"
proof -
  have seen: "WaitServiceHealthy ms n = BecameHealthy \<Longrightarrow> list_ex (\<lambda>m. ServiceHealthy m n) ms" for ms n
    by (induction ms) (auto simp: wait_healthy_turn_def split: option.splits if_splits unrecoverable.splits)
  have "await_dependencies polls tasksMap deps = Some w \<Longrightarrow> dep \<in> set deps \<Longrightarrow> dep \<notin> fst ` set w
      \<Longrightarrow> list_ex (\<lambda>m. ServiceHealthy m dep) (fst (polls (dep_window tasksMap dep) dep))" for deps w
    by (induction deps arbitrary: w)
      (auto split: prod.splits if_splits option.splits waitEnd.splits intro: seen)
  then show ?thesis using assms by (auto simp: launchServiceWhenReady_def)
qed

definition db_boot :: daemon where
  "db_boot = UpsertTask (chain_task ''web'' [''db'']) (UpsertTask (chain_task ''db'' [])
     (boot (\<lambda>n. Itoa n) (\<lambda>_. False) 1000))"

text \<open>The database a second after it was started and after its minute of uptime.\<close>

definition db_polls :: "duration \<Rightarrow> string \<Rightarrow> manager list \<times> bool" where
  "db_polls window dep =
     (let m = snd (daemon_step (EvBegin ''db'' ''0'') (daemon_step (EvStartInstances ''db'' TriggeredByService) db_boot))
      in ([m\<lparr>clock := clock m + second\<rparr>, m\<lparr>clock := clock m + 61 * second\<rparr>], False))"

end
