(* ===== verification/Notify_Event.thy ===== *)
theory Notify_Event
  imports Manager
begin

text \<open>
  What the notification subsystem makes of a bus event (\<open>notify/event.go\<close>, \<open>bridge.go\<close>,
  \<open>kinds/kinds.go\<close>) and where it sends it (\<open>predicate.go\<close>, \<open>router.go\<close>,
  \<open>configload/configload.go\<close>): the vocabulary of kinds and outcomes, the identity under which
  repeats are folded, the predicates of the routes and the routing itself. The bus's own types are
  those of \<open>events/events.go\<close>; payloads nobody here reads are one constructor.
\<close>

section \<open>Printing\<close>

text \<open>\<open>time.Duration\<close>'s \<open>Round\<close>, half away from zero, and \<open>String\<close>, the micro sign in its two
  bytes.\<close>

definition Dur_Round :: "duration \<Rightarrow> duration \<Rightarrow> duration" where
  "Dur_Round m d =
     (if m \<le> 0 then d
      else let r = \<bar>d\<bar> mod m;
               a = (if r + r < m then \<bar>d\<bar> - r else \<bar>d\<bar> + (m - r));
               x = (if d < 0 then - a else a)
           in if max_int64 < x then max_int64 else if x < min_int64 then min_int64 else x)"

fun fmt_frac :: "nat \<Rightarrow> nat \<Rightarrow> string" where
  "fmt_frac v 0 = []"
| "fmt_frac v (Suc prec) =
     (if v mod 10 ^ Suc prec = 0 then []
      else digit_char (v div 10 ^ prec mod 10) # fmt_frac v prec)"

definition frac_part :: "nat \<Rightarrow> nat \<Rightarrow> string" where
  "frac_part v prec = (case fmt_frac v prec of [] \<Rightarrow> [] | ds \<Rightarrow> CHR ''.'' # ds)"

definition Dur_String :: "duration \<Rightarrow> string" where
  "Dur_String d =
     (let u = nat \<bar>d\<bar>;
          sign = (if d < 0 then ''-'' else []);
          secs = u div 10 ^ 9;
          body =
            (if u = 0 then ''0s''
             else if u < 10 ^ 3 then Itoa u @ ''ns''
             else if u < 10 ^ 6 then Itoa (u div 10 ^ 3) @ frac_part u 3 @ [CHR 0xC2, CHR 0xB5, CHR ''s'']
             else if u < 10 ^ 9 then Itoa (u div 10 ^ 6) @ frac_part u 6 @ ''ms''
             else (if secs < 60 then [] else
                    (if secs < 3600 then [] else Itoa (secs div 3600) @ ''h'')
                      @ Itoa (secs div 60 mod 60) @ ''m'')
                  @ Itoa (secs mod 60) @ frac_part u 9 @ ''s'')
      in sign @ body)"

section \<open>Bus events\<close>

datatype EventType =
    OnRun runEvent | EventRunUpdated | EventRunDeleted | EventRunLongRunning
  | EventLogLine | EventLogRegion | EventLogDiskPressure | EventServiceFatal
  | EventSystemSample | EventConfigStale | EventTasksChanged

record RunEventData =
  re_Run :: "Run option"
  re_LogPath :: string
  re_Error :: string

record LogDiskPressure =
  dp_TaskName :: string
  dp_RunID :: string
  dp_FreeBytes :: int
  dp_MinFreeBytes :: int
  dp_KilledTask :: bool

record ServiceFatal =
  sf_TaskName :: string
  sf_InstanceIndex :: int
  sf_Attempts :: int
  sf_LastExitCode :: int

datatype EventData =
    RunData RunEventData | DiskPressureData LogDiskPressure | ServiceFatalData ServiceFatal
  | OtherData

record BusEvent =
  be_Type :: EventType
  be_Timestamp :: instant
  be_Data :: EventData

section \<open>Notification events\<close>

datatype Severity = SevInfo | SevWarn | SevError

datatype EventKind =
    KindRunStarted | KindRunLongRunning | KindRunSucceeded | KindRunRecovered | KindRunFailed
  | KindRunTimeout | KindRunStopped | KindRunCrashed | KindRunMissed | KindServiceFatal
  | KindLogDiskPressure | KindNotifyDeliveryFailed

fun kind_name :: "EventKind \<Rightarrow> string" where
  "kind_name KindRunStarted = ''run.started''"
| "kind_name KindRunLongRunning = ''run.long_running''"
| "kind_name KindRunSucceeded = ''run.succeeded''"
| "kind_name KindRunRecovered = ''run.recovered''"
| "kind_name KindRunFailed = ''run.failed''"
| "kind_name KindRunTimeout = ''run.timeout''"
| "kind_name KindRunStopped = ''run.stopped''"
| "kind_name KindRunCrashed = ''run.crashed''"
| "kind_name KindRunMissed = ''run.missed''"
| "kind_name KindServiceFatal = ''service.fatal''"
| "kind_name KindLogDiskPressure = ''log.disk_pressure''"
| "kind_name KindNotifyDeliveryFailed = ''notify.delivery_failed''"

datatype extraValue = ExtraInt int | ExtraString string | ExtraBool bool

record Event =
  ev_ID :: string
  ev_Kind :: EventKind
  ev_Severity :: Severity
  ev_Timestamp :: instant
  ev_TaskName :: string
  ev_IsFailure :: bool
  ev_Run :: "Run option"
  ev_LogPath :: string
  ev_Reason :: string
  ev_Extra :: "(string \<times> extraValue) list"

text \<open>\<open>ev.Extra[k].(string)\<close>, with the empty string for a value of another type.\<close>

definition extra_string :: "string \<Rightarrow> Event \<Rightarrow> string" where
  "extra_string k ev = (case map_of (ev_Extra ev) k of Some (ExtraString s) \<Rightarrow> s | _ \<Rightarrow> [])"

definition KindTitle :: "Event \<Rightarrow> string" where
  "KindTitle ev =
     (case ev_Kind ev of
        KindRunStarted \<Rightarrow> ev_TaskName ev @ '' started''
      | KindRunLongRunning \<Rightarrow> ev_TaskName ev @ '' still running''
      | KindRunSucceeded \<Rightarrow> ev_TaskName ev @ '' succeeded''
      | KindRunRecovered \<Rightarrow> ev_TaskName ev @ '' recovered''
      | KindRunFailed \<Rightarrow> ev_TaskName ev @ '' failed''
      | KindRunTimeout \<Rightarrow> ev_TaskName ev @ '' timed out''
      | KindRunStopped \<Rightarrow> ev_TaskName ev @ '' stopped''
      | KindRunCrashed \<Rightarrow> ev_TaskName ev @ '' crashed''
      | KindRunMissed \<Rightarrow> ev_TaskName ev @ '' missed''
      | KindServiceFatal \<Rightarrow> ev_TaskName ev @ '' gave up: instance keeps failing to start''
      | KindLogDiskPressure \<Rightarrow> ev_TaskName ev @ '' log output paused: low disk''
      | KindNotifyDeliveryFailed \<Rightarrow>
          (case extra_string ''channel'' ev of
             [] \<Rightarrow> ''Notification delivery failed''
           | channel \<Rightarrow> ''Delivery to '' @ channel @ '' failed''))"

definition LongRunningKind :: string where "LongRunningKind = ''long_running''"
definition RecoveredKind :: string where "RecoveredKind = ''recovered''"
definition logDiskPressureKind :: string where "logDiskPressureKind = ''log.disk_pressure''"

definition run_reason :: "Event \<Rightarrow> EndReason option" where
  "run_reason ev = (case ev_Run ev of None \<Rightarrow> None | Some r \<Rightarrow> EndReason r)"

definition Outcome :: "Event \<Rightarrow> string" where
  "Outcome ev =
     (case ev_Kind ev of
        KindServiceFatal \<Rightarrow> kind_name (ev_Kind ev)
      | KindLogDiskPressure \<Rightarrow> kind_name (ev_Kind ev)
      | KindRunStarted \<Rightarrow> ''started''
      | KindRunLongRunning \<Rightarrow> LongRunningKind
      | KindRunRecovered \<Rightarrow> RecoveredKind
      | _ \<Rightarrow> (case run_reason ev of
            Some r \<Rightarrow> reason_name r
          | None \<Rightarrow> kind_name (ev_Kind ev)))"

definition ClosedBySuccess :: "Event \<Rightarrow> bool" where
  "ClosedBySuccess ev \<longleftrightarrow> ev_IsFailure ev \<or> ev_Kind ev = KindRunRecovered"

definition FingerprintKey :: "Event \<Rightarrow> string" where
  "FingerprintKey ev =
     (let extra =
        (if ev_Kind ev = KindNotifyDeliveryFailed \<and> ev_Extra ev \<noteq> []
         then extra_string ''channel'' ev @ ''|'' @ extra_string ''original_kind'' ev
         else (case run_reason ev of None \<Rightarrow> [] | Some r \<Rightarrow> reason_name r))
      in kind_name (ev_Kind ev) @ ''|'' @ ev_TaskName ev @ ''|'' @ extra)"

section \<open>From the bus\<close>

definition runSeverity :: "EventKind \<Rightarrow> bool \<Rightarrow> Severity" where
  "runSeverity kind isFailure =
     (if isFailure then SevError
      else if kind \<in> {KindRunStarted, KindRunSucceeded} then SevInfo
      else SevWarn)"

definition mapRunEventType :: "EventType \<Rightarrow> Run \<Rightarrow> EventKind option" where
  "mapRunEventType t run =
     (case t of
        OnRun EventRunStarted \<Rightarrow> Some KindRunStarted
      | EventRunLongRunning \<Rightarrow> Some KindRunLongRunning
      | OnRun EventRunCompleted \<Rightarrow> Some KindRunSucceeded
      | OnRun EventRunFailed \<Rightarrow>
          (case EndReason run of
             None \<Rightarrow> Some KindRunFailed
           | Some r \<Rightarrow>
               if r \<in> {ReasonFailed, ReasonLogOverflow, ReasonUnhealthy} then Some KindRunFailed
               else if r = ReasonTimeout then Some KindRunTimeout
               else if r \<in> {ReasonStopped, ReasonDaemonStopped} then Some KindRunStopped
               else if r = ReasonCrashed then Some KindRunCrashed
               else if r = ReasonMissed then Some KindRunMissed
               else if r \<in> {ReasonSkipped, ReasonDSTSkipped} then None
               else if r = ReasonStartFailed then None
               else Some KindRunFailed)
      | _ \<Rightarrow> None)"

definition roundDuration :: "duration \<Rightarrow> duration" where
  "roundDuration d = (if d < second then Dur_Round 1000000 d else Dur_Round second d)"

definition runReasonString :: "Run \<Rightarrow> string \<Rightarrow> string" where
  "runReasonString run errMsg =
     (if errMsg \<noteq> [] then errMsg
      else case EndReason run of
          None \<Rightarrow> []
        | Some r \<Rightarrow>
            if r = ReasonSuccess then []
            else let after = (case Duration run of
                         None \<Rightarrow> [] | Some d \<Rightarrow> '' after '' @ Dur_String (roundDuration d))
                 in if ExitCode run > 0
                    then reason_name r @ '' exit '' @ fmt_int (ExitCode run) @ after
                    else reason_name r @ after)"

text \<open>Go's integer division by a positive number truncates.\<close>

definition go_div :: "int \<Rightarrow> int \<Rightarrow> int" where
  "go_div a b = (if a < 0 then - (- a div b) else a div b)"

definition applyLongRunning :: "Event \<Rightarrow> Event" where
  "applyLongRunning ev =
     (case ev_Run ev of
        None \<Rightarrow> ev
      | Some run \<Rightarrow> (case StartedAt run of
            None \<Rightarrow> ev
          | Some s \<Rightarrow>
              (let elapsed = time_sub (ev_Timestamp ev) s
               in ev\<lparr>ev_Reason := ''still running after '' @ Dur_String (Dur_Round second elapsed),
                     ev_Extra := [(''elapsed_ms'', ExtraInt (go_div elapsed 1000000))]\<rparr>)))"

definition lastExitSuffix :: "int \<Rightarrow> string" where
  "lastExitSuffix code = (if code < 0 then [] else '' (last exit '' @ fmt_int code @ '')'')"

definition serviceFatalReason :: "ServiceFatal \<Rightarrow> string" where
  "serviceFatalReason d =
     ''instance #'' @ fmt_int (wrap64 (sf_InstanceIndex d + 1)) @ '' failed to start '' @ fmt_int (sf_Attempts d)
       @ '' times in a row'' @ lastExitSuffix (sf_LastExitCode d) @ ''; supervisor gave up''"

definition diskPressureReason :: "LogDiskPressure \<Rightarrow> string" where
  "diskPressureReason d =
     ''disk space below '' @ fmt_int (dp_MinFreeBytes d) @ '' bytes (free '' @ fmt_int (dp_FreeBytes d)
       @ (if dp_KilledTask d then ''); task killed by log_on_full=\"kill\"'' else ''); log output paused'')"

definition MapEvent :: "BusEvent \<Rightarrow> Event option" where
  "MapEvent e =
     (case be_Data e of
        RunData d \<Rightarrow>
          (case re_Run d of
             None \<Rightarrow> None
           | Some run \<Rightarrow> (case mapRunEventType (be_Type e) run of
                 None \<Rightarrow> None
               | Some kind \<Rightarrow>
                   (let ev = \<lparr>ev_ID = [], ev_Kind = kind, ev_Severity = runSeverity kind (IsFailure run),
                          ev_Timestamp = be_Timestamp e, ev_TaskName = TaskName run,
                          ev_IsFailure = IsFailure run, ev_Run = Some run, ev_LogPath = re_LogPath d,
                          ev_Reason = runReasonString run (re_Error d), ev_Extra = []\<rparr>
                    in Some (if kind = KindRunLongRunning then applyLongRunning ev else ev))))
      | DiskPressureData d \<Rightarrow>
          Some \<lparr>ev_ID = [], ev_Kind = KindLogDiskPressure, ev_Severity = SevWarn,
            ev_Timestamp = be_Timestamp e, ev_TaskName = dp_TaskName d, ev_IsFailure = False,
            ev_Run = None, ev_LogPath = [], ev_Reason = diskPressureReason d,
            ev_Extra = [(''run_id'', ExtraString (dp_RunID d)), (''free_bytes'', ExtraInt (dp_FreeBytes d)),
              (''min_free_bytes'', ExtraInt (dp_MinFreeBytes d)), (''killed_task'', ExtraBool (dp_KilledTask d))]\<rparr>
      | ServiceFatalData d \<Rightarrow>
          Some \<lparr>ev_ID = [], ev_Kind = KindServiceFatal, ev_Severity = SevError,
            ev_Timestamp = be_Timestamp e, ev_TaskName = sf_TaskName d, ev_IsFailure = True,
            ev_Run = None, ev_LogPath = [], ev_Reason = serviceFatalReason d,
            ev_Extra = [(''instance_index'', ExtraInt (sf_InstanceIndex d)),
              (''attempts'', ExtraInt (sf_Attempts d)), (''last_exit_code'', ExtraInt (sf_LastExitCode d))]\<rparr>
      | OtherData \<Rightarrow> None)"

text \<open>\<open>Service.recovery\<close>: \<open>prevRunFailed\<close> is the lookup of the task's previous run, if the service was
  given one, and its inner \<open>None\<close> a failed query.\<close>

definition recovery :: "(string \<Rightarrow> string \<Rightarrow> bool option) option \<Rightarrow> Event \<Rightarrow> Event option" where
  "recovery prevRunFailed ev =
     (case (prevRunFailed, ev_Run ev) of
        (Some lookup, Some run) \<Rightarrow>
          if ev_Kind ev \<noteq> KindRunSucceeded then None
          else (case lookup (ev_TaskName ev) (ID run) of
              Some True \<Rightarrow> Some (ev\<lparr>ev_Kind := KindRunRecovered, ev_Severity := SevInfo, ev_IsFailure := False\<rparr>)
            | _ \<Rightarrow> None)
      | _ \<Rightarrow> None)"

section \<open>The vocabulary of routes\<close>

definition excludedEndReasons :: "EndReason list" where
  "excludedEndReasons = [ReasonSkipped, ReasonDSTSkipped, ReasonStartFailed]"

definition AllKindStrings :: "string list" where
  "AllKindStrings =
     ''started'' # map reason_name (filter (\<lambda>r. r \<notin> set excludedEndReasons) AllEndReasons)
       @ [''service.fatal'', logDiskPressureKind, LongRunningKind, RecoveredKind]"

definition NeverFailureKinds :: "string list" where
  "NeverFailureKinds =
     [''started'', reason_name ReasonSuccess, logDiskPressureKind, LongRunningKind, RecoveredKind]"

section \<open>Predicates and routes\<close>

type_synonym Predicate = "Event \<Rightarrow> bool"

definition MatchAll :: Predicate where "MatchAll ev = True"

definition MatchFailure :: Predicate where "MatchFailure ev = ev_IsFailure ev"

definition MatchOutcomes :: "string list \<Rightarrow> Predicate" where
  "MatchOutcomes tokens =
     (if tokens = [] then MatchAll else (\<lambda>ev. Outcome ev \<in> set tokens))"

text \<open>\<open>path.Match\<close>: a pattern is a list of tokens or malformed. A star matches any characters but a
  slash, a question mark one of them, a class one character of its ranges.\<close>

datatype globToken = GlobStar | GlobAny | GlobLit char | GlobClass bool "(char \<times> char) list"

fun glob_esc :: "string \<Rightarrow> (char \<times> string) option" where
  "glob_esc [] = None"
| "glob_esc (c # s) =
     (if c = CHR ''-'' \<or> c = CHR '']'' then None
      else if c = CHR 0x5C then (case s of [] \<Rightarrow> None | d # s' \<Rightarrow> if s' = [] then None else Some (d, s'))
      else if s = [] then None else Some (c, s))"

lemma glob_esc_shrinks: "glob_esc s = Some (c, s') \<Longrightarrow> length s' < length s"
  by (cases s) (auto split: if_splits list.splits)

function glob_ranges :: "string \<Rightarrow> (char \<times> char) list \<Rightarrow> ((char \<times> char) list \<times> string) option" where
  "glob_ranges s rs =
     (if s \<noteq> [] \<and> hd s = CHR '']'' \<and> rs \<noteq> [] then Some (rs, tl s)
      else case glob_esc s of
          None \<Rightarrow> None
        | Some (lo, s') \<Rightarrow>
            if s' \<noteq> [] \<and> hd s' = CHR ''-''
            then (case glob_esc (tl s') of
                None \<Rightarrow> None
              | Some (hi, s'') \<Rightarrow> glob_ranges s'' (rs @ [(lo, hi)]))
            else glob_ranges s' (rs @ [(lo, lo)]))"
  by pat_completeness auto
termination
proof (relation "measure (length \<circ> fst)", goal_cases)
  case (2 s rs a lo s' b hi s'')
  then have "length s'' < length (tl s')" "length s' < length s"
    using glob_esc_shrinks [of "tl s'" hi s''] glob_esc_shrinks [of s lo s'] by simp_all
  moreover have "length (tl s') \<le> length s'" by simp
  ultimately show ?case by (simp del: length_tl)
next
  case (3 s rs a lo s')
  then show ?case using glob_esc_shrinks by auto
qed simp

lemma glob_ranges_shrinks: "glob_ranges s rs = Some (rs', s') \<Longrightarrow> length s' < length s"
proof (induction s rs rule: glob_ranges.induct)
  case (1 s rs)
  show ?case
  proof (cases "s \<noteq> [] \<and> hd s = CHR '']'' \<and> rs \<noteq> []")
    case True
    then show ?thesis using 1(3) by (cases s) (auto simp: glob_ranges.simps [of s rs])
  next
    case False
    then obtain lo t where t: "glob_esc s = Some (lo, t)"
      using 1(3) by (auto simp: glob_ranges.simps [of s rs] split: option.splits)
    note lt = glob_esc_shrinks [OF t]
    show ?thesis
    proof (cases "t \<noteq> [] \<and> hd t = CHR ''-''")
      case True
      then obtain hi u where u: "glob_esc (tl t) = Some (hi, u)"
        using 1(3) False t by (auto simp: glob_ranges.simps [of s rs] split: option.splits)
      have "glob_ranges u (rs @ [(lo, hi)]) = Some (rs', s')"
        using 1(3) False t True u by (simp add: glob_ranges.simps [of s rs])
      then have "length s' < length u" using 1(1) [OF False t refl True u refl] by blast
      moreover have "length u < length (tl t)" using glob_esc_shrinks [OF u] .
      ultimately show ?thesis using lt by simp
    next
      case no: False
      have "glob_ranges t (rs @ [(lo, lo)]) = Some (rs', s')"
        using 1(3) False t no by (simp add: glob_ranges.simps [of s rs])
      then show ?thesis using 1(2) [OF False t refl no] lt by simp
    qed
  qed
qed

declare glob_ranges.simps [simp del]

function parse_glob :: "string \<Rightarrow> globToken list option" where
  "parse_glob [] = Some []"
| "parse_glob (c # s) =
     (if c = CHR ''*'' then map_option ((#) GlobStar) (parse_glob s)
      else if c = CHR ''?'' then map_option ((#) GlobAny) (parse_glob s)
      else if c = CHR ''['' then
        (let negated = (s \<noteq> [] \<and> hd s = CHR ''^'') in
         case glob_ranges (if negated then tl s else s) [] of
           None \<Rightarrow> None
         | Some (rs, s') \<Rightarrow> map_option ((#) (GlobClass negated rs)) (parse_glob s'))
      else if c = CHR 0x5C then
        (case s of [] \<Rightarrow> None | d # s' \<Rightarrow> map_option ((#) (GlobLit d)) (parse_glob s'))
      else map_option ((#) (GlobLit c)) (parse_glob s))"
  by pat_completeness auto
termination
  by (relation "measure length") (auto dest!: glob_ranges_shrinks simp: less_Suc_eq_le split: if_splits)

definition in_ranges :: "char \<Rightarrow> (char \<times> char) list \<Rightarrow> bool" where
  "in_ranges c rs = list_ex (\<lambda>(lo, hi). lo \<le> c \<and> c \<le> hi) rs"

function glob_match :: "globToken list \<Rightarrow> string \<Rightarrow> bool" where
  "glob_match [] s = (s = [])"
| "glob_match (GlobStar # ts) s =
     (glob_match ts s \<or> (case s of [] \<Rightarrow> False | c # s' \<Rightarrow> c \<noteq> CHR ''/'' \<and> glob_match (GlobStar # ts) s'))"
| "glob_match (GlobAny # ts) s = (case s of [] \<Rightarrow> False | c # s' \<Rightarrow> c \<noteq> CHR ''/'' \<and> glob_match ts s')"
| "glob_match (GlobLit d # ts) s = (case s of [] \<Rightarrow> False | c # s' \<Rightarrow> c = d \<and> glob_match ts s')"
| "glob_match (GlobClass negated rs # ts) s =
     (case s of [] \<Rightarrow> False | c # s' \<Rightarrow> (in_ranges c rs \<noteq> negated) \<and> glob_match ts s')"
  by pat_completeness auto
termination by (relation "measures [length \<circ> snd, length \<circ> fst]") auto

definition path_Match :: "string \<Rightarrow> string \<Rightarrow> bool" where
  "path_Match pattern name = (case parse_glob pattern of None \<Rightarrow> False | Some ts \<Rightarrow> glob_match ts name)"

definition MatchTaskGlob :: "string \<Rightarrow> Predicate" where
  "MatchTaskGlob pattern =
     (let p = TrimSpace pattern in if p = [] then MatchAll else (\<lambda>ev. path_Match p (ev_TaskName ev)))"

definition AndAll :: "Predicate list \<Rightarrow> Predicate" where
  "AndAll preds = (if preds = [] then MatchAll else (\<lambda>ev. list_all (\<lambda>p. p ev) preds))"

record NotificationRoute =
  rt_MatchFailure :: bool
  rt_Kinds :: "string list"
  rt_TaskGlob :: string
  rt_NotifierID :: "string list"

record Rule =
  Match :: "Predicate option"
  ActionIDs :: "string list"

definition compileRoute :: "NotificationRoute \<Rightarrow> Rule" where
  "compileRoute r =
     (let preds = (if rt_MatchFailure r then [MatchFailure] else [])
            @ (if rt_Kinds r \<noteq> [] then [MatchOutcomes (rt_Kinds r)] else [])
            @ (if rt_TaskGlob r \<noteq> [] then [MatchTaskGlob (rt_TaskGlob r)] else [])
      in \<lparr>Match = Some (AndAll preds), ActionIDs = rt_NotifierID r\<rparr>)"

text \<open>The ids of the channels an event goes to: \<open>channels\<close> are the ids of the channel map.\<close>

fun route_ids :: "string set \<Rightarrow> string list \<Rightarrow> string list \<Rightarrow> string list" where
  "route_ids channels [] out = out"
| "route_ids channels (i # ids) out =
     (if i \<in> set out \<or> i \<notin> channels then route_ids channels ids out
      else route_ids channels ids (out @ [i]))"

fun route_rules :: "string set \<Rightarrow> Event \<Rightarrow> Rule list \<Rightarrow> string list \<Rightarrow> string list" where
  "route_rules channels ev [] out = out"
| "route_rules channels ev (rule # rules) out =
     (case Match rule of
        None \<Rightarrow> route_rules channels ev rules out
      | Some p \<Rightarrow>
          if p ev then route_rules channels ev rules (route_ids channels (ActionIDs rule) out)
          else route_rules channels ev rules out)"

definition Route :: "Rule list \<Rightarrow> string set \<Rightarrow> Event \<Rightarrow> string list" where
  "Route rules channels ev = route_rules channels ev rules []"

section \<open>The vocabulary is exact\<close>

text \<open>What the manager and the log writer put on the bus: a run is announced started or still running
  before it ended, completed when it succeeded and failed when it ended in any other way, and only
  a run that did not succeed is a failure.\<close>

definition bus_event_ok :: "BusEvent \<Rightarrow> bool" where
  "bus_event_ok e =
     (case be_Data e of
        RunData d \<Rightarrow> (case re_Run d of
            None \<Rightarrow> True
          | Some run \<Rightarrow>
              (IsFailure run \<longrightarrow> EndReason run \<notin> {None, Some ReasonSuccess})
              \<and> (case be_Type e of
                   OnRun EventRunCompleted \<Rightarrow> EndReason run = Some ReasonSuccess
                 | OnRun EventRunFailed \<Rightarrow> EndReason run \<notin> {None, Some ReasonSuccess}
                 | OnRun EventRunStarted \<Rightarrow> EndReason run = None
                 | EventRunLongRunning \<Rightarrow> EndReason run = None
                 | _ \<Rightarrow> True))
      | _ \<Rightarrow> True)"

definition notified :: "BusEvent \<Rightarrow> Event set" where
  "notified e = set_option (MapEvent e)
     \<union> (\<Union>ev\<in>set_option (MapEvent e). set_option (recovery (Some (\<lambda>_ _. Some True)) ev))"

lemma applyLongRunning_simps [simp]:
  "ev_Kind (applyLongRunning ev) = ev_Kind ev" "ev_IsFailure (applyLongRunning ev) = ev_IsFailure ev"
  "ev_Run (applyLongRunning ev) = ev_Run ev" "ev_TaskName (applyLongRunning ev) = ev_TaskName ev"
  by (auto simp: applyLongRunning_def Let_def split: option.split)

lemma mapRunEventType_kinds:
  assumes "mapRunEventType t run = Some k"
  shows "k = KindRunStarted \<and> t = OnRun EventRunStarted
    \<or> k = KindRunLongRunning \<and> t = EventRunLongRunning
    \<or> k = KindRunSucceeded \<and> t = OnRun EventRunCompleted
    \<or> k \<notin> {KindRunStarted, KindRunLongRunning, KindRunSucceeded, KindRunRecovered, KindServiceFatal, KindLogDiskPressure}
        \<and> t = OnRun EventRunFailed
        \<and> (case EndReason run of None \<Rightarrow> True | Some r \<Rightarrow> r \<notin> set excludedEndReasons)"
  using assms
  by (auto simp: mapRunEventType_def excludedEndReasons_def split: EventType.splits runEvent.splits option.splits if_splits)

text \<open>What can be notified of a run: when, with which outcome, and when as a failure.\<close>

lemma MapEvent_cases:
  assumes "bus_event_ok e" "MapEvent e = Some ev"
  shows "Outcome ev \<in> {''started'', LongRunningKind, logDiskPressureKind, ''succeeded''} \<and> \<not> ev_IsFailure ev
    \<or> Outcome ev = ''service.fatal'' \<and> ev_IsFailure ev
    \<or> (\<exists>r. Outcome ev = reason_name r \<and> r \<noteq> ReasonSuccess \<and> r \<notin> set excludedEndReasons)"
proof (cases "be_Data e")
  case (RunData d)
  then obtain run k where run: "re_Run d = Some run" "mapRunEventType (be_Type e) run = Some k"
    using assms(2) by (auto simp: MapEvent_def split: option.splits)
  then have ev: "ev_Kind ev = k" "ev_IsFailure ev = IsFailure run" "run_reason ev = EndReason run"
    using assms(2) RunData by (auto simp: MapEvent_def Let_def run_reason_def split: if_splits)
  show ?thesis using mapRunEventType_kinds [OF run(2)] assms(1) ev RunData run(1)
    by (cases k) (auto simp: Outcome_def bus_event_ok_def)
next
  case (DiskPressureData d)
  then show ?thesis using assms(2) by (auto simp: MapEvent_def Outcome_def logDiskPressureKind_def)
next
  case (ServiceFatalData d)
  then show ?thesis using assms(2) by (auto simp: MapEvent_def Outcome_def)
qed (use assms in \<open>simp add: MapEvent_def\<close>)

lemma AllKindStrings_set:
  "set AllKindStrings = {''started'', ''service.fatal'', logDiskPressureKind, LongRunningKind, RecoveredKind}
     \<union> {reason_name r | r. r \<notin> set excludedEndReasons}"
  by (auto simp: AllKindStrings_def AllEndReasons_complete)

lemma reason_token:
  "reason_name r \<notin> {''started'', ''service.fatal'', logDiskPressureKind, LongRunningKind, RecoveredKind}"
  by (cases r) (simp_all add: logDiskPressureKind_def LongRunningKind_def RecoveredKind_def)

lemma failure_kinds_set:
  "set AllKindStrings - set NeverFailureKinds
     = insert ''service.fatal'' {reason_name r | r. r \<noteq> ReasonSuccess \<and> r \<notin> set excludedEndReasons}"
proof -
  have "reason_name r = ''succeeded'' \<longleftrightarrow> r = ReasonSuccess" for r by (cases r) simp_all
  then show ?thesis using reason_token unfolding AllKindStrings_set NeverFailureKinds_def
    by (auto simp: logDiskPressureKind_def LongRunningKind_def RecoveredKind_def)
qed

lemma recovery_Some:
  assumes "recovery p ev = Some ev'"
  shows "ev' = ev\<lparr>ev_Kind := KindRunRecovered, ev_Severity := SevInfo, ev_IsFailure := False\<rparr>
    \<and> ev_Kind ev = KindRunSucceeded \<and> Outcome ev' = RecoveredKind"
  using assms by (auto simp: recovery_def Outcome_def split: option.splits if_splits bool.splits)

text \<open>A run that ended and its announcement.\<close>

definition ended_event :: "EndReason \<Rightarrow> bool \<Rightarrow> BusEvent" where
  "ended_event r failure =
     \<lparr>be_Type = OnRun (if r = ReasonSuccess then EventRunCompleted else EventRunFailed), be_Timestamp = 0,
      be_Data = RunData \<lparr>re_Run = Some (example_run\<lparr>EndReason := Some r, IsFailure := failure\<rparr>),
        re_LogPath = [], re_Error = []\<rparr>\<rparr>"

definition live_event :: "EventType \<Rightarrow> BusEvent" where
  "live_event t = \<lparr>be_Type = t, be_Timestamp = 0,
     be_Data = RunData \<lparr>re_Run = Some (example_run\<lparr>EndReason := None, IsFailure := False\<rparr>),
       re_LogPath = [], re_Error = []\<rparr>\<rparr>"

lemma ended_event_ok: "(failure \<longrightarrow> r \<noteq> ReasonSuccess) \<Longrightarrow> bus_event_ok (ended_event r failure)"
  by (auto simp: bus_event_ok_def ended_event_def)

definition pressure_event :: BusEvent where
  "pressure_event = \<lparr>be_Type = EventLogDiskPressure, be_Timestamp = 0,
     be_Data = DiskPressureData \<lparr>dp_TaskName = [], dp_RunID = [], dp_FreeBytes = 0, dp_MinFreeBytes = 0,
       dp_KilledTask = False\<rparr>\<rparr>"

definition fatal_event :: BusEvent where
  "fatal_event = \<lparr>be_Type = EventServiceFatal, be_Timestamp = 0,
     be_Data = ServiceFatalData \<lparr>sf_TaskName = [], sf_InstanceIndex = 0, sf_Attempts = 0, sf_LastExitCode = 0\<rparr>\<rparr>"

definition verdict :: "Event \<Rightarrow> string \<times> bool" where
  "verdict ev = (Outcome ev, ev_IsFailure ev)"

lemma live_event_ok: "t \<in> {OnRun EventRunStarted, EventRunLongRunning} \<Longrightarrow> bus_event_ok (live_event t)"
  by (auto simp: bus_event_ok_def live_event_def)

lemma other_event_ok: "bus_event_ok pressure_event" "bus_event_ok fatal_event"
  by (simp_all add: bus_event_ok_def pressure_event_def fatal_event_def)

lemma verdicts:
  "map_option verdict (MapEvent (live_event (OnRun EventRunStarted))) = Some (''started'', False)"
  "map_option verdict (MapEvent (live_event EventRunLongRunning)) = Some (LongRunningKind, False)"
  "map_option verdict (MapEvent pressure_event) = Some (logDiskPressureKind, False)"
  "map_option verdict (MapEvent fatal_event) = Some (''service.fatal'', True)"
  by (simp_all add: verdict_def live_event_def pressure_event_def fatal_event_def MapEvent_def mapRunEventType_def
      Outcome_def Let_def logDiskPressureKind_def)

lemma verdict_ended:
  "r \<notin> set excludedEndReasons \<Longrightarrow> map_option verdict (MapEvent (ended_event r f)) = Some (reason_name r, f)"
  by (cases r) (simp_all add: verdict_def ended_event_def excludedEndReasons_def MapEvent_def mapRunEventType_def
      Outcome_def run_reason_def Let_def)

lemma recovered_ended:
  "Option.bind (MapEvent (ended_event ReasonSuccess False)) (\<lambda>ev. map_option Outcome (recovery (Some (\<lambda>_ _. Some True)) ev))
     = Some RecoveredKind"
  by (simp add: ended_event_def MapEvent_def mapRunEventType_def recovery_def Outcome_def Let_def)

lemma reachedI:
  "bus_event_ok e \<Longrightarrow> map_option verdict (MapEvent e) = Some (t, f)
     \<Longrightarrow> \<exists>e ev. bus_event_ok e \<and> ev \<in> notified e \<and> Outcome ev = t \<and> ev_IsFailure ev = f"
  by (cases "MapEvent e") (auto simp: notified_def verdict_def)

lemma word_reached:
  assumes "t \<in> set AllKindStrings"
  shows "\<exists>e ev. bus_event_ok e \<and> ev \<in> notified e \<and> Outcome ev = t"
proof -
  consider "t = ''started''" | "t = LongRunningKind" | "t = logDiskPressureKind" | "t = ''service.fatal''"
    | "t = RecoveredKind" | r where "t = reason_name r" "r \<notin> set excludedEndReasons"
    using assms unfolding AllKindStrings_set by blast
  then show ?thesis
  proof cases
    case 5
    obtain ev ev' where "MapEvent (ended_event ReasonSuccess False) = Some ev"
        "recovery (Some (\<lambda>_ _. Some True)) ev = Some ev'" "Outcome ev' = RecoveredKind"
      using recovered_ended by (auto simp: bind_eq_Some_conv)
    then have "ev' \<in> notified (ended_event ReasonSuccess False)" "Outcome ev' = RecoveredKind"
      by (auto simp: notified_def)
    then show ?thesis using ended_event_ok [of False ReasonSuccess] 5 by blast
  qed (use reachedI [OF live_event_ok verdicts(1)] reachedI [OF live_event_ok verdicts(2)]
      reachedI [OF other_event_ok(1) verdicts(3)] reachedI [OF other_event_ok(2) verdicts(4)]
      reachedI [OF ended_event_ok verdict_ended] in blast)+
qed

text \<open>The words a route may match on are exactly the outcomes events can have, recoveries
  included, so that no accepted word names a route that can never fire; and the words that may not
  be combined with \<open>match.failure\<close> are exactly those whose events are never failures.\<close>

lemma kinds_vocabulary_exact:
  "set AllKindStrings = {Outcome ev | e ev. bus_event_ok e \<and> ev \<in> notified e}
   \<and> set AllKindStrings - set NeverFailureKinds
       = {Outcome ev | e ev. bus_event_ok e \<and> ev \<in> notified e \<and> ev_IsFailure ev}"
proof (intro conjI equalityI subsetI)
  fix t assume "t \<in> set AllKindStrings"
  then show "t \<in> {Outcome ev | e ev. bus_event_ok e \<and> ev \<in> notified e}" using word_reached by blast
next
  fix t assume "t \<in> {Outcome ev | e ev. bus_event_ok e \<and> ev \<in> notified e}"
  then obtain e ev where e: "t = Outcome ev" "bus_event_ok e" "ev \<in> notified e" by blast
  then consider "MapEvent e = Some ev" | "Outcome ev = RecoveredKind"
    using recovery_Some by (auto simp: notified_def)
  then show "t \<in> set AllKindStrings"
    using MapEvent_cases [OF e(2)] e(1)
    by cases (auto simp: AllKindStrings_set excludedEndReasons_def dest: sym [of "reason_name _"] intro: exI [of _ ReasonSuccess])
next
  fix t assume "t \<in> set AllKindStrings - set NeverFailureKinds"
  then consider "t = ''service.fatal''" | r where "t = reason_name r" "r \<noteq> ReasonSuccess" "r \<notin> set excludedEndReasons"
    unfolding failure_kinds_set by blast
  then show "t \<in> {Outcome ev | e ev. bus_event_ok e \<and> ev \<in> notified e \<and> ev_IsFailure ev}"
  proof cases
    case 1
    then show ?thesis using reachedI [OF other_event_ok(2) verdicts(4)] by (auto, metis)
  next
    case 2
    then show ?thesis using reachedI [OF ended_event_ok verdict_ended, of True r] by (auto, metis)
  qed
next
  fix t assume "t \<in> {Outcome ev | e ev. bus_event_ok e \<and> ev \<in> notified e \<and> ev_IsFailure ev}"
  then obtain e ev where e: "t = Outcome ev" "bus_event_ok e" "ev \<in> notified e" "ev_IsFailure ev" by blast
  then have "MapEvent e = Some ev" using recovery_Some by (fastforce simp: notified_def)
  then show "t \<in> set AllKindStrings - set NeverFailureKinds"
    using MapEvent_cases [OF e(2)] e(1,4) unfolding failure_kinds_set by auto
qed

section \<open>The identity of repeats\<close>

lemma kind_name_inj: "kind_name k = kind_name k' \<longleftrightarrow> k = k'"
  by (cases k; cases k') simp_all

lemma kind_name_no_bar: "CHR ''|'' \<notin> set (kind_name k)"
  by (cases k) simp_all

lemma reason_name_inj: "reason_name r = reason_name r' \<longleftrightarrow> r = r'"
  by (metis parse_reason_name option.inject)

lemma reason_token_nonempty: "reason_name r \<noteq> []"
  by (cases r) simp_all

lemma bar_split:
  assumes "CHR ''|'' \<notin> set a" "CHR ''|'' \<notin> set a'"
  shows "a @ CHR ''|'' # b = a' @ CHR ''|'' # b' \<longleftrightarrow> a = a' \<and> b = b'"
  using assms by (auto simp: append_eq_append_conv2 append_eq_Cons_conv Cons_eq_append_conv)

lemma fingerprint_task:
  assumes "FingerprintKey a = FingerprintKey b" "CHR ''|'' \<notin> set (ev_TaskName a)" "CHR ''|'' \<notin> set (ev_TaskName b)"
  shows "ev_Kind a = ev_Kind b \<and> ev_TaskName a = ev_TaskName b"
  using assms by (auto simp: FingerprintKey_def Let_def bar_split kind_name_no_bar kind_name_inj)

text \<open>What a delivery failure is told apart by: the channel and the kind of what was not delivered.\<close>

definition failed_delivery :: "Event \<Rightarrow> (string \<times> string) option" where
  "failed_delivery ev =
     (if ev_Kind ev = KindNotifyDeliveryFailed
      then Some (extra_string ''channel'' ev, extra_string ''original_kind'' ev) else None)"

text \<open>Two events fold together exactly when they are of one kind, of one task and of one end
  reason, or report failed deliveries of one kind over one channel: the separators of the key
  cannot be confused with the names around them, for names a configuration may use.\<close>

lemma fingerprint_identity:
  assumes "CHR ''|'' \<notin> set (ev_TaskName a)" "CHR ''|'' \<notin> set (ev_TaskName b)"
    and "\<forall>ev\<in>{a, b}. ev_Kind ev = KindNotifyDeliveryFailed \<longrightarrow>
      ev_Extra ev \<noteq> [] \<and> ev_Run ev = None \<and> CHR ''|'' \<notin> set (extra_string ''channel'' ev)"
  shows "FingerprintKey a = FingerprintKey b \<longleftrightarrow>
    ev_Kind a = ev_Kind b \<and> ev_TaskName a = ev_TaskName b \<and> run_reason a = run_reason b
    \<and> failed_delivery a = failed_delivery b"
proof (cases "ev_Kind a = ev_Kind b \<and> ev_TaskName a = ev_TaskName b")
  case False
  then show ?thesis using assms(1,2)
    by (auto simp: FingerprintKey_def Let_def bar_split kind_name_no_bar kind_name_inj)
next
  case True
  show ?thesis
  proof (cases "ev_Kind a = KindNotifyDeliveryFailed")
    case failed: True
    have "run_reason a = None" "run_reason b = None" using assms(3) failed True by (auto simp: run_reason_def)
    then show ?thesis using assms True failed
      by (simp add: FingerprintKey_def Let_def bar_split kind_name_no_bar failed_delivery_def)
  next
    case ok: False
    have "(case run_reason a of None \<Rightarrow> [] | Some r \<Rightarrow> reason_name r)
        = (case run_reason b of None \<Rightarrow> [] | Some r \<Rightarrow> reason_name r) \<longleftrightarrow> run_reason a = run_reason b"
      using reason_token_nonempty reason_token_nonempty [symmetric] by (auto simp: reason_name_inj split: option.splits)
    then show ?thesis using assms(1,2) True ok
      by (simp add: FingerprintKey_def Let_def bar_split kind_name_no_bar failed_delivery_def)
  qed
qed

definition failed_event :: "EndReason \<Rightarrow> Event" where
  "failed_event r = the (MapEvent (ended_event r True))"

section \<open>Routing\<close>

lemma route_ids_remdups:
  "route_ids channels ids out = out @ filter (\<lambda>i. i \<notin> set out) (rev (remdups (rev (filter (\<lambda>i. i \<in> channels) ids))))"
proof (induction ids arbitrary: out)
  case (Cons i ids)
  have "remdups (xs @ [i]) = remdups (filter (\<lambda>x. x \<noteq> i) xs) @ [i]" for xs
    by (induction xs) auto
  then show ?case using Cons
    by (auto simp: rev_filter remdups_filter intro!: filter_cong)
qed simp

text \<open>All the ids the matching rules name, in order.\<close>

definition named_ids :: "Rule list \<Rightarrow> Event \<Rightarrow> string list" where
  "named_ids rules ev =
     concat (map ActionIDs (filter (\<lambda>r. case Match r of None \<Rightarrow> False | Some p \<Rightarrow> p ev) rules))"

lemma route_ids_append: "route_ids channels (xs @ ys) out = route_ids channels ys (route_ids channels xs out)"
  by (induction xs arbitrary: out) auto

lemma route_rules_named: "route_rules channels ev rules out = route_ids channels (named_ids rules ev) out"
  by (induction rules arbitrary: out) (auto simp: named_ids_def route_ids_append split: option.split)

lemma set_route: "set (Route rules channels ev) = set (named_ids rules ev) \<inter> channels"
  by (auto simp: Route_def route_rules_named route_ids_remdups)

lemma compiled_matches:
  "(case Match (compileRoute r) of None \<Rightarrow> False | Some p \<Rightarrow> p ev) \<longleftrightarrow>
     (rt_MatchFailure r \<longrightarrow> ev_IsFailure ev) \<and> (rt_Kinds r \<noteq> [] \<longrightarrow> Outcome ev \<in> set (rt_Kinds r))
     \<and> (TrimSpace (rt_TaskGlob r) \<noteq> [] \<longrightarrow> path_Match (TrimSpace (rt_TaskGlob r)) (ev_TaskName ev))"
  by (auto simp: compileRoute_def AndAll_def MatchAll_def MatchFailure_def MatchOutcomes_def MatchTaskGlob_def
      Let_def TrimSpace_def)

text \<open>C20. An event goes to each channel at most once, and to exactly the known channels of the routes
  it satisfies: classified as a failure where the route asks for it, of one of the route's outcomes
  and with a task name its pattern matches, an absent condition counting as satisfied. The
  channels keep the order in which the routes first name them.\<close>

theorem routing_exact:
  "distinct (Route (map compileRoute routes) channels ev)
   \<and> Route (map compileRoute routes) channels ev
       = rev (remdups (rev (filter (\<lambda>i. i \<in> channels) (named_ids (map compileRoute routes) ev))))
   \<and> (i \<in> set (Route (map compileRoute routes) channels ev) \<longleftrightarrow>
        i \<in> channels \<and> (\<exists>r\<in>set routes. i \<in> set (rt_NotifierID r)
          \<and> (rt_MatchFailure r \<longrightarrow> ev_IsFailure ev) \<and> (rt_Kinds r \<noteq> [] \<longrightarrow> Outcome ev \<in> set (rt_Kinds r))
          \<and> (TrimSpace (rt_TaskGlob r) \<noteq> [] \<longrightarrow> path_Match (TrimSpace (rt_TaskGlob r)) (ev_TaskName ev))))"
proof (intro conjI)
  let ?rules = "map compileRoute routes"
  have eq: "Route ?rules channels ev = rev (remdups (rev (filter (\<lambda>i. i \<in> channels) (named_ids ?rules ev))))"
    by (simp add: Route_def route_rules_named route_ids_remdups)
  then show "Route ?rules channels ev = rev (remdups (rev (filter (\<lambda>i. i \<in> channels) (named_ids ?rules ev))))" .
  show "distinct (Route ?rules channels ev)" by (simp add: eq)
  have "ActionIDs (compileRoute r) = rt_NotifierID r" for r by (simp add: compileRoute_def)
  then show "i \<in> set (Route ?rules channels ev) \<longleftrightarrow>
      i \<in> channels \<and> (\<exists>r\<in>set routes. i \<in> set (rt_NotifierID r)
        \<and> (rt_MatchFailure r \<longrightarrow> ev_IsFailure ev) \<and> (rt_Kinds r \<noteq> [] \<longrightarrow> Outcome ev \<in> set (rt_Kinds r))
        \<and> (TrimSpace (rt_TaskGlob r) \<noteq> [] \<longrightarrow> path_Match (TrimSpace (rt_TaskGlob r)) (ev_TaskName ev)))"
    unfolding set_route by (auto simp: named_ids_def compiled_matches)
qed

theorem routing_exact_witness:
  "Route (map compileRoute
      [\<lparr>rt_MatchFailure = True, rt_Kinds = [], rt_TaskGlob = ''db-*'', rt_NotifierID = [''slack'', ''gone'']\<rparr>,
       \<lparr>rt_MatchFailure = False, rt_Kinds = [''failed''], rt_TaskGlob = [], rt_NotifierID = [''inapp'', ''slack'']\<rparr>])
      {''slack'', ''inapp''} (failed_event ReasonFailed\<lparr>ev_TaskName := ''db-dump''\<rparr>) = [''slack'', ''inapp'']"
proof -
  have ev: "ev_IsFailure (failed_event ReasonFailed)" "Outcome (failed_event ReasonFailed\<lparr>ev_TaskName := ''db-dump''\<rparr>) = ''failed''"
    by (simp_all add: failed_event_def ended_event_def MapEvent_def mapRunEventType_def Outcome_def run_reason_def Let_def)
  have glob: "path_Match (TrimSpace ''db-*'') ''db-dump''" by code_simp
  have "named_ids (map compileRoute
      [\<lparr>rt_MatchFailure = True, rt_Kinds = [], rt_TaskGlob = ''db-*'', rt_NotifierID = [''slack'', ''gone'']\<rparr>,
       \<lparr>rt_MatchFailure = False, rt_Kinds = [''failed''], rt_TaskGlob = [], rt_NotifierID = [''inapp'', ''slack'']\<rparr>])
      (failed_event ReasonFailed\<lparr>ev_TaskName := ''db-dump''\<rparr>) = [''slack'', ''gone'', ''inapp'', ''slack'']"
    unfolding named_ids_def using glob ev
    by (simp add: compiled_matches TrimSpace_def [of "[]"], simp add: compileRoute_def)
  then show ?thesis
    by (subst routing_exact [THEN conjunct2, THEN conjunct1]) simp
qed

end
