(* ===== verification/Notify_Dispatch.thy ===== *)
theory Notify_Dispatch
  imports Notify_Event
begin

text \<open>
  The dispatcher (\<open>notify/dispatcher.go\<close>) and the service around it (\<open>notify/notify.go\<close>): the ingress
  buffer that never blocks a publisher, the bounded queue of each channel that drops its oldest
  item under pressure, and the worker that empties it. A goroutine's step is one operation on a Go
  channel, so that producer and receiver interleave as they do in the program.
\<close>

section \<open>A bounded queue that drops its oldest\<close>

text \<open>The producer inside \<open>SendDropOldest\<close>: about to send, or, after the buffer was found full, about to
  evict. \<open>sq_out\<close> is what left the buffer, in order, and whether the receiver got it;
  \<open>sq_sent\<close> what was handed to \<open>SendDropOldest\<close>.\<close>

datatype 'v sendPhase = SendIdle | Sending 'v | Evicting 'v

record 'v sendQueue =
  sq_cap :: nat
  sq_buf :: "'v list"
  sq_phase :: "'v sendPhase"
  sq_sent :: "'v list"
  sq_out :: "('v \<times> bool) list"

definition new_queue :: "nat \<Rightarrow> 'v sendQueue" where
  "new_queue n = \<lparr>sq_cap = n, sq_buf = [], sq_phase = SendIdle, sq_sent = [], sq_out = []\<rparr>"

datatype 'v queueStep = CallSend 'v | ProducerStep | Receive

fun SendDropOldest :: "'v queueStep \<Rightarrow> 'v sendQueue \<Rightarrow> 'v sendQueue" where
  "SendDropOldest (CallSend v) q =
     (case sq_phase q of
        SendIdle \<Rightarrow> q\<lparr>sq_phase := Sending v, sq_sent := sq_sent q @ [v]\<rparr>
      | _ \<Rightarrow> q)"
| "SendDropOldest ProducerStep q =
     (case sq_phase q of
        SendIdle \<Rightarrow> q
      | Sending v \<Rightarrow>
          if length (sq_buf q) < sq_cap q
          then q\<lparr>sq_buf := sq_buf q @ [v], sq_phase := SendIdle\<rparr>
          else q\<lparr>sq_phase := Evicting v\<rparr>
      | Evicting v \<Rightarrow>
          (case sq_buf q of
             [] \<Rightarrow> q\<lparr>sq_phase := Sending v\<rparr>
           | w # buf \<Rightarrow> q\<lparr>sq_buf := buf, sq_out := sq_out q @ [(w, False)], sq_phase := Sending v\<rparr>))"
| "SendDropOldest Receive q =
     (case sq_buf q of
        [] \<Rightarrow> q
      | w # buf \<Rightarrow> q\<lparr>sq_buf := buf, sq_out := sq_out q @ [(w, True)]\<rparr>)"

definition in_hand :: "'v sendQueue \<Rightarrow> 'v list" where
  "in_hand q = (case sq_phase q of SendIdle \<Rightarrow> [] | Sending v \<Rightarrow> [v] | Evicting v \<Rightarrow> [v])"

definition queue_inv :: "'v sendQueue \<Rightarrow> bool" where
  "queue_inv q \<longleftrightarrow>
     1 \<le> sq_cap q \<and> length (sq_buf q) \<le> sq_cap q
     \<and> map fst (sq_out q) @ sq_buf q @ in_hand q = sq_sent q"

lemma queue_step_inv: "queue_inv q \<Longrightarrow> queue_inv (SendDropOldest s q)"
  by (cases s) (auto simp: queue_inv_def in_hand_def split: sendPhase.splits list.splits if_splits)

interpretation send_queue: step_machine SendDropOldest "\<lambda>_ _. True" queue_inv
  by unfold_locales (rule queue_step_inv)

lemma new_queue_inv: "1 \<le> n \<Longrightarrow> queue_inv (new_queue n)"
  by (simp add: queue_inv_def new_queue_def in_hand_def)

text \<open>A producer that runs alone is done after three of its steps.\<close>

lemma producer_done:
  assumes "queue_inv q"
  shows "sq_phase ((SendDropOldest ProducerStep ^^ 3) q) = SendIdle"
  using assms
  by (auto simp: queue_inv_def numeral_3_eq_3 split: sendPhase.splits list.splits if_splits)

text \<open>Receives in between never make it take longer: the space they make is only taken by it.\<close>

definition send_distance :: "'v sendQueue \<Rightarrow> nat" where
  "send_distance q =
     (case sq_phase q of
        SendIdle \<Rightarrow> 0
      | Sending _ \<Rightarrow> if length (sq_buf q) < sq_cap q then 1 else 3
      | Evicting _ \<Rightarrow> 2)"

lemma send_progress:
  assumes "queue_inv q"
  shows "send_distance (SendDropOldest ProducerStep q) < send_distance q \<or> sq_phase q = SendIdle"
    and "send_distance (SendDropOldest Receive q) \<le> send_distance q"
  using assms
  by (auto simp: queue_inv_def send_distance_def split: sendPhase.splits list.splits if_splits)

section \<open>The dispatcher\<close>

record delivery =
  dl_ev :: Event
  dl_deliver :: bool

definition DefaultActionQueueSize :: nat where "DefaultActionQueueSize = 256"

definition queue_size :: "int \<Rightarrow> nat" where
  "queue_size n = (if n \<le> 0 then DefaultActionQueueSize else nat n)"

text \<open>What a dispatch hands to which queue: \<open>ids\<close> are the channels in the order the map is iterated,
  \<open>resetter\<close> which of them are coalescers.\<close>

definition dispatch :: "Rule list \<Rightarrow> string list \<Rightarrow> (string \<Rightarrow> bool) \<Rightarrow> Event \<Rightarrow> (string \<times> delivery) list" where
  "dispatch rules ids resetter ev =
     (let routed = Route rules (set ids) ev
      in map (\<lambda>i. (i, \<lparr>dl_ev = ev, dl_deliver = True\<rparr>)) routed
         @ (if ev_Kind ev \<noteq> KindRunSucceeded then []
            else map (\<lambda>i. (i, \<lparr>dl_ev = ev, dl_deliver = False\<rparr>))
                   (filter (\<lambda>i. resetter i \<and> i \<notin> set routed) ids)))"

text \<open>One turn of \<open>runDispatch\<close>.\<close>

definition dispatch_turn ::
  "(string \<Rightarrow> string \<Rightarrow> bool option) option \<Rightarrow> Rule list \<Rightarrow> string list \<Rightarrow> (string \<Rightarrow> bool) \<Rightarrow> Event
     \<Rightarrow> (string \<times> delivery) list" where
  "dispatch_turn prevRunFailed rules ids resetter ev =
     dispatch rules ids resetter ev
     @ (case recovery prevRunFailed ev of None \<Rightarrow> [] | Some rec \<Rightarrow> dispatch rules ids resetter rec)"

text \<open>What a worker does with an item of its queue.\<close>

datatype workerAction = DoReset string | DoExecute Event

definition worker_item :: "bool \<Rightarrow> delivery \<Rightarrow> workerAction list" where
  "worker_item isResetter item =
     (if isResetter \<and> ev_Kind (dl_ev item) = KindRunSucceeded then [DoReset (ev_TaskName (dl_ev item))] else [])
     @ (if dl_deliver item then [DoExecute (dl_ev item)] else [])"

text \<open>A delivery's end: \<open>err\<close> is the error of the channel, \<open>cancelled\<close> whether it is that of the worker's
  own cancelled context. A failure becomes an event for the in-app channel alone.\<close>

definition ReportDeliveryFailure :: "string \<Rightarrow> instant \<Rightarrow> string \<Rightarrow> Event option \<Rightarrow> string \<Rightarrow> Event" where
  "ReportDeliveryFailure newID now actionID original cause =
     (let syn = \<lparr>ev_ID = newID, ev_Kind = KindNotifyDeliveryFailed, ev_Severity = SevWarn, ev_Timestamp = now,
            ev_TaskName = [], ev_IsFailure = False, ev_Run = None, ev_LogPath = [], ev_Reason = cause,
            ev_Extra = [(''channel'', ExtraString actionID)]\<rparr>
      in (case original of
            None \<Rightarrow> syn
          | Some o' \<Rightarrow> syn\<lparr>ev_TaskName := ev_TaskName o',
              ev_Extra := ev_Extra syn @ [(''original_kind'', ExtraString (kind_name (ev_Kind o'))),
                (''task_name'', ExtraString (ev_TaskName o'))]\<rparr>))"

definition executeOne ::
  "bool \<Rightarrow> string \<Rightarrow> instant \<Rightarrow> string \<Rightarrow> Event \<Rightarrow> (string \<times> bool) option \<Rightarrow> Event option" where
  "executeOne hasSink newID now i ev err =
     (case err of
        None \<Rightarrow> None
      | Some (cause, cancelled) \<Rightarrow>
          if cancelled then None
          else if \<not> hasSink then None
          else Some (ReportDeliveryFailure newID now i (Some ev) cause))"

section \<open>The ingress\<close>

record ingress =
  in_buf :: "Event list"
  in_closed :: bool
  in_dropped :: nat

definition new_ingress :: ingress where
  "new_ingress = \<lparr>in_buf = [], in_closed = False, in_dropped = 0\<rparr>"

definition onBusEvent :: "BusEvent \<Rightarrow> ingress \<Rightarrow> ingress" where
  "onBusEvent e g =
     (case MapEvent e of
        None \<Rightarrow> g
      | Some ev \<Rightarrow>
          if in_closed g then g\<lparr>in_dropped := in_dropped g + 1\<rparr>
          else if length (in_buf g) < DefaultActionQueueSize then g\<lparr>in_buf := in_buf g @ [ev]\<rparr>
          else g\<lparr>in_dropped := in_dropped g + 1\<rparr>)"

section \<open>Properties\<close>

text \<open>C22. Under any interleaving of producer and receiver nothing is lost silently or reordered: what
  left a channel's queue, delivered or evicted, followed by what waits in it and the item being
  sent, is exactly what was sent, in order. The queue never exceeds its size, and a send ends after
  at most three of its own steps however the receiver runs.\<close>

theorem send_drop_oldest:
  assumes "1 \<le> n" and "q = fold SendDropOldest steps (new_queue n)"
  shows "map fst (sq_out q) @ sq_buf q @ in_hand q = sq_sent q
    \<and> length (sq_buf q) \<le> sq_cap q
    \<and> sq_phase ((SendDropOldest ProducerStep ^^ 3) q) = SendIdle
    \<and> send_distance (SendDropOldest Receive q) \<le> send_distance q
    \<and> (sq_phase q \<noteq> SendIdle \<longrightarrow> send_distance (SendDropOldest ProducerStep q) < send_distance q \<and> send_distance q \<le> 3)"
proof -
  have inv: "queue_inv q" unfolding assms(2)
    by (rule send_queue.fold_inv_always [OF new_queue_inv [OF assms(1)]]) simp
  moreover have "send_distance q \<le> 3" by (simp add: send_distance_def split: sendPhase.split)
  ultimately show ?thesis using producer_done [OF inv] send_progress [OF inv] by (auto simp: queue_inv_def)
qed

theorem send_drop_oldest_witness:
  "let q = fold SendDropOldest [CallSend ''a'', ProducerStep, CallSend ''b'', ProducerStep, ProducerStep, ProducerStep]
       (new_queue 1)
   in map fst (sq_out q) @ sq_buf q @ in_hand q = [''a'', ''b''] \<and> sq_out q = [(''a'', False)]"
  using send_drop_oldest [of 1 _ "[CallSend ''a'', ProducerStep, CallSend ''b'', ProducerStep, ProducerStep, ProducerStep]"]
  by (simp add: new_queue_def in_hand_def)

text \<open>An event is put on the queue of a channel to be delivered exactly when the routes name that
  channel, and at most once; a success is also put, not to be delivered, on the queue of every
  coalescer the routes did not name, so that every coalescer hears of every success, in order with
  the failures around it, before the recovery the success may be.\<close>

lemma dispatch_reaches:
  assumes "distinct ids" "i \<in> set ids"
  shows "filter (\<lambda>x. fst x = i) (dispatch rules ids resetter ev) =
     (if i \<in> set (Route rules (set ids) ev) then [(i, \<lparr>dl_ev = ev, dl_deliver = True\<rparr>)]
      else if resetter i \<and> ev_Kind ev = KindRunSucceeded then [(i, \<lparr>dl_ev = ev, dl_deliver = False\<rparr>)]
      else [])
   \<and> (resetter i \<and> ev_Kind ev = KindRunSucceeded \<longrightarrow>
        (\<exists>rest. concat (map (worker_item True \<circ> snd)
            (filter (\<lambda>x. fst x = i) (dispatch_turn prevRunFailed rules ids resetter ev)))
          = DoReset (ev_TaskName ev) # rest))"
proof -
  have one: "distinct xs \<Longrightarrow> filter (\<lambda>x. fst x = i) (map (\<lambda>j. (j, d)) xs) = (if i \<in> set xs then [(i, d)] else [])"
    for xs :: "string list" and d :: delivery
    by (induction xs) (auto simp: filter_empty_conv)
  have dr: "distinct (Route rules (set ids) ev)"
    by (simp add: Route_def route_rules_named route_ids_remdups)
  have first: "filter (\<lambda>x. fst x = i) (dispatch rules ids resetter ev) =
     (if i \<in> set (Route rules (set ids) ev) then [(i, \<lparr>dl_ev = ev, dl_deliver = True\<rparr>)]
      else if resetter i \<and> ev_Kind ev = KindRunSucceeded then [(i, \<lparr>dl_ev = ev, dl_deliver = False\<rparr>)]
      else [])"
    using assms by (simp add: dispatch_def Let_def one [OF dr] one [OF distinct_filter])
  then show ?thesis by (auto simp: dispatch_turn_def worker_item_def)
qed

end
