(* ===== verification/Coalesce.thy ===== *)
theory Coalesce
  imports Notify_Dispatch
begin

text \<open>
  Coalescing of outbound notifications (\<open>notify/coalesce/coalesce.go\<close>). The channel's state is its map
  of open groups; a timer of the runtime is an id that is armed, has fired and waits for the lock, or
  is gone, so that a timer stopped too late still runs its function. What the channel does is a list
  of outputs stamped with the time it did it.
\<close>

section \<open>State\<close>

record coalesceConfig =
  cc_Window :: duration
  cc_CoalesceLimit :: int

definition DefaultWindow :: duration where "DefaultWindow = hour"

record fpState =
  lastSent :: instant
  pending :: nat
  lastEvent :: "Event option"
  fp_timer :: "nat option"
  fp_task :: string
  closable :: bool

text \<open>An output: the event passed on, the Nth of a window passed on as a summary, a window's summary,
  suppressed events given up, and the end of a group.\<close>

datatype coalesceOut =
    Forwarded string Event
  | Folded string Event nat
  | WindowSummary string Event nat
  | Dropped string nat
  | GroupEnded string

record coalescer =
  co_cfg :: coalesceConfig
  co_state :: "(string \<times> fpState) list"
  co_armed :: "nat \<Rightarrow> (instant \<times> string) option"
  co_fired :: "nat \<Rightarrow> string option"
  co_minted :: nat
  co_closing :: bool

definition NewChannel :: "coalesceConfig \<Rightarrow> coalescer" where
  "NewChannel cfg =
     \<lparr>co_cfg = (if cc_Window cfg \<le> 0 then cfg\<lparr>cc_Window := DefaultWindow\<rparr> else cfg), co_state = [],
      co_armed = Map.empty, co_fired = Map.empty, co_minted = 0, co_closing = False\<rparr>"

definition summarize :: "Event \<Rightarrow> nat \<Rightarrow> bool \<Rightarrow> Event" where
  "summarize ev n windowClose =
     (let x = AList.update ''coalesced_count'' (ExtraInt (int n)) (ev_Extra ev)
      in ev\<lparr>ev_Extra := (if windowClose then AList.update ''coalesced_summary'' (ExtraBool True) x else x)\<rparr>)"

section \<open>Operations\<close>

text \<open>Stopping the timer of a group: the runtime forgets an armed timer, a fired one runs all the same.\<close>

definition stopTimer :: "fpState \<Rightarrow> coalescer \<Rightarrow> coalescer" where
  "stopTimer st c =
     (case fp_timer st of
        None \<Rightarrow> c
      | Some i \<Rightarrow> c\<lparr>co_armed := (co_armed c)(i := None)\<rparr>)"

definition put_fp :: "string \<Rightarrow> fpState \<Rightarrow> coalescer \<Rightarrow> coalescer" where
  "put_fp fp st c = c\<lparr>co_state := AList.update fp st (co_state c)\<rparr>"

definition drop_fp :: "string \<Rightarrow> coalescer \<Rightarrow> coalescer" where
  "drop_fp fp c = c\<lparr>co_state := AList.delete fp (co_state c)\<rparr>"

definition arm_timer :: "instant \<Rightarrow> string \<Rightarrow> fpState \<Rightarrow> coalescer \<Rightarrow> coalescer" where
  "arm_timer now fp st c =
     (let wait = max 0 (time_sub (lastSent st + cc_Window (co_cfg c)) now)
      in put_fp fp (st\<lparr>fp_timer := Some (co_minted c)\<rparr>)
           (c\<lparr>co_armed := (co_armed c)(co_minted c \<mapsto> (now + wait, fp)), co_minted := co_minted c + 1\<rparr>))"

text \<open>\<open>decide\<close> and the delivery \<open>Execute\<close> makes of its decision.\<close>

definition Execute_coalesced :: "instant \<Rightarrow> Event \<Rightarrow> coalescer \<Rightarrow> coalesceOut list \<times> coalescer" where
  "Execute_coalesced now ev c =
     (let fp = FingerprintKey ev in
      case map_of (co_state c) fp of
        None \<Rightarrow> ([Forwarded fp ev],
          put_fp fp \<lparr>lastSent = now, pending = 0, lastEvent = None, fp_timer = None, fp_task = ev_TaskName ev,
            closable = ClosedBySuccess ev\<rparr> c)
      | Some st \<Rightarrow>
          if time_sub now (lastSent st) \<ge> cc_Window (co_cfg c)
          then ((if pending st > 0 then [Dropped fp (pending st)] else []) @ [Forwarded fp ev],
                put_fp fp (st\<lparr>lastSent := now, pending := 0, lastEvent := None, fp_timer := None\<rparr>) (stopTimer st c))
          else
            (let st1 = st\<lparr>pending := pending st + 1, lastEvent := Some ev\<rparr> in
             if cc_CoalesceLimit (co_cfg c) > 1 \<and> int (pending st1) \<ge> cc_CoalesceLimit (co_cfg c)
             then ([Folded fp (summarize ev (pending st1) False) (pending st1)],
                   put_fp fp (st1\<lparr>pending := 0, lastSent := now, lastEvent := None, fp_timer := None\<rparr>) (stopTimer st c))
             else ([], if fp_timer st1 = None then arm_timer now fp st1 c else put_fp fp st1 c)))"

text \<open>The runtime starts the function of a timer whose deadline has come.\<close>

definition timer_fires :: "instant \<Rightarrow> nat \<Rightarrow> coalescer \<Rightarrow> coalescer" where
  "timer_fires now i c =
     (case co_armed c i of
        None \<Rightarrow> c
      | Some (deadline, fp) \<Rightarrow>
          if deadline \<le> now
          then c\<lparr>co_armed := (co_armed c)(i := None), co_fired := (co_fired c)(i \<mapsto> fp)\<rparr>
          else c)"

definition timerFlush :: "nat \<Rightarrow> coalescer \<Rightarrow> coalesceOut list \<times> coalescer" where
  "timerFlush i c =
     (case co_fired c i of
        None \<Rightarrow> ([], c)
      | Some fp \<Rightarrow>
          (let c1 = c\<lparr>co_fired := (co_fired c)(i := None)\<rparr> in
           case map_of (co_state c1) fp of
             None \<Rightarrow> ([], c1)
           | Some st \<Rightarrow>
               (case (pending st, lastEvent st) of
                  (Suc n, Some ev) \<Rightarrow>
                    if co_closing c1 then ([], put_fp fp (st\<lparr>fp_timer := None\<rparr>) c1)
                    else ([WindowSummary fp (summarize ev (pending st) True) (pending st)], drop_fp fp c1)
                | _ \<Rightarrow> ([], put_fp fp (st\<lparr>fp_timer := None\<rparr>) c1))))"

text \<open>\<open>endGroups\<close> over the groups in the order the map is iterated, each owing its summary.\<close>

fun end_groups :: "(string \<times> fpState) list \<Rightarrow> coalescer \<Rightarrow> coalesceOut list \<times> coalescer" where
  "end_groups [] c = ([], c)"
| "end_groups ((fp, st) # gs) c =
     (case end_groups gs (drop_fp fp (stopTimer st c)) of
        (out, c') \<Rightarrow>
          ((case (pending st, lastEvent st) of
              (Suc n, Some ev) \<Rightarrow> [WindowSummary fp (summarize ev (pending st) True) (pending st)]
            | _ \<Rightarrow> []) @ GroupEnded fp # out, c'))"

definition endGroups :: "(fpState \<Rightarrow> bool) \<Rightarrow> coalescer \<Rightarrow> coalesceOut list \<times> coalescer" where
  "endGroups match c = end_groups (filter (match \<circ> snd) (co_state c)) c"

definition ResetTask :: "string \<Rightarrow> coalescer \<Rightarrow> coalesceOut list \<times> coalescer" where
  "ResetTask task = endGroups (\<lambda>st. fp_task st = task \<and> closable st)"

text \<open>\<open>Close\<close> cancels the timers first and takes the lock to end the groups afterwards.\<close>

definition begin_close :: "coalescer \<Rightarrow> coalescer" where
  "begin_close c = c\<lparr>co_closing := True\<rparr>"

definition Close_coalescer :: "coalescer \<Rightarrow> coalesceOut list \<times> coalescer" where
  "Close_coalescer c = endGroups (\<lambda>_. True) c"

section \<open>The channel as a machine\<close>

datatype coalesceEvent =
    CoExecute Event | CoFires nat | CoFlush nat | CoReset string | CoBeginClose | CoClose | CoWait duration

text \<open>The log of a run: the clock, what was handed to the channel and what it put out, newest last.\<close>

record coalesceRun =
  cr_chan :: coalescer
  cr_now :: instant
  cr_handed :: "Event list"
  cr_out :: "(instant \<times> coalesceOut) list"

definition cr_emit :: "coalesceOut list \<times> coalescer \<Rightarrow> coalesceRun \<Rightarrow> coalesceRun" where
  "cr_emit r s = s\<lparr>cr_chan := snd r, cr_out := cr_out s @ map (Pair (cr_now s)) (fst r)\<rparr>"

fun co_step :: "coalesceEvent \<Rightarrow> coalesceRun \<Rightarrow> coalesceRun" where
  "co_step (CoExecute ev) s =
     cr_emit (Execute_coalesced (cr_now s) ev (cr_chan s)) (s\<lparr>cr_handed := cr_handed s @ [ev]\<rparr>)"
| "co_step (CoFires i) s = s\<lparr>cr_chan := timer_fires (cr_now s) i (cr_chan s)\<rparr>"
| "co_step (CoFlush i) s = cr_emit (timerFlush i (cr_chan s)) s"
| "co_step (CoReset task) s = cr_emit (ResetTask task (cr_chan s)) s"
| "co_step CoBeginClose s = s\<lparr>cr_chan := begin_close (cr_chan s)\<rparr>"
| "co_step CoClose s = cr_emit (Close_coalescer (cr_chan s)) s"
| "co_step (CoWait d) s = s\<lparr>cr_now := cr_now s + d\<rparr>"

definition start_run :: "coalesceConfig \<Rightarrow> instant \<Rightarrow> coalesceRun" where
  "start_run cfg t0 = \<lparr>cr_chan = NewChannel cfg, cr_now = t0, cr_handed = [], cr_out = []\<rparr>"

section \<open>Every event is accounted for\<close>

text \<open>How many events an output stands for.\<close>

fun out_weight :: "coalesceOut \<Rightarrow> nat" where
  "out_weight (Forwarded _ _) = 1"
| "out_weight (Folded _ _ n) = n"
| "out_weight (WindowSummary _ _ n) = n"
| "out_weight (Dropped _ n) = n"
| "out_weight (GroupEnded _) = 0"

definition pending_total :: "(string \<times> fpState) list \<Rightarrow> nat" where
  "pending_total gs = sum_list (map (pending \<circ> snd) gs)"

definition delivered_total :: "(instant \<times> coalesceOut) list \<Rightarrow> nat" where
  "delivered_total os = sum_list (map (out_weight \<circ> snd) os)"

definition group_inv :: "coalescer \<Rightarrow> string \<Rightarrow> fpState \<Rightarrow> bool" where
  "group_inv c fp st \<longleftrightarrow>
     (pending st > 0 \<longleftrightarrow> lastEvent st \<noteq> None)
     \<and> (case lastEvent st of None \<Rightarrow> True | Some ev \<Rightarrow> FingerprintKey ev = fp)
     \<and> (pending st > 0 \<and> \<not> co_closing c \<longrightarrow> fp_timer st \<noteq> None)
     \<and> (case fp_timer st of
          None \<Rightarrow> True
        | Some i \<Rightarrow> (\<exists>d. co_armed c i = Some (d, fp)) \<or> co_fired c i = Some fp)"

definition co_inv :: "coalescer \<Rightarrow> bool" where
  "co_inv c \<longleftrightarrow>
     distinct (map fst (co_state c)) \<and> (\<forall>i. co_armed c i = None \<or> co_fired c i = None)
     \<and> (\<forall>i. co_minted c \<le> i \<longrightarrow> co_armed c i = None \<and> co_fired c i = None)
     \<and> (\<forall>fp st. map_of (co_state c) fp = Some st \<longrightarrow> group_inv c fp st)"

lemmas [simp del] = map_of_eq_Some_iff

lemma map_of_delete [simp]: "map_of (AList.delete k xs) k' = (if k' = k then None else map_of xs k')"
  by (simp add: delete_conv)

lemma map_of_put [simp]: "map_of (AList.update k v xs) k' = (if k' = k then Some v else map_of xs k')"
  by (simp add: update_conv)

lemma pending_total_update:
  "distinct (map fst gs) \<Longrightarrow> pending_total (AList.update fp st gs) + (case map_of gs fp of None \<Rightarrow> 0 | Some o' \<Rightarrow> pending o')
     = pending_total gs + pending st"
  by (induction gs) (auto simp: pending_total_def split: option.split)

lemma delete_other: "fp \<notin> fst ` set gs \<Longrightarrow> AList.delete fp gs = gs"
  by (induction gs) (auto simp: AList.delete_eq)

lemma pending_total_delete:
  "distinct (map fst gs) \<Longrightarrow> pending_total (AList.delete fp gs) + (case map_of gs fp of None \<Rightarrow> 0 | Some o' \<Rightarrow> pending o')
     = pending_total gs"
proof (induction gs)
  case (Cons g gs)
  then show ?case
    by (cases g) (auto simp: pending_total_def delete_other map_of_eq_None_iff [THEN iffD2] split: option.splits)
qed (simp add: pending_total_def)

lemma co_inv_group: "co_inv c \<Longrightarrow> map_of (co_state c) fp = Some st \<Longrightarrow> group_inv c fp st"
  by (simp add: co_inv_def)

text \<open>A timer belongs to the group it names.\<close>

lemma timer_owner:
  assumes "co_inv c" "map_of (co_state c) fp = Some st" "map_of (co_state c) fp' = Some st'"
    "fp_timer st = Some i" "fp_timer st' = Some i"
  shows "fp = fp'"
proof -
  have "group_inv c fp st" "group_inv c fp' st'" using assms co_inv_group by auto
  moreover have "co_armed c i = None \<or> co_fired c i = None" using assms(1) by (simp add: co_inv_def)
  ultimately show ?thesis using assms(4,5) by (auto simp: group_inv_def)
qed

lemma stopTimer_simps [simp]:
  "co_state (stopTimer st c) = co_state c" "co_cfg (stopTimer st c) = co_cfg c"
  "co_fired (stopTimer st c) = co_fired c" "co_minted (stopTimer st c) = co_minted c"
  "co_closing (stopTimer st c) = co_closing c"
  "co_armed (stopTimer st c) i = (if fp_timer st = Some i then None else co_armed c i)"
  by (auto simp: stopTimer_def split: option.split)

text \<open>A group whose timer is stopped or has run leaves the others as they were.\<close>

lemma inv_other:
  assumes "co_inv c" "map_of (co_state c) fp = Some st" "map_of (co_state c) fp' = Some st'" "fp' \<noteq> fp"
    and "co_closing c' = co_closing c" "co_fired c' = co_fired c"
    and "\<And>i. co_armed c' i = (if fp_timer st = Some i then None else co_armed c i)"
  shows "group_inv c' fp' st'"
  using co_inv_group [OF assms(1,3)] timer_owner [OF assms(1,2,3)] assms(4-7)
  by (auto simp: group_inv_def split: option.splits)

lemma inv_put_stopped:
  assumes "co_inv c" "map_of (co_state c) fp = Some st"
    and "fp_timer st' = None" "pending st' = 0" "lastEvent st' = None"
  shows "co_inv (put_fp fp st' (stopTimer st c))"
  using assms inv_other [OF assms(1,2), of _ _ "put_fp fp st' (stopTimer st c)"]
  unfolding co_inv_def
  by (auto simp: put_fp_def distinct_update) (simp add: group_inv_def)

lemma inv_drop_stopped:
  assumes "co_inv c" "map_of (co_state c) fp = Some st"
  shows "co_inv (drop_fp fp (stopTimer st c))"
  using assms inv_other [OF assms(1,2), of _ _ "drop_fp fp (stopTimer st c)"]
  unfolding co_inv_def by (auto simp: drop_fp_def distinct_delete split: if_splits)

lemma group_inv_put [simp]: "group_inv (put_fp fp st c) = group_inv c"
  by (intro ext) (simp add: group_inv_def put_fp_def cong: option.case_cong)

lemma group_inv_drop [simp]: "group_inv (drop_fp fp c) = group_inv c"
  by (intro ext) (simp add: group_inv_def drop_fp_def cong: option.case_cong)

lemma inv_put: "co_inv c \<Longrightarrow> group_inv c fp st \<Longrightarrow> co_inv (put_fp fp st c)"
  unfolding co_inv_def group_inv_put by (auto simp: put_fp_def distinct_update)

lemma inv_arm:
  assumes "co_inv c" "pending st > 0" "lastEvent st = Some ev" "FingerprintKey ev = fp"
  shows "co_inv (arm_timer now fp st c)"
proof -
  let ?c = "c\<lparr>co_armed := (co_armed c)(co_minted c \<mapsto>
      (now + max 0 (time_sub (lastSent st + cc_Window (co_cfg c)) now), fp)), co_minted := co_minted c + 1\<rparr>"
  have "group_inv ?c fp' st'" if "map_of (co_state c) fp' = Some st'" for fp' st'
    using co_inv_group [OF assms(1) that] assms(1) unfolding group_inv_def co_inv_def
    by (auto split: option.splits)
  then have "co_inv ?c" using assms(1) unfolding co_inv_def by auto
  then show ?thesis unfolding arm_timer_def Let_def
    by (rule inv_put) (use assms in \<open>simp add: group_inv_def\<close>)
qed

text \<open>The sum of what a step puts out and what is left pending.\<close>

abbreviation step_total :: "coalesceOut list \<times> coalescer \<Rightarrow> nat" where
  "step_total r \<equiv> sum_list (map out_weight (fst r)) + pending_total (co_state (snd r))"

lemma arm_state: "co_state (arm_timer now fp st c) = AList.update fp (st\<lparr>fp_timer := Some (co_minted c)\<rparr>) (co_state c)"
  by (simp add: arm_timer_def Let_def put_fp_def)

lemma Execute_ok:
  assumes inv: "co_inv c"
  shows "co_inv (snd (Execute_coalesced now ev c))
    \<and> step_total (Execute_coalesced now ev c) = pending_total (co_state c) + 1"
proof (cases "map_of (co_state c) (FingerprintKey ev)")
  case None
  moreover have "distinct (map fst (co_state c))" using inv by (simp add: co_inv_def)
  ultimately show ?thesis
    using inv pending_total_update [of "co_state c" "FingerprintKey ev"]
    by (auto simp: Execute_coalesced_def Let_def group_inv_def intro!: inv_put) (simp add: put_fp_def)
next
  case (Some st)
  let ?fp = "FingerprintKey ev"
  let ?st1 = "st\<lparr>pending := pending st + 1, lastEvent := Some ev\<rparr>"
  have sum: "pending_total (AList.update ?fp st' (co_state c)) + pending st = pending_total (co_state c) + pending st'" for st'
    using pending_total_update [of "co_state c" ?fp st'] Some inv by (simp add: co_inv_def)
  consider (closed) "time_sub now (lastSent st) \<ge> cc_Window (co_cfg c)"
    | (limit) "\<not> time_sub now (lastSent st) \<ge> cc_Window (co_cfg c)"
        "cc_CoalesceLimit (co_cfg c) > 1 \<and> int (pending ?st1) \<ge> cc_CoalesceLimit (co_cfg c)"
    | (suppress) "\<not> time_sub now (lastSent st) \<ge> cc_Window (co_cfg c)"
        "\<not> (cc_CoalesceLimit (co_cfg c) > 1 \<and> int (pending ?st1) \<ge> cc_CoalesceLimit (co_cfg c))"
    by blast
  then show ?thesis
  proof cases
    case closed
    then show ?thesis using sum [of "st\<lparr>lastSent := now, pending := 0, lastEvent := None, fp_timer := None\<rparr>"] Some
        inv_put_stopped [OF inv Some, of "st\<lparr>lastSent := now, pending := 0, lastEvent := None, fp_timer := None\<rparr>"]
      by (auto simp: Execute_coalesced_def Let_def put_fp_def)
  next
    case limit
    then have out: "Execute_coalesced now ev c =
        ([Folded ?fp (summarize ev (pending ?st1) False) (pending ?st1)],
         put_fp ?fp (?st1\<lparr>pending := 0, lastSent := now, lastEvent := None, fp_timer := None\<rparr>) (stopTimer st c))"
      using Some by (simp add: Execute_coalesced_def Let_def)
    show ?thesis
      using sum [of "?st1\<lparr>pending := 0, lastSent := now, lastEvent := None, fp_timer := None\<rparr>"]
        inv_put_stopped [OF inv Some, of "?st1\<lparr>pending := 0, lastSent := now, lastEvent := None, fp_timer := None\<rparr>"]
      unfolding out by (auto simp: put_fp_def)
  next
    case suppress
    then have out: "Execute_coalesced now ev c =
        ([], if fp_timer ?st1 = None then arm_timer now ?fp ?st1 c else put_fp ?fp ?st1 c)"
      using Some by (simp add: Execute_coalesced_def Let_def)
    have "co_inv (put_fp ?fp ?st1 c)" if "fp_timer st \<noteq> None"
      using that co_inv_group [OF inv Some] by (intro inv_put [OF inv]) (auto simp: group_inv_def)
    then show ?thesis using sum [of ?st1] sum [of "?st1\<lparr>fp_timer := Some (co_minted c)\<rparr>"] inv_arm [OF inv, of ?st1 ev ?fp now]
      unfolding out by (auto simp: arm_state put_fp_def)
  qed
qed

lemma fires_ok: "co_inv c \<Longrightarrow> co_inv (timer_fires now i c) \<and> co_state (timer_fires now i c) = co_state c"
proof (cases "co_armed c i")
  case (Some a)
  assume inv: "co_inv c"
  obtain d fp where a: "a = (d, fp)" by fastforce
  have "group_inv (timer_fires now i c) fp' st'" if "map_of (co_state c) fp' = Some st'" for fp' st'
  proof -
    have "co_fired c i = None" using inv Some unfolding co_inv_def by (metis option.distinct(1))
    then show ?thesis
      using co_inv_group [OF inv that] Some a by (auto simp: timer_fires_def group_inv_def split: option.splits)
  qed
  then show ?thesis using inv Some a unfolding co_inv_def by (auto simp: timer_fires_def)
qed (simp add: timer_fires_def)

lemma timerFlush_ok:
  assumes inv: "co_inv c"
  shows "co_inv (snd (timerFlush i c)) \<and> step_total (timerFlush i c) = pending_total (co_state c)"
proof (cases "co_fired c i")
  case None
  then show ?thesis using inv by (simp add: timerFlush_def)
next
  case (Some fp)
  let ?c = "c\<lparr>co_fired := (co_fired c)(i := None)\<rparr>"
  have other: "group_inv ?c fp' st'" if "map_of (co_state c) fp' = Some st'" "fp' \<noteq> fp" for fp' st'
    using co_inv_group [OF inv that(1)] Some that(2) by (auto simp: group_inv_def split: option.splits)
  have base: "distinct (map fst (co_state c))" "\<forall>i. co_armed ?c i = None \<or> co_fired ?c i = None"
      "\<forall>i. co_minted ?c \<le> i \<longrightarrow> co_armed ?c i = None \<and> co_fired ?c i = None"
    using inv by (auto simp: co_inv_def)
  show ?thesis
  proof (cases "map_of (co_state c) fp")
    case None
    then have "fp' \<noteq> fp" if "map_of (co_state ?c) fp' = Some st'" for fp' st' using that by auto
    then have "co_inv ?c" using base other unfolding co_inv_def by simp
    then show ?thesis using Some None by (simp add: timerFlush_def)
  next
    case st: (Some st)
    have g: "group_inv c fp st" using co_inv_group [OF inv st] .
    have put: "co_inv (put_fp fp (st\<lparr>fp_timer := None\<rparr>) ?c)" if "pending st = 0 \<or> co_closing c"
      using base other g that unfolding co_inv_def group_inv_put
      by (auto simp: put_fp_def distinct_update) (auto simp: group_inv_def split: option.splits)
    have sum: "pending_total (AList.update fp (st\<lparr>fp_timer := None\<rparr>) (co_state c)) = pending_total (co_state c)"
      using pending_total_update [OF base(1), of fp "st\<lparr>fp_timer := None\<rparr>"] st by simp
    show ?thesis
    proof (cases "pending st = 0 \<or> co_closing c")
      case True
      then have "timerFlush i c = ([], put_fp fp (st\<lparr>fp_timer := None\<rparr>) ?c)"
        using Some st g by (auto simp: timerFlush_def Let_def group_inv_def split: nat.splits option.splits)
      then show ?thesis using put [OF True] sum by (simp add: put_fp_def)
    next
      case False
      then obtain n ev where "pending st = Suc n" "lastEvent st = Some ev"
        using g by (cases "pending st") (auto simp: group_inv_def)
      then have out: "timerFlush i c = ([WindowSummary fp (summarize ev (pending st) True) (pending st)], drop_fp fp ?c)"
        using Some st False by (simp add: timerFlush_def Let_def)
      have "co_inv (drop_fp fp ?c)"
        using base other unfolding co_inv_def group_inv_drop
        by (auto simp: drop_fp_def distinct_delete split: if_splits)
      then show ?thesis using pending_total_delete [OF base(1), of fp] st unfolding out by (simp add: drop_fp_def)
    qed
  qed
qed

lemma end_groups_ok:
  "co_inv c \<Longrightarrow> distinct (map fst gs) \<Longrightarrow> \<forall>(fp, st)\<in>set gs. map_of (co_state c) fp = Some st \<Longrightarrow>
   co_inv (snd (end_groups gs c)) \<and> step_total (end_groups gs c) = pending_total (co_state c)"
proof (induction gs arbitrary: c)
  case (Cons g gs)
  obtain fp st where g: "g = (fp, st)" by fastforce
  have st: "map_of (co_state c) fp = Some st" using Cons.prems(3) g by auto
  let ?c = "drop_fp fp (stopTimer st c)"
  have "co_inv ?c" by (rule inv_drop_stopped [OF Cons.prems(1) st])
  moreover have "\<forall>(fp', st')\<in>set gs. map_of (co_state ?c) fp' = Some st'"
    using Cons.prems(2,3) g by (force simp: drop_fp_def)
  ultimately have IH: "co_inv (snd (end_groups gs ?c)) \<and> step_total (end_groups gs ?c) = pending_total (co_state ?c)"
    using Cons.IH Cons.prems(2) by simp
  have "pending_total (co_state ?c) + pending st = pending_total (co_state c)"
    using pending_total_delete [of "co_state c" fp] st Cons.prems(1) by (simp add: drop_fp_def co_inv_def)
  moreover have "sum_list (map out_weight (case (pending st, lastEvent st) of
      (Suc n, Some ev) \<Rightarrow> [WindowSummary fp (summarize ev (pending st) True) (pending st)] | _ \<Rightarrow> [])) = pending st"
    using co_inv_group [OF Cons.prems(1) st] by (auto simp: group_inv_def split: nat.splits option.splits)
  ultimately show ?case using IH g by (auto split: prod.splits)
qed simp

lemma endGroups_ok:
  assumes "co_inv c"
  shows "co_inv (snd (endGroups match c)) \<and> step_total (endGroups match c) = pending_total (co_state c)"
  unfolding endGroups_def
proof (rule end_groups_ok [OF assms])
  have d: "distinct (map fst (co_state c))" using assms by (simp add: co_inv_def)
  then show "distinct (map fst (filter (match \<circ> snd) (co_state c)))" by (rule distinct_map_filter)
  show "\<forall>(fp, st)\<in>set (filter (match \<circ> snd) (co_state c)). map_of (co_state c) fp = Some st"
    using d by auto
qed

lemma begin_close_ok: "co_inv c \<Longrightarrow> co_inv (begin_close c)"
proof -
  have "group_inv c fp st \<Longrightarrow> group_inv (begin_close c) fp st" for fp st
    by (simp add: group_inv_def begin_close_def cong: option.case_cong)
  then show "co_inv c \<Longrightarrow> co_inv (begin_close c)" unfolding co_inv_def by (simp add: begin_close_def)
qed

text \<open>The invariant of a run: the channel's and that every event is delivered, given up or pending.\<close>

definition run_inv :: "coalesceRun \<Rightarrow> bool" where
  "run_inv s \<longleftrightarrow> co_inv (cr_chan s)
     \<and> length (cr_handed s) = delivered_total (cr_out s) + pending_total (co_state (cr_chan s))"

lemma co_step_inv: "run_inv s \<Longrightarrow> run_inv (co_step e s)"
  using Execute_ok [of "cr_chan s"] timerFlush_ok [of "cr_chan s"] endGroups_ok [of "cr_chan s"]
    fires_ok [of "cr_chan s"] begin_close_ok [of "cr_chan s"]
  by (cases e) (auto simp: run_inv_def cr_emit_def delivered_total_def ResetTask_def Close_coalescer_def
      begin_close_def comp_def)

interpretation coalesce_run: step_machine co_step "\<lambda>_ _. True" run_inv
  by unfold_locales (rule co_step_inv)

lemma start_run_inv: "run_inv (start_run cfg t0)"
  by (simp add: run_inv_def start_run_def NewChannel_def co_inv_def delivered_total_def pending_total_def)

lemma end_groups_state:
  "map_of (co_state (snd (end_groups gs c))) fp = (if fp \<in> fst ` set gs then None else map_of (co_state c) fp)"
  by (induction gs c rule: end_groups.induct) (auto simp: drop_fp_def image_iff split: prod.splits, fastforce+)

lemma Close_state: "co_state (snd (Close_coalescer c)) = []"
proof -
  have "map_of (co_state (snd (Close_coalescer c))) = Map.empty"
    by (auto simp: Close_coalescer_def endGroups_def end_groups_state map_of_eq_None_iff fun_eq_iff)
  then show ?thesis by simp
qed

section \<open>Prompt timers\<close>

text \<open>A timer's function runs as soon as it fires: firing and flushing are one turn, and no event is
  handed over while a timer is due or to a channel being closed.\<close>

fun co_turn :: "coalesceEvent \<Rightarrow> coalesceRun \<Rightarrow> coalesceRun" where
  "co_turn (CoFires i) s = co_step (CoFlush i) (co_step (CoFires i) s)"
| "co_turn (CoFlush i) s = s"
| "co_turn e s = co_step e s"

definition none_due :: "coalesceRun \<Rightarrow> bool" where
  "none_due s \<longleftrightarrow> (\<forall>i d fp. co_armed (cr_chan s) i = Some (d, fp) \<longrightarrow> cr_now s < d)"

fun prompt_ok :: "coalesceEvent \<Rightarrow> coalesceRun \<Rightarrow> bool" where
  "prompt_ok (CoExecute ev) s = (none_due s \<and> \<not> co_closing (cr_chan s))"
| "prompt_ok (CoWait d) s = (0 \<le> d)"
| "prompt_ok _ s = True"

text \<open>Reading the outputs in order: when each fingerprint was last forwarded in its open group, and
  whether so far nothing was given up and every event forwarded at once came a window after that.\<close>

fun space_step :: "duration \<Rightarrow> instant \<times> coalesceOut \<Rightarrow> (string \<Rightarrow> instant option) \<times> bool \<Rightarrow> (string \<Rightarrow> instant option) \<times> bool" where
  "space_step w (t, Forwarded fp ev) (L, ok) =
     (L(fp \<mapsto> t), ok \<and> (case L fp of None \<Rightarrow> True | Some t' \<Rightarrow> t' + w \<le> t))"
| "space_step w (t, Folded fp ev n) (L, ok) = (L(fp \<mapsto> t), ok)"
| "space_step w (t, WindowSummary fp ev n) (L, ok) = (L, ok)"
| "space_step w (t, Dropped fp n) (L, ok) = (L, False)"
| "space_step w (t, GroupEnded fp) (L, ok) = (L(fp := None), ok)"

definition spacing :: "duration \<Rightarrow> (instant \<times> coalesceOut) list \<Rightarrow> (string \<Rightarrow> instant option) \<times> bool" where
  "spacing w os = fold (space_step w) os (Map.empty, True)"

definition window_of :: "coalesceRun \<Rightarrow> duration" where
  "window_of s = cc_Window (co_cfg (cr_chan s))"

definition group_prompt :: "coalesceRun \<Rightarrow> string \<Rightarrow> fpState \<Rightarrow> bool" where
  "group_prompt s fp st \<longleftrightarrow>
     lastSent st \<le> cr_now s
     \<and> (case fp_timer st of None \<Rightarrow> True | Some i \<Rightarrow> co_armed (cr_chan s) i = Some (lastSent st + window_of s, fp))"

text \<open>The last forward of a fingerprint is that of its open group, or a window ago.\<close>

definition last_ok :: "coalesceRun \<Rightarrow> string \<Rightarrow> instant option \<Rightarrow> bool" where
  "last_ok s fp l \<longleftrightarrow>
     (case map_of (co_state (cr_chan s)) fp of
        Some st \<Rightarrow> l = Some (lastSent st)
      | None \<Rightarrow> (case l of None \<Rightarrow> True | Some t \<Rightarrow> t + window_of s \<le> cr_now s))"

definition prompt_inv :: "coalesceRun \<Rightarrow> bool" where
  "prompt_inv s \<longleftrightarrow>
     run_inv s \<and> 0 < window_of s \<and> window_of s \<le> max_int64 \<and> co_fired (cr_chan s) = Map.empty
     \<and> (\<forall>fp st. map_of (co_state (cr_chan s)) fp = Some st \<longrightarrow> group_prompt s fp st)
     \<and> (\<forall>i d fp. co_armed (cr_chan s) i = Some (d, fp) \<longrightarrow>
          (\<exists>st. map_of (co_state (cr_chan s)) fp = Some st \<and> fp_timer st = Some i))
     \<and> snd (spacing (window_of s) (cr_out s))
     \<and> (\<forall>fp. last_ok s fp (fst (spacing (window_of s) (cr_out s)) fp))"

lemma spacing_append: "spacing w (os @ ps) = fold (space_step w) ps (spacing w os)"
  by (simp add: spacing_def)

lemma end_groups_spacing:
  "fold (space_step w) (map (Pair t) (fst (end_groups gs c))) (L, ok)
     = ((\<lambda>fp. if fp \<in> fst ` set gs then None else L fp), ok)"
proof (induction gs c arbitrary: L rule: end_groups.induct)
  case (2 fp st gs c)
  have "fold (space_step w) (map (Pair t) (case (pending st, lastEvent st) of
      (Suc n, Some ev) \<Rightarrow> [WindowSummary fp (summarize ev (pending st) True) (pending st)] | _ \<Rightarrow> [])) (L, ok) = (L, ok)"
    by (auto split: nat.splits option.splits)
  then show ?case using 2 by (auto simp: fun_eq_iff split: prod.splits)
qed (simp add: fun_eq_iff)

lemma end_groups_rest:
  "co_fired (snd (end_groups gs c)) = co_fired c" "co_cfg (snd (end_groups gs c)) = co_cfg c"
  "co_armed (snd (end_groups gs c)) i =
     (if \<exists>(fp, st)\<in>set gs. fp_timer st = Some i then None else co_armed c i)"
  by (induction gs c rule: end_groups.induct) (auto simp: drop_fp_def split: prod.splits)

lemma now_sub_window:
  assumes "0 < w" "w \<le> max_int64" "lst \<le> now"
  shows "time_sub now lst \<ge> w \<longleftrightarrow> lst + w \<le> now"
  using assms by (auto simp: time_sub_def time_defs)

text \<open>Ending the groups that match.\<close>

lemma endGroups_parts:
  fixes match :: "fpState \<Rightarrow> bool"
  assumes "co_inv c"
  defines "r \<equiv> endGroups match c"
  shows "map_of (co_state (snd r)) fp = (case map_of (co_state c) fp of
       None \<Rightarrow> None | Some st \<Rightarrow> if match st then None else Some st)"
    and "fold (space_step w) (map (Pair t) (fst r)) (L, ok)
       = ((\<lambda>fp. case map_of (co_state c) fp of None \<Rightarrow> L fp | Some st \<Rightarrow> if match st then None else L fp), ok)"
    and "co_armed (snd r) i = (if \<exists>fp st. map_of (co_state c) fp = Some st \<and> match st \<and> fp_timer st = Some i
       then None else co_armed c i)"
    and "co_fired (snd r) = co_fired c" "co_cfg (snd r) = co_cfg c"
proof -
  have d: "distinct (map fst (co_state c))" using assms by (simp add: co_inv_def)
  have mem: "fp \<in> fst ` set (filter (match \<circ> snd) (co_state c)) \<longleftrightarrow> (\<exists>st. map_of (co_state c) fp = Some st \<and> match st)" for fp
    using d by (force simp: map_of_eq_Some_iff)
  show "map_of (co_state (snd r)) fp = (case map_of (co_state c) fp of
       None \<Rightarrow> None | Some st \<Rightarrow> if match st then None else Some st)"
    unfolding r_def endGroups_def end_groups_state mem by (auto split: option.splits)
  show "fold (space_step w) (map (Pair t) (fst r)) (L, ok)
       = ((\<lambda>fp. case map_of (co_state c) fp of None \<Rightarrow> L fp | Some st \<Rightarrow> if match st then None else L fp), ok)"
    unfolding r_def endGroups_def end_groups_spacing mem by (auto simp: fun_eq_iff split: option.splits)
  show "co_armed (snd r) i = (if \<exists>fp st. map_of (co_state c) fp = Some st \<and> match st \<and> fp_timer st = Some i
       then None else co_armed c i)"
    unfolding r_def endGroups_def end_groups_rest using d by (auto simp: map_of_eq_Some_iff)
  show "co_fired (snd r) = co_fired c" "co_cfg (snd r) = co_cfg c"
    by (simp_all add: r_def endGroups_def end_groups_rest)
qed

lemma prompt_endGroups:
  assumes "prompt_inv s"
  shows "prompt_inv (cr_emit (endGroups match (cr_chan s)) s)"
proof -
  let ?c = "cr_chan s" let ?r = "endGroups match ?c" let ?s = "cr_emit ?r s"
  have inv: "co_inv ?c" using assms by (simp add: prompt_inv_def run_inv_def)
  note parts = endGroups_parts [OF inv, where match = match]
  have run: "run_inv ?s"
    using assms endGroups_ok [OF inv, of match]
    by (simp add: prompt_inv_def run_inv_def cr_emit_def delivered_total_def comp_def)
  have same: "window_of ?s = window_of s" "cr_now ?s = cr_now s" "cr_chan ?s = snd ?r"
    "cr_out ?s = cr_out s @ map (Pair (cr_now s)) (fst ?r)" by (simp_all add: window_of_def cr_emit_def parts)
  obtain L ok where L: "spacing (window_of s) (cr_out s) = (L, ok)" by fastforce
  show ?thesis unfolding prompt_inv_def
  proof (intro conjI allI impI)
    show "run_inv ?s" by (rule run)
    show "0 < window_of ?s" "window_of ?s \<le> max_int64" using assms by (simp_all add: prompt_inv_def same)
    show "co_fired (cr_chan ?s) = Map.empty" using assms by (simp add: prompt_inv_def same parts)
    show "snd (spacing (window_of ?s) (cr_out ?s))"
      using assms L by (simp add: prompt_inv_def same spacing_append parts)
  next
    fix fp st assume "map_of (co_state (cr_chan ?s)) fp = Some st"
    then have st: "map_of (co_state ?c) fp = Some st" "\<not> match st"
      by (auto simp: same parts split: option.splits if_splits)
    have gp: "group_prompt s fp st" using assms st(1) by (simp add: prompt_inv_def)
    show "group_prompt ?s fp st"
    proof (cases "fp_timer st")
      case None
      then show ?thesis using gp by (simp add: group_prompt_def same)
    next
      case (Some i)
      have "\<not> (\<exists>fp' st'. map_of (co_state ?c) fp' = Some st' \<and> match st' \<and> fp_timer st' = Some i)"
        using timer_owner [OF inv st(1) _ Some] st by fastforce
      then show ?thesis using gp Some by (simp add: group_prompt_def same parts)
    qed
  next
    fix i d fp assume "co_armed (cr_chan ?s) i = Some (d, fp)"
    then have i: "co_armed ?c i = Some (d, fp)"
        "\<not> (\<exists>fp st. map_of (co_state ?c) fp = Some st \<and> match st \<and> fp_timer st = Some i)"
      by (auto simp: same parts split: if_splits)
    then show "\<exists>st. map_of (co_state (cr_chan ?s)) fp = Some st \<and> fp_timer st = Some i"
      using assms unfolding prompt_inv_def by (fastforce simp: same parts)
  next
    fix fp
    have "last_ok s fp (L fp)" using assms L by (simp add: prompt_inv_def)
    then show "last_ok ?s fp (fst (spacing (window_of ?s) (cr_out ?s)) fp)"
      by (auto simp: last_ok_def same spacing_append L parts split: option.splits)
  qed
qed

text \<open>A turn that only touches the group of one fingerprint.\<close>

lemma prompt_one_group:
  assumes inv: "prompt_inv s" and run: "run_inv s'"
    and same: "cr_now s' = cr_now s" "co_cfg (cr_chan s') = co_cfg (cr_chan s)" "co_fired (cr_chan s') = Map.empty"
      "\<And>fp'. fp' \<noteq> fp \<Longrightarrow> map_of (co_state (cr_chan s')) fp' = map_of (co_state (cr_chan s)) fp'"
      "\<And>i d fp'. fp' \<noteq> fp \<Longrightarrow> co_armed (cr_chan s') i = Some (d, fp') \<longleftrightarrow> co_armed (cr_chan s) i = Some (d, fp')"
    and grp: "\<And>st. map_of (co_state (cr_chan s')) fp = Some st \<Longrightarrow> group_prompt s' fp st"
    and armed: "\<And>i d. co_armed (cr_chan s') i = Some (d, fp) \<Longrightarrow>
        \<exists>st. map_of (co_state (cr_chan s')) fp = Some st \<and> fp_timer st = Some i"
    and out: "spacing (window_of s) (cr_out s') = (L', True)"
      "\<And>fp'. fp' \<noteq> fp \<Longrightarrow> L' fp' = fst (spacing (window_of s) (cr_out s)) fp'" "last_ok s' fp (L' fp)"
  shows "prompt_inv s'"
proof -
  have w: "window_of s' = window_of s" by (simp add: window_of_def same)
  show ?thesis unfolding prompt_inv_def w out(1)
  proof (intro conjI allI impI)
    fix fp' st assume st: "map_of (co_state (cr_chan s')) fp' = Some st"
    show "group_prompt s' fp' st"
    proof (cases "fp' = fp")
      case False
      then have "group_prompt s fp' st" using st inv same(4) by (simp add: prompt_inv_def)
      then show ?thesis using False same(5) by (simp add: group_prompt_def same(1) w split: option.splits)
    qed (use grp st in simp)
  next
    fix i d fp' assume a: "co_armed (cr_chan s') i = Some (d, fp')"
    show "\<exists>st. map_of (co_state (cr_chan s')) fp' = Some st \<and> fp_timer st = Some i"
    proof (cases "fp' = fp")
      case False
      then show ?thesis using a inv same(4,5) by (simp add: prompt_inv_def)
    qed (use armed a in simp)
  next
    fix fp' show "last_ok s' fp' (fst (L', True) fp')"
    proof (cases "fp' = fp")
      case False
      then have "last_ok s fp' (L' fp')" using inv out(2) by (simp add: prompt_inv_def)
      then show ?thesis using False same(1,4) by (simp add: last_ok_def w cong: option.case_cong)
    qed (use out in simp)
  qed (use inv run same in \<open>simp_all add: prompt_inv_def\<close>)
qed

lemma run_inv_emit:
  assumes "run_inv s" "co_inv (snd r)" "step_total r + length (cr_handed s) = pending_total (co_state (cr_chan s)) + length (cr_handed s')"
    "cr_out s' = cr_out s"
  shows "run_inv (cr_emit r s')"
  using assms by (simp add: run_inv_def cr_emit_def delivered_total_def comp_def)

lemma armed_current:
  "prompt_inv s \<Longrightarrow> co_armed (cr_chan s) i = Some (d, fp) \<Longrightarrow>
     \<exists>st. map_of (co_state (cr_chan s)) fp = Some st \<and> fp_timer st = Some i"
  by (simp add: prompt_inv_def)

lemma armed_group:
  assumes "prompt_inv s" "map_of (co_state (cr_chan s)) fp = Some st" "fp_timer st = None"
  shows "co_armed (cr_chan s) i \<noteq> Some (d, fp)"
  using armed_current [OF assms(1)] assms(2,3) by fastforce

lemma armed_same:
  assumes "prompt_inv s" "map_of (co_state (cr_chan s)) fp = Some st" "fp_timer st = Some j"
  shows "co_armed (cr_chan s) i = Some (d, fp) \<Longrightarrow> i = j"
  using armed_current [OF assms(1)] assms(2,3) by fastforce

lemma prompt_Execute:
  assumes inv: "prompt_inv s" and ok: "none_due s" "\<not> co_closing (cr_chan s)"
  shows "prompt_inv (co_step (CoExecute ev) s)"
proof -
  let ?c = "cr_chan s" let ?fp = "FingerprintKey ev" let ?s = "co_step (CoExecute ev) s"
  let ?r = "Execute_coalesced (cr_now s) ev ?c"
  have co: "co_inv ?c" and run: "run_inv s" using inv by (simp_all add: prompt_inv_def run_inv_def)
  have run': "run_inv ?s"
    using run_inv_emit [OF run, of ?r "s\<lparr>cr_handed := cr_handed s @ [ev]\<rparr>"] Execute_ok [OF co, of "cr_now s" ev] by simp
  obtain L where L: "spacing (window_of s) (cr_out s) = (L, True)"
    using inv by (cases "spacing (window_of s) (cr_out s)") (simp add: prompt_inv_def)
  have last: "last_ok s ?fp (L ?fp)" using inv L by (simp add: prompt_inv_def)
  have w: "0 < window_of s" "window_of s \<le> max_int64" "co_fired ?c = Map.empty" using inv by (simp_all add: prompt_inv_def)
  show ?thesis
  proof (cases "map_of (co_state ?c) ?fp")
    case None
    have r: "?r = ([Forwarded ?fp ev], put_fp ?fp \<lparr>lastSent = cr_now s, pending = 0, lastEvent = None, fp_timer = None,
        fp_task = ev_TaskName ev, closable = ClosedBySuccess ev\<rparr> ?c)"
      using None by (simp add: Execute_coalesced_def Let_def)
    have na: "co_armed ?c i \<noteq> Some (d, ?fp)" for i d using armed_current [OF inv] None by fastforce
    show ?thesis
      by (rule prompt_one_group [OF inv run', where fp = ?fp and L' = "L(?fp \<mapsto> cr_now s)"])
        (use None na w L last in \<open>auto simp: r cr_emit_def put_fp_def group_prompt_def spacing_append last_ok_def
           window_of_def split: option.splits\<close>)
  next
    case (Some st)
    have gp: "group_prompt s ?fp st" using inv Some by (simp add: prompt_inv_def)
    have gi: "group_inv ?c ?fp st" using co_inv_group [OF co Some] .
    have Lfp: "L ?fp = Some (lastSent st)" using last Some by (simp add: last_ok_def)
    note sub = now_sub_window [OF w(1,2), of "lastSent st" "cr_now s"]
    have lst: "lastSent st \<le> cr_now s" using gp by (simp add: group_prompt_def)
    let ?st1 = "st\<lparr>pending := pending st + 1, lastEvent := Some ev\<rparr>"
    consider (closed) "lastSent st + window_of s \<le> cr_now s"
      | (limit) "\<not> lastSent st + window_of s \<le> cr_now s"
          "cc_CoalesceLimit (co_cfg ?c) > 1 \<and> int (pending ?st1) \<ge> cc_CoalesceLimit (co_cfg ?c)"
      | (suppress) "\<not> lastSent st + window_of s \<le> cr_now s"
          "\<not> (cc_CoalesceLimit (co_cfg ?c) > 1 \<and> int (pending ?st1) \<ge> cc_CoalesceLimit (co_cfg ?c))"
      by blast
    then show ?thesis
    proof cases
      case closed
      have "fp_timer st = None"
        using gp ok(1) closed by (cases "fp_timer st") (fastforce simp: group_prompt_def none_due_def)+
      moreover from this have "pending st = 0" using gi ok(2) by (simp add: group_inv_def)
      ultimately have r: "?r = ([Forwarded ?fp ev],
          put_fp ?fp (st\<lparr>lastSent := cr_now s, pending := 0, lastEvent := None, fp_timer := None\<rparr>) ?c)"
        using Some closed sub lst by (simp add: Execute_coalesced_def Let_def window_of_def [symmetric] stopTimer_def)
      show ?thesis
        by (rule prompt_one_group [OF inv run', where fp = ?fp and L' = "L(?fp \<mapsto> cr_now s)"])
          (use closed Lfp L w armed_group [OF inv Some \<open>fp_timer st = None\<close>] in \<open>auto simp: r cr_emit_def put_fp_def
             group_prompt_def spacing_append last_ok_def\<close>)
    next
      case limit
      have r: "?r = ([Folded ?fp (summarize ev (pending ?st1) False) (pending ?st1)],
          put_fp ?fp (?st1\<lparr>pending := 0, lastSent := cr_now s, lastEvent := None, fp_timer := None\<rparr>) (stopTimer st ?c))"
        using Some limit sub lst by (simp add: Execute_coalesced_def Let_def window_of_def [symmetric])
      have others: "fp' \<noteq> ?fp \<Longrightarrow> fp_timer st = Some i \<Longrightarrow> co_armed ?c i \<noteq> Some (d, fp')" for i d fp'
        using gp by (auto simp: group_prompt_def)
      have self: "fp_timer st \<noteq> Some i \<Longrightarrow> co_armed ?c i \<noteq> Some (d, ?fp)" for i d
        using armed_same [OF inv Some] armed_group [OF inv Some] by (cases "fp_timer st") auto
      show ?thesis
        by (rule prompt_one_group [OF inv run', where fp = ?fp and L' = "L(?fp \<mapsto> cr_now s)"])
          (use Lfp L w others self in \<open>auto simp: r cr_emit_def put_fp_def group_prompt_def spacing_append last_ok_def
             split: if_splits\<close>)
    next
      case suppress
      have r: "?r = ([], if fp_timer ?st1 = None then arm_timer (cr_now s) ?fp ?st1 ?c else put_fp ?fp ?st1 ?c)"
        using Some suppress sub lst by (simp add: Execute_coalesced_def Let_def window_of_def [symmetric])
      show ?thesis
      proof (cases "fp_timer st")
        case None
        have wait: "cr_now s + max 0 (time_sub (lastSent st + window_of s) (cr_now s)) = lastSent st + window_of s"
          using suppress(1) lst w by (simp add: time_sub_def time_defs)
        have na: "co_armed ?c i \<noteq> Some (d, ?fp)" for i d using armed_group [OF inv Some None] .
        have fresh: "co_armed ?c (co_minted ?c) = None" using co by (simp add: co_inv_def)
        show ?thesis
          by (rule prompt_one_group [OF inv run', where fp = ?fp and L' = L])
            (use None Lfp L w lst na fresh wait in \<open>auto simp: r cr_emit_def put_fp_def arm_timer_def Let_def
               group_prompt_def window_of_def spacing_append last_ok_def split: if_splits\<close>)
      next
        case (Some j)
        then have "fp_timer st \<noteq> None" by simp
        then show ?thesis
          by (intro prompt_one_group [OF inv run', where fp = ?fp and L' = L])
            (use Some Lfp L w gp armed_same [OF inv \<open>map_of (co_state ?c) ?fp = Some st\<close> Some] in
              \<open>auto simp: r cr_emit_def put_fp_def group_prompt_def window_of_def spacing_append last_ok_def split: if_splits\<close>)
      qed
    qed
  qed
qed

lemma prompt_timer:
  assumes inv: "prompt_inv s"
  shows "prompt_inv (co_turn (CoFires i) s)"
proof -
  let ?c = "cr_chan s"
  have co: "co_inv ?c" and w: "co_fired ?c = Map.empty" using inv by (simp_all add: prompt_inv_def run_inv_def)
  obtain L where L: "spacing (window_of s) (cr_out s) = (L, True)"
    using inv by (cases "spacing (window_of s) (cr_out s)") (simp add: prompt_inv_def)
  show ?thesis
  proof (cases "\<exists>d fp. co_armed ?c i = Some (d, fp) \<and> d \<le> cr_now s")
    case False
    then have "timer_fires (cr_now s) i ?c = ?c" by (auto simp: timer_fires_def split: option.splits)
    then have "co_turn (CoFires i) s = s" using w by (simp add: timerFlush_def cr_emit_def)
    then show ?thesis using inv by simp
  next
    case True
    then obtain d fp where a: "co_armed ?c i = Some (d, fp)" "d \<le> cr_now s" by blast
    obtain st where st: "map_of (co_state ?c) fp = Some st" "fp_timer st = Some i" using armed_current [OF inv a(1)] by blast
    have d: "d = lastSent st + window_of s" using inv st a(1) by (force simp: prompt_inv_def group_prompt_def)
    let ?c1 = "timer_fires (cr_now s) i ?c" let ?s = "co_turn (CoFires i) s"
    have c1: "co_armed ?c1 = (co_armed ?c)(i := None)" "co_fired ?c1 = [i \<mapsto> fp]" "co_state ?c1 = co_state ?c"
        "co_cfg ?c1 = co_cfg ?c" using a w by (simp_all add: timer_fires_def)
    have run': "run_inv ?s"
      using co_step_inv [of "co_step (CoFires i) s" "CoFlush i"] co_step_inv [of s "CoFires i"] inv
      by (simp add: prompt_inv_def)
    have last: "last_ok s fp (L fp)" using inv L by (simp add: prompt_inv_def)
    have own: "j \<noteq> i \<Longrightarrow> co_armed ?c j \<noteq> Some (d', fp)" for j d' using armed_same [OF inv st] by blast
    have out: "timerFlush i ?c1 = ([], put_fp fp (st\<lparr>fp_timer := None\<rparr>) (?c1\<lparr>co_fired := Map.empty\<rparr>))
        \<or> (\<exists>e n. timerFlush i ?c1 = ([WindowSummary fp e n], drop_fp fp (?c1\<lparr>co_fired := Map.empty\<rparr>)))"
      using st c1 by (auto simp: timerFlush_def Let_def split: nat.splits option.splits)
    have gp: "lastSent st \<le> cr_now s" using inv st by (auto simp: prompt_inv_def group_prompt_def)
    from out show ?thesis
    proof
      assume r: "timerFlush i ?c1 = ([], put_fp fp (st\<lparr>fp_timer := None\<rparr>) (?c1\<lparr>co_fired := Map.empty\<rparr>))"
      show ?thesis
        by (rule prompt_one_group [OF inv run', where fp = fp and L' = L])
          (use r c1 st L last gp own a in \<open>auto simp: cr_emit_def put_fp_def group_prompt_def last_ok_def spacing_append
             split: if_splits\<close>)
    next
      assume "\<exists>e n. timerFlush i ?c1 = ([WindowSummary fp e n], drop_fp fp (?c1\<lparr>co_fired := Map.empty\<rparr>))"
      then obtain e n where r: "timerFlush i ?c1 = ([WindowSummary fp e n], drop_fp fp (?c1\<lparr>co_fired := Map.empty\<rparr>))" by blast
      show ?thesis
        by (rule prompt_one_group [OF inv run', where fp = fp and L' = L])
          (use r c1 st L last own a d in \<open>auto simp: cr_emit_def drop_fp_def last_ok_def spacing_append window_of_def
             split: if_splits\<close>)
    qed
  qed
qed

text \<open>Time passing, or the channel beginning to close, changes nothing of this.\<close>

lemma prompt_later:
  assumes inv: "prompt_inv s" and run: "run_inv s'" and le: "cr_now s \<le> cr_now s'" and out: "cr_out s' = cr_out s"
    and same: "co_state (cr_chan s') = co_state (cr_chan s)" "co_armed (cr_chan s') = co_armed (cr_chan s)"
      "co_fired (cr_chan s') = co_fired (cr_chan s)" "co_cfg (cr_chan s') = co_cfg (cr_chan s)"
  shows "prompt_inv s'"
proof -
  have w: "window_of s' = window_of s" by (simp add: window_of_def same)
  have "group_prompt s fp st \<Longrightarrow> group_prompt s' fp st" for fp st
    using le by (simp add: group_prompt_def w same cong: option.case_cong)
  moreover have "last_ok s fp l \<Longrightarrow> last_ok s' fp l" for fp l
    using le by (auto simp: last_ok_def w same split: option.splits)
  ultimately show ?thesis using inv run unfolding prompt_inv_def w out same by simp
qed

lemma prompt_wait: "prompt_inv s \<Longrightarrow> 0 \<le> d \<Longrightarrow> prompt_inv (co_step (CoWait d) s)"
  by (rule prompt_later [of s], assumption, rule co_step_inv) (simp_all add: prompt_inv_def)

lemma prompt_begin_close: "prompt_inv s \<Longrightarrow> prompt_inv (co_step CoBeginClose s)"
  by (rule prompt_later [of s], assumption, rule co_step_inv) (simp_all add: prompt_inv_def begin_close_def)

lemma prompt_turn: "prompt_inv s \<Longrightarrow> prompt_ok e s \<Longrightarrow> prompt_inv (co_turn e s)"
proof (cases e)
  case (CoReset task)
  then show "prompt_inv s \<Longrightarrow> ?thesis" using prompt_endGroups [of s] by (simp add: ResetTask_def)
next
  case CoClose
  then show "prompt_inv s \<Longrightarrow> ?thesis" using prompt_endGroups [of s] by (simp add: Close_coalescer_def)
next
  case (CoFires i)
  then show "prompt_inv s \<Longrightarrow> ?thesis" using prompt_timer [of s i] by (simp del: co_step.simps)
qed (use prompt_Execute prompt_wait prompt_begin_close in \<open>simp_all del: co_step.simps\<close>)

interpretation coalesce_prompt: step_machine co_turn prompt_ok prompt_inv
  by unfold_locales (rule prompt_turn)

lemma start_prompt: "cc_Window cfg \<le> max_int64 \<Longrightarrow> prompt_inv (start_run cfg t0)"
  using start_run_inv [of cfg t0]
  by (auto simp: prompt_inv_def start_run_def NewChannel_def window_of_def spacing_def last_ok_def DefaultWindow_def time_defs)

section \<open>Where a group comes from\<close>

definition group_of :: "Event \<Rightarrow> string \<Rightarrow> fpState \<Rightarrow> bool" where
  "group_of ev fp st \<longleftrightarrow> FingerprintKey ev = fp \<and> fp_task st = ev_TaskName ev \<and> closable st = ClosedBySuccess ev"

definition origin_inv :: "coalesceRun \<Rightarrow> bool" where
  "origin_inv s \<longleftrightarrow> (\<forall>fp st. map_of (co_state (cr_chan s)) fp = Some st \<longrightarrow> (\<exists>ev\<in>set (cr_handed s). group_of ev fp st))"

lemma origin_Execute:
  assumes "map_of (co_state (snd (Execute_coalesced now ev c))) fp = Some st'"
  shows "(\<exists>st. map_of (co_state c) fp = Some st \<and> fp_task st' = fp_task st \<and> closable st' = closable st)
    \<or> group_of ev fp st'"
  using assms
  by (auto simp: Execute_coalesced_def Let_def put_fp_def arm_state group_of_def split: option.splits if_splits)

lemma origin_flush:
  assumes "map_of (co_state (snd (timerFlush i c))) fp = Some st'"
  shows "\<exists>st. map_of (co_state c) fp = Some st \<and> fp_task st' = fp_task st \<and> closable st' = closable st"
  using assms
  by (auto simp: timerFlush_def Let_def put_fp_def drop_fp_def split: option.splits if_splits nat.splits)

lemma origin_endGroups:
  assumes "map_of (co_state (snd (endGroups match c))) fp = Some st"
  shows "map_of (co_state c) fp = Some st"
  using assms by (auto simp: endGroups_def end_groups_state split: if_splits)

lemma origin_fires: "co_state (timer_fires now i c) = co_state c"
  by (auto simp: timer_fires_def split: option.split)

lemma origin_step: "origin_inv s \<Longrightarrow> origin_inv (co_step e s)"
proof (cases e)
  case (CoExecute ev)
  then show "origin_inv s \<Longrightarrow> ?thesis"
    by (auto simp: origin_inv_def cr_emit_def dest!: origin_Execute) (auto simp: group_of_def)
next
  case (CoFlush i)
  then show "origin_inv s \<Longrightarrow> ?thesis"
    by (auto simp: origin_inv_def cr_emit_def dest!: origin_flush) (auto simp: group_of_def)
next
  case (CoReset task)
  then show "origin_inv s \<Longrightarrow> ?thesis"
    by (auto simp: origin_inv_def cr_emit_def ResetTask_def dest!: origin_endGroups)
next
  case CoClose
  then show "origin_inv s \<Longrightarrow> ?thesis"
    by (auto simp: origin_inv_def cr_emit_def Close_coalescer_def dest!: origin_endGroups)
qed (simp_all add: origin_inv_def origin_fires begin_close_def)

interpretation coalesce_origin: step_machine co_step "\<lambda>_ _. True" origin_inv
  by unfold_locales (rule origin_step)

section \<open>Properties\<close>

lemma spacing_false: "\<not> snd (fold (space_step w) ps (L, False))"
proof (induction ps arbitrary: L)
  case (Cons p ps)
  then show ?case by (cases p; cases "snd p") auto
qed simp

lemma spacing_no_drop: "snd (fold (space_step w) ps (L, ok)) \<Longrightarrow> (t, Dropped fp n) \<notin> set ps"
proof (induction ps arbitrary: L ok)
  case (Cons p ps)
  then show ?case using spacing_false by (cases p; cases "snd p") fastforce+
qed simp

text \<open>Outputs that neither forward a fingerprint nor end its group.\<close>

fun keeps_last :: "string \<Rightarrow> coalesceOut \<Rightarrow> bool" where
  "keeps_last fp (Forwarded fp' _) = (fp' \<noteq> fp)"
| "keeps_last fp (Folded fp' _ _) = (fp' \<noteq> fp)"
| "keeps_last fp (GroupEnded fp') = (fp' \<noteq> fp)"
| "keeps_last fp _ = True"

lemma spacing_keeps: "list_all (keeps_last fp \<circ> snd) ps \<Longrightarrow> fst (fold (space_step w) ps (L, ok)) fp = L fp"
proof (induction ps arbitrary: L ok)
  case (Cons p ps)
  then show ?case by (cases p; cases "snd p") auto
qed simp

lemma spacing_gap:
  assumes "snd (spacing w (xs @ (t, out) # ys @ (t', Forwarded fp ev) # zs))"
    and "out = Forwarded fp ev0 \<or> out = Folded fp ev0 n" "list_all (keeps_last fp \<circ> snd) ys"
  shows "t + w \<le> t'"
proof (rule ccontr)
  assume late: "\<not> t + w \<le> t'"
  obtain L ok where x: "spacing w xs = (L, ok)" by fastforce
  obtain ok1 where o1: "space_step w (t, out) (L, ok) = (L(fp \<mapsto> t), ok1)" using assms(2) by auto
  obtain L2 ok2 where y: "fold (space_step w) ys (L(fp \<mapsto> t), ok1) = (L2, ok2)" by fastforce
  then have "L2 fp = Some t" using spacing_keeps [OF assms(3), of w "L(fp \<mapsto> t)" ok1] by simp
  then have "\<not> snd (fold (space_step w) ((t', Forwarded fp ev) # zs) (L2, ok2))"
    using late spacing_false by simp
  then show False using assms(1) x o1 y by (simp add: spacing_append)
qed

definition pages :: Event where
  "pages = failed_event ReasonFailed"

definition pages_cfg :: coalesceConfig where
  "pages_cfg = \<lparr>cc_Window = hour, cc_CoalesceLimit = 0\<rparr>"

text \<open>C8. However events, timers, successes and the closing of the channel interleave, no event is
  forgotten: those forwarded, those folded into a summary, those given up with a warning and those
  suppressed so far add up to the events handed over. While the channel is open a group with
  suppressed events has a timer, armed or already fired, that will send its summary, and closing the
  channel leaves nothing suppressed.\<close>

theorem coalesce_accounts:
  assumes "s = fold co_step es (start_run cfg t0)"
  shows "length (cr_handed s) = delivered_total (cr_out s) + pending_total (co_state (cr_chan s))
    \<and> (map_of (co_state (cr_chan s)) fp = Some st \<and> pending st > 0 \<and> \<not> co_closing (cr_chan s) \<longrightarrow>
         (\<exists>i. fp_timer st = Some i \<and> (co_armed (cr_chan s) i \<noteq> None \<or> co_fired (cr_chan s) i = Some fp)))
    \<and> length (cr_handed s) = delivered_total (cr_out (co_step CoClose s))"
proof -
  have inv: "run_inv s" unfolding assms by (rule coalesce_run.fold_inv_always [OF start_run_inv]) simp
  have "map_of (co_state (cr_chan s)) fp = Some st \<and> pending st > 0 \<and> \<not> co_closing (cr_chan s) \<longrightarrow>
         (\<exists>i. fp_timer st = Some i \<and> (co_armed (cr_chan s) i \<noteq> None \<or> co_fired (cr_chan s) i = Some fp))"
    using inv co_inv_group [of "cr_chan s" fp st] by (auto simp: run_inv_def group_inv_def)
  moreover have "length (cr_handed s) = delivered_total (cr_out (co_step CoClose s))"
    using co_step_inv [OF inv, of CoClose] by (simp add: run_inv_def cr_emit_def Close_state pending_total_def)
  ultimately show ?thesis using inv by (simp add: run_inv_def)
qed

definition three_pages :: coalesceRun where
  "three_pages = fold co_step [CoExecute pages, CoExecute pages, CoExecute pages] (start_run pages_cfg 0)"

theorem coalesce_accounts_witness:
  "length (cr_handed three_pages) = 3 \<and> delivered_total (cr_out three_pages) = 1
     \<and> pending_total (co_state (cr_chan three_pages)) = 2 \<and> delivered_total (cr_out (co_step CoClose three_pages)) = 3"
proof -
  have 1: "length (cr_handed three_pages) = 3" "delivered_total (cr_out three_pages) = 1"
    by (simp_all add: three_pages_def pages_cfg_def start_run_def NewChannel_def cr_emit_def Execute_coalesced_def Let_def
        put_fp_def arm_timer_def delivered_total_def time_sub_def time_defs)
  show ?thesis using coalesce_accounts [OF three_pages_def] 1 by simp
qed

text \<open>When timers run promptly nothing is ever given up, and a fingerprint is forwarded at once at
  most once per window: between a forward and the next immediate one lies at least the window,
  unless a success or the closing of the channel ended the group in between.\<close>

lemma coalesce_rate:
  assumes "coalesce_prompt.admissible es (start_run cfg t0)" "cc_Window cfg \<le> max_int64"
    and "s = fold co_turn es (start_run cfg t0)"
  shows "length (cr_handed s) = delivered_total (cr_out s) + pending_total (co_state (cr_chan s))
    \<and> (t, Dropped fp n) \<notin> set (cr_out s)
    \<and> (cr_out s = xs @ (t, out) # ys @ (t', Forwarded fp ev) # zs \<and> (out = Forwarded fp ev0 \<or> out = Folded fp ev0 n)
         \<and> list_all (keeps_last fp \<circ> snd) ys \<longrightarrow> t + window_of s \<le> t')"
proof -
  have inv: "prompt_inv s" unfolding assms(3) by (rule coalesce_prompt.fold_inv [OF start_prompt [OF assms(2)] assms(1)])
  then have sp: "snd (spacing (window_of s) (cr_out s))" by (simp add: prompt_inv_def)
  then have "(t, Dropped fp n) \<notin> set (cr_out s)" unfolding spacing_def by (rule spacing_no_drop)
  then show ?thesis using inv sp spacing_gap by (auto simp: prompt_inv_def run_inv_def)
qed

definition hourly :: coalesceRun where
  "hourly = fold co_turn [CoExecute pages, CoWait hour, CoExecute pages] (start_run pages_cfg 0)"

text \<open>A success closes the incident: after the success of a task its next failure is forwarded at
  once, whatever was suppressed before, and the success itself sends a summary of exactly the
  failures still held back, provided the events of one fingerprint are classified alike.\<close>

lemma success_reopens:
  assumes "s = fold co_step es (start_run cfg t0)"
    and "\<forall>e\<in>set (cr_handed s). FingerprintKey e = FingerprintKey ev \<longrightarrow>
      CHR ''|'' \<notin> set (ev_TaskName e) \<and> ClosedBySuccess e"
    and "CHR ''|'' \<notin> set (ev_TaskName ev)" "ClosedBySuccess ev"
  shows "fst (Execute_coalesced now ev (snd (ResetTask (ev_TaskName ev) (cr_chan s)))) = [Forwarded (FingerprintKey ev) ev]
    \<and> sum_list (map out_weight (fst (ResetTask (ev_TaskName ev) (cr_chan s))))
        + pending_total (co_state (snd (ResetTask (ev_TaskName ev) (cr_chan s)))) = pending_total (co_state (cr_chan s))"
proof -
  let ?c = "cr_chan s" let ?fp = "FingerprintKey ev"
  have inv: "run_inv s" unfolding assms(1) by (rule coalesce_run.fold_inv_always [OF start_run_inv]) simp
  have orig: "origin_inv s" unfolding assms(1)
    by (rule coalesce_origin.fold_inv_always) (simp_all add: origin_inv_def start_run_def NewChannel_def)
  have co: "co_inv ?c" using inv by (simp add: run_inv_def)
  have "fp_task st = ev_TaskName ev \<and> closable st" if st: "map_of (co_state ?c) ?fp = Some st" for st
  proof -
    obtain e where e: "e \<in> set (cr_handed s)" "group_of e ?fp st" using orig st unfolding origin_inv_def by blast
    then have "FingerprintKey e = ?fp" by (simp add: group_of_def)
    then have "ev_TaskName e = ev_TaskName ev" "ClosedBySuccess e"
      using assms(2,3) e(1) fingerprint_task [of e ev] by auto
    then show ?thesis using e(2) by (simp add: group_of_def)
  qed
  then have "map_of (co_state (snd (ResetTask (ev_TaskName ev) ?c))) ?fp = None"
    unfolding ResetTask_def endGroups_parts(1) [OF co] by (simp split: option.split)
  then have "fst (Execute_coalesced now ev (snd (ResetTask (ev_TaskName ev) ?c))) = [Forwarded ?fp ev]"
    by (simp add: Execute_coalesced_def Let_def)
  then show ?thesis using endGroups_ok [OF co] by (simp add: ResetTask_def)
qed

text \<open>A late timer: an event that comes after the window's end but before the timer's function has the
  lock drops what was suppressed.\<close>

lemma late_timer_drops:
  "Dropped (FingerprintKey pages) 1 \<in> snd ` set (cr_out (fold co_step
     [CoExecute pages, CoExecute pages, CoWait hour, CoFires 0, CoExecute pages, CoFlush 0] (start_run pages_cfg 0)))"
  by (simp add: pages_cfg_def start_run_def NewChannel_def cr_emit_def Execute_coalesced_def Let_def
      put_fp_def arm_timer_def timer_fires_def timerFlush_def stopTimer_def time_sub_def time_defs)

end
