(* ===== verification/Notify_Inapp.thy ===== *)
theory Notify_Inapp
  imports Notify_Dispatch "HOL-Library.List_Lexorder"
begin

text \<open>
  The in-app bell: the coalescer that folds repeats into one row (\<open>notify/channel/inapp/coalescer.go\<close>),
  the hub that fans updates out (\<open>hub.go\<close>) and the table of notifications under them
  (\<open>storage/notification.go\<close> and its queries). The occurrence list is a list of instants, whatever JSON
  it is stored as.
\<close>

section \<open>The table\<close>

record Notification =
  nt_ID :: string
  nt_Fingerprint :: string
  nt_Kind :: string
  nt_Severity :: Severity
  nt_TaskName :: string
  nt_RunID :: string
  nt_Title :: string
  nt_Body :: string
  nt_Count :: nat
  nt_Occurrences :: "instant list"
  nt_CreatedAt :: instant
  nt_LastOccurredAt :: instant
  nt_ReadAt :: "instant option"

text \<open>\<open>ORDER BY last_occurred_at DESC LIMIT 1\<close>.\<close>

fun latest_row :: "Notification list \<Rightarrow> Notification option" where
  "latest_row [] = None"
| "latest_row (r # rs) =
     (case latest_row rs of
        None \<Rightarrow> Some r
      | Some q \<Rightarrow> if nt_LastOccurredAt r \<ge> nt_LastOccurredAt q then Some r else Some q)"

definition SelectExistingForFingerprint :: "string \<Rightarrow> instant \<Rightarrow> Notification list \<Rightarrow> Notification option" where
  "SelectExistingForFingerprint fp cutoff rows =
     latest_row (filter (\<lambda>r. nt_Fingerprint r = fp \<and> nt_LastOccurredAt r \<ge> cutoff) rows)"

definition UpdateNotificationCoalesced :: "string \<Rightarrow> nat \<Rightarrow> instant list \<Rightarrow> Notification \<Rightarrow> Notification list \<Rightarrow> Notification list" where
  "UpdateNotificationCoalesced i newCount merged n rows =
     map (\<lambda>r. if nt_ID r = i
       then r\<lparr>nt_Count := newCount, nt_Occurrences := merged, nt_LastOccurredAt := nt_LastOccurredAt n,
              nt_Title := nt_Title n, nt_Body := nt_Body n, nt_RunID := nt_RunID n, nt_ReadAt := None\<rparr>
       else r) rows"

text \<open>The transaction: whether a row was created, the notification as the caller sees it, the table.\<close>

definition UpsertByFingerprint ::
  "Notification \<Rightarrow> duration \<Rightarrow> int \<Rightarrow> Notification list \<Rightarrow> bool \<times> Notification \<times> Notification list" where
  "UpsertByFingerprint n window ringSize rows =
     (case SelectExistingForFingerprint (nt_Fingerprint n) (nt_LastOccurredAt n - window) rows of
        None \<Rightarrow> (let n' = n\<lparr>nt_ReadAt := None\<rparr> in (True, n', rows @ [n']))
      | Some existing \<Rightarrow>
          (let all = nt_LastOccurredAt n # nt_Occurrences existing;
               merged = (if ringSize > 0 \<and> int (length all) > ringSize then take (nat ringSize) all else all);
               newCount = nt_Count existing + 1
           in (False,
               n\<lparr>nt_ID := nt_ID existing, nt_Count := newCount, nt_Occurrences := merged,
                 nt_CreatedAt := nt_CreatedAt existing, nt_ReadAt := None\<rparr>,
               UpdateNotificationCoalesced (nt_ID existing) newCount merged n rows)))"

definition CountUnreadNotifications :: "Notification list \<Rightarrow> nat" where
  "CountUnreadNotifications rows = length (filter (\<lambda>r. nt_ReadAt r = None) rows)"

definition newest_first :: "Notification list \<Rightarrow> Notification list" where
  "newest_first rows = rev (sort_key nt_ID rows)"

definition ListNotifications :: "int \<Rightarrow> string \<Rightarrow> Notification list \<Rightarrow> Notification list" where
  "ListNotifications limit before' rows =
     (let l = (if limit \<le> 0 then 50 else nat limit)
      in take l (newest_first (filter (\<lambda>r. before' = [] \<or> nt_ID r < before') rows)))"

definition PruneNotificationsByCount :: "int \<Rightarrow> Notification list \<Rightarrow> Notification list" where
  "PruneNotificationsByCount keep rows =
     (if keep \<le> 0 then rows
      else let gone = map nt_ID (drop (nat keep) (newest_first rows))
           in filter (\<lambda>r. nt_ID r \<notin> set gone) rows)"

definition PruneNotificationsByAge :: "instant \<Rightarrow> duration \<Rightarrow> Notification list \<Rightarrow> Notification list" where
  "PruneNotificationsByAge now olderThan rows =
     (if olderThan \<le> 0 then rows else filter (\<lambda>r. \<not> nt_LastOccurredAt r < now - olderThan) rows)"

definition setNotificationReadAt :: "string \<Rightarrow> instant option \<Rightarrow> Notification list \<Rightarrow> Notification list option" where
  "setNotificationReadAt i at rows =
     (if i = [] \<or> \<not> list_ex (\<lambda>r. nt_ID r = i) rows then None
      else Some (map (\<lambda>r. if nt_ID r = i then r\<lparr>nt_ReadAt := at\<rparr> else r) rows))"

definition MarkAllNotificationsRead :: "instant \<Rightarrow> Notification list \<Rightarrow> Notification list" where
  "MarkAllNotificationsRead at rows =
     map (\<lambda>r. if nt_ReadAt r = None then r\<lparr>nt_ReadAt := Some at\<rparr> else r) rows"

section \<open>The fingerprint's hash\<close>

text \<open>64-bit FNV-1a and its hexadecimal form.\<close>

definition hashFingerprint :: "string \<Rightarrow> 64 word" where
  "hashFingerprint s = foldl (\<lambda>h c. xor h (word_of_nat (of_char c)) * 1099511628211) 14695981039346656037 s"

definition hex_digit :: "nat \<Rightarrow> char" where
  "hex_digit d = (if d < 10 then char_of (48 + d) else char_of (87 + d))"

fun hex_string :: "nat \<Rightarrow> string" where
  "hex_string n = (if n < 16 then [hex_digit n] else hex_string (n div 16) @ [hex_digit (n mod 16)])"

declare hex_string.simps [simp del]

section \<open>The coalescer\<close>

record inapp =
  ia_Window :: duration
  ia_CoalesceLimit :: int
  ia_resetAt :: "(string \<times> instant) list"
  ia_rows :: "Notification list"

definition InappDefaultWindow :: duration where "InappDefaultWindow = hour"
definition InappDefaultCoalesceLimit :: int where "InappDefaultCoalesceLimit = 10"

definition NewCoalescer :: "duration \<Rightarrow> int \<Rightarrow> Notification list \<Rightarrow> inapp" where
  "NewCoalescer window limit rows =
     \<lparr>ia_Window = (if window = 0 then InappDefaultWindow else window),
      ia_CoalesceLimit = (if limit = 0 then InappDefaultCoalesceLimit else limit), ia_resetAt = [], ia_rows = rows\<rparr>"

definition ResetTask_inapp :: "instant \<Rightarrow> string \<Rightarrow> inapp \<Rightarrow> inapp" where
  "ResetTask_inapp now task c = c\<lparr>ia_resetAt := AList.update task now (ia_resetAt c)\<rparr>"

definition fold_window :: "Event \<Rightarrow> instant \<Rightarrow> inapp \<Rightarrow> duration" where
  "fold_window ev now c =
     (if \<not> ClosedBySuccess ev then ia_Window c
      else case map_of (ia_resetAt c) (ev_TaskName ev) of
          None \<Rightarrow> ia_Window c
        | Some reset \<Rightarrow> min (ia_Window c) (time_sub now reset))"

datatype updateType = UpdateTypeCreated | UpdateTypeUpdated | UpdateTypeUnreadCountChanged

record Update =
  up_Type :: updateType
  up_Notification :: Notification
  up_UnreadCount :: int

definition new_row :: "string \<Rightarrow> instant \<Rightarrow> string \<Rightarrow> string \<Rightarrow> Event \<Rightarrow> Notification" where
  "new_row newID now title body ev =
     \<lparr>nt_ID = newID, nt_Fingerprint = hex_string (unat (hashFingerprint (FingerprintKey ev))),
      nt_Kind = kind_name (ev_Kind ev), nt_Severity = ev_Severity ev, nt_TaskName = ev_TaskName ev,
      nt_RunID = (case ev_Run ev of None \<Rightarrow> [] | Some r \<Rightarrow> ID r), nt_Title = title, nt_Body = body,
      nt_Count = 1, nt_Occurrences = [now], nt_CreatedAt = now, nt_LastOccurredAt = now, nt_ReadAt = None\<rparr>"

text \<open>\<open>dbOK\<close> and \<open>countOK\<close> are whether the two queries succeed. What is published, and the new state.\<close>

definition Receive_inapp ::
  "bool \<Rightarrow> bool \<Rightarrow> string \<Rightarrow> instant \<Rightarrow> string \<Rightarrow> string \<Rightarrow> Event \<Rightarrow> inapp \<Rightarrow> Update option \<times> inapp" where
  "Receive_inapp dbOK countOK newID now title body ev c =
     (if \<not> dbOK then (None, c)
      else case UpsertByFingerprint (new_row newID now title body ev) (fold_window ev now c) (ia_CoalesceLimit c) (ia_rows c) of
        (created, n, rows) \<Rightarrow>
          (Some \<lparr>up_Type = (if created then UpdateTypeCreated else UpdateTypeUpdated), up_Notification = n,
             up_UnreadCount = (if countOK then int (CountUnreadNotifications rows) else -1)\<rparr>,
           c\<lparr>ia_rows := rows\<rparr>))"

text \<open>The hub: one bounded queue per subscriber. A send that runs alone is three producer steps.\<close>

definition Publish_hub :: "'v \<Rightarrow> 'v sendQueue list \<Rightarrow> 'v sendQueue list" where
  "Publish_hub u subs = map (\<lambda>q. (SendDropOldest ProducerStep ^^ 3) (SendDropOldest (CallSend u) q)) subs"

section \<open>The bell as a machine\<close>

datatype bellEvent =
    BellReceive bool bool string string string Event
  | BellReset string
  | BellWait duration
  | BellSetRead string "instant option"
  | BellReadAll instant
  | BellPruneCount int
  | BellPruneAge duration

text \<open>\<open>bl_received\<close> counts the occurrences stored, \<open>bl_pruned\<close> those deleted with their rows.\<close>

record bell =
  bl_inapp :: inapp
  bl_now :: instant
  bl_received :: nat
  bl_pruned :: nat

definition row_counts :: "Notification list \<Rightarrow> nat" where
  "row_counts rows = sum_list (map nt_Count rows)"

definition on_rows :: "(Notification list \<Rightarrow> Notification list) \<Rightarrow> bell \<Rightarrow> bell" where
  "on_rows f b = b\<lparr>bl_inapp := (bl_inapp b)\<lparr>ia_rows := f (ia_rows (bl_inapp b))\<rparr>\<rparr>"

definition prune_rows :: "(Notification list \<Rightarrow> Notification list) \<Rightarrow> bell \<Rightarrow> bell" where
  "prune_rows f b = (on_rows f b)\<lparr>bl_pruned := bl_pruned b
     + (row_counts (ia_rows (bl_inapp b)) - row_counts (f (ia_rows (bl_inapp b))))\<rparr>"

fun bell_step :: "bellEvent \<Rightarrow> bell \<Rightarrow> bell" where
  "bell_step (BellReceive dbOK countOK newID title body ev) b =
     b\<lparr>bl_inapp := snd (Receive_inapp dbOK countOK newID (bl_now b) title body ev (bl_inapp b)),
       bl_received := bl_received b + (if dbOK then 1 else 0)\<rparr>"
| "bell_step (BellReset task) b = b\<lparr>bl_inapp := ResetTask_inapp (bl_now b) task (bl_inapp b)\<rparr>"
| "bell_step (BellWait d) b = b\<lparr>bl_now := bl_now b + d\<rparr>"
| "bell_step (BellSetRead i at) b = on_rows (\<lambda>rows. case setNotificationReadAt i at rows of None \<Rightarrow> rows | Some rs \<Rightarrow> rs) b"
| "bell_step (BellReadAll at) b = on_rows (MarkAllNotificationsRead at) b"
| "bell_step (BellPruneCount keep) b = prune_rows (PruneNotificationsByCount keep) b"
| "bell_step (BellPruneAge d) b = prune_rows (PruneNotificationsByAge (bl_now b) d) b"

text \<open>A minted id is new and time does not run back.\<close>

fun bell_ok :: "bellEvent \<Rightarrow> bell \<Rightarrow> bool" where
  "bell_ok (BellReceive dbOK countOK newID title body ev) b = (newID \<notin> nt_ID ` set (ia_rows (bl_inapp b)))"
| "bell_ok (BellWait d) b = (0 \<le> d)"
| "bell_ok _ b = True"

definition row_ok :: "int \<Rightarrow> instant \<Rightarrow> Notification \<Rightarrow> bool" where
  "row_ok limit now r \<longleftrightarrow>
     1 \<le> nt_Count r \<and> nt_Occurrences r \<noteq> [] \<and> hd (nt_Occurrences r) = nt_LastOccurredAt r
     \<and> length (nt_Occurrences r) = (if limit > 0 then min (nt_Count r) (nat limit) else nt_Count r)
     \<and> sorted_wrt (\<ge>) (nt_Occurrences r) \<and> nt_LastOccurredAt r \<le> now \<and> nt_CreatedAt r \<le> nt_LastOccurredAt r"

definition bell_inv :: "bell \<Rightarrow> bool" where
  "bell_inv b \<longleftrightarrow>
     distinct (map nt_ID (ia_rows (bl_inapp b)))
     \<and> list_all (row_ok (ia_CoalesceLimit (bl_inapp b)) (bl_now b)) (ia_rows (bl_inapp b))
     \<and> row_counts (ia_rows (bl_inapp b)) + bl_pruned b = bl_received b"

lemma row_counts_filter: "row_counts (filter P rows) \<le> row_counts rows"
  by (induction rows) (auto simp: row_counts_def)

lemma latest_row_None: "latest_row rs = None \<longleftrightarrow> rs = []"
  by (cases rs) (auto split: option.split)

lemma latest_row_Some:
  "latest_row rs = Some r \<Longrightarrow> r \<in> set rs \<and> (\<forall>q\<in>set rs. nt_LastOccurredAt q \<le> nt_LastOccurredAt r)"
proof (induction rs arbitrary: r)
  case (Cons q rs)
  show ?case
  proof (cases "latest_row rs")
    case None
    then show ?thesis using Cons.prems by (simp add: latest_row_None)
  next
    case (Some p)
    then show ?thesis using Cons.prems Cons.IH [OF Some]
      by (cases "nt_LastOccurredAt q \<ge> nt_LastOccurredAt p") auto
  qed
qed simp

lemma update_one:
  assumes "distinct (map nt_ID rows)" "r \<in> set rows" "nt_ID r' = nt_ID r"
  defines "rows' \<equiv> map (\<lambda>x. if nt_ID x = nt_ID r then r' else x) rows"
  shows "map nt_ID rows' = map nt_ID rows" "row_counts rows' + nt_Count r = row_counts rows + nt_Count r'"
    "set rows' = insert r' (set rows - {r})"
proof -
  show "map nt_ID rows' = map nt_ID rows" unfolding rows'_def using assms(3) by (induction rows) auto
  have inj: "q \<in> set rows \<Longrightarrow> nt_ID q = nt_ID r \<longleftrightarrow> q = r" for q
    using assms(1,2) by (auto simp: distinct_map inj_on_def)
  then show "set rows' = insert r' (set rows - {r})" using assms(2) by (auto simp: rows'_def)
  have other: "\<forall>x\<in>set xs. nt_ID x \<noteq> nt_ID r \<Longrightarrow> map (\<lambda>x. if nt_ID x = nt_ID r then r' else x) xs = xs" for xs
    by (induction xs) auto
  show "row_counts rows' + nt_Count r = row_counts rows + nt_Count r'"
    unfolding rows'_def using assms(1,2)
  proof (induction rows)
    case (Cons q rows)
    show ?case
    proof (cases "q = r")
      case True
      then have "\<forall>x\<in>set rows. nt_ID x \<noteq> nt_ID r" using Cons.prems(1) by (metis distinct.simps(2) image_eqI list.map(2) list.set_map)
      then show ?thesis using True other [of rows] by (simp add: row_counts_def)
    next
      case False
      then have "r \<in> set rows" using Cons.prems by auto
      then have "nt_ID q \<noteq> nt_ID r" using Cons.prems(1) by auto
      then show ?thesis using Cons \<open>r \<in> set rows\<close> by (simp add: row_counts_def)
    qed
  qed simp
qed

text \<open>The row an update leaves: one more occurrence, unread.\<close>

definition folded_row :: "Notification \<Rightarrow> int \<Rightarrow> Notification \<Rightarrow> Notification" where
  "folded_row n limit r = r\<lparr>nt_Count := nt_Count r + 1,
     nt_Occurrences := (if limit > 0 then take (nat limit) (nt_LastOccurredAt n # nt_Occurrences r)
       else nt_LastOccurredAt n # nt_Occurrences r),
     nt_LastOccurredAt := nt_LastOccurredAt n, nt_Title := nt_Title n, nt_Body := nt_Body n,
     nt_RunID := nt_RunID n, nt_ReadAt := None\<rparr>"

lemma Upsert_cases:
  assumes "distinct (map nt_ID rows)"
  obtains (created) "UpsertByFingerprint n window limit rows = (True, n\<lparr>nt_ReadAt := None\<rparr>, rows @ [n\<lparr>nt_ReadAt := None\<rparr>])"
      "\<forall>r\<in>set rows. \<not> (nt_Fingerprint r = nt_Fingerprint n \<and> nt_LastOccurredAt n - window \<le> nt_LastOccurredAt r)"
    | (folded) r n' where "r \<in> set rows" "nt_Fingerprint r = nt_Fingerprint n" "nt_LastOccurredAt n - window \<le> nt_LastOccurredAt r"
      "\<forall>q\<in>set rows. nt_Fingerprint q = nt_Fingerprint n \<longrightarrow> nt_LastOccurredAt q \<le> nt_LastOccurredAt r"
      "UpsertByFingerprint n window limit rows =
         (False, n', map (\<lambda>q. if nt_ID q = nt_ID r then folded_row n limit r else q) rows)"
      "nt_ID n' = nt_ID r" "nt_Count n' = nt_Count r + 1"
proof (cases "SelectExistingForFingerprint (nt_Fingerprint n) (nt_LastOccurredAt n - window) rows")
  case None
  then show thesis using created
    by (auto simp: UpsertByFingerprint_def SelectExistingForFingerprint_def latest_row_None filter_empty_conv Let_def)
next
  case (Some r)
  note sel = latest_row_Some [OF Some [unfolded SelectExistingForFingerprint_def]]
  have inj: "q \<in> set rows \<Longrightarrow> nt_ID q = nt_ID r \<Longrightarrow> q = r" for q
    using assms sel by (auto simp: distinct_map inj_on_def)
  have "\<forall>q\<in>set rows. nt_Fingerprint q = nt_Fingerprint n \<longrightarrow> nt_LastOccurredAt q \<le> nt_LastOccurredAt r"
    using sel by (auto simp: not_le)
  moreover have "UpdateNotificationCoalesced (nt_ID r) (nt_Count r + 1)
      (if limit > 0 \<and> int (length (nt_LastOccurredAt n # nt_Occurrences r)) > limit
       then take (nat limit) (nt_LastOccurredAt n # nt_Occurrences r) else nt_LastOccurredAt n # nt_Occurrences r) n rows
     = map (\<lambda>q. if nt_ID q = nt_ID r then folded_row n limit r else q) rows"
    using inj by (auto simp: UpdateNotificationCoalesced_def folded_row_def)
  ultimately show thesis using folded [of r] sel Some
    by (simp add: UpsertByFingerprint_def Let_def)
qed

lemma folded_row_ok:
  assumes "row_ok limit now r" "nt_LastOccurredAt n = now"
  shows "row_ok limit now (folded_row n limit r)"
proof -
  have "\<forall>t\<in>set (nt_Occurrences r). t \<le> now"
    using assms(1) by (cases "nt_Occurrences r") (auto simp: row_ok_def)
  then have "sorted_wrt (\<ge>) (now # nt_Occurrences r)" using assms(1) by (auto simp: row_ok_def)
  then have "sorted_wrt (\<ge>) (take k (now # nt_Occurrences r))" for k by (rule sorted_wrt_take)
  moreover have "hd (take (nat limit) (now # nt_Occurrences r)) = now" if "limit > 0"
    using that by (cases "nat limit") auto
  ultimately show ?thesis using assms \<open>sorted_wrt (\<ge>) (now # nt_Occurrences r)\<close>
    by (auto simp: row_ok_def folded_row_def split: if_splits)
qed

lemma bell_step_inv: "bell_inv b \<Longrightarrow> bell_ok e b \<Longrightarrow> bell_inv (bell_step e b)"
proof (cases e)
  case (BellReceive dbOK countOK newID title body ev)
  assume inv: "bell_inv b" and ok: "bell_ok e b"
  let ?c = "bl_inapp b" let ?n = "new_row newID (bl_now b) title body ev"
  have d: "distinct (map nt_ID (ia_rows ?c))" using inv by (simp add: bell_inv_def)
  have n: "nt_LastOccurredAt ?n = bl_now b" "nt_ID ?n = newID" "nt_Count ?n = 1" "row_ok (ia_CoalesceLimit ?c) (bl_now b) (?n\<lparr>nt_ReadAt := None\<rparr>)"
    by (auto simp: new_row_def row_ok_def)
  show ?thesis
  proof (cases dbOK)
    case True
    show ?thesis
    proof (rule Upsert_cases [OF d, of ?n "fold_window ev (bl_now b) ?c" "ia_CoalesceLimit ?c"])
      assume "UpsertByFingerprint ?n (fold_window ev (bl_now b) ?c) (ia_CoalesceLimit ?c) (ia_rows ?c)
        = (True, ?n\<lparr>nt_ReadAt := None\<rparr>, ia_rows ?c @ [?n\<lparr>nt_ReadAt := None\<rparr>])"
      then show ?thesis using inv ok n True BellReceive
        by (simp add: bell_inv_def Receive_inapp_def row_counts_def)
    next
      fix r n' assume r: "r \<in> set (ia_rows ?c)"
        and up: "UpsertByFingerprint ?n (fold_window ev (bl_now b) ?c) (ia_CoalesceLimit ?c) (ia_rows ?c) =
          (False, n', map (\<lambda>q. if nt_ID q = nt_ID r then folded_row ?n (ia_CoalesceLimit ?c) r else q) (ia_rows ?c))"
      let ?rows = "map (\<lambda>q. if nt_ID q = nt_ID r then folded_row ?n (ia_CoalesceLimit ?c) r else q) (ia_rows ?c)"
      note u = update_one [OF d r, of "folded_row ?n (ia_CoalesceLimit ?c) r"]
      have "row_ok (ia_CoalesceLimit ?c) (bl_now b) (folded_row ?n (ia_CoalesceLimit ?c) r)"
        using folded_row_ok inv r n(1) by (simp add: bell_inv_def list_all_iff)
      then have "list_all (row_ok (ia_CoalesceLimit ?c) (bl_now b)) ?rows"
        using inv u(3) by (auto simp: bell_inv_def list_all_iff)
      moreover have "row_counts ?rows = row_counts (ia_rows ?c) + 1"
        using u(2) by (simp add: folded_row_def)
      moreover have "distinct (map nt_ID ?rows)" using u(1) d by (simp add: folded_row_def del: map_map)
      ultimately show ?thesis using inv up True BellReceive
        by (simp add: bell_inv_def Receive_inapp_def del: map_map)
    qed
  qed (use inv BellReceive in \<open>simp add: bell_inv_def Receive_inapp_def\<close>)
next
  case (BellWait d)
  assume "bell_inv b" "bell_ok e b"
  then show ?thesis using BellWait by (auto simp: bell_inv_def list_all_iff row_ok_def)
next
  case (BellSetRead i at)
  have "row_counts (map (\<lambda>r. if nt_ID r = i then r\<lparr>nt_ReadAt := at\<rparr> else r) rows) = row_counts rows" for rows
    by (induction rows) (auto simp: row_counts_def)
  moreover have "distinct (map nt_ID (map (\<lambda>r. if nt_ID r = i then r\<lparr>nt_ReadAt := at\<rparr> else r) rows)) = distinct (map nt_ID rows)" for rows
    by (rule arg_cong [of _ _ distinct]) (induction rows, auto)
  moreover assume "bell_inv b"
  ultimately show ?thesis using BellSetRead
    by (auto simp: bell_inv_def on_rows_def setNotificationReadAt_def list_all_iff row_ok_def simp del: map_map)
next
  case (BellReadAll at)
  have "row_counts (MarkAllNotificationsRead at rows) = row_counts rows" for rows
    by (induction rows) (auto simp: row_counts_def MarkAllNotificationsRead_def)
  moreover have "distinct (map nt_ID (MarkAllNotificationsRead at rows)) = distinct (map nt_ID rows)" for rows
    by (rule arg_cong [of _ _ distinct]) (induction rows, auto simp: MarkAllNotificationsRead_def)
  moreover assume "bell_inv b"
  ultimately show ?thesis using BellReadAll
    by (auto simp: bell_inv_def on_rows_def list_all_iff row_ok_def) (auto simp: MarkAllNotificationsRead_def)
next
  case (BellPruneCount keep)
  obtain P where P: "PruneNotificationsByCount keep (ia_rows (bl_inapp b)) = filter P (ia_rows (bl_inapp b))"
    by (cases "keep \<le> 0") (auto simp: PruneNotificationsByCount_def Let_def intro: that [of "\<lambda>_. True"])
  assume "bell_inv b"
  then show ?thesis using BellPruneCount P row_counts_filter [of P "ia_rows (bl_inapp b)"]
    by (auto simp: bell_inv_def prune_rows_def on_rows_def distinct_map_filter list_all_iff)
next
  case (BellPruneAge d)
  obtain P where P: "PruneNotificationsByAge (bl_now b) d (ia_rows (bl_inapp b)) = filter P (ia_rows (bl_inapp b))"
    by (cases "d \<le> 0") (auto simp: PruneNotificationsByAge_def intro: that [of "\<lambda>_. True"])
  assume "bell_inv b"
  then show ?thesis using BellPruneAge P row_counts_filter [of P "ia_rows (bl_inapp b)"]
    by (auto simp: bell_inv_def prune_rows_def on_rows_def distinct_map_filter list_all_iff)
qed (simp add: bell_inv_def ResetTask_inapp_def)

interpretation bell_machine: step_machine bell_step bell_ok bell_inv
  by unfold_locales (rule bell_step_inv)

section \<open>Properties\<close>

definition new_bell :: "duration \<Rightarrow> int \<Rightarrow> instant \<Rightarrow> bell" where
  "new_bell window limit t0 = \<lparr>bl_inapp = NewCoalescer window limit [], bl_now = t0, bl_received = 0, bl_pruned = 0\<rparr>"

text \<open>C14. Whatever arrives, is read or is pruned, the bell counts every stored occurrence once: the
  counts of the rows and of the pruned rows add up to the occurrences received. Row ids are
  distinct, and a row shows its newest occurrences, newest first, as many as the ring holds, the
  first being its last occurrence.\<close>

theorem bell_counts_every_occurrence:
  assumes "bell_machine.admissible es (new_bell window limit t0)"
    and "b = fold bell_step es (new_bell window limit t0)"
  shows "row_counts (ia_rows (bl_inapp b)) + bl_pruned b = bl_received b
    \<and> distinct (map nt_ID (ia_rows (bl_inapp b)))
    \<and> list_all (row_ok (ia_CoalesceLimit (bl_inapp b)) (bl_now b)) (ia_rows (bl_inapp b))"
proof -
  have "bell_inv (new_bell window limit t0)" by (simp add: bell_inv_def new_bell_def NewCoalescer_def row_counts_def)
  then have "bell_inv b" unfolding assms(2) by (rule bell_machine.fold_inv [OF _ assms(1)])
  then show ?thesis by (simp add: bell_inv_def)
qed

definition bell_page :: Event where
  "bell_page = failed_event ReasonFailed"

definition rung :: bell where
  "rung = fold bell_step [BellReceive True True ''1'' [] [] bell_page, BellWait second, BellReceive True True ''2'' [] [] bell_page]
     (new_bell hour 10 0)"

theorem bell_counts_every_occurrence_witness:
  "row_counts (ia_rows (bl_inapp rung)) + bl_pruned rung = 2 \<and> length (ia_rows (bl_inapp rung)) = 1"
proof -
  define fp where "fp = hex_string (unat (hashFingerprint (FingerprintKey bell_page)))"
  have row: "nt_Fingerprint (new_row i t ti bo bell_page) = fp" "nt_LastOccurredAt (new_row i t ti bo bell_page) = t"
      "nt_ID (new_row i t ti bo bell_page) = i" for i t ti bo
    by (simp_all add: new_row_def fp_def)
  have "bell_machine.admissible [BellReceive True True ''1'' [] [] bell_page, BellWait second, BellReceive True True ''2'' [] [] bell_page]
      (new_bell hour 10 0)" "bl_received rung = 2" "length (ia_rows (bl_inapp rung)) = 1"
    by (simp_all add: rung_def new_bell_def NewCoalescer_def Receive_inapp_def UpsertByFingerprint_def
        SelectExistingForFingerprint_def UpdateNotificationCoalesced_def row fold_window_def time_defs Let_def)
  then show ?thesis using bell_counts_every_occurrence [OF _ rung_def] by simp
qed

text \<open>An occurrence folds into an existing row exactly when a row of its fingerprint was last touched
  within the window and, for an event a success closes, not before the task's last success; it then
  lands in the latest such row, which becomes unread, and no other row changes. Otherwise it opens a
  row of its own. A failure after a success is therefore a new entry of the bell.\<close>

lemma bell_folds_exactly:
  assumes "distinct (map nt_ID (ia_rows c))"
    and "\<forall>t. map_of (ia_resetAt c) (ev_TaskName ev) = Some t \<longrightarrow> 0 \<le> now - t \<and> now - t \<le> max_int64"
    and "may_fold = (\<lambda>r. nt_Fingerprint r = nt_Fingerprint (new_row newID now title body ev)
        \<and> now - ia_Window c \<le> nt_LastOccurredAt r
        \<and> (ClosedBySuccess ev \<longrightarrow> (case map_of (ia_resetAt c) (ev_TaskName ev) of
              None \<Rightarrow> True | Some reset \<Rightarrow> reset \<le> nt_LastOccurredAt r)))"
    and "Receive_inapp True countOK newID now title body ev c = (Some u, c')"
  shows "if list_ex may_fold (ia_rows c)
    then up_Type u = UpdateTypeUpdated
      \<and> (\<exists>r\<in>set (ia_rows c). may_fold r \<and> (\<forall>q\<in>set (ia_rows c). may_fold q \<longrightarrow> nt_LastOccurredAt q \<le> nt_LastOccurredAt r)
           \<and> ia_rows c' = map (\<lambda>q. if nt_ID q = nt_ID r
                 then folded_row (new_row newID now title body ev) (ia_CoalesceLimit c) r else q) (ia_rows c)
           \<and> nt_ID (up_Notification u) = nt_ID r)
    else up_Type u = UpdateTypeCreated \<and> ia_rows c' = ia_rows c @ [new_row newID now title body ev]"
proof -
  let ?n = "new_row newID now title body ev" let ?w = "fold_window ev now c"
  have n: "nt_LastOccurredAt ?n = now" "?n\<lparr>nt_ReadAt := None\<rparr> = ?n" by (simp_all add: new_row_def)
  have fold: "nt_Fingerprint r = nt_Fingerprint ?n \<and> now - ?w \<le> nt_LastOccurredAt r \<longleftrightarrow> may_fold r" for r
    using assms(2) unfolding assms(3) fold_window_def
    by (auto simp: time_sub_id time_defs min_def split: option.splits)
  have up: "(up_Type u = (if fst (UpsertByFingerprint ?n ?w (ia_CoalesceLimit c) (ia_rows c)) then UpdateTypeCreated else UpdateTypeUpdated))
      \<and> up_Notification u = fst (snd (UpsertByFingerprint ?n ?w (ia_CoalesceLimit c) (ia_rows c)))
      \<and> ia_rows c' = snd (snd (UpsertByFingerprint ?n ?w (ia_CoalesceLimit c) (ia_rows c)))"
    using assms(4) by (auto simp: Receive_inapp_def split: prod.splits)
  show ?thesis
  proof (rule Upsert_cases [OF assms(1), of ?n ?w "ia_CoalesceLimit c"])
    assume "UpsertByFingerprint ?n ?w (ia_CoalesceLimit c) (ia_rows c) = (True, ?n\<lparr>nt_ReadAt := None\<rparr>, ia_rows c @ [?n\<lparr>nt_ReadAt := None\<rparr>])"
      and "\<forall>r\<in>set (ia_rows c). \<not> (nt_Fingerprint r = nt_Fingerprint ?n \<and> nt_LastOccurredAt ?n - ?w \<le> nt_LastOccurredAt r)"
    then show ?thesis using up fold n by (simp add: list_ex_iff)
  next
    fix r n' assume r: "r \<in> set (ia_rows c)" "nt_Fingerprint r = nt_Fingerprint ?n" "nt_LastOccurredAt ?n - ?w \<le> nt_LastOccurredAt r"
      "\<forall>q\<in>set (ia_rows c). nt_Fingerprint q = nt_Fingerprint ?n \<longrightarrow> nt_LastOccurredAt q \<le> nt_LastOccurredAt r"
      and eq: "UpsertByFingerprint ?n ?w (ia_CoalesceLimit c) (ia_rows c) =
         (False, n', map (\<lambda>q. if nt_ID q = nt_ID r then folded_row ?n (ia_CoalesceLimit c) r else q) (ia_rows c))"
      "nt_ID n' = nt_ID r"
    have "may_fold r" using fold [of r] r(2,3) n by simp
    moreover have "\<forall>q\<in>set (ia_rows c). may_fold q \<longrightarrow> nt_LastOccurredAt q \<le> nt_LastOccurredAt r"
      using r(4) fold by blast
    ultimately show ?thesis using up eq r(1) by (auto simp: list_ex_iff)
  qed
qed

text \<open>The newest update always lands: it is the last in every subscriber's buffer.\<close>

lemma hub_delivers_newest:
  assumes "queue_inv q" "sq_phase q = SendIdle" "q' \<in> set (Publish_hub u [q])"
  shows "last (sq_buf q') = u \<and> sq_buf q' \<noteq> [] \<and> sq_phase q' = SendIdle"
proof -
  have "q' = (SendDropOldest ProducerStep ^^ 3) (SendDropOldest (CallSend u) q)" using assms(3) by (simp add: Publish_hub_def)
  then show ?thesis using assms(1,2)
    by (auto simp: queue_inv_def numeral_3_eq_3 split: list.splits if_splits)
qed

end
