(* ===== verification/Notify_Retry.thy ===== *)
theory Notify_Retry
  imports Prelude
begin

text \<open>
  Retrying an outbound delivery (\<open>notify/retry.go\<close> over \<open>backoff/backoff.go\<close>). Floating-point products and
  the random spread of the jitter are the arguments \<open>grow\<close> and \<open>at_jitter\<close>; what an attempt does, how
  long it takes and how its wait ends are given per attempt. The loop takes fuel, and
  \<open>retry_ends\<close> shows how much is enough.
\<close>

record backoffConfig =
  bc_InitialInterval :: duration
  bc_MaxInterval :: duration
  bc_MaxElapsedTime :: duration

definition DefaultBackoff :: backoffConfig where
  "DefaultBackoff = \<lparr>bc_InitialInterval = second, bc_MaxInterval = minute, bc_MaxElapsedTime = 5 * minute\<rparr>"

definition cmp_Or :: "int \<Rightarrow> int \<Rightarrow> int" where
  "cmp_Or a b = (if a \<noteq> 0 then a else b)"

definition orDefaults :: "backoffConfig \<Rightarrow> backoffConfig" where
  "orDefaults c =
     \<lparr>bc_InitialInterval = cmp_Or (bc_InitialInterval c) (bc_InitialInterval DefaultBackoff),
      bc_MaxInterval = cmp_Or (bc_MaxInterval c) (bc_MaxInterval DefaultBackoff),
      bc_MaxElapsedTime = cmp_Or (bc_MaxElapsedTime c) (bc_MaxElapsedTime DefaultBackoff)\<rparr>"

definition clampRetryAfter :: "duration \<Rightarrow> backoffConfig \<Rightarrow> duration" where
  "clampRetryAfter d cfg =
     (let limit = (if bc_MaxInterval cfg \<le> 0 then bc_MaxElapsedTime cfg else bc_MaxInterval cfg)
      in if limit > 0 \<and> d > limit then limit else d)"

definition IsPermanentHTTPStatus :: "int \<Rightarrow> bool" where
  "IsPermanentHTTPStatus code \<longleftrightarrow> code \<ge> 400 \<and> code < 500 \<and> code \<noteq> 408 \<and> code \<noteq> 429"

text \<open>\<open>Exponential.Next\<close>: the base of the delay and the curve's new position.\<close>

definition Exponential_Next :: "(duration \<Rightarrow> duration) \<Rightarrow> backoffConfig \<Rightarrow> duration \<Rightarrow> duration \<times> duration" where
  "Exponential_Next grow cfg current =
     (let d = (if current = 0 then bc_InitialInterval cfg else current)
      in (d, min (grow d) (bc_MaxInterval cfg)))"

datatype 'e opResult = OpOK | OpPermanent 'e | OpFailed 'e
datatype waitResult = WaitElapsed | WaitCtxDone | WaitStopped
datatype 'e retryEnd = Delivered | GaveUpWith 'e | CtxEnded

text \<open>An attempt: the time it takes, its result, the delays it asked for with \<open>SetNextRetryInterval\<close>,
  whether the context had ended when it returned, the jittered delay for a base, and how the wait
  after it ends.\<close>

record 'e attempt =
  at_took :: duration
  at_result :: "'e opResult"
  at_overrides :: "duration list"
  at_ctxErr :: bool
  at_jitter :: "duration \<Rightarrow> duration"
  at_wait :: waitResult

definition SetNextRetryInterval :: "duration \<Rightarrow> duration \<Rightarrow> duration" where
  "SetNextRetryInterval d override = (if d > 0 then d else override)"

text \<open>The state of the loop: attempt number, time since the start, the curve, the override and the time
  spent waiting.\<close>

fun retry_loop ::
  "nat \<Rightarrow> (duration \<Rightarrow> duration) \<Rightarrow> backoffConfig \<Rightarrow> (nat \<Rightarrow> 'e attempt) \<Rightarrow> nat \<Rightarrow> duration \<Rightarrow> duration \<Rightarrow> duration
     \<Rightarrow> ('e retryEnd \<times> nat \<times> duration) option" where
  "retry_loop 0 grow cfg op i elapsed current override = None"
| "retry_loop (Suc fuel) grow cfg op i elapsed current override =
     (let a = op i;
          override = fold SetNextRetryInterval (at_overrides a) override;
          now = elapsed + at_took a
      in case at_result a of
           OpOK \<Rightarrow> Some (Delivered, i, now)
         | OpPermanent e \<Rightarrow> Some (GaveUpWith e, i, now)
         | OpFailed e \<Rightarrow>
             if at_ctxErr a then Some (CtxEnded, i, now)
             else (case Exponential_Next grow cfg current of
                 (d, current') \<Rightarrow>
                   (case (if override > 0 then (override, 0) else (at_jitter a d, override)) of
                      (delay, override') \<Rightarrow>
                        if wrap64 (now + delay) > bc_MaxElapsedTime cfg then Some (GaveUpWith e, i, now)
                        else (case at_wait a of
                            WaitCtxDone \<Rightarrow> Some (CtxEnded, i, now)
                          | WaitStopped \<Rightarrow> Some (GaveUpWith e, i, now)
                          | WaitElapsed \<Rightarrow> retry_loop fuel grow cfg op (i + 1) (now + delay) current' override'))))"

definition RetryWithBackoff ::
  "nat \<Rightarrow> (duration \<Rightarrow> duration) \<Rightarrow> backoffConfig \<Rightarrow> (nat \<Rightarrow> 'e attempt) \<Rightarrow> ('e retryEnd \<times> nat \<times> duration) option" where
  "RetryWithBackoff fuel grow cfg op = retry_loop fuel grow (orDefaults cfg) op 0 0 0 0"

section \<open>The HTTP transport\<close>

text \<open>\<open>checkHTTPResponse\<close> with \<open>handleRateLimit\<close> (\<open>notify/transport.go\<close>): what an answer means for the loop and
  which delay it asks for. \<open>retryAfter\<close> is the header's delay, \<open>bodyDelay\<close> what the channel reads off
  the body of a 429, if it reads it.\<close>

definition handleRateLimit :: "backoffConfig \<Rightarrow> duration \<Rightarrow> duration option \<Rightarrow> duration" where
  "handleRateLimit cfg retryAfter bodyDelay =
     clampRetryAfter (if retryAfter = 0 then OrDefault bodyDelay retryAfter else retryAfter) cfg"

definition checkHTTPResponse ::
  "backoffConfig \<Rightarrow> int \<Rightarrow> duration \<Rightarrow> duration option \<Rightarrow> string opResult \<times> duration list" where
  "checkHTTPResponse cfg statusCode retryAfter bodyDelay =
     (if statusCode \<ge> 200 \<and> statusCode < 300 then (OpOK, [])
      else if statusCode = 429 then (OpFailed ''rate-limited'', [handleRateLimit cfg retryAfter bodyDelay])
      else if IsPermanentHTTPStatus statusCode then (OpPermanent ''permanent'', [])
      else (OpFailed ''transient'', []))"

section \<open>The loop ends\<close>

text \<open>What the arguments must do: a clock that does not run back, a product that does not shrink a delay
  below two nanoseconds, a jitter that leaves a nanosecond of one, and nothing so large that the sum
  of an attempt and a wait leaves 64 bits.\<close>

definition ages :: duration where [time_defs]: "ages = 2 ^ 60"

definition sane_attempts :: "(duration \<Rightarrow> duration) \<Rightarrow> (nat \<Rightarrow> 'e attempt) \<Rightarrow> bool" where
  "sane_attempts grow op \<longleftrightarrow>
     (\<forall>d. 2 \<le> d \<longrightarrow> 2 \<le> grow d) \<and> (\<forall>i. 0 \<le> at_took (op i)) \<and> (\<forall>i d. 2 \<le> d \<longrightarrow> 1 \<le> at_jitter (op i) d)
     \<and> (\<forall>i. at_took (op i) \<le> ages \<and> list_all (\<lambda>d. d \<le> ages) (at_overrides (op i)))
     \<and> (\<forall>i d. d \<le> ages \<longrightarrow> at_jitter (op i) d \<le> 2 * ages)"

definition sane_config :: "backoffConfig \<Rightarrow> bool" where
  "sane_config cfg \<longleftrightarrow> 2 \<le> bc_InitialInterval cfg \<and> 2 \<le> bc_MaxInterval cfg \<and> 0 \<le> bc_MaxElapsedTime cfg
     \<and> bc_InitialInterval cfg \<le> ages \<and> bc_MaxInterval cfg \<le> ages \<and> bc_MaxElapsedTime cfg \<le> ages"

lemma overrides_positive: "0 \<le> o' \<Longrightarrow> 0 \<le> fold SetNextRetryInterval ds o'"
  by (induction ds arbitrary: o') (auto simp: SetNextRetryInterval_def)

lemma overrides_bounded:
  "o' \<le> ages \<Longrightarrow> list_all (\<lambda>d. d \<le> ages) ds \<Longrightarrow> fold SetNextRetryInterval ds o' \<le> ages"
  by (induction ds arbitrary: o') (auto simp: SetNextRetryInterval_def)

lemma next_sane:
  assumes "sane_config cfg" "\<forall>d. 2 \<le> d \<longrightarrow> 2 \<le> grow d" "current = 0 \<or> 2 \<le> current" "current \<le> ages"
  shows "2 \<le> fst (Exponential_Next grow cfg current) \<and> 2 \<le> snd (Exponential_Next grow cfg current)
    \<and> fst (Exponential_Next grow cfg current) \<le> ages \<and> snd (Exponential_Next grow cfg current) \<le> ages"
  using assms by (cases "current = 0") (auto simp: Exponential_Next_def sane_config_def Let_def min_def)

lemma retry_loop_ends:
  assumes "sane_attempts grow op" "sane_config cfg"
  shows "0 \<le> elapsed \<Longrightarrow> elapsed \<le> bc_MaxElapsedTime cfg \<Longrightarrow> current = 0 \<or> 2 \<le> current \<Longrightarrow> current \<le> ages \<Longrightarrow>
    0 \<le> o' \<Longrightarrow> o' \<le> ages \<Longrightarrow> int fuel > bc_MaxElapsedTime cfg - elapsed \<Longrightarrow>
    \<exists>r n t. retry_loop fuel grow cfg op i elapsed current o' = Some (r, n, t) \<and> i \<le> n
      \<and> int (n - i) \<le> bc_MaxElapsedTime cfg - elapsed \<and> t - at_took (op n) \<le> bc_MaxElapsedTime cfg"
proof (induction fuel arbitrary: i elapsed current o')
  case (Suc fuel)
  let ?a = "op i" let ?o = "fold SetNextRetryInterval (at_overrides ?a) o'" let ?now = "elapsed + at_took ?a"
  note sane = assms(1) [unfolded sane_attempts_def]
  obtain d c' where next': "Exponential_Next grow cfg current = (d, c')" by fastforce
  have dc: "2 \<le> d" "2 \<le> c'" "d \<le> ages" "c' \<le> ages"
    using next_sane [OF assms(2) _ Suc.prems(3,4), of grow] sane next' by auto
  obtain delay o2 where delay: "(if ?o > 0 then (?o, 0) else (at_jitter ?a d, ?o)) = (delay, o2)" by fastforce
  have "0 \<le> ?o" "?o \<le> ages" using overrides_positive [OF Suc.prems(5)] overrides_bounded [OF Suc.prems(6)] sane by auto
  then have pos: "1 \<le> delay" "delay \<le> 2 * ages" "0 \<le> o2" "o2 \<le> ages"
    using delay sane dc by (auto simp: time_defs split: if_splits)
  have took: "0 \<le> at_took ?a" "at_took ?a \<le> ages" using sane by auto
  have "?now + delay \<le> 4 * ages" using took pos Suc.prems(2) assms(2) by (simp add: sane_config_def)
  then have wrap: "wrap64 (?now + delay) = ?now + delay"
    using took pos Suc.prems(1) by (intro wrap64_id) (auto simp: time_defs)
  consider (ended) r where "retry_loop (Suc fuel) grow cfg op i elapsed current o' = Some (r, i, ?now)"
    | (again) "retry_loop (Suc fuel) grow cfg op i elapsed current o' = retry_loop fuel grow cfg op (i + 1) (?now + delay) c' o2"
        "?now + delay \<le> bc_MaxElapsedTime cfg"
  proof -
    have "retry_loop (Suc fuel) grow cfg op i elapsed current o' =
       (case at_result ?a of
          OpOK \<Rightarrow> Some (Delivered, i, ?now)
        | OpPermanent e \<Rightarrow> Some (GaveUpWith e, i, ?now)
        | OpFailed e \<Rightarrow>
            if at_ctxErr ?a then Some (CtxEnded, i, ?now)
            else if ?now + delay > bc_MaxElapsedTime cfg then Some (GaveUpWith e, i, ?now)
            else (case at_wait ?a of
                WaitCtxDone \<Rightarrow> Some (CtxEnded, i, ?now)
              | WaitStopped \<Rightarrow> Some (GaveUpWith e, i, ?now)
              | WaitElapsed \<Rightarrow> retry_loop fuel grow cfg op (i + 1) (?now + delay) c' o2))"
      unfolding retry_loop.simps Let_def next' delay prod.case wrap by (rule refl)
    then show thesis using ended again
      by (cases "at_result ?a"; cases "at_wait ?a") (auto split: if_splits)
  qed
  then show ?case
  proof cases
    case ended
    then show ?thesis using Suc.prems(2) by auto
  next
    case again
    obtain r n t where IH: "retry_loop fuel grow cfg op (i + 1) (?now + delay) c' o2 = Some (r, n, t)" "i + 1 \<le> n"
        "int (n - (i + 1)) \<le> bc_MaxElapsedTime cfg - (?now + delay)" "t - at_took (op n) \<le> bc_MaxElapsedTime cfg"
      using Suc.IH [of "?now + delay" c' o2 "i + 1"] Suc.prems(1,7) took pos dc again(2) by auto
    then show ?thesis using again(1) took pos by (intro exI [of _ r] exI [of _ n] exI [of _ t]) auto
  qed
qed simp

lemma orDefaults_sane:
  assumes "bc_InitialInterval cfg = 0 \<or> 2 \<le> bc_InitialInterval cfg" "bc_MaxInterval cfg = 0 \<or> 2 \<le> bc_MaxInterval cfg"
    "0 \<le> bc_MaxElapsedTime cfg" "bc_InitialInterval cfg \<le> ages" "bc_MaxInterval cfg \<le> ages" "bc_MaxElapsedTime cfg \<le> ages"
  shows "sane_config (orDefaults cfg)"
  using assms by (auto simp: sane_config_def orDefaults_def cmp_Or_def DefaultBackoff_def time_defs)

text \<open>A delivery is not retried for ever: whatever the endpoint answers and however long it asks to
  wait, the loop returns within as many attempts as the retry budget has nanoseconds, and the last
  attempt starts within the budget. A zero knob means its default, never no limit.\<close>

lemma retry_ends:
  assumes "sane_attempts grow op"
    and "bc_InitialInterval cfg = 0 \<or> 2 \<le> bc_InitialInterval cfg" "bc_MaxInterval cfg = 0 \<or> 2 \<le> bc_MaxInterval cfg"
    and "0 \<le> bc_MaxElapsedTime cfg" "bc_InitialInterval cfg \<le> ages" "bc_MaxInterval cfg \<le> ages" "bc_MaxElapsedTime cfg \<le> ages"
    and "int fuel > bc_MaxElapsedTime (orDefaults cfg)"
  shows "\<exists>r n t. RetryWithBackoff fuel grow cfg op = Some (r, n, t)
    \<and> int n \<le> bc_MaxElapsedTime (orDefaults cfg) \<and> t - at_took (op n) \<le> bc_MaxElapsedTime (orDefaults cfg)
    \<and> 0 < bc_MaxElapsedTime (orDefaults cfg)"
proof -
  have sane: "sane_config (orDefaults cfg)" using orDefaults_sane assms(2-7) by blast
  have "0 < bc_MaxElapsedTime (orDefaults cfg)"
    using assms(4) by (auto simp: orDefaults_def cmp_Or_def DefaultBackoff_def time_defs)
  then show ?thesis using retry_loop_ends [OF assms(1) sane, of 0 0 0 fuel 0] assms(8)
    by (auto simp: RetryWithBackoff_def time_defs)
qed

definition dead_endpoint :: "nat \<Rightarrow> string attempt" where
  "dead_endpoint i = \<lparr>at_took = 0, at_result = OpFailed ''refused'', at_overrides = [], at_ctxErr = False,
     at_jitter = (\<lambda>d. d), at_wait = WaitElapsed\<rparr>"

text \<open>A remote's Retry-After is honoured no longer than the local curve would wait.\<close>

lemma clamp_bounded:
  "0 < bc_MaxInterval cfg \<Longrightarrow> clampRetryAfter d cfg \<le> max (bc_MaxInterval cfg) 0 \<and> (0 < d \<longrightarrow> 0 < clampRetryAfter d cfg)"
  by (auto simp: clampRetryAfter_def Let_def)

end
