(* ===== verification/Retention.thy ===== *)
theory Retention
  imports Task_Model
begin

text \<open>
  What the daemon deletes: the retention of old runs and the cap on the log directory
  (\<open>runtime/retention.go\<close>), the purge of soft-deleted runs (\<open>runtime/softdelete_purger.go\<close>), and the
  queries under them (\<open>storage/database.go\<close>, \<open>storage/query/runs_retention.sql\<close>). A log file is keyed
  by its run's id, which its path ends in, and by which of the run's three files it is. Every
  removal of a file, deletion of rows and announcement is an atomic step and is recorded in a
  trace, so that what a crash leaves behind is the state after a prefix of it. Which database calls
  and which removals of files fail is an argument; a call that fails does so throughout a pass. A
  file whose removal fails stays, while its row goes: \<open>logutil.RemoveLogFiles\<close> only logs a warning.
\<close>

section \<open>Rows and log files\<close>

record runRow =
  rr_run :: Run
  rr_deletedAt :: "instant option"

abbreviation rr_ID :: "runRow \<Rightarrow> string" where "rr_ID r \<equiv> ID (rr_run r)"

datatype logPart = LogFile | MetaFile | PrevFile

type_synonym logPath = "string \<times> logPart"

datatype retStep = RemoveFile string logPart | DeleteRuns "string list" | PublishDeleted string string

record retention =
  rt_rows :: "runRow list"
  rt_logs :: "(logPath \<times> int) list"
  rt_other :: int
  rt_published :: "(string \<times> string) list"
  rt_trace :: "retStep list"

definition dirSize :: "retention \<Rightarrow> int" where
  "dirSize s = rt_other s + sum_list (map snd (rt_logs s))"

text \<open>\<open>os.Stat\<close> of one file, and of the three of a run.\<close>

definition file_size :: "retention \<Rightarrow> logPath \<Rightarrow> int" where
  "file_size s p = OrDefault (map_of (rt_logs s) p) 0"

definition log_size :: "retention \<Rightarrow> runRow \<Rightarrow> int" where
  "log_size s r = file_size s (rr_ID r, LogFile) + file_size s (rr_ID r, MetaFile) + file_size s (rr_ID r, PrevFile)"

fun ret_step :: "retStep \<Rightarrow> retention \<Rightarrow> retention" where
  "ret_step (RemoveFile i p) s = s\<lparr>rt_logs := AList.delete (i, p) (rt_logs s)\<rparr>"
| "ret_step (DeleteRuns ids) s = s\<lparr>rt_rows := filter (\<lambda>r. rr_ID r \<notin> set ids) (rt_rows s)\<rparr>"
| "ret_step (PublishDeleted i task) s = s\<lparr>rt_published := rt_published s @ [(i, task)]\<rparr>"

definition do_step :: "retStep \<Rightarrow> retention \<Rightarrow> retention" where
  "do_step x s = (ret_step x s)\<lparr>rt_trace := rt_trace s @ [x]\<rparr>"

section \<open>The queries\<close>

definition ended_of :: "string \<Rightarrow> runRow \<Rightarrow> bool" where
  "ended_of task r \<longleftrightarrow> TaskName (rr_run r) = task \<and> Status (rr_run r) = PhaseEnded \<and> rr_deletedAt r = None"

definition by_created :: "runRow list \<Rightarrow> runRow list" where
  "by_created = sort_key (\<lambda>r. CreatedAt (rr_run r))"

definition retentionBatchSize :: nat where "retentionBatchSize = 1000"

definition SelectOldRunsByAge :: "string \<Rightarrow> instant \<Rightarrow> nat \<Rightarrow> runRow list \<Rightarrow> runRow list" where
  "SelectOldRunsByAge task cutoff limit rows =
     take limit (by_created (filter (\<lambda>r. ended_of task r \<and> CreatedAt (rr_run r) < cutoff) rows))"

definition SelectOldRunsByCount :: "string \<Rightarrow> nat \<Rightarrow> nat \<Rightarrow> runRow list \<Rightarrow> runRow list" where
  "SelectOldRunsByCount task limit offset rows =
     take limit (drop offset (rev (by_created (filter (ended_of task) rows))))"

text \<open>\<open>collectRunsByID\<close>: a map from ids to rows.\<close>

definition collectRunsByID :: "runRow list \<Rightarrow> runRow list \<Rightarrow> runRow list" where
  "collectRunsByID new acc = acc @ filter (\<lambda>r. rr_ID r \<notin> set (map rr_ID acc)) new"

definition SelectOldRuns :: "instant \<Rightarrow> Task \<Rightarrow> runRow list \<Rightarrow> runRow list" where
  "SelectOldRuns now task rows =
     (let byAge = (if KeepFor task > 0
            then collectRunsByID (SelectOldRunsByAge (Name task) (now - KeepFor task) retentionBatchSize rows) []
            else [])
      in case KeepRuns task of
           None \<Rightarrow> byAge
         | Some k \<Rightarrow>
             if length byAge < retentionBatchSize
             then collectRunsByID
               (SelectOldRunsByCount (Name task) (retentionBatchSize - length byAge) (nat k) rows) byAge
             else byAge)"

definition SelectExpiredSoftDeletes :: "instant \<Rightarrow> duration \<Rightarrow> runRow list \<Rightarrow> runRow list" where
  "SelectExpiredSoftDeletes now ttl rows =
     filter (\<lambda>r. case rr_deletedAt r of None \<Rightarrow> False | Some t \<Rightarrow> t \<le> now - ttl) rows"

definition QueryRuns :: "nat \<Rightarrow> nat \<Rightarrow> runRow list \<Rightarrow> runRow list" where
  "QueryRuns limit offset rows = take limit (drop offset (by_created (filter (\<lambda>r. rr_deletedAt r = None) rows)))"

section \<open>Retention by age and count\<close>

text \<open>Which queries and which removals of files fail.\<close>

record dbFaults =
  df_select :: "string \<Rightarrow> bool"
  df_deleteAll :: bool
  df_delete :: "string \<Rightarrow> bool"
  df_query :: bool
  df_remove :: "string \<Rightarrow> logPart \<Rightarrow> bool"

text \<open>\<open>RemoveLogFiles\<close>: the log, its container and the rotated-away segment, in this order; a failed
  removal is warned of and passed over.\<close>

definition RemoveLogFile :: "dbFaults \<Rightarrow> string \<Rightarrow> logPart \<Rightarrow> retention \<Rightarrow> retention" where
  "RemoveLogFile fl i p s = (if df_remove fl i p then s else do_step (RemoveFile i p) s)"

definition RemoveRunLogs :: "dbFaults \<Rightarrow> string \<Rightarrow> retention \<Rightarrow> retention" where
  "RemoveRunLogs fl i s = fold (RemoveLogFile fl i) [LogFile, MetaFile, PrevFile] s"

definition deleteAndPublish :: "dbFaults \<Rightarrow> runRow list \<Rightarrow> retention \<Rightarrow> retention" where
  "deleteAndPublish fl runs s =
     (if df_deleteAll fl then s
      else fold (\<lambda>r. do_step (PublishDeleted (rr_ID r) (TaskName (rr_run r)))) runs
             (do_step (DeleteRuns (map rr_ID runs)) s))"

definition old_runs_of :: "dbFaults \<Rightarrow> instant \<Rightarrow> Task \<Rightarrow> runRow list \<Rightarrow> runRow list" where
  "old_runs_of fl now task rows =
     (if KeepFor task \<le> 0 \<and> KeepRuns task = None then []
      else if df_select fl (Name task) then []
      else SelectOldRuns now task rows)"

text \<open>The pass over the registry, without the size cap.\<close>

definition clean_by_policy :: "dbFaults \<Rightarrow> instant \<Rightarrow> Task list \<Rightarrow> retention \<Rightarrow> retention" where
  "clean_by_policy fl now ts s =
     (let old = concat (map (\<lambda>t. old_runs_of fl now t (rt_rows s)) ts);
          s1 = fold (\<lambda>r. RemoveRunLogs fl (rr_ID r)) old s
      in if old = [] then s1 else deleteAndPublish fl old s1)"

section \<open>The size cap\<close>

fun deleteRunBatch :: "dbFaults \<Rightarrow> int \<Rightarrow> runRow list \<Rightarrow> int \<Rightarrow> nat \<Rightarrow> retention \<Rightarrow> nat \<times> int \<times> retention" where
  "deleteRunBatch fl limit [] totalSize deleted s = (deleted, totalSize, s)"
| "deleteRunBatch fl limit (run # runs) totalSize deleted s =
     (if \<not> IsTerminal (Status (rr_run run)) then deleteRunBatch fl limit runs totalSize deleted s
      else
        let totalSize = totalSize - log_size s run;
            s1 = RemoveRunLogs fl (rr_ID run) s
        in if df_delete fl (rr_ID run) then deleteRunBatch fl limit runs totalSize deleted s1
           else
             let s2 = do_step (PublishDeleted (rr_ID run) (TaskName (rr_run run))) (do_step (DeleteRuns [rr_ID run]) s1)
             in if totalSize \<le> limit then (deleted + 1, totalSize, s2)
                else deleteRunBatch fl limit runs totalSize (deleted + 1) s2)"

definition visible :: "runRow list \<Rightarrow> runRow list" where
  "visible rows = filter (\<lambda>r. rr_deletedAt r = None) rows"

lemma batch_visible:
  assumes "deleteRunBatch fl limit runs tot d s = (d', tot', s')"
  shows "length (visible (rt_rows s')) \<le> length (visible (rt_rows s))
    \<and> (d < d' \<and> set runs \<subseteq> set (visible (rt_rows s))
         \<longrightarrow> length (visible (rt_rows s')) < length (visible (rt_rows s))) \<and> d \<le> d'"
  using assms
proof (induction fl limit runs tot d s arbitrary: d' tot' s' rule: deleteRunBatch.induct)
  case (2 fl limit run runs tot d s)
  let ?t = "tot - log_size s run"
  let ?s1 = "RemoveRunLogs fl (rr_ID run) s"
  let ?s2 = "do_step (PublishDeleted (rr_ID run) (TaskName (rr_run run))) (do_step (DeleteRuns [rr_ID run]) ?s1)"
  have s1: "rt_rows ?s1 = rt_rows s" by (simp add: do_step_def RemoveRunLogs_def RemoveLogFile_def)
  have vis2: "visible (rt_rows ?s2) = filter (\<lambda>r. rr_ID r \<noteq> rr_ID run) (visible (rt_rows s))"
    by (simp add: do_step_def RemoveRunLogs_def RemoveLogFile_def visible_def conj_commute)
  have le2: "length (visible (rt_rows ?s2)) \<le> length (visible (rt_rows s))" unfolding vis2 by simp
  have lt2: "run \<in> set (visible (rt_rows s)) \<Longrightarrow> length (visible (rt_rows ?s2)) < length (visible (rt_rows s))"
    unfolding vis2 by (rule length_filter_less) simp_all
  consider "\<not> IsTerminal (Status (rr_run run))" | "IsTerminal (Status (rr_run run))" "df_delete fl (rr_ID run)"
    | "IsTerminal (Status (rr_run run))" "\<not> df_delete fl (rr_ID run)" "?t \<le> limit"
    | "IsTerminal (Status (rr_run run))" "\<not> df_delete fl (rr_ID run)" "\<not> ?t \<le> limit" by blast
  then show ?case
  proof cases
    case 1
    then show ?thesis using 2(1) [OF 1, of d' tot' s'] 2(4) by auto
  next
    case c2: 2
    then show ?thesis using 2(2) [OF _ refl refl c2(2), of d' tot' s'] 2(4) s1 by (auto simp: Let_def)
  next
    case 3
    then show ?thesis using 2(4) le2 lt2 by (auto simp: Let_def)
  next
    case 4
    then have "deleteRunBatch fl limit runs ?t (d + 1) ?s2 = (d', tot', s')" using 2(4) by (simp add: Let_def)
    then have "length (visible (rt_rows s')) \<le> length (visible (rt_rows ?s2)) \<and> d + 1 \<le> d'"
      using 2(3) [OF _ refl refl 4(2) refl 4(3), of d' tot' s'] 4(1) by auto
    then show ?thesis using le2 lt2 by auto
  qed
qed simp

text \<open>\<open>QueryRuns\<close> at an offset, delete, and, if nothing could be deleted, look further.\<close>

function enforce_loop :: "dbFaults \<Rightarrow> int \<Rightarrow> nat \<Rightarrow> int \<Rightarrow> nat \<Rightarrow> retention \<Rightarrow> nat \<times> int \<times> retention" where
  "enforce_loop fl limit offset totalSize deleted s =
     (if \<not> totalSize > limit then (deleted, totalSize, s)
      else
        let runs = QueryRuns 100 offset (rt_rows s) in
        if df_query fl \<or> runs = [] then (deleted, totalSize, s)
        else case deleteRunBatch fl limit runs totalSize 0 s of
          (n, totalSize', s') \<Rightarrow>
            enforce_loop fl limit (if n = 0 then offset + length runs else offset) totalSize' (deleted + n) s')"
  by pat_completeness auto

lemma query_visible: "set (QueryRuns limit offset rows) \<subseteq> set (visible rows)"
  by (auto simp: QueryRuns_def visible_def by_created_def dest!: in_set_takeD in_set_dropD)

lemma query_length: "QueryRuns limit offset rows \<noteq> [] \<Longrightarrow> offset < length (visible rows)"
  by (cases "offset < length (visible rows)") (auto simp: QueryRuns_def visible_def by_created_def)

termination enforce_loop
proof (relation "measure (\<lambda>(fl, limit, offset, t, d, s). length (visible (rt_rows s)) - offset)", goal_cases)
  case (2 fl limit offset t d s runs n q t' s')
  then have b: "deleteRunBatch fl limit runs t 0 s = (n, t', s')" by simp
  have runs: "runs \<noteq> []" "set runs \<subseteq> set (visible (rt_rows s))"
    using 2 query_visible by auto
  have off: "offset < length (visible (rt_rows s))" using 2 query_length by auto
  obtain k where k: "length runs = Suc k" using runs(1) by (cases runs) auto
  from batch_visible [OF b] runs off show ?case by (auto simp: k)
qed simp

declare enforce_loop.simps [simp del]

definition enforceMaxTotalSize :: "dbFaults \<Rightarrow> int \<Rightarrow> retention \<Rightarrow> nat \<times> retention" where
  "enforceMaxTotalSize fl limit s =
     (if limit \<le> 0 then (0, s)
      else if dirSize s \<le> limit then (0, s)
      else case enforce_loop fl limit 0 (dirSize s) 0 s of (deleted, _, s') \<Rightarrow> (deleted, s'))"

definition cleanOldRuns :: "dbFaults \<Rightarrow> instant \<Rightarrow> int \<Rightarrow> Task list \<Rightarrow> retention \<Rightarrow> retention" where
  "cleanOldRuns fl now limit ts s = snd (enforceMaxTotalSize fl limit (clean_by_policy fl now ts s))"

section \<open>The purge of soft-deleted runs\<close>

definition SoftDeleteTTL :: duration where [time_defs]: "SoftDeleteTTL = 7 * second"

definition purge :: "dbFaults \<Rightarrow> instant \<Rightarrow> duration \<Rightarrow> retention \<Rightarrow> retention" where
  "purge fl now ttl s =
     (if df_query fl then s
      else
        let refs = SelectExpiredSoftDeletes now ttl (rt_rows s);
            s1 = fold (\<lambda>r. RemoveRunLogs fl (rr_ID r)) refs s
        in if refs = [] then s
           else if df_deleteAll fl then s1
           else do_step (DeleteRuns (map rr_ID refs)) s1)"

section \<open>What is deleted, step by step\<close>

text \<open>
  A crash must never leave a log without its row, because nothing would reclaim it, and a deletion
  is announced only for a row that is gone. The set \<open>F\<close> holds the files that could not be removed.
\<close>

definition log_paths :: "retention \<Rightarrow> logPath set" where
  "log_paths s = fst ` set (rt_logs s)"

definition no_orphans :: "logPath set \<Rightarrow> retention \<Rightarrow> bool" where
  "no_orphans F s \<longleftrightarrow> (\<forall>p\<in>log_paths s - F. fst p \<in> rr_ID ` set (rt_rows s))"

definition deletes_soundly :: "logPath set \<Rightarrow> retention \<Rightarrow> bool" where
  "deletes_soundly F s \<longleftrightarrow> no_orphans F s \<and> fst ` set (rt_published s) \<inter> rr_ID ` set (rt_rows s) = {}"

fun step_ids :: "retStep \<Rightarrow> string set" where
  "step_ids (RemoveFile i p) = {i}"
| "step_ids (DeleteRuns ids) = set ids"
| "step_ids (PublishDeleted i task) = {i}"

text \<open>A row is deleted once its log files are gone that can be removed, and announced once it is
  deleted.\<close>

fun step_ok :: "logPath set \<Rightarrow> retStep \<Rightarrow> retention \<Rightarrow> bool" where
  "step_ok F (RemoveFile i p) s = True"
| "step_ok F (DeleteRuns ids) s = (\<forall>p\<in>log_paths s - F. fst p \<notin> set ids)"
| "step_ok F (PublishDeleted i task) s = (i \<notin> rr_ID ` set (rt_rows s))"

lemma log_keys_delete: "fst ` set (AList.delete k xs) = fst ` set xs - {k}"
  by (induction xs) auto

lemma do_step_simps [simp]:
  "rt_rows (do_step (RemoveFile i p) s) = rt_rows s"
  "rt_rows (do_step (PublishDeleted i task) s) = rt_rows s"
  "rt_rows (do_step (DeleteRuns ids) s) = filter (\<lambda>r. rr_ID r \<notin> set ids) (rt_rows s)"
  "rt_logs (do_step (RemoveFile i p) s) = AList.delete (i, p) (rt_logs s)"
  "rt_logs (do_step (PublishDeleted i task) s) = rt_logs s"
  "rt_logs (do_step (DeleteRuns ids) s) = rt_logs s"
  "rt_published (do_step (RemoveFile i p) s) = rt_published s"
  "rt_published (do_step (PublishDeleted i task) s) = rt_published s @ [(i, task)]"
  "rt_published (do_step (DeleteRuns ids) s) = rt_published s"
  "rt_other (do_step x s) = rt_other s"
  "rt_trace (do_step x s) = rt_trace s @ [x]"
  by (simp_all add: do_step_def, cases x, simp_all)

lemma log_paths_step [simp]:
  "log_paths (do_step (RemoveFile i p) s) = log_paths s - {(i, p)}"
  "log_paths (do_step (PublishDeleted i task) s) = log_paths s"
  "log_paths (do_step (DeleteRuns ids) s) = log_paths s"
  by (simp_all add: log_paths_def log_keys_delete)

interpretation retention_steps: step_machine do_step "step_ok F" "deletes_soundly F" for F
proof
  fix s x assume s: "deletes_soundly F s" "step_ok F x s"
  show "deletes_soundly F (do_step x s)"
  proof (cases x)
    case (DeleteRuns ids)
    have "rr_ID ` set (rt_rows (do_step x s)) = rr_ID ` set (rt_rows s) - set ids" by (auto simp: DeleteRuns)
    with s show ?thesis unfolding deletes_soundly_def no_orphans_def DeleteRuns by auto
  qed (use s in \<open>auto simp: deletes_soundly_def no_orphans_def\<close>)
qed

text \<open>A path of such steps that touch only the ids of \<open>I\<close>.\<close>

inductive deletes :: "logPath set \<Rightarrow> string set \<Rightarrow> retention \<Rightarrow> retStep list \<Rightarrow> retention \<Rightarrow> bool" for F I where
  deletes_nil: "deletes F I s [] s"
| deletes_step: "step_ok F x s \<Longrightarrow> step_ids x \<subseteq> I \<Longrightarrow> deletes F I (do_step x s) xs s' \<Longrightarrow> deletes F I s (x # xs) s'"

lemma deletes_append: "deletes F I s xs s' \<Longrightarrow> deletes F I s' ys s'' \<Longrightarrow> deletes F I s (xs @ ys) s''"
  by (induction rule: deletes.induct) (auto intro: deletes.intros)

lemma deletes_fold: "deletes F I s xs s' \<Longrightarrow> s' = fold do_step xs s \<and> retention_steps.admissible F xs s
    \<and> (\<forall>x\<in>set xs. step_ids x \<subseteq> I)"
  by (induction rule: deletes.induct) auto

lemma admissible_take: "retention_steps.admissible F xs s \<Longrightarrow> retention_steps.admissible F (take n xs) s"
  by (induction xs arbitrary: s n) (auto simp: take_Cons split: nat.split)

lemma deletes_one: "step_ok F x s \<Longrightarrow> step_ids x \<subseteq> I \<Longrightarrow> deletes F I s [x] (do_step x s)"
  by (blast intro: deletes.intros)

lemma map_of_delete_other: "i \<noteq> j \<Longrightarrow> map_of (AList.delete i xs) j = map_of xs j"
  by (simp add: AList.delete_conv')

lemma untouched_step:
  assumes "step_ids x \<subseteq> I" "rr_ID r \<notin> I"
  shows "(r \<in> set (rt_rows (do_step x s))) = (r \<in> set (rt_rows s))
    \<and> map_of (rt_logs (do_step x s)) (rr_ID r, p) = map_of (rt_logs s) (rr_ID r, p)"
proof (cases x)
  case (RemoveFile i q)
  with assms have "i \<noteq> rr_ID r" by auto
  then show ?thesis by (simp add: RemoveFile map_of_delete_other)
qed (use assms in auto)

lemma untouched_fold:
  assumes "\<forall>x\<in>set xs. step_ids x \<subseteq> I" "rr_ID r \<notin> I"
  shows "(r \<in> set (rt_rows (fold do_step xs s))) = (r \<in> set (rt_rows s))
    \<and> map_of (rt_logs (fold do_step xs s)) (rr_ID r, p) = map_of (rt_logs s) (rr_ID r, p)"
  using assms by (induction xs arbitrary: s) (simp_all add: untouched_step [where I = I])

text \<open>The files whose removal fails, and what the removal of a run's files leaves.\<close>

definition failing :: "dbFaults \<Rightarrow> logPath set" where
  "failing fl = {(i, p). df_remove fl i p}"

lemma file_removed:
  "i \<in> I \<Longrightarrow> \<exists>xs. deletes F I s xs (RemoveLogFile fl i p s)"
  using deletes_nil deletes_one [of F "RemoveFile i p" s I] by (auto simp: RemoveLogFile_def)

lemma file_removed_state:
  "rt_rows (RemoveLogFile fl i p s) = rt_rows s"
  "log_paths (RemoveLogFile fl i p s) = log_paths s - ({(i, p)} - failing fl)"
  unfolding RemoveLogFile_def failing_def by auto

lemma part_cases: "p = LogFile \<or> p = MetaFile \<or> p = PrevFile"
  by (cases p) auto

lemma run_logs_removed:
  "i \<in> I \<Longrightarrow> \<exists>xs. deletes F I s xs (RemoveRunLogs fl i s)"
  "rt_rows (RemoveRunLogs fl i s) = rt_rows s"
  "log_paths (RemoveRunLogs fl i s) = {p \<in> log_paths s. fst p = i \<longrightarrow> p \<in> failing fl}"
proof -
  show "\<exists>xs. deletes F I s xs (RemoveRunLogs fl i s)" if "i \<in> I"
    using file_removed [OF that, of F _ fl] deletes_append unfolding RemoveRunLogs_def by (simp, meson)
  show "log_paths (RemoveRunLogs fl i s) = {p \<in> log_paths s. fst p = i \<longrightarrow> p \<in> failing fl}"
    using part_cases by (fastforce simp: RemoveRunLogs_def file_removed_state)
qed (simp add: RemoveRunLogs_def file_removed_state)

lemma logs_removed:
  "set (map rr_ID rs) \<subseteq> I \<Longrightarrow>
    (\<exists>xs. deletes F I s xs (fold (\<lambda>r. RemoveRunLogs fl (rr_ID r)) rs s))
      \<and> log_paths (fold (\<lambda>r. RemoveRunLogs fl (rr_ID r)) rs s)
          = {p \<in> log_paths s. fst p \<in> rr_ID ` set rs \<longrightarrow> p \<in> failing fl}"
proof (induction rs arbitrary: s)
  case Nil
  then show ?case by (auto intro: deletes_nil)
next
  case (Cons r rs)
  let ?s = "RemoveRunLogs fl (rr_ID r) s"
  obtain xs where xs: "deletes F I s xs ?s" using run_logs_removed(1) [of "rr_ID r" I F s fl] Cons.prems by auto
  from Cons.IH [of ?s] Cons.prems obtain ys where
    ys: "deletes F I ?s ys (fold (\<lambda>r. RemoveRunLogs fl (rr_ID r)) rs ?s)"
      and rest: "log_paths (fold (\<lambda>r. RemoveRunLogs fl (rr_ID r)) rs ?s)
        = {p \<in> log_paths ?s. fst p \<in> rr_ID ` set rs \<longrightarrow> p \<in> failing fl}" by auto
  from deletes_append [OF xs ys] rest show ?case by (auto simp: run_logs_removed(3))
qed

lemma rows_deleted:
  assumes "set ids \<subseteq> I" "\<forall>p\<in>log_paths s - F. fst p \<notin> set ids"
  shows "deletes F I s [DeleteRuns ids] (do_step (DeleteRuns ids) s)"
  using assms by (intro deletes_one) simp_all

lemma deletions_published:
  "rr_ID ` set rs \<subseteq> I \<Longrightarrow> rr_ID ` set rs \<inter> rr_ID ` set (rt_rows s) = {} \<Longrightarrow>
    \<exists>xs. deletes F I s xs (fold (\<lambda>r. do_step (PublishDeleted (rr_ID r) (TaskName (rr_run r)))) rs s)"
proof (induction rs arbitrary: s)
  case Nil
  then show ?case by (auto intro: deletes_nil)
next
  case (Cons r rs)
  let ?x = "PublishDeleted (rr_ID r) (TaskName (rr_run r))"
  from Cons.IH [of "do_step ?x s"] Cons.prems obtain xs where
    "deletes F I (do_step ?x s) xs (fold (\<lambda>r. do_step (PublishDeleted (rr_ID r) (TaskName (rr_run r)))) rs (do_step ?x s))"
    by auto
  then have "deletes F I s (?x # xs) (fold (\<lambda>r. do_step (PublishDeleted (rr_ID r) (TaskName (rr_run r)))) (r # rs) s)"
    using Cons.prems by (intro deletes_step) auto
  then show ?case by blast
qed

text \<open>The pass by policy.\<close>

definition expendable :: "retention \<Rightarrow> string set" where
  "expendable s = rr_ID ` {r \<in> set (rt_rows s). IsTerminal (Status (rr_run r)) \<and> rr_deletedAt r = None}"

lemma take_drop_subset: "set (take n (drop m xs)) \<subseteq> set xs"
  by (auto dest!: in_set_takeD in_set_dropD)

lemma collect_subset: "set (collectRunsByID new acc) \<subseteq> set acc \<union> set new"
  by (auto simp: collectRunsByID_def)

lemma by_age_ended: "set (SelectOldRunsByAge t c l rows) \<subseteq> {r \<in> set rows. ended_of t r}"
  by (auto simp: SelectOldRunsByAge_def by_created_def dest!: in_set_takeD)

lemma by_count_ended: "set (SelectOldRunsByCount t l k rows) \<subseteq> {r \<in> set rows. ended_of t r}"
  by (auto simp: SelectOldRunsByCount_def by_created_def dest!: in_set_takeD in_set_dropD)

lemma select_ended: "set (SelectOldRuns now t rows) \<subseteq> {r \<in> set rows. ended_of (Name t) r}"
proof -
  define E where "E = {r \<in> set rows. ended_of (Name t) r}"
  define A where "A = (if KeepFor t > 0
     then collectRunsByID (SelectOldRunsByAge (Name t) (now - KeepFor t) retentionBatchSize rows) [] else [])"
  have A: "set A \<subseteq> E"
    unfolding A_def E_def using by_age_ended by (force simp: collectRunsByID_def)
  have "set (collectRunsByID (SelectOldRunsByCount (Name t) l k rows) A) \<subseteq> E" for l k
    using collect_subset by_count_ended A unfolding E_def by (blast dest: subsetD)
  with A show ?thesis
    unfolding E_def [symmetric] SelectOldRuns_def A_def [symmetric] Let_def by (auto split: option.split)
qed

lemma old_runs_ended: "set (old_runs_of fl now t rows) \<subseteq> {r \<in> set rows. ended_of (Name t) r}"
  using select_ended by (auto simp: old_runs_of_def)

lemma remove_then_delete:
  fixes s :: retention
  assumes I: "rr_ID ` set old \<subseteq> I" and F: "failing fl \<subseteq> F"
  defines "s1 \<equiv> fold (\<lambda>r. RemoveRunLogs fl (rr_ID r)) old s"
  shows "\<exists>xs. deletes F I s xs (do_step (DeleteRuns (map rr_ID old)) s1)"
    and "\<exists>xs. deletes F I s xs (deleteAndPublish fl old s1)"
    and "\<exists>xs. deletes F I s xs s1"
proof -
  obtain xs where xs: "deletes F I s xs s1"
    and s1: "log_paths s1 = {p \<in> log_paths s. fst p \<in> rr_ID ` set old \<longrightarrow> p \<in> failing fl}"
    using logs_removed [where rs = old and I = I and F = F and fl = fl and s = s] I unfolding s1_def by auto
  let ?s2 = "do_step (DeleteRuns (map rr_ID old)) s1"
  from s1 I F have d: "deletes F I s1 [DeleteRuns (map rr_ID old)] ?s2" by (intro rows_deleted) auto
  from deletes_append [OF xs d] show two: "\<exists>xs. deletes F I s xs ?s2" by blast
  obtain ys where "deletes F I ?s2 ys (fold (\<lambda>r. do_step (PublishDeleted (rr_ID r) (TaskName (rr_run r)))) old ?s2)"
    using deletions_published [OF I, of ?s2] by (fastforce simp: image_iff)
  with two xs show "\<exists>xs. deletes F I s xs (deleteAndPublish fl old s1)"
    by (auto simp: deleteAndPublish_def intro: deletes_append)
  show "\<exists>xs. deletes F I s xs s1" using xs by blast
qed

lemma clean_deletes:
  assumes "failing fl \<subseteq> F"
  shows "\<exists>xs. deletes F (expendable s) s xs (clean_by_policy fl now ts s)"
proof -
  let ?old = "concat (map (\<lambda>t. old_runs_of fl now t (rt_rows s)) ts)"
  have "rr_ID ` set ?old \<subseteq> expendable s"
    using old_runs_ended by (fastforce simp: expendable_def ended_of_def IsTerminal_def)
  from remove_then_delete(2,3) [OF this assms, of s] show ?thesis
    unfolding clean_by_policy_def Let_def by simp
qed

lemma run_deleted:
  fixes s :: retention
  assumes "failing fl \<subseteq> F" "rr_ID run \<in> I"
  defines "s1 \<equiv> RemoveRunLogs fl (rr_ID run) s"
  shows "\<exists>xs. deletes F I s xs
    (do_step (PublishDeleted (rr_ID run) (TaskName (rr_run run))) (do_step (DeleteRuns [rr_ID run]) s1))"
proof -
  obtain xs where xs: "deletes F I s xs s1" using run_logs_removed(1) assms(2) unfolding s1_def by blast
  have "deletes F I s1 [DeleteRuns [rr_ID run], PublishDeleted (rr_ID run) (TaskName (rr_run run))]
    (do_step (PublishDeleted (rr_ID run) (TaskName (rr_run run))) (do_step (DeleteRuns [rr_ID run]) s1))"
    using assms by (intro deletes_step deletes_nil) (auto simp: run_logs_removed(3))
  from deletes_append [OF xs this] show ?thesis by blast
qed

lemma batch_deletes:
  assumes "deleteRunBatch fl limit runs tot d s = (d', tot', s')"
    and "rr_ID ` {r \<in> set runs. IsTerminal (Status (rr_run r))} \<subseteq> I" and F: "failing fl \<subseteq> F"
  shows "\<exists>xs. deletes F I s xs s'"
  using assms(1,2) F
proof (induction fl limit runs tot d s arbitrary: d' tot' s' rule: deleteRunBatch.induct)
  case (1 fl limit tot d s)
  then show ?case by (auto intro: deletes_nil)
next
  case (2 fl limit run runs tot d s)
  let ?t = "tot - log_size s run"
  let ?s1 = "RemoveRunLogs fl (rr_ID run) s"
  let ?s2 = "do_step (PublishDeleted (rr_ID run) (TaskName (rr_run run))) (do_step (DeleteRuns [rr_ID run]) ?s1)"
  have I: "rr_ID ` {r \<in> set runs. IsTerminal (Status (rr_run r))} \<subseteq> I" using 2(5) by auto
  show ?case
  proof (cases "IsTerminal (Status (rr_run run))")
    case False
    then show ?thesis using 2(1) [OF False _ I 2(6)] 2(4) by auto
  next
    case ended: True
    with 2(5) have run: "rr_ID run \<in> I" by auto
    obtain one where one: "deletes F I s one ?s1" using run_logs_removed(1) [OF run] by blast
    obtain three where three: "deletes F I s three ?s2" using run_deleted [OF 2(6) run] by blast
    show ?thesis
    proof (cases "df_delete fl (rr_ID run)")
      case True
      then obtain xs where "deletes F I ?s1 xs s'"
        using 2(2) [OF _ refl refl True, of d' tot' s'] 2(4,6) ended I by (auto simp: Let_def)
      from deletes_append [OF one this] show ?thesis by blast
    next
      case ok: False
      show ?thesis
      proof (cases "?t \<le> limit")
        case True
        then show ?thesis using 2(4) ended ok three by (auto simp: Let_def)
      next
        case False
        then obtain xs where "deletes F I ?s2 xs s'"
          using 2(3) [OF _ refl refl ok refl False, of d' tot' s'] 2(4,6) ended ok I by (auto simp: Let_def)
        from deletes_append [OF three this] show ?thesis by blast
      qed
    qed
  qed
qed

lemma deletes_rows: "deletes F I s xs s' \<Longrightarrow> set (rt_rows s') \<subseteq> set (rt_rows s)"
proof (induction rule: deletes.induct)
  case (deletes_step x s xs s')
  then show ?case by (cases x) auto
qed simp

lemma enforce_deletes:
  assumes "enforce_loop fl limit off tot d s = (d', tot', s')" "expendable s \<subseteq> I" "failing fl \<subseteq> F"
  shows "\<exists>xs. deletes F I s xs s'"
  using assms
proof (induction fl limit off tot d s arbitrary: d' tot' s' rule: enforce_loop.induct)
  case (1 fl limit off tot d s)
  let ?runs = "QueryRuns 100 off (rt_rows s)"
  show ?case
  proof (cases "tot > limit \<and> \<not> (df_query fl \<or> ?runs = [])")
    case False
    then have "enforce_loop fl limit off tot d s = (d, tot, s)"
      by (simp add: enforce_loop.simps [of fl limit off tot d s] Let_def)
    with 1(2) show ?thesis by (auto intro: deletes_nil)
  next
    case True
    obtain n t2 s2 where b: "deleteRunBatch fl limit ?runs tot 0 s = (n, t2, s2)" by (metis prod_cases3)
    have "rr_ID ` {r \<in> set ?runs. IsTerminal (Status (rr_run r))} \<subseteq> I"
      using query_visible 1(3) by (fastforce simp: expendable_def visible_def)
    then obtain xs where xs: "deletes F I s xs s2" using batch_deletes [OF b _ 1(4)] by blast
    have I2: "expendable s2 \<subseteq> I" using deletes_rows [OF xs] 1(3) by (auto simp: expendable_def)
    have "enforce_loop fl limit (if n = 0 then off + length ?runs else off) t2 (d + n) s2 = (d', tot', s')"
      using 1(2) True b by (simp add: enforce_loop.simps [of fl limit off tot d s] Let_def)
    then obtain ys where "deletes F I s2 ys s'"
      using 1(1) [OF _ refl _ b [symmetric] refl, of d' tot' s'] True I2 1(4) by auto
    from deletes_append [OF xs this] show ?thesis by blast
  qed
qed

lemma cleanOldRuns_deletes:
  assumes "failing fl \<subseteq> F"
  shows "\<exists>xs. deletes F (expendable s) s xs (cleanOldRuns fl now limit ts s)"
proof -
  obtain xs where xs: "deletes F (expendable s) s xs (clean_by_policy fl now ts s)" using clean_deletes [OF assms] by blast
  let ?s1 = "clean_by_policy fl now ts s"
  have I: "expendable ?s1 \<subseteq> expendable s" using deletes_rows [OF xs] by (auto simp: expendable_def)
  obtain d t s' where e: "enforce_loop fl limit 0 (dirSize ?s1) 0 ?s1 = (d, t, s')" by (metis prod_cases3)
  from enforce_deletes [OF e I assms] deletes_append [OF xs] xs e show ?thesis
    by (auto simp: cleanOldRuns_def enforceMaxTotalSize_def)
qed

definition expired :: "instant \<Rightarrow> duration \<Rightarrow> retention \<Rightarrow> string set" where
  "expired now ttl s = rr_ID ` {r \<in> set (rt_rows s). \<exists>t. rr_deletedAt r = Some t \<and> t \<le> now - ttl}"

lemma purge_deletes:
  assumes "failing fl \<subseteq> F"
  shows "\<exists>xs. deletes F (expired now ttl s) s xs (purge fl now ttl s)"
proof -
  have "rr_ID ` set (SelectExpiredSoftDeletes now ttl (rt_rows s)) \<subseteq> expired now ttl s"
    by (auto simp: SelectExpiredSoftDeletes_def expired_def split: option.splits)
  from remove_then_delete(1,3) [OF this assms, of s] show ?thesis
    using deletes_nil by (fastforce simp: purge_def Let_def)
qed

definition untouched :: "runRow \<Rightarrow> retention \<Rightarrow> retention \<Rightarrow> bool" where
  "untouched r s c \<longleftrightarrow> (r \<in> set (rt_rows c)) = (r \<in> set (rt_rows s))
     \<and> (\<forall>p. map_of (rt_logs c) (rr_ID r, p) = map_of (rt_logs s) (rr_ID r, p))"

lemma crash_anywhere:
  assumes "deletes_soundly F s" "deletes F I s xs s'"
  shows "s' = fold do_step xs s \<and> (\<forall>n. let c = fold do_step (take n xs) s in deletes_soundly F c
    \<and> (\<forall>r. rr_ID r \<notin> I \<longrightarrow> untouched r s c))"
proof -
  from deletes_fold [OF assms(2)] have xs: "s' = fold do_step xs s" "retention_steps.admissible F xs s"
    "\<forall>x\<in>set xs. step_ids x \<subseteq> I" by auto
  show ?thesis unfolding Let_def untouched_def
    using xs retention_steps.fold_inv [OF assms(1) admissible_take [OF xs(2)]]
      untouched_fold [of "take n xs" I for n]
    by (blast dest: in_set_takeD)
qed

lemma soundly_mono: "deletes_soundly F s \<Longrightarrow> F \<subseteq> G \<Longrightarrow> deletes_soundly G s"
  by (auto simp: deletes_soundly_def no_orphans_def)

text \<open>C6. A deletion pass, interrupted anywhere, spares what it must. Whatever database calls and
  removals of files fail, a retention pass and a purge are sequences of atomic deletions (of one
  file, of the rows of one statement) such that in the state after any number of them, which is
  what a crash at that moment leaves, the only log files without their row are those whose removal
  failed, in this pass or before it, and no announced deletion is of a row that still exists; the
  row and the log files of every run that is pending, running or already soft-deleted are as before
  a retention pass, and those of every run that is not soft-deleted, or not for long enough, are as
  before a purge. If no removal fails and no log is orphaned before, none is.\<close>

theorem deletions_survive_crash:
  assumes "deletes_soundly F s"
  shows "(\<exists>xs. cleanOldRuns fl now limit ts s = fold do_step xs s \<and>
      (\<forall>n. let c = fold do_step (take n xs) s in deletes_soundly (F \<union> failing fl) c
        \<and> (\<forall>r. rr_ID r \<notin> expendable s \<longrightarrow> untouched r s c)))
    \<and> (\<exists>xs. purge fl now ttl s = fold do_step xs s \<and>
      (\<forall>n. let c = fold do_step (take n xs) s in deletes_soundly (F \<union> failing fl) c
        \<and> (\<forall>r. rr_ID r \<notin> expired now ttl s \<longrightarrow> untouched r s c)))"
proof -
  have G: "deletes_soundly (F \<union> failing fl) s" using soundly_mono [OF assms] by blast
  have fl: "failing fl \<subseteq> F \<union> failing fl" by blast
  show ?thesis
    using cleanOldRuns_deletes [OF fl, of s now limit ts] purge_deletes [OF fl, of now ttl s] crash_anywhere [OF G]
    by blast
qed

text \<open>A removal that fails does orphan a log: the row goes although its log is still there.\<close>

lemma failed_remove_orphans:
  assumes "rr_deletedAt r = Some t" "t \<le> now - ttl" "r \<in> set (rt_rows s)" "(rr_ID r, p) \<in> log_paths s"
    and "df_remove fl (rr_ID r) p" "\<not> df_query fl" "\<not> df_deleteAll fl"
  shows "(rr_ID r, p) \<in> log_paths (purge fl now ttl s) \<and> rr_ID r \<notin> rr_ID ` set (rt_rows (purge fl now ttl s))"
proof -
  let ?refs = "SelectExpiredSoftDeletes now ttl (rt_rows s)"
  have r: "r \<in> set ?refs" using assms by (simp add: SelectExpiredSoftDeletes_def)
  then have "?refs \<noteq> []" "rr_ID r \<in> rr_ID ` set ?refs" by auto
  then show ?thesis
    using assms(4-7) logs_removed [where rs = ?refs and I = UNIV and F = UNIV and fl = fl and s = s]
    by (auto simp: purge_def Let_def failing_def)
qed

section \<open>Exactly the runs the policy gives up\<close>

definition rows_wf :: "runRow list \<Rightarrow> bool" where
  "rows_wf rows \<longleftrightarrow> distinct (map rr_ID rows)"

lemma rows_inj: "rows_wf rows \<Longrightarrow> r \<in> set rows \<Longrightarrow> r' \<in> set rows \<Longrightarrow> rr_ID r = rr_ID r' \<Longrightarrow> r = r'"
  by (auto simp: rows_wf_def distinct_map dest: inj_onD)

lemma rows_filter: "rows_wf rows \<Longrightarrow> rows_wf (filter P rows)"
  by (simp add: rows_wf_def distinct_map_filter)

text \<open>What the policy of a task keeps of its ended runs: the young ones, of these the newest.\<close>

definition kept :: "instant \<Rightarrow> Task \<Rightarrow> runRow list \<Rightarrow> runRow set" where
  "kept now task E = {r \<in> set E. (KeepFor task > 0 \<longrightarrow> now - KeepFor task \<le> CreatedAt (rr_run r))
     \<and> (\<forall>k. KeepRuns task = Some k \<longrightarrow> r \<in> set (take (nat k) (rev (by_created E))))}"

lemma set_by_created [simp]: "set (by_created rows) = set rows"
  by (simp add: by_created_def)

lemma length_by_created [simp]: "length (by_created rows) = length rows"
  by (simp add: by_created_def)

lemma by_created_filter: "by_created (filter P rows) = filter P (by_created rows)"
  by (simp add: by_created_def filter_sort)

lemma sorted_by_created: "sorted (map (\<lambda>r. CreatedAt (rr_run r)) (by_created rows))"
  by (simp add: by_created_def)

lemma young_first:
  "sorted (map f xs) \<Longrightarrow> xs = filter (\<lambda>x. f x < c) xs @ filter (\<lambda>x. \<not> f x < c) xs" for f :: "'a \<Rightarrow> int"
proof (induction xs)
  case (Cons x xs)
  show ?case
  proof (cases "f x < c")
    case False
    with Cons.prems have "\<forall>y\<in>set xs. \<not> f y < c" by auto
    then show ?thesis using False by (simp add: filter_empty_conv)
  qed (use Cons in auto)
qed simp

lemma set_collect:
  assumes "rows_wf rows" "set acc \<subseteq> set rows" "set new \<subseteq> set rows"
  shows "set (collectRunsByID new acc) = set acc \<union> set new"
  using assms rows_inj by (fastforce simp: collectRunsByID_def)

lemma count_covers:
  fixes aged :: "runRow \<Rightarrow> bool"
  assumes D: "D = young @ old" and old: "\<forall>r\<in>set old. aged r" and L: "length young \<le> L"
  shows "set old \<union> set (take L (drop k D)) = set old \<union> set (drop k D)"
proof -
  have "set (take L (drop k young @ drop (k - length young) old)) \<union> set old = set (drop k young) \<union> set old"
    using L by (auto simp: take_append dest!: in_set_takeD in_set_dropD)
  moreover have "set (drop (k - length young) old) \<subseteq> set old" by (rule set_drop_subset)
  ultimately show ?thesis by (auto simp: D)
qed

lemma select_exact:
  assumes wf: "rows_wf rows" and small: "length (filter (ended_of (Name t)) rows) \<le> retentionBatchSize"
  shows "set (SelectOldRuns now t rows) = {r \<in> set rows. ended_of (Name t) r} - kept now t (filter (ended_of (Name t)) rows)"
proof -
  let ?c = "now - KeepFor t"
  define E where "E = filter (ended_of (Name t)) rows"
  define D where "D = rev (by_created E)"
  define old where "old = (if KeepFor t > 0 then filter (\<lambda>r. CreatedAt (rr_run r) < ?c) E else [])"
  define young where "young = (if KeepFor t > 0 then rev (filter (\<lambda>r. \<not> CreatedAt (rr_run r) < ?c) (by_created E)) else D)"
  have E: "set E \<subseteq> set rows" "rows_wf E" using wf rows_filter by (auto simp: E_def)
  have dD: "distinct D" using E(2) by (auto simp: D_def by_created_def rows_wf_def distinct_map)
  have split: "D = young @ rev (if KeepFor t > 0 then filter (\<lambda>r. CreatedAt (rr_run r) < ?c) (by_created E) else [])"
    using young_first [OF sorted_by_created, of E ?c] by (auto simp: D_def young_def simp flip: rev_append)
  have len: "length D = length young + length old"
    using arg_cong [OF split, of length] by (simp add: old_def by_created_filter [symmetric] del: length_append) (auto simp: old_def by_created_filter [symmetric])
  have age: "SelectOldRunsByAge (Name t) ?c retentionBatchSize rows
      = by_created (filter (\<lambda>r. CreatedAt (rr_run r) < ?c) E)"
    using small length_filter_le [of "\<lambda>r. CreatedAt (rr_run r) < ?c" E]
    by (simp add: SelectOldRunsByAge_def E_def conj_commute)
  define A where "A = (if KeepFor t > 0
     then collectRunsByID (SelectOldRunsByAge (Name t) ?c retentionBatchSize rows) [] else [])"
  have A: "set A = set old" "length A = length old"
    using age by (auto simp: A_def old_def collectRunsByID_def)
  have count: "SelectOldRunsByCount (Name t) l k rows = take l (drop k D)" for l k
    by (simp add: SelectOldRunsByCount_def D_def E_def)
  have lenD: "length D \<le> retentionBatchSize" using small by (simp add: D_def E_def)
  have sel: "set (SelectOldRuns now t rows)
      = set old \<union> (case KeepRuns t of None \<Rightarrow> {} | Some k \<Rightarrow> set (drop (nat k) D))"
  proof (cases "KeepRuns t")
    case (Some k)
    have cov: "set old \<union> set (take (retentionBatchSize - length old) (drop (nat k) D)) = set old \<union> set (drop (nat k) D)"
    proof -
      have "set (rev (if KeepFor t > 0 then filter (\<lambda>r. CreatedAt (rr_run r) < ?c) (by_created E) else [])) = set old"
        by (simp add: old_def)
      with count_covers [OF split, of "\<lambda>_. True" "retentionBatchSize - length old" "nat k"] len lenD
      show ?thesis by simp
    qed
    have sub: "set (take (retentionBatchSize - length old) (drop (nat k) D)) \<subseteq> set rows" "set A \<subseteq> set rows"
      using take_drop_subset [of "retentionBatchSize - length old" "nat k" D] E(1) A(1)
      by (auto simp: D_def old_def split: if_splits)
    show ?thesis
    proof (cases "length A < retentionBatchSize")
      case True
      then show ?thesis using Some cov A set_collect [OF wf sub(2,1)]
        by (simp add: SelectOldRuns_def A_def [symmetric] Let_def count)
    next
      case False
      then have "length young = 0" using len lenD A(2) by linarith
      then have "set (drop (nat k) D) \<subseteq> set old"
        using split set_drop_subset [of "nat k" D] by (auto simp: old_def split: if_splits)
      with False Some A show ?thesis by (auto simp: SelectOldRuns_def A_def [symmetric] Let_def)
    qed
  qed (simp add: SelectOldRuns_def A_def [symmetric] Let_def A)
  have "set (drop n D) = set E - set (take n D)" for n
  proof -
    have "set (take n D) \<union> set (drop n D) = set E" by (simp add: D_def flip: set_append)
    moreover have "set (take n D) \<inter> set (drop n D) = {}" using dD by (intro set_take_disj_set_drop_if_distinct) auto
    ultimately show ?thesis by blast
  qed
  then show ?thesis unfolding sel kept_def E_def [symmetric] D_def [symmetric]
    by (auto simp: old_def E_def split: option.splits if_splits)
qed

lemma select_spares:
  assumes wf: "rows_wf rows" and r: "r \<in> set (SelectOldRuns now t rows)"
  shows "r \<notin> kept now t (filter (ended_of (Name t)) rows)"
proof -
  let ?E = "filter (ended_of (Name t)) rows"
  have d: "distinct (rev (by_created ?E))"
    using wf rows_filter [of rows] by (simp add: by_created_def rows_wf_def distinct_map)
  have count: "x \<notin> set (take k (rev (by_created ?E)))" if "x \<in> set (SelectOldRunsByCount (Name t) l k rows)" for x l k
  proof -
    have "x \<in> set (drop k (rev (by_created ?E)))" using that in_set_takeD unfolding SelectOldRunsByCount_def by fast
    moreover have "set (take k (rev (by_created ?E))) \<inter> set (drop k (rev (by_created ?E))) = {}"
      using d by (rule set_take_disj_set_drop_if_distinct) simp
    ultimately show ?thesis by blast
  qed
  have age: "CreatedAt (rr_run x) < c" if "x \<in> set (SelectOldRunsByAge (Name t) c l rows)" for x c l
    using that by (auto simp: SelectOldRunsByAge_def dest!: in_set_takeD)
  consider "KeepFor t > 0" "r \<in> set (SelectOldRunsByAge (Name t) (now - KeepFor t) retentionBatchSize rows)"
    | k l where "KeepRuns t = Some k" "r \<in> set (SelectOldRunsByCount (Name t) l (nat k) rows)"
    using r by (auto simp: SelectOldRuns_def Let_def collectRunsByID_def split: option.splits if_splits)
  then show ?thesis
  proof cases
    case 1
    then show ?thesis using age by (fastforce simp: kept_def)
  next
    case 2
    then show ?thesis using count by (auto simp: kept_def)
  qed
qed

lemma rows_of_publishing [simp]:
  "rt_rows (fold (\<lambda>r. do_step (PublishDeleted (rr_ID r) (TaskName (rr_run r)))) rs s) = rt_rows s"
  by (induction rs arbitrary: s) simp_all

lemma rows_of_removing [simp]:
  "rt_rows (fold (\<lambda>r. RemoveRunLogs fl (rr_ID r)) rs s) = rt_rows s"
  by (induction rs arbitrary: s) (simp_all add: run_logs_removed(2))

lemma clean_rows:
  "rt_rows (clean_by_policy fl now ts s) = (if df_deleteAll fl then rt_rows s
     else filter (\<lambda>r. rr_ID r \<notin> rr_ID ` (\<Union>t\<in>set ts. set (old_runs_of fl now t (rt_rows s)))) (rt_rows s))"
  by (auto simp: clean_by_policy_def deleteAndPublish_def Let_def intro!: filter_cong [OF refl] sym [OF filter_True])

lemma clean_members:
  assumes wf: "rows_wf (rt_rows s)" and names: "inj_on Name (set ts)" and t: "t \<in> set ts" and r: "ended_of (Name t) r"
  shows "r \<in> set (rt_rows (clean_by_policy fl now ts s))
    \<longleftrightarrow> r \<in> set (rt_rows s) \<and> (df_deleteAll fl \<or> r \<notin> set (old_runs_of fl now t (rt_rows s)))"
proof -
  have own: "r \<in> set (old_runs_of fl now u (rt_rows s)) \<Longrightarrow> u \<in> set ts \<Longrightarrow> u = t" for u
    using old_runs_ended [of fl now u "rt_rows s"] r inj_onD [OF names _ _ t, of u] by (auto simp: ended_of_def)
  have id: "rr_ID r \<in> rr_ID ` set (old_runs_of fl now u (rt_rows s)) \<longleftrightarrow> r \<in> set (old_runs_of fl now u (rt_rows s))"
    if "r \<in> set (rt_rows s)" for u
    using rows_inj [OF wf that] old_runs_ended [of fl now u "rt_rows s"] by blast
  have "rr_ID r \<in> rr_ID ` (\<Union>u\<in>set ts. set (old_runs_of fl now u (rt_rows s)))
      \<longleftrightarrow> r \<in> set (old_runs_of fl now t (rt_rows s))" if "r \<in> set (rt_rows s)"
    unfolding image_UN using id [OF that] own t by auto
  then show ?thesis unfolding clean_rows by auto
qed

text \<open>The retention policy of a task is applied exactly. Of the task's ended runs a pass never
  deletes one the policy keeps, whatever fails and however long the backlog: a run not older than
  \<open>keep_for\<close> and among the newest \<open>keep_runs\<close>. If the select and the delete succeed and the task has
  at most a batch of ended runs, exactly those remain, so that the two limits hold together after
  one pass.\<close>

lemma retention_policy_exact:
  assumes "rows_wf (rt_rows s)" and "inj_on Name (set ts)" and "t \<in> set ts"
  shows "let E = filter (ended_of (Name t)) (rt_rows s);
             left = {r \<in> set (rt_rows (clean_by_policy fl now ts s)). ended_of (Name t) r} in
         kept now t E \<subseteq> left \<and>
         (\<not> df_deleteAll fl \<and> \<not> df_select fl (Name t) \<and> length E \<le> retentionBatchSize \<longrightarrow> left = kept now t E)"
proof -
  let ?E = "filter (ended_of (Name t)) (rt_rows s)"
  have none: "kept now t ?E = set ?E" if "KeepFor t \<le> 0 \<and> KeepRuns t = None"
    using that by (auto simp: kept_def)
  have sub: "kept now t ?E \<subseteq> set ?E" by (auto simp: kept_def)
  note mem = clean_members [OF assms, of _ fl now]
  have "kept now t ?E \<subseteq> {r \<in> set (rt_rows (clean_by_policy fl now ts s)). ended_of (Name t) r}"
  proof
    fix r assume r: "r \<in> kept now t ?E"
    then have "r \<in> set ?E" "r \<notin> set (old_runs_of fl now t (rt_rows s))"
      using sub select_spares [OF assms(1), of r now t] by (auto simp: old_runs_of_def split: if_splits)
    then show "r \<in> {r \<in> set (rt_rows (clean_by_policy fl now ts s)). ended_of (Name t) r}" using mem by auto
  qed
  moreover have "{r \<in> set (rt_rows (clean_by_policy fl now ts s)). ended_of (Name t) r} = kept now t ?E"
    if ok: "\<not> df_deleteAll fl" "\<not> df_select fl (Name t)" "length ?E \<le> retentionBatchSize"
  proof -
    have "set (old_runs_of fl now t (rt_rows s)) = set ?E - kept now t ?E"
      using select_exact [OF assms(1) ok(3), of now] none ok by (auto simp: old_runs_of_def)
    then show ?thesis using mem ok sub by auto
  qed
  ultimately show ?thesis by (simp add: Let_def)
qed

section \<open>The size cap removes the shortest prefix of the oldest runs\<close>

definition remove_all :: "string \<Rightarrow> retention \<Rightarrow> retention" where
  "remove_all i s = fold (\<lambda>p. do_step (RemoveFile i p)) [LogFile, MetaFile, PrevFile] s"

definition delete_run :: "runRow \<Rightarrow> retention \<Rightarrow> retention" where
  "delete_run r s = do_step (PublishDeleted (rr_ID r) (TaskName (rr_run r)))
     (do_step (DeleteRuns [rr_ID r]) (remove_all (rr_ID r) s))"

lemma removes_all: "\<forall>i p. \<not> df_remove fl i p \<Longrightarrow> RemoveRunLogs fl i s = remove_all i s"
  by (simp add: RemoveRunLogs_def RemoveLogFile_def remove_all_def)

abbreviation without :: "string \<Rightarrow> (logPath \<times> int) list \<Rightarrow> (logPath \<times> int) list" where
  "without i xs \<equiv> AList.delete (i, PrevFile) (AList.delete (i, MetaFile) (AList.delete (i, LogFile) xs))"

text \<open>How many of \<open>rs\<close> have to go until the total is within the limit.\<close>

fun shortest :: "(runRow \<Rightarrow> int) \<Rightarrow> int \<Rightarrow> int \<Rightarrow> runRow list \<Rightarrow> nat" where
  "shortest sz limit tot [] = 0"
| "shortest sz limit tot (r # rs) = (if tot \<le> limit then 0 else Suc (shortest sz limit (tot - sz r) rs))"

lemma shortest_spec:
  "shortest sz limit tot rs \<le> length rs
    \<and> (\<forall>j < shortest sz limit tot rs. limit < tot - sum_list (map sz (take j rs)))
    \<and> (tot - sum_list (map sz (take (shortest sz limit tot rs) rs)) \<le> limit \<or> shortest sz limit tot rs = length rs)"
proof (induction sz limit tot rs rule: shortest.induct)
  case (2 sz limit tot r rs)
  show ?case
  proof (cases "tot \<le> limit")
    case False
    note IH = 2 [OF False]
    have "limit < tot - sum_list (map sz (take j (r # rs)))" if "j < Suc (shortest sz limit (tot - sz r) rs)" for j
      using that IH False by (cases j) (auto simp: algebra_simps)
    then show ?thesis using IH False by (auto simp: algebra_simps)
  qed simp
qed simp

lemma shortest_append:
  "shortest sz limit tot (as @ bs) = (if shortest sz limit tot as < length as then shortest sz limit tot as
     else length as + shortest sz limit (tot - sum_list (map sz as)) bs)"
  by (induction as arbitrary: tot) (auto simp: algebra_simps)

lemma shortest_cong: "(\<And>r. r \<in> set rs \<Longrightarrow> sz r = sz' r) \<Longrightarrow> shortest sz limit tot rs = shortest sz' limit tot rs"
  by (induction rs arbitrary: tot) auto

lemma shortest_within: "tot \<le> limit \<Longrightarrow> shortest sz limit tot rs = 0"
  by (cases rs) auto

lemma delete_run_simps [simp]:
  "rt_rows (delete_run r s) = filter (\<lambda>x. rr_ID x \<noteq> rr_ID r) (rt_rows s)"
  "rt_logs (delete_run r s) = without (rr_ID r) (rt_logs s)"
  "rt_other (delete_run r s) = rt_other s"
  by (simp_all add: delete_run_def remove_all_def)

lemma log_size_other: "rr_ID r \<noteq> rr_ID x \<Longrightarrow> log_size (delete_run x s) r = log_size s r"
  by (simp add: log_size_def file_size_def map_of_delete_other)

lemma sum_delete:
  "distinct (map fst xs) \<Longrightarrow> sum_list (map snd (AList.delete i xs))
     = sum_list (map snd xs) - OrDefault (map_of xs i) (0 :: int)"
proof (induction xs)
  case (Cons x xs)
  show ?case
  proof (cases "fst x = i")
    case True
    with Cons.prems have "AList.delete i xs = xs" by (auto intro: AList.delete_id)
    with True show ?thesis by (cases x) auto
  next
    case False
    then show ?thesis using Cons by (cases x) auto
  qed
qed simp

lemma dirSize_delete_run: "distinct (map fst (rt_logs s)) \<Longrightarrow> dirSize (delete_run r s) = dirSize s - log_size s r"
  by (simp add: dirSize_def sum_delete log_size_def file_size_def map_of_delete_other AList.distinct_delete)

lemma distinct_delete: "distinct (map fst xs) \<Longrightarrow> distinct (map fst (AList.delete i xs))"
  by (rule AList.distinct_delete)

lemma shortest_resume:
  assumes "n = shortest sz limit tot as"
  shows "shortest sz limit tot (as @ bs)
    = n + shortest sz limit (tot - sum_list (map sz (take n (as @ bs)))) (drop n (as @ bs))"
proof (cases "n < length as")
  case True
  then have "tot - sum_list (map sz (take n (as @ bs))) \<le> limit"
    using shortest_spec [of sz limit tot as] assms by simp
  with True show ?thesis using assms by (simp add: shortest_append shortest_within)
next
  case False
  then have "n = length as" using shortest_spec [of sz limit tot as] assms by simp
  then show ?thesis using assms by (simp add: shortest_append)
qed

lemma batch_exact:
  fixes limit :: int and s :: retention
  assumes "distinct (map rr_ID runs)" "distinct (map fst (rt_logs s))"
    "(\<forall>i. \<not> df_delete fl i) \<and> (\<forall>i p. \<not> df_remove fl i p)" "limit < dirSize s"
  defines "Tb \<equiv> filter (\<lambda>r. IsTerminal (Status (rr_run r))) runs"
  defines "m \<equiv> shortest (log_size s) limit (dirSize s) Tb"
  shows "deleteRunBatch fl limit runs (dirSize s) d s
      = (d + m, dirSize (fold delete_run (take m Tb) s), fold delete_run (take m Tb) s)"
  using assms(1-4) unfolding m_def Tb_def
proof (induction runs arbitrary: s d)
  case (Cons run runs)
  show ?case
  proof (cases "IsTerminal (Status (rr_run run))")
    case False
    then show ?thesis using Cons by auto
  next
    case True
    let ?T = "filter (\<lambda>r. IsTerminal (Status (rr_run r))) runs"
    let ?s2 = "delete_run run s"
    have sz: "shortest (log_size ?s2) limit t ?T = shortest (log_size s) limit t ?T" for t
      using Cons.prems(1) by (intro shortest_cong log_size_other) (auto simp: image_iff)
    have dir: "dirSize ?s2 = dirSize s - log_size s run" using Cons.prems(2) by (rule dirSize_delete_run)
    have dist: "distinct (map fst (rt_logs ?s2))" using Cons.prems(2) by (simp add: distinct_delete)
    note rm = removes_all [of fl "rr_ID run" s]
    have step: "deleteRunBatch fl limit (run # runs) (dirSize s) d s =
        (if dirSize ?s2 \<le> limit then (d + 1, dirSize ?s2, ?s2)
         else deleteRunBatch fl limit runs (dirSize ?s2) (d + 1) ?s2)"
      using True Cons.prems(3) rm unfolding dir unfolding delete_run_def by (simp add: Let_def)
    show ?thesis
    proof (cases "dirSize ?s2 \<le> limit")
      case le: True
      then show ?thesis using True Cons.prems(4) step dir by (simp add: shortest_within)
    next
      case gt: False
      then show ?thesis using True Cons.prems step dir sz Cons.IH [of ?s2 "d + 1", OF _ dist Cons.prems(3)] by (simp add: Let_def)
    qed
  qed
qed simp

definition oldest_ended :: "retention \<Rightarrow> runRow list" where
  "oldest_ended s = filter (\<lambda>r. IsTerminal (Status (rr_run r))) (by_created (visible (rt_rows s)))"

lemma rows_fold_delete [simp]:
  "rt_rows (fold delete_run rs s) = filter (\<lambda>r. rr_ID r \<notin> rr_ID ` set rs) (rt_rows s)"
  by (induction rs arbitrary: s) (auto simp: filter_filter intro: filter_cong)

lemma logs_fold_delete: "distinct (map fst (rt_logs s)) \<Longrightarrow> distinct (map fst (rt_logs (fold delete_run rs s)))"
  by (induction rs arbitrary: s) (auto simp: distinct_delete)

lemma dirSize_fold_delete:
  "distinct (map fst (rt_logs s)) \<Longrightarrow> distinct (map rr_ID rs) \<Longrightarrow>
    dirSize (fold delete_run rs s) = dirSize s - sum_list (map (log_size s) rs)
    \<and> (\<forall>r. rr_ID r \<notin> rr_ID ` set rs \<longrightarrow> log_size (fold delete_run rs s) r = log_size s r)"
proof (induction rs arbitrary: s)
  case (Cons x rs)
  have "map (log_size (delete_run x s)) rs = map (log_size s) rs"
    using Cons.prems(2) by (intro map_cong refl log_size_other) (auto simp: image_iff)
  with Cons.IH [of "delete_run x s"] Cons.prems show ?case
    by (simp add: distinct_delete dirSize_delete_run log_size_other)
qed simp

lemma filter_take_ids:
  assumes "distinct (map rr_ID xs)" "n \<le> length xs"
  shows "filter (\<lambda>r. rr_ID r \<notin> rr_ID ` set (take n xs)) xs = drop n xs"
proof -
  have xs: "xs = take n xs @ drop n xs" by simp
  have "rr_ID r \<notin> rr_ID ` set (take n xs)" if "r \<in> set (drop n xs)" for r
    using assms(1) that by (subst (asm) xs) (auto simp del: append_take_drop_id)
  then have "filter (\<lambda>r. rr_ID r \<notin> rr_ID ` set (take n xs)) (drop n xs) = drop n xs" by (intro filter_True) auto
  moreover have "filter (\<lambda>r. rr_ID r \<notin> rr_ID ` set (take n xs)) (take n xs) = []" by (intro filter_False) auto
  ultimately have "filter (\<lambda>r. rr_ID r \<notin> rr_ID ` set (take n xs)) (take n xs @ drop n xs) = drop n xs" by (simp only: filter_append append_Nil)
  then show ?thesis by (simp only: append_take_drop_id)
qed

lemma distinct_by_created: "rows_wf rows \<Longrightarrow> distinct (map rr_ID (by_created (visible rows)))"
  using rows_filter [of rows] unfolding by_created_def visible_def rows_wf_def
  by (simp add: distinct_map)

lemma enforce_exact:
  fixes limit :: int and s :: retention
  assumes "rows_wf (rt_rows s)" "distinct (map fst (rt_logs s))"
    "(\<forall>i. \<not> df_delete fl i) \<and> (\<forall>i p. \<not> df_remove fl i p)" "\<not> df_query fl"
    and "\<forall>r \<in> set (take off (by_created (visible (rt_rows s)))). \<not> IsTerminal (Status (rr_run r))"
  defines "T \<equiv> oldest_ended s"
  defines "m \<equiv> shortest (log_size s) limit (dirSize s) T"
  shows "enforce_loop fl limit off (dirSize s) d s
      = (d + m, dirSize (fold delete_run (take m T) s), fold delete_run (take m T) s)"
proof -
  have "enforce_loop fl limit off tot d s
      = (d + m, dirSize (fold delete_run (take m T) s), fold delete_run (take m T) s)"
    if "tot = dirSize s" for tot
    using that assms(1-5) unfolding m_def T_def
  proof (induction fl limit off tot d s rule: enforce_loop.induct)
    case (1 fl limit off tot d s)
    let ?V = "by_created (visible (rt_rows s))" and ?over = "\<lambda>r. IsTerminal (Status (rr_run r))"
    let ?runs = "QueryRuns 100 off (rt_rows s)"
    have V: "distinct (map rr_ID ?V)" using "1.prems"(2) by (rule distinct_by_created)
    have runs: "?runs = take 100 (drop off ?V)" by (simp add: QueryRuns_def visible_def)
    let ?T = "oldest_ended s"
    have T: "?T = filter ?over (drop off ?V)"
      using "1.prems"(6) filter_append [of ?over "take off ?V" "drop off ?V"] by (simp add: oldest_ended_def filter_False)
    show ?case
    proof (cases "limit < tot \<and> ?runs \<noteq> []")
      case False
      then have "enforce_loop fl limit off tot d s = (d, tot, s)"
        by (auto simp: enforce_loop.simps [of fl limit off tot d s] Let_def)
      moreover have "shortest (log_size s) limit (dirSize s) ?T = 0"
        using False "1.prems"(1) T runs by (cases "limit < tot") (auto simp: shortest_within)
      ultimately show ?thesis using "1.prems"(1) by simp
    next
      case True
      let ?Tb = "filter ?over ?runs" and ?rest = "filter ?over (drop 100 (drop off ?V))"
      let ?n = "shortest (log_size s) limit (dirSize s) ?Tb"
      let ?s' = "fold delete_run (take ?n ?Tb) s"
      have dr: "distinct (map rr_ID ?runs)" using V by (simp add: runs distinct_take distinct_drop flip: take_map drop_map)
      have b: "deleteRunBatch fl limit ?runs tot 0 s = (?n, dirSize ?s', ?s')"
        using batch_exact [OF dr, of s fl limit 0] "1.prems" True by simp
      let ?off = "if ?n = 0 then off + length ?runs else off"
      have step: "enforce_loop fl limit off tot d s = enforce_loop fl limit ?off (dirSize ?s') (d + ?n) ?s'"
        using True "1.prems"(5) b by (simp add: enforce_loop.simps [of fl limit off tot d s] Let_def)
      have Tsplit: "?T = ?Tb @ ?rest" unfolding T runs by (simp only: filter_append [symmetric] append_take_drop_id)
      have dT: "distinct (map rr_ID ?T)" using V by (simp add: oldest_ended_def distinct_map_filter)
      have nle: "?n \<le> length ?Tb" using shortest_spec by blast
      have tk: "take ?n ?Tb = take ?n ?T" using nle unfolding Tsplit by simp
      have ids: "rr_ID r \<notin> rr_ID ` set (take ?n ?T)" if "r \<in> set (take off ?V)" for r
      proof -
        have "set (take ?n ?T) \<subseteq> set (drop off ?V)" unfolding T by (auto dest: in_set_takeD)
        moreover have "rr_ID ` set (take off ?V) \<inter> rr_ID ` set (drop off ?V) = {}"
          using set_take_disj_set_drop_if_distinct [OF V order_refl, of off] by (simp add: take_map drop_map)
        ultimately show ?thesis using that by blast
      qed
      have V': "by_created (visible (rt_rows ?s')) = filter (\<lambda>r. rr_ID r \<notin> rr_ID ` set (take ?n ?T)) ?V"
        unfolding tk visible_def by (simp add: by_created_filter [symmetric] conj_commute)
      have T': "oldest_ended ?s' = drop ?n ?T"
      proof -
        have "oldest_ended ?s' = filter (\<lambda>r. rr_ID r \<notin> rr_ID ` set (take ?n ?T)) ?T"
          unfolding oldest_ended_def V' filter_filter by (rule filter_cong) auto
        also have "\<dots> = drop ?n ?T" using nle by (intro filter_take_ids dT) (simp add: Tsplit)
        finally show ?thesis .
      qed
      have off': "\<forall>r \<in> set (take ?off (by_created (visible (rt_rows ?s')))). \<not> ?over r"
      proof (cases "?n = 0")
        case True
        then have "?Tb = []" using \<open>limit < tot \<and> ?runs \<noteq> []\<close> "1.prems"(1) by (cases ?Tb) auto
        then have "\<forall>r \<in> set ?runs. \<not> ?over r" by (simp add: filter_empty_conv)
        moreover have "set (take (off + length ?runs) ?V) \<subseteq> set (take off ?V) \<union> set ?runs"
          unfolding runs take_add by (auto simp: min_def)
        ultimately show ?thesis using "1.prems"(6) True unfolding V' by auto
      next
        case False
        have "off \<le> length ?V" using query_length True by fastforce
        have "filter (\<lambda>r. rr_ID r \<notin> rr_ID ` set (take ?n ?T)) (take off ?V @ drop off ?V)
            = take off ?V @ filter (\<lambda>r. rr_ID r \<notin> rr_ID ` set (take ?n ?T)) (drop off ?V)"
          using ids by (simp only: filter_append) (simp add: filter_id_conv)
        then have "take off (by_created (visible (rt_rows ?s'))) = take off ?V"
          unfolding V' append_take_drop_id using \<open>off \<le> length ?V\<close> by simp
        then show ?thesis using "1.prems"(6) False by simp
      qed
      have sizes: "dirSize ?s' = dirSize s - sum_list (map (log_size s) (take ?n ?T))"
        "shortest (log_size ?s') limit t (drop ?n ?T) = shortest (log_size s) limit t (drop ?n ?T)" for t
      proof -
        have d: "distinct (map rr_ID (take ?n ?T))" using dT by (simp flip: take_map)
        note fold = dirSize_fold_delete [OF "1.prems"(3) d]
        then show "dirSize ?s' = dirSize s - sum_list (map (log_size s) (take ?n ?T))" by (simp add: tk)
        have "rr_ID ` set (take ?n ?T) \<inter> rr_ID ` set (drop ?n ?T) = {}"
          using set_take_disj_set_drop_if_distinct [OF dT order_refl, of ?n] by (simp add: take_map drop_map)
        then show "shortest (log_size ?s') limit t (drop ?n ?T) = shortest (log_size s) limit t (drop ?n ?T)"
          using fold unfolding tk by (intro shortest_cong) (meson disjoint_iff image_eqI)
      qed
      let ?m = "shortest (log_size s) limit (dirSize ?s') (drop ?n ?T)"
      have wf': "rows_wf (rt_rows ?s')" "distinct (map fst (rt_logs ?s'))"
        using "1.prems"(2,3) by (simp_all add: rows_filter logs_fold_delete)
      have more: "\<not> \<not> limit < tot" "\<not> (df_query fl \<or> ?runs = [])" using True "1.prems"(5) by auto
      have "enforce_loop fl limit ?off (dirSize ?s') (d + ?n) ?s'
          = (d + ?n + ?m, dirSize (fold delete_run (take ?m (drop ?n ?T)) ?s'), fold delete_run (take ?m (drop ?n ?T)) ?s')"
        using "1.IH" [OF more(1) refl more(2) b [symmetric] refl refl wf' "1.prems"(4,5) off']
        unfolding T' sizes(2) .
      moreover have "shortest (log_size s) limit (dirSize s) ?T = ?n + ?m"
        using shortest_resume [of ?n "log_size s" limit "dirSize s" ?Tb ?rest] unfolding sizes(1) by (simp add: Tsplit)
      ultimately show ?thesis unfolding step by (simp add: take_add tk)
    qed
  qed
  then show ?thesis by simp
qed

text \<open>C11. The size cap deletes the oldest ended runs and no more of them than it takes. If no query,
  no deletion of a row and no removal of a file fails and the log directory is over a positive limit, there is a number of runs to delete
  such that exactly that many of the ended runs, oldest first, lose their row and their logs;
  deleting fewer of them would have left the directory over the limit; afterwards it is within the
  limit, unless no ended run is left. The total the loop tracks is the size of the directory, and
  the pass ends.\<close>

theorem size_cap_exact:
  assumes "rows_wf (rt_rows s)" "distinct (map fst (rt_logs s))" "\<not> df_query fl"
    and "\<forall>i. \<not> df_delete fl i" "\<forall>i p. \<not> df_remove fl i p" "0 < limit" "limit < dirSize s"
  shows "\<exists>m \<le> length (oldest_ended s).
    enforceMaxTotalSize fl limit s = (m, fold delete_run (take m (oldest_ended s)) s)
    \<and> (\<forall>j < m. limit < dirSize (fold delete_run (take j (oldest_ended s)) s))
    \<and> (dirSize (snd (enforceMaxTotalSize fl limit s)) \<le> limit \<or> m = length (oldest_ended s))"
proof -
  let ?T = "oldest_ended s" and ?m = "shortest (log_size s) limit (dirSize s) (oldest_ended s)"
  have dT: "distinct (map rr_ID ?T)"
    using distinct_by_created [OF assms(1)] by (simp add: oldest_ended_def distinct_map_filter)
  have size: "dirSize (fold delete_run (take j ?T) s) = dirSize s - sum_list (map (log_size s) (take j ?T))" for j
    using dirSize_fold_delete [OF assms(2), of "take j ?T"] dT by (simp flip: take_map)
  have e: "enforceMaxTotalSize fl limit s = (?m, fold delete_run (take ?m ?T) s)"
    using enforce_exact [OF assms(1,2) conjI [OF assms(4,5)] assms(3), of 0 limit 0] assms(6,7) by (simp add: enforceMaxTotalSize_def)
  show ?thesis
    using shortest_spec [of "log_size s" limit "dirSize s" ?T] e by (intro exI [of _ ?m]) (simp add: size)
qed

text \<open>If the deletion of a row fails, the loop goes on to the next run without looking at the total:
  the logs of runs are removed although the directory is already within the limit.\<close>

lemma failed_delete_overshoots:
  assumes "IsTerminal (Status (rr_run run))" "IsTerminal (Status (rr_run run'))" "df_delete fl (rr_ID run)"
    "df_delete fl (rr_ID run')"
  shows "deleteRunBatch fl limit [run, run'] tot d s
    = (d, tot - log_size s run - log_size (RemoveRunLogs fl (rr_ID run) s) run',
       RemoveRunLogs fl (rr_ID run') (RemoveRunLogs fl (rr_ID run) s))"
  using assms by (simp add: Let_def)

section \<open>The properties on a concrete store\<close>

definition sample_row :: "string \<Rightarrow> instant \<Rightarrow> runRow" where
  "sample_row i t = \<lparr>rr_run = example_run\<lparr>ID := i, CreatedAt := t\<rparr>, rr_deletedAt = None\<rparr>"

definition sample_store :: retention where
  "sample_store = \<lparr>rt_rows = [sample_row ''r2'' 200, sample_row ''r1'' 100, sample_row ''r3'' 300],
     rt_logs = [((''r1'', LogFile), 10), ((''r2'', LogFile), 20), ((''r2'', MetaFile), 1)],
     rt_other = 0, rt_published = [], rt_trace = []\<rparr>"

definition no_faults :: dbFaults where
  "no_faults = \<lparr>df_select = (\<lambda>_. False), df_deleteAll = False, df_delete = (\<lambda>_. False), df_query = False,
     df_remove = (\<lambda>_ _. False)\<rparr>"

lemmas sample_defs = sample_store_def sample_row_def no_faults_def example_run_def

lemma sample_sound: "deletes_soundly {} sample_store"
  by (auto simp: deletes_soundly_def no_orphans_def log_paths_def sample_store_def sample_row_def)

lemma none_failing: "failing no_faults = {}"
  by (simp add: failing_def no_faults_def)

theorem deletions_survive_crash_witness:
  "\<exists>xs. cleanOldRuns no_faults 1000 15 [example_task] sample_store = fold do_step xs sample_store
    \<and> (\<forall>n. deletes_soundly {} (fold do_step (take n xs) sample_store))"
  using deletions_survive_crash [OF sample_sound, where fl = no_faults and now = 1000
      and limit = 15 and ts = "[example_task]" and ttl = 0]
  unfolding Let_def none_failing Un_empty_left by blast

theorem size_cap_exact_witness:
  "\<exists>m \<le> length (oldest_ended sample_store).
    enforceMaxTotalSize no_faults 25 sample_store = (m, fold delete_run (take m (oldest_ended sample_store)) sample_store)"
  using size_cap_exact [of sample_store no_faults 25]
  by (auto simp: rows_wf_def sample_defs dirSize_def)

end
