(* ===== verification/Health.thy ===== *)
theory Health
  imports Notify_Event Cronspec Daemon "HOL-Library.Sublist"
begin

text \<open>
  The health check of a service instance (\<open>runtime/health/watcher.go\<close>), who may end a run on behalf of
  a policy (\<open>runKiller\<close> of \<open>executor/run_control.go\<close>), and what the manager makes of both
  (\<open>runtime/service_health.go\<close>). The injected clock, sleep and probe of the watcher are a list of
  observations, one per turn of a loop; the go-cron schedule is a function. A watcher whose
  observations run out is still watching, which is the result \<open>None\<close>.
\<close>

section \<open>Ending a run on behalf of a policy\<close>

text \<open>\<open>rk_ctxDone\<close> is whether the context under the killer has ended, by the killer or by its parent: a
  timeout or an operator's stop.\<close>

record runKiller =
  rk_reason :: "EndReason option"
  rk_sealed :: bool
  rk_ctxDone :: bool

definition newRunKiller :: runKiller where
  "newRunKiller = \<lparr>rk_reason = None, rk_sealed = False, rk_ctxDone = False\<rparr>"

definition rk_kill :: "EndReason \<Rightarrow> runKiller \<Rightarrow> runKiller" where
  "rk_kill reason k =
     (if rk_sealed k \<or> rk_reason k \<noteq> None \<or> rk_ctxDone k then k
      else k\<lparr>rk_reason := Some reason, rk_ctxDone := True\<rparr>)"

definition rk_seal :: "runKiller \<Rightarrow> EndReason option \<times> runKiller" where
  "rk_seal k = (rk_reason k, k\<lparr>rk_sealed := True\<rparr>)"

datatype killerEvent = KPolicy EndReason | KParentEnds | KSeal

fun killer_step :: "killerEvent \<Rightarrow> runKiller \<Rightarrow> runKiller" where
  "killer_step (KPolicy reason) k = rk_kill reason k"
| "killer_step KParentEnds k = k\<lparr>rk_ctxDone := True\<rparr>"
| "killer_step KSeal k = snd (rk_seal k)"

section \<open>What a probe answers\<close>

record ProbeResult =
  pr_result :: ExecuteResult
  pr_Error :: "string option"
  pr_Output :: string
  pr_MatchedPattern :: string

text \<open>\<open>strconv.Quote\<close> of ASCII text; the bytes of other runes are kept, as those of printable runes are.\<close>

definition hex_nibble :: "nat \<Rightarrow> char" where
  "hex_nibble n = (if n < 10 then digit_char n else char_of (87 + n))"

definition quote_char :: "char \<Rightarrow> string" where
  "quote_char c =
     (let n = of_char c :: nat in
      if c = CHR 0x22 \<or> c = CHR 0x5C then [CHR 0x5C, c]
      else if n = 7 then [CHR 0x5C, CHR ''a''] else if n = 8 then [CHR 0x5C, CHR ''b'']
      else if n = 9 then [CHR 0x5C, CHR ''t''] else if n = 10 then [CHR 0x5C, CHR ''n'']
      else if n = 11 then [CHR 0x5C, CHR ''v''] else if n = 12 then [CHR 0x5C, CHR ''f'']
      else if n = 13 then [CHR 0x5C, CHR ''r'']
      else if n < 32 \<or> n = 127 then [CHR 0x5C, CHR ''x'', hex_nibble (n div 16), hex_nibble (n mod 16)]
      else [c])"

definition quote_string :: "string \<Rightarrow> string" where
  "quote_string s = CHR 0x22 # concat (map quote_char s) @ [CHR 0x22]"

section \<open>The watcher\<close>

record watcher =
  w_Probe :: Task
  w_Next :: "instant \<Rightarrow> instant"
  w_Started :: instant
  w_HealthyAfter :: duration

definition w_deadline :: "watcher \<Rightarrow> instant" where
  "w_deadline w = w_Started w + w_HealthyAfter w"

text \<open>One turn of a loop: the clock before the wait, whether the context was live after it, the probe's
  answer, whether the context had ended when the probe returned, and whether it had when the
  watcher, if this turn is its last, reads it for its verdict.\<close>

record observation =
  ob_now :: instant
  ob_live :: bool
  ob_res :: ProbeResult
  ob_done :: bool
  ob_ended :: bool

datatype watchEvent = WSlept duration | WChecked ProbeResult | WNote string | WHealthy

definition passed :: "watcher \<Rightarrow> ProbeResult \<Rightarrow> bool" where
  "passed w res \<longleftrightarrow> \<not> IsFailureReason (w_Probe w) (result_EndReason (pr_result res))
     (er_ExitCode (pr_result res)) (er_OutputMatched (pr_result res))"

definition describe :: "watcher \<Rightarrow> ProbeResult \<Rightarrow> string" where
  "describe w res =
     (let outcome =
        (case pr_Error res of
           Some e \<Rightarrow> e
         | None \<Rightarrow>
             if result_EndReason (pr_result res) = ReasonTimeout
             then ''timed out after '' @ Dur_String (TimeoutValue (w_Probe w))
             else if pr_MatchedPattern res \<noteq> []
             then ''exit '' @ fmt_int (er_ExitCode (pr_result res)) @ '', output matched failures pattern ''
               @ quote_string (pr_MatchedPattern res)
             else ''exit '' @ fmt_int (er_ExitCode (pr_result res)));
          output = Join '' '' (Fields (pr_Output res))
      in if output \<noteq> [] then outcome @ '': '' @ output else outcome)"

text \<open>What is returned, the observations left over, and what happened meanwhile.\<close>

type_synonym 'a watching = "'a option \<times> observation list \<times> watchEvent list"

definition after :: "watchEvent list \<Rightarrow> 'a watching \<Rightarrow> 'a watching" where
  "after es r = (case r of (x, obs, tr) \<Rightarrow> (x, obs, es @ tr))"

text \<open>Whether the probe passed, and, if not, whether the context is live.\<close>

fun awaitFirstPass :: "watcher \<Rightarrow> observation list \<Rightarrow> (bool \<times> bool) watching" where
  "awaitFirstPass w [] = (None, [], [])"
| "awaitFirstPass w (ob # obs) =
     (let next = w_Next w (ob_now ob) in
      if \<not> next < w_deadline w
      then (Some (False, ob_live ob \<and> \<not> ob_ended ob), obs,
            WSlept (time_sub (w_deadline w) (ob_now ob))
            # (if ob_live ob
               then [WNote (''health check did not pass within healthy_after ('' @ Dur_String (w_HealthyAfter w)
                       @ ''); stopping the instance as unhealthy'')]
               else []))
      else if \<not> ob_live ob then (Some (False, False), obs, [WSlept (time_sub next (ob_now ob))])
      else if ob_done ob
      then (Some (False, False), obs, [WSlept (time_sub next (ob_now ob)), WChecked (ob_res ob)])
      else if passed w (ob_res ob)
      then (Some (True, True), obs, [WSlept (time_sub next (ob_now ob)), WChecked (ob_res ob)])
      else after [WSlept (time_sub next (ob_now ob)), WChecked (ob_res ob),
                  WNote (''health check failed, ignored until it first passes: '' @ describe w (ob_res ob))]
             (awaitFirstPass w obs))"

text \<open>The retry chain from an attempt on; \<open>ended\<close> is whether the context has ended if the chain is over.\<close>

function retry_chain :: "watcher \<Rightarrow> bool \<Rightarrow> int \<Rightarrow> observation list \<Rightarrow> (bool \<times> bool) watching" where
  "retry_chain w ended attempt obs =
     (if \<not> attempt < RetryAttempts (w_Probe w)
      then (Some (False, \<not> ended), obs,
            [WNote (''health check failed '' @ fmt_int (RetryAttempts (w_Probe w) + 1)
               @ '' times in a row; stopping the instance as unhealthy'')])
      else case obs of
        [] \<Rightarrow> (None, [], [])
      | ob # obs' \<Rightarrow>
          (let wait = [WSlept (OrDefault (ComputeRetryDelay (w_Probe w) attempt) 0)] in
           if \<not> ob_live ob then (Some (False, False), obs', wait)
           else if ob_done ob then (Some (False, False), obs', wait @ [WChecked (ob_res ob)])
           else if passed w (ob_res ob)
           then (Some (True, True), obs', wait @ [WChecked (ob_res ob),
                   WNote ''health check passed again; the instance is healthy''])
           else after (wait @ [WChecked (ob_res ob),
                   WNote (''health check failed ('' @ fmt_int (attempt + 2) @ ''/''
                     @ fmt_int (RetryAttempts (w_Probe w) + 1) @ ''): '' @ describe w (ob_res ob))])
                  (retry_chain w (ob_ended ob) (attempt + 1) obs')))"
  by pat_completeness auto

termination
  by (relation "measure (\<lambda>(w, ended, attempt, obs). nat (RetryAttempts (w_Probe w) - attempt))") auto

declare retry_chain.simps [simp del]

definition recovers :: "watcher \<Rightarrow> bool \<Rightarrow> ProbeResult \<Rightarrow> observation list \<Rightarrow> (bool \<times> bool) watching" where
  "recovers w ended res obs =
     after [WNote (''health check failed (1/'' @ fmt_int (RetryAttempts (w_Probe w) + 1) @ ''): '' @ describe w res)]
       (retry_chain w ended 0 obs)"

lemma after_simps [simp]:
  "fst (after es r) = fst r" "fst (snd (after es r)) = fst (snd r)" "snd (snd (after es r)) = es @ snd (snd r)"
  by (cases r; simp add: after_def)+

lemma chain_consumes: "length (fst (snd (retry_chain w ended attempt obs))) \<le> length obs"
proof (induction w ended attempt obs rule: retry_chain.induct)
  case (1 w ended attempt obs)
  show ?case
  proof (cases "attempt < RetryAttempts (w_Probe w)")
    case True
    then show ?thesis
      using 1 [of "hd obs" "tl obs"] by (cases obs) (auto simp: retry_chain.simps [of w ended attempt] Let_def)
  qed (simp add: retry_chain.simps)
qed

lemma recovers_consumes: "recovers w ended res obs = (x, obs', tr) \<Longrightarrow> length obs' < Suc (length obs)"
  using chain_consumes [of w ended 0 obs] by (auto simp: recovers_def after_def less_Suc_eq_le split: prod.splits)

text \<open>The loop of \<open>Watch\<close> on a healthy instance.\<close>

function watch_loop :: "watcher \<Rightarrow> observation list \<Rightarrow> bool watching" where
  "watch_loop w [] = (None, [], [])"
| "watch_loop w (ob # obs) =
     (let wait = [WSlept (time_sub (w_Next w (ob_now ob)) (ob_now ob))] in
      if \<not> ob_live ob then (Some False, obs, wait)
      else if ob_done ob then (Some False, obs, wait @ [WChecked (ob_res ob)])
      else if passed w (ob_res ob) then after (wait @ [WChecked (ob_res ob)]) (watch_loop w obs)
      else case recovers w (ob_ended ob) (ob_res ob) obs of
        (None, obs', tr) \<Rightarrow> (None, obs', wait @ WChecked (ob_res ob) # tr)
      | (Some (True, _), obs', tr) \<Rightarrow> after (wait @ WChecked (ob_res ob) # tr) (watch_loop w obs')
      | (Some (False, alive), obs', tr) \<Rightarrow> (Some alive, obs', wait @ WChecked (ob_res ob) # tr))"
  by pat_completeness auto

termination
  by (relation "measure (\<lambda>(w, obs). length obs)") (auto dest: recovers_consumes [OF sym])

declare watch_loop.simps(2) [simp del]

definition Watch :: "watcher \<Rightarrow> observation list \<Rightarrow> bool watching" where
  "Watch w obs =
     (case awaitFirstPass w obs of
        (None, obs', tr) \<Rightarrow> (None, obs', tr)
      | (Some (False, alive), obs', tr) \<Rightarrow> (Some alive, obs', tr)
      | (Some (True, _), obs', tr) \<Rightarrow>
          after (tr @ [WNote ''health check passed; the instance is healthy'', WHealthy]) (watch_loop w obs'))"

text \<open>\<open>watchRun\<close>: what the manager and the killer of the run become, and the lines annotated to its log.
  \<open>zone_at\<close> is the zone of the daemon when a tick is computed, \<open>probe\<close> the task's health check.\<close>

definition probe_next :: "schedule \<Rightarrow> (instant \<Rightarrow> zone) \<Rightarrow> Task \<Rightarrow> instant \<Rightarrow> instant" where
  "probe_next sched zone_at probe t = sched_next sched (if Timezone probe = [] then zone_at t else Local) t"

definition watcher_of :: "cronLib \<Rightarrow> (instant \<Rightarrow> zone) \<Rightarrow> Task \<Rightarrow> Task \<Rightarrow> instant \<Rightarrow> watcher option" where
  "watcher_of lib zone_at task probe startedAt =
     (case parse_schedule lib (fst (Resolve_spec lib (Cron probe) (Timezone probe) None)) of
        None \<Rightarrow> None
      | Some sched \<Rightarrow> Some \<lparr>w_Probe = probe, w_Next = probe_next sched zone_at probe, w_Started = startedAt,
          w_HealthyAfter = OrDefault (HealthyAfter task) DefaultHealthyAfter\<rparr>)"

definition annotated :: "watchEvent list \<Rightarrow> string list" where
  "annotated tr = concat (map (\<lambda>e. case e of WNote n \<Rightarrow> [n] | _ \<Rightarrow> []) tr)"

definition watchRun ::
  "cronLib \<Rightarrow> (instant \<Rightarrow> zone) \<Rightarrow> Task \<Rightarrow> Task option \<Rightarrow> Run \<Rightarrow> observation list \<Rightarrow> manager \<Rightarrow> runKiller
     \<Rightarrow> string list \<times> manager \<times> runKiller" where
  "watchRun lib zone_at task probe run obs m k =
     (case (probe, StartedAt run) of
        (Some p, Some startedAt) \<Rightarrow>
          if \<not> IsService (TKind task) then ([], m, k)
          else (case watcher_of lib zone_at task p startedAt of
              None \<Rightarrow> ([''health check disabled: invalid cron '' @ Cron p], m, k)
            | Some w \<Rightarrow>
                (case Watch w obs of (gaveUp, _, tr) \<Rightarrow>
                   (annotated tr,
                    if WHealthy \<in> set tr then markServiceHealthy (Name task) run m else m,
                    if gaveUp = Some True then rk_kill ReasonUnhealthy k else k)))
      | _ \<Rightarrow> ([], m, k))"

section \<open>The first to end a run names its reason\<close>

lemma killer_stuck: "rk_ctxDone k \<or> rk_sealed k \<Longrightarrow> rk_reason (fold killer_step es k) = rk_reason k
    \<and> (rk_ctxDone (fold killer_step es k) \<or> rk_sealed (fold killer_step es k))"
proof (induction es arbitrary: k)
  case (Cons e es)
  then show ?case using Cons.IH [of "killer_step e k"] by (cases e) (auto simp: rk_kill_def rk_seal_def)
qed simp

text \<open>Whoever ends a run first names the reason. Of all the policies that want a run killed, its
  timeout, an operator's stop and its own exit, the first to act decides: the run is recorded under
  a policy's reason exactly if that policy was first, and no later kill relabels it.\<close>

lemma first_kill_wins:
  "fst (rk_seal (fold killer_step es newRunKiller)) = (case es of KPolicy reason # _ \<Rightarrow> Some reason | _ \<Rightarrow> None)"
proof (cases es)
  case (Cons e es')
  then show ?thesis using killer_stuck [of "killer_step e newRunKiller" es']
    by (cases e) (auto simp: rk_seal_def rk_kill_def newRunKiller_def)
qed (simp add: rk_seal_def newRunKiller_def)

section \<open>When a watcher gives up on an instance\<close>

definition checks :: "watchEvent list \<Rightarrow> ProbeResult list" where
  "checks tr = concat (map (\<lambda>e. case e of WChecked r \<Rightarrow> [r] | _ \<Rightarrow> []) tr)"

lemma checks_simps [simp]:
  "checks [] = []" "checks (WChecked r # tr) = r # checks tr" "checks (WSlept d # tr) = checks tr"
  "checks (WNote n # tr) = checks tr" "checks (WHealthy # tr) = checks tr"
  "checks (tr @ tr') = checks tr @ checks tr'"
  by (simp_all add: checks_def)

definition budget :: "watcher \<Rightarrow> nat" where
  "budget w = Suc (nat (RetryAttempts (w_Probe w)))"

definition cut_short :: "observation \<Rightarrow> bool" where
  "cut_short ob \<longleftrightarrow> \<not> ob_live ob \<or> ob_done ob \<or> ob_ended ob"

lemma chain_verdict:
  assumes "0 \<le> attempt" "attempt \<le> max 0 (RetryAttempts (w_Probe w))" "retry_chain w ended attempt obs = (Some (b, alive), obs', tr)"
  shows "(\<not> b \<and> alive \<longrightarrow> length (checks tr) = nat (RetryAttempts (w_Probe w) - attempt) \<and> (\<forall>r\<in>set (checks tr). \<not> passed w r))
    \<and> (\<not> b \<and> \<not> alive \<longrightarrow> ended \<or> (\<exists>ob\<in>set obs. cut_short ob))
    \<and> WHealthy \<notin> set tr \<and> set obs' \<subseteq> set obs"
  using assms
proof (induction w ended attempt obs arbitrary: b alive obs' tr rule: retry_chain.induct)
  case (1 w ended attempt obs)
  show ?case
  proof (cases "attempt < RetryAttempts (w_Probe w)")
    case False
    then show ?thesis using 1(4) by (auto simp: retry_chain.simps [of w ended attempt])
  next
    case True
    then obtain ob obs1 where obs: "obs = ob # obs1" using 1(4) by (cases obs) (auto simp: retry_chain.simps [of w ended attempt])
    show ?thesis
    proof (cases "ob_live ob \<and> \<not> ob_done ob \<and> \<not> passed w (ob_res ob)")
      case False
      then show ?thesis using 1(4) True
        by (auto simp: retry_chain.simps [of w ended attempt] obs Let_def cut_short_def split: if_splits)
    next
      case fails: True
      obtain x obs2 tr2 where r: "retry_chain w (ob_ended ob) (attempt + 1) obs1 = (x, obs2, tr2)" by (metis prod_cases3)
      then have x: "x = Some (b, alive)" "obs2 = obs'" and tr: "checks tr = ob_res ob # checks tr2" "WHealthy \<in> set tr \<longleftrightarrow> WHealthy \<in> set tr2"
        using 1(4) True fails by (auto simp: retry_chain.simps [of w ended attempt] obs Let_def after_def)
      have "nat (RetryAttempts (w_Probe w) - attempt) = Suc (nat (RetryAttempts (w_Probe w) - (attempt + 1)))" using True by simp
      moreover note 1(1) [OF _ obs refl _ _ _ _ _ r [unfolded x(1)]]
      ultimately show ?thesis using True fails 1(2) x tr by (auto simp: obs cut_short_def)
    qed
  qed
qed

text \<open>The last checks of a trace failed, all of them, as many as the budget has.\<close>

definition exhausted :: "watcher \<Rightarrow> watchEvent list \<Rightarrow> bool" where
  "exhausted w tr \<longleftrightarrow> (\<exists>cs fs. checks tr = cs @ fs \<and> length fs = budget w \<and> (\<forall>r\<in>set fs. \<not> passed w r))"

lemma exhausted_after: "exhausted w tr \<Longrightarrow> exhausted w (es @ tr)"
  unfolding exhausted_def by (metis append.assoc checks_simps(6))

lemma recovers_verdict:
  assumes "recovers w ended res obs = (Some (b, alive), obs', tr)"
  shows "(\<not> b \<and> alive \<longrightarrow> Suc (length (checks tr)) = budget w \<and> (\<forall>r\<in>set (checks tr). \<not> passed w r))
    \<and> (\<not> b \<and> \<not> alive \<longrightarrow> ended \<or> (\<exists>ob\<in>set obs. cut_short ob)) \<and> WHealthy \<notin> set tr \<and> set obs' \<subseteq> set obs"
proof -
  obtain tr1 where "retry_chain w ended 0 obs = (Some (b, alive), obs', tr1)" "checks tr = checks tr1"
    "WHealthy \<in> set tr \<longleftrightarrow> WHealthy \<in> set tr1"
    using assms by (auto simp: recovers_def after_def split: prod.splits)
  with chain_verdict [of 0 w ended obs b alive obs' tr1] show ?thesis by (auto simp: budget_def)
qed

lemma loop_verdict:
  "watch_loop w obs = (Some b, obs', tr) \<Longrightarrow>
    (b \<longrightarrow> exhausted w tr) \<and> (\<not> b \<longrightarrow> (\<exists>ob\<in>set obs. cut_short ob)) \<and> WHealthy \<notin> set tr"
proof (induction w obs arbitrary: b obs' tr rule: watch_loop.induct)
  case (2 w ob obs)
  let ?wait = "[WSlept (time_sub (w_Next w (ob_now ob)) (ob_now ob))]"
  consider (cut) "\<not> ob_live ob \<or> ob_done ob" | (ok) "ob_live ob" "\<not> ob_done ob" "passed w (ob_res ob)"
    | (bad) "ob_live ob" "\<not> ob_done ob" "\<not> passed w (ob_res ob)" by blast
  then show ?case
  proof cases
    case cut
    then show ?thesis using 2(3) by (auto simp: watch_loop.simps(2) Let_def cut_short_def split: if_splits)
  next
    case ok
    obtain x obs2 tr2 where r: "watch_loop w obs = (x, obs2, tr2)" by (metis prod_cases3)
    then have "x = Some b" "tr = (?wait @ [WChecked (ob_res ob)]) @ tr2" using 2(3) ok by (auto simp: watch_loop.simps(2) Let_def after_def)
    then show ?thesis using 2(1) [OF refl _ _ ok(3), of b obs2 tr2] r ok
        exhausted_after [of w tr2 "?wait @ [WChecked (ob_res ob)]"] by auto
  next
    case bad
    obtain y obs1 tr1 where rec: "recovers w (ob_ended ob) (ob_res ob) obs = (y, obs1, tr1)" by (metis prod_cases3)
    show ?thesis
    proof (cases y)
      case None
      then show ?thesis using 2(3) bad rec by (simp add: watch_loop.simps(2) Let_def)
    next
      case (Some z)
      obtain pass alive where z: "z = (pass, alive)" by (cases z)
      note v = recovers_verdict [OF rec [unfolded Some z]]
      show ?thesis
      proof (cases pass)
        case False
        then have "b = alive" "tr = ?wait @ WChecked (ob_res ob) # tr1"
          using 2(3) bad rec Some z by (auto simp: watch_loop.simps(2) Let_def)
        moreover have "exhausted w tr" if "alive"
          unfolding exhausted_def using calculation v that False bad(3)
          by (intro exI [of _ "[]"] exI [of _ "ob_res ob # checks tr1"]) auto
        ultimately show ?thesis using v False by (auto simp: cut_short_def)
      next
        case True
        obtain x obs2 tr2 where r: "watch_loop w obs1 = (x, obs2, tr2)" by (metis prod_cases3)
        then have "x = Some b" "tr = (?wait @ WChecked (ob_res ob) # tr1) @ tr2"
          using 2(3) bad rec Some z True by (auto simp: watch_loop.simps(2) Let_def after_def)
        then show ?thesis
          using 2(2) [OF refl _ _ _ rec [symmetric] Some z [symmetric] _ refl, of b obs2 tr2] r bad v True
            exhausted_after [of w tr2 "?wait @ WChecked (ob_res ob) # tr1"] by auto
      qed
    qed
  qed
qed simp

lemma first_verdict:
  "awaitFirstPass w obs = (Some (b, alive), obs', tr) \<Longrightarrow>
    (b \<longrightarrow> (\<exists>r\<in>set (checks tr). passed w r))
    \<and> (\<not> b \<and> alive \<longrightarrow> (\<forall>r\<in>set (checks tr). \<not> passed w r) \<and> (\<exists>ob\<in>set obs. w_deadline w \<le> w_Next w (ob_now ob)))
    \<and> (\<not> b \<and> \<not> alive \<longrightarrow> (\<exists>ob\<in>set obs. cut_short ob))
    \<and> WHealthy \<notin> set tr \<and> set obs' \<subseteq> set obs"
proof (induction w obs arbitrary: b alive obs' tr rule: awaitFirstPass.induct)
  case (2 w ob obs)
  obtain x obs2 tr2 where r: "awaitFirstPass w obs = (x, obs2, tr2)" by (metis prod_cases3)
  show ?case
    using 2(2) 2(1) [OF refl, of b alive obs2 tr2] r
    by (auto simp: Let_def cut_short_def after_def split: if_splits)
qed simp

text \<open>A service instance is only ever ended as unhealthy with cause. If watching a run makes its
  recorded reason \<open>unhealthy\<close>, then the task is a service with a health check, and either no check
  passed and the next one would have come after the deadline for the first pass, or some check had
  passed and the last \<open>retry_attempts\<close> + 1 checks all failed. A watcher returns without a verdict only
  because the run's context ended.\<close>

lemma unhealthy_has_cause:
  assumes "watchRun lib zone_at task probe run obs m k = (lines, m', k')"
    and "rk_reason k = None" "rk_reason k' \<noteq> None"
  shows "\<exists>p startedAt w rest tr. probe = Some p \<and> StartedAt run = Some startedAt \<and> IsService (TKind task)
    \<and> watcher_of lib zone_at task p startedAt = Some w \<and> Watch w obs = (Some True, rest, tr)
    \<and> rk_reason k' = Some ReasonUnhealthy
    \<and> (if WHealthy \<in> set tr then exhausted w tr \<and> (\<exists>r\<in>set (checks tr). passed w r)
       else m' = m \<and> (\<forall>r\<in>set (checks tr). \<not> passed w r) \<and> (\<exists>ob\<in>set obs. w_deadline w \<le> w_Next w (ob_now ob)))"
proof -
  obtain p startedAt w rest tr where w: "probe = Some p" "StartedAt run = Some startedAt" "IsService (TKind task)"
    "watcher_of lib zone_at task p startedAt = Some w" "Watch w obs = (Some True, rest, tr)"
    "k' = rk_kill ReasonUnhealthy k" "m' = (if WHealthy \<in> set tr then markServiceHealthy (Name task) run m else m)"
    using assms by (auto simp: watchRun_def split: option.splits if_splits prod.splits)
  obtain x obs1 tr1 where first: "awaitFirstPass w obs = (x, obs1, tr1)" by (metis prod_cases3)
  obtain y obs2 tr2 where loop: "watch_loop w obs1 = (y, obs2, tr2)" by (metis prod_cases3)
  obtain b alive where x: "x = Some (b, alive)" using w(5) first by (cases x) (auto simp: Watch_def)
  note v = first_verdict [OF first [unfolded x]]
  have "if WHealthy \<in> set tr then exhausted w tr \<and> (\<exists>r\<in>set (checks tr). passed w r)
      else (\<forall>r\<in>set (checks tr). \<not> passed w r) \<and> (\<exists>ob\<in>set obs. w_deadline w \<le> w_Next w (ob_now ob))"
  proof (cases b)
    case True
    then have y: "y = Some True" and tr: "tr = (tr1 @ [WNote ''health check passed; the instance is healthy'', WHealthy]) @ tr2"
      using w(5) first x loop by (auto simp: Watch_def after_def)
    show ?thesis using loop_verdict [OF loop [unfolded y]] v True
        exhausted_after [of w tr2 "tr1 @ [WNote ''health check passed; the instance is healthy'', WHealthy]"]
      by (auto simp: tr)
  next
    case False
    then show ?thesis using w(5) first x v by (auto simp: Watch_def)
  qed
  moreover have "rk_reason k' = Some ReasonUnhealthy" using w(6) assms(2,3) by (auto simp: rk_kill_def split: if_splits)
  ultimately show ?thesis using w by (intro exI conjI) auto
qed

section \<open>A live watcher decides on consecutive failures alone\<close>

definition live_obs :: "observation list \<Rightarrow> bool" where
  "live_obs obs \<longleftrightarrow> (\<forall>ob\<in>set obs. \<not> cut_short ob)"

text \<open>The reference: a counter of failures in a row.\<close>

fun streak :: "nat \<Rightarrow> nat \<Rightarrow> bool list \<Rightarrow> bool" where
  "streak k c [] = (k \<le> c)"
| "streak k c (b # bs) = (k \<le> c \<or> streak k (if b then 0 else Suc c) bs)"

lemma streak_full: "k \<le> c \<Longrightarrow> streak k c bs"
  by (cases bs) auto

lemma run_in_run: "sublist (replicate k x) (replicate c x) \<longleftrightarrow> k \<le> c"
proof
  assume "sublist (replicate k x) (replicate c x)"
  then show "k \<le> c" using sublist_length_le by fastforce
next
  assume "k \<le> c"
  then have "replicate c x = replicate k x @ replicate (c - k) x" by (simp flip: replicate_add)
  then show "sublist (replicate k x) (replicate c x)" by (metis sublist_append_rightI)
qed

lemma run_past_pass:
  assumes "0 < k"
  shows "sublist (replicate k False) (replicate c False @ True # bs) \<longleftrightarrow> k \<le> c \<or> sublist (replicate k False) bs"
proof -
  have pre: "prefix (replicate j False) (True # bs) \<longleftrightarrow> j = 0" for j by (cases j) auto
  have "sublist (replicate k False) (replicate c False) \<longleftrightarrow> k \<le> c" by (rule run_in_run)
  moreover have "sublist (replicate k False) (True # bs) \<longleftrightarrow> sublist (replicate k False) bs"
    using assms pre [of k] by (auto simp: sublist_Cons_right)
  moreover have "suffix xs1 (replicate c False) \<and> prefix xs2 (True # bs) \<and> replicate k False = xs1 @ xs2 \<Longrightarrow> k \<le> c" for xs1 xs2
  proof -
    assume a: "suffix xs1 (replicate c False) \<and> prefix xs2 (True # bs) \<and> replicate k False = xs1 @ xs2"
    then have "xs2 = replicate (length xs2) False" by (metis append_eq_append_conv_if length_replicate replicate_length_same in_set_conv_decomp in_set_replicate Un_iff set_append)
    then have "xs2 = []" using a pre by (metis replicate_0)
    then show "k \<le> c" using a suffix_length_le [of xs1 "replicate c False"] by (metis append_Nil2 length_replicate)
  qed
  ultimately show ?thesis by (auto simp: sublist_append)
qed

lemma streak_run: "0 < k \<Longrightarrow> streak k c bs \<longleftrightarrow> sublist (replicate k False) (replicate c False @ bs)"
proof (induction bs arbitrary: c)
  case Nil
  then show ?case by (simp add: run_in_run)
next
  case (Cons b bs)
  show ?case
  proof (cases b)
    case True
    then show ?thesis using Cons run_past_pass [OF Cons.prems, of c bs] by simp
  next
    case False
    have eq: "replicate c False @ False # bs = False # replicate c False @ bs" by (simp add: replicate_app_Cons_same)
    have "k \<le> c \<Longrightarrow> sublist (replicate k False) (False # replicate c False @ bs)"
      using streak_full [of k "Suc c" bs] Cons by simp
    then show ?thesis using Cons False by (auto simp: eq)
  qed
qed

lemma chain_live:
  assumes "live_obs obs" "0 \<le> attempt" "attempt \<le> max 0 (RetryAttempts (w_Probe w))"
    "retry_chain w False attempt obs = (x, obs', tr)"
  shows "case x of
      None \<Rightarrow> \<not> streak (budget w) (Suc (nat attempt)) (map (\<lambda>ob. passed w (ob_res ob)) obs)
    | Some (True, _) \<Rightarrow> streak (budget w) (Suc (nat attempt)) (map (\<lambda>ob. passed w (ob_res ob)) obs)
        = streak (budget w) 0 (map (\<lambda>ob. passed w (ob_res ob)) obs') \<and> live_obs obs'
    | Some (False, alive) \<Rightarrow> alive \<and> streak (budget w) (Suc (nat attempt)) (map (\<lambda>ob. passed w (ob_res ob)) obs)"
  using assms
proof (induction obs arbitrary: attempt x obs' tr)
  case Nil
  then show ?case
    by (auto simp: retry_chain.simps [of w False attempt] budget_def split: if_splits)
next
  case (Cons ob obs)
  have live: "ob_live ob" "\<not> ob_done ob" "\<not> ob_ended ob" "live_obs obs"
    using Cons.prems(1) by (auto simp: live_obs_def cut_short_def)
  show ?case
  proof (cases "attempt < RetryAttempts (w_Probe w)")
    case False
    then show ?thesis using Cons.prems(2-4)
      by (auto simp: retry_chain.simps [of w False attempt] budget_def)
  next
    case True
    then have few: "\<not> budget w \<le> Suc (nat attempt)" using Cons.prems(2) by (simp add: budget_def)
    show ?thesis
    proof (cases "passed w (ob_res ob)")
      case True
      then show ?thesis using Cons.prems(4) live few \<open>attempt < RetryAttempts (w_Probe w)\<close>
        by (auto simp: retry_chain.simps [of w False attempt] Let_def)
    next
      case False
      obtain y obs2 tr2 where r: "retry_chain w False (attempt + 1) obs = (y, obs2, tr2)" by (metis prod_cases3)
      then have "y = x" "obs2 = obs'" using Cons.prems(4) live False True
        by (auto simp: retry_chain.simps [of w False attempt] Let_def after_def)
      moreover have "nat (attempt + 1) = Suc (nat attempt)" using Cons.prems(2) by simp
      ultimately show ?thesis
        using Cons.IH [OF live(4) _ _ r] Cons.prems(2) True False few by (auto split: option.splits bool.splits)
    qed
  qed
qed

lemma loop_live:
  "live_obs obs \<Longrightarrow> fst (watch_loop w obs)
    = (if streak (budget w) 0 (map (\<lambda>ob. passed w (ob_res ob)) obs) then Some True else None)"
proof (induction w obs rule: watch_loop.induct)
  case (1 w)
  then show ?case by (simp add: budget_def)
next
  case (2 w ob obs)
  have live: "ob_live ob" "\<not> ob_done ob" "\<not> ob_ended ob" "live_obs obs"
    using 2(3) by (auto simp: live_obs_def cut_short_def)
  show ?case
  proof (cases "passed w (ob_res ob)")
    case True
    then show ?thesis using 2(1) [OF refl _ _ True] live by (simp add: watch_loop.simps(2) Let_def budget_def)
  next
    case False
    obtain y obs1 tr1 where c: "retry_chain w False 0 obs = (y, obs1, tr1)" by (metis prod_cases3)
    then obtain tr2 where rec: "recovers w (ob_ended ob) (ob_res ob) obs = (y, obs1, tr2)"
      using live by (simp add: recovers_def after_def)
    note v = chain_live [OF live(4) _ _ c]
    have bs: "streak (budget w) 0 (map (\<lambda>ob. passed w (ob_res ob)) (ob # obs))
        = streak (budget w) (Suc (nat 0)) (map (\<lambda>ob. passed w (ob_res ob)) obs)"
      using False by (simp add: budget_def)
    show ?thesis
    proof (cases y)
      case None
      then show ?thesis using v bs live False rec by (simp add: watch_loop.simps(2) Let_def)
    next
      case (Some z)
      obtain pass alive where z: "z = (pass, alive)" by (cases z)
      show ?thesis
      proof (cases pass)
        case False
        then show ?thesis using v bs live \<open>\<not> passed w (ob_res ob)\<close> rec Some z by (simp add: watch_loop.simps(2) Let_def)
      next
        case True
        then show ?thesis
          using v bs live \<open>\<not> passed w (ob_res ob)\<close> rec Some z
            2(2) [OF refl _ _ _ rec [symmetric] Some z [symmetric] _ refl]
          by (simp add: watch_loop.simps(2) Let_def)
      qed
    qed
  qed
qed

lemma first_live:
  assumes "live_obs (fs @ ob # obs)"
    and "\<forall>f\<in>set fs. w_Next w (ob_now f) < w_deadline w \<and> \<not> passed w (ob_res f)"
  shows "fst (awaitFirstPass w (fs @ ob # obs))
      = (if \<not> w_Next w (ob_now ob) < w_deadline w then Some (False, True)
         else if passed w (ob_res ob) then Some (True, True) else fst (awaitFirstPass w (fs @ ob # obs)))
    \<and> (\<not> w_Next w (ob_now ob) < w_deadline w \<or> passed w (ob_res ob) \<longrightarrow>
        fst (snd (awaitFirstPass w (fs @ ob # obs))) = obs)"
  using assms by (induction fs) (auto simp: live_obs_def cut_short_def Let_def)

text \<open>C16. While the run lives, a health check decides exactly as documented. Failures before the first
  pass are without consequence until the deadline; if no check passed before a tick at or after it,
  the instance is unhealthy and never counted as healthy. Once a check has passed in time, the
  instance is given up if and only if some \<open>retry_attempts\<close> + 1 consecutive checks fail, however checks
  and retries fall, and it is watched on otherwise.\<close>

theorem health_check_exact:
  assumes "live_obs (fs @ ob # obs)"
    and "\<forall>f\<in>set fs. w_Next w (ob_now f) < w_deadline w \<and> \<not> passed w (ob_res f)"
  shows "(w_deadline w \<le> w_Next w (ob_now ob) \<longrightarrow>
        fst (Watch w (fs @ ob # obs)) = Some True \<and> WHealthy \<notin> set (snd (snd (Watch w (fs @ ob # obs)))))
    \<and> (w_Next w (ob_now ob) < w_deadline w \<and> passed w (ob_res ob) \<longrightarrow>
        WHealthy \<in> set (snd (snd (Watch w (fs @ ob # obs)))) \<and>
        fst (Watch w (fs @ ob # obs)) =
          (if sublist (replicate (budget w) False) (map (\<lambda>ob. passed w (ob_res ob)) obs) then Some True else None))"
proof -
  obtain x obs1 tr where f: "awaitFirstPass w (fs @ ob # obs) = (x, obs1, tr)" by (metis prod_cases3)
  note v = first_live [OF assms, unfolded f]
  have live: "live_obs obs" using assms(1) by (auto simp: live_obs_def)
  have run: "streak (budget w) 0 bs \<longleftrightarrow> sublist (replicate (budget w) False) bs" for bs
    using streak_run [of "budget w" 0 bs] by (simp add: budget_def)
  show ?thesis
  proof (cases "w_Next w (ob_now ob) < w_deadline w")
    case False
    then have "x = Some (False, True)" using v by simp
    then show ?thesis using False f first_verdict [of w "fs @ ob # obs" False True obs1 tr] by (simp add: Watch_def)
  next
    case True
    then show ?thesis using v f loop_live [OF live, of w, unfolded run] by (auto simp: Watch_def)
  qed
qed

text \<open>Starting up does not last for ever: if the clock moves on to each tick it waited for and ticks
  are later than the time they are computed from, the phase before the first pass ends after at most
  as many turns as there are nanoseconds to the deadline, with a pass, with the deadline, or because
  the run ended.\<close>

lemma first_pass_decided:
  assumes "\<forall>t. t < w_Next w t" and "\<forall>i. Suc i < length obs \<longrightarrow> w_Next w (ob_now (obs ! i)) \<le> ob_now (obs ! Suc i)"
    and "obs \<noteq> []" and "int (length obs) > w_deadline w - ob_now (hd obs)"
  shows "fst (awaitFirstPass w obs) \<noteq> None"
  using assms(2-4)
proof (induction obs)
  case (Cons ob obs)
  show ?case
  proof (cases "w_Next w (ob_now ob) < w_deadline w \<and> ob_live ob \<and> \<not> ob_done ob \<and> \<not> passed w (ob_res ob)")
    case False
    then show ?thesis by (auto simp: Let_def)
  next
    case True
    have later: "ob_now ob < w_Next w (ob_now ob)" using assms(1) by blast
    have "obs \<noteq> []" using Cons.prems(3) True later by auto
    then obtain ob' obs' where obs: "obs = ob' # obs'" by (cases obs) auto
    have "w_Next w (ob_now ob) \<le> ob_now ob'" using Cons.prems(1) [rule_format, of 0] by (simp add: obs)
    moreover have "\<forall>i. Suc i < length obs \<longrightarrow> w_Next w (ob_now (obs ! i)) \<le> ob_now (obs ! Suc i)"
      using Cons.prems(1) by (metis Suc_less_eq length_Cons nth_Cons_Suc)
    ultimately have "fst (awaitFirstPass w obs) \<noteq> None" using Cons.IH Cons.prems(3) later obs by auto
    then show ?thesis using True by (simp add: Let_def)
  qed
qed simp

section \<open>The properties on a concrete instance\<close>

definition web_probe :: Task where
  "web_probe = example_task\<lparr>RetryAttempts := 1, Cron := ''@hourly-ish''\<rparr>"

definition web_watcher :: watcher where
  "web_watcher = \<lparr>w_Probe = web_probe, w_Next = (\<lambda>t. t + hour), w_Started = 0, w_HealthyAfter = 2 * hour\<rparr>"

definition web_service :: Task where
  "web_service = example_task\<lparr>Name := ''web'', TKind := KindService, HealthyAfter := Some (2 * hour)\<rparr>"

definition answer :: "instant \<Rightarrow> int \<Rightarrow> observation" where
  "answer t code = \<lparr>ob_now = t, ob_live = True,
     ob_res = \<lparr>pr_result = \<lparr>er_ExitCode = code, er_TimedOut = False, er_Stopped = False, er_KillReason = None,
         er_OutputMatched = False, er_PeakMemoryBytes = None, er_CPUTimeMs = None, er_StdoutLines = 0, er_StderrLines = 0\<rparr>,
       pr_Error = None, pr_Output = [], pr_MatchedPattern = []\<rparr>,
     ob_done = False, ob_ended = False\<rparr>"

lemma passed_answer: "passed web_watcher (ob_res (answer t code)) \<longleftrightarrow> code = 0"
  by (simp add: passed_def answer_def web_watcher_def web_probe_def result_EndReason_def example_task_def
      IsFailureReason_def DefaultFailures_def defaultFailureReasons_def FailedExecutionReasons_def)

lemma hourly_parses:
  "parse_schedule example_lib ''@hourly-ish'' = Some (schedule_of example_lib (ConstantDelay (\<lambda>t. t + hour)))"
proof -
  have "wrappedDowRanges ''@hourly-ish'' = ''@hourly-ish''" by code_simp
  moreover have "fieldsAfterTZ ''@hourly-ish'' = [''@hourly-ish'']" by code_simp
  ultimately show ?thesis
    by (simp add: parse_schedule_def Parse_def fractionalEvery_def example_lib_def)
qed

lemma web_watched:
  "watcher_of example_lib (\<lambda>_. Local) web_service web_probe 1000 = Some
     \<lparr>w_Probe = web_probe, w_Next = (\<lambda>t. t + hour), w_Started = 1000, w_HealthyAfter = 2 * hour\<rparr>"
proof -
  have "Cron web_probe = ''@hourly-ish''" "Timezone web_probe = []" "HealthyAfter web_service = Some (2 * hour)"
    by (simp_all add: web_probe_def web_service_def example_task_def)
  then show ?thesis
    by (simp add: watcher_of_def Resolve_spec_def hourly_parses probe_next_def [abs_def] schedule_of_def OrDefault_def)
qed

theorem health_check_exact_witness:
  "fst (Watch web_watcher [answer 0 0, answer hour 1, answer (2 * hour) 1]) = Some True"
proof -
  have "live_obs [answer 0 0, answer hour 1, answer (2 * hour) 1]"
    by (simp add: live_obs_def cut_short_def answer_def)
  moreover have "w_Next web_watcher (ob_now (answer 0 0)) < w_deadline web_watcher"
    by (simp add: web_watcher_def answer_def w_deadline_def time_defs)
  moreover have "replicate (budget web_watcher) False = [False, False]"
    by (simp add: budget_def web_watcher_def web_probe_def)
  ultimately show ?thesis
    using health_check_exact [of "[]" "answer 0 0" "[answer hour 1, answer (2 * hour) 1]" web_watcher]
    by (simp add: passed_answer)
qed

end
