(* ===== verification/Persistence.thy ===== *)
theory Persistence
  imports Task_Model
begin

text \<open>
  The persistence of run transitions (\<open>runtime/persistence.go\<close>): a buffered channel between the callers
  and one worker, whose interleavings with each other and with a shutdown are the steps of a relation.
  A \<open>select\<close> with two ready cases may take either. The buffer has room for at least one task, and the
  channel keeps the order in which sends succeeded.
\<close>

section \<open>The coordinator\<close>

datatype persistTask = Persist Run bool | FlushMark nat

text \<open>The context an application of a task starts under: the worker's own, or the one that drops its
  cancellation.\<close>

datatype applyCtx = WorkerCtx | DrainCtx

text \<open>Where the worker is: at one of its two selects, between the receive and the check of the context,
  between the check and the start of \<open>apply\<close>, inside \<open>apply\<close>, or gone. The flag is set for a task of
  the draining loop.\<close>

datatype workerPhase =
    Selecting | Draining
  | Received persistTask
  | Checked persistTask applyCtx bool
  | InApply persistTask applyCtx bool
  | WorkerDone

text \<open>The fields after the worker's phase record what happened: the tasks whose \<open>apply\<close> started, each with
  whether its context was cancelled at that moment, those whose \<open>apply\<close> returned, the flushes
  acknowledged, the tasks that entered the channel, how many had entered and how many were applied
  when the context was cancelled, and the tasks given up because it was.\<close>

record coordinator =
  pc_hook :: bool
  pc_size :: nat
  pc_ch :: "persistTask list"
  pc_cancelled :: bool
  pc_worker :: workerPhase
  pc_started :: "(persistTask \<times> bool) list"
  pc_applied :: "persistTask list"
  pc_flushed :: "nat set"
  pc_entered :: "persistTask list"
  pc_before :: nat
  pc_appliedBefore :: nat
  pc_refused :: "persistTask list"

definition NewPersistenceCoordinator :: "nat \<Rightarrow> coordinator" where
  "NewPersistenceCoordinator bufferSize =
     \<lparr>pc_hook = False, pc_size = bufferSize, pc_ch = [], pc_cancelled = False, pc_worker = Selecting,
      pc_started = [], pc_applied = [], pc_flushed = {}, pc_entered = [], pc_before = 0,
      pc_appliedBefore = 0, pc_refused = []\<rparr>"

definition BindHook :: "coordinator \<Rightarrow> coordinator" where
  "BindHook s = s\<lparr>pc_hook := True\<rparr>"

text \<open>The two outcomes of the send in \<open>enqueue\<close> and \<open>Flush\<close>; a full channel of a live coordinator
  allows neither, and the caller waits.\<close>

definition enter :: "persistTask \<Rightarrow> coordinator \<Rightarrow> coordinator option" where
  "enter t s =
     (if length (pc_ch s) < pc_size s
      then Some (s\<lparr>pc_ch := pc_ch s @ [t], pc_entered := pc_entered s @ [t]\<rparr>) else None)"

definition give_up :: "persistTask \<Rightarrow> coordinator \<Rightarrow> coordinator option" where
  "give_up t s = (if pc_cancelled s then Some (s\<lparr>pc_refused := pc_refused s @ [t]\<rparr>) else None)"

definition sends :: "persistTask \<Rightarrow> coordinator \<Rightarrow> coordinator option list" where
  "sends t s =
     (case t of
        Persist _ _ \<Rightarrow> if pc_hook s then [enter t s, give_up t s] else [Some s]
      | FlushMark _ \<Rightarrow> [enter t s, give_up t s])"

definition cancel :: "coordinator \<Rightarrow> coordinator" where
  "cancel s =
     (if pc_cancelled s then s
      else s\<lparr>pc_cancelled := True, pc_before := length (pc_entered s), pc_appliedBefore := length (pc_applied s)\<rparr>)"

text \<open>The worker receives a task, looks at the context, starts \<open>apply\<close> and returns from it.\<close>

definition check_ctx :: "persistTask \<Rightarrow> coordinator \<Rightarrow> coordinator" where
  "check_ctx t s = s\<lparr>pc_worker := Checked t (if pc_cancelled s then DrainCtx else WorkerCtx) False\<rparr>"

definition begin_apply :: "persistTask \<Rightarrow> applyCtx \<Rightarrow> bool \<Rightarrow> coordinator \<Rightarrow> coordinator" where
  "begin_apply t c drain s =
     s\<lparr>pc_worker := InApply t c drain, pc_started := pc_started s @ [(t, c = WorkerCtx \<and> pc_cancelled s)]\<rparr>"

definition end_apply :: "persistTask \<Rightarrow> bool \<Rightarrow> coordinator \<Rightarrow> coordinator" where
  "end_apply t drain s =
     s\<lparr>pc_worker := (if drain then Draining else Selecting), pc_applied := pc_applied s @ [t],
       pc_flushed := (case t of FlushMark i \<Rightarrow> insert i (pc_flushed s) | _ \<Rightarrow> pc_flushed s)\<rparr>"

text \<open>The next steps of the worker.\<close>

definition worker_steps :: "coordinator \<Rightarrow> coordinator list" where
  "worker_steps s =
     (case pc_worker s of
        Selecting \<Rightarrow>
          (case pc_ch s of [] \<Rightarrow> [] | t # ts \<Rightarrow> [s\<lparr>pc_worker := Received t, pc_ch := ts\<rparr>])
          @ (if pc_cancelled s then [s\<lparr>pc_worker := Draining\<rparr>] else [])
      | Received t \<Rightarrow> [check_ctx t s]
      | Draining \<Rightarrow>
          (case pc_ch s of
             [] \<Rightarrow> [s\<lparr>pc_worker := WorkerDone\<rparr>]
           | t # ts \<Rightarrow> [s\<lparr>pc_worker := Checked t DrainCtx True, pc_ch := ts\<rparr>])
      | Checked t c drain \<Rightarrow> [begin_apply t c drain s]
      | InApply t c drain \<Rightarrow> [end_apply t drain s]
      | WorkerDone \<Rightarrow> [])"

inductive pc_step :: "coordinator \<Rightarrow> coordinator \<Rightarrow> bool" where
  pc_send: "Some s' \<in> set (sends t s) \<Longrightarrow> pc_step s s'"
| pc_bind: "pc_step s (BindHook s)"
| pc_cancel: "pc_step s (cancel s)"
| pc_work: "s' \<in> set (worker_steps s) \<Longrightarrow> pc_step s s'"

inductive_cases pc_stepE: "pc_step s s'"

text \<open>\<open>Shutdown\<close> has returned, and \<open>Flush\<close> of a mark has.\<close>

definition shut_down :: "coordinator \<Rightarrow> bool" where
  "shut_down s \<longleftrightarrow> pc_cancelled s \<and> pc_worker s = WorkerDone"

section \<open>What every reachable coordinator satisfies\<close>

text \<open>The task the worker has received and not finished.\<close>

fun in_hand :: "workerPhase \<Rightarrow> persistTask list" where
  "in_hand (Received t) = [t]"
| "in_hand (Checked t _ _) = [t]"
| "in_hand (InApply t _ _) = [t]"
| "in_hand _ = []"

fun in_apply :: "workerPhase \<Rightarrow> persistTask list" where
  "in_apply (InApply t _ _) = [t]"
| "in_apply _ = []"

fun past_select :: "workerPhase \<Rightarrow> bool" where
  "past_select Draining = True"
| "past_select (Checked _ _ drain) = drain"
| "past_select (InApply _ _ drain) = drain"
| "past_select WorkerDone = True"
| "past_select _ = False"

text \<open>A task whose context was found alive and is cancelled since.\<close>

fun overtaken :: "workerPhase \<Rightarrow> bool" where
  "overtaken (Checked _ c _) = (c = WorkerCtx)"
| "overtaken _ = False"

definition pc_inv :: "coordinator \<Rightarrow> bool" where
  "pc_inv s \<longleftrightarrow> pc_applied s @ in_hand (pc_worker s) @ pc_ch s = pc_entered s
    \<and> map fst (pc_started s) = pc_applied s @ in_apply (pc_worker s)
    \<and> length (pc_ch s) \<le> pc_size s
    \<and> (past_select (pc_worker s) \<longrightarrow> pc_cancelled s)
    \<and> (pc_cancelled s \<and> overtaken (pc_worker s) \<longrightarrow> length (pc_applied s) = pc_appliedBefore s)
    \<and> (\<forall>j < length (pc_started s). snd (pc_started s ! j) \<longrightarrow> pc_cancelled s \<and> j = pc_appliedBefore s)
    \<and> (pc_refused s \<noteq> [] \<longrightarrow> pc_cancelled s)
    \<and> (\<forall>i\<in>pc_flushed s. FlushMark i \<in> set (pc_applied s))
    \<and> pc_before s \<le> length (pc_entered s)
    \<and> (pc_worker s = WorkerDone \<longrightarrow> pc_before s \<le> length (pc_applied s))"

lemma sendsE:
  assumes "Some s' \<in> set (sends t s)"
  obtains "s' = s" | "enter t s = Some s'" | "give_up t s = Some s'"
  using assms by (auto simp: sends_def split: persistTask.splits if_splits)

lemma send_keeps: "pc_inv s \<Longrightarrow> Some s' \<in> set (sends t s) \<Longrightarrow> pc_inv s'"
  by (elim sendsE) (auto simp: pc_inv_def enter_def give_up_def split: if_splits)

lemma cancel_keeps:
  assumes "pc_inv s"
  shows "pc_inv (cancel s)"
proof (cases "pc_cancelled s")
  case False
  then have "\<not> past_select (pc_worker s)" using assms by (simp add: pc_inv_def)
  then have "pc_worker s \<noteq> WorkerDone" by auto
  with assms False show ?thesis by (simp add: pc_inv_def cancel_def)
qed (use assms in \<open>simp add: cancel_def\<close>)

lemma bind_keeps: "pc_inv (BindHook s) = pc_inv s"
  by (simp add: pc_inv_def BindHook_def)

lemma begin_keeps:
  assumes inv: "pc_inv s" and w: "pc_worker s = Checked t c drain"
  shows "pc_inv (begin_apply t c drain s)"
proof -
  have len: "length (pc_started s) = length (pc_applied s)"
    using inv w by (auto simp: pc_inv_def dest: map_eq_imp_length_eq arg_cong [where f = length])
  show ?thesis using inv w len unfolding pc_inv_def begin_apply_def
    by (auto simp: nth_append less_Suc_eq)
qed

lemma end_keeps: "pc_inv s \<Longrightarrow> pc_worker s = InApply t c drain \<Longrightarrow> pc_inv (end_apply t drain s)"
  unfolding pc_inv_def end_apply_def by (auto split: persistTask.split)

lemma work_keeps:
  assumes "pc_inv s" "s' \<in> set (worker_steps s)"
  shows "pc_inv s'"
proof (cases "pc_worker s")
  case Selecting
  with assms show ?thesis
    by (cases "pc_ch s") (auto simp: worker_steps_def pc_inv_def split: if_splits)
next
  case Draining
  with assms show ?thesis
    by (cases "pc_ch s") (auto simp: worker_steps_def pc_inv_def)
next
  case (Received t)
  with assms show ?thesis by (auto simp: worker_steps_def check_ctx_def pc_inv_def)
next
  case (Checked t c drain)
  with assms begin_keeps show ?thesis by (auto simp: worker_steps_def)
next
  case (InApply t c drain)
  with assms end_keeps show ?thesis by (auto simp: worker_steps_def)
next
  case WorkerDone
  then show ?thesis using assms by (simp add: worker_steps_def)
qed

lemma reachable_pc_inv: "pc_step\<^sup>*\<^sup>* (NewPersistenceCoordinator n) s \<Longrightarrow> pc_inv s"
proof (induction rule: rtranclp_induct)
  case base
  show ?case by (simp add: pc_inv_def NewPersistenceCoordinator_def)
next
  case (step s s')
  from step(2) show ?case
  proof (cases rule: pc_step.cases)
    case (pc_send t)
    with step(3) show ?thesis by (rule send_keeps)
  next
    case pc_bind
    with step(3) show ?thesis by (simp add: bind_keeps)
  next
    case pc_cancel
    with step(3) show ?thesis by (simp add: cancel_keeps)
  next
    case pc_work
    with step(3) show ?thesis by (simp add: work_keeps)
  qed
qed

lemma applied_prefix:
  assumes "pc_inv s"
  shows "take (length (pc_applied s)) (pc_entered s) = pc_applied s"
  using assms by (metis append_eq_conv_conj pc_inv_def)

text \<open>C15. No transition of a run is lost or reordered on its way to the database. However callers, worker
  and shutdown interleave, the tasks whose application has returned, followed by the one the worker
  holds and those in the channel, are exactly the tasks that entered the channel, in order, each
  once; the applications started are the finished ones and at most the one under way, and only the
  first that ends after the cancellation can have started under a cancelled context, when the
  cancellation falls between the worker's look at the context and the start; an acknowledged flush
  means every task that entered before its mark has been applied; a task is given up only after the
  cancellation; and when \<open>Shutdown\<close> has returned every task that had entered before it cancelled is
  applied. A send that races with the cancellation may enter later and is then not covered.\<close>

theorem persistence_exactly_once:
  assumes "pc_step\<^sup>*\<^sup>* (NewPersistenceCoordinator n) s"
  shows "pc_applied s @ in_hand (pc_worker s) @ pc_ch s = pc_entered s
    \<and> map fst (pc_started s) = pc_applied s @ in_apply (pc_worker s)
    \<and> length (pc_ch s) \<le> pc_size s
    \<and> (\<forall>j < length (pc_started s). snd (pc_started s ! j) \<longrightarrow> pc_cancelled s \<and> j = pc_appliedBefore s)
    \<and> (\<forall>i\<in>pc_flushed s. \<forall>before after. pc_entered s = before @ FlushMark i # after \<and> FlushMark i \<notin> set before \<longrightarrow>
          take (length before) (pc_applied s) = before)
    \<and> (pc_refused s \<noteq> [] \<longrightarrow> pc_cancelled s)
    \<and> (shut_down s \<longrightarrow> take (pc_before s) (pc_applied s) = take (pc_before s) (pc_entered s)
          \<and> pc_before s \<le> length (pc_applied s))"
proof -
  have inv: "pc_inv s" using assms by (rule reachable_pc_inv)
  have flush: "take (length before) (pc_applied s) = before"
    if "i \<in> pc_flushed s" "pc_entered s = before @ FlushMark i # after" "FlushMark i \<notin> set before" for i before after
  proof -
    have mem: "FlushMark i \<in> set (pc_applied s)" using inv that(1) by (simp add: pc_inv_def)
    have "length before < length (pc_applied s)"
    proof (rule ccontr)
      assume "\<not> length before < length (pc_applied s)"
      then have "pc_applied s = take (length (pc_applied s)) before"
        using applied_prefix [OF inv] that(2) by simp
      with mem that(3) show False by (metis in_set_takeD)
    qed
    then show ?thesis
      using arg_cong [OF applied_prefix [OF inv], of "take (length before)"] that(2) by (simp add: min_def)
  qed
  have "take (pc_before s) (pc_applied s) = take (pc_before s) (pc_entered s)" if "pc_before s \<le> length (pc_applied s)"
    using arg_cong [OF applied_prefix [OF inv], of "take (pc_before s)"] that by (simp add: min_def)
  then show ?thesis using inv flush unfolding pc_inv_def shut_down_def by blast
qed

text \<open>A shutdown returns: after the cancellation the worker alone, with no more sends, is done within
  four steps for each waiting task and five more, whichever cases its selects take.\<close>

definition work_left :: "coordinator \<Rightarrow> nat" where
  "work_left s = 4 * length (pc_ch s) + (case pc_worker s of Selecting \<Rightarrow> 2 | Draining \<Rightarrow> 1 | WorkerDone \<Rightarrow> 0
     | Received _ \<Rightarrow> 5 | Checked _ _ drain \<Rightarrow> (if drain then 3 else 4) | InApply _ _ drain \<Rightarrow> (if drain then 2 else 3))"

lemma work_progress:
  assumes "pc_inv s" "pc_cancelled s"
  shows "(worker_steps s = [] \<longleftrightarrow> pc_worker s = WorkerDone)
    \<and> (\<forall>s'\<in>set (worker_steps s). pc_cancelled s' \<and> work_left s' < work_left s)"
  using assms
  by (cases "pc_worker s"; cases "pc_ch s")
    (auto simp: worker_steps_def work_left_def check_ctx_def begin_apply_def end_apply_def)

fun work_path :: "coordinator \<Rightarrow> coordinator list \<Rightarrow> bool" where
  "work_path s [] = True"
| "work_path s (s' # p) = (s' \<in> set (worker_steps s) \<and> work_path s' p)"

text \<open>A shutdown ends. From a reachable coordinator whose context is cancelled the worker, however its
  selects choose, takes at most four times as many steps as tasks wait and five more, and where it
  cannot take another it is done, so that \<open>Shutdown\<close> returns once the hook calls it waits for do.\<close>

lemma shutdown_drains:
  assumes "pc_step\<^sup>*\<^sup>* (NewPersistenceCoordinator n) s" "pc_cancelled s" "work_path s p"
  shows "length p \<le> 4 * length (pc_ch s) + 5
    \<and> (worker_steps (last (s # p)) = [] \<longrightarrow> shut_down (last (s # p)))"
proof -
  have "pc_inv s" using assms(1) by (rule reachable_pc_inv)
  then have "length p + work_left (last (s # p)) \<le> work_left s \<and> pc_inv (last (s # p)) \<and> pc_cancelled (last (s # p))"
    using assms(2,3)
  proof (induction p arbitrary: s)
    case (Cons s' p)
    have s': "s' \<in> set (worker_steps s)" "work_path s' p" using Cons.prems(3) by auto
    have "pc_inv s'" "pc_cancelled s'" "work_left s' < work_left s"
      using work_keeps [OF Cons.prems(1) s'(1)] work_progress [OF Cons.prems(1,2)] s'(1) by auto
    with Cons.IH [OF this(1,2) s'(2)] show ?case by auto
  qed simp
  moreover have "work_left s \<le> 4 * length (pc_ch s) + 5"
    by (auto simp: work_left_def split: workerPhase.splits)
  ultimately show ?thesis using work_progress [of "last (s # p)"] by (auto simp: shut_down_def)
qed

section \<open>The properties on a concrete run\<close>

definition saved :: persistTask where "saved = Persist example_run True"

definition after_save :: coordinator where
  "after_save = the (enter saved (BindHook (NewPersistenceCoordinator 1)))"

lemma after_save_reachable: "pc_step\<^sup>*\<^sup>* (NewPersistenceCoordinator 1) after_save"
proof -
  let ?s = "BindHook (NewPersistenceCoordinator 1)"
  have "Some after_save \<in> set (sends saved ?s)"
    by (simp add: after_save_def sends_def saved_def enter_def BindHook_def NewPersistenceCoordinator_def)
  then show ?thesis by (meson converse_rtranclp_into_rtranclp pc_bind pc_send rtranclp.rtrancl_refl)
qed

theorem persistence_exactly_once_witness:
  "pc_applied after_save @ in_hand (pc_worker after_save) @ pc_ch after_save = [saved]"
proof -
  have "pc_entered after_save = [saved]"
    by (simp add: after_save_def enter_def BindHook_def NewPersistenceCoordinator_def)
  with persistence_exactly_once [OF after_save_reachable] show ?thesis by simp
qed

text \<open>The worker looks at the context, the shutdown cancels it, and the application starts under the
  cancelled context, although the comment on the worker rules this out for a task that has not
  started.\<close>

definition overtaken_save :: coordinator where
  "overtaken_save =
     begin_apply saved WorkerCtx False (cancel (check_ctx saved (after_save\<lparr>pc_worker := Received saved, pc_ch := []\<rparr>)))"

lemma overtaken_by_cancel:
  "pc_step\<^sup>*\<^sup>* (NewPersistenceCoordinator 1) overtaken_save" "pc_started overtaken_save = [(saved, True)]"
proof -
  define s1 where "s1 = after_save\<lparr>pc_worker := Received saved, pc_ch := []\<rparr>"
  have flds: "pc_worker after_save = Selecting" "pc_ch after_save = [saved]" "\<not> pc_cancelled after_save"
      "pc_started after_save = []"
    by (simp_all add: after_save_def enter_def BindHook_def NewPersistenceCoordinator_def)
  have "s1 \<in> set (worker_steps after_save)" by (simp add: worker_steps_def flds s1_def)
  moreover have "check_ctx saved s1 \<in> set (worker_steps s1)" by (simp add: worker_steps_def s1_def)
  moreover have "overtaken_save \<in> set (worker_steps (cancel (check_ctx saved s1)))"
    by (simp add: worker_steps_def overtaken_save_def s1_def cancel_def check_ctx_def flds)
  ultimately show "pc_step\<^sup>*\<^sup>* (NewPersistenceCoordinator 1) overtaken_save"
    using after_save_reachable pc_work pc_cancel by (meson rtranclp.rtrancl_into_rtrancl)
  show "pc_started overtaken_save = [(saved, True)]"
    by (simp add: overtaken_save_def begin_apply_def cancel_def check_ctx_def flds)
qed

end
