(* ===== verification/Log_Lines.thy ===== *)
theory Log_Lines
  imports Prelude
begin

text \<open>
  Run logs: the form of a line on disk and the reading of segments (\<open>logutil/log_index.go\<close>,
  \<open>logutil/log_meta.go\<close>). A file is its bytes, one character each; offsets are positions in it. The
  buffering of the reads is not modelled: where a loop fills a buffer again and again, its result is
  that of one pass over the file. Counts are ints without a wrap, a log has fewer than \<open>2 ^ 63\<close> bytes.
\<close>

section \<open>Lines\<close>

abbreviation newline :: char where "newline \<equiv> CHR 0x0A"

definition HasPrefix :: "string \<Rightarrow> string \<Rightarrow> bool" where
  "HasPrefix p s \<longleftrightarrow> CutPrefix p s \<noteq> None"

definition TrimNewline :: "string \<Rightarrow> string" where
  "TrimNewline s = (if s \<noteq> [] \<and> last s = newline then butlast s else s)"

definition upper_char :: "char \<Rightarrow> char" where
  "upper_char c = (if CHR ''a'' \<le> c \<and> c \<le> CHR ''z'' then char_of (of_char c - 32 :: nat) else c)"

definition StreamStdout :: string where [model_defs]: "StreamStdout = ''stdout''"
definition StreamStderr :: string where [model_defs]: "StreamStderr = ''stderr''"
definition StreamSystem :: string where [model_defs]: "StreamSystem = ''system''"

definition FormatLine :: "string \<Rightarrow> string \<Rightarrow> string" where
  "FormatLine text stream =
     (let trimmed = TrimNewline text in
      if stream = StreamStdout then trimmed @ [newline]
      else if stream = StreamStderr then ''[ERR] '' @ trimmed @ [newline]
      else ''['' @ map upper_char stream @ ''] '' @ trimmed @ [newline])"

text \<open>\<open>strings.Index\<close> of the two characters \<open>] \<close>.\<close>

fun index_close :: "string \<Rightarrow> nat option" where
  "index_close (c # d # s) =
     (if c = CHR '']'' \<and> d = CHR '' '' then Some 0 else map_option Suc (index_close (d # s)))"
| "index_close s = None"

definition stripSystemPrefix :: "string \<Rightarrow> string option" where
  "stripSystemPrefix line =
     (let rest =
        (if HasPrefix ''['' line
         then (case index_close line of
                 Some e \<Rightarrow> (let head = take (e - 1) (drop 1 line) in
                            if 0 < e \<and> head \<noteq> ''SYSTEM'' \<and> 19 \<le> length head then drop (e + 2) line else line)
               | None \<Rightarrow> line)
         else line)
      in CutPrefix ''[SYSTEM] '' rest)"

definition ParseStreamPrefix :: "string \<Rightarrow> string \<times> string" where
  "ParseStreamPrefix line =
     (let trimmed = TrimNewline line in
      case CutPrefix ''[ERR] '' trimmed of
        Some rest \<Rightarrow> (StreamStderr, rest)
      | None \<Rightarrow>
         (case stripSystemPrefix trimmed of
            Some rest \<Rightarrow> (StreamSystem, rest)
          | None \<Rightarrow> (StreamStdout, trimmed)))"

record LogLineRecord =
  lr_LineNum :: int
  lr_Stream :: string
  lr_Text :: string

definition line_record :: "int \<Rightarrow> string \<Rightarrow> LogLineRecord" where
  "line_record n l = (case ParseStreamPrefix l of
     (stream, text) \<Rightarrow> \<lparr>lr_LineNum = n, lr_Stream = stream, lr_Text = text\<rparr>)"

section \<open>Scanning\<close>

text \<open>\<open>bufio.Scanner\<close> with \<open>ScanLines\<close>: the lines of a text without their line ends, up to a line
  that does not fit the buffer; the flag tells whether the scan stopped at such a line.\<close>

definition maxLogLineSize :: nat where [model_defs]: "maxLogLineSize = 1024 * 1024"

definition dropCR :: "string \<Rightarrow> string" where
  "dropCR l = (if l \<noteq> [] \<and> last l = CHR 0x0D then butlast l else l)"

function scan :: "string \<Rightarrow> string list \<times> bool" where
  "scan s =
     (if s = [] then ([], False)
      else let l = takeWhile (\<lambda>c. c \<noteq> newline) s in
           if maxLogLineSize \<le> length l then ([], True)
           else case scan (tl (dropWhile (\<lambda>c. c \<noteq> newline) s)) of (ls, err) \<Rightarrow> (dropCR l # ls, err))"
  by pat_completeness auto

termination scan
proof (relation "measure length", goal_cases)
  case (2 s l)
  then show ?case
    using length_dropWhile_le [of "\<lambda>c. c \<noteq> newline" s] by (cases s) (auto simp: le_imp_less_Suc intro: le_less_trans)
qed simp

declare scan.simps [simp del]

text \<open>\<open>collectLines\<close>: a scan goes one line past the last one kept, and only then may its error show.\<close>

fun numbered :: "int \<Rightarrow> string list \<Rightarrow> LogLineRecord list" where
  "numbered n [] = []"
| "numbered n (l # ls) = line_record n l # numbered (n + 1) ls"

definition collectLines :: "string \<Rightarrow> int \<Rightarrow> int \<Rightarrow> LogLineRecord list \<times> bool" where
  "collectLines s startLineNum limit =
     (case scan s of (ls, err) \<Rightarrow>
        (numbered startLineNum (take (nat limit) ls), err \<and> int (length ls) \<le> limit))"

text \<open>\<open>scanAllLines\<close> and \<open>scanToLine\<close>: the lines of a text, and the offset that many lines further.\<close>

definition scanAllLines :: "string \<Rightarrow> nat" where
  "scanAllLines s = count_list s newline + (if s \<noteq> [] \<and> last s \<noteq> newline then 1 else 0)"

fun scanToLine :: "string \<Rightarrow> nat \<Rightarrow> nat \<Rightarrow> nat" where
  "scanToLine s pos 0 = pos"
| "scanToLine [] pos (Suc n) = pos"
| "scanToLine (c # s) pos (Suc n) = (if c = newline then scanToLine s (Suc pos) n else scanToLine s (Suc pos) (Suc n))"

definition ScanOffset :: "string \<Rightarrow> nat \<Rightarrow> nat \<Rightarrow> nat" where
  "ScanOffset s startPos linesToSkip = scanToLine (drop startPos s) startPos linesToSkip"

section \<open>What a sidecar says of a log\<close>

record LogMeta =
  RotatedLines :: int
  RotatedBytes :: int
  PrevStart :: int
  FinalLines :: int
  Finalized :: bool

definition zero_meta :: LogMeta where
  "zero_meta = \<lparr>RotatedLines = 0, RotatedBytes = 0, PrevStart = 0, FinalLines = 0, Finalized = False\<rparr>"

record Sidecar =
  sc_Meta :: LogMeta
  sc_Index :: "nat list"
  sc_Frames :: "(int \<times> string list list) list"

definition LogIndexInterval :: nat where [model_defs]: "LogIndexInterval = 1024"

text \<open>The files of a run.\<close>

record logFiles =
  lf_main :: "string option"
  lf_prev :: "string option"
  lf_side :: Sidecar

section \<open>Reading a range\<close>

definition resolvePrevSegment :: "logFiles \<Rightarrow> bool \<times> int" where
  "resolvePrevSegment f =
     (let meta = sc_Meta (lf_side f) in
      (lf_prev f \<noteq> None, if lf_prev f \<noteq> None then PrevStart meta else RotatedLines meta))"

definition ResolveStartLine :: "int \<Rightarrow> int \<Rightarrow> int \<Rightarrow> int" where
  "ResolveStartLine from firstAvailable totalLines =
     (let start = (if from < 0 then totalLines + from else from) in
      if start < firstAvailable then firstAvailable else start)"

definition CalculateTotalLines :: "string \<Rightarrow> nat list \<Rightarrow> LogMeta \<Rightarrow> int" where
  "CalculateTotalLines content indices meta =
     (if Finalized meta then RotatedLines meta + FinalLines meta
      else
        let currentLines =
          (if indices = [] then scanAllLines content
           else (length indices - 1) * LogIndexInterval + scanAllLines (drop (last indices) content))
        in RotatedLines meta + int currentLines)"

definition CalculateLineOffset :: "string \<Rightarrow> nat list \<Rightarrow> int \<Rightarrow> LogMeta \<Rightarrow> nat" where
  "CalculateLineOffset content indices line meta =
     (let localLine = nat (line - RotatedLines meta) in
      if indices = [] then ScanOffset content 0 localLine
      else
        let chunkIdx = min (localLine div LogIndexInterval) (length indices - 1)
        in ScanOffset content (indices ! chunkIdx) (localLine - chunkIdx * LogIndexInterval))"

definition readSegmentRange :: "string \<Rightarrow> int \<Rightarrow> int \<Rightarrow> int \<Rightarrow> LogLineRecord list \<times> bool" where
  "readSegmentRange content segmentStart startAt limit =
     (let skip = nat (startAt - segmentStart) in
      collectLines (drop (ScanOffset content 0 skip) content) (segmentStart + int skip) limit)"

definition readCurrentSegment ::
  "string \<Rightarrow> nat list \<Rightarrow> LogMeta \<Rightarrow> int \<Rightarrow> int \<Rightarrow> LogLineRecord list \<times> bool" where
  "readCurrentSegment content indices meta startLine limit =
     collectLines (drop (CalculateLineOffset content indices startLine meta) content) startLine limit"

definition ReadLineRange :: "logFiles \<Rightarrow> int \<Rightarrow> int \<Rightarrow> LogLineRecord list \<times> int \<times> int \<times> bool" where
  "ReadLineRange f from limit0 =
     (let limit = (if limit0 \<le> 0 then 1000 else limit0);
          meta = sc_Meta (lf_side f); indices = sc_Index (lf_side f);
          (prevExists, firstAvailable) = resolvePrevSegment f
      in case lf_main f of
           None \<Rightarrow> ([], firstAvailable, firstAvailable, False)
         | Some content \<Rightarrow>
             let totalLines = CalculateTotalLines content indices meta;
                 startLine = ResolveStartLine from firstAvailable totalLines
             in if totalLines \<le> firstAvailable \<or> totalLines \<le> startLine
                then ([], firstAvailable, totalLines, False)
                else
                  let (older, err) =
                        (if prevExists \<and> startLine < RotatedLines meta
                         then readSegmentRange (the (lf_prev f)) (PrevStart meta) startLine limit
                         else ([], False))
                  in if err \<or> limit \<le> int (length older) then (older, firstAvailable, totalLines, err)
                     else
                       let (newer, scanErr) = readCurrentSegment content indices meta
                             (if older \<noteq> [] then RotatedLines meta else startLine) (limit - int (length older))
                       in (older @ newer, firstAvailable, totalLines, scanErr))"

text \<open>\<open>ScanLines\<close> for a visitor that answers from the line alone: the lines it was given.\<close>

fun visit_lines :: "(LogLineRecord \<Rightarrow> bool) \<Rightarrow> LogLineRecord list \<Rightarrow> LogLineRecord list \<times> bool" where
  "visit_lines visit [] = ([], False)"
| "visit_lines visit (r # rs) =
     (if visit r then (case visit_lines visit rs of (seen, done) \<Rightarrow> (r # seen, done)) else ([r], True))"

definition scanSegment ::
  "string option \<Rightarrow> int \<Rightarrow> (LogLineRecord \<Rightarrow> bool) \<Rightarrow> LogLineRecord list \<times> bool \<times> bool" where
  "scanSegment file startLine visit =
     (case file of
        None \<Rightarrow> ([], False, False)
      | Some content \<Rightarrow>
          (case scan content of (ls, err) \<Rightarrow>
             (case visit_lines visit (numbered startLine ls) of (seen, done) \<Rightarrow> (seen, done, \<not> done \<and> err))))"

definition LogScanLines :: "logFiles \<Rightarrow> (LogLineRecord \<Rightarrow> bool) \<Rightarrow> LogLineRecord list \<times> bool" where
  "LogScanLines f visit =
     (let meta = sc_Meta (lf_side f) in
      case scanSegment (lf_prev f) (PrevStart meta) visit of
        (older, done, err) \<Rightarrow>
          if err \<or> done then (older, err)
          else (case scanSegment (lf_main f) (RotatedLines meta) visit of
                  (newer, _, err) \<Rightarrow> (older @ newer, err)))"

section \<open>Reading segments of whole lines\<close>

definition lines_text :: "string list \<Rightarrow> string" where
  "lines_text ls = concat (map (\<lambda>l. l @ [newline]) ls)"

definition readable :: "string \<Rightarrow> bool" where
  "readable l \<longleftrightarrow> newline \<notin> set l \<and> length l < maxLogLineSize"

lemma lines_text_simps [simp]:
  "lines_text [] = []" "lines_text (l # ls) = l @ newline # lines_text ls"
  "lines_text (xs @ ys) = lines_text xs @ lines_text ys" "lines_text ls = [] \<longleftrightarrow> ls = []"
  by (auto simp: lines_text_def)

lemma lines_text_last: "ls \<noteq> [] \<Longrightarrow> last (lines_text ls) = newline"
  by (induction ls) auto

lemma scan_text: "\<forall>l\<in>set ls. readable l \<Longrightarrow> scan (lines_text ls) = (map dropCR ls, False)"
proof (induction ls)
  case (Cons l ls)
  have tw: "takeWhile (\<lambda>c. c \<noteq> newline) (l @ newline # lines_text ls) = l"
    "dropWhile (\<lambda>c. c \<noteq> newline) (l @ newline # lines_text ls) = newline # lines_text ls"
    using Cons.prems by (auto simp: readable_def takeWhile_tail dropWhile_append)
  then show ?case
    using Cons by (subst scan.simps) (simp add: readable_def not_le)
qed (simp add: scan.simps)

lemma scanToLine_text:
  "\<forall>l\<in>set ls. newline \<notin> set l \<Longrightarrow> scanToLine (lines_text ls) pos n = pos + length (lines_text (take n ls))"
proof (induction ls arbitrary: pos n)
  case Nil
  then show ?case by (cases n) auto
next
  case (Cons l ls)
  have skip: "newline \<notin> set l \<Longrightarrow> scanToLine (l @ newline # s) pos (Suc m) = scanToLine s (pos + length l + 1) m" for l s pos m
    by (induction l arbitrary: pos) auto
  show ?case using Cons by (cases n) (auto simp: skip)
qed

lemma drop_text: "drop (length (lines_text (take n ls))) (lines_text ls) = lines_text (drop n ls)"
  by (metis append_take_drop_id lines_text_simps(3) append_eq_conv_conj)

lemma scanAllLines_text: "\<forall>l\<in>set ls. newline \<notin> set l \<Longrightarrow> scanAllLines (lines_text ls) = length ls"
proof -
  assume "\<forall>l\<in>set ls. newline \<notin> set l"
  then have "count_list (lines_text ls) newline = length ls"
    by (induction ls) auto
  then show ?thesis using lines_text_last [of ls] by (auto simp: scanAllLines_def)
qed

lemma collect_text:
  assumes "\<forall>l\<in>set ls. readable l"
  shows "collectLines (lines_text ls) n limit = (numbered n (map dropCR (take (nat limit) ls)), False)"
  using scan_text [OF assms] by (simp add: collectLines_def take_map)

lemma numbered_append: "numbered n (xs @ ys) = numbered n xs @ numbered (n + int (length xs)) ys"
  by (induction xs arbitrary: n) (auto simp: algebra_simps)

lemma numbered_props [simp]:
  "length (numbered n ls) = length ls" "numbered n ls = [] \<longleftrightarrow> ls = []"
  "i < length ls \<Longrightarrow> numbered n ls ! i = line_record (n + int i) (ls ! i)"
proof -
  show "length (numbered n ls) = length ls" by (induction ls arbitrary: n) auto
  then show "numbered n ls = [] \<longleftrightarrow> ls = []" by (cases ls) auto
  show "i < length ls \<Longrightarrow> numbered n ls ! i = line_record (n + int i) (ls ! i)"
    by (induction ls arbitrary: n i) (auto simp: nth_Cons algebra_simps split: nat.splits)
qed

text \<open>An index is right if its entries are the offsets of every \<open>LogIndexInterval\<close>-th line.\<close>

definition index_right :: "nat list \<Rightarrow> string list \<Rightarrow> bool" where
  "index_right idx ls \<longleftrightarrow>
     (\<forall>i<length idx. idx ! i = length (lines_text (take (i * LogIndexInterval) ls)))
     \<and> (length idx - 1) * LogIndexInterval \<le> length ls"

definition describes :: "logFiles \<Rightarrow> nat \<Rightarrow> string list \<Rightarrow> string list \<Rightarrow> bool" where
  "describes f gone old cur \<longleftrightarrow>
     lf_main f = Some (lines_text cur)
     \<and> (case lf_prev f of None \<Rightarrow> old = [] \<and> gone = 0
          | Some content \<Rightarrow> content = lines_text old \<and> PrevStart (sc_Meta (lf_side f)) = int gone)
     \<and> RotatedLines (sc_Meta (lf_side f)) = int (gone + length old)
     \<and> (Finalized (sc_Meta (lf_side f)) \<longrightarrow> FinalLines (sc_Meta (lf_side f)) = int (length cur))
     \<and> index_right (sc_Index (lf_side f)) cur
     \<and> (\<forall>l\<in>set (old @ cur). readable l)"

lemma total_right:
  assumes "describes f gone old cur"
  shows "CalculateTotalLines (lines_text cur) (sc_Index (lf_side f)) (sc_Meta (lf_side f)) = int (gone + length old + length cur)"
proof -
  let ?idx = "sc_Index (lf_side f)"
  have nl: "\<forall>l\<in>set (drop k cur). newline \<notin> set l" for k
    using assms by (auto simp: describes_def readable_def dest: in_set_dropD)
  show ?thesis
  proof (cases "?idx = []")
    case True
    then show ?thesis
      using assms nl [of 0] by (auto simp: CalculateTotalLines_def describes_def scanAllLines_text)
  next
    case False
    then have "last ?idx = length (lines_text (take ((length ?idx - 1) * LogIndexInterval) cur))"
      "(length ?idx - 1) * LogIndexInterval \<le> length cur"
      using assms by (auto simp: describes_def index_right_def last_conv_nth)
    then show ?thesis
      using assms False nl by (auto simp: CalculateTotalLines_def describes_def drop_text scanAllLines_text Let_def)
  qed
qed

lemma offset_right:
  assumes "describes f gone old cur" "line \<ge> int (gone + length old)"
  shows "CalculateLineOffset (lines_text cur) (sc_Index (lf_side f)) line (sc_Meta (lf_side f))
    = length (lines_text (take (nat (line - int (gone + length old))) cur))"
proof -
  let ?idx = "sc_Index (lf_side f)" and ?n = "nat (line - int (gone + length old))"
  have nl: "\<forall>l\<in>set (drop k cur). newline \<notin> set l" for k
    using assms by (auto simp: describes_def readable_def dest: in_set_dropD)
  have R: "RotatedLines (sc_Meta (lf_side f)) = int (gone + length old)" using assms by (simp add: describes_def)
  show ?thesis
  proof (cases "?idx = []")
    case True
    then show ?thesis using nl [of 0] R by (simp add: CalculateLineOffset_def ScanOffset_def scanToLine_text)
  next
    case False
    define k where "k = min (?n div LogIndexInterval) (length ?idx - 1)"
    have k: "k < length ?idx" "k * LogIndexInterval \<le> ?n"
    proof -
      show "k < length ?idx" using False by (simp add: k_def min_less_iff_disj)
      have "k * LogIndexInterval \<le> ?n div LogIndexInterval * LogIndexInterval"
        by (rule mult_le_mono1) (simp add: k_def)
      also have "\<dots> \<le> ?n" by (rule div_times_less_eq_dividend)
      finally show "k * LogIndexInterval \<le> ?n" .
    qed
    have "?idx ! k = length (lines_text (take (k * LogIndexInterval) cur))"
      using assms k by (simp add: describes_def index_right_def)
    moreover have "length (lines_text (take (k * LogIndexInterval) cur))
        + length (lines_text (take (?n - k * LogIndexInterval) (drop (k * LogIndexInterval) cur)))
        = length (lines_text (take ?n cur))"
      using k(2) take_add [of "k * LogIndexInterval" "?n - k * LogIndexInterval" cur] by simp
    moreover have "CalculateLineOffset (lines_text cur) ?idx line (sc_Meta (lf_side f))
        = ScanOffset (lines_text cur) (?idx ! k) (?n - k * LogIndexInterval)"
      using False unfolding CalculateLineOffset_def Let_def R k_def by simp
    ultimately show ?thesis by (simp add: ScanOffset_def drop_text scanToLine_text [OF nl])
  qed
qed

lemma read_range_exact:
  assumes d: "describes f gone old cur"
    and start_def: "start = ResolveStartLine from0 (int gone) (int (gone + length old + length cur))"
    and lim_def: "lim = nat (if limit \<le> 0 then 1000 else limit)"
  shows "ReadLineRange f from0 limit =
    (numbered start (map dropCR (take lim (drop (nat (start - int gone)) (old @ cur)))),
     int gone, int (gone + length old + length cur), False)"
proof -
  let ?meta = "sc_Meta (lf_side f)" and ?idx = "sc_Index (lf_side f)"
  have main: "lf_main f = Some (lines_text cur)" and R: "RotatedLines ?meta = int (gone + length old)"
    and read: "\<forall>l\<in>set old. readable l" "\<forall>l\<in>set cur. readable l"
    using d by (auto simp: describes_def)
  have nlo: "\<forall>l\<in>set (drop k old). newline \<notin> set l" for k using read by (auto simp: readable_def dest: in_set_dropD)
  have start: "start \<ge> int gone" by (simp add: start_def ResolveStartLine_def)
  have lim: "lim > 0" "int lim = (if limit \<le> 0 then 1000 else limit)" by (auto simp: lim_def)
  have seg: "resolvePrevSegment f = (lf_prev f \<noteq> None, int gone)"
    using d by (auto simp: describes_def resolvePrevSegment_def Let_def split: option.splits)
  note total = total_right [OF d]
  have current: "readCurrentSegment (lines_text cur) ?idx ?meta s m
      = (numbered s (map dropCR (take (nat m) (drop (nat (s - int (gone + length old))) cur))), False)"
    if "s \<ge> int (gone + length old)" for s m
    using read(2) by (simp add: readCurrentSegment_def offset_right [OF d that] drop_text)
      (subst collect_text; auto dest: in_set_dropD)
  obtain T where T: "T = int (gone + length old + length cur)" by blast
  have rr: "ReadLineRange f from0 limit =
      (if T \<le> int gone \<or> T \<le> start then ([], int gone, T, False)
       else case (if lf_prev f \<noteq> None \<and> start < int (gone + length old)
                  then readSegmentRange (the (lf_prev f)) (PrevStart ?meta) start (int lim) else ([], False)) of
              (older, err) \<Rightarrow>
                if err \<or> int lim \<le> int (length older) then (older, int gone, T, err)
                else case readCurrentSegment (lines_text cur) ?idx ?meta (if older \<noteq> [] then int (gone + length old) else start)
                            (int lim - int (length older)) of
                  (newer, e) \<Rightarrow> (older @ newer, int gone, T, e))"
    unfolding ReadLineRange_def Let_def main seg prod.case option.case total R lim(2) [symmetric] T start_def
    by (rule refl)
  show ?thesis
  proof (cases "T \<le> start")
    case True
    then show ?thesis using start by (simp add: rr T)
  next
    case inside: False
    then have more_lines: "\<not> (T \<le> int gone \<or> T \<le> start)" using start by simp
    show ?thesis
    proof (cases "lf_prev f \<noteq> None \<and> start < int (gone + length old)")
      case older: True
      define skip where "skip = nat (start - int gone)"
      have prev: "lf_prev f = Some (lines_text old)" "PrevStart ?meta = int gone"
        using d older by (auto simp: describes_def split: option.splits)
      have skip: "skip < length old" "int gone + int skip = start" using older start by (auto simp: skip_def)
      have seg1: "readSegmentRange (lines_text old) (int gone) start (int lim)
          = (numbered start (map dropCR (take lim (drop skip old))), False)"
        using nlo [of 0] read(1) skip(2)
        by (simp add: readSegmentRange_def skip_def [symmetric] Let_def ScanOffset_def scanToLine_text drop_text)
          (subst collect_text; auto dest: in_set_dropD)
      have split: "take lim (drop skip (old @ cur)) = take lim (drop skip old) @ take (lim - (length old - skip)) cur"
        using skip by simp
      show ?thesis
      proof (cases "lim \<le> length old - skip")
        case True
        then show ?thesis
          using older more_lines by (simp add: rr prev seg1 skip_def [symmetric] split T)
      next
        case False
        then have "readCurrentSegment (lines_text cur) ?idx ?meta (int (gone + length old)) (int lim - int (length old - skip))
            = (numbered (int (gone + length old)) (map dropCR (take (lim - (length old - skip)) cur)), False)"
          by (subst current) (auto simp: nat_diff_distrib)
        moreover have "numbered (start + (int (length old) - int skip)) = numbered (int (gone + length old))"
          using skip by (intro arg_cong [of _ _ numbered]) simp
        ultimately show ?thesis
          using older more_lines False skip
          by (simp add: rr prev seg1 skip_def [symmetric] split T numbered_append del: of_nat_add)
      qed
    next
      case False
      then have s: "start \<ge> int (gone + length old)"
        using start d by (auto simp: describes_def split: option.splits)
      then have "nat (start - int gone) - length old = nat (start - int (gone + length old))"
        "length old \<le> nat (start - int gone)" by simp_all
      then show ?thesis
        using more_lines s lim(1) by (simp add: rr current [OF s] T del: of_nat_add)
    qed
  qed
qed

text \<open>The stream of a line is read back from its prefix.\<close>

lemma stream_roundtrip:
  assumes "newline \<notin> set t"
  shows "ParseStreamPrefix (FormatLine t StreamStderr) = (StreamStderr, t)"
    "ParseStreamPrefix (FormatLine t StreamSystem) = (StreamSystem, t)"
proof -
  have trim: "TrimNewline t = t" "TrimNewline (t @ [newline]) = t" using assms by (auto simp: TrimNewline_def dest: last_in_set)
  have upper: "map upper_char StreamSystem = ''SYSTEM''" by code_simp
  have differ: "StreamStderr \<noteq> StreamStdout" "StreamSystem \<noteq> StreamStdout" "StreamSystem \<noteq> StreamStderr"
    by (simp_all add: model_defs)
  show "ParseStreamPrefix (FormatLine t StreamStderr) = (StreamStderr, t)"
    using trim differ by (simp add: FormatLine_def ParseStreamPrefix_def TrimNewline_def)
  show "ParseStreamPrefix (FormatLine t StreamSystem) = (StreamSystem, t)"
    using trim differ upper
    by (simp add: FormatLine_def ParseStreamPrefix_def TrimNewline_def stripSystemPrefix_def HasPrefix_def Let_def)
qed

end
