(* ===== verification/Byte_Size.thy ===== *)
theory Byte_Size
  imports Prelude "HOL-Library.Log_Nat"
begin

text \<open>
  Byte sizes of the configuration (\<open>config/size.go\<close>). Floating-point values are exact rationals where
  Go's arithmetic is exact: an int64 is rounded to 53 bits, divisions and products by powers of two are
  exact. \<open>strconv.ParseFloat\<close> is a parameter.
\<close>

section \<open>Printing\<close>

definition round_half_even :: "nat \<Rightarrow> nat \<Rightarrow> nat" where
  "round_half_even n m =
     (let q = n div m; r = n mod m in if 2 * r < m \<or> (2 * r = m \<and> even q) then q else q + 1)"

definition float64_of :: "nat \<Rightarrow> nat" where
  "float64_of n = (let m = 2 ^ (floorlog 2 n - 53) in round_half_even n m * m)"

text \<open>The verb \<open>%.1f\<close> of a quotient.\<close>

definition fmt_tenths :: "nat \<Rightarrow> nat \<Rightarrow> string" where
  "fmt_tenths n m = (let t = round_half_even (10 * n) m in Itoa (t div 10) @ ''.'' @ [digit_char (t mod 10)])"

definition size_units :: "(nat \<times> string) list" where
  "size_units = [(2 ^ 40, ''TB''), (2 ^ 30, ''GB''), (2 ^ 20, ''MB''), (2 ^ 10, ''KB'')]"

fun format_with :: "(nat \<times> string) list \<Rightarrow> nat \<Rightarrow> string" where
  "format_with [] n = Itoa n @ '' B''"
| "format_with ((m, u) # us) n =
     (if m \<le> n
      then let v = float64_of n in
           (if v mod m = 0 then Itoa (v div m) else fmt_tenths v m) @ '' '' @ u
      else format_with us n)"

definition FormatByteSize :: "int \<Rightarrow> string" where
  "FormatByteSize bytes =
     (if bytes < 0 then fmt_int bytes @ '' B''
      else if bytes = 0 then ''0 B''
      else format_with size_units (nat bytes))"

text \<open>Whatever the size, it prints in a few characters.\<close>

lemma Itoa_length: "0 < k \<Longrightarrow> n < 10 ^ k \<Longrightarrow> length (Itoa n) \<le> k"
proof (induction n arbitrary: k rule: Itoa.induct)
  case (1 n)
  show ?case
  proof (cases "n < 10")
    case True
    then show ?thesis using "1.prems" by (subst Itoa.simps) simp
  next
    case False
    obtain j where k: "k = Suc j" using "1.prems" by (cases k) auto
    have j: "0 < j" using "1.prems" k False by (cases j) auto
    from k have "n div 10 < 10 ^ j" using "1.prems" by (simp add: less_mult_imp_div_less mult.commute)
    then show ?thesis using "1.IH" [OF False j] False k by (subst Itoa.simps) simp
  qed
qed

lemma round_half_even_le: "0 < m \<Longrightarrow> round_half_even n m \<le> n div m + 1"
  by (simp add: round_half_even_def Let_def)

lemma float64_of_le: "float64_of n < 2 * (n + 1)"
proof -
  let ?m = "2 ^ (floorlog 2 n - 53) :: nat"
  have "?m \<le> n + 1"
  proof (cases "n = 0")
    case False
    then have "(2::nat) ^ (floorlog 2 n - 1) \<le> n" using floorlog_bounds [of n 2] by simp
    moreover have "?m \<le> 2 ^ (floorlog 2 n - 1)" by (rule power_increasing) auto
    ultimately show ?thesis by linarith
  qed (simp add: floorlog_def)
  moreover have up: "float64_of n \<le> (n div ?m + 1) * ?m"
    unfolding float64_of_def Let_def by (rule mult_le_mono1, rule round_half_even_le) simp
  moreover have "(n div ?m + 1) * ?m \<le> n + ?m"
    using div_times_less_eq_dividend [of n ?m] by (simp only: add_mult_distrib mult_1 add_le_cancel_right)
  ultimately have "float64_of n \<le> n + (n + 1)" by (meson add_left_mono order_trans)
  then show ?thesis by simp
qed

lemma format_with_length:
  assumes "n \<le> 2 ^ 63" "\<forall>(m, u)\<in>set us. 0 < m \<and> length u \<le> 2"
  shows "length (format_with us n) \<le> 26"
  using assms(2)
proof (induction us)
  case Nil
  have "n < 10 ^ 20" using assms(1) by (rule le_less_trans) simp
  then show ?case using Itoa_length [of 20 n] by simp
next
  case (Cons mu us)
  obtain m u where mu: "mu = (m, u)" "0 < m" "length u \<le> 2" using Cons.prems by auto
  have v: "float64_of n < 2 * (2 ^ 63 + 1)" by (rule less_le_trans [OF float64_of_le]) (use assms(1) in simp)
  then have whole: "length (Itoa (float64_of n div m)) \<le> 20"
    by (intro Itoa_length) (auto intro: le_less_trans [OF div_le_dividend])
  have "round_half_even (10 * float64_of n) m \<le> 10 * float64_of n + 1"
    using round_half_even_le [OF mu(2), of "10 * float64_of n"] div_le_dividend [of "10 * float64_of n" m] by linarith
  then have "length (Itoa (round_half_even (10 * float64_of n) m div 10)) \<le> 20"
    using v by (intro Itoa_length) auto
  then show ?case using Cons mu whole by (auto simp: fmt_tenths_def Let_def)
qed

lemma FormatByteSize_length:
  assumes "min_int64 \<le> n" "n \<le> max_int64"
  shows "length (FormatByteSize n) \<le> 26"
proof (cases "n < 0")
  case True
  then have "nat (- n) < 10 ^ 20" using assms(1) by (simp add: min_int64_def)
  then show ?thesis using True Itoa_length [of 20 "nat (- n)"] by (simp add: FormatByteSize_def fmt_int_def)
next
  case False
  then have "nat n \<le> 2 ^ 63" using assms(2) by (simp add: max_int64_def)
  then show ?thesis
    using False by (auto simp: FormatByteSize_def size_units_def intro!: format_with_length simp del: format_with.simps)
qed

section \<open>Parsing\<close>

datatype goFloat = Finite rat | PosInf | NegInf | NaN

datatype sizeError = MissingNumber | BadNumber | NotFinite | NegativeSize | SizeTooLarge | BadSize

definition lower_char :: "char \<Rightarrow> char" where
  "lower_char c = (if CHR ''A'' \<le> c \<and> c \<le> CHR ''Z'' then char_of (of_char c + 32 :: nat) else c)"

definition CutSuffix :: "string \<Rightarrow> string \<Rightarrow> string option" where
  "CutSuffix suffix s = map_option rev (CutPrefix (rev suffix) (rev s))"

definition parseByteSizeWithUnit ::
  "(string \<Rightarrow> goFloat option) \<Rightarrow> string \<Rightarrow> string \<Rightarrow> int \<Rightarrow> (sizeError + int) option" where
  "parseByteSizeWithUnit parseFloat s suffix mult =
     (case CutSuffix suffix s of
        None \<Rightarrow> None
      | Some body \<Rightarrow>
          (let numStr = TrimSpace body in
           Some (if numStr = [] then Inl MissingNumber
             else case parseFloat numStr of
                 None \<Rightarrow> Inl BadNumber
               | Some (Finite n) \<Rightarrow>
                   (if n < 0 then Inl NegativeSize
                    else if n * rat_of_int mult \<ge> 2 ^ 63 then Inl SizeTooLarge
                    else Inr \<lfloor>n * rat_of_int mult\<rfloor>)
               | Some _ \<Rightarrow> Inl NotFinite)))"

fun parse_units ::
  "(string \<Rightarrow> goFloat option) \<Rightarrow> string \<Rightarrow> (string \<times> int) list \<Rightarrow> (sizeError + int) option" where
  "parse_units parseFloat s [] = None"
| "parse_units parseFloat s ((suffix, mult) # us) =
     (case parseByteSizeWithUnit parseFloat s suffix mult of
        Some r \<Rightarrow> Some r
      | None \<Rightarrow> parse_units parseFloat s us)"

definition byte_units :: "(string \<times> int) list" where
  "byte_units = [(''tb'', 2 ^ 40), (''gb'', 2 ^ 30), (''mb'', 2 ^ 20), (''kb'', 2 ^ 10), (''b'', 1)]"

definition ParseByteSize :: "(string \<Rightarrow> goFloat option) \<Rightarrow> string \<Rightarrow> sizeError + int" where
  "ParseByteSize parseFloat s0 =
     (let s = TrimSpace (map lower_char s0) in
      if s = [] \<or> s = ''0'' then Inr 0
      else case parse_units parseFloat s byte_units of
        Some r \<Rightarrow> r
      | None \<Rightarrow>
          (case Atoi s of
             None \<Rightarrow> Inl BadSize
           | Some n \<Rightarrow> if n < 0 then Inl NegativeSize else Inr n))"

text \<open>What is accepted is a size: never negative, and an int64.\<close>

lemma with_unit_range:
  assumes "parseByteSizeWithUnit parseFloat s suffix mult = Some (Inr n)" "0 < mult"
  shows "0 \<le> n \<and> n \<le> max_int64"
proof -
  have "\<exists>q. 0 \<le> q \<and> q * rat_of_int mult < 2 ^ 63 \<and> n = \<lfloor>q * rat_of_int mult\<rfloor>"
    using assms(1)
    by (auto simp: parseByteSizeWithUnit_def Let_def not_le not_less split: option.splits goFloat.splits if_splits)
  then obtain q :: rat where q: "0 \<le> q" "q * rat_of_int mult < 2 ^ 63" "n = \<lfloor>q * rat_of_int mult\<rfloor>"
    by blast
  have "n < 2 ^ 63" using q(2,3) by (simp add: floor_less_iff)
  then show ?thesis using q assms(2) by (simp add: max_int64_def)
qed

lemma parse_units_range:
  assumes "parse_units parseFloat s us = Some (Inr n)" "\<forall>(u, m)\<in>set us. 0 < m"
  shows "0 \<le> n \<and> n \<le> max_int64"
  using assms by (induction us) (auto split: option.splits dest: with_unit_range)

lemma ParseByteSize_range: "ParseByteSize parseFloat s = Inr n \<Longrightarrow> 0 \<le> n \<and> n \<le> max_int64"
proof -
  assume r: "ParseByteSize parseFloat s = Inr n"
  have units: "\<forall>(u, m)\<in>set byte_units. 0 < m" by (simp add: byte_units_def)
  have plain: "n \<le> max_int64" if "Atoi t = Some n" for t
    using that by (auto simp: Atoi_def Let_def split: option.splits if_splits prod.splits)
  show ?thesis
    using r parse_units_range [OF _ units, of parseFloat _ n] plain
    by (auto simp: ParseByteSize_def Let_def max_int64_def split: if_splits option.splits)
qed

end
