(* ===== verification/Log_Writer.thy ===== *)
theory Log_Writer
  imports Log_Lines Byte_Size "HOL-Library.AList"
begin

text \<open>
  The writer of a run's log (\<open>executor/log_writer.go\<close>) on the three files of the run: the current
  segment, the one before it and the records of the sidecar container. Each method runs under the
  mutex of the writer, so a run is the sequence of its calls. What the environment answers during a
  call (the clock, the free disk space, which file operation fails and how much of a failing write
  got through) is an argument of the call. A failing write to the container leaves nothing in it.
\<close>

section \<open>The sidecar container\<close>

datatype sidecarRecord = RecMeta LogMeta | RecIndex nat | RecFrame int "string list list"

definition zero_sidecar :: Sidecar where
  "zero_sidecar = \<lparr>sc_Meta = zero_meta, sc_Index = [], sc_Frames = []\<rparr>"

fun apply_record :: "sidecarRecord \<Rightarrow> Sidecar \<Rightarrow> Sidecar" where
  "apply_record (RecMeta m) sc = sc\<lparr>sc_Meta := m\<rparr>"
| "apply_record (RecIndex i) sc = sc\<lparr>sc_Index := sc_Index sc @ [i]\<rparr>"
| "apply_record (RecFrame n fs) sc = sc\<lparr>sc_Frames := AList.update n fs (sc_Frames sc)\<rparr>"

definition ReadSidecar :: "sidecarRecord list option \<Rightarrow> Sidecar" where
  "ReadSidecar container = (case container of None \<Rightarrow> zero_sidecar | Some rs \<Rightarrow> fold apply_record rs zero_sidecar)"

section \<open>State\<close>

datatype logOverflow = LogOverflowDropOld | LogOverflowDropNew | LogOverflowKill

record logWriter =
  lw_main :: "string option"
  lw_prev :: "string option"
  lw_container :: "sidecarRecord list option"
  lw_fileOpen :: bool
  lw_metaOpen :: bool
  lw_indexStarted :: bool
  lw_maxSize :: int
  lw_overflow :: logOverflow
  lw_minFreeDisk :: int
  lw_lastDiskCheck :: int
  lw_diskCheckInterval :: int
  lw_diskPressureHit :: bool
  lw_currentOffset :: int
  lw_lineCount :: int
  lw_totalProduced :: int
  lw_stdoutLines :: int
  lw_stderrLines :: int
  lw_truncated :: bool
  lw_stopped :: bool
  lw_rotatedLines :: int
  lw_rotatedBytes :: int
  lw_prevSegmentStart :: int
  lw_kills :: nat
  lw_pressures :: "(int \<times> int \<times> bool) list"

definition defaultDiskCheckInterval :: int where [model_defs]: "defaultDiskCheckInterval = 10 * 1024 * 1024"

definition NewLogWriter :: "int \<Rightarrow> logOverflow option \<Rightarrow> int \<Rightarrow> logWriter" where
  "NewLogWriter maxSize overflow minFreeDisk =
     \<lparr>lw_main = Some [], lw_prev = None, lw_container = None, lw_fileOpen = True, lw_metaOpen = False,
      lw_indexStarted = False, lw_maxSize = maxSize, lw_overflow = OrDefault overflow LogOverflowDropOld,
      lw_minFreeDisk = minFreeDisk, lw_lastDiskCheck = 0, lw_diskCheckInterval = defaultDiskCheckInterval,
      lw_diskPressureHit = False, lw_currentOffset = 0, lw_lineCount = 0, lw_totalProduced = 0,
      lw_stdoutLines = 0, lw_stderrLines = 0, lw_truncated = False, lw_stopped = False,
      lw_rotatedLines = 0, lw_rotatedBytes = 0, lw_prevSegmentStart = 0, lw_kills = 0, lw_pressures = []\<rparr>"

text \<open>What the environment answers during one call.\<close>

datatype writeResult = Written | ShortWrite nat string

record logEnv =
  le_stamp :: string
  le_free :: int
  le_line :: writeResult
  le_system :: writeResult
  le_marker :: writeResult
  le_rename :: "string option"
  le_reopenFails :: bool
  le_createFails :: bool
  le_containerOpens :: bool
  le_containerWrites :: bool
  le_containerCreates :: bool

section \<open>Writing to the files\<close>

text \<open>A write to the current segment through the handle: the error, if any, and what got through.\<close>

definition file_write :: "writeResult \<Rightarrow> string \<Rightarrow> logWriter \<Rightarrow> string option \<times> logWriter" where
  "file_write res p w =
     (if \<not> lw_fileOpen w then (Some ''file already closed'', w)
      else case res of
        Written \<Rightarrow> (None, w\<lparr>lw_main := map_option (\<lambda>c. c @ p) (lw_main w)\<rparr>)
      | ShortWrite n err \<Rightarrow> (Some err, w\<lparr>lw_main := map_option (\<lambda>c. c @ take n p) (lw_main w)\<rparr>))"

definition system_text :: "string \<Rightarrow> string \<Rightarrow> string" where
  "system_text stamp msg = ''['' @ stamp @ ''] [SYSTEM] '' @ msg @ [newline]"

definition writeSystemLine :: "writeResult \<Rightarrow> string \<Rightarrow> string \<Rightarrow> logWriter \<Rightarrow> logWriter" where
  "writeSystemLine res stamp msg w =
     (let line = system_text stamp msg in
      case file_write res line w of
        (None, w') \<Rightarrow> w'\<lparr>lw_currentOffset := lw_currentOffset w' + int (length line), lw_lineCount := lw_lineCount w' + 1\<rparr>
      | (Some _, w') \<Rightarrow> w')"

definition ensureContainer :: "logEnv \<Rightarrow> logWriter \<Rightarrow> bool \<times> logWriter" where
  "ensureContainer e w =
     (if lw_metaOpen w then (True, w)
      else if \<not> le_containerOpens e then (False, w)
      else (True, w\<lparr>lw_metaOpen := True, lw_container := Some (OrDefault (lw_container w) [])\<rparr>))"

definition appendRecord :: "logEnv \<Rightarrow> sidecarRecord \<Rightarrow> logWriter \<Rightarrow> logWriter" where
  "appendRecord e rec w =
     (case ensureContainer e w of
        (False, w') \<Rightarrow> w'
      | (True, w') \<Rightarrow>
          if le_containerWrites e then w'\<lparr>lw_container := map_option (\<lambda>rs. rs @ [rec]) (lw_container w')\<rparr> else w')"

definition ensureIndexBackfill :: "logEnv \<Rightarrow> logWriter \<Rightarrow> logWriter" where
  "ensureIndexBackfill e w =
     (if lw_indexStarted w then w else (appendRecord e (RecIndex 0) w)\<lparr>lw_indexStarted := True\<rparr>)"

definition updateSidecarsAfterWrite :: "logEnv \<Rightarrow> logWriter \<Rightarrow> logWriter" where
  "updateSidecarsAfterWrite e w =
     (if 0 < lw_lineCount w \<and> lw_lineCount w mod int LogIndexInterval = 0
      then appendRecord e (RecIndex (nat (lw_currentOffset w))) (ensureIndexBackfill e w)
      else w)"

definition meta_of :: "logWriter \<Rightarrow> LogMeta" where
  "meta_of w = \<lparr>RotatedLines = lw_rotatedLines w, RotatedBytes = lw_rotatedBytes w,
     PrevStart = lw_prevSegmentStart w, FinalLines = 0, Finalized = False\<rparr>"

definition rewriteContainerForRotation :: "logEnv \<Rightarrow> logWriter \<Rightarrow> logWriter" where
  "rewriteContainerForRotation e w =
     (let frames = sc_Frames (ReadSidecar (lw_container w));
          w = w\<lparr>lw_metaOpen := False, lw_indexStarted := False\<rparr>
      in if \<not> le_containerCreates e then w
         else w\<lparr>lw_metaOpen := True,
                lw_container := Some (if le_containerWrites e
                   then map (\<lambda>(n, fs). RecFrame n fs) frames @ [RecMeta (meta_of w)] else [])\<rparr>)"

section \<open>Rotation and limits\<close>

definition rotateTail :: "logEnv \<Rightarrow> logWriter \<Rightarrow> logWriter" where
  "rotateTail e w0 =
     (let w = w0\<lparr>lw_prevSegmentStart := lw_rotatedLines w0, lw_fileOpen := False,
            lw_rotatedLines := lw_rotatedLines w0 + lw_lineCount w0,
            lw_rotatedBytes := lw_rotatedBytes w0 + lw_currentOffset w0\<rparr>
      in case le_rename e of
           Some err \<Rightarrow>
             (let w = w\<lparr>lw_rotatedLines := lw_rotatedLines w - lw_lineCount w,
                    lw_rotatedBytes := lw_rotatedBytes w - lw_currentOffset w\<rparr>
              in if le_reopenFails e then w\<lparr>lw_stopped := True\<rparr>
                 else writeSystemLine (le_system e) (le_stamp e)
                        (''Log output stopped: log rotation failed ('' @ err @ ''). Process continues running.'')
                        (w\<lparr>lw_fileOpen := True, lw_stopped := True, lw_truncated := True\<rparr>))
         | None \<Rightarrow>
             (let w = w\<lparr>lw_prev := lw_main w, lw_main := None\<rparr>
              in if le_createFails e then w\<lparr>lw_stopped := True, lw_truncated := True\<rparr>
                 else
                   let w = w\<lparr>lw_main := Some [], lw_fileOpen := True, lw_currentOffset := 0, lw_lineCount := 0,
                          lw_lastDiskCheck := 0, lw_truncated := True\<rparr>;
                       w = rewriteContainerForRotation e w
                   in writeSystemLine (le_system e) (le_stamp e)
                        (''Log rotated: output exceeded log_max_size ('' @ FormatByteSize (lw_maxSize w)
                           @ ''). Earlier output truncated.'') w))"

text \<open>\<open>checkDiskPressure\<close>; the kill and the callback are counted and listed.\<close>

definition disk_message :: "bool \<Rightarrow> int \<Rightarrow> int \<Rightarrow> string" where
  "disk_message killed free minimum =
     (let what = '' ('' @ FormatByteSize free @ '' free, minimum '' @ FormatByteSize minimum @ '' required)'' in
      if killed then ''Process killed: disk space critically low'' @ what @ ''; log_on_full=\"kill\".''
      else ''Log output stopped: disk space critically low'' @ what @ ''.'')"

definition checkDiskPressure :: "logEnv \<Rightarrow> logWriter \<Rightarrow> bool \<times> logWriter" where
  "checkDiskPressure e w =
     (if lw_minFreeDisk w \<le> 0 \<or> lw_currentOffset w - lw_lastDiskCheck w \<le> lw_diskCheckInterval w then (False, w)
      else
        let w = w\<lparr>lw_lastDiskCheck := lw_currentOffset w\<rparr>; free = le_free e in
        if free < 0 \<or> lw_minFreeDisk w \<le> free then (False, w)
        else
          let killed = (lw_overflow w = LogOverflowKill);
              w = writeSystemLine (le_system e) (le_stamp e) (disk_message killed free (lw_minFreeDisk w)) w;
              w = w\<lparr>lw_stopped := True, lw_truncated := True, lw_kills := lw_kills w + (if killed then 1 else 0)\<rparr>
          in (True, if lw_diskPressureHit w then w
                    else w\<lparr>lw_diskPressureHit := True, lw_pressures := lw_pressures w @ [(free, lw_minFreeDisk w, killed)]\<rparr>))"

definition handleSizeOverflow :: "logEnv \<Rightarrow> string \<Rightarrow> logWriter \<Rightarrow> bool \<times> logWriter" where
  "handleSizeOverflow e p w =
     (if lw_maxSize w \<le> 0 \<or> lw_currentOffset w + int (length p) \<le> lw_maxSize w then (False, w)
      else case lw_overflow w of
        LogOverflowDropNew \<Rightarrow>
          (True, (writeSystemLine (le_system e) (le_stamp e)
             (''Log output truncated: exceeded log_max_size ('' @ FormatByteSize (lw_maxSize w)
                @ ''). Process continues running.'') w)\<lparr>lw_stopped := True, lw_truncated := True\<rparr>)
      | LogOverflowKill \<Rightarrow>
          (let w = writeSystemLine (le_system e) (le_stamp e)
                     (''Process killed: log output exceeded log_max_size ('' @ FormatByteSize (lw_maxSize w) @ '').'') w
           in (True, w\<lparr>lw_truncated := True, lw_stopped := True, lw_kills := lw_kills w + 1\<rparr>))
      | LogOverflowDropOld \<Rightarrow> (let w = rotateTail e w in (lw_stopped w, w)))"

section \<open>Methods\<close>

definition writeOneLine :: "logEnv \<Rightarrow> string \<Rightarrow> logWriter \<Rightarrow> int \<times> logWriter" where
  "writeOneLine e p w0 =
     (let w = w0\<lparr>lw_totalProduced := lw_totalProduced w0 + int (length p)\<rparr> in
      if lw_stopped w then (- 1, w)
      else case checkDiskPressure e w of
        (True, w) \<Rightarrow> (- 1, w)
      | (False, w) \<Rightarrow>
         (case handleSizeOverflow e p w of
            (True, w) \<Rightarrow> (- 1, w)
          | (False, w) \<Rightarrow>
             let assignedN = lw_rotatedLines w + lw_lineCount w in
             (case file_write (le_line e) p w of
                (Some err, w) \<Rightarrow>
                  (- 1, writeSystemLine (le_marker e) (le_stamp e)
                          (''Log output stopped: write error ('' @ err @ ''). Process continues running.'')
                          (w\<lparr>lw_stopped := True, lw_truncated := True\<rparr>))
              | (None, w) \<Rightarrow>
                  (assignedN,
                   if p = [] then w
                   else let w = updateSidecarsAfterWrite e w
                        in w\<lparr>lw_currentOffset := lw_currentOffset w + int (length p), lw_lineCount := lw_lineCount w + 1\<rparr>))))"

definition count_stream :: "string \<Rightarrow> logWriter \<Rightarrow> logWriter" where
  "count_stream stream w =
     (if stream = StreamStdout then w\<lparr>lw_stdoutLines := lw_stdoutLines w + 1\<rparr>
      else if stream = StreamStderr then w\<lparr>lw_stderrLines := lw_stderrLines w + 1\<rparr>
      else w)"

definition WriteLineEvent :: "logEnv \<Rightarrow> string \<Rightarrow> string \<Rightarrow> logWriter \<Rightarrow> int \<times> logWriter" where
  "WriteLineEvent e text stream w = writeOneLine e (FormatLine text stream) (count_stream stream w)"

definition WriteFrameHistory :: "logEnv \<Rightarrow> int \<Rightarrow> string list list \<Rightarrow> logWriter \<Rightarrow> logWriter" where
  "WriteFrameHistory e anchor frames w =
     (if frames = [] \<or> lw_stopped w then w else appendRecord e (RecFrame anchor frames) w)"

definition writeTotalProducedLine :: "logEnv \<Rightarrow> logWriter \<Rightarrow> logWriter" where
  "writeTotalProducedLine e w =
     (if \<not> lw_truncated w then w
      else writeSystemLine (le_system e) (le_stamp e)
        (''Total process output: '' @ FormatByteSize (lw_totalProduced w)
          @ (if 0 < lw_maxSize w then '' (limit: '' @ FormatByteSize (lw_maxSize w) @ '').'' else ''.'')) w)"

definition CloseLog :: "logEnv \<Rightarrow> logWriter \<Rightarrow> logWriter" where
  "CloseLog e w0 =
     (let w = writeTotalProducedLine e w0;
          w = appendRecord e (RecMeta ((meta_of w)\<lparr>FinalLines := lw_lineCount w, Finalized := True\<rparr>)) w
      in w\<lparr>lw_fileOpen := False, lw_metaOpen := False\<rparr>)"

definition OutputLines_written :: "logWriter \<Rightarrow> int \<times> int" where
  "OutputLines_written w = (lw_stdoutLines w, lw_stderrLines w)"

text \<open>The files a reader finds.\<close>

definition files_of :: "logWriter \<Rightarrow> logFiles" where
  "files_of w = \<lparr>lf_main = lw_main w, lf_prev = lw_prev w, lf_side = ReadSidecar (lw_container w)\<rparr>"

text \<open>A run of the writer: lines and frame histories, each call with what it meets.\<close>

datatype logCall = CallLine string string | CallFrames int "string list list"

fun log_call :: "logEnv \<Rightarrow> logCall \<Rightarrow> logWriter \<Rightarrow> int \<times> logWriter" where
  "log_call e (CallLine text stream) w = WriteLineEvent e text stream w"
| "log_call e (CallFrames anchor frames) w = (- 1, WriteFrameHistory e anchor frames w)"

fun log_calls :: "(logEnv \<times> logCall) list \<Rightarrow> logWriter \<Rightarrow> int list \<times> logWriter" where
  "log_calls [] w = ([], w)"
| "log_calls ((e, c) # cs) w =
     (case log_call e c w of (n, w') \<Rightarrow> (case log_calls cs w' of (ns, w'') \<Rightarrow> (n # ns, w'')))"

end
