(* ===== verification/Log_Props.thy ===== *)
theory Log_Props
  imports Log_Writer
begin

text \<open>
  Writer and reader of a run's log together: what a reader gets back at any time, while the run writes,
  after it has rotated any number of times, and after it has ended.
\<close>

section \<open>What the files hold\<close>

text \<open>\<open>hist\<close> is every line the segments ever held, in order; of these \<open>gone\<close> many were rotated away for
  good, \<open>old\<close> are in the segment before the current one and \<open>cur\<close> in the current one.\<close>

text \<open>The line counts alone would leave open what became of the lines that are gone. So the history is
  split into the segments moved away and the current one. \<open>L\<close> is the size limit with the lengths of
  the lines the writer is given: a segment is moved only when one of these did not fit any more.\<close>

definition full :: "int \<times> nat set \<Rightarrow> string list \<Rightarrow> bool" where
  "full L s \<longleftrightarrow> 0 < fst L \<and> (\<exists>n\<in>snd L. fst L < int (length (lines_text s) + n))"

definition segmented ::
  "int \<times> nat set \<Rightarrow> string list \<Rightarrow> nat \<Rightarrow> string list \<Rightarrow> string list \<Rightarrow> string option \<Rightarrow> bool" where
  "segmented L hist gone old cur prev \<longleftrightarrow>
     (\<exists>segs. hist = concat segs @ cur \<and> gone = length (concat (butlast segs))
       \<and> old = (if segs = [] then [] else last segs)
       \<and> prev = (if segs = [] then None else Some (lines_text (last segs)))
       \<and> (\<forall>s\<in>set segs. full L s))"

lemma segmented_append: "segmented L hist gone old cur prev \<Longrightarrow> segmented L (hist @ ls) gone old (cur @ ls) prev"
  unfolding segmented_def by auto

lemma segmented_rotate:
  assumes "segmented L hist gone old cur prev" "full L cur"
  shows "segmented L hist (gone + length old) cur [] (Some (lines_text cur))"
proof -
  obtain segs where segs: "hist = concat segs @ cur" "gone = length (concat (butlast segs))"
    "old = (if segs = [] then [] else last segs)" "\<forall>s\<in>set segs. full L s"
    using assms(1) by (auto simp: segmented_def)
  have "length (concat segs) = gone + length old"
    using segs(2,3) by (cases segs rule: rev_cases) auto
  then show ?thesis
    using segs(1,4) assms(2) unfolding segmented_def by (intro exI [of _ "segs @ [cur]"]) auto
qed

lemma segmented_new: "segmented L [] 0 [] [] None"
  by (simp add: segmented_def)

definition holds :: "int \<times> nat set \<Rightarrow> string list \<Rightarrow> nat \<Rightarrow> string list \<Rightarrow> string list \<Rightarrow> logWriter \<Rightarrow> bool" where
  "holds L hist gone old cur w \<longleftrightarrow>
     length hist = gone + length old + length cur \<and> drop gone hist = old @ cur
     \<and> (\<forall>l\<in>set hist. newline \<notin> set l)
     \<and> lw_main w = Some (lines_text cur)
     \<and> (case lw_prev w of None \<Rightarrow> old = [] \<and> gone = 0 | Some content \<Rightarrow> content = lines_text old)
     \<and> lw_rotatedLines w = int (gone + length old) \<and> lw_prevSegmentStart w = int gone
     \<and> lw_lineCount w = int (length cur)
     \<and> lw_maxSize w = fst L \<and> segmented L hist gone old cur (lw_prev w)
     \<and> (let sc = ReadSidecar (lw_container w) in
          RotatedLines (sc_Meta sc) = int (gone + length old) \<and> PrevStart (sc_Meta sc) = int gone
          \<and> \<not> Finalized (sc_Meta sc) \<and> index_right (sc_Index sc) cur)"

text \<open>While the writer has not stopped, the handle is open, the offset exact and the index up to date.\<close>

definition index_size :: "nat \<Rightarrow> nat" where
  "index_size n = (if n \<le> LogIndexInterval then 0 else (n - 1) div LogIndexInterval + 1)"

definition growing :: "string list \<Rightarrow> logWriter \<Rightarrow> bool" where
  "growing cur w \<longleftrightarrow> lw_fileOpen w \<and> lw_currentOffset w = int (length (lines_text cur))
     \<and> length (sc_Index (ReadSidecar (lw_container w))) = index_size (length cur)
     \<and> (lw_indexStarted w \<longleftrightarrow> sc_Index (ReadSidecar (lw_container w)) \<noteq> [])
     \<and> (lw_metaOpen w \<longrightarrow> lw_container w \<noteq> None)"

definition log_ok :: "int \<times> nat set \<Rightarrow> string list \<Rightarrow> nat \<Rightarrow> logWriter \<Rightarrow> bool" where
  "log_ok L hist gone w \<longleftrightarrow> (\<exists>old cur. holds L hist gone old cur w
     \<and> (lw_metaOpen w \<longrightarrow> lw_container w \<noteq> None) \<and> (\<not> lw_stopped w \<longrightarrow> growing cur w))"

text \<open>The calls this is about: lines of one line each, whose failing writes leave at most a part of the
  line with the marker after it, a container that can be written, and no failure to create a
  segment, nor to move one while there is an older one.\<close>

definition whole :: "writeResult \<Rightarrow> bool" where
  "whole r \<longleftrightarrow> (case r of Written \<Rightarrow> True | ShortWrite n _ \<Rightarrow> n = 0)"

definition sound_env :: "logEnv \<Rightarrow> bool" where
  "sound_env e \<longleftrightarrow> newline \<notin> set (le_stamp e) \<and> whole (le_system e) \<and> whole (le_marker e)
     \<and> \<not> le_createFails e \<and> le_containerOpens e \<and> le_containerWrites e \<and> le_containerCreates e
     \<and> (case le_rename e of None \<Rightarrow> True | Some err \<Rightarrow> newline \<notin> set err)
     \<and> (case le_line e of Written \<Rightarrow> True | ShortWrite n err \<Rightarrow> newline \<notin> set err \<and> (n = 0 \<or> le_marker e = Written))"

fun sound_call :: "logEnv \<Rightarrow> logCall \<Rightarrow> logWriter \<Rightarrow> bool" where
  "sound_call e (CallLine text stream) w \<longleftrightarrow>
     sound_env e \<and> newline \<notin> set text \<and> newline \<notin> set (map upper_char stream)
     \<and> (case le_line e of Written \<Rightarrow> True | ShortWrite n _ \<Rightarrow> n < length (FormatLine text stream))
     \<and> (le_rename e \<noteq> None \<longrightarrow> lw_prev w = None)"
| "sound_call e (CallFrames anchor frames) w \<longleftrightarrow> sound_env e"

fun sound_calls :: "(logEnv \<times> logCall) list \<Rightarrow> logWriter \<Rightarrow> bool" where
  "sound_calls [] w \<longleftrightarrow> True"
| "sound_calls ((e, c) # cs) w \<longleftrightarrow> sound_call e c w \<and> sound_calls cs (snd (log_call e c w))"

section \<open>Steps of the writer\<close>

lemma read_append [simp]:
  "ReadSidecar (Some (rs @ [r])) = apply_record r (ReadSidecar (Some rs))" "ReadSidecar None = zero_sidecar"
  "ReadSidecar (Some []) = zero_sidecar"
  by (auto simp: ReadSidecar_def)

lemma Itoa_plain [simp]: "newline \<notin> set (Itoa n)"
  using Itoa_digits [of n] by (auto simp: list_all_iff is_digit_def)

lemma digit_plain: "d < 10 \<Longrightarrow> newline \<noteq> digit_char d"
proof
  assume "d < 10" "newline = digit_char d"
  then have "is_digit newline" using digit_char_is_digit [of d] by simp
  then show False by (simp add: is_digit_def)
qed

lemma size_plain [simp]: "newline \<notin> set (FormatByteSize n)"
  by (auto simp: FormatByteSize_def fmt_int_def size_units_def Let_def fmt_tenths_def digit_plain)

lemma system_text_plain:
  assumes "newline \<notin> set stamp" "newline \<notin> set msg"
  obtains l where "system_text stamp msg = l @ [newline]" "newline \<notin> set l"
  by (rule that [of "''['' @ stamp @ ''] [SYSTEM] '' @ msg"]) (use assms in \<open>auto simp: system_text_def\<close>)

lemma FormatLine_plain:
  assumes "newline \<notin> set text" "newline \<notin> set (map upper_char stream)"
  obtains l where "FormatLine text stream = l @ [newline]" "newline \<notin> set l"
proof (rule that [of "butlast (FormatLine text stream)"])
  have "TrimNewline text = text" using assms(1) by (auto simp: TrimNewline_def dest: last_in_set)
  then show "FormatLine text stream = butlast (FormatLine text stream) @ [newline]"
    "newline \<notin> set (butlast (FormatLine text stream))"
    using assms by (auto simp: FormatLine_def Let_def butlast_append)
qed

lemma holds_simps [simp]:
  "holds L hist gone old cur (w\<lparr>lw_stopped := b\<rparr>) = holds L hist gone old cur w"
  "holds L hist gone old cur (w\<lparr>lw_truncated := b\<rparr>) = holds L hist gone old cur w"
  "holds L hist gone old cur (w\<lparr>lw_kills := k\<rparr>) = holds L hist gone old cur w"
  "holds L hist gone old cur (w\<lparr>lw_pressures := ps\<rparr>) = holds L hist gone old cur w"
  "holds L hist gone old cur (w\<lparr>lw_diskPressureHit := b\<rparr>) = holds L hist gone old cur w"
  "holds L hist gone old cur (w\<lparr>lw_lastDiskCheck := i\<rparr>) = holds L hist gone old cur w"
  "holds L hist gone old cur (w\<lparr>lw_totalProduced := i\<rparr>) = holds L hist gone old cur w"
  "holds L hist gone old cur (w\<lparr>lw_currentOffset := i\<rparr>) = holds L hist gone old cur w"
  "holds L hist gone old cur (w\<lparr>lw_fileOpen := b\<rparr>) = holds L hist gone old cur w"
  "holds L hist gone old cur (w\<lparr>lw_metaOpen := b\<rparr>) = holds L hist gone old cur w"
  "holds L hist gone old cur (w\<lparr>lw_indexStarted := b\<rparr>) = holds L hist gone old cur w"
  "holds L hist gone old cur (count_stream s w) = holds L hist gone old cur w"
  by (simp_all add: holds_def count_stream_def)

text \<open>A line more.\<close>

lemma index_right_append: "index_right idx ls \<Longrightarrow> index_right idx (ls @ [l])"
proof -
  assume r: "index_right idx ls"
  have "take (i * LogIndexInterval) (ls @ [l]) = take (i * LogIndexInterval) ls" if "i < length idx" for i
  proof -
    have "i * LogIndexInterval \<le> (length idx - 1) * LogIndexInterval" using that by (intro mult_le_mono1) simp
    also have "\<dots> \<le> length ls" using r by (simp add: index_right_def)
    finally show ?thesis by simp
  qed
  then show ?thesis using r by (auto simp: index_right_def)
qed

lemma holds_line:
  assumes "holds L hist gone old cur w" "newline \<notin> set l"
    and "lw_main w' = Some (lines_text cur @ l @ [newline])" "lw_lineCount w' = lw_lineCount w + 1"
    and "lw_prev w' = lw_prev w" "lw_container w' = lw_container w"
      "lw_rotatedLines w' = lw_rotatedLines w" "lw_prevSegmentStart w' = lw_prevSegmentStart w"
      "lw_maxSize w' = lw_maxSize w"
  shows "holds L (hist @ [l]) gone old (cur @ [l]) w'"
  using assms by (auto simp: holds_def Let_def index_right_append segmented_append)

lemma holds_system:
  assumes "holds L hist gone old cur w" "newline \<notin> set stamp" "newline \<notin> set msg" "whole res"
  obtains ls where "length ls \<le> 1" "holds L (hist @ ls) gone old (cur @ ls) (writeSystemLine res stamp msg w)"
    "lw_fileOpen w \<and> lw_currentOffset w = int (length (lines_text cur))
      \<longrightarrow> lw_currentOffset (writeSystemLine res stamp msg w) = int (length (lines_text (cur @ ls)))"
proof -
  obtain l where l: "system_text stamp msg = l @ [newline]" "newline \<notin> set l" using system_text_plain assms(2,3) .
  have main: "lw_main w = Some (lines_text cur)" using assms(1) by (simp add: holds_def)
  show thesis
  proof (cases "lw_fileOpen w \<and> res = Written")
    case True
    then show ?thesis
      using main by (intro that [of "[l]"]) (auto simp: writeSystemLine_def file_write_def Let_def l intro!: holds_line [OF assms(1) l(2)])
  next
    case False
    then have "writeSystemLine res stamp msg w = w"
      using assms(4) by (auto simp: writeSystemLine_def file_write_def whole_def Let_def option.map_ident split: writeResult.splits)
    then show ?thesis using assms(1) by (intro that [of "[]"]) auto
  qed
qed

lemma system_frame [simp]:
  "lw_stopped (writeSystemLine res stamp msg w) = lw_stopped w"
  "lw_container (writeSystemLine res stamp msg w) = lw_container w"
  "lw_metaOpen (writeSystemLine res stamp msg w) = lw_metaOpen w"
  "lw_indexStarted (writeSystemLine res stamp msg w) = lw_indexStarted w"
  "lw_fileOpen (writeSystemLine res stamp msg w) = lw_fileOpen w"
  "lw_prev (writeSystemLine res stamp msg w) = lw_prev w"
  "lw_kills (writeSystemLine res stamp msg w) = lw_kills w"
  "lw_maxSize (writeSystemLine res stamp msg w) = lw_maxSize w"
  "lw_overflow (writeSystemLine res stamp msg w) = lw_overflow w"
  by (auto simp: writeSystemLine_def file_write_def Let_def split: writeResult.splits)

lemma growing_system:
  assumes "growing cur w" "length ls \<le> 1" "cur = []"
    and "lw_currentOffset w' = int (length (lines_text (cur @ ls)))"
    and "lw_container w' = lw_container w" "lw_metaOpen w' = lw_metaOpen w"
      "lw_indexStarted w' = lw_indexStarted w" "lw_fileOpen w' = lw_fileOpen w"
  shows "growing (cur @ ls) w'"
  using assms by (auto simp: growing_def index_size_def LogIndexInterval_def)

text \<open>Rotation: moving the segment away, or giving up.\<close>

lemma frames_replay:
  "sc_Index (fold apply_record (map (\<lambda>(n, fs). RecFrame n fs) xs) sc) = sc_Index sc"
  "sc_Meta (fold apply_record (map (\<lambda>(n, fs). RecFrame n fs) xs) sc) = sc_Meta sc"
  by (induction xs arbitrary: sc) auto

lemma rewritten:
  assumes "le_containerCreates e" "le_containerWrites e"
  shows "sc_Index (ReadSidecar (lw_container (rewriteContainerForRotation e w))) = []"
    "sc_Meta (ReadSidecar (lw_container (rewriteContainerForRotation e w))) = meta_of w"
    "lw_container (rewriteContainerForRotation e w) \<noteq> None"
    "\<not> lw_indexStarted (rewriteContainerForRotation e w)"
  using assms by (auto simp: rewriteContainerForRotation_def Let_def frames_replay zero_sidecar_def ReadSidecar_def meta_of_def)

lemma rewrite_frame [simp]:
  "lw_main (rewriteContainerForRotation e w) = lw_main w" "lw_prev (rewriteContainerForRotation e w) = lw_prev w"
  "lw_fileOpen (rewriteContainerForRotation e w) = lw_fileOpen w"
  "lw_currentOffset (rewriteContainerForRotation e w) = lw_currentOffset w"
  "lw_lineCount (rewriteContainerForRotation e w) = lw_lineCount w"
  "lw_rotatedLines (rewriteContainerForRotation e w) = lw_rotatedLines w"
  "lw_prevSegmentStart (rewriteContainerForRotation e w) = lw_prevSegmentStart w"
  "lw_stopped (rewriteContainerForRotation e w) = lw_stopped w"
  "lw_maxSize (rewriteContainerForRotation e w) = lw_maxSize w"
  by (auto simp: rewriteContainerForRotation_def Let_def)

lemma holds_rotated:
  assumes "holds L hist gone old cur w" "sound_env e" "le_rename e = None" "\<not> lw_stopped w" "full L cur"
  obtains ls where "holds L (hist @ ls) (gone + length old) cur ls (rotateTail e w)"
    "growing ls (rotateTail e w)" "\<not> lw_stopped (rotateTail e w)"
proof -
  define v where "v = rewriteContainerForRotation e (w\<lparr>lw_prevSegmentStart := lw_rotatedLines w,
      lw_rotatedLines := lw_rotatedLines w + lw_lineCount w, lw_rotatedBytes := lw_rotatedBytes w + lw_currentOffset w,
      lw_prev := lw_main w, lw_main := Some [], lw_fileOpen := True, lw_currentOffset := 0, lw_lineCount := 0,
      lw_lastDiskCheck := 0, lw_truncated := True\<rparr>)"
  have rot: "rotateTail e w = writeSystemLine (le_system e) (le_stamp e)
      (''Log rotated: output exceeded log_max_size ('' @ FormatByteSize (lw_maxSize v) @ ''). Earlier output truncated.'') v"
    using assms(2,3) by (simp add: rotateTail_def Let_def sound_env_def v_def)
  have drop: "drop (gone + length old) hist = cur"
    using assms(1) by (metis add.commute append_eq_conv_conj drop_drop holds_def)
  have v: "holds L hist (gone + length old) cur [] v" "growing [] v"
    using assms(1,2,5) drop rewritten [of e] segmented_rotate [of L hist gone old cur "lw_prev w"]
    by (auto simp: holds_def growing_def index_size_def sound_env_def
        index_right_def v_def meta_of_def Let_def)
  let ?msg = "''Log rotated: output exceeded log_max_size ('' @ FormatByteSize (lw_maxSize v) @ ''). Earlier output truncated.''"
  obtain ls where "length ls \<le> 1" "holds L (hist @ ls) (gone + length old) cur ([] @ ls) (rotateTail e w)"
    "lw_currentOffset (rotateTail e w) = int (length (lines_text ([] @ ls)))"
  proof (rule holds_system [OF v(1), of "le_stamp e" ?msg "le_system e"])
    fix ls
    assume "length ls \<le> 1" "holds L (hist @ ls) (gone + length old) cur ([] @ ls) (writeSystemLine (le_system e) (le_stamp e) ?msg v)"
      "lw_fileOpen v \<and> lw_currentOffset v = int (length (lines_text []))
        \<longrightarrow> lw_currentOffset (writeSystemLine (le_system e) (le_stamp e) ?msg v) = int (length (lines_text ([] @ ls)))"
    then show thesis using v(2) by (intro that) (auto simp: rot growing_def)
  qed (use assms(2) in \<open>auto simp: sound_env_def\<close>)
  moreover have "\<not> lw_stopped (rotateTail e w)" using assms(4) by (simp add: rot v_def)
  ultimately show thesis
    using growing_system [OF v(2), of ls "rotateTail e w"] by (intro that [of ls]) (auto simp: rot)
qed

lemma holds_rotation_failed:
  assumes "holds L hist gone old cur w" "sound_env e" "le_rename e \<noteq> None" "lw_prev w = None"
  obtains ls where "holds L (hist @ ls) gone old (cur @ ls) (rotateTail e w)" "lw_stopped (rotateTail e w)"
    "lw_container (rotateTail e w) = lw_container w" "lw_metaOpen (rotateTail e w) = lw_metaOpen w"
proof -
  obtain err where err: "le_rename e = Some err" "newline \<notin> set err" using assms(2,3) by (auto simp: sound_env_def)
  let ?v = "w\<lparr>lw_prevSegmentStart := lw_rotatedLines w, lw_fileOpen := False\<rparr>"
  let ?u = "w\<lparr>lw_prevSegmentStart := lw_rotatedLines w, lw_fileOpen := True, lw_stopped := True, lw_truncated := True\<rparr>"
  have held: "holds L hist gone old cur ?v" "holds L hist gone old cur ?u"
    using assms(1,4) by (auto simp: holds_def)
  show thesis
  proof (cases "le_reopenFails e")
    case True
    then have "rotateTail e w = ?v\<lparr>lw_stopped := True\<rparr>" using err by (simp add: rotateTail_def Let_def)
    then show ?thesis using held by (intro that [of "[]"]) auto
  next
    case False
    then have rot: "rotateTail e w = writeSystemLine (le_system e) (le_stamp e)
        (''Log output stopped: log rotation failed ('' @ err @ ''). Process continues running.'') ?u"
      using err by (simp add: rotateTail_def Let_def)
    show ?thesis
    proof (rule holds_system [OF held(2), of "le_stamp e" _ "le_system e"])
      fix ls
      assume "holds L (hist @ ls) gone old (cur @ ls) (writeSystemLine (le_system e) (le_stamp e)
        (''Log output stopped: log rotation failed ('' @ err @ ''). Process continues running.'') ?u)"
      then show ?thesis by (intro that [of ls]) (auto simp: rot)
    qed (use assms(2) err in \<open>auto simp: sound_env_def\<close>)
  qed
qed

text \<open>The guards of a write. \<open>grown\<close> is what a step may do to the history.\<close>

definition grown :: "int \<times> nat set \<Rightarrow> string list \<Rightarrow> nat \<Rightarrow> string list \<Rightarrow> nat \<Rightarrow> logWriter \<Rightarrow> bool" where
  "grown L hist gone hist' gone' w \<longleftrightarrow> (\<exists>ls. hist' = hist @ ls) \<and> gone \<le> gone' \<and> log_ok L hist' gone' w"

lemma stopped_ok:
  "holds L hist gone old cur w \<Longrightarrow> lw_stopped w \<Longrightarrow> (lw_metaOpen w \<longrightarrow> lw_container w \<noteq> None) \<Longrightarrow> log_ok L hist gone w"
  by (auto simp: log_ok_def)

lemma disk_pressure_ok:
  assumes "holds L hist gone old cur w" "growing cur w" "\<not> lw_stopped w" "sound_env e" "checkDiskPressure e w = (b, w')"
  shows "if b then lw_stopped w' \<and> (\<exists>hist'. grown L hist gone hist' gone w')
    else holds L hist gone old cur w' \<and> growing cur w' \<and> \<not> lw_stopped w' \<and> lw_prev w' = lw_prev w"
proof (cases b)
  case False
  then show ?thesis
    using assms by (auto simp: checkDiskPressure_def Let_def growing_def split: if_splits)
next
  case True
  define killed where "killed = (lw_overflow w = LogOverflowKill)"
  define msg where "msg = disk_message killed (le_free e) (lw_minFreeDisk w)"
  define u where "u = writeSystemLine (le_system e) (le_stamp e) msg (w\<lparr>lw_lastDiskCheck := lw_currentOffset w\<rparr>)"
  define v where "v = u\<lparr>lw_stopped := True, lw_truncated := True, lw_kills := lw_kills u + (if killed then 1 else 0)\<rparr>"
  have w': "w' = (if lw_diskPressureHit v then v else v\<lparr>lw_diskPressureHit := True,
      lw_pressures := lw_pressures v @ [(le_free e, lw_minFreeDisk v, killed)]\<rparr>)"
    using assms(5) True
    by (auto simp: checkDiskPressure_def Let_def v_def u_def msg_def killed_def split: if_split_asm)
  have plain: "newline \<notin> set msg" by (auto simp: msg_def disk_message_def Let_def)
  have "\<exists>ls. holds L (hist @ ls) gone old (cur @ ls) u"
  proof (rule holds_system [of L hist gone old cur "w\<lparr>lw_lastDiskCheck := lw_currentOffset w\<rparr>" "le_stamp e" msg "le_system e"])
  qed (use assms(1,4) plain in \<open>auto simp: sound_env_def u_def\<close>)
  then obtain ls where ls: "holds L (hist @ ls) gone old (cur @ ls) w'" by (auto simp: w' v_def)
  moreover have "lw_stopped w'" "lw_metaOpen w' \<longrightarrow> lw_container w' \<noteq> None"
    using assms(2) by (auto simp: w' v_def u_def growing_def)
  ultimately show ?thesis using True stopped_ok [OF ls] by (auto simp: grown_def)
qed

lemma size_overflow_ok:
  assumes "holds L hist gone old cur w" "growing cur w" "\<not> lw_stopped w" "sound_env e"
    and "le_rename e \<noteq> None \<longrightarrow> lw_prev w = None" "handleSizeOverflow e p w = (b, w')" "length p \<in> snd L"
  shows "if b then lw_stopped w' \<and> (\<exists>hist'. grown L hist gone hist' gone w')
    else \<not> lw_stopped w' \<and> (\<exists>ls gone' old' cur'. gone \<le> gone' \<and> holds L (hist @ ls) gone' old' cur' w' \<and> growing cur' w')"
proof (cases "lw_maxSize w \<le> 0 \<or> lw_currentOffset w + int (length p) \<le> lw_maxSize w")
  case True
  then have "\<not> b" "w' = w" "holds L (hist @ []) gone old cur w"
    using assms(1,6) by (auto simp: handleSizeOverflow_def)
  then show ?thesis using assms(2,3) by (metis order_refl)
next
  case over: False
  have container: "lw_metaOpen w \<longrightarrow> lw_container w \<noteq> None" using assms(2) by (simp add: growing_def)
  have stops: "\<exists>hist'. grown L hist gone hist' gone v"
    if v: "v = (writeSystemLine (le_system e) (le_stamp e) msg w)\<lparr>lw_stopped := True, lw_truncated := True, lw_kills := k\<rparr>"
      and plain: "newline \<notin> set msg" for v msg k
  proof -
    obtain ls where "holds L (hist @ ls) gone old (cur @ ls) (writeSystemLine (le_system e) (le_stamp e) msg w)"
      by (rule holds_system [OF assms(1), of "le_stamp e" msg "le_system e"])
        (use assms(4) plain in \<open>auto simp: sound_env_def\<close>)
    then show ?thesis using container by (intro exI [of _ "hist @ ls"]) (auto simp: grown_def v intro!: stopped_ok)
  qed
  show ?thesis
  proof (cases "lw_overflow w")
    case LogOverflowDropNew
    have b: "b" and w': "w' = (writeSystemLine (le_system e) (le_stamp e)
          (''Log output truncated: exceeded log_max_size ('' @ FormatByteSize (lw_maxSize w)
              @ ''). Process continues running.'') w)\<lparr>lw_stopped := True, lw_truncated := True, lw_kills := lw_kills w\<rparr>"
      using assms(6) over LogOverflowDropNew by (auto simp: handleSizeOverflow_def intro!: logWriter.equality)
    show ?thesis using stops [OF w'] b by (auto simp: w')
  next
    case LogOverflowKill
    have b: "b" and w': "w' = (writeSystemLine (le_system e) (le_stamp e)
          (''Process killed: log output exceeded log_max_size ('' @ FormatByteSize (lw_maxSize w) @ '').'') w)
            \<lparr>lw_stopped := True, lw_truncated := True, lw_kills := lw_kills w + 1\<rparr>"
      using assms(6) over LogOverflowKill by (auto simp: handleSizeOverflow_def Let_def intro!: logWriter.equality)
    show ?thesis using stops [OF w'] b by (auto simp: w')
  next
    case LogOverflowDropOld
    then have b: "b = lw_stopped (rotateTail e w)" "w' = rotateTail e w"
      using assms(6) over by (auto simp: handleSizeOverflow_def Let_def)
    show ?thesis
    proof (cases "le_rename e")
      case None
      have "lw_maxSize w = fst L" "lw_currentOffset w = int (length (lines_text cur))"
        using assms(1,2) by (simp_all add: holds_def growing_def)
      then have "full L cur" using over assms(7) by (auto simp: full_def not_le intro!: bexI [of _ "length p"])
      from holds_rotated [OF assms(1,4) None assms(3) this] show ?thesis
        using b by (metis le_add1)
    next
      case (Some err)
      then have prev: "lw_prev w = None" "le_rename e \<noteq> None" using assms(5) by auto
      obtain ls where "holds L (hist @ ls) gone old (cur @ ls) (rotateTail e w)" "lw_stopped (rotateTail e w)"
        "lw_container (rotateTail e w) = lw_container w" "lw_metaOpen (rotateTail e w) = lw_metaOpen w"
        using holds_rotation_failed [OF assms(1,4) prev(2,1)] by blast
      then have "log_ok L (hist @ ls) gone (rotateTail e w)" "lw_stopped (rotateTail e w)"
        using container by (auto intro!: stopped_ok)
      then have "grown L hist gone (hist @ ls) gone (rotateTail e w) \<and> lw_stopped (rotateTail e w)"
        by (auto simp: grown_def)
      then show ?thesis using b by auto
    qed
  qed
qed

text \<open>The index keeps up with the lines.\<close>

lemma appended:
  assumes "lw_metaOpen w \<longrightarrow> lw_container w \<noteq> None" "le_containerOpens e" "le_containerWrites e"
  shows "ReadSidecar (lw_container (appendRecord e r w)) = apply_record r (ReadSidecar (lw_container w))"
    "lw_container (appendRecord e r w) \<noteq> None"
  using assms by (auto simp: appendRecord_def ensureContainer_def OrDefault_def split: option.splits)

lemma append_frame [simp]:
  "lw_main (appendRecord e r w) = lw_main w" "lw_prev (appendRecord e r w) = lw_prev w"
  "lw_fileOpen (appendRecord e r w) = lw_fileOpen w" "lw_currentOffset (appendRecord e r w) = lw_currentOffset w"
  "lw_lineCount (appendRecord e r w) = lw_lineCount w" "lw_rotatedLines (appendRecord e r w) = lw_rotatedLines w"
  "lw_prevSegmentStart (appendRecord e r w) = lw_prevSegmentStart w" "lw_stopped (appendRecord e r w) = lw_stopped w"
  "lw_indexStarted (appendRecord e r w) = lw_indexStarted w" "lw_maxSize (appendRecord e r w) = lw_maxSize w"
  by (auto simp: appendRecord_def ensureContainer_def)

lemma index_size_Suc:
  "index_size (Suc n) = (if n > 0 \<and> n mod LogIndexInterval = 0
     then (if index_size n = 0 then 2 else index_size n + 1) else index_size n)"
proof -
  obtain q r where n: "n = q * LogIndexInterval + r" "r < LogIndexInterval"
    by (metis div_mult_mod_eq mod_less_divisor zero_less_numeral LogIndexInterval_def)
  have m: "n mod LogIndexInterval = r" using n by (simp add: LogIndexInterval_def)
  have a: "(q * 1024 + s) div 1024 = q" if "s < 1024" for s :: nat using that by simp
  show ?thesis
  proof (cases "r = 0")
    case True
    then show ?thesis
    proof (cases q)
      case (Suc q')
      have "(n - 1) div 1024 = q'" using n True Suc a [of 1023] by (simp add: LogIndexInterval_def)
      then show ?thesis using n True Suc m by (simp add: index_size_def LogIndexInterval_def)
    qed (use n m True in \<open>simp add: index_size_def LogIndexInterval_def\<close>)
  next
    case False
    have "(n - 1) div 1024 = q" "n div 1024 = q" using n False by (simp_all add: LogIndexInterval_def)
    then show ?thesis using n False m by (cases q) (auto simp: index_size_def LogIndexInterval_def)
  qed
qed

lemma index_right_boundary:
  assumes "index_right idx ls" "length ls = length idx * LogIndexInterval"
  shows "index_right (idx @ [length (lines_text ls)]) ls"
  using assms by (auto simp: index_right_def nth_append less_Suc_eq)

lemma indexed:
  assumes "holds L hist gone old cur w" "growing cur w" "sound_env e"
  shows "holds L hist gone old cur (updateSidecarsAfterWrite e w)"
    "length (sc_Index (ReadSidecar (lw_container (updateSidecarsAfterWrite e w)))) = index_size (Suc (length cur))"
    "lw_indexStarted (updateSidecarsAfterWrite e w) \<longleftrightarrow> sc_Index (ReadSidecar (lw_container (updateSidecarsAfterWrite e w))) \<noteq> []"
    "lw_metaOpen (updateSidecarsAfterWrite e w) \<longrightarrow> lw_container (updateSidecarsAfterWrite e w) \<noteq> None"
proof -
  define idx where "idx = sc_Index (ReadSidecar (lw_container w))"
  let ?n = "length cur" and ?v = "updateSidecarsAfterWrite e w"
  have n: "lw_lineCount w = int ?n" "length idx = index_size ?n" "lw_indexStarted w \<longleftrightarrow> idx \<noteq> []"
    "index_right idx cur" "lw_metaOpen w \<longrightarrow> lw_container w \<noteq> None" "lw_currentOffset w = int (length (lines_text cur))"
    using assms(1,2) by (auto simp: holds_def growing_def idx_def Let_def)
  have env: "le_containerOpens e" "le_containerWrites e" using assms(3) by (auto simp: sound_env_def)
  have "holds L hist gone old cur ?v \<and> length (sc_Index (ReadSidecar (lw_container ?v))) = index_size (Suc ?n)
    \<and> (lw_indexStarted ?v \<longleftrightarrow> sc_Index (ReadSidecar (lw_container ?v)) \<noteq> []) \<and> (lw_metaOpen ?v \<longrightarrow> lw_container ?v \<noteq> None)"
  proof (cases "?n > 0 \<and> ?n mod LogIndexInterval = 0")
    case False
    then have "?v = w" using n(1) by (auto simp: updateSidecarsAfterWrite_def simp flip: of_nat_mod)
    moreover have "index_size (Suc ?n) = index_size ?n" using False by (simp add: index_size_Suc)
    ultimately show ?thesis using assms(1) n by (simp add: idx_def)
  next
    case True
    define idx1 where "idx1 = (if idx = [] then [0] else idx)"
    define u where "u = ensureIndexBackfill e w"
    from True have "?n = ?n div LogIndexInterval * LogIndexInterval" using div_mult_mod_eq [of ?n LogIndexInterval] by simp
    then obtain q where q: "?n = q * LogIndexInterval" by blast
    with True have q0: "q > 0" by (cases q) auto
    have size: "index_size ?n = (if q = 1 then 0 else q)"
    proof (cases q)
      case (Suc p)
      have "(p * 1024 + 1023) div 1024 = p" by simp
      then show ?thesis using q Suc by (auto simp: index_size_def LogIndexInterval_def)
    qed (use q0 in simp)
    have u: "ReadSidecar (lw_container u) = (ReadSidecar (lw_container w))\<lparr>sc_Index := idx1\<rparr>"
      "lw_metaOpen u \<longrightarrow> lw_container u \<noteq> None" "lw_indexStarted u" "lw_currentOffset u = lw_currentOffset w"
      using n(3,5) appended [OF n(5) env, of "RecIndex 0"]
      by (auto simp: u_def ensureIndexBackfill_def idx1_def idx_def)
    have v: "?v = appendRecord e (RecIndex (nat (lw_currentOffset u))) u"
      using True n(1) u(4) by (auto simp: updateSidecarsAfterWrite_def u_def simp flip: of_nat_mod)
    have read: "ReadSidecar (lw_container ?v) = (ReadSidecar (lw_container w))\<lparr>sc_Index := idx1 @ [length (lines_text cur)]\<rparr>"
      using appended [OF u(2) env] u(1,4) n(6) by (simp add: v)
    have l1: "length idx1 = q" using n(2) size q0 by (auto simp: idx1_def split: if_splits)
    have "index_right idx1 cur" using n(4) by (auto simp: idx1_def index_right_def)
    then have "index_right (idx1 @ [length (lines_text cur)]) cur"
      by (rule index_right_boundary) (simp add: l1 q)
    moreover have "index_size (Suc ?n) = q + 1" using True size q0 by (simp add: index_size_Suc)
    moreover have "lw_container ?v \<noteq> None" using appended [OF u(2) env] by (simp add: v)
    moreover have "lw_main ?v = lw_main w" "lw_prev ?v = lw_prev w" "lw_rotatedLines ?v = lw_rotatedLines w"
      "lw_prevSegmentStart ?v = lw_prevSegmentStart w" "lw_lineCount ?v = lw_lineCount w"
      "lw_maxSize ?v = lw_maxSize w"
      by (simp_all add: v u_def ensureIndexBackfill_def)
    ultimately show ?thesis
      using assms(1) read u(3) l1 by (auto simp: holds_def Let_def v)
  qed
  then show "holds L hist gone old cur ?v" "length (sc_Index (ReadSidecar (lw_container ?v))) = index_size (Suc ?n)"
    "lw_indexStarted ?v \<longleftrightarrow> sc_Index (ReadSidecar (lw_container ?v)) \<noteq> []" "lw_metaOpen ?v \<longrightarrow> lw_container ?v \<noteq> None"
    by blast+
qed

text \<open>A line written, or refused.\<close>

lemma written_line:
  assumes "holds L hist gone old cur w" "growing cur w" "\<not> lw_stopped w" "sound_env e"
    and p: "p = l @ [newline]" "newline \<notin> set l" and "le_line e = Written"
  defines "v \<equiv> updateSidecarsAfterWrite e (w\<lparr>lw_main := map_option (\<lambda>c. c @ p) (lw_main w)\<rparr>)"
  defines "v' \<equiv> v\<lparr>lw_currentOffset := lw_currentOffset v + int (length p), lw_lineCount := lw_lineCount v + 1\<rparr>"
  shows "log_ok L (hist @ [l]) gone v'"
proof -
  define u where "u = updateSidecarsAfterWrite e w"
  have main: "lw_main w = Some (lines_text cur)" using assms(1) by (simp add: holds_def)
  have v: "v = u\<lparr>lw_main := Some (lines_text cur @ l @ [newline])\<rparr>"
    by (simp add: v_def u_def main p updateSidecarsAfterWrite_def ensureIndexBackfill_def appendRecord_def ensureContainer_def)
  note ind = indexed [OF assms(1,2,4), folded u_def]
  have frame: "lw_currentOffset u = lw_currentOffset w" "lw_lineCount u = lw_lineCount w" "lw_fileOpen u = lw_fileOpen w"
    by (simp_all add: u_def updateSidecarsAfterWrite_def ensureIndexBackfill_def)
  have "holds L (hist @ [l]) gone old (cur @ [l]) v'"
    by (rule holds_line [OF ind(1) p(2)]) (simp_all add: v'_def v)
  moreover have "growing (cur @ [l]) v'"
    using ind assms(2) frame by (simp add: growing_def v'_def v p)
  moreover have "lw_metaOpen v' \<longrightarrow> lw_container v' \<noteq> None" using ind(4) by (simp add: v'_def v)
  ultimately show ?thesis by (auto simp: log_ok_def)
qed

lemma failed_line:
  assumes "holds L hist gone old cur w" "growing cur w" "sound_env e"
    and p: "p = l @ [newline]" "newline \<notin> set l" and e: "le_line e = ShortWrite n err" "n < length p"
  defines "u \<equiv> w\<lparr>lw_main := map_option (\<lambda>c. c @ take n p) (lw_main w), lw_stopped := True, lw_truncated := True\<rparr>"
  shows "\<exists>hist'. grown L hist gone hist' gone (writeSystemLine (le_marker e) (le_stamp e)
     (''Log output stopped: write error ('' @ err @ ''). Process continues running.'') u)"
proof -
  obtain msg where msg: "msg = ''Log output stopped: write error ('' @ err @ ''). Process continues running.''" by blast
  let ?w = "w\<lparr>lw_stopped := True, lw_truncated := True\<rparr>"
  have env: "newline \<notin> set (le_stamp e)" "newline \<notin> set msg" "whole (le_marker e)" "n = 0 \<or> le_marker e = Written"
    using assms(3) e by (auto simp: sound_env_def msg)
  have main: "lw_main w = Some (lines_text cur)" and "open": "lw_fileOpen w" "lw_metaOpen w \<longrightarrow> lw_container w \<noteq> None"
    using assms(1,2) by (auto simp: holds_def growing_def)
  show ?thesis
  proof (cases "n = 0")
    case True
    then have u: "u = ?w" by (simp add: u_def option.map_ident)
    obtain ls where "holds L (hist @ ls) gone old (cur @ ls) (writeSystemLine (le_marker e) (le_stamp e) msg ?w)"
      by (rule holds_system [of L hist gone old cur ?w "le_stamp e" msg "le_marker e"]) (use assms(1) env in auto)
    then have "grown L hist gone (hist @ ls) gone (writeSystemLine (le_marker e) (le_stamp e) msg ?w)"
      using "open" by (auto simp: grown_def intro!: stopped_ok)
    then show ?thesis by (auto simp: u msg)
  next
    case False
    obtain m where m: "system_text (le_stamp e) msg = m @ [newline]" "newline \<notin> set m"
      using system_text_plain env(1,2) .
    have part: "take n p = take n l" "newline \<notin> set (take n l)" using p e(2) by (auto dest: in_set_takeD)
    have "holds L (hist @ [take n l @ m]) gone old (cur @ [take n l @ m]) (writeSystemLine (le_marker e) (le_stamp e) msg u)"
      by (rule holds_line [OF assms(1)])
        (use False env(4) main "open" m part in \<open>auto simp: u_def writeSystemLine_def file_write_def Let_def\<close>)
    then have "grown L hist gone (hist @ [take n l @ m]) gone (writeSystemLine (le_marker e) (le_stamp e) msg u)"
      using "open" by (auto simp: grown_def u_def intro!: stopped_ok)
    then show ?thesis unfolding msg by blast
  qed
qed

lemma frame_prev [simp]:
  "lw_prev (count_stream s w) = lw_prev w" "lw_stopped (count_stream s w) = lw_stopped w"
  "lw_metaOpen (count_stream s w) = lw_metaOpen w" "lw_container (count_stream s w) = lw_container w"
  "growing cur (count_stream s w) = growing cur w" "growing cur (w\<lparr>lw_totalProduced := k\<rparr>) = growing cur w"
  by (simp_all add: count_stream_def growing_def)

lemma log_ok_count [simp]:
  "log_ok L hist gone (count_stream s w) = log_ok L hist gone w"
  "log_ok L hist gone (w\<lparr>lw_totalProduced := k\<rparr>) = log_ok L hist gone w"
  by (simp_all add: log_ok_def)

lemma write_ok:
  assumes ok: "log_ok L hist gone w" and e: "sound_env e" and prev: "le_rename e \<noteq> None \<longrightarrow> lw_prev w = None"
    and p: "p = l @ [newline]" "newline \<notin> set l"
    and cut: "case le_line e of Written \<Rightarrow> True | ShortWrite n _ \<Rightarrow> n < length p"
    and run: "writeOneLine e p w = (n, w')" and len: "length p \<in> snd L"
  shows "\<exists>hist' gone'. grown L hist gone hist' gone' w'
    \<and> (0 \<le> n \<longrightarrow> length hist \<le> nat n \<and> nat n < length hist' \<and> hist' ! nat n = l)"
proof -
  define w1 where "w1 = w\<lparr>lw_totalProduced := lw_totalProduced w + int (length p)\<rparr>"
  have ok1: "log_ok L hist gone w1" using ok by (simp add: w1_def)
  show ?thesis
  proof (cases "lw_stopped w1")
    case True
    then have "n = - 1" "w' = w1" using run by (auto simp: writeOneLine_def Let_def w1_def)
    then show ?thesis using ok1 by (auto simp: grown_def)
  next
    case False
    obtain old cur where held: "holds L hist gone old cur w1" "growing cur w1" using ok1 False by (auto simp: log_ok_def)
    obtain b w2 where disk: "checkDiskPressure e w1 = (b, w2)" by fastforce
    note d = disk_pressure_ok [OF held False e disk]
    show ?thesis
    proof (cases b)
      case True
      then have "n = - 1" "w' = w2" using run False disk by (auto simp: writeOneLine_def Let_def w1_def)
      then show ?thesis using d True by auto
    next
      case nb: False
      then have d: "holds L hist gone old cur w2" "growing cur w2" "\<not> lw_stopped w2" "lw_prev w2 = lw_prev w1" using d by auto
      obtain c w3 where size: "handleSizeOverflow e p w2 = (c, w3)" by fastforce
      have "le_rename e \<noteq> None \<longrightarrow> lw_prev w2 = None" using prev d(4) by (simp add: w1_def)
      note z = size_overflow_ok [OF d(1-3) e this size len]
      show ?thesis
      proof (cases c)
        case True
        then have "n = - 1" "w' = w3" using run False disk nb size by (auto simp: writeOneLine_def Let_def w1_def)
        then show ?thesis using z True by auto
      next
        case nc: False
        then obtain ls gone' old' cur' where held3: "gone \<le> gone'" "holds L (hist @ ls) gone' old' cur' w3" "growing cur' w3"
          "\<not> lw_stopped w3" using z by auto
        have "open": "lw_fileOpen w3" using held3(3) by (simp add: growing_def)
        have number: "lw_rotatedLines w3 + lw_lineCount w3 = int (length (hist @ ls))"
          using held3(2) unfolding holds_def by simp
        show ?thesis
        proof (cases "le_line e")
          case Written
          define v where "v = updateSidecarsAfterWrite e (w3\<lparr>lw_main := map_option (\<lambda>c. c @ p) (lw_main w3)\<rparr>)"
          have "n = int (length (hist @ ls))"
            "w' = v\<lparr>lw_currentOffset := lw_currentOffset v + int (length p), lw_lineCount := lw_lineCount v + 1\<rparr>"
            using run False disk nb size nc "open" Written number p(1)
            by (auto simp: writeOneLine_def Let_def w1_def file_write_def v_def)
          moreover have "log_ok L ((hist @ ls) @ [l]) gone'
              (v\<lparr>lw_currentOffset := lw_currentOffset v + int (length p), lw_lineCount := lw_lineCount v + 1\<rparr>)"
            unfolding v_def by (rule written_line [OF held3(2,3,4) e p Written])
          ultimately show ?thesis using held3(1)
            by (intro exI [of _ "hist @ ls @ [l]"] exI [of _ gone']) (auto simp: grown_def nth_append)
        next
          case (ShortWrite k err)
          then have "n = - 1" "w' = writeSystemLine (le_marker e) (le_stamp e)
              (''Log output stopped: write error ('' @ err @ ''). Process continues running.'')
              (w3\<lparr>lw_main := map_option (\<lambda>c. c @ take k p) (lw_main w3), lw_stopped := True, lw_truncated := True\<rparr>)"
            using run False disk nb size nc "open" by (auto simp: writeOneLine_def Let_def w1_def file_write_def)
          moreover from failed_line [OF held3(2,3) e p ShortWrite] cut ShortWrite
          obtain hist' where "grown L (hist @ ls) gone' hist' gone' w'" using calculation by auto
          ultimately show ?thesis using held3(1) by (auto simp: grown_def)
        qed
      qed
    qed
  qed
qed

lemma frames_ok:
  assumes "log_ok L hist gone w" "sound_env e"
  shows "log_ok L hist gone (WriteFrameHistory e anchor frames w)"
proof (cases "frames = [] \<or> lw_stopped w")
  case False
  obtain old cur where held: "holds L hist gone old cur w" "growing cur w" using assms(1) False by (auto simp: log_ok_def)
  have env: "lw_metaOpen w \<longrightarrow> lw_container w \<noteq> None" "le_containerOpens e" "le_containerWrites e"
    using held assms(2) by (auto simp: growing_def sound_env_def)
  have "holds L hist gone old cur (WriteFrameHistory e anchor frames w)" "growing cur (WriteFrameHistory e anchor frames w)"
    using held False appended [OF env, of "RecFrame anchor frames"]
    by (auto simp: WriteFrameHistory_def holds_def growing_def Let_def)
  then show ?thesis by (auto simp: log_ok_def growing_def)
qed (use assms in \<open>auto simp: WriteFrameHistory_def\<close>)

text \<open>The length of the line of a call.\<close>

fun call_length :: "logCall \<Rightarrow> nat set" where
  "call_length (CallLine text stream) = {length (FormatLine text stream)}"
| "call_length (CallFrames anchor frames) = {}"

lemma call_ok:
  assumes "log_ok L hist gone w" "sound_call e c w" "log_call e c w = (n, w')" "call_length c \<subseteq> snd L"
  shows "\<exists>hist' gone'. grown L hist gone hist' gone' w' \<and> (0 \<le> n \<longrightarrow> length hist \<le> nat n \<and> nat n < length hist'
    \<and> (\<forall>text stream. c = CallLine text stream \<longrightarrow> hist' ! nat n = butlast (FormatLine text stream)))"
proof (cases c)
  case (CallLine tx stream)
  obtain l where l: "FormatLine tx stream = l @ [newline]" "newline \<notin> set l"
    using FormatLine_plain assms(2) CallLine by auto
  from write_ok [of L hist gone "count_stream stream w" e "FormatLine tx stream" l n w'] l assms CallLine
  show ?thesis by (auto simp: WriteLineEvent_def)
next
  case (CallFrames anchor frames)
  then have "n = - 1" "grown L hist gone hist gone w'"
    using assms frames_ok [where L = L and hist = hist and gone = gone and w = w and e = e]
    by (auto simp: grown_def)
  then show ?thesis by auto
qed

lemma calls_ok:
  assumes "log_ok L hist gone w" "sound_calls cs w" "log_calls cs w = (ns, w')"
    and "\<Union> (call_length ` snd ` set cs) \<subseteq> snd L"
  shows "\<exists>hist' gone'. grown L hist gone hist' gone' w' \<and> length ns = length cs
    \<and> (\<forall>n\<in>set ns. 0 \<le> n \<longrightarrow> length hist \<le> nat n) \<and> sorted_wrt (<) (filter (\<lambda>n. 0 \<le> n) ns)
    \<and> (\<forall>i<length cs. \<forall>e text stream. cs ! i = (e, CallLine text stream) \<and> 0 \<le> ns ! i \<longrightarrow>
          nat (ns ! i) < length hist' \<and> hist' ! nat (ns ! i) = butlast (FormatLine text stream))"
  using assms
proof (induction cs arbitrary: hist gone w ns)
  case Nil
  then show ?case by (auto simp: grown_def)
next
  case (Cons ec cs)
  obtain e c where ec: "ec = (e, c)" by fastforce
  obtain n w1 where step: "log_call e c w = (n, w1)" by fastforce
  obtain ns' where rest: "log_calls cs w1 = (ns', w')" "ns = n # ns'"
    using Cons.prems(3) step by (auto simp: ec split: prod.splits)
  obtain hist1 gone1 where one: "grown L hist gone hist1 gone1 w1"
    "0 \<le> n \<Longrightarrow> length hist \<le> nat n \<and> nat n < length hist1
      \<and> (\<forall>text stream. c = CallLine text stream \<longrightarrow> hist1 ! nat n = butlast (FormatLine text stream))"
    using call_ok [OF Cons.prems(1) _ step] Cons.prems(2,4) ec by auto
  have "log_ok L hist1 gone1 w1" "sound_calls cs w1" "\<Union> (call_length ` snd ` set cs) \<subseteq> snd L"
    using one(1) Cons.prems(2,4) step by (auto simp: grown_def ec)
  from Cons.IH [OF this(1,2) rest(1) this(3)] obtain hist' gone' where more_calls: "grown L hist1 gone1 hist' gone' w'" "length ns' = length cs"
    "\<forall>n\<in>set ns'. 0 \<le> n \<longrightarrow> length hist1 \<le> nat n" "sorted_wrt (<) (filter (\<lambda>n. 0 \<le> n) ns')"
    "\<forall>i<length cs. \<forall>e text stream. cs ! i = (e, CallLine text stream) \<and> 0 \<le> ns' ! i \<longrightarrow>
        nat (ns' ! i) < length hist' \<and> hist' ! nat (ns' ! i) = butlast (FormatLine text stream)"
    by blast
  have len: "length hist \<le> length hist1" "length hist1 \<le> length hist'" "\<forall>k<length hist1. hist' ! k = hist1 ! k"
    using one(1) more_calls(1) by (auto simp: grown_def nth_append)
  have "grown L hist gone hist' gone' w'" using one(1) more_calls(1) by (auto simp: grown_def)
  moreover have "\<forall>m\<in>set ns. 0 \<le> m \<longrightarrow> length hist \<le> nat m" using one(2) more_calls(3) len rest(2) by force
  moreover have "sorted_wrt (<) (filter (\<lambda>n. 0 \<le> n) ns)" using one(2) more_calls(3,4) rest(2) by force
  moreover have "nat (ns ! i) < length hist' \<and> hist' ! nat (ns ! i) = butlast (FormatLine tx stream)"
    if "i < length (ec # cs)" "(ec # cs) ! i = (e', CallLine tx stream)" "0 \<le> ns ! i" for i e' tx stream
    using that one(2) more_calls(5) len rest(2) ec by (cases i) auto
  ultimately show ?case using more_calls(2) rest(2) by auto
qed

text \<open>A reader at any time, and after the end.\<close>

lemma new_ok: "log_ok (maxSize, P) [] 0 (NewLogWriter maxSize overflow minFree)"
proof -
  have "holds (maxSize, P) [] 0 [] [] (NewLogWriter maxSize overflow minFree)" "growing [] (NewLogWriter maxSize overflow minFree)"
    by (simp_all add: NewLogWriter_def holds_def growing_def zero_sidecar_def zero_meta_def index_right_def index_size_def segmented_new)
  then show ?thesis by (force simp: log_ok_def growing_def)
qed

text \<open>What the files hold when the writer is asked or closed.\<close>

definition shows_history :: "int \<times> nat set \<Rightarrow> string list list \<Rightarrow> string list \<Rightarrow> logFiles \<Rightarrow> bool" where
  "shows_history L segs cur f \<longleftrightarrow>
     lf_main f = Some (lines_text cur)
     \<and> lf_prev f = (if segs = [] then None else Some (lines_text (last segs)))
     \<and> (\<forall>s\<in>set segs. full L s)
     \<and> ((\<forall>l\<in>set (concat segs @ cur). length l < maxLogLineSize) \<longrightarrow>
         describes f (length (concat (butlast segs))) (if segs = [] then [] else last segs) cur)"

lemma held_lines:
  assumes "holds L hist gone old cur w" "\<forall>l\<in>set hist. length l < maxLogLineSize"
  shows "\<forall>l\<in>set (old @ cur). readable l"
proof -
  have "set (old @ cur) \<subseteq> set hist" using assms(1) by (metis holds_def set_drop_subset)
  then show ?thesis using assms by (auto simp: readable_def holds_def)
qed

lemma live_holds:
  assumes "log_ok L hist gone w"
  shows "\<exists>segs cur. hist = concat segs @ cur \<and> shows_history L segs cur (files_of w)"
proof -
  obtain old cur where held: "holds L hist gone old cur w" using assms by (auto simp: log_ok_def)
  then obtain segs where segs: "hist = concat segs @ cur" "gone = length (concat (butlast segs))"
    "old = (if segs = [] then [] else last segs)" "lw_prev w = (if segs = [] then None else Some (lines_text (last segs)))"
    "\<forall>s\<in>set segs. full L s"
    by (auto simp: holds_def segmented_def)
  have "describes (files_of w) gone old cur" if "\<forall>l\<in>set hist. length l < maxLogLineSize"
    using held held_lines [OF held that]
    by (auto simp: describes_def files_of_def holds_def Let_def split: option.splits)
  then have "shows_history L segs cur (files_of w)"
    using held segs by (auto simp: shows_history_def files_of_def holds_def)
  then show ?thesis using segs(1) by blast
qed

lemma closed_holds:
  assumes "log_ok L hist gone w" "sound_env e"
  shows "\<exists>ls segs cur. hist @ ls = concat segs @ cur \<and> shows_history L segs cur (files_of (CloseLog e w))"
proof -
  obtain old cur where held: "holds L hist gone old cur w" "lw_metaOpen w \<longrightarrow> lw_container w \<noteq> None"
    using assms(1) by (auto simp: log_ok_def)
  define u where "u = writeTotalProducedLine e w"
  have "\<exists>ls. holds L (hist @ ls) gone old (cur @ ls) u"
  proof (cases "lw_truncated w")
    case True
    define msg where "msg = ''Total process output: '' @ FormatByteSize (lw_totalProduced w)
          @ (if 0 < lw_maxSize w then '' (limit: '' @ FormatByteSize (lw_maxSize w) @ '').'' else ''.'')"
    have u: "u = writeSystemLine (le_system e) (le_stamp e) msg w" using True by (simp add: u_def writeTotalProducedLine_def msg_def)
    have "newline \<notin> set msg" by (auto simp: msg_def)
    then show ?thesis
      unfolding u using holds_system [OF held(1), of "le_stamp e" msg "le_system e"] assms(2) by (auto simp: sound_env_def)
  next
    case False
    then show ?thesis using held(1) by (intro exI [of _ "[]"]) (simp add: u_def writeTotalProducedLine_def)
  qed
  then obtain ls where ls: "holds L (hist @ ls) gone old (cur @ ls) u" by blast
  then obtain segs where segs: "hist @ ls = concat segs @ cur @ ls" "gone = length (concat (butlast segs))"
    "old = (if segs = [] then [] else last segs)" "lw_prev u = (if segs = [] then None else Some (lines_text (last segs)))"
    "\<forall>s\<in>set segs. full L s"
    by (auto simp: holds_def segmented_def)
  have "lw_metaOpen u \<longrightarrow> lw_container u \<noteq> None" using held(2) by (simp add: u_def writeTotalProducedLine_def)
  then have d: "describes (files_of (CloseLog e w)) gone old (cur @ ls)"
    if "\<forall>l\<in>set (hist @ ls). length l < maxLogLineSize"
    using ls held_lines [OF ls that] appended [OF \<open>lw_metaOpen u \<longrightarrow> lw_container u \<noteq> None\<close>, of e] assms(2)
    by (auto simp: CloseLog_def Let_def u_def [symmetric] describes_def files_of_def holds_def sound_env_def meta_of_def
        split: option.splits)
  have f: "lf_main (files_of (CloseLog e w)) = Some (lines_text (cur @ ls))" "lf_prev (files_of (CloseLog e w)) = lw_prev u"
    using ls unfolding holds_def by (simp_all add: files_of_def CloseLog_def Let_def u_def [symmetric])
  have "shows_history L segs (cur @ ls) (files_of (CloseLog e w))"
    unfolding shows_history_def segs(1) [symmetric] segs(2) [symmetric] segs(3) [symmetric]
    using f segs(4,5) d by metis
  then show ?thesis using segs(1) by blast
qed

lemma read_history:
  assumes "shows_history L segs cur f" "\<forall>l\<in>set (concat segs @ cur). length l < maxLogLineSize"
  shows "ReadLineRange f first limit =
    (let start = ResolveStartLine first (int (length (concat (butlast segs)))) (int (length (concat segs @ cur)));
         lim = nat (if limit \<le> 0 then 1000 else limit)
     in (numbered start (map dropCR (take lim (drop (nat start) (concat segs @ cur)))),
         int (length (concat (butlast segs))), int (length (concat segs @ cur)), False))"
proof -
  define gone where "gone = length (concat (butlast segs))"
  define old where "old = (if segs = [] then [] else last segs)"
  have d: "describes f gone old cur" using assms by (simp add: shows_history_def gone_def old_def)
  define hist where "hist = concat segs @ cur"
  have "hist = concat (butlast segs) @ old @ cur"
    by (cases segs rule: rev_cases) (simp_all add: old_def hist_def)
  then have hist: "length hist = gone + length old + length cur" "drop gone hist = old @ cur" by (simp_all add: gone_def)
  define start where "start = ResolveStartLine first (int gone) (int (length hist))"
  have "int gone \<le> start" by (simp add: start_def ResolveStartLine_def Let_def)
  then have "drop (nat start) hist = drop (nat (start - int gone)) (old @ cur)"
    unfolding hist(2) [symmetric] by (simp add: nat_diff_distrib)
  then show ?thesis
    using read_range_exact [OF d, of start first _ limit] hist(1)
    unfolding gone_def [symmetric] hist_def [symmetric] by (simp add: start_def Let_def)
qed

section \<open>What is written is what is read\<close>

text \<open>C17. A reader gets back exactly what was written, under the number it was written with. Whatever
  lines and frame histories a run's writer is given, through rotations, full disks, failing writes
  and the stop of the capture, its lines form a sequence of segments: each accepted line was given
  its place in the sequence as its number, and numbers only grow; the file holds the last segment,
  the hidden file beside it the one before, byte for byte, and a segment was closed only because one
  of the lines given did not fit within the limit; and a read of any range, while the run goes on as
  well as after the close, through the line index and across the two files, yields precisely the
  lines with these numbers of the whole sequence, from the first line of the two files on, each once
  and with its number, together with the number of that first line and the number of all lines.
  (Lines fit the reader's buffer; no segment fails to be created, none to be moved while there is an
  older one.)\<close>

theorem log_reads_back:
  assumes "sound_calls cs (NewLogWriter maxSize overflow minFree)" "sound_env e"
    and "log_calls cs (NewLogWriter maxSize overflow minFree) = (ns, w)"
    and "f = files_of (if ended then CloseLog e w else w)"
  shows "\<exists>segs cur.
    (\<forall>i<length cs. \<forall>e text stream. cs ! i = (e, CallLine text stream) \<and> 0 \<le> ns ! i \<longrightarrow>
        nat (ns ! i) < length (concat segs @ cur)
        \<and> (concat segs @ cur) ! nat (ns ! i) = butlast (FormatLine text stream))
    \<and> sorted_wrt (<) (filter (\<lambda>n. 0 \<le> n) ns)
    \<and> lf_main f = Some (lines_text cur)
    \<and> lf_prev f = (if segs = [] then None else Some (lines_text (last segs)))
    \<and> (\<forall>s\<in>set segs. 0 < maxSize \<and> (\<exists>e text stream. (e, CallLine text stream) \<in> set cs
          \<and> maxSize < int (length (lines_text s) + length (FormatLine text stream))))
    \<and> ((\<forall>l\<in>set (concat segs @ cur). length l < maxLogLineSize) \<longrightarrow>
        (\<forall>first limit. ReadLineRange f first limit =
          (let gone = int (length (concat (butlast segs))); total = int (length (concat segs @ cur));
               start = ResolveStartLine first gone total; lim = nat (if limit \<le> 0 then 1000 else limit)
           in (numbered start (map dropCR (take lim (drop (nat start) (concat segs @ cur)))), gone, total, False))))"
proof -
  define P where "P = \<Union> (call_length ` snd ` set cs)"
  obtain hist0 gone where calls: "grown (maxSize, P) [] 0 hist0 gone w" "sorted_wrt (<) (filter (\<lambda>n. 0 \<le> n) ns)"
    "\<forall>i<length cs. \<forall>e text stream. cs ! i = (e, CallLine text stream) \<and> 0 \<le> ns ! i \<longrightarrow>
        nat (ns ! i) < length hist0 \<and> hist0 ! nat (ns ! i) = butlast (FormatLine text stream)"
    using calls_ok [OF new_ok [where P = P] assms(1,3)] P_def by auto
  have ok: "log_ok (maxSize, P) hist0 gone w" using calls(1) by (simp add: grown_def)
  have "\<exists>ls segs cur. hist0 @ ls = concat segs @ cur \<and> shows_history (maxSize, P) segs cur f"
  proof (cases ended)
    case True
    then show ?thesis using closed_holds [OF ok assms(2)] assms(4) by simp
  next
    case False
    then obtain segs cur where "hist0 @ [] = concat segs @ cur \<and> shows_history (maxSize, P) segs cur f"
      using live_holds [OF ok] assms(4) by auto
    then show ?thesis by blast
  qed
  then obtain ls segs cur where h: "hist0 @ ls = concat segs @ cur" "shows_history (maxSize, P) segs cur f" by blast
  have lines: "nat (ns ! i) < length (concat segs @ cur) \<and> (concat segs @ cur) ! nat (ns ! i) = butlast (FormatLine tx stream)"
    if "i < length cs" "cs ! i = (e', CallLine tx stream)" "0 \<le> ns ! i" for i e' tx stream
    using that calls(3) unfolding h(1) [symmetric] by (auto simp: nth_append)
  have closed: "0 < maxSize \<and> (\<exists>e text stream. (e, CallLine text stream) \<in> set cs
      \<and> maxSize < int (length (lines_text s) + length (FormatLine text stream)))" if "s \<in> set segs" for s
  proof -
    have "full (maxSize, P) s" using h(2) that by (simp add: shows_history_def)
    then obtain n where n: "0 < maxSize" "n \<in> P" "maxSize < int (length (lines_text s) + n)"
      unfolding full_def fst_conv snd_conv by blast
    then obtain e c where "(e, c) \<in> set cs" "n \<in> call_length c" by (auto simp: P_def)
    then show ?thesis using n by (cases c) auto
  qed
  show ?thesis
    using lines calls(2) closed h(2) read_history [OF h(2)] unfolding shows_history_def Let_def
    by (intro exI [of _ segs] exI [of _ cur]) blast
qed

text \<open>A run that is rotated once: the rotation's own line takes the number between the two.\<close>

definition calm :: logEnv where
  "calm = \<lparr>le_stamp = ''2026-01-01 00:00:00'', le_free = 0, le_line = Written, le_system = Written, le_marker = Written,
     le_rename = None, le_reopenFails = False, le_createFails = False, le_containerOpens = True,
     le_containerWrites = True, le_containerCreates = True\<rparr>"

definition two_lines :: "(logEnv \<times> logCall) list" where
  "two_lines = [(calm, CallLine ''hello'' StreamStdout), (calm, CallLine ''oops'' StreamStderr)]"

lemma two_lines_plain:
  "newline \<notin> set (map upper_char StreamStdout) \<and> newline \<notin> set (map upper_char StreamStderr)"
  by code_simp

lemma two_lines_sound: "sound_calls two_lines w" "sound_env calm"
  using two_lines_plain by (simp_all add: two_lines_def calm_def sound_env_def whole_def)

lemma two_lines_text:
  "FormatLine ''hello'' StreamStdout = ''hello'' @ [newline]" "FormatLine ''oops'' StreamStderr = ''[ERR] oops'' @ [newline]"
  by (simp_all add: FormatLine_def TrimNewline_def model_defs)

lemma two_lines_numbers: "fst (log_calls two_lines (NewLogWriter 8 None 0)) = [0, 2]"
  by (simp add: two_lines_def calm_def NewLogWriter_def WriteLineEvent_def writeOneLine_def count_stream_def two_lines_text
      checkDiskPressure_def handleSizeOverflow_def file_write_def updateSidecarsAfterWrite_def rotateTail_def
      rewriteContainerForRotation_def writeSystemLine_def Let_def ensureIndexBackfill_def)

theorem log_reads_back_witness:
  "\<exists>segs cur. (concat segs @ cur) ! 0 = ''hello'' \<and> (concat segs @ cur) ! 2 = ''[ERR] oops''
    \<and> lf_prev (files_of (CloseLog calm (snd (log_calls two_lines (NewLogWriter 8 None 0)))))
        = (if segs = [] then None else Some (lines_text (last segs)))
    \<and> ((\<forall>l\<in>set (concat segs @ cur). length l < maxLogLineSize) \<longrightarrow>
        fst (snd (ReadLineRange (files_of (CloseLog calm (snd (log_calls two_lines (NewLogWriter 8 None 0))))) 0 10))
          = int (length (concat (butlast segs))))"
proof -
  have run: "log_calls two_lines (NewLogWriter 8 None 0) = ([0, 2], snd (log_calls two_lines (NewLogWriter 8 None 0)))"
    using two_lines_numbers by (metis prod.collapse)
  have lines: "butlast (FormatLine ''hello'' StreamStdout) = ''hello''" "butlast (FormatLine ''oops'' StreamStderr) = ''[ERR] oops''"
    by (simp_all add: two_lines_text)
  from log_reads_back [where ended = True, OF two_lines_sound run refl]
  obtain segs cur where h: "\<forall>i<length two_lines. \<forall>e text stream. two_lines ! i = (e, CallLine text stream) \<and> 0 \<le> [0, 2::int] ! i \<longrightarrow>
      nat ([0, 2] ! i) < length (concat segs @ cur) \<and> (concat segs @ cur) ! nat ([0, 2] ! i) = butlast (FormatLine text stream)"
    "lf_prev (files_of (CloseLog calm (snd (log_calls two_lines (NewLogWriter 8 None 0)))))
        = (if segs = [] then None else Some (lines_text (last segs)))"
    "(\<forall>l\<in>set (concat segs @ cur). length l < maxLogLineSize) \<longrightarrow>
      (\<forall>first limit. ReadLineRange (files_of (CloseLog calm (snd (log_calls two_lines (NewLogWriter 8 None 0))))) first limit =
        (let gone = int (length (concat (butlast segs))); total = int (length (concat segs @ cur));
             start = ResolveStartLine first gone total; lim = nat (if limit \<le> 0 then 1000 else limit)
         in (numbered start (map dropCR (take lim (drop (nat start) (concat segs @ cur)))), gone, total, False)))"
    unfolding if_True by blast
  have "(concat segs @ cur) ! 0 = ''hello''" "(concat segs @ cur) ! 2 = ''[ERR] oops''"
    using h(1) [rule_format, of 0 calm "''hello''" StreamStdout] h(1) [rule_format, of 1 calm "''oops''" StreamStderr] lines
    by (simp_all add: two_lines_def)
  then show ?thesis using h(2,3) by (intro exI [of _ segs] exI [of _ cur]) (simp add: Let_def)
qed

end
