(* ===== verification/Log_Limits.thy ===== *)
theory Log_Limits
  imports Log_Props
begin

text \<open>
  The limits of a run's log: a capture that stopped stays stopped, a capped log takes a bounded part of
  the disk however long the run and whatever fails, and what a rotation that fails does to the
  segment before.
\<close>

section \<open>A stop is final\<close>

text \<open>Nothing but the first stop kills the run or reports pressure.\<close>

definition stop_inv :: "logWriter \<Rightarrow> bool" where
  "stop_inv w \<longleftrightarrow> lw_kills w \<le> 1 \<and> length (lw_pressures w) \<le> 1
     \<and> (\<not> lw_stopped w \<longrightarrow> lw_kills w = 0 \<and> lw_pressures w = [] \<and> \<not> lw_diskPressureHit w)
     \<and> (0 < lw_kills w \<longrightarrow> lw_overflow w = LogOverflowKill)"

lemma system_frame_more [simp]:
  "lw_pressures (writeSystemLine res stamp msg w) = lw_pressures w"
  "lw_diskPressureHit (writeSystemLine res stamp msg w) = lw_diskPressureHit w"
  "lw_rotatedLines (writeSystemLine res stamp msg w) = lw_rotatedLines w"
  "lw_minFreeDisk (writeSystemLine res stamp msg w) = lw_minFreeDisk w"
  "lw_prevSegmentStart (writeSystemLine res stamp msg w) = lw_prevSegmentStart w"
  "lw_totalProduced (writeSystemLine res stamp msg w) = lw_totalProduced w"
  by (auto simp: writeSystemLine_def file_write_def Let_def split: writeResult.splits)

lemma file_write_frame:
  assumes "file_write res p w = (r, w')"
  shows "w' = w\<lparr>lw_main := lw_main w'\<rparr>"
  using assms by (auto simp: file_write_def split: if_splits writeResult.splits)

lemma stop_inv_frame [simp]:
  "stop_inv (writeSystemLine res stamp msg w) = stop_inv w" "stop_inv (count_stream s w) = stop_inv w"
  "lw_overflow (count_stream s w) = lw_overflow w" "stop_inv (w\<lparr>lw_totalProduced := k\<rparr>) = stop_inv w" "stop_inv (w\<lparr>lw_main := c\<rparr>) = stop_inv w"
  by (simp_all add: stop_inv_def count_stream_def)

lemma append_frame_more [simp]:
  "lw_pressures (appendRecord e r w) = lw_pressures w" "lw_diskPressureHit (appendRecord e r w) = lw_diskPressureHit w"
  "lw_kills (appendRecord e r w) = lw_kills w" "lw_overflow (appendRecord e r w) = lw_overflow w"
  "lw_maxSize (appendRecord e r w) = lw_maxSize w" "lw_totalProduced (appendRecord e r w) = lw_totalProduced w"
  "lw_minFreeDisk (appendRecord e r w) = lw_minFreeDisk w"
  by (auto simp: appendRecord_def ensureContainer_def)

lemma update_frame [simp]:
  "lw_stopped (updateSidecarsAfterWrite e w) = lw_stopped w" "lw_main (updateSidecarsAfterWrite e w) = lw_main w"
  "lw_prev (updateSidecarsAfterWrite e w) = lw_prev w" "lw_currentOffset (updateSidecarsAfterWrite e w) = lw_currentOffset w"
  "lw_maxSize (updateSidecarsAfterWrite e w) = lw_maxSize w" "lw_overflow (updateSidecarsAfterWrite e w) = lw_overflow w"
  "stop_inv (updateSidecarsAfterWrite e w) = stop_inv w" "lw_minFreeDisk (updateSidecarsAfterWrite e w) = lw_minFreeDisk w"
  "lw_rotatedLines (updateSidecarsAfterWrite e w) = lw_rotatedLines w" "lw_lineCount (updateSidecarsAfterWrite e w) = lw_lineCount w"
  "lw_totalProduced (updateSidecarsAfterWrite e w) = lw_totalProduced w"
  by (simp_all add: updateSidecarsAfterWrite_def ensureIndexBackfill_def stop_inv_def)

lemma rotate_frame:
  "lw_pressures (rotateTail e w) = lw_pressures w" "lw_diskPressureHit (rotateTail e w) = lw_diskPressureHit w"
  "lw_kills (rotateTail e w) = lw_kills w" "lw_overflow (rotateTail e w) = lw_overflow w"
  "lw_maxSize (rotateTail e w) = lw_maxSize w" "lw_totalProduced (rotateTail e w) = lw_totalProduced w"
  "lw_minFreeDisk (rotateTail e w) = lw_minFreeDisk w"
  by (auto simp: rotateTail_def rewriteContainerForRotation_def Let_def split: option.splits)

definition counted :: "logWriter \<Rightarrow> bool" where
  "counted w \<longleftrightarrow> 0 \<le> lw_rotatedLines w \<and> 0 \<le> lw_lineCount w"

lemma lines_frame [simp]: "0 \<le> lw_lineCount w \<Longrightarrow> 0 \<le> lw_lineCount (writeSystemLine res stamp msg w)"
  by (auto simp: writeSystemLine_def file_write_def Let_def split: writeResult.splits)

lemma counted_frame [simp]:
  "counted w \<Longrightarrow> counted (writeSystemLine res stamp msg w)" "counted (w\<lparr>lw_main := c\<rparr>) = counted w"
  "counted (updateSidecarsAfterWrite e w) = counted w" "counted (count_stream s w) = counted w"
  by (auto simp: counted_def writeSystemLine_def file_write_def Let_def count_stream_def split: writeResult.splits)

lemma disk_stop:
  assumes "stop_inv w" "counted w" "\<not> lw_stopped w" "checkDiskPressure e w = (b, w')"
  shows "stop_inv w' \<and> counted w' \<and> lw_overflow w' = lw_overflow w \<and> (lw_stopped w' \<longleftrightarrow> b)"
proof -
  let ?u = "writeSystemLine (le_system e) (le_stamp e) (disk_message (lw_overflow w = LogOverflowKill) (le_free e) (lw_minFreeDisk w))
      (w\<lparr>lw_lastDiskCheck := lw_currentOffset w\<rparr>)"
  have u: "counted ?u" "lw_kills ?u = 0" "lw_pressures ?u = []" "\<not> lw_diskPressureHit ?u" "lw_overflow ?u = lw_overflow w"
    using assms(1-3) by (auto simp: stop_inv_def counted_def)
  show ?thesis
    using assms u
    by (auto simp: checkDiskPressure_def Let_def stop_inv_def counted_def split: if_split_asm)
qed

lemma size_stop:
  assumes "stop_inv w" "counted w" "\<not> lw_stopped w" "handleSizeOverflow e p w = (b, w')"
  shows "stop_inv w' \<and> counted w' \<and> lw_overflow w' = lw_overflow w \<and> (lw_stopped w' \<longleftrightarrow> b)"
proof -
  have rotated: "counted (rotateTail e w)"
  proof (cases "le_rename e")
    case None
    then show ?thesis
      using assms(2) by (auto simp: rotateTail_def Let_def rewriteContainerForRotation_def counted_def)
  next
    case (Some err)
    then show ?thesis
      using assms(2) by (auto simp: rotateTail_def Let_def counted_def)
  qed
  have system: "counted (writeSystemLine res stamp msg w)" for res stamp msg using assms(2) by simp
  show ?thesis
    using assms rotated system [unfolded counted_def] rotate_frame [of e w]
    by (auto simp: handleSizeOverflow_def Let_def stop_inv_def counted_def split: if_split_asm logOverflow.splits)
qed

lemma stop_inv_write:
  assumes inv: "stop_inv w" and counts: "counted w" and run: "writeOneLine e p w = (n, w')"
  shows "stop_inv w' \<and> counted w' \<and> lw_overflow w' = lw_overflow w \<and> (lw_stopped w \<longrightarrow> n = - 1)
    \<and> (n = - 1 \<longleftrightarrow> lw_stopped w')"
proof -
  define w1 where "w1 = w\<lparr>lw_totalProduced := lw_totalProduced w + int (length p)\<rparr>"
  have w1: "stop_inv w1" "counted w1" "lw_stopped w1 = lw_stopped w" "lw_overflow w1 = lw_overflow w"
    using inv counts by (auto simp: w1_def counted_def)
  show ?thesis
  proof (cases "lw_stopped w1")
    case True
    then show ?thesis using run w1 by (auto simp: writeOneLine_def Let_def w1_def)
  next
    case False
    obtain b w2 where disk: "checkDiskPressure e w1 = (b, w2)" by fastforce
    note d = disk_stop [OF w1(1,2) False disk]
    show ?thesis
    proof (cases b)
      case True
      then show ?thesis using run False disk d w1 by (auto simp: writeOneLine_def Let_def w1_def)
    next
      case nb: False
      obtain c w3 where size: "handleSizeOverflow e p w2 = (c, w3)" by fastforce
      have d2: "stop_inv w2" "counted w2" "\<not> lw_stopped w2" using d nb by auto
      note z = size_stop [OF d2 size]
      show ?thesis
      proof (cases c)
        case True
        then show ?thesis using run False disk nb size z d w1 by (auto simp: writeOneLine_def Let_def w1_def)
      next
        case nc: False
        obtain r w4 where wr: "file_write (le_line e) p w3 = (r, w4)" by fastforce
        have w4: "w4 = w3\<lparr>lw_main := lw_main w4\<rparr>" using file_write_frame [OF wr] .
        have s4: "stop_inv w4" "counted w4" "\<not> lw_stopped w4" "lw_overflow w4 = lw_overflow w3"
          "lw_rotatedLines w4 = lw_rotatedLines w3"
          using z nc by (subst w4; simp)+
        show ?thesis
        proof (cases r)
          case None
          have "0 \<le> lw_rotatedLines w3 + lw_lineCount w3" using z by (simp add: counted_def)
          moreover have "n = lw_rotatedLines w3 + lw_lineCount w3"
            "w' = (if p = [] then w4 else (updateSidecarsAfterWrite e w4)\<lparr>
               lw_currentOffset := lw_currentOffset (updateSidecarsAfterWrite e w4) + int (length p),
               lw_lineCount := lw_lineCount (updateSidecarsAfterWrite e w4) + 1\<rparr>)"
            using run False disk nb size nc wr None by (auto simp: writeOneLine_def Let_def w1_def [symmetric])
          moreover have "stop_inv (updateSidecarsAfterWrite e w4)" "counted (updateSidecarsAfterWrite e w4)"
            using s4 by simp_all
          ultimately show ?thesis
            using s4 z d w1 False nb nc by (auto simp: stop_inv_def counted_def)
        next
          case (Some err)
          define v where "v = w4\<lparr>lw_stopped := True, lw_truncated := True\<rparr>"
          have "n = - 1" "\<exists>msg. w' = writeSystemLine (le_marker e) (le_stamp e) msg v"
            using run False disk nb size nc wr Some by (auto simp: writeOneLine_def Let_def w1_def [symmetric] v_def)
          moreover have "stop_inv v" "counted v" "lw_stopped v" "lw_overflow v = lw_overflow w"
            using s4 z d w1 by (auto simp: v_def stop_inv_def counted_def)
          ultimately show ?thesis by auto
        qed
      qed
    qed
  qed
qed

lemma stop_inv_call:
  assumes "stop_inv w" "counted w" "log_call e c w = (n, w')"
  shows "stop_inv w' \<and> counted w' \<and> lw_overflow w' = lw_overflow w \<and> (lw_stopped w \<longrightarrow> lw_stopped w')
    \<and> (\<forall>text stream. c = CallLine text stream \<longrightarrow> (n = - 1 \<longleftrightarrow> lw_stopped w'))"
proof (cases c)
  case (CallLine tx stream)
  then have "writeOneLine e (FormatLine tx stream) (count_stream stream w) = (n, w')"
    using assms(3) by (simp add: WriteLineEvent_def)
  from stop_inv_write [OF _ _ this] assms(1,2) show ?thesis
    using CallLine by auto
next
  case (CallFrames anchor frames)
  then have "w' = WriteFrameHistory e anchor frames w" using assms(3) by simp
  then show ?thesis using assms(1,2) CallFrames by (auto simp: WriteFrameHistory_def stop_inv_def counted_def)
qed

lemma stop_inv_calls:
  assumes "stop_inv w" "counted w" "log_calls cs w = (ns, w')"
  shows "stop_inv w' \<and> lw_overflow w' = lw_overflow w \<and> length ns = length cs
    \<and> (\<forall>i<length cs. \<forall>e text stream. cs ! i = (e, CallLine text stream) \<and> (lw_stopped w \<or> (\<exists>j<i. ns ! j = - 1 \<and> (\<exists>e t s. cs ! j = (e, CallLine t s)))) \<longrightarrow> ns ! i = - 1)"
  using assms
proof (induction cs arbitrary: w ns)
  case (Cons ec cs)
  obtain e c where ec: "ec = (e, c)" by fastforce
  obtain n w1 where step: "log_call e c w = (n, w1)" by fastforce
  obtain ns' where rest: "log_calls cs w1 = (ns', w')" "ns = n # ns'"
    using Cons.prems(3) step by (auto simp: ec split: prod.splits)
  note one = stop_inv_call [OF Cons.prems(1,2) step]
  have IH: "stop_inv w' \<and> lw_overflow w' = lw_overflow w1 \<and> length ns' = length cs
    \<and> (\<forall>i<length cs. \<forall>e text stream. cs ! i = (e, CallLine text stream) \<and> (lw_stopped w1 \<or> (\<exists>j<i. ns' ! j = - 1 \<and> (\<exists>e t s. cs ! j = (e, CallLine t s)))) \<longrightarrow> ns' ! i = - 1)"
    using Cons.IH [OF _ _ rest(1)] one by blast
  have "ns ! i = - 1" if i: "i < length (ec # cs)" "(ec # cs) ! i = (e', CallLine tx stream)"
    and st: "lw_stopped w \<or> (\<exists>j<i. ns ! j = - 1 \<and> (\<exists>e t s. (ec # cs) ! j = (e, CallLine t s)))" for i e' tx stream
  proof (cases i)
    case 0
    then show ?thesis using i st one ec rest(2) by auto
  next
    case (Suc k)
    have "lw_stopped w1 \<or> (\<exists>j<k. ns' ! j = - 1 \<and> (\<exists>e t s. cs ! j = (e, CallLine t s)))"
    proof (cases "lw_stopped w1")
      case False
      then obtain j where j: "j < i" "ns ! j = - 1" "\<exists>e t s. (ec # cs) ! j = (e, CallLine t s)" using st one by auto
      have "j \<noteq> 0" using j(2,3) False one ec rest(2) by (cases j) auto
      then show ?thesis using j Suc rest(2) by (cases j) auto
    qed simp
    then show ?thesis using IH i Suc rest(2) by auto
  qed
  then show ?case using IH one rest(2) by auto
qed simp

text \<open>C25. A capture that stopped stays stopped. Once a line was refused, whether for the size limit, a full
  disk, a failed rotation or a failed write, every later line of the run is refused as well; the run is
  killed at most once, and only if its log says \<open>kill\<close>, and low disk space is reported at most once.\<close>

theorem refusal_is_final:
  assumes "log_calls cs (NewLogWriter maxSize overflow minFree) = (ns, w)"
    and "j < i" "i < length cs" "cs ! j = (e, CallLine t s)" "cs ! i = (e', CallLine t' s')" "ns ! j = - 1"
  shows "ns ! i = - 1 \<and> lw_kills w \<le> 1 \<and> length (lw_pressures w) \<le> 1
    \<and> (0 < lw_kills w \<longrightarrow> overflow = Some LogOverflowKill)"
proof -
  let ?w0 = "NewLogWriter maxSize overflow minFree"
  have new: "stop_inv ?w0" "counted ?w0" "lw_overflow ?w0 = OrDefault overflow LogOverflowDropOld"
    by (simp_all add: NewLogWriter_def stop_inv_def counted_def)
  note all = stop_inv_calls [OF new(1,2) assms(1)]
  have "ns ! i = - 1" using all assms(2-6) by blast
  moreover have "lw_overflow w = OrDefault overflow LogOverflowDropOld" using all new(3) by simp
  ultimately show ?thesis using all by (cases overflow) (auto simp: stop_inv_def)
qed

section \<open>A capped log\<close>

definition file_size :: "string option \<Rightarrow> int" where
  "file_size f = (case f of None \<Rightarrow> 0 | Some c \<Rightarrow> int (length c))"

definition int64 :: "int \<Rightarrow> bool" where
  "int64 n \<longleftrightarrow> min_int64 \<le> n \<and> n \<le> max_int64"

text \<open>How long the answers of the environment are that the writer's own lines quote.\<close>

definition bounded_env :: "nat \<Rightarrow> logEnv \<Rightarrow> bool" where
  "bounded_env E e \<longleftrightarrow> length (le_stamp e) \<le> 32 \<and> int64 (le_free e)
     \<and> (case le_rename e of None \<Rightarrow> True | Some err \<Rightarrow> length err \<le> E)
     \<and> (case le_line e of Written \<Rightarrow> True | ShortWrite _ err \<Rightarrow> length err \<le> E)"

definition cap_inv :: "int \<Rightarrow> int \<Rightarrow> logWriter \<Rightarrow> bool" where
  "cap_inv peak S w \<longleftrightarrow> 0 \<le> lw_currentOffset w \<and> file_size (lw_prev w) \<le> peak + S
     \<and> (if lw_stopped w then file_size (lw_main w) \<le> peak + 2 * S
        else lw_currentOffset w \<le> peak \<and> file_size (lw_main w) \<le> lw_currentOffset w + S)"

lemma system_size:
  assumes "length (system_text stamp msg) \<le> S"
  shows "file_size (lw_main (writeSystemLine res stamp msg w)) \<le> file_size (lw_main w) + int S"
    "lw_currentOffset w \<le> lw_currentOffset (writeSystemLine res stamp msg w)"
    "lw_currentOffset (writeSystemLine res stamp msg w) \<le> lw_currentOffset w + int S"
    "file_size (lw_main (writeSystemLine res stamp msg w)) - lw_currentOffset (writeSystemLine res stamp msg w)
      \<le> file_size (lw_main w) - lw_currentOffset w + int S"
  using assms
  by (auto simp: writeSystemLine_def file_write_def Let_def file_size_def split: writeResult.splits option.splits)

lemma sizes_print:
  "int64 n \<Longrightarrow> length (FormatByteSize n) \<le> 26"
  by (simp add: int64_def FormatByteSize_length)

lemma messages_short:
  assumes "bounded_env E e" "int64 a" "int64 b"
  shows "length (system_text (le_stamp e) (disk_message k a b)) \<le> 256 + E"
    "length (system_text (le_stamp e) (''Log output truncated: exceeded log_max_size ('' @ FormatByteSize a
       @ ''). Process continues running.'')) \<le> 256 + E"
    "length (system_text (le_stamp e) (''Process killed: log output exceeded log_max_size ('' @ FormatByteSize a @ '').'')) \<le> 256 + E"
    "length (system_text (le_stamp e) (''Log rotated: output exceeded log_max_size ('' @ FormatByteSize a
       @ ''). Earlier output truncated.'')) \<le> 256 + E"
    "length err \<le> E \<Longrightarrow> length (system_text (le_stamp e) (''Log output stopped: log rotation failed ('' @ err
       @ ''). Process continues running.'')) \<le> 256 + E"
    "length err \<le> E \<Longrightarrow> length (system_text (le_stamp e) (''Log output stopped: write error ('' @ err
       @ ''). Process continues running.'')) \<le> 256 + E"
    "length (system_text (le_stamp e) (''Total process output: '' @ FormatByteSize a
       @ (if c then '' (limit: '' @ FormatByteSize b @ '').'' else ''.''))) \<le> 256 + E"
  using assms sizes_print [of a] sizes_print [of b]
  by (auto simp: system_text_def disk_message_def Let_def bounded_env_def)

text \<open>What one call may assume: the environment's answers and the line are short, the numbers int64.\<close>

definition bounded_call :: "nat \<Rightarrow> nat \<Rightarrow> logEnv \<Rightarrow> logWriter \<Rightarrow> bool" where
  "bounded_call E B e w \<longleftrightarrow> bounded_env E e \<and> int64 (lw_maxSize w) \<and> int64 (lw_minFreeDisk w) \<and> 0 < lw_maxSize w"

abbreviation cap_of :: "nat \<Rightarrow> nat \<Rightarrow> logWriter \<Rightarrow> int" where
  "cap_of E B w \<equiv> max (lw_maxSize w) (int (256 + E + B))"

lemma cap_disk:
  assumes "cap_inv (cap_of E B w) (int (256 + E)) w" "bounded_call E B e w" "\<not> lw_stopped w"
    and "checkDiskPressure e w = (b, w')"
  shows "cap_inv (cap_of E B w) (int (256 + E)) w' \<and> lw_maxSize w' = lw_maxSize w \<and> lw_minFreeDisk w' = lw_minFreeDisk w"
proof (cases b)
  case False
  then show ?thesis using assms by (auto simp: checkDiskPressure_def Let_def cap_inv_def split: if_split_asm)
next
  case True
  let ?k = "lw_overflow w = LogOverflowKill" and ?w = "w\<lparr>lw_lastDiskCheck := lw_currentOffset w\<rparr>"
  let ?u = "writeSystemLine (le_system e) (le_stamp e) (disk_message ?k (le_free e) (lw_minFreeDisk w)) ?w"
  have "length (system_text (le_stamp e) (disk_message ?k (le_free e) (lw_minFreeDisk w))) \<le> 256 + E"
    using assms(2) by (intro messages_short(1)) (auto simp: bounded_call_def bounded_env_def)
  note u = system_size [OF this, where res = "le_system e" and w = "?w"]
  have "lw_main w' = lw_main ?u" "lw_currentOffset w' = lw_currentOffset ?u" "lw_stopped w'" "lw_prev w' = lw_prev w"
    "lw_maxSize w' = lw_maxSize w" "lw_minFreeDisk w' = lw_minFreeDisk w"
    using assms(4) True by (auto simp: checkDiskPressure_def Let_def split: if_split_asm)
  then show ?thesis using assms(1,3) u(1,2) by (auto simp: cap_inv_def)
qed

lemma cap_rotate:
  assumes "cap_inv (cap_of E B w) (int (256 + E)) w" "bounded_call E B e w" "\<not> lw_stopped w"
  shows "cap_inv (cap_of E B w) (int (256 + E)) (rotateTail e w)
    \<and> (\<not> lw_stopped (rotateTail e w) \<longrightarrow> lw_currentOffset (rotateTail e w) \<le> int (256 + E))"
proof (cases "le_rename e")
  case None
  show ?thesis
  proof (cases "le_createFails e")
    case True
    then show ?thesis using assms None by (auto simp: rotateTail_def Let_def cap_inv_def file_size_def)
  next
    case False
    define v where "v = rewriteContainerForRotation e (w\<lparr>lw_prevSegmentStart := lw_rotatedLines w,
        lw_rotatedLines := lw_rotatedLines w + lw_lineCount w, lw_rotatedBytes := lw_rotatedBytes w + lw_currentOffset w,
        lw_prev := lw_main w, lw_main := Some [], lw_fileOpen := True, lw_currentOffset := 0, lw_lineCount := 0,
        lw_lastDiskCheck := 0, lw_truncated := True\<rparr>)"
    let ?msg = "''Log rotated: output exceeded log_max_size ('' @ FormatByteSize (lw_maxSize v) @ ''). Earlier output truncated.''"
    have rot: "rotateTail e w = writeSystemLine (le_system e) (le_stamp e) ?msg v"
      using None False by (simp add: rotateTail_def Let_def v_def)
    have v: "lw_main v = Some []" "lw_currentOffset v = 0" "lw_prev v = lw_main w" "lw_maxSize v = lw_maxSize w"
      "lw_stopped v = lw_stopped w" by (simp_all add: v_def)
    have "length (system_text (le_stamp e) ?msg) \<le> 256 + E"
      using assms(2) v(4) by (intro messages_short(4)) (auto simp: bounded_call_def)
    note u = system_size [OF this, where res = "le_system e" and w = v, folded rot, unfolded v(1,2)]
    show ?thesis
      using assms(1,3) u v by (auto simp: cap_inv_def rot [symmetric] rot [THEN arg_cong, of lw_stopped]
          rot [THEN arg_cong, of lw_prev] file_size_def)
  qed
next
  case (Some err)
  show ?thesis
  proof (cases "le_reopenFails e")
    case True
    then show ?thesis using assms Some by (auto simp: rotateTail_def Let_def cap_inv_def)
  next
    case False
    define v where "v = w\<lparr>lw_prevSegmentStart := lw_rotatedLines w, lw_fileOpen := True, lw_stopped := True, lw_truncated := True\<rparr>"
    let ?msg = "''Log output stopped: log rotation failed ('' @ err @ ''). Process continues running.''"
    have rot: "rotateTail e w = writeSystemLine (le_system e) (le_stamp e) ?msg v"
      using Some False by (simp add: rotateTail_def Let_def v_def)
    have "length (system_text (le_stamp e) ?msg) \<le> 256 + E"
      using assms(2) Some by (intro messages_short(5)) (auto simp: bounded_call_def bounded_env_def)
    note u = system_size [OF this, where res = "le_system e" and w = v, folded rot]
    show ?thesis
      using assms(1,3) u by (auto simp: cap_inv_def rot [THEN arg_cong, of lw_stopped] rot [THEN arg_cong, of lw_prev] v_def)
  qed
qed

lemma cap_overflow:
  assumes "cap_inv (cap_of E B w) (int (256 + E)) w" "bounded_call E B e w" "\<not> lw_stopped w" "length p \<le> B"
    and "handleSizeOverflow e p w = (b, w')"
  shows "cap_inv (cap_of E B w) (int (256 + E)) w' \<and> lw_maxSize w' = lw_maxSize w \<and> lw_minFreeDisk w' = lw_minFreeDisk w
    \<and> (\<not> b \<longrightarrow> lw_currentOffset w' + int (length p) \<le> cap_of E B w)"
proof (cases "lw_currentOffset w + int (length p) \<le> lw_maxSize w")
  case True
  then show ?thesis using assms by (auto simp: handleSizeOverflow_def bounded_call_def)
next
  case over: False
  have int64: "int64 (lw_maxSize w)" "bounded_env E e" "0 < lw_maxSize w" using assms(2) by (auto simp: bounded_call_def)
  have stops: "cap_inv (cap_of E B w) (int (256 + E)) v"
    if "length (system_text (le_stamp e) msg) \<le> 256 + E" "lw_main v = lw_main (writeSystemLine (le_system e) (le_stamp e) msg w)"
      "lw_currentOffset v = lw_currentOffset (writeSystemLine (le_system e) (le_stamp e) msg w)" "lw_stopped v" "lw_prev v = lw_prev w"
    for msg v
    using assms(1,3) system_size [OF that(1), where res = "le_system e" and w = w] that(2-5) by (auto simp: cap_inv_def)
  show ?thesis
  proof (cases "lw_overflow w")
    case LogOverflowDropOld
    then have b: "b = lw_stopped (rotateTail e w)" "w' = rotateTail e w"
      using assms(5) over int64(3) by (auto simp: handleSizeOverflow_def Let_def)
    show ?thesis using cap_rotate [OF assms(1-3)] assms(4) rotate_frame [of e w] by (auto simp: b)
  next
    case LogOverflowDropNew
    have short: "length (system_text (le_stamp e) (''Log output truncated: exceeded log_max_size (''
        @ FormatByteSize (lw_maxSize w) @ ''). Process continues running.'')) \<le> 256 + E"
      by (rule messages_short(2) [OF int64(2,1,1)])
    show ?thesis
      using assms(5) over int64(3) LogOverflowDropNew stops [OF short, of w'] by (auto simp: handleSizeOverflow_def)
  next
    case LogOverflowKill
    have short: "length (system_text (le_stamp e) (''Process killed: log output exceeded log_max_size (''
        @ FormatByteSize (lw_maxSize w) @ '').'')) \<le> 256 + E"
      by (rule messages_short(3) [OF int64(2,1,1)])
    show ?thesis
      using assms(5) over int64(3) LogOverflowKill stops [OF short, of w'] by (auto simp: handleSizeOverflow_def Let_def)
  qed
qed

lemma cap_inv_frame [simp]:
  "cap_inv p S (w\<lparr>lw_totalProduced := k\<rparr>) = cap_inv p S w" "cap_inv p S (count_stream s w) = cap_inv p S w"
  "bounded_call E B e (w\<lparr>lw_totalProduced := k\<rparr>) = bounded_call E B e w"
  "bounded_call E B e (count_stream s w) = bounded_call E B e w"
  "lw_maxSize (count_stream s w) = lw_maxSize w" "lw_minFreeDisk (count_stream s w) = lw_minFreeDisk w"
  by (simp_all add: cap_inv_def bounded_call_def count_stream_def)

lemma cap_write:
  assumes "cap_inv (cap_of E B w) (int (256 + E)) w" "bounded_call E B e w" "length p \<le> B"
    and run: "writeOneLine e p w = (n, w')"
  shows "cap_inv (cap_of E B w) (int (256 + E)) w' \<and> lw_maxSize w' = lw_maxSize w \<and> lw_minFreeDisk w' = lw_minFreeDisk w"
proof -
  define w1 where "w1 = w\<lparr>lw_totalProduced := lw_totalProduced w + int (length p)\<rparr>"
  have w1: "cap_inv (cap_of E B w1) (int (256 + E)) w1" "bounded_call E B e w1" "lw_maxSize w1 = lw_maxSize w"
    "lw_minFreeDisk w1 = lw_minFreeDisk w" using assms(1,2) by (simp_all add: w1_def)
  show ?thesis
  proof (cases "lw_stopped w1")
    case True
    then show ?thesis using run w1 by (auto simp: writeOneLine_def Let_def w1_def [symmetric])
  next
    case False
    obtain b w2 where disk: "checkDiskPressure e w1 = (b, w2)" by fastforce
    note d = cap_disk [OF w1(1,2) False disk]
    show ?thesis
    proof (cases b)
      case True
      then show ?thesis using run False disk d w1 by (auto simp: writeOneLine_def Let_def w1_def [symmetric])
    next
      case nb: False
      then have s2: "\<not> lw_stopped w2" using disk False by (auto simp: checkDiskPressure_def Let_def split: if_split_asm)
      have d2: "cap_inv (cap_of E B w2) (int (256 + E)) w2" "bounded_call E B e w2" using d w1(2) by (auto simp: bounded_call_def)
      obtain c w3 where size: "handleSizeOverflow e p w2 = (c, w3)" by fastforce
      note z = cap_overflow [OF d2 s2 assms(3) size]
      show ?thesis
      proof (cases c)
        case True
        then show ?thesis using run False disk nb size z d w1 by (auto simp: writeOneLine_def Let_def w1_def [symmetric])
      next
        case nc: False
        have s3: "\<not> lw_stopped w3" using size nc s2 by (auto simp: handleSizeOverflow_def Let_def split: if_split_asm logOverflow.splits)
        obtain r w4 where wr: "file_write (le_line e) p w3 = (r, w4)" by fastforce
        have w4: "w4 = w3\<lparr>lw_main := lw_main w4\<rparr>" using file_write_frame [OF wr] .
        have same: "lw_currentOffset w4 = lw_currentOffset w3" "lw_prev w4 = lw_prev w3" "lw_maxSize w4 = lw_maxSize w3"
          "lw_minFreeDisk w4 = lw_minFreeDisk w3" "lw_stopped w4 = lw_stopped w3" by (subst w4; simp)+
        have grows: "file_size (lw_main w4) \<le> file_size (lw_main w3) + int (length p)"
          using wr by (auto simp: file_write_def file_size_def split: if_split_asm writeResult.splits option.splits)
        have room: "lw_currentOffset w3 + int (length p) \<le> cap_of E B w" using z nc d w1 by simp
        show ?thesis
        proof (cases r)
          case None
          let ?u = "updateSidecarsAfterWrite e w4"
          have "w' = (if p = [] then w4 else ?u\<lparr>lw_currentOffset := lw_currentOffset ?u + int (length p), lw_lineCount := lw_lineCount ?u + 1\<rparr>)"
            using run False disk nb size nc wr None by (auto simp: writeOneLine_def Let_def w1_def [symmetric])
          then show ?thesis using z d w1 s3 same grows room by (auto simp: cap_inv_def)
        next
          case (Some err)
          define v where "v = w4\<lparr>lw_stopped := True, lw_truncated := True\<rparr>"
          let ?msg = "''Log output stopped: write error ('' @ err @ ''). Process continues running.''"
          have w': "w' = writeSystemLine (le_marker e) (le_stamp e) ?msg v"
            using run False disk nb size nc wr Some by (auto simp: writeOneLine_def Let_def w1_def [symmetric] v_def)
          show ?thesis
          proof (cases "lw_fileOpen w3")
            case False
            then have "w4 = w3" "w' = w3\<lparr>lw_stopped := True, lw_truncated := True\<rparr>"
              using wr w' by (auto simp: file_write_def v_def writeSystemLine_def Let_def)
            then show ?thesis using z d w1 s3 room by (auto simp: cap_inv_def)
          next
            case True
            then have "length err \<le> E" using wr Some assms(2)
              by (auto simp: file_write_def bounded_call_def bounded_env_def split: writeResult.splits)
            then have "length (system_text (le_stamp e) ?msg) \<le> 256 + E"
              using assms(2) by (intro messages_short(6) [of E e 0 0]) (auto simp: bounded_call_def int64_def min_int64_def max_int64_def)
            note u = system_size [OF this, where res = "le_marker e" and w = v, folded w']
            have v: "lw_main v = lw_main w4" "lw_currentOffset v = lw_currentOffset w4" by (simp_all add: v_def)
            have "lw_stopped w'" "lw_prev w' = lw_prev w3" "lw_maxSize w' = lw_maxSize w3" "lw_minFreeDisk w' = lw_minFreeDisk w3"
              using same by (simp_all add: w' v_def)
            then show ?thesis using u(1,2) v z d w1 s3 room grows same by (auto simp: cap_inv_def)
          qed
        qed
      qed
    qed
  qed
qed

text \<open>C26. A capped log stays near its cap. With \<open>log_max_size\<close> set, however long the run prints, whatever
  the policy, and whichever writes, renames and creations of files fail, the two segments together
  never take more than twice the larger of the cap and the longest line printed (\<open>B\<close>, with one line
  of the writer's own), and four lines of the writer's own, whose length is bounded by that of the
  stamps and error texts the environment supplies (\<open>E\<close>). A single line longer than the cap does
  exceed it.\<close>

theorem log_cap:
  assumes "log_calls cs (NewLogWriter maxSize overflow minFree) = (ns, w)"
    and "0 < maxSize" "int64 maxSize" "int64 minFree"
    and "\<forall>(e, c)\<in>set cs. bounded_env E e \<and> (\<forall>text stream. c = CallLine text stream \<longrightarrow> length (FormatLine text stream) \<le> B)"
    and "bounded_env E e" "int64 (lw_totalProduced w)"
  shows "file_size (lw_main (if ended then CloseLog e w else w)) + file_size (lw_prev (if ended then CloseLog e w else w))
    \<le> 2 * max maxSize (int (256 + E + B)) + 4 * int (256 + E)"
proof -
  let ?ok = "\<lambda>v. cap_inv (max maxSize (int (256 + E + B))) (int (256 + E)) v \<and> lw_maxSize v = maxSize \<and> lw_minFreeDisk v = minFree"
  have keep: "?ok w" if "log_calls cs v = (ns, w)" "?ok v" for v
    using that assms(5)
  proof (induction cs arbitrary: v ns)
    case (Cons ec cs)
    obtain e c where ec: "ec = (e, c)" by fastforce
    obtain n v1 where step: "log_call e c v = (n, v1)" by fastforce
    obtain ns' where rest: "log_calls cs v1 = (ns', w)" using Cons.prems(1) step by (auto simp: ec split: prod.splits)
    have "?ok v1"
    proof (cases c)
      case (CallLine tx stream)
      let ?v = "count_stream stream v"
      have v: "?ok ?v" "bounded_call E B e ?v"
        using Cons.prems(2,3) assms(2-4) by (auto simp: bounded_call_def ec)
      have "length (FormatLine tx stream) \<le> B" using Cons.prems(3) CallLine by (simp add: ec)
      from cap_write [OF _ v(2) this, of n v1] v(1) step CallLine show ?thesis by (simp add: WriteLineEvent_def)
    next
      case (CallFrames anchor frames)
      then show ?thesis using step Cons.prems(2) by (auto simp: WriteFrameHistory_def cap_inv_def)
    qed
    then show ?case using Cons.IH [OF rest] Cons.prems(3) by simp
  qed simp
  have "?ok (NewLogWriter maxSize overflow minFree)" by (simp add: NewLogWriter_def cap_inv_def file_size_def)
  then have ok: "?ok w" using keep [OF assms(1)] by blast
  let ?msg = "''Total process output: '' @ FormatByteSize (lw_totalProduced w)
    @ (if 0 < lw_maxSize w then '' (limit: '' @ FormatByteSize (lw_maxSize w) @ '').'' else ''.'')"
  have "length (system_text (le_stamp e) ?msg) \<le> 256 + E"
    using messages_short(7) [OF assms(6,7), of "lw_maxSize w" "0 < lw_maxSize w"] ok assms(3) by simp
  from system_size(1) [OF this, of "le_system e" w]
  have "file_size (lw_main (CloseLog e w)) \<le> file_size (lw_main w) + int (256 + E)" "lw_prev (CloseLog e w) = lw_prev w"
    by (auto simp: CloseLog_def Let_def writeTotalProducedLine_def)
  then show ?thesis using ok by (auto simp: cap_inv_def split: if_splits)
qed

section \<open>A rotation that fails while there is an older segment\<close>

definition settings :: "logWriter \<Rightarrow> int \<times> logOverflow \<times> int" where
  "settings w = (lw_maxSize w, lw_overflow w, lw_minFreeDisk w)"

lemma settings_frame [simp]:
  "settings (writeSystemLine res stamp msg w) = settings w" "settings (rotateTail e w) = settings w"
  "settings (updateSidecarsAfterWrite e w) = settings w" "settings (appendRecord e r w) = settings w"
  "settings (w\<lparr>lw_main := c\<rparr>) = settings w" "settings (w\<lparr>lw_stopped := b\<rparr>) = settings w"
  "settings (w\<lparr>lw_truncated := b\<rparr>) = settings w" "settings (w\<lparr>lw_totalProduced := k\<rparr>) = settings w"
  "settings (w\<lparr>lw_lineCount := k\<rparr>) = settings w" "settings (count_stream s w) = settings w"
  "settings (w\<lparr>lw_currentOffset := k\<rparr>) = settings w" "settings (w\<lparr>lw_lastDiskCheck := k\<rparr>) = settings w"
  "settings (w\<lparr>lw_kills := n\<rparr>) = settings w" "settings (w\<lparr>lw_diskPressureHit := b\<rparr>) = settings w"
  "settings (w\<lparr>lw_pressures := ps\<rparr>) = settings w"
  by (simp_all add: settings_def rotate_frame count_stream_def)

lemma settings_call: "log_call e c w = (n, w') \<Longrightarrow> settings w' = settings w"
proof -
  have wr: "settings w' = settings w" if "file_write res p w = (r, w')" for res p r w w'
    using that by (auto simp: file_write_def split: if_splits writeResult.splits)
  have disk: "settings w' = settings w" if "checkDiskPressure e w = (b, w')" for b w w'
    using that by (auto simp: checkDiskPressure_def Let_def split: if_split_asm)
  have size: "settings w' = settings w" if "handleSizeOverflow e p w = (b, w')" for p b w w'
    using that by (auto simp: handleSizeOverflow_def Let_def split: if_split_asm logOverflow.splits)
  have line: "settings (snd (writeOneLine e p w)) = settings w" for p w
    by (auto simp: writeOneLine_def Let_def split: prod.split bool.split option.split dest!: wr disk size)
  assume "log_call e c w = (n, w')"
  then show ?thesis using line [of _ "count_stream _ w"]
    by (cases c) (auto simp: WriteLineEvent_def WriteFrameHistory_def dest!: arg_cong [where f = snd])
qed

lemma settings_calls: "log_calls cs w = (ns, w') \<Longrightarrow> settings w' = settings w"
  by (induction cs arbitrary: w ns) (auto split: prod.splits dest!: settings_call)

lemma numbered_from: "r \<in> set (numbered n ls) \<Longrightarrow> n \<le> lr_LineNum r"
  by (induction ls arbitrary: n) (force simp: line_record_def split: prod.splits)+

lemma read_hides_prev:
  assumes "PrevStart (sc_Meta (lf_side f)) = R" "RotatedLines (sc_Meta (lf_side f)) = R"
    and "r \<in> set (fst (ReadLineRange f first limit))"
  shows "R \<le> lr_LineNum r"
proof -
  have seg: "resolvePrevSegment f = (lf_prev f \<noteq> None, R)" using assms(1,2) by (simp add: resolvePrevSegment_def Let_def)
  have start: "R \<le> ResolveStartLine first R T" for T by (simp add: ResolveStartLine_def Let_def)
  show ?thesis
  proof (cases "lf_main f")
    case (Some content)
    define T where "T = CalculateTotalLines content (sc_Index (lf_side f)) (sc_Meta (lf_side f))"
    have "\<not> ResolveStartLine first R T < R" using start [of T] by simp
    then have "\<exists>ls. fst (ReadLineRange f first limit) = numbered (ResolveStartLine first R T) ls"
      unfolding ReadLineRange_def Let_def seg Some prod.case option.case assms(2) T_def [symmetric]
      by (auto simp: readCurrentSegment_def collectLines_def split: prod.splits intro: exI [of _ "[]"])
    then show ?thesis using assms(3) numbered_from start [of T] by force
  qed (use assms(3) seg in \<open>simp add: ReadLineRange_def Let_def\<close>)
qed

text \<open>C27. When moving a full segment away fails while the one rotated before it is still there, that one is
  lost to readers, although it stays on the disk: the writer undoes the count of lines but not the
  start of the previous segment, writes that wrong start when the run ends, and from then on no read,
  of whatever range, returns a line of the previous segment.\<close>

theorem failed_move_hides_segment:
  assumes "sound_calls cs (NewLogWriter maxSize None 0)" "log_calls cs (NewLogWriter maxSize None 0) = (ns, w)"
    and "\<not> lw_stopped w" "lw_prev w = Some content" "content \<noteq> []"
    and "0 < maxSize" "maxSize < lw_currentOffset w + int (length (FormatLine text stream))"
    and "le_rename e = Some err" "\<not> le_reopenFails e" "sound_env e'"
    and "w' = CloseLog e' (snd (WriteLineEvent e text stream w))"
  shows "lw_prev w' = Some content \<and> lw_prevSegmentStart w < lw_rotatedLines w
    \<and> (\<forall>first limit. \<forall>r\<in>set (fst (ReadLineRange (files_of w') first limit)). lw_rotatedLines w \<le> lr_LineNum r)"
proof -
  define L where "L = (maxSize, \<Union> (call_length ` snd ` set cs))"
  obtain hist gone where "log_ok L hist gone w"
    using calls_ok [OF new_ok [where P = "snd L"] assms(1,2)] by (auto simp: grown_def L_def)
  then obtain old cur where held: "holds L hist gone old cur w" "lw_metaOpen w \<longrightarrow> lw_container w \<noteq> None"
    by (auto simp: log_ok_def)
  have old: "lw_prevSegmentStart w < lw_rotatedLines w" using held(1) assms(4,5) by (auto simp: holds_def)
  have w: "lw_overflow w = LogOverflowDropOld" "lw_maxSize w = maxSize" "lw_minFreeDisk w = 0"
    using settings_calls [OF assms(2)] by (auto simp: settings_def NewLogWriter_def)
  define w1 where "w1 = (count_stream stream w)\<lparr>lw_totalProduced := lw_totalProduced (count_stream stream w)
      + int (length (FormatLine text stream))\<rparr>"
  have w1: "\<not> lw_stopped w1" "lw_overflow w1 = LogOverflowDropOld" "lw_maxSize w1 = maxSize" "lw_minFreeDisk w1 = 0"
    "lw_prev w1 = Some content" "lw_currentOffset w1 = lw_currentOffset w" "lw_metaOpen w1 = lw_metaOpen w"
    "lw_container w1 = lw_container w" "lw_rotatedLines w1 = lw_rotatedLines w"
    using w assms(3,4) by (auto simp: w1_def count_stream_def)
  define v where "v = rotateTail e w1"
  obtain msg where v: "v = writeSystemLine (le_system e) (le_stamp e) msg
      (w1\<lparr>lw_prevSegmentStart := lw_rotatedLines w1, lw_fileOpen := True, lw_stopped := True, lw_truncated := True\<rparr>)"
    using assms(8,9) by (simp add: v_def rotateTail_def Let_def)
  have "checkDiskPressure e w1 = (False, w1)" using w1(4) by (simp add: checkDiskPressure_def)
  moreover have "handleSizeOverflow e (FormatLine text stream) w1 = (True, v)"
    using w1 assms(6,7) v by (simp add: handleSizeOverflow_def v_def [symmetric] Let_def)
  ultimately have "snd (WriteLineEvent e text stream w) = v"
    using w1(1) by (simp add: WriteLineEvent_def writeOneLine_def Let_def w1_def [symmetric])
  then have w': "w' = CloseLog e' v" using assms(11) by simp
  have frame: "lw_prev v = Some content" "lw_metaOpen v \<longrightarrow> lw_container v \<noteq> None" "lw_rotatedLines v = lw_rotatedLines w"
    "lw_prevSegmentStart v = lw_rotatedLines w"
    using w1 held(2) by (auto simp: v)
  define u where "u = writeTotalProducedLine e' v"
  have u: "lw_prev u = Some content" "lw_metaOpen u \<longrightarrow> lw_container u \<noteq> None" "lw_rotatedLines u = lw_rotatedLines w"
    "lw_prevSegmentStart u = lw_rotatedLines w"
    using frame by (auto simp: u_def writeTotalProducedLine_def)
  have env: "le_containerOpens e'" "le_containerWrites e'" using assms(10) by (auto simp: sound_env_def)
  have side: "PrevStart (sc_Meta (lf_side (files_of w'))) = lw_rotatedLines w"
    "RotatedLines (sc_Meta (lf_side (files_of w'))) = lw_rotatedLines w" "lw_prev w' = Some content"
    using appended [OF u(2) env] u by (auto simp: w' CloseLog_def Let_def u_def [symmetric] files_of_def meta_of_def)
  show ?thesis using read_hides_prev [OF side(1,2)] side(3) old by blast
qed

section \<open>The properties on concrete runs\<close>

lemmas run_defs = calm_def NewLogWriter_def WriteLineEvent_def writeOneLine_def count_stream_def two_lines_text
  checkDiskPressure_def handleSizeOverflow_def file_write_def updateSidecarsAfterWrite_def rotateTail_def
  rewriteContainerForRotation_def writeSystemLine_def Let_def ensureIndexBackfill_def

theorem refusal_is_final_witness:
  "fst (log_calls [(calm, CallLine ''hello'' StreamStdout), (calm, CallLine ''oops'' StreamStderr), (calm, CallLine ''hello'' StreamStdout)]
     (NewLogWriter 8 (Some LogOverflowDropNew) 0)) ! 2 = - 1"
proof -
  let ?cs = "[(calm, CallLine ''hello'' StreamStdout), (calm, CallLine ''oops'' StreamStderr), (calm, CallLine ''hello'' StreamStdout)]"
  obtain ns w where run: "log_calls ?cs (NewLogWriter 8 (Some LogOverflowDropNew) 0) = (ns, w)" by fastforce
  have "fst (log_calls ?cs (NewLogWriter 8 (Some LogOverflowDropNew) 0)) ! 1 = - 1" by (simp add: run_defs)
  then show ?thesis
    using refusal_is_final [OF run, of 1 2 calm "''oops''" StreamStderr calm "''hello''" StreamStdout] run by simp
qed

lemma two_lines_state:
  "lw_totalProduced (snd (log_calls two_lines (NewLogWriter 8 None 0))) = 17"
  "lw_prev (snd (log_calls two_lines (NewLogWriter 8 None 0))) = Some (''hello'' @ [newline])"
  "\<not> lw_stopped (snd (log_calls two_lines (NewLogWriter 8 None 0)))"
  "8 < lw_currentOffset (snd (log_calls two_lines (NewLogWriter 8 None 0)))"
  "lw_prevSegmentStart (snd (log_calls two_lines (NewLogWriter 8 None 0))) = 0"
  by (simp_all add: two_lines_def run_defs)

theorem log_cap_witness:
  "file_size (lw_main (CloseLog calm (snd (log_calls two_lines (NewLogWriter 8 None 0)))))
    + file_size (lw_prev (CloseLog calm (snd (log_calls two_lines (NewLogWriter 8 None 0))))) \<le> 1568"
proof -
  obtain ns w where run: "log_calls two_lines (NewLogWriter 8 None 0) = (ns, w)" by fastforce
  have env: "bounded_env 0 calm" by (simp add: bounded_env_def calm_def int64_def time_defs)
  have "\<forall>(e, c)\<in>set two_lines. bounded_env 0 e \<and> (\<forall>text stream. c = CallLine text stream \<longrightarrow> length (FormatLine text stream) \<le> 11)"
    using env by (auto simp: two_lines_def two_lines_text)
  from log_cap [where ended = True, OF run _ _ _ this env] two_lines_state(1) run show ?thesis
    by (simp add: int64_def time_defs)
qed

theorem failed_move_hides_segment_witness:
  "\<exists>w'. lw_prev w' = Some (''hello'' @ [newline])
    \<and> (\<forall>r\<in>set (fst (ReadLineRange (files_of w') 0 1000)). 0 < lr_LineNum r)"
proof -
  let ?e = "calm\<lparr>le_rename := Some ''permission denied''\<rparr>"
  obtain ns w where run: "log_calls two_lines (NewLogWriter 8 None 0) = (ns, w)" by fastforce
  have w: "lw_prev w = Some (''hello'' @ [newline])" "\<not> lw_stopped w"
    "8 < lw_currentOffset w + int (length (FormatLine ''oops'' StreamStderr))"
    using two_lines_state run by (simp_all add: two_lines_text)
  define w' where "w' = CloseLog calm (snd (WriteLineEvent ?e ''oops'' StreamStderr w))"
  have e: "le_rename ?e = Some ''permission denied''" "\<not> le_reopenFails ?e" by (simp_all add: calm_def)
  from failed_move_hides_segment [OF two_lines_sound(1) run w(2,1) _ _ w(3) e two_lines_sound(2) w'_def]
  have "lw_prev w' = Some (''hello'' @ [newline])" "0 < lw_rotatedLines w"
    "\<forall>r\<in>set (fst (ReadLineRange (files_of w') 0 1000)). lw_rotatedLines w \<le> lr_LineNum r"
    using two_lines_state(5) run by simp_all
  then show ?thesis by force
qed

end
