(* ===== verification/Sidecar.thy ===== *)
theory Sidecar
  imports Log_Writer
begin

text \<open>
  The bytes of the sidecar container (\<open>logutil/sidecar.go\<close>): typed records with a length in front, as
  they are appended and as they are read back from a file that may end in the middle of one.
  \<open>encoding/json\<close> is a parameter, with what the container needs of it: that reading a value back gives
  the value.
\<close>

section \<open>Framing\<close>

fun le_bytes :: "nat \<Rightarrow> nat \<Rightarrow> string" where
  "le_bytes 0 n = []"
| "le_bytes (Suc k) n = char_of (n mod 256) # le_bytes k (n div 256)"

fun of_le :: "string \<Rightarrow> nat" where
  "of_le [] = 0"
| "of_le (c # s) = of_char c + 256 * of_le s"

lemma le_bytes_length [simp]: "length (le_bytes k n) = k"
  by (induction k arbitrary: n) auto

lemma of_le_bytes: "of_le (le_bytes k n) = n mod 256 ^ k"
proof (induction k arbitrary: n)
  case (Suc k)
  show ?case using Suc [of "n div 256"] by (simp add: mod_mult2_eq [of n 256 "256 ^ k"] algebra_simps)
qed simp

definition sidecarRecordHeaderSize :: nat where [model_defs]: "sidecarRecordHeaderSize = 5"
definition maxSidecarRecord :: nat where [model_defs]: "maxSidecarRecord = 32 * 1024 * 1024"

definition EncodeSidecarRecord :: "char \<Rightarrow> string \<Rightarrow> string" where
  "EncodeSidecarRecord tag payload = tag # le_bytes 4 (length payload mod 2 ^ 32) @ payload"

function read_records :: "string \<Rightarrow> (char \<times> string) list" where
  "read_records bytes =
     (if length bytes < sidecarRecordHeaderSize then []
      else
        let len = of_le (take 4 (drop 1 bytes)); body = drop sidecarRecordHeaderSize bytes in
        if maxSidecarRecord < len \<or> length body < len then []
        else (hd bytes, take len body) # read_records (drop len body))"
  by pat_completeness auto

termination read_records
  by (relation "measure length") (auto simp: model_defs)

declare read_records.simps [simp del]

section \<open>Records\<close>

record jsonLib =
  js_meta :: "LogMeta \<Rightarrow> string"
  js_unmeta :: "string \<Rightarrow> LogMeta option"
  js_frames :: "int \<Rightarrow> string list list \<Rightarrow> string"
  js_unframes :: "string \<Rightarrow> (int \<times> string list list) option"

fun record_bytes :: "jsonLib \<Rightarrow> sidecarRecord \<Rightarrow> string" where
  "record_bytes js (RecMeta m) = EncodeSidecarRecord (CHR ''m'') (js_meta js m)"
| "record_bytes js (RecIndex i) = EncodeSidecarRecord (CHR ''i'') (le_bytes 8 (i mod 2 ^ 64))"
| "record_bytes js (RecFrame n fs) = EncodeSidecarRecord (CHR ''f'') (js_frames js n fs)"

definition container_bytes :: "jsonLib \<Rightarrow> sidecarRecord list \<Rightarrow> string" where
  "container_bytes js rs = concat (map (record_bytes js) rs)"

text \<open>\<open>apply\<close>: a payload that does not decode is skipped. An offset is an int64; one that reads as
  negative is in no container of this program and is left out.\<close>

definition decode_record :: "jsonLib \<Rightarrow> char \<times> string \<Rightarrow> sidecarRecord option" where
  "decode_record js r =
     (case r of (tag, payload) \<Rightarrow>
        if tag = CHR ''m'' then map_option RecMeta (js_unmeta js payload)
        else if tag = CHR ''i'' then
          (if length payload = 8 \<and> of_le payload < 2 ^ 63 then Some (RecIndex (of_le payload)) else None)
        else if tag = CHR ''f'' then map_option (\<lambda>(n, fs). RecFrame n fs) (js_unframes js payload)
        else None)"

definition ReadSidecar_bytes :: "jsonLib \<Rightarrow> string option \<Rightarrow> Sidecar" where
  "ReadSidecar_bytes js file =
     (case file of
        None \<Rightarrow> zero_sidecar
      | Some bytes \<Rightarrow> fold apply_record (List.map_filter (decode_record js) (read_records bytes)) zero_sidecar)"

section \<open>Reading a container that ends anywhere\<close>

definition payload_of :: "jsonLib \<Rightarrow> sidecarRecord \<Rightarrow> char \<times> string" where
  "payload_of js r = (hd (record_bytes js r), drop sidecarRecordHeaderSize (record_bytes js r))"

text \<open>What is asked of a record: JSON reads it back, it is not oversized, an offset is an int64.\<close>

fun sound_record :: "jsonLib \<Rightarrow> sidecarRecord \<Rightarrow> bool" where
  "sound_record js (RecMeta m) \<longleftrightarrow> js_unmeta js (js_meta js m) = Some m \<and> length (js_meta js m) \<le> maxSidecarRecord"
| "sound_record js (RecIndex i) \<longleftrightarrow> i < 2 ^ 63"
| "sound_record js (RecFrame n fs) \<longleftrightarrow> js_unframes js (js_frames js n fs) = Some (n, fs) \<and> length (js_frames js n fs) \<le> maxSidecarRecord"

lemma read_whole:
  assumes "length payload \<le> maxSidecarRecord"
  shows "read_records (EncodeSidecarRecord tag payload @ rest) = (tag, payload) # read_records rest"
proof -
  have len: "of_le (le_bytes 4 (length payload mod 4294967296)) = length payload"
    using assms by (simp add: of_le_bytes maxSidecarRecord_def)
  show ?thesis
    using assms by (subst read_records.simps) (simp add: EncodeSidecarRecord_def Let_def sidecarRecordHeaderSize_def len)
qed

lemma read_torn:
  assumes "length payload \<le> maxSidecarRecord" "n < length (EncodeSidecarRecord tag payload)"
  shows "read_records (take n (EncodeSidecarRecord tag payload)) = []"
proof (cases "n < sidecarRecordHeaderSize")
  case True
  then show ?thesis by (subst read_records.simps) simp
next
  case False
  then obtain k where k: "n = sidecarRecordHeaderSize + k" by (metis le_add_diff_inverse not_less)
  have take: "take n (EncodeSidecarRecord tag payload) = tag # le_bytes 4 (length payload mod 2 ^ 32) @ take k payload"
    by (simp add: k EncodeSidecarRecord_def sidecarRecordHeaderSize_def add.commute [of 5] take_Cons')
  have "k < length payload" using assms(2) k by (simp add: EncodeSidecarRecord_def sidecarRecordHeaderSize_def)
  moreover have len: "of_le (le_bytes 4 (length payload mod 4294967296)) = length payload"
    using assms by (simp add: of_le_bytes maxSidecarRecord_def)
  ultimately show ?thesis
    unfolding take by (subst read_records.simps) (simp add: Let_def sidecarRecordHeaderSize_def len)
qed

lemma record_encoded:
  assumes "sound_record js r"
  obtains tag payload where "record_bytes js r = EncodeSidecarRecord tag payload" "length payload \<le> maxSidecarRecord"
    "decode_record js (tag, payload) = Some r"
  using assms by (cases r) (auto simp: decode_record_def of_le_bytes maxSidecarRecord_def intro: that)

definition decoded :: "jsonLib \<Rightarrow> string \<Rightarrow> sidecarRecord list" where
  "decoded js bytes = List.map_filter (decode_record js) (read_records bytes)"

lemma decoded_Cons:
  "sound_record js r \<Longrightarrow> decoded js (record_bytes js r @ bytes) = r # decoded js bytes"
  by (erule record_encoded) (simp add: decoded_def read_whole List.map_filter_simps)

lemma decoded_torn:
  assumes "sound_record js r" "n < length (record_bytes js r)"
  shows "decoded js (take n (record_bytes js r)) = []"
proof -
  obtain tag payload where "record_bytes js r = EncodeSidecarRecord tag payload" "length payload \<le> maxSidecarRecord"
    using record_encoded [OF assms(1)] by blast
  then show ?thesis using assms(2) read_torn [of payload n tag] by (simp add: decoded_def List.map_filter_simps)
qed

text \<open>C28. The sidecar survives a crash at any byte. If the file holds only the first \<open>n\<close> bytes of what
  the writer appended, reading it gives exactly the complete records among them, in order: a torn
  record at the end is ignored and costs nothing of those before it.\<close>

theorem sidecar_survives_tearing:
  assumes "\<forall>r\<in>set rs. sound_record js r"
  shows "\<exists>k\<le>length rs. ReadSidecar_bytes js (Some (take n (container_bytes js rs))) = ReadSidecar (Some (take k rs))
    \<and> length (container_bytes js (take k rs)) \<le> n
    \<and> (k < length rs \<longrightarrow> n < length (container_bytes js (take (Suc k) rs)))"
proof -
  have "\<exists>k\<le>length rs. decoded js (take n (container_bytes js rs)) = take k rs
    \<and> length (container_bytes js (take k rs)) \<le> n
    \<and> (k < length rs \<longrightarrow> n < length (container_bytes js (take (Suc k) rs)))"
    using assms
  proof (induction rs arbitrary: n)
    case Nil
    then show ?case by (simp add: container_bytes_def decoded_def read_records.simps sidecarRecordHeaderSize_def List.map_filter_simps)
  next
    case (Cons r rs)
    let ?b = "record_bytes js r"
    have bytes: "container_bytes js (r # xs) = ?b @ container_bytes js xs" for xs by (simp add: container_bytes_def)
    show ?case
    proof (cases "n < length ?b")
      case True
      then have "decoded js (take n (container_bytes js (r # rs))) = []"
        using decoded_torn [of js r n] Cons.prems by (simp add: bytes)
      then show ?thesis using True by (intro exI [of _ 0]) (simp add: bytes container_bytes_def)
    next
      case False
      then obtain m where m: "n = length ?b + m" by (metis le_add_diff_inverse not_less)
      obtain k where "k \<le> length rs" "decoded js (take m (container_bytes js rs)) = take k rs"
        "length (container_bytes js (take k rs)) \<le> m" "k < length rs \<longrightarrow> m < length (container_bytes js (take (Suc k) rs))"
        using Cons.IH Cons.prems by auto
      then show ?thesis
        using Cons.prems decoded_Cons [of js r] by (intro exI [of _ "Suc k"]) (simp add: m bytes)
    qed
  qed
  moreover have "ReadSidecar_bytes js (Some bytes) = fold apply_record (decoded js bytes) zero_sidecar" for bytes
    by (simp add: ReadSidecar_bytes_def decoded_def)
  ultimately show ?thesis by (auto simp: ReadSidecar_def)
qed

text \<open>A container with an index entry and a metadata record of which the last bytes are missing.\<close>

definition digits_json :: jsonLib where
  "digits_json = \<lparr>js_meta = (\<lambda>m. Itoa (nat (RotatedLines m))),
     js_unmeta = (\<lambda>s. map_option (\<lambda>n. zero_meta\<lparr>RotatedLines := n\<rparr>) (Atoi s)),
     js_frames = (\<lambda>n fs. []), js_unframes = (\<lambda>s. None)\<rparr>"

theorem sidecar_survives_tearing_witness:
  "\<exists>k\<le>2. ReadSidecar_bytes digits_json (Some (take 15 (container_bytes digits_json [RecIndex 0, RecMeta zero_meta])))
     = ReadSidecar (Some (take k [RecIndex 0, RecMeta zero_meta]))"
proof -
  have "Atoi (Itoa 0) = Some 0" using Atoi_Itoa [of 0] by (simp add: max_int64_def)
  moreover have "length (Itoa 0) = 1" by (simp add: Itoa.simps)
  ultimately have "\<forall>r\<in>set [RecIndex 0, RecMeta zero_meta]. sound_record digits_json r"
    by (simp add: digits_json_def zero_meta_def maxSidecarRecord_def)
  from sidecar_survives_tearing [OF this, of 15] obtain k where k: "k \<le> length [RecIndex 0, RecMeta zero_meta]"
    "ReadSidecar_bytes digits_json (Some (take 15 (container_bytes digits_json [RecIndex 0, RecMeta zero_meta])))
      = ReadSidecar (Some (take k [RecIndex 0, RecMeta zero_meta]))" by blast
  have "k \<le> 2" using k(1) by simp
  then show ?thesis using k(2) by blast
qed

end
