(* ===== verification/Terminal.thy ===== *)
theory Terminal
  imports Prelude
begin

text \<open>
  The renderer that turns a task's output into log lines (\<open>executor/terminal_renderer.go\<close>): a
  simplified terminal whose rows are committed when they are final. Text is lists of code points.
  The decoding of escape sequences belongs to a library: a token says what a sequence is, the decoder
  is an argument of \<open>Write\<close>. What the renderer hands to its two callbacks is the output of each
  operation.
\<close>

section \<open>Tokens and state\<close>

type_synonym rune = nat

definition ascii :: "string \<Rightarrow> rune list" where
  "ascii s = map of_char s"

text \<open>A sequence: printable text, a control byte, a control sequence with its private prefix, final
  byte and parameters (a parameter may be missing), an escape sequence with its final byte, or one of the
  string sequences that are ignored.\<close>

datatype token = TText "rune list" | TControl nat | TCsi char char "int option list" | TEsc char | TString

definition parser_Param :: "int option list \<Rightarrow> nat \<Rightarrow> int \<Rightarrow> int \<times> bool" where
  "parser_Param ps i d = (if i < length ps then (OrDefault (ps ! i) d, True) else (d, False))"

record termCell =
  tc_r :: rune
  tc_pen :: nat

type_synonym termRow = "termCell list"

datatype emission =
    Commit "(rune list \<times> bool) list" "rune list list list"
  | Provisional int "rune list list"

record terminal =
  tr_rows :: "termRow list"
  tr_curRow :: nat
  tr_curCol :: nat
  tr_savedRow :: nat
  tr_savedCol :: nat
  tr_hasSaved :: bool
  tr_screenLocked :: bool
  tr_curPen :: nat
  tr_penText :: "rune list"
  tr_pens :: "rune list list"
  tr_pendingContinued :: bool
  tr_epoch :: int
  tr_dirty :: bool
  tr_lastSnapLen :: nat
  tr_regionFrames :: "rune list list list"
  tr_lastFrameMs :: int
  tr_frameIntervalMs :: int

definition maxRegionRows :: nat where [model_defs]: "maxRegionRows = 64"
definition maxRowCells :: nat where [model_defs]: "maxRowCells = 64 * 1024"
definition maxPenLen :: nat where [model_defs]: "maxPenLen = 256"
definition maxHistoryFrames :: nat where [model_defs]: "maxHistoryFrames = 40"
definition defaultFrameIntervalMs :: int where [model_defs]: "defaultFrameIntervalMs = 250"

definition NewTerminalRenderer :: terminal where
  "NewTerminalRenderer =
     \<lparr>tr_rows = [[]], tr_curRow = 0, tr_curCol = 0, tr_savedRow = 0, tr_savedCol = 0, tr_hasSaved = False,
      tr_screenLocked = False, tr_curPen = 0, tr_penText = [], tr_pens = [], tr_pendingContinued = False,
      tr_epoch = 0, tr_dirty = False, tr_lastSnapLen = 0, tr_regionFrames = [], tr_lastFrameMs = 0,
      tr_frameIntervalMs = defaultFrameIntervalMs\<rparr>"

section \<open>Rendering rows\<close>

definition penString :: "terminal \<Rightarrow> nat \<Rightarrow> rune list" where
  "penString tr p = (if p = 0 \<or> length (tr_pens tr) < p then [] else tr_pens tr ! (p - 1))"

definition reset_pen :: "rune list" where
  "reset_pen = 27 # ascii ''[0m''"

definition blank :: "termCell \<Rightarrow> bool" where
  "blank c \<longleftrightarrow> tc_pen c = 0 \<and> (tc_r c = 32 \<or> tc_r c = 0)"

definition trim_row :: "termRow \<Rightarrow> termRow" where
  "trim_row row = rev (dropWhile blank (rev row))"

fun render_cells :: "terminal \<Rightarrow> nat \<Rightarrow> termRow \<Rightarrow> rune list" where
  "render_cells tr l [] = (if l \<noteq> 0 then reset_pen else [])"
| "render_cells tr l (c # cs) =
     (if tc_pen c \<noteq> l then (if tc_pen c = 0 then reset_pen else penString tr (tc_pen c)) else [])
     @ (if tc_r c = 0 then 32 else tc_r c) # render_cells tr (tc_pen c) cs"

definition renderRow :: "terminal \<Rightarrow> termRow \<Rightarrow> rune list" where
  "renderRow tr row = render_cells tr 0 (trim_row row)"

definition drop_trailing :: "('a \<Rightarrow> bool) \<Rightarrow> 'a list \<Rightarrow> 'a list" where
  "drop_trailing P xs = rev (dropWhile P (rev xs))"

definition snapshotRows :: "terminal \<Rightarrow> rune list list" where
  "snapshotRows tr = drop_trailing (\<lambda>r. r = []) (map (renderRow tr) (tr_rows tr))"

section \<open>Frame history\<close>

fun every_other :: "'a list \<Rightarrow> 'a list" where
  "every_other (x # y # xs) = x # every_other xs"
| "every_other xs = xs"

definition decimateFrames :: "terminal \<Rightarrow> terminal" where
  "decimateFrames tr =
     tr\<lparr>tr_regionFrames := every_other (tr_regionFrames tr), tr_frameIntervalMs := tr_frameIntervalMs tr * 2\<rparr>"

definition recordRegionFrame :: "int \<Rightarrow> terminal \<Rightarrow> terminal" where
  "recordRegionFrame now tr =
     (if tr_regionFrames tr \<noteq> [] \<and> now - tr_lastFrameMs tr < tr_frameIntervalMs tr then tr
      else
        let snap = snapshotRows tr in
        if snap = [] then tr
        else if tr_regionFrames tr \<noteq> [] \<and> last (tr_regionFrames tr) = snap then tr
        else
          let tr = tr\<lparr>tr_lastFrameMs := now, tr_regionFrames := tr_regionFrames tr @ [snap]\<rparr> in
          if maxHistoryFrames < length (tr_regionFrames tr) then decimateFrames tr else tr)"

definition takeFrames :: "rune list list \<Rightarrow> terminal \<Rightarrow> rune list list list \<times> terminal" where
  "takeFrames finalRows tr =
     (drop_trailing (\<lambda>f. f = finalRows) (tr_regionFrames tr),
      tr\<lparr>tr_regionFrames := [], tr_lastFrameMs := 0, tr_frameIntervalMs := defaultFrameIntervalMs\<rparr>)"

section \<open>Committing\<close>

definition commitRows :: "termRow list \<Rightarrow> bool \<Rightarrow> terminal \<Rightarrow> emission list \<times> terminal" where
  "commitRows rows withHistory tr =
     (let continued = tr_pendingContinued tr; finalRows = map (renderRow tr) rows;
          ls = map2 (\<lambda>i t. (t, i = 0 \<and> continued)) [0..<length rows] finalRows;
          tr = tr\<lparr>tr_pendingContinued := False\<rparr>
      in if withHistory then (case takeFrames finalRows tr of (frames, tr) \<Rightarrow> ([Commit ls frames], tr))
         else ([Commit ls []], tr))"

definition commitAll :: "terminal \<Rightarrow> emission list \<times> terminal" where
  "commitAll tr =
     (let rows = drop_trailing (\<lambda>r. r = []) (tr_rows tr) in
      if rows = [] then ([], snd (takeFrames [] tr)) else commitRows rows True tr)"

section \<open>Cursor and region\<close>

text \<open>\<open>cur\<close>: the cursor's row, made if the region is shorter.\<close>

definition extend_rows :: "terminal \<Rightarrow> terminal" where
  "extend_rows tr = tr\<lparr>tr_rows := tr_rows tr @ replicate (Suc (tr_curRow tr) - length (tr_rows tr)) []\<rparr>"

definition put_row :: "termRow \<Rightarrow> terminal \<Rightarrow> terminal" where
  "put_row row tr = tr\<lparr>tr_rows := (tr_rows tr)[tr_curRow tr := row]\<rparr>"

definition writeRune :: "rune \<Rightarrow> terminal \<Rightarrow> emission list \<times> terminal" where
  "writeRune r tr =
     (let tr = extend_rows tr; row0 = tr_rows tr ! tr_curRow tr;
          row1 = row0 @ replicate (tr_curCol tr - length row0) \<lparr>tc_r = 32, tc_pen = 0\<rparr>;
          cell = \<lparr>tc_r = r, tc_pen = tr_curPen tr\<rparr>;
          row = (if tr_curCol tr < length row1 then row1[tr_curCol tr := cell] else row1 @ [cell]);
          tr = (put_row row tr)\<lparr>tr_curCol := tr_curCol tr + 1, tr_dirty := True\<rparr>
      in if maxRowCells < length row
         then (case commitRows [row] False tr of (es, tr) \<Rightarrow> (es, (put_row [] tr)\<lparr>tr_pendingContinued := True, tr_curCol := 0\<rparr>))
         else ([], tr))"

fun writeRunes :: "rune list \<Rightarrow> terminal \<Rightarrow> emission list \<times> terminal" where
  "writeRunes [] tr = ([], tr)"
| "writeRunes (r # rs) tr =
     (case writeRune r tr of (es, tr') \<Rightarrow> (case writeRunes rs tr' of (es', tr'') \<Rightarrow> (es @ es', tr'')))"

function scrollIfNeeded :: "terminal \<Rightarrow> emission list \<times> terminal" where
  "scrollIfNeeded tr =
     (if length (tr_rows tr) \<le> maxRegionRows then ([], tr)
      else case commitRows (take 1 (tr_rows tr)) False tr of
        (es, tr1) \<Rightarrow>
          (case scrollIfNeeded (tr1\<lparr>tr_rows := drop 1 (tr_rows tr1), tr_curRow := tr_curRow tr1 - 1\<rparr>) of
             (es', tr') \<Rightarrow> (es @ es', tr')))"
  by pat_completeness auto

termination scrollIfNeeded
  by (relation "measure (length \<circ> tr_rows)") (auto simp: commitRows_def Let_def)

declare scrollIfNeeded.simps [simp del]

definition newline_op :: "terminal \<Rightarrow> emission list \<times> terminal" where
  "newline_op tr =
     (if \<not> tr_screenLocked tr
      then (case commitRows [tr_rows tr ! tr_curRow tr] True tr of
              (es, tr) \<Rightarrow> (es, (put_row [] tr)\<lparr>tr_curCol := 0, tr_dirty := True\<rparr>))
      else (case scrollIfNeeded (extend_rows (tr\<lparr>tr_curRow := tr_curRow tr + 1, tr_curCol := 0\<rparr>)) of
              (es, tr) \<Rightarrow> (es, tr\<lparr>tr_dirty := True\<rparr>)))"

definition cursorUp :: "int \<Rightarrow> nat \<Rightarrow> terminal \<Rightarrow> terminal" where
  "cursorUp now n tr =
     (let tr = recordRegionFrame now tr in
      tr\<lparr>tr_screenLocked := True, tr_curRow := tr_curRow tr - n, tr_dirty := True\<rparr>)"

definition cursorDown :: "int \<Rightarrow> nat \<Rightarrow> terminal \<Rightarrow> emission list \<times> terminal" where
  "cursorDown now n tr =
     (let tr = recordRegionFrame now tr in
      case scrollIfNeeded (extend_rows (tr\<lparr>tr_screenLocked := True, tr_curRow := tr_curRow tr + n\<rparr>)) of
        (es, tr) \<Rightarrow> (es, tr\<lparr>tr_dirty := True\<rparr>))"

definition cursorPos :: "int \<Rightarrow> int \<Rightarrow> int \<Rightarrow> terminal \<Rightarrow> emission list \<times> terminal" where
  "cursorPos now row col tr =
     (let tr = recordRegionFrame now tr in
      case scrollIfNeeded (extend_rows (tr\<lparr>tr_screenLocked := True, tr_curRow := nat (row - 1), tr_curCol := nat (col - 1)\<rparr>)) of
        (es, tr) \<Rightarrow> (es, tr\<lparr>tr_dirty := True\<rparr>))"

definition saveCursor :: "terminal \<Rightarrow> terminal" where
  "saveCursor tr = tr\<lparr>tr_savedRow := tr_curRow tr, tr_savedCol := tr_curCol tr, tr_hasSaved := True\<rparr>"

definition restoreCursor :: "int \<Rightarrow> terminal \<Rightarrow> terminal" where
  "restoreCursor now tr =
     (if \<not> tr_hasSaved tr then tr
      else
        let tr = recordRegionFrame now tr in
        (extend_rows (tr\<lparr>tr_screenLocked := True, tr_curRow := tr_savedRow tr, tr_curCol := tr_savedCol tr\<rparr>))\<lparr>tr_dirty := True\<rparr>)"

definition eraseLine :: "int \<Rightarrow> int \<Rightarrow> terminal \<Rightarrow> terminal" where
  "eraseLine now mode tr =
     (let tr = extend_rows (recordRegionFrame now tr); row = tr_rows tr ! tr_curRow tr;
          row' = (if mode = 0 then take (tr_curCol tr) row
                  else if mode = 1
                  then replicate (min (tr_curCol tr) (length row)) \<lparr>tc_r = 32, tc_pen = 0\<rparr> @ drop (tr_curCol tr) row
                  else if mode = 2 then [] else row)
      in (put_row row' tr)\<lparr>tr_dirty := True\<rparr>)"

definition resetScreen :: "terminal \<Rightarrow> emission list \<times> terminal" where
  "resetScreen tr =
     (case commitAll tr of
        (es, tr) \<Rightarrow> (es, tr\<lparr>tr_rows := [[]], tr_curRow := 0, tr_curCol := 0, tr_screenLocked := False,
                            tr_hasSaved := False, tr_epoch := tr_epoch tr + 1, tr_dirty := True\<rparr>))"

definition eraseDisplay :: "int \<Rightarrow> int \<Rightarrow> terminal \<Rightarrow> emission list \<times> terminal" where
  "eraseDisplay now mode tr =
     (let tr = recordRegionFrame now tr in
      if mode = 0
      then (let tr = eraseLine now 0 tr in ([], tr\<lparr>tr_rows := take (tr_curRow tr + 1) (tr_rows tr), tr_dirty := True\<rparr>))
      else if mode = 1
      then (let tr = eraseLine now 1 tr in
            ([], tr\<lparr>tr_rows := replicate (tr_curRow tr) [] @ drop (tr_curRow tr) (tr_rows tr), tr_dirty := True\<rparr>))
      else (case resetScreen tr of (es, tr) \<Rightarrow> (es, tr\<lparr>tr_dirty := True\<rparr>)))"

section \<open>Tokens\<close>

definition encodeSGR :: "int option list \<Rightarrow> rune list" where
  "encodeSGR ps = 27 # ascii ''['' @ ascii (Join '';'' (map (\<lambda>p. fmt_int (OrDefault p 0)) ps)) @ ascii ''m''"

fun find_pen :: "rune list \<Rightarrow> nat \<Rightarrow> rune list list \<Rightarrow> nat option" where
  "find_pen s i [] = None"
| "find_pen s i (p # ps) = (if p = s then Some i else find_pen s (Suc i) ps)"

definition internPen :: "rune list \<Rightarrow> terminal \<Rightarrow> nat \<times> terminal" where
  "internPen s tr =
     (if s = [] then (0, tr)
      else case find_pen s 1 (tr_pens tr) of
        Some i \<Rightarrow> (i, tr)
      | None \<Rightarrow>
          if 2 ^ 16 - 2 \<le> length (tr_pens tr) then (0, tr)
          else (length (tr_pens tr) + 1, tr\<lparr>tr_pens := tr_pens tr @ [s]\<rparr>))"

definition applySGR :: "int option list \<Rightarrow> terminal \<Rightarrow> terminal" where
  "applySGR ps tr =
     (case parser_Param ps 0 0 of
        (first, ok) \<Rightarrow>
          if \<not> ok \<or> (first = 0 \<and> \<not> snd (parser_Param ps 1 (- 1))) then tr\<lparr>tr_penText := [], tr_curPen := 0\<rparr>
          else
            let raw = encodeSGR ps;
                acc = tr_penText tr @ raw;
                text' = (if first = 0 then raw else if maxPenLen < length acc then raw else acc)
            in (case internPen text' (tr\<lparr>tr_penText := text'\<rparr>) of (i, tr) \<Rightarrow> tr\<lparr>tr_curPen := i\<rparr>))"

definition tr_param :: "int option list \<Rightarrow> nat \<Rightarrow> int \<Rightarrow> int" where
  "tr_param ps i d = (let v = fst (parser_Param ps i d) in if v < 0 then d else v)"

definition private_mode :: "bool \<Rightarrow> int \<Rightarrow> terminal \<Rightarrow> emission list \<times> terminal" where
  "private_mode on p tr =
     (if p \<in> {1049, 47, 1047} \<and> on then (case resetScreen tr of (es, tr) \<Rightarrow> (es, tr\<lparr>tr_screenLocked := True\<rparr>))
      else if p \<in> {1049, 47, 1047} \<and> \<not> on then resetScreen tr
      else if p = 25 \<and> \<not> on then ([], tr\<lparr>tr_screenLocked := True\<rparr>)
      else if p = 25 \<and> on then resetScreen tr
      else ([], tr))"

fun handlePrivateMode :: "bool \<Rightarrow> int option list \<Rightarrow> terminal \<Rightarrow> emission list \<times> terminal" where
  "handlePrivateMode on [] tr = ([], tr)"
| "handlePrivateMode on (p # ps) tr =
     (case private_mode on (OrDefault p 0) tr of
        (es, tr) \<Rightarrow> (case handlePrivateMode on ps tr of (es', tr) \<Rightarrow> (es @ es', tr)))"

definition handleCSI :: "int \<Rightarrow> char \<Rightarrow> char \<Rightarrow> int option list \<Rightarrow> terminal \<Rightarrow> emission list \<times> terminal" where
  "handleCSI now prefix final ps tr =
     (let n = nat (tr_param ps 0 1) in
      if prefix \<noteq> CHR 0x00
      then (if prefix = CHR ''?'' \<and> (final = CHR ''h'' \<or> final = CHR ''l'')
            then handlePrivateMode (final = CHR ''h'') ps tr else ([], tr))
      else if final = CHR ''A'' then ([], cursorUp now n tr)
      else if final = CHR ''B'' then cursorDown now n tr
      else if final = CHR ''C'' then ([], tr\<lparr>tr_curCol := tr_curCol tr + n\<rparr>)
      else if final = CHR ''D'' then ([], tr\<lparr>tr_curCol := tr_curCol tr - n\<rparr>)
      else if final = CHR ''E'' then (case cursorDown now n tr of (es, tr) \<Rightarrow> (es, tr\<lparr>tr_curCol := 0\<rparr>))
      else if final = CHR ''F'' then ([], (cursorUp now n tr)\<lparr>tr_curCol := 0\<rparr>)
      else if final = CHR ''G'' then ([], tr\<lparr>tr_curCol := nat (tr_param ps 0 1 - 1)\<rparr>)
      else if final = CHR ''H'' \<or> final = CHR ''f'' then cursorPos now (tr_param ps 0 1) (tr_param ps 1 1) tr
      else if final = CHR ''J'' then eraseDisplay now (tr_param ps 0 0) tr
      else if final = CHR ''K'' then ([], eraseLine now (tr_param ps 0 0) tr)
      else if final = CHR ''m'' then ([], applySGR ps tr)
      else if final = CHR ''s'' then ([], saveCursor tr)
      else if final = CHR ''u'' then ([], restoreCursor now tr)
      else ([], tr))"

definition handleESC :: "int \<Rightarrow> char \<Rightarrow> terminal \<Rightarrow> emission list \<times> terminal" where
  "handleESC now final tr =
     (if final = CHR ''7'' then ([], saveCursor tr)
      else if final = CHR ''8'' then ([], restoreCursor now tr)
      else if final = CHR ''c'' then resetScreen tr
      else ([], tr))"

text \<open>A tab writes blanks up to the next multiple of eight. A row that is split on the way starts over
  at column 0, and the loop goes on to the column it aimed at: whether it ever ends is part of its
  result.\<close>

partial_function (option) tab_fill :: "nat \<Rightarrow> terminal \<Rightarrow> (emission list \<times> terminal) option" where
  "tab_fill target tr =
     (if tr_curCol tr < target
      then Option.bind (tab_fill target (snd (writeRune 32 tr)))
             (\<lambda>(es, tr'). Some (fst (writeRune 32 tr) @ es, tr'))
      else Some ([], tr))"

definition handleControl :: "int \<Rightarrow> nat \<Rightarrow> terminal \<Rightarrow> (emission list \<times> terminal) option" where
  "handleControl now c tr =
     (if c = 10 then Some (newline_op tr)
      else if c = 13 then Some ([], (recordRegionFrame now tr)\<lparr>tr_curCol := 0\<rparr>)
      else if c = 8 then Some ([], tr\<lparr>tr_curCol := tr_curCol tr - 1\<rparr>)
      else if c = 9 then tab_fill ((tr_curCol tr div 8 + 1) * 8) tr
      else Some ([], tr))"

fun handleToken :: "int \<Rightarrow> token \<Rightarrow> terminal \<Rightarrow> (emission list \<times> terminal) option" where
  "handleToken now (TCsi prefix final ps) tr = Some (handleCSI now prefix final ps tr)"
| "handleToken now TString tr = Some ([], tr)"
| "handleToken now (TEsc final) tr = Some (handleESC now final tr)"
| "handleToken now (TControl c) tr = handleControl now c tr"
| "handleToken now (TText rs) tr = Some (writeRunes rs tr)"

fun handleTokens :: "(int \<times> token) list \<Rightarrow> terminal \<Rightarrow> (emission list \<times> terminal) option" where
  "handleTokens [] tr = Some ([], tr)"
| "handleTokens ((now, t) # ts) tr =
     Option.bind (handleToken now t tr) (\<lambda>(es, tr').
       Option.bind (handleTokens ts tr') (\<lambda>(es', tr''). Some (es @ es', tr'')))"

section \<open>Chunks\<close>

text \<open>What the decoder says of the front of a buffer: the sequence there, how many bytes it took, and
  whether it stopped inside a sequence or inside a code point.\<close>

record decoded =
  de_token :: token
  de_n :: nat
  de_unfinished :: bool
  de_cut :: bool

function feed :: "(nat list \<Rightarrow> decoded) \<Rightarrow> nat list \<Rightarrow> token list \<times> nat list" where
  "feed decode b =
     (if b = [] then ([], [])
      else
        let d = decode b; atEnd = (length b \<le> de_n d) in
        if de_n d = 0 \<or> (atEnd \<and> (de_unfinished d \<or> de_cut d)) then ([], b)
        else case feed decode (drop (de_n d) b) of (ts, left) \<Rightarrow> (de_token d # ts, left))"
  by pat_completeness auto

termination feed
  by (relation "measure (\<lambda>(decode, b). length b)") auto

declare feed.simps [simp del]

definition emitProvisional :: "terminal \<Rightarrow> emission list \<times> terminal" where
  "emitProvisional tr =
     (if \<not> tr_dirty tr then ([], tr)
      else
        let tr = tr\<lparr>tr_dirty := False\<rparr>; snap = snapshotRows tr in
        if snap = [] \<and> tr_lastSnapLen tr = 0 then ([], tr)
        else ([Provisional (tr_epoch tr) snap], tr\<lparr>tr_lastSnapLen := length snap\<rparr>))"

text \<open>\<open>Write\<close> keeps the bytes it could not decode yet; the clock is read once for a chunk here.\<close>

definition WriteChunk ::
  "(nat list \<Rightarrow> decoded) \<Rightarrow> int \<Rightarrow> nat list \<Rightarrow> nat list \<times> terminal \<Rightarrow> (emission list \<times> nat list \<times> terminal) option" where
  "WriteChunk decode now chunk st =
     (case st of (pending, tr) \<Rightarrow>
        if chunk = [] then Some ([], pending, tr)
        else case feed decode (pending @ chunk) of
          (ts, left) \<Rightarrow>
            Option.bind (handleTokens (map (\<lambda>t. (now, t)) ts) tr) (\<lambda>(es, tr).
              case emitProvisional tr of (es', tr) \<Rightarrow> Some (es @ es', left, tr)))"

text \<open>\<open>Close\<close>: the undecoded bytes are printed as the code points \<open>runes\<close> reads in them.\<close>

definition CloseTerminal :: "(nat list \<Rightarrow> rune list) \<Rightarrow> nat list \<times> terminal \<Rightarrow> emission list \<times> terminal" where
  "CloseTerminal runes st =
     (case st of (pending, tr) \<Rightarrow>
        (case writeRunes (runes pending) tr of
           (es1, tr) \<Rightarrow>
             (case commitAll tr of
                (es2, tr) \<Rightarrow>
                  let tr = tr\<lparr>tr_rows := [[]], tr_curRow := 0, tr_curCol := 0\<rparr> in
                  if 0 < tr_lastSnapLen tr
                  then (es1 @ es2 @ [Provisional (tr_epoch tr) []], tr\<lparr>tr_lastSnapLen := 0\<rparr>)
                  else (es1 @ es2, tr))))"

section \<open>The region stays in bounds\<close>

definition row_ok :: "terminal \<Rightarrow> bool" where
  "row_ok tr \<longleftrightarrow> (\<forall>row\<in>set (tr_rows tr). length row \<le> maxRowCells)"

definition region_ok :: "terminal \<Rightarrow> bool" where
  "region_ok tr \<longleftrightarrow> tr_curRow tr < length (tr_rows tr) \<and> length (tr_rows tr) \<le> maxRegionRows \<and> row_ok tr
     \<and> (tr_hasSaved tr \<longrightarrow> tr_savedRow tr < maxRegionRows) \<and> length (tr_regionFrames tr) \<le> maxHistoryFrames"

lemma every_other_length: "length (every_other xs) = (length xs + 1) div 2"
  by (induction xs rule: every_other.induct) auto

lemma record_region [simp]:
  "tr_rows (recordRegionFrame now tr) = tr_rows tr" "tr_curRow (recordRegionFrame now tr) = tr_curRow tr"
  "tr_curCol (recordRegionFrame now tr) = tr_curCol tr" "tr_hasSaved (recordRegionFrame now tr) = tr_hasSaved tr"
  "tr_savedRow (recordRegionFrame now tr) = tr_savedRow tr" "tr_savedCol (recordRegionFrame now tr) = tr_savedCol tr"
  "tr_screenLocked (recordRegionFrame now tr) = tr_screenLocked tr"
  by (auto simp: recordRegionFrame_def decimateFrames_def Let_def)

lemma record_frames:
  "length (tr_regionFrames tr) \<le> maxHistoryFrames \<Longrightarrow> length (tr_regionFrames (recordRegionFrame now tr)) \<le> maxHistoryFrames"
  by (auto simp: recordRegionFrame_def decimateFrames_def Let_def every_other_length maxHistoryFrames_def)

lemma region_record: "region_ok tr \<Longrightarrow> region_ok (recordRegionFrame now tr)"
  by (simp add: region_ok_def row_ok_def record_frames)

lemma commit_rows_frame [simp]:
  "tr_rows (snd (commitRows rows h tr)) = tr_rows tr" "tr_curRow (snd (commitRows rows h tr)) = tr_curRow tr"
  "tr_curCol (snd (commitRows rows h tr)) = tr_curCol tr" "tr_hasSaved (snd (commitRows rows h tr)) = tr_hasSaved tr"
  "tr_savedRow (snd (commitRows rows h tr)) = tr_savedRow tr" "tr_screenLocked (snd (commitRows rows h tr)) = tr_screenLocked tr"
  by (auto simp: commitRows_def takeFrames_def Let_def)

lemma commit_frames: "length (tr_regionFrames (snd (commitRows rows h tr))) \<le> length (tr_regionFrames tr)"
  by (auto simp: commitRows_def takeFrames_def Let_def)

lemma region_commit: "region_ok tr \<Longrightarrow> region_ok (snd (commitRows rows h tr))"
  using commit_frames [of rows h tr] by (simp add: region_ok_def row_ok_def)

text \<open>The region after a row was put in place of the cursor's.\<close>

lemma region_put:
  assumes "region_ok tr" "length row \<le> maxRowCells" "tr_rows tr' = (tr_rows tr)[tr_curRow tr := row]"
    and "tr_curRow tr' = tr_curRow tr" "tr_hasSaved tr' = tr_hasSaved tr" "tr_savedRow tr' = tr_savedRow tr"
    and "length (tr_regionFrames tr') \<le> length (tr_regionFrames tr)"
  shows "region_ok tr'"
  using assms set_update_subset_insert [of "tr_rows tr" "tr_curRow tr" row] by (auto simp: region_ok_def row_ok_def)

lemma extend_id: "tr_curRow tr < length (tr_rows tr) \<Longrightarrow> extend_rows tr = tr"
  by (simp add: extend_rows_def)

text \<open>One cell: the row grows or is committed, the column advances or starts over.\<close>

lemma writeRune_region:
  assumes "region_ok tr"
  shows "region_ok (snd (writeRune r tr))
    \<and> (tr_curCol (snd (writeRune r tr)) = tr_curCol tr + 1 \<and> tr_curCol tr < maxRowCells \<or>
       tr_curCol (snd (writeRune r tr)) = 0 \<and> maxRowCells \<le> tr_curCol tr)"
proof -
  have in_rows: "tr_curRow tr < length (tr_rows tr)" using assms by (simp add: region_ok_def)
  let ?row = "tr_rows tr ! tr_curRow tr"
  have short: "length ?row \<le> maxRowCells" using assms in_rows by (simp add: region_ok_def row_ok_def)
  let ?row1 = "?row @ replicate (tr_curCol tr - length ?row) \<lparr>tc_r = 32, tc_pen = 0\<rparr>"
  let ?cell = "\<lparr>tc_r = r, tc_pen = tr_curPen tr\<rparr>"
  define row where "row = (if tr_curCol tr < length ?row1 then ?row1[tr_curCol tr := ?cell] else ?row1 @ [?cell])"
  define tr1 where "tr1 = (put_row row tr)\<lparr>tr_curCol := tr_curCol tr + 1, tr_dirty := True\<rparr>"
  have run: "writeRune r tr = (if maxRowCells < length row
      then (fst (commitRows [row] False tr1), (put_row [] (snd (commitRows [row] False tr1)))\<lparr>tr_pendingContinued := True, tr_curCol := 0\<rparr>)
      else ([], tr1))"
    unfolding writeRune_def Let_def extend_id [OF in_rows] row_def tr1_def by (simp add: case_prod_beta)
  have len: "length row = max (length ?row) (tr_curCol tr + 1)" by (auto simp: row_def)
  show ?thesis
  proof (cases "maxRowCells < length row")
    case True
    have "region_ok (snd (writeRune r tr))"
      by (rule region_put [OF assms, of "[]"])
        (use True commit_frames [of "[row]" False tr1] in \<open>simp_all add: run put_row_def tr1_def\<close>)
    moreover have "maxRowCells \<le> tr_curCol tr" using True len short by simp
    ultimately show ?thesis using True by (simp add: run)
  next
    case False
    have "region_ok (snd (writeRune r tr))"
      by (rule region_put [OF assms, of row]) (use False in \<open>simp_all add: run put_row_def tr1_def\<close>)
    then show ?thesis using False len by (simp add: run tr1_def)
  qed
qed

lemma writeRunes_region: "region_ok tr \<Longrightarrow> region_ok (snd (writeRunes rs tr))"
proof (induction rs arbitrary: tr)
  case (Cons r rs)
  have "region_ok (snd (writeRune r tr))" using writeRune_region [OF Cons.prems] by blast
  from Cons.IH [OF this] show ?case by (simp add: case_prod_beta)
qed simp

lemma scroll_region:
  assumes "tr_curRow tr < length (tr_rows tr)" "row_ok tr" "tr_hasSaved tr \<longrightarrow> tr_savedRow tr < maxRegionRows"
    and "length (tr_regionFrames tr) \<le> maxHistoryFrames"
  shows "region_ok (snd (scrollIfNeeded tr))"
  using assms
proof (induction tr rule: scrollIfNeeded.induct)
  case (1 tr)
  show ?case
  proof (cases "length (tr_rows tr) \<le> maxRegionRows")
    case True
    then show ?thesis using "1.prems" by (simp add: scrollIfNeeded.simps region_ok_def)
  next
    case False
    define c where "c = commitRows (take 1 (tr_rows tr)) False tr"
    let ?tr = "(snd c)\<lparr>tr_rows := drop 1 (tr_rows (snd c)), tr_curRow := tr_curRow (snd c) - 1\<rparr>"
    have rows: "tr_rows (snd c) = tr_rows tr" "tr_curRow (snd c) = tr_curRow tr" by (simp_all add: c_def)
    have "1 < length (tr_rows tr)" using False by (simp add: maxRegionRows_def)
    then have "tr_curRow ?tr < length (tr_rows ?tr)" using "1.prems"(1) rows by (cases "tr_curRow tr") auto
    moreover have "row_ok ?tr" using "1.prems"(2) rows by (auto simp: row_ok_def dest: in_set_dropD)
    moreover have "tr_hasSaved ?tr \<longrightarrow> tr_savedRow ?tr < maxRegionRows" using "1.prems"(3) by (simp add: c_def)
    moreover have "length (tr_regionFrames ?tr) \<le> maxHistoryFrames"
      using "1.prems"(4) commit_frames [of "take 1 (tr_rows tr)" False tr] by (simp add: c_def)
    ultimately have "region_ok (snd (scrollIfNeeded ?tr))"
      using "1.IH" [OF False, of "fst c" "snd c"] by (simp add: c_def)
    then show ?thesis using False by (subst scrollIfNeeded.simps) (simp add: case_prod_beta c_def)
  qed
qed

text \<open>The cursor moved to any row.\<close>

lemma moved_region:
  assumes "region_ok tr" "tr_rows tr' = tr_rows tr" "tr_hasSaved tr' = tr_hasSaved tr" "tr_savedRow tr' = tr_savedRow tr"
    and "tr_regionFrames tr' = tr_regionFrames tr"
  shows "region_ok (snd (scrollIfNeeded (extend_rows tr')))"
  by (rule scroll_region) (use assms in \<open>auto simp: extend_rows_def row_ok_def region_ok_def\<close>)

lemma region_fields [simp]:
  "region_ok (tr\<lparr>tr_dirty := b\<rparr>) = region_ok tr" "region_ok (tr\<lparr>tr_curCol := c\<rparr>) = region_ok tr"
  "region_ok (tr\<lparr>tr_screenLocked := b\<rparr>) = region_ok tr" "region_ok (tr\<lparr>tr_penText := p\<rparr>) = region_ok tr"
  "region_ok (tr\<lparr>tr_pens := ps\<rparr>) = region_ok tr" "region_ok (tr\<lparr>tr_curPen := n\<rparr>) = region_ok tr"
  "region_ok (tr\<lparr>tr_lastSnapLen := n\<rparr>) = region_ok tr" "region_ok (tr\<lparr>tr_epoch := e\<rparr>) = region_ok tr"
  by (simp_all add: region_ok_def row_ok_def)

lemma newline_region:
  assumes "region_ok tr"
  shows "region_ok (snd (newline_op tr))"
proof (cases "tr_screenLocked tr")
  case True
  have "region_ok (snd (scrollIfNeeded (extend_rows (tr\<lparr>tr_curRow := tr_curRow tr + 1, tr_curCol := 0\<rparr>))))"
    by (rule moved_region [OF assms]) simp_all
  then show ?thesis using True by (simp add: newline_op_def case_prod_beta)
next
  case False
  have "region_ok (snd (newline_op tr))"
    by (rule region_put [OF assms, of "[]"])
      (use False commit_frames [of "[tr_rows tr ! tr_curRow tr]" True tr] in \<open>simp_all add: newline_op_def case_prod_beta put_row_def\<close>)
  then show ?thesis .
qed

lemma reset_region: "region_ok (snd (resetScreen tr))" if "length (tr_regionFrames tr) \<le> maxHistoryFrames"
proof -
  have "length (tr_regionFrames (snd (commitAll tr))) \<le> maxHistoryFrames"
    using that commit_frames [of "drop_trailing (\<lambda>r. r = []) (tr_rows tr)" True tr]
    by (auto simp: commitAll_def Let_def takeFrames_def)
  then show ?thesis
    by (simp add: resetScreen_def case_prod_beta region_ok_def row_ok_def maxRegionRows_def)
qed

lemma eraseLine_region:
  assumes "region_ok tr"
  shows "region_ok (eraseLine now mode tr)" "tr_curRow (eraseLine now mode tr) = tr_curRow tr"
proof -
  let ?tr = "recordRegionFrame now tr"
  have ok: "region_ok ?tr" using assms by (rule region_record)
  then have in_rows: "tr_curRow ?tr < length (tr_rows ?tr)" by (simp add: region_ok_def)
  have "length (tr_rows ?tr ! tr_curRow ?tr) \<le> maxRowCells"
    using ok in_rows by (simp add: region_ok_def row_ok_def)
  then show "region_ok (eraseLine now mode tr)"
    unfolding eraseLine_def Let_def extend_id [OF in_rows]
    by (intro region_put [OF ok, of "if mode = 0 then take (tr_curCol ?tr) (tr_rows ?tr ! tr_curRow ?tr)
        else if mode = 1 then replicate (min (tr_curCol ?tr) (length (tr_rows ?tr ! tr_curRow ?tr))) \<lparr>tc_r = 32, tc_pen = 0\<rparr>
          @ drop (tr_curCol ?tr) (tr_rows ?tr ! tr_curRow ?tr)
        else if mode = 2 then [] else tr_rows ?tr ! tr_curRow ?tr"]) (auto simp: put_row_def)
  show "tr_curRow (eraseLine now mode tr) = tr_curRow tr"
    by (simp add: eraseLine_def Let_def put_row_def extend_rows_def)
qed

lemma eraseDisplay_region:
  assumes "region_ok tr"
  shows "region_ok (snd (eraseDisplay now mode tr))"
proof -
  let ?tr = "recordRegionFrame now tr"
  have ok: "region_ok ?tr" using assms by (rule region_record)
  note e = eraseLine_region [OF ok, of now]
  have frames: "length (tr_regionFrames ?tr) \<le> maxHistoryFrames" using ok by (simp add: region_ok_def)
  have "region_ok ((eraseLine now 0 ?tr)\<lparr>tr_rows := take (tr_curRow (eraseLine now 0 ?tr) + 1) (tr_rows (eraseLine now 0 ?tr)), tr_dirty := True\<rparr>)"
    using e(1) [of 0] by (auto simp: region_ok_def row_ok_def dest: in_set_takeD)
  moreover have "region_ok ((eraseLine now 1 ?tr)\<lparr>tr_rows := replicate (tr_curRow (eraseLine now 1 ?tr)) []
      @ drop (tr_curRow (eraseLine now 1 ?tr)) (tr_rows (eraseLine now 1 ?tr)), tr_dirty := True\<rparr>)"
    using e(1) [of 1] by (auto simp: region_ok_def row_ok_def dest: in_set_dropD)
  ultimately show ?thesis using reset_region [OF frames] by (auto simp: eraseDisplay_def Let_def case_prod_beta)
qed

lemma cursor_region:
  assumes "region_ok tr"
  shows "region_ok (cursorUp now n tr)" "region_ok (snd (cursorDown now n tr))" "region_ok (snd (cursorPos now r c tr))"
    "region_ok (restoreCursor now tr)" "region_ok (saveCursor tr)"
proof -
  let ?tr = "recordRegionFrame now tr"
  have ok: "region_ok ?tr" using assms by (rule region_record)
  show "region_ok (cursorUp now n tr)" using ok by (simp add: cursorUp_def Let_def region_ok_def row_ok_def less_imp_diff_less)
  have "region_ok (snd (scrollIfNeeded (extend_rows (?tr\<lparr>tr_screenLocked := True, tr_curRow := tr_curRow ?tr + n\<rparr>))))"
    by (rule moved_region [OF ok]) simp_all
  then show "region_ok (snd (cursorDown now n tr))" by (simp add: cursorDown_def Let_def case_prod_beta)
  have "region_ok (snd (scrollIfNeeded (extend_rows (?tr\<lparr>tr_screenLocked := True, tr_curRow := nat (r - 1), tr_curCol := nat (c - 1)\<rparr>))))"
    by (rule moved_region [OF ok]) simp_all
  then show "region_ok (snd (cursorPos now r c tr))" by (simp add: cursorPos_def Let_def case_prod_beta)
  show "region_ok (restoreCursor now tr)"
    using ok assms by (auto simp: restoreCursor_def Let_def extend_rows_def region_ok_def row_ok_def)
  show "region_ok (saveCursor tr)" using assms by (simp add: saveCursor_def region_ok_def row_ok_def)
qed

lemma region_frames: "region_ok tr \<Longrightarrow> length (tr_regionFrames tr) \<le> maxHistoryFrames"
  by (simp add: region_ok_def)

lemma private_region: "region_ok tr \<Longrightarrow> region_ok (snd (handlePrivateMode on ps tr))"
proof (induction ps arbitrary: tr)
  case (Cons p ps)
  have "region_ok (snd (private_mode on (OrDefault p 0) tr))"
    using Cons.prems reset_region [OF region_frames [OF Cons.prems]] by (auto simp: private_mode_def case_prod_beta)
  from Cons.IH [OF this] show ?case by (simp add: case_prod_beta)
qed simp

lemma applySGR_region: "region_ok tr \<Longrightarrow> region_ok (applySGR ps tr)"
  by (auto simp: applySGR_def internPen_def Let_def case_prod_beta split: option.splits)

lemma csi_region:
  assumes "region_ok tr"
  shows "region_ok (snd (handleCSI now prefix final ps tr))"
  using assms cursor_region [OF assms] eraseDisplay_region [OF assms] eraseLine_region(1) [OF assms]
    private_region [OF assms] applySGR_region [OF assms]
  unfolding handleCSI_def Let_def by (simp add: case_prod_beta)

section \<open>Which tokens return\<close>

lemma bind_Some: "Option.bind x f = Some y \<longleftrightarrow> (\<exists>z. x = Some z \<and> f z = Some y)"
  by (cases x) auto

text \<open>Below the cap a tab is done at its column; beyond it the row is split for ever.\<close>

lemma tab_returns:
  assumes "region_ok tr" "target \<le> maxRowCells"
  shows "\<exists>es tr'. tab_fill target tr = Some (es, tr') \<and> region_ok tr'"
  using assms
proof (induction "target - tr_curCol tr" arbitrary: tr rule: less_induct)
  case less
  show ?case
  proof (cases "tr_curCol tr < target")
    case True
    let ?tr = "snd (writeRune 32 tr)"
    have ok: "region_ok ?tr" and col: "tr_curCol ?tr = tr_curCol tr + 1"
      using writeRune_region [OF less.prems(1), of 32] True less.prems(2) by auto
    have "target - tr_curCol ?tr < target - tr_curCol tr" using True col by simp
    from less.hyps [OF this ok less.prems(2)]
    obtain es tr' where "tab_fill target ?tr = Some (es, tr')" "region_ok tr'" by blast
    then show ?thesis using True by (subst tab_fill.simps) auto
  next
    case False
    then show ?thesis using less.prems(1) by (subst tab_fill.simps) auto
  qed
qed

lemma tab_diverges:
  assumes "region_ok tr" "maxRowCells < target" "tr_curCol tr < target"
  shows "tab_fill target tr = None"
proof (rule ccontr)
  let ?far = "\<lambda>target tr. region_ok tr \<and> maxRowCells < target \<and> tr_curCol tr < target"
  assume "tab_fill target tr \<noteq> None"
  then obtain y where y: "tab_fill target tr = Some y" by blast
  have step: "\<not> ?far target tr"
    if ih: "\<And>target tr y. fill target tr = Some y \<Longrightarrow> \<not> ?far target tr"
      and body: "(if tr_curCol tr < target
        then Option.bind (fill target (snd (writeRune 32 tr))) (\<lambda>(es, tr'). Some (fst (writeRune 32 tr) @ es, tr'))
        else Some ([], tr)) = Some y" for fill target tr y
  proof
    assume far: "?far target tr"
    let ?tr = "snd (writeRune 32 tr)"
    have "?far target ?tr" using writeRune_region [of tr 32] far by auto
    moreover obtain z where "fill target ?tr = Some z" using body far by (auto simp: bind_Some)
    ultimately show False using ih by blast
  qed
  have "\<not> ?far target tr"
    by (rule tab_fill.raw_induct [of "\<lambda>target tr y. \<not> ?far target tr", OF step y]) assumption+
  with assms show False by blast
qed
lemma token_region:
  assumes "region_ok tr" "handleToken now t tr = Some (es, tr')"
  shows "region_ok tr'"
proof (cases t)
  case (TControl c)
  show ?thesis
  proof (cases "c = 9")
    case True
    let ?target = "(tr_curCol tr div 8 + 1) * 8"
    have "tab_fill ?target tr = Some (es, tr')" using assms(2) TControl True by (simp add: handleControl_def)
    moreover have "tr_curCol tr < ?target"
      by (metis dividend_less_div_times mult.commute zero_less_numeral add_mult_distrib mult_1 add.commute)
    ultimately show ?thesis
      using tab_returns [OF assms(1), of ?target] tab_diverges [of tr ?target] assms(1) by (cases "?target \<le> maxRowCells") auto
  next
    case False
    have "region_ok ((recordRegionFrame now tr)\<lparr>tr_curCol := 0\<rparr>)" using region_record [OF assms(1)] by simp
    moreover have "region_ok (snd (newline_op tr))" using newline_region [OF assms(1)] .
    ultimately show ?thesis
      using assms TControl False by (auto simp: handleControl_def split: if_splits)
  qed
next
  case (TCsi prefix final ps)
  then show ?thesis using csi_region [OF assms(1), of now prefix final ps] assms(2) by simp
next
  case (TEsc final)
  have "region_ok (snd (handleESC now final tr))"
    using assms(1) cursor_region(4,5) [OF assms(1)] reset_region [OF region_frames [OF assms(1)]]
    by (simp add: handleESC_def)
  then show ?thesis using TEsc assms(2) by simp
next
  case (TText rs)
  then show ?thesis using writeRunes_region [OF assms(1), of rs] assms(2) by simp
qed (use assms in auto)

lemma tokens_region:
  "region_ok tr \<Longrightarrow> handleTokens ts tr = Some (es, tr') \<Longrightarrow> region_ok tr'"
  by (induction ts arbitrary: tr es) (force simp: bind_Some dest: token_region)+

lemma new_region: "region_ok NewTerminalRenderer"
  by (simp add: NewTerminalRenderer_def region_ok_def row_ok_def maxRegionRows_def)

text \<open>C29. Whatever a task prints, the live region stays in its bounds. After any tokens, cursor movements
  to anywhere included, the cursor's row is in the region (so that no row is read that does not exist; its
  column is not bounded, and rows are padded up to it only when a character is written), the
  region has at most 64 rows of at most 65,536 cells, and the history of a progress bar at most 40
  frames.\<close>

theorem region_bounded:
  assumes "handleTokens ts NewTerminalRenderer = Some (es, tr)"
  shows "tr_curRow tr < length (tr_rows tr) \<and> length (tr_rows tr) \<le> maxRegionRows
    \<and> (\<forall>row\<in>set (tr_rows tr). length row \<le> maxRowCells) \<and> length (tr_regionFrames tr) \<le> maxHistoryFrames"
  using tokens_region [OF new_region assms] by (simp add: region_ok_def row_ok_def)

text \<open>C30. One token never returns: a tab at or beyond column 65,536. Its loop writes blanks up to the next
  stop, but a row is split at 65,537 cells and the column starts over, so that the stop is never
  reached: it commits empty lines for ever. Every other token returns, whatever was printed before.\<close>

theorem only_far_tab_hangs:
  assumes "handleTokens ts NewTerminalRenderer = Some (es, tr)"
  shows "handleToken now t tr = None \<longleftrightarrow> t = TControl 9 \<and> maxRowCells \<le> tr_curCol tr"
proof -
  have ok: "region_ok tr" using tokens_region [OF new_region assms] .
  have tab: "tab_fill ((tr_curCol tr div 8 + 1) * 8) tr = None \<longleftrightarrow> maxRowCells \<le> tr_curCol tr"
  proof (cases "maxRowCells \<le> tr_curCol tr")
    case True
    then have "maxRowCells < (tr_curCol tr div 8 + 1) * 8" "tr_curCol tr < (tr_curCol tr div 8 + 1) * 8"
      using div_mult_mod_eq [of "tr_curCol tr" 8] by (simp_all add: maxRowCells_def)
    then show ?thesis using tab_diverges [of tr] ok True by blast
  next
    case False
    then have "(tr_curCol tr div 8 + 1) * 8 \<le> maxRowCells" by (simp add: maxRowCells_def)
    then show ?thesis using tab_returns [OF ok] False by force
  qed
  show ?thesis using tab by (cases t) (auto simp: handleControl_def)
qed

lemma scroll_few: "length (tr_rows tr) \<le> maxRegionRows \<Longrightarrow> scrollIfNeeded tr = ([], tr)"
  by (subst scrollIfNeeded.simps) simp

theorem region_bounded_witness:
  "\<exists>es tr. handleTokens [(0, TCsi CHR 0x00 CHR ''H'' [Some 3, Some 9]), (0, TText (ascii ''ok''))] NewTerminalRenderer = Some (es, tr)
     \<and> tr_curRow tr = 2 \<and> tr_curRow tr < length (tr_rows tr) \<and> length (tr_rows tr) \<le> maxRegionRows
     \<and> (\<forall>row\<in>set (tr_rows tr). length row \<le> maxRowCells) \<and> length (tr_regionFrames tr) \<le> maxHistoryFrames"
proof -
  let ?ts = "[(0, TCsi CHR 0x00 CHR ''H'' [Some 3, Some 9]), (0, TText (ascii ''ok''))]"
  obtain es tr where run: "handleTokens ?ts NewTerminalRenderer = Some (es, tr)" "tr_curRow tr = 2"
    by (simp add: handleCSI_def tr_param_def parser_Param_def OrDefault_def cursorPos_def recordRegionFrame_def snapshotRows_def
        renderRow_def trim_row_def drop_trailing_def NewTerminalRenderer_def extend_rows_def scroll_few
        maxRegionRows_def ascii_def writeRune_def put_row_def maxRowCells_def Let_def numeral_2_eq_2 numeral_3_eq_3)
  show ?thesis using run region_bounded [OF run(1)] by blast
qed

theorem only_far_tab_hangs_witness:
  "\<exists>es tr. handleTokens [(0, TCsi CHR 0x00 CHR ''C'' [Some 65536])] NewTerminalRenderer = Some (es, tr)
     \<and> handleToken 0 (TControl 9) tr = None \<and> handleToken 0 (TControl 10) tr \<noteq> None"
proof -
  obtain es tr where run: "handleTokens [(0, TCsi CHR 0x00 CHR ''C'' [Some 65536])] NewTerminalRenderer = Some (es, tr)"
      "tr_curCol tr = 65536"
    by (simp add: handleCSI_def tr_param_def parser_Param_def OrDefault_def NewTerminalRenderer_def Let_def)
  show ?thesis
    using run only_far_tab_hangs [OF run(1), of 0 "TControl 9"] only_far_tab_hangs [OF run(1), of 0 "TControl 10"]
    by (auto simp: maxRowCells_def)
qed

end
