(* ===== verification/Terminal_Plain.thy ===== *)
theory Terminal_Plain
  imports Terminal
begin

text \<open>
  What the renderer of \<open>Terminal\<close> makes of plain text (\<open>executor/terminal_renderer.go\<close>): a task that
  prints printable characters and newlines gets its lines in the log, less the trailing blanks and
  cut when they are very long. The reference is a splitting of the text that knows no rows and no
  cursor.
\<close>

section \<open>Plain output\<close>

text \<open>What the log should hold of plain text, said without a terminal: its lines, each cut into blocks
  of 65,537 code points, the trailing blanks of a block gone, a block after the first marked as a
  continuation. The text after the last newline is a line too, unless it is empty.\<close>

definition trim_runes :: "rune list \<Rightarrow> rune list" where
  "trim_runes rs = rev (dropWhile (\<lambda>r. r = 32) (rev rs))"

fun rune_lines :: "rune list \<Rightarrow> rune list list" where
  "rune_lines [] = [[]]"
| "rune_lines (r # rs) =
     (if r = 10 then [] # rune_lines rs
      else case rune_lines rs of [] \<Rightarrow> [[r]] | l # ls \<Rightarrow> (r # l) # ls)"

function line_blocks :: "bool \<Rightarrow> rune list \<Rightarrow> (rune list \<times> bool) list" where
  "line_blocks cont l =
     (if length l \<le> maxRowCells then [(l, cont)]
      else (take (Suc maxRowCells) l, cont) # line_blocks True (drop (Suc maxRowCells) l))"
  by pat_completeness auto

termination line_blocks
  by (relation "measure (\<lambda>(c, l). length l)") auto

declare line_blocks.simps [simp del]

definition last_blocks :: "bool \<Rightarrow> rune list \<Rightarrow> (rune list \<times> bool) list" where
  "last_blocks cont l = filter (\<lambda>(b, c). b \<noteq> []) (line_blocks cont l)"

fun log_of :: "bool \<Rightarrow> rune list list \<Rightarrow> (rune list \<times> bool) list" where
  "log_of cont [] = []"
| "log_of cont [l] = last_blocks cont l"
| "log_of cont (l # ls) = line_blocks cont l @ log_of False ls"

definition plain_log :: "rune list \<Rightarrow> (rune list \<times> bool) list" where
  "plain_log text' = map (\<lambda>(b, c). (trim_runes b, c)) (log_of False (rune_lines text'))"

text \<open>A token of plain text: printable code points, or a newline.\<close>

fun printed :: "token \<Rightarrow> rune list" where
  "printed (TText rs) = rs"
| "printed (TControl c) = (if c = 10 then [10] else [])"
| "printed _ = []"

fun plain_token :: "token \<Rightarrow> bool" where
  "plain_token (TText rs) = list_all (\<lambda>r. r \<noteq> 0 \<and> r \<noteq> 10) rs"
| "plain_token (TControl c) = (c = 10)"
| "plain_token _ = False"

fun committed :: "emission \<Rightarrow> (rune list \<times> bool) list" where
  "committed (Commit ls frames) = ls"
| "committed (Provisional epoch rows) = []"


section \<open>The renderer on plain text\<close>

text \<open>The state plain text keeps: one row, the cursor at its end, nothing locked, no pen, no frame.\<close>

definition plain_state :: "rune list \<Rightarrow> bool \<Rightarrow> terminal \<Rightarrow> bool" where
  "plain_state cur cont tr \<longleftrightarrow>
     tr_rows tr = [map (\<lambda>r. \<lparr>tc_r = r, tc_pen = 0\<rparr>) cur] \<and> tr_curRow tr = 0 \<and> tr_curCol tr = length cur
     \<and> length cur \<le> maxRowCells \<and> \<not> tr_screenLocked tr \<and> tr_curPen tr = 0 \<and> tr_regionFrames tr = []
     \<and> tr_pendingContinued tr = cont \<and> 0 \<notin> set cur"

lemma new_plain: "plain_state [] False NewTerminalRenderer"
  by (simp add: plain_state_def NewTerminalRenderer_def)

lemma dropWhile_blank:
  "0 \<notin> set rs \<Longrightarrow> dropWhile blank (map (\<lambda>r. \<lparr>tc_r = r, tc_pen = 0\<rparr>) rs)
     = map (\<lambda>r. \<lparr>tc_r = r, tc_pen = 0\<rparr>) (dropWhile (\<lambda>r. r = 32) rs)"
  by (induction rs) (auto simp: blank_def)

lemma render_plain_cells: "0 \<notin> set rs \<Longrightarrow> render_cells tr 0 (map (\<lambda>r. \<lparr>tc_r = r, tc_pen = 0\<rparr>) rs) = rs"
  by (induction rs) auto

lemma render_plain:
  assumes "0 \<notin> set rs"
  shows "renderRow tr (map (\<lambda>r. \<lparr>tc_r = r, tc_pen = 0\<rparr>) rs) = trim_runes rs"
proof -
  have "0 \<notin> set (rev (dropWhile (\<lambda>r. r = 32) (rev rs)))"
    using assms by (auto dest: set_dropWhileD)
  from render_plain_cells [OF this] show ?thesis
    using assms dropWhile_blank [of "rev rs"]
    by (simp add: renderRow_def trim_row_def trim_runes_def rev_map [symmetric])
qed

text \<open>What is committed while text is read in such a state.\<close>

fun log_from :: "rune list \<Rightarrow> bool \<Rightarrow> rune list \<Rightarrow> (rune list \<times> bool) list" where
  "log_from cur cont [] = (if cur = [] then [] else [(cur, cont)])"
| "log_from cur cont (r # rs) =
     (if r = 10 then (cur, cont) # log_from [] False rs
      else if length cur = maxRowCells then (cur @ [r], cont) # log_from [] True rs
      else log_from (cur @ [r]) cont rs)"

lemma rune_lines_Cons: "\<exists>l ls. rune_lines rs = l # ls"
  by (cases rs) (auto split: list.splits)

lemma line_blocks_short: "length l \<le> maxRowCells \<Longrightarrow> line_blocks cont l = [(l, cont)]"
  by (simp add: line_blocks.simps)

lemma line_blocks_full:
  "length cur = maxRowCells \<Longrightarrow> line_blocks cont (cur @ r # l) = (cur @ [r], cont) # line_blocks True l"
  by (subst line_blocks.simps) simp

lemma log_of_split:
  assumes "length cur \<le> maxRowCells"
  shows "log_from cur cont rs = log_of cont ((cur @ hd (rune_lines rs)) # tl (rune_lines rs))"
  using assms
proof (induction cur cont rs rule: log_from.induct)
  case (1 cur cont)
  then show ?case by (simp add: last_blocks_def line_blocks_short)
next
  case (2 cur cont r rs)
  obtain l ls where ls: "rune_lines rs = l # ls" using rune_lines_Cons by blast
  consider "r = 10" | "r \<noteq> 10" "length cur = maxRowCells" | "r \<noteq> 10" "length cur < maxRowCells"
    using "2.prems" by linarith
  then show ?case
  proof cases
    case 1
    then show ?thesis using "2.IH"(1) ls "2.prems" by (simp add: line_blocks_short)
  next
    case 2
    then show ?thesis using "2.IH"(2) ls
      by (cases ls) (simp_all add: line_blocks_full last_blocks_def)
  next
    case 3
    then show ?thesis using "2.IH"(3) ls by simp
  qed
qed

lemma plain_log_from: "plain_log text' = map (\<lambda>(b, c). (trim_runes b, c)) (log_from [] False text')"
  using log_of_split [of "[]" False text'] rune_lines_Cons [of text'] by (auto simp: plain_log_def)

section \<open>A step of the renderer\<close>

text \<open>A state that has yet to commit \<open>out\<close> of the text.\<close>

lemma plain_rune:
  assumes st: "plain_state cur cont tr" and r: "r \<noteq> 0"
  shows "concat (map committed (fst (writeRune r tr))) = (if length cur = maxRowCells then [(trim_runes (cur @ [r]), cont)] else [])
    \<and> plain_state (if length cur = maxRowCells then [] else cur @ [r]) (if length cur = maxRowCells then True else cont)
        (snd (writeRune r tr))"
proof -
  let ?cell = "\<lambda>r. \<lparr>tc_r = r, tc_pen = 0 :: nat\<rparr>"
  have row: "map ?cell cur @ [?cell r] = map ?cell (cur @ [r])" by simp
  have no0: "0 \<notin> set (cur @ [r])" using st r by (simp add: plain_state_def)
  show ?thesis
    using st r render_plain [OF no0]
    by (auto simp: plain_state_def writeRune_def extend_rows_def put_row_def commitRows_def Let_def row simp del: map_append)
qed

lemma plain_newline:
  assumes st: "plain_state cur cont tr"
  shows "concat (map committed (fst (newline_op tr))) = [(trim_runes cur, cont)] \<and> plain_state [] False (snd (newline_op tr))"
  using st render_plain [of cur]
  by (auto simp: plain_state_def newline_op_def put_row_def commitRows_def takeFrames_def drop_trailing_def Let_def)

definition logged :: "rune list \<Rightarrow> bool \<Rightarrow> rune list \<Rightarrow> (rune list \<times> bool) list" where
  "logged cur cont rs = map (\<lambda>(b, c). (trim_runes b, c)) (log_from cur cont rs)"

lemma plain_runes:
  "plain_state cur cont tr \<Longrightarrow> list_all (\<lambda>r. r \<noteq> 0 \<and> r \<noteq> 10) rs \<Longrightarrow>
   \<exists>cur' cont'. plain_state cur' cont' (snd (writeRunes rs tr))
     \<and> (\<forall>more. logged cur cont (rs @ more) = concat (map committed (fst (writeRunes rs tr))) @ logged cur' cont' more)"
proof (induction rs arbitrary: cur cont tr)
  case Nil
  then show ?case by auto
next
  case (Cons r rs)
  let ?tr = "snd (writeRune r tr)"
  note one = plain_rune [OF Cons.prems(1), of r]
  obtain cur' cont' where ih: "plain_state cur' cont' (snd (writeRunes rs ?tr))"
      "\<And>more. logged (if length cur = maxRowCells then [] else cur @ [r]) (if length cur = maxRowCells then True else cont) (rs @ more)
        = concat (map committed (fst (writeRunes rs ?tr))) @ logged cur' cont' more"
    using Cons.IH [of "if length cur = maxRowCells then [] else cur @ [r]" "if length cur = maxRowCells then True else cont" ?tr]
      one Cons.prems(2) unfolding list.pred_inject by blast
  have "logged cur cont ((r # rs) @ more) = concat (map committed (fst (writeRunes (r # rs) tr))) @ logged cur' cont' more" for more
    using ih(2) [of more] one Cons.prems(2) by (auto simp: logged_def case_prod_beta split: if_splits)
  then show ?case using ih(1) by (auto simp: case_prod_beta)
qed

lemma plain_tokens:
  "plain_state cur cont tr \<Longrightarrow> list_all (\<lambda>(now, t). plain_token t) ts \<Longrightarrow>
   \<exists>es tr' cur' cont'. handleTokens ts tr = Some (es, tr') \<and> plain_state cur' cont' tr'
     \<and> (\<forall>more. logged cur cont (concat (map (printed \<circ> snd) ts) @ more) = concat (map committed es) @ logged cur' cont' more)"
proof (induction ts arbitrary: cur cont tr)
  case Nil
  then show ?case by auto
next
  case (Cons nt ts)
  obtain now t where nt: "nt = (now, t)" by fastforce
  have "\<exists>es tr' cur' cont'. handleToken now t tr = Some (es, tr') \<and> plain_state cur' cont' tr'
     \<and> (\<forall>more. logged cur cont (printed t @ more) = concat (map committed es) @ logged cur' cont' more)"
  proof (cases t)
    case (TText rs)
    then show ?thesis
      using plain_runes [OF Cons.prems(1), of rs] Cons.prems(2) nt by (auto simp: prod_eq_iff)
  next
    case (TControl c)
    then have c: "c = 10" using Cons.prems(2) nt by simp
    have "logged cur cont (10 # more) = concat (map committed (fst (newline_op tr))) @ logged [] False more" for more
      using plain_newline [OF Cons.prems(1)] by (simp add: logged_def)
    then show ?thesis
      using plain_newline [OF Cons.prems(1)] TControl c by (auto simp: handleControl_def prod_eq_iff)
  qed (use Cons.prems(2) nt in auto)
  then obtain es tr' cur' cont' where one: "handleToken now t tr = Some (es, tr')" "plain_state cur' cont' tr'"
      "\<And>more. logged cur cont (printed t @ more) = concat (map committed es) @ logged cur' cont' more"
    by blast
  have ts: "list_all (\<lambda>(now, t). plain_token t) ts" using Cons.prems(2) by simp
  obtain es' tr'' cur'' cont'' where rest: "handleTokens ts tr' = Some (es', tr'')" "plain_state cur'' cont'' tr''"
      "\<And>more. logged cur' cont' (concat (map (printed \<circ> snd) ts) @ more) = concat (map committed es') @ logged cur'' cont'' more"
    using Cons.IH [OF one(2) ts] by blast
  have "handleTokens (nt # ts) tr = Some (es @ es', tr'')" using one(1) rest(1) nt by (simp add: bind_Some)
  moreover have "logged cur cont (concat (map (printed \<circ> snd) (nt # ts)) @ more) = concat (map committed (es @ es')) @ logged cur'' cont'' more" for more
    using one(3) rest(3) nt by simp
  ultimately show ?case using rest(2) by blast
qed

lemma plain_end:
  assumes st: "plain_state cur cont tr"
  shows "concat (map committed (fst (commitAll tr))) = logged cur cont []"
  using st render_plain [of cur]
  by (auto simp: plain_state_def commitAll_def commitRows_def takeFrames_def drop_trailing_def logged_def Let_def)

text \<open>C31. Plain text reaches the log as its lines without their trailing blanks. However the output is cut into tokens and whenever they
  come, the lines the renderer commits, those of the final commit included, are the lines of the text in
  order: cut into blocks of 65,537 code points, the later blocks of a line marked as its continuation,
  the trailing blanks of each block gone, and the text after the last newline only if it is not
  empty. In particular printing plain text always returns.\<close>

theorem plain_text_exact:
  assumes "list_all (\<lambda>(now, t). plain_token t) ts"
  shows "\<exists>es tr. handleTokens ts NewTerminalRenderer = Some (es, tr)
    \<and> concat (map committed (es @ fst (commitAll tr))) = plain_log (concat (map (printed \<circ> snd) ts))"
proof -
  obtain es tr cur cont where run: "handleTokens ts NewTerminalRenderer = Some (es, tr)" "plain_state cur cont tr"
      "\<And>more. logged [] False (concat (map (printed \<circ> snd) ts) @ more) = concat (map committed es) @ logged cur cont more"
    using plain_tokens [OF new_plain assms] by blast
  have "plain_log (concat (map (printed \<circ> snd) ts)) = concat (map committed es) @ logged cur cont []"
    using run(3) [of "[]"] by (simp add: plain_log_from logged_def)
  then show ?thesis using run(1) plain_end [OF run(2)] by simp
qed

theorem plain_text_exact_witness:
  "\<exists>es tr. handleTokens [(0, TText (ascii ''one  '')), (5, TControl 10), (7, TText (ascii ''tw'')), (7, TText (ascii ''o''))]
       NewTerminalRenderer = Some (es, tr)
     \<and> concat (map committed (es @ fst (commitAll tr))) = [(ascii ''one'', False), (ascii ''two'', False)]"
  using plain_text_exact [of "[(0, TText (ascii ''one  '')), (5, TControl 10), (7, TText (ascii ''tw'')), (7, TText (ascii ''o''))]"]
  by (simp add: ascii_def plain_log_def line_blocks_short last_blocks_def maxRowCells_def trim_runes_def)

end
