(* ===== verification/Login_Throttle.thy ===== *)
theory Login_Throttle
  imports Prelude
begin

text \<open>
  The login throttle (\<open>server/login_throttle.go\<close>): per client IP it counts wrong passwords, asks for a
  wait that grows with them and lets one password check run at a time. Requests run concurrently: a
  step is what a request does under the mutex of the throttle, or the taking of the lock that is the
  turn of its IP. States are objects with an address, because a request keeps the pointer it got
  while the map may change.
\<close>

section \<open>State\<close>

definition freeLoginFailures :: nat where [model_defs]: "freeLoginFailures = 5"
definition maxLoginDelay :: duration where [time_defs]: "maxLoginDelay = 90 * second"
definition loginFailureMemory :: duration where [time_defs]: "loginFailureMemory = 15 * minute"
definition throttleSweepAt :: nat where [model_defs]: "throttleSweepAt = 1024"

text \<open>The zero value of a \<open>time.Time\<close>.\<close>

definition zero_time :: instant where [time_defs]: "zero_time = - 62135596800 * second"

record loginState =
  ls_turn :: "nat option"
  ls_refs :: int
  ls_failures :: nat
  ls_lastFail :: instant

datatype loginOutcome = LoginSucceeded | LoginWrongPassword | LoginUnchecked

text \<open>A request is queued for the turn, holds it, or was let through to check a password. It is listed
  with its IP and the address of the state it got.\<close>

datatype loginStage = Queued | Holding | Checking

record loginThrottle =
  lt_clock :: instant
  lt_ips :: "(string \<times> nat) list"
  lt_states :: "loginState list"
  lt_requests :: "(nat \<times> string \<times> nat) list"
  lt_stage :: "nat \<Rightarrow> loginStage"

definition newLoginThrottle :: "instant \<Rightarrow> loginThrottle" where
  "newLoginThrottle now = \<lparr>lt_clock = now, lt_ips = [], lt_states = [], lt_requests = [], lt_stage = (\<lambda>r. Queued)\<rparr>"

definition loginDelay :: "nat \<Rightarrow> duration" where
  "loginDelay failures =
     (if failures < freeLoginFailures then 0
      else if 6 \<le> failures - freeLoginFailures then maxLoginDelay
      else min (2 * second * 2 ^ (failures - freeLoginFailures)) maxLoginDelay)"

definition on_state :: "nat \<Rightarrow> (loginState \<Rightarrow> loginState) \<Rightarrow> loginThrottle \<Rightarrow> loginThrottle" where
  "on_state a f t = t\<lparr>lt_states := (lt_states t)[a := f (lt_states t ! a)]\<rparr>"

section \<open>Operations\<close>

definition login_sweepLocked :: "loginThrottle \<Rightarrow> loginThrottle" where
  "login_sweepLocked t =
     t\<lparr>lt_ips := filter (\<lambda>(ip, a). \<not> (ls_refs (lt_states t ! a) = 0
                   \<and> loginFailureMemory < time_sub (lt_clock t) (ls_lastFail (lt_states t ! a)))) (lt_ips t)\<rparr>"

definition login_releaseLocked :: "string \<Rightarrow> nat \<Rightarrow> loginThrottle \<Rightarrow> loginThrottle" where
  "login_releaseLocked ip a t =
     (let t = on_state a (\<lambda>st. st\<lparr>ls_turn := None, ls_refs := ls_refs st - 1\<rparr>) t in
      if ls_refs (lt_states t ! a) = 0 \<and> ls_failures (lt_states t ! a) = 0
      then t\<lparr>lt_ips := filter (\<lambda>(i, b). i \<noteq> ip) (lt_ips t)\<rparr> else t)"

text \<open>\<open>acquire\<close> up to the lock of the turn.\<close>

definition login_enter :: "nat \<Rightarrow> string \<Rightarrow> loginThrottle \<Rightarrow> loginThrottle" where
  "login_enter r ip t =
     (let t = (case map_of (lt_ips t) ip of
                 Some a \<Rightarrow> t
               | None \<Rightarrow>
                   let t = (if throttleSweepAt \<le> length (lt_ips t) then login_sweepLocked t else t) in
                   t\<lparr>lt_states := lt_states t @ [\<lparr>ls_turn = None, ls_refs = 0, ls_failures = 0, ls_lastFail = zero_time\<rparr>],
                     lt_ips := (ip, length (lt_states t)) # lt_ips t\<rparr>);
          a = the (map_of (lt_ips t) ip)
      in (on_state a (\<lambda>st. st\<lparr>ls_refs := ls_refs st + 1\<rparr>) t)
           \<lparr>lt_requests := (r, ip, a) # lt_requests t, lt_stage := (lt_stage t)(r := Queued)\<rparr>)"

text \<open>\<open>acquire\<close> once it has the turn: the wait it asks for, or none when the password may be checked.\<close>

definition login_decide :: "nat \<Rightarrow> string \<Rightarrow> nat \<Rightarrow> loginThrottle \<Rightarrow> duration option \<times> loginThrottle" where
  "login_decide r ip a t =
     (let t = (if 0 < ls_failures (lt_states t ! a)
                  \<and> loginFailureMemory < time_sub (lt_clock t) (ls_lastFail (lt_states t ! a))
               then on_state a (\<lambda>st. st\<lparr>ls_failures := 0\<rparr>) t else t);
          wait = time_sub (ls_lastFail (lt_states t ! a) + loginDelay (ls_failures (lt_states t ! a))) (lt_clock t)
      in if 0 < wait
         then (Some wait, login_releaseLocked ip a (t\<lparr>lt_requests := remove1 (r, ip, a) (lt_requests t)\<rparr>))
         else (None, t\<lparr>lt_stage := (lt_stage t)(r := Checking)\<rparr>))"

text \<open>The function \<open>acquire\<close> returns, called with the outcome of the check.\<close>

definition login_done :: "loginOutcome \<Rightarrow> nat \<Rightarrow> string \<Rightarrow> nat \<Rightarrow> loginThrottle \<Rightarrow> loginThrottle" where
  "login_done outcome r ip a t =
     (let t = (case outcome of
                 LoginSucceeded \<Rightarrow> on_state a (\<lambda>st. st\<lparr>ls_failures := 0\<rparr>) t
               | LoginWrongPassword \<Rightarrow>
                   on_state a (\<lambda>st. st\<lparr>ls_failures := ls_failures st + 1, ls_lastFail := lt_clock t\<rparr>) t
               | LoginUnchecked \<Rightarrow> t)
      in login_releaseLocked ip a (t\<lparr>lt_requests := remove1 (r, ip, a) (lt_requests t)\<rparr>))"

section \<open>Runs\<close>

datatype loginStep = Enter nat string | LockTurn nat | Decide nat | Done nat loginOutcome | Elapse duration

text \<open>What a run logs: the checked passwords with their outcome.\<close>

type_synonym loginLog = "(string \<times> loginOutcome) list"

fun login_step :: "loginStep \<Rightarrow> loginThrottle \<Rightarrow> (loginLog \<times> loginThrottle) option" where
  "login_step (Enter r ip) t =
     (if map_of (lt_requests t) r = None then Some ([], login_enter r ip t) else None)"
| "login_step (LockTurn r) t =
     (case map_of (lt_requests t) r of
        Some (ip, a) \<Rightarrow>
          if lt_stage t r = Queued \<and> ls_turn (lt_states t ! a) = None
          then Some ([], (on_state a (\<lambda>st. st\<lparr>ls_turn := Some r\<rparr>) t)\<lparr>lt_stage := (lt_stage t)(r := Holding)\<rparr>) else None
      | None \<Rightarrow> None)"
| "login_step (Decide r) t =
     (case map_of (lt_requests t) r of
        Some (ip, a) \<Rightarrow> if lt_stage t r = Holding then Some ([], snd (login_decide r ip a t)) else None
      | None \<Rightarrow> None)"
| "login_step (Done r outcome) t =
     (case map_of (lt_requests t) r of
        Some (ip, a) \<Rightarrow> if lt_stage t r = Checking then Some ([(ip, outcome)], login_done outcome r ip a t) else None
      | None \<Rightarrow> None)"
| "login_step (Elapse d) t = (if 0 \<le> d then Some ([], t\<lparr>lt_clock := lt_clock t + d\<rparr>) else None)"

fun login_run :: "loginStep list \<Rightarrow> loginThrottle \<Rightarrow> (loginLog \<times> loginThrottle) option" where
  "login_run [] t = Some ([], t)"
| "login_run (x # xs) t =
     Option.bind (login_step x t) (\<lambda>(l, t'). map_option (\<lambda>(l', t''). (l @ l', t'')) (login_run xs t'))"

definition wrong_guesses :: "string \<Rightarrow> loginLog \<Rightarrow> nat" where
  "wrong_guesses ip l = length (filter (\<lambda>e. e = (ip, LoginWrongPassword)) l)"

section \<open>The invariant\<close>

text \<open>The states are counted by the requests on them, a request beyond the queue holds the turn of its
  state, its state stays the one of its IP, and a password is checked only when the wait is over.\<close>

definition on_it :: "loginThrottle \<Rightarrow> nat \<Rightarrow> nat" where
  "on_it t a = length (filter (\<lambda>(r, ip, b). b = a) (lt_requests t))"

definition requests_ok :: "loginThrottle \<Rightarrow> bool" where
  "requests_ok t \<longleftrightarrow>
     distinct (map fst (lt_requests t)) \<and> distinct (map fst (lt_ips t)) \<and> inj_on snd (set (lt_ips t))
     \<and> (\<forall>(ip, a)\<in>set (lt_ips t). a < length (lt_states t))
     \<and> (\<forall>(r, ip, a)\<in>set (lt_requests t). (ip, a) \<in> set (lt_ips t))
     \<and> (\<forall>a<length (lt_states t). ls_refs (lt_states t ! a) = int (on_it t a))"

definition turns_ok :: "loginThrottle \<Rightarrow> bool" where
  "turns_ok t \<longleftrightarrow>
     (\<forall>(r, ip, a)\<in>set (lt_requests t). lt_stage t r \<noteq> Queued \<longrightarrow> ls_turn (lt_states t ! a) = Some r)
     \<and> (\<forall>(r, ip, a)\<in>set (lt_requests t). lt_stage t r = Checking \<longrightarrow>
          ls_lastFail (lt_states t ! a) + loginDelay (ls_failures (lt_states t ! a)) \<le> lt_clock t)"

lemma turns_okI:
  assumes "\<And>r ip a. (r, ip, a) \<in> set (lt_requests t) \<Longrightarrow> lt_stage t r \<noteq> Queued \<Longrightarrow>
    ls_turn (lt_states t ! a) = Some r
    \<and> (lt_stage t r = Checking \<longrightarrow> ls_lastFail (lt_states t ! a) + loginDelay (ls_failures (lt_states t ! a)) \<le> lt_clock t)"
  shows "turns_ok t"
  using assms unfolding turns_ok_def by fastforce

lemma turns_okD:
  assumes "turns_ok t" "(r, ip, a) \<in> set (lt_requests t)"
  shows "lt_stage t r \<noteq> Queued \<Longrightarrow> ls_turn (lt_states t ! a) = Some r"
    "lt_stage t r = Checking \<Longrightarrow> ls_lastFail (lt_states t ! a) + loginDelay (ls_failures (lt_states t ! a)) \<le> lt_clock t"
  using assms unfolding turns_ok_def by fastforce+

definition throttle_inv :: "loginThrottle \<Rightarrow> bool" where
  "throttle_inv t \<longleftrightarrow> requests_ok t \<and> turns_ok t"

lemma new_throttle: "throttle_inv (newLoginThrottle now)"
  by (simp add: throttle_inv_def requests_ok_def turns_ok_def newLoginThrottle_def)

lemma throttle_request:
  assumes "throttle_inv t" "map_of (lt_requests t) r = Some (ip, a)"
  shows "(r, ip, a) \<in> set (lt_requests t)" "(ip, a) \<in> set (lt_ips t)" "map_of (lt_ips t) ip = Some a" "a < length (lt_states t)"
proof -
  show r: "(r, ip, a) \<in> set (lt_requests t)" using assms(2) by (rule map_of_SomeD)
  then show i: "(ip, a) \<in> set (lt_ips t)" using assms(1) by (auto simp: throttle_inv_def requests_ok_def)
  then show "map_of (lt_ips t) ip = Some a" using assms(1) by (simp add: throttle_inv_def requests_ok_def)
  show "a < length (lt_states t)" using assms(1) i by (auto simp: throttle_inv_def requests_ok_def)
qed

lemma on_state_simps [simp]:
  "lt_clock (on_state a f t) = lt_clock t" "lt_ips (on_state a f t) = lt_ips t"
  "lt_requests (on_state a f t) = lt_requests t" "lt_stage (on_state a f t) = lt_stage t"
  "length (lt_states (on_state a f t)) = length (lt_states t)"
  "a < length (lt_states t) \<Longrightarrow> lt_states (on_state a f t) ! a = f (lt_states t ! a)"
  "b \<noteq> a \<Longrightarrow> lt_states (on_state a f t) ! b = lt_states t ! b"
  by (simp_all add: on_state_def)

lemma release_simps [simp]:
  "lt_clock (login_releaseLocked ip a t) = lt_clock t" "lt_requests (login_releaseLocked ip a t) = lt_requests t"
  "lt_stage (login_releaseLocked ip a t) = lt_stage t"
  "lt_states (login_releaseLocked ip a t) = (lt_states t)[a := (lt_states t ! a)\<lparr>ls_turn := None, ls_refs := ls_refs (lt_states t ! a) - 1\<rparr>]"
  by (simp_all add: login_releaseLocked_def Let_def on_state_def)

lemma on_it_remove:
  assumes "(r, ip, a) \<in> set (lt_requests t)"
  shows "length (filter (\<lambda>(r, ip, b). b = c) (remove1 (r, ip, a) (lt_requests t))) = on_it t c - (if c = a then 1 else 0)"
    "0 < on_it t a"
proof -
  have "(r, ip, a) \<in> set (filter (\<lambda>(r, ip, b). b = a) (lt_requests t))" using assms by simp
  then show "0 < on_it t a" unfolding on_it_def by (rule length_pos_if_in_set)
  show "length (filter (\<lambda>(r, ip, b). b = c) (remove1 (r, ip, a) (lt_requests t))) = on_it t c - (if c = a then 1 else 0)"
    using assms by (auto simp: on_it_def filter_remove1 length_remove1 remove1_idem)
qed

text \<open>A request that ends: whatever its end makes of the counted failures.\<close>

lemma release_inv:
  assumes inv: "throttle_inv t" and r: "(r, ip, a) \<in> set (lt_requests t)" "lt_stage t r \<noteq> Queued"
    and f: "ls_refs (f (lt_states t ! a)) = ls_refs (lt_states t ! a)"
  shows "throttle_inv (login_releaseLocked ip a ((on_state a f t)\<lparr>lt_requests := remove1 (r, ip, a) (lt_requests t)\<rparr>))"
    (is "throttle_inv ?t")
proof -
  have ips: "(ip, a) \<in> set (lt_ips t)" and a: "a < length (lt_states t)"
    and dist: "distinct (map fst (lt_requests t))" "distinct (map fst (lt_ips t))" "inj_on snd (set (lt_ips t))"
    and reqs: "\<And>r ip a. (r, ip, a) \<in> set (lt_requests t) \<Longrightarrow> (ip, a) \<in> set (lt_ips t)"
    and refs: "\<And>a. a < length (lt_states t) \<Longrightarrow> ls_refs (lt_states t ! a) = int (on_it t a)"
    and turns: "\<And>r ip a. (r, ip, a) \<in> set (lt_requests t) \<Longrightarrow> lt_stage t r \<noteq> Queued \<Longrightarrow> ls_turn (lt_states t ! a) = Some r"
    and waits: "\<And>r ip a. (r, ip, a) \<in> set (lt_requests t) \<Longrightarrow> lt_stage t r = Checking \<Longrightarrow>
      ls_lastFail (lt_states t ! a) + loginDelay (ls_failures (lt_states t ! a)) \<le> lt_clock t"
    and range: "\<And>ip a. (ip, a) \<in> set (lt_ips t) \<Longrightarrow> a < length (lt_states t)"
    using inv r by (auto simp: throttle_inv_def requests_ok_def turns_ok_def)
  have left: "set (lt_requests ?t) = set (lt_requests t) - {(r, ip, a)}" "distinct (map fst (lt_requests ?t))"
    using dist(1) by (simp_all add: distinct_map distinct_remove1 inj_on_diff)
  have counts: "on_it ?t b = on_it t b - (if b = a then 1 else 0)" for b
    using on_it_remove(1) [OF r(1)] by (simp add: on_it_def)
  have refs': "ls_refs (lt_states ?t ! b) = int (on_it ?t b)" if "b < length (lt_states t)" for b
    using refs [OF that] f a on_it_remove(2) [OF r(1)] counts [of b] by (cases "b = a") (auto simp: on_state_def)
  have others: "b \<noteq> a" if "(r', i, b) \<in> set (lt_requests ?t)" "lt_stage t r' \<noteq> Queued" for r' i b
  proof
    assume "b = a"
    then have "r' = r" using turns [of r' i b] turns [OF r] that left(1) by auto
    moreover have "(r', i, b) \<in> set (lt_requests t)" using that(1) left(1) by blast
    ultimately have "(i, b) = (ip, a)" using eq_key_imp_eq_value [OF dist(1)] r(1) by blast
    then show False using that(1) left(1) \<open>r' = r\<close> by simp
  qed
  have kept: "(i, b) \<in> set (lt_ips ?t)" if left': "(r', i, b) \<in> set (lt_requests ?t)" for r' i b
  proof -
    have ib: "(i, b) \<in> set (lt_ips t)" using reqs left' left(1) by blast
    show ?thesis
    proof (cases "i = ip")
      case True
      then have "b = a" using ib ips dist(2) eq_key_imp_eq_value by metis
      then have "(r', i, b) \<in> set (filter (\<lambda>(r, ip, b). b = a) (lt_requests ?t))" using left' by simp
      then have "0 < on_it ?t a" unfolding on_it_def by (rule length_pos_if_in_set)
      then have "ls_refs (lt_states ?t ! a) \<noteq> 0" using refs' [OF a] by simp
      then have "lt_ips ?t = lt_ips t" using a by (simp add: login_releaseLocked_def Let_def on_state_def split: if_splits)
      then show ?thesis using ib by simp
    next
      case False
      then show ?thesis using ib by (simp add: login_releaseLocked_def Let_def)
    qed
  qed
  have sub: "set (lt_ips ?t) \<subseteq> set (lt_ips t)" "distinct (map fst (lt_ips ?t))"
    using dist(2) by (auto simp: login_releaseLocked_def Let_def distinct_map_filter)
  have all: "\<forall>(i, b)\<in>set (lt_ips ?t). b < length (lt_states ?t)" using sub(1) range by auto
  have own: "\<forall>(r', i, b)\<in>set (lt_requests ?t). (i, b) \<in> set (lt_ips ?t)" using kept by blast
  have counted: "\<forall>b<length (lt_states ?t). ls_refs (lt_states ?t ! b) = int (on_it ?t b)" using refs' by simp
  have "requests_ok ?t"
    unfolding requests_ok_def using left(2) sub(2) inj_on_subset [OF dist(3) sub(1)] all own counted by blast
  moreover have "turns_ok ?t"
  proof -
    have same: "lt_states ?t ! b = lt_states t ! b" if "b \<noteq> a" for b using that by simp
    have held: "ls_turn (lt_states ?t ! b) = Some r'" if "(r', i, b) \<in> set (lt_requests ?t)" "lt_stage t r' \<noteq> Queued" for r' i b
      unfolding same [OF others [OF that]] using turns that left(1) by blast
    have "ls_lastFail (lt_states ?t ! b) + loginDelay (ls_failures (lt_states ?t ! b)) \<le> lt_clock t"
      if that: "(r', i, b) \<in> set (lt_requests ?t)" "lt_stage t r' = Checking" for r' i b
    proof -
      have "b \<noteq> a" using others [OF that(1)] that(2) by simp
      then show ?thesis unfolding same [OF \<open>b \<noteq> a\<close>] using waits that left(1) by blast
    qed
    with held show ?thesis unfolding turns_ok_def by fastforce
  qed
  ultimately show ?thesis by (simp add: throttle_inv_def)
qed

lemma on_state_id [simp]: "on_state a (\<lambda>st. st) t = t"
  by (simp add: on_state_def)

lemma time_sub_signs:
  "0 < time_sub u v \<longleftrightarrow> v < u" "loginFailureMemory < time_sub u v \<longleftrightarrow> loginFailureMemory < u - v"
  by (auto simp: time_sub_def time_defs)

text \<open>What deciding makes of a state: failures from too long ago are forgotten.\<close>

definition forget_old :: "instant \<Rightarrow> loginState \<Rightarrow> loginState" where
  "forget_old now st =
     (if 0 < ls_failures st \<and> loginFailureMemory < now - ls_lastFail st then st\<lparr>ls_failures := 0\<rparr> else st)"

definition may_check :: "instant \<Rightarrow> loginState \<Rightarrow> bool" where
  "may_check now st \<longleftrightarrow> ls_lastFail st + loginDelay (ls_failures st) \<le> now"

lemma forget_old_frame [simp]: "ls_refs (forget_old now st) = ls_refs st" "ls_turn (forget_old now st) = ls_turn st"
    "ls_lastFail (forget_old now st) = ls_lastFail st"
  by (simp_all add: forget_old_def)

lemma decide_alt:
  assumes "a < length (lt_states t)"
  shows "snd (login_decide r ip a t) =
    (if may_check (lt_clock t) (forget_old (lt_clock t) (lt_states t ! a))
     then (on_state a (forget_old (lt_clock t)) t)\<lparr>lt_stage := (lt_stage t)(r := Checking)\<rparr>
     else login_releaseLocked ip a ((on_state a (forget_old (lt_clock t)) t)\<lparr>lt_requests := remove1 (r, ip, a) (lt_requests t)\<rparr>))"
proof -
  let ?t = "if 0 < ls_failures (lt_states t ! a) \<and> loginFailureMemory < time_sub (lt_clock t) (ls_lastFail (lt_states t ! a))
    then on_state a (\<lambda>st. st\<lparr>ls_failures := 0\<rparr>) t else t"
  have "?t = on_state a (forget_old (lt_clock t)) t"
    by (simp add: on_state_def forget_old_def time_sub_signs)
  moreover have "lt_states (on_state a (forget_old (lt_clock t)) t) ! a = forget_old (lt_clock t) (lt_states t ! a)"
    using assms by simp
  ultimately show ?thesis
    unfolding login_decide_def Let_def by (simp add: time_sub_signs may_check_def not_less)
qed

lemma stage_inv:
  assumes inv: "throttle_inv t" and r: "(r, ip, a) \<in> set (lt_requests t)" and a: "a < length (lt_states t)"
    and f: "ls_refs (f (lt_states t ! a)) = ls_refs (lt_states t ! a)" "ls_turn (f (lt_states t ! a)) = Some r"
    and alone: "lt_stage t r \<noteq> Queued \<or> ls_turn (lt_states t ! a) = None"
    and stage: "stage = Checking \<longrightarrow> may_check (lt_clock t) (f (lt_states t ! a))"
  shows "throttle_inv ((on_state a f t)\<lparr>lt_stage := (lt_stage t)(r := stage)\<rparr>)" (is "throttle_inv ?t")
proof -
  have dist: "distinct (map fst (lt_requests t))"
    and turns: "\<And>r ip a. (r, ip, a) \<in> set (lt_requests t) \<Longrightarrow> lt_stage t r \<noteq> Queued \<Longrightarrow> ls_turn (lt_states t ! a) = Some r"
    and waits: "\<And>r ip a. (r, ip, a) \<in> set (lt_requests t) \<Longrightarrow> lt_stage t r = Checking \<Longrightarrow>
      ls_lastFail (lt_states t ! a) + loginDelay (ls_failures (lt_states t ! a)) \<le> lt_clock t"
    using inv by (auto simp: throttle_inv_def requests_ok_def turns_ok_def)
  have same_request: "b = a" if "(r, i, b) \<in> set (lt_requests t)" for i b
    using eq_key_imp_eq_value [OF dist that r] by simp
  have others: "b \<noteq> a" if "(r', i, b) \<in> set (lt_requests t)" "lt_stage t r' \<noteq> Queued" "r' \<noteq> r" for r' i b
    using turns [OF that(1,2)] turns [OF r] alone that(3) by auto
  have refs: "\<forall>b<length (lt_states t). ls_refs (lt_states t ! b) = int (on_it t b)"
    using inv by (simp add: throttle_inv_def requests_ok_def)
  have refs': "ls_refs (lt_states (on_state a f t) ! b) = int (on_it t b)" if "b < length (lt_states t)" for b
    using refs that f(1) a by (cases "b = a") simp_all
  have "requests_ok ?t"
    using inv refs' by (simp add: throttle_inv_def requests_ok_def on_it_def)
  moreover have "turns_ok ?t"
  proof -
    have "ls_turn (lt_states ?t ! b) = Some r' \<and>
        (lt_stage ?t r' = Checking \<longrightarrow> ls_lastFail (lt_states ?t ! b) + loginDelay (ls_failures (lt_states ?t ! b)) \<le> lt_clock t)"
      if req: "(r', i, b) \<in> set (lt_requests t)" and run: "lt_stage ?t r' \<noteq> Queued" for r' i b
    proof (cases "r' = r")
      case True
      then show ?thesis using same_request req f(2) a stage by (auto simp: may_check_def)
    next
      case False
      then have "b \<noteq> a" "lt_stage t r' \<noteq> Queued" using others [OF req] run by auto
      then show ?thesis using turns [OF req] waits [OF req] False by simp
    qed
    then show ?thesis by (intro turns_okI) simp
  qed
  ultimately show ?thesis by (simp add: throttle_inv_def)
qed

lemma sweep_inv:
  assumes "throttle_inv t"
  shows "throttle_inv (login_sweepLocked t)"
proof -
  have kept: "(ip, a) \<in> set (lt_ips (login_sweepLocked t))" if req: "(r, ip, a) \<in> set (lt_requests t)" for r ip a
  proof -
    have ips: "(ip, a) \<in> set (lt_ips t)" and "a < length (lt_states t)"
      using assms req by (auto simp: throttle_inv_def requests_ok_def)
    moreover have "(r, ip, a) \<in> set (filter (\<lambda>(r, ip, b). b = a) (lt_requests t))" using req by simp
    then have "0 < on_it t a" unfolding on_it_def by (rule length_pos_if_in_set)
    ultimately have "ls_refs (lt_states t ! a) \<noteq> 0" using assms by (simp add: throttle_inv_def requests_ok_def)
    then show ?thesis using ips by (simp add: login_sweepLocked_def)
  qed
  have "requests_ok (login_sweepLocked t)"
    using assms kept unfolding throttle_inv_def requests_ok_def
    by (auto simp: login_sweepLocked_def distinct_map_filter on_it_def inj_on_def)
  moreover have "turns_ok (login_sweepLocked t)"
    using assms by (simp add: throttle_inv_def turns_ok_def login_sweepLocked_def)
  ultimately show ?thesis by (simp add: throttle_inv_def)
qed

text \<open>\<open>acquire\<close> in two parts: the state of the IP, made when there is none, then the request on it.\<close>

definition find_state :: "string \<Rightarrow> loginThrottle \<Rightarrow> loginThrottle" where
  "find_state ip t =
     (case map_of (lt_ips t) ip of
        Some a \<Rightarrow> t
      | None \<Rightarrow>
          let t = (if throttleSweepAt \<le> length (lt_ips t) then login_sweepLocked t else t) in
          t\<lparr>lt_states := lt_states t @ [\<lparr>ls_turn = None, ls_refs = 0, ls_failures = 0, ls_lastFail = zero_time\<rparr>],
            lt_ips := (ip, length (lt_states t)) # lt_ips t\<rparr>)"

definition put_request :: "nat \<Rightarrow> string \<Rightarrow> nat \<Rightarrow> loginThrottle \<Rightarrow> loginThrottle" where
  "put_request r ip a t =
     (on_state a (\<lambda>st. st\<lparr>ls_refs := ls_refs st + 1\<rparr>) t)
       \<lparr>lt_requests := (r, ip, a) # lt_requests t, lt_stage := (lt_stage t)(r := Queued)\<rparr>"

lemma enter_alt: "login_enter r ip t = put_request r ip (the (map_of (lt_ips (find_state ip t)) ip)) (find_state ip t)"
  by (simp add: login_enter_def find_state_def put_request_def Let_def)

lemma sweep_simps [simp]:
  "lt_clock (login_sweepLocked t) = lt_clock t" "lt_states (login_sweepLocked t) = lt_states t"
  "lt_requests (login_sweepLocked t) = lt_requests t" "lt_stage (login_sweepLocked t) = lt_stage t"
  by (simp_all add: login_sweepLocked_def)

lemma create_inv:
  assumes inv: "throttle_inv t" and new: "ip \<notin> fst ` set (lt_ips t)"
  shows "throttle_inv (t\<lparr>lt_states := lt_states t @ [\<lparr>ls_turn = None, ls_refs = 0, ls_failures = 0, ls_lastFail = zero_time\<rparr>],
            lt_ips := (ip, length (lt_states t)) # lt_ips t\<rparr>)" (is "throttle_inv ?t")
proof -
  have ranges: "\<forall>(ip, a)\<in>set (lt_ips t). a < length (lt_states t)" "\<forall>(r, ip, a)\<in>set (lt_requests t). (ip, a) \<in> set (lt_ips t)"
    using inv by (simp_all add: throttle_inv_def requests_ok_def)
  have used: "a < length (lt_states t)" if "(r, i, a) \<in> set (lt_requests t)" for r i a using ranges that by fastforce
  have "filter (\<lambda>(r, ip, b). b = length (lt_states t)) (lt_requests t) = []"
    using used by (force simp: filter_empty_conv)
  then have fresh: "on_it ?t (length (lt_states t)) = 0" by (simp add: on_it_def)
  have "\<forall>a<length (lt_states t). ls_refs (lt_states t ! a) = int (on_it t a)"
    using inv by (simp add: throttle_inv_def requests_ok_def)
  then have refs: "\<forall>a<length (lt_states ?t). ls_refs (lt_states ?t ! a) = int (on_it ?t a)"
    using fresh by (auto simp: nth_append less_Suc_eq on_it_def)
  have "inj_on snd (set (lt_ips ?t))"
    using inv ranges(1) by (auto simp: throttle_inv_def requests_ok_def)
  moreover have "distinct (map fst (lt_ips ?t))"
    using inv new by (auto simp: throttle_inv_def requests_ok_def)
  ultimately have "requests_ok ?t"
    using inv ranges refs unfolding throttle_inv_def requests_ok_def by fastforce
  moreover have "turns_ok ?t"
    using inv used unfolding throttle_inv_def turns_ok_def by (fastforce simp: nth_append)
  ultimately show ?thesis by (simp add: throttle_inv_def)
qed

lemma find_state_ok:
  assumes "throttle_inv t"
  shows "throttle_inv (find_state ip t)" "\<exists>a. map_of (lt_ips (find_state ip t)) ip = Some a"
    "lt_requests (find_state ip t) = lt_requests t"
proof -
  have "throttle_inv (find_state ip t)" if "map_of (lt_ips t) ip = None"
  proof -
    have new: "ip \<notin> fst ` set (lt_ips t)" using that by (simp add: map_of_eq_None_iff)
    then have "ip \<notin> fst ` set (lt_ips (login_sweepLocked t))" by (auto simp: login_sweepLocked_def)
    with create_inv [OF sweep_inv [OF assms]] create_inv [OF assms new] that show ?thesis
      by (simp add: find_state_def Let_def)
  qed
  then show "throttle_inv (find_state ip t)" using assms by (cases "map_of (lt_ips t) ip") (auto simp: find_state_def)
  show "\<exists>a. map_of (lt_ips (find_state ip t)) ip = Some a" "lt_requests (find_state ip t) = lt_requests t"
    by (auto simp: find_state_def Let_def split: option.splits)
qed

lemma put_inv:
  assumes inv: "throttle_inv t" and ip: "map_of (lt_ips t) ip = Some a" and r: "map_of (lt_requests t) r = None"
  shows "throttle_inv (put_request r ip a t)"
proof -
  have new: "r \<notin> fst ` set (lt_requests t)" using r by (simp add: map_of_eq_None_iff)
  have ips: "(ip, a) \<in> set (lt_ips t)" using ip by (rule map_of_SomeD)
  then have a: "a < length (lt_states t)" using inv by (auto simp: throttle_inv_def requests_ok_def)
  have "\<forall>b<length (lt_states t). ls_refs (lt_states t ! b) = int (on_it t b)"
    using inv by (simp add: throttle_inv_def requests_ok_def)
  then have refs: "ls_refs (lt_states (on_state a (\<lambda>st. st\<lparr>ls_refs := ls_refs st + 1\<rparr>) t) ! b) = int (on_it (put_request r ip a t) b)"
    if "b < length (lt_states t)" for b
    using that a by (cases "b = a") (simp_all add: on_it_def put_request_def)
  have "requests_ok (put_request r ip a t)"
    using inv new ips refs by (simp add: throttle_inv_def requests_ok_def put_request_def)
  moreover have "turns_ok (put_request r ip a t)"
  proof -
    have same: "ls_turn (lt_states (put_request r ip a t) ! b) = ls_turn (lt_states t ! b)"
      "ls_lastFail (lt_states (put_request r ip a t) ! b) = ls_lastFail (lt_states t ! b)"
      "ls_failures (lt_states (put_request r ip a t) ! b) = ls_failures (lt_states t ! b)" for b
      using a by (cases "b = a"; simp add: put_request_def)+
    have old: "(r', i, b) \<in> set (lt_requests t) \<and> r' \<noteq> r"
      if "(r', i, b) \<in> set (lt_requests (put_request r ip a t))" "lt_stage (put_request r ip a t) r' \<noteq> Queued" for r' i b
      using that new by (auto simp: put_request_def)
    have "lt_stage (put_request r ip a t) r' = lt_stage t r'" if "r' \<noteq> r" for r' using that by (simp add: put_request_def)
    moreover have "turns_ok t" using inv by (simp add: throttle_inv_def)
    moreover have "lt_clock (put_request r ip a t) = lt_clock t" by (simp add: put_request_def)
    ultimately show ?thesis using same by (intro turns_okI) (metis old turns_okD)
  qed
  ultimately show ?thesis by (simp add: throttle_inv_def)
qed

lemma throttle_step_inv:
  assumes inv: "throttle_inv t" and step: "login_step x t = Some (l, t')"
  shows "throttle_inv t'"
proof (cases x)
  case (Enter r ip)
  obtain a where "map_of (lt_ips (find_state ip t)) ip = Some a" using find_state_ok [OF inv] by blast
  then show ?thesis
    using step Enter put_inv [of "find_state ip t" ip a r] find_state_ok [OF inv, of ip]
    by (auto simp: enter_alt split: if_splits)
next
  case (LockTurn r)
  then obtain ip a where r: "map_of (lt_requests t) r = Some (ip, a)" "ls_turn (lt_states t ! a) = None"
      "t' = (on_state a (\<lambda>st. st\<lparr>ls_turn := Some r\<rparr>) t)\<lparr>lt_stage := (lt_stage t)(r := Holding)\<rparr>"
    using step by (auto split: option.splits if_splits)
  note q = throttle_request [OF inv r(1)]
  show ?thesis unfolding r(3) by (rule stage_inv [OF inv q(1,4)]) (simp_all add: r(2))
next
  case (Decide r)
  then obtain ip a where r: "map_of (lt_requests t) r = Some (ip, a)" "lt_stage t r = Holding" "t' = snd (login_decide r ip a t)"
    using step by (auto split: option.splits if_splits)
  note q = throttle_request [OF inv r(1)]
  have "ls_turn (lt_states t ! a) = Some r" using inv turns_okD(1) [OF _ q(1)] r(2) by (simp add: throttle_inv_def)
  then show ?thesis
    using stage_inv [OF inv q(1,4), of "forget_old (lt_clock t)" Checking] release_inv [OF inv q(1)] r(2)
    unfolding r(3) decide_alt [OF q(4)] by simp
next
  case (Done r outcome)
  then obtain ip a where r: "map_of (lt_requests t) r = Some (ip, a)" "lt_stage t r = Checking" "t' = login_done outcome r ip a t"
    using step by (auto split: option.splits if_splits)
  note q = throttle_request [OF inv r(1)]
  have other: "lt_stage t r \<noteq> Queued" using r(2) by simp
  show ?thesis
    unfolding r(3) using release_inv [OF inv q(1) other, of "\<lambda>st. st\<lparr>ls_failures := 0\<rparr>"]
      release_inv [OF inv q(1) other, of "\<lambda>st. st\<lparr>ls_failures := ls_failures st + 1, ls_lastFail := lt_clock t\<rparr>"]
      release_inv [OF inv q(1) other, of "\<lambda>st. st"]
    by (cases outcome) (simp_all add: login_done_def)
next
  case (Elapse d)
  then have t': "t' = t\<lparr>lt_clock := lt_clock t + d\<rparr>" and "0 \<le> d" using step by (auto split: if_splits)
  have "turns_ok t'"
    using inv turns_okD [of t] \<open>0 \<le> d\<close> unfolding t' throttle_inv_def by (intro turns_okI) fastforce
  then show ?thesis using inv by (simp add: throttle_inv_def requests_ok_def on_it_def t')
qed

lemma run_Cons:
  "login_run (x # xs) t = Some (l, t'') \<longleftrightarrow>
    (\<exists>l1 t' l2. login_step x t = Some (l1, t') \<and> login_run xs t' = Some (l2, t'') \<and> l = l1 @ l2)"
  by (cases "login_step x t") auto

lemma throttle_run_inv: "throttle_inv t \<Longrightarrow> login_run xs t = Some (l, t') \<Longrightarrow> throttle_inv t'"
  by (induction xs arbitrary: t l) (auto simp: run_Cons dest: throttle_step_inv simp del: login_run.simps(2))

section \<open>How fast passwords can be guessed\<close>

text \<open>What the throttle knows of an IP: its failures and the time of the last.\<close>

definition known :: "string \<Rightarrow> loginThrottle \<Rightarrow> (nat \<times> instant) option" where
  "known ip t = map_option (\<lambda>a. (ls_failures (lt_states t ! a), ls_lastFail (lt_states t ! a))) (map_of (lt_ips t) ip)"

text \<open>The waits a guesser still skips below the longest one, after so many failures.\<close>

definition skipped :: "nat \<Rightarrow> duration" where
  "skipped f = (\<Sum>i = f..<11. maxLoginDelay - loginDelay i)"

lemma loginDelay_le: "loginDelay f \<le> maxLoginDelay" "0 \<le> loginDelay f" "11 \<le> f \<Longrightarrow> loginDelay f = maxLoginDelay"
  by (auto simp: loginDelay_def model_defs time_defs)

lemma skipped_step: "skipped f = maxLoginDelay - loginDelay f + skipped (Suc f)"
proof (cases "f < 11")
  case True
  then show ?thesis by (simp add: skipped_def sum.atLeast_Suc_lessThan)
next
  case False
  then show ?thesis by (simp add: skipped_def loginDelay_le(3))
qed

lemma skipped_bounds: "0 \<le> skipped f" "skipped 0 = 864 * second" "skipped (Suc f) \<le> 774 * second"
proof -
  show nonneg: "0 \<le> skipped f" for f by (simp add: skipped_def sum_nonneg loginDelay_le(1))
  have all: "skipped 0 = 864 * second"
    by (simp add: skipped_def eval_nat_numeral loginDelay_def model_defs time_defs)
  then show "skipped 0 = 864 * second" .
  have "skipped (Suc f) \<le> skipped 1"
  proof (induction f)
    case (Suc f)
    then show ?case using skipped_step [of "Suc f"] loginDelay_le(1) [of "Suc f"] by linarith
  qed simp
  then show "skipped (Suc f) \<le> 774 * second"
    using skipped_step [of 0] all by (simp add: loginDelay_def model_defs time_defs)
qed

text \<open>After \<open>n\<close> wrong guesses since \<open>t0\<close>: the waits so far, and what the throttle knows accounts for the
  last guess unless its memory of it has run out.\<close>

definition guessed :: "instant \<Rightarrow> nat \<Rightarrow> instant \<Rightarrow> (nat \<times> instant) option \<Rightarrow> bool" where
  "guessed t0 n now v \<longleftrightarrow> t0 \<le> now \<and>
     (n = 0 \<or> (\<exists>last F. t0 \<le> last \<and> last \<le> now \<and> 0 < F \<and> int n * maxLoginDelay + skipped F \<le> last - t0 + 864 * second
        \<and> (v = Some (F, last) \<or> (v = None \<or> (\<exists>lf. v = Some (0, lf))) \<and> loginFailureMemory < now - last)))"

definition eases :: "instant \<Rightarrow> (nat \<times> instant) option \<Rightarrow> (nat \<times> instant) option \<Rightarrow> bool" where
  "eases now v v' \<longleftrightarrow> v' = v \<or> (v = None \<and> v' = Some (0, zero_time))
     \<or> (\<exists>f lf. v = Some (f, lf) \<and> (f = 0 \<or> loginFailureMemory < now - lf) \<and> (v' = None \<or> v' = Some (0, lf)))"

lemma guessed_eases: "guessed t0 n now v \<Longrightarrow> eases now v v' \<Longrightarrow> guessed t0 n now v'"
  unfolding guessed_def eases_def by fastforce

lemma guessed_later: "guessed t0 n now v \<Longrightarrow> now \<le> now' \<Longrightarrow> guessed t0 n now' v"
  unfolding guessed_def by fastforce

lemma guessed_wrong:
  assumes g: "guessed t0 n now (Some (f, lf))" and waited: "lf + loginDelay f \<le> now"
  shows "guessed t0 (Suc n) now (Some (Suc f, now))"
proof -
  have mem: "864 * second \<le> loginFailureMemory" by (simp add: time_defs)
  have "int (Suc n) * maxLoginDelay + skipped (Suc f) \<le> now - t0 + 864 * second"
  proof (cases "n = 0")
    case True
    have "maxLoginDelay + 774 * second = 864 * second" by (simp add: time_defs)
    then show ?thesis using True g skipped_bounds(3) [of f] by (simp add: guessed_def)
  next
    case False
    then obtain last F where last: "t0 \<le> last" "last \<le> now" "0 < F"
        "int n * maxLoginDelay + skipped F \<le> last - t0 + 864 * second"
        "f = F \<and> lf = last \<or> f = 0 \<and> loginFailureMemory < now - last"
      using g by (auto simp: guessed_def)
    from last(5) show ?thesis
    proof
      assume "f = F \<and> lf = last"
      then show ?thesis using last(4) waited skipped_step [of F] by (simp add: algebra_simps)
    next
      assume old: "f = 0 \<and> loginFailureMemory < now - last"
      have "maxLoginDelay + skipped (Suc f) = 864 * second"
        using skipped_step [of 0] skipped_bounds(2) old by (simp add: loginDelay_def model_defs)
      then show ?thesis using last(4) skipped_bounds(1) [of F] old mem by (simp add: algebra_simps)
    qed
  qed
  then show ?thesis using g unfolding guessed_def by fastforce
qed

lemma skipped_pos_bound: "guessed t0 n now v \<Longrightarrow> int n * maxLoginDelay \<le> now - t0 + 864 * second"
proof (cases "n = 0")
  case False
  assume "guessed t0 n now v"
  then obtain last F where "last \<le> now" "int n * maxLoginDelay + skipped F \<le> last - t0 + 864 * second"
    using False by (auto simp: guessed_def)
  then show ?thesis using skipped_bounds(1) [of F] by linarith
qed (simp add: guessed_def time_defs)

section \<open>Each step and what is known\<close>

lemma known_stage [simp]: "known ip (t\<lparr>lt_stage := st\<rparr>) = known ip t" "known ip (t\<lparr>lt_requests := rs\<rparr>) = known ip t"
    "known ip (t\<lparr>lt_clock := c\<rparr>) = known ip t"
  by (simp_all add: known_def)

lemma known_on_state:
  assumes "throttle_inv t" "map_of (lt_ips t) ip = Some a"
  shows "known i (on_state a f t) = (if i = ip then Some (ls_failures (f (lt_states t ! a)), ls_lastFail (f (lt_states t ! a))) else known i t)"
proof -
  have a: "a < length (lt_states t)" "(ip, a) \<in> set (lt_ips t)" "inj_on snd (set (lt_ips t))"
    using assms map_of_SomeD by (fastforce simp: throttle_inv_def requests_ok_def)+
  have "b \<noteq> a" if "map_of (lt_ips t) i = Some b" "i \<noteq> ip" for b
    using inj_onD [OF a(3), of "(i, b)" "(ip, a)"] that a(2) map_of_SomeD [OF that(1)] by auto
  then show ?thesis using assms(2) a(1) by (cases "map_of (lt_ips t) i") (auto simp: known_def)
qed

lemma eases_release:
  assumes "a < length (lt_states t)" "map_of (lt_ips t) ip = Some a"
  shows "eases now (known i t) (known i (login_releaseLocked ip a t))"
proof -
  have same: "(ls_failures (lt_states (login_releaseLocked ip a t) ! b), ls_lastFail (lt_states (login_releaseLocked ip a t) ! b))
      = (ls_failures (lt_states t ! b), ls_lastFail (lt_states t ! b))" for b
    using assms(1) by (cases "b = a") simp_all
  show ?thesis
  proof (cases "lt_ips (login_releaseLocked ip a t) = lt_ips t")
    case True
    then show ?thesis using same by (simp add: known_def eases_def)
  next
    case False
    then have ended: "lt_ips (login_releaseLocked ip a t) = filter (\<lambda>(i, b). i \<noteq> ip) (lt_ips t)" "ls_failures (lt_states t ! a) = 0"
      using assms(1) by (auto simp: login_releaseLocked_def Let_def on_state_def split: if_splits)
    have "map_of (filter (\<lambda>(i, b). i \<noteq> ip) xs) i = (if i = ip then None else map_of xs i)" for xs :: "(string \<times> nat) list"
      by (induction xs) auto
    then show ?thesis using same ended assms(2) by (auto simp: known_def eases_def)
  qed
qed

lemma map_of_filter_value:
  "distinct (map fst xs) \<Longrightarrow>
   map_of (filter (\<lambda>(k, v). \<not> P v) xs) k = (case map_of xs k of Some v \<Rightarrow> if P v then None else Some v | None \<Rightarrow> None)"
  by (induction xs) (auto split: option.splits simp: map_of_eq_None_iff dest: map_of_SomeD)

lemma eases_sweep:
  assumes "throttle_inv t"
  shows "known i (login_sweepLocked t) = known i t
    \<or> (\<exists>f lf. known i t = Some (f, lf) \<and> loginFailureMemory < lt_clock t - lf \<and> known i (login_sweepLocked t) = None)"
proof -
  have "distinct (map fst (lt_ips t))" using assms by (simp add: throttle_inv_def requests_ok_def)
  note swept = map_of_filter_value [OF this, of "\<lambda>a. ls_refs (lt_states t ! a) = 0
    \<and> loginFailureMemory < time_sub (lt_clock t) (ls_lastFail (lt_states t ! a))" i]
  have "map_of (lt_ips (login_sweepLocked t)) i = (case map_of (lt_ips t) i of None \<Rightarrow> None
      | Some a \<Rightarrow> if ls_refs (lt_states t ! a) = 0 \<and> loginFailureMemory < lt_clock t - ls_lastFail (lt_states t ! a)
                  then None else Some a)"
    using swept by (simp add: login_sweepLocked_def time_sub_signs split: option.split)
  then show ?thesis by (cases "map_of (lt_ips t) i") (simp_all add: known_def)
qed

lemma eases_find:
  assumes "throttle_inv t"
  shows "eases (lt_clock t) (known i t) (known i (find_state ip t))"
proof (cases "map_of (lt_ips t) ip")
  case None
  define u where "u = (if throttleSweepAt \<le> length (lt_ips t) then login_sweepLocked t else t)"
  have u: "known i u = known i t \<or> (\<exists>f lf. known i t = Some (f, lf) \<and> loginFailureMemory < lt_clock t - lf \<and> known i u = None)"
    using eases_sweep [OF assms] by (simp add: u_def)
  have "throttle_inv u" using assms sweep_inv [OF assms] by (simp add: u_def)
  then have range: "b < length (lt_states u)" if "map_of (lt_ips u) i = Some b" for b
    using map_of_SomeD [OF that] by (auto simp: throttle_inv_def requests_ok_def)
  have "find_state ip t = u\<lparr>lt_states := lt_states u @ [\<lparr>ls_turn = None, ls_refs = 0, ls_failures = 0, ls_lastFail = zero_time\<rparr>],
            lt_ips := (ip, length (lt_states u)) # lt_ips u\<rparr>"
    using None by (simp add: find_state_def u_def Let_def)
  then have "known i (find_state ip t) = (if i = ip then Some (0, zero_time) else known i u)"
    using range by (cases "map_of (lt_ips u) i") (simp_all add: known_def nth_append)
  moreover have "known ip t = None" using None by (simp add: known_def)
  ultimately show ?thesis using u by (auto simp: eases_def)
qed (simp add: find_state_def eases_def)

lemma known_put:
  assumes "throttle_inv t" "map_of (lt_ips t) ip = Some a"
  shows "known i (put_request r ip a t) = known i t"
  using known_on_state [OF assms, of i "\<lambda>st. st\<lparr>ls_refs := ls_refs st + 1\<rparr>"] assms(2)
  by (simp add: put_request_def) (simp add: known_def)

text \<open>Deciding and ending a request, seen from what is known of an IP.\<close>

lemma guessed_decide:
  assumes inv: "throttle_inv t" and r: "map_of (lt_requests t) r = Some (ip, a)" and g: "guessed t0 n (lt_clock t) (known i t)"
  shows "guessed t0 n (lt_clock t) (known i (snd (login_decide r ip a t)))"
proof -
  note q = throttle_request [OF inv r]
  let ?t = "on_state a (forget_old (lt_clock t)) t"
  have "eases (lt_clock t) (known i t) (known i ?t)"
    unfolding known_on_state [OF inv q(3)] using q(3) by (auto simp: eases_def known_def forget_old_def)
  with g have g': "guessed t0 n (lt_clock t) (known i ?t)" by (rule guessed_eases)
  then have "guessed t0 n (lt_clock t) (known i (login_releaseLocked ip a (?t\<lparr>lt_requests := remove1 (r, ip, a) (lt_requests t)\<rparr>)))"
    using eases_release [of a "?t\<lparr>lt_requests := remove1 (r, ip, a) (lt_requests t)\<rparr>" ip "lt_clock t" i] q(3,4)
    by (auto intro: guessed_eases)
  then show ?thesis using g' unfolding decide_alt [OF q(4)] by simp
qed

lemma guessed_done:
  assumes inv: "throttle_inv t" and r: "map_of (lt_requests t) r = Some (ip, a)" "lt_stage t r = Checking"
    and g: "guessed t0 n (lt_clock t) (known i t)" and "(i, LoginSucceeded) \<noteq> (ip, outcome)"
  shows "guessed t0 (n + wrong_guesses i [(ip, outcome)]) (lt_clock t) (known i (login_done outcome r ip a t))"
proof -
  note q = throttle_request [OF inv r(1)]
  define f :: "loginState \<Rightarrow> loginState" where "f = (case outcome of LoginSucceeded \<Rightarrow> (\<lambda>st. st\<lparr>ls_failures := 0\<rparr>)
    | LoginWrongPassword \<Rightarrow> (\<lambda>st. st\<lparr>ls_failures := ls_failures st + 1, ls_lastFail := lt_clock t\<rparr>) | LoginUnchecked \<Rightarrow> (\<lambda>st. st))"
  let ?t = "on_state a f t"
  have d: "login_done outcome r ip a t = login_releaseLocked ip a (?t\<lparr>lt_requests := remove1 (r, ip, a) (lt_requests t)\<rparr>)"
    by (cases outcome) (simp_all add: login_done_def f_def)
  have waited: "ls_lastFail (lt_states t ! a) + loginDelay (ls_failures (lt_states t ! a)) \<le> lt_clock t"
    using inv turns_okD(2) [OF _ q(1) r(2)] by (simp add: throttle_inv_def)
  have own: "known ip t = Some (ls_failures (lt_states t ! a), ls_lastFail (lt_states t ! a))" using q(3) by (simp add: known_def)
  have "guessed t0 (n + wrong_guesses i [(ip, outcome)]) (lt_clock t) (known i ?t)"
  proof (cases "i = ip")
    case True
    then show ?thesis
      using g own assms(5) guessed_wrong [OF _ waited, of t0 n] known_on_state [OF inv q(3), of ip f]
      by (cases outcome) (simp_all add: wrong_guesses_def f_def)
  next
    case False
    then show ?thesis using g known_on_state [OF inv q(3), of i f] by (simp add: wrong_guesses_def)
  qed
  then show ?thesis
    unfolding d using eases_release [of a "?t\<lparr>lt_requests := remove1 (r, ip, a) (lt_requests t)\<rparr>" ip "lt_clock t" i] q(3,4)
    by (auto intro: guessed_eases)
qed

lemma guessed_step:
  assumes inv: "throttle_inv t" and step: "login_step x t = Some (l, t')"
    and g: "guessed t0 n (lt_clock t) (known i t)" and none: "(i, LoginSucceeded) \<notin> set l"
  shows "guessed t0 (n + wrong_guesses i l) (lt_clock t') (known i t')"
proof (cases x)
  case (Enter r ip)
  obtain a where a: "map_of (lt_ips (find_state ip t)) ip = Some a" using find_state_ok [OF inv] by blast
  have t': "t' = put_request r ip a (find_state ip t)" "l = []" using step Enter a by (auto simp: enter_alt split: if_splits)
  have "lt_clock t' = lt_clock t" by (simp add: t' put_request_def find_state_def Let_def split: option.splits)
  then show ?thesis
    using guessed_eases [OF g eases_find [OF inv]] known_put [OF find_state_ok(1) [OF inv] a] by (simp add: t' wrong_guesses_def)
next
  case (LockTurn r)
  then obtain ip a where r: "map_of (lt_requests t) r = Some (ip, a)" "l = []"
      "t' = (on_state a (\<lambda>st. st\<lparr>ls_turn := Some r\<rparr>) t)\<lparr>lt_stage := (lt_stage t)(r := Holding)\<rparr>"
    using step by (auto split: option.splits if_splits)
  note q = throttle_request [OF inv r(1)]
  have "known ip t = Some (ls_failures (lt_states t ! a), ls_lastFail (lt_states t ! a))" using q(3) by (simp add: known_def)
  then show ?thesis unfolding r(2,3) using g known_on_state [OF inv q(3)] by (cases "i = ip") (simp_all add: wrong_guesses_def)
next
  case (Decide r)
  then obtain ip a where r: "map_of (lt_requests t) r = Some (ip, a)" "l = []" "t' = snd (login_decide r ip a t)"
    using step by (auto split: option.splits if_splits)
  have "lt_clock t' = lt_clock t" unfolding r(3) decide_alt [OF throttle_request(4) [OF inv r(1)]] by simp
  then show ?thesis using guessed_decide [OF inv r(1) g] by (simp add: r(2,3) wrong_guesses_def)
next
  case (Done r outcome)
  then obtain ip a where r: "map_of (lt_requests t) r = Some (ip, a)" "lt_stage t r = Checking" "l = [(ip, outcome)]"
      "t' = login_done outcome r ip a t"
    using step by (auto split: option.splits if_splits)
  have "lt_clock t' = lt_clock t" unfolding r(4) by (cases outcome) (simp_all add: login_done_def)
  then show ?thesis using guessed_done [OF inv r(1,2) g] none by (simp add: r(3,4))
next
  case (Elapse d)
  then show ?thesis using step guessed_later [OF g] by (auto simp: wrong_guesses_def split: if_splits)
qed

lemma guessed_run:
  "throttle_inv t \<Longrightarrow> login_run xs t = Some (l, t') \<Longrightarrow> guessed t0 n (lt_clock t) (known i t) \<Longrightarrow>
   (i, LoginSucceeded) \<notin> set l \<Longrightarrow> guessed t0 (n + wrong_guesses i l) (lt_clock t') (known i t')"
proof (induction xs arbitrary: t l n)
  case (Cons x xs)
  obtain l1 t1 l2 where one: "login_step x t = Some (l1, t1)" "login_run xs t1 = Some (l2, t')" "l = l1 @ l2"
    using Cons.prems(2) unfolding run_Cons by blast
  have "wrong_guesses i l = wrong_guesses i l1 + wrong_guesses i l2" by (simp add: one(3) wrong_guesses_def)
  then show ?case
    using Cons.IH [OF throttle_step_inv [OF Cons.prems(1) one(1)] one(2), of "n + wrong_guesses i l1"]
      guessed_step [OF Cons.prems(1) one(1) Cons.prems(3)] Cons.prems(4) by (simp add: one(3) add.assoc)
qed (simp add: wrong_guesses_def)

text \<open>C18. Guessing is slow, however many requests run in parallel. Over any stretch of a run of the throttle in
  which an IP does not log in, it has at most one wrong password checked per 90 seconds, beyond the
  864 seconds that the free first tries and the short waits after them save (between 9 and 10 tries).
  Waiting until the failures are forgotten, at 15 minutes, buys nothing, and neither does a sweep of the
  map: in particular at most 969 guesses a day.\<close>

theorem guess_rate:
  assumes "login_run before (newLoginThrottle start) = Some (l0, t0)"
    and "login_run steps t0 = Some (l, t)"
    and "(ip, LoginSucceeded) \<notin> set l"
  shows "int (wrong_guesses ip l) * maxLoginDelay \<le> lt_clock t - lt_clock t0 + 864 * second"
proof -
  have inv: "throttle_inv t0" using throttle_run_inv [OF new_throttle assms(1)] .
  have "guessed (lt_clock t0) 0 (lt_clock t0) (known ip t0)" by (simp add: guessed_def)
  from guessed_run [OF inv assms(2) this assms(3)] show ?thesis by (auto dest: skipped_pos_bound)
qed

text \<open>One password of an IP is checked at a time: however many requests of it are under way, no two of
  them are past the throttle, and a request is let through only when the wait after the failures the
  throttle then knows is over.\<close>

lemma one_check_at_a_time:
  assumes "login_run steps (newLoginThrottle start) = Some (l, t)"
    and "map_of (lt_requests t) r = Some (ip, a)" "map_of (lt_requests t) r' = Some (ip, a')"
    and "lt_stage t r = Checking" "lt_stage t r' = Checking"
  shows "r = r' \<and> a = a' \<and> ls_lastFail (lt_states t ! a) + loginDelay (ls_failures (lt_states t ! a)) \<le> lt_clock t"
proof -
  have inv: "throttle_inv t" using throttle_run_inv [OF new_throttle assms(1)] .
  note q = throttle_request [OF inv assms(2)] and q' = throttle_request [OF inv assms(3)]
  have "a = a'" using q(3) q'(3) by simp
  moreover have "ls_turn (lt_states t ! a) = Some r" "ls_turn (lt_states t ! a') = Some r'"
    using inv turns_okD(1) [OF _ q(1)] turns_okD(1) [OF _ q'(1)] assms(4,5) by (simp_all add: throttle_inv_def)
  ultimately show ?thesis
    using inv turns_okD(2) [OF _ q(1)] assms(4) by (simp add: throttle_inv_def)
qed

text \<open>One wrong password, from the request to the outcome of the check.\<close>

definition guess :: "nat \<Rightarrow> loginStep list" where
  "guess r = [Enter r ''ip'', LockTurn r, Decide r, Done r LoginWrongPassword]"

theorem guess_rate_witness:
  "\<exists>l t. login_run (concat (map guess [0, 1, 2, 3])) (newLoginThrottle 0) = Some (l, t)
     \<and> wrong_guesses ''ip'' l = 4 \<and> int (wrong_guesses ''ip'' l) * maxLoginDelay \<le> lt_clock t + 864 * second"
proof -
  have "map_option fst (login_run (concat (map guess [0, 1, 2, 3])) (newLoginThrottle 0)) = Some (replicate 4 (''ip'', LoginWrongPassword))"
    by code_simp
  then obtain l t where run: "login_run (concat (map guess [0, 1, 2, 3])) (newLoginThrottle 0) = Some (l, t)"
      "l = replicate 4 (''ip'', LoginWrongPassword)" by auto
  have "login_run [] (newLoginThrottle 0) = Some ([], newLoginThrottle 0)" by simp
  moreover have "(''ip'', LoginSucceeded) \<notin> set l" "wrong_guesses ''ip'' l = 4"
    using run(2) by (simp_all add: wrong_guesses_def numeral_eq_Suc)
  ultimately show ?thesis using guess_rate [OF _ run(1)] run(1) by (fastforce simp: newLoginThrottle_def)
qed

end
