(* ===== verification/Auth.thy ===== *)
theory Auth
  imports Login_Throttle
begin

text \<open>
  Logins and sessions (\<open>server/auth/auth.go\<close>, \<open>chap\<close> and the handlers of \<open>server/auth_routes.go\<close>): the stores
  of single-use nonces and launch tickets, session tokens, static API tokens and the challenge-response
  login. SHA-256, HMAC, PBKDF2 and base64 are functions of a library; what a random generator and the
  clock return is an argument of the operation that asks. A store is a Go map: the order in which
  evicting ranges over it is an argument too.
\<close>

section \<open>Single-use tokens\<close>

record ttlStore =
  ts_entries :: "(string \<times> instant) list"
  ts_size :: nat
  ts_ttl :: duration

definition newTTLStore :: "nat \<Rightarrow> duration \<Rightarrow> ttlStore" where
  "newTTLStore cap ttl = \<lparr>ts_entries = [], ts_size = cap, ts_ttl = ttl\<rparr>"

type_synonym mapOrder = "(string \<times> instant) list \<Rightarrow> (string \<times> instant) list"

fun evict_scan :: "instant \<Rightarrow> (string \<times> instant) list \<Rightarrow> string \<Rightarrow> instant \<Rightarrow> (string \<times> instant) list \<Rightarrow> string \<times> (string \<times> instant) list" where
  "evict_scan now [] oldest oldestExp es = (oldest, es)"
| "evict_scan now ((token, expiry) # xs) oldest oldestExp es =
     (if expiry < now then evict_scan now xs oldest oldestExp (AList.delete token es)
      else if oldest = [] \<or> expiry < oldestExp then evict_scan now xs token expiry es
      else evict_scan now xs oldest oldestExp es)"

definition ttl_evict :: "mapOrder \<Rightarrow> instant \<Rightarrow> ttlStore \<Rightarrow> ttlStore" where
  "ttl_evict order now s =
     (case evict_scan now (order (ts_entries s)) [] zero_time (ts_entries s) of
        (oldest, es) \<Rightarrow> s\<lparr>ts_entries := if ts_size s \<le> length es then AList.delete oldest es else es\<rparr>)"

definition ttl_create :: "string option \<Rightarrow> mapOrder \<Rightarrow> instant \<Rightarrow> ttlStore \<Rightarrow> string option \<times> ttlStore" where
  "ttl_create gen order now s =
     (case gen of
        None \<Rightarrow> (None, s)
      | Some token \<Rightarrow>
          let s = (if ts_size s \<le> length (ts_entries s) then ttl_evict order now s else s)
          in (Some token, s\<lparr>ts_entries := AList.update token (now + ts_ttl s) (ts_entries s)\<rparr>))"

definition ttl_consume :: "string \<Rightarrow> instant \<Rightarrow> ttlStore \<Rightarrow> bool \<times> ttlStore" where
  "ttl_consume token now s =
     ((case map_of (ts_entries s) token of Some expiry \<Rightarrow> \<not> expiry < now | None \<Rightarrow> False),
      s\<lparr>ts_entries := AList.delete token (ts_entries s)\<rparr>)"

definition nonceTTL :: duration where [time_defs]: "nonceTTL = 5 * minute"
definition launchTicketTTL :: duration where [time_defs]: "launchTicketTTL = 60 * second"

definition newNonceStore :: ttlStore where "newNonceStore = newTTLStore 1000 nonceTTL"
definition newLaunchTicketStore :: ttlStore where "newLaunchTicketStore = newTTLStore 100 launchTicketTTL"

section \<open>The service\<close>

record authLib =
  al_sha256 :: "string \<Rightarrow> string"
  al_hmac :: "string \<Rightarrow> string \<Rightarrow> string"
  al_base64 :: "string \<Rightarrow> string"
  al_pbkdf2 :: "string \<Rightarrow> string \<Rightarrow> nat \<Rightarrow> nat \<Rightarrow> string"

definition hex_nibble :: "nat \<Rightarrow> char" where
  "hex_nibble n = (if n < 10 then char_of (48 + n) else char_of (87 + n))"

definition hex_EncodeToString :: "string \<Rightarrow> string" where
  "hex_EncodeToString s = concat (map (\<lambda>c. [hex_nibble (of_char c div 16), hex_nibble (of_char c mod 16)]) s)"

definition chap_Iterations :: nat where [model_defs]: "chap_Iterations = 600000"

definition chap_Response :: "authLib \<Rightarrow> string \<Rightarrow> string \<Rightarrow> string" where
  "chap_Response lib password nonce = hex_EncodeToString (al_pbkdf2 lib password nonce chap_Iterations 32)"

definition SessionDuration :: duration where [time_defs]: "SessionDuration = 24 * hour"
definition sessionKDFInfo :: string where [model_defs]: "sessionKDFInfo = ''runwisp-session-v1''"
definition viewerKDFInfo :: string where [model_defs]: "viewerKDFInfo = ''runwisp-viewer-v1''"
definition viewerRole :: string where [model_defs]: "viewerRole = ''viewer''"

definition DeriveSessionKey :: "authLib \<Rightarrow> string \<Rightarrow> string \<Rightarrow> string" where
  "DeriveSessionKey lib password fingerprint =
     al_pbkdf2 lib password (sessionKDFInfo @ [CHR 0x00] @ fingerprint) chap_Iterations 32"

record viewerSecret =
  vs_password :: string
  vs_key :: string

record apiTokens =
  at_operator :: "string list"
  at_viewer :: "string list"

record authService =
  as_sessionKey :: string
  as_password :: string
  as_nonces :: ttlStore
  as_tickets :: ttlStore
  as_viewer :: "viewerSecret option"
  as_tokens :: "apiTokens option"

definition NewService :: "string \<Rightarrow> string \<Rightarrow> authService option" where
  "NewService password sessionKey =
     (if sessionKey = [] then None
      else Some \<lparr>as_sessionKey = sessionKey, as_password = password, as_nonces = newNonceStore,
                 as_tickets = newLaunchTicketStore, as_viewer = None, as_tokens = None\<rparr>)"

definition newViewerSecret :: "authLib \<Rightarrow> string \<Rightarrow> authService \<Rightarrow> viewerSecret" where
  "newViewerSecret lib password s =
     \<lparr>vs_password = password, vs_key = al_hmac lib (as_sessionKey s) (viewerKDFInfo @ [CHR 0x00] @ password)\<rparr>"

definition SetViewerPassword :: "authLib \<Rightarrow> string \<Rightarrow> authService \<Rightarrow> authService" where
  "SetViewerPassword lib password s =
     (if password = [] then s else s\<lparr>as_viewer := Some (newViewerSecret lib password s)\<rparr>)"

definition MintViewerPassword :: "authLib \<Rightarrow> string option \<Rightarrow> authService \<Rightarrow> string option \<times> authService" where
  "MintViewerPassword lib gen s =
     (case as_viewer s of
        Some v \<Rightarrow> (Some (vs_password v), s)
      | None \<Rightarrow> (case gen of None \<Rightarrow> (None, s)
                 | Some pw \<Rightarrow> (Some pw, s\<lparr>as_viewer := Some (newViewerSecret lib pw s)\<rparr>)))"

definition SetAPITokens :: "authLib \<Rightarrow> string list \<Rightarrow> string list \<Rightarrow> authService \<Rightarrow> authService" where
  "SetAPITokens lib operator viewer s =
     (let digests = (\<lambda>tokens. map (al_sha256 lib) (filter (\<lambda>t. t \<noteq> []) tokens))
      in s\<lparr>as_tokens := Some \<lparr>at_operator = digests operator, at_viewer = digests viewer\<rparr>\<rparr>)"

definition matchAPIToken :: "authLib \<Rightarrow> string \<Rightarrow> authService \<Rightarrow> bool \<times> bool" where
  "matchAPIToken lib token s =
     (case as_tokens s of
        None \<Rightarrow> (False, False)
      | Some set' \<Rightarrow>
          if token = [] then (False, False)
          else let sum' = al_sha256 lib token; op = (sum' \<in> set (at_operator set')); view = (sum' \<in> set (at_viewer set'))
               in (\<not> op \<and> view, op \<or> view))"

section \<open>Session tokens\<close>

definition sign :: "authLib \<Rightarrow> string \<Rightarrow> string \<Rightarrow> string" where
  "sign lib key payload = al_base64 lib (al_hmac lib key payload)"

definition expiryString :: "instant \<Rightarrow> duration \<Rightarrow> string" where
  "expiryString now ttl = fmt_int ((now + ttl) div second)"

definition IssueToken :: "authLib \<Rightarrow> instant \<Rightarrow> duration \<Rightarrow> authService \<Rightarrow> string" where
  "IssueToken lib now ttl s = (let e = expiryString now ttl in e @ ''.'' @ sign lib (as_sessionKey s) e)"

definition viewer_issueToken :: "authLib \<Rightarrow> instant \<Rightarrow> duration \<Rightarrow> viewerSecret \<Rightarrow> string" where
  "viewer_issueToken lib now ttl v =
     (let payload = expiryString now ttl @ ''.'' @ viewerRole in payload @ ''.'' @ sign lib (vs_key v) payload)"

definition TokenExpiry :: "string \<Rightarrow> instant option" where
  "TokenExpiry token =
     (case Cut (CHR ''.'') token of
        (e, _, ok) \<Rightarrow> (case Atoi e of Some unix \<Rightarrow> if ok then Some (unix * second) else None | None \<Rightarrow> None))"

definition VerifyToken :: "authLib \<Rightarrow> instant \<Rightarrow> string \<Rightarrow> authService \<Rightarrow> bool \<times> bool" where
  "VerifyToken lib now token s =
     (case matchAPIToken lib token s of
        (readOnly, True) \<Rightarrow> (readOnly, True)
      | (_, False) \<Rightarrow>
         (case TokenExpiry token of
            None \<Rightarrow> (False, False)
          | Some expiry \<Rightarrow>
              if \<not> now < expiry then (False, False)
              else
                case Cut (CHR ''.'') token of
                  (e, rest, _) \<Rightarrow>
                    (case Cut (CHR ''.'') rest of
                       (role, mac, hasRole) \<Rightarrow>
                         if \<not> hasRole then (False, rest = sign lib (as_sessionKey s) e)
                         else case as_viewer s of
                             None \<Rightarrow> (False, False)
                           | Some v \<Rightarrow>
                               if role \<noteq> viewerRole then (False, False)
                               else (True, mac = sign lib (vs_key v) (e @ ''.'' @ viewerRole)))))"

definition IsViewerToken :: "string \<Rightarrow> bool" where
  "IsViewerToken token =
     (case Cut (CHR ''.'') token of
        (_, rest, _) \<Rightarrow> (case Cut (CHR ''.'') rest of (role, _, ok) \<Rightarrow> ok \<and> role = viewerRole))"

definition LooksLikeSessionToken :: "string \<Rightarrow> bool" where
  "LooksLikeSessionToken token \<longleftrightarrow> TokenExpiry token \<noteq> None"

section \<open>Login\<close>

datatype authError = ErrInvalidNonce | ErrInvalidPassword

definition matchesProof :: "authLib \<Rightarrow> string \<Rightarrow> string \<Rightarrow> string \<Rightarrow> bool" where
  "matchesProof lib response password nonce \<longleftrightarrow> response = chap_Response lib password nonce"

definition IssueChallenge :: "string option \<Rightarrow> mapOrder \<Rightarrow> instant \<Rightarrow> authService \<Rightarrow> string option \<times> authService" where
  "IssueChallenge gen order now s =
     (case ttl_create gen order now (as_nonces s) of (nonce, st) \<Rightarrow> (nonce, s\<lparr>as_nonces := st\<rparr>))"

definition CreateLaunchTicket :: "string option \<Rightarrow> mapOrder \<Rightarrow> instant \<Rightarrow> authService \<Rightarrow> string option \<times> authService" where
  "CreateLaunchTicket gen order now s =
     (case ttl_create gen order now (as_tickets s) of (ticket, st) \<Rightarrow> (ticket, s\<lparr>as_tickets := st\<rparr>))"

definition ConsumeLaunchTicket :: "string \<Rightarrow> instant \<Rightarrow> authService \<Rightarrow> bool \<times> authService" where
  "ConsumeLaunchTicket ticket now s =
     (case ttl_consume ticket now (as_tickets s) of (ok, st) \<Rightarrow> (ok, s\<lparr>as_tickets := st\<rparr>))"

definition Login :: "authLib \<Rightarrow> instant \<Rightarrow> string \<Rightarrow> string \<Rightarrow> authService \<Rightarrow> (authError + string \<times> bool) \<times> authService" where
  "Login lib now nonce response s0 =
     (case ttl_consume nonce now (as_nonces s0) of
        (ok, st) \<Rightarrow>
          let s = s0\<lparr>as_nonces := st\<rparr> in
          (if \<not> ok then Inl ErrInvalidNonce
           else if matchesProof lib response (as_password s) nonce then Inr (IssueToken lib now SessionDuration s, False)
           else case as_viewer s of
               None \<Rightarrow> Inl ErrInvalidPassword
             | Some v \<Rightarrow>
                 if matchesProof lib response (vs_password v) nonce
                 then Inr (viewer_issueToken lib now SessionDuration v, True) else Inl ErrInvalidPassword,
           s))"

text \<open>What \<open>humaLogin\<close> tells the throttle.\<close>

definition login_outcome :: "authError + string \<times> bool \<Rightarrow> loginOutcome" where
  "login_outcome res =
     (case res of Inl ErrInvalidNonce \<Rightarrow> LoginUnchecked | Inl ErrInvalidPassword \<Rightarrow> LoginWrongPassword | Inr _ \<Rightarrow> LoginSucceeded)"

text \<open>The handler of a ticket, given how the library splits the redirect into scheme, host and path.\<close>

record parsedURL =
  pu_scheme :: string
  pu_host :: string
  pu_path :: string

definition sanitizeLaunchRedirect :: "(string \<Rightarrow> parsedURL option) \<Rightarrow> string \<Rightarrow> string" where
  "sanitizeLaunchRedirect parse target =
     (case parse target of
        None \<Rightarrow> ''/''
      | Some u \<Rightarrow>
          if pu_scheme u \<noteq> [] \<or> pu_host u \<noteq> [] then ''/''
          else
            let p = pu_path u in
            if p = [] \<or> hd p \<noteq> CHR ''/'' \<or> CHR 0x5C \<in> set p \<or> (2 \<le> length p \<and> p ! 1 = CHR ''/'') then ''/'' else p)"

definition humaRedeemLaunchTicket ::
  "authLib \<Rightarrow> (string \<Rightarrow> parsedURL option) \<Rightarrow> instant \<Rightarrow> string \<Rightarrow> string \<Rightarrow> authService \<Rightarrow> (string \<times> string) option \<times> authService" where
  "humaRedeemLaunchTicket lib parse now ticket redirect s0 =
     (case ConsumeLaunchTicket ticket now s0 of
        (False, s) \<Rightarrow> (None, s)
      | (True, s) \<Rightarrow> (Some (sanitizeLaunchRedirect parse redirect, IssueToken lib now SessionDuration s), s))"

text \<open>The credential of a request: a bearer header first, then the cookie.\<close>

definition lower_ascii :: "char \<Rightarrow> char" where
  "lower_ascii c = (if CHR ''A'' \<le> c \<and> c \<le> CHR ''Z'' then char_of ((of_char c :: nat) + 32) else c)"

definition BearerToken :: "string \<Rightarrow> string" where
  "BearerToken authorization =
     (case Cut (CHR '' '') authorization of
        (scheme, token, found) \<Rightarrow>
          if \<not> found \<or> map lower_ascii scheme \<noteq> ''bearer'' then [] else TrimSpace token)"

definition TokenFromRequest :: "string \<Rightarrow> string option \<Rightarrow> string" where
  "TokenFromRequest authorization cookie =
     (let token = BearerToken authorization in if token \<noteq> [] then token else OrDefault cookie [])"

end
