(* ===== verification/Auth_Props.thy ===== *)
theory Auth_Props
  imports Auth
begin

text \<open>
  What the login boundary of \<open>Auth\<close> guarantees: a nonce or launch ticket is redeemed once and in time, the
  stores stay small but keep what was just minted, and a session token is accepted exactly when this
  daemon signed it and it has not expired.
\<close>

section \<open>Runs of a store\<close>

datatype storeOp = StoreCreate "string option" mapOrder instant | StoreConsume string instant

fun store_op :: "storeOp \<Rightarrow> ttlStore \<Rightarrow> bool \<times> ttlStore" where
  "store_op (StoreCreate gen order now) s = (case ttl_create gen order now s of (token, s') \<Rightarrow> (token \<noteq> None, s'))"
| "store_op (StoreConsume token now) s = ttl_consume token now s"

fun store_run :: "storeOp list \<Rightarrow> ttlStore \<Rightarrow> bool list \<times> ttlStore" where
  "store_run [] s = ([], s)"
| "store_run (x # xs) s =
     (case store_op x s of (ok, s') \<Rightarrow> (case store_run xs s' of (oks, s'') \<Rightarrow> (ok # oks, s'')))"

text \<open>What a token is worth after some operations, if nothing was ever evicted: the expiry of the last one
  minted, unless it was presented since.\<close>

fun worth :: "duration \<Rightarrow> string \<Rightarrow> instant option \<Rightarrow> storeOp list \<Rightarrow> instant option" where
  "worth ttl token v [] = v"
| "worth ttl token v (StoreCreate gen order now # xs) = worth ttl token (if gen = Some token then Some (now + ttl) else v) xs"
| "worth ttl token v (StoreConsume t now # xs) = worth ttl token (if t = token then None else v) xs"

fun sound_op :: "storeOp \<Rightarrow> bool" where
  "sound_op (StoreCreate gen order now) \<longleftrightarrow> gen \<noteq> Some [] \<and> (\<forall>xs. set (order xs) = set xs \<and> length (order xs) = length xs)"
| "sound_op (StoreConsume t now) \<longleftrightarrow> True"

section \<open>Eviction\<close>

lemma scan_entries:
  "snd (evict_scan now xs oldest oe es) = filter (\<lambda>(t, e). \<not> (\<exists>e'. (t, e') \<in> set xs \<and> e' < now)) es"
proof (induction now xs oldest oe es rule: evict_scan.induct)
  case (2 now token expiry xs oldest oldestExp es)
  then show ?case by (auto simp: AList.delete_eq intro!: filter_cong)
qed simp

lemma scan_oldest:
  assumes "\<forall>(t, e)\<in>set xs. t \<noteq> []" "oldest = [] \<longrightarrow> (\<exists>(t, e)\<in>set xs. \<not> e < now)"
  shows "\<exists>e0. ((fst (evict_scan now xs oldest oe es), e0) \<in> set xs \<and> \<not> e0 < now
      \<or> oldest \<noteq> [] \<and> fst (evict_scan now xs oldest oe es) = oldest \<and> e0 = oe)
    \<and> (\<forall>(t, e)\<in>set xs. \<not> e < now \<longrightarrow> e0 \<le> e) \<and> (oldest \<noteq> [] \<longrightarrow> e0 \<le> oe)"
  using assms
proof (induction now xs oldest oe es rule: evict_scan.induct)
  case (2 now token expiry xs oldest oe es)
  consider "expiry < now" | "\<not> expiry < now" "oldest = [] \<or> expiry < oe" | "\<not> expiry < now" "oldest \<noteq> []" "oe \<le> expiry"
    by force
  then show ?case
  proof cases
    case 1
    then have "oldest = [] \<longrightarrow> (\<exists>(t, e)\<in>set xs. \<not> e < now)" using "2.prems"(2) by auto
    then obtain e0 where "((fst (evict_scan now xs oldest oe (AList.delete token es)), e0) \<in> set xs \<and> \<not> e0 < now
        \<or> oldest \<noteq> [] \<and> fst (evict_scan now xs oldest oe (AList.delete token es)) = oldest \<and> e0 = oe)
      \<and> (\<forall>(t, e)\<in>set xs. \<not> e < now \<longrightarrow> e0 \<le> e) \<and> (oldest \<noteq> [] \<longrightarrow> e0 \<le> oe)"
      using "2.IH"(1) [OF 1] "2.prems"(1) by auto
    then show ?thesis using 1 by (intro exI [of _ e0]) auto
  next
    case 2
    have "token \<noteq> []" using "2.prems"(1) by simp
    then obtain e0 where "((fst (evict_scan now xs token expiry es), e0) \<in> set xs \<and> \<not> e0 < now
        \<or> fst (evict_scan now xs token expiry es) = token \<and> e0 = expiry)
      \<and> (\<forall>(t, e)\<in>set xs. \<not> e < now \<longrightarrow> e0 \<le> e) \<and> e0 \<le> expiry"
      using "2.IH"(2) 2 "2.prems"(1) by auto
    then show ?thesis using 2 by (intro exI [of _ e0]) auto
  next
    case 3
    then obtain e0 where "((fst (evict_scan now xs oldest oe es), e0) \<in> set xs \<and> \<not> e0 < now
        \<or> fst (evict_scan now xs oldest oe es) = oldest \<and> e0 = oe)
      \<and> (\<forall>(t, e)\<in>set xs. \<not> e < now \<longrightarrow> e0 \<le> e) \<and> e0 \<le> oe"
      using "2.IH"(3) "2.prems"(1) by auto
    then show ?thesis using 3 by (intro exI [of _ e0]) auto
  qed
qed auto

text \<open>The entries of a store: one per token, no empty token, not more than its size.\<close>

definition store_inv :: "ttlStore \<Rightarrow> bool" where
  "store_inv s \<longleftrightarrow> distinct (map fst (ts_entries s)) \<and> (\<forall>(t, e)\<in>set (ts_entries s). t \<noteq> []) \<and> length (ts_entries s) \<le> ts_size s
     \<and> 0 < ts_size s"

definition live :: "instant \<Rightarrow> ttlStore \<Rightarrow> (string \<times> instant) list" where
  "live now s = filter (\<lambda>(t, e). \<not> e < now) (ts_entries s)"

lemma evict_cases:
  assumes inv: "store_inv s" and order: "\<forall>xs. set (order xs) = set xs \<and> length (order xs) = length xs"
  obtains "length (live now s) < ts_size s" "ttl_evict order now s = s\<lparr>ts_entries := live now s\<rparr>"
  | t0 e0 where "ttl_evict order now s = s\<lparr>ts_entries := AList.delete t0 (live now s)\<rparr>" "(t0, e0) \<in> set (live now s)"
    "\<forall>(t, e)\<in>set (live now s). e0 \<le> e" "ts_size s \<le> length (live now s)"
proof -
  let ?E = "ts_entries s" and ?scan = "evict_scan now (order (ts_entries s)) [] zero_time (ts_entries s)"
  have "(\<exists>e'. (t, e') \<in> set ?E \<and> e' < now) \<longleftrightarrow> e < now" if "(t, e) \<in> set ?E" for t e
    using that inv eq_key_imp_eq_value [of ?E] by (auto simp: store_inv_def)
  then have l: "snd ?scan = live now s"
    using order by (auto simp: scan_entries live_def intro!: filter_cong)
  have e: "ttl_evict order now s = s\<lparr>ts_entries := if ts_size s \<le> length (live now s) then AList.delete (fst ?scan) (live now s) else live now s\<rparr>"
    using l by (simp add: ttl_evict_def case_prod_beta)
  show thesis
  proof (cases "ts_size s \<le> length (live now s)")
    case True
    then have "live now s \<noteq> []" using inv by (auto simp: store_inv_def)
    then have "\<exists>(t, e)\<in>set (order ?E). \<not> e < now"
      using order by (auto simp: live_def filter_empty_conv)
    moreover have "\<forall>(t, e)\<in>set (order ?E). t \<noteq> []" using inv order by (simp add: store_inv_def)
    ultimately obtain e0 where "(fst ?scan, e0) \<in> set (order ?E)" "\<not> e0 < now" "\<forall>(t, e)\<in>set (order ?E). \<not> e < now \<longrightarrow> e0 \<le> e"
      using scan_oldest [of "order ?E" "[]" now zero_time ?E] by blast
    then have "(fst ?scan, e0) \<in> set (live now s)" "\<forall>(t, e)\<in>set (live now s). e0 \<le> e" using order by (auto simp: live_def)
    then show thesis using that(2) [of "fst ?scan" e0] e True by simp
  next
    case False
    then show thesis using that(1) e by simp
  qed
qed

lemma live_facts:
  assumes "store_inv s"
  shows "distinct (map fst (live now s))" "map_of (live now s) t = Some e \<Longrightarrow> map_of (ts_entries s) t = Some e"
    "\<forall>(t, e)\<in>set (live now s). t \<noteq> []" "length (live now s) \<le> ts_size s"
proof -
  show d: "distinct (map fst (live now s))" using assms by (auto simp: live_def store_inv_def distinct_map_filter)
  show "map_of (ts_entries s) t = Some e" if "map_of (live now s) t = Some e"
    using map_of_SomeD [OF that] assms by (auto simp: live_def store_inv_def)
  show "\<forall>(t, e)\<in>set (live now s). t \<noteq> []" using assms by (auto simp: live_def store_inv_def)
  show "length (live now s) \<le> ts_size s"
    using assms le_trans [OF length_filter_le] unfolding live_def store_inv_def by blast
qed

lemma delete_length: "(k, v) \<in> set xs \<Longrightarrow> length (AList.delete k xs) < length xs"
  unfolding AList.delete_eq by (rule length_filter_less) auto

lemma evict_facts:
  assumes inv: "store_inv s" and order: "\<forall>xs. set (order xs) = set xs \<and> length (order xs) = length xs"
  shows "store_inv (ttl_evict order now s)" "length (ts_entries (ttl_evict order now s)) < ts_size s"
    "map_of (ts_entries (ttl_evict order now s)) t = Some e \<Longrightarrow> map_of (ts_entries s) t = Some e"
    "ts_size (ttl_evict order now s) = ts_size s" "ts_ttl (ttl_evict order now s) = ts_ttl s"
proof -
  have "store_inv (ttl_evict order now s) \<and> length (ts_entries (ttl_evict order now s)) < ts_size s
    \<and> (map_of (ts_entries (ttl_evict order now s)) t = Some e \<longrightarrow> map_of (ts_entries s) t = Some e)
    \<and> ts_size (ttl_evict order now s) = ts_size s \<and> ts_ttl (ttl_evict order now s) = ts_ttl s"
  proof (rule evict_cases [OF inv order, of now])
    assume "length (live now s) < ts_size s" "ttl_evict order now s = s\<lparr>ts_entries := live now s\<rparr>"
    then show ?thesis using live_facts [OF inv] inv by (simp add: store_inv_def)
  next
    fix t0 e0
    assume e: "ttl_evict order now s = s\<lparr>ts_entries := AList.delete t0 (live now s)\<rparr>" "(t0, e0) \<in> set (live now s)"
    have "length (AList.delete t0 (live now s)) < ts_size s"
      using delete_length [OF e(2)] live_facts(4) [OF inv, of now] by linarith
    moreover have "distinct (map fst (AList.delete t0 (live now s)))" using live_facts(1) [OF inv] by (rule distinct_delete)
    moreover have "\<forall>(t, e)\<in>set (AList.delete t0 (live now s)). t \<noteq> []"
      using live_facts(3) [OF inv] by (auto simp: AList.delete_eq)
    ultimately show ?thesis
      using live_facts(2) [OF inv] inv unfolding e(1) by (auto simp: store_inv_def delete_conv')
  qed
  then show "store_inv (ttl_evict order now s)" "length (ts_entries (ttl_evict order now s)) < ts_size s"
    "map_of (ts_entries (ttl_evict order now s)) t = Some e \<Longrightarrow> map_of (ts_entries s) t = Some e"
    "ts_size (ttl_evict order now s) = ts_size s" "ts_ttl (ttl_evict order now s) = ts_ttl s" by blast+
qed

text \<open>An unexpired token survives an eviction while fewer than a full store expire with or after it.\<close>

lemma evict_keeps:
  assumes inv: "store_inv s" and order: "\<forall>xs. set (order xs) = set xs \<and> length (order xs) = length xs"
    and t: "map_of (ts_entries s) t = Some e" "\<not> e < now" and few: "length (filter (\<lambda>(t, e'). e \<le> e') (ts_entries s)) < ts_size s"
  shows "map_of (ts_entries (ttl_evict order now s)) t = Some e"
proof -
  have "(t, e) \<in> set (live now s)" using map_of_SomeD [OF t(1)] t(2) by (simp add: live_def)
  then have l: "map_of (live now s) t = Some e" using live_facts(1) [OF inv] by simp
  show ?thesis
  proof (rule evict_cases [OF inv order, of now])
    fix t0 e0
    assume e: "ttl_evict order now s = s\<lparr>ts_entries := AList.delete t0 (live now s)\<rparr>" "(t0, e0) \<in> set (live now s)"
      "\<forall>(t, e)\<in>set (live now s). e0 \<le> e" "ts_size s \<le> length (live now s)"
    have "t0 \<noteq> t"
    proof
      assume "t0 = t"
      then have "e0 = e" using e(2) l live_facts(1) [OF inv, of now] by (metis map_of_is_SomeI option.inject)
      then have "live now s = filter (\<lambda>(t, e'). e \<le> e') (live now s)" using e(3) by (auto intro!: filter_True [symmetric])
      also have "length \<dots> \<le> length (filter (\<lambda>(t, e'). e \<le> e') (ts_entries s))"
      proof -
        have "filter P (filter Q xs) = filter Q (filter P xs)" for P Q :: "string \<times> instant \<Rightarrow> bool" and xs
          by (simp add: conj_commute)
        then show ?thesis unfolding live_def by (metis length_filter_le)
      qed
      finally show False using e(4) few by simp
    qed
    then show ?thesis using l e(1) by (simp add: delete_conv')
  qed (simp add: l)
qed

lemma update_length: "length (filter P (AList.update k v xs)) \<le> Suc (length (filter P xs))"
  by (induction xs) auto

lemma update_length_all: "length (AList.update k v xs) \<le> Suc (length xs)"
  using update_length [of "\<lambda>_. True"] by simp

text \<open>Making room and adding a token.\<close>

definition make_room :: "mapOrder \<Rightarrow> instant \<Rightarrow> ttlStore \<Rightarrow> ttlStore" where
  "make_room order now s = (if ts_size s \<le> length (ts_entries s) then ttl_evict order now s else s)"

lemma create_room:
  "ttl_create (Some token) order now s =
    (Some token, (make_room order now s)\<lparr>ts_entries := AList.update token (now + ts_ttl (make_room order now s)) (ts_entries (make_room order now s))\<rparr>)"
  by (simp add: ttl_create_def make_room_def Let_def)

lemma room_facts:
  assumes "store_inv s" "\<forall>xs. set (order xs) = set xs \<and> length (order xs) = length xs"
  shows "store_inv (make_room order now s)" "length (ts_entries (make_room order now s)) < ts_size s"
    "map_of (ts_entries (make_room order now s)) t = Some e \<Longrightarrow> map_of (ts_entries s) t = Some e"
    "ts_size (make_room order now s) = ts_size s" "ts_ttl (make_room order now s) = ts_ttl s"
  using evict_facts [OF assms, of now] assms(1)
  by (cases "ts_size s \<le> length (ts_entries s)"; simp add: make_room_def store_inv_def)+

lemma nonempty_keys: "(\<forall>(t, e)\<in>set xs. t \<noteq> []) \<longleftrightarrow> [] \<notin> fst ` set xs"
  by force

lemma store_op_ok:
  assumes inv: "store_inv s" and op: "sound_op x" and run: "store_op x s = (ok, s')"
  shows "store_inv s' \<and> ts_size s' = ts_size s \<and> ts_ttl s' = ts_ttl s"
    "\<lbrakk>\<And>e. map_of (ts_entries s) t = Some e \<Longrightarrow> v = Some e; map_of (ts_entries s') t = Some e\<rbrakk> \<Longrightarrow> worth (ts_ttl s) t v [x] = Some e"
proof -
  have "store_inv s' \<and> ts_size s' = ts_size s \<and> ts_ttl s' = ts_ttl s
    \<and> ((\<forall>e. map_of (ts_entries s) t = Some e \<longrightarrow> v = Some e) \<longrightarrow> map_of (ts_entries s') t = Some e \<longrightarrow> worth (ts_ttl s) t v [x] = Some e)"
  proof (cases x)
    case (StoreCreate gen order now)
    show ?thesis
    proof (cases gen)
      case None
      then show ?thesis using run inv StoreCreate by (auto simp: ttl_create_def)
    next
      case (Some token)
      have order: "\<forall>xs. set (order xs) = set xs \<and> length (order xs) = length xs" and token: "token \<noteq> []"
        using op StoreCreate Some by simp_all
      note room = room_facts [OF inv order, of now]
      let ?es = "ts_entries (make_room order now s)"
      have s': "s' = (make_room order now s)\<lparr>ts_entries := AList.update token (now + ts_ttl s) ?es\<rparr>"
        using run StoreCreate Some room by (simp add: create_room)
      have "length (AList.update token (now + ts_ttl s) ?es) \<le> ts_size s"
        using update_length_all [of token "now + ts_ttl s" ?es] room(2) by linarith
      moreover have "\<forall>(t, e)\<in>set (AList.update token (now + ts_ttl s) ?es). t \<noteq> []"
        using room(1) token unfolding nonempty_keys store_inv_def by (simp add: dom_update)
      ultimately have "store_inv s'" using room(1,4) by (simp add: s' store_inv_def distinct_update)
      moreover have "map_of (ts_entries s') t = (if t = token then Some (now + ts_ttl s) else map_of ?es t)"
        by (simp add: s' update_conv')
      moreover have "ts_size s' = ts_size s" "ts_ttl s' = ts_ttl s" using room(4,5) by (simp_all add: s')
      ultimately show ?thesis using room(3) [of t e] StoreCreate Some by (cases "t = token") simp_all
    qed
  next
    case (StoreConsume token now)
    have s': "s' = s\<lparr>ts_entries := AList.delete token (ts_entries s)\<rparr>" using run StoreConsume by (simp add: ttl_consume_def)
    have "length (AList.delete token (ts_entries s)) \<le> length (ts_entries s)" by (simp add: AList.delete_eq)
    moreover have "\<forall>(t, e)\<in>set (AList.delete token (ts_entries s)). t \<noteq> []"
      using inv by (auto simp: AList.delete_eq store_inv_def)
    ultimately have "store_inv s'" using inv distinct_delete [of "ts_entries s"] by (simp add: s' store_inv_def)
    then show ?thesis using StoreConsume by (auto simp: s' delete_conv')
  qed
  then show "store_inv s' \<and> ts_size s' = ts_size s \<and> ts_ttl s' = ts_ttl s"
    "\<lbrakk>\<And>e. map_of (ts_entries s) t = Some e \<Longrightarrow> v = Some e; map_of (ts_entries s') t = Some e\<rbrakk> \<Longrightarrow> worth (ts_ttl s) t v [x] = Some e"
    by blast+
qed

lemma worth_Cons: "worth ttl t v (x # xs) = worth ttl t (worth ttl t v [x]) xs"
  by (cases x) auto

lemma store_run_ok:
  assumes "store_inv s" "list_all sound_op ops" "store_run ops s = (res, s')"
  shows "store_inv s' \<and> ts_size s' = ts_size s \<and> ts_ttl s' = ts_ttl s"
    "\<lbrakk>\<And>e. map_of (ts_entries s) t = Some e \<Longrightarrow> v = Some e; map_of (ts_entries s') t = Some e\<rbrakk> \<Longrightarrow> worth (ts_ttl s) t v ops = Some e"
  using assms
proof (induction ops arbitrary: s res v)
  case Nil
  { case 1 then show ?case by auto next case 2 then show ?case by auto }
next
  case (Cons x ops)
  note hyps = Cons
  have one: "\<exists>ok s1 oks. store_op x s = (ok, s1) \<and> store_run ops s1 = (oks, s')" if "store_run (x # ops) s = (res, s')" for s res
    using that by (auto split: prod.splits)
  { case 1
    then show ?case using one [OF 1(3)] store_op_ok(1) [of s x] hyps(1) by fastforce
  next
    case 2
    obtain ok s1 oks where s1: "store_op x s = (ok, s1)" "store_run ops s1 = (oks, s')" using one [OF 2(5)] by blast
    have op: "sound_op x" "list_all sound_op ops" using 2(4) by simp_all
    note ok = store_op_ok [OF 2(3) op(1) s1(1)]
    have "worth (ts_ttl s1) t (worth (ts_ttl s) t v [x]) ops = Some e"
      using hyps(2) [of s1 "worth (ts_ttl s) t v [x]" oks] ok(1) ok(2) [of t v] op(2) s1(2) 2(1,2) by blast
    then show ?case using ok(1) by (subst worth_Cons) simp
  }
qed

section \<open>Single use\<close>

lemma new_store_inv: "0 < cap \<Longrightarrow> store_inv (newTTLStore cap ttl)"
  by (simp add: store_inv_def newTTLStore_def)

lemma store_run_nth:
  "store_run ops s = (res, s') \<Longrightarrow> i < length ops \<Longrightarrow> res ! i = fst (store_op (ops ! i) (snd (store_run (take i ops) s)))"
proof (induction ops arbitrary: s res i)
  case (Cons x ops)
  then show ?case by (cases i) (auto split: prod.splits)
qed simp

lemma consume_worth:
  assumes "list_all sound_op ops" "0 < cap" "store_run ops (newTTLStore cap ttl) = (res, s)" "fst (ttl_consume token now s)"
  shows "\<exists>e. worth ttl token None ops = Some e \<and> now \<le> e"
proof -
  obtain e where e: "map_of (ts_entries s) token = Some e" "now \<le> e"
    using assms(4) by (auto simp: ttl_consume_def split: option.splits)
  have "worth (ts_ttl (newTTLStore cap ttl)) token None ops = Some e"
    by (rule store_run_ok(2) [OF new_store_inv [OF assms(2)] assms(1,3) _ e(1)]) (simp add: newTTLStore_def)
  then show ?thesis using e(2) by (simp add: newTTLStore_def)
qed

text \<open>C32. A nonce or launch ticket is single-use and short-lived, and the store that remembers them bounded: in
  any sequence of mintings and redemptions, at any times and with any order of ranging over the map, a
  redemption succeeds only for a token that was minted, that was not presented (successfully or not)
  since, and at most its time to live ago; and the store never holds more than its size.\<close>

theorem tickets_single_use:
  assumes "list_all sound_op ops" "0 < cap" "store_run ops (newTTLStore cap ttl) = (res, s)"
    and "i < length ops" "ops ! i = StoreConsume token now" "res ! i"
  shows "length (ts_entries s) \<le> cap \<and> (\<exists>e. worth ttl token None (take i ops) = Some e \<and> now \<le> e)"
proof
  have "store_inv s \<and> ts_size s = cap"
    using store_run_ok(1) [OF new_store_inv [OF assms(2)] assms(1,3)] by (simp add: newTTLStore_def)
  then show "length (ts_entries s) \<le> cap" by (simp add: store_inv_def)
  obtain res1 s1 where run: "store_run (take i ops) (newTTLStore cap ttl) = (res1, s1)" by fastforce
  have "fst (ttl_consume token now s1)"
    using store_run_nth [OF assms(3,4)] assms(5,6) run by simp
  moreover have "list_all sound_op (take i ops)" using assms(1) by (auto simp: list_all_iff dest: in_set_takeD)
  ultimately show "\<exists>e. worth ttl token None (take i ops) = Some e \<and> now \<le> e"
    using consume_worth [OF _ assms(2) run] by blast
qed

section \<open>What was just minted can be used\<close>

lemma filter_less: "length (filter P (filter Q xs)) \<le> length (filter P xs)"
  by (induction xs) auto

lemma evict_filter:
  assumes "store_inv s" "\<forall>xs. set (order xs) = set xs \<and> length (order xs) = length xs"
  shows "length (filter P (ts_entries (ttl_evict order now s))) \<le> length (filter P (ts_entries s))"
proof -
  have live: "length (filter P (live now s)) \<le> length (filter P (ts_entries s))"
    unfolding live_def by (rule filter_less)
  have "length (filter P (AList.delete t (live now s))) \<le> length (filter P (live now s))" for t
    unfolding AList.delete_eq by (rule filter_less)
  with live show ?thesis by - (rule evict_cases [OF assms, of now], auto intro: le_trans)
qed

fun is_mint :: "storeOp \<Rightarrow> bool" where
  "is_mint (StoreCreate gen order now) \<longleftrightarrow> gen \<noteq> None"
| "is_mint (StoreConsume t now) \<longleftrightarrow> False"

fun op_before :: "instant \<Rightarrow> storeOp \<Rightarrow> bool" where
  "op_before now (StoreCreate gen order now') \<longleftrightarrow> now' < now"
| "op_before now (StoreConsume t now') \<longleftrightarrow> True"

fun op_after :: "instant \<Rightarrow> duration \<Rightarrow> string \<Rightarrow> storeOp \<Rightarrow> bool" where
  "op_after now ttl token (StoreCreate gen order now') \<longleftrightarrow> gen \<noteq> Some token \<and> now' \<le> now + ttl"
| "op_after now ttl token (StoreConsume t now') \<longleftrightarrow> t \<noteq> token"

lemma early_entries:
  "store_inv s \<Longrightarrow> list_all sound_op ops \<Longrightarrow> list_all (op_before now) ops \<Longrightarrow> store_run ops s = (res, s') \<Longrightarrow>
   (\<And>t e. map_of (ts_entries s) t = Some e \<Longrightarrow> e < now + ts_ttl s) \<Longrightarrow> map_of (ts_entries s') t = Some e \<Longrightarrow> e < now + ts_ttl s"
proof (induction ops arbitrary: s res t e)
  case (Cons x ops)
  obtain ok s1 oks where s1: "store_op x s = (ok, s1)" "store_run ops s1 = (oks, s')"
    using Cons.prems(4) by (auto split: prod.splits)
  have op: "sound_op x" "list_all sound_op ops" "list_all (op_before now) ops" "op_before now x" using Cons.prems(2,3) by simp_all
  note ok = store_op_ok(1) [OF Cons.prems(1) op(1) s1(1)]
  have "e' < now + ts_ttl s" if "map_of (ts_entries s1) t' = Some e'" for t' e'
  proof -
    have "worth (ts_ttl s) t' (map_of (ts_entries s) t') [x] = Some e'"
      by (rule store_op_ok(2) [OF Cons.prems(1) op(1) s1(1) _ that]) simp
    then show ?thesis using op(4) Cons.prems(5) by (cases x) (auto split: if_splits)
  qed
  then show ?case using Cons.IH [of s1 oks t e] ok op(2,3) s1(2) Cons.prems(6) by simp
qed simp

lemma kept_entry:
  "store_inv s \<Longrightarrow> list_all sound_op ops \<Longrightarrow> list_all (op_after now (ts_ttl s) token) ops \<Longrightarrow> store_run ops s = (res, s') \<Longrightarrow>
   map_of (ts_entries s) token = Some (now + ts_ttl s) \<Longrightarrow>
   length (filter (\<lambda>(t, e). now + ts_ttl s \<le> e) (ts_entries s)) + length (filter is_mint ops) \<le> ts_size s \<Longrightarrow>
   map_of (ts_entries s') token = Some (now + ts_ttl s)"
proof (induction ops arbitrary: s res)
  case (Cons x ops)
  obtain ok s1 oks where s1: "store_op x s = (ok, s1)" "store_run ops s1 = (oks, s')"
    using Cons.prems(4) by (auto split: prod.splits)
  let ?late = "\<lambda>s'. length (filter (\<lambda>(t, e). now + ts_ttl s \<le> e) (ts_entries s'))"
  have op: "sound_op x" "list_all sound_op ops" "list_all (op_after now (ts_ttl s) token) ops" "op_after now (ts_ttl s) token x"
    using Cons.prems(2,3) by simp_all
  note ok = store_op_ok(1) [OF Cons.prems(1) op(1) s1(1)]
  have "map_of (ts_entries s1) token = Some (now + ts_ttl s) \<and> ?late s1 + length (filter is_mint ops) \<le> ts_size s"
  proof (cases x)
    case (StoreCreate gen order now')
    show ?thesis
    proof (cases gen)
      case None
      then show ?thesis using s1(1) StoreCreate Cons.prems(5,6) by (auto simp: ttl_create_def)
    next
      case (Some minted)
      let ?room = "make_room order now' s"
      have order: "\<forall>xs. set (order xs) = set xs \<and> length (order xs) = length xs" using op(1) StoreCreate by simp
      note room = room_facts [OF Cons.prems(1) order, of now']
      have s1': "s1 = ?room\<lparr>ts_entries := AList.update minted (now' + ts_ttl s) (ts_entries ?room)\<rparr>"
        using s1(1) StoreCreate Some room by (simp add: create_room)
      have few: "?late s < ts_size s" using Cons.prems(6) StoreCreate Some by simp
      have "map_of (ts_entries ?room) token = Some (now + ts_ttl s)"
        using evict_keeps [OF Cons.prems(1) order Cons.prems(5) _ few] op(4) StoreCreate Cons.prems(5)
        by (auto simp: make_room_def)
      moreover have "?late ?room \<le> ?late s"
        using evict_filter [OF Cons.prems(1) order] by (simp add: make_room_def)
      ultimately show ?thesis
        using op(4) StoreCreate Some Cons.prems(6) update_length [of "\<lambda>(t, e). now + ts_ttl s \<le> e" minted "now' + ts_ttl s" "ts_entries ?room"]
        by (auto simp: s1' update_conv')
    qed
  next
    case (StoreConsume t now')
    have "?late s1 \<le> ?late s"
      using s1(1) StoreConsume by (auto simp: ttl_consume_def AList.delete_eq simp del: filter_filter intro: filter_less)
    then show ?thesis using s1(1) StoreConsume Cons.prems(5,6) op(4) by (auto simp: ttl_consume_def delete_conv')
  qed
  then show ?case using Cons.IH [of s1 oks] ok op(2,3) s1(2) by simp
qed simp

lemma store_run_append:
  "store_run (xs @ ys) s = (let (oks, s') = store_run xs s; (oks', s'') = store_run ys s' in (oks @ oks', s''))"
  by (induction xs arbitrary: s) (auto simp: case_prod_beta Let_def)

text \<open>C33. A flood of others' requests cannot spend what was just minted. A nonce or ticket, minted at a later
  clock than those before it, is redeemable until its expiry unless it was presented or as many tokens as the
  store holds were minted after it: when the
  store is full, expired tokens go first and then the oldest, whatever the order of ranging over the map.\<close>

theorem store_keeps_recent:
  assumes "list_all sound_op (before @ StoreCreate (Some token) order now # after)"
    and "list_all (op_before now) before" "list_all (op_after now ttl token) after"
    and "length (filter is_mint after) < cap" "later \<le> now + ttl"
    and "store_run (before @ StoreCreate (Some token) order now # after) (newTTLStore cap ttl) = (res, s)"
  shows "fst (ttl_consume token later s)"
proof -
  let ?s0 = "newTTLStore cap ttl"
  have sound: "list_all sound_op before" "sound_op (StoreCreate (Some token) order now)" "list_all sound_op after"
    using assms(1) by simp_all
  have new: "store_inv ?s0" "ts_ttl ?s0 = ttl" "ts_size ?s0 = cap"
    using assms(4) new_store_inv [of cap ttl] by (auto simp: newTTLStore_def)
  obtain res1 s1 ok s2 res2 where runs: "store_run before ?s0 = (res1, s1)" "store_op (StoreCreate (Some token) order now) s1 = (ok, s2)"
      "store_run after s2 = (res2, s)"
    using assms(6) by (auto simp: store_run_append Let_def split: prod.splits simp del: store_op.simps)
  have s1: "store_inv s1" "ts_ttl s1 = ttl" "ts_size s1 = cap"
    using store_run_ok(1) [OF new(1) sound(1) runs(1)] new by simp_all
  note s2 = store_op_ok(1) [OF s1(1) sound(2) runs(2)]
  have early: "e < now + ttl" if "map_of (ts_entries s1) t = Some e" for t e
    using early_entries [OF new(1) sound(1) assms(2) runs(1) _ that] new(2) by (simp add: newTTLStore_def)
  let ?room = "make_room order now s1"
  have order: "\<forall>xs. set (order xs) = set xs \<and> length (order xs) = length xs" using sound(2) by simp
  note room = room_facts [OF s1(1) order, of now]
  have s2': "s2 = ?room\<lparr>ts_entries := AList.update token (now + ttl) (ts_entries ?room)\<rparr>"
    using runs(2) room(5) s1(2) by (simp add: create_room)
  have "filter (\<lambda>(t, e). now + ttl \<le> e) (ts_entries ?room) = []"
    using early room(3) room(1) by (force simp: filter_empty_conv store_inv_def)
  then have "length (filter (\<lambda>(t, e). now + ttl \<le> e) (ts_entries s2)) \<le> 1"
    using update_length [of "\<lambda>(t, e). now + ttl \<le> e" token "now + ttl" "ts_entries ?room"] by (simp add: s2')
  moreover have "map_of (ts_entries s2) token = Some (now + ttl)" by (simp add: s2' update_conv')
  ultimately have "map_of (ts_entries s) token = Some (now + ttl)"
    using kept_entry [of s2 after now token res2 s] s2 s1 sound(3) assms(3,4) runs(3) by simp
  then show ?thesis using assms(5) by (simp add: ttl_consume_def)
qed

section \<open>Session tokens\<close>

lemma Cut_at: "c \<notin> set b \<Longrightarrow> Cut c (b @ c # a) = (b, a, True)"
  by (induction b) auto

lemma Cut_none: "c \<notin> set b \<Longrightarrow> Cut c b = (b, [], False)"
  by (induction b) auto

text \<open>C34. A session token is accepted exactly when this daemon signed it and it has not expired. A full token is
  the expiry and its signature under the session key, a read-only one carries the viewer role under
  the key of the viewer password, and no token passes for the other kind: in particular a viewer cannot
  make a full token of his own, and none is accepted once the viewer password is unset. (Static API
  tokens apart; the signature is any function whose base64 text has no dot.)\<close>

theorem session_token_exact:
  assumes "\<And>x. CHR ''.'' \<notin> set (al_base64 lib x)" and "\<not> snd (matchAPIToken lib token s)"
  shows "VerifyToken lib now token s = (readOnly, True) \<longleftrightarrow>
    (\<exists>e unix. CHR ''.'' \<notin> set e \<and> Atoi e = Some unix \<and> now < unix * second
      \<and> (\<not> readOnly \<and> token = e @ ''.'' @ sign lib (as_sessionKey s) e
         \<or> readOnly \<and> (\<exists>v. as_viewer s = Some v \<and> token = e @ ''.viewer.'' @ sign lib (vs_key v) (e @ ''.viewer''))))"
    (is "?accepted \<longleftrightarrow> ?signed")
proof
  obtain x where api: "matchAPIToken lib token s = (x, False)" using assms(2) by (metis prod.collapse)
  assume ?accepted
  obtain e rest ok where cut: "Cut (CHR ''.'') token = (e, rest, ok)" by (metis prod_cases3)
  obtain role mac hasRole where cut2: "Cut (CHR ''.'') rest = (role, mac, hasRole)" by (metis prod_cases3)
  from \<open>?accepted\<close> obtain unix where unix: "Atoi e = Some unix" ok "now < unix * second"
    using api cut by (auto simp: VerifyToken_def TokenExpiry_def split: option.splits if_splits prod.splits)
  then have token: "token = e @ CHR ''.'' # rest" "CHR ''.'' \<notin> set e" using Cut_found [of _ token] cut by auto
  show ?signed
  proof (cases hasRole)
    case True
    then have "rest = role @ CHR ''.'' # mac" using Cut_found cut2 by simp
    moreover from \<open>?accepted\<close> True obtain v where "as_viewer s = Some v" "role = viewerRole" readOnly
        "mac = sign lib (vs_key v) (e @ ''.'' @ viewerRole)"
      using api cut cut2 unix by (auto simp: VerifyToken_def TokenExpiry_def split: option.splits if_splits)
    ultimately show ?thesis using token unix by (auto simp: viewerRole_def)
  next
    case False
    then show ?thesis
      using \<open>?accepted\<close> api cut cut2 unix token by (auto simp: VerifyToken_def TokenExpiry_def)
  qed
next
  obtain x where api: "matchAPIToken lib token s = (x, False)" using assms(2) by (metis prod.collapse)
  have nodot: "CHR ''.'' \<notin> set (sign lib k p)" for k p by (simp add: sign_def assms(1))
  assume ?signed
  then obtain e unix where e: "CHR ''.'' \<notin> set e" "Atoi e = Some unix" "now < unix * second"
    and form: "\<not> readOnly \<and> token = e @ ''.'' @ sign lib (as_sessionKey s) e
      \<or> readOnly \<and> (\<exists>v. as_viewer s = Some v \<and> token = e @ ''.viewer.'' @ sign lib (vs_key v) (e @ ''.viewer''))"
    by blast
  from form show ?accepted
  proof
    assume a: "\<not> readOnly \<and> token = e @ ''.'' @ sign lib (as_sessionKey s) e"
    then have "Cut (CHR ''.'') token = (e, sign lib (as_sessionKey s) e, True)" using Cut_at [OF e(1)] by simp
    then show ?thesis using a e api Cut_none [OF nodot] by (simp add: VerifyToken_def TokenExpiry_def)
  next
    assume "readOnly \<and> (\<exists>v. as_viewer s = Some v \<and> token = e @ ''.viewer.'' @ sign lib (vs_key v) (e @ ''.viewer''))"
    then obtain v where v: readOnly "as_viewer s = Some v" "token = e @ CHR ''.'' # (viewerRole @ CHR ''.'' # sign lib (vs_key v) (e @ ''.viewer''))"
      by (auto simp: viewerRole_def)
    have "Cut (CHR ''.'') token = (e, viewerRole @ CHR ''.'' # sign lib (vs_key v) (e @ ''.viewer''), True)"
      unfolding v(3) by (rule Cut_at [OF e(1)])
    moreover have "Cut (CHR ''.'') (viewerRole @ CHR ''.'' # sign lib (vs_key v) (e @ ''.viewer''))
        = (viewerRole, sign lib (vs_key v) (e @ ''.viewer''), True)"
      by (rule Cut_at) (simp add: viewerRole_def)
    ultimately show ?thesis using v(1,2) e api by (simp add: VerifyToken_def TokenExpiry_def viewerRole_def)
  qed
qed

text \<open>C19. A login needs a fresh proof of a password. If it succeeds after any history of challenges and logins, its
  nonce was minted by this daemon at most five minutes ago and never presented before, the response is
  the proof of a password for that nonce, of the admin's for a full session and of the viewer's for a
  read-only one, and the same nonce opens nothing again, whatever is answered to it.\<close>

theorem login_sound:
  assumes "list_all sound_op ops" and "store_run ops newNonceStore = (res, as_nonces s)"
    and "Login lib now nonce response s = (Inr (token, readOnly), s')"
  shows "(\<exists>e. worth nonceTTL nonce None ops = Some e \<and> now \<le> e)
    \<and> (if readOnly then \<exists>v. as_viewer s = Some v \<and> response = chap_Response lib (vs_password v) nonce
       else response = chap_Response lib (as_password s) nonce)
    \<and> (\<forall>now' response'. fst (Login lib now' nonce response' s') = Inl ErrInvalidNonce)"
proof -
  obtain ok st where c: "ttl_consume nonce now (as_nonces s) = (ok, st)" by fastforce
  have ok: ok and s': "s' = s\<lparr>as_nonces := st\<rparr>"
    using assms(3) c by (auto simp: Login_def Let_def split: if_splits option.splits)
  have "\<exists>e. worth nonceTTL nonce None ops = Some e \<and> now \<le> e"
    using consume_worth [OF assms(1), of 1000 nonceTTL res "as_nonces s" nonce now] assms(2) c ok by (simp add: newNonceStore_def)
  moreover have "if readOnly then \<exists>v. as_viewer s = Some v \<and> response = chap_Response lib (vs_password v) nonce
       else response = chap_Response lib (as_password s) nonce"
    using assms(3) c ok by (auto simp: Login_def Let_def matchesProof_def split: if_splits option.splits)
  moreover have "map_of (ts_entries st) nonce = None" using c by (auto simp: ttl_consume_def delete_conv')
  then have "fst (Login lib now' nonce response' s') = Inl ErrInvalidNonce" for now' response'
    by (simp add: s' Login_def ttl_consume_def)
  ultimately show ?thesis by blast
qed

section \<open>The properties on concrete runs\<close>

definition toy_auth :: authLib where
  "toy_auth = \<lparr>al_sha256 = (\<lambda>s. s), al_hmac = (\<lambda>k p. k @ p), al_base64 = hex_EncodeToString, al_pbkdf2 = (\<lambda>p salt n l. p @ salt)\<rparr>"

definition toy_ops :: "storeOp list" where
  "toy_ops = [StoreCreate (Some ''n1'') (\<lambda>xs. xs) 0, StoreConsume ''n1'' 5, StoreConsume ''n1'' 6, StoreCreate (Some ''n2'') rev 7]"

definition toy_service :: authService where
  "toy_service = SetViewerPassword toy_auth ''look''
     \<lparr>as_sessionKey = ''key'', as_password = ''secret'', as_nonces = snd (store_run toy_ops newNonceStore),
      as_tickets = newLaunchTicketStore, as_viewer = None, as_tokens = None\<rparr>"

lemma toy_sound: "list_all sound_op toy_ops"
  by (simp add: toy_ops_def)

lemma hex_no_dot: "CHR ''.'' \<notin> set (hex_EncodeToString x)"
proof -
  have all: "\<forall>n\<in>set [0..<16]. hex_nibble n \<noteq> CHR ''.''" by code_simp
  have low: "hex_nibble n \<noteq> CHR ''.''" if "n < 16" for n using bspec [OF all, of n] that by simp
  have "hex_nibble (of_char c div 16) \<noteq> CHR ''.''" "hex_nibble (of_char c mod 16) \<noteq> CHR ''.''" for c
    using nat_of_char_less_256 [of c] by (simp_all add: low less_mult_imp_div_less)
  then have "\<forall>y\<in>set (hex_EncodeToString x). y \<noteq> CHR ''.''" unfolding hex_EncodeToString_def by simp
  then show ?thesis by blast
qed

theorem tickets_single_use_witness:
  "fst (store_run toy_ops newNonceStore) = [True, True, False, True]
   \<and> (\<exists>e. worth nonceTTL ''n1'' None (take 1 toy_ops) = Some e \<and> 5 \<le> e)"
proof -
  have run: "fst (store_run toy_ops newNonceStore) = [True, True, False, True]" by code_simp
  then have "store_run toy_ops (newTTLStore 1000 nonceTTL) = ([True, True, False, True], snd (store_run toy_ops newNonceStore))"
    by (simp add: newNonceStore_def prod_eq_iff)
  from tickets_single_use [OF toy_sound _ this, of 1 "''n1''" 5] show ?thesis using run by (simp add: toy_ops_def)
qed

theorem store_keeps_recent_witness:
  "fst (ttl_consume ''n2'' 9 (snd (store_run (toy_ops @ [StoreCreate (Some ''n3'') rev 8]) (newTTLStore 2 10))))"
proof -
  let ?before = "[StoreCreate (Some ''n1'') (\<lambda>xs. xs) 0, StoreConsume ''n1'' 5, StoreConsume ''n1'' 6]"
  obtain res s where run: "store_run (?before @ StoreCreate (Some ''n2'') rev 7 # [StoreCreate (Some ''n3'') rev 8]) (newTTLStore 2 10) = (res, s)"
    by fastforce
  have "fst (ttl_consume ''n2'' 9 s)" by (rule store_keeps_recent [OF _ _ _ _ _ run]) simp_all
  then show ?thesis using run by (simp add: toy_ops_def)
qed

theorem session_token_exact_witness:
  "VerifyToken toy_auth (3 * second) (''90.viewer.'' @ sign toy_auth (''key'' @ viewerKDFInfo @ [CHR 0x00] @ ''look'') ''90.viewer'') toy_service = (True, True)
   \<and> VerifyToken toy_auth (95 * second) (''90.'' @ sign toy_auth ''key'' ''90'') toy_service \<noteq> (False, True)"
proof -
  have nodot: "CHR ''.'' \<notin> set (al_base64 toy_auth x)" for x by (simp add: toy_auth_def hex_no_dot)
  have api: "\<not> snd (matchAPIToken toy_auth token toy_service)" for token
    by (simp add: matchAPIToken_def toy_service_def SetViewerPassword_def)
  have v: "as_viewer toy_service = Some (newViewerSecret toy_auth ''look'' toy_service)" "as_sessionKey toy_service = ''key''"
    "vs_key (newViewerSecret toy_auth ''look'' toy_service) = ''key'' @ viewerKDFInfo @ [CHR 0x00] @ ''look''"
    by (simp_all add: toy_service_def SetViewerPassword_def newViewerSecret_def toy_auth_def)
  have ninety: "Atoi ''90'' = Some 90" by code_simp
  have "VerifyToken toy_auth (3 * second) (''90.viewer.'' @ sign toy_auth (''key'' @ viewerKDFInfo @ [CHR 0x00] @ ''look'') ''90.viewer'') toy_service = (True, True)"
    unfolding session_token_exact [OF nodot api]
    by (rule exI [of _ "''90''"], rule exI [of _ 90]) (simp add: ninety v time_defs)
  moreover have "VerifyToken toy_auth (95 * second) (''90.'' @ sign toy_auth ''key'' ''90'') toy_service \<noteq> (False, True)"
  proof
    assume "VerifyToken toy_auth (95 * second) (''90.'' @ sign toy_auth ''key'' ''90'') toy_service = (False, True)"
    then obtain e unix where e: "CHR ''.'' \<notin> set e" "Atoi e = Some unix" "95 * second < unix * second"
        "''90.'' @ sign toy_auth ''key'' ''90'' = e @ ''.'' @ sign toy_auth ''key'' e"
      unfolding session_token_exact [OF nodot api] v(2) by auto
    have c: "Cut (CHR ''.'') (''90.'' @ sign toy_auth ''key'' ''90'') = (''90'', sign toy_auth ''key'' ''90'', True)"
      using Cut_at [of "CHR ''.''" "''90''"] by simp
    have "Cut (CHR ''.'') (e @ ''.'' @ sign toy_auth ''key'' e) = (e, sign toy_auth ''key'' e, True)"
      using Cut_at [OF e(1)] by simp
    with c e(4) have "e = ''90''" by (metis prod.inject)
    then show False using e(2,3) ninety by (simp add: time_defs)
  qed
  ultimately show ?thesis by blast
qed

theorem login_sound_witness:
  "\<exists>token s'. Login toy_auth 20 ''n2'' (chap_Response toy_auth ''secret'' ''n2'') toy_service = (Inr (token, False), s')
     \<and> fst (Login toy_auth 21 ''n2'' (chap_Response toy_auth ''secret'' ''n2'') s') = Inl ErrInvalidNonce"
proof -
  have "fst (ttl_consume ''n2'' 20 (snd (store_run toy_ops newNonceStore)))" by code_simp
  then obtain token s' where run: "Login toy_auth 20 ''n2'' (chap_Response toy_auth ''secret'' ''n2'') toy_service = (Inr (token, False), s')"
    by (simp add: Login_def Let_def case_prod_beta matchesProof_def toy_service_def SetViewerPassword_def)
  have "store_run toy_ops newNonceStore = (fst (store_run toy_ops newNonceStore), as_nonces toy_service)"
    by (simp add: toy_service_def SetViewerPassword_def)
  from login_sound [OF toy_sound this run] show ?thesis using run by blast
qed

end
