(* ===== verification/Spec2Isabelle.thy ===== *)
theory Spec2Isabelle
  imports Manager_Props World Service_Order Coalesce Notify_Inapp Notify_Retry Retention Health Persistence Log_Limits Sidecar Terminal_Plain Auth_Props
begin

text \<open>
  A model of the RunWisp daemon, the scheduler and process supervisor of \<open>apps/runwisp\<close> (Go). Paths
  below are relative to \<open>src/apps/runwisp/internal/\<close>, but for \<open>cmd/\<close>, which is beside it.

  \<^bold>\<open>How the program is put together.\<close> A configuration names tasks (run on a cron schedule, at boot or
  on demand) and services (kept running in several instances). The \<^emph>\<open>scheduler\<close> turns schedules into
  triggers; a trigger goes through the \<^emph>\<open>jitter gate\<close>, which may hold it back, to the \<^emph>\<open>task manager\<close>,
  which starts, queues or skips a run, retries failed ones and drives the \<^emph>\<open>supervisor\<close> of each service.
  A run's output passes the \<^emph>\<open>terminal renderer\<close> and the \<^emph>\<open>log writer\<close>; its transitions are \<^emph>\<open>persisted\<close>
  by one worker and published as events, from which the \<^emph>\<open>notification\<close> pipeline makes messages.
  A \<^emph>\<open>reload\<close> carries registry, manager, scheduler and database from one configuration to the next;
  at boot pending runs are \<^emph>\<open>recovered\<close> and missed ticks \<^emph>\<open>caught up\<close>; \<^emph>\<open>retention\<close> deletes what is old.
  The web server lets in whoever passes the \<^emph>\<open>login\<close>.

  \<^bold>\<open>Conventions.\<close> A method that runs under one mutex is a function on a record of the state that mutex
  guards; what its goroutines interleave is a relation of steps. Errors are values of an option or sum
  type, time and every answer of the environment (the clock, the disk, a query that fails, what a
  child process or a probe answers) are arguments. Durations are nanoseconds as ints, wrapped at 64
  bits where the code computes with values that can overflow. A Go map is an association list read
  with \<open>map_of\<close>, in an order that is the list's or an argument. What is written by others (go-cron, the
  time zone database, regular expressions, JSON, cryptography, the decoder of escape sequences) is a
  parameter, and a property that relies on its documented behaviour says so as a hypothesis.
\<close>

section \<open>The theories\<close>

text \<open>
  \<^bold>\<open>Base.\<close> \<open>Prelude\<close>: Go's strings, integers and times, generic facts, and the locale \<open>step_machine\<close> for
  invariants of reachable states, which each state machine below interprets.
  \<open>Task_Model\<close>: the data of \<open>model/\<close>.
  \<open>Failures\<close>: the failures grammar (\<open>model/failure.go\<close>); parsing resolves soundly and round-trips.
  \<open>Params\<close>: run parameters (\<open>model/param.go\<close>, \<open>config/validate.go\<close>).
  \<open>Byte_Size\<close>: sizes (\<open>config/size.go\<close>).

  \<^bold>\<open>Runs.\<close> \<open>Retry\<close>: \<open>runtime/retry/policy.go\<close>, with the locale \<open>delay_curve\<close> for its two curves.
  \<open>Supervisor\<close>: \<open>runtime/services/supervisor.go\<close>, providing the locale \<open>slot_pool\<close>.
  \<open>Jitter_Place\<close> and \<open>Jitter_Gate\<close>: \<open>runtime/jitter/place.go\<close>, \<open>runtime/jitter_gate.go\<close>. The placement is
  optimal; the gate loses no fire, whatever manager answers its hook (locale \<open>run_hook\<close>).
  \<open>Manager\<close> and \<open>Manager_Ops\<close>: the state and every operation of the task manager (\<open>runtime/manager*.go\<close>,
  \<open>taskstate.go\<close>, \<open>retry.go\<close>, \<open>service_health.go\<close>). \<open>Manager_Inv\<close>, \<open>Daemon\<close> and \<open>Manager_Props\<close>: gate and
  manager as one machine, its invariant, and the properties of its reachable states (slots, wake-ups,
  concurrency limits, recovery).
  \<open>Health\<close>: \<open>runtime/health/watcher.go\<close> and the killer of a run, equal to a count of failed checks.
  \<open>Persistence\<close>: \<open>runtime/persistence.go\<close>, the transitions that enter the channel applied once and in order.

  \<^bold>\<open>Schedules.\<close> \<open>Cronspec\<close> and \<open>Ticks\<close>: the program's own part of cron (\<open>cronspec/\<close>, the DST handling of
  \<open>runtime/scheduler.go\<close> and \<open>catchup.go\<close>). \<open>Registrations\<close>: the task records of \<open>storage/database.go\<close>.
  \<open>Scheduler\<close>, \<open>Scheduler_Inv\<close>, \<open>Scheduler_Props\<close>: \<open>runtime/scheduler.go\<close>, refining a table from names to
  schedules, over the interface to the manager (locale \<open>run_trigger\<close>).
  \<open>Catchup\<close>: \<open>runtime/catchup.go\<close>, equal to what a scheduler that remembers no fire would have started.
  \<open>Startup\<close>: \<open>runtime/runonstart.go\<close>. \<open>Cron_Holds\<close>: the tasks that stand down for a live system cron
  (\<open>cronprobe/\<close>, \<open>importer/cronpaths.go\<close>, \<open>importer/anacron.go\<close>, \<open>runtime/cronhold.go\<close>).

  \<^bold>\<open>Configuration and composition.\<close> \<open>Reconcile\<close>: diff, registry and reconciler (\<open>config/diff.go\<close>,
  \<open>runtime/registry.go\<close>, \<open>runtime/reconcile.go\<close>). \<open>Definitions_Kept\<close>, \<open>Reload_Manager\<close>, \<open>Reload_Props\<close>: what
  a reload changes and what it leaves alone. \<open>World\<close>: the boot and everything that can happen after it
  as one machine; registry, manager and scheduler stay in step with the configuration, and a reload
  ends in step with the new one. \<open>Service_Order\<close>: the start and stop order of services and the check of
  their dependencies (\<open>cmd/runwisp/daemon_services.go\<close>, \<open>config/validate.go\<close>).

  \<^bold>\<open>Notifications.\<close> \<open>Notify_Event\<close> (\<open>notify/event.go\<close>, \<open>bridge.go\<close>, \<open>router.go\<close>): vocabulary and routing.
  \<open>Notify_Dispatch\<close> (\<open>notify/dispatcher.go\<close>): the bounded queues as steps racing with the worker.
  \<open>Coalesce\<close> (\<open>notify/coalesce/\<close>): every event is delivered, summarised, given up or pending.
  \<open>Notify_Inapp\<close> (the bell and its table), \<open>Notify_Retry\<close> (\<open>notify/retry.go\<close>).

  \<^bold>\<open>Output and its keeping.\<close> \<open>Terminal\<close> and \<open>Terminal_Plain\<close>: \<open>executor/terminal_renderer.go\<close>; its region is
  bounded, which token never returns, and plain text gives its lines less their trailing blanks.
  \<open>Log_Writer\<close> (\<open>executor/log_writer.go\<close>), \<open>Log_Lines\<close> (\<open>logutil/log_index.go\<close>), \<open>Sidecar\<close>
  (\<open>logutil/sidecar.go\<close>), \<open>Log_Props\<close> and \<open>Log_Limits\<close>: what the files hold is read back, each line under the number its
  write returned, over rotations and a torn container; the size of a capped log; what a failed
  rotation does.
  \<open>Retention\<close>: \<open>runtime/retention.go\<close> and \<open>softdelete_purger.go\<close> as sequences of atomic deletions, safe to
  interrupt anywhere but for the files that cannot be removed, with a size cap that is exact when
  nothing fails.

  \<^bold>\<open>Access.\<close> \<open>Login_Throttle\<close> (\<open>server/login_throttle.go\<close>): concurrent requests and the rate at which a
  password can be guessed. \<open>Auth\<close> and \<open>Auth_Props\<close> (\<open>server/auth/auth.go\<close>, \<open>chap/\<close>): single-use nonces
  and tickets, session tokens, the login.
\<close>

section \<open>Bounds and fuel\<close>

text \<open>
  Loops are structural or have a measure, but for four of them. The search for the next tick (\<open>Cronspec.gap_walk\<close>,
  \<open>Ticks.next_loop\<close>) and the filling of a tab (\<open>Terminal.tab_fill\<close>) are partial functions whose value is
  \<open>None\<close> when they do not return; \<open>gap_next_returns\<close>, \<open>next_loop_correct\<close> (as far as the schedule has
  ticks) and \<open>only_far_tab_hangs\<close> say when they do. The retry
  loop of \<open>Notify_Retry\<close> takes fuel, and \<open>retry_ends\<close> shows that its time budget in nanoseconds, plus
  one, is always enough. Constants (limits, windows, sizes) are those of the source.
\<close>

section \<open>Not modelled\<close>

text \<open>
  Starting processes, containers and HTTP calls, and everything else that is system calls (installation as
  a system service, self-update, sockets, lock files, process statistics). The HTTP server's routing and
  handlers around the modelled operations, and the station link, a client of a protocol generated
  elsewhere. The generated SQL layer: the queries in use are translated from their SQL. Decoding of TOML
  and the merging and rewriting of configuration files; the importers of other schedulers' files but for
  the ownership of cron files. Templates and transports of notifications. The terminal user interface and
  the command line. Of modelled parts: the start and stop of goroutines around them, the walk of the log
  directory (retention takes a run's three files and the size of the rest), cookies and the detection
  of TLS, and the parsing of HTTP dates.
\<close>

end
